(* ===== verification/Prelude.thy ===== *)
theory Prelude
  imports Main "HOL-Library.Word"
begin

text \<open>
  Shared vocabulary of the development: the machine types of the C sources, the scanning loop
  that most of the slot allocators are written with, the byte bitmaps of \<^verbatim>\<open>lsmindex.h\<close>
  (\<^verbatim>\<open>IS_SLOT_SET\<close>, \<^verbatim>\<open>SET_SLOT\<close>, \<^verbatim>\<open>CLEAR_SLOT\<close>, \<^verbatim>\<open>GET_BITMAP_SIZE\<close>) and the interface
  through which the other components use them (locale \<open>tombstone_bitmap\<close>).
\<close>

unbundle bit_operations_syntax

named_theorems slot_simps \<open>evaluation of the bitmap macros on bytes\<close>
named_theorems scan_simps \<open>unfolding of bounded scan loops\<close>

type_synonym u8 = "8 word"
type_synonym u16 = "16 word"
type_synonym u32 = "32 word"
type_synonym u64 = "64 word"
type_synonym i64 = "64 word"
type_synonym SegmentId = u32
type_synonym oid = u32
type_synonym bitmap = "u8 list"

abbreviation UINT32_MAX :: u32 where
  "UINT32_MAX \<equiv> 0xFFFFFFFF"

text \<open>Number of index slots in shared memory.\<close>

definition INDEX_BUF_SIZE :: nat where "INDEX_BUF_SIZE = 8"

section \<open>Bounded scans\<close>

text \<open>
  \<^verbatim>\<open>for (i = lo; i < hi; i++) if (P(i)) { found = i; break; }\<close>, the loop shape of every slot
  search of the sources.
\<close>

function first_from :: "(nat \<Rightarrow> bool) \<Rightarrow> nat \<Rightarrow> nat \<Rightarrow> nat option" where
  "first_from P lo hi =
     (if lo < hi then (if P lo then Some lo else first_from P (Suc lo) hi) else None)"
  by pat_completeness auto
termination
  by (relation "measure (\<lambda>(P, lo, hi). hi - lo)") auto

declare first_from.simps [simp del, scan_simps]

lemma first_from_SomeD:
  "first_from P lo hi = Some i \<Longrightarrow> lo \<le> i \<and> i < hi \<and> P i \<and> (\<forall>j. lo \<le> j \<longrightarrow> j < i \<longrightarrow> \<not> P j)"
proof (induction P lo hi rule: first_from.induct)
  case (1 P lo hi)
  show ?case
  proof (cases "lo < hi \<and> \<not> P lo")
    case True
    with "1.prems" have "first_from P (Suc lo) hi = Some i"
      by (simp add: first_from.simps [of P lo hi])
    with True "1.IH" have "Suc lo \<le> i \<and> i < hi \<and> P i \<and> (\<forall>j. Suc lo \<le> j \<longrightarrow> j < i \<longrightarrow> \<not> P j)"
      by simp
    with True show ?thesis
      by (metis Suc_leD Suc_leI le_neq_implies_less)
  next
    case False
    with "1.prems" show ?thesis
      by (auto simp: first_from.simps [of P lo hi] split: if_splits)
  qed
qed

lemma first_from_None_iff:
  "first_from P lo hi = None \<longleftrightarrow> (\<forall>j. lo \<le> j \<longrightarrow> j < hi \<longrightarrow> \<not> P j)"
proof (induction P lo hi rule: first_from.induct)
  case (1 P lo hi)
  show ?case
  proof (cases "lo < hi \<and> \<not> P lo")
    case True
    then have "first_from P lo hi = None \<longleftrightarrow> first_from P (Suc lo) hi = None"
      by (simp add: first_from.simps [of P lo hi])
    also have "\<dots> \<longleftrightarrow> (\<forall>j. Suc lo \<le> j \<longrightarrow> j < hi \<longrightarrow> \<not> P j)"
      using True "1.IH" by simp
    also have "\<dots> \<longleftrightarrow> (\<forall>j. lo \<le> j \<longrightarrow> j < hi \<longrightarrow> \<not> P j)"
      using True by (metis Suc_leD Suc_leI le_neq_implies_less)
    finally show ?thesis .
  next
    case False
    then show ?thesis
      by (auto simp: first_from.simps [of P lo hi])
  qed
qed

lemma first_from_eq_SomeI:
  assumes "lo \<le> i" "i < hi" "P i" "\<And>j. lo \<le> j \<Longrightarrow> j < i \<Longrightarrow> \<not> P j"
  shows "first_from P lo hi = Some i"
proof (cases "first_from P lo hi")
  case None
  with assms show ?thesis by (auto simp: first_from_None_iff)
next
  case (Some k)
  from first_from_SomeD [OF Some] assms show ?thesis
    unfolding Some by (metis linorder_neqE_nat option.inject)
qed

lemma find_skip: "find P xs = None \<Longrightarrow> P x \<Longrightarrow> find P (xs @ x # ys) = Some x"
  by (induction xs) (auto split: if_splits)

section \<open>Loops over a work list\<close>

text \<open>
  A loop that applies a possibly non-returning step to each work item. \<open>total_loop\<close> is the contract
  under which such a loop always returns and keeps its invariant.
\<close>

fun iterate_opt :: "('f \<Rightarrow> 's \<Rightarrow> 's option) \<Rightarrow> 'f list \<Rightarrow> 's \<Rightarrow> 's option" where
  "iterate_opt step [] s = Some s"
| "iterate_opt step (f # fs) s = (case step f s of None \<Rightarrow> None | Some s' \<Rightarrow> iterate_opt step fs s')"

locale total_loop =
  fixes step :: "'f \<Rightarrow> 's \<Rightarrow> 's option"
    and inv :: "'s \<Rightarrow> bool"
  assumes step_ok: "inv s \<Longrightarrow> \<exists>s'. step f s = Some s' \<and> inv s'"
begin

lemma loop_total: "inv s \<Longrightarrow> \<exists>s'. iterate_opt step fs s = Some s' \<and> inv s'"
proof (induction fs arbitrary: s)
  case Nil
  then show ?case by simp
next
  case (Cons f fs)
  from step_ok [OF Cons.prems, of f] obtain s' where "step f s = Some s'" "inv s'" by blast
  with Cons.IH show ?case by simp
qed

end

section \<open>Bitmaps\<close>

text \<open>
  \<^verbatim>\<open>lsmindex.h\<close> lines 32--36. A bitmap is a byte array; bit \<open>i\<close> lives in byte \<open>i >> 3\<close> at
  position \<open>i & 7\<close>; 1 means masked out.
\<close>

definition IS_SLOT_SET :: "bitmap \<Rightarrow> nat \<Rightarrow> bool" where
  "IS_SLOT_SET bm i \<longleftrightarrow> bm ! (drop_bit 3 i) AND push_bit (i AND 7) 1 \<noteq> 0"

definition SET_SLOT :: "bitmap \<Rightarrow> nat \<Rightarrow> bitmap" where
  "SET_SLOT bm i = bm[drop_bit 3 i := bm ! (drop_bit 3 i) OR push_bit (i AND 7) 1]"

definition CLEAR_SLOT :: "bitmap \<Rightarrow> nat \<Rightarrow> bitmap" where
  "CLEAR_SLOT bm i = bm[drop_bit 3 i := bm ! (drop_bit 3 i) AND NOT (push_bit (i AND 7) 1)]"

definition GET_BITMAP_SIZE :: "nat \<Rightarrow> nat" where
  "GET_BITMAP_SIZE n = (n + 7) div 8"

text \<open>All bits of the array that the macros may touch lie below \<open>8 * length bm\<close>.\<close>

definition in_bitmap :: "bitmap \<Rightarrow> nat \<Rightarrow> bool" where
  "in_bitmap bm i \<longleftrightarrow> i < 8 * length bm"

lemma nat_and_7: "(i::nat) AND 7 = i mod 8"
  using take_bit_eq_mask [of 3 i] by (simp add: take_bit_eq_mod mask_eq_exp_minus_1)

lemma nat_drop_bit_3: "drop_bit 3 (i::nat) = i div 8"
  by (simp add: drop_bit_eq_div)

lemma bit_byte_mask: "n < 8 \<Longrightarrow> bit (2 ^ m :: u8) n \<longleftrightarrow> m = n"
  by (auto simp: bit_exp_iff)

lemma and_byte_mask: "(w AND 2 ^ n \<noteq> 0) = bit w n" if "n < 8" for w :: u8
proof
  assume "bit w n"
  with that have "bit (w AND 2 ^ n) n"
    by (simp add: bit_and_iff bit_byte_mask)
  then show "w AND 2 ^ n \<noteq> 0" by auto
next
  assume "w AND 2 ^ n \<noteq> 0"
  then obtain m where "bit (w AND 2 ^ n) m"
    using bit_eqI [of "w AND 2 ^ n" 0] by auto
  then show "bit w n"
    by (auto simp: bit_and_iff bit_exp_iff)
qed

lemma IS_SLOT_SET_bit [slot_simps]: "IS_SLOT_SET bm i = bit (bm ! (i div 8)) (i mod 8)"
  using and_byte_mask [of "i mod 8" "bm ! (i div 8)"]
  by (simp add: IS_SLOT_SET_def nat_and_7 nat_drop_bit_3)

lemma length_SET_SLOT [simp]: "length (SET_SLOT bm i) = length bm"
  by (simp add: SET_SLOT_def)

lemma length_CLEAR_SLOT [simp]: "length (CLEAR_SLOT bm i) = length bm"
  by (simp add: CLEAR_SLOT_def)

lemma in_bitmap_SET_SLOT [simp]: "in_bitmap (SET_SLOT bm i) j = in_bitmap bm j"
  by (simp add: in_bitmap_def)

lemma div_mod_8_cong: "(i::nat) div 8 = j div 8 \<Longrightarrow> i mod 8 = j mod 8 \<Longrightarrow> i = j"
  by (metis div_mult_mod_eq)

lemma IS_SLOT_SET_SET_SLOT:
  assumes "in_bitmap bm i"
  shows "IS_SLOT_SET (SET_SLOT bm i) j \<longleftrightarrow> i = j \<or> IS_SLOT_SET bm j"
proof (cases "i div 8 = j div 8")
  case True
  from assms have "i div 8 < length bm" by (auto simp: in_bitmap_def)
  with True have "IS_SLOT_SET (SET_SLOT bm i) j
      \<longleftrightarrow> bit (bm ! (j div 8)) (j mod 8) \<or> i mod 8 = j mod 8"
    by (simp add: SET_SLOT_def IS_SLOT_SET_bit nat_and_7 nat_drop_bit_3 bit_or_iff bit_byte_mask)
  with True show ?thesis
    by (auto simp: IS_SLOT_SET_bit dest: div_mod_8_cong)
next
  case False
  then show ?thesis
    by (auto simp: SET_SLOT_def IS_SLOT_SET_bit nat_and_7 nat_drop_bit_3)
qed

lemma IS_SLOT_SET_CLEAR_SLOT:
  assumes "in_bitmap bm i"
  shows "IS_SLOT_SET (CLEAR_SLOT bm i) j \<longleftrightarrow> i \<noteq> j \<and> IS_SLOT_SET bm j"
proof (cases "i div 8 = j div 8")
  case True
  from assms have "i div 8 < length bm" by (auto simp: in_bitmap_def)
  with True have "IS_SLOT_SET (CLEAR_SLOT bm i) j
      \<longleftrightarrow> bit (bm ! (j div 8)) (j mod 8) \<and> i mod 8 \<noteq> j mod 8"
    by (simp add: CLEAR_SLOT_def IS_SLOT_SET_bit nat_and_7 nat_drop_bit_3 bit_and_iff bit_not_iff
        bit_byte_mask)
  with True show ?thesis
    by (auto simp: IS_SLOT_SET_bit dest: div_mod_8_cong)
next
  case False
  then show ?thesis
    by (auto simp: CLEAR_SLOT_def IS_SLOT_SET_bit nat_and_7 nat_drop_bit_3)
qed

lemma GET_BITMAP_SIZE_covers: "i < n \<Longrightarrow> length bm = GET_BITMAP_SIZE n \<Longrightarrow> in_bitmap bm i"
  by (simp add: in_bitmap_def GET_BITMAP_SIZE_def)


section \<open>The tombstone interface\<close>

text \<open>
  What recovery, vacuum redo and adoption rely on when they mark deleted rows: a test, a mark and
  the range of valid positions. All of them run the same idiom
  \<^verbatim>\<open>if (!IS_SLOT_SET(bm, i)) { SET_SLOT(bm, i); count++; }\<close> over some sequence of positions;
  the effect on the bitmap and on the counter is proved once here.
\<close>

locale tombstone_bitmap =
  fixes test :: "'b \<Rightarrow> nat \<Rightarrow> bool"
    and mark :: "'b \<Rightarrow> nat \<Rightarrow> 'b"
    and inb :: "'b \<Rightarrow> nat \<Rightarrow> bool"
  assumes test_mark: "inb b i \<Longrightarrow> test (mark b i) j \<longleftrightarrow> i = j \<or> test b j"
    and inb_mark: "inb (mark b i) j = inb b j"
begin

lemma fold_mark_inb:
  "inb (fst (foldl (\<lambda>(b, c) i. if test b i then (b, c) else (mark b i, c + 1)) (b, c) is)) j = inb b j"
  by (induction "is" arbitrary: b c) (auto simp: inb_mark)

lemma fold_mark_test:
  "\<forall>i \<in> set is. inb b i \<Longrightarrow>
   test (fst (foldl (\<lambda>(b, c) i. if test b i then (b, c) else (mark b i, c + 1)) (b, c) is)) j
     \<longleftrightarrow> j \<in> set is \<or> test b j"
  by (induction "is" arbitrary: b c) (auto simp: inb_mark test_mark)

lemma fold_mark_count:
  fixes c :: "'c::semiring_1"
  assumes "\<forall>i \<in> set is. inb b i"
  shows "snd (foldl (\<lambda>(b, c) i. if test b i then (b, c) else (mark b i, c + 1)) (b, c) is)
     = c + of_nat (card {i \<in> set is. \<not> test b i})"
  using assms
proof (induction "is" arbitrary: b c)
  case Nil
  then show ?case by simp
next
  case (Cons i js)
  show ?case
  proof (cases "test b i")
    case True
    then have "{k \<in> set (i # js). \<not> test b k} = {k \<in> set js. \<not> test b k}" by auto
    with True Cons show ?thesis by simp
  next
    case False
    with Cons.prems have eq: "{k \<in> set (i # js). \<not> test b k}
        = insert i {k \<in> set js. \<not> test (mark b i) k}"
      by (auto simp: test_mark)
    from Cons.prems have "i \<notin> {k \<in> set js. \<not> test (mark b i) k}"
      by (auto simp: test_mark)
    with False Cons eq show ?thesis by (simp add: inb_mark add.assoc)
  qed
qed

end

interpretation bm: tombstone_bitmap IS_SLOT_SET SET_SLOT in_bitmap
  by unfold_locales (simp_all add: IS_SLOT_SET_SET_SLOT)

text \<open>The idiom on real bitmaps with the sources' 32-bit counters.\<close>

definition SET_AND_COUNT :: "bitmap \<times> u32 \<Rightarrow> nat \<Rightarrow> bitmap \<times> u32" where
  "SET_AND_COUNT = (\<lambda>(b, c) i. if IS_SLOT_SET b i then (b, c) else (SET_SLOT b i, c + 1))"

lemma SET_AND_COUNT_simp [simp]:
  "SET_AND_COUNT (b, c) i = (if IS_SLOT_SET b i then (b, c) else (SET_SLOT b i, c + 1))"
  by (simp add: SET_AND_COUNT_def)

lemma SET_AND_COUNT_test:
  "\<forall>i \<in> set is. in_bitmap b i \<Longrightarrow>
    IS_SLOT_SET (fst (foldl SET_AND_COUNT (b, c) is)) j \<longleftrightarrow> j \<in> set is \<or> IS_SLOT_SET b j"
  unfolding SET_AND_COUNT_def by (rule bm.fold_mark_test)

lemma SET_AND_COUNT_count:
  "\<forall>i \<in> set is. in_bitmap b i \<Longrightarrow>
    snd (foldl SET_AND_COUNT (b, c) is) = c + of_nat (card {i \<in> set is. \<not> IS_SLOT_SET b i})"
  unfolding SET_AND_COUNT_def by (rule bm.fold_mark_count)

lemmas marking = SET_AND_COUNT_test SET_AND_COUNT_count

lemma length_fold_SET_AND_COUNT [simp]:
  "length (fst (foldl SET_AND_COUNT (b, c) is)) = length b"
  by (induction "is" arbitrary: b c) auto

text \<open>Population count, \<^verbatim>\<open>for (i = 0; i < n; i++) if (IS_SLOT_SET(bm, i)) count++\<close>.\<close>

definition popcount_upto :: "bitmap \<Rightarrow> nat \<Rightarrow> nat" where
  "popcount_upto bm n = length (filter (IS_SLOT_SET bm) [0..<n])"

lemma popcount_upto_card: "popcount_upto bm n = card {i. i < n \<and> IS_SLOT_SET bm i}"
proof -
  have "popcount_upto bm n = card (set (filter (IS_SLOT_SET bm) [0..<n]))"
    unfolding popcount_upto_def by (rule distinct_card [symmetric]) simp
  also have "set (filter (IS_SLOT_SET bm) [0..<n]) = {i. i < n \<and> IS_SLOT_SET bm i}" by auto
  finally show ?thesis .
qed

lemma popcount_upto_le: "popcount_upto bm n \<le> n"
  using length_filter_le [of "IS_SLOT_SET bm" "[0..<n]"] by (simp add: popcount_upto_def)

end
