(* ===== verification/ItemPointers.thy ===== *)
theory ItemPointers
  imports Prelude
begin

text \<open>
  Heap tuple identifiers and their 64-bit encoding (\<^verbatim>\<open>utils.c\<close>). The encoding is what memtables,
  mapping files and vacuum records store; its signed order is the heap order, which the recovery
  code's \<^verbatim>\<open>qsort\<close>/\<^verbatim>\<open>bsearch\<close> relies on.
\<close>

record ItemPointerData =
  ip_blkid :: u32
  ip_posid :: u16

definition ItemPointerToInt64 :: "ItemPointerData \<Rightarrow> i64" where
  "ItemPointerToInt64 tid = push_bit 16 (ucast (ip_blkid tid)) OR ucast (ip_posid tid)"

definition Int64ToItemPointer :: "i64 \<Rightarrow> ItemPointerData" where
  "Int64ToItemPointer encoded =
     \<lparr>ip_blkid = ucast (signed_drop_bit 16 encoded AND 0xFFFFFFFF),
      ip_posid = ucast (encoded AND 0xFFFF)\<rparr>"

text \<open>The three-way comparison the sources pass to \<^verbatim>\<open>qsort\<close> and \<^verbatim>\<open>bsearch\<close>; C's \<^verbatim>\<open><\<close> on int64 is signed.\<close>

definition compare_int64 :: "i64 \<Rightarrow> i64 \<Rightarrow> int" where
  "compare_int64 a b = (if a <s b then -1 else if b <s a then 1 else 0)"

section \<open>Arithmetic reading of the encoding\<close>

lemma tid_field_bounds:
  "unat (ip_blkid tid) < 4294967296" "unat (ip_posid tid) < 65536"
  using unsigned_less [of "ip_blkid tid", where 'a = nat] unsigned_less [of "ip_posid tid", where 'a = nat]
  by simp_all

lemma unat_ucast_field:
  "unat (ucast (b :: u32) :: i64) = unat b" "unat (ucast (p :: u16) :: i64) = unat p"
proof -
  have "take_bit 64 (unat b) = unat b"
    by (rule take_bit_nat_eq_self) (use unsigned_less [of b, where 'a = nat] in simp)
  then show "unat (ucast b :: i64) = unat b" by (simp add: unsigned_ucast_eq)
  have "take_bit 64 (unat p) = unat p"
    by (rule take_bit_nat_eq_self) (use unsigned_less [of p, where 'a = nat] in simp)
  then show "unat (ucast p :: i64) = unat p" by (simp add: unsigned_ucast_eq)
qed

lemma unat_ItemPointerToInt64:
  "unat (ItemPointerToInt64 tid) = unat (ip_blkid tid) * 65536 + unat (ip_posid tid)"
proof -
  let ?b = "ip_blkid tid" and ?p = "ip_posid tid"
  have disj: "push_bit 16 (ucast ?b :: i64) AND ucast ?p = 0"
    by (rule bit_eqI) (auto simp: bit_and_iff bit_push_bit_iff bit_ucast_iff dest: bit_imp_le_length)
  have sum: "ItemPointerToInt64 tid = ucast ?b * 65536 + ucast ?p"
    unfolding ItemPointerToInt64_def using disj by (simp add: disjunctive_add_eq_or push_bit_eq_mult)
  have m: "unat (ucast ?b * 65536 :: i64) = unat ?b * 65536"
    using tid_field_bounds [of tid] by (simp add: unat_word_ariths unat_ucast_field)
  show ?thesis
    using tid_field_bounds [of tid] by (simp add: sum unat_word_ariths(1) m unat_ucast_field)
qed

lemma bit_ItemPointerToInt64:
  "bit (ItemPointerToInt64 tid) n \<longleftrightarrow>
     (if n < 16 then bit (ip_posid tid) n else n < 48 \<and> bit (ip_blkid tid) (n - 16))"
  by (auto simp: ItemPointerToInt64_def bit_or_iff bit_push_bit_iff bit_ucast_iff
      dest: bit_imp_le_length)

lemma bit_low_mask: "bit (0xFFFF :: i64) n \<longleftrightarrow> n < 16"
proof -
  have "bit (mask 16 :: i64) n \<longleftrightarrow> n < 16" by (auto simp: bit_mask_iff)
  moreover have "(mask 16 :: i64) = 0xFFFF" by (simp add: mask_eq_exp_minus_1)
  ultimately show ?thesis by metis
qed

lemma bit_mid_mask: "bit (0xFFFFFFFF :: i64) n \<longleftrightarrow> n < 32"
proof -
  have "bit (mask 32 :: i64) n \<longleftrightarrow> n < 32" by (auto simp: bit_mask_iff)
  moreover have "(mask 32 :: i64) = 0xFFFFFFFF" by (simp add: mask_eq_exp_minus_1)
  ultimately show ?thesis by metis
qed

lemma bit_Int64ToItemPointer:
  "bit (ip_blkid (Int64ToItemPointer e)) n \<longleftrightarrow> n < 32 \<and> bit e (n + 16)"
  "bit (ip_posid (Int64ToItemPointer e)) n \<longleftrightarrow> n < 16 \<and> bit e n"
  unfolding Int64ToItemPointer_def
  by (auto simp del: bit_numeral_iff bit_numeral_word_iff simp: bit_ucast_iff bit_and_iff bit_signed_drop_bit_iff
      bit_low_mask bit_mid_mask ac_simps)

lemma sint_small: "unat w < 9223372036854775808 \<Longrightarrow> sint (w :: i64) = int (unat w)"
proof -
  assume w: "unat w < 9223372036854775808"
  have u: "uint w < 9223372036854775808" unfolding uint_nat using w by linarith
  have "sint w = signed_take_bit 63 (uint w)" by (simp add: sint_uint)
  also have "\<dots> = uint w"
    by (rule signed_take_bit_int_eq_self) (rule order_trans [OF _ uint_ge_0], simp, use u in simp)
  finally show ?thesis by (simp only: uint_nat)
qed

lemma ItemPointerToInt64_bound: "unat (ItemPointerToInt64 tid) < 281474976710656"
  unfolding unat_ItemPointerToInt64 using tid_field_bounds [of tid] by linarith

lemma sint_ItemPointerToInt64:
  "sint (ItemPointerToInt64 tid) = int (unat (ip_blkid tid)) * 65536 + int (unat (ip_posid tid))"
proof -
  have "unat (ItemPointerToInt64 tid) < 9223372036854775808"
    by (rule less_trans [OF ItemPointerToInt64_bound]) simp
  then have "sint (ItemPointerToInt64 tid) = int (unat (ItemPointerToInt64 tid))"
    by (rule sint_small)
  then show ?thesis by (simp add: unat_ItemPointerToInt64)
qed

text \<open>Decoding and re-encoding keeps exactly the low 48 bits.\<close>

lemma reencode_take_bit: "ItemPointerToInt64 (Int64ToItemPointer e) = take_bit 48 e"
  by (rule bit_eqI) (auto simp: bit_ItemPointerToInt64 bit_Int64ToItemPointer bit_take_bit_iff)

lemma take_bit_48_id_iff: "take_bit 48 (e :: i64) = e \<longleftrightarrow> unat e < 2 ^ 48"
proof -
  have "take_bit 48 e = e \<longleftrightarrow> unat (take_bit 48 e) = unat e"
    by (simp add: word_unat_eq_iff)
  also have "\<dots> \<longleftrightarrow> take_bit 48 (unat e) = unat e"
    by (simp add: unsigned_take_bit_eq)
  also have "\<dots> \<longleftrightarrow> unat e < 2 ^ 48"
    by (rule take_bit_nat_eq_self_iff)
  finally show ?thesis .
qed

section \<open>Properties\<close>

text \<open>C23: the 64-bit encoding of heap tuple identifiers loses nothing: decoding an encoded identifier gives it
  back, and an arbitrary 64-bit value survives decoding and re-encoding exactly when it is below
  \<open>2^48\<close>, that is, when it is the encoding of an identifier.\<close>
theorem tid_encoding_roundtrip:
  "Int64ToItemPointer (ItemPointerToInt64 tid) = tid
   \<and> (ItemPointerToInt64 (Int64ToItemPointer e) = e \<longleftrightarrow> unat e < 2 ^ 48)"
proof
  have "ip_blkid (Int64ToItemPointer (ItemPointerToInt64 tid)) = ip_blkid tid"
    by (rule bit_eqI) (auto simp: bit_Int64ToItemPointer bit_ItemPointerToInt64 dest: bit_imp_le_length)
  moreover have "ip_posid (Int64ToItemPointer (ItemPointerToInt64 tid)) = ip_posid tid"
    by (rule bit_eqI) (auto simp: bit_Int64ToItemPointer bit_ItemPointerToInt64 dest: bit_imp_le_length)
  ultimately show "Int64ToItemPointer (ItemPointerToInt64 tid) = tid" by simp
  show "ItemPointerToInt64 (Int64ToItemPointer e) = e \<longleftrightarrow> unat e < 2 ^ 48"
    by (simp only: reencode_take_bit take_bit_48_id_iff)
qed

text \<open>the comparison that recovery sorts and searches encoded identifiers with is heap order:
  block number first, offset within the block second. Negative, zero and positive results all
  agree with that order, so encoded identifiers can be sorted without decoding.\<close>
theorem compare_int64_heap_order:
  "compare_int64 (ItemPointerToInt64 s) (ItemPointerToInt64 t) =
     (if ip_blkid s < ip_blkid t \<or> ip_blkid s = ip_blkid t \<and> ip_posid s < ip_posid t then -1
      else if s = t then 0 else 1)"
proof -
  let ?k = "\<lambda>x. unat (ip_blkid x) * 65536 + unat (ip_posid x)"
  have k: "?k s < ?k t \<longleftrightarrow> unat (ip_blkid s) < unat (ip_blkid t)
      \<or> unat (ip_blkid s) = unat (ip_blkid t) \<and> unat (ip_posid s) < unat (ip_posid t)" for s t
    using tid_field_bounds [of s] tid_field_bounds [of t] by linarith
  have eq: "s = t \<longleftrightarrow> unat (ip_blkid s) = unat (ip_blkid t) \<and> unat (ip_posid s) = unat (ip_posid t)"
    by (auto simp: word_unat_eq_iff intro: ItemPointerData.equality)
  have less: "ItemPointerToInt64 s <s ItemPointerToInt64 t \<longleftrightarrow> ?k s < ?k t" for s t
    unfolding word_sless_alt sint_ItemPointerToInt64 by linarith
  show ?thesis
    unfolding compare_int64_def less eq k word_less_nat_alt word_unat_eq_iff by auto
qed

end
