(* ===== verification/SegmentPool.thy ===== *)
theory SegmentPool
  imports Prelude "HOL-Library.Multiset"
begin

text \<open>
  The flushed-segment pool of the vector index worker (\<^verbatim>\<open>lsm_segment.h\<close>, \<^verbatim>\<open>lsm_segment.c\<close>):
  a fixed array of segment slots, threaded by \<^verbatim>\<open>next_idx\<close>/\<^verbatim>\<open>prev_idx\<close> into a doubly linked list in
  ascending segment-id order. The array is a function from slot numbers; the sentinel
  \<^verbatim>\<open>(uint32_t)-1\<close> of the link fields is \<open>None\<close>; the counters keep their 32 bits. Loops that
  follow links are partial functions whose \<open>None\<close> is non-termination, and the lemmas show that
  they return on well-formed pools.
\<close>

section \<open>Data model\<close>

definition MAX_SEGMENTS_COUNT :: nat where
  "MAX_SEGMENTS_COUNT = 1024"

definition THRESHOLD_SMALL_SEGMENT_SIZE :: u32 where
  "THRESHOLD_SMALL_SEGMENT_SIZE = 1000000"

datatype IndexType = FLAT | IVFFLAT | HNSW | DISKANN

datatype SegmentLoadState = SEG_NOT_LOADED | SEG_MMAP_LOADED | SEG_FULLY_LOADED

record SegmentOffsetRange =
  off_sid :: SegmentId
  start_offset :: nat
  end_offset :: nat

record FlushedSegment =
  in_used :: bool
  segment_id_start :: SegmentId
  segment_id_end :: SegmentId
  vec_count :: u64
  map_ptr :: "i64 list option"
  index_type :: IndexType
  index_ptr :: "nat option"
  bitmap_ptr :: "bitmap option"
  next_idx :: "nat option"
  prev_idx :: "nat option"
  ref_count :: int
  load_state :: SegmentLoadState
  delete_count :: u32
  is_compacting :: bool
  version :: u32
  offsets :: "SegmentOffsetRange list option"
  offsets_count :: u32

record FlushedSegmentPool =
  flushed_segments :: "nat \<Rightarrow> FlushedSegment"
  flushed_segment_count :: u32
  head_idx :: "nat option"
  tail_idx :: "nat option"
  insert_idx :: nat
  flat_count :: u32
  memtable_capacity_le_count :: u32
  small_segment_le_count :: u32

text \<open>In-place update of one slot, \<^verbatim>\<open>pool->flushed_segments[i].field = v\<close>.\<close>

definition upd_seg :: "nat \<Rightarrow> (FlushedSegment \<Rightarrow> FlushedSegment) \<Rightarrow> FlushedSegmentPool \<Rightarrow> FlushedSegmentPool"
where
  "upd_seg i f pool =
     pool\<lparr>flushed_segments := (flushed_segments pool)(i := f (flushed_segments pool i))\<rparr>"

section \<open>Operations\<close>

text \<open>
  \<^verbatim>\<open>initialize_segment_pool\<close>: the fields it does not write (ids, counts, buffers) keep whatever the
  static array held; \<open>pool0\<close> is that previous content.
\<close>

definition initialize_segment_pool :: "FlushedSegmentPool \<Rightarrow> FlushedSegmentPool" where
  "initialize_segment_pool pool0 =
     pool0\<lparr>flushed_segments := (\<lambda>i. if i < MAX_SEGMENTS_COUNT
             then (flushed_segments pool0 i)
               \<lparr>in_used := False, next_idx := None, prev_idx := None, ref_count := 0,
                load_state := SEG_NOT_LOADED, delete_count := 0, is_compacting := False,
                version := 0, offsets := None, offsets_count := 0\<rparr>
             else flushed_segments pool0 i),
           flushed_segment_count := 0, head_idx := None, tail_idx := None, insert_idx := 0,
           flat_count := 0, memtable_capacity_le_count := 0, small_segment_le_count := 0\<rparr>"

text \<open>
  \<^verbatim>\<open>update_pool_stats\<close>; \<open>cap\<close> is the setting \<^verbatim>\<open>postgresqlv_memtable_capacity\<close>, \<open>d\<close> the delta as an
  unsigned word (\<open>-1\<close> is \<open>UINT32_MAX\<close>), and the row count is truncated to 32 bits by the call.
\<close>

definition update_pool_stats ::
  "u32 \<Rightarrow> IndexType \<Rightarrow> u32 \<Rightarrow> u32 \<Rightarrow> FlushedSegmentPool \<Rightarrow> FlushedSegmentPool" where
  "update_pool_stats cap ty vc d pool =
     pool\<lparr>flat_count := (if ty = FLAT then flat_count pool + d else flat_count pool),
          memtable_capacity_le_count :=
            (if vc \<le> cap then memtable_capacity_le_count pool + d else memtable_capacity_le_count pool),
          small_segment_le_count :=
            (if vc \<le> THRESHOLD_SMALL_SEGMENT_SIZE then small_segment_le_count pool + d
             else small_segment_le_count pool)\<rparr>"

abbreviation seg_stats :: "u32 \<Rightarrow> nat \<Rightarrow> u32 \<Rightarrow> FlushedSegmentPool \<Rightarrow> FlushedSegmentPool" where
  "seg_stats cap i d pool \<equiv>
     update_pool_stats cap (index_type (flushed_segments pool i))
       (ucast (vec_count (flushed_segments pool i))) d pool"

definition reserve_flushed_segment :: "FlushedSegmentPool \<Rightarrow> nat option \<times> FlushedSegmentPool" where
  "reserve_flushed_segment pool =
     (case first_from (\<lambda>i. \<not> in_used (flushed_segments pool i)) (insert_idx pool) MAX_SEGMENTS_COUNT of
        None \<Rightarrow> (None, pool)
      | Some i \<Rightarrow> (Some i, upd_seg i (\<lambda>s. s\<lparr>in_used := True\<rparr>) (pool\<lparr>insert_idx := Suc i\<rparr>)))"

text \<open>The walk from the tail in \<^verbatim>\<open>register_flushed_segment\<close>.\<close>

partial_function (option) walk_back ::
  "FlushedSegmentPool \<Rightarrow> SegmentId \<Rightarrow> nat option \<Rightarrow> nat option option" where
  "walk_back pool new_start cur =
     (case cur of
        None \<Rightarrow> Some None
      | Some i \<Rightarrow>
          if segment_id_start (flushed_segments pool i) > new_start
          then walk_back pool new_start (prev_idx (flushed_segments pool i))
          else Some (Some i))"

definition link_after :: "nat option \<Rightarrow> nat \<Rightarrow> FlushedSegmentPool \<Rightarrow> FlushedSegmentPool" where
  "link_after cur idx pool =
     (case cur of
        None \<Rightarrow>
          let old_head = head_idx pool;
              p1 = upd_seg idx (\<lambda>s. s\<lparr>prev_idx := None, next_idx := old_head\<rparr>) pool;
              p2 = (case old_head of None \<Rightarrow> p1 | Some h \<Rightarrow> upd_seg h (\<lambda>s. s\<lparr>prev_idx := Some idx\<rparr>) p1)
          in p2\<lparr>head_idx := Some idx\<rparr>
      | Some c \<Rightarrow>
          let after = next_idx (flushed_segments pool c);
              p1 = upd_seg idx (\<lambda>s. s\<lparr>prev_idx := Some c, next_idx := after\<rparr>) pool;
              p2 = upd_seg c (\<lambda>s. s\<lparr>next_idx := Some idx\<rparr>) p1
          in (case after of
                Some a \<Rightarrow> upd_seg a (\<lambda>s. s\<lparr>prev_idx := Some idx\<rparr>) p2
              | None \<Rightarrow> p2\<lparr>tail_idx := Some idx\<rparr>))"

definition register_flushed_segment ::
  "u32 \<Rightarrow> nat \<Rightarrow> FlushedSegmentPool \<Rightarrow> FlushedSegmentPool option" where
  "register_flushed_segment cap idx pool =
     (let new_start = segment_id_start (flushed_segments pool idx);
          p0 = upd_seg idx (\<lambda>s. s\<lparr>ref_count := 1\<rparr>) pool;
          finish = (\<lambda>p. seg_stats cap idx 1 (p\<lparr>flushed_segment_count := flushed_segment_count p + 1\<rparr>))
      in if head_idx p0 = None
         then Some (finish ((upd_seg idx (\<lambda>s. s\<lparr>prev_idx := None, next_idx := None\<rparr>) p0)
                     \<lparr>head_idx := Some idx, tail_idx := Some idx\<rparr>))
         else (case walk_back p0 new_start (tail_idx p0) of
                 None \<Rightarrow> None
               | Some cur \<Rightarrow> Some (finish (link_after cur idx p0))))"

text \<open>
  \<^verbatim>\<open>cleanup_flushed_segment\<close>. Whether its \<^verbatim>\<open>pthread_rwlock_trywrlock\<close> on \<^verbatim>\<open>seg_lock\<close> succeeds is the
  argument \<open>got_lock\<close>: it fails when the caller already holds the lock.
\<close>

definition free_segment_slot :: "FlushedSegment \<Rightarrow> FlushedSegment" where
  "free_segment_slot s =
     s\<lparr>index_ptr := None, bitmap_ptr := None, map_ptr := None, offsets := None, offsets_count := 0,
       in_used := False, next_idx := None, prev_idx := None, ref_count := 0\<rparr>"

definition rewind_insert_idx :: "nat \<Rightarrow> FlushedSegmentPool \<Rightarrow> FlushedSegmentPool" where
  "rewind_insert_idx i pool = (if i < insert_idx pool then pool\<lparr>insert_idx := i\<rparr> else pool)"

definition cleanup_flushed_segment :: "bool \<Rightarrow> nat \<Rightarrow> FlushedSegmentPool \<Rightarrow> FlushedSegmentPool" where
  "cleanup_flushed_segment got_lock i pool =
     (let p1 = upd_seg i free_segment_slot pool;
          p2 = p1\<lparr>flushed_segment_count := flushed_segment_count p1 - 1\<rparr>
      in if got_lock then rewind_insert_idx i p2 else p2)"

definition decrement_flushed_segment_ref_count ::
  "bool \<Rightarrow> nat \<Rightarrow> FlushedSegmentPool \<Rightarrow> FlushedSegmentPool" where
  "decrement_flushed_segment_ref_count got_lock i pool =
     (let p1 = upd_seg i (\<lambda>s. s\<lparr>ref_count := ref_count s - 1\<rparr>) pool
      in if ref_count (flushed_segments p1 i) = 0 then cleanup_flushed_segment got_lock i p1 else p1)"

definition discard_reserved_segment :: "nat \<Rightarrow> FlushedSegmentPool \<Rightarrow> FlushedSegmentPool" where
  "discard_reserved_segment i pool = rewind_insert_idx i (upd_seg i free_segment_slot pool)"

text \<open>The forward walk of \<^verbatim>\<open>find_segment_by_sids\<close> and its siblings: stop at a hit, at the tail, or at -1.\<close>

partial_function (option) walk_find ::
  "(FlushedSegment \<Rightarrow> bool) \<Rightarrow> FlushedSegmentPool \<Rightarrow> nat option \<Rightarrow> nat option option" where
  "walk_find P pool cur =
     (case cur of
        None \<Rightarrow> Some None
      | Some i \<Rightarrow>
          if P (flushed_segments pool i) then Some (Some i)
          else if tail_idx pool = Some i then Some None
          else walk_find P pool (next_idx (flushed_segments pool i)))"

definition find_segment_by_sids ::
  "FlushedSegmentPool \<Rightarrow> SegmentId \<Rightarrow> SegmentId \<Rightarrow> nat option option" where
  "find_segment_by_sids pool a b =
     walk_find (\<lambda>s. in_used s \<and> segment_id_start s = a \<and> segment_id_end s = b) pool (head_idx pool)"

definition find_two_adjacent_segments ::
  "FlushedSegmentPool \<Rightarrow> SegmentId \<Rightarrow> SegmentId \<Rightarrow> (nat \<times> nat) option option" where
  "find_two_adjacent_segments pool a b =
     (case walk_find (\<lambda>s. in_used s \<and> segment_id_start s = a) pool (head_idx pool) of
        None \<Rightarrow> None
      | Some None \<Rightarrow> Some None
      | Some (Some i) \<Rightarrow>
          Some (if segment_id_end (flushed_segments pool i) \<ge> b then None
                else (case next_idx (flushed_segments pool i) of
                        None \<Rightarrow> None
                      | Some j \<Rightarrow>
                          if segment_id_end (flushed_segments pool j) = b then Some (i, j) else None)))"

text \<open>
  \<^verbatim>\<open>replace_flushed_segments_n\<close>: the caller holds the write lock, so every cleanup inside runs with
  \<open>got_lock = False\<close>.
\<close>

definition relink_span ::
  "nat option \<Rightarrow> nat option \<Rightarrow> nat \<Rightarrow> nat \<Rightarrow> nat \<Rightarrow> FlushedSegmentPool \<Rightarrow> FlushedSegmentPool" where
  "relink_span prev nxt first_old last_old new_idx pool =
     (let p1 = (if head_idx pool = Some first_old then pool\<lparr>head_idx := Some new_idx\<rparr> else pool);
          p2 = (if tail_idx p1 = Some last_old then p1\<lparr>tail_idx := Some new_idx\<rparr> else p1);
          p3 = upd_seg new_idx (\<lambda>s. s\<lparr>prev_idx := prev, next_idx := nxt\<rparr>) p2;
          p4 = (case prev of None \<Rightarrow> p3 | Some p \<Rightarrow> upd_seg p (\<lambda>s. s\<lparr>next_idx := Some new_idx\<rparr>) p3);
          p5 = (case nxt of None \<Rightarrow> p4 | Some n \<Rightarrow> upd_seg n (\<lambda>s. s\<lparr>prev_idx := Some new_idx\<rparr>) p4)
      in upd_seg new_idx (\<lambda>s. s\<lparr>ref_count := 1\<rparr>) p5)"

text \<open>Its two loops over the retired slots: statistics first, reference counts second.\<close>

fun retire_stats :: "u32 \<Rightarrow> nat list \<Rightarrow> FlushedSegmentPool \<Rightarrow> FlushedSegmentPool" where
  "retire_stats cap [] p = p"
| "retire_stats cap (i # is) p = retire_stats cap is (seg_stats cap i (-1) p)"

fun retire_refs :: "nat list \<Rightarrow> FlushedSegmentPool \<Rightarrow> FlushedSegmentPool" where
  "retire_refs [] p = p"
| "retire_refs (i # is) p = retire_refs is (decrement_flushed_segment_ref_count False i p)"

definition replace_flushed_segments_n ::
  "u32 \<Rightarrow> nat list \<Rightarrow> nat \<Rightarrow> FlushedSegmentPool \<Rightarrow> FlushedSegmentPool" where
  "replace_flushed_segments_n cap olds new_idx pool =
     (if olds = [] then pool
      else
        let prev = prev_idx (flushed_segments pool (hd olds));
            nxt = next_idx (flushed_segments pool (last olds));
            p1 = retire_stats cap olds pool;
            p2 = retire_refs olds p1;
            p3 = relink_span prev nxt (hd olds) (last olds) new_idx p2;
            p4 = seg_stats cap new_idx 1 p3
        in p4\<lparr>flushed_segment_count := flushed_segment_count p4 - (of_nat (length olds) - 1)\<rparr>)"

section \<open>Loading segments from disk\<close>

text \<open>
  What \<^verbatim>\<open>load_and_set_segment\<close> reads through \<^verbatim>\<open>lsmindex_io.c\<close>: the metadata, index, bitmap, mapping and
  offset files of one segment version.
\<close>

record segment_files =
  md_start_sid :: SegmentId
  md_end_sid :: SegmentId
  md_valid_rows :: u32
  md_index_type :: IndexType
  f_index :: "nat option"
  f_bitmap :: "bitmap option"
  f_delete_count :: u32
  f_mapping :: "i64 list option"
  f_offsets :: "SegmentOffsetRange list option"

record SegmentFileInfo =
  fi_start_sid :: SegmentId
  fi_end_sid :: SegmentId
  fi_version :: u32

record segment_store =
  read_files :: "SegmentId \<Rightarrow> SegmentId \<Rightarrow> u32 \<Rightarrow> segment_files option"
  find_latest_segment_version :: "SegmentId \<Rightarrow> SegmentId \<Rightarrow> u32"

definition load_and_set_segment ::
  "segment_store \<Rightarrow> SegmentId \<Rightarrow> SegmentId \<Rightarrow> u32 \<Rightarrow> bool \<Rightarrow> FlushedSegment \<Rightarrow> FlushedSegment" where
  "load_and_set_segment st start_sid end_sid ver use_mmap s =
     (let v = (if ver = UINT32_MAX then find_latest_segment_version st start_sid end_sid else ver)
      in case read_files st start_sid end_sid v of
           None \<Rightarrow> s
         | Some f \<Rightarrow>
             s\<lparr>segment_id_start := md_start_sid f, segment_id_end := md_end_sid f,
               vec_count := ucast (md_valid_rows f), index_type := md_index_type f,
               index_ptr := f_index f, bitmap_ptr := f_bitmap f, map_ptr := f_mapping f,
               offsets := f_offsets f, offsets_count := end_sid - start_sid + 1,
               in_used := True, delete_count := f_delete_count f, version := v,
               is_compacting := False,
               load_state := (if use_mmap then SEG_MMAP_LOADED else SEG_FULLY_LOADED)\<rparr>)"

definition load_one_segment ::
  "u32 \<Rightarrow> segment_store \<Rightarrow> bool \<Rightarrow> SegmentFileInfo \<Rightarrow> FlushedSegmentPool \<Rightarrow> FlushedSegmentPool option"
where
  "load_one_segment cap st use_mmap f pool =
     (case reserve_flushed_segment pool of
        (None, p) \<Rightarrow> Some p
      | (Some i, p) \<Rightarrow>
          register_flushed_segment cap i
            (upd_seg i (load_and_set_segment st (fi_start_sid f) (fi_end_sid f) (fi_version f) use_mmap) p))"

definition load_segments ::
  "u32 \<Rightarrow> segment_store \<Rightarrow> bool \<Rightarrow> SegmentFileInfo list \<Rightarrow> FlushedSegmentPool \<Rightarrow> FlushedSegmentPool option"
where
  "load_segments cap st use_mmap files pool = iterate_opt (load_one_segment cap st use_mmap) files pool"

definition load_all_segments_from_disk ::
  "u32 \<Rightarrow> segment_store \<Rightarrow> SegmentFileInfo list \<Rightarrow> FlushedSegmentPool \<Rightarrow> FlushedSegmentPool option" where
  "load_all_segments_from_disk cap st files pool = load_segments cap st False files pool"

definition load_all_segments_from_disk_mmap ::
  "u32 \<Rightarrow> segment_store \<Rightarrow> SegmentFileInfo list \<Rightarrow> FlushedSegmentPool \<Rightarrow> FlushedSegmentPool option" where
  "load_all_segments_from_disk_mmap cap st files pool = load_segments cap st True files pool"


section \<open>The linked list\<close>

text \<open>
  \<open>dll f p xs n\<close>: the slots \<open>xs\<close> form a doubly linked span whose first element points back to
  \<open>p\<close> and whose last element points forward to \<open>n\<close>.
\<close>

definition first_opt :: "nat list \<Rightarrow> nat option \<Rightarrow> nat option" where
  "first_opt xs d = (case xs of [] \<Rightarrow> d | x # _ \<Rightarrow> Some x)"

definition last_opt :: "nat list \<Rightarrow> nat option \<Rightarrow> nat option" where
  "last_opt xs d = (if xs = [] then d else Some (last xs))"

lemma first_opt_simps [simp]:
  "first_opt [] d = d" "first_opt (x # xs) d = Some x"
  by (simp_all add: first_opt_def)

lemma last_opt_simps [simp]:
  "last_opt [] d = d" "last_opt (x # xs) d = last_opt xs (Some x)"
  "last_opt (xs @ ys) d = last_opt ys (last_opt xs d)"
  by (simp_all add: last_opt_def)

fun dll :: "(nat \<Rightarrow> FlushedSegment) \<Rightarrow> nat option \<Rightarrow> nat list \<Rightarrow> nat option \<Rightarrow> bool" where
  "dll f p [] n = True"
| "dll f p (x # xs) n =
     (prev_idx (f x) = p \<and> next_idx (f x) = first_opt xs n \<and> dll f (Some x) xs n)"

lemma first_opt_append [simp]: "first_opt (xs @ ys) d = first_opt xs (first_opt ys d)"
  by (cases xs) simp_all

lemma dll_append: "dll f p (xs @ ys) n \<longleftrightarrow> dll f p xs (first_opt ys n) \<and> dll f (last_opt xs p) ys n"
  by (induction xs arbitrary: p) auto

lemma dll_cong:
  "(\<And>x. x \<in> set xs \<Longrightarrow> prev_idx (f x) = prev_idx (g x) \<and> next_idx (f x) = next_idx (g x))
   \<Longrightarrow> dll f p xs n = dll g p xs n"
  by (induction xs arbitrary: p) auto

text \<open>The pool invariant: \<open>xs\<close> is the list of registered slots, head to tail.\<close>

definition pool_links :: "FlushedSegmentPool \<Rightarrow> nat list \<Rightarrow> bool" where
  "pool_links pool xs \<longleftrightarrow>
     distinct xs \<and> dll (flushed_segments pool) None xs None \<and>
     head_idx pool = first_opt xs None \<and> tail_idx pool = last_opt xs None"

definition pool_live :: "FlushedSegmentPool \<Rightarrow> nat list \<Rightarrow> bool" where
  "pool_live pool xs \<longleftrightarrow>
     (\<forall>i \<in> set xs. i < MAX_SEGMENTS_COUNT \<and> in_used (flushed_segments pool i)
        \<and> ref_count (flushed_segments pool i) \<ge> 1)"

abbreviation sid_start :: "FlushedSegmentPool \<Rightarrow> nat \<Rightarrow> SegmentId" where
  "sid_start pool i \<equiv> segment_id_start (flushed_segments pool i)"

abbreviation sid_end :: "FlushedSegmentPool \<Rightarrow> nat \<Rightarrow> SegmentId" where
  "sid_end pool i \<equiv> segment_id_end (flushed_segments pool i)"

definition pool_sorted :: "FlushedSegmentPool \<Rightarrow> nat list \<Rightarrow> bool" where
  "pool_sorted pool xs \<longleftrightarrow> sorted (map (sid_start pool) xs)"

definition pool_inv :: "FlushedSegmentPool \<Rightarrow> nat list \<Rightarrow> bool" where
  "pool_inv pool xs \<longleftrightarrow> pool_links pool xs \<and> pool_live pool xs \<and> pool_sorted pool xs"

lemma upd_seg_sel [simp]:
  "flushed_segments (upd_seg i f pool) = (flushed_segments pool)(i := f (flushed_segments pool i))"
  "flushed_segment_count (upd_seg i f pool) = flushed_segment_count pool"
  "head_idx (upd_seg i f pool) = head_idx pool"
  "tail_idx (upd_seg i f pool) = tail_idx pool"
  "insert_idx (upd_seg i f pool) = insert_idx pool"
  "flat_count (upd_seg i f pool) = flat_count pool"
  "memtable_capacity_le_count (upd_seg i f pool) = memtable_capacity_le_count pool"
  "small_segment_le_count (upd_seg i f pool) = small_segment_le_count pool"
  by (simp_all add: upd_seg_def)

lemma update_pool_stats_sel [simp]:
  "flushed_segments (update_pool_stats cap ty vc d pool) = flushed_segments pool"
  "flushed_segment_count (update_pool_stats cap ty vc d pool) = flushed_segment_count pool"
  "head_idx (update_pool_stats cap ty vc d pool) = head_idx pool"
  "tail_idx (update_pool_stats cap ty vc d pool) = tail_idx pool"
  "insert_idx (update_pool_stats cap ty vc d pool) = insert_idx pool"
  by (simp_all add: update_pool_stats_def)

lemma update_pool_stats_counts:
  "flat_count (update_pool_stats cap ty vc d pool) = flat_count pool + (if ty = FLAT then d else 0)"
  "memtable_capacity_le_count (update_pool_stats cap ty vc d pool)
     = memtable_capacity_le_count pool + (if vc \<le> cap then d else 0)"
  "small_segment_le_count (update_pool_stats cap ty vc d pool)
     = small_segment_le_count pool + (if vc \<le> THRESHOLD_SMALL_SEGMENT_SIZE then d else 0)"
  by (simp_all add: update_pool_stats_def)

lemma rewind_insert_idx_sel [simp]:
  "flushed_segments (rewind_insert_idx i pool) = flushed_segments pool"
  "flushed_segment_count (rewind_insert_idx i pool) = flushed_segment_count pool"
  "head_idx (rewind_insert_idx i pool) = head_idx pool"
  "tail_idx (rewind_insert_idx i pool) = tail_idx pool"
  by (simp_all add: rewind_insert_idx_def)

text \<open>Everything of a slot but its list links and its reference count.\<close>

definition payload :: "FlushedSegment \<Rightarrow> FlushedSegment" where
  "payload s = s\<lparr>next_idx := None, prev_idx := None, ref_count := 0\<rparr>"

lemma payload_upd [simp]:
  "payload (s\<lparr>next_idx := x\<rparr>) = payload s" "payload (s\<lparr>prev_idx := x\<rparr>) = payload s"
  "payload (s\<lparr>ref_count := r\<rparr>) = payload s"
  by (simp_all add: payload_def)

lemma payload_eqD:
  assumes "payload s = payload t"
  shows "in_used s = in_used t" "segment_id_start s = segment_id_start t"
    "segment_id_end s = segment_id_end t" "vec_count s = vec_count t" "map_ptr s = map_ptr t"
    "index_type s = index_type t" "index_ptr s = index_ptr t" "bitmap_ptr s = bitmap_ptr t"
    "load_state s = load_state t" "delete_count s = delete_count t"
    "is_compacting s = is_compacting t" "version s = version t" "offsets s = offsets t"
    "offsets_count s = offsets_count t"
  using assms by (cases s; cases t; simp add: payload_def)+

text \<open>A fresh pool has the empty list.\<close>

lemma pool_inv_initialize: "pool_inv (initialize_segment_pool pool0) []"
  by (simp add: pool_inv_def pool_links_def pool_live_def pool_sorted_def initialize_segment_pool_def)

section \<open>Registration keeps the list linked and ordered\<close>

lemma walk_back_dll:
  assumes "dll (flushed_segments pool) None (A @ B) n"
    and "\<forall>b \<in> set B. sid_start pool b > v"
    and "A = [] \<or> sid_start pool (last A) \<le> v"
  shows "walk_back pool v (last_opt (A @ B) None) = Some (last_opt A None)"
  using assms
proof (induction B arbitrary: n rule: rev_induct)
  case Nil
  then show ?case
    by (cases A rule: rev_cases) (auto simp: walk_back.simps [of pool v])
next
  case (snoc b B)
  from snoc.prems(1) have d: "dll (flushed_segments pool) None ((A @ B) @ [b]) n" by simp
  then have prev: "prev_idx (flushed_segments pool b) = last_opt (A @ B) None"
    and AB: "dll (flushed_segments pool) None (A @ B) (Some b)"
    unfolding dll_append by simp_all
  from snoc.prems(2,3) have "walk_back pool v (last_opt (A @ B) None) = Some (last_opt A None)"
    by (intro snoc.IH [OF AB]) simp_all
  moreover have "last_opt (A @ B @ [b]) None = Some b" by (simp flip: append_assoc)
  ultimately show ?case
    using snoc.prems(2) prev by (simp add: walk_back.simps [of pool v "Some b"])
qed

text \<open>The specification of the insertion point: after the last segment that does not start later.\<close>

definition insert_by_start :: "FlushedSegmentPool \<Rightarrow> SegmentId \<Rightarrow> nat \<Rightarrow> nat list \<Rightarrow> nat list" where
  "insert_by_start pool v idx xs =
     rev (dropWhile (\<lambda>i. sid_start pool i > v) (rev xs)) @
     idx # rev (takeWhile (\<lambda>i. sid_start pool i > v) (rev xs))"

lemma insert_by_start_split:
  obtains A B where "xs = A @ B" and "insert_by_start pool v idx xs = A @ idx # B"
    and "\<forall>b \<in> set B. sid_start pool b > v" and "A = [] \<or> sid_start pool (last A) \<le> v"
proof
  let ?P = "\<lambda>i. sid_start pool i > v"
  show "xs = rev (dropWhile ?P (rev xs)) @ rev (takeWhile ?P (rev xs))"
    by (metis rev_append rev_rev_ident takeWhile_dropWhile_id)
  show "insert_by_start pool v idx xs
      = rev (dropWhile ?P (rev xs)) @ idx # rev (takeWhile ?P (rev xs))"
    by (simp add: insert_by_start_def)
  show "\<forall>b \<in> set (rev (takeWhile ?P (rev xs))). ?P b"
    by (auto dest: set_takeWhileD)
  show "rev (dropWhile ?P (rev xs)) = [] \<or> sid_start pool (last (rev (dropWhile ?P (rev xs)))) \<le> v"
    by (metis hd_dropWhile last_rev linorder_not_less rev_is_Nil_conv)
qed

lemma set_insert_by_start [simp]: "set (insert_by_start pool v idx xs) = insert idx (set xs)"
  by (rule insert_by_start_split [of xs pool v idx]) auto

lemma link_after_dll:
  assumes links: "pool_links pool (A @ B)" and new: "idx \<notin> set (A @ B)"
    and ne: "A @ B \<noteq> []"
  shows "pool_links (link_after (last_opt A None) idx pool) (A @ idx # B)"
proof (cases A rule: rev_cases)
  case Nil
  with ne obtain b B' where B: "B = b # B'" by (cases B) auto
  from links new have "dll (flushed_segments (link_after None idx pool)) (Some b) B' None
      = dll (flushed_segments pool) (Some b) B' None"
    by (intro dll_cong) (auto simp: link_after_def Let_def B Nil pool_links_def)
  with links new show ?thesis
    by (auto simp: pool_links_def Nil B link_after_def Let_def)
next
  case (snoc A' a)
  let ?p = "link_after (Some a) idx pool"
  from links have na: "next_idx (flushed_segments pool a) = first_opt B None"
    and dist: "distinct (A' @ a # B)"
    by (auto simp: pool_links_def snoc dll_append)
  have A': "dll (flushed_segments ?p) None A' (Some a) = dll (flushed_segments pool) None A' (Some a)"
    using dist new by (intro dll_cong) (auto simp: link_after_def Let_def snoc na first_opt_def
        split: list.splits option.splits)
  show ?thesis
  proof (cases B)
    case Nil
    with links new A' show ?thesis
      by (auto simp: pool_links_def snoc dll_append na link_after_def Let_def)
  next
    case (Cons b B')
    have "dll (flushed_segments ?p) (Some b) B' None = dll (flushed_segments pool) (Some b) B' None"
      using dist new by (intro dll_cong) (auto simp: link_after_def Let_def snoc na Cons)
    with links new A' show ?thesis
      by (auto simp: pool_links_def snoc dll_append na link_after_def Let_def Cons last_opt_def)
  qed
qed

lemma link_after_payload: "payload (flushed_segments (link_after cur idx pool) i) = payload (flushed_segments pool i)"
  by (auto simp: link_after_def Let_def split: option.splits)

lemma link_after_frame:
  "in_used (flushed_segments (link_after cur idx pool) i) = in_used (flushed_segments pool i)"
  "ref_count (flushed_segments (link_after cur idx pool) i) = ref_count (flushed_segments pool i)"
  "segment_id_start (flushed_segments (link_after cur idx pool) i) = sid_start pool i"
  "segment_id_end (flushed_segments (link_after cur idx pool) i) = sid_end pool i"
  "index_type (flushed_segments (link_after cur idx pool) i) = index_type (flushed_segments pool i)"
  "vec_count (flushed_segments (link_after cur idx pool) i) = vec_count (flushed_segments pool i)"
  by (auto simp: link_after_def Let_def split: option.splits)

lemma link_after_stats [simp]:
  "flat_count (link_after cur idx pool) = flat_count pool"
  "memtable_capacity_le_count (link_after cur idx pool) = memtable_capacity_le_count pool"
  "small_segment_le_count (link_after cur idx pool) = small_segment_le_count pool"
  "flushed_segment_count (link_after cur idx pool) = flushed_segment_count pool"
  "insert_idx (link_after cur idx pool) = insert_idx pool"
  by (auto simp: link_after_def Let_def split: option.splits)


lemma sorted_insert_by_start:
  assumes "pool_sorted pool xs"
  shows "sorted (map (sid_start pool) (insert_by_start pool (sid_start pool idx) idx xs))"
proof (rule insert_by_start_split [of xs pool "sid_start pool idx" idx])
  fix A B
  assume split: "xs = A @ B" "insert_by_start pool (sid_start pool idx) idx xs = A @ idx # B"
    and B: "\<forall>b \<in> set B. sid_start pool b > sid_start pool idx"
    and A: "A = [] \<or> sid_start pool (last A) \<le> sid_start pool idx"
  from assms split have sA: "sorted (map (sid_start pool) A)"
    and "sorted (map (sid_start pool) B)"
    and "\<forall>a \<in> set A. \<forall>b \<in> set B. sid_start pool a \<le> sid_start pool b"
    by (auto simp: pool_sorted_def sorted_append)
  moreover have "\<forall>a \<in> set A. sid_start pool a \<le> sid_start pool idx"
  proof (cases A rule: rev_cases)
    case (snoc A' a)
    with A sA show ?thesis
      by (auto simp: sorted_append intro: order_trans)
  qed simp
  ultimately show ?thesis
    using B split by (auto simp: sorted_append less_imp_le)
qed

lemma distinct_insert_by_start:
  "distinct xs \<Longrightarrow> idx \<notin> set xs \<Longrightarrow> distinct (insert_by_start pool v idx xs)"
  by (rule insert_by_start_split [of xs pool v idx]) auto

text \<open>
  What a client may assume of a slot it has reserved and loaded: it is in use, inside the array and
  not yet linked.
\<close>

definition loaded_slot :: "FlushedSegmentPool \<Rightarrow> nat list \<Rightarrow> nat \<Rightarrow> bool" where
  "loaded_slot pool xs idx \<longleftrightarrow>
     idx < MAX_SEGMENTS_COUNT \<and> in_used (flushed_segments pool idx) \<and> idx \<notin> set xs"

lemma pool_links_upd_other:
  assumes "pool_links pool xs" "\<And>s. prev_idx (f s) = prev_idx s \<and> next_idx (f s) = next_idx s"
  shows "pool_links (upd_seg i f pool) xs"
proof -
  have "dll (flushed_segments (upd_seg i f pool)) None xs None = dll (flushed_segments pool) None xs None"
    using assms(2) by (intro dll_cong) auto
  with assms(1) show ?thesis by (simp add: pool_links_def)
qed

lemma pool_links_stats [simp]:
  "pool_links (update_pool_stats cap ty vc d pool) xs = pool_links pool xs"
  "pool_links (pool\<lparr>flushed_segment_count := c\<rparr>) xs = pool_links pool xs"
  "pool_links (pool\<lparr>insert_idx := k\<rparr>) xs = pool_links pool xs"
  by (simp_all add: pool_links_def)

text \<open>
  \<open>register_linked\<close> is the pool after the list surgery of \<^verbatim>\<open>register_flushed_segment\<close>, before counter and
  statistics are bumped; it names the one state both branches of the function reach.
\<close>

lemma register_flushed_segment_linked:
  assumes "pool_links pool xs" "idx \<notin> set xs"
  obtains p where
    "register_flushed_segment cap idx pool
       = Some (seg_stats cap idx 1 (p\<lparr>flushed_segment_count := flushed_segment_count p + 1\<rparr>))"
    and "pool_links p (insert_by_start pool (sid_start pool idx) idx xs)"
    and "\<And>i. in_used (flushed_segments p i) = in_used (flushed_segments pool i)"
    and "\<And>i. ref_count (flushed_segments p i) = (if i = idx then 1 else ref_count (flushed_segments pool i))"
    and "\<And>i. sid_start p i = sid_start pool i" and "\<And>i. sid_end p i = sid_end pool i"
    and "\<And>i. index_type (flushed_segments p i) = index_type (flushed_segments pool i)"
    and "\<And>i. vec_count (flushed_segments p i) = vec_count (flushed_segments pool i)"
    and "flat_count p = flat_count pool" "small_segment_le_count p = small_segment_le_count pool"
    and "memtable_capacity_le_count p = memtable_capacity_le_count pool"
    and "flushed_segment_count p = flushed_segment_count pool" "insert_idx p = insert_idx pool"
    and "\<And>i. payload (flushed_segments p i) = payload (flushed_segments pool i)"
proof -
  let ?v = "sid_start pool idx"
  let ?p0 = "upd_seg idx (\<lambda>s. s\<lparr>ref_count := 1\<rparr>) pool"
  from assms(1) have p0: "pool_links ?p0 xs"
    by (rule pool_links_upd_other) simp
  have starts: "sid_start ?p0 i = sid_start pool i" for i by simp
  show thesis
  proof (cases "xs = []")
    case True
    with p0 have "head_idx pool = None" by (simp add: pool_links_def)
    then show thesis
      by (intro that [of "(upd_seg idx (\<lambda>s. s\<lparr>prev_idx := None, next_idx := None\<rparr>) ?p0)
                     \<lparr>head_idx := Some idx, tail_idx := Some idx\<rparr>"])
        (simp_all add: register_flushed_segment_def Let_def True insert_by_start_def pool_links_def)
  next
    case False
    obtain A B where AB: "xs = A @ B" "insert_by_start pool ?v idx xs = A @ idx # B"
      "\<forall>b \<in> set B. sid_start pool b > ?v" "A = [] \<or> sid_start pool (last A) \<le> ?v"
      by (rule insert_by_start_split)
    from p0 have tail: "tail_idx ?p0 = last_opt (A @ B) None"
      and d: "dll (flushed_segments ?p0) None (A @ B) None"
      using AB(1) by (auto simp: pool_links_def)
    from p0 False obtain h where head: "head_idx pool = Some h"
      by (auto simp: pool_links_def first_opt_def split: list.splits)
    have "walk_back ?p0 ?v (tail_idx ?p0) = Some (last_opt A None)"
      unfolding tail using AB(3,4) by (intro walk_back_dll [OF d]) auto
    moreover have "pool_links (link_after (last_opt A None) idx ?p0) (A @ idx # B)"
      using p0 assms(2) False AB(1) by (intro link_after_dll) auto
    ultimately show thesis
      using head AB(2)
      by (intro that [of "link_after (last_opt A None) idx ?p0"])
        (simp_all add: register_flushed_segment_def Let_def link_after_frame link_after_payload)
  qed
qed

lemma register_flushed_segment_inv:
  assumes inv: "pool_inv pool xs" and new: "loaded_slot pool xs idx"
  shows "\<exists>p. register_flushed_segment cap idx pool = Some p
           \<and> pool_inv p (insert_by_start pool (sid_start pool idx) idx xs)
           \<and> insert_idx p = insert_idx pool
           \<and> (\<forall>i. payload (flushed_segments p i) = payload (flushed_segments pool i))"
proof -
  from inv new have "pool_links pool xs" "idx \<notin> set xs"
    by (auto simp: pool_inv_def loaded_slot_def)
  then obtain p where p: "register_flushed_segment cap idx pool
       = Some (seg_stats cap idx 1 (p\<lparr>flushed_segment_count := flushed_segment_count p + 1\<rparr>))"
    and "pool_links p (insert_by_start pool (sid_start pool idx) idx xs)"
    and frame: "\<And>i. in_used (flushed_segments p i) = in_used (flushed_segments pool i)"
      "\<And>i. ref_count (flushed_segments p i) = (if i = idx then 1 else ref_count (flushed_segments pool i))"
      "\<And>i. sid_start p i = sid_start pool i" "insert_idx p = insert_idx pool"
      "\<And>i. payload (flushed_segments p i) = payload (flushed_segments pool i)"
    by (rule register_flushed_segment_linked) blast
  moreover have "pool_live p (insert_by_start pool (sid_start pool idx) idx xs)"
    using inv new by (auto simp: pool_inv_def pool_live_def loaded_slot_def frame)
  moreover have "sorted (map (sid_start pool) (insert_by_start pool (sid_start pool idx) idx xs))"
    using inv by (intro sorted_insert_by_start) (simp add: pool_inv_def)
  ultimately show ?thesis
    using frame by (simp add: pool_inv_def pool_live_def pool_sorted_def)
qed


section \<open>Replacement of a contiguous span\<close>

definition dec_seg :: "FlushedSegment \<Rightarrow> FlushedSegment" where
  "dec_seg s = (if ref_count s = 1 then free_segment_slot s else s\<lparr>ref_count := ref_count s - 1\<rparr>)"

lemma free_segment_slot_ref [simp]: "free_segment_slot (s\<lparr>ref_count := r\<rparr>) = free_segment_slot s"
  by (simp add: free_segment_slot_def)

lemma decrement_sel:
  "flushed_segments (decrement_flushed_segment_ref_count g i p)
     = (flushed_segments p)(i := dec_seg (flushed_segments p i))"
  "head_idx (decrement_flushed_segment_ref_count g i p) = head_idx p"
  "tail_idx (decrement_flushed_segment_ref_count g i p) = tail_idx p"
  "flat_count (decrement_flushed_segment_ref_count g i p) = flat_count p"
  "memtable_capacity_le_count (decrement_flushed_segment_ref_count g i p) = memtable_capacity_le_count p"
  "small_segment_le_count (decrement_flushed_segment_ref_count g i p) = small_segment_le_count p"
  "flushed_segment_count (decrement_flushed_segment_ref_count g i p)
     = flushed_segment_count p - (if ref_count (flushed_segments p i) = 1 then 1 else 0)"
  "insert_idx (decrement_flushed_segment_ref_count False i p) = insert_idx p"
  by (auto simp: decrement_flushed_segment_ref_count_def cleanup_flushed_segment_def Let_def dec_seg_def
      rewind_insert_idx_def)

lemma retire_refs_frame [simp]:
  "head_idx (retire_refs olds p) = head_idx p"
  "tail_idx (retire_refs olds p) = tail_idx p"
  "insert_idx (retire_refs olds p) = insert_idx p"
  "flat_count (retire_refs olds p) = flat_count p"
  "memtable_capacity_le_count (retire_refs olds p) = memtable_capacity_le_count p"
  "small_segment_le_count (retire_refs olds p) = small_segment_le_count p"
  by (induction olds arbitrary: p) (simp_all add: decrement_sel)

lemma retire_refs_segments:
  "distinct olds \<Longrightarrow> flushed_segments (retire_refs olds p)
     = (\<lambda>j. if j \<in> set olds then dec_seg (flushed_segments p j) else flushed_segments p j)"
  by (induction olds arbitrary: p) (auto simp: decrement_sel)

lemma retire_refs_count:
  "distinct olds \<Longrightarrow> flushed_segment_count (retire_refs olds p)
     = flushed_segment_count p - of_nat (length (filter (\<lambda>i. ref_count (flushed_segments p i) = 1) olds))"
proof (induction olds arbitrary: p)
  case Nil
  then show ?case by simp
next
  case (Cons i olds)
  then have "filter (\<lambda>j. ref_count (((flushed_segments p)(i := s)) j) = 1) olds
      = filter (\<lambda>j. ref_count (flushed_segments p j) = 1) olds" for s
    by (intro filter_cong) auto
  with Cons show ?case by (simp add: decrement_sel)
qed

lemma retire_stats_frame [simp]:
  "flushed_segments (retire_stats cap olds p) = flushed_segments p"
  "head_idx (retire_stats cap olds p) = head_idx p"
  "tail_idx (retire_stats cap olds p) = tail_idx p"
  "insert_idx (retire_stats cap olds p) = insert_idx p"
  "flushed_segment_count (retire_stats cap olds p) = flushed_segment_count p"
  by (induction olds arbitrary: p) simp_all

text \<open>The three statistics, as predicates on a slot.\<close>

abbreviation is_flat :: "FlushedSegmentPool \<Rightarrow> nat \<Rightarrow> bool" where
  "is_flat pool i \<equiv> index_type (flushed_segments pool i) = FLAT"

abbreviation le_memtable :: "u32 \<Rightarrow> FlushedSegmentPool \<Rightarrow> nat \<Rightarrow> bool" where
  "le_memtable cap pool i \<equiv> (ucast (vec_count (flushed_segments pool i)) :: u32) \<le> cap"

abbreviation le_small :: "FlushedSegmentPool \<Rightarrow> nat \<Rightarrow> bool" where
  "le_small pool i \<equiv>
     (ucast (vec_count (flushed_segments pool i)) :: u32) \<le> THRESHOLD_SMALL_SEGMENT_SIZE"

definition tally :: "(nat \<Rightarrow> bool) \<Rightarrow> nat list \<Rightarrow> u32" where
  "tally P xs = of_nat (length (filter P xs))"

lemma tally_simps [simp]:
  "tally P [] = 0" "tally P (x # xs) = (if P x then 1 else 0) + tally P xs"
  "tally P (xs @ ys) = tally P xs + tally P ys"
  by (simp_all add: tally_def)

lemma tally_cong: "(\<And>x. x \<in> set xs \<Longrightarrow> P x = Q x) \<Longrightarrow> tally P xs = tally Q xs"
  by (simp add: tally_def cong: filter_cong)

definition pool_stats_ok :: "u32 \<Rightarrow> FlushedSegmentPool \<Rightarrow> nat list \<Rightarrow> bool" where
  "pool_stats_ok cap pool xs \<longleftrightarrow>
     flat_count pool = tally (is_flat pool) xs \<and>
     memtable_capacity_le_count pool = tally (le_memtable cap pool) xs \<and>
     small_segment_le_count pool = tally (le_small pool) xs"

lemma retire_stats_counts:
  "flat_count (retire_stats cap olds p) = flat_count p - tally (is_flat p) olds"
  "memtable_capacity_le_count (retire_stats cap olds p)
     = memtable_capacity_le_count p - tally (le_memtable cap p) olds"
  "small_segment_le_count (retire_stats cap olds p) = small_segment_le_count p - tally (le_small p) olds"
  by (induction olds arbitrary: p) (simp_all add: update_pool_stats_counts)

lemma tally_insert_by_start [simp]:
  "tally P (insert_by_start pool v idx xs) = (if P idx then 1 else 0) + tally P xs"
  by (rule insert_by_start_split [of xs pool v idx]) simp

lemma register_flushed_segment_stats:
  assumes "pool_links pool xs" "idx \<notin> set xs" "pool_stats_ok cap pool xs"
    and "register_flushed_segment cap idx pool = Some p"
  shows "pool_stats_ok cap p (insert_by_start pool (sid_start pool idx) idx xs)"
    and "flushed_segment_count p = flushed_segment_count pool + 1"
proof -
  from assms(1,2) obtain q where q: "register_flushed_segment cap idx pool
       = Some (seg_stats cap idx 1 (q\<lparr>flushed_segment_count := flushed_segment_count q + 1\<rparr>))"
    and frame: "\<And>i. index_type (flushed_segments q i) = index_type (flushed_segments pool i)"
      "\<And>i. vec_count (flushed_segments q i) = vec_count (flushed_segments pool i)"
      "flat_count q = flat_count pool" "small_segment_le_count q = small_segment_le_count pool"
      "memtable_capacity_le_count q = memtable_capacity_le_count pool"
      "flushed_segment_count q = flushed_segment_count pool"
    by (rule register_flushed_segment_linked) blast
  from assms(3,4) show "pool_stats_ok cap p (insert_by_start pool (sid_start pool idx) idx xs)"
    by (auto simp: q pool_stats_ok_def update_pool_stats_counts frame add.commute)
  from assms(4) show "flushed_segment_count p = flushed_segment_count pool + 1"
    by (auto simp: q frame)
qed


text \<open>Relinking: the span \<open>O\<close> between \<open>A\<close> and \<open>B\<close> gives way to one slot.\<close>

lemma relink_span_frame:
  "in_used (flushed_segments (relink_span p n f l idx pool) i) = in_used (flushed_segments pool i)"
  "segment_id_start (flushed_segments (relink_span p n f l idx pool) i) = sid_start pool i"
  "segment_id_end (flushed_segments (relink_span p n f l idx pool) i) = sid_end pool i"
  "index_type (flushed_segments (relink_span p n f l idx pool) i) = index_type (flushed_segments pool i)"
  "vec_count (flushed_segments (relink_span p n f l idx pool) i) = vec_count (flushed_segments pool i)"
  "bitmap_ptr (flushed_segments (relink_span p n f l idx pool) i) = bitmap_ptr (flushed_segments pool i)"
  "ref_count (flushed_segments (relink_span p n f l idx pool) i)
     = (if i = idx then 1 else ref_count (flushed_segments pool i))"
  "flushed_segment_count (relink_span p n f l idx pool) = flushed_segment_count pool"
  "insert_idx (relink_span p n f l idx pool) = insert_idx pool"
  "flat_count (relink_span p n f l idx pool) = flat_count pool"
  "memtable_capacity_le_count (relink_span p n f l idx pool) = memtable_capacity_le_count pool"
  "small_segment_le_count (relink_span p n f l idx pool) = small_segment_le_count pool"
  by (auto simp: relink_span_def Let_def split: option.splits)

lemma relink_span_links:
  assumes dist: "distinct (A @ Os @ B)" and ne: "Os \<noteq> []" and new: "idx \<notin> set (A @ Os @ B)"
    and dA: "dll (flushed_segments pool) None A (Some (hd Os))"
    and dB: "dll (flushed_segments pool) (Some (last Os)) B None"
    and head: "head_idx pool = first_opt (A @ Os @ B) None"
    and tail: "tail_idx pool = last_opt (A @ Os @ B) None"
  shows "pool_links (relink_span (last_opt A None) (first_opt B None) (hd Os) (last Os) idx pool)
           (A @ idx # B)"
proof -
  let ?p = "relink_span (last_opt A None) (first_opt B None) (hd Os) (last Os) idx pool"
  have hd_last: "hd Os \<in> set Os" "last Os \<in> set Os" using ne by auto
  have lastA: "A \<noteq> [] \<Longrightarrow> last A \<notin> set B" "A \<noteq> [] \<Longrightarrow> last A \<noteq> idx"
    using dist new by (auto simp: disjoint_iff)
  have A: "dll (flushed_segments ?p) None A (Some idx)"
  proof (cases A rule: rev_cases)
    case (snoc A' a)
    from dA have d: "dll (flushed_segments pool) None A' (Some a)"
      "prev_idx (flushed_segments pool a) = last_opt A' None"
      by (simp_all add: snoc dll_append)
    have "dll (flushed_segments ?p) None A' (Some a) = dll (flushed_segments pool) None A' (Some a)"
      using dist new by (intro dll_cong)
        (auto simp: relink_span_def Let_def snoc first_opt_def split: option.splits list.splits)
    with d dist new show ?thesis
      by (auto simp: snoc dll_append relink_span_def Let_def first_opt_def
          split: option.splits list.splits)
  qed simp
  have B: "dll (flushed_segments ?p) (Some idx) B None"
  proof (cases B)
    case (Cons b B')
    from dB have d: "dll (flushed_segments pool) (Some b) B' None"
      "next_idx (flushed_segments pool b) = first_opt B' None"
      by (simp_all add: Cons)
    have "dll (flushed_segments ?p) (Some b) B' None = dll (flushed_segments pool) (Some b) B' None"
      using dist new lastA by (intro dll_cong)
        (auto simp: relink_span_def Let_def Cons last_opt_def)
    with d dist new lastA show ?thesis
      by (auto simp: Cons relink_span_def Let_def last_opt_def)
  qed simp
  have "head_idx ?p = (if head_idx pool = Some (hd Os) then Some idx else head_idx pool)"
    by (auto simp: relink_span_def Let_def split: option.splits)
  with head hd_last dist ne have head': "head_idx ?p = first_opt (A @ idx # B) None"
    by (cases A; cases Os) auto
  have "tail_idx ?p = (if tail_idx pool = Some (last Os) then Some idx else tail_idx pool)"
    by (auto simp: relink_span_def Let_def split: option.splits)
  with tail hd_last dist ne have tail': "tail_idx ?p = last_opt (A @ idx # B) None"
    by (cases B rule: rev_cases; cases Os rule: rev_cases) auto
  have "prev_idx (flushed_segments ?p idx) = last_opt A None"
    "next_idx (flushed_segments ?p idx) = first_opt B None"
    using new lastA
    by (auto simp: relink_span_def Let_def last_opt_def first_opt_def split: list.splits)
  with A B head' tail' dist new show ?thesis
    by (auto simp: pool_links_def dll_append)
qed


text \<open>
  The whole of \<^verbatim>\<open>replace_flushed_segments_n\<close> on a well-formed pool: the slots \<open>Os\<close> leave the list, the
  new slot takes their place, everything else is untouched.
\<close>

lemma replace_links:
  assumes links: "pool_links pool (A @ Os @ B)" and ne: "Os \<noteq> []" and new: "idx \<notin> set (A @ Os @ B)"
  shows "pool_links (replace_flushed_segments_n cap Os idx pool) (A @ idx # B)"
proof -
  let ?p2 = "retire_refs Os (retire_stats cap Os pool)"
  from links have dist: "distinct (A @ Os @ B)"
    and d: "dll (flushed_segments pool) None (A @ Os @ B) None"
    and ends: "head_idx pool = first_opt (A @ Os @ B) None" "tail_idx pool = last_opt (A @ Os @ B) None"
    by (simp_all add: pool_links_def)
  from ne have fo: "first_opt Os z = Some (hd Os)" and lo: "last_opt Os z = Some (last Os)" for z
    by (auto simp: first_opt_def last_opt_def split: list.splits)
  from d have dA: "dll (flushed_segments pool) None A (Some (hd Os))"
    and dO: "dll (flushed_segments pool) (last_opt A None) Os (first_opt B None)"
    and dB: "dll (flushed_segments pool) (Some (last Os)) B None"
    by (simp_all add: dll_append fo lo)
  from dO ne have prev: "prev_idx (flushed_segments pool (hd Os)) = last_opt A None"
    by (cases Os) auto
  from dO ne have nxt: "next_idx (flushed_segments pool (last Os)) = first_opt B None"
    by (cases Os rule: rev_cases) (auto simp: dll_append)
  have "dll (flushed_segments ?p2) None A (Some (hd Os))"
    using dA dist by (subst dll_cong [where g = "flushed_segments pool"])
      (auto simp: retire_refs_segments)
  moreover have "dll (flushed_segments ?p2) (Some (last Os)) B None"
    using dB dist by (subst dll_cong [where g = "flushed_segments pool"])
      (auto simp: retire_refs_segments)
  ultimately have "pool_links
      (relink_span (last_opt A None) (first_opt B None) (hd Os) (last Os) idx ?p2) (A @ idx # B)"
    using dist ne new ends by (intro relink_span_links) simp_all
  then show ?thesis
    using ne by (simp add: replace_flushed_segments_n_def Let_def prev nxt)
qed

lemma replace_frame:
  fixes pool :: FlushedSegmentPool and idx :: nat and cap :: u32
  assumes dist: "distinct Os" and ne: "Os \<noteq> []" and i: "i \<notin> set Os"
  defines "p \<equiv> replace_flushed_segments_n cap Os idx pool"
  shows "in_used (flushed_segments p i) = in_used (flushed_segments pool i)"
    and "sid_start p i = sid_start pool i" and "sid_end p i = sid_end pool i"
    and "index_type (flushed_segments p i) = index_type (flushed_segments pool i)"
    and "vec_count (flushed_segments p i) = vec_count (flushed_segments pool i)"
    and "ref_count (flushed_segments p i) = (if i = idx then 1 else ref_count (flushed_segments pool i))"
  using i ne by (simp_all add: p_def replace_flushed_segments_n_def Let_def relink_span_frame
      retire_refs_segments [OF dist])

lemma relink_span_payload:
  "payload (flushed_segments (relink_span prev nxt f l idx pool) i) = payload (flushed_segments pool i)"
proof -
  have upd: "payload (flushed_segments (upd_seg k g p) i) = payload (flushed_segments p i)"
    if "\<And>s. payload (g s) = payload s" for k g p
    using that by simp
  show ?thesis
    unfolding relink_span_def Let_def
    by (cases prev; cases nxt; simp only: option.case; subst upd; simp)
qed

lemma replace_payload:
  assumes "distinct Os" "i \<notin> set Os"
  shows "payload (flushed_segments (replace_flushed_segments_n cap Os idx pool) i)
    = payload (flushed_segments pool i)"
  using assms by (cases "Os = []")
    (simp_all add: replace_flushed_segments_n_def Let_def relink_span_payload retire_refs_segments)

lemma replace_flushed_segments_inv:
  assumes inv: "pool_inv pool (A @ Os @ B)" and ne: "Os \<noteq> []"
    and new: "loaded_slot pool (A @ Os @ B) idx"
    and start: "sid_start pool idx = sid_start pool (hd Os)"
  shows "pool_inv (replace_flushed_segments_n cap Os idx pool) (A @ idx # B)"
proof -
  let ?p = "replace_flushed_segments_n cap Os idx pool"
  from inv new have links: "pool_links pool (A @ Os @ B)" and fresh: "idx \<notin> set (A @ Os @ B)"
    by (auto simp: pool_inv_def loaded_slot_def)
  then have dist: "distinct Os" and disj: "\<And>i. i \<in> set (A @ idx # B) \<Longrightarrow> i \<notin> set Os"
    by (auto simp: pool_links_def)
  have "pool_live ?p (A @ idx # B)"
    using inv new disj by (auto simp: pool_inv_def pool_live_def loaded_slot_def
        replace_frame [OF dist ne])
  moreover have "pool_sorted ?p (A @ idx # B)"
  proof -
    have "map (sid_start ?p) (A @ idx # B) = map (sid_start pool) (A @ hd Os # B)"
      using disj start by (auto simp: replace_frame [OF dist ne])
    moreover from inv ne have "sorted (map (sid_start pool) (A @ hd Os # B))"
      by (cases Os) (auto simp: pool_inv_def pool_sorted_def sorted_append)
    ultimately show ?thesis unfolding pool_sorted_def by (simp only:)
  qed
  ultimately show ?thesis
    using replace_links [OF links ne fresh] by (simp add: pool_inv_def)
qed

lemma replace_stats:
  assumes stats: "pool_stats_ok cap pool (A @ Os @ B)" and ne: "Os \<noteq> []"
    and dist: "distinct (A @ Os @ B)" and new: "idx \<notin> set (A @ Os @ B)"
  shows "pool_stats_ok cap (replace_flushed_segments_n cap Os idx pool) (A @ idx # B)"
proof -
  let ?p = "replace_flushed_segments_n cap Os idx pool"
  have dO: "distinct Os" using dist by simp
  have "i \<in> set (A @ idx # B) \<Longrightarrow> index_type (flushed_segments ?p i) = index_type (flushed_segments pool i)
      \<and> vec_count (flushed_segments ?p i) = vec_count (flushed_segments pool i)" for i
    using dist new replace_frame(4,5) [OF dO ne, of i cap idx pool] by auto
  then have "tally (is_flat ?p) (A @ idx # B) = tally (is_flat pool) (A @ idx # B)"
    "tally (le_memtable cap ?p) (A @ idx # B) = tally (le_memtable cap pool) (A @ idx # B)"
    "tally (le_small ?p) (A @ idx # B) = tally (le_small pool) (A @ idx # B)"
    by (intro tally_cong; simp)+
  moreover have "flat_count ?p = flat_count pool - tally (is_flat pool) Os + (if is_flat pool idx then 1 else 0)"
    "memtable_capacity_le_count ?p = memtable_capacity_le_count pool - tally (le_memtable cap pool) Os
        + (if le_memtable cap pool idx then 1 else 0)"
    "small_segment_le_count ?p = small_segment_le_count pool - tally (le_small pool) Os
        + (if le_small pool idx then 1 else 0)"
    using ne new by (simp_all add: replace_flushed_segments_n_def Let_def update_pool_stats_counts
        relink_span_frame retire_stats_counts retire_refs_segments [OF dO])
  ultimately show ?thesis
    using stats by (simp add: pool_stats_ok_def)
qed

text \<open>
  The segment counter after a replacement: every retired slot whose last reference goes away is
  subtracted by \<^verbatim>\<open>cleanup_flushed_segment\<close>, and \<^verbatim>\<open>old_count - 1\<close> is subtracted once more at the end.
\<close>

lemma replace_count:
  assumes "distinct Os" "Os \<noteq> []"
  shows "flushed_segment_count (replace_flushed_segments_n cap Os idx pool)
     = flushed_segment_count pool
       - of_nat (length (filter (\<lambda>i. ref_count (flushed_segments pool i) = 1) Os))
       - (of_nat (length Os) - 1)"
  using assms by (simp add: replace_flushed_segments_n_def Let_def relink_span_frame
      retire_refs_count)


section \<open>Lookups\<close>

lemma walk_find_dll:
  assumes "dll (flushed_segments pool) p xs None" "distinct xs"
    and "xs \<noteq> [] \<Longrightarrow> tail_idx pool = Some (last xs)"
  shows "walk_find P pool (first_opt xs None) = Some (find (\<lambda>i. P (flushed_segments pool i)) xs)"
  using assms
proof (induction xs arbitrary: p)
  case Nil
  then show ?case by (simp add: walk_find.simps [of P pool None])
next
  case (Cons x xs)
  from Cons.prems have d: "dll (flushed_segments pool) (Some x) xs None" "distinct xs"
    and nxt: "next_idx (flushed_segments pool x) = first_opt xs None" by simp_all
  have IH: "walk_find P pool (first_opt xs None) = Some (find (\<lambda>i. P (flushed_segments pool i)) xs)"
    using Cons.prems(3) by (intro Cons.IH [OF d]) auto
  have tail: "tail_idx pool = Some x \<longleftrightarrow> xs = []"
    using Cons.prems(2,3) by auto
  show ?case
    using IH nxt tail by (simp add: walk_find.simps [of P pool "Some x"])
qed

lemma walk_find_pool:
  "pool_links pool xs \<Longrightarrow>
   walk_find P pool (head_idx pool) = Some (find (\<lambda>i. P (flushed_segments pool i)) xs)"
  using walk_find_dll [of pool None xs P] by (auto simp: pool_links_def last_opt_def)

lemma find_segment_by_sids_pool:
  "pool_links pool xs \<Longrightarrow> find_segment_by_sids pool a b
     = Some (find (\<lambda>i. in_used (flushed_segments pool i) \<and> sid_start pool i = a \<and> sid_end pool i = b) xs)"
  by (simp add: find_segment_by_sids_def walk_find_pool)

section \<open>Reservation\<close>

lemma reserve_SomeD:
  assumes "reserve_flushed_segment pool = (Some i, p)"
  shows "insert_idx pool \<le> i" "i < MAX_SEGMENTS_COUNT" "\<not> in_used (flushed_segments pool i)"
    "p = upd_seg i (\<lambda>s. s\<lparr>in_used := True\<rparr>) (pool\<lparr>insert_idx := Suc i\<rparr>)"
  using assms by (auto simp: reserve_flushed_segment_def split: option.splits dest: first_from_SomeD)

lemma pool_inv_upd_outside:
  assumes "pool_inv pool xs" "i \<notin> set xs"
  shows "pool_inv (upd_seg i f pool) xs"
proof -
  have "dll (flushed_segments (upd_seg i f pool)) None xs None = dll (flushed_segments pool) None xs None"
    using assms(2) by (intro dll_cong) auto
  moreover have "map (sid_start (upd_seg i f pool)) xs = map (sid_start pool) xs"
    using assms(2) by auto
  ultimately show ?thesis
    using assms unfolding pool_inv_def pool_links_def pool_live_def pool_sorted_def
    by (auto simp del: map_eq_conv)
qed

lemma pool_inv_insert_idx [simp]: "pool_inv (pool\<lparr>insert_idx := k\<rparr>) xs = pool_inv pool xs"
  by (simp add: pool_inv_def pool_live_def pool_sorted_def)

lemma reserve_inv:
  assumes inv: "pool_inv pool xs" and r: "reserve_flushed_segment pool = (Some i, p)"
  shows "pool_inv p xs" "loaded_slot p xs i" "i \<notin> set xs"
proof -
  note * = reserve_SomeD [OF r]
  show new: "i \<notin> set xs"
    using inv *(3) by (auto simp: pool_inv_def pool_live_def)
  then show "pool_inv p xs"
    unfolding *(4) using inv by (intro pool_inv_upd_outside) simp_all
  show "loaded_slot p xs i"
    using new *(2) by (simp add: *(4) loaded_slot_def)
qed


section \<open>Loading\<close>

lemma load_and_set_in_used [simp]: "in_used s \<Longrightarrow> in_used (load_and_set_segment st a b v m s)"
  by (simp add: load_and_set_segment_def Let_def split: option.splits)

lemma load_one_segment_step:
  fixes st :: segment_store and f :: SegmentFileInfo and m :: bool
  assumes inv: "pool_inv pool xs" and r: "reserve_flushed_segment pool = (Some i, p)"
  defines "g \<equiv> load_and_set_segment st (fi_start_sid f) (fi_end_sid f) (fi_version f) m"
  shows "\<exists>p'. load_one_segment cap st m f pool = Some p'
     \<and> pool_inv p' (insert_by_start (upd_seg i g p) (sid_start (upd_seg i g p) i) i xs)
     \<and> insert_idx p' = Suc i
     \<and> (\<forall>j. payload (flushed_segments p' j) = payload (flushed_segments (upd_seg i g p) j))"
proof -
  note res = reserve_SomeD [OF r] and keep = reserve_inv [OF inv r]
  have "pool_inv (upd_seg i g p) xs"
    using keep by (intro pool_inv_upd_outside)
  moreover have "loaded_slot (upd_seg i g p) xs i"
    using keep by (simp add: loaded_slot_def g_def)
  moreover have "insert_idx (upd_seg i g p) = Suc i"
    by (simp add: res(4))
  ultimately show ?thesis
    using register_flushed_segment_inv [of "upd_seg i g p" xs i cap] r
    by (simp add: load_one_segment_def g_def)
qed

interpretation pool_load: total_loop "load_one_segment cap st m" "\<lambda>pool. \<exists>xs. pool_inv pool xs"
proof
  fix pool f
  assume "\<exists>xs. pool_inv pool xs"
  then obtain xs where inv: "pool_inv pool xs" ..
  show "\<exists>p'. load_one_segment cap st m f pool = Some p' \<and> (\<exists>xs. pool_inv p' xs)"
  proof (cases "reserve_flushed_segment pool")
    case (Pair r p)
    show ?thesis
    proof (cases r)
      case None
      with Pair have "p = pool"
        by (auto simp: reserve_flushed_segment_def split: option.splits)
      with Pair None inv show ?thesis by (auto simp: load_one_segment_def)
    next
      case (Some i)
      with load_one_segment_step [OF inv, of i p cap st m f] Pair show ?thesis by blast
    qed
  qed
qed

text \<open>
  Loading into a pool whose slots from \<^verbatim>\<open>insert_idx\<close> on are free: every file ends up in the list, with
  its range and version, as long as the array has room.
\<close>

definition fresh_from_insert_idx :: "FlushedSegmentPool \<Rightarrow> bool" where
  "fresh_from_insert_idx pool \<longleftrightarrow>
     (\<forall>i. insert_idx pool \<le> i \<longrightarrow> i < MAX_SEGMENTS_COUNT \<longrightarrow> \<not> in_used (flushed_segments pool i))"

abbreviation seg_key :: "FlushedSegmentPool \<Rightarrow> nat \<Rightarrow> SegmentId \<times> SegmentId \<times> u32" where
  "seg_key pool i \<equiv> (sid_start pool i, sid_end pool i, version (flushed_segments pool i))"

abbreviation file_key :: "SegmentFileInfo \<Rightarrow> SegmentId \<times> SegmentId \<times> u32" where
  "file_key f \<equiv> (fi_start_sid f, fi_end_sid f, fi_version f)"

text \<open>A store in which every listed file is readable and its metadata agrees with its name.\<close>

definition store_has :: "segment_store \<Rightarrow> SegmentFileInfo list \<Rightarrow> bool" where
  "store_has st files \<longleftrightarrow>
     (\<forall>f \<in> set files. fi_version f \<noteq> UINT32_MAX \<and>
        (case read_files st (fi_start_sid f) (fi_end_sid f) (fi_version f) of
           None \<Rightarrow> False
         | Some sf \<Rightarrow> md_start_sid sf = fi_start_sid f \<and> md_end_sid sf = fi_end_sid f))"

lemma reserve_fresh:
  "fresh_from_insert_idx pool \<Longrightarrow> insert_idx pool < MAX_SEGMENTS_COUNT \<Longrightarrow>
   reserve_flushed_segment pool = (Some (insert_idx pool),
     upd_seg (insert_idx pool) (\<lambda>s. s\<lparr>in_used := True\<rparr>) (pool\<lparr>insert_idx := Suc (insert_idx pool)\<rparr>))"
  by (simp add: reserve_flushed_segment_def fresh_from_insert_idx_def first_from.simps)

lemma load_one_fresh:
  assumes inv: "pool_inv pool xs" and fresh: "fresh_from_insert_idx pool"
    and room: "insert_idx pool < MAX_SEGMENTS_COUNT" and st: "store_has st [f]"
  shows "\<exists>p' ys. load_one_segment cap st m f pool = Some p' \<and> pool_inv p' ys
     \<and> fresh_from_insert_idx p' \<and> insert_idx p' = Suc (insert_idx pool)
     \<and> set ys = insert (insert_idx pool) (set xs)
     \<and> (\<forall>j. seg_key p' j = (if j = insert_idx pool then file_key f else seg_key pool j))"
proof -
  let ?i = "insert_idx pool"
  let ?g = "load_and_set_segment st (fi_start_sid f) (fi_end_sid f) (fi_version f) m"
  let ?p = "upd_seg ?i (\<lambda>s. s\<lparr>in_used := True\<rparr>) (pool\<lparr>insert_idx := Suc ?i\<rparr>)"
  obtain p' where p': "load_one_segment cap st m f pool = Some p'"
    "pool_inv p' (insert_by_start (upd_seg ?i ?g ?p) (sid_start (upd_seg ?i ?g ?p) ?i) ?i xs)"
    "insert_idx p' = Suc ?i"
    and pay: "\<And>j. payload (flushed_segments p' j) = payload (flushed_segments (upd_seg ?i ?g ?p) j)"
    using load_one_segment_step [OF inv reserve_fresh [OF fresh room], of cap st m f] by blast
  note fr = payload_eqD [OF pay]
  have "fresh_from_insert_idx p'"
    using fresh by (auto simp: fresh_from_insert_idx_def p'(3) fr)
  moreover have "seg_key p' j = (if j = ?i then file_key f else seg_key pool j)" for j
    using st by (auto simp: fr store_has_def load_and_set_segment_def Let_def split: option.splits)
  ultimately show ?thesis
    using p' by (intro exI conjI) (assumption | simp)+
qed


lemma load_segments_fresh:
  assumes "pool_inv pool xs" "fresh_from_insert_idx pool" "store_has st files"
    and "insert_idx pool + length files \<le> MAX_SEGMENTS_COUNT"
  shows "\<exists>p ys. load_segments cap st m files pool = Some p \<and> pool_inv p ys
     \<and> mset (map (seg_key p) ys) = mset (map (seg_key pool) xs) + mset (map file_key files)"
  using assms unfolding load_segments_def
proof (induction files arbitrary: pool xs)
  case Nil
  then show ?case by auto
next
  case (Cons f fs)
  let ?i = "insert_idx pool"
  from Cons.prems have "store_has st [f]" "store_has st fs" "?i < MAX_SEGMENTS_COUNT"
    by (auto simp: store_has_def)
  then obtain p ys where p: "load_one_segment cap st m f pool = Some p" "pool_inv p ys"
    "fresh_from_insert_idx p" "insert_idx p = Suc ?i" "set ys = insert ?i (set xs)"
    and key: "\<And>j. seg_key p j = (if j = ?i then file_key f else seg_key pool j)"
    using load_one_fresh [of pool xs st f cap m] Cons.prems(1,2) by blast
  obtain q zs where q: "iterate_opt (load_one_segment cap st m) fs p = Some q" "pool_inv q zs"
    "mset (map (seg_key q) zs) = mset (map (seg_key p) ys) + mset (map file_key fs)"
    using Cons.IH [OF p(2,3) \<open>store_has st fs\<close>] Cons.prems(4) p(4) by auto
  have new: "?i \<notin> set xs"
    using Cons.prems(1,2) \<open>?i < MAX_SEGMENTS_COUNT\<close>
    by (auto simp: pool_inv_def pool_live_def fresh_from_insert_idx_def)
  have "distinct xs" "distinct ys"
    using Cons.prems(1) p(2) by (simp_all add: pool_inv_def pool_links_def)
  with p(5) new have "mset ys = add_mset ?i (mset xs)"
    by (metis finite_set mset_set.insert mset_set_set)
  then have "mset (map (seg_key p) ys) = add_mset (seg_key p ?i) (image_mset (seg_key p) (mset xs))"
    by simp
  also have "\<dots> = add_mset (file_key f) (mset (map (seg_key pool) xs))"
    using new by (auto simp: key intro!: image_mset_cong)
  finally show ?case
    using p(1) q by auto
qed


lemma find_two_adjacent_pool:
  assumes "pool_links pool xs"
  shows "\<exists>r. find_two_adjacent_segments pool a b = Some r
     \<and> (\<forall>i j. r = Some (i, j) \<longrightarrow> sid_start pool i = a \<and> sid_end pool j = b \<and> sid_end pool i < b
          \<and> (\<exists>A B. xs = A @ i # j # B))"
proof (cases "find (\<lambda>i. in_used (flushed_segments pool i) \<and> sid_start pool i = a) xs")
  case None
  with assms show ?thesis by (simp add: find_two_adjacent_segments_def walk_find_pool)
next
  case (Some i)
  then have i: "i \<in> set xs" "sid_start pool i = a"
    by (auto simp: find_Some_iff)
  then obtain A B where xs: "xs = A @ i # B" by (meson split_list)
  with assms have "next_idx (flushed_segments pool i) = first_opt B None"
    by (simp add: pool_links_def dll_append)
  with assms Some i xs show ?thesis
    by (auto simp: find_two_adjacent_segments_def walk_find_pool first_opt_def not_le
        split: list.splits)
qed

section \<open>Example pools\<close>

text \<open>Concrete pools at which the properties are instantiated.\<close>

definition ex_seg :: "SegmentId \<Rightarrow> SegmentId \<Rightarrow> nat option \<Rightarrow> nat option \<Rightarrow> int \<Rightarrow> FlushedSegment" where
  "ex_seg a b p n r =
     \<lparr>in_used = True, segment_id_start = a, segment_id_end = b, vec_count = 2, map_ptr = Some [7, 9],
      index_type = HNSW, index_ptr = Some 1, bitmap_ptr = Some [0], next_idx = n, prev_idx = p,
      ref_count = r, load_state = SEG_FULLY_LOADED, delete_count = 0, is_compacting = False,
      version = 1, offsets = Some [], offsets_count = 1\<rparr>"

definition ex_pool :: FlushedSegmentPool where
  "ex_pool =
     \<lparr>flushed_segments = (\<lambda>i. if i = 0 then ex_seg 3 3 None (Some 1) 1
                            else if i = 1 then ex_seg 5 5 (Some 0) None 1
                            else if i = 2 then ex_seg 4 4 None None 0
                            else if i = 3 then ex_seg 3 5 None None 0
                            else (ex_seg 0 0 None None 0)\<lparr>in_used := False\<rparr>),
      flushed_segment_count = 2, head_idx = Some 0, tail_idx = Some 1, insert_idx = 4,
      flat_count = 0, memtable_capacity_le_count = 2, small_segment_le_count = 2\<rparr>"

lemma ex_pool_inv: "pool_inv ex_pool [0, 1]"
  by (simp add: pool_inv_def pool_links_def pool_live_def pool_sorted_def ex_pool_def ex_seg_def
      MAX_SEGMENTS_COUNT_def)

lemma ex_pool_stats: "pool_stats_ok 50000 ex_pool [0, 1]"
  by (simp add: pool_stats_ok_def ex_pool_def ex_seg_def THRESHOLD_SMALL_SEGMENT_SIZE_def)

lemma ex_pool_vals:
  "ref_count (flushed_segments ex_pool 0) = 1" "ref_count (flushed_segments ex_pool (Suc 0)) = 1"
  "sid_start ex_pool 0 = 3" "sid_start ex_pool (Suc 0) = 5" "sid_start ex_pool 2 = 4"
  "sid_start ex_pool 3 = 3" "flushed_segment_count ex_pool = 2"
  by (simp_all add: ex_pool_def ex_seg_def)

lemma ex_pool_loaded: "loaded_slot ex_pool [0, 1] 2" "loaded_slot ex_pool [0, 1] 3"
  by (simp_all add: loaded_slot_def ex_pool_def ex_seg_def MAX_SEGMENTS_COUNT_def)

section \<open>Properties\<close>

text \<open>C21: \<^verbatim>\<open>register_flushed_segment\<close> always returns on a well-formed pool and leaves a doubly linked list,
  consistent in both directions and with head and tail, in ascending start-sid order, with the new
  segment placed after every segment that does not start later.\<close>

theorem register_flushed_segment_ordered:
  assumes "pool_inv pool xs" and "loaded_slot pool xs idx"
  shows "\<exists>p. register_flushed_segment cap idx pool = Some p
           \<and> pool_inv p (insert_by_start pool (sid_start pool idx) idx xs)"
  using register_flushed_segment_inv [OF assms, of cap] by blast

theorem register_flushed_segment_ordered_witness:
  "\<exists>p. register_flushed_segment 50000 2 ex_pool = Some p \<and> pool_inv p [0, 2, 1]"
  using register_flushed_segment_ordered [OF ex_pool_inv ex_pool_loaded(1), of 50000]
  by (simp add: insert_by_start_def ex_pool_vals)

text \<open>C22: \<^verbatim>\<open>replace_flushed_segments_n\<close> splices one loaded segment in place of any contiguous span
  (head, tail and middle spans included), keeps the list well formed and ordered, and leaves the
  contents of every other slot alone.\<close>

theorem replace_flushed_segments_n_splices:
  assumes "pool_inv pool (A @ Os @ B)" and "Os \<noteq> []"
    and "loaded_slot pool (A @ Os @ B) idx"
    and "sid_start pool idx = sid_start pool (hd Os)"
  shows "pool_inv (replace_flushed_segments_n cap Os idx pool) (A @ idx # B)
    \<and> (\<forall>i. i \<notin> set Os \<longrightarrow>
          payload (flushed_segments (replace_flushed_segments_n cap Os idx pool) i)
            = payload (flushed_segments pool i))"
proof -
  from assms(1) have "distinct Os" by (auto simp: pool_inv_def pool_links_def)
  with replace_flushed_segments_inv [OF assms] show ?thesis by (simp add: replace_payload)
qed

theorem replace_flushed_segments_n_splices_witness:
  "pool_inv (replace_flushed_segments_n 50000 [0, 1] 3 ex_pool) [3]"
  using replace_flushed_segments_n_splices [of ex_pool "[]" "[0, 1]" "[]" 3 50000]
    ex_pool_inv ex_pool_loaded(2)
  by (simp add: ex_pool_vals)

text \<open>the three merge-scheduling counters of the pool equal, modulo 32 bits, the number of listed
  segments of each kind, and registration and replacement both keep them exact.\<close>

theorem pool_statistics_exact:
  assumes "pool_inv pool (A @ Os @ B)" and "pool_stats_ok cap pool (A @ Os @ B)"
    and "loaded_slot pool (A @ Os @ B) idx"
  shows "(\<forall>p. register_flushed_segment cap idx pool = Some p \<longrightarrow>
            pool_stats_ok cap p (insert_by_start pool (sid_start pool idx) idx (A @ Os @ B)))
    \<and> (Os \<noteq> [] \<longrightarrow> pool_stats_ok cap (replace_flushed_segments_n cap Os idx pool) (A @ idx # B))"
proof (intro conjI allI impI)
  from assms have links: "pool_links pool (A @ Os @ B)" and new: "idx \<notin> set (A @ Os @ B)"
    by (auto simp: pool_inv_def loaded_slot_def)
  then show "pool_stats_ok cap p (insert_by_start pool (sid_start pool idx) idx (A @ Os @ B))"
    if "register_flushed_segment cap idx pool = Some p" for p
    using register_flushed_segment_stats(1) assms(2) that by blast
  show "pool_stats_ok cap (replace_flushed_segments_n cap Os idx pool) (A @ idx # B)" if "Os \<noteq> []"
    using links new that assms(2) by (intro replace_stats) (auto simp: pool_links_def)
qed

theorem pool_statistics_exact_witness:
  "pool_stats_ok 50000 (replace_flushed_segments_n 50000 [0, 1] 3 ex_pool) [3]"
  using pool_statistics_exact [of ex_pool "[]" "[0, 1]" "[]" 50000 3]
    ex_pool_inv ex_pool_stats ex_pool_loaded(2) by simp

text \<open>the lookups terminate on well-formed pools; \<^verbatim>\<open>find_segment_by_sids\<close> finds a listed segment with
  exactly the given range if and only if there is one, and \<^verbatim>\<open>find_two_adjacent_segments\<close> only returns
  list neighbours that start and end at the target range.\<close>

theorem pool_lookups_exact:
  assumes "pool_inv pool xs"
  shows "(\<exists>r. find_segment_by_sids pool a b = Some r
       \<and> (case r of
            None \<Rightarrow> \<forall>i \<in> set xs. (sid_start pool i, sid_end pool i) \<noteq> (a, b)
          | Some i \<Rightarrow> i \<in> set xs \<and> sid_start pool i = a \<and> sid_end pool i = b))
    \<and> (\<exists>r. find_two_adjacent_segments pool a b = Some r
       \<and> (\<forall>i j. r = Some (i, j) \<longrightarrow> sid_start pool i = a \<and> sid_end pool j = b \<and> sid_end pool i < b
            \<and> (\<exists>A B. xs = A @ i # j # B)))"
proof (rule conjI)
  from assms have links: "pool_links pool xs" and live: "\<forall>i \<in> set xs. in_used (flushed_segments pool i)"
    by (auto simp: pool_inv_def pool_live_def)
  show "\<exists>r. find_segment_by_sids pool a b = Some r
       \<and> (case r of
            None \<Rightarrow> \<forall>i \<in> set xs. (sid_start pool i, sid_end pool i) \<noteq> (a, b)
          | Some i \<Rightarrow> i \<in> set xs \<and> sid_start pool i = a \<and> sid_end pool i = b)"
    using live by (auto simp: find_segment_by_sids_pool [OF links] find_None_iff find_Some_iff
        split: option.splits)
  show "\<exists>r. find_two_adjacent_segments pool a b = Some r
       \<and> (\<forall>i j. r = Some (i, j) \<longrightarrow> sid_start pool i = a \<and> sid_end pool j = b \<and> sid_end pool i < b
            \<and> (\<exists>A B. xs = A @ i # j # B))"
    by (rule find_two_adjacent_pool [OF links])
qed

theorem pool_lookups_exact_witness:
  "\<exists>r. find_segment_by_sids ex_pool 5 5 = Some r
     \<and> (case r of None \<Rightarrow> \<forall>i \<in> set [0, 1]. (sid_start ex_pool i, sid_end ex_pool i) \<noteq> (5, 5)
         | Some i \<Rightarrow> i \<in> set [0, 1] \<and> sid_start ex_pool i = 5 \<and> sid_end ex_pool i = 5)"
  using pool_lookups_exact [OF ex_pool_inv, of 5 5] by (rule conjunct1)

text \<open>loading segment files into an initialised pool returns a well-formed, ordered pool that holds
  exactly one segment per file, with the file's range and version, whenever the files fit.\<close>

theorem load_all_segments_complete:
  assumes "store_has st files" and "length files \<le> MAX_SEGMENTS_COUNT"
  shows "\<exists>p xs. load_all_segments_from_disk cap st files (initialize_segment_pool pool0) = Some p
     \<and> pool_inv p xs \<and> mset (map (seg_key p) xs) = mset (map file_key files)"
proof -
  have "fresh_from_insert_idx (initialize_segment_pool pool0)"
    by (simp add: fresh_from_insert_idx_def initialize_segment_pool_def)
  moreover have "insert_idx (initialize_segment_pool pool0) = 0"
    by (simp add: initialize_segment_pool_def)
  ultimately show ?thesis
    using load_segments_fresh [OF pool_inv_initialize, of pool0 st files cap False] assms
    by (simp add: load_all_segments_from_disk_def)
qed

definition ex_file :: SegmentFileInfo where
  "ex_file = \<lparr>fi_start_sid = 3, fi_end_sid = 4, fi_version = 1\<rparr>"

definition ex_store :: segment_store where
  "ex_store = \<lparr>read_files = (\<lambda>a b v. Some \<lparr>md_start_sid = a, md_end_sid = b, md_valid_rows = 2,
      md_index_type = HNSW, f_index = Some 1, f_bitmap = Some [0], f_delete_count = 0,
      f_mapping = Some [7, 9], f_offsets = Some []\<rparr>),
     find_latest_segment_version = (\<lambda>a b. 0)\<rparr>"

theorem load_all_segments_complete_witness:
  "\<exists>p xs. load_all_segments_from_disk 50000 ex_store [ex_file] (initialize_segment_pool ex_pool) = Some p
     \<and> pool_inv p xs \<and> mset (map (seg_key p) xs) = {#(3, 4, 1)#}"
  using load_all_segments_complete [of ex_store "[ex_file]" 50000 ex_pool]
  by (simp add: store_has_def ex_store_def ex_file_def MAX_SEGMENTS_COUNT_def)

text \<open>\<^verbatim>\<open>flushed_segment_count\<close> drifts. In a pool whose counter equals the list length and whose
  replaced segments are unreferenced, a replacement leaves the counter short by the number of
  retired segments, because \<^verbatim>\<open>cleanup_flushed_segment\<close> has already subtracted each of them.\<close>

theorem replace_segment_count_drifts:
  assumes "pool_inv pool (A @ Os @ B)" and "Os \<noteq> []"
    and "\<forall>i \<in> set Os. ref_count (flushed_segments pool i) = 1"
    and "flushed_segment_count pool = of_nat (length (A @ Os @ B))"
  shows "flushed_segment_count (replace_flushed_segments_n cap Os idx pool)
           = of_nat (length (A @ idx # B)) - of_nat (length Os)"
proof -
  from assms(1) have "distinct Os" by (auto simp: pool_inv_def pool_links_def)
  moreover from assms(3) have "filter (\<lambda>i. ref_count (flushed_segments pool i) = 1) Os = Os"
    by simp
  ultimately show ?thesis
    using replace_count [OF _ assms(2), of cap idx pool] assms(4) by simp
qed

theorem replace_segment_count_drifts_witness:
  "flushed_segment_count (replace_flushed_segments_n 50000 [0, 1] 3 ex_pool) = UINT32_MAX"
  using replace_segment_count_drifts [of ex_pool "[]" "[0, 1]" "[]" 50000 3] ex_pool_inv
  by (simp add: ex_pool_vals)

text \<open>slots retired by a replacement are leaked. The slot is free afterwards, but
  \<^verbatim>\<open>insert_idx\<close> is not rewound (the caller holds the lock), and once it has reached the end of the
  array \<^verbatim>\<open>reserve_flushed_segment\<close> fails although free slots exist: its scan never wraps around.\<close>

theorem replace_leaks_retired_slots:
  assumes "pool_inv pool (A @ Os @ B)" and "i \<in> set Os" and "i \<noteq> idx"
    and "ref_count (flushed_segments pool i) = 1" and "insert_idx pool = MAX_SEGMENTS_COUNT"
  shows "\<not> in_used (flushed_segments (replace_flushed_segments_n cap Os idx pool) i)
    \<and> reserve_flushed_segment (replace_flushed_segments_n cap Os idx pool)
        = (None, replace_flushed_segments_n cap Os idx pool)"
proof -
  from assms(1) have dist: "distinct Os" by (auto simp: pool_inv_def pool_links_def)
  from assms(2) have ne: "Os \<noteq> []" by auto
  have "\<not> in_used (flushed_segments (replace_flushed_segments_n cap Os idx pool) i)"
    using assms(2,4) ne by (simp add: replace_flushed_segments_n_def Let_def relink_span_frame
        retire_refs_segments [OF dist] dec_seg_def free_segment_slot_def)
  moreover have "insert_idx (replace_flushed_segments_n cap Os idx pool) = MAX_SEGMENTS_COUNT"
    using assms(5) ne by (simp add: replace_flushed_segments_n_def Let_def relink_span_frame)
  ultimately show ?thesis
    by (simp add: reserve_flushed_segment_def first_from.simps)
qed

theorem replace_leaks_retired_slots_witness:
  "\<not> in_used (flushed_segments
        (replace_flushed_segments_n 50000 [0, 1] 3 (ex_pool\<lparr>insert_idx := MAX_SEGMENTS_COUNT\<rparr>)) 0)"
  using replace_leaks_retired_slots [of "ex_pool\<lparr>insert_idx := MAX_SEGMENTS_COUNT\<rparr>" "[]" "[0, 1]" "[]" 0 3 50000]
    ex_pool_inv
  by (simp add: ex_pool_vals)

end
