(* ===== verification/Memtable.thy ===== *)
theory Memtable
  imports Prelude
begin

text \<open>
  One memtable (\<^verbatim>\<open>ConcurrentMemTableData\<close>, \<^verbatim>\<open>lsmindex.h\<close>): its fields, the reset done by
  \<^verbatim>\<open>register_and_set_memtable\<close>, and the lock-free insertion protocol of \<^verbatim>\<open>reserve_slot\<close>,
  \<^verbatim>\<open>insert_lsm_index\<close>, \<^verbatim>\<open>publish_slot_release\<close> and \<^verbatim>\<open>update_max_ready_id\<close>. The protocol is given
  twice: as the sequential functions, and as one atomic action at a time of any number of
  interleaved inserters. 32-bit counters are naturals with the wrap-around written out
  (\<open>u32_inc\<close>); the row store is a byte array, and a \<^verbatim>\<open>memcpy\<close> that leaves it is \<open>None\<close>.
\<close>

section \<open>State\<close>

definition U32 :: nat where "U32 = 4294967296"

text \<open>\<^verbatim>\<open>x + 1\<close> on \<^verbatim>\<open>uint32\<close>, and the sentinel \<^verbatim>\<open>UINT32_MAX\<close>.\<close>

definition u32_inc :: "nat \<Rightarrow> nat" where "u32_inc x = (x + 1) mod U32"

definition NO_SLOT :: nat where "NO_SLOT = U32 - 1"

definition MEMTABLE_MAX_CAPACITY :: nat where "MEMTABLE_MAX_CAPACITY = 50000"

definition MEMTABLE_BITMAP_SIZE :: nat where "MEMTABLE_BITMAP_SIZE = (MEMTABLE_MAX_CAPACITY + 7) div 8"

definition MEMTABLE_VECTOR_ARRAY_SIZE_BYTES :: nat where
  "MEMTABLE_VECTOR_ARRAY_SIZE_BYTES = 128 * 1024 * 1024"

definition MAXALIGN :: "nat \<Rightarrow> nat" where "MAXALIGN n = (n + 7) div 8 * 8"

record MemTable =
  mt_rel :: oid
  memtable_id :: SegmentId
  mt_capacity :: nat
  current_size :: nat
  ready_cnt :: nat
  mt_sealed :: bool
  flush_claimed :: bool
  max_ready_id :: nat
  mt_dim :: nat
  mt_elem_size :: nat
  mt_tids :: "i64 list"
  mt_bitmap :: bitmap
  mt_ready :: "bool list"
  vector_blob :: "u8 list"

definition VEC_BYTES_PER_ROW :: "MemTable \<Rightarrow> nat" where
  "VEC_BYTES_PER_ROW mt = mt_dim mt * mt_elem_size mt"

text \<open>\<^verbatim>\<open>VEC_PTR_AT\<close> as an offset into \<^verbatim>\<open>vector_blob\<close>.\<close>

definition VEC_PTR_AT :: "MemTable \<Rightarrow> nat \<Rightarrow> nat" where
  "VEC_PTR_AT mt row_idx = row_idx * MAXALIGN (VEC_BYTES_PER_ROW mt)"

text \<open>\<^verbatim>\<open>memcpy\<close> into a byte array; leaving the array is undefined behaviour.\<close>

definition memcpy_at :: "u8 list \<Rightarrow> nat \<Rightarrow> u8 list \<Rightarrow> u8 list option" where
  "memcpy_at buf off bs =
     (if off + length bs \<le> length buf
      then Some (take off buf @ bs @ drop (off + length bs) buf) else None)"

definition row_at :: "MemTable \<Rightarrow> nat \<Rightarrow> u8 list" where
  "row_at mt i = take (VEC_BYTES_PER_ROW mt) (drop (VEC_PTR_AT mt i) (vector_blob mt))"

section \<open>Sequential operations\<close>

text \<open>
  The capacity of a new memtable; \<open>limit\<close> is the setting \<^verbatim>\<open>postgresqlv.memtable_capacity\<close>. A zero row size
  divides by zero in C, hence \<open>None\<close>.
\<close>

definition memtable_capacity :: "nat \<Rightarrow> nat \<Rightarrow> nat \<Rightarrow> nat option" where
  "memtable_capacity limit d es =
     (let vecbytes = d * es in
      if vecbytes = 0 then None
      else Some (min (MEMTABLE_VECTOR_ARRAY_SIZE_BYTES div vecbytes mod U32) limit))"

text \<open>The reset of a claimed buffer slot by \<^verbatim>\<open>register_and_set_memtable\<close>.\<close>

definition reset_memtable ::
    "nat \<Rightarrow> oid \<Rightarrow> SegmentId \<Rightarrow> nat \<Rightarrow> nat \<Rightarrow> MemTable \<Rightarrow> MemTable option" where
  "reset_memtable limit relid sid d es mt =
     (case memtable_capacity limit d es of
        None \<Rightarrow> None
      | Some cap \<Rightarrow> Some (mt\<lparr>mt_rel := relid, memtable_id := sid, mt_capacity := cap, current_size := 0,
          ready_cnt := 0, mt_sealed := False, flush_claimed := False, max_ready_id := NO_SLOT,
          mt_dim := d, mt_elem_size := es,
          mt_bitmap := replicate MEMTABLE_BITMAP_SIZE 0,
          mt_ready := replicate cap False @ drop cap (mt_ready mt)\<rparr>))"

definition reserve_slot :: "MemTable \<Rightarrow> MemTable \<times> nat" where
  "reserve_slot t =
     (if mt_sealed t then (t, NO_SLOT)
      else
        let i = current_size t;
            t = t\<lparr>current_size := u32_inc i\<rparr>
        in if i \<ge> mt_capacity t then (t\<lparr>mt_sealed := True\<rparr>, NO_SLOT) else (t, i))"

text \<open>The scan \<^verbatim>\<open>while (new_max < capacity && ready[new_max] == 1) new_max++\<close>.\<close>

definition scan_ready_end :: "MemTable \<Rightarrow> nat \<Rightarrow> nat" where
  "scan_ready_end t lo =
     (case first_from (\<lambda>j. \<not> mt_ready t ! j) lo (mt_capacity t) of Some j \<Rightarrow> j | None \<Rightarrow> max lo (mt_capacity t))"

definition update_max_ready_id :: "MemTable \<Rightarrow> nat \<Rightarrow> MemTable" where
  "update_max_ready_id t slot_id =
     (let current_max = max_ready_id t in
      if current_max = NO_SLOT then (if slot_id = 0 then t\<lparr>max_ready_id := 0\<rparr> else t)
      else if slot_id = u32_inc current_max then
        let new_max = scan_ready_end t (u32_inc current_max) - 1 in
        if new_max > current_max then t\<lparr>max_ready_id := new_max\<rparr> else t
      else t)"

definition publish_slot_release :: "MemTable \<Rightarrow> nat \<Rightarrow> MemTable" where
  "publish_slot_release t i =
     update_max_ready_id (t\<lparr>mt_ready := (mt_ready t)[i := True], ready_cnt := u32_inc (ready_cnt t)\<rparr>) i"

text \<open>\<^verbatim>\<open>insert_lsm_index\<close>'s fast path on the growing memtable; the flag says whether a slot was found.\<close>

definition insert_into_memtable :: "MemTable \<Rightarrow> i64 \<Rightarrow> u8 list \<Rightarrow> (MemTable \<times> bool) option" where
  "insert_into_memtable t tid vec =
     (case reserve_slot t of (t, i) \<Rightarrow>
        if i = NO_SLOT then Some (t, False)
        else
          let t = t\<lparr>mt_tids := (mt_tids t)[i := tid]\<rparr> in
          (case memcpy_at (vector_blob t) (VEC_PTR_AT t i) vec of
             None \<Rightarrow> None
           | Some blob \<Rightarrow> Some (publish_slot_release (t\<lparr>vector_blob := blob\<rparr>) i, True)))"

text \<open>\<^verbatim>\<open>wait_for_publish\<close>: one look at the counters. \<open>Inl\<close> is an \<^verbatim>\<open>elog(ERROR)\<close>, \<open>Inr False\<close> sleeps and looks again.\<close>

datatype publish_error = NotSealed | ReadyExceedsSize

definition valid_rows :: "MemTable \<Rightarrow> nat" where
  "valid_rows t = min (current_size t) (mt_capacity t)"

definition wait_for_publish_poll :: "MemTable \<Rightarrow> publish_error + bool" where
  "wait_for_publish_poll t =
     (if mt_sealed t then
        (if ready_cnt t > valid_rows t then Inl ReadyExceedsSize
         else Inr (ready_cnt t = valid_rows t))
      else Inl NotSealed)"

section \<open>Interleaved inserters\<close>

text \<open>
  The program counter of an inserter: what it has done so far and the values in its local
  variables. Every action below is one read or write of the shared memtable.
\<close>

datatype pc =
    Idle
  | Checked i64 "u8 list"          \<comment> \<open>\<^verbatim>\<open>sealed\<close> was read as 0\<close>
  | Overflowed                     \<comment> \<open>the fetched index was \<^verbatim>\<open>>= capacity\<close>\<close>
  | Rejected                       \<comment> \<open>\<^verbatim>\<open>reserve_slot\<close> returned \<^verbatim>\<open>UINT32_MAX\<close>\<close>
  | Reserved nat i64 "u8 list"
  | TidWritten nat "u8 list"
  | VecWritten nat
  | Readied nat                    \<comment> \<open>\<^verbatim>\<open>ready[i] = 1\<close> done\<close>
  | Counted nat                    \<comment> \<open>\<^verbatim>\<open>ready_cnt\<close> incremented, in \<^verbatim>\<open>update_max_ready_id\<close>\<close>
  | InitMax nat                    \<comment> \<open>about to compare-and-swap the sentinel with 0\<close>
  | Scanning nat nat nat           \<comment> \<open>slot, \<^verbatim>\<open>current_max\<close>, \<^verbatim>\<open>new_max\<close>\<close>
  | Extending nat nat nat          \<comment> \<open>same, in the compare-and-swap loop\<close>
  | Finished nat

fun advance :: "MemTable \<Rightarrow> pc \<Rightarrow> (MemTable \<times> pc) option" where
  "advance t (Checked tid v) =
     (let i = current_size t in
      Some (t\<lparr>current_size := u32_inc i\<rparr>, if i \<ge> mt_capacity t then Overflowed else Reserved i tid v))"
| "advance t Overflowed = Some (t\<lparr>mt_sealed := True\<rparr>, Rejected)"
| "advance t (Reserved i tid v) = Some (t\<lparr>mt_tids := (mt_tids t)[i := tid]\<rparr>, TidWritten i v)"
| "advance t (TidWritten i v) =
     (case memcpy_at (vector_blob t) (VEC_PTR_AT t i) v of
        None \<Rightarrow> None | Some blob \<Rightarrow> Some (t\<lparr>vector_blob := blob\<rparr>, VecWritten i))"
| "advance t (VecWritten i) = Some (t\<lparr>mt_ready := (mt_ready t)[i := True]\<rparr>, Readied i)"
| "advance t (Readied i) = Some (t\<lparr>ready_cnt := u32_inc (ready_cnt t)\<rparr>, Counted i)"
| "advance t (Counted i) =
     (let cur = max_ready_id t in
      Some (t, if cur = NO_SLOT then (if i = 0 then InitMax i else Finished i)
               else if i = u32_inc cur then Scanning i cur (u32_inc cur) else Finished i))"
| "advance t (InitMax i) =
     Some (if max_ready_id t = NO_SLOT then t\<lparr>max_ready_id := 0\<rparr> else t, Finished i)"
| "advance t (Scanning i cur new) =
     Some (t, if new < mt_capacity t \<and> mt_ready t ! new then Scanning i cur (Suc new)
              else if new - 1 > cur then Extending i cur (new - 1) else Finished i)"
| "advance t (Extending i cur new) =
     (if max_ready_id t = cur then Some (t\<lparr>max_ready_id := new\<rparr>, Finished i)
      else Some (t, if max_ready_id t \<ge> new then Finished i else Extending i (max_ready_id t) new))"
| "advance t Idle = None"
| "advance t Rejected = None"
| "advance t (Finished i) = None"

text \<open>
  A memtable with a table of inserters. \<open>assigned\<close> is a specification variable: which tuple
  the inserter that reserved a slot is inserting there.
\<close>

record Inserters =
  shared :: MemTable
  procs :: "pc list"
  assigned :: "nat \<Rightarrow> (i64 \<times> u8 list) option"

fun at_rest :: "pc \<Rightarrow> bool" where
  "at_rest Idle = True"
| "at_rest Rejected = True"
| "at_rest (Finished i) = True"
| "at_rest _ = False"

fun note_assignment :: "pc \<Rightarrow> (nat \<Rightarrow> (i64 \<times> u8 list) option) \<Rightarrow> nat \<Rightarrow> (i64 \<times> u8 list) option" where
  "note_assignment (Reserved i tid v) asg = asg(i \<mapsto> (tid, v))"
| "note_assignment _ asg = asg"

inductive ins_step :: "Inserters \<Rightarrow> Inserters \<Rightarrow> bool" where
  start: "p < length (procs s) \<Longrightarrow> at_rest (procs s ! p) \<Longrightarrow> \<not> mt_sealed (shared s)
    \<Longrightarrow> length v = VEC_BYTES_PER_ROW (shared s)
    \<Longrightarrow> ins_step s (s\<lparr>procs := (procs s)[p := Checked tid v]\<rparr>)"
| refuse: "p < length (procs s) \<Longrightarrow> at_rest (procs s ! p) \<Longrightarrow> mt_sealed (shared s)
    \<Longrightarrow> ins_step s (s\<lparr>procs := (procs s)[p := Rejected]\<rparr>)"
| act: "p < length (procs s) \<Longrightarrow> advance (shared s) (procs s ! p) = Some (t, c)
    \<Longrightarrow> ins_step s (s\<lparr>shared := t, procs := (procs s)[p := c],
                      assigned := note_assignment c (assigned s)\<rparr>)"

inductive_cases ins_stepE: "ins_step s s'"

definition start_state :: "nat \<Rightarrow> MemTable \<Rightarrow> Inserters" where
  "start_state n t = \<lparr>shared = t, procs = replicate n Idle, assigned = Map.empty\<rparr>"

text \<open>What a memtable just reset by \<^verbatim>\<open>register_and_set_memtable\<close> looks like.\<close>

definition fresh_memtable :: "MemTable \<Rightarrow> bool" where
  "fresh_memtable t \<longleftrightarrow> current_size t = 0 \<and> ready_cnt t = 0 \<and> \<not> mt_sealed t \<and> max_ready_id t = NO_SLOT
     \<and> mt_capacity t \<le> MEMTABLE_MAX_CAPACITY
     \<and> length (mt_tids t) = MEMTABLE_MAX_CAPACITY \<and> length (mt_ready t) = MEMTABLE_MAX_CAPACITY
     \<and> (\<forall>i < mt_capacity t. \<not> mt_ready t ! i)
     \<and> mt_capacity t * MAXALIGN (VEC_BYTES_PER_ROW t) \<le> length (vector_blob t)"

section \<open>Row store\<close>

lemma MAXALIGN_ge: "n \<le> MAXALIGN n"
  by (simp add: MAXALIGN_def)

lemma memcpy_at_length: "memcpy_at buf off bs = Some buf' \<Longrightarrow> length buf' = length buf"
  by (auto simp: memcpy_at_def split: if_splits)

lemma memcpy_at_same:
  "memcpy_at buf off bs = Some buf' \<Longrightarrow> take (length bs) (drop off buf') = bs"
  by (auto simp: memcpy_at_def split: if_splits)

lemma memcpy_at_nth:
  assumes "memcpy_at buf off bs = Some buf'" and "k < off \<or> off + length bs \<le> k" and "k < length buf"
  shows "buf' ! k = buf ! k"
proof -
  from assms(1) have le: "off + length bs \<le> length buf"
    and b: "buf' = take off buf @ bs @ drop (off + length bs) buf"
    by (auto simp: memcpy_at_def split: if_splits)
  from assms(2) show ?thesis
  proof
    assume "k < off"
    with le show ?thesis by (simp add: b nth_append)
  next
    assume k: "off + length bs \<le> k"
    then have "\<not> k < off" "\<not> k - off < length bs" by auto
    with le k assms(3) show ?thesis by (simp add: b nth_append)
  qed
qed

lemma memcpy_at_other:
  assumes m: "memcpy_at buf off bs = Some buf'" and disj: "o2 + n \<le> off \<or> off + length bs \<le> o2"
  shows "take n (drop o2 buf') = take n (drop o2 buf)"
proof (rule nth_equalityI)
  show "length (take n (drop o2 buf')) = length (take n (drop o2 buf))"
    using memcpy_at_length [OF m] by simp
next
  fix k assume k: "k < length (take n (drop o2 buf'))"
  then have "o2 + k < off \<or> off + length bs \<le> o2 + k" and "o2 + k < length buf"
    using disj memcpy_at_length [OF m] by auto
  from memcpy_at_nth [OF m this] k show "take n (drop o2 buf') ! k = take n (drop o2 buf) ! k"
    using memcpy_at_length [OF m] \<open>o2 + k < length buf\<close> by (simp add: nth_drop)
qed

lemma strides_disjoint:
  assumes "i \<noteq> j" "w \<le> (st :: nat)"
  shows "i * st + w \<le> j * st \<or> j * st + w \<le> i * st"
proof -
  have "Suc i * st \<le> j * st \<or> Suc j * st \<le> i * st"
    using assms(1) by (metis Suc_leI linorder_neqE_nat mult_le_mono1)
  with assms(2) show ?thesis by auto
qed

lemma row_at_memcpy:
  assumes "memcpy_at (vector_blob t) (VEC_PTR_AT t i) v = Some blob"
    and "length v = VEC_BYTES_PER_ROW t"
  shows "row_at (t\<lparr>vector_blob := blob\<rparr>) j = (if j = i then v else row_at t j)"
proof (cases "j = i")
  case True
  then show ?thesis
    using memcpy_at_same [OF assms(1)] assms(2)
    by (simp add: row_at_def VEC_BYTES_PER_ROW_def VEC_PTR_AT_def)
next
  case False
  with strides_disjoint [OF False MAXALIGN_ge, of "VEC_BYTES_PER_ROW t"] assms(2) show ?thesis
    using memcpy_at_other [OF assms(1), of "VEC_PTR_AT t j" "VEC_BYTES_PER_ROW t"]
    by (simp add: row_at_def VEC_BYTES_PER_ROW_def VEC_PTR_AT_def)
qed

lemma nth_list_update_if: "xs[i := x] ! j = (if j = i \<and> i < length xs then x else xs ! j)"
  by (cases "i < length xs") (auto simp: nth_list_update not_less list_update_beyond)

section \<open>Counting inserters\<close>

definition headcount :: "(pc \<Rightarrow> bool) \<Rightarrow> pc list \<Rightarrow> nat" where
  "headcount P ps = length (filter P ps)"

lemma headcount_update:
  "p < length ps \<Longrightarrow> headcount P (ps[p := c]) + (if P (ps ! p) then 1 else 0) = headcount P ps + (if P c then 1 else 0)"
proof (induction ps arbitrary: p)
  case (Cons x xs)
  then show ?case by (cases p) (auto simp: headcount_def)
qed simp

lemma headcount_le: "headcount P ps \<le> length ps"
  by (simp add: headcount_def)

lemma headcount_pos: "p < length ps \<Longrightarrow> P (ps ! p) \<Longrightarrow> 0 < headcount P ps"
  unfolding headcount_def by (metis filter_empty_conv length_greater_0_conv nth_mem)

lemma headcount_0_iff: "headcount P ps = 0 \<longleftrightarrow> (\<forall>p < length ps. \<not> P (ps ! p))"
  unfolding headcount_def length_0_conv filter_empty_conv all_set_conv_all_nth ..

lemma headcount_ge_2:
  assumes "p < length ps" "q < length ps" "p \<noteq> q" "P (ps ! p)" "P (ps ! q)"
  shows "2 \<le> headcount P ps"
proof -
  have "{p, q} \<subseteq> {i. i < length ps \<and> P (ps ! i)}" using assms by auto
  then have "card {p, q} \<le> card {i. i < length ps \<and> P (ps ! i)}" by (intro card_mono) auto
  then show ?thesis using assms(3) by (simp add: headcount_def length_filter_conv_card)
qed

lemma headcount_replicate_Idle: "\<not> P Idle \<Longrightarrow> headcount P (replicate n Idle) = 0"
  by (simp add: headcount_def)

section \<open>The invariant of the insertion protocol\<close>

fun pending :: "pc \<Rightarrow> nat option" where
  "pending (Reserved i tid v) = Some i"
| "pending (TidWritten i v) = Some i"
| "pending (VecWritten i) = Some i"
| "pending _ = None"

fun is_checked :: "pc \<Rightarrow> bool" where
  "is_checked (Checked tid v) = True" | "is_checked _ = False"

fun is_readied :: "pc \<Rightarrow> bool" where
  "is_readied (Readied i) = True" | "is_readied _ = False"

type_synonym assignment = "nat \<Rightarrow> (i64 \<times> u8 list) option"

definition row_ok :: "MemTable \<Rightarrow> assignment \<Rightarrow> nat \<Rightarrow> bool" where
  "row_ok t asg i \<longleftrightarrow> asg i = Some (mt_tids t ! i, row_at t i)"

definition ready_below :: "MemTable \<Rightarrow> nat \<Rightarrow> bool" where
  "ready_below t n \<longleftrightarrow> n \<le> valid_rows t \<and> (\<forall>j < n. mt_ready t ! j)"

fun pc_ok :: "MemTable \<Rightarrow> assignment \<Rightarrow> pc \<Rightarrow> bool" where
  "pc_ok t asg (Checked tid v) \<longleftrightarrow> length v = VEC_BYTES_PER_ROW t"
| "pc_ok t asg Overflowed \<longleftrightarrow> mt_capacity t \<le> current_size t"
| "pc_ok t asg (Reserved i tid v) \<longleftrightarrow> i < valid_rows t \<and> asg i = Some (tid, v)"
| "pc_ok t asg (TidWritten i v) \<longleftrightarrow> i < valid_rows t \<and> asg i = Some (mt_tids t ! i, v)"
| "pc_ok t asg (VecWritten i) \<longleftrightarrow> i < valid_rows t \<and> row_ok t asg i"
| "pc_ok t asg (Readied i) \<longleftrightarrow> i < valid_rows t \<and> mt_ready t ! i"
| "pc_ok t asg (Counted i) \<longleftrightarrow> i < valid_rows t \<and> mt_ready t ! i"
| "pc_ok t asg (InitMax i) \<longleftrightarrow> ready_below t 1"
| "pc_ok t asg (Scanning i cur new) \<longleftrightarrow> cur < new \<and> ready_below t new"
| "pc_ok t asg (Extending i cur new) \<longleftrightarrow> cur < new \<and> ready_below t (Suc new)"
| "pc_ok t asg _ \<longleftrightarrow> True"

definition table_ok :: "MemTable \<Rightarrow> assignment \<Rightarrow> bool" where
  "table_ok t asg \<longleftrightarrow>
     mt_capacity t \<le> MEMTABLE_MAX_CAPACITY
     \<and> length (mt_tids t) = MEMTABLE_MAX_CAPACITY \<and> length (mt_ready t) = MEMTABLE_MAX_CAPACITY
     \<and> mt_capacity t * MAXALIGN (VEC_BYTES_PER_ROW t) \<le> length (vector_blob t)
     \<and> (\<forall>i tid v. asg i = Some (tid, v) \<longrightarrow> i < valid_rows t \<and> length v = VEC_BYTES_PER_ROW t)
     \<and> (\<forall>i < mt_capacity t. mt_ready t ! i \<longrightarrow> i < valid_rows t \<and> row_ok t asg i)
     \<and> (max_ready_id t \<noteq> NO_SLOT \<longrightarrow> ready_below t (Suc (max_ready_id t)))
     \<and> (mt_sealed t \<longrightarrow> mt_capacity t \<le> current_size t)"

definition ready_rows :: "MemTable \<Rightarrow> nat" where
  "ready_rows t = length (filter ((!) (mt_ready t)) [0..<valid_rows t])"

definition counts_ok :: "MemTable \<Rightarrow> pc list \<Rightarrow> bool" where
  "counts_ok t ps \<longleftrightarrow>
     (\<forall>i. headcount (\<lambda>c. pending c = Some i) ps = (if i < valid_rows t \<and> \<not> mt_ready t ! i then 1 else 0))
     \<and> ready_cnt t + headcount is_readied ps = ready_rows t
     \<and> current_size t + headcount is_checked ps \<le> mt_capacity t + length ps
     \<and> (\<not> mt_sealed t \<longrightarrow> current_size t \<le> mt_capacity t + headcount (\<lambda>c. c = Overflowed) ps)"

definition ins_inv :: "Inserters \<Rightarrow> bool" where
  "ins_inv s \<longleftrightarrow> length (procs s) + MEMTABLE_MAX_CAPACITY < NO_SLOT
     \<and> table_ok (shared s) (assigned s) \<and> counts_ok (shared s) (procs s)
     \<and> (\<forall>p < length (procs s). pc_ok (shared s) (assigned s) (procs s ! p))"

text \<open>What the other inserters see of one action: nothing they rely on is taken back.\<close>

definition stable_for :: "pc \<Rightarrow> MemTable \<Rightarrow> assignment \<Rightarrow> MemTable \<Rightarrow> assignment \<Rightarrow> bool" where
  "stable_for c t asg t' asg' \<longleftrightarrow>
     mt_capacity t' = mt_capacity t \<and> VEC_BYTES_PER_ROW t' = VEC_BYTES_PER_ROW t
     \<and> current_size t \<le> current_size t'
     \<and> (\<forall>j < valid_rows t. mt_ready t ! j \<longrightarrow> mt_ready t' ! j)
     \<and> (\<forall>i. pending c = Some i \<longrightarrow>
          asg' i = asg i \<and> mt_tids t' ! i = mt_tids t ! i \<and> row_at t' i = row_at t i)"

lemma valid_rows_mono:
  "mt_capacity t' = mt_capacity t \<Longrightarrow> current_size t \<le> current_size t' \<Longrightarrow> valid_rows t \<le> valid_rows t'"
  by (auto simp: valid_rows_def)

lemma ready_below_mono:
  "ready_below t n \<Longrightarrow> mt_capacity t' = mt_capacity t \<Longrightarrow> current_size t \<le> current_size t'
    \<Longrightarrow> (\<forall>j < valid_rows t. mt_ready t ! j \<longrightarrow> mt_ready t' ! j) \<Longrightarrow> ready_below t' n"
  unfolding ready_below_def using valid_rows_mono [of t' t] by fastforce

lemma pc_ok_stable:
  assumes "pc_ok t asg c" "stable_for c t asg t' asg'"
  shows "pc_ok t' asg' c"
proof -
  have v: "valid_rows t \<le> valid_rows t'"
    using assms(2) by (simp add: stable_for_def valid_rows_mono)
  have r: "ready_below t n \<Longrightarrow> ready_below t' n" for n
    using assms(2) by (auto simp: stable_for_def elim: ready_below_mono)
  show ?thesis
    using assms v r by (cases c) (auto simp: stable_for_def row_ok_def)
qed

lemma headcount_pending_other:
  assumes "counts_ok t ps" "p < length ps" "q < length ps" "p \<noteq> q" "pending (ps ! p) = Some i"
  shows "pending (ps ! q) \<noteq> Some i"
proof
  assume "pending (ps ! q) = Some i"
  then have "2 \<le> headcount (\<lambda>c. pending c = Some i) ps"
    using headcount_ge_2 [of p ps q "\<lambda>c. pending c = Some i"] assms by simp
  with assms(1) show False by (simp add: counts_ok_def split: if_splits)
qed

lemma pending_not_ready:
  assumes "counts_ok t ps" "p < length ps" "pending (ps ! p) = Some i"
  shows "i < valid_rows t \<and> \<not> mt_ready t ! i"
  using assms headcount_pos [of p ps "\<lambda>c. pending c = Some i"]
  by (auto simp: counts_ok_def split: if_splits)

subsection \<open>Fields an action leaves alone\<close>

lemma VEC_BYTES_PER_ROW_update [simp]:
  "VEC_BYTES_PER_ROW (t\<lparr>current_size := n\<rparr>) = VEC_BYTES_PER_ROW t"
  "VEC_BYTES_PER_ROW (t\<lparr>mt_sealed := b\<rparr>) = VEC_BYTES_PER_ROW t"
  "VEC_BYTES_PER_ROW (t\<lparr>mt_tids := ts\<rparr>) = VEC_BYTES_PER_ROW t"
  "VEC_BYTES_PER_ROW (t\<lparr>vector_blob := bl\<rparr>) = VEC_BYTES_PER_ROW t"
  "VEC_BYTES_PER_ROW (t\<lparr>mt_ready := rs\<rparr>) = VEC_BYTES_PER_ROW t"
  "VEC_BYTES_PER_ROW (t\<lparr>ready_cnt := n\<rparr>) = VEC_BYTES_PER_ROW t"
  "VEC_BYTES_PER_ROW (t\<lparr>max_ready_id := n\<rparr>) = VEC_BYTES_PER_ROW t"
  by (simp_all add: VEC_BYTES_PER_ROW_def)

lemma row_at_update [simp]:
  "row_at (t\<lparr>current_size := n\<rparr>) = row_at t"
  "row_at (t\<lparr>mt_sealed := b\<rparr>) = row_at t"
  "row_at (t\<lparr>mt_tids := ts\<rparr>) = row_at t"
  "row_at (t\<lparr>mt_ready := rs\<rparr>) = row_at t"
  "row_at (t\<lparr>ready_cnt := n\<rparr>) = row_at t"
  "row_at (t\<lparr>max_ready_id := n\<rparr>) = row_at t"
  by (simp_all add: fun_eq_iff row_at_def VEC_PTR_AT_def)

lemma valid_rows_update [simp]:
  "valid_rows (t\<lparr>mt_sealed := b\<rparr>) = valid_rows t"
  "valid_rows (t\<lparr>mt_tids := ts\<rparr>) = valid_rows t"
  "valid_rows (t\<lparr>vector_blob := bl\<rparr>) = valid_rows t"
  "valid_rows (t\<lparr>mt_ready := rs\<rparr>) = valid_rows t"
  "valid_rows (t\<lparr>ready_cnt := n\<rparr>) = valid_rows t"
  "valid_rows (t\<lparr>max_ready_id := n\<rparr>) = valid_rows t"
  by (simp_all add: valid_rows_def)

lemma valid_rows_le: "valid_rows t \<le> mt_capacity t"
  by (simp add: valid_rows_def)

lemma u32_inc_small: "x < NO_SLOT \<Longrightarrow> u32_inc x = Suc x"
  by (simp add: u32_inc_def NO_SLOT_def U32_def)

lemma current_size_small:
  "counts_ok t ps \<Longrightarrow> table_ok t asg \<Longrightarrow> length ps + MEMTABLE_MAX_CAPACITY < NO_SLOT
    \<Longrightarrow> current_size t < NO_SLOT"
  by (simp add: counts_ok_def table_ok_def)

lemma ready_rows_le: "ready_rows t \<le> valid_rows t"
  unfolding ready_rows_def by (rule order_trans [OF length_filter_le]) simp

lemma ready_cnt_small:
  "counts_ok t ps \<Longrightarrow> table_ok t asg \<Longrightarrow> length ps + MEMTABLE_MAX_CAPACITY < NO_SLOT
    \<Longrightarrow> ready_cnt t < NO_SLOT"
  using ready_rows_le [of t] valid_rows_le [of t] by (simp add: counts_ok_def table_ok_def)

subsection \<open>One action\<close>

lemma advance_stable:
  assumes adv: "advance t (ps ! p) = Some (t', c')" and p: "p < length ps" and q: "q < length ps" "q \<noteq> p"
    and inv: "table_ok t asg" "counts_ok t ps" "length ps + MEMTABLE_MAX_CAPACITY < NO_SLOT"
      "pc_ok t asg (ps ! p)" "pc_ok t asg (ps ! q)"
  shows "stable_for (ps ! q) t asg t' (note_assignment c' asg)"
proof -
  have other: "pending (ps ! q) \<noteq> Some i" if "pending (ps ! p) = Some i" for i
    using headcount_pending_other [OF inv(2) p q(1) _ that] q(2) by simp
  have q_valid: "i < valid_rows t" if "pending (ps ! q) = Some i" for i
    using pending_not_ready [OF inv(2) q(1) that] by simp
  have small: "u32_inc (current_size t) = Suc (current_size t)"
    using current_size_small [OF inv(2,1,3)] by (rule u32_inc_small)
  show ?thesis
  proof (cases "ps ! p")
    case (Checked tid v)
    with adv small show ?thesis
      by (auto simp: stable_for_def Let_def valid_rows_def dest!: q_valid split: if_splits)
  next
    case (Reserved i tid v)
    with adv other show ?thesis by (fastforce simp: stable_for_def)
  next
    case (TidWritten i v)
    with inv(1,4) have len: "length v = VEC_BYTES_PER_ROW t" by (auto simp: table_ok_def)
    from TidWritten adv obtain blob where
      m: "memcpy_at (vector_blob t) (VEC_PTR_AT t i) v = Some blob" "t' = t\<lparr>vector_blob := blob\<rparr>" "c' = VecWritten i"
      by (auto split: option.splits)
    show ?thesis
      using m row_at_memcpy [OF m(1) len] other TidWritten by (auto simp: stable_for_def)
  next
    case (VecWritten i)
    with adv show ?thesis by (auto simp: stable_for_def nth_list_update_if)
  qed (use adv in \<open>auto simp: stable_for_def Let_def split: if_splits\<close>)
qed

lemma advance_pc_ok:
  assumes adv: "advance t (ps ! p) = Some (t', c')" and p: "p < length ps"
    and inv: "table_ok t asg" "counts_ok t ps" "length ps + MEMTABLE_MAX_CAPACITY < NO_SLOT"
      "pc_ok t asg (ps ! p)"
  shows "pc_ok t' (note_assignment c' asg) c'"
proof -
  have small: "u32_inc (current_size t) = Suc (current_size t)"
    using current_size_small [OF inv(2,1,3)] by (rule u32_inc_small)
  have lens: "length (mt_tids t) = MEMTABLE_MAX_CAPACITY" "length (mt_ready t) = MEMTABLE_MAX_CAPACITY"
    and below: "i < valid_rows t \<Longrightarrow> i < MEMTABLE_MAX_CAPACITY" for i
    using inv(1) valid_rows_le [of t] by (auto simp: table_ok_def)
  show ?thesis
  proof (cases "ps ! p")
    case (Checked tid v)
    with adv small show ?thesis by (auto simp: Let_def valid_rows_def split: if_splits)
  next
    case (Reserved i tid v)
    with adv inv(4) lens below show ?thesis by auto
  next
    case (TidWritten i v)
    with inv(1,4) have len: "length v = VEC_BYTES_PER_ROW t" by (auto simp: table_ok_def)
    from TidWritten adv obtain blob where
      m: "memcpy_at (vector_blob t) (VEC_PTR_AT t i) v = Some blob" "t' = t\<lparr>vector_blob := blob\<rparr>" "c' = VecWritten i"
      by (auto split: option.splits)
    show ?thesis
      using m row_at_memcpy [OF m(1) len] TidWritten inv(4) by (auto simp: row_ok_def)
  next
    case (VecWritten i)
    with adv inv(4) lens below show ?thesis by auto
  next
    case (Counted i)
    have max: "max_ready_id t < NO_SLOT" if "max_ready_id t \<noteq> NO_SLOT"
      using that inv(1) valid_rows_le [of t]
      by (auto simp: table_ok_def ready_below_def MEMTABLE_MAX_CAPACITY_def NO_SLOT_def U32_def)
    then have inc: "u32_inc (max_ready_id t) = Suc (max_ready_id t)" if "max_ready_id t \<noteq> NO_SLOT"
      using that u32_inc_small by simp
    from Counted adv have t': "t' = t"
      and c': "c' = (if max_ready_id t = NO_SLOT then (if i = 0 then InitMax i else Finished i)
               else if i = u32_inc (max_ready_id t) then Scanning i (max_ready_id t) (u32_inc (max_ready_id t))
               else Finished i)"
      by (auto simp: Let_def)
    from Counted inv(1,4) show ?thesis
      unfolding t' c' by (auto simp: inc table_ok_def ready_below_def)
  next
    case (Scanning i cur new)
    have "ready_below t (Suc new)" if "new < mt_capacity t" "mt_ready t ! new"
      using that Scanning inv(1,4) by (auto simp: table_ok_def ready_below_def less_Suc_eq)
    with Scanning adv inv(4) show ?thesis
      by (auto simp: ready_below_def split: if_splits)
  next
    case (Extending i cur new)
    with adv inv(4) show ?thesis by (auto simp: ready_below_def split: if_splits)
  qed (use adv inv(4) in \<open>auto simp: Let_def ready_below_def split: if_splits\<close>)
qed

lemma advance_table_ok:
  assumes adv: "advance t (ps ! p) = Some (t', c')" and p: "p < length ps"
    and inv: "table_ok t asg" "counts_ok t ps" "length ps + MEMTABLE_MAX_CAPACITY < NO_SLOT"
      "pc_ok t asg (ps ! p)"
  shows "table_ok t' (note_assignment c' asg)"
proof -
  have small: "u32_inc (current_size t) = Suc (current_size t)"
    using current_size_small [OF inv(2,1,3)] by (rule u32_inc_small)
  have lens: "length (mt_tids t) = MEMTABLE_MAX_CAPACITY" "length (mt_ready t) = MEMTABLE_MAX_CAPACITY"
    using inv(1) by (auto simp: table_ok_def)
  have rb: "ready_below t n \<Longrightarrow> ready_below t' n" if "stable_for Idle t asg t' asg'" for n asg'
    using that by (auto simp: stable_for_def elim: ready_below_mono)
  show ?thesis
  proof (cases "ps ! p")
    case (Checked tid v)
    with adv have t': "t' = t\<lparr>current_size := Suc (current_size t)\<rparr>"
      and c': "c' = (if mt_capacity t \<le> current_size t then Overflowed else Reserved (current_size t) tid v)"
      by (auto simp: Let_def small)
    have v: "valid_rows t \<le> valid_rows t'" by (auto simp: t' valid_rows_def)
    have new: "valid_rows t = current_size t \<and> valid_rows t' = Suc (current_size t)"
      if "\<not> mt_capacity t \<le> current_size t" using that by (auto simp: t' valid_rows_def)
    have r: "ready_below t n \<Longrightarrow> ready_below t' n" for n
      using v by (auto simp: ready_below_def t')
    show ?thesis
    proof (cases "mt_capacity t \<le> current_size t")
      case True
      then have "valid_rows t' = valid_rows t" by (simp add: t' valid_rows_def)
      with True inv(1) r show ?thesis by (simp add: table_ok_def c' t' row_ok_def)
    next
      case False
      have asg: "asg (current_size t) = None"
        using inv(1) new [OF False] by (cases "asg (current_size t)") (auto simp: table_ok_def)
      have nr: "\<not> mt_ready t ! current_size t"
        using inv(1) new [OF False] False unfolding table_ok_def by (metis less_irrefl not_le)
      from inv have "length v = VEC_BYTES_PER_ROW t" by (simp add: Checked)
      with inv(1) r new [OF False] asg False show ?thesis
        unfolding table_ok_def c' t' row_ok_def by (auto simp: less_Suc_eq nr)
    qed
  next
    case (Reserved i tid v)
    have "\<not> mt_ready t ! i"
      using pending_not_ready [OF inv(2) p] Reserved by simp
    with adv Reserved inv(1) show ?thesis
      by (auto simp: table_ok_def row_ok_def ready_below_def nth_list_update_if)
  next
    case (TidWritten i v)
    with inv(1,4) have len: "length v = VEC_BYTES_PER_ROW t" by (auto simp: table_ok_def)
    from TidWritten adv obtain blob where
      m: "memcpy_at (vector_blob t) (VEC_PTR_AT t i) v = Some blob" "t' = t\<lparr>vector_blob := blob\<rparr>" "c' = VecWritten i"
      by (auto split: option.splits)
    have "\<not> mt_ready t ! i"
      using pending_not_ready [OF inv(2) p] TidWritten by simp
    with m row_at_memcpy [OF m(1) len] inv(1) memcpy_at_length [OF m(1)] show ?thesis
      by (auto simp: table_ok_def row_ok_def ready_below_def)
  next
    case (VecWritten i)
    with adv have t': "t' = t\<lparr>mt_ready := (mt_ready t)[i := True]\<rparr>" and c': "note_assignment c' asg = asg"
      by auto
    have row: "row_ok t' asg = row_ok t asg" by (simp add: fun_eq_iff row_ok_def t')
    have rb: "ready_below t n \<Longrightarrow> ready_below t' n" for n
      by (auto simp: ready_below_def t' nth_list_update_if)
    from inv(1,4) rb show ?thesis
      unfolding table_ok_def row c' by (simp add: t' VecWritten nth_list_update_if)
  next
    case Overflowed
    with adv inv(1,4) show ?thesis by (auto simp: table_ok_def row_ok_def ready_below_def)
  next
    case (Readied i)
    with adv inv(1) show ?thesis by (auto simp: table_ok_def row_ok_def ready_below_def)
  next
    case (Counted i)
    then have "t' = t" "note_assignment c' asg = asg" using adv by (auto simp: Let_def split: if_splits)
    with inv(1) show ?thesis by simp
  next
    case (InitMax i)
    with adv have "t' = t \<or> t' = t\<lparr>max_ready_id := 0\<rparr>" "note_assignment c' asg = asg"
      by (auto split: if_splits)
    with inv(1,4) InitMax show ?thesis by (auto simp: table_ok_def row_ok_def ready_below_def)
  next
    case (Scanning i cur new)
    then have "t' = t" "note_assignment c' asg = asg" using adv by (auto split: if_splits)
    with inv(1) show ?thesis by simp
  next
    case (Extending i cur new)
    with adv have "t' = t \<or> t' = t\<lparr>max_ready_id := new\<rparr>" "note_assignment c' asg = asg"
      by (auto split: if_splits)
    with inv(1,4) Extending show ?thesis by (auto simp: table_ok_def row_ok_def ready_below_def)
  qed (use adv in simp_all)
qed

lemma filter_nth_set:
  "i < n \<Longrightarrow> i < length xs \<Longrightarrow> \<not> xs ! i \<Longrightarrow>
    length (filter ((!) (xs[i := True])) [0..<n]) = Suc (length (filter ((!) xs) [0..<n]))"
proof (induction n)
  case (Suc n)
  have same: "filter ((!) (xs[i := True])) [0..<i] = filter ((!) xs) [0..<i]"
    by (rule filter_cong) auto
  show ?case
  proof (cases "i = n")
    case True
    with Suc.prems same show ?thesis by simp
  next
    case False
    with Suc.prems Suc.IH show ?thesis by simp
  qed
qed simp

lemma ready_rows_cong [simp]:
  "ready_rows (t\<lparr>mt_sealed := b\<rparr>) = ready_rows t"
  "ready_rows (t\<lparr>mt_tids := ts\<rparr>) = ready_rows t"
  "ready_rows (t\<lparr>vector_blob := bl\<rparr>) = ready_rows t"
  "ready_rows (t\<lparr>ready_cnt := n\<rparr>) = ready_rows t"
  "ready_rows (t\<lparr>max_ready_id := n\<rparr>) = ready_rows t"
  by (simp_all add: ready_rows_def)

lemma counts_ok_quiet:
  assumes "counts_ok t ps" and p: "p < length ps"
    and "pending c' = pending (ps ! p)" "is_readied c' = is_readied (ps ! p)"
    and "is_checked c' = is_checked (ps ! p)" "(c' = Overflowed) = (ps ! p = Overflowed)"
    and "valid_rows t' = valid_rows t" "mt_ready t' = mt_ready t" "ready_cnt t' = ready_cnt t"
    and "current_size t' = current_size t" "mt_capacity t' = mt_capacity t" "mt_sealed t' = mt_sealed t"
  shows "counts_ok t' (ps[p := c'])"
proof -
  have t: "headcount P (ps[p := c']) = headcount P ps" if "P c' = P (ps ! p)" for P
    using headcount_update [OF p, of P c'] that by (auto split: if_splits)
  have "ready_rows t' = ready_rows t" by (simp add: ready_rows_def assms)
  with assms(1) show ?thesis
    by (simp add: counts_ok_def assms t)
qed

lemma advance_counts_ok:
  assumes adv: "advance t (ps ! p) = Some (t', c')" and p: "p < length ps"
    and inv: "table_ok t asg" "counts_ok t ps" "length ps + MEMTABLE_MAX_CAPACITY < NO_SLOT"
      "pc_ok t asg (ps ! p)"
  shows "counts_ok t' (ps[p := c'])"
proof -
  have small: "u32_inc (current_size t) = Suc (current_size t)" "u32_inc (ready_cnt t) = Suc (ready_cnt t)"
    using current_size_small [OF inv(2,1,3)] ready_cnt_small [OF inv(2,1,3)] by (simp_all add: u32_inc_small)
  note upd = headcount_update [OF p, where c = c']
  note old = inv(2) [unfolded counts_ok_def]
  show ?thesis
  proof (cases "ps ! p")
    case (Checked tid v)
    with adv have t': "t' = t\<lparr>current_size := Suc (current_size t)\<rparr>"
      and c': "c' = (if mt_capacity t \<le> current_size t then Overflowed else Reserved (current_size t) tid v)"
      by (auto simp: Let_def small)
    have pend: "headcount (\<lambda>c. pending c = Some i) (ps[p := c']) =
        headcount (\<lambda>c. pending c = Some i) ps + (if pending c' = Some i then 1 else 0)" for i
      using upd [of "\<lambda>c. pending c = Some i"] Checked by simp
    have chk: "Suc (headcount is_checked (ps[p := c'])) = headcount is_checked ps"
      using upd [of is_checked] Checked by (simp add: c')
    have rdy: "headcount is_readied (ps[p := c']) = headcount is_readied ps"
      using upd [of is_readied] Checked by (simp add: c')
    have ovf: "headcount (\<lambda>c. c = Overflowed) (ps[p := c']) =
        headcount (\<lambda>c. c = Overflowed) ps + (if mt_capacity t \<le> current_size t then 1 else 0)"
      using upd [of "\<lambda>c. c = Overflowed"] Checked by (simp add: c')
    show ?thesis
    proof (cases "mt_capacity t \<le> current_size t")
      case True
      then have v: "valid_rows t' = valid_rows t" by (simp add: t' valid_rows_def)
      have "ready_rows t' = ready_rows t" unfolding ready_rows_def v by (simp add: t')
      with True old pend chk rdy ovf show ?thesis
        unfolding counts_ok_def v by (auto simp: c' t')
    next
      case False
      then have v: "valid_rows t' = Suc (current_size t)" "valid_rows t = current_size t"
        by (auto simp: t' valid_rows_def)
      have nr: "\<not> mt_ready t ! current_size t"
        using inv(1) v False unfolding table_ok_def by (metis less_irrefl not_le)
      then have "ready_rows t' = ready_rows t" unfolding ready_rows_def v by (simp add: t')
      with False old pend chk rdy ovf nr show ?thesis
        unfolding counts_ok_def v by (auto simp: c' t' less_Suc_eq)
    qed
  next
    case Overflowed
    with adv have t': "t' = t\<lparr>mt_sealed := True\<rparr>" and c': "c' = Rejected" by auto
    have "headcount P (ps[p := c']) = headcount P ps" if "P Overflowed = P Rejected" for P
      using upd [of P] Overflowed that c' by (auto split: if_splits)
    then show ?thesis using old by (simp add: counts_ok_def t')
  next
    case (VecWritten i)
    with adv have t': "t' = t\<lparr>mt_ready := (mt_ready t)[i := True]\<rparr>" and c': "c' = Readied i" by auto
    have i: "i < valid_rows t" "\<not> mt_ready t ! i" "i < length (mt_ready t)"
      using pending_not_ready [OF inv(2) p] VecWritten inv(1) valid_rows_le [of t]
      by (auto simp: table_ok_def)
    have pend: "headcount (\<lambda>c. pending c = Some j) (ps[p := c']) + (if j = i then 1 else 0) =
        headcount (\<lambda>c. pending c = Some j) ps" for j
      using upd [of "\<lambda>c. pending c = Some j"] VecWritten by (auto simp: c' split: if_splits)
    have rdy: "headcount is_readied (ps[p := c']) = Suc (headcount is_readied ps)"
      using upd [of is_readied] VecWritten by (simp add: c')
    have oth: "headcount P (ps[p := c']) = headcount P ps" if "P (VecWritten i) = P (Readied i)" for P
      using upd [of P] VecWritten that c' by (auto split: if_splits)
    have rows: "ready_rows t' = Suc (ready_rows t)"
      using filter_nth_set [OF i(1) i(3) i(2)] by (simp add: ready_rows_def t')
    have "headcount (\<lambda>c. pending c = Some j) (ps[p := c']) =
        (if j < valid_rows t' \<and> \<not> mt_ready t' ! j then 1 else 0)" for j
      using old pend [of j] i by (auto simp: t' nth_list_update_if split: if_splits)
    moreover have "headcount is_checked (ps[p := c']) = headcount is_checked ps"
      "headcount (\<lambda>c. c = Overflowed) (ps[p := c']) = headcount (\<lambda>c. c = Overflowed) ps"
      by (simp_all add: oth)
    ultimately show ?thesis using old rdy rows by (simp add: counts_ok_def t')
  next
    case (Readied i)
    with adv have t': "t' = t\<lparr>ready_cnt := Suc (ready_cnt t)\<rparr>" and c': "c' = Counted i" by (auto simp: small)
    have rdy: "Suc (headcount is_readied (ps[p := c'])) = headcount is_readied ps"
      using upd [of is_readied] Readied by (simp add: c')
    have oth: "headcount P (ps[p := c']) = headcount P ps" if "P (Readied i) = P (Counted i)" for P
      using upd [of P] Readied that c' by (auto split: if_splits)
    show ?thesis using old rdy by (simp add: counts_ok_def t' oth)
  qed (rule counts_ok_quiet [OF inv(2) p];
       use adv in \<open>auto simp: Let_def split: if_splits option.splits\<close>)+
qed

subsection \<open>Reachable states\<close>

lemma headcount_disjoint:
  assumes "\<And>c. \<not> (A c \<and> B c)" "\<And>c. \<not> (A c \<and> C c)" "\<And>c. \<not> (B c \<and> C c)"
  shows "headcount A ps + headcount B ps + headcount C ps \<le> length ps"
  using assms by (induction ps) (force simp: headcount_def)+

lemma headcount_checked_overflowed_rest:
  "headcount is_checked ps + headcount (\<lambda>c. c = Overflowed) ps + headcount at_rest ps \<le> length ps"
proof (rule headcount_disjoint)
  fix c show "\<not> (is_checked c \<and> c = Overflowed)" by (cases c) auto
  show "\<not> (is_checked c \<and> at_rest c)" by (cases c) auto
  show "\<not> (c = Overflowed \<and> at_rest c)" by (cases c) auto
qed

lemma at_restD: "at_rest c \<Longrightarrow> pending c = None \<and> \<not> is_readied c \<and> \<not> is_checked c \<and> c \<noteq> Overflowed"
  by (cases c) auto

lemma ins_inv_step:
  assumes "ins_step s s'" "ins_inv s"
  shows "ins_inv s'"
  using assms(1)
proof cases
  case (start p v tid)
  note rest = at_restD [OF start(3)]
  have cnt: "counts_ok (shared s) (procs s)" using assms(2) by (simp add: ins_inv_def)
  have "0 < headcount at_rest (procs s)" using start(2,3) by (rule headcount_pos)
  with headcount_checked_overflowed_rest [of "procs s"] start(4) cnt
  have size: "current_size (shared s) + Suc (headcount is_checked (procs s))
      \<le> mt_capacity (shared s) + length (procs s)"
    by (simp add: counts_ok_def)
  let ?ps = "(procs s)[p := Checked tid v]"
  have same: "headcount P ?ps = headcount P (procs s)" if "\<not> P (procs s ! p)" "\<not> P (Checked tid v)" for P
    using headcount_update [OF start(2), of P "Checked tid v"] that by simp
  have chk: "headcount is_checked ?ps = Suc (headcount is_checked (procs s))"
    using headcount_update [OF start(2), of is_checked "Checked tid v"] rest by simp
  have "counts_ok (shared s) ?ps"
    using cnt size chk rest by (simp add: counts_ok_def same)
  with assms(2) start show ?thesis
    by (simp add: ins_inv_def nth_list_update_if)
next
  case (refuse p)
  note rest = at_restD [OF refuse(3)]
  have "counts_ok (shared s) ((procs s)[p := Rejected])"
    by (rule counts_ok_quiet [where t = "shared s"]) (use assms(2) refuse rest in \<open>auto simp: ins_inv_def\<close>)
  with assms(2) refuse show ?thesis by (simp add: ins_inv_def nth_list_update_if)
next
  case (act p t c)
  from assms(2) have inv: "table_ok (shared s) (assigned s)" "counts_ok (shared s) (procs s)"
    "length (procs s) + MEMTABLE_MAX_CAPACITY < NO_SLOT" "pc_ok (shared s) (assigned s) (procs s ! p)"
    using act(2) by (auto simp: ins_inv_def)
  have "pc_ok t (note_assignment c (assigned s)) (procs s ! q)" if "q < length (procs s)" "q \<noteq> p" for q
    using advance_stable [OF act(3,2) that inv] assms(2) that
    by (auto simp: ins_inv_def intro: pc_ok_stable)
  with advance_table_ok [OF act(3,2) inv] advance_counts_ok [OF act(3,2) inv]
    advance_pc_ok [OF act(3,2) inv] inv(3) act(1,2)
  show ?thesis by (auto simp: ins_inv_def nth_list_update_if)
qed

lemma ins_inv_start:
  assumes "fresh_memtable t" "n + MEMTABLE_MAX_CAPACITY < NO_SLOT"
  shows "ins_inv (start_state n t)"
proof -
  have "table_ok t Map.empty" using assms(1) by (auto simp: table_ok_def fresh_memtable_def)
  moreover have "counts_ok t (replicate n Idle)"
    using assms(1)
    by (auto simp: counts_ok_def fresh_memtable_def headcount_replicate_Idle valid_rows_def ready_rows_def)
  ultimately show ?thesis using assms by (simp add: ins_inv_def start_state_def)
qed

lemma ins_inv_reachable:
  assumes "ins_step\<^sup>*\<^sup>* (start_state n t) s" "fresh_memtable t" "n + MEMTABLE_MAX_CAPACITY < NO_SLOT"
  shows "ins_inv s"
  using assms(1)
  by (induction rule: rtranclp_induct) (auto intro: ins_inv_start [OF assms(2,3)] ins_inv_step)

fun unpublished :: "pc \<Rightarrow> bool" where
  "unpublished c \<longleftrightarrow> pending c \<noteq> None \<or> is_readied c"

lemma ready_rows_full_iff: "ready_rows t = valid_rows t \<longleftrightarrow> (\<forall>i < valid_rows t. mt_ready t ! i)"
proof -
  have "ready_rows t = valid_rows t \<longleftrightarrow> length (filter ((!) (mt_ready t)) [0..<valid_rows t]) = length [0..<valid_rows t]"
    by (simp add: ready_rows_def)
  also have "\<dots> \<longleftrightarrow> (\<forall>i \<in> set [0..<valid_rows t]. mt_ready t ! i)"
    by (metis (no_types, lifting) filter_True length_filter_less less_irrefl)
  finally show ?thesis by auto
qed

lemma poll_sealed:
  assumes "ins_inv s" "mt_sealed (shared s)"
  shows "wait_for_publish_poll (shared s) = Inr (\<forall>c \<in> set (procs s). \<not> unpublished c)"
proof -
  let ?t = "shared s" and ?ps = "procs s"
  have cnt: "counts_ok ?t ?ps" using assms(1) by (simp add: ins_inv_def)
  have le: "ready_cnt ?t \<le> valid_rows ?t"
    using cnt ready_rows_le [of ?t] by (simp add: counts_ok_def)
  have "ready_cnt ?t = valid_rows ?t \<longleftrightarrow> ready_rows ?t = valid_rows ?t \<and> headcount is_readied ?ps = 0"
    using cnt ready_rows_le [of ?t] by (auto simp: counts_ok_def)
  also have "\<dots> \<longleftrightarrow> (\<forall>i. headcount (\<lambda>c. pending c = Some i) ?ps = 0) \<and> headcount is_readied ?ps = 0"
    using cnt by (auto simp: counts_ok_def ready_rows_full_iff)
  also have "\<dots> \<longleftrightarrow> (\<forall>c \<in> set ?ps. \<not> unpublished c)"
    by (auto simp: headcount_0_iff all_set_conv_all_nth) (metis not_None_eq)
  finally show ?thesis using assms(2) le by (auto simp: wait_for_publish_poll_def)
qed

subsection \<open>Published rows are frozen\<close>

definition published :: "MemTable \<Rightarrow> nat \<Rightarrow> bool" where
  "published t i \<longleftrightarrow> i < valid_rows t \<and> mt_ready t ! i"

lemma published_row_ok: "ins_inv s \<Longrightarrow> published (shared s) i \<Longrightarrow> row_ok (shared s) (assigned s) i"
  using valid_rows_le [of "shared s"] by (auto simp: ins_inv_def table_ok_def published_def)

lemma advance_keeps_published:
  assumes adv: "advance t (ps ! p) = Some (t', c')" and p: "p < length ps"
    and inv: "table_ok t asg" "counts_ok t ps" "length ps + MEMTABLE_MAX_CAPACITY < NO_SLOT"
      "pc_ok t asg (ps ! p)" and pub: "published t i"
  shows "published t' i \<and> mt_tids t' ! i = mt_tids t ! i \<and> row_at t' i = row_at t i"
proof -
  have other: "pending (ps ! p) \<noteq> Some i"
    using pending_not_ready [OF inv(2) p] pub by (auto simp: published_def)
  have small: "u32_inc (current_size t) = Suc (current_size t)"
    using current_size_small [OF inv(2,1,3)] by (rule u32_inc_small)
  show ?thesis
  proof (cases "ps ! p")
    case (Checked tid v)
    with adv small pub show ?thesis by (auto simp: published_def Let_def valid_rows_def)
  next
    case (Reserved j tid v)
    with adv other pub show ?thesis by (auto simp: published_def)
  next
    case (TidWritten j v)
    with inv(1,4) have len: "length v = VEC_BYTES_PER_ROW t" by (auto simp: table_ok_def)
    from TidWritten adv obtain blob where
      m: "memcpy_at (vector_blob t) (VEC_PTR_AT t j) v = Some blob" "t' = t\<lparr>vector_blob := blob\<rparr>"
      by (auto split: option.splits)
    with row_at_memcpy [OF m(1) len] other TidWritten pub show ?thesis by (auto simp: published_def)
  next
    case (VecWritten j)
    with adv pub show ?thesis by (auto simp: published_def nth_list_update_if)
  qed (use adv pub in \<open>auto simp: published_def Let_def split: if_splits\<close>)
qed

lemma step_keeps_published:
  assumes "ins_step s s'" "ins_inv s" "published (shared s) i"
  shows "published (shared s') i \<and> mt_tids (shared s') ! i = mt_tids (shared s) ! i
    \<and> row_at (shared s') i = row_at (shared s) i"
  using assms(1)
proof cases
  case (act p t c)
  from assms(2) have inv: "table_ok (shared s) (assigned s)" "counts_ok (shared s) (procs s)"
    "length (procs s) + MEMTABLE_MAX_CAPACITY < NO_SLOT" "pc_ok (shared s) (assigned s) (procs s ! p)"
    using act(2) by (auto simp: ins_inv_def)
  from advance_keeps_published [OF act(3,2) inv assms(3)] act(1) show ?thesis by simp
qed (use assms(3) in simp_all)

lemma steps_keep_published:
  assumes "ins_step\<^sup>*\<^sup>* s s'" "ins_inv s" "published (shared s) i"
  shows "published (shared s') i \<and> mt_tids (shared s') ! i = mt_tids (shared s) ! i
    \<and> row_at (shared s') i = row_at (shared s) i"
proof -
  have "ins_inv s' \<and> published (shared s') i \<and> mt_tids (shared s') ! i = mt_tids (shared s) ! i
    \<and> row_at (shared s') i = row_at (shared s) i"
    using assms(1)
  proof (induction rule: rtranclp_induct)
    case (step y z)
    then show ?case using ins_inv_step [of y z] step_keeps_published [of y z i] by auto
  qed (use assms(2,3) in simp)
  then show ?thesis by blast
qed

subsection \<open>The sequential functions are uninterrupted runs\<close>

fun run_inserter :: "nat \<Rightarrow> MemTable \<Rightarrow> pc \<Rightarrow> (MemTable \<times> pc) option" where
  "run_inserter 0 t c = Some (t, c)"
| "run_inserter (Suc n) t c =
     (if at_rest c then Some (t, c)
      else case advance t c of None \<Rightarrow> None | Some (t', c') \<Rightarrow> run_inserter n t' c')"

lemma run_inserter_rest: "at_rest c \<Longrightarrow> run_inserter n t c = Some (t, c)"
  by (cases n) auto

lemma run_inserter_step:
  "\<not> at_rest c \<Longrightarrow> advance t c = Some (t', c') \<Longrightarrow> run_inserter (Suc n) t c = run_inserter n t' c'"
  by simp

lemma scan_ready_end_step:
  "new < mt_capacity t \<Longrightarrow> scan_ready_end t new = (if mt_ready t ! new then scan_ready_end t (Suc new) else new)"
  by (auto simp: scan_ready_end_def first_from.simps [of _ new] split: option.splits)

lemma scan_ready_end_stop: "\<not> new < mt_capacity t \<Longrightarrow> scan_ready_end t new = new"
  by (simp add: scan_ready_end_def first_from.simps [of _ new])

lemma run_extending:
  "max_ready_id t = cur \<Longrightarrow> run_inserter (Suc n) t (Extending i cur new) = Some (t\<lparr>max_ready_id := new\<rparr>, Finished i)"
  by (simp add: run_inserter_rest)

lemma run_scanning:
  assumes "max_ready_id t = cur" "cur < new" "mt_capacity t - new < n"
  shows "run_inserter (Suc n) t (Scanning i cur new) =
    Some (if scan_ready_end t new - 1 > cur then t\<lparr>max_ready_id := scan_ready_end t new - 1\<rparr> else t, Finished i)"
  using assms
proof (induction n arbitrary: new)
  case (Suc n)
  show ?case
  proof (cases "new < mt_capacity t \<and> mt_ready t ! new")
    case True
    with Suc.prems have "mt_capacity t - Suc new < n" "cur < Suc new" by auto
    from Suc.IH [OF Suc.prems(1) this(2,1)] True show ?thesis
      by (subst run_inserter_step) (auto simp: scan_ready_end_step)
  next
    case False
    then have "scan_ready_end t new = new"
      by (cases "new < mt_capacity t") (auto simp: scan_ready_end_step scan_ready_end_stop)
    with False Suc.prems(1) show ?thesis
      by (subst run_inserter_step) (auto simp: run_extending simp del: run_inserter.simps(2)
          simp: run_inserter_rest)
  qed
qed simp

lemma run_update_max:
  assumes "max_ready_id t \<le> NO_SLOT"
  shows "\<exists>n. \<forall>m \<ge> n. run_inserter m t (Counted i) = Some (update_max_ready_id t i, Finished i)"
proof (rule exI [of _ "mt_capacity t + 4"], intro allI impI)
  fix m assume "mt_capacity t + 4 \<le> m"
  then obtain k where "m = mt_capacity t + 4 + k" by (metis le_Suc_ex)
  then have m: "m = Suc (Suc (Suc (mt_capacity t + Suc k)))" by simp
  let ?c = "max_ready_id t"
  have inc: "u32_inc ?c = Suc ?c" if "?c \<noteq> NO_SLOT" using that assms by (simp add: u32_inc_small)
  show "run_inserter m t (Counted i) = Some (update_max_ready_id t i, Finished i)"
  proof (cases "?c \<noteq> NO_SLOT \<and> i = u32_inc ?c")
    case True
    then have "run_inserter (Suc (Suc (mt_capacity t + Suc k))) t (Scanning i ?c (u32_inc ?c)) =
      Some (update_max_ready_id t i, Finished i)"
      by (subst run_scanning) (auto simp: update_max_ready_id_def Let_def inc)
    with True show ?thesis
      unfolding m by (subst run_inserter_step) (auto simp: Let_def)
  next
    case False
    show ?thesis
    proof (cases "?c = NO_SLOT \<and> i = 0")
      case True
      then have "advance t (Counted i) = Some (t, InitMax i)"
        "advance t (InitMax i) = Some (update_max_ready_id t i, Finished i)"
        by (simp_all add: Let_def update_max_ready_id_def)
      then show ?thesis unfolding m by (simp only: run_inserter_step at_rest.simps run_inserter_rest not_False_eq_True)
    next
      case not_first: False
      with False have "advance t (Counted i) = Some (update_max_ready_id t i, Finished i)"
        by (auto simp: Let_def update_max_ready_id_def)
      then show ?thesis unfolding m by (simp only: run_inserter_step at_rest.simps run_inserter_rest not_False_eq_True)
    qed
  qed
qed

lemma run_inserter_more:
  assumes "\<And>m. m \<ge> n \<Longrightarrow> run_inserter m t' c' = r" "\<not> at_rest c" "advance t c = Some (t', c')"
  shows "m \<ge> Suc n \<Longrightarrow> run_inserter m t c = r"
  using assms by (cases m) auto

lemma run_publish:
  assumes "max_ready_id t \<le> NO_SLOT"
  shows "\<exists>n. \<forall>m \<ge> n. run_inserter m t (VecWritten i) = Some (publish_slot_release t i, Finished i)"
proof -
  let ?t = "t\<lparr>mt_ready := (mt_ready t)[i := True], ready_cnt := u32_inc (ready_cnt t)\<rparr>"
  obtain n where n: "\<And>m. m \<ge> n \<Longrightarrow> run_inserter m ?t (Counted i) = Some (publish_slot_release t i, Finished i)"
    using run_update_max [of ?t i] assms by (auto simp: publish_slot_release_def)
  have "run_inserter m t (VecWritten i) = Some (publish_slot_release t i, Finished i)" if "m \<ge> Suc (Suc n)" for m
    by (rule run_inserter_more [OF run_inserter_more [OF n] _ _ that]) auto
  then show ?thesis by blast
qed

lemma run_insert:
  assumes max: "max_ready_id t \<le> NO_SLOT" and size: "current_size t < NO_SLOT"
    and ins: "insert_into_memtable t tid v = Some (t', ok)" and open_mt: "\<not> mt_sealed t"
  shows "\<exists>n. \<forall>m \<ge> n. run_inserter m t (Checked tid v) =
    Some (t', if ok then Finished (current_size t) else Rejected)"
proof -
  let ?i = "current_size t" and ?t1 = "t\<lparr>current_size := u32_inc (current_size t)\<rparr>"
  show ?thesis
  proof (cases "mt_capacity t \<le> ?i")
    case True
    with ins open_mt have r: "t' = ?t1\<lparr>mt_sealed := True\<rparr>" "\<not> ok"
      by (auto simp: insert_into_memtable_def reserve_slot_def Let_def)
    have "run_inserter m t (Checked tid v) = Some (t', Rejected)" if "m \<ge> Suc (Suc 0)" for m
      by (rule run_inserter_more [OF run_inserter_more [OF run_inserter_rest] _ _ that])
        (use True r in \<open>auto simp: Let_def\<close>)
    with r show ?thesis by auto
  next
    case False
    let ?t2 = "?t1\<lparr>mt_tids := (mt_tids t)[?i := tid]\<rparr>"
    from False ins open_mt size obtain blob where
      m: "memcpy_at (vector_blob ?t2) (VEC_PTR_AT ?t2 ?i) v = Some blob"
      and r: "t' = publish_slot_release (?t2\<lparr>vector_blob := blob\<rparr>) ?i" "ok"
      by (auto simp: insert_into_memtable_def reserve_slot_def Let_def split: option.splits)
    obtain n where n: "\<And>m. m \<ge> n \<Longrightarrow> run_inserter m (?t2\<lparr>vector_blob := blob\<rparr>) (VecWritten ?i) =
        Some (t', Finished ?i)"
      using run_publish [of "?t2\<lparr>vector_blob := blob\<rparr>" ?i] max r by auto
    have "run_inserter m t (Checked tid v) = Some (t', Finished ?i)" if "m \<ge> Suc (Suc (Suc n))" for m
      by (rule run_inserter_more [OF run_inserter_more [OF run_inserter_more [OF n]] _ _ that])
        (use False m in \<open>auto simp: Let_def\<close>)
    with r show ?thesis by auto
  qed
qed

section \<open>Executable schedules\<close>

text \<open>One scheduling decision: inserter \<open>p\<close> moves; the row is used when it starts a new insertion.\<close>

fun exec_step :: "nat \<times> i64 \<times> u8 list \<Rightarrow> Inserters \<Rightarrow> Inserters option" where
  "exec_step (p, tid, v) s =
     (if p < length (procs s) then
        (if at_rest (procs s ! p) then
           (if mt_sealed (shared s) then Some (s\<lparr>procs := (procs s)[p := Rejected]\<rparr>)
            else if length v = VEC_BYTES_PER_ROW (shared s)
            then Some (s\<lparr>procs := (procs s)[p := Checked tid v]\<rparr>) else None)
         else case advance (shared s) (procs s ! p) of None \<Rightarrow> None
              | Some (t, c) \<Rightarrow> Some (s\<lparr>shared := t, procs := (procs s)[p := c],
                                      assigned := note_assignment c (assigned s)\<rparr>))
      else None)"

lemma exec_step_sound: "exec_step d s = Some s' \<Longrightarrow> ins_step s s'"
  by (cases d) (auto split: if_splits option.splits intro: ins_step.intros)

lemma exec_schedule_sound: "iterate_opt exec_step ds s = Some s' \<Longrightarrow> ins_step\<^sup>*\<^sup>* s s'"
proof (induction ds arbitrary: s)
  case (Cons d ds)
  then obtain s1 where "exec_step d s = Some s1" "iterate_opt exec_step ds s1 = Some s'"
    by (auto split: option.splits)
  with Cons.IH exec_step_sound show ?case by (meson converse_rtranclp_into_rtranclp)
qed simp

definition example_memtable :: "nat \<Rightarrow> MemTable" where
  "example_memtable cap = \<lparr>mt_rel = 16400, memtable_id = 5, mt_capacity = cap, current_size = 0, ready_cnt = 0,
     mt_sealed = False, flush_claimed = False, max_ready_id = NO_SLOT, mt_dim = 2, mt_elem_size = 4,
     mt_tids = replicate MEMTABLE_MAX_CAPACITY 0, mt_bitmap = replicate MEMTABLE_BITMAP_SIZE 0,
     mt_ready = replicate MEMTABLE_MAX_CAPACITY False, vector_blob = replicate (cap * 8) 0\<rparr>"

lemma example_memtable_fresh: "cap \<le> MEMTABLE_MAX_CAPACITY \<Longrightarrow> fresh_memtable (example_memtable cap)"
  by (simp add: fresh_memtable_def example_memtable_def VEC_BYTES_PER_ROW_def MAXALIGN_def)

definition example_row :: "u8 list" where "example_row = [1, 2, 3, 4, 5, 6, 7, 8]"

text \<open>One inserter fills a memtable of one row and seals it; the second schedule stops halfway through the row.\<close>

definition sealing_schedule :: "(nat \<times> i64 \<times> u8 list) list" where
  "sealing_schedule =
     (let d = (0, 65537, example_row) in [d, d, d, d, d, d, d, d, d, d, d])"

definition sealed_example :: Inserters where
  "sealed_example = \<lparr>shared = (example_memtable 1)\<lparr>current_size := 2, ready_cnt := 1, mt_sealed := True,
       max_ready_id := 0, mt_tids := (replicate MEMTABLE_MAX_CAPACITY 0)[0 := 65537],
       mt_ready := (replicate MEMTABLE_MAX_CAPACITY False)[0 := True], vector_blob := example_row\<rparr>,
     procs = [Rejected], assigned = [0 \<mapsto> (65537, example_row)]\<rparr>"

lemma sealing_schedule_run:
  "iterate_opt exec_step sealing_schedule (start_state 1 (example_memtable 1)) = Some sealed_example"
  by (simp add: sealing_schedule_def sealed_example_def start_state_def example_memtable_def example_row_def
      Let_def u32_inc_def NO_SLOT_def U32_def VEC_BYTES_PER_ROW_def VEC_PTR_AT_def MAXALIGN_def memcpy_at_def)

lemma sealed_example_facts:
  "ins_step\<^sup>*\<^sup>* (start_state 1 (example_memtable 1)) sealed_example"
  "fresh_memtable (example_memtable 1)" "1 + MEMTABLE_MAX_CAPACITY < NO_SLOT" "2 + MEMTABLE_MAX_CAPACITY < NO_SLOT"
  "mt_sealed (shared sealed_example)" "mt_ready (shared sealed_example) ! 0"
  "valid_rows (shared sealed_example) = 1" "mt_capacity (shared sealed_example) = 1"
  using exec_schedule_sound [OF sealing_schedule_run] example_memtable_fresh [of 1]
  by (simp_all add: MEMTABLE_MAX_CAPACITY_def NO_SLOT_def U32_def sealed_example_def valid_rows_def
      example_memtable_def)

text \<open>Two inserters; the first has reserved the only slot and stops, the second finds the memtable full.\<close>

definition racing_schedule :: "(nat \<times> i64 \<times> u8 list) list" where
  "racing_schedule = (let a = (0, 65537, example_row); b = (1, 65538, example_row) in [a, a, b, b, b])"

definition racing_example :: Inserters where
  "racing_example = \<lparr>shared = (example_memtable 1)\<lparr>current_size := 2, mt_sealed := True\<rparr>,
     procs = [Reserved 0 65537 example_row, Rejected], assigned = [0 \<mapsto> (65537, example_row)]\<rparr>"

lemma racing_schedule_run:
  "iterate_opt exec_step racing_schedule (start_state 2 (example_memtable 1)) = Some racing_example"
  by (simp add: racing_schedule_def racing_example_def start_state_def example_memtable_def example_row_def
      Let_def u32_inc_def NO_SLOT_def U32_def VEC_BYTES_PER_ROW_def VEC_PTR_AT_def MAXALIGN_def numeral_2_eq_2)

lemma racing_example_reachable:
  "ins_step\<^sup>*\<^sup>* (start_state 2 (example_memtable 1)) racing_example"
  by (rule exec_schedule_sound [OF racing_schedule_run])

section \<open>Capacity and reset\<close>

lemma MAXALIGN_id: "8 dvd n \<Longrightarrow> MAXALIGN n = n"
  by (auto simp: MAXALIGN_def elim!: dvdE)

lemma memtable_capacity_le:
  "memtable_capacity limit d es = Some cap \<Longrightarrow> cap \<le> limit \<and> cap * (d * es) \<le> MEMTABLE_VECTOR_ARRAY_SIZE_BYTES"
proof -
  assume m: "memtable_capacity limit d es = Some cap"
  then have c: "cap \<le> limit" "cap \<le> MEMTABLE_VECTOR_ARRAY_SIZE_BYTES div (d * es)"
    by (auto simp: memtable_capacity_def Let_def min_def split: if_splits
        intro: order_trans [OF mod_less_eq_dividend])
  then have "cap * (d * es) \<le> MEMTABLE_VECTOR_ARRAY_SIZE_BYTES div (d * es) * (d * es)"
    by simp
  also have "\<dots> \<le> MEMTABLE_VECTOR_ARRAY_SIZE_BYTES" by simp
  finally show ?thesis using c by simp
qed

section \<open>Properties\<close>

text \<open>C25: what a search or a flush reads of a published row is what its inserter wrote. In every state reachable
  by any interleaving of inserters from a fresh memtable, every slot that is marked ready, and every
  slot up to \<^verbatim>\<open>max_ready_id\<close>, holds the complete tuple identifier and vector of the one inserter the slot
  was assigned to.\<close>
theorem published_rows_complete:
  assumes "fresh_memtable t" "n + MEMTABLE_MAX_CAPACITY < NO_SLOT" "ins_step\<^sup>*\<^sup>* (start_state n t) s"
    and "i < valid_rows (shared s)"
    and "mt_ready (shared s) ! i \<or> max_ready_id (shared s) \<noteq> NO_SLOT \<and> i \<le> max_ready_id (shared s)"
  shows "assigned s i = Some (mt_tids (shared s) ! i, row_at (shared s) i)"
proof -
  from ins_inv_reachable [OF assms(3,1,2)] have inv: "ins_inv s" .
  then have "mt_ready (shared s) ! i"
    using assms(5) by (auto simp: ins_inv_def table_ok_def ready_below_def)
  with published_row_ok [OF inv] assms(4) show ?thesis by (simp add: published_def row_ok_def)
qed

theorem published_rows_complete_witness:
  "assigned sealed_example 0 = Some (mt_tids (shared sealed_example) ! 0, row_at (shared sealed_example) 0)"
  by (rule published_rows_complete [OF sealed_example_facts(2,3,1)]) (simp_all add: sealed_example_facts)

text \<open>two inserters never hold the same slot, and a held slot is never yet marked ready, so no row is written
  by two inserters and no reader of ready rows sees a row that is still being written.\<close>
theorem reserved_slots_exclusive:
  assumes "fresh_memtable t" "n + MEMTABLE_MAX_CAPACITY < NO_SLOT" "ins_step\<^sup>*\<^sup>* (start_state n t) s"
    and "p < length (procs s)" "q < length (procs s)" "p \<noteq> q" "pending (procs s ! p) = Some i"
  shows "pending (procs s ! q) \<noteq> Some i \<and> i < mt_capacity (shared s) \<and> \<not> mt_ready (shared s) ! i"
proof -
  from ins_inv_reachable [OF assms(3,1,2)] have cnt: "counts_ok (shared s) (procs s)"
    by (simp add: ins_inv_def)
  from headcount_pending_other [OF cnt assms(4-7)] pending_not_ready [OF cnt assms(4,7)]
    valid_rows_le [of "shared s"] show ?thesis by simp
qed

theorem reserved_slots_exclusive_witness:
  "pending (procs racing_example ! 1) \<noteq> Some 0 \<and> 0 < mt_capacity (shared racing_example)
    \<and> \<not> mt_ready (shared racing_example) ! 0"
  by (rule reserved_slots_exclusive [OF sealed_example_facts(2,4) racing_example_reachable, of 0 1])
    (simp_all add: racing_example_def)

text \<open>C24: \<^verbatim>\<open>wait_for_publish\<close> is exact. On a sealed memtable in any reachable state the ready count never exceeds
  the row count (the error branch is dead), the wait ends exactly when no inserter is between reserving
  a slot and counting it, and then all \<^verbatim>\<open>capacity\<close> rows are ready, complete, and stay as they are in every
  later state: what is flushed is everything that was inserted.\<close>
theorem wait_for_publish_exact:
  assumes "fresh_memtable t" "n + MEMTABLE_MAX_CAPACITY < NO_SLOT" "ins_step\<^sup>*\<^sup>* (start_state n t) s"
    and "mt_sealed (shared s)"
  shows "wait_for_publish_poll (shared s) = Inr (\<forall>c \<in> set (procs s). \<not> unpublished c)
    \<and> (wait_for_publish_poll (shared s) = Inr True \<longrightarrow>
        valid_rows (shared s) = mt_capacity (shared s)
        \<and> (\<forall>s' i. ins_step\<^sup>*\<^sup>* s s' \<longrightarrow> i < mt_capacity (shared s) \<longrightarrow>
             assigned s i = Some (mt_tids (shared s') ! i, row_at (shared s') i)))"
proof -
  from ins_inv_reachable [OF assms(3,1,2)] have inv: "ins_inv s" .
  have full: "valid_rows (shared s) = mt_capacity (shared s)"
    using inv assms(4) by (auto simp: ins_inv_def table_ok_def valid_rows_def)
  have "assigned s i = Some (mt_tids (shared s') ! i, row_at (shared s') i)"
    if poll: "wait_for_publish_poll (shared s) = Inr True" and st: "ins_step\<^sup>*\<^sup>* s s'"
      and i: "i < mt_capacity (shared s)" for s' i
  proof -
    have "ready_cnt (shared s) = valid_rows (shared s)"
      using poll by (auto simp: wait_for_publish_poll_def split: if_splits)
    then have "ready_rows (shared s) = valid_rows (shared s)"
      using inv ready_rows_le [of "shared s"] by (auto simp: ins_inv_def counts_ok_def)
    then have pub: "published (shared s) i"
      using i full ready_rows_full_iff [of "shared s"] by (simp add: published_def)
    from published_row_ok [OF inv pub] steps_keep_published [OF st inv pub]
    show ?thesis by (simp add: row_ok_def)
  qed
  with poll_sealed [OF inv assms(4)] full show ?thesis by blast
qed

theorem wait_for_publish_exact_witness:
  "wait_for_publish_poll (shared sealed_example) = Inr (\<forall>c \<in> set (procs sealed_example). \<not> unpublished c)"
  using wait_for_publish_exact [OF sealed_example_facts(2,3,1,5)] by blast

text \<open>the sequential insertion path is the uninterrupted run of the atomic actions: for enough actions of one
  inserter alone, the memtable it leaves behind and the outcome (slot found, or memtable sealed) are
  those of \<open>insert_into_memtable\<close>.\<close>
theorem insert_is_uninterrupted_run:
  assumes "max_ready_id t \<le> NO_SLOT" "current_size t < NO_SLOT" "\<not> mt_sealed t"
    and "insert_into_memtable t tid v = Some (t', ok)"
  shows "\<exists>n. \<forall>m \<ge> n. run_inserter m t (Checked tid v) =
    Some (t', if ok then Finished (current_size t) else Rejected)"
  using assms by (intro run_insert)

theorem insert_is_uninterrupted_run_witness:
  "\<exists>n. \<forall>m \<ge> n. run_inserter m ((example_memtable 1)\<lparr>current_size := 1\<rparr>) (Checked 7 example_row) =
    Some ((example_memtable 1)\<lparr>current_size := 2, mt_sealed := True\<rparr>, Rejected)"
  using insert_is_uninterrupted_run [of "(example_memtable 1)\<lparr>current_size := 1\<rparr>" 7 example_row
      "(example_memtable 1)\<lparr>current_size := 2, mt_sealed := True\<rparr>" False]
  by (simp add: insert_into_memtable_def reserve_slot_def example_memtable_def u32_inc_def NO_SLOT_def U32_def
      Let_def)

text \<open>a reset memtable is fresh, whatever its slot held before, and the capacity computed for it keeps every row
  inside \<^verbatim>\<open>vector_blob\<close>, provided the row size is a multiple of the alignment.\<close>
theorem reset_memtable_rows_fit:
  assumes "reset_memtable limit relid sid d es mt = Some t" "8 dvd d * es" "limit \<le> MEMTABLE_MAX_CAPACITY"
    and "length (mt_tids mt) = MEMTABLE_MAX_CAPACITY" "length (mt_ready mt) = MEMTABLE_MAX_CAPACITY"
    and "length (vector_blob mt) = MEMTABLE_VECTOR_ARRAY_SIZE_BYTES"
  shows "fresh_memtable t \<and> memtable_id t = sid \<and> \<not> flush_claimed t
    \<and> (\<forall>i < mt_capacity t. VEC_PTR_AT t i + VEC_BYTES_PER_ROW t \<le> length (vector_blob t))"
proof -
  from assms(1) obtain cap where cap: "memtable_capacity limit d es = Some cap"
    and t: "t = mt\<lparr>mt_rel := relid, memtable_id := sid, mt_capacity := cap, current_size := 0,
          ready_cnt := 0, mt_sealed := False, flush_claimed := False, max_ready_id := NO_SLOT,
          mt_dim := d, mt_elem_size := es, mt_bitmap := replicate MEMTABLE_BITMAP_SIZE 0,
          mt_ready := replicate cap False @ drop cap (mt_ready mt)\<rparr>"
    by (auto simp: reset_memtable_def split: option.splits)
  note le = memtable_capacity_le [OF cap]
  have "VEC_PTR_AT t i + VEC_BYTES_PER_ROW t \<le> MEMTABLE_VECTOR_ARRAY_SIZE_BYTES" if "i < cap" for i
  proof -
    have "Suc i * (d * es) \<le> cap * (d * es)" using that by (intro mult_le_mono1) simp
    with le show ?thesis by (simp add: t VEC_PTR_AT_def VEC_BYTES_PER_ROW_def MAXALIGN_id assms(2))
  qed
  with le assms show ?thesis
    by (simp add: t fresh_memtable_def VEC_BYTES_PER_ROW_def MAXALIGN_id nth_append)
qed

theorem reset_memtable_rows_fit_witness:
  "\<exists>t. reset_memtable 50000 16400 7 2 4 ((example_memtable 1)\<lparr>vector_blob :=
      replicate MEMTABLE_VECTOR_ARRAY_SIZE_BYTES 0\<rparr>) = Some t \<and> fresh_memtable t"
proof -
  let ?m = "(example_memtable 1)\<lparr>vector_blob := replicate MEMTABLE_VECTOR_ARRAY_SIZE_BYTES 0\<rparr>"
  obtain t where t: "reset_memtable 50000 16400 7 2 4 ?m = Some t"
    by (simp add: reset_memtable_def memtable_capacity_def)
  from reset_memtable_rows_fit [OF t] have "fresh_memtable t"
    by (simp add: example_memtable_def MEMTABLE_MAX_CAPACITY_def)
  with t show ?thesis by blast
qed

text \<open>the capacity is computed from the unpadded row size, the rows are laid out at the padded one. With 673
  floats per row (2692 bytes, 2696 padded) the memtable accepts 49857 rows, but the last row ends beyond
  the 128 MB array: storing it there is an out-of-bounds write.\<close>
theorem unaligned_rows_overrun_blob:
  "memtable_capacity 50000 673 4 = Some 49857
   \<and> (mt_dim t = 673 \<longrightarrow> mt_elem_size t = 4 \<longrightarrow> length v = VEC_BYTES_PER_ROW t \<longrightarrow>
      length (vector_blob t) = MEMTABLE_VECTOR_ARRAY_SIZE_BYTES \<longrightarrow>
      memcpy_at (vector_blob t) (VEC_PTR_AT t 49856) v = None)"
  by (simp add: memtable_capacity_def MEMTABLE_VECTOR_ARRAY_SIZE_BYTES_def U32_def memcpy_at_def
      VEC_PTR_AT_def VEC_BYTES_PER_ROW_def MAXALIGN_def)

theorem unaligned_rows_overrun_blob_witness:
  "memcpy_at (vector_blob ((example_memtable 1)\<lparr>mt_dim := 673, vector_blob := replicate MEMTABLE_VECTOR_ARRAY_SIZE_BYTES 0\<rparr>))
     (VEC_PTR_AT ((example_memtable 1)\<lparr>mt_dim := 673, vector_blob := replicate MEMTABLE_VECTOR_ARRAY_SIZE_BYTES 0\<rparr>) 49856)
     (replicate 2692 0) = None"
  using unaligned_rows_overrun_blob [of "(example_memtable 1)\<lparr>mt_dim := 673, vector_blob :=
      replicate MEMTABLE_VECTOR_ARRAY_SIZE_BYTES 0\<rparr>" "replicate 2692 0"]
  by (simp add: example_memtable_def VEC_BYTES_PER_ROW_def)

text \<open>\<^verbatim>\<open>max_ready_id\<close> is documented as the largest index below which every slot is ready. When slot 1 is
  published before slot 0 it stays at 0 for good, however many of the following slots are published:
  the growing-memtable search then never regains its contiguous fast path.\<close>
theorem max_ready_id_stalls:
  assumes "max_ready_id t = NO_SLOT" "1 < length (mt_ready t)" "\<forall>i \<in> set is. 1 < i"
  shows "max_ready_id (foldl publish_slot_release t (1 # 0 # is)) = 0
    \<and> (\<forall>i \<in> set (0 # 1 # is). i < length (mt_ready t) \<longrightarrow> mt_ready (foldl publish_slot_release t (1 # 0 # is)) ! i)"
proof -
  let ?t = "publish_slot_release (publish_slot_release t 1) 0"
  have upd: "mt_ready (update_max_ready_id u i) = mt_ready u" for u i
    by (simp add: update_max_ready_id_def Let_def)
  have pub: "mt_ready (publish_slot_release u i) = (mt_ready u)[i := True]" for u i
    by (simp add: publish_slot_release_def upd)
  have keep: "max_ready_id (publish_slot_release u i) = 0" if "max_ready_id u = 0" "1 < i" for u i
    using that by (simp add: publish_slot_release_def update_max_ready_id_def Let_def NO_SLOT_def U32_def u32_inc_def)
  have base: "max_ready_id ?t = 0"
    using assms(1) by (simp add: publish_slot_release_def update_max_ready_id_def Let_def)
  have ready: "mt_ready (foldl publish_slot_release u js) = fold (\<lambda>i r. r[i := True]) js (mt_ready u)" for u js
    by (induction js arbitrary: u) (simp_all add: pub)
  have set: "i < length r \<Longrightarrow> i \<in> set js \<or> r ! i \<Longrightarrow> fold (\<lambda>i r. r[i := True]) js r ! i" for i js and r :: "bool list"
    by (induction js arbitrary: r) (auto simp: nth_list_update_if)
  have "max_ready_id (foldl publish_slot_release u js) = 0" if "max_ready_id u = 0" "\<forall>i \<in> set js. 1 < i" for u js
    using that by (induction js arbitrary: u) (simp_all add: keep)
  from this [OF base assms(3)] have "max_ready_id (foldl publish_slot_release t (1 # 0 # is)) = 0" by simp
  moreover have "mt_ready (foldl publish_slot_release t (1 # 0 # is)) ! i"
    if "i \<in> set (0 # 1 # is)" "i < length (mt_ready t)" for i
    unfolding ready by (rule set) (use that in auto)
  ultimately show ?thesis by blast
qed

theorem max_ready_id_stalls_witness:
  "max_ready_id (foldl publish_slot_release (example_memtable 8) [1, 0, 2, 3]) = 0"
  using max_ready_id_stalls [of "example_memtable 8" "[2, 3]"]
  by (simp add: example_memtable_def MEMTABLE_MAX_CAPACITY_def)

end
