(* ===== verification/SegmentRebuild.thy ===== *)
theory SegmentRebuild
  imports SegmentPool
begin

text \<open>
  The row-level algorithms of the merge workers (\<^verbatim>\<open>vector_index_worker.c\<close>): compaction of one segment
  (\<^verbatim>\<open>rebuild_index_pool\<close>) and concatenation of two adjacent ones (\<^verbatim>\<open>merge_adjacent_segments_pool\<close>).
  Both take a mapping (row to tuple identifier), tombstone bitmaps and an offset table
  that says which rows belong to which segment id, and produce the same three for the new segment.
  The vector indexes themselves are built by an external library and are not modelled.
\<close>

section \<open>Rebuild\<close>

text \<open>\<^verbatim>\<open>(Size) -1\<close>, the mark of a range that has received no row yet.\<close>

definition SIZE_SENTINEL :: nat where "SIZE_SENTINEL = 2 ^ 64 - 1"

text \<open>\<^verbatim>\<open>MergeIndex\<close> keeps the rows that are not masked out and reports their number.\<close>

definition MergeIndex_count :: "bitmap \<Rightarrow> nat \<Rightarrow> nat" where
  "MergeIndex_count bm n = n - popcount_upto bm n"

text \<open>The loop that moves the offset window up to the range holding row \<open>i\<close>.\<close>

function advance_window :: "SegmentOffsetRange list \<Rightarrow> nat \<Rightarrow> nat \<Rightarrow> nat" where
  "advance_window old_offsets i cur_sid_idx =
     (if cur_sid_idx < length old_offsets then
        (if start_offset (old_offsets ! cur_sid_idx) = end_offset (old_offsets ! cur_sid_idx)
         then advance_window old_offsets i (Suc cur_sid_idx)
         else if i \<ge> end_offset (old_offsets ! cur_sid_idx)
         then advance_window old_offsets i (Suc cur_sid_idx)
         else cur_sid_idx)
      else cur_sid_idx)"
  by pat_completeness auto
termination
  by (relation "measure (\<lambda>(offs, i, cur). length offs - cur)") auto

declare advance_window.simps [simp del]

record rebuild_state =
  write_idx :: nat
  cur_sid_idx :: nat
  new_mapping :: "i64 list"
  new_bitmap :: bitmap
  new_delete_count :: nat
  new_offsets :: "SegmentOffsetRange list"

definition touch_offset :: "nat \<Rightarrow> SegmentOffsetRange \<Rightarrow> SegmentOffsetRange" where
  "touch_offset w r =
     (if start_offset r = SIZE_SENTINEL then r\<lparr>start_offset := w, end_offset := w + 1\<rparr>
      else r\<lparr>end_offset := w + 1\<rparr>)"

text \<open>The body of the row loop for row \<open>i\<close>.\<close>

definition rebuild_row ::
    "i64 list \<Rightarrow> SegmentOffsetRange list \<Rightarrow> bitmap \<Rightarrow> bitmap \<Rightarrow> rebuild_state \<Rightarrow> nat \<Rightarrow> rebuild_state" where
  "rebuild_row old_mapping old_offsets snapshot_bitmap fresh_bitmap st i =
     (let cur = advance_window old_offsets i (cur_sid_idx st);
          st = st\<lparr>cur_sid_idx := cur\<rparr>
      in if IS_SLOT_SET snapshot_bitmap i then st
         else
           let w = write_idx st;
               st = st\<lparr>new_mapping := (new_mapping st)[w := old_mapping ! i]\<rparr>;
               st = (if IS_SLOT_SET fresh_bitmap i
                     then st\<lparr>new_bitmap := SET_SLOT (new_bitmap st) w,
                             new_delete_count := new_delete_count st + 1\<rparr>
                     else st);
               st = (if cur < length old_offsets \<and> start_offset (old_offsets ! cur) \<le> i
                        \<and> i < end_offset (old_offsets ! cur)
                     then st\<lparr>new_offsets := (new_offsets st)[cur := touch_offset w (new_offsets st ! cur)]\<rparr>
                     else st)
           in st\<lparr>write_idx := w + 1\<rparr>)"

text \<open>The ``fix empty offset ranges'' pass.\<close>

fun fix_empty_offsets :: "nat \<Rightarrow> SegmentOffsetRange list \<Rightarrow> SegmentOffsetRange list" where
  "fix_empty_offsets prev_end [] = []"
| "fix_empty_offsets prev_end (r # rs) =
     (if start_offset r = SIZE_SENTINEL
      then r\<lparr>start_offset := prev_end, end_offset := prev_end\<rparr> # fix_empty_offsets prev_end rs
      else r # fix_empty_offsets (end_offset r) rs)"

text \<open>
  Phase 3 of \<^verbatim>\<open>rebuild_index_pool\<close>. \<open>mapping_buf\<close> is the fresh \<^verbatim>\<open>malloc\<close> of \<^verbatim>\<open>new_index_count\<close> entries, whose
  content is arbitrary; the bitmap comes from \<^verbatim>\<open>calloc\<close>.
\<close>

definition rebuild_rows ::
    "i64 list \<Rightarrow> nat \<Rightarrow> i64 list \<Rightarrow> SegmentOffsetRange list \<Rightarrow> bitmap \<Rightarrow> bitmap \<Rightarrow> rebuild_state" where
  "rebuild_rows mapping_buf nrows old_mapping old_offsets snapshot_bitmap fresh_bitmap =
     (let st0 = \<lparr>write_idx = 0, cur_sid_idx = 0, new_mapping = mapping_buf,
                 new_bitmap = replicate (GET_BITMAP_SIZE (MergeIndex_count snapshot_bitmap nrows)) 0,
                 new_delete_count = 0,
                 new_offsets = map (\<lambda>r. r\<lparr>start_offset := SIZE_SENTINEL, end_offset := 0\<rparr>) old_offsets\<rparr>;
          st = foldl (rebuild_row old_mapping old_offsets snapshot_bitmap fresh_bitmap) st0 [0..<nrows]
      in st\<lparr>new_offsets := fix_empty_offsets 0 (new_offsets st)\<rparr>)"

section \<open>Merge of two adjacent segments\<close>

text \<open>What \<^verbatim>\<open>merge_adjacent_segments_pool\<close> reads of one input segment.\<close>

record merge_input =
  mi_count :: nat
  mi_mapping :: "i64 list"
  mi_offsets :: "SegmentOffsetRange list"
  mi_fresh_bitmap :: bitmap
  mi_fresh_dc :: nat

record merge_output =
  mo_mapping :: "i64 list"
  mo_offsets :: "SegmentOffsetRange list"
  mo_bitmap :: bitmap
  mo_delete_count :: nat

definition copy_bits :: "bitmap \<Rightarrow> nat \<Rightarrow> nat \<Rightarrow> bitmap \<Rightarrow> bitmap" where
  "copy_bits src n base dst =
     foldl (\<lambda>b i. if IS_SLOT_SET src i then SET_SLOT b (base + i) else b) dst [0..<n]"

text \<open>``Clear stray bits in last byte''.\<close>

definition clear_stray_bits :: "nat \<Rightarrow> bitmap \<Rightarrow> bitmap" where
  "clear_stray_bits nrows bm =
     (let rem = nrows mod 8 in
      if rem \<noteq> 0 then bm[length bm - 1 := bm ! (length bm - 1) AND (push_bit rem 1 - 1)] else bm)"

definition shift_offset :: "nat \<Rightarrow> SegmentOffsetRange \<Rightarrow> SegmentOffsetRange" where
  "shift_offset d r = r\<lparr>start_offset := start_offset r + d, end_offset := end_offset r + d\<rparr>"

text \<open>The larger input comes first in the merged segment, whichever of the two it is.\<close>

definition larger_input :: "merge_input \<Rightarrow> merge_input \<Rightarrow> merge_input" where
  "larger_input seg0 seg1 = (if mi_count seg0 \<ge> mi_count seg1 then seg0 else seg1)"

definition smaller_input :: "merge_input \<Rightarrow> merge_input \<Rightarrow> merge_input" where
  "smaller_input seg0 seg1 = (if mi_count seg0 \<ge> mi_count seg1 then seg1 else seg0)"

definition merge_rows :: "merge_input \<Rightarrow> merge_input \<Rightarrow> merge_output" where
  "merge_rows seg0 seg1 =
     (let larger = larger_input seg0 seg1;
          smaller = smaller_input seg0 seg1;
          total_count = mi_count larger + mi_count smaller;
          bm = replicate (GET_BITMAP_SIZE total_count) 0;
          bm = copy_bits (mi_fresh_bitmap larger) (mi_count larger) 0 bm;
          bm = copy_bits (mi_fresh_bitmap smaller) (mi_count smaller) (mi_count larger) bm
      in \<lparr>mo_mapping = take (mi_count larger) (mi_mapping larger) @ take (mi_count smaller) (mi_mapping smaller),
          mo_offsets = mi_offsets larger @ map (shift_offset (mi_count larger)) (mi_offsets smaller),
          mo_bitmap = clear_stray_bits total_count bm,
          mo_delete_count = mi_fresh_dc seg0 + mi_fresh_dc seg1\<rparr>)"

section \<open>Offset tables\<close>

text \<open>The ranges of an offset table follow each other without gaps from row \<open>a\<close> to row \<open>b\<close>.\<close>

fun offsets_tile :: "nat \<Rightarrow> SegmentOffsetRange list \<Rightarrow> nat \<Rightarrow> bool" where
  "offsets_tile a [] b \<longleftrightarrow> a = b"
| "offsets_tile a (r # rs) b \<longleftrightarrow>
     start_offset r = a \<and> a \<le> end_offset r \<and> offsets_tile (end_offset r) rs b"

definition rows_of :: "'a list \<Rightarrow> SegmentOffsetRange \<Rightarrow> 'a list" where
  "rows_of xs r = take (end_offset r - start_offset r) (drop (start_offset r) xs)"

lemma offsets_tile_le: "offsets_tile a rs b \<Longrightarrow> a \<le> b"
  by (induction rs arbitrary: a) (auto intro: order_trans)

lemma offsets_tile_append:
  "offsets_tile a (rs @ ss) b \<longleftrightarrow> (\<exists>m. offsets_tile a rs m \<and> offsets_tile m ss b)"
  by (induction rs arbitrary: a) auto

lemma offsets_tile_nth:
  assumes "offsets_tile a rs b" "k < length rs"
  shows "a \<le> start_offset (rs ! k) \<and> start_offset (rs ! k) \<le> end_offset (rs ! k) \<and> end_offset (rs ! k) \<le> b"
  using assms
proof (induction rs arbitrary: a k)
  case (Cons r rs)
  from Cons.prems have t: "offsets_tile (end_offset r) rs b" by simp
  show ?case
  proof (cases k)
    case 0
    with Cons.prems offsets_tile_le [OF t] show ?thesis by simp
  next
    case (Suc j)
    with Cons.prems Cons.IH [OF t, of j] show ?thesis by simp
  qed
qed simp

lemma offsets_tile_order:
  "offsets_tile a rs b \<Longrightarrow> j < k \<Longrightarrow> k < length rs \<Longrightarrow> end_offset (rs ! j) \<le> start_offset (rs ! k)"
proof (induction rs arbitrary: a j k)
  case (Cons r rs)
  then obtain k' where k: "k = Suc k'" by (cases k) auto
  from Cons.prems have t: "offsets_tile (end_offset r) rs b" by simp
  show ?case
  proof (cases j)
    case 0
    with offsets_tile_nth [OF t, of k'] Cons.prems k show ?thesis by simp
  next
    case (Suc j')
    with Cons.prems k Cons.IH [OF t, of j' k'] show ?thesis by simp
  qed
qed simp

lemma offsets_tile_cover:
  "offsets_tile a rs b \<Longrightarrow> a \<le> i \<Longrightarrow> i < b \<Longrightarrow> \<exists>k < length rs. start_offset (rs ! k) \<le> i \<and> i < end_offset (rs ! k)"
proof (induction rs arbitrary: a)
  case (Cons r rs)
  show ?case
  proof (cases "i < end_offset r")
    case True
    with Cons.prems show ?thesis by (intro exI [of _ 0]) auto
  next
    case False
    with Cons.prems Cons.IH [of "end_offset r"] obtain k where
      "k < length rs" "start_offset (rs ! k) \<le> i" "i < end_offset (rs ! k)" by auto
    then show ?thesis by (intro exI [of _ "Suc k"]) auto
  qed
qed simp

lemma offsets_tile_first: "offsets_tile a rs b \<Longrightarrow> rs \<noteq> [] \<Longrightarrow> start_offset (rs ! 0) = a"
  by (cases rs) auto

lemma offsets_tile_prev:
  "offsets_tile a rs b \<Longrightarrow> Suc k < length rs \<Longrightarrow> start_offset (rs ! Suc k) = end_offset (rs ! k)"
proof (induction rs arbitrary: a k)
  case (Cons r rs)
  then show ?case by (cases k) (auto simp: offsets_tile_first)
qed simp

lemma offsets_tile_shift:
  "offsets_tile a rs b \<Longrightarrow> offsets_tile (a + d) (map (shift_offset d) rs) (b + d)"
  by (induction rs arbitrary: a) (auto simp: shift_offset_def)

section \<open>Correctness of the rebuild loop\<close>

text \<open>The rows below \<open>i\<close> that survive the snapshot, and how many they are.\<close>

definition survivors :: "bitmap \<Rightarrow> nat \<Rightarrow> nat \<Rightarrow> nat list" where
  "survivors bm a b = filter (\<lambda>j. \<not> IS_SLOT_SET bm j) [a..<b]"

definition rank :: "bitmap \<Rightarrow> nat \<Rightarrow> nat" where
  "rank bm i = length (survivors bm 0 i)"

lemma survivors_Suc:
  "a \<le> b \<Longrightarrow> survivors bm a (Suc b) = survivors bm a b @ (if IS_SLOT_SET bm b then [] else [b])"
  by (simp add: survivors_def)

lemma survivors_split: "a \<le> b \<Longrightarrow> b \<le> c \<Longrightarrow> survivors bm a c = survivors bm a b @ survivors bm b c"
  unfolding survivors_def using upt_add_eq_append [of a b "c - b"] by simp

lemma rank_Suc: "rank bm (Suc i) = rank bm i + (if IS_SLOT_SET bm i then 0 else 1)"
  by (simp add: rank_def survivors_Suc)

lemma rank_mono: "i \<le> j \<Longrightarrow> rank bm i \<le> rank bm j"
  using survivors_split [of 0 i j bm] by (simp add: rank_def)

lemma rank_0 [simp]: "rank bm 0 = 0"
  by (simp add: rank_def survivors_def)

lemma rank_le: "rank bm i \<le> i"
  unfolding rank_def survivors_def by (rule order_trans [OF length_filter_le]) simp

lemma rank_count: "rank bm n = MergeIndex_count bm n"
  using sum_length_filter_compl [of "IS_SLOT_SET bm" "[0..<n]"]
  by (simp add: rank_def survivors_def MergeIndex_count_def popcount_upto_def)

lemma advance_window_finds:
  assumes "offsets_tile 0 offs n" "i < n" "cur \<le> length offs" "\<forall>k < cur. end_offset (offs ! k) \<le> i"
  shows "advance_window offs i cur < length offs
    \<and> start_offset (offs ! advance_window offs i cur) \<le> i
    \<and> i < end_offset (offs ! advance_window offs i cur)"
  using assms
proof (induction offs i cur rule: advance_window.induct)
  case (1 offs i cur)
  have lt: "cur < length offs"
  proof (rule ccontr)
    assume "\<not> cur < length offs"
    with "1.prems" offsets_tile_cover [OF "1.prems"(1), of i] show False by fastforce
  qed
  have st: "start_offset (offs ! cur) \<le> i"
  proof (cases cur)
    case 0
    with lt offsets_tile_first [OF "1.prems"(1)] show ?thesis by auto
  next
    case (Suc k)
    with lt offsets_tile_prev [OF "1.prems"(1), of k] "1.prems"(4) show ?thesis by simp
  qed
  let ?skip = "start_offset (offs ! cur) = end_offset (offs ! cur) \<or> end_offset (offs ! cur) \<le> i"
  have next_ok: "?skip \<Longrightarrow> \<forall>k < Suc cur. end_offset (offs ! k) \<le> i"
    using "1.prems"(4) st by (auto simp: less_Suc_eq)
  show ?case
  proof (cases ?skip)
    case True
    then have "advance_window offs i cur = advance_window offs i (Suc cur)"
      using lt by (subst advance_window.simps) auto
    with True "1.IH" "1.prems"(1,2) lt next_ok show ?thesis by (metis Suc_leI)
  next
    case False
    then have "advance_window offs i cur = cur"
      using lt by (simp add: advance_window.simps [of offs i cur])
    with False lt st show ?thesis by simp
  qed
qed

definition new_range :: "bitmap \<Rightarrow> nat \<Rightarrow> SegmentOffsetRange \<Rightarrow> SegmentOffsetRange" where
  "new_range bm i r =
     (if rank bm (start_offset r) < rank bm (min i (end_offset r))
      then r\<lparr>start_offset := rank bm (start_offset r), end_offset := rank bm (min i (end_offset r))\<rparr>
      else r\<lparr>start_offset := SIZE_SENTINEL, end_offset := 0\<rparr>)"

definition rebuild_inv ::
    "i64 list \<Rightarrow> SegmentOffsetRange list \<Rightarrow> bitmap \<Rightarrow> bitmap \<Rightarrow> nat \<Rightarrow> nat \<Rightarrow> rebuild_state \<Rightarrow> bool" where
  "rebuild_inv old_mapping offs snap fresh n i st \<longleftrightarrow>
     write_idx st = rank snap i
     \<and> cur_sid_idx st \<le> length offs \<and> (\<forall>k < cur_sid_idx st. end_offset (offs ! k) \<le> i)
     \<and> length (new_mapping st) = rank snap n
     \<and> take (rank snap i) (new_mapping st) = map ((!) old_mapping) (survivors snap 0 i)
     \<and> length (new_bitmap st) = GET_BITMAP_SIZE (rank snap n)
     \<and> (\<forall>w < rank snap n. IS_SLOT_SET (new_bitmap st) w
           \<longleftrightarrow> w < rank snap i \<and> IS_SLOT_SET fresh (survivors snap 0 i ! w))
     \<and> new_delete_count st = length (filter (IS_SLOT_SET fresh) (survivors snap 0 i))
     \<and> new_offsets st = map (new_range snap i) offs"

lemma touch_new_range:
  assumes "start_offset r \<le> i" "i < end_offset r" "\<not> IS_SLOT_SET bm i" "i < SIZE_SENTINEL"
  shows "touch_offset (rank bm i) (new_range bm i r) = new_range bm (Suc i) r"
proof -
  have "rank bm (start_offset r) \<le> rank bm i" by (rule rank_mono) (rule assms)
  moreover have "rank bm (start_offset r) \<noteq> SIZE_SENTINEL"
    using rank_le [of bm "start_offset r"] assms by simp
  ultimately show ?thesis
    using assms by (simp add: touch_offset_def new_range_def min_def rank_Suc)
qed

lemma new_range_other:
  assumes "end_offset r \<le> i \<or> i < start_offset r \<or> IS_SLOT_SET bm i" "start_offset r \<le> end_offset r"
  shows "new_range bm (Suc i) r = new_range bm i r"
proof -
  consider "end_offset r \<le> i" | "i < start_offset r" | "IS_SLOT_SET bm i" "i < end_offset r"
    using assms(1) by linarith
  then show ?thesis
  proof cases
    case 1
    then show ?thesis by (simp add: new_range_def min_def)
  next
    case 2
    with assms(2) have "rank bm (Suc i) \<le> rank bm (start_offset r)" "rank bm i \<le> rank bm (start_offset r)"
      "min (Suc i) (end_offset r) = Suc i" "min i (end_offset r) = i"
      by (auto intro: rank_mono)
    then show ?thesis by (simp add: new_range_def)
  next
    case 3
    then show ?thesis by (simp add: new_range_def min_def rank_Suc)
  qed
qed

lemma take_snoc_update:
  "w < length xs \<Longrightarrow> take w xs = ys \<Longrightarrow> take (Suc w) (xs[w := x]) = ys @ [x]"
  by (simp add: take_Suc_conv_app_nth)

lemma rebuild_inv_step:
  assumes inv: "rebuild_inv old_mapping offs snap fresh n i st"
    and tile: "offsets_tile 0 offs n" and i: "i < n" and n: "n < SIZE_SENTINEL"
  shows "rebuild_inv old_mapping offs snap fresh n (Suc i) (rebuild_row old_mapping offs snap fresh st i)"
proof -
  let ?c = "advance_window offs i (cur_sid_idx st)"
  from inv have cur: "cur_sid_idx st \<le> length offs" "\<forall>k < cur_sid_idx st. end_offset (offs ! k) \<le> i"
    by (simp_all add: rebuild_inv_def)
  note c = advance_window_finds [OF tile i cur]
  have before: "\<forall>k < ?c. end_offset (offs ! k) \<le> Suc i"
    using offsets_tile_order [OF tile, of _ ?c] c by fastforce
  have other: "new_range snap (Suc i) (offs ! k) = new_range snap i (offs ! k)"
    if "k < length offs" "k \<noteq> ?c" for k
  proof (rule new_range_other)
    show "start_offset (offs ! k) \<le> end_offset (offs ! k)" using offsets_tile_nth [OF tile that(1)] by simp
    show "end_offset (offs ! k) \<le> i \<or> i < start_offset (offs ! k) \<or> IS_SLOT_SET snap i"
      using offsets_tile_order [OF tile, of k ?c] offsets_tile_order [OF tile, of ?c k] c that
      by (metis le_less_trans less_le_trans linorder_neqE_nat not_le_imp_less order_trans)
  qed
  show ?thesis
  proof (cases "IS_SLOT_SET snap i")
    case True
    have "map (new_range snap (Suc i)) offs = map (new_range snap i) offs"
    proof (rule map_cong [OF refl])
      fix r assume "r \<in> set offs"
      then obtain k where "r = offs ! k" "k < length offs" by (metis in_set_conv_nth)
      with True offsets_tile_nth [OF tile, of k] show "new_range snap (Suc i) r = new_range snap i r"
        by (intro new_range_other) auto
    qed
    with True inv before c show ?thesis
      unfolding rebuild_row_def Let_def
      by (simp add: rebuild_inv_def rank_Suc survivors_Suc)
  next
    case False
    let ?w = "rank snap i"
    have w: "write_idx st = ?w" "?w < length (new_mapping st)"
      and lens: "length (new_mapping st) = rank snap n" "length (new_bitmap st) = GET_BITMAP_SIZE (rank snap n)"
      using inv False i rank_mono [of "Suc i" n snap] by (auto simp: rebuild_inv_def rank_Suc)
    have len: "length (survivors snap 0 i) = ?w" by (simp add: rank_def)
    have inb: "in_bitmap (new_bitmap st) ?w"
      using GET_BITMAP_SIZE_covers [OF w(2) ] lens by simp
    have map: "take (Suc ?w) ((new_mapping st)[?w := old_mapping ! i]) =
        map ((!) old_mapping) (survivors snap 0 (Suc i))"
      using take_snoc_update [OF w(2)] inv False by (simp add: rebuild_inv_def survivors_Suc)
    have offs: "(map (new_range snap i) offs)[?c := touch_offset ?w (map (new_range snap i) offs ! ?c)] =
        map (new_range snap (Suc i)) offs"
    proof (rule nth_equalityI)
      fix k assume "k < length ((map (new_range snap i) offs)[?c := touch_offset ?w (map (new_range snap i) offs ! ?c)])"
      then have k: "k < length offs" by simp
      show "(map (new_range snap i) offs)[?c := touch_offset ?w (map (new_range snap i) offs ! ?c)] ! k =
          map (new_range snap (Suc i)) offs ! k"
      proof (cases "k = ?c")
        case True
        with k c False i n show ?thesis by (simp add: touch_new_range)
      next
        case False
        with k other show ?thesis by simp
      qed
    qed simp
    have bits: "IS_SLOT_SET (if IS_SLOT_SET fresh i then SET_SLOT (new_bitmap st) ?w else new_bitmap st) v \<longleftrightarrow>
        v < Suc ?w \<and> IS_SLOT_SET fresh (survivors snap 0 (Suc i) ! v)" if "v < rank snap n" for v
      using inv False inb len that
      by (auto simp: rebuild_inv_def survivors_Suc IS_SLOT_SET_SET_SLOT nth_append less_Suc_eq)
    show ?thesis
      using inv False before c w lens map offs bits
      unfolding rebuild_row_def Let_def
      by (auto simp: rebuild_inv_def rank_Suc survivors_Suc)
  qed
qed

lemma fix_empty_tile:
  assumes "offsets_tile a offs n" "n < SIZE_SENTINEL"
  shows "fix_empty_offsets (rank snap a) (map (new_range snap n) offs) =
      map (\<lambda>r. r\<lparr>start_offset := rank snap (start_offset r), end_offset := rank snap (end_offset r)\<rparr>) offs"
  using assms
proof (induction offs arbitrary: a)
  case (Cons r rs)
  then have t: "start_offset r = a" "a \<le> end_offset r" "offsets_tile (end_offset r) rs n" by auto
  have m: "min n (end_offset r) = end_offset r" using offsets_tile_le [OF t(3)] by simp
  note IH = Cons.IH [OF t(3) Cons.prems(2)]
  have le: "rank snap a \<le> rank snap (end_offset r)" by (rule rank_mono) (rule t)
  have ns: "rank snap a \<noteq> SIZE_SENTINEL"
    using rank_le [of snap a] t offsets_tile_le [OF t(3)] Cons.prems(2) by simp
  show ?case
  proof (cases "rank snap a < rank snap (end_offset r)")
    case True
    with ns IH m t show ?thesis by (simp add: new_range_def)
  next
    case False
    with le have "rank snap (end_offset r) = rank snap a" by simp
    with IH m t show ?thesis by (simp add: new_range_def)
  qed
qed simp

lemma tile_ranks:
  "offsets_tile a offs n \<Longrightarrow> offsets_tile (rank snap a)
    (map (\<lambda>r. r\<lparr>start_offset := rank snap (start_offset r), end_offset := rank snap (end_offset r)\<rparr>) offs) (rank snap n)"
  by (induction offs arbitrary: a) (auto intro: rank_mono)

lemma IS_SLOT_SET_zero: "\<not> IS_SLOT_SET (replicate k 0) i" if "i div 8 < k" for i
  using that by (simp add: IS_SLOT_SET_bit)

lemma rebuild_inv_run:
  assumes tile: "offsets_tile 0 offs n" and n: "n < SIZE_SENTINEL" and i: "i \<le> n"
    and st: "rebuild_inv old_mapping offs snap fresh n 0 st"
  shows "rebuild_inv old_mapping offs snap fresh n i (foldl (rebuild_row old_mapping offs snap fresh) st [0..<i])"
  using i
proof (induction i)
  case (Suc i)
  with rebuild_inv_step [OF _ tile _ n] show ?case by simp
qed (use st in simp)

text \<open>Rows of a survivor list, addressed by ranks.\<close>

lemma survivors_slice:
  assumes "a \<le> b" "b \<le> n"
  shows "take (rank bm b - rank bm a) (drop (rank bm a) (survivors bm 0 n)) = survivors bm a b"
proof -
  have "survivors bm 0 n = survivors bm 0 a @ survivors bm a b @ survivors bm b n"
    using survivors_split [of 0 a n bm] survivors_split [of a b n bm] assms by simp
  moreover have "rank bm a = length (survivors bm 0 a)" "rank bm b - rank bm a = length (survivors bm a b)"
    using survivors_split [of 0 a b bm] assms by (simp_all add: rank_def)
  ultimately show ?thesis by simp
qed

lemma popcount_filter_map:
  assumes "\<And>w. w < length xs \<Longrightarrow> IS_SLOT_SET b w \<longleftrightarrow> P (xs ! w)"
  shows "popcount_upto b (length xs) = length (filter P xs)"
proof -
  have "filter (IS_SLOT_SET b) [0..<length xs] = filter (\<lambda>w. P (xs ! w)) [0..<length xs]"
    by (rule filter_cong) (simp_all add: assms)
  then have "popcount_upto b (length xs) = length (filter (\<lambda>w. P (xs ! w)) [0..<length xs])"
    by (simp add: popcount_upto_def)
  also have "\<dots> = length (filter P (map ((!) xs) [0..<length xs]))"
    by (simp add: filter_map comp_def)
  finally show ?thesis by (simp add: map_nth)
qed

section \<open>Correctness of the merge\<close>

lemma copy_bits_length [simp]: "length (copy_bits src n base dst) = length dst"
  unfolding copy_bits_def by (induction n) auto

lemma copy_bits_test:
  assumes "base + n \<le> 8 * length dst"
  shows "IS_SLOT_SET (copy_bits src n base dst) j \<longleftrightarrow>
    IS_SLOT_SET dst j \<or> base \<le> j \<and> j < base + n \<and> IS_SLOT_SET src (j - base)"
  using assms
proof (induction n)
  case (Suc n)
  have step: "copy_bits src (Suc n) base dst =
      (if IS_SLOT_SET src n then SET_SLOT (copy_bits src n base dst) (base + n) else copy_bits src n base dst)"
    by (simp add: copy_bits_def)
  have "in_bitmap (copy_bits src n base dst) (base + n)"
    using Suc.prems by (simp add: in_bitmap_def)
  moreover have "j < base + Suc n \<longleftrightarrow> j < base + n \<or> j = base + n" by auto
  ultimately show ?case
    using Suc by (auto simp: step IS_SLOT_SET_SET_SLOT)
qed (auto simp: copy_bits_def)

lemma clear_stray_bits_test:
  assumes "length bm = GET_BITMAP_SIZE n" "i < n"
  shows "IS_SLOT_SET (clear_stray_bits n bm) i = IS_SLOT_SET bm i"
proof (cases "n mod 8 \<noteq> 0 \<and> i div 8 = length bm - 1")
  case True
  then have rem: "n mod 8 \<noteq> 0" and same: "i div 8 = (n + 7) div 8 - 1"
    using assms(1) by (simp_all add: GET_BITMAP_SIZE_def)
  have "n + 7 = (n div 8) * 8 + (n mod 8 + 7)" using div_mult_mod_eq [of n 8] by linarith
  moreover have "(n mod 8 + 7) div 8 = 1" using rem mod_less_divisor [of 8 n] by (simp add: div_if)
  ultimately have last: "(n + 7) div 8 = Suc (n div 8)" by (metis add.commute div_mult_self1 plus_1_eq_Suc zero_neq_numeral)
  with same have same8: "i div 8 = n div 8" by simp
  have "i div 8 * 8 + i mod 8 < n div 8 * 8 + n mod 8"
    using assms(2) by (simp only: div_mult_mod_eq)
  then have lt: "i mod 8 < n mod 8" unfolding same8 by (rule add_less_imp_less_left)
  have lt2: "i div 8 < length bm"
    using same last assms(1) by (simp add: GET_BITMAP_SIZE_def)
  have "push_bit (n mod 8) 1 - 1 = (mask (n mod 8) :: u8)"
    by (simp add: mask_eq_exp_minus_1)
  with True lt lt2 show ?thesis
    by (simp add: clear_stray_bits_def Let_def IS_SLOT_SET_bit bit_and_iff bit_mask_iff)
next
  case False
  then show ?thesis by (auto simp: clear_stray_bits_def Let_def IS_SLOT_SET_bit)
qed

lemma rows_of_append_left:
  "end_offset r \<le> length xs \<Longrightarrow> rows_of (xs @ ys) r = rows_of xs r"
  by (simp add: rows_of_def)

lemma rows_of_append_right:
  "rows_of (xs @ ys) (shift_offset (length xs) r) = rows_of ys r"
  by (simp add: rows_of_def shift_offset_def)

lemma popcount_append:
  assumes "\<And>i. i < a + b \<Longrightarrow> IS_SLOT_SET bm i \<longleftrightarrow> (if i < a then IS_SLOT_SET b1 i else IS_SLOT_SET b2 (i - a))"
  shows "popcount_upto bm (a + b) = popcount_upto b1 a + popcount_upto b2 b"
proof -
  have "(+) a = (\<lambda>i. i + a)" by (simp add: fun_eq_iff)
  then have "map ((+) a) [0..<b] = [a..<b + a]" by (simp only: map_add_upt)
  then have split: "[0..<a + b] = [0..<a] @ map ((+) a) [0..<b]"
    by (simp add: upt_add_eq_append [of 0 a b] add.commute)
  have "filter (IS_SLOT_SET bm) [0..<a] = filter (IS_SLOT_SET b1) [0..<a]"
    by (rule filter_cong) (use assms in auto)
  moreover have "filter (IS_SLOT_SET bm \<circ> (+) a) [0..<b] = filter (IS_SLOT_SET b2) [0..<b]"
    by (rule filter_cong) (use assms in auto)
  ultimately show ?thesis
    unfolding popcount_upto_def split by (simp add: filter_map)
qed

section \<open>Properties\<close>

text \<open>C20: compaction is exact. Rebuilding a segment whose offset table tiles its rows keeps, in order, the rows
  that were not deleted in the snapshot; the new offset table tiles the new rows and gives every
  segment id exactly its own surviving rows; a new row is tombstoned iff its old row was deleted after the
  snapshot was taken; and the recorded delete count is the number of tombstones.\<close>
theorem rebuild_rows_exact:
  assumes "offsets_tile 0 old_offsets n" "n < SIZE_SENTINEL"
    and "length mapping_buf = MergeIndex_count snap n"
  shows "let r = rebuild_rows mapping_buf n old_mapping old_offsets snap fresh; kept = survivors snap 0 n in
     new_mapping r = map ((!) old_mapping) kept
     \<and> offsets_tile 0 (new_offsets r) (length kept)
     \<and> map off_sid (new_offsets r) = map off_sid old_offsets
     \<and> (\<forall>k < length old_offsets. rows_of (new_mapping r) (new_offsets r ! k) =
          map ((!) old_mapping) (survivors snap (start_offset (old_offsets ! k)) (end_offset (old_offsets ! k))))
     \<and> (\<forall>w < length kept. IS_SLOT_SET (new_bitmap r) w \<longleftrightarrow> IS_SLOT_SET fresh (kept ! w))
     \<and> new_delete_count r = popcount_upto (new_bitmap r) (length kept)"
proof -
  let ?g = "\<lambda>r. r\<lparr>start_offset := rank snap (start_offset r), end_offset := rank snap (end_offset r)\<rparr>"
  let ?init = "\<lparr>write_idx = 0, cur_sid_idx = 0, new_mapping = mapping_buf,
      new_bitmap = replicate (GET_BITMAP_SIZE (MergeIndex_count snap n)) 0, new_delete_count = 0,
      new_offsets = map (\<lambda>r. r\<lparr>start_offset := SIZE_SENTINEL, end_offset := 0\<rparr>) old_offsets\<rparr>"
  define st where "st = foldl (rebuild_row old_mapping old_offsets snap fresh) ?init [0..<n]"
  let ?r = "rebuild_rows mapping_buf n old_mapping old_offsets snap fresh"
  let ?kept = "survivors snap 0 n"
  have "\<not> IS_SLOT_SET (replicate (GET_BITMAP_SIZE (rank snap n)) 0) w" if "w < rank snap n" for w
    by (rule IS_SLOT_SET_zero) (use that in \<open>simp add: GET_BITMAP_SIZE_def\<close>)
  then have "rebuild_inv old_mapping old_offsets snap fresh n 0 ?init"
    using assms(3) by (simp add: rebuild_inv_def survivors_def new_range_def flip: rank_count)
  from rebuild_inv_run [OF assms(1,2) order_refl this]
  have inv: "rebuild_inv old_mapping old_offsets snap fresh n n st" by (simp only: st_def)
  have len: "length ?kept = rank snap n" by (simp add: rank_def)
  have run: "?r = st\<lparr>new_offsets := fix_empty_offsets 0 (new_offsets st)\<rparr>"
    by (simp only: rebuild_rows_def Let_def st_def)
  have r: "?r = st\<lparr>new_offsets := map ?g old_offsets\<rparr>"
    using inv fix_empty_tile [OF assms(1,2), of snap] by (simp add: run rebuild_inv_def)
  have m: "new_mapping ?r = map ((!) old_mapping) ?kept"
  proof -
    from inv have "length (new_mapping st) = rank snap n"
      and "take (rank snap n) (new_mapping st) = map ((!) old_mapping) ?kept"
      by (simp_all only: rebuild_inv_def)
    then show ?thesis by (simp add: r)
  qed
  have bits: "\<forall>w < length ?kept. IS_SLOT_SET (new_bitmap ?r) w \<longleftrightarrow> IS_SLOT_SET fresh (?kept ! w)"
    using inv by (simp add: r rebuild_inv_def len)
  have rows: "rows_of (new_mapping ?r) (new_offsets ?r ! k) =
      map ((!) old_mapping) (survivors snap (start_offset (old_offsets ! k)) (end_offset (old_offsets ! k)))"
    if "k < length old_offsets" for k
    using that offsets_tile_nth [OF assms(1) that]
    unfolding rows_of_def m by (simp add: r drop_map take_map survivors_slice)
  have count: "new_delete_count ?r = popcount_upto (new_bitmap ?r) (length ?kept)"
    using popcount_filter_map [of ?kept "new_bitmap ?r" "IS_SLOT_SET fresh"] bits inv
    by (simp add: r rebuild_inv_def)
  have tile: "offsets_tile 0 (new_offsets ?r) (length ?kept)"
    using tile_ranks [OF assms(1), of snap] by (simp add: r len)
  have sids: "map off_sid (new_offsets ?r) = map off_sid old_offsets"
    by (simp add: r comp_def)
  from m tile sids rows bits count show ?thesis unfolding Let_def by blast
qed

definition ex_offsets :: "SegmentOffsetRange list" where
  "ex_offsets = [\<lparr>off_sid = 3, start_offset = 0, end_offset = 2\<rparr>, \<lparr>off_sid = 4, start_offset = 2, end_offset = 4\<rparr>]"

lemma ex_survivors: "survivors [1] 0 4 = [1, 2, 3]" "MergeIndex_count [1] 4 = 3"
  by (simp_all add: survivors_def MergeIndex_count_def popcount_upto_def upt_rec IS_SLOT_SET_bit)

theorem rebuild_rows_exact_witness:
  "new_mapping (rebuild_rows [0, 0, 0] 4 [10, 11, 20, 21] ex_offsets [1] [5]) = [11, 20, 21]"
  using rebuild_rows_exact [of ex_offsets 4 "[0, 0, 0]" "[1]" "[10, 11, 20, 21]" "[5]"]
  by (simp add: ex_survivors Let_def) (simp add: ex_offsets_def SIZE_SENTINEL_def numeral_3_eq_3)

text \<open>C19: merging two adjacent segments concatenates them without loss. All rows of both inputs are kept, the larger
  input first; the merged offset table tiles the merged rows and every segment id keeps exactly the rows it
  had; the merged bitmap is that of the inputs, shifted; and the delete count is the number of tombstones.\<close>
theorem merge_rows_exact:
  assumes "length (mi_mapping seg0) = mi_count seg0" "length (mi_mapping seg1) = mi_count seg1"
    and "offsets_tile 0 (mi_offsets seg0) (mi_count seg0)" "offsets_tile 0 (mi_offsets seg1) (mi_count seg1)"
    and "mi_fresh_dc seg0 = popcount_upto (mi_fresh_bitmap seg0) (mi_count seg0)"
    and "mi_fresh_dc seg1 = popcount_upto (mi_fresh_bitmap seg1) (mi_count seg1)"
  shows "let m = merge_rows seg0 seg1; l = larger_input seg0 seg1; s = smaller_input seg0 seg1 in
     mo_mapping m = mi_mapping l @ mi_mapping s
     \<and> offsets_tile 0 (mo_offsets m) (length (mo_mapping m))
     \<and> map (\<lambda>r. (off_sid r, rows_of (mo_mapping m) r)) (mo_offsets m) =
         map (\<lambda>r. (off_sid r, rows_of (mi_mapping l) r)) (mi_offsets l)
         @ map (\<lambda>r. (off_sid r, rows_of (mi_mapping s) r)) (mi_offsets s)
     \<and> (\<forall>i < length (mo_mapping m). IS_SLOT_SET (mo_bitmap m) i \<longleftrightarrow>
          (if i < mi_count l then IS_SLOT_SET (mi_fresh_bitmap l) i
           else IS_SLOT_SET (mi_fresh_bitmap s) (i - mi_count l)))
     \<and> mo_delete_count m = popcount_upto (mo_bitmap m) (length (mo_mapping m))"
proof -
  let ?m = "merge_rows seg0 seg1"
  define l s where "l = larger_input seg0 seg1" and "s = smaller_input seg0 seg1"
  have len: "length (mi_mapping l) = mi_count l" "length (mi_mapping s) = mi_count s"
    and tile: "offsets_tile 0 (mi_offsets l) (mi_count l)" "offsets_tile 0 (mi_offsets s) (mi_count s)"
    and dc: "mi_fresh_dc seg0 + mi_fresh_dc seg1 =
      popcount_upto (mi_fresh_bitmap l) (mi_count l) + popcount_upto (mi_fresh_bitmap s) (mi_count s)"
    using assms by (auto simp: l_def s_def larger_input_def smaller_input_def)
  define bm where "bm = copy_bits (mi_fresh_bitmap s) (mi_count s) (mi_count l)
    (copy_bits (mi_fresh_bitmap l) (mi_count l) 0 (replicate (GET_BITMAP_SIZE (mi_count l + mi_count s)) 0))"
  have m: "mo_mapping ?m = mi_mapping l @ mi_mapping s"
    and o: "mo_offsets ?m = mi_offsets l @ map (shift_offset (mi_count l)) (mi_offsets s)"
    and b: "mo_bitmap ?m = clear_stray_bits (mi_count l + mi_count s) bm"
    and d: "mo_delete_count ?m = mi_fresh_dc seg0 + mi_fresh_dc seg1"
    by (simp_all add: merge_rows_def Let_def len bm_def flip: l_def s_def)
  have cover: "mi_count l + mi_count s \<le> 8 * GET_BITMAP_SIZE (mi_count l + mi_count s)"
    by (simp add: GET_BITMAP_SIZE_def)
  have bits: "IS_SLOT_SET (mo_bitmap ?m) i \<longleftrightarrow> (if i < mi_count l then IS_SLOT_SET (mi_fresh_bitmap l) i
      else IS_SLOT_SET (mi_fresh_bitmap s) (i - mi_count l))" if "i < mi_count l + mi_count s" for i
  proof -
    have "\<not> IS_SLOT_SET (replicate (GET_BITMAP_SIZE (mi_count l + mi_count s)) 0) i"
      by (rule IS_SLOT_SET_zero) (use that in \<open>simp add: GET_BITMAP_SIZE_def\<close>)
    then show ?thesis
      unfolding b bm_def using that cover
      by (subst clear_stray_bits_test) (auto simp: copy_bits_test)
  qed
  have "offsets_tile 0 (mo_offsets ?m) (mi_count l + mi_count s)"
    unfolding o offsets_tile_append
    using tile(1) offsets_tile_shift [OF tile(2), of "mi_count l"] by (auto simp: add.commute)
  moreover have "rows_of (mi_mapping l @ mi_mapping s) r = rows_of (mi_mapping l) r" if "r \<in> set (mi_offsets l)" for r
    using that offsets_tile_nth [OF tile(1)] len by (metis in_set_conv_nth rows_of_append_left)
  moreover have "rows_of (mi_mapping l @ mi_mapping s) (shift_offset (mi_count l) r) = rows_of (mi_mapping s) r" for r
    using rows_of_append_right [of "mi_mapping l" "mi_mapping s" r] len by simp
  ultimately show ?thesis
    using bits popcount_append [OF bits] dc
    unfolding Let_def l_def [symmetric] s_def [symmetric] m o d
    by (auto simp: len shift_offset_def)
qed

definition ex_merge_input :: "SegmentId \<Rightarrow> i64 list \<Rightarrow> merge_input" where
  "ex_merge_input sid rows = \<lparr>mi_count = length rows, mi_mapping = rows,
     mi_offsets = [\<lparr>off_sid = sid, start_offset = 0, end_offset = length rows\<rparr>],
     mi_fresh_bitmap = [1], mi_fresh_dc = 1\<rparr>"

lemma ex_merge_input_ok:
  "length (mi_mapping (ex_merge_input sid rows)) = mi_count (ex_merge_input sid rows)"
  "offsets_tile 0 (mi_offsets (ex_merge_input sid rows)) (mi_count (ex_merge_input sid rows))"
  "mi_fresh_dc (ex_merge_input 3 [10]) = popcount_upto (mi_fresh_bitmap (ex_merge_input 3 [10])) (mi_count (ex_merge_input 3 [10]))"
  "mi_fresh_dc (ex_merge_input 4 [20, 21]) =
    popcount_upto (mi_fresh_bitmap (ex_merge_input 4 [20, 21])) (mi_count (ex_merge_input 4 [20, 21]))"
  by (simp_all add: ex_merge_input_def popcount_upto_def upt_rec IS_SLOT_SET_bit)

theorem merge_rows_exact_witness:
  "mo_mapping (merge_rows (ex_merge_input 3 [10]) (ex_merge_input 4 [20, 21])) = [20, 21, 10]"
proof -
  let ?a = "ex_merge_input 3 [10]" and ?b = "ex_merge_input 4 [20, 21]"
  have "mo_mapping (merge_rows ?a ?b) = mi_mapping (larger_input ?a ?b) @ mi_mapping (smaller_input ?a ?b)"
    using merge_rows_exact [OF ex_merge_input_ok(1) ex_merge_input_ok(1) ex_merge_input_ok(2) ex_merge_input_ok(2)
        ex_merge_input_ok(3) ex_merge_input_ok(4)]
    unfolding Let_def by (rule conjunct1)
  then show ?thesis by (simp add: ex_merge_input_def larger_input_def smaller_input_def)
qed

end
