(* ===== verification/MergeScheduler.thy ===== *)
theory MergeScheduler
  imports SegmentPool
begin

text \<open>
  The merge scheduler of \<^verbatim>\<open>vector_index_worker.c\<close>: which segment a merge worker picks, in which order of
  priority, how it claims it, and the bookkeeping with which the finished segment is published.
  A traversal releases the pool lock between choosing and claiming; what other threads do to the pool
  in that window is a parameter (\<open>others\<close>, one pool transformer per round).
\<close>

section \<open>Choosing\<close>

definition MAX_SEGMENTS_SIZE :: u64 where "MAX_SEGMENTS_SIZE = 2000000"


definition fully_loaded :: "FlushedSegment \<Rightarrow> bool" where
  "fully_loaded s \<longleftrightarrow> load_state s = SEG_FULLY_LOADED"

text \<open>\<^verbatim>\<open>CANDIDATE_OK\<close>.\<close>

definition candidate_ok :: "FlushedSegmentPool \<Rightarrow> nat option \<Rightarrow> bool" where
  "candidate_ok pool io =
     (case io of None \<Rightarrow> False
      | Some i \<Rightarrow> (let s = flushed_segments pool i in
          in_used s \<and> \<not> is_compacting s \<and> index_type s \<noteq> DISKANN \<and> fully_loaded s))"

definition choose_adjacent_smaller_pool :: "FlushedSegmentPool \<Rightarrow> nat \<Rightarrow> nat option" where
  "choose_adjacent_smaller_pool pool idx =
     (let prev = prev_idx (flushed_segments pool idx);
          next = next_idx (flushed_segments pool idx);
          have_prev = candidate_ok pool prev;
          have_next = candidate_ok pool next
      in if \<not> have_prev \<and> \<not> have_next then None
         else if have_prev \<and> \<not> have_next then prev
         else if \<not> have_prev \<and> have_next then next
         else if vec_count (flushed_segments pool (the prev)) \<le> vec_count (flushed_segments pool (the next))
              then prev else next)"

text \<open>
  The partner test shared by the three merge priorities, and the switch over \<^verbatim>\<open>priority_type\<close>.
  \<open>Some adj\<close> means \<^verbatim>\<open>should_claim\<close>, with the partner if there is one. \<open>over_ratio d v\<close> stands for the comparison
  of doubles \<^verbatim>\<open>d / v > postgresqlv_deletion_rebuild_ratio\<close>.
\<close>

definition partner :: "FlushedSegmentPool \<Rightarrow> nat \<Rightarrow> nat option option" where
  "partner pool cur =
     (case choose_adjacent_smaller_pool pool cur of
        None \<Rightarrow> None
      | Some adj \<Rightarrow>
          if vec_count (flushed_segments pool adj) < MAX_SEGMENTS_SIZE
             \<and> vec_count (flushed_segments pool cur) + vec_count (flushed_segments pool adj) < MAX_SEGMENTS_SIZE
          then Some (Some adj) else None)"

definition should_claim ::
    "u32 \<Rightarrow> (u32 \<Rightarrow> u64 \<Rightarrow> bool) \<Rightarrow> nat \<Rightarrow> FlushedSegmentPool \<Rightarrow> nat \<Rightarrow> nat option option" where
  "should_claim cap over_ratio prio pool cur =
     (let seg = flushed_segments pool cur in
      if prio = 1 then (if index_type seg = FLAT then Some None else None)
      else if prio = 2 then
        (if index_type seg = DISKANN then None
         else if vec_count seg \<le> ucast cap then partner pool cur else None)
      else if prio = 3 then
        (if vec_count seg > 0 \<and> over_ratio (delete_count seg) (vec_count seg) then Some None else None)
      else if prio = 4 then
        (if index_type seg = DISKANN then None
         else if vec_count seg \<le> ucast THRESHOLD_SMALL_SEGMENT_SIZE then partner pool cur else None)
      else if prio = 5 then
        (if index_type seg = DISKANN then None
         else if vec_count seg < MAX_SEGMENTS_SIZE then partner pool cur else None)
      else None)"

definition order_by_sid :: "FlushedSegmentPool \<Rightarrow> nat \<Rightarrow> nat option \<Rightarrow> nat \<times> nat option" where
  "order_by_sid pool cur adj =
     (case adj of
        None \<Rightarrow> (cur, None)
      | Some a \<Rightarrow>
          if segment_id_start (flushed_segments pool a) < segment_id_start (flushed_segments pool cur)
          then (a, Some cur) else (cur, Some a))"

definition skip_segment :: "FlushedSegment \<Rightarrow> bool" where
  "skip_segment seg \<longleftrightarrow> \<not> in_used seg \<or> is_compacting seg \<or> \<not> fully_loaded seg"

text \<open>One walk under the read lock: the first segment worth claiming. No result means the walk does not end.\<close>

partial_function (option) walk_candidates ::
    "u32 \<Rightarrow> (u32 \<Rightarrow> u64 \<Rightarrow> bool) \<Rightarrow> nat \<Rightarrow> FlushedSegmentPool \<Rightarrow> nat option \<Rightarrow> (nat \<times> nat option) option option" where
  "walk_candidates cap over_ratio prio pool cur =
     (case cur of
        None \<Rightarrow> Some None
      | Some i \<Rightarrow>
          if skip_segment (flushed_segments pool i)
          then walk_candidates cap over_ratio prio pool (next_idx (flushed_segments pool i))
          else (case should_claim cap over_ratio prio pool i of
                  Some adj \<Rightarrow> Some (Some (order_by_sid pool i adj))
                | None \<Rightarrow> walk_candidates cap over_ratio prio pool (next_idx (flushed_segments pool i))))"

section \<open>Claiming\<close>

datatype MergeOp = REBUILD_FLAT | REBUILD_DELETION | MERGE

record MergeTaskLocal =
  operation_type :: MergeOp
  segment_idx0 :: nat
  segment_idx1 :: "nat option"
  merged_start_sid :: SegmentId
  merged_end_sid :: SegmentId

definition claimable :: "FlushedSegmentPool \<Rightarrow> nat \<Rightarrow> bool" where
  "claimable pool i \<longleftrightarrow> (let s = flushed_segments pool i in in_used s \<and> \<not> is_compacting s \<and> fully_loaded s)"

definition set_compacting :: "nat \<Rightarrow> FlushedSegmentPool \<Rightarrow> FlushedSegmentPool" where
  "set_compacting i = upd_seg i (\<lambda>s. s\<lparr>is_compacting := True\<rparr>)"

text \<open>Segment 1 is looked at by merges only.\<close>

definition merge_partner :: "MergeOp \<Rightarrow> nat option \<Rightarrow> nat option" where
  "merge_partner task_type idx1 = (if task_type = MERGE then idx1 else None)"

definition claim_merge_task_pool ::
    "nat \<Rightarrow> nat option \<Rightarrow> MergeOp \<Rightarrow> FlushedSegmentPool \<Rightarrow> (MergeTaskLocal \<times> FlushedSegmentPool) option" where
  "claim_merge_task_pool idx0 idx1 task_type pool =
     (if \<not> claimable pool idx0 then None
      else if task_type = MERGE \<and> (case idx1 of None \<Rightarrow> True | Some j \<Rightarrow> \<not> claimable pool j) then None
      else
        let p = set_compacting idx0 pool;
            p = (case merge_partner task_type idx1 of None \<Rightarrow> p | Some j \<Rightarrow> set_compacting j p)
        in Some (\<lparr>operation_type = task_type, segment_idx0 = idx0, segment_idx1 = idx1,
                  merged_start_sid = segment_id_start (flushed_segments pool idx0),
                  merged_end_sid = (case merge_partner task_type idx1 of
                      None \<Rightarrow> segment_id_end (flushed_segments pool idx0)
                    | Some j \<Rightarrow> segment_id_end (flushed_segments pool j))\<rparr>, p))"

definition task_type_of :: "nat \<Rightarrow> MergeOp" where
  "task_type_of prio = (if prio = 1 then REBUILD_FLAT else if prio = 3 then REBUILD_DELETION else MERGE)"

definition first_candidate ::
    "u32 \<Rightarrow> (u32 \<Rightarrow> u64 \<Rightarrow> bool) \<Rightarrow> nat \<Rightarrow> FlushedSegmentPool \<Rightarrow> (nat \<times> nat option) option option" where
  "first_candidate cap over_ratio prio pool = walk_candidates cap over_ratio prio pool (head_idx pool)"

text \<open>
  The rounds of \<^verbatim>\<open>traverse_and_check_priority_pool\<close> after its check of the head; a claim that fails starts
  the walk again. After the rounds in \<open>others\<close> nobody else touches the pool.
\<close>

fun traverse_rounds ::
    "u32 \<Rightarrow> (u32 \<Rightarrow> u64 \<Rightarrow> bool) \<Rightarrow> nat \<Rightarrow> (FlushedSegmentPool \<Rightarrow> FlushedSegmentPool) list
     \<Rightarrow> FlushedSegmentPool \<Rightarrow> (MergeTaskLocal option \<times> FlushedSegmentPool) option" where
  "traverse_rounds cap over_ratio prio [] pool =
     (case first_candidate cap over_ratio prio pool of
        None \<Rightarrow> None
      | Some None \<Rightarrow> Some (None, pool)
      | Some (Some (lo, hi)) \<Rightarrow>
          (case claim_merge_task_pool lo hi (task_type_of prio) pool of
             Some (task, p) \<Rightarrow> Some (Some task, p)
           | None \<Rightarrow> None))"
| "traverse_rounds cap over_ratio prio (other # others) pool =
     (case first_candidate cap over_ratio prio pool of
        None \<Rightarrow> None
      | Some None \<Rightarrow> Some (None, pool)
      | Some (Some (lo, hi)) \<Rightarrow>
          (case claim_merge_task_pool lo hi (task_type_of prio) (other pool) of
             Some (task, p) \<Rightarrow> Some (Some task, p)
           | None \<Rightarrow> traverse_rounds cap over_ratio prio others (other pool)))"

definition traverse_and_check_priority_pool ::
    "u32 \<Rightarrow> (u32 \<Rightarrow> u64 \<Rightarrow> bool) \<Rightarrow> nat \<Rightarrow> (FlushedSegmentPool \<Rightarrow> FlushedSegmentPool) list
     \<Rightarrow> FlushedSegmentPool \<Rightarrow> (MergeTaskLocal option \<times> FlushedSegmentPool) option" where
  "traverse_and_check_priority_pool cap over_ratio prio others pool =
     (case head_idx pool of
        None \<Rightarrow> Some (None, pool)
      | Some h \<Rightarrow>
          if \<not> in_used (flushed_segments pool h) then Some (None, pool)
          else traverse_rounds cap over_ratio prio others pool)"

text \<open>The statistics gates of \<^verbatim>\<open>scan_and_claim_merge_task_pool\<close>, its five loops, and the scan itself.\<close>

definition gate :: "nat \<Rightarrow> FlushedSegmentPool \<Rightarrow> bool" where
  "gate prio pool =
     (if prio = 1 then flat_count pool > 0
      else if prio = 2 then memtable_capacity_le_count pool > 0
      else if prio = 4 then small_segment_le_count pool > 0
      else True)"

definition scan_order :: "(nat \<times> nat) list" where
  "scan_order = concat (map (\<lambda>prio. map (\<lambda>lsm_idx. (prio, lsm_idx)) [0..<INDEX_BUF_SIZE]) [1..<6])"

fun scan_in_order ::
    "u32 \<Rightarrow> (u32 \<Rightarrow> u64 \<Rightarrow> bool) \<Rightarrow> (nat \<Rightarrow> bool) \<Rightarrow> (nat \<Rightarrow> nat \<Rightarrow> (FlushedSegmentPool \<Rightarrow> FlushedSegmentPool) list)
     \<Rightarrow> (nat \<times> nat) list \<Rightarrow> (nat \<Rightarrow> FlushedSegmentPool)
     \<Rightarrow> ((nat \<times> MergeTaskLocal) option \<times> (nat \<Rightarrow> FlushedSegmentPool)) option" where
  "scan_in_order cap over_ratio queryable others [] pools = Some (None, pools)"
| "scan_in_order cap over_ratio queryable others ((prio, i) # rest) pools =
     (if queryable i \<and> gate prio (pools i) then
        (case traverse_and_check_priority_pool cap over_ratio prio (others prio i) (pools i) of
           None \<Rightarrow> None
         | Some (Some task, p) \<Rightarrow> Some (Some (i, task), pools(i := p))
         | Some (None, p) \<Rightarrow> scan_in_order cap over_ratio queryable others rest (pools(i := p)))
      else scan_in_order cap over_ratio queryable others rest pools)"

definition scan_and_claim_merge_task_pool where
  "scan_and_claim_merge_task_pool cap over_ratio queryable others pools =
     scan_in_order cap over_ratio queryable others scan_order pools"

section \<open>Publishing the result\<close>

text \<open>
  The end of phase 4, the same in \<^verbatim>\<open>rebuild_index_pool\<close> and \<^verbatim>\<open>merge_adjacent_segments_pool\<close>: the new slot
  replaces the old ones, then three counters are adjusted.
\<close>

definition publish_merged ::
    "u32 \<Rightarrow> nat list \<Rightarrow> nat \<Rightarrow> IndexType \<Rightarrow> u32 \<Rightarrow> FlushedSegmentPool \<Rightarrow> FlushedSegmentPool" where
  "publish_merged cap olds new_slot_idx ty nv pool =
     (let p = replace_flushed_segments_n cap olds new_slot_idx pool;
          p = (if ty = FLAT then p\<lparr>flat_count := flat_count p + 1\<rparr> else p);
          p = (if nv \<le> cap then p\<lparr>memtable_capacity_le_count := memtable_capacity_le_count p + 1\<rparr> else p)
      in if nv \<le> THRESHOLD_SMALL_SEGMENT_SIZE
         then p\<lparr>small_segment_le_count := small_segment_le_count p + 1\<rparr> else p)"

section \<open>The walk finds the first eligible segment\<close>

definition eligible :: "u32 \<Rightarrow> (u32 \<Rightarrow> u64 \<Rightarrow> bool) \<Rightarrow> nat \<Rightarrow> FlushedSegmentPool \<Rightarrow> nat \<Rightarrow> bool" where
  "eligible cap over_ratio prio pool i \<longleftrightarrow>
     \<not> skip_segment (flushed_segments pool i) \<and> should_claim cap over_ratio prio pool i \<noteq> None"

lemma walk_candidates_dll:
  assumes "dll (flushed_segments pool) q xs None"
  shows "walk_candidates cap r prio pool (first_opt xs None) =
    Some (map_option (\<lambda>i. order_by_sid pool i (the (should_claim cap r prio pool i)))
            (find (eligible cap r prio pool) xs))"
  using assms
proof (induction xs arbitrary: q)
  case Nil
  then show ?case by (subst walk_candidates.simps) simp
next
  case (Cons x xs)
  then have IH: "walk_candidates cap r prio pool (next_idx (flushed_segments pool x)) =
    Some (map_option (\<lambda>i. order_by_sid pool i (the (should_claim cap r prio pool i)))
            (find (eligible cap r prio pool) xs))" by auto
  show ?case
    by (subst walk_candidates.simps) (auto simp: IH eligible_def split: option.splits)
qed

lemma first_candidate_pool:
  assumes "pool_inv pool xs"
  shows "first_candidate cap r prio pool =
    Some (map_option (\<lambda>i. order_by_sid pool i (the (should_claim cap r prio pool i)))
            (find (eligible cap r prio pool) xs))"
  using assms walk_candidates_dll [of pool None xs]
  by (simp add: first_candidate_def pool_inv_def pool_links_def)

lemma pool_neighbours:
  assumes "pool_inv pool xs" "i \<in> set xs"
  shows "next_idx (flushed_segments pool i) = Some j \<Longrightarrow> \<exists>A B. xs = A @ [i, j] @ B"
    and "prev_idx (flushed_segments pool i) = Some j \<Longrightarrow> \<exists>A B. xs = A @ [j, i] @ B"
proof -
  from assms(2) obtain A B where xs: "xs = A @ i # B" by (meson split_list)
  with assms(1) have l: "prev_idx (flushed_segments pool i) = last_opt A None"
    "next_idx (flushed_segments pool i) = first_opt B None"
    by (auto simp: pool_inv_def pool_links_def dll_append)
  show "next_idx (flushed_segments pool i) = Some j \<Longrightarrow> \<exists>A B. xs = A @ [i, j] @ B"
    using l(2) xs by (cases B) auto
  show "prev_idx (flushed_segments pool i) = Some j \<Longrightarrow> \<exists>A B. xs = A @ [j, i] @ B"
    using l(1) xs by (cases A rule: rev_cases) (auto simp: last_opt_def)
qed

lemma choose_adjacent_SomeD:
  assumes "choose_adjacent_smaller_pool pool i = Some a"
  shows "candidate_ok pool (Some a)
    \<and> (prev_idx (flushed_segments pool i) = Some a \<or> next_idx (flushed_segments pool i) = Some a)"
  using assms
  by (auto simp: choose_adjacent_smaller_pool_def Let_def candidate_ok_def split: if_splits option.splits)

lemma candidate_ok_claimable:
  "candidate_ok pool (Some a) \<Longrightarrow> claimable pool a \<and> index_type (flushed_segments pool a) \<noteq> DISKANN"
  by (simp add: candidate_ok_def claimable_def Let_def)

lemma partner_SomeD:
  "partner pool i = Some adj \<Longrightarrow> \<exists>a. adj = Some a \<and> choose_adjacent_smaller_pool pool i = Some a
    \<and> vec_count (flushed_segments pool i) + vec_count (flushed_segments pool a) < MAX_SEGMENTS_SIZE"
  by (auto simp: partner_def split: option.splits if_splits)

lemma should_claim_cases:
  assumes "should_claim cap r prio pool i = Some adj"
  obtains (rebuild) "adj = None" "task_type_of prio \<noteq> MERGE"
  | (merge) a where "adj = Some a" "task_type_of prio = MERGE" "choose_adjacent_smaller_pool pool i = Some a"
      "index_type (flushed_segments pool i) \<noteq> DISKANN"
      "vec_count (flushed_segments pool i) + vec_count (flushed_segments pool a) < MAX_SEGMENTS_SIZE"
  using assms
  by (auto simp: should_claim_def Let_def task_type_of_def dest!: partner_SomeD split: if_splits)

text \<open>What the walk hands to the claim: one eligible segment, or two list neighbours in sid order.\<close>

lemma order_by_sid_neighbours:
  assumes inv: "pool_inv pool xs" "distinct (map (sid_start pool) xs)" and i: "i \<in> set xs"
    and a: "choose_adjacent_smaller_pool pool i = Some a"
  obtains lo hi A B where "order_by_sid pool i (Some a) = (lo, Some hi)" "{lo, hi} = {i, a}" "xs = A @ [lo, hi] @ B"
proof -
  have lt: "sid_start pool x < sid_start pool y" if "xs = A @ [x, y] @ B" for A B x y
  proof -
    from inv(1) that have "sid_start pool x \<le> sid_start pool y"
      by (auto simp: pool_inv_def pool_sorted_def sorted_append)
    moreover from inv(2) that have "sid_start pool x \<noteq> sid_start pool y" by auto
    ultimately show ?thesis by simp
  qed
  from choose_adjacent_SomeD [OF a] pool_neighbours [OF inv(1) i]
  consider A B where "xs = A @ [a, i] @ B" | A B where "xs = A @ [i, a] @ B" by blast
  then show ?thesis
  proof cases
    case 1
    from lt [OF 1] show ?thesis
      by (intro that [of a i A B]) (auto simp: order_by_sid_def 1)
  next
    case 2
    from lt [OF 2] have "\<not> sid_start pool a < sid_start pool i" by simp
    then show ?thesis
      by (intro that [of i a A B]) (auto simp: order_by_sid_def 2)
  qed
qed

section \<open>Claims\<close>

definition task_segments :: "MergeTaskLocal \<Rightarrow> nat set" where
  "task_segments t = {segment_idx0 t} \<union> set_option (merge_partner (operation_type t) (segment_idx1 t))"

lemma set_compacting_sel [simp]:
  "flushed_segments (set_compacting i pool) =
    (flushed_segments pool)(i := (flushed_segments pool i)\<lparr>is_compacting := True\<rparr>)"
  "head_idx (set_compacting i pool) = head_idx pool" "tail_idx (set_compacting i pool) = tail_idx pool"
  by (simp_all add: set_compacting_def)

lemma set_compacting_frame:
  "in_used (flushed_segments (set_compacting i pool) j) = in_used (flushed_segments pool j)"
  "ref_count (flushed_segments (set_compacting i pool) j) = ref_count (flushed_segments pool j)"
  "sid_start (set_compacting i pool) j = sid_start pool j"
  "prev_idx (flushed_segments (set_compacting i pool) j) = prev_idx (flushed_segments pool j)"
  "next_idx (flushed_segments (set_compacting i pool) j) = next_idx (flushed_segments pool j)"
  by simp_all

lemma set_compacting_inv [simp]: "pool_inv (set_compacting i pool) xs = pool_inv pool xs"
proof -
  have "dll (flushed_segments (set_compacting i pool)) None xs None = dll (flushed_segments pool) None xs None"
    by (rule dll_cong) (simp only: set_compacting_frame)
  then show ?thesis
    unfolding pool_inv_def pool_links_def pool_live_def pool_sorted_def
    by (simp only: set_compacting_frame set_compacting_sel(2,3))
qed

lemma claim_SomeD:
  assumes "claim_merge_task_pool lo hi ty pool = Some (t, p)"
  shows "operation_type t = ty \<and> segment_idx0 t = lo \<and> segment_idx1 t = hi
    \<and> (\<forall>i \<in> task_segments t. claimable pool i \<and> is_compacting (flushed_segments p i))
    \<and> (\<forall>i. i \<notin> task_segments t \<longrightarrow> flushed_segments p i = flushed_segments pool i)
    \<and> (\<forall>i. payload (flushed_segments p i) = payload ((flushed_segments pool i)\<lparr>is_compacting :=
          is_compacting (flushed_segments pool i) \<or> i \<in> task_segments t\<rparr>))
    \<and> merged_start_sid t = sid_start pool lo
    \<and> merged_end_sid t = (case merge_partner ty hi of None \<Rightarrow> sid_end pool lo | Some j \<Rightarrow> sid_end pool j)
    \<and> (\<forall>xs. pool_inv p xs = pool_inv pool xs)"
  using assms
  by (auto simp: claim_merge_task_pool_def Let_def task_segments_def merge_partner_def payload_def
      split: if_splits option.splits)

lemma claim_ok_rebuild:
  "claimable pool lo \<Longrightarrow> ty \<noteq> MERGE \<Longrightarrow> \<exists>t p. claim_merge_task_pool lo hi ty pool = Some (t, p)"
  by (auto simp: claim_merge_task_pool_def Let_def)

lemma claim_ok_merge:
  "claimable pool lo \<Longrightarrow> claimable pool hi \<Longrightarrow> \<exists>t p. claim_merge_task_pool lo (Some hi) ty pool = Some (t, p)"
  by (auto simp: claim_merge_task_pool_def Let_def)

section \<open>Undisturbed traversals\<close>

lemma traverse_quiet:
  assumes inv: "pool_inv pool xs" "distinct (map (sid_start pool) xs)"
  obtains (nothing) "traverse_and_check_priority_pool cap r prio [] pool = Some (None, pool)"
      "\<forall>i \<in> set xs. \<not> eligible cap r prio pool i"
  | (rebuild_task) i t p where "i \<in> set xs" "eligible cap r prio pool i" "task_type_of prio \<noteq> MERGE"
      "traverse_and_check_priority_pool cap r prio [] pool = Some (Some t, p)"
      "claim_merge_task_pool i None (task_type_of prio) pool = Some (t, p)"
  | (merge_task) i t p lo hi A B where "i \<in> set xs" "eligible cap r prio pool i" "task_type_of prio = MERGE"
      "traverse_and_check_priority_pool cap r prio [] pool = Some (Some t, p)"
      "claim_merge_task_pool lo (Some hi) MERGE pool = Some (t, p)" "xs = A @ [lo, hi] @ B"
      "index_type (flushed_segments pool lo) \<noteq> DISKANN" "index_type (flushed_segments pool hi) \<noteq> DISKANN"
      "vec_count (flushed_segments pool lo) + vec_count (flushed_segments pool hi) < MAX_SEGMENTS_SIZE"
proof (cases "find (eligible cap r prio pool) xs")
  case None
  with first_candidate_pool [OF inv(1), of cap r prio] have "traverse_rounds cap r prio [] pool = Some (None, pool)"
    by simp
  then have "traverse_and_check_priority_pool cap r prio [] pool = Some (None, pool)"
    by (simp add: traverse_and_check_priority_pool_def split: option.splits)
  moreover from None have "\<forall>i \<in> set xs. \<not> eligible cap r prio pool i" by (auto simp: find_None_iff)
  ultimately show ?thesis by (rule nothing)
next
  case (Some i)
  then have i: "i \<in> set xs" "eligible cap r prio pool i" by (auto simp: find_Some_iff)
  then obtain h where h: "head_idx pool = Some h" "in_used (flushed_segments pool h)"
    using inv(1) by (cases xs) (auto simp: pool_inv_def pool_links_def pool_live_def)
  have cl: "claimable pool i"
    using i(2) by (auto simp: eligible_def skip_segment_def claimable_def Let_def)
  obtain adj where adj: "should_claim cap r prio pool i = Some adj" using i(2) by (auto simp: eligible_def)
  have cand: "first_candidate cap r prio pool = Some (Some (order_by_sid pool i adj))"
    using first_candidate_pool [OF inv(1), of cap r prio] Some adj by simp
  from adj show ?thesis
  proof (cases rule: should_claim_cases)
    case rebuild
    from claim_ok_rebuild [OF cl rebuild(2)] obtain t p where
      c: "claim_merge_task_pool i None (task_type_of prio) pool = Some (t, p)" by blast
    with cand rebuild h have "traverse_and_check_priority_pool cap r prio [] pool = Some (Some t, p)"
      by (simp add: traverse_and_check_priority_pool_def order_by_sid_def)
    then show ?thesis by (rule rebuild_task [OF i rebuild(2) _ c])
  next
    case (merge a)
    obtain lo hi A B where o: "order_by_sid pool i (Some a) = (lo, Some hi)" "{lo, hi} = {i, a}" "xs = A @ [lo, hi] @ B"
      by (rule order_by_sid_neighbours [OF inv i(1) merge(3)])
    from choose_adjacent_SomeD [OF merge(3)] candidate_ok_claimable
    have "claimable pool a" "index_type (flushed_segments pool a) \<noteq> DISKANN" by blast+
    with cl merge o(2) have lohi: "claimable pool lo" "claimable pool hi" "index_type (flushed_segments pool lo) \<noteq> DISKANN"
      "index_type (flushed_segments pool hi) \<noteq> DISKANN"
      "vec_count (flushed_segments pool lo) + vec_count (flushed_segments pool hi) < MAX_SEGMENTS_SIZE"
      by (auto simp: doubleton_eq_iff add.commute)
    from claim_ok_merge [OF lohi(1,2)] obtain t p where
      c: "claim_merge_task_pool lo (Some hi) MERGE pool = Some (t, p)" by blast
    with cand merge h o have "traverse_and_check_priority_pool cap r prio [] pool = Some (Some t, p)"
      by (simp add: traverse_and_check_priority_pool_def)
    then show ?thesis by (rule merge_task [OF i merge(2) _ c o(3) lohi(3-5)])
  qed
qed

text \<open>
  The counters are at least the numbers of segments that qualify: publishing a merged segment counts it twice
  (see below), so that they are not exact in general.
\<close>

definition stats_cover :: "u32 \<Rightarrow> FlushedSegmentPool \<Rightarrow> nat list \<Rightarrow> bool" where
  "stats_cover cap pool xs \<longleftrightarrow>
     length (filter (is_flat pool) xs) \<le> unat (flat_count pool)
   \<and> length (filter (le_memtable cap pool) xs) \<le> unat (memtable_capacity_le_count pool)
   \<and> length (filter (le_small pool) xs) \<le> unat (small_segment_le_count pool)"

definition stats_room :: "FlushedSegmentPool \<Rightarrow> bool" where
  "stats_room pool \<longleftrightarrow> unat (flat_count pool) + 2 < 2 ^ 32 \<and> unat (memtable_capacity_le_count pool) + 2 < 2 ^ 32
     \<and> unat (small_segment_le_count pool) + 2 < 2 ^ 32"

lemma gate_open:
  assumes "stats_cover cap pool xs" "i \<in> set xs" "eligible cap r prio pool i"
  shows "gate prio pool"
proof -
  have pos: "0 < c" if "P i" "length (filter P xs) \<le> unat c" for P and c :: u32
  proof -
    have "0 < length (filter P xs)" using assms(2) that(1) by (auto simp: filter_empty_conv)
    then have "0 < unat c" using that(2) by (rule less_le_trans)
    then show ?thesis by (simp add: word_less_nat_alt)
  qed
  have trunc: "(ucast v :: u32) \<le> c" if "v \<le> ucast c" for v :: u64 and c :: u32
  proof -
    have "unat v \<le> take_bit 64 (unat c)" using that by (simp add: word_le_nat_alt unsigned_ucast_eq)
    then have "unat v \<le> unat c" using take_bit_nat_less_eq_self order_trans by blast
    moreover have "unat (ucast v :: u32) \<le> unat v" by (simp add: unsigned_ucast_eq)
    ultimately show ?thesis by (simp add: word_le_nat_alt)
  qed
  consider "prio = 1" | "prio = 2" | "prio = 4" | "prio \<noteq> 1" "prio \<noteq> 2" "prio \<noteq> 4" by blast
  then show ?thesis
  proof cases
    case 1
    with assms(3) have "index_type (flushed_segments pool i) = FLAT"
      by (auto simp: eligible_def should_claim_def Let_def split: if_splits)
    with pos [of "is_flat pool" "flat_count pool"] assms(1) 1 show ?thesis by (simp add: gate_def stats_cover_def)
  next
    case 2
    with assms(3) have "vec_count (flushed_segments pool i) \<le> ucast cap"
      by (auto simp: eligible_def should_claim_def Let_def split: if_splits)
    with pos [of "le_memtable cap pool" "memtable_capacity_le_count pool"] trunc assms(1) 2 show ?thesis by (simp add: gate_def stats_cover_def)
  next
    case 3
    with assms(3) have "vec_count (flushed_segments pool i) \<le> ucast THRESHOLD_SMALL_SEGMENT_SIZE"
      by (auto simp: eligible_def should_claim_def Let_def split: if_splits)
    with pos [of "le_small pool" "small_segment_le_count pool"] trunc assms(1) 3 show ?thesis by (simp add: gate_def stats_cover_def)
  qed (simp add: gate_def)
qed

lemma scan_quiet:
  assumes "\<And>i. queryable i \<Longrightarrow> pool_inv (pools i) (xs i)"
    and "\<And>i. queryable i \<Longrightarrow> distinct (map (sid_start (pools i)) (xs i))"
    and "\<And>i. queryable i \<Longrightarrow> stats_cover cap (pools i) (xs i)"
  shows "\<exists>found pools'. scan_in_order cap r queryable (\<lambda>_ _. []) order pools = Some (found, pools')
    \<and> (found = None \<longleftrightarrow> (\<forall>(prio, i) \<in> set order. queryable i \<longrightarrow> (\<forall>s \<in> set (xs i). \<not> eligible cap r prio (pools i) s)))"
proof (induction order)
  case (Cons pi rest)
  obtain prio i where pi: "pi = (prio, i)" by (cases pi)
  show ?case
  proof (cases "queryable i \<and> gate prio (pools i)")
    case True
    then have inv: "pool_inv (pools i) (xs i)" "distinct (map (sid_start (pools i)) (xs i))" using assms by auto
    show ?thesis
    proof (rule traverse_quiet [OF inv, of cap r prio])
      assume "traverse_and_check_priority_pool cap r prio [] (pools i) = Some (None, pools i)"
        "\<forall>j \<in> set (xs i). \<not> eligible cap r prio (pools i) j"
      with True Cons.IH show ?thesis by (simp add: pi fun_upd_idem)
    qed (use True in \<open>force simp: pi\<close>)+
  next
    case False
    then have "queryable i \<longrightarrow> (\<forall>s \<in> set (xs i). \<not> eligible cap r prio (pools i) s)"
      using gate_open assms(3) by blast
    with False Cons.IH show ?thesis by (auto simp: pi)
  qed
qed simp

lemma set_scan_order: "set scan_order = {1..5} \<times> {0..<INDEX_BUF_SIZE}"
  by (auto simp: scan_order_def image_iff)

lemma ex_pool_eligible: "eligible 50000 (\<lambda>_ _. False) 2 ex_pool 0" "distinct (map (sid_start ex_pool) [0, 1])"
  by (simp_all add: eligible_def skip_segment_def should_claim_def Let_def partner_def fully_loaded_def
      choose_adjacent_smaller_pool_def candidate_ok_def ex_pool_def ex_seg_def MAX_SEGMENTS_SIZE_def)


text \<open>Every operation that changes the counters keeps them at least as high as the numbers they stand for.\<close>

lemma cover_arith:
  fixes c :: u32
  assumes "n + k \<le> unat c" "unat c + 2 < 2 ^ 32" "x \<le> 1" "y \<le> 1"
  shows "n + x \<le> unat (c - of_nat k + of_nat x + of_nat y)"
proof -
  have k: "unat (of_nat k :: u32) = k" using assms(1,2) by (simp add: unsigned_of_nat take_bit_nat_eq_self)
  then have "(of_nat k :: u32) \<le> c" using assms(1) by (simp add: word_le_nat_alt)
  then have "unat (c - of_nat k) = unat c - k" by (simp add: unat_sub k)
  then have "unat (c - of_nat k + of_nat (x + y)) = unat c - k + (x + y)"
    using assms by (simp add: unat_word_ariths unsigned_of_nat take_bit_nat_eq_self del: of_nat_add)
  then show ?thesis using assms(1) by (simp add: add.assoc)
qed

lemma of_nat_if: "(if b then 1 else 0 :: u32) = of_nat (if b then 1 else 0)"
  by simp

lemma stats_cover_retain:
  fixes flat_again mem_again small_again :: bool
  assumes "stats_cover cap pool (A @ ds @ B)" "stats_room pool"
    and same: "\<And>i. i \<in> set (A @ new # B) \<Longrightarrow> index_type (flushed_segments p i) = index_type (flushed_segments pool i)
      \<and> vec_count (flushed_segments p i) = vec_count (flushed_segments pool i)"
    and "flat_count p = flat_count pool - tally (is_flat pool) ds + (if is_flat pool new then 1 else 0) + (if flat_again then 1 else 0)"
    and "memtable_capacity_le_count p = memtable_capacity_le_count pool - tally (le_memtable cap pool) ds
      + (if le_memtable cap pool new then 1 else 0) + (if mem_again then 1 else 0)"
    and "small_segment_le_count p = small_segment_le_count pool - tally (le_small pool) ds
      + (if le_small pool new then 1 else 0) + (if small_again then 1 else 0)"
  shows "stats_cover cap p (A @ new # B)"
proof -
  have count: "length (filter Q (A @ new # B)) \<le> unat (c - tally P ds + (if P new then 1 else 0) + (if e then 1 else 0))"
    if "length (filter P (A @ ds @ B)) \<le> unat c" "unat c + 2 < 2 ^ 32" "\<And>i. i \<in> set (A @ new # B) \<Longrightarrow> Q i = P i" for P Q e and c :: u32
  proof -
    have "filter Q (A @ new # B) = filter P (A @ new # B)" by (rule filter_cong) (use that(3) in auto)
    then have "length (filter Q (A @ new # B)) = length (filter P A) + length (filter P B) + (if P new then 1 else 0)" by simp
    also have "\<dots> \<le> unat (c - of_nat (length (filter P ds)) + of_nat (if P new then 1 else 0) + of_nat (if e then 1 else 0))"
      by (rule cover_arith) (use that(1,2) in auto)
    finally show ?thesis by (simp only: tally_def of_nat_if)
  qed
  show ?thesis
    unfolding stats_cover_def assms(4-6)
    using assms(1,2) same
    by (intro conjI count) (simp_all only: stats_cover_def stats_room_def)
qed

lemma cover_register:
  assumes "pool_inv pool xs" "idx \<notin> set xs" "stats_cover cap pool xs" "stats_room pool"
    and "register_flushed_segment cap idx pool = Some p"
  shows "stats_cover cap p (insert_by_start pool (sid_start pool idx) idx xs)"
proof -
  from assms(1) have links: "pool_links pool xs" by (simp add: pool_inv_def)
  obtain q where q: "register_flushed_segment cap idx pool
       = Some (seg_stats cap idx 1 (q\<lparr>flushed_segment_count := flushed_segment_count q + 1\<rparr>))"
    and frame: "\<And>i. index_type (flushed_segments q i) = index_type (flushed_segments pool i)"
      "\<And>i. vec_count (flushed_segments q i) = vec_count (flushed_segments pool i)"
      "flat_count q = flat_count pool" "small_segment_le_count q = small_segment_le_count pool"
      "memtable_capacity_le_count q = memtable_capacity_le_count pool"
    by (rule register_flushed_segment_linked [OF links assms(2), of cap]) blast
  obtain A B where split: "xs = A @ B" "insert_by_start pool (sid_start pool idx) idx xs = A @ idx # B"
    by (rule insert_by_start_split) blast
  have p: "p = seg_stats cap idx 1 (q\<lparr>flushed_segment_count := flushed_segment_count q + 1\<rparr>)" using assms(5) q by simp
  have counts: "flat_count p = flat_count pool + (if is_flat pool idx then 1 else 0)"
    "memtable_capacity_le_count p = memtable_capacity_le_count pool + (if le_memtable cap pool idx then 1 else 0)"
    "small_segment_le_count p = small_segment_le_count pool + (if le_small pool idx then 1 else 0)"
    by (simp_all add: p update_pool_stats_counts frame)
  have same: "index_type (flushed_segments p i) = index_type (flushed_segments pool i)
      \<and> vec_count (flushed_segments p i) = vec_count (flushed_segments pool i)" for i
    by (simp add: p frame)
  show ?thesis
    unfolding split(2)
    by (rule stats_cover_retain [where ds = "[]" and pool = pool and flat_again = False and mem_again = False and small_again = False])
      (use assms(3,4) counts same in \<open>simp_all add: split(1)\<close>)
qed

lemma replace_counters:
  fixes pool :: FlushedSegmentPool and cap :: u32
  assumes "ds \<noteq> []" "distinct (A @ ds @ B)" "idx \<notin> set (A @ ds @ B)"
  defines "p \<equiv> replace_flushed_segments_n cap ds idx pool"
  shows "flat_count p = flat_count pool - tally (is_flat pool) ds + (if is_flat pool idx then 1 else 0)"
    "memtable_capacity_le_count p = memtable_capacity_le_count pool - tally (le_memtable cap pool) ds
        + (if le_memtable cap pool idx then 1 else 0)"
    "small_segment_le_count p = small_segment_le_count pool - tally (le_small pool) ds + (if le_small pool idx then 1 else 0)"
    "i \<in> set (A @ idx # B) \<Longrightarrow> index_type (flushed_segments p i) = index_type (flushed_segments pool i)
        \<and> vec_count (flushed_segments p i) = vec_count (flushed_segments pool i)"
proof -
  have dO: "distinct ds" using assms(2) by simp
  show "flat_count p = flat_count pool - tally (is_flat pool) ds + (if is_flat pool idx then 1 else 0)"
    "memtable_capacity_le_count p = memtable_capacity_le_count pool - tally (le_memtable cap pool) ds
        + (if le_memtable cap pool idx then 1 else 0)"
    "small_segment_le_count p = small_segment_le_count pool - tally (le_small pool) ds + (if le_small pool idx then 1 else 0)"
    using assms(1,3) by (simp_all add: p_def replace_flushed_segments_n_def Let_def update_pool_stats_counts
        relink_span_frame retire_stats_counts retire_refs_segments [OF dO])
  show "i \<in> set (A @ idx # B) \<Longrightarrow> index_type (flushed_segments p i) = index_type (flushed_segments pool i)
        \<and> vec_count (flushed_segments p i) = vec_count (flushed_segments pool i)"
    using assms(2,3) replace_frame(4,5) [OF dO assms(1), of i cap idx pool] by (auto simp: p_def)
qed

lemma cover_replace:
  assumes "stats_cover cap pool (A @ ds @ B)" "stats_room pool" "ds \<noteq> []" "distinct (A @ ds @ B)" "idx \<notin> set (A @ ds @ B)"
  shows "stats_cover cap (replace_flushed_segments_n cap ds idx pool) (A @ idx # B)"
  by (rule stats_cover_retain [OF assms(1,2), where flat_again = False and mem_again = False and small_again = False])
    (use replace_counters [OF assms(3-5)] in simp_all)

lemma cover_publish:
  assumes "stats_cover cap pool (A @ ds @ B)" "stats_room pool" "ds \<noteq> []" "distinct (A @ ds @ B)" "new_idx \<notin> set (A @ ds @ B)"
  shows "stats_cover cap (publish_merged cap ds new_idx ty nv pool) (A @ new_idx # B)"
proof -
  note r = replace_counters [where cap = cap and pool = pool, OF assms(3-5)]
  show ?thesis
    by (rule stats_cover_retain [OF assms(1,2), where flat_again = "ty = FLAT" and mem_again = "nv \<le> cap" and small_again = "nv \<le> THRESHOLD_SMALL_SEGMENT_SIZE"])
      (use r in \<open>simp_all add: publish_merged_def Let_def\<close>)
qed

section \<open>Properties\<close>



text \<open>C27: (liveness) The scheduler neither hangs nor overlooks work: on well-formed pools whose counters are at least the
  numbers of segments they count, the undisturbed scan returns, and it returns without a task only when no
  queryable pool has a segment that any of the five priorities would take; the gates hide nothing. The
  counters are too high after a merge (\<open>publish_merged_counts_twice\<close>) but never too low: \<open>cover_register\<close>,
  \<open>cover_replace\<close> and \<open>cover_publish\<close> show that every operation that changes them keeps this, short of an
  overflow of 32 bits.\<close>

theorem scan_finds_all_work:
  assumes "\<And>i. queryable i \<Longrightarrow> pool_inv (pools i) (xs i) \<and> distinct (map (sid_start (pools i)) (xs i))
      \<and> stats_cover cap (pools i) (xs i)"
  shows "\<exists>found pools'. scan_and_claim_merge_task_pool cap r queryable (\<lambda>_ _. []) pools = Some (found, pools')
    \<and> (found = None \<longleftrightarrow> (\<forall>i < INDEX_BUF_SIZE. queryable i \<longrightarrow>
         (\<forall>prio \<in> {1..5}. \<forall>s \<in> set (xs i). \<not> eligible cap r prio (pools i) s)))"
proof -
  have "\<exists>found pools'. scan_in_order cap r queryable (\<lambda>_ _. []) scan_order pools = Some (found, pools')
    \<and> (found = None \<longleftrightarrow> (\<forall>(prio, i) \<in> set scan_order. queryable i \<longrightarrow>
         (\<forall>s \<in> set (xs i). \<not> eligible cap r prio (pools i) s)))"
    by (rule scan_quiet) (use assms in auto)
  then show ?thesis
    unfolding scan_and_claim_merge_task_pool_def set_scan_order by fastforce
qed

lemma ex_pool_cover: "stats_cover 50000 ex_pool [0, 1]"
  by (simp add: stats_cover_def ex_pool_def ex_seg_def THRESHOLD_SMALL_SEGMENT_SIZE_def)

theorem scan_finds_all_work_witness:
  "\<exists>found pools'. scan_and_claim_merge_task_pool 50000 (\<lambda>_ _. False) (\<lambda>_. True) (\<lambda>_ _. []) (\<lambda>_. ex_pool)
     = Some (Some found, pools')"
proof -
  have "\<not> (\<forall>i < INDEX_BUF_SIZE. True \<longrightarrow> (\<forall>prio \<in> {1..5}. \<forall>s \<in> set [0, 1]. \<not> eligible 50000 (\<lambda>_ _. False) prio ex_pool s))"
    using ex_pool_eligible(1) by (auto simp: INDEX_BUF_SIZE_def intro!: exI [of _ 0] bexI [of _ 2])
  with scan_finds_all_work [of "\<lambda>_. True" "\<lambda>_. ex_pool" "\<lambda>_. [0, 1]" 50000 "\<lambda>_ _. False"]
  show ?thesis using ex_pool_inv ex_pool_eligible(2) ex_pool_cover by auto
qed

text \<open>two merge workers never work on the same segment. Whatever happens to the pool between a claim and a later
  successful traversal, before and during it, as long as the segments claimed first stay marked, the second
  task shares no segment with the first.\<close>
theorem merge_claims_exclusive:
  assumes "claim_merge_task_pool lo hi ty pool = Some (t1, p1)"
    and "\<forall>i. is_compacting (flushed_segments p1 i) \<longrightarrow> is_compacting (flushed_segments p2 i)"
    and "\<forall>other \<in> set others. \<forall>q i. is_compacting (flushed_segments q i) \<longrightarrow> is_compacting (flushed_segments (other q) i)"
    and "traverse_and_check_priority_pool cap r prio others p2 = Some (Some t2, p3)"
  shows "task_segments t1 \<inter> task_segments t2 = {}"
proof -
  have keep: "\<exists>q. (\<exists>lo hi ty. claim_merge_task_pool lo hi ty q = Some (t2, p3))
      \<and> (\<forall>i. is_compacting (flushed_segments p2 i) \<longrightarrow> is_compacting (flushed_segments q i))"
    if "traverse_rounds cap r prio others p2 = Some (Some t2, p3)"
    using that assms(3)
  proof (induction others arbitrary: p2)
    case Nil
    then show ?case by (fastforce split: option.splits prod.splits)
  next
    case (Cons other others)
    from Cons.prems(1) obtain lo hi where c: "first_candidate cap r prio p2 = Some (Some (lo, hi))"
      by (auto split: option.splits)
    show ?case
    proof (cases "claim_merge_task_pool lo hi (task_type_of prio) (other p2)")
      case None
      with Cons.prems c obtain q where "\<exists>lo hi ty. claim_merge_task_pool lo hi ty q = Some (t2, p3)"
        "\<forall>i. is_compacting (flushed_segments (other p2) i) \<longrightarrow> is_compacting (flushed_segments q i)"
        using Cons.IH [of "other p2"] by auto
      with Cons.prems(2) show ?thesis by (metis list.set_intros(1))
    next
      case (Some tp)
      with Cons.prems c have "claim_merge_task_pool lo hi (task_type_of prio) (other p2) = Some (t2, p3)"
        by (cases tp) simp
      with Cons.prems(2) show ?thesis by (metis list.set_intros(1))
    qed
  qed
  from assms(4) have "traverse_rounds cap r prio others p2 = Some (Some t2, p3)"
    by (auto simp: traverse_and_check_priority_pool_def split: option.splits if_splits)
  from keep [OF this] obtain q lo' hi' ty' where
    q: "claim_merge_task_pool lo' hi' ty' q = Some (t2, p3)"
      "\<forall>i. is_compacting (flushed_segments p2 i) \<longrightarrow> is_compacting (flushed_segments q i)" by blast
  have "is_compacting (flushed_segments q i)" if "i \<in> task_segments t1" for i
    using that claim_SomeD [OF assms(1)] assms(2) q(2) by blast
  moreover have "\<not> is_compacting (flushed_segments q i)" if "i \<in> task_segments t2" for i
    using that claim_SomeD [OF q(1)] by (auto simp: claimable_def Let_def)
  ultimately show ?thesis by blast
qed

theorem merge_claims_exclusive_witness:
  "\<exists>t1 p1. claim_merge_task_pool 0 (Some 1) MERGE ex_pool = Some (t1, p1)
     \<and> (\<forall>t2 p3. traverse_and_check_priority_pool 50000 (\<lambda>_ _. False) 5 [] p1 = Some (Some t2, p3)
          \<longrightarrow> task_segments t1 \<inter> task_segments t2 = {})"
proof -
  have "claimable ex_pool 0" "claimable ex_pool 1"
    by (simp_all add: claimable_def Let_def fully_loaded_def ex_pool_def ex_seg_def)
  then obtain t1 p1 where c: "claim_merge_task_pool 0 (Some 1) MERGE ex_pool = Some (t1, p1)"
    using claim_ok_merge by blast
  have "\<forall>t2 p3. traverse_and_check_priority_pool 50000 (\<lambda>_ _. False) 5 [] p1 = Some (Some t2, p3)
      \<longrightarrow> task_segments t1 \<inter> task_segments t2 = {}"
    by (intro allI impI, rule merge_claims_exclusive [OF c, of p1 "[]"]) auto
  with c show ?thesis by blast
qed

text \<open>publishing a rebuilt or merged segment counts it twice. \<^verbatim>\<open>replace_flushed_segments_n\<close> already adds the new
  segment to the pool statistics, and phase 4 adds it again: from exact statistics each counter
  the new segment qualifies for ends one above the number of such segments in the list.\<close>
theorem publish_merged_counts_twice:
  assumes "pool_inv pool (A @ ds @ B)" "ds \<noteq> []" "new_idx \<notin> set (A @ ds @ B)" "pool_stats_ok cap pool (A @ ds @ B)"
    and "ty = index_type (flushed_segments pool new_idx)" "nv = ucast (vec_count (flushed_segments pool new_idx))"
  shows "let p = publish_merged cap ds new_idx ty nv pool; xs = A @ new_idx # B in
    flat_count p = tally (is_flat p) xs + (if ty = FLAT then 1 else 0)
    \<and> memtable_capacity_le_count p = tally (le_memtable cap p) xs + (if nv \<le> cap then 1 else 0)
    \<and> small_segment_le_count p = tally (le_small p) xs + (if nv \<le> THRESHOLD_SMALL_SEGMENT_SIZE then 1 else 0)"
proof -
  have "distinct (A @ ds @ B)" using assms(1) by (simp add: pool_inv_def pool_links_def)
  from replace_stats [OF assms(4,2) this assms(3)]
  have "pool_stats_ok cap (replace_flushed_segments_n cap ds new_idx pool) (A @ new_idx # B)" .
  then show ?thesis by (simp add: publish_merged_def Let_def pool_stats_ok_def)
qed

lemma ex_pool_index: "index_type (flushed_segments ex_pool 3) = HNSW" "vec_count (flushed_segments ex_pool 3) = 2"
  by (simp_all add: ex_pool_def ex_seg_def)

theorem publish_merged_counts_twice_witness:
  "memtable_capacity_le_count (publish_merged 50000 [0, 1] 3 HNSW 2 ex_pool) = 2"
proof -
  let ?p = "publish_merged 50000 [0, 1] 3 HNSW 2 ex_pool"
  have "flushed_segments ?p 3 = flushed_segments (replace_flushed_segments_n 50000 [0, 1] 3 ex_pool) 3"
    by (simp add: publish_merged_def Let_def THRESHOLD_SMALL_SEGMENT_SIZE_def)
  then have "vec_count (flushed_segments ?p 3) = 2"
    using replace_frame(5) [of "[0, 1]" 3 50000 3 ex_pool] by (simp add: ex_pool_def ex_seg_def)
  then have "tally (le_memtable 50000 ?p) [3] = 1" by simp
  moreover have "memtable_capacity_le_count ?p = tally (le_memtable 50000 ?p) ([] @ 3 # []) + (if (2 :: u32) \<le> 50000 then 1 else 0)"
    using publish_merged_counts_twice [of ex_pool "[]" "[0, 1]" "[]" 3 50000 HNSW 2, unfolded Let_def,
        OF _ _ _ _ _ _, THEN conjunct2, THEN conjunct1] ex_pool_inv ex_pool_stats
    by (simp add: ex_pool_index)
  ultimately show ?thesis by simp
qed

end
