(* ===== verification/SegmentFiles.thy ===== *)
theory SegmentFiles
  imports SegmentPool "HOL-Library.AList"
begin

text \<open>
  The on-disk form of segments (\<^verbatim>\<open>lsmindex_io.c\<close>): file names with versions and bitmap subversions,
  the directory scan that recovery, vacuum and the standby start from, files split into chunks, and
  the order of writes in \<^verbatim>\<open>flush_segment_to_disk\<close>. The directory of one index is an association
  list from file names to contents, in \<^verbatim>\<open>readdir\<close> order; a path is its last component.
\<close>

section \<open>Names\<close>

type_synonym directory = "(string \<times> u8 list) list"

definition digit :: "nat \<Rightarrow> char" where "digit n = char_of (48 + n)"

text \<open>\<^verbatim>\<open>%u\<close>.\<close>

function dec :: "nat \<Rightarrow> string" where
  "dec n = (if n < 10 then [digit n] else dec (n div 10) @ [digit (n mod 10)])"
  by pat_completeness auto
termination by (relation "measure id") auto

declare dec.simps [simp del]

definition is_digit :: "char \<Rightarrow> bool" where
  "is_digit c \<longleftrightarrow> 48 \<le> (of_char c :: nat) \<and> (of_char c :: nat) < 58"

definition digit_value :: "char \<Rightarrow> nat" where "digit_value c = of_char c - 48"

text \<open>
  \<^verbatim>\<open>(uint32_t) atoi(s)\<close> on text that starts with digits: the leading digits, truncated to 32 bits.
\<close>

definition atoi :: "string \<Rightarrow> u32" where
  "atoi s = of_nat (foldl (\<lambda>n c. 10 * n + digit_value c) 0 (takeWhile is_digit s))"

definition starts_with :: "string \<Rightarrow> string \<Rightarrow> bool" where
  "starts_with pre s \<longleftrightarrow> take (length pre) s = pre"

text \<open>\<^verbatim>\<open>GetLsmFilePathWithVersion\<close> and its relatives.\<close>

definition file_name :: "string \<Rightarrow> SegmentId \<Rightarrow> SegmentId \<Rightarrow> u32 \<Rightarrow> string" where
  "file_name ty a b v = ty @ ''_'' @ dec (unat a) @ ''_'' @ dec (unat b) @ ''_v'' @ dec (unat v)"

definition bitmap_name :: "SegmentId \<Rightarrow> SegmentId \<Rightarrow> u32 \<Rightarrow> u32 \<Rightarrow> string" where
  "bitmap_name a b v sub =
     (if sub = UINT32_MAX then file_name ''bitmap'' a b v
      else file_name ''bitmap'' a b v @ ''_s'' @ dec (unat sub))"

definition chunk_name :: "string \<Rightarrow> nat \<Rightarrow> string" where
  "chunk_name path i = path @ ''.'' @ dec i"

definition tmp_chunk_name :: "string \<Rightarrow> nat \<Rightarrow> string" where
  "tmp_chunk_name path i = path @ ''.tmp.'' @ dec i"

section \<open>Directory scans\<close>

definition max_version_over :: "string \<Rightarrow> directory \<Rightarrow> u32 \<Rightarrow> u32" where
  "max_version_over pattern_prefix d init =
     foldl (\<lambda>m (name, _). if starts_with pattern_prefix name
              then (let v = atoi (drop (length pattern_prefix) name) in if v > m then v else m)
              else m) init d"

definition find_latest_segment_version :: "directory \<Rightarrow> SegmentId \<Rightarrow> SegmentId \<Rightarrow> u32" where
  "find_latest_segment_version d a b =
     max_version_over (''metadata_'' @ dec (unat a) @ ''_'' @ dec (unat b) @ ''_v'') d 0"

definition find_latest_bitmap_subversion :: "directory \<Rightarrow> SegmentId \<Rightarrow> SegmentId \<Rightarrow> u32 \<Rightarrow> u32" where
  "find_latest_bitmap_subversion d a b v =
     (let pattern_prefix = file_name ''bitmap'' a b v @ ''_s'' in
      foldl (\<lambda>m (name, _). if starts_with pattern_prefix name
               then (let s = atoi (drop (length pattern_prefix) name)
                     in if m = UINT32_MAX \<or> s > m then s else m)
               else m) UINT32_MAX d)"

text \<open>\<^verbatim>\<open>strchr\<close> and \<^verbatim>\<open>strstr\<close> as they are used here: split at the first occurrence.\<close>

fun split_char :: "char \<Rightarrow> string \<Rightarrow> (string \<times> string) option" where
  "split_char c [] = None"
| "split_char c (x # xs) =
     (if x = c then Some ([], xs)
      else map_option (\<lambda>(p, q). (x # p, q)) (split_char c xs))"

fun split_str :: "string \<Rightarrow> string \<Rightarrow> (string \<times> string) option" where
  "split_str pat [] = None"
| "split_str pat (x # xs) =
     (if starts_with pat (x # xs) then Some ([], drop (length pat) (x # xs))
      else map_option (\<lambda>(p, q). (x # p, q)) (split_str pat xs))"

definition parse_metadata_name :: "string \<Rightarrow> (SegmentId \<times> SegmentId \<times> u32) option" where
  "parse_metadata_name name =
     (if starts_with ''metadata_'' name then
        (case split_char CHR ''_'' (drop 9 name) of
           None \<Rightarrow> None
         | Some (num1, rest) \<Rightarrow>
             (case split_str ''_v'' rest of
                None \<Rightarrow> None
              | Some (num2, num3) \<Rightarrow> Some (atoi num1, atoi num2, atoi num3)))
      else None)"

text \<open>The table of latest versions: at most \<^verbatim>\<open>MAX_SEGMENTS_COUNT\<close> ranges, in order of first appearance.\<close>

type_synonym range_table = "((SegmentId \<times> SegmentId) \<times> u32) list"

definition note_version :: "range_table \<Rightarrow> SegmentId \<times> SegmentId \<times> u32 \<Rightarrow> range_table" where
  "note_version tab e =
     (case e of (a, b, v) \<Rightarrow>
        (case map_of tab (a, b) of
           None \<Rightarrow> if length tab \<ge> MAX_SEGMENTS_COUNT then tab else tab @ [((a, b), v)]
         | Some m \<Rightarrow> if v > m then AList.update (a, b) v tab else tab))"

definition collect_versions :: "directory \<Rightarrow> range_table" where
  "collect_versions d =
     foldl (\<lambda>tab (name, _). case parse_metadata_name name of None \<Rightarrow> tab | Some e \<Rightarrow> note_version tab e) [] d"

text \<open>
  \<^verbatim>\<open>compare_segment_versions\<close>: by start, then the larger range first. The ranges of the table are pairwise
  different, so the result of \<^verbatim>\<open>qsort\<close> is determined.
\<close>

definition range_rank :: "(SegmentId \<times> SegmentId) \<times> u32 \<Rightarrow> int" where
  "range_rank e = (case e of ((a, b), v) \<Rightarrow> uint a * 2 ^ 32 + (2 ^ 32 - 1 - uint b))"

fun accept_ranges :: "nat \<Rightarrow> SegmentId \<Rightarrow> range_table \<Rightarrow> SegmentFileInfo list" where
  "accept_ranges room largest_end_sid [] = []"
| "accept_ranges room largest_end_sid (((a, b), v) # rest) =
     (if room = 0 then []
      else if largest_end_sid \<noteq> UINT32_MAX \<and> a \<le> largest_end_sid
      then accept_ranges room largest_end_sid rest
      else \<lparr>fi_start_sid = a, fi_end_sid = b, fi_version = v\<rparr> # accept_ranges (room - 1) b rest)"

definition scan_segment_metadata_files :: "directory \<Rightarrow> nat \<Rightarrow> SegmentFileInfo list" where
  "scan_segment_metadata_files d max_files =
     accept_ranges max_files UINT32_MAX (sort_key range_rank (collect_versions d))"

section \<open>Chunked files\<close>

definition MAX_FILE_SIZE :: nat where "MAX_FILE_SIZE = 1024 * 1024 * 1024"

text \<open>Little-endian bytes of a 32-bit word, as \<^verbatim>\<open>write\<close> of a \<^verbatim>\<open>uint32_t\<close> stores them.\<close>

definition u32_bytes :: "u32 \<Rightarrow> u8 list" where
  "u32_bytes w = map (\<lambda>k. ucast (drop_bit (8 * k) w)) [0, 1, 2, 3]"

definition bytes_u32 :: "u8 list \<Rightarrow> u32" where
  "bytes_u32 bs = foldr (\<lambda>b acc. ucast b OR push_bit 8 acc) bs 0"

text \<open>The contents of the successive chunks of \<^verbatim>\<open>write_segment_file\<close>; only the first carries the delete count.\<close>

function data_chunks :: "u8 list \<Rightarrow> u8 list list" where
  "data_chunks bs =
     (if bs = [] then [] else take MAX_FILE_SIZE bs # data_chunks (drop MAX_FILE_SIZE bs))"
  by pat_completeness auto
termination by (relation "measure length") (auto simp: MAX_FILE_SIZE_def)

declare data_chunks.simps [simp del]

definition segment_file_chunks :: "u8 list \<Rightarrow> u32 option \<Rightarrow> u8 list list" where
  "segment_file_chunks bs dc =
     (case dc of
        None \<Rightarrow> data_chunks bs
      | Some c \<Rightarrow> (u32_bytes c @ take (MAX_FILE_SIZE - 4) bs) # data_chunks (drop (MAX_FILE_SIZE - 4) bs))"

datatype disk_step = Write string "u8 list" | Rename string string

fun disk_apply :: "directory \<Rightarrow> disk_step \<Rightarrow> directory" where
  "disk_apply d (Write name bs) = AList.update name bs d"
| "disk_apply d (Rename old new) =
     (case map_of d old of
        None \<Rightarrow> d
      | Some bs \<Rightarrow> AList.update new bs (AList.delete old d))"

text \<open>\<^verbatim>\<open>write_segment_file\<close>: all temporary chunks first, then all renames.\<close>

definition write_segment_file :: "string \<Rightarrow> u8 list \<Rightarrow> u32 option \<Rightarrow> disk_step list" where
  "write_segment_file path bs dc =
     (let chunks = segment_file_chunks bs dc in
      map (\<lambda>i. Write (tmp_chunk_name path i) (chunks ! i)) [0..<length chunks]
      @ map (\<lambda>i. Rename (tmp_chunk_name path i) (chunk_name path i)) [0..<length chunks])"

text \<open>\<^verbatim>\<open>read_segment_file\<close>: the chunks that exist, from 0 up to the first gap; \<open>fuel\<close> bounds their number.\<close>

fun read_chunks :: "nat \<Rightarrow> directory \<Rightarrow> string \<Rightarrow> nat \<Rightarrow> u8 list list" where
  "read_chunks 0 d path i = []"
| "read_chunks (Suc fuel) d path i =
     (case map_of d (chunk_name path i) of
        None \<Rightarrow> []
      | Some bs \<Rightarrow> bs # read_chunks fuel d path (Suc i))"

definition read_segment_file :: "directory \<Rightarrow> string \<Rightarrow> bool \<Rightarrow> u8 list \<times> u32 option" where
  "read_segment_file d path with_count =
     (let chunks = read_chunks (length d) d path 0;
          total_size = length (concat chunks);
          data_size = (if with_count \<and> total_size \<ge> 4 then total_size - 4 else total_size)
      in if with_count \<and> chunks \<noteq> [] \<and> length (hd chunks) \<ge> 4
         then (take data_size (concat (drop 4 (hd chunks) # tl chunks)), Some (bytes_u32 (take 4 (hd chunks))))
         else (take data_size (concat chunks), None))"

text \<open>Loading and updating one file of a segment; version \<^verbatim>\<open>UINT32_MAX\<close> asks for the latest one.\<close>

definition resolve_version :: "directory \<Rightarrow> SegmentId \<Rightarrow> SegmentId \<Rightarrow> u32 \<Rightarrow> u32" where
  "resolve_version d a b v = (if v = UINT32_MAX then find_latest_segment_version d a b else v)"

definition load_bitmap_file :: "directory \<Rightarrow> SegmentId \<Rightarrow> SegmentId \<Rightarrow> u32 \<Rightarrow> u8 list \<times> u32 option" where
  "load_bitmap_file d a b v =
     (let version = resolve_version d a b v;
          subversion = find_latest_bitmap_subversion d a b version
      in read_segment_file d (bitmap_name a b version subversion) True)"

definition read_bitmap_delete_count :: "directory \<Rightarrow> SegmentId \<Rightarrow> SegmentId \<Rightarrow> u32 \<Rightarrow> u32 option" where
  "read_bitmap_delete_count d a b v =
     (let version = resolve_version d a b v;
          subversion = find_latest_bitmap_subversion d a b version
      in case map_of d (chunk_name (bitmap_name a b version subversion) 0) of
           None \<Rightarrow> None
         | Some bs \<Rightarrow> if length bs < 4 then None else Some (bytes_u32 (take 4 bs)))"

definition load_mapping_file :: "directory \<Rightarrow> SegmentId \<Rightarrow> SegmentId \<Rightarrow> u32 \<Rightarrow> u8 list" where
  "load_mapping_file d a b v =
     fst (read_segment_file d (file_name ''mapping'' a b (resolve_version d a b v)) False)"

text \<open>None is the error for an inverted range.\<close>

definition load_offset_file :: "directory \<Rightarrow> SegmentId \<Rightarrow> SegmentId \<Rightarrow> u32 \<Rightarrow> u8 list option" where
  "load_offset_file d a b v =
     (if a > b then None
      else Some (fst (read_segment_file d (file_name ''offset'' a b (resolve_version d a b v)) False)))"

definition write_bitmap_file_with_subversion ::
  "SegmentId \<Rightarrow> SegmentId \<Rightarrow> u32 \<Rightarrow> u32 \<Rightarrow> u8 list \<Rightarrow> u32 \<Rightarrow> disk_step list" where
  "write_bitmap_file_with_subversion a b v sub bs dc =
     write_segment_file (bitmap_name a b v sub) bs (Some dc)"

definition write_bitmap_for_memtable :: "SegmentId \<Rightarrow> u8 list \<Rightarrow> u32 \<Rightarrow> disk_step list" where
  "write_bitmap_for_memtable memtable_id bs dc =
     write_segment_file (''bitmap_memtable_'' @ dec (unat memtable_id)) bs (Some dc)"

text \<open>\<^verbatim>\<open>fread\<close> of consecutive 32-bit fields: none if the file ends before the last of them.\<close>

fun read_u32s :: "nat \<Rightarrow> u8 list \<Rightarrow> u32 list option" where
  "read_u32s 0 bs = Some []"
| "read_u32s (Suc n) bs =
     (if length bs < 4 then None
      else map_option (\<lambda>ws. bytes_u32 (take 4 bs) # ws) (read_u32s n (drop 4 bs)))"

definition read_lsm_segment_metadata ::
  "directory \<Rightarrow> SegmentId \<Rightarrow> SegmentId \<Rightarrow> u32 \<Rightarrow> (SegmentId \<times> SegmentId \<times> u32 \<times> u32) option" where
  "read_lsm_segment_metadata d a b v =
     (case map_of d (file_name ''metadata'' a b (resolve_version d a b v)) of
        None \<Rightarrow> None
      | Some bs \<Rightarrow>
          (case read_u32s 4 bs of
             Some [out_start, out_end, rows, ty] \<Rightarrow> Some (out_start, out_end, rows, ty)
           | _ \<Rightarrow> None))"

section \<open>The metadata of the whole index\<close>

record IndexMetadata =
  im_index_type :: u32
  im_dim :: u32
  im_elem_size :: u32
  im_hnsw_m :: u32
  im_hnsw_ef_construction :: u32

definition write_lsm_index_metadata :: "IndexMetadata \<Rightarrow> disk_step list" where
  "write_lsm_index_metadata im =
     [Write ''metadata.tmp'' (u32_bytes (im_index_type im) @ u32_bytes (im_dim im) @ u32_bytes (im_elem_size im)
        @ u32_bytes (im_hnsw_m im) @ u32_bytes (im_hnsw_ef_construction im)),
      Rename ''metadata.tmp'' ''metadata'']"

text \<open>Files from before the HNSW options end after three fields; the options are then 32 and 200.\<close>

definition read_lsm_index_metadata :: "directory \<Rightarrow> IndexMetadata option" where
  "read_lsm_index_metadata d =
     (case map_of d ''metadata'' of
        None \<Rightarrow> None
      | Some bs \<Rightarrow>
          (case read_u32s 3 bs of
             Some [ty, dim, elem_size] \<Rightarrow>
               (case read_u32s 2 (drop 12 bs) of
                  Some [m, ef] \<Rightarrow> Some \<lparr>im_index_type = ty, im_dim = dim, im_elem_size = elem_size,
                                       im_hnsw_m = m, im_hnsw_ef_construction = ef\<rparr>
                | _ \<Rightarrow> Some \<lparr>im_index_type = ty, im_dim = dim, im_elem_size = elem_size,
                            im_hnsw_m = 32, im_hnsw_ef_construction = 200\<rparr>)
           | _ \<Rightarrow> None))"

section \<open>Writing a segment\<close>

record PrepareFlushMeta =
  pf_start_sid :: SegmentId
  pf_end_sid :: SegmentId
  pf_valid_rows :: u32
  pf_index_type :: u32
  pf_map :: "u8 list"
  pf_bitmap :: "u8 list"
  pf_delete_count :: u32
  pf_offsets :: "u8 list option"
  pf_index_bin :: "(string \<Rightarrow> disk_step list) option"
    \<comment> \<open>what \<^verbatim>\<open>IndexBinarySetFlush\<close> does for a path; none if the index is on disk already\<close>

definition metadata_bytes :: "PrepareFlushMeta \<Rightarrow> u8 list" where
  "metadata_bytes prep = u32_bytes (pf_start_sid prep) @ u32_bytes (pf_end_sid prep)
     @ u32_bytes (pf_valid_rows prep) @ u32_bytes (pf_index_type prep)"

definition write_lsm_segment_metadata :: "PrepareFlushMeta \<Rightarrow> u32 \<Rightarrow> disk_step list" where
  "write_lsm_segment_metadata prep v =
     [Write (file_name ''metadata.tmp'' (pf_start_sid prep) (pf_end_sid prep) v) (metadata_bytes prep),
      Rename (file_name ''metadata.tmp'' (pf_start_sid prep) (pf_end_sid prep) v)
             (file_name ''metadata'' (pf_start_sid prep) (pf_end_sid prep) v)]"

definition flush_segment_to_disk :: "directory \<Rightarrow> PrepareFlushMeta \<Rightarrow> disk_step list" where
  "flush_segment_to_disk d prep =
     (let a = pf_start_sid prep; b = pf_end_sid prep;
          v = find_latest_segment_version d a b + 1
      in (case pf_index_bin prep of None \<Rightarrow> [] | Some bin \<Rightarrow> bin (file_name ''index'' a b v))
         @ write_segment_file (file_name ''bitmap'' a b v) (pf_bitmap prep) (Some (pf_delete_count prep))
         @ write_segment_file (file_name ''mapping'' a b v) (pf_map prep) None
         @ (case pf_offsets prep of
              None \<Rightarrow> [] | Some os \<Rightarrow> write_segment_file (file_name ''offset'' a b v) os None)
         @ write_lsm_segment_metadata prep v)"

section \<open>Printing and parsing numbers\<close>

lemma of_char_digit: "n < 10 \<Longrightarrow> (of_char (digit n) :: nat) = 48 + n"
  by (simp add: digit_def)

lemma digit_facts: "n < 10 \<Longrightarrow> is_digit (digit n) \<and> digit_value (digit n) = n"
  by (simp add: is_digit_def digit_value_def of_char_digit)

lemma dec_digits: "c \<in> set (dec n) \<Longrightarrow> is_digit c"
proof (induction n rule: dec.induct)
  case (1 n)
  then show ?case by (auto simp: dec.simps [of n] digit_facts split: if_splits)
qed

lemma dec_nonempty [simp]: "dec n \<noteq> []"
  by (subst dec.simps) simp

lemma dec_value: "foldl (\<lambda>n c. 10 * n + digit_value c) 0 (dec n) = n"
proof (induction n rule: dec.induct)
  case (1 n)
  then show ?case by (subst dec.simps) (simp add: digit_facts)
qed

lemma dec_inj: "dec m = dec n \<Longrightarrow> m = n"
  by (metis dec_value)

lemma not_digits: "\<not> is_digit CHR ''_''" "\<not> is_digit CHR ''.''" "\<not> is_digit CHR ''v''"
  "\<not> is_digit CHR ''s''" "\<not> is_digit CHR ''t''"
  by (simp_all add: is_digit_def)

lemma atoi_dec:
  assumes "rest = [] \<or> \<not> is_digit (hd rest)"
  shows "atoi (dec n @ rest) = of_nat n"
proof -
  have "takeWhile is_digit (dec n @ rest) = dec n"
    using assms dec_digits by (cases rest) (auto simp: takeWhile_append)
  then show ?thesis by (simp add: atoi_def dec_value)
qed

lemma split_char_app: "c \<notin> set xs \<Longrightarrow> split_char c (xs @ c # ys) = Some (xs, ys)"
  by (induction xs) auto

lemma split_str_app:
  "x \<notin> set xs \<Longrightarrow> split_str (x # pat) (xs @ (x # pat) @ ys) = Some (xs, ys)"
proof (induction xs)
  case (Cons y xs)
  then show ?case by (auto simp: starts_with_def)
qed (simp add: starts_with_def)

lemma dec_no_char: "\<not> is_digit c \<Longrightarrow> c \<notin> set (dec n)"
  using dec_digits by blast

definition metadata_prefix :: "SegmentId \<Rightarrow> SegmentId \<Rightarrow> string" where
  "metadata_prefix a b = ''metadata_'' @ dec (unat a) @ ''_'' @ dec (unat b) @ ''_v''"

lemma parse_metadata_prefix: "parse_metadata_name (metadata_prefix a b @ rest) = Some (a, b, atoi rest)"
proof -
  have drop: "drop 9 (metadata_prefix a b @ rest) = dec (unat a) @ CHR ''_'' # dec (unat b) @ ''_v'' @ rest"
    and start: "starts_with ''metadata_'' (metadata_prefix a b @ rest)"
    by (simp_all add: metadata_prefix_def starts_with_def)
  have "split_char CHR ''_'' (dec (unat a) @ CHR ''_'' # dec (unat b) @ ''_v'' @ rest) =
      Some (dec (unat a), dec (unat b) @ ''_v'' @ rest)"
    by (rule split_char_app) (simp add: dec_no_char not_digits)
  moreover have "split_str ''_v'' (dec (unat b) @ ''_v'' @ rest) = Some (dec (unat b), rest)"
    by (rule split_str_app) (simp add: dec_no_char not_digits)
  moreover have "atoi (dec (unat x)) = x" for x using atoi_dec [of "[]"] by simp
  ultimately show ?thesis unfolding parse_metadata_name_def drop using start by simp
qed

lemma metadata_name_prefix: "file_name ''metadata'' a b v = metadata_prefix a b @ dec (unat v)"
  by (simp add: file_name_def metadata_prefix_def)

lemma parse_metadata_name_print:
  "parse_metadata_name (file_name ''metadata'' a b v) = Some (a, b, v)"
  using atoi_dec [of "[]" "unat v"] by (simp add: metadata_name_prefix parse_metadata_prefix)

section \<open>The table of latest versions\<close>

definition parsed_names :: "directory \<Rightarrow> (SegmentId \<times> SegmentId \<times> u32) list" where
  "parsed_names d = List.map_filter (\<lambda>(name, _). parse_metadata_name name) d"

definition ranges_of :: "(SegmentId \<times> SegmentId \<times> u32) list \<Rightarrow> (SegmentId \<times> SegmentId) set" where
  "ranges_of es = (\<lambda>(a, b, v). (a, b)) ` set es"

lemma collect_versions_parsed: "collect_versions d = foldl note_version [] (parsed_names d)"
proof -
  have "foldl (\<lambda>tab (name, _). case parse_metadata_name name of None \<Rightarrow> tab | Some e \<Rightarrow> note_version tab e) tab d
      = foldl note_version tab (parsed_names d)" for tab
    by (induction d arbitrary: tab) (auto simp: parsed_names_def List.map_filter_simps split: option.splits)
  then show ?thesis by (simp add: collect_versions_def)
qed

lemma note_versions_spec:
  assumes "card (ranges_of es) \<le> MAX_SEGMENTS_COUNT"
  defines "tab \<equiv> foldl note_version [] es"
  shows "distinct (map fst tab) \<and> set (map fst tab) = ranges_of es
    \<and> (\<forall>a b m. map_of tab (a, b) = Some m \<longleftrightarrow> (a, b, m) \<in> set es \<and> (\<forall>v. (a, b, v) \<in> set es \<longrightarrow> v \<le> m))"
  using assms(1) unfolding tab_def
proof (induction es rule: rev_induct)
  case Nil
  then show ?case by (simp add: ranges_of_def)
next
  case (snoc e es)
  obtain a b v where e: "e = (a, b, v)" by (cases e) auto
  let ?tab = "foldl note_version [] es"
  have ins: "ranges_of (es @ [e]) = insert (a, b) (ranges_of es)" by (auto simp: ranges_of_def e)
  have fin: "finite (ranges_of es)" by (simp add: ranges_of_def)
  then have "card (ranges_of es) \<le> MAX_SEGMENTS_COUNT"
    using snoc.prems unfolding ins by (meson card_insert_le order_trans)
  with snoc.IH have IH: "distinct (map fst ?tab)" "set (map fst ?tab) = ranges_of es"
    "\<And>a b m. map_of ?tab (a, b) = Some m \<longleftrightarrow> (a, b, m) \<in> set es \<and> (\<forall>v. (a, b, v) \<in> set es \<longrightarrow> v \<le> m)"
    by auto
  show ?case
  proof (cases "map_of ?tab (a, b)")
    case None
    then have new: "(a, b) \<notin> ranges_of es" using IH(2) by (simp add: map_of_eq_None_iff)
    have "length ?tab = card (ranges_of es)"
      using IH(1,2) by (metis distinct_card length_map)
    with snoc.prems new fin have "length ?tab < MAX_SEGMENTS_COUNT" unfolding ins by simp
    with None have step: "foldl note_version [] (es @ [e]) = ?tab @ [((a, b), v)]"
      by (simp add: e note_version_def)
    have none: "\<And>w. (a, b, w) \<notin> set es" using new by (force simp: ranges_of_def)
    have "map_of (?tab @ [((a, b), v)]) (a', b') = Some m \<longleftrightarrow>
        (if (a', b') = (a, b) then m = v else map_of ?tab (a', b') = Some m)" for a' b' m
      using None by (auto simp: map_add_def split: option.splits)
    then have "map_of (?tab @ [((a, b), v)]) (a', b') = Some m \<longleftrightarrow> (a', b', m) \<in> set (es @ [e])
        \<and> (\<forall>w. (a', b', w) \<in> set (es @ [e]) \<longrightarrow> w \<le> m)" for a' b' m
      using IH(3) [of a' b' m] none by (auto simp: e)
    with IH(1,2) new show ?thesis unfolding step ins by auto
  next
    case (Some m0)
    then have old: "(a, b) \<in> ranges_of es" using IH(2) by (metis map_of_eq_None_iff option.distinct(1) set_map)
    have step: "foldl note_version [] (es @ [e]) = (if v > m0 then AList.update (a, b) v ?tab else ?tab)"
      using Some by (simp add: e note_version_def)
    have keys: "map fst (foldl note_version [] (es @ [e])) = map fst ?tab"
      unfolding step using old IH(2) by (simp add: AList.update_keys)
    have mo: "map_of (foldl note_version [] (es @ [e])) (a', b') =
        (if (a', b') = (a, b) then Some (max m0 v) else map_of ?tab (a', b'))" for a' b'
      unfolding step using Some by (auto simp: AList.update_conv' max_def)
    have m0: "(a, b, m0) \<in> set es" "\<forall>w. (a, b, w) \<in> set es \<longrightarrow> w \<le> m0" using IH(3) Some by auto
    have "map_of (foldl note_version [] (es @ [e])) (a', b') = Some m \<longleftrightarrow> (a', b', m) \<in> set (es @ [e])
        \<and> (\<forall>w. (a', b', w) \<in> set (es @ [e]) \<longrightarrow> w \<le> m)" for a' b' m
    proof (cases "(a', b') = (a, b)")
      case True
      have up: "(\<forall>w. (a', b', w) \<in> set (es @ [e]) \<longrightarrow> w \<le> m) \<longleftrightarrow> max m0 v \<le> m"
        using m0 True by (auto simp: e intro: order_trans)
      have mem: "(a', b', m) \<in> set (es @ [e]) \<Longrightarrow> m \<le> max m0 v"
        using m0 True by (auto simp: e le_max_iff_disj)
      have top: "(a', b', max m0 v) \<in> set (es @ [e])" using m0 True by (auto simp: e max_def)
      have "max m0 v = m \<longleftrightarrow> (a', b', m) \<in> set (es @ [e]) \<and> max m0 v \<le> m"
        using mem top order_antisym [of "max m0 v" m] by blast
      with True show ?thesis unfolding mo up by simp
    next
      case False
      then show ?thesis unfolding mo using IH(3) [of a' b' m] by (auto simp: e)
    qed
    with IH(1,2) old show ?thesis unfolding ins keys by auto
  qed
qed

section \<open>Which ranges the scan accepts\<close>

definition nested_or_disjoint :: "SegmentId \<times> SegmentId \<Rightarrow> SegmentId \<times> SegmentId \<Rightarrow> bool" where
  "nested_or_disjoint r s \<longleftrightarrow>
     snd r < fst s \<or> snd s < fst r \<or> (fst s \<le> fst r \<and> snd r \<le> snd s) \<or> (fst r \<le> fst s \<and> snd s \<le> snd r)"

definition covers :: "SegmentFileInfo \<Rightarrow> SegmentId \<times> SegmentId \<Rightarrow> bool" where
  "covers f r \<longleftrightarrow> fi_start_sid f \<le> fst r \<and> snd r \<le> fi_end_sid f"

definition proper_range :: "SegmentId \<times> SegmentId \<Rightarrow> bool" where
  "proper_range r \<longleftrightarrow> fst r \<le> snd r \<and> snd r < UINT32_MAX"

lemma range_rank_le:
  assumes "range_rank ((a, b), v) \<le> range_rank ((a', b'), v')"
  shows "a < a' \<or> a = a' \<and> b' \<le> b"
proof -
  have u: "0 \<le> uint x \<and> uint x < 4294967296" for x :: u32 using unsigned_less [of x, where 'a = int] by simp
  have h: "uint a * 4294967296 - uint b \<le> uint a' * 4294967296 - uint b'"
    using assms by (simp add: range_rank_def)
  have "uint a < uint a' \<or> uint a = uint a' \<and> uint b' \<le> uint b"
    using h u [of b] u [of b'] by arith
  then show ?thesis by (auto simp: word_less_def word_le_def word_uint_eq_iff)
qed

text \<open>The loop after the first acceptance; \<open>(s, l)\<close> is the range accepted last.\<close>

lemma accept_after:
  assumes "\<forall>e \<in> set tab. proper_range (fst e) \<and> s \<le> fst (fst e) \<and> (fst (fst e) \<le> l \<longrightarrow> snd (fst e) \<le> l)"
    and "sorted (map range_rank tab)" "\<forall>e \<in> set tab. \<forall>e' \<in> set tab. nested_or_disjoint (fst e) (fst e')"
    and "length tab \<le> room" "l \<noteq> UINT32_MAX"
  shows "(\<forall>f \<in> set (accept_ranges room l tab). ((fi_start_sid f, fi_end_sid f), fi_version f) \<in> set tab \<and> l < fi_start_sid f)
    \<and> sorted_wrt (\<lambda>f g. fi_end_sid f < fi_start_sid g) (accept_ranges room l tab)
    \<and> (\<forall>e \<in> set tab. (s \<le> fst (fst e) \<and> snd (fst e) \<le> l) \<or> (\<exists>f \<in> set (accept_ranges room l tab). covers f (fst e)))"
  using assms
proof (induction tab arbitrary: s l room)
  case (Cons e tab)
  obtain a b v where e: "e = ((a, b), v)" by (metis surj_pair)
  show ?case
  proof (cases "a \<le> l")
    case True
    with Cons.prems have "snd (fst e) \<le> l" "s \<le> fst (fst e)" by (auto simp: e)
    with True Cons.prems Cons.IH [of s l room] show ?thesis by (auto simp: e)
  next
    case False
    with Cons.prems(4) have room: "room \<noteq> 0" "length tab \<le> room - 1" by auto
    have b: "b \<noteq> UINT32_MAX" "a \<le> b" using Cons.prems(1) by (auto simp: e proper_range_def)
    have inner: "\<forall>e' \<in> set tab. proper_range (fst e') \<and> a \<le> fst (fst e') \<and> (fst (fst e') \<le> b \<longrightarrow> snd (fst e') \<le> b)"
    proof
      fix e' assume e': "e' \<in> set tab"
      obtain a' b' v' where ev: "e' = ((a', b'), v')" by (metis surj_pair)
      have "range_rank e \<le> range_rank e'" using Cons.prems(2) e' by simp
      then have ord: "a < a' \<or> a = a' \<and> b' \<le> b" unfolding e ev by (rule range_rank_le)
      have "nested_or_disjoint (a, b) (a', b')" using Cons.prems(3) e' by (auto simp: e ev)
      moreover have "proper_range (a', b')" using Cons.prems(1) e' by (auto simp: ev)
      ultimately show "proper_range (fst e') \<and> a \<le> fst (fst e') \<and> (fst (fst e') \<le> b \<longrightarrow> snd (fst e') \<le> b)"
        using ord by (auto simp: ev nested_or_disjoint_def proper_range_def)
    qed
    have acc: "accept_ranges room l (e # tab) =
        \<lparr>fi_start_sid = a, fi_end_sid = b, fi_version = v\<rparr> # accept_ranges (room - 1) b tab"
      using False room Cons.prems(5) by (simp add: e)
    from Cons.IH [OF inner _ _ room(2) b(1)] Cons.prems(2,3)
    have IH: "\<forall>f \<in> set (accept_ranges (room - 1) b tab). ((fi_start_sid f, fi_end_sid f), fi_version f) \<in> set tab \<and> b < fi_start_sid f"
      "sorted_wrt (\<lambda>f g. fi_end_sid f < fi_start_sid g) (accept_ranges (room - 1) b tab)"
      "\<forall>e \<in> set tab. (a \<le> fst (fst e) \<and> snd (fst e) \<le> b) \<or> (\<exists>f \<in> set (accept_ranges (room - 1) b tab). covers f (fst e))"
      by auto
    have "l < fi_start_sid f" if "b < fi_start_sid f" for f
      using that False b(2) by (meson less_le_trans less_imp_le not_le order_less_trans)
    with IH False show ?thesis
      unfolding acc by (auto simp: e covers_def)
  qed
qed simp

lemma accept_ranges_spec:
  assumes "\<forall>e \<in> set tab. proper_range (fst e)"
    and "sorted (map range_rank tab)" "\<forall>e \<in> set tab. \<forall>e' \<in> set tab. nested_or_disjoint (fst e) (fst e')"
    and "length tab \<le> room"
  shows "(\<forall>f \<in> set (accept_ranges room UINT32_MAX tab). ((fi_start_sid f, fi_end_sid f), fi_version f) \<in> set tab)
    \<and> sorted_wrt (\<lambda>f g. fi_end_sid f < fi_start_sid g) (accept_ranges room UINT32_MAX tab)
    \<and> (\<forall>e \<in> set tab. \<exists>f \<in> set (accept_ranges room UINT32_MAX tab). covers f (fst e))"
proof (cases tab)
  case (Cons e tab')
  obtain a b v where e: "e = ((a, b), v)" by (metis surj_pair)
  have b: "b \<noteq> UINT32_MAX" "a \<le> b" using assms(1) by (auto simp: e Cons proper_range_def)
  have inner: "\<forall>e' \<in> set tab'. proper_range (fst e') \<and> a \<le> fst (fst e') \<and> (fst (fst e') \<le> b \<longrightarrow> snd (fst e') \<le> b)"
  proof
    fix e' assume e': "e' \<in> set tab'"
    obtain a' b' v' where ev: "e' = ((a', b'), v')" by (metis surj_pair)
    have "range_rank e \<le> range_rank e'" using assms(2) e' by (simp add: Cons)
    then have ord: "a < a' \<or> a = a' \<and> b' \<le> b" unfolding e ev by (rule range_rank_le)
    have "nested_or_disjoint (a, b) (a', b')" using assms(3) e' by (auto simp: e ev Cons)
    moreover have "proper_range (a', b')" using assms(1) e' by (auto simp: ev Cons)
    ultimately show "proper_range (fst e') \<and> a \<le> fst (fst e') \<and> (fst (fst e') \<le> b \<longrightarrow> snd (fst e') \<le> b)"
      using ord by (auto simp: ev nested_or_disjoint_def proper_range_def)
  qed
  have acc: "accept_ranges room UINT32_MAX (e # tab') =
      \<lparr>fi_start_sid = a, fi_end_sid = b, fi_version = v\<rparr> # accept_ranges (room - 1) b tab'"
    using assms(4) by (simp add: e Cons)
  from accept_after [OF inner _ _ _ b(1), of "room - 1"] assms
  have "(\<forall>f \<in> set (accept_ranges (room - 1) b tab'). ((fi_start_sid f, fi_end_sid f), fi_version f) \<in> set tab' \<and> b < fi_start_sid f)
    \<and> sorted_wrt (\<lambda>f g. fi_end_sid f < fi_start_sid g) (accept_ranges (room - 1) b tab')
    \<and> (\<forall>e \<in> set tab'. (a \<le> fst (fst e) \<and> snd (fst e) \<le> b) \<or> (\<exists>f \<in> set (accept_ranges (room - 1) b tab'). covers f (fst e)))"
    by (auto simp: Cons)
  then show ?thesis unfolding Cons acc by (auto simp: e covers_def)
qed simp

section \<open>Chunks on disk\<close>

lemma map_of_disk_apply:
  "map_of (disk_apply d (Write n bs)) = (map_of d)(n \<mapsto> bs)"
  "map_of (disk_apply d (Rename old new)) =
     (case map_of d old of None \<Rightarrow> map_of d | Some bs \<Rightarrow> (map_of d)(old := None, new \<mapsto> bs))"
  by (auto simp: AList.update_conv' AList.delete_conv' split: option.splits)

lemma chunk_name_inj: "chunk_name p i = chunk_name p j \<longleftrightarrow> i = j"
  by (auto simp: chunk_name_def dest: dec_inj)

lemma tmp_chunk_name_inj: "tmp_chunk_name p i = tmp_chunk_name p j \<longleftrightarrow> i = j"
  by (auto simp: tmp_chunk_name_def dest: dec_inj)

lemma chunk_tmp_distinct: "chunk_name p i \<noteq> tmp_chunk_name p j"
proof
  assume "chunk_name p i = tmp_chunk_name p j"
  then have "dec i = ''tmp.'' @ dec j" by (simp add: chunk_name_def tmp_chunk_name_def)
  then have "CHR ''t'' \<in> set (dec i)" by simp
  then show False using dec_digits not_digits by blast
qed

lemma foldl_writes:
  "map_of (foldl disk_apply d (map (\<lambda>i. Write (tmp_chunk_name p i) (cs ! i)) [0..<k])) (tmp_chunk_name p j) =
     (if j < k then Some (cs ! j) else map_of d (tmp_chunk_name p j))"
  "(\<forall>j. x \<noteq> tmp_chunk_name p j) \<Longrightarrow>
    map_of (foldl disk_apply d (map (\<lambda>i. Write (tmp_chunk_name p i) (cs ! i)) [0..<k])) x = map_of d x"
  by (induction k) (auto simp: map_of_disk_apply tmp_chunk_name_inj less_Suc_eq simp del: disk_apply.simps)

lemma foldl_renames:
  assumes "\<forall>j < n. map_of d (tmp_chunk_name p j) = Some (cs ! j)" "k \<le> n"
  defines "d' \<equiv> foldl disk_apply d (map (\<lambda>i. Rename (tmp_chunk_name p i) (chunk_name p i)) [0..<k])"
  shows "map_of d' (chunk_name p j) = (if j < k then Some (cs ! j) else map_of d (chunk_name p j))
    \<and> (k \<le> j \<longrightarrow> map_of d' (tmp_chunk_name p j) = map_of d (tmp_chunk_name p j))"
  using assms(2) unfolding d'_def
proof (induction k arbitrary: j)
  case (Suc k)
  let ?d = "foldl disk_apply d (map (\<lambda>i. Rename (tmp_chunk_name p i) (chunk_name p i)) [0..<k])"
  have "map_of ?d (tmp_chunk_name p k) = Some (cs ! k)" using Suc.IH [of k] Suc.prems assms(1) by simp
  with Suc show ?case
    by (auto simp: map_of_disk_apply chunk_name_inj tmp_chunk_name_inj chunk_tmp_distinct
        chunk_tmp_distinct [symmetric] less_Suc_eq simp del: disk_apply.simps)
qed simp

lemma write_segment_file_chunks:
  assumes "cs = segment_file_chunks bs dc"
  shows "map_of (foldl disk_apply d (write_segment_file p bs dc)) (chunk_name p j) =
    (if j < length cs then Some (cs ! j) else map_of d (chunk_name p j))"
proof -
  let ?d = "foldl disk_apply d (map (\<lambda>i. Write (tmp_chunk_name p i) (cs ! i)) [0..<length cs])"
  have t: "\<forall>j < length cs. map_of ?d (tmp_chunk_name p j) = Some (cs ! j)"
    using foldl_writes(1) [where d = d] by simp
  have c: "map_of ?d (chunk_name p j) = map_of d (chunk_name p j)"
    using foldl_writes(2) [of "chunk_name p j" p d cs] chunk_tmp_distinct by simp
  show ?thesis
    using foldl_renames [OF t order_refl, of j] c assms by (simp add: write_segment_file_def Let_def)
qed

lemma read_chunks_all:
  assumes "\<And>j. map_of d (chunk_name p j) = (if j < length cs then Some (cs ! j) else None)"
    and "length cs - i \<le> fuel"
  shows "read_chunks fuel d p i = drop i cs"
  using assms(2)
proof (induction fuel arbitrary: i)
  case (Suc fuel)
  show ?case
  proof (cases "i < length cs")
    case True
    with Suc have "read_chunks fuel d p (Suc i) = drop (Suc i) cs" by simp
    with True show ?thesis by (simp add: assms(1) Cons_nth_drop_Suc)
  qed (simp add: assms(1))
qed simp

lemma chunks_fit:
  assumes "\<And>j. j < n \<Longrightarrow> map_of d (chunk_name p j) \<noteq> None"
  shows "n \<le> length d"
proof -
  have "chunk_name p ` {..<n} \<subseteq> fst ` set d"
    using assms by (force simp: map_of_eq_None_iff)
  then have "card (chunk_name p ` {..<n}) \<le> card (fst ` set d)" by (intro card_mono) auto
  also have "\<dots> \<le> length d" by (metis card_length length_map set_map)
  finally show ?thesis by (simp add: card_image inj_on_def chunk_name_inj)
qed

lemma concat_data_chunks: "concat (data_chunks bs) = bs"
proof (induction bs rule: data_chunks.induct)
  case (1 bs)
  then show ?case by (cases "bs = []") (simp_all add: data_chunks.simps [of bs] data_chunks.simps [of "[]"])
qed

lemma length_u32_bytes [simp]: "length (u32_bytes w) = 4"
  by (simp add: u32_bytes_def)

lemma bytes_u32_bytes: "bytes_u32 (u32_bytes w) = w"
proof (rule bit_word_eqI)
  fix n assume n: "n < LENGTH(32)"
  have "n < 8 \<or> 8 \<le> n \<and> n < 16 \<or> 16 \<le> n \<and> n < 24 \<or> 24 \<le> n \<and> n < 32" using n by auto
  then show "bit (bytes_u32 (u32_bytes w)) n = bit w n"
    by (auto simp: bytes_u32_def u32_bytes_def bit_or_iff bit_push_bit_iff bit_ucast_iff bit_drop_bit_eq)
qed


section \<open>Which names a sequence of writes touches\<close>

definition names_with :: "string \<Rightarrow> directory \<Rightarrow> string list" where
  "names_with pre d = filter (starts_with pre) (map fst d)"

fun step_names :: "disk_step \<Rightarrow> string set" where
  "step_names (Write n bs) = {n}"
| "step_names (Rename old new) = {old, new}"

lemma delete_keys: "map fst (AList.delete k d) = filter (\<lambda>x. x \<noteq> k) (map fst d)"
  by (induction d) (auto simp: AList.delete_eq)

lemma filter_delete_key: "\<not> starts_with pre k \<Longrightarrow>
    filter (\<lambda>x. x \<noteq> k \<and> starts_with pre x) xs = filter (starts_with pre) xs"
  by (induction xs) auto

lemma names_with_step:
  assumes "\<forall>n \<in> step_names s. \<not> starts_with pre n"
  shows "names_with pre (disk_apply d s) = names_with pre d"
proof (cases s)
  case (Write n bs)
  with assms show ?thesis by (simp add: names_with_def AList.update_keys)
next
  case (Rename old new)
  with assms show ?thesis
    by (auto simp: names_with_def AList.update_keys delete_keys filter_delete_key split: option.splits)
qed

lemma names_with_steps:
  assumes "\<forall>s \<in> set ss. \<forall>n \<in> step_names s. \<not> starts_with pre n"
  shows "names_with pre (foldl disk_apply d ss) = names_with pre d"
  using assms by (induction ss arbitrary: d) (auto simp: names_with_step)

lemma map_of_steps:
  assumes "\<forall>s \<in> set ss. x \<notin> step_names s"
  shows "map_of (foldl disk_apply d ss) x = map_of d x"
  using assms
proof (induction ss arbitrary: d)
  case (Cons s ss)
  have "map_of (disk_apply d s) x = map_of d x"
    using Cons.prems by (cases s) (auto simp: map_of_disk_apply simp del: disk_apply.simps split: option.splits)
  with Cons show ?case by simp
qed simp

lemma write_segment_file_names:
  assumes "s \<in> set (write_segment_file path bs dc)" "n \<in> step_names s"
  shows "\<exists>i. n = tmp_chunk_name path i \<or> n = chunk_name path i"
  using assms by (auto simp: write_segment_file_def Let_def)

lemma parsed_names_metadata:
  "parsed_names d = List.map_filter parse_metadata_name (names_with ''metadata_'' d)"
proof (induction d)
  case (Cons e d)
  have "\<not> starts_with ''metadata_'' (fst e) \<Longrightarrow> parse_metadata_name (fst e) = None"
    by (simp add: parse_metadata_name_def)
  with Cons show ?case
    by (cases "starts_with ''metadata_'' (fst e)")
      (auto simp: parsed_names_def names_with_def List.map_filter_simps split: option.splits prod.splits)
qed (simp add: parsed_names_def names_with_def List.map_filter_simps)

lemma max_over_names:
  "max_version_over pre d m = foldl (\<lambda>m n. if atoi (drop (length pre) n) > m then atoi (drop (length pre) n) else m) m (names_with pre d)"
  by (induction d arbitrary: m) (auto simp: max_version_over_def names_with_def Let_def)

lemma starts_with_take: "starts_with pre (pre @ rest)"
  by (simp add: starts_with_def)

lemma starts_withE:
  assumes "starts_with pre n"
  obtains rest where "n = pre @ rest"
  using assms by (metis append_take_drop_id starts_with_def)

lemma names_with_mono:
  assumes "names_with pre d = names_with pre d'"
  shows "names_with (pre @ suf) d = names_with (pre @ suf) d'"
proof -
  have "starts_with pre x" if "starts_with (pre @ suf) x" for x
    using that by (rule starts_withE) (simp add: starts_with_def)
  then have "names_with (pre @ suf) d = filter (starts_with (pre @ suf)) (names_with pre d)" for d
    by (auto simp: names_with_def intro!: filter_cong)
  with assms show ?thesis by simp
qed

lemma find_latest_names:
  "find_latest_segment_version d a b = max_version_over (metadata_prefix a b) d 0"
  by (simp add: find_latest_segment_version_def metadata_prefix_def)

text \<open>What the scans see depends on the metadata names only.\<close>

lemma scans_same_names:
  assumes "names_with ''metadata_'' d = names_with ''metadata_'' d'"
  shows "scan_segment_metadata_files d m = scan_segment_metadata_files d' m"
    "find_latest_segment_version d a b = find_latest_segment_version d' a b"
  using names_with_mono [OF assms] assms
  by (simp_all add: scan_segment_metadata_files_def collect_versions_parsed parsed_names_metadata
      find_latest_names max_over_names metadata_prefix_def)


section \<open>Recovery sees whole segments only\<close>

text \<open>C28: (functional) Scanning the directory of an index. Let the names in it that parse as segment metadata describe
  at most 1024 ranges, none inverted or with an end of \<^verbatim>\<open>UINT32_MAX\<close>, any two of them disjoint or nested (merging only
  ever unites adjacent ranges). Then every entry the scan returns is a range and version that some name parses
  to, at the latest version of its range; the entries are in ascending order and do not overlap; and every range
  that a name parses to lies inside exactly one of them: none is lost and none is loaded twice. The scan
  looks at names only: the temporary metadata name of an interrupted pull parses as well.\<close>

lemma scan_covers_ranges_once:
  assumes "card (ranges_of (parsed_names d)) \<le> MAX_SEGMENTS_COUNT"
    and "\<forall>r \<in> ranges_of (parsed_names d). proper_range r"
    and "\<forall>r \<in> ranges_of (parsed_names d). \<forall>s \<in> ranges_of (parsed_names d). nested_or_disjoint r s"
  defines "fs \<equiv> scan_segment_metadata_files d MAX_SEGMENTS_COUNT"
  shows "(\<forall>f \<in> set fs. (fi_start_sid f, fi_end_sid f, fi_version f) \<in> set (parsed_names d)
        \<and> (\<forall>v. (fi_start_sid f, fi_end_sid f, v) \<in> set (parsed_names d) \<longrightarrow> v \<le> fi_version f))
    \<and> sorted_wrt (\<lambda>f g. fi_end_sid f < fi_start_sid g) fs
    \<and> (\<forall>r \<in> ranges_of (parsed_names d). \<exists>!i. i < length fs \<and> covers (fs ! i) r)"
proof -
  let ?tab = "foldl note_version [] (parsed_names d)"
  let ?srt = "sort_key range_rank ?tab"
  note T = note_versions_spec [OF assms(1)]
  have keys: "fst ` set ?tab = ranges_of (parsed_names d)" using T by simp
  have len: "length ?srt \<le> MAX_SEGMENTS_COUNT"
    using T assms(1) by (metis distinct_card length_map length_sort)
  have fs: "fs = accept_ranges MAX_SEGMENTS_COUNT UINT32_MAX ?srt"
    by (simp add: fs_def scan_segment_metadata_files_def collect_versions_parsed)
  have rng: "fst e \<in> ranges_of (parsed_names d)" if "e \<in> set ?srt" for e using that keys by auto
  have "\<forall>e \<in> set ?srt. proper_range (fst e)" using rng assms(2) by blast
  moreover have "sorted (map range_rank ?srt)" by simp
  moreover have "\<forall>e \<in> set ?srt. \<forall>e' \<in> set ?srt. nested_or_disjoint (fst e) (fst e')"
    using rng assms(3) by blast
  ultimately have A: "\<forall>f \<in> set fs. ((fi_start_sid f, fi_end_sid f), fi_version f) \<in> set ?srt"
    "sorted_wrt (\<lambda>f g. fi_end_sid f < fi_start_sid g) fs"
    "\<forall>e \<in> set ?srt. \<exists>f \<in> set fs. covers f (fst e)"
    unfolding fs using accept_ranges_spec [OF _ _ _ len] by blast+
  have "map_of ?tab (fi_start_sid f, fi_end_sid f) = Some (fi_version f)" if "f \<in> set fs" for f
    using that A(1) T by (auto intro: map_of_is_SomeI)
  with T have max_versions: "\<forall>f \<in> set fs. (fi_start_sid f, fi_end_sid f, fi_version f) \<in> set (parsed_names d)
        \<and> (\<forall>v. (fi_start_sid f, fi_end_sid f, v) \<in> set (parsed_names d) \<longrightarrow> v \<le> fi_version f)" by blast
  have "\<forall>r \<in> ranges_of (parsed_names d). \<exists>!i. i < length fs \<and> covers (fs ! i) r"
  proof
    fix r assume r: "r \<in> ranges_of (parsed_names d)"
    with keys have "r \<in> fst ` set ?srt" by simp
    with A(3) obtain f where "f \<in> set fs" "covers f r" by auto
    then obtain i where i: "i < length fs" "covers (fs ! i) r" by (metis in_set_conv_nth)
    have no: "\<not> (covers (fs ! j) r \<and> covers (fs ! k) r)" if "j < k" "k < length fs" for j k
      using sorted_wrt_nth_less [OF A(2) that] assms(2) r unfolding covers_def proper_range_def
      by (meson leD le_less_trans less_le_trans order_trans)
    show "\<exists>!i. i < length fs \<and> covers (fs ! i) r"
    proof (rule ex1I [of _ i])
      fix j assume "j < length fs \<and> covers (fs ! j) r"
      then show "j = i" using no [of i j] no [of j i] i by (cases i j rule: linorder_cases) auto
    qed (use i in simp)
  qed
  with max_versions A(2) show ?thesis by blast
qed

definition example_directory :: directory where
  "example_directory = [(''metadata_2_2_v1'', []), (''metadata_0_1_v1'', []), (''metadata_0_0_v7'', []),
     (''metadata.tmp_3_3_v1'', []), (''metadata_0_1_v3'', []), (''bitmap_0_1_v3.0'', []), (''metadata'', [])]"

lemma scan_covers_ranges_once_witness:
  "scan_segment_metadata_files example_directory MAX_SEGMENTS_COUNT =
     [\<lparr>fi_start_sid = 0, fi_end_sid = 1, fi_version = 3\<rparr>, \<lparr>fi_start_sid = 2, fi_end_sid = 2, fi_version = 1\<rparr>]
   \<and> (\<exists>!i. i < length (scan_segment_metadata_files example_directory MAX_SEGMENTS_COUNT)
        \<and> covers (scan_segment_metadata_files example_directory MAX_SEGMENTS_COUNT ! i) (0, 0))"
proof -
  have names: "parsed_names example_directory = [(2, 2, 1), (0, 1, 1), (0, 0, 7), (0, 1, 3)]" by code_simp
  have r: "ranges_of (parsed_names example_directory) = {(2, 2), (0, 1), (0, 0)}"
    unfolding names by (auto simp: ranges_of_def)
  have "card (ranges_of (parsed_names example_directory)) \<le> MAX_SEGMENTS_COUNT"
    unfolding r by (simp add: MAX_SEGMENTS_COUNT_def card_insert_if)
  moreover have "\<forall>r \<in> ranges_of (parsed_names example_directory). proper_range r"
    unfolding r by (simp add: proper_range_def)
  moreover have "\<forall>r \<in> ranges_of (parsed_names example_directory).
      \<forall>s \<in> ranges_of (parsed_names example_directory). nested_or_disjoint r s"
    unfolding r by (simp add: nested_or_disjoint_def)
  ultimately have "\<forall>r \<in> ranges_of (parsed_names example_directory).
      \<exists>!i. i < length (scan_segment_metadata_files example_directory MAX_SEGMENTS_COUNT)
        \<and> covers (scan_segment_metadata_files example_directory MAX_SEGMENTS_COUNT ! i) r"
    by (rule scan_covers_ranges_once [THEN conjunct2, THEN conjunct2])
  moreover have "scan_segment_metadata_files example_directory MAX_SEGMENTS_COUNT =
     [\<lparr>fi_start_sid = 0, fi_end_sid = 1, fi_version = 3\<rparr>, \<lparr>fi_start_sid = 2, fi_end_sid = 2, fi_version = 1\<rparr>]"
    by code_simp
  ultimately show ?thesis by (simp add: r)
qed


section \<open>Flushing is atomic\<close>

text \<open>\<^verbatim>\<open>IndexBinarySetFlush(path, ...)\<close> only creates files whose names start with \<open>path\<close>.\<close>

definition index_writer_ok :: "PrepareFlushMeta \<Rightarrow> bool" where
  "index_writer_ok prep \<longleftrightarrow>
     (\<forall>bin path. pf_index_bin prep = Some bin \<longrightarrow>
        (\<forall>s \<in> set (bin path). \<forall>n \<in> step_names s. starts_with path n))"

definition flush_data_steps :: "PrepareFlushMeta \<Rightarrow> u32 \<Rightarrow> disk_step list" where
  "flush_data_steps prep v =
     (let a = pf_start_sid prep; b = pf_end_sid prep
      in (case pf_index_bin prep of None \<Rightarrow> [] | Some bin \<Rightarrow> bin (file_name ''index'' a b v))
         @ write_segment_file (file_name ''bitmap'' a b v) (pf_bitmap prep) (Some (pf_delete_count prep))
         @ write_segment_file (file_name ''mapping'' a b v) (pf_map prep) None
         @ (case pf_offsets prep of
              None \<Rightarrow> [] | Some os \<Rightarrow> write_segment_file (file_name ''offset'' a b v) os None)
         @ [Write (file_name ''metadata.tmp'' a b v) (metadata_bytes prep)])"

lemma flush_steps_split:
  assumes "v = find_latest_segment_version d (pf_start_sid prep) (pf_end_sid prep) + 1"
  shows "flush_segment_to_disk d prep = flush_data_steps prep v
    @ [Rename (file_name ''metadata.tmp'' (pf_start_sid prep) (pf_end_sid prep) v)
              (file_name ''metadata'' (pf_start_sid prep) (pf_end_sid prep) v)]"
  by (simp add: flush_segment_to_disk_def flush_data_steps_def write_lsm_segment_metadata_def Let_def assms)

lemma index_file_not_metadata:
  assumes "starts_with (file_name ''index'' a b v) n"
  shows "\<not> starts_with ''metadata_'' n"
  using assms by (rule starts_withE) (simp add: starts_with_def file_name_def)

lemma not_metadata_name:
  "\<not> starts_with ''metadata_'' (chunk_name (file_name ''bitmap'' a b v) i)"
  "\<not> starts_with ''metadata_'' (tmp_chunk_name (file_name ''bitmap'' a b v) i)"
  "\<not> starts_with ''metadata_'' (chunk_name (file_name ''mapping'' a b v) i)"
  "\<not> starts_with ''metadata_'' (tmp_chunk_name (file_name ''mapping'' a b v) i)"
  "\<not> starts_with ''metadata_'' (chunk_name (file_name ''offset'' a b v) i)"
  "\<not> starts_with ''metadata_'' (tmp_chunk_name (file_name ''offset'' a b v) i)"
  "\<not> starts_with ''metadata_'' (file_name ''metadata.tmp'' a b v)"
  by (auto simp: starts_with_def file_name_def chunk_name_def tmp_chunk_name_def)

lemma flush_data_quiet:
  assumes "index_writer_ok prep" "s \<in> set (flush_data_steps prep v)" "n \<in> step_names s"
  shows "\<not> starts_with ''metadata_'' n"
proof -
  let ?a = "pf_start_sid prep" let ?b = "pf_end_sid prep"
  consider bin where "pf_index_bin prep = Some bin" "s \<in> set (bin (file_name ''index'' ?a ?b v))"
    | bs dc where "s \<in> set (write_segment_file (file_name ''bitmap'' ?a ?b v) bs dc)"
    | bs dc where "s \<in> set (write_segment_file (file_name ''mapping'' ?a ?b v) bs dc)"
    | bs dc where "s \<in> set (write_segment_file (file_name ''offset'' ?a ?b v) bs dc)"
    | bs where "s = Write (file_name ''metadata.tmp'' ?a ?b v) bs"
    using assms(2) unfolding flush_data_steps_def Let_def
    by (cases "pf_index_bin prep"; cases "pf_offsets prep") (simp_all, blast+)
  then show ?thesis
  proof cases
    case 1
    then have "starts_with (file_name ''index'' ?a ?b v) n"
      using assms(1,3) unfolding index_writer_ok_def by blast
    then show ?thesis by (rule index_file_not_metadata)
  qed (use assms(3) write_segment_file_names not_metadata_name in \<open>fastforce+\<close>)
qed

text \<open>The latest version bounds every version that is written in the canonical form.\<close>

lemma foldl_max:
  fixes xs :: "string list" and g :: "string \<Rightarrow> u32"
  shows "m \<le> foldl (\<lambda>m n. if g n > m then g n else m) m xs
    \<and> (\<forall>n \<in> set xs. g n \<le> foldl (\<lambda>m n. if g n > m then g n else m) m xs)"
proof (induction xs arbitrary: m)
  case (Cons x xs)
  show ?case using Cons.IH [of "if g x > m then g x else m"] by (auto intro: order_trans split: if_splits)
qed simp

lemma latest_bounds_names:
  assumes "file_name ''metadata'' a b v \<in> fst ` set d"
  shows "v \<le> find_latest_segment_version d a b"
proof -
  have "file_name ''metadata'' a b v \<in> set (names_with (metadata_prefix a b) d)"
    using assms by (simp add: names_with_def metadata_name_prefix starts_with_take)
  moreover have "atoi (drop (length (metadata_prefix a b)) (file_name ''metadata'' a b v)) = v"
    using atoi_dec [of "[]" "unat v"] by (simp add: metadata_name_prefix)
  ultimately show ?thesis
    unfolding find_latest_names max_over_names
    using foldl_max [of 0 "\<lambda>n. atoi (drop (length (metadata_prefix a b)) n)" "names_with (metadata_prefix a b) d",
        THEN conjunct2] by fastforce
qed

lemma metadata_prefix_match:
  assumes "starts_with (metadata_prefix a' b') (file_name ''metadata'' a b v)"
  shows "a' = a \<and> b' = b"
proof -
  obtain rest where "file_name ''metadata'' a b v = metadata_prefix a' b' @ rest"
    using assms by (rule starts_withE)
  then have "Some (a, b, v) = Some (a', b', atoi rest)"
    by (metis parse_metadata_name_print parse_metadata_prefix)
  then show ?thesis by simp
qed


lemma metadata_names_rename:
  assumes "map_of d tmp = Some bs" "\<not> starts_with ''metadata_'' tmp" "starts_with ''metadata_'' final"
    and "final \<notin> fst ` set d"
  shows "names_with ''metadata_'' (disk_apply d (Rename tmp final)) = names_with ''metadata_'' d @ [final]"
  using assms
  by (auto simp: names_with_def AList.update_keys delete_keys filter_delete_key conj_commute)

lemma find_latest_append:
  assumes "names_with ''metadata_'' d' = names_with ''metadata_'' d @ [n]"
  shows "find_latest_segment_version d' a b =
    (if starts_with (metadata_prefix a b) n
     then max (find_latest_segment_version d a b) (atoi (drop (length (metadata_prefix a b)) n))
     else find_latest_segment_version d a b)"
proof -
  have pre: "metadata_prefix a b = ''metadata_'' @ drop 9 (metadata_prefix a b)"
    by (simp add: metadata_prefix_def)
  have sub: "names_with (metadata_prefix a b) e = filter (starts_with (metadata_prefix a b)) (names_with ''metadata_'' e)" for e
  proof -
    have "starts_with ''metadata_'' x" if "starts_with (metadata_prefix a b) x" for x
      using that by (rule starts_withE) (simp add: starts_with_def metadata_prefix_def)
    then show ?thesis by (auto simp: names_with_def intro!: filter_cong)
  qed
  show ?thesis unfolding find_latest_names max_over_names sub assms by (auto simp: max_def)
qed

definition flush_run :: "directory \<Rightarrow> PrepareFlushMeta \<Rightarrow> u32 \<Rightarrow> bool" where
  "flush_run d prep v \<longleftrightarrow> index_writer_ok prep
     \<and> find_latest_segment_version d (pf_start_sid prep) (pf_end_sid prep) < UINT32_MAX
     \<and> v = find_latest_segment_version d (pf_start_sid prep) (pf_end_sid prep) + 1"

lemma flush_run_bump:
  "flush_run d prep v \<Longrightarrow> find_latest_segment_version d (pf_start_sid prep) (pf_end_sid prep) < v"
  by (auto simp: flush_run_def word_less_nat_alt unat_word_ariths unat_plus_simple)

lemma flush_run_steps:
  "flush_run d prep v \<Longrightarrow> flush_segment_to_disk d prep = flush_data_steps prep v
    @ [Rename (file_name ''metadata.tmp'' (pf_start_sid prep) (pf_end_sid prep) v)
              (file_name ''metadata'' (pf_start_sid prep) (pf_end_sid prep) v)]"
  by (rule flush_steps_split) (simp add: flush_run_def)

lemma flush_data_names:
  assumes "flush_run d prep v"
  shows "names_with ''metadata_'' (foldl disk_apply d (take k (flush_data_steps prep v))) = names_with ''metadata_'' d"
  using flush_data_quiet assms
  by (intro names_with_steps) (auto simp: flush_run_def dest: in_set_takeD)

lemma flush_prefix_names:
  assumes "flush_run d prep v" "k < length (flush_segment_to_disk d prep)"
  shows "names_with ''metadata_'' (foldl disk_apply d (take k (flush_segment_to_disk d prep))) = names_with ''metadata_'' d"
  using assms(2) flush_data_names [OF assms(1), of k] by (simp add: flush_run_steps [OF assms(1)])

lemma flush_all_names:
  assumes "flush_run d prep v"
  shows "names_with ''metadata_'' (foldl disk_apply d (flush_segment_to_disk d prep)) =
    names_with ''metadata_'' d @ [file_name ''metadata'' (pf_start_sid prep) (pf_end_sid prep) v]"
proof -
  let ?fin = "file_name ''metadata'' (pf_start_sid prep) (pf_end_sid prep) v"
  let ?tmp = "file_name ''metadata.tmp'' (pf_start_sid prep) (pf_end_sid prep) v"
  let ?d = "foldl disk_apply d (flush_data_steps prep v)"
  have names: "names_with ''metadata_'' ?d = names_with ''metadata_'' d"
    using flush_data_names [OF assms, of "length (flush_data_steps prep v)"] by simp
  have tmp: "map_of ?d ?tmp = Some (metadata_bytes prep)"
    by (simp add: flush_data_steps_def Let_def map_of_disk_apply del: disk_apply.simps)
  have start: "starts_with ''metadata_'' ?fin" by (simp add: starts_with_def file_name_def)
  have "?fin \<notin> fst ` set d"
    using latest_bounds_names [of "pf_start_sid prep" "pf_end_sid prep" v d] flush_run_bump [OF assms] by (meson leD)
  then have "?fin \<notin> set (names_with ''metadata_'' ?d)" unfolding names by (simp add: names_with_def)
  then have "?fin \<notin> fst ` set ?d" using start by (simp add: names_with_def)
  then show ?thesis
    unfolding flush_run_steps [OF assms] using metadata_names_rename [OF tmp _ start] names not_metadata_name
    by (simp del: disk_apply.simps)
qed

lemma flush_all_parsed:
  assumes "flush_run d prep v"
  shows "parsed_names (foldl disk_apply d (flush_segment_to_disk d prep)) =
    parsed_names d @ [(pf_start_sid prep, pf_end_sid prep, v)]"
  by (simp add: parsed_names_metadata flush_all_names [OF assms] List.map_filter_def parse_metadata_name_print)

lemma flush_all_latest:
  assumes "flush_run d prep v"
  shows "find_latest_segment_version (foldl disk_apply d (flush_segment_to_disk d prep)) a b =
    (if (a, b) = (pf_start_sid prep, pf_end_sid prep) then v else find_latest_segment_version d a b)"
  using find_latest_append [OF flush_all_names [OF assms], of a b] flush_run_bump [OF assms]
    metadata_prefix_match [of a b "pf_start_sid prep" "pf_end_sid prep" v] atoi_dec [of "[]" "unat v"]
  by (auto simp: metadata_name_prefix starts_with_take)

text \<open>C8: Flushing a segment is atomic for every reader of the directory: stopped after any proper prefix of its
  writes, the recovery scan and the latest version of every range are what they were before; when all
  writes are done, exactly one metadata name was added, the latest version of the flushed range is the
  old one plus 1, and the versions of all other ranges are unchanged.\<close>

lemma flush_is_atomic:
  assumes "index_writer_ok prep"
    and "find_latest_segment_version d (pf_start_sid prep) (pf_end_sid prep) < UINT32_MAX"
  defines "steps \<equiv> flush_segment_to_disk d prep"
    and "new_v \<equiv> find_latest_segment_version d (pf_start_sid prep) (pf_end_sid prep) + 1"
  shows "(\<forall>k < length steps.
            scan_segment_metadata_files (foldl disk_apply d (take k steps)) m = scan_segment_metadata_files d m
          \<and> find_latest_segment_version (foldl disk_apply d (take k steps)) a b = find_latest_segment_version d a b)
    \<and> parsed_names (foldl disk_apply d steps) =
        parsed_names d @ [(pf_start_sid prep, pf_end_sid prep, new_v)]
    \<and> find_latest_segment_version (foldl disk_apply d steps) a b =
        (if (a, b) = (pf_start_sid prep, pf_end_sid prep) then new_v else find_latest_segment_version d a b)"
proof -
  have run: "flush_run d prep new_v" using assms(1,2) by (simp add: flush_run_def new_v_def)
  show ?thesis
    unfolding steps_def using scans_same_names [OF flush_prefix_names [OF run]]
      flush_all_parsed [OF run] flush_all_latest [OF run] by blast
qed

definition example_prep :: PrepareFlushMeta where
  "example_prep = \<lparr>pf_start_sid = 0, pf_end_sid = 1, pf_valid_rows = 2, pf_index_type = 0, pf_map = [1, 2, 3],
     pf_bitmap = [5], pf_delete_count = 258, pf_offsets = Some [9, 9],
     pf_index_bin = Some (\<lambda>path. [Write path [7]])\<rparr>"

lemma example_writer: "index_writer_ok example_prep"
  by (simp add: index_writer_ok_def example_prep_def starts_with_def)

lemma example_latest: "find_latest_segment_version example_directory 0 1 = 3"
  by code_simp

lemma flush_is_atomic_witness:
  "find_latest_segment_version
     (foldl disk_apply example_directory (flush_segment_to_disk example_directory example_prep)) 0 1 = 4"
proof -
  have ends: "pf_start_sid example_prep = 0" "pf_end_sid example_prep = 1" by (simp_all add: example_prep_def)
  have "find_latest_segment_version example_directory (pf_start_sid example_prep) (pf_end_sid example_prep) < UINT32_MAX"
    by (simp add: ends example_latest)
  from flush_is_atomic [OF example_writer this, where a = 0 and b = 1, THEN conjunct2, THEN conjunct2]
  show ?thesis by (simp add: ends example_latest)
qed


section \<open>Written files are read back\<close>

lemma concat_segment_chunks:
  "concat (segment_file_chunks bs dc) = (case dc of None \<Rightarrow> [] | Some c \<Rightarrow> u32_bytes c) @ bs"
  by (simp add: segment_file_chunks_def concat_data_chunks split: option.splits)

text \<open>Reading stops at the first chunk that is missing; later ones do not matter.\<close>

lemma read_chunks_upto:
  assumes "\<And>j. j < length cs \<Longrightarrow> map_of d (chunk_name p j) = Some (cs ! j)" "map_of d (chunk_name p (length cs)) = None"
    and "i \<le> length cs" "length cs - i \<le> fuel"
  shows "read_chunks fuel d p i = drop i cs"
  using assms(3,4)
proof (induction fuel arbitrary: i)
  case (Suc fuel)
  show ?case
  proof (cases "i < length cs")
    case True
    with Suc have "read_chunks fuel d p (Suc i) = drop (Suc i) cs" by simp
    with True show ?thesis by (simp add: assms(1) Cons_nth_drop_Suc)
  next
    case False
    then have "i = length cs" using Suc.prems by simp
    then show ?thesis by (simp add: assms(2))
  qed
qed simp

lemma read_chunks_written:
  assumes "\<And>j. j < length cs \<Longrightarrow> map_of d (chunk_name p j) = Some (cs ! j)" "map_of d (chunk_name p (length cs)) = None"
  shows "read_chunks (length d) d p 0 = cs"
proof -
  have "length cs \<le> length d" by (rule chunks_fit [of _ d p]) (simp add: assms(1))
  then show ?thesis using read_chunks_upto [OF assms, of 0 "length d"] by simp
qed

lemma read_after_write:
  assumes "\<And>j. map_of d (chunk_name p j) =
      (if j < length (segment_file_chunks bs dc) then Some (segment_file_chunks bs dc ! j) else rest j)"
    and "rest (length (segment_file_chunks bs dc)) = None"
  shows "read_segment_file d p (dc \<noteq> None) = (bs, dc)"
proof -
  have "read_chunks (length d) d p 0 = segment_file_chunks bs dc" by (rule read_chunks_written) (simp_all add: assms)
  then show ?thesis
    using concat_segment_chunks [of bs dc]
    by (cases dc) (simp_all add: read_segment_file_def Let_def segment_file_chunks_def bytes_u32_bytes)
qed

lemma segment_names_kind:
  "take 3 (chunk_name (file_name (c # c' # c'' # ty) a b v) i) = [c, c', c'']"
  "take 3 (tmp_chunk_name (file_name (c # c' # c'' # ty) a b v) i) = [c, c', c'']"
  "take 3 (file_name (c # c' # c'' # ty) a b v) = [c, c', c'']"
  by (simp_all add: chunk_name_def tmp_chunk_name_def file_name_def)

lemma segment_write_kind:
  assumes "s \<in> set (write_segment_file (file_name (c # c' # c'' # ty) a b v) bs dc)" "n \<in> step_names s"
  shows "take 3 n = [c, c', c'']"
  using write_segment_file_names [OF assms] segment_names_kind by auto

lemma flush_other_kind:
  assumes "index_writer_ok prep" "n \<in> step_names s"
  shows "pf_index_bin prep = Some bin \<Longrightarrow> s \<in> set (bin (file_name ''index'' a b v)) \<Longrightarrow> take 3 n = ''ind''"
proof -
  assume bin: "pf_index_bin prep = Some bin" "s \<in> set (bin (file_name ''index'' a b v))"
  then have "starts_with (file_name ''index'' a b v) n"
    using assms unfolding index_writer_ok_def by blast
  then show "take 3 n = ''ind''" by (rule starts_withE) (simp add: file_name_def)
qed


lemma subversion_over_names:
  "find_latest_bitmap_subversion d a b v =
     (let pre = file_name ''bitmap'' a b v @ ''_s'' in
      foldl (\<lambda>m n. let s = atoi (drop (length pre) n) in if m = UINT32_MAX \<or> s > m then s else m)
        UINT32_MAX (names_with pre d))"
proof -
  have "foldl (\<lambda>m (name, _). if starts_with pre name
               then (let s = atoi (drop (length pre) name) in if m = UINT32_MAX \<or> s > m then s else m)
               else m) m d =
      foldl (\<lambda>m n. let s = atoi (drop (length pre) n) in if m = UINT32_MAX \<or> s > m then s else m) m (names_with pre d)"
    for pre m
    by (induction d arbitrary: m) (auto simp: names_with_def)
  then show ?thesis by (simp add: find_latest_bitmap_subversion_def Let_def)
qed

lemma not_subversion_name:
  "\<not> starts_with (path @ ''_s'') (chunk_name path i)" "\<not> starts_with (path @ ''_s'') (tmp_chunk_name path i)"
  by (simp_all add: starts_with_def chunk_name_def tmp_chunk_name_def)

lemma subversion_kind:
  assumes "starts_with (file_name ''bitmap'' a b v @ ''_s'') n"
  shows "take 3 n = ''bit''"
  using assms by (rule starts_withE) (simp add: file_name_def)

text \<open>The five groups of writes of a flush, and what each leaves alone.\<close>

definition index_steps :: "PrepareFlushMeta \<Rightarrow> u32 \<Rightarrow> disk_step list" where
  "index_steps prep v = (case pf_index_bin prep of None \<Rightarrow> []
     | Some bin \<Rightarrow> bin (file_name ''index'' (pf_start_sid prep) (pf_end_sid prep) v))"

definition offset_steps :: "PrepareFlushMeta \<Rightarrow> u32 \<Rightarrow> disk_step list" where
  "offset_steps prep v = (case pf_offsets prep of None \<Rightarrow> []
     | Some os \<Rightarrow> write_segment_file (file_name ''offset'' (pf_start_sid prep) (pf_end_sid prep) v) os None)"

lemma flush_groups:
  assumes "flush_run d prep v"
  shows "flush_segment_to_disk d prep = index_steps prep v
    @ write_segment_file (file_name ''bitmap'' (pf_start_sid prep) (pf_end_sid prep) v) (pf_bitmap prep) (Some (pf_delete_count prep))
    @ write_segment_file (file_name ''mapping'' (pf_start_sid prep) (pf_end_sid prep) v) (pf_map prep) None
    @ offset_steps prep v @ write_lsm_segment_metadata prep v"
  using assms by (simp add: flush_run_def flush_segment_to_disk_def Let_def index_steps_def offset_steps_def)

lemma group_kinds:
  assumes "index_writer_ok prep"
  shows "\<forall>s \<in> set (index_steps prep v). \<forall>n \<in> step_names s. take 3 n = ''ind''"
    "\<forall>s \<in> set (write_segment_file (file_name ''bitmap'' a b v) bs dc). \<forall>n \<in> step_names s. take 3 n = ''bit''"
    "\<forall>s \<in> set (write_segment_file (file_name ''mapping'' a b v) bs dc). \<forall>n \<in> step_names s. take 3 n = ''map''"
    "\<forall>s \<in> set (offset_steps prep v). \<forall>n \<in> step_names s. take 3 n = ''off''"
    "\<forall>s \<in> set (write_lsm_segment_metadata prep v). \<forall>n \<in> step_names s. take 3 n = ''met''"
  using flush_other_kind [OF assms] segment_write_kind segment_names_kind(3)
  by (cases "pf_index_bin prep"; cases "pf_offsets prep";
      auto simp: index_steps_def offset_steps_def write_lsm_segment_metadata_def)+

lemma map_of_other_kind:
  assumes "\<forall>s \<in> set ss. \<forall>n \<in> step_names s. take 3 n = k" "take 3 x \<noteq> k"
  shows "map_of (foldl disk_apply d ss) x = map_of d x"
  using assms by (intro map_of_steps) auto

text \<open>The number of chunk files that a flush writes for bitmap, mapping and offset table.\<close>

definition flush_chunks :: "PrepareFlushMeta \<Rightarrow> (string \<times> nat) list" where
  "flush_chunks prep =
     [(''bitmap'', length (segment_file_chunks (pf_bitmap prep) (Some (pf_delete_count prep)))),
      (''mapping'', length (segment_file_chunks (pf_map prep) None))]
     @ (case pf_offsets prep of None \<Rightarrow> [] | Some os \<Rightarrow> [(''offset'', length (segment_file_chunks os None))])"

text \<open>C29: (roundtrip) After a completed flush, loading the latest version of the range returns what was flushed:
  tombstone bitmap, delete count (also through the shortcut that reads only the count), tid mapping, offset
  table and segment metadata, whatever their sizes and numbers of chunks; and the index files are as the index
  library wrote them. Files that a crashed flush of the same version left behind are overwritten; the only
  condition on them is that none of the three files had a chunk more than the new one (the reader would go on
  with it), and that there is no later bitmap of the version that the flush creates.\<close>

lemma flush_then_load:
  assumes "index_writer_ok prep"
    and "find_latest_segment_version d (pf_start_sid prep) (pf_end_sid prep) < UINT32_MAX"
    and "\<forall>(ty, n) \<in> set (flush_chunks prep).
      map_of d (chunk_name (file_name ty (pf_start_sid prep) (pf_end_sid prep)
        (find_latest_segment_version d (pf_start_sid prep) (pf_end_sid prep) + 1)) n) = None"
    and "find_latest_bitmap_subversion d (pf_start_sid prep) (pf_end_sid prep)
      (find_latest_segment_version d (pf_start_sid prep) (pf_end_sid prep) + 1) = UINT32_MAX"
  defines "a \<equiv> pf_start_sid prep" and "b \<equiv> pf_end_sid prep"
    and "d' \<equiv> foldl disk_apply d (flush_segment_to_disk d prep)"
  shows "load_bitmap_file d' a b UINT32_MAX = (pf_bitmap prep, Some (pf_delete_count prep))
    \<and> read_bitmap_delete_count d' a b UINT32_MAX = Some (pf_delete_count prep)
    \<and> load_mapping_file d' a b UINT32_MAX = pf_map prep
    \<and> (\<forall>os. pf_offsets prep = Some os \<longrightarrow> a \<le> b \<longrightarrow> load_offset_file d' a b UINT32_MAX = Some os)
    \<and> read_lsm_segment_metadata d' a b UINT32_MAX = Some (a, b, pf_valid_rows prep, pf_index_type prep)
    \<and> (\<forall>bin n. pf_index_bin prep = Some bin \<longrightarrow> take 3 n = ''ind'' \<longrightarrow>
         map_of d' n = map_of (foldl disk_apply d (bin (file_name ''index'' a b (find_latest_segment_version d a b + 1)))) n)"
proof -
  define v where "v = find_latest_segment_version d a b + 1"
  have run: "flush_run d prep v" using assms(1,2) by (simp add: flush_run_def v_def a_def b_def)
  note kinds = group_kinds [OF assms(1), of v] and kinds' = group_kinds(2,3) [OF assms(1), where v = v and a = a and b = b]
  define d1 where "d1 = foldl disk_apply d (index_steps prep v)"
  define d2 where "d2 = foldl disk_apply d1 (write_segment_file (file_name ''bitmap'' a b v) (pf_bitmap prep) (Some (pf_delete_count prep)))"
  define d3 where "d3 = foldl disk_apply d2 (write_segment_file (file_name ''mapping'' a b v) (pf_map prep) None)"
  define d4 where "d4 = foldl disk_apply d3 (offset_steps prep v)"
  have d': "d' = foldl disk_apply d4 (write_lsm_segment_metadata prep v)"
    by (simp add: d'_def flush_groups [OF run] d4_def d3_def d2_def d1_def a_def b_def)
  have late: "map_of d' x = map_of d4 x" if "take 3 x \<noteq> ''met''" for x
    unfolding d' using kinds(5) that by (rule map_of_other_kind)
  have off: "map_of d4 x = map_of d3 x" if "take 3 x \<noteq> ''off''" for x
    unfolding d4_def using kinds(4) that by (rule map_of_other_kind)
  have mp: "map_of d3 x = map_of d2 x" if "take 3 x \<noteq> ''map''" for x
    unfolding d3_def using kinds'(2) that by (rule map_of_other_kind)
  have bit: "map_of d2 x = map_of d1 x" if "take 3 x \<noteq> ''bit''" for x
    unfolding d2_def using kinds'(1) that by (rule map_of_other_kind)
  have ind: "map_of d1 x = map_of d x" if "take 3 x \<noteq> ''ind''" for x
    unfolding d1_def using kinds(1) that by (rule map_of_other_kind)
  note kind = segment_names_kind(1)
  let ?bm = "segment_file_chunks (pf_bitmap prep) (Some (pf_delete_count prep))" and ?mp = "segment_file_chunks (pf_map prep) None"
  have stale: "map_of d (chunk_name (file_name ''bitmap'' a b v) (length ?bm)) = None"
    "map_of d (chunk_name (file_name ''mapping'' a b v) (length ?mp)) = None"
    "pf_offsets prep = Some os \<Longrightarrow> map_of d (chunk_name (file_name ''offset'' a b v) (length (segment_file_chunks os None))) = None" for os
    using assms(3) by (auto simp: flush_chunks_def v_def a_def b_def)
  have bitmap: "map_of d' (chunk_name (file_name ''bitmap'' a b v) j) =
      (if j < length ?bm then Some (?bm ! j) else map_of d (chunk_name (file_name ''bitmap'' a b v) j))" for j
    using write_segment_file_chunks [OF refl, of d1 "file_name ''bitmap'' a b v" "pf_bitmap prep" "Some (pf_delete_count prep)" j]
    by (simp add: late off mp ind kind d2_def [symmetric])
  have mapping: "map_of d' (chunk_name (file_name ''mapping'' a b v) j) =
      (if j < length ?mp then Some (?mp ! j) else map_of d (chunk_name (file_name ''mapping'' a b v) j))" for j
    using write_segment_file_chunks [OF refl, of d2 "file_name ''mapping'' a b v" "pf_map prep" None j]
    by (simp add: late off bit ind kind d3_def [symmetric])
  have offs: "map_of d' (chunk_name (file_name ''offset'' a b v) j) =
      (if j < length (segment_file_chunks os None) then Some (segment_file_chunks os None ! j)
       else map_of d (chunk_name (file_name ''offset'' a b v) j))"
    if "pf_offsets prep = Some os" for j os
    using write_segment_file_chunks [OF refl, of d3 "file_name ''offset'' a b v" os None j] that
    by (simp add: late mp bit ind kind d4_def offset_steps_def a_def [symmetric] b_def [symmetric])
  have meta: "map_of d' (file_name ''metadata'' a b v) = Some (metadata_bytes prep)"
    by (simp add: d' write_lsm_segment_metadata_def map_of_disk_apply a_def b_def del: disk_apply.simps)
  have latest: "resolve_version d' a b UINT32_MAX = v"
    unfolding d'_def resolve_version_def flush_all_latest [OF run] by (simp add: a_def b_def)
  have quiet: "\<forall>s \<in> set (flush_segment_to_disk d prep). \<forall>n \<in> step_names s. \<not> starts_with (file_name ''bitmap'' a b v @ ''_s'') n"
  proof (intro ballI notI)
    fix s n assume s: "s \<in> set (flush_segment_to_disk d prep)" "n \<in> step_names s"
      and n: "starts_with (file_name ''bitmap'' a b v @ ''_s'') n"
    from n have "take 3 n = ''bit''" by (rule subversion_kind)
    then have "s \<in> set (write_segment_file (file_name ''bitmap'' a b v) (pf_bitmap prep) (Some (pf_delete_count prep)))"
      using s kinds kinds' unfolding flush_groups [OF run] a_def b_def by force
    with s(2) n show False using write_segment_file_names not_subversion_name by metis
  qed
  have sub: "find_latest_bitmap_subversion d' a b v = UINT32_MAX"
    using assms(4) names_with_steps [OF quiet, of d]
    by (simp add: subversion_over_names Let_def d'_def v_def a_def b_def)
  have "read_segment_file d' (file_name ''bitmap'' a b v) True = (pf_bitmap prep, Some (pf_delete_count prep))"
    using read_after_write [OF bitmap stale(1)] by simp
  then have 1: "load_bitmap_file d' a b UINT32_MAX = (pf_bitmap prep, Some (pf_delete_count prep))"
    by (simp add: load_bitmap_file_def latest sub bitmap_name_def)
  have 2: "read_bitmap_delete_count d' a b UINT32_MAX = Some (pf_delete_count prep)"
    by (simp add: read_bitmap_delete_count_def latest sub bitmap_name_def bitmap segment_file_chunks_def bytes_u32_bytes)
  have 3: "load_mapping_file d' a b UINT32_MAX = pf_map prep"
    using read_after_write [OF mapping stale(2)] by (simp add: load_mapping_file_def latest)
  have 4: "load_offset_file d' a b UINT32_MAX = Some os" if "pf_offsets prep = Some os" "a \<le> b" for os
    using read_after_write [OF offs [OF that(1)] stale(3) [OF that(1)]] that(2)
    by (simp add: load_offset_file_def latest not_less)
  have 5: "read_lsm_segment_metadata d' a b UINT32_MAX = Some (a, b, pf_valid_rows prep, pf_index_type prep)"
  proof -
    have "metadata_bytes prep = u32_bytes a @ u32_bytes b @ u32_bytes (pf_valid_rows prep) @ u32_bytes (pf_index_type prep)"
      by (simp add: metadata_bytes_def a_def b_def)
    then have "read_u32s 4 (metadata_bytes prep) = Some [a, b, pf_valid_rows prep, pf_index_type prep]"
      by (simp add: numeral_eq_Suc bytes_u32_bytes)
    then show ?thesis by (simp add: read_lsm_segment_metadata_def latest meta)
  qed
  have 6: "map_of d' n = map_of (foldl disk_apply d (bin (file_name ''index'' a b (find_latest_segment_version d a b + 1)))) n"
    if "pf_index_bin prep = Some bin" "take 3 n = ''ind''" for bin n
  proof -
    have "map_of d' n = map_of d1 n" by (simp add: late off mp bit that(2))
    then show ?thesis by (simp add: d1_def index_steps_def that(1) v_def a_def b_def)
  qed
  show ?thesis using 1 2 3 4 5 6 by blast
qed


lemma flush_then_load_witness:
  "load_bitmap_file (foldl disk_apply example_directory (flush_segment_to_disk example_directory example_prep))
     0 1 UINT32_MAX = ([5], Some 258)"
proof -
  have ends: "pf_start_sid example_prep = 0" "pf_end_sid example_prep = 1" by (simp_all add: example_prep_def)
  have "find_latest_segment_version example_directory (pf_start_sid example_prep) (pf_end_sid example_prep) < UINT32_MAX"
    by (simp add: ends example_latest)
  moreover have "\<forall>(ty, n) \<in> set (flush_chunks example_prep).
      map_of example_directory (chunk_name (file_name ty (pf_start_sid example_prep) (pf_end_sid example_prep)
        (find_latest_segment_version example_directory (pf_start_sid example_prep) (pf_end_sid example_prep) + 1)) n) = None"
  proof -
    have "dec 0 = ''0''" "dec 1 = ''1''" "dec 4 = ''4''" by code_simp+
    then show ?thesis
      unfolding ends example_latest by (auto simp: flush_chunks_def example_directory_def chunk_name_def file_name_def split: option.splits)
  qed
  moreover have "find_latest_bitmap_subversion example_directory (pf_start_sid example_prep) (pf_end_sid example_prep)
      (find_latest_segment_version example_directory (pf_start_sid example_prep) (pf_end_sid example_prep) + 1) = UINT32_MAX"
    unfolding ends example_latest by code_simp
  ultimately show ?thesis
    using flush_then_load [OF example_writer, of example_directory, THEN conjunct1]
    by (simp add: ends) (simp add: example_prep_def)
qed

section \<open>An interrupted vacuum\<close>

text \<open>Bitmap subversions are not written atomically: \<^verbatim>\<open>find_latest_bitmap_subversion\<close> matches the temporary
  name \<^verbatim>\<open>..._s<n>.tmp.0\<close> as well. If vacuum stops after its first write, every later load of the bitmap
  resolves to the subversion whose file does not exist yet: it gets no bitmap and no delete count
  although the previous bitmap is still on disk.\<close>

lemma interrupted_subversion_hides_bitmap:
  fixes bs :: "u8 list" and dc :: u32
  assumes "sub \<noteq> UINT32_MAX"
    and "find_latest_bitmap_subversion d a b v = UINT32_MAX \<or> find_latest_bitmap_subversion d a b v < sub"
    and "map_of d (chunk_name (bitmap_name a b v sub) 0) = None"
    and "map_of d (tmp_chunk_name (bitmap_name a b v sub) 0) = None" "v \<noteq> UINT32_MAX"
  defines "d' \<equiv> foldl disk_apply d (take 1 (write_bitmap_file_with_subversion a b v sub bs dc))"
  shows "find_latest_bitmap_subversion d' a b v = sub
    \<and> load_bitmap_file d' a b v = ([], None) \<and> read_bitmap_delete_count d' a b v = None"
proof -
  let ?pre = "file_name ''bitmap'' a b v @ ''_s''"
  let ?n = "tmp_chunk_name (bitmap_name a b v sub) 0"
  have n: "?n = ?pre @ dec (unat sub) @ ''.tmp.'' @ dec 0"
    using assms(1) by (simp add: bitmap_name_def tmp_chunk_name_def)
  obtain c rest where "segment_file_chunks bs (Some dc) = c # rest"
    by (simp add: segment_file_chunks_def)
  then have "write_bitmap_file_with_subversion a b v sub bs dc = Write ?n c #
      tl (write_bitmap_file_with_subversion a b v sub bs dc)"
    by (simp add: write_bitmap_file_with_subversion_def write_segment_file_def Let_def upt_conv_Cons del: upt_Suc)
  then have "take 1 (write_bitmap_file_with_subversion a b v sub bs dc) = [Write ?n c]"
    by (metis One_nat_def take_Suc_Cons take0)
  then have d': "d' = disk_apply d (Write ?n c)"
    by (simp add: d'_def del: disk_apply.simps)
  have atoi: "atoi (drop (length ?pre) ?n) = sub"
    unfolding n using atoi_dec [of "''.tmp.'' @ dec 0" "unat sub"] by (simp add: not_digits)
  have pre: "starts_with ?pre ?n" unfolding n by (rule starts_with_take)
  have "?n \<notin> fst ` set d" using assms(4) by (simp add: map_of_eq_None_iff)
  then have "names_with ?pre d' = names_with ?pre d @ [?n]"
    using pre by (simp add: d' names_with_def AList.update_keys)
  then have "find_latest_bitmap_subversion d' a b v =
      (if find_latest_bitmap_subversion d a b v = UINT32_MAX \<or> sub > find_latest_bitmap_subversion d a b v
       then sub else find_latest_bitmap_subversion d a b v)"
    using atoi by (simp add: subversion_over_names Let_def)
  with assms(2) have sub: "find_latest_bitmap_subversion d' a b v = sub" by auto
  have gone: "map_of d' (chunk_name (bitmap_name a b v sub) 0) = None"
    using assms(3) chunk_tmp_distinct by (simp add: d' map_of_disk_apply del: disk_apply.simps)
  then have "read_chunks fuel d' (bitmap_name a b v sub) 0 = []" for fuel by (cases fuel) simp_all
  with gone sub assms(5) show ?thesis
    by (simp add: load_bitmap_file_def read_bitmap_delete_count_def resolve_version_def read_segment_file_def)
qed

lemma interrupted_subversion_hides_bitmap_witness:
  "load_bitmap_file [(''bitmap_0_1_v3.0'', [0, 0, 0, 0, 5])] 0 1 3 = ([5], Some 0)
   \<and> load_bitmap_file (foldl disk_apply [(''bitmap_0_1_v3.0'', [0, 0, 0, 0, 5])]
       (take 1 (write_bitmap_file_with_subversion 0 1 3 0 [7] 1))) 0 1 3 = ([], None)"
proof -
  let ?d = "[(''bitmap_0_1_v3.0'', [0, 0, 0, 0, 5])] :: directory"
  have "find_latest_bitmap_subversion ?d 0 1 3 = UINT32_MAX" by code_simp
  moreover have "map_of ?d (chunk_name (bitmap_name 0 1 3 0) 0) = None" by code_simp
  moreover have "map_of ?d (tmp_chunk_name (bitmap_name 0 1 3 0) 0) = None" by code_simp
  moreover have "load_bitmap_file ?d 0 1 3 = ([5], Some 0)" by code_simp
  ultimately show ?thesis
    using interrupted_subversion_hides_bitmap [of 0 ?d 0 1 3 "[7]" 1] by simp
qed


section \<open>The metadata of the index\<close>

lemma read_index_metadata:
  "map_of d ''metadata'' = Some (u32_bytes ty @ u32_bytes dim @ u32_bytes es @ rest) \<Longrightarrow>
    read_lsm_index_metadata d =
      (case read_u32s 2 rest of
         Some [m, ef] \<Rightarrow> Some \<lparr>im_index_type = ty, im_dim = dim, im_elem_size = es,
                              im_hnsw_m = m, im_hnsw_ef_construction = ef\<rparr>
       | _ \<Rightarrow> Some \<lparr>im_index_type = ty, im_dim = dim, im_elem_size = es,
                   im_hnsw_m = 32, im_hnsw_ef_construction = 200\<rparr>)"
  by (simp add: read_lsm_index_metadata_def numeral_eq_Suc bytes_u32_bytes)

text \<open>The metadata of an index is written atomically and read back exactly: after both writes reading returns
  what was written, after the first alone it returns what it returned before; and a file of the
  format before the HNSW options is read with the options 32 and 200.\<close>

lemma index_metadata_roundtrip:
  "read_lsm_index_metadata (foldl disk_apply d (write_lsm_index_metadata im)) = Some im
   \<and> read_lsm_index_metadata (foldl disk_apply d (take 1 (write_lsm_index_metadata im))) = read_lsm_index_metadata d
   \<and> read_lsm_index_metadata (disk_apply d (Write ''metadata'' (u32_bytes ty @ u32_bytes dim @ u32_bytes es))) =
       Some \<lparr>im_index_type = ty, im_dim = dim, im_elem_size = es, im_hnsw_m = 32, im_hnsw_ef_construction = 200\<rparr>"
proof -
  have "map_of (foldl disk_apply d (write_lsm_index_metadata im)) ''metadata'' =
      Some (u32_bytes (im_index_type im) @ u32_bytes (im_dim im) @ u32_bytes (im_elem_size im)
        @ u32_bytes (im_hnsw_m im) @ u32_bytes (im_hnsw_ef_construction im))"
    by (simp add: write_lsm_index_metadata_def map_of_disk_apply del: disk_apply.simps)
  from read_index_metadata [OF this]
  have "read_lsm_index_metadata (foldl disk_apply d (write_lsm_index_metadata im)) = Some im"
    by (simp add: numeral_eq_Suc bytes_u32_bytes)
  moreover have "map_of (foldl disk_apply d (take 1 (write_lsm_index_metadata im))) ''metadata'' = map_of d ''metadata''"
    by (simp add: write_lsm_index_metadata_def map_of_disk_apply del: disk_apply.simps)
  then have "read_lsm_index_metadata (foldl disk_apply d (take 1 (write_lsm_index_metadata im))) = read_lsm_index_metadata d"
    unfolding read_lsm_index_metadata_def by simp
  moreover have "map_of (disk_apply d (Write ''metadata'' (u32_bytes ty @ u32_bytes dim @ u32_bytes es))) ''metadata'' =
      Some (u32_bytes ty @ u32_bytes dim @ u32_bytes es @ [])"
    by (simp add: map_of_disk_apply del: disk_apply.simps)
  from read_index_metadata [OF this]
  have "read_lsm_index_metadata (disk_apply d (Write ''metadata'' (u32_bytes ty @ u32_bytes dim @ u32_bytes es))) =
      Some \<lparr>im_index_type = ty, im_dim = dim, im_elem_size = es, im_hnsw_m = 32, im_hnsw_ef_construction = 200\<rparr>"
    by (simp add: numeral_eq_Suc)
  ultimately show ?thesis by blast
qed

end
