(* ===== verification/TombstoneWalks.thy ===== *)
theory TombstoneWalks
  imports Prelude "HOL-Library.Sublist"
begin

text \<open>
  The two-pointer walks by which deletions are carried from one copy of a row set to another: from a
  WAL record to a memtable or a segment file (\<^verbatim>\<open>segment_vacuum_redo.c\<close>), and from a predecessor
  segment or memtable to an adopted segment (\<^verbatim>\<open>segment_adoption.c\<close>). A C loop over the indexes
  \<open>lo .. hi - 1\<close> walks the list \<open>[lo..<hi]\<close>. All of them rely on the order of rows being kept by
  compaction and merging; the lemmas say what they mark when it is, and what happens when it is not.
\<close>

section \<open>The loops\<close>

text \<open>Against a list of deleted tids: advance the tid cursor on a match only.\<close>

fun mark_matches :: "i64 list \<Rightarrow> nat list \<Rightarrow> i64 list \<Rightarrow> bitmap \<times> u32 \<Rightarrow> bitmap \<times> u32" where
  "mark_matches tids [] ws acc = acc"
| "mark_matches tids (m # ms) [] acc = acc"
| "mark_matches tids (m # ms) (w # ws) acc =
     (if tids ! m = w then mark_matches tids ms ws (SET_AND_COUNT acc m)
      else mark_matches tids ms (w # ws) acc)"

text \<open>The same without a counter, as it is run on memtables.\<close>

fun mark_memtable_matches :: "i64 list \<Rightarrow> nat list \<Rightarrow> i64 list \<Rightarrow> bitmap \<Rightarrow> bitmap" where
  "mark_memtable_matches tids [] ws bm = bm"
| "mark_memtable_matches tids (j # js) [] bm = bm"
| "mark_memtable_matches tids (j # js) (w # ws) bm =
     (if tids ! j = w then mark_memtable_matches tids js ws (SET_SLOT bm j)
      else mark_memtable_matches tids js (w # ws) bm)"

text \<open>Against another segment's rows: on a mismatch only the old cursor advances.\<close>

fun union_walk ::
  "i64 list \<Rightarrow> bitmap \<Rightarrow> i64 list \<Rightarrow> nat list \<Rightarrow> nat list \<Rightarrow> bitmap \<times> u32 \<Rightarrow> bitmap \<times> u32" where
  "union_walk old_map old_bm new_map [] js acc = acc"
| "union_walk old_map old_bm new_map (i # is) [] acc = acc"
| "union_walk old_map old_bm new_map (i # is) (j # js) acc =
     (if old_map ! i = new_map ! j
      then union_walk old_map old_bm new_map is js (if IS_SLOT_SET old_bm i then SET_AND_COUNT acc j else acc)
      else union_walk old_map old_bm new_map is (j # js) acc)"

text \<open>Marking positions directly, with the bounds check of the fast path.\<close>

fun mark_local :: "nat \<Rightarrow> nat \<Rightarrow> nat list \<Rightarrow> bitmap \<times> u32 \<Rightarrow> bitmap \<times> u32" where
  "mark_local lo hi [] acc = acc"
| "mark_local lo hi (i # is) acc =
     mark_local lo hi is (if lo + i < hi then SET_AND_COUNT acc (lo + i) else acc)"

section \<open>What they mark\<close>

text \<open>The positions that are matched, in order.\<close>

fun matches :: "i64 list \<Rightarrow> nat list \<Rightarrow> i64 list \<Rightarrow> nat list" where
  "matches tids (m # ms) (w # ws) =
     (if tids ! m = w then m # matches tids ms ws else matches tids ms (w # ws))"
| "matches tids ms ws = []"

lemma mark_matches_fold: "mark_matches tids ms ws acc = foldl SET_AND_COUNT acc (matches tids ms ws)"
  by (induction tids ms ws acc rule: mark_matches.induct) auto

lemma mark_memtable_matches_fold: "mark_memtable_matches tids js ws bm = foldl SET_SLOT bm (matches tids js ws)"
  by (induction tids js ws bm rule: mark_memtable_matches.induct) auto

lemma mark_local_fold:
  "mark_local lo hi is acc = foldl SET_AND_COUNT acc (filter (\<lambda>m. m < hi) (map (\<lambda>i. lo + i) is))"
  by (induction lo hi "is" acc rule: mark_local.induct) auto

lemma set_matches: "set (matches tids ms ws) \<subseteq> set ms"
  by (induction tids ms ws rule: matches.induct) auto

lemma subseq_set: "subseq xs ys \<Longrightarrow> x \<in> set xs \<Longrightarrow> x \<in> set ys"
  by (induction xs ys rule: list_emb.induct) auto

lemma matches_filter:
  assumes "subseq ws (map ((!) tids) ms)" "distinct (map ((!) tids) ms)"
  shows "matches tids ms ws = filter (\<lambda>m. tids ! m \<in> set ws) ms"
  using assms
proof (induction tids ms ws rule: matches.induct)
  case (1 tids m ms w ws)
  show ?case
  proof (cases "tids ! m = w")
    case True
    with 1 have "matches tids ms ws = filter (\<lambda>m. tids ! m \<in> set ws) ms" by auto
    moreover have "\<forall>k \<in> set ms. tids ! k \<noteq> w" using True 1(4) by (force simp: image_iff)
    ultimately show ?thesis using True by (auto intro!: filter_cong)
  next
    case False
    with 1(3) have sub: "subseq (w # ws) (map ((!) tids) ms)" by auto
    with False 1 have "matches tids ms (w # ws) = filter (\<lambda>m. tids ! m \<in> set (w # ws)) ms" by auto
    moreover have "tids ! m \<notin> set (w # ws)"
      using subseq_set [OF sub, of "tids ! m"] 1(4) by auto
    ultimately show ?thesis using False by simp
  qed
qed auto

text \<open>A tid that is not there stops the walk for good.\<close>

lemma matches_blocked: "w \<notin> set (map ((!) tids) ms) \<Longrightarrow> matches tids ms (w # ws) = []"
  by (induction ms) auto

lemma foldl_SET_SLOT:
  assumes "\<forall>i \<in> set is. in_bitmap b i"
  shows "IS_SLOT_SET (foldl SET_SLOT b is) j \<longleftrightarrow> j \<in> set is \<or> IS_SLOT_SET b j"
  using assms by (induction "is" arbitrary: b) (auto simp: IS_SLOT_SET_SET_SLOT)

lemma length_foldl_SET_SLOT [simp]: "length (foldl SET_SLOT b is) = length b"
  by (induction "is" arbitrary: b) auto

text \<open>The rows of the new segment whose old copy is deleted.\<close>

fun carried :: "i64 list \<Rightarrow> bitmap \<Rightarrow> i64 list \<Rightarrow> nat list \<Rightarrow> nat list \<Rightarrow> nat list" where
  "carried old_map old_bm new_map (i # is) (j # js) =
     (if old_map ! i = new_map ! j
      then (if IS_SLOT_SET old_bm i then [j] else []) @ carried old_map old_bm new_map is js
      else carried old_map old_bm new_map is (j # js))"
| "carried old_map old_bm new_map is js = []"

lemma union_walk_fold:
  "union_walk old_map old_bm new_map is js acc = foldl SET_AND_COUNT acc (carried old_map old_bm new_map is js)"
  by (induction old_map old_bm new_map "is" js acc rule: union_walk.induct) auto

lemma carried_filter:
  assumes "subseq (map ((!) new_map) js) (map ((!) old_map) is)" "distinct (map ((!) old_map) is)"
  shows "carried old_map old_bm new_map is js =
    filter (\<lambda>j. \<exists>i \<in> set is. old_map ! i = new_map ! j \<and> IS_SLOT_SET old_bm i) js"
  using assms
proof (induction old_map old_bm new_map "is" js rule: carried.induct)
  case (1 old_map old_bm new_map i "is" j js)
  show ?case
  proof (cases "old_map ! i = new_map ! j")
    case True
    with 1(3) have sub: "subseq (map ((!) new_map) js) (map ((!) old_map) is)" by auto
    with True 1 have IH: "carried old_map old_bm new_map is js =
        filter (\<lambda>j. \<exists>i \<in> set is. old_map ! i = new_map ! j \<and> IS_SLOT_SET old_bm i) js" by auto
    have other: "\<forall>k \<in> set js. old_map ! i \<noteq> new_map ! k"
    proof
      fix k assume "k \<in> set js"
      then have "new_map ! k \<in> set (map ((!) old_map) is)"
        using subseq_set [OF sub, of "new_map ! k"] by simp
      with 1(4) show "old_map ! i \<noteq> new_map ! k" by auto
    qed
    have fresh: "\<forall>i' \<in> set is. old_map ! i' \<noteq> new_map ! j" using True 1(4) by (force simp: image_iff)
    have "carried old_map old_bm new_map (i # is) (j # js) =
        (if IS_SLOT_SET old_bm i then [j] else [])
        @ filter (\<lambda>j. \<exists>i \<in> set is. old_map ! i = new_map ! j \<and> IS_SLOT_SET old_bm i) js"
      using True IH by simp
    also have "\<dots> = filter (\<lambda>j. \<exists>i \<in> set (i # is). old_map ! i = new_map ! j \<and> IS_SLOT_SET old_bm i) (j # js)"
      using other fresh True by (auto intro!: filter_cong)
    finally show ?thesis .
  next
    case False
    with 1(3) have sub: "subseq (map ((!) new_map) (j # js)) (map ((!) old_map) is)" by auto
    with False 1 have IH: "carried old_map old_bm new_map is (j # js) =
        filter (\<lambda>j. \<exists>i \<in> set is. old_map ! i = new_map ! j \<and> IS_SLOT_SET old_bm i) (j # js)" by auto
    have other: "\<forall>k \<in> set (j # js). old_map ! i \<noteq> new_map ! k"
    proof
      fix k assume "k \<in> set (j # js)"
      then have "new_map ! k \<in> set (map ((!) new_map) (j # js))" by auto
      then have "new_map ! k \<in> set (map ((!) old_map) is)" by (rule subseq_set [OF sub])
      with 1(4) show "old_map ! i \<noteq> new_map ! k" by auto
    qed
    have "filter (\<lambda>j. \<exists>i \<in> set is. old_map ! i = new_map ! j \<and> IS_SLOT_SET old_bm i) (j # js) =
        filter (\<lambda>j. \<exists>i \<in> set (i # is). old_map ! i = new_map ! j \<and> IS_SLOT_SET old_bm i) (j # js)"
      by (rule filter_cong) (use other in auto)
    with False IH show ?thesis by simp
  qed
qed auto

lemmas walk_folds = mark_matches_fold mark_memtable_matches_fold union_walk_fold mark_local_fold

end
