(* ===== verification/SharedState.thy ===== *)
theory SharedState
  imports SegmentPool Memtable
begin

text \<open>
  The shared-memory structures of \<^verbatim>\<open>lsmindex.h\<close>: the slots of the index buffer with their life
  cycle states, one index's registry of memtables, and the memtable buffer with its reference
  counts. A lock is the atomicity of the operations that run under it.
\<close>

definition MEMTABLE_BUF_SIZE :: nat where "MEMTABLE_BUF_SIZE = 8"
definition MEMTABLE_NUM :: nat where "MEMTABLE_NUM = 4"
definition START_SEGMENT_ID :: SegmentId where "START_SEGMENT_ID = 3"

definition MT_IDX_INVALID :: int where "MT_IDX_INVALID = -1"
definition MT_IDX_ROTATING :: int where "MT_IDX_ROTATING = -2"

datatype LSMSlotState =
  LSM_SLOT_FREE | LSM_SLOT_RECOVERING | LSM_SLOT_WRITABLE | LSM_SLOT_LOADING_INDEX | LSM_SLOT_QUERYABLE

definition is_writable :: "LSMSlotState \<Rightarrow> bool" where
  "is_writable v \<longleftrightarrow> v = LSM_SLOT_WRITABLE \<or> v = LSM_SLOT_LOADING_INDEX \<or> v = LSM_SLOT_QUERYABLE"

definition is_queryable :: "LSMSlotState \<Rightarrow> bool" where
  "is_queryable v \<longleftrightarrow> v = LSM_SLOT_QUERYABLE"

record LSMIndexData =
  indexRelId :: oid
  lx_index_type :: IndexType
  lx_dim :: nat
  lx_elem_size :: nat
  hnsw_m :: u32
  hnsw_ef_construction :: u32
  next_segment_id :: SegmentId
  growing_memtable_idx :: int
  growing_memtable_id :: SegmentId
  memtable_idxs :: "int list"
  memtable_count :: nat
  flushed_not_released :: "SegmentId list"
  flushed_not_released_count :: nat
  releasing_in_progress :: bool

record LSMIndexBufferSlot =
  valid :: LSMSlotState
  state_error :: bool
  request_db_oid :: oid
  request_db_userid :: oid
  lsmIndex :: LSMIndexData

record MemtableBufferSlot =
  mb_ref_count :: int
  mb_mt :: MemTable

text \<open>\<^verbatim>\<open>MT_FROM_SLOTIDX\<close> and in-place update of a buffer slot.\<close>

definition MT_FROM_SLOTIDX :: "MemtableBufferSlot list \<Rightarrow> int \<Rightarrow> MemTable" where
  "MT_FROM_SLOTIDX buf i = mb_mt (buf ! nat i)"

definition upd_mt :: "int \<Rightarrow> (MemTable \<Rightarrow> MemTable) \<Rightarrow> MemtableBufferSlot list \<Rightarrow> MemtableBufferSlot list" where
  "upd_mt i f buf = buf[nat i := (buf ! nat i)\<lparr>mb_mt := f (MT_FROM_SLOTIDX buf i)\<rparr>]"

end
