(* ===== verification/BitmapVersions.thy ===== *)
theory BitmapVersions
  imports SegmentFiles
begin

text \<open>
  Writing the next subversion of a tombstone bitmap, as vacuum, vacuum redo and recovery all do:
  \<^verbatim>\<open>find_latest_bitmap_subversion\<close>, plus one, \<^verbatim>\<open>write_bitmap_file_with_subversion\<close>. The lemmas say
  that the new bitmap is what the next load returns and that nothing else of the segment changes.
\<close>

definition next_subversion :: "directory \<Rightarrow> SegmentId \<Rightarrow> SegmentId \<Rightarrow> u32 \<Rightarrow> u32" where
  "next_subversion d a b v =
     (let latest_sub = find_latest_bitmap_subversion d a b v in if latest_sub = UINT32_MAX then 0 else latest_sub + 1)"

definition write_next_bitmap :: "directory \<Rightarrow> SegmentId \<Rightarrow> SegmentId \<Rightarrow> u32 \<Rightarrow> u8 list \<Rightarrow> u32 \<Rightarrow> directory" where
  "write_next_bitmap d a b v bs dc =
     foldl disk_apply d (write_bitmap_file_with_subversion a b v (next_subversion d a b v) bs dc)"

section \<open>The subversions on disk\<close>

definition sub_prefix :: "SegmentId \<Rightarrow> SegmentId \<Rightarrow> u32 \<Rightarrow> string" where
  "sub_prefix a b v = file_name ''bitmap'' a b v @ ''_s''"

definition sub_value :: "SegmentId \<Rightarrow> SegmentId \<Rightarrow> u32 \<Rightarrow> string \<Rightarrow> u32" where
  "sub_value a b v n = atoi (drop (length (sub_prefix a b v)) n)"

definition subversions :: "directory \<Rightarrow> SegmentId \<Rightarrow> SegmentId \<Rightarrow> u32 \<Rightarrow> u32 set" where
  "subversions d a b v = sub_value a b v ` set (names_with (sub_prefix a b v) d)"

text \<open>The counter has not come near its sentinel.\<close>

definition subversions_ok :: "directory \<Rightarrow> SegmentId \<Rightarrow> SegmentId \<Rightarrow> u32 \<Rightarrow> bool" where
  "subversions_ok d a b v \<longleftrightarrow> (\<forall>n \<in> set (names_with (sub_prefix a b v) d). sub_value a b v n < UINT32_MAX - 1)"

lemma foldl_latest:
  fixes xs :: "u32 list"
  assumes "UINT32_MAX \<notin> set xs" "m \<noteq> UINT32_MAX"
  shows "foldl (\<lambda>m s. if m = UINT32_MAX \<or> s > m then s else m) m xs = Max (insert m (set xs))"
  using assms
proof (induction xs arbitrary: m)
  case (Cons x xs)
  then have "foldl (\<lambda>m s. if m = UINT32_MAX \<or> s > m then s else m) m (x # xs) =
      Max (insert (max m x) (set xs))"
    by (auto simp: max_def)
  also have "\<dots> = Max (insert m (set (x # xs)))"
    by (cases "xs = []") (simp_all add: max.assoc)
  finally show ?case .
qed simp

lemma latest_subversion:
  assumes "UINT32_MAX \<notin> subversions d a b v"
  shows "find_latest_bitmap_subversion d a b v =
    (if subversions d a b v = {} then UINT32_MAX else Max (subversions d a b v))"
proof -
  let ?xs = "map (sub_value a b v) (names_with (sub_prefix a b v) d)"
  have "find_latest_bitmap_subversion d a b v = foldl (\<lambda>m s. if m = UINT32_MAX \<or> s > m then s else m) UINT32_MAX ?xs"
    by (simp only: subversion_over_names Let_def sub_prefix_def sub_value_def foldl_map)
  also have "\<dots> = (if ?xs = [] then UINT32_MAX else Max (set ?xs))"
  proof (cases ?xs)
    case (Cons x xs)
    then have "UINT32_MAX \<notin> set (x # xs)" using assms unfolding subversions_def by (metis set_map)
    then show ?thesis unfolding Cons by (simp add: foldl_latest)
  qed simp
  finally show ?thesis by (simp add: subversions_def)
qed

lemma next_subversion_new:
  assumes "subversions_ok d a b v" "x \<in> subversions d a b v"
  shows "x < next_subversion d a b v" "next_subversion d a b v \<noteq> UINT32_MAX"
proof -
  have fin: "finite (subversions d a b v)" by (simp add: subversions_def)
  have le: "\<forall>y \<in> subversions d a b v. y < UINT32_MAX - 1"
    using assms(1) by (auto simp: subversions_ok_def subversions_def)
  then have "UINT32_MAX \<notin> subversions d a b v" by force
  then have lat: "find_latest_bitmap_subversion d a b v = Max (subversions d a b v)"
    using latest_subversion assms(2) by (metis empty_iff)
  have top: "Max (subversions d a b v) < UINT32_MAX - 1" using le fin assms(2) Max_in by blast
  have "x \<le> Max (subversions d a b v)" using fin assms(2) by simp
  moreover have "next_subversion d a b v = Max (subversions d a b v) + 1"
    using top by (auto simp: next_subversion_def lat Let_def)
  ultimately show "x < next_subversion d a b v" "next_subversion d a b v \<noteq> UINT32_MAX"
    using top by (auto simp: word_less_nat_alt word_le_nat_alt unat_word_ariths word_unat_eq_iff)
qed

lemma next_subversion_proper:
  assumes "subversions_ok d a b v"
  shows "next_subversion d a b v \<noteq> UINT32_MAX"
proof (cases "subversions d a b v = {}")
  case True
  then show ?thesis by (simp add: next_subversion_def latest_subversion Let_def)
next
  case False
  then show ?thesis using next_subversion_new(2) [OF assms] by blast
qed


section \<open>Chunks and the length of the directory\<close>

lemma read_chunks_prefix:
  assumes "\<forall>j. i \<le> j \<longrightarrow> j < n \<longrightarrow> map_of d (chunk_name p j) = Some (f j)" "map_of d (chunk_name p n) = None"
    and "i \<le> n" "n - i \<le> fuel"
  shows "read_chunks fuel d p i = map f [i..<n]"
  using assms
proof (induction fuel arbitrary: i)
  case (Suc fuel)
  show ?case
  proof (cases "i = n")
    case False
    with Suc.prems have "read_chunks fuel d p (Suc i) = map f [Suc i..<n]" by (intro Suc.IH) auto
    with False Suc.prems show ?thesis by (simp add: upt_conv_Cons)
  qed (use Suc.prems in simp)
qed simp

lemma read_chunks_cong:
  assumes "\<And>j. map_of d (chunk_name p j) = map_of d' (chunk_name p j)"
  shows "read_chunks (length d) d p 0 = read_chunks (length d') d' p 0"
proof -
  have "\<exists>j. map_of d (chunk_name p j) = None"
  proof (rule ccontr)
    assume "\<not> ?thesis"
    then have "Suc (length d) \<le> length d" by (intro chunks_fit [of _ d p]) auto
    then show False by simp
  qed
  then obtain n where n: "map_of d (chunk_name p n) = None" "\<forall>j < n. map_of d (chunk_name p j) \<noteq> None"
    using exists_least_iff [of "\<lambda>j. map_of d (chunk_name p j) = None"] by auto
  let ?f = "\<lambda>j. the (map_of d (chunk_name p j))"
  have "n \<le> length d" "n \<le> length d'"
    using chunks_fit [of n d p] chunks_fit [of n d' p] n(2) assms by auto
  then have "read_chunks (length d) d p 0 = map ?f [0..<n]" "read_chunks (length d') d' p 0 = map ?f [0..<n]"
    using n assms by (intro read_chunks_prefix; fastforce)+
  then show ?thesis by simp
qed

lemma read_segment_file_cong:
  assumes "\<And>j. map_of d (chunk_name p j) = map_of d' (chunk_name p j)"
  shows "read_segment_file d p c = read_segment_file d' p c"
  using read_chunks_cong [OF assms] by (simp add: read_segment_file_def)

section \<open>The new bitmap\<close>

lemma bitmap_name_sub: "s \<noteq> UINT32_MAX \<Longrightarrow> bitmap_name a b v s = sub_prefix a b v @ dec (unat s)"
  by (simp add: bitmap_name_def sub_prefix_def)

lemma sub_value_chunk:
  assumes "s \<noteq> UINT32_MAX"
  shows "sub_value a b v (chunk_name (bitmap_name a b v s) i) = s" "sub_value a b v (tmp_chunk_name (bitmap_name a b v s) i) = s"
  using atoi_dec [of "CHR ''.'' # dec i" "unat s"] atoi_dec [of "''.tmp.'' @ dec i" "unat s"]
  by (simp_all add: sub_value_def bitmap_name_sub [OF assms] chunk_name_def tmp_chunk_name_def not_digits)

lemma sub_prefix_chunk:
  assumes "s \<noteq> UINT32_MAX"
  shows "starts_with (sub_prefix a b v) (chunk_name (bitmap_name a b v s) i)"
  by (simp add: bitmap_name_sub [OF assms] chunk_name_def starts_with_take)

lemma names_with_iff: "x \<in> set (names_with pre d) \<longleftrightarrow> starts_with pre x \<and> map_of d x \<noteq> None"
  by (auto simp: names_with_def map_of_eq_None_iff)

lemma new_chunks_absent:
  assumes "subversions_ok d a b v"
  shows "map_of d (chunk_name (bitmap_name a b v (next_subversion d a b v)) j) = None"
proof (rule ccontr)
  let ?s = "next_subversion d a b v"
  have s: "?s \<noteq> UINT32_MAX" using assms by (rule next_subversion_proper)
  assume "\<not> ?thesis"
  then have "chunk_name (bitmap_name a b v ?s) j \<in> set (names_with (sub_prefix a b v) d)"
    using sub_prefix_chunk [OF s] by (simp add: names_with_iff)
  then have "?s \<in> subversions d a b v"
    unfolding subversions_def using sub_value_chunk(1) [OF s] by (metis image_eqI)
  then have "?s < ?s" by (rule next_subversion_new(1) [OF assms])
  then show False by simp
qed

lemma write_next_steps_names:
  assumes "st \<in> set (write_bitmap_file_with_subversion a b v s bs dc)" "n \<in> step_names st"
  shows "\<exists>i. n = tmp_chunk_name (bitmap_name a b v s) i \<or> n = chunk_name (bitmap_name a b v s) i"
  using write_segment_file_names assms unfolding write_bitmap_file_with_subversion_def by blast

lemma write_next_bitmap_chunk:
  assumes "subversions_ok d a b v"
  shows "map_of (write_next_bitmap d a b v bs dc) (chunk_name (bitmap_name a b v (next_subversion d a b v)) j) =
    (if j < length (segment_file_chunks bs (Some dc)) then Some (segment_file_chunks bs (Some dc) ! j) else None)"
  unfolding write_next_bitmap_def write_bitmap_file_with_subversion_def
  by (simp add: write_segment_file_chunks [OF refl] new_chunks_absent [OF assms])

lemma subversions_after:
  assumes "subversions_ok d a b v"
  shows "next_subversion d a b v \<in> subversions (write_next_bitmap d a b v bs dc) a b v"
    "subversions (write_next_bitmap d a b v bs dc) a b v \<subseteq> insert (next_subversion d a b v) (subversions d a b v)"
proof -
  let ?s = "next_subversion d a b v" let ?d = "write_next_bitmap d a b v bs dc"
  have s: "?s \<noteq> UINT32_MAX" using assms by (rule next_subversion_proper)
  have "map_of ?d (chunk_name (bitmap_name a b v ?s) 0) \<noteq> None"
    by (simp add: write_next_bitmap_chunk [OF assms] segment_file_chunks_def)
  then have "chunk_name (bitmap_name a b v ?s) 0 \<in> set (names_with (sub_prefix a b v) ?d)"
    using sub_prefix_chunk [OF s] by (simp add: names_with_iff)
  then show "?s \<in> subversions ?d a b v"
    unfolding subversions_def using sub_value_chunk(1) [OF s] by (metis image_eqI)
  show "subversions ?d a b v \<subseteq> insert ?s (subversions d a b v)"
  proof
    fix x assume "x \<in> subversions ?d a b v"
    then obtain n where n: "n \<in> set (names_with (sub_prefix a b v) ?d)" "x = sub_value a b v n"
      by (auto simp: subversions_def)
    show "x \<in> insert ?s (subversions d a b v)"
    proof (cases "\<exists>i. n = tmp_chunk_name (bitmap_name a b v ?s) i \<or> n = chunk_name (bitmap_name a b v ?s) i")
      case True
      then show ?thesis using n(2) sub_value_chunk [OF s] by auto
    next
      case False
      then have "map_of ?d n = map_of d n"
        unfolding write_next_bitmap_def by (intro map_of_steps) (use write_next_steps_names in blast)
      with n show ?thesis by (auto simp: names_with_iff subversions_def)
    qed
  qed
qed

lemma u32_le_max: "x \<le> UINT32_MAX"
  using unsigned_less [of x, where 'a = nat] by (simp add: word_le_nat_alt)

lemma find_latest_after:
  assumes "subversions_ok d a b v"
  shows "find_latest_bitmap_subversion (write_next_bitmap d a b v bs dc) a b v = next_subversion d a b v"
proof -
  let ?s = "next_subversion d a b v" let ?S = "subversions (write_next_bitmap d a b v bs dc) a b v"
  note after = subversions_after [OF assms, of bs dc]
  have le: "\<forall>x \<in> ?S. x \<le> ?s" using after(2) next_subversion_new(1) [OF assms] by (auto intro: less_imp_le)
  have "UINT32_MAX \<notin> ?S"
  proof
    assume "UINT32_MAX \<in> ?S"
    then have "UINT32_MAX \<le> ?s" using le by blast
    then show False using next_subversion_proper [OF assms] u32_le_max [of ?s] order_antisym by blast
  qed
  then have "find_latest_bitmap_subversion (write_next_bitmap d a b v bs dc) a b v = Max ?S"
    using latest_subversion after(1) by auto
  also have "Max ?S = ?s" by (rule Max_eqI) (use after(1) le in \<open>auto simp: subversions_def\<close>)
  finally show ?thesis .
qed

text \<open>What is written is what the next load returns.\<close>

lemma load_next_bitmap:
  assumes "subversions_ok d a b v" "v \<noteq> UINT32_MAX"
  shows "load_bitmap_file (write_next_bitmap d a b v bs dc) a b v = (bs, Some dc)"
  using read_after_write [of "write_next_bitmap d a b v bs dc" "bitmap_name a b v (next_subversion d a b v)" bs "Some dc" "\<lambda>_. None"]
  by (simp add: load_bitmap_file_def resolve_version_def assms(2) find_latest_after [OF assms(1)]
      write_next_bitmap_chunk [OF assms(1)])

text \<open>Everything else of the directory is as before.\<close>

lemma next_bitmap_other:
  assumes "take 3 x \<noteq> ''bit''"
  shows "map_of (write_next_bitmap d a b v bs dc) x = map_of d x"
  unfolding write_next_bitmap_def
proof (intro map_of_steps ballI notI)
  fix st assume "st \<in> set (write_bitmap_file_with_subversion a b v (next_subversion d a b v) bs dc)" "x \<in> step_names st"
  then obtain i where "x = tmp_chunk_name (bitmap_name a b v (next_subversion d a b v)) i
      \<or> x = chunk_name (bitmap_name a b v (next_subversion d a b v)) i"
    using write_next_steps_names by blast
  then have "take 3 x = ''bit''"
    by (auto simp: bitmap_name_def file_name_def chunk_name_def tmp_chunk_name_def)
  with assms show False by simp
qed

lemma next_bitmap_names:
  "names_with ''metadata_'' (write_next_bitmap d a b v bs dc) = names_with ''metadata_'' d"
  unfolding write_next_bitmap_def
proof (intro names_with_steps ballI notI)
  fix st n assume "st \<in> set (write_bitmap_file_with_subversion a b v (next_subversion d a b v) bs dc)" "n \<in> step_names st"
    "starts_with ''metadata_'' n"
  then obtain i where "n = tmp_chunk_name (bitmap_name a b v (next_subversion d a b v)) i
      \<or> n = chunk_name (bitmap_name a b v (next_subversion d a b v)) i"
    using write_next_steps_names by blast
  with \<open>starts_with ''metadata_'' n\<close> show False
    by (cases "next_subversion d a b v = UINT32_MAX") (auto simp: bitmap_name_def file_name_def chunk_name_def tmp_chunk_name_def starts_with_def)
qed

lemma next_bitmap_keeps:
  assumes "v' \<noteq> UINT32_MAX"
  shows "load_mapping_file (write_next_bitmap d a b v bs dc) a' b' v' = load_mapping_file d a' b' v'"
    "load_offset_file (write_next_bitmap d a b v bs dc) a' b' v' = load_offset_file d a' b' v'"
    "read_lsm_segment_metadata (write_next_bitmap d a b v bs dc) a' b' v' = read_lsm_segment_metadata d a' b' v'"
    "scan_segment_metadata_files (write_next_bitmap d a b v bs dc) m = scan_segment_metadata_files d m"
    "find_latest_segment_version (write_next_bitmap d a b v bs dc) a' b' = find_latest_segment_version d a' b'"
proof -
  have *: "map_of (write_next_bitmap d a b v bs dc) (chunk_name (file_name (c # c' # c'' # ty) a' b' v') j) =
      map_of d (chunk_name (file_name (c # c' # c'' # ty) a' b' v') j)" if "[c, c', c''] \<noteq> ''bit''" for c c' c'' ty j
    using that by (intro next_bitmap_other) (simp add: segment_names_kind)
  show "load_mapping_file (write_next_bitmap d a b v bs dc) a' b' v' = load_mapping_file d a' b' v'"
    unfolding load_mapping_file_def resolve_version_def using assms by (simp add: read_segment_file_cong [OF *])
  show "load_offset_file (write_next_bitmap d a b v bs dc) a' b' v' = load_offset_file d a' b' v'"
    unfolding load_offset_file_def resolve_version_def using assms by (simp add: read_segment_file_cong [OF *])
  have "map_of (write_next_bitmap d a b v bs dc) (file_name ''metadata'' a' b' v') = map_of d (file_name ''metadata'' a' b' v')"
    by (intro next_bitmap_other) (simp add: segment_names_kind)
  then show "read_lsm_segment_metadata (write_next_bitmap d a b v bs dc) a' b' v' = read_lsm_segment_metadata d a' b' v'"
    unfolding read_lsm_segment_metadata_def resolve_version_def using assms by simp
qed (rule scans_same_names [OF next_bitmap_names])+

end
