(* ===== verification/VacuumRedo.thy ===== *)
theory VacuumRedo
  imports SharedState BitmapVersions SegmentRebuild TombstoneWalks
begin

text \<open>
  Replay of vacuum tombstones on a standby (\<^verbatim>\<open>segment_vacuum_redo.c\<close>): one WAL record names a segment
  id and the rows deleted from it; it is applied to the memtable of that id, if there is one, and to the
  bitmap file of the segment that contains it, after which the vector index worker is asked to refresh
  its copy (the handler \<^verbatim>\<open>SEGMENT_UPDATE_VACUUM\<close> of \<^verbatim>\<open>vector_index_worker.c\<close>).
\<close>

section \<open>WAL records and file contents\<close>

record vacuum_entry =
  sid_local_idx :: u32
  ve_tid :: i64

record vacuum_tombstones =
  vt_sid :: SegmentId
  owner_version :: u32
  is_memtable_owner :: bool
  vt_entries :: "vacuum_entry list"

text \<open>Little-endian integers, \<^verbatim>\<open>int64_t\<close> arrays and \<^verbatim>\<open>SegmentOffsetRange\<close> arrays (24 bytes each, 4 of them padding).\<close>

definition bytes_nat :: "u8 list \<Rightarrow> nat" where
  "bytes_nat bs = foldr (\<lambda>b acc. unat b + 256 * acc) bs 0"

definition decode_mapping :: "u8 list \<Rightarrow> i64 list" where
  "decode_mapping bs = map (\<lambda>k. of_nat (bytes_nat (take 8 (drop (8 * k) bs)))) [0..<length bs div 8]"

definition decode_offsets :: "nat \<Rightarrow> u8 list \<Rightarrow> SegmentOffsetRange list" where
  "decode_offsets n bs =
     map (\<lambda>k. let e = drop (24 * k) bs in
            \<lparr>off_sid = of_nat (bytes_nat (take 4 e)),
             start_offset = bytes_nat (take 8 (drop 8 e)),
             end_offset = bytes_nat (take 8 (drop 16 e))\<rparr>) [0..<n]"

section \<open>Memtable branch\<close>

definition apply_entries_to_memtable_locked :: "vacuum_tombstones \<Rightarrow> MemTable \<Rightarrow> MemTable" where
  "apply_entries_to_memtable_locked hdr mt =
     (if is_memtable_owner hdr
      then mt\<lparr>mt_bitmap := foldl (\<lambda>bm e. if unat (sid_local_idx e) < mt_capacity mt
                                         then SET_SLOT bm (unat (sid_local_idx e)) else bm)
                            (mt_bitmap mt) (vt_entries hdr)\<rparr>
      else
        let cap = (if current_size mt > mt_capacity mt then mt_capacity mt else current_size mt)
        in mt\<lparr>mt_bitmap := mark_memtable_matches (mt_tids mt) [0..<cap] (map ve_tid (vt_entries hdr)) (mt_bitmap mt)\<rparr>)"

text \<open>Phase A of \<^verbatim>\<open>apply_to_memtable_for_sid\<close>: the sealed memtables first, then the growing one.\<close>

definition find_memtable_for_sid :: "LSMIndexData \<Rightarrow> MemtableBufferSlot list \<Rightarrow> SegmentId \<Rightarrow> int option" where
  "find_memtable_for_sid lsm buf sid =
     (case first_from (\<lambda>i. memtable_idxs lsm ! i \<ge> 0
                         \<and> memtable_id (MT_FROM_SLOTIDX buf (memtable_idxs lsm ! i)) = sid)
             0 (memtable_count lsm) of
        Some i \<Rightarrow> Some (memtable_idxs lsm ! i)
      | None \<Rightarrow>
          if growing_memtable_idx lsm \<noteq> MT_IDX_INVALID \<and> growing_memtable_idx lsm \<noteq> MT_IDX_ROTATING
             \<and> memtable_id (MT_FROM_SLOTIDX buf (growing_memtable_idx lsm)) = sid
          then Some (growing_memtable_idx lsm) else None)"

text \<open>Phase B; \<open>between\<close> is what happens to the buffer between the two lock sections.\<close>

definition apply_to_memtable_for_sid ::
  "(MemtableBufferSlot list \<Rightarrow> MemtableBufferSlot list) \<Rightarrow> LSMIndexData \<Rightarrow> vacuum_tombstones
     \<Rightarrow> MemtableBufferSlot list \<Rightarrow> bool \<times> MemtableBufferSlot list" where
  "apply_to_memtable_for_sid between lsm hdr buf =
     (case find_memtable_for_sid lsm buf (vt_sid hdr) of
        None \<Rightarrow> (False, between buf)
      | Some i \<Rightarrow>
          let buf = between buf in
          if memtable_id (MT_FROM_SLOTIDX buf i) \<noteq> vt_sid hdr then (False, buf)
          else (True, upd_mt i (apply_entries_to_memtable_locked hdr) buf))"

section \<open>Disk branch\<close>

definition find_disk_segment_for_sid :: "directory \<Rightarrow> SegmentId \<Rightarrow> (SegmentId \<times> SegmentId \<times> u32) option" where
  "find_disk_segment_for_sid d sid =
     (let files = scan_segment_metadata_files d MAX_SEGMENTS_COUNT in
      case first_from (\<lambda>i. fi_start_sid (files ! i) \<le> sid \<and> sid \<le> fi_end_sid (files ! i)) 0 (length files) of
        None \<Rightarrow> None
      | Some i \<Rightarrow> Some (fi_start_sid (files ! i), fi_end_sid (files ! i), fi_version (files ! i)))"

text \<open>The binary search of \<^verbatim>\<open>offset_index_for_sid\<close>; \<open>-1\<close> is \<open>None\<close>.\<close>

function bsearch_sid :: "SegmentOffsetRange list \<Rightarrow> SegmentId \<Rightarrow> int \<Rightarrow> int \<Rightarrow> nat option" where
  "bsearch_sid offs sid lo hi =
     (if lo \<le> hi then
        (let mid = lo + (hi - lo) div 2;
             mid_sid = off_sid (offs ! nat mid)
         in if mid_sid = sid then Some (nat mid)
            else if mid_sid < sid then bsearch_sid offs sid (mid + 1) hi
            else bsearch_sid offs sid lo (mid - 1))
      else None)"
  by pat_completeness auto
termination by (relation "measure (\<lambda>(offs, sid, lo, hi). nat (hi - lo + 1))") auto

declare bsearch_sid.simps [simp del]

definition offset_index_for_sid :: "SegmentOffsetRange list \<Rightarrow> nat \<Rightarrow> SegmentId \<Rightarrow> nat option" where
  "offset_index_for_sid offs n sid = bsearch_sid offs sid 0 (int n - 1)"

definition fast_path :: "vacuum_tombstones \<Rightarrow> u32 \<Rightarrow> bool" where
  "fast_path hdr disk_version \<longleftrightarrow> disk_version = owner_version hdr \<and> \<not> is_memtable_owner hdr"

definition mark_segment_rows ::
  "vacuum_tombstones \<Rightarrow> u32 \<Rightarrow> i64 list \<Rightarrow> SegmentOffsetRange \<Rightarrow> bitmap \<times> u32 \<Rightarrow> bitmap \<times> u32" where
  "mark_segment_rows hdr disk_version mapping r acc =
     (if fast_path hdr disk_version
      then mark_local (start_offset r) (end_offset r) (map (unat \<circ> sid_local_idx) (vt_entries hdr)) acc
      else mark_matches mapping [start_offset r..<end_offset r] (map ve_tid (vt_entries hdr)) acc)"

text \<open>One attempt up to the notification of the worker.\<close>

datatype attempt_result =
    NoTarget  \<comment> \<open>\<^verbatim>\<open>return false\<close>\<close>
  | Failed  \<comment> \<open>\<^verbatim>\<open>elog(ERROR)\<close>\<close>
  | Wrote "disk_step list" SegmentId SegmentId u32

definition vacuum_attempt :: "directory \<Rightarrow> vacuum_tombstones \<Rightarrow> attempt_result" where
  "vacuum_attempt d hdr =
     (case find_disk_segment_for_sid d (vt_sid hdr) of
        None \<Rightarrow> NoTarget
      | Some (a, b, v) \<Rightarrow>
          (case read_lsm_segment_metadata d a b v of
             None \<Rightarrow> NoTarget
           | Some (_, _, nrows, _) \<Rightarrow>
               (case load_offset_file d a b v of
                  None \<Rightarrow> Failed
                | Some offset_bytes \<Rightarrow>
                    let n = unat (b - a + 1); offs = decode_offsets n offset_bytes in
                    (case offset_index_for_sid offs n (vt_sid hdr) of
                       None \<Rightarrow> NoTarget
                     | Some oi \<Rightarrow>
                         let (bm, dc) = load_bitmap_file d a b v;
                             mapping = decode_mapping (load_mapping_file d a b v);
                             dc = (case dc of None \<Rightarrow> 0 | Some c \<Rightarrow> c);
                             (bm', applied) = mark_segment_rows hdr v mapping (offs ! oi) (bm, 0)
                         in Wrote (write_bitmap_file_with_subversion a b v (next_subversion d a b v)
                                     (take (GET_BITMAP_SIZE (unat nrows)) bm') (dc + applied)) a b v))))"

definition MAX_VACUUM_REDO_RETRIES :: nat where "MAX_VACUUM_REDO_RETRIES = 4"

text \<open>
  The retry loop. \<open>notify\<close> is \<^verbatim>\<open>segment_update_blocking\<close> with the target's range and version: the state
  of the rest of the system goes in and comes out together with the worker's status. \<open>None\<close> is
  \<^verbatim>\<open>elog(ERROR)\<close>.
\<close>

type_synonym 'w notifier = "SegmentId \<Rightarrow> SegmentId \<Rightarrow> u32 \<Rightarrow> directory \<times> 'w \<Rightarrow> int \<times> directory \<times> 'w"

fun disk_attempts ::
  "'w notifier \<Rightarrow> nat \<Rightarrow> vacuum_tombstones \<Rightarrow> directory \<times> 'w \<Rightarrow> (bool \<times> directory \<times> 'w) option" where
  "disk_attempts notify 0 hdr dw = Some (True, dw)"
| "disk_attempts notify (Suc n) hdr (d, w) =
     (case vacuum_attempt d hdr of
        NoTarget \<Rightarrow> Some (False, d, w)
      | Failed \<Rightarrow> None
      | Wrote steps a b v \<Rightarrow>
          (case notify a b v (foldl disk_apply d steps, w) of (status, dw) \<Rightarrow>
             if status = 1 then disk_attempts notify n hdr dw else Some (True, dw)))"

definition apply_to_disk_file_for_sid ::
  "'w notifier \<Rightarrow> vacuum_tombstones \<Rightarrow> directory \<times> 'w \<Rightarrow> (bool \<times> directory \<times> 'w) option" where
  "apply_to_disk_file_for_sid notify hdr dw = disk_attempts notify MAX_VACUUM_REDO_RETRIES hdr dw"

text \<open>
  \<^verbatim>\<open>dpv_apply_vacuum_tombstones\<close> for an index that has a slot; \<open>None\<close> is the final \<^verbatim>\<open>elog(ERROR)\<close>, which ends
  the startup process.
\<close>

definition dpv_apply_vacuum_tombstones ::
  "(MemtableBufferSlot list \<Rightarrow> MemtableBufferSlot list) \<Rightarrow> 'w notifier \<Rightarrow> LSMIndexData option \<Rightarrow> vacuum_tombstones
     \<Rightarrow> MemtableBufferSlot list \<times> directory \<times> 'w \<Rightarrow> (MemtableBufferSlot list \<times> directory \<times> 'w) option" where
  "dpv_apply_vacuum_tombstones between notify index hdr st =
     (case st of (buf, dw) \<Rightarrow>
        (case index of
           None \<Rightarrow> Some st
         | Some lsm \<Rightarrow>
             (case apply_to_memtable_for_sid between lsm hdr buf of (mem_handled, buf) \<Rightarrow>
                (case apply_to_disk_file_for_sid notify hdr dw of
                   None \<Rightarrow> None
                 | Some (file_handled, dw) \<Rightarrow>
                     if \<not> mem_handled \<and> \<not> file_handled then None else Some (buf, dw)))))"

section \<open>The worker's refresh\<close>

text \<open>
  \<^verbatim>\<open>SEGMENT_UPDATE_VACUUM\<close> in \<^verbatim>\<open>maintenance_worker_thread\<close>, for a queryable slot and without interference
  between its lock sections: status 1 asks for a retry. The outer \<open>None\<close> is a list walk that does not end.
\<close>

definition or_bitmap :: "nat \<Rightarrow> bitmap \<Rightarrow> bitmap \<Rightarrow> bitmap" where
  "or_bitmap n bm new = foldl (\<lambda>b i. b[i := b ! i OR new ! i]) bm [0..<n]"

definition refresh_bitmap :: "u8 list \<times> u32 option \<Rightarrow> FlushedSegment \<Rightarrow> FlushedSegment" where
  "refresh_bitmap loaded s =
     s\<lparr>bitmap_ptr := map_option (\<lambda>bm. or_bitmap (GET_BITMAP_SIZE (unat (vec_count s))) bm (fst loaded)) (bitmap_ptr s),
       delete_count := (case snd loaded of None \<Rightarrow> delete_count s | Some c \<Rightarrow> c)\<rparr>"

definition segment_update_vacuum ::
  "bool \<Rightarrow> SegmentId \<Rightarrow> SegmentId \<Rightarrow> u32 \<Rightarrow> directory \<Rightarrow> FlushedSegmentPool \<Rightarrow> (int \<times> FlushedSegmentPool) option" where
  "segment_update_vacuum got_lock a b expected_version d pool =
     (case find_segment_by_sids pool a b of
        None \<Rightarrow> None
      | Some None \<Rightarrow> Some (1, pool)
      | Some (Some i) \<Rightarrow>
          let p = upd_seg i (\<lambda>s. s\<lparr>ref_count := ref_count s + 1\<rparr>) pool;
              s = flushed_segments p i
          in (if version s \<noteq> expected_version \<or> \<not> in_used s
              then Some (1, decrement_flushed_segment_ref_count got_lock i p)
              else (case find_segment_by_sids p a b of
                      None \<Rightarrow> None
                    | Some live \<Rightarrow>
                        if live \<noteq> Some i then Some (1, decrement_flushed_segment_ref_count got_lock i p)
                        else Some (0, decrement_flushed_segment_ref_count got_lock i
                                        (upd_seg i (refresh_bitmap (load_bitmap_file d a b UINT32_MAX)) p)))))"


section \<open>The offset table lookup\<close>

lemma bsearch_sid_sound:
  "bsearch_sid offs sid lo hi = Some i \<Longrightarrow> 0 \<le> lo \<Longrightarrow> lo \<le> int i \<and> int i \<le> hi \<and> off_sid (offs ! i) = sid"
proof (induction offs sid lo hi rule: bsearch_sid.induct)
  case (1 offs sid lo hi)
  let ?mid = "lo + (hi - lo) div 2"
  show ?case
  proof (cases "lo \<le> hi")
    case True
    then have mid: "lo \<le> ?mid" "?mid \<le> hi" by auto
    consider "off_sid (offs ! nat ?mid) = sid" | "off_sid (offs ! nat ?mid) < sid"
      | "\<not> off_sid (offs ! nat ?mid) < sid" "off_sid (offs ! nat ?mid) \<noteq> sid" by blast
    then show ?thesis
    proof cases
      case 1
      with "1.prems" True mid show ?thesis by (auto simp: bsearch_sid.simps [of offs sid lo hi] Let_def)
    next
      case 2
      with "1.prems" True have "bsearch_sid offs sid (?mid + 1) hi = Some i"
        by (simp add: bsearch_sid.simps [of offs sid lo hi] Let_def split: if_splits)
      with "1.IH"(1) [OF True refl refl] 2 "1.prems"(2) mid show ?thesis by force
    next
      case 3
      with "1.prems" True have "bsearch_sid offs sid lo (?mid - 1) = Some i"
        by (simp add: bsearch_sid.simps [of offs sid lo hi] Let_def split: if_splits)
      with "1.IH"(2) [OF True refl refl] 3 "1.prems"(2) mid show ?thesis by force
    qed
  qed (use "1.prems" in \<open>simp add: bsearch_sid.simps [of offs sid lo hi]\<close>)
qed

lemma bsearch_sid_complete:
  assumes "\<forall>j k. lo \<le> int j \<longrightarrow> j < k \<longrightarrow> int k \<le> hi \<longrightarrow> off_sid (offs ! j) < off_sid (offs ! k)"
    and "0 \<le> lo" "lo \<le> int i" "int i \<le> hi" "off_sid (offs ! i) = sid"
  shows "bsearch_sid offs sid lo hi = Some i"
  using assms
proof (induction offs sid lo hi rule: bsearch_sid.induct)
  case (1 offs sid lo hi)
  let ?mid = "lo + (hi - lo) div 2"
  from "1.prems" have le: "lo \<le> hi" by simp
  then have mid: "lo \<le> ?mid" "?mid \<le> hi" by auto
  then have imid: "int (nat ?mid) = ?mid" using "1.prems"(2) by simp
  consider "i = nat ?mid" | "nat ?mid < i" | "i < nat ?mid" by linarith
  then show ?case
  proof cases
    case 1
    with "1.prems"(5) le show ?thesis by (simp add: bsearch_sid.simps [of offs sid lo hi] Let_def)
  next
    case 2
    with "1.prems"(1) mid imid "1.prems"(4) have lt: "off_sid (offs ! nat ?mid) < off_sid (offs ! i)" by simp
    then have "bsearch_sid offs sid lo hi = bsearch_sid offs sid (?mid + 1) hi"
      using le "1.prems"(5) by (auto simp: bsearch_sid.simps [of offs sid lo hi] Let_def)
    also have "\<dots> = Some i"
      using lt 2 imid mid "1.prems" by (intro "1.IH"(1) [OF le refl refl]) auto
    finally show ?thesis .
  next
    case 3
    with "1.prems"(1) mid imid "1.prems"(3) have lt: "off_sid (offs ! i) < off_sid (offs ! nat ?mid)" by simp
    then have "bsearch_sid offs sid lo hi = bsearch_sid offs sid lo (?mid - 1)"
      using le "1.prems"(5) by (auto simp: bsearch_sid.simps [of offs sid lo hi] Let_def)
    also have "\<dots> = Some i"
      using lt 3 imid mid "1.prems" by (intro "1.IH"(2) [OF le refl refl]) auto
    finally show ?thesis .
  qed
qed

definition ascending_sids :: "SegmentOffsetRange list \<Rightarrow> bool" where
  "ascending_sids offs \<longleftrightarrow> sorted_wrt (<) (map off_sid offs)"

lemma offset_index_found:
  assumes "ascending_sids offs" "i < length offs"
  shows "offset_index_for_sid offs (length offs) (off_sid (offs ! i)) = Some i"
  unfolding offset_index_for_sid_def
  using assms sorted_wrt_nth_less [of "(<)" "map off_sid offs"]
  by (intro bsearch_sid_complete) (auto simp: ascending_sids_def)

lemma offset_index_sound:
  "offset_index_for_sid offs n sid = Some i \<Longrightarrow> i < n \<and> off_sid (offs ! i) = sid"
  using bsearch_sid_sound [of offs sid 0 "int n - 1" i] by (simp add: offset_index_for_sid_def)

section \<open>One segment on disk\<close>

record disk_segment =
  ds_rows :: nat
  ds_mapping :: "i64 list"
  ds_offsets :: "SegmentOffsetRange list"
  ds_bitmap :: bitmap
  ds_delete_count :: u32

definition on_disk :: "directory \<Rightarrow> SegmentId \<Rightarrow> SegmentId \<Rightarrow> u32 \<Rightarrow> disk_segment \<Rightarrow> bool" where
  "on_disk d a b v g \<longleftrightarrow>
     (case read_lsm_segment_metadata d a b v of None \<Rightarrow> False | Some (_, _, nrows, _) \<Rightarrow> unat nrows = ds_rows g)
   \<and> map_option (decode_offsets (unat (b - a + 1))) (load_offset_file d a b v) = Some (ds_offsets g)
   \<and> decode_mapping (load_mapping_file d a b v) = ds_mapping g
   \<and> load_bitmap_file d a b v = (ds_bitmap g, Some (ds_delete_count g))
   \<and> length (ds_bitmap g) = GET_BITMAP_SIZE (ds_rows g)"

text \<open>The rows a record deletes from the range \<open>r\<close> of a segment.\<close>

definition redo_rows :: "vacuum_tombstones \<Rightarrow> u32 \<Rightarrow> i64 list \<Rightarrow> SegmentOffsetRange \<Rightarrow> nat set" where
  "redo_rows hdr v mapping r =
     (if fast_path hdr v
      then {m. m < end_offset r \<and> (\<exists>e \<in> set (vt_entries hdr). m = start_offset r + unat (sid_local_idx e))}
      else {m. start_offset r \<le> m \<and> m < end_offset r \<and> (\<exists>e \<in> set (vt_entries hdr). mapping ! m = ve_tid e)})"

text \<open>What the two-pointer walk needs: the record lists its rows in the order of the segment.\<close>

definition entries_in_order :: "vacuum_tombstones \<Rightarrow> i64 list \<Rightarrow> nat \<Rightarrow> nat \<Rightarrow> bool" where
  "entries_in_order hdr tids lo hi \<longleftrightarrow>
     subseq (map ve_tid (vt_entries hdr)) (map ((!) tids) [lo..<hi]) \<and> distinct (map ((!) tids) [lo..<hi])"

text \<open>
  The rows that are marked: by position, or as the walk finds them. They are rows the record names, and all of
  them when the record has the order of the segment.
\<close>

definition redo_marks :: "vacuum_tombstones \<Rightarrow> u32 \<Rightarrow> i64 list \<Rightarrow> SegmentOffsetRange \<Rightarrow> nat list" where
  "redo_marks hdr v mapping r =
     (if fast_path hdr v
      then filter (\<lambda>m. m < end_offset r) (map (\<lambda>i. start_offset r + i) (map (unat \<circ> sid_local_idx) (vt_entries hdr)))
      else matches mapping [start_offset r..<end_offset r] (map ve_tid (vt_entries hdr)))"

lemma matches_named: "m \<in> set (matches tids ms ws) \<Longrightarrow> tids ! m \<in> set ws"
  by (induction tids ms ws rule: matches.induct) (auto split: if_splits)

lemma redo_marks_named: "set (redo_marks hdr v mapping r) \<subseteq> redo_rows hdr v mapping r"
proof
  fix m assume m: "m \<in> set (redo_marks hdr v mapping r)"
  show "m \<in> redo_rows hdr v mapping r"
  proof (cases "fast_path hdr v")
    case False
    then have in_walk: "m \<in> set (matches mapping [start_offset r..<end_offset r] (map ve_tid (vt_entries hdr)))"
      using m by (simp add: redo_marks_def)
    then have "m \<in> set [start_offset r..<end_offset r]" by (rule set_matches [THEN subsetD])
    then show ?thesis using matches_named [OF in_walk] False by (auto simp: redo_rows_def)
  qed (use m in \<open>auto simp: redo_marks_def redo_rows_def\<close>)
qed

lemma redo_marks_complete:
  assumes "fast_path hdr v \<or> entries_in_order hdr mapping (start_offset r) (end_offset r)"
  shows "set (redo_marks hdr v mapping r) = redo_rows hdr v mapping r"
proof (cases "fast_path hdr v")
  case False
  with assms have "matches mapping [start_offset r..<end_offset r] (map ve_tid (vt_entries hdr)) =
      filter (\<lambda>m. mapping ! m \<in> set (map ve_tid (vt_entries hdr))) [start_offset r..<end_offset r]"
    unfolding entries_in_order_def by (intro matches_filter) auto
  with False show ?thesis by (auto simp: redo_rows_def redo_marks_def)
qed (auto simp: redo_rows_def redo_marks_def)

lemma mark_segment_rows_spec:
  fixes c :: u32 and hdr :: vacuum_tombstones and v :: u32 and mapping :: "i64 list"
  assumes "\<forall>m < end_offset r. in_bitmap bm m"
  defines "res \<equiv> mark_segment_rows hdr v mapping r (bm, c)" and "S \<equiv> set (redo_marks hdr v mapping r)"
  shows "(\<forall>m. IS_SLOT_SET (fst res) m \<longleftrightarrow> m \<in> S \<or> IS_SLOT_SET bm m)
    \<and> snd res = c + of_nat (card {m \<in> S. \<not> IS_SLOT_SET bm m})
    \<and> length (fst res) = length bm"
proof -
  have res: "res = foldl SET_AND_COUNT (bm, c) (redo_marks hdr v mapping r)"
    by (simp add: res_def mark_segment_rows_def walk_folds redo_marks_def)
  have "\<forall>m \<in> S. in_bitmap bm m"
    using assms(1) redo_marks_named [of hdr v mapping r] by (auto simp: S_def redo_rows_def split: if_splits)
  then show ?thesis unfolding res using marking [of "redo_marks hdr v mapping r" bm c] by (simp add: S_def)
qed


text \<open>One attempt, as its effect on the target segment.\<close>

definition redone :: "vacuum_tombstones \<Rightarrow> u32 \<Rightarrow> SegmentOffsetRange \<Rightarrow> disk_segment \<Rightarrow> disk_segment" where
  "redone hdr v r g =
     (case mark_segment_rows hdr v (ds_mapping g) r (ds_bitmap g, 0) of (bm, applied) \<Rightarrow>
        g\<lparr>ds_bitmap := bm, ds_delete_count := ds_delete_count g + applied\<rparr>)"

lemma vacuum_attempt_target:
  assumes "find_disk_segment_for_sid d (vt_sid hdr) = Some (a, b, v)" "on_disk d a b v g"
    and "offset_index_for_sid (ds_offsets g) (length (ds_offsets g)) (vt_sid hdr) = Some i"
    and "subversions_ok d a b v" "v \<noteq> UINT32_MAX"
  defines "d1 \<equiv> write_next_bitmap d a b v (ds_bitmap (redone hdr v (ds_offsets g ! i) g))
      (ds_delete_count (redone hdr v (ds_offsets g ! i) g))"
  shows "\<exists>steps. vacuum_attempt d hdr = Wrote steps a b v \<and> foldl disk_apply d steps = d1
    \<and> on_disk d1 a b v (redone hdr v (ds_offsets g ! i) g)"
proof -
  obtain x y nrows ty where md: "read_lsm_segment_metadata d a b v = Some (x, y, nrows, ty)" "unat nrows = ds_rows g"
    using assms(2) by (auto simp: on_disk_def split: option.splits)
  obtain ob where ob: "load_offset_file d a b v = Some ob" "ds_offsets g = decode_offsets (unat (b - a + 1)) ob"
    using assms(2) by (auto simp: on_disk_def)
  have mapping: "decode_mapping (load_mapping_file d a b v) = ds_mapping g"
    and bm: "load_bitmap_file d a b v = (ds_bitmap g, Some (ds_delete_count g))"
    and len: "length (ds_bitmap g) = GET_BITMAP_SIZE (ds_rows g)"
    using assms(2) by (auto simp: on_disk_def)
  have n: "length (ds_offsets g) = unat (b - a + 1)" by (simp add: ob(2) decode_offsets_def)
  have oi: "offset_index_for_sid (ds_offsets g) (unat (b - a + 1)) (vt_sid hdr) = Some i"
    using assms(3) n by simp
  obtain bm' applied where mk: "mark_segment_rows hdr v (ds_mapping g) (ds_offsets g ! i) (ds_bitmap g, 0) = (bm', applied)"
    by fastforce
  have "length (fst (mark_segment_rows hdr v (ds_mapping g) (ds_offsets g ! i) (ds_bitmap g, 0))) = length (ds_bitmap g)"
    by (simp add: mark_segment_rows_def walk_folds)
  then have len': "length bm' = GET_BITMAP_SIZE (ds_rows g)" using mk len by simp
  have red: "redone hdr v (ds_offsets g ! i) g = g\<lparr>ds_bitmap := bm', ds_delete_count := ds_delete_count g + applied\<rparr>"
    by (simp add: redone_def mk)
  have att: "vacuum_attempt d hdr =
      Wrote (write_bitmap_file_with_subversion a b v (next_subversion d a b v) bm' (ds_delete_count g + applied)) a b v"
    by (simp add: vacuum_attempt_def assms(1) md ob(1) ob(2) [symmetric] oi bm mapping mk len' Let_def)
  have "on_disk d1 a b v (redone hdr v (ds_offsets g ! i) g)"
    unfolding on_disk_def d1_def next_bitmap_keeps [OF assms(5)] load_next_bitmap [OF assms(4,5)]
    unfolding red using len' by (simp add: md ob(1) ob(2) [symmetric] mapping)
  then show ?thesis using att by (simp add: d1_def red write_next_bitmap_def)
qed


lemma vacuum_attempt_unknown:
  assumes "find_disk_segment_for_sid d (vt_sid hdr) = Some (a, b, v)" "on_disk d a b v g"
    and "offset_index_for_sid (ds_offsets g) (length (ds_offsets g)) (vt_sid hdr) = None"
  shows "vacuum_attempt d hdr = NoTarget"
proof -
  obtain x y nrows ty where md: "read_lsm_segment_metadata d a b v = Some (x, y, nrows, ty)"
    using assms(2) by (auto simp: on_disk_def split: option.splits)
  obtain ob where ob: "load_offset_file d a b v = Some ob" "ds_offsets g = decode_offsets (unat (b - a + 1)) ob"
    using assms(2) by (auto simp: on_disk_def)
  then have "length (ds_offsets g) = unat (b - a + 1)" by (simp add: decode_offsets_def)
  then show ?thesis using assms(3) by (simp add: vacuum_attempt_def assms(1) md ob(1) ob(2) [symmetric] Let_def)
qed

lemma redone_spec:
  fixes hdr :: vacuum_tombstones and v :: u32
  assumes "end_offset r \<le> ds_rows g" "length (ds_bitmap g) = GET_BITMAP_SIZE (ds_rows g)"
  defines "S \<equiv> set (redo_marks hdr v (ds_mapping g) r)"
  shows "\<forall>m. IS_SLOT_SET (ds_bitmap (redone hdr v r g)) m \<longleftrightarrow> IS_SLOT_SET (ds_bitmap g) m \<or> m \<in> S"
    and "ds_delete_count (redone hdr v r g) = ds_delete_count g + of_nat (card {m \<in> S. \<not> IS_SLOT_SET (ds_bitmap g) m})"
    and "redone hdr v r g = g\<lparr>ds_bitmap := ds_bitmap (redone hdr v r g), ds_delete_count := ds_delete_count (redone hdr v r g)\<rparr>"
proof -
  have "\<forall>m < end_offset r. in_bitmap (ds_bitmap g) m"
    using assms(1,2) GET_BITMAP_SIZE_covers by (meson less_le_trans)
  from mark_segment_rows_spec [OF this, of hdr v "ds_mapping g" 0]
  show "\<forall>m. IS_SLOT_SET (ds_bitmap (redone hdr v r g)) m \<longleftrightarrow> IS_SLOT_SET (ds_bitmap g) m \<or> m \<in> S"
    "ds_delete_count (redone hdr v r g) = ds_delete_count g + of_nat (card {m \<in> S. \<not> IS_SLOT_SET (ds_bitmap g) m})"
    unfolding redone_def S_def by (auto split: prod.splits)
  show "redone hdr v r g = g\<lparr>ds_bitmap := ds_bitmap (redone hdr v r g), ds_delete_count := ds_delete_count (redone hdr v r g)\<rparr>"
    by (simp add: redone_def split: prod.splits)
qed

text \<open>The counter of the subversions moves by one with each attempt.\<close>

lemma next_subversion_bound:
  assumes "\<forall>s \<in> subversions d a b v. unat s + Suc n < unat (UINT32_MAX - 1)" "n < unat (UINT32_MAX - 1)"
  shows "unat (next_subversion d a b v) + n < unat (UINT32_MAX - 1)"
proof (cases "subversions d a b v = {}")
  case True
  then show ?thesis using assms(2) by (simp add: next_subversion_def latest_subversion)
next
  case False
  have fin: "finite (subversions d a b v)" by (simp add: subversions_def)
  have no: "UINT32_MAX \<notin> subversions d a b v" using assms(1) by force
  have m: "Max (subversions d a b v) \<in> subversions d a b v" using fin False by (rule Max_in)
  then have b: "unat (Max (subversions d a b v)) + Suc n < unat (UINT32_MAX - 1)" using assms(1) by blast
  moreover have "Max (subversions d a b v) \<noteq> UINT32_MAX" using m no by metis
  ultimately show ?thesis
    using False by (simp add: next_subversion_def latest_subversion [OF no] Let_def unat_word_ariths)
qed

definition subversion_room :: "nat \<Rightarrow> directory \<Rightarrow> SegmentId \<Rightarrow> SegmentId \<Rightarrow> u32 \<Rightarrow> bool" where
  "subversion_room n d a b v \<longleftrightarrow> (\<forall>s \<in> subversions d a b v. unat s + n < unat (UINT32_MAX - 1))"

lemma subversion_room_ok: "subversion_room n d a b v \<Longrightarrow> subversions_ok d a b v"
  by (force simp: subversion_room_def subversions_ok_def subversions_def word_less_nat_alt)

lemma subversion_room_step:
  assumes "subversion_room (Suc n) d a b v" "n < unat (UINT32_MAX - 1)"
  shows "subversion_room n (write_next_bitmap d a b v bs dc) a b v"
  using subversions_after(2) [OF subversion_room_ok [OF assms(1)], of bs dc] next_subversion_bound [OF _ assms(2), of d a b v] assms(1)
  by (force simp: subversion_room_def)

text \<open>A worker that always asks for a retry: the attempts are repeated on the same file, which keeps its tombstones.\<close>

lemma retried_attempts:
  assumes "find_disk_segment_for_sid d (vt_sid hdr) = Some (a, b, v)" "on_disk d a b v g"
    and "offset_index_for_sid (ds_offsets g) (length (ds_offsets g)) (vt_sid hdr) = Some i"
    and "end_offset (ds_offsets g ! i) \<le> ds_rows g" "subversion_room n d a b v" "n < unat (UINT32_MAX - 1)" "v \<noteq> UINT32_MAX"
    and "\<And>d'. notify a b v (d', w) = (1, d', w)"
    and "S = set (redo_marks hdr v (ds_mapping g) (ds_offsets g ! i))"
  shows "\<exists>d1 bm dc. disk_attempts notify (Suc n) hdr (d, w) = Some (True, d1, w)
    \<and> on_disk d1 a b v (g\<lparr>ds_bitmap := bm, ds_delete_count := dc\<rparr>)
    \<and> (\<forall>m. IS_SLOT_SET bm m \<longleftrightarrow> IS_SLOT_SET (ds_bitmap g) m \<or> m \<in> S)"
  using assms
proof (induction n arbitrary: d g)
  case 0
  let ?g = "redone hdr v (ds_offsets g ! i) g"
  from vacuum_attempt_target [OF 0(1-3) subversion_room_ok [OF 0(5)] 0(7)] obtain steps d1 where
    att: "vacuum_attempt d hdr = Wrote steps a b v" "foldl disk_apply d steps = d1" "on_disk d1 a b v ?g" by blast
  have len: "length (ds_bitmap g) = GET_BITMAP_SIZE (ds_rows g)" using 0(2) by (simp add: on_disk_def)
  note red = redone_spec [OF 0(4) len, of hdr v, folded 0(9)]
  have "disk_attempts notify (Suc 0) hdr (d, w) = Some (True, d1, w)" using att(1,2) 0(8) by simp
  moreover have "on_disk d1 a b v (g\<lparr>ds_bitmap := ds_bitmap ?g, ds_delete_count := ds_delete_count ?g\<rparr>)"
    using att(3) unfolding red(3) [symmetric] .
  ultimately show ?case using red(1) by blast
next
  case (Suc n)
  let ?g = "redone hdr v (ds_offsets g ! i) g"
  let ?d = "write_next_bitmap d a b v (ds_bitmap ?g) (ds_delete_count ?g)"
  from vacuum_attempt_target [OF Suc.prems(1-3) subversion_room_ok [OF Suc.prems(5)] Suc.prems(7)] obtain steps where
    att: "vacuum_attempt d hdr = Wrote steps a b v" "foldl disk_apply d steps = ?d" "on_disk ?d a b v ?g" by blast
  have len: "length (ds_bitmap g) = GET_BITMAP_SIZE (ds_rows g)" using Suc.prems(2) by (simp add: on_disk_def)
  note red = redone_spec [OF Suc.prems(4) len, of hdr v, folded Suc.prems(9)]
  have sel: "ds_offsets ?g = ds_offsets g" "ds_rows ?g = ds_rows g" "ds_mapping ?g = ds_mapping g"
    by (subst red(3), simp)+
  have find: "find_disk_segment_for_sid ?d (vt_sid hdr) = Some (a, b, v)"
    using Suc.prems(1) by (simp add: find_disk_segment_for_sid_def next_bitmap_keeps(4) [OF Suc.prems(7)])
  have room: "subversion_room n ?d a b v" using Suc.prems(5,6) by (intro subversion_room_step) simp_all
  have "\<exists>d1 bm dc. disk_attempts notify (Suc n) hdr (?d, w) = Some (True, d1, w)
      \<and> on_disk d1 a b v (?g\<lparr>ds_bitmap := bm, ds_delete_count := dc\<rparr>)
      \<and> (\<forall>m. IS_SLOT_SET bm m \<longleftrightarrow> IS_SLOT_SET (ds_bitmap ?g) m \<or> m \<in> S)"
    by (rule Suc.IH [OF find att(3)]) (use Suc.prems room in \<open>simp_all add: sel\<close>)
  then obtain d1 bm dc where ih: "disk_attempts notify (Suc n) hdr (?d, w) = Some (True, d1, w)"
    "on_disk d1 a b v (?g\<lparr>ds_bitmap := bm, ds_delete_count := dc\<rparr>)"
    "\<forall>m. IS_SLOT_SET bm m \<longleftrightarrow> IS_SLOT_SET (ds_bitmap ?g) m \<or> m \<in> S" by blast
  have "?g\<lparr>ds_bitmap := bm, ds_delete_count := dc\<rparr> = g\<lparr>ds_bitmap := bm, ds_delete_count := dc\<rparr>" by (subst red(3)) simp
  moreover have "disk_attempts notify (Suc (Suc n)) hdr (d, w) = disk_attempts notify (Suc n) hdr (?d, w)"
    by (subst disk_attempts.simps) (simp only: att(1,2) Suc.prems(8) attempt_result.case prod.case simp_thms if_True)
  ultimately show ?case using ih red(1) by (intro exI [of _ d1] exI [of _ bm] exI [of _ dc]) simp
qed

section \<open>The refresh of the pool\<close>

lemma or_bitmap_length [simp]: "length (or_bitmap n bm new) = length bm"
  unfolding or_bitmap_def by (induction n) auto

lemma or_bitmap_nth:
  "n \<le> length bm \<Longrightarrow> k < length bm \<Longrightarrow> or_bitmap n bm new ! k = (if k < n then bm ! k OR new ! k else bm ! k)"
proof (induction n)
  case (Suc n)
  have step: "or_bitmap (Suc n) bm new = (or_bitmap n bm new)[n := or_bitmap n bm new ! n OR new ! n]"
    by (simp add: or_bitmap_def)
  show ?case using Suc unfolding step by (auto simp: nth_list_update_if less_Suc_eq)
qed (simp add: or_bitmap_def)

lemma or_bitmap_test:
  assumes "length bm = GET_BITMAP_SIZE n" "m < n"
  shows "IS_SLOT_SET (or_bitmap (GET_BITMAP_SIZE n) bm new) m \<longleftrightarrow> IS_SLOT_SET bm m \<or> IS_SLOT_SET new m"
proof -
  have "m div 8 < GET_BITMAP_SIZE n" using assms(2) by (simp add: GET_BITMAP_SIZE_def)
  with assms(1) show ?thesis by (simp add: IS_SLOT_SET_bit or_bitmap_nth bit_or_iff)
qed

lemma segment_update_vacuum_refreshes:
  assumes "pool_inv pool xs" "find_segment_by_sids pool a b = Some (Some i)" "version (flushed_segments pool i) = v"
  shows "\<exists>p. segment_update_vacuum got_lock a b v d pool = Some (0, p)
    \<and> flushed_segments p = (flushed_segments pool)
        (i := refresh_bitmap (load_bitmap_file d a b UINT32_MAX) (flushed_segments pool i))"
proof -
  have links: "pool_links pool xs" using assms(1) by (simp add: pool_inv_def)
  have i: "i \<in> set xs" "in_used (flushed_segments pool i)"
    using assms(2) find_segment_by_sids_pool [OF links] by (auto simp: find_Some_iff in_set_conv_nth)
  then have ref: "ref_count (flushed_segments pool i) \<ge> 1" using assms(1) by (auto simp: pool_inv_def pool_live_def)
  let ?p = "upd_seg i (\<lambda>s. s\<lparr>ref_count := ref_count s + 1\<rparr>) pool"
  have links': "pool_links ?p xs" by (rule pool_links_upd_other [OF links]) simp
  have fn: "(\<lambda>k. in_used (flushed_segments ?p k) \<and> sid_start ?p k = a \<and> sid_end ?p k = b) =
      (\<lambda>k. in_used (flushed_segments pool k) \<and> sid_start pool k = a \<and> sid_end pool k = b)"
    by auto
  have "find_segment_by_sids ?p a b = find_segment_by_sids pool a b"
    unfolding find_segment_by_sids_pool [OF links'] find_segment_by_sids_pool [OF links] fn ..
  then have live: "find_segment_by_sids ?p a b = Some (Some i)" using assms(2) by simp
  let ?q = "upd_seg i (refresh_bitmap (load_bitmap_file d a b UINT32_MAX)) ?p"
  have "segment_update_vacuum got_lock a b v d pool = Some (0, decrement_flushed_segment_ref_count got_lock i ?q)"
    using assms(2,3) i(2) live by (simp add: segment_update_vacuum_def Let_def)
  moreover have "flushed_segments (decrement_flushed_segment_ref_count got_lock i ?q) =
      (flushed_segments pool)(i := refresh_bitmap (load_bitmap_file d a b UINT32_MAX) (flushed_segments pool i))"
    using ref by (auto simp: decrement_sel dec_seg_def refresh_bitmap_def split: option.splits)
  ultimately show ?thesis by blast
qed

text \<open>A segment that is not in the pool, or there with another version, makes the worker ask for a retry.\<close>

lemma segment_update_vacuum_retries:
  assumes "pool_inv pool xs" "\<And>k. find_segment_by_sids pool a b = Some (Some k) \<Longrightarrow> version (flushed_segments pool k) \<noteq> v"
  shows "segment_update_vacuum got_lock a b v d pool = Some (1, pool)"
proof -
  have links: "pool_links pool xs" using assms(1) by (simp add: pool_inv_def)
  show ?thesis
  proof (cases "find_segment_by_sids pool a b")
    case None
    then show ?thesis by (simp add: find_segment_by_sids_pool [OF links])
  next
    case (Some found)
    show ?thesis
    proof (cases found)
      case None
      then show ?thesis by (simp add: segment_update_vacuum_def Some)
    next
      case k: (Some k)
      have "k \<in> set xs" using Some k find_segment_by_sids_pool [OF links] by (auto simp: find_Some_iff in_set_conv_nth)
      then have "ref_count (flushed_segments pool k) \<noteq> 0" using assms(1) by (auto simp: pool_inv_def pool_live_def)
      then have "decrement_flushed_segment_ref_count got_lock k (upd_seg k (\<lambda>s. s\<lparr>ref_count := ref_count s + 1\<rparr>) pool) = pool"
        by (simp add: decrement_flushed_segment_ref_count_def upd_seg_def)
      then show ?thesis using assms(2) [of k] by (simp add: segment_update_vacuum_def Some k Let_def)
    qed
  qed
qed

text \<open>The worker as the other end of the notification; a walk that does not end gives no status.\<close>

definition worker_notifier :: "bool \<Rightarrow> FlushedSegmentPool notifier" where
  "worker_notifier got_lock a b v dw =
     (case segment_update_vacuum got_lock a b v (fst dw) (snd dw) of
        None \<Rightarrow> (-1, dw) | Some (status, pool) \<Rightarrow> (status, fst dw, pool))"


section \<open>Examples\<close>

definition i64_bytes :: "u8 \<Rightarrow> u8 list" where "i64_bytes k = k # replicate 7 0"

definition offset_bytes :: "u8 \<Rightarrow> u8 \<Rightarrow> u8 \<Rightarrow> u8 list" where
  "offset_bytes sid lo hi = i64_bytes sid @ i64_bytes lo @ i64_bytes hi"

text \<open>A segment [3,4] with two rows per id; row 3 is deleted already.\<close>

definition redo_directory :: directory where
  "redo_directory =
     [(''metadata_3_4_v1'', [3, 0, 0, 0, 4, 0, 0, 0, 4, 0, 0, 0, 2, 0, 0, 0]),
      (''bitmap_3_4_v1.0'', [1, 0, 0, 0, 8]),
      (''mapping_3_4_v1.0'', concat (map i64_bytes [11, 12, 21, 22])),
      (''offset_3_4_v1.0'', offset_bytes 3 0 2 @ offset_bytes 4 2 4)]"

definition redo_segment :: disk_segment where
  "redo_segment = \<lparr>ds_rows = 4, ds_mapping = [11, 12, 21, 22],
     ds_offsets = [\<lparr>off_sid = 3, start_offset = 0, end_offset = 2\<rparr>, \<lparr>off_sid = 4, start_offset = 2, end_offset = 4\<rparr>],
     ds_bitmap = [8], ds_delete_count = 1\<rparr>"

text \<open>Written on the primary against its memtable of id 3.\<close>

definition redo_record :: vacuum_tombstones where
  "redo_record = \<lparr>vt_sid = 3, owner_version = 0, is_memtable_owner = True,
     vt_entries = [\<lparr>sid_local_idx = 5, ve_tid = 12\<rparr>]\<rparr>"

lemma redo_example_scan:
  "scan_segment_metadata_files redo_directory MAX_SEGMENTS_COUNT =
    [\<lparr>fi_start_sid = 3, fi_end_sid = 4, fi_version = 1\<rparr>]"
  by code_simp

lemma redo_example_files:
  "read_lsm_segment_metadata redo_directory 3 4 1 = Some (3, 4, 4, 2)"
  "load_bitmap_file redo_directory 3 4 1 = ([8], Some 1)"
  "load_mapping_file redo_directory 3 4 1 = concat (map i64_bytes [11, 12, 21, 22])"
  "load_offset_file redo_directory 3 4 1 = Some (offset_bytes 3 0 2 @ offset_bytes 4 2 4)"
  by code_simp+

lemma redo_example_decode:
  "decode_mapping (concat (map i64_bytes [11, 12, 21, 22])) = [11, 12, 21, 22]"
  "decode_offsets 2 (offset_bytes 3 0 2 @ offset_bytes 4 2 4) = ds_offsets redo_segment"
proof -
  have bytes: "offset_bytes 3 0 2 @ offset_bytes 4 2 4 = [3, 0, 0, 0, 0, 0, 0, 0, 0, 0, 0, 0, 0, 0, 0, 0, 2, 0, 0, 0, 0, 0, 0, 0,
      4, 0, 0, 0, 0, 0, 0, 0, 2, 0, 0, 0, 0, 0, 0, 0, 4, 0, 0, 0, 0, 0, 0, 0]"
    by code_simp
  show "decode_offsets 2 (offset_bytes 3 0 2 @ offset_bytes 4 2 4) = ds_offsets redo_segment"
    unfolding bytes decode_offsets_def redo_segment_def by (simp add: upt_rec bytes_nat_def Let_def)
  have bytes: "concat (map i64_bytes [11, 12, 21, 22]) = [11, 0, 0, 0, 0, 0, 0, 0, 12, 0, 0, 0, 0, 0, 0, 0,
      21, 0, 0, 0, 0, 0, 0, 0, 22, 0, 0, 0, 0, 0, 0, 0]"
    by code_simp
  show "decode_mapping (concat (map i64_bytes [11, 12, 21, 22])) = [11, 12, 21, 22]"
    unfolding bytes decode_mapping_def by (simp add: upt_rec bytes_nat_def)
qed

lemma redo_example:
  "on_disk redo_directory 3 4 1 redo_segment" "subversions_ok redo_directory 3 4 1"
  "find_latest_segment_version redo_directory 3 4 = 1"
proof -
  show "on_disk redo_directory 3 4 1 redo_segment"
    unfolding on_disk_def redo_example_files
    using redo_example_decode by (simp add: redo_segment_def GET_BITMAP_SIZE_def)
qed code_simp+

lemma redo_example_target: "find_disk_segment_for_sid redo_directory (vt_sid redo_record) = Some (3, 4, 1)"
  by (simp add: find_disk_segment_for_sid_def redo_example_scan first_from.simps redo_record_def)

lemma redo_example_order:
  "ascending_sids (ds_offsets redo_segment)" "\<not> fast_path redo_record 1"
  "entries_in_order redo_record (ds_mapping redo_segment) 0 2"
  by (simp_all add: ascending_sids_def redo_segment_def fast_path_def redo_record_def entries_in_order_def upt_rec)


section \<open>Properties\<close>

text \<open>C30: (functional) One attempt of replaying a vacuum record on the segment file whose range contains its segment
  id, for any answer of the worker. If the search in the offset table does not find the id, the file is not
  touched and the replay reports that nothing was applied. Otherwise the new bitmap is on disk before the worker
  is told: it keeps every tombstone, every new one is a row that the record names (by position if the primary
  vacuumed the same version as a segment, otherwise by tid among the rows of the id), and if the positions are
  used, or the record lists its rows in the order of the segment, every row the record names is deleted. The
  delete count is raised by the number of rows newly deleted, and the rest of the segment is unchanged. A worker
  that asks for a retry makes the replay start over, at most three more times; any other answer is success.\<close>

theorem vacuum_redo_marks_disk_rows:
  assumes "find_disk_segment_for_sid d (vt_sid hdr) = Some (a, b, v)" "on_disk d a b v g"
    and "\<forall>r \<in> set (ds_offsets g). end_offset r \<le> ds_rows g"
    and "subversions_ok d a b v" "v \<noteq> UINT32_MAX"
  shows "case offset_index_for_sid (ds_offsets g) (length (ds_offsets g)) (vt_sid hdr) of
      None \<Rightarrow> apply_to_disk_file_for_sid notify hdr (d, w) = Some (False, d, w)
    | Some i \<Rightarrow> \<exists>d1 bm dc.
        apply_to_disk_file_for_sid notify hdr (d, w) =
          (case notify a b v (d1, w) of (status, dw) \<Rightarrow> if status = 1 then disk_attempts notify 3 hdr dw else Some (True, dw))
      \<and> on_disk d1 a b v (g\<lparr>ds_bitmap := bm, ds_delete_count := dc\<rparr>)
      \<and> (\<forall>m. IS_SLOT_SET (ds_bitmap g) m \<longrightarrow> IS_SLOT_SET bm m)
      \<and> (\<forall>m. IS_SLOT_SET bm m \<longrightarrow> IS_SLOT_SET (ds_bitmap g) m \<or> m \<in> redo_rows hdr v (ds_mapping g) (ds_offsets g ! i))
      \<and> (fast_path hdr v
          \<or> entries_in_order hdr (ds_mapping g) (start_offset (ds_offsets g ! i)) (end_offset (ds_offsets g ! i))
          \<longrightarrow> (\<forall>m \<in> redo_rows hdr v (ds_mapping g) (ds_offsets g ! i). IS_SLOT_SET bm m))
      \<and> dc = ds_delete_count g + of_nat (card {m. IS_SLOT_SET bm m \<and> \<not> IS_SLOT_SET (ds_bitmap g) m})"
proof (cases "offset_index_for_sid (ds_offsets g) (length (ds_offsets g)) (vt_sid hdr)")
  case None
  then have "vacuum_attempt d hdr = NoTarget" by (rule vacuum_attempt_unknown [OF assms(1,2)])
  then show ?thesis by (simp add: None apply_to_disk_file_for_sid_def MAX_VACUUM_REDO_RETRIES_def numeral_eq_Suc)
next
  case (Some i)
  let ?g = "redone hdr v (ds_offsets g ! i) g" and ?S = "set (redo_marks hdr v (ds_mapping g) (ds_offsets g ! i))"
  obtain steps d1 where att: "vacuum_attempt d hdr = Wrote steps a b v" "foldl disk_apply d steps = d1" "on_disk d1 a b v ?g"
    using vacuum_attempt_target [OF assms(1,2) Some assms(4,5)] by blast
  have "i < length (ds_offsets g)" using offset_index_sound [OF Some] by simp
  then have fits: "end_offset (ds_offsets g ! i) \<le> ds_rows g" using assms(3) by simp
  have len: "length (ds_bitmap g) = GET_BITMAP_SIZE (ds_rows g)" using assms(2) by (simp add: on_disk_def)
  note red = redone_spec [OF fits len, of hdr v]
  have "apply_to_disk_file_for_sid notify hdr (d, w) =
      (case notify a b v (d1, w) of (status, dw) \<Rightarrow> if status = 1 then disk_attempts notify 3 hdr dw else Some (True, dw))"
  proof -
    have max: "MAX_VACUUM_REDO_RETRIES = Suc 3" by (simp add: MAX_VACUUM_REDO_RETRIES_def)
    show ?thesis unfolding apply_to_disk_file_for_sid_def max disk_attempts.simps(2) att(1,2) attempt_result.case ..
  qed
  moreover have "on_disk d1 a b v (g\<lparr>ds_bitmap := ds_bitmap ?g, ds_delete_count := ds_delete_count ?g\<rparr>)"
    using att(3) unfolding red(3) [symmetric] .
  moreover have "{m. IS_SLOT_SET (ds_bitmap ?g) m \<and> \<not> IS_SLOT_SET (ds_bitmap g) m} = {m \<in> ?S. \<not> IS_SLOT_SET (ds_bitmap g) m}"
    using red(1) by auto
  ultimately show ?thesis
    unfolding Some option.case
    using red(1,2) redo_marks_named [of hdr v] redo_marks_complete [of hdr v "ds_mapping g" "ds_offsets g ! i"]
    by (intro exI [of _ d1] exI [of _ "ds_bitmap ?g"] exI [of _ "ds_delete_count ?g"]) (simp add: subset_iff)
qed

lemma redo_example_index:
  "offset_index_for_sid (ds_offsets redo_segment) (length (ds_offsets redo_segment)) (vt_sid redo_record) = Some 0"
  using offset_index_found [OF redo_example_order(1), of 0] by (simp add: redo_segment_def redo_record_def)

theorem vacuum_redo_marks_disk_rows_witness:
  "\<exists>d1 bm dc. apply_to_disk_file_for_sid (\<lambda>a b v dw. (0, dw)) redo_record (redo_directory, ()) = Some (True, d1, ())
    \<and> on_disk d1 3 4 1 (redo_segment\<lparr>ds_bitmap := bm, ds_delete_count := dc\<rparr>)
    \<and> IS_SLOT_SET bm 1 \<and> IS_SLOT_SET bm 3 \<and> \<not> IS_SLOT_SET bm 2"
proof -
  have offs: "ds_offsets redo_segment ! 0 = \<lparr>off_sid = 3, start_offset = 0, end_offset = 2\<rparr>" by (simp add: redo_segment_def)
  have rows: "redo_rows redo_record 1 (ds_mapping redo_segment) (ds_offsets redo_segment ! 0) = {1}"
    using redo_example_order(2) by (auto simp: redo_rows_def offs redo_record_def redo_segment_def less_2_cases_iff)
  have old: "IS_SLOT_SET (ds_bitmap redo_segment) 3" "\<not> IS_SLOT_SET (ds_bitmap redo_segment) 2" by code_simp+
  have fits: "\<forall>r \<in> set (ds_offsets redo_segment). end_offset r \<le> ds_rows redo_segment" by (simp add: redo_segment_def)
  have order: "entries_in_order redo_record (ds_mapping redo_segment) (start_offset (ds_offsets redo_segment ! 0))
      (end_offset (ds_offsets redo_segment ! 0))"
    using redo_example_order(3) by (simp add: offs)
  have "\<exists>d1 bm dc. apply_to_disk_file_for_sid (\<lambda>a b v dw. (0, dw)) redo_record (redo_directory, ()) = Some (True, d1, ())
      \<and> on_disk d1 3 4 1 (redo_segment\<lparr>ds_bitmap := bm, ds_delete_count := dc\<rparr>)
      \<and> (\<forall>m. IS_SLOT_SET (ds_bitmap redo_segment) m \<longrightarrow> IS_SLOT_SET bm m)
      \<and> (\<forall>m. IS_SLOT_SET bm m \<longrightarrow> IS_SLOT_SET (ds_bitmap redo_segment) m \<or> m = 1) \<and> IS_SLOT_SET bm 1"
    using vacuum_redo_marks_disk_rows [OF redo_example_target redo_example(1) fits redo_example(2), of "\<lambda>a b v dw. (0, dw)" "()"]
      redo_example_index order rows
    by (simp add: word_eq_iff_unsigned) blast
  then show ?thesis using old by (metis numeral_eq_one_iff semiring_norm(85))
qed


text \<open>C31: (safety) Replay and the worker's refresh together, with no other thread between them, for a record that lists
  its rows in the order of the segment (or is applied by position) and a segment whose offset table the search
  can use. The replay reports success and the file has its old tombstones and the record's. If the pool holds
  the segment of that range at the version on disk, its copy then has its own tombstones and those of the file,
  and the delete count of the file, and no other segment of the pool changes. If the pool does not hold it, or
  at another version, the worker asks for a retry each time, the four attempts are used up, and the pool is as
  before: the tombstones are in the file only, for the next load.\<close>

theorem vacuum_redo_reaches_worker:
  assumes "find_disk_segment_for_sid d (vt_sid hdr) = Some (a, b, v)" "on_disk d a b v g"
    and "offset_index_for_sid (ds_offsets g) (length (ds_offsets g)) (vt_sid hdr) = Some i"
    and "end_offset (ds_offsets g ! i) \<le> ds_rows g"
    and "fast_path hdr v
      \<or> entries_in_order hdr (ds_mapping g) (start_offset (ds_offsets g ! i)) (end_offset (ds_offsets g ! i))"
    and "subversion_room 3 d a b v" "v \<noteq> UINT32_MAX" "SegmentFiles.find_latest_segment_version d a b = v"
    and "pool_inv pool xs"
    and "\<forall>k. find_segment_by_sids pool a b = Some (Some k) \<and> version (flushed_segments pool k) = v \<longrightarrow>
      unat (vec_count (flushed_segments pool k)) = ds_rows g
      \<and> (\<exists>pbm. bitmap_ptr (flushed_segments pool k) = Some pbm \<and> length pbm = GET_BITMAP_SIZE (ds_rows g))"
  shows "\<exists>d1 pool1 bm dc. apply_to_disk_file_for_sid (worker_notifier got_lock) hdr (d, pool) = Some (True, d1, pool1)
    \<and> on_disk d1 a b v (g\<lparr>ds_bitmap := bm, ds_delete_count := dc\<rparr>)
    \<and> (\<forall>m. IS_SLOT_SET bm m \<longleftrightarrow> IS_SLOT_SET (ds_bitmap g) m \<or> m \<in> redo_rows hdr v (ds_mapping g) (ds_offsets g ! i))
    \<and> (if \<exists>k. find_segment_by_sids pool a b = Some (Some k) \<and> version (flushed_segments pool k) = v
       then \<exists>k pbm pbm1. find_segment_by_sids pool a b = Some (Some k)
            \<and> bitmap_ptr (flushed_segments pool k) = Some pbm \<and> bitmap_ptr (flushed_segments pool1 k) = Some pbm1
            \<and> (\<forall>m < ds_rows g. IS_SLOT_SET pbm1 m \<longleftrightarrow> IS_SLOT_SET pbm m \<or> IS_SLOT_SET bm m)
            \<and> delete_count (flushed_segments pool1 k) = dc
            \<and> (\<forall>j. j \<noteq> k \<longrightarrow> flushed_segments pool1 j = flushed_segments pool j)
       else pool1 = pool)"
proof (cases "\<exists>k. find_segment_by_sids pool a b = Some (Some k) \<and> version (flushed_segments pool k) = v")
  case True
  then obtain k where k: "find_segment_by_sids pool a b = Some (Some k)" "version (flushed_segments pool k) = v" by blast
  then obtain pbm where pbm: "unat (vec_count (flushed_segments pool k)) = ds_rows g"
    "bitmap_ptr (flushed_segments pool k) = Some pbm" "length pbm = GET_BITMAP_SIZE (ds_rows g)" using assms(10) by blast
  let ?g = "redone hdr v (ds_offsets g ! i) g"
  define d1 where "d1 = write_next_bitmap d a b v (ds_bitmap ?g) (ds_delete_count ?g)"
  from vacuum_attempt_target [OF assms(1-3) subversion_room_ok [OF assms(6)] assms(7)] obtain steps where
    att: "vacuum_attempt d hdr = Wrote steps a b v" "foldl disk_apply d steps = d1" "on_disk d1 a b v ?g"
    by (auto simp: d1_def)
  have len: "length (ds_bitmap g) = GET_BITMAP_SIZE (ds_rows g)" using assms(2) by (simp add: on_disk_def)
  note red = redone_spec [OF assms(4) len, of hdr v, unfolded redo_marks_complete [OF assms(5)]]
  have latest: "SegmentFiles.find_latest_segment_version d1 a b = v"
    by (simp add: d1_def next_bitmap_keeps(5) [OF assms(7)] assms(8))
  have load: "load_bitmap_file d1 a b UINT32_MAX = (ds_bitmap ?g, Some (ds_delete_count ?g))"
    using att(3) assms(7) latest by (simp add: on_disk_def load_bitmap_file_def resolve_version_def)
  from segment_update_vacuum_refreshes [OF assms(9) k, of got_lock d1] obtain pool1 where
    up: "segment_update_vacuum got_lock a b v d1 pool = Some (0, pool1)"
      "flushed_segments pool1 = (flushed_segments pool)
        (k := refresh_bitmap (ds_bitmap ?g, Some (ds_delete_count ?g)) (flushed_segments pool k))"
    by (auto simp: load)
  have run: "apply_to_disk_file_for_sid (worker_notifier got_lock) hdr (d, pool) = Some (True, d1, pool1)"
    using att(1,2) up(1)
    by (simp add: apply_to_disk_file_for_sid_def MAX_VACUUM_REDO_RETRIES_def numeral_eq_Suc worker_notifier_def)
  have disk: "on_disk d1 a b v (g\<lparr>ds_bitmap := ds_bitmap ?g, ds_delete_count := ds_delete_count ?g\<rparr>)"
    using att(3) unfolding red(3) [symmetric] .
  have "bitmap_ptr (flushed_segments pool1 k) = Some (or_bitmap (GET_BITMAP_SIZE (ds_rows g)) pbm (ds_bitmap ?g))"
    by (simp add: up(2) refresh_bitmap_def pbm)
  moreover have "\<forall>m < ds_rows g. IS_SLOT_SET (or_bitmap (GET_BITMAP_SIZE (ds_rows g)) pbm (ds_bitmap ?g)) m \<longleftrightarrow>
      IS_SLOT_SET pbm m \<or> IS_SLOT_SET (ds_bitmap ?g) m" by (simp add: or_bitmap_test [OF pbm(3)])
  moreover have "delete_count (flushed_segments pool1 k) = ds_delete_count ?g" "\<forall>j. j \<noteq> k \<longrightarrow> flushed_segments pool1 j = flushed_segments pool j"
    by (simp_all add: up(2) refresh_bitmap_def)
  ultimately show ?thesis using run disk red(1) k(1) pbm(2) True by (simp only: if_True) blast
next
  case False
  then have "segment_update_vacuum got_lock a b v d' pool = Some (1, pool)" for d'
    by (intro segment_update_vacuum_retries [OF assms(9)]) blast
  then have notify: "worker_notifier got_lock a b v (d', pool) = (1, d', pool)" for d' by (simp add: worker_notifier_def)
  have max: "MAX_VACUUM_REDO_RETRIES = Suc 3" by (simp add: MAX_VACUUM_REDO_RETRIES_def)
  note retried = retried_attempts [where notify = "worker_notifier got_lock" and w = pool, OF assms(1-4,6) _ assms(7) notify refl]
  obtain d1 bm dc where "apply_to_disk_file_for_sid (worker_notifier got_lock) hdr (d, pool) = Some (True, d1, pool)"
    "on_disk d1 a b v (g\<lparr>ds_bitmap := bm, ds_delete_count := dc\<rparr>)"
    "\<forall>m. IS_SLOT_SET bm m \<longleftrightarrow> IS_SLOT_SET (ds_bitmap g) m \<or> m \<in> redo_rows hdr v (ds_mapping g) (ds_offsets g ! i)"
    using retried unfolding apply_to_disk_file_for_sid_def max redo_marks_complete [OF assms(5)] by auto
  then show ?thesis unfolding if_not_P [OF False] by (intro exI [of _ d1] exI [of _ pool] exI [of _ bm] exI [of _ dc]) simp
qed

definition redo_pool :: FlushedSegmentPool where
  "redo_pool = ex_pool\<lparr>flushed_segments := (flushed_segments ex_pool)
     (0 := (ex_seg 3 4 None (Some 1) 1)\<lparr>vec_count := 4, bitmap_ptr := Some [0]\<rparr>)\<rparr>"

lemma redo_pool_facts:
  "pool_inv redo_pool [0, 1]" "find_segment_by_sids redo_pool 3 4 = Some (Some 0)"
proof -
  show inv: "pool_inv redo_pool [0, 1]"
    by (simp add: redo_pool_def pool_inv_def pool_links_def pool_live_def pool_sorted_def ex_pool_def ex_seg_def
        MAX_SEGMENTS_COUNT_def)
  then have "pool_links redo_pool [0, 1]" by (simp add: pool_inv_def)
  from find_segment_by_sids_pool [OF this] show "find_segment_by_sids redo_pool 3 4 = Some (Some 0)"
    by (simp add: redo_pool_def ex_pool_def ex_seg_def)
qed

theorem vacuum_redo_reaches_worker_witness:
  "\<exists>d1 pool1 pbm1. apply_to_disk_file_for_sid (worker_notifier False) redo_record (redo_directory, redo_pool) = Some (True, d1, pool1)
    \<and> bitmap_ptr (flushed_segments pool1 0) = Some pbm1 \<and> IS_SLOT_SET pbm1 1 \<and> IS_SLOT_SET pbm1 3"
proof -
  have rows: "1 \<in> redo_rows redo_record 1 (ds_mapping redo_segment) (ds_offsets redo_segment ! 0)"
    using redo_example_order(2) by (simp add: redo_rows_def redo_record_def redo_segment_def)
  have old: "IS_SLOT_SET (ds_bitmap redo_segment) 3" "ds_rows redo_segment = 4"
    by (simp_all add: redo_segment_def IS_SLOT_SET_bit bit_iff_odd_drop_bit)
  have pool: "version (flushed_segments redo_pool 0) = 1" "unat (vec_count (flushed_segments redo_pool 0)) = ds_rows redo_segment"
    "bitmap_ptr (flushed_segments redo_pool 0) = Some [0]" "length [0 :: u8] = GET_BITMAP_SIZE (ds_rows redo_segment)"
    by (simp_all add: redo_pool_def ex_seg_def redo_segment_def GET_BITMAP_SIZE_def)
  have "subversions redo_directory 3 4 1 = {}" by code_simp
  then have room: "subversion_room 3 redo_directory 3 4 1" by (simp add: subversion_room_def)
  have fits: "end_offset (ds_offsets redo_segment ! 0) \<le> ds_rows redo_segment" by (simp add: redo_segment_def)
  have order: "fast_path redo_record 1 \<or> entries_in_order redo_record (ds_mapping redo_segment) (start_offset (ds_offsets redo_segment ! 0))
      (end_offset (ds_offsets redo_segment ! 0))"
    using redo_example_order(3) by (simp add: redo_segment_def)
  have held: "\<exists>k. find_segment_by_sids redo_pool 3 4 = Some (Some k) \<and> version (flushed_segments redo_pool k) = 1"
    using redo_pool_facts(2) pool(1) by blast
  have side: "\<forall>k. find_segment_by_sids redo_pool 3 4 = Some (Some k) \<and> version (flushed_segments redo_pool k) = 1 \<longrightarrow>
      unat (vec_count (flushed_segments redo_pool k)) = ds_rows redo_segment
      \<and> (\<exists>pbm. bitmap_ptr (flushed_segments redo_pool k) = Some pbm \<and> length pbm = GET_BITMAP_SIZE (ds_rows redo_segment))"
    using redo_pool_facts(2) pool(2-4) by auto
  have proper: "(1 :: u32) \<noteq> UINT32_MAX" by simp
  note run = vacuum_redo_reaches_worker [OF redo_example_target redo_example(1) redo_example_index fits order room proper redo_example(3)
      redo_pool_facts(1) side, of False, unfolded if_P [OF held]]
  obtain d1 pool1 bm k pbm pbm1 where got:
    "apply_to_disk_file_for_sid (worker_notifier False) redo_record (redo_directory, redo_pool) = Some (True, d1, pool1)"
    "\<forall>m. IS_SLOT_SET bm m \<longleftrightarrow> IS_SLOT_SET (ds_bitmap redo_segment) m
       \<or> m \<in> redo_rows redo_record 1 (ds_mapping redo_segment) (ds_offsets redo_segment ! 0)"
    "find_segment_by_sids redo_pool 3 4 = Some (Some k)" "bitmap_ptr (flushed_segments pool1 k) = Some pbm1"
    "\<forall>m < ds_rows redo_segment. IS_SLOT_SET pbm1 m \<longleftrightarrow> IS_SLOT_SET pbm m \<or> IS_SLOT_SET bm m"
    using run by (elim exE conjE) (rule that)
  have "k = 0" using got(3) redo_pool_facts(2) by simp
  moreover have "IS_SLOT_SET bm 1" "IS_SLOT_SET bm 3" using got(2) rows old(1) by blast+
  then have "IS_SLOT_SET pbm1 1" "IS_SLOT_SET pbm1 3" using got(5) by (simp_all add: old(2))
  ultimately show ?thesis using got(1,4) by blast
qed


text \<open>The rows a record deletes from a memtable.\<close>

definition memtable_redo_rows :: "vacuum_tombstones \<Rightarrow> MemTable \<Rightarrow> nat set" where
  "memtable_redo_rows hdr mt =
     (if is_memtable_owner hdr
      then {m. m < mt_capacity mt \<and> (\<exists>e \<in> set (vt_entries hdr). m = unat (sid_local_idx e))}
      else {m. m < valid_rows mt \<and> (\<exists>e \<in> set (vt_entries hdr). mt_tids mt ! m = ve_tid e)})"

lemma fold_capacity_check:
  "foldl (\<lambda>bm e. if unat (sid_local_idx e) < n then SET_SLOT bm (unat (sid_local_idx e)) else bm) bm es =
    foldl SET_SLOT bm (filter (\<lambda>m. m < n) (map (unat \<circ> sid_local_idx) es))"
  by (induction es arbitrary: bm) auto

lemma apply_entries_spec:
  assumes "\<forall>m < mt_capacity mt. in_bitmap (mt_bitmap mt) m"
    and "is_memtable_owner hdr \<or> entries_in_order hdr (mt_tids mt) 0 (valid_rows mt)"
  shows "IS_SLOT_SET (mt_bitmap (apply_entries_to_memtable_locked hdr mt)) m \<longleftrightarrow>
    IS_SLOT_SET (mt_bitmap mt) m \<or> m \<in> memtable_redo_rows hdr mt"
proof (cases "is_memtable_owner hdr")
  case True
  with assms(1) show ?thesis
    by (auto simp: apply_entries_to_memtable_locked_def fold_capacity_check foldl_SET_SLOT memtable_redo_rows_def)
next
  case False
  then have "entries_in_order hdr (mt_tids mt) 0 (valid_rows mt)" using assms(2) by simp
  then have "matches (mt_tids mt) [0..<valid_rows mt] (map ve_tid (vt_entries hdr)) =
      filter (\<lambda>m. mt_tids mt ! m \<in> set (map ve_tid (vt_entries hdr))) [0..<valid_rows mt]"
    unfolding entries_in_order_def by (intro matches_filter) auto
  moreover have "(if current_size mt > mt_capacity mt then mt_capacity mt else current_size mt) = valid_rows mt"
    by (simp add: valid_rows_def min_def)
  ultimately show ?thesis
    using False assms(1) valid_rows_le [of mt]
    by (auto simp: apply_entries_to_memtable_locked_def walk_folds foldl_SET_SLOT memtable_redo_rows_def)
qed

lemma find_memtable_for_sid_iff:
  "find_memtable_for_sid lsm buf sid = None \<longleftrightarrow>
    (\<forall>i < memtable_count lsm. memtable_idxs lsm ! i \<ge> 0 \<longrightarrow> memtable_id (MT_FROM_SLOTIDX buf (memtable_idxs lsm ! i)) \<noteq> sid)
    \<and> (growing_memtable_idx lsm \<in> {MT_IDX_INVALID, MT_IDX_ROTATING}
       \<or> memtable_id (MT_FROM_SLOTIDX buf (growing_memtable_idx lsm)) \<noteq> sid)"
  by (auto simp: find_memtable_for_sid_def first_from_None_iff split: option.splits dest!: first_from_SomeD)

text \<open>A vacuum record reaches the memtable of its segment id whenever that memtable is registered, sealed or
  growing: if the slot still belongs to the id after the lock was dropped, exactly the record's rows are
  added to its tombstones (by slot if the primary vacuumed its memtable, by tid over the rows in
  use otherwise) and no other memtable changes; without such a memtable nothing is touched.\<close>

theorem memtable_redo_exact:
  fixes hdr :: vacuum_tombstones and i :: int
  assumes "find_memtable_for_sid lsm buf (vt_sid hdr) = Some i"
    and "0 \<le> i" "nat i < length (between buf)" "memtable_id (MT_FROM_SLOTIDX (between buf) i) = vt_sid hdr"
    and "\<forall>m < mt_capacity (MT_FROM_SLOTIDX (between buf) i). in_bitmap (mt_bitmap (MT_FROM_SLOTIDX (between buf) i)) m"
    and "is_memtable_owner hdr \<or> entries_in_order hdr (mt_tids (MT_FROM_SLOTIDX (between buf) i)) 0
        (valid_rows (MT_FROM_SLOTIDX (between buf) i))"
  shows "\<exists>buf'. apply_to_memtable_for_sid between lsm hdr buf = (True, buf')
    \<and> (\<forall>m. IS_SLOT_SET (mt_bitmap (MT_FROM_SLOTIDX buf' i)) m \<longleftrightarrow>
          IS_SLOT_SET (mt_bitmap (MT_FROM_SLOTIDX (between buf) i)) m
          \<or> m \<in> memtable_redo_rows hdr (MT_FROM_SLOTIDX (between buf) i))
    \<and> mt_tids (MT_FROM_SLOTIDX buf' i) = mt_tids (MT_FROM_SLOTIDX (between buf) i)
    \<and> (\<forall>j. j \<noteq> nat i \<longrightarrow> buf' ! j = between buf ! j)"
proof -
  let ?buf = "upd_mt i (apply_entries_to_memtable_locked hdr) (between buf)"
  have mt: "MT_FROM_SLOTIDX ?buf i = apply_entries_to_memtable_locked hdr (MT_FROM_SLOTIDX (between buf) i)"
    using assms(3) by (simp add: MT_FROM_SLOTIDX_def upd_mt_def)
  have "apply_to_memtable_for_sid between lsm hdr buf = (True, ?buf)"
    by (simp add: apply_to_memtable_for_sid_def assms(1,4) Let_def)
  moreover have "mt_tids (MT_FROM_SLOTIDX ?buf i) = mt_tids (MT_FROM_SLOTIDX (between buf) i)"
    by (simp add: mt apply_entries_to_memtable_locked_def Let_def)
  moreover have "\<forall>j. j \<noteq> nat i \<longrightarrow> ?buf ! j = between buf ! j" by (simp add: upd_mt_def)
  ultimately show ?thesis using apply_entries_spec [OF assms(5,6)] by (auto simp: mt)
qed

definition redo_buffer :: "MemtableBufferSlot list" where
  "redo_buffer = [\<lparr>mb_ref_count = 1, mb_mt = (example_memtable 8)
     \<lparr>memtable_id := 3, current_size := 2, mt_tids := [11, 12], mt_bitmap := [0]\<rparr>\<rparr>]"

definition redo_lsm :: LSMIndexData where
  "redo_lsm = \<lparr>indexRelId = 1, lx_index_type = HNSW, lx_dim = 2, lx_elem_size = 4, hnsw_m = 32,
     hnsw_ef_construction = 200, next_segment_id = 4, growing_memtable_idx = 0, growing_memtable_id = 3,
     memtable_idxs = [-1, -1, -1, -1], memtable_count = 0, flushed_not_released = [0, 0, 0, 0],
     flushed_not_released_count = 0, releasing_in_progress = False\<rparr>"

theorem memtable_redo_exact_witness:
  "\<exists>buf'. apply_to_memtable_for_sid id redo_lsm (redo_record\<lparr>is_memtable_owner := False\<rparr>) redo_buffer = (True, buf')
    \<and> IS_SLOT_SET (mt_bitmap (MT_FROM_SLOTIDX buf' 0)) 1"
proof -
  let ?hdr = "redo_record\<lparr>is_memtable_owner := False\<rparr>"
  have f: "find_memtable_for_sid redo_lsm redo_buffer (vt_sid ?hdr) = Some 0"
    by (simp add: find_memtable_for_sid_def redo_lsm_def redo_buffer_def redo_record_def first_from.simps
        MT_FROM_SLOTIDX_def MT_IDX_INVALID_def MT_IDX_ROTATING_def)
  have mt: "MT_FROM_SLOTIDX redo_buffer 0 = (example_memtable 8)
     \<lparr>memtable_id := 3, current_size := 2, mt_tids := [11, 12], mt_bitmap := [0]\<rparr>"
    by (simp add: redo_buffer_def MT_FROM_SLOTIDX_def)
  have "mt_capacity (example_memtable 8) = 8" by (simp add: example_memtable_def)
  then have rows: "valid_rows (MT_FROM_SLOTIDX redo_buffer 0) = 2" "mt_capacity (MT_FROM_SLOTIDX redo_buffer 0) = 8"
    by (simp_all add: mt valid_rows_def)
  have "memtable_id (MT_FROM_SLOTIDX (id redo_buffer) 0) = vt_sid ?hdr" by (simp add: mt redo_record_def)
  moreover have "\<forall>m < mt_capacity (MT_FROM_SLOTIDX (id redo_buffer) 0). in_bitmap (mt_bitmap (MT_FROM_SLOTIDX (id redo_buffer) 0)) m"
    unfolding id_apply rows by (simp add: mt in_bitmap_def)
  moreover have "is_memtable_owner ?hdr \<or> entries_in_order ?hdr (mt_tids (MT_FROM_SLOTIDX (id redo_buffer) 0)) 0
        (valid_rows (MT_FROM_SLOTIDX (id redo_buffer) 0))"
    unfolding id_apply rows by (simp add: mt redo_record_def entries_in_order_def upt_rec)
  moreover have "nat 0 < length (id redo_buffer)" by (simp add: redo_buffer_def)
  ultimately obtain buf' where
    "apply_to_memtable_for_sid id redo_lsm ?hdr redo_buffer = (True, buf')"
    "\<forall>m. IS_SLOT_SET (mt_bitmap (MT_FROM_SLOTIDX buf' 0)) m \<longleftrightarrow> IS_SLOT_SET (mt_bitmap (MT_FROM_SLOTIDX (id redo_buffer) 0)) m
        \<or> m \<in> memtable_redo_rows ?hdr (MT_FROM_SLOTIDX (id redo_buffer) 0)"
    using memtable_redo_exact [where between = id, OF f] by blast
  moreover have "1 \<in> memtable_redo_rows ?hdr (MT_FROM_SLOTIDX (id redo_buffer) 0)"
    unfolding memtable_redo_rows_def id_apply rows by (simp add: mt redo_record_def)
  ultimately show ?thesis by blast
qed

section \<open>Where replay fails\<close>

text \<open>After a merge whose later input was the larger one, the offset table lists the later segment id first
  (\<^verbatim>\<open>merge_adjacent_segments_pool\<close> puts the larger input in front), but \<^verbatim>\<open>offset_index_for_sid\<close> searches
  it as if it were ascending. A vacuum record for the earlier id then finds no target, and once the
  memtable of that id is gone its replay is the error that stops the startup process.\<close>

theorem merged_segment_stops_redo:
  assumes "find_disk_segment_for_sid d x = Some (x, x + 1, v)" "on_disk d x (x + 1) v g"
    and "ds_offsets g = mo_offsets (merge_rows seg0 seg1)"
    and "map off_sid (mi_offsets seg0) = [x]" "map off_sid (mi_offsets seg1) = [x + 1]"
    and "mi_count seg0 < mi_count seg1" "x < x + 1" "vt_sid hdr = x"
    and "find_memtable_for_sid lsm buf x = None"
  shows "dpv_apply_vacuum_tombstones between notify (Some lsm) hdr (buf, d, w) = None"
proof -
  obtain p y nrows ty where md: "read_lsm_segment_metadata d x (x + 1) v = Some (p, y, nrows, ty)"
    using assms(2) by (auto simp: on_disk_def split: option.splits)
  obtain ob where ob: "load_offset_file d x (x + 1) v = Some ob" "ds_offsets g = decode_offsets 2 ob"
    using assms(2) by (auto simp: on_disk_def)
  have offs: "map off_sid (ds_offsets g) = [x + 1, x]"
    using assms(4-6) by (simp add: assms(3) merge_rows_def Let_def larger_input_def smaller_input_def comp_def shift_offset_def)
  then have "off_sid (ds_offsets g ! 0) = x + 1" by (metis length_greater_0_conv list.distinct(1) length_map nth_Cons_0 nth_map)
  then have "offset_index_for_sid (ds_offsets g) 2 x = None"
    using assms(7) by (simp add: offset_index_for_sid_def bsearch_sid.simps Let_def)
  then have "vacuum_attempt d hdr = NoTarget"
    using md by (simp add: vacuum_attempt_def assms(1,8) ob(1) ob(2) [symmetric] Let_def)
  then have "apply_to_disk_file_for_sid notify hdr (d, w) = Some (False, d, w)"
    by (simp add: apply_to_disk_file_for_sid_def MAX_VACUUM_REDO_RETRIES_def numeral_eq_Suc)
  then show ?thesis
    by (simp add: dpv_apply_vacuum_tombstones_def apply_to_memtable_for_sid_def assms(8,9))
qed

text \<open>The merge of segment 3 (one row) with segment 4 (three rows).\<close>

definition merged_directory :: directory where
  "merged_directory =
     [(''metadata_3_4_v1'', [3, 0, 0, 0, 4, 0, 0, 0, 4, 0, 0, 0, 2, 0, 0, 0]),
      (''bitmap_3_4_v1.0'', [0, 0, 0, 0, 0]),
      (''mapping_3_4_v1.0'', concat (map i64_bytes [21, 22, 23, 11])),
      (''offset_3_4_v1.0'', offset_bytes 4 0 3 @ offset_bytes 3 3 4)]"

definition merged_segment :: disk_segment where
  "merged_segment = \<lparr>ds_rows = 4, ds_mapping = [21, 22, 23, 11],
     ds_offsets = [\<lparr>off_sid = 4, start_offset = 0, end_offset = 3\<rparr>, \<lparr>off_sid = 3, start_offset = 3, end_offset = 4\<rparr>],
     ds_bitmap = [0], ds_delete_count = 0\<rparr>"

definition merged_input :: "SegmentId \<Rightarrow> i64 list \<Rightarrow> merge_input" where
  "merged_input sid tids = \<lparr>mi_count = length tids, mi_mapping = tids,
     mi_offsets = [\<lparr>off_sid = sid, start_offset = 0, end_offset = length tids\<rparr>], mi_fresh_bitmap = [0], mi_fresh_dc = 0\<rparr>"

lemma merged_example:
  "find_disk_segment_for_sid merged_directory 3 = Some (3, 4, 1)" "on_disk merged_directory 3 4 1 merged_segment"
proof -
  have "scan_segment_metadata_files merged_directory MAX_SEGMENTS_COUNT =
      [\<lparr>fi_start_sid = 3, fi_end_sid = 4, fi_version = 1\<rparr>]"
    by code_simp
  then show "find_disk_segment_for_sid merged_directory 3 = Some (3, 4, 1)"
    by (simp add: find_disk_segment_for_sid_def first_from.simps)
  have files: "read_lsm_segment_metadata merged_directory 3 4 1 = Some (3, 4, 4, 2)"
    "load_bitmap_file merged_directory 3 4 1 = ([0], Some 0)"
    "load_mapping_file merged_directory 3 4 1 = concat (map i64_bytes [21, 22, 23, 11])"
    "load_offset_file merged_directory 3 4 1 = Some (offset_bytes 4 0 3 @ offset_bytes 3 3 4)"
    by code_simp+
  have bytes: "offset_bytes 4 0 3 @ offset_bytes 3 3 4 = [4, 0, 0, 0, 0, 0, 0, 0, 0, 0, 0, 0, 0, 0, 0, 0, 3, 0, 0, 0, 0, 0, 0, 0,
      3, 0, 0, 0, 0, 0, 0, 0, 3, 0, 0, 0, 0, 0, 0, 0, 4, 0, 0, 0, 0, 0, 0, 0]"
    "concat (map i64_bytes [21, 22, 23, 11]) = [21, 0, 0, 0, 0, 0, 0, 0, 22, 0, 0, 0, 0, 0, 0, 0,
      23, 0, 0, 0, 0, 0, 0, 0, 11, 0, 0, 0, 0, 0, 0, 0]"
    by code_simp+
  have "decode_offsets 2 (offset_bytes 4 0 3 @ offset_bytes 3 3 4) = ds_offsets merged_segment"
    unfolding bytes decode_offsets_def merged_segment_def by (simp add: upt_rec bytes_nat_def Let_def)
  moreover have "decode_mapping (concat (map i64_bytes [21, 22, 23, 11])) = [21, 22, 23, 11]"
    unfolding bytes decode_mapping_def by (simp add: upt_rec bytes_nat_def)
  ultimately show "on_disk merged_directory 3 4 1 merged_segment"
    unfolding on_disk_def files by (simp add: merged_segment_def GET_BITMAP_SIZE_def)
qed

theorem merged_segment_stops_redo_witness:
  "dpv_apply_vacuum_tombstones id (\<lambda>a b v dw. (0, dw)) (Some (redo_lsm\<lparr>growing_memtable_idx := -1\<rparr>))
     (redo_record\<lparr>vt_entries := [\<lparr>sid_local_idx = 0, ve_tid = 11\<rparr>]\<rparr>) ([], merged_directory, ()) = None"
proof -
  have "find_memtable_for_sid (redo_lsm\<lparr>growing_memtable_idx := -1\<rparr>) [] 3 = None"
    by (simp add: find_memtable_for_sid_def redo_lsm_def first_from.simps MT_IDX_INVALID_def)
  moreover have "ds_offsets merged_segment = mo_offsets (merge_rows (merged_input 3 [11]) (merged_input 4 [21, 22, 23]))"
    by (simp add: merged_segment_def merged_input_def merge_rows_def Let_def larger_input_def smaller_input_def shift_offset_def)
  ultimately show ?thesis
    using merged_segment_stops_redo [of merged_directory 3 1 merged_segment "merged_input 3 [11]" "merged_input 4 [21, 22, 23]"
        "redo_record\<lparr>vt_entries := [\<lparr>sid_local_idx = 0, ve_tid = 11\<rparr>]\<rparr>"] merged_example
    by (simp add: merged_input_def redo_record_def)
qed

text \<open>
  An entry whose tid the segment no longer has stops the walk: nothing that follows it in the record is
  marked, although only trailing entries are meant to be dropped.
\<close>

lemma unmatched_entry_blocks_record:
  assumes "\<not> fast_path hdr v" "vt_entries hdr = e # es"
    and "\<forall>m. start_offset r \<le> m \<longrightarrow> m < end_offset r \<longrightarrow> mapping ! m \<noteq> ve_tid e"
  shows "mark_segment_rows hdr v mapping r acc = acc"
proof -
  have "ve_tid e \<notin> set (map ((!) mapping) [start_offset r..<end_offset r])" using assms(3) by auto
  from matches_blocked [OF this] show ?thesis using assms(1,2) by (simp add: mark_segment_rows_def walk_folds)
qed

end
