(* ===== verification/Adoption.thy ===== *)
theory Adoption
  imports SegmentPool TombstoneWalks
begin

text \<open>
  Adoption of a fetched segment into the pool of a standby (\<^verbatim>\<open>segment_adoption.c\<close>): the decision which
  predecessors the new segment displaces, the transfer of their tombstones, and the replacement. The
  pool may change between the lock sections; that interference is an argument. Waiting for a mutex is
  not modelled, its effect (the pinned predecessors stay as validated) is.
\<close>

section \<open>Deciding\<close>

definition find_strictly_containing ::
  "FlushedSegmentPool \<Rightarrow> SegmentId \<Rightarrow> SegmentId \<Rightarrow> nat option option" where
  "find_strictly_containing pool a b =
     walk_find (\<lambda>s. in_used s \<and> segment_id_start s \<le> a \<and> segment_id_end s \<ge> b
                    \<and> \<not> (segment_id_start s = a \<and> segment_id_end s = b)) pool (head_idx pool)"

record PredSnap =
  ps_seg_idx :: nat
  ps_start :: SegmentId
  ps_end :: SegmentId
  ps_version :: u32

definition snap_of :: "FlushedSegmentPool \<Rightarrow> nat \<Rightarrow> PredSnap" where
  "snap_of pool i =
     (let s = flushed_segments pool i
      in \<lparr>ps_seg_idx = i, ps_start = segment_id_start s, ps_end = segment_id_end s, ps_version = version s\<rparr>)"

text \<open>\<^verbatim>\<open>for (s = lo; s < hi; s++)\<close>: every id is in \<^verbatim>\<open>memtable_cover\<close>.\<close>

definition gap_covered :: "SegmentId list \<Rightarrow> SegmentId \<Rightarrow> SegmentId \<Rightarrow> bool" where
  "gap_covered cover lo hi \<longleftrightarrow> (\<forall>s \<in> set [unat lo..<unat hi]. of_nat s \<in> set cover)"

text \<open>
  The walk of the cases D and E. It returns \<open>tile_ok\<close>, the next id to cover and the displaced segments.
\<close>

partial_function (option) tile_walk ::
  "FlushedSegmentPool \<Rightarrow> SegmentId \<Rightarrow> SegmentId \<Rightarrow> SegmentId list \<Rightarrow> nat option \<Rightarrow> SegmentId \<Rightarrow> PredSnap list
     \<Rightarrow> (bool \<times> SegmentId \<times> PredSnap list) option" where
  "tile_walk pool a b cover cur tile_lo snaps =
     (case cur of
        None \<Rightarrow> Some (True, tile_lo, snaps)
      | Some i \<Rightarrow>
          let s = flushed_segments pool i in
          if segment_id_end s < a then
            (if next_idx s = head_idx pool then Some (True, tile_lo, snaps)
             else tile_walk pool a b cover (next_idx s) tile_lo snaps)
          else if segment_id_start s > b then Some (True, tile_lo, snaps)
          else if segment_id_end s > b then Some (False, tile_lo, snaps)
          else if \<not> gap_covered cover tile_lo (segment_id_start s) then Some (False, tile_lo, snaps)
          else if length snaps \<ge> MAX_SEGMENTS_COUNT then Some (False, tile_lo, snaps)
          else tile_walk pool a b cover (next_idx s) (segment_id_end s + 1) (snaps @ [snap_of pool i]))"

text \<open>
  The trailing ids up to and including \<open>b\<close>. The counter of the C loop cannot exceed \<^verbatim>\<open>UINT32_MAX\<close>, so with
  \<open>b = UINT32_MAX\<close> it ends at an uncovered id or never.
\<close>

definition trailing_covered :: "SegmentId list \<Rightarrow> SegmentId \<Rightarrow> SegmentId \<Rightarrow> bool option" where
  "trailing_covered cover lo b =
     (if \<forall>s \<in> set [unat lo..<Suc (unat b)]. of_nat s \<in> set cover
      then (if b = UINT32_MAX then None else Some True) else Some False)"

datatype adopt_case = CaseA "PredSnap list" | CaseStale | CaseD | CaseE "PredSnap list"

definition decide_case ::
  "FlushedSegmentPool \<Rightarrow> SegmentId \<Rightarrow> SegmentId \<Rightarrow> u32 \<Rightarrow> SegmentId list \<Rightarrow> adopt_case option" where
  "decide_case pool a b ver cover =
     (case find_segment_by_sids pool a b of
        None \<Rightarrow> None
      | Some (Some i) \<Rightarrow>
          Some (if in_used (flushed_segments pool i) \<and> ver > version (flushed_segments pool i)
                then CaseA [snap_of pool i] else CaseStale)
      | Some None \<Rightarrow>
          (case find_strictly_containing pool a b of
             None \<Rightarrow> None
           | Some (Some i) \<Rightarrow> Some CaseStale
           | Some None \<Rightarrow>
               (case tile_walk pool a b cover (head_idx pool) a [] of
                  None \<Rightarrow> None
                | Some (False, tile_lo, snaps) \<Rightarrow> Some CaseStale
                | Some (True, tile_lo, snaps) \<Rightarrow>
                    (case trailing_covered cover tile_lo b of
                       None \<Rightarrow> None
                     | Some False \<Rightarrow> Some CaseStale
                     | Some True \<Rightarrow> Some (if snaps = [] then CaseD else CaseE snaps)))))"

section \<open>Carrying tombstones over\<close>

definition offsets_list :: "FlushedSegment \<Rightarrow> SegmentOffsetRange list" where
  "offsets_list s = take (unat (offsets_count s)) (case offsets s of None \<Rightarrow> [] | Some rs \<Rightarrow> rs)"

definition offsets_find :: "SegmentOffsetRange list \<Rightarrow> SegmentId \<Rightarrow> SegmentOffsetRange option" where
  "offsets_find rs sid = find (\<lambda>r. off_sid r = sid) rs"

definition row_positions :: "SegmentOffsetRange \<Rightarrow> nat list" where
  "row_positions r = [start_offset r..<end_offset r]"

definition add_applied :: "FlushedSegment \<Rightarrow> bitmap \<times> u32 \<Rightarrow> FlushedSegment" where
  "add_applied s acc =
     (case acc of (bm, applied) \<Rightarrow>
        s\<lparr>bitmap_ptr := Some bm, delete_count := (if applied > 0 then delete_count s + applied else delete_count s)\<rparr>)"

definition union_segment_bitmap_via_offset_merge :: "FlushedSegment \<Rightarrow> FlushedSegment \<Rightarrow> FlushedSegment" where
  "union_segment_bitmap_via_offset_merge new_seg old_seg =
     (case (bitmap_ptr old_seg, map_ptr old_seg, bitmap_ptr new_seg, map_ptr new_seg, offsets old_seg, offsets new_seg) of
        (Some old_bm, Some old_map, Some new_bm, Some new_map, Some _, Some _) \<Rightarrow>
          add_applied new_seg
            (foldl (\<lambda>acc r. case offsets_find (offsets_list old_seg) (off_sid r) of
                      None \<Rightarrow> acc
                    | Some old_r \<Rightarrow>
                        union_walk old_map old_bm new_map (row_positions old_r) (row_positions r) acc)
               (new_bm, 0) (offsets_list new_seg))
      | _ \<Rightarrow> new_seg)"

record DpvVacuumGroup =
  vg_sid :: SegmentId
  vg_tids :: "i64 list"

definition union_deletion_entries_into_new_seg :: "DpvVacuumGroup list \<Rightarrow> FlushedSegment \<Rightarrow> FlushedSegment" where
  "union_deletion_entries_into_new_seg groups new_seg =
     (case (bitmap_ptr new_seg, map_ptr new_seg, offsets new_seg) of
        (Some new_bm, Some new_map, Some _) \<Rightarrow>
          if groups = [] then new_seg
          else add_applied new_seg
            (foldl (\<lambda>acc gp. if vg_tids gp = [] then acc
                      else (case offsets_find (offsets_list new_seg) (vg_sid gp) of
                              None \<Rightarrow> acc
                            | Some r \<Rightarrow> mark_matches new_map (row_positions r) (vg_tids gp) acc))
               (new_bm, 0) groups)
      | _ \<Rightarrow> new_seg)"

section \<open>Adopting\<close>

datatype DpvAdoptionOutcome = DPV_ADOPT_ADOPTED | DPV_ADOPT_STALE_DISCARD | DPV_ADOPT_INDEX_UNLOADED

definition snaps_valid :: "FlushedSegmentPool \<Rightarrow> PredSnap list \<Rightarrow> bool" where
  "snaps_valid pool snaps \<longleftrightarrow>
     (\<forall>p \<in> set snaps. in_used (flushed_segments pool (ps_seg_idx p)) \<and> snap_of pool (ps_seg_idx p) = p)"

fun union_all :: "nat list \<Rightarrow> nat \<Rightarrow> FlushedSegmentPool \<Rightarrow> FlushedSegmentPool" where
  "union_all [] new_slot pool = pool"
| "union_all (i # is) new_slot pool =
     union_all is new_slot
       (upd_seg new_slot (\<lambda>s. union_segment_bitmap_via_offset_merge s (flushed_segments pool i)) pool)"

text \<open>Steps 3.6 and 3.7 for one decision.\<close>

definition execute_case ::
  "u32 \<Rightarrow> DpvVacuumGroup list \<Rightarrow> nat \<Rightarrow> adopt_case \<Rightarrow> FlushedSegmentPool \<Rightarrow> FlushedSegmentPool option" where
  "execute_case cap groups new_slot c pool =
     (case c of
        CaseA snaps \<Rightarrow>
          Some (replace_flushed_segments_n cap (map ps_seg_idx snaps) new_slot
                  (union_all (map ps_seg_idx snaps) new_slot pool))
      | CaseD \<Rightarrow>
          register_flushed_segment cap new_slot
            (upd_seg new_slot (union_deletion_entries_into_new_seg groups) pool)
      | CaseE snaps \<Rightarrow>
          Some (replace_flushed_segments_n cap (map ps_seg_idx snaps) new_slot
                  (upd_seg new_slot (union_deletion_entries_into_new_seg groups)
                     (union_all (map ps_seg_idx snaps) new_slot pool)))
      | CaseStale \<Rightarrow> Some pool)"

definition case_snaps :: "adopt_case \<Rightarrow> PredSnap list" where
  "case_snaps c = (case c of CaseA snaps \<Rightarrow> snaps | CaseE snaps \<Rightarrow> snaps | _ \<Rightarrow> [])"

definition MAX_ADOPT_RETRIES :: nat where "MAX_ADOPT_RETRIES = 4"

text \<open>
  Phase 3. \<open>others n\<close> is what other threads do to the pool between the decision and the locking of the
  predecessors in the round with \<open>n\<close> rounds left after it.
\<close>

fun adopt_rounds ::
  "(nat \<Rightarrow> FlushedSegmentPool \<Rightarrow> FlushedSegmentPool) \<Rightarrow> nat \<Rightarrow> u32 \<Rightarrow> SegmentId \<Rightarrow> SegmentId \<Rightarrow> u32
     \<Rightarrow> SegmentId list \<Rightarrow> DpvVacuumGroup list \<Rightarrow> nat \<Rightarrow> FlushedSegmentPool
     \<Rightarrow> (DpvAdoptionOutcome \<times> FlushedSegmentPool) option" where
  "adopt_rounds others 0 cap a b ver cover groups new_slot pool = Some (DPV_ADOPT_STALE_DISCARD, pool)"
| "adopt_rounds others (Suc n) cap a b ver cover groups new_slot pool =
     (case decide_case pool a b ver cover of
        None \<Rightarrow> None
      | Some CaseStale \<Rightarrow> Some (DPV_ADOPT_STALE_DISCARD, pool)
      | Some c \<Rightarrow>
          let pool = others n pool in
          if snaps_valid pool (case_snaps c)
          then map_option (\<lambda>p. (DPV_ADOPT_ADOPTED, p)) (execute_case cap groups new_slot c pool)
          else adopt_rounds others n cap a b ver cover groups new_slot pool)"

definition dpv_pool_adopt ::
  "(nat \<Rightarrow> FlushedSegmentPool \<Rightarrow> FlushedSegmentPool) \<Rightarrow> bool \<Rightarrow> segment_store \<Rightarrow> u32 \<Rightarrow> SegmentId \<Rightarrow> SegmentId \<Rightarrow> u32
     \<Rightarrow> SegmentId list \<Rightarrow> DpvVacuumGroup list \<Rightarrow> FlushedSegmentPool
     \<Rightarrow> (DpvAdoptionOutcome \<times> FlushedSegmentPool) option" where
  "dpv_pool_adopt others index_loaded st cap a b ver cover groups pool =
     (if \<not> index_loaded then Some (DPV_ADOPT_INDEX_UNLOADED, pool)
      else
        (case reserve_flushed_segment pool of
           (None, p) \<Rightarrow> Some (DPV_ADOPT_STALE_DISCARD, p)
         | (Some new_slot, p) \<Rightarrow>
             let p = upd_seg new_slot (\<lambda>s. (load_and_set_segment st a b ver False s)\<lparr>version := ver\<rparr>) p in
             (case adopt_rounds others MAX_ADOPT_RETRIES cap a b ver cover groups new_slot p of
                None \<Rightarrow> None
              | Some (DPV_ADOPT_ADOPTED, p) \<Rightarrow> Some (DPV_ADOPT_ADOPTED, p)
              | Some (outcome, p) \<Rightarrow> Some (outcome, discard_reserved_segment new_slot p))))"


section \<open>The walk over the list\<close>

fun tile_list ::
  "FlushedSegmentPool \<Rightarrow> SegmentId \<Rightarrow> SegmentId \<Rightarrow> SegmentId list \<Rightarrow> nat list \<Rightarrow> SegmentId \<Rightarrow> PredSnap list
     \<Rightarrow> bool \<times> SegmentId \<times> PredSnap list" where
  "tile_list pool a b cover [] tile_lo snaps = (True, tile_lo, snaps)"
| "tile_list pool a b cover (i # is) tile_lo snaps =
     (if sid_end pool i < a then tile_list pool a b cover is tile_lo snaps
      else if sid_start pool i > b then (True, tile_lo, snaps)
      else if sid_end pool i > b then (False, tile_lo, snaps)
      else if \<not> gap_covered cover tile_lo (sid_start pool i) then (False, tile_lo, snaps)
      else if length snaps \<ge> MAX_SEGMENTS_COUNT then (False, tile_lo, snaps)
      else tile_list pool a b cover is (sid_end pool i + 1) (snaps @ [snap_of pool i]))"

lemma tile_walk_list:
  assumes "pool_links pool (pre @ is)"
  shows "tile_walk pool a b cover (first_opt is None) tile_lo snaps = Some (tile_list pool a b cover is tile_lo snaps)"
  using assms
proof (induction "is" arbitrary: pre tile_lo snaps)
  case Nil
  then show ?case by (simp add: tile_walk.simps)
next
  case (Cons i js)
  have nxt: "next_idx (flushed_segments pool i) = first_opt js None"
    using Cons.prems by (simp add: pool_links_def dll_append)
  have "next_idx (flushed_segments pool i) \<noteq> head_idx pool"
    using Cons.prems unfolding nxt by (cases pre; cases js) (auto simp: pool_links_def)
  moreover have "pool_links pool ((pre @ [i]) @ js)" using Cons.prems by simp
  note IH = Cons.IH [OF this]
  ultimately show ?case
    by (simp add: tile_walk.simps [of pool a b cover "Some i"] nxt IH Let_def)
qed

definition pool_disjoint :: "FlushedSegmentPool \<Rightarrow> nat list \<Rightarrow> bool" where
  "pool_disjoint pool xs \<longleftrightarrow>
     sorted_wrt (\<lambda>i j. sid_end pool i < sid_start pool j) xs \<and> (\<forall>i \<in> set xs. sid_start pool i \<le> sid_end pool i)"

lemma gap_coveredD:
  assumes "gap_covered cover lo hi" "lo \<le> s" "s < hi"
  shows "s \<in> set cover"
proof -
  have "unat s \<in> set [unat lo..<unat hi]" using assms(2,3) by (simp add: word_le_nat_alt word_less_nat_alt)
  then have "of_nat (unat s) \<in> set cover" using assms(1) unfolding gap_covered_def by blast
  then show ?thesis by simp
qed

lemma word_Suc_le: "e < s \<Longrightarrow> e + 1 \<le> (s :: u32)"
  by (simp add: inc_le)

text \<open>Every id in \<open>[lo, hi)\<close> has a predecessor: a covering memtable or one of the segments.\<close>

definition represented :: "FlushedSegmentPool \<Rightarrow> SegmentId list \<Rightarrow> nat list \<Rightarrow> SegmentId \<Rightarrow> bool" where
  "represented pool cover Os s \<longleftrightarrow> s \<in> set cover \<or> (\<exists>i \<in> set Os. sid_start pool i \<le> s \<and> s \<le> sid_end pool i)"

lemma tile_list_in_range:
  assumes "\<forall>i \<in> set is. \<not> sid_end pool i < a"
    and "tile_list pool a b cover is lo snaps = (True, lo', snaps')"
  shows "\<exists>Os B. is = Os @ B \<and> snaps' = snaps @ map (snap_of pool) Os
    \<and> (\<forall>i \<in> set Os. sid_start pool i \<le> b \<and> sid_end pool i \<le> b)
    \<and> (B = [] \<or> sid_start pool (hd B) > b)
    \<and> lo' = (if Os = [] then lo else sid_end pool (last Os) + 1)
    \<and> (\<forall>s. lo \<le> s \<longrightarrow> s < lo' \<longrightarrow> represented pool cover Os s)"
  using assms
proof (induction "is" arbitrary: lo snaps)
  case (Cons i js)
  show ?case
  proof (cases "sid_start pool i > b")
    case True
    with Cons.prems show ?thesis by (intro exI [of _ "[]"] exI [of _ "i # js"]) auto
  next
    case False
    with Cons.prems have e: "sid_end pool i \<le> b" and g: "gap_covered cover lo (sid_start pool i)"
      and t: "tile_list pool a b cover js (sid_end pool i + 1) (snaps @ [snap_of pool i]) = (True, lo', snaps')"
      by (auto split: if_splits)
    from Cons.IH [OF _ t] Cons.prems(1) obtain Os B where OB: "js = Os @ B"
      "snaps' = (snaps @ [snap_of pool i]) @ map (snap_of pool) Os"
      "\<forall>i \<in> set Os. sid_start pool i \<le> b \<and> sid_end pool i \<le> b"
      "B = [] \<or> sid_start pool (hd B) > b"
      "lo' = (if Os = [] then sid_end pool i + 1 else sid_end pool (last Os) + 1)"
      "\<forall>s. sid_end pool i + 1 \<le> s \<longrightarrow> s < lo' \<longrightarrow> represented pool cover Os s"
      by auto
    have "represented pool cover (i # Os) s" if "lo \<le> s" "s < lo'" for s
    proof -
      consider "s < sid_start pool i" | "sid_start pool i \<le> s" "s \<le> sid_end pool i" | "sid_end pool i < s"
        by fastforce
      then show ?thesis
      proof cases
        case 1
        then show ?thesis using gap_coveredD [OF g that(1)] by (simp add: represented_def)
      next
        case 2
        then show ?thesis by (auto simp: represented_def)
      next
        case 3
        then show ?thesis using OB(6) that(2) word_Suc_le [OF 3] by (auto simp: represented_def)
      qed
    qed
    with OB False e show ?thesis by (intro exI [of _ "i # Os"] exI [of _ B]) auto
  qed
qed (auto simp: represented_def)

lemma tile_list_skip:
  assumes "pool_disjoint pool is"
  shows "\<exists>A R. is = A @ R \<and> (\<forall>i \<in> set A. sid_end pool i < a) \<and> (\<forall>i \<in> set R. \<not> sid_end pool i < a)
    \<and> tile_list pool a b cover is lo snaps = tile_list pool a b cover R lo snaps"
  using assms
proof (induction "is")
  case (Cons i js)
  show ?case
  proof (cases "sid_end pool i < a")
    case True
    from Cons.prems have "pool_disjoint pool js" by (simp add: pool_disjoint_def)
    with Cons.IH obtain A R where "js = A @ R" "\<forall>i \<in> set A. sid_end pool i < a" "\<forall>i \<in> set R. \<not> sid_end pool i < a"
      "tile_list pool a b cover js lo snaps = tile_list pool a b cover R lo snaps" by blast
    with True show ?thesis by (intro exI [of _ "i # A"] exI [of _ R]) auto
  next
    case False
    have "\<not> sid_end pool j < a" if "j \<in> set js" for j
      using that Cons.prems False by (fastforce simp: pool_disjoint_def)
    with False show ?thesis by (intro exI [of _ "[]"] exI [of _ "i # js"]) auto
  qed
qed simp

section \<open>The decision\<close>

text \<open>
  What a decision that is not stale promises: the list splits into the segments before the range, the
  displaced ones and those after it, and every id of the range has a predecessor.
\<close>

definition displaces ::
  "FlushedSegmentPool \<Rightarrow> nat list \<Rightarrow> SegmentId \<Rightarrow> SegmentId \<Rightarrow> SegmentId list \<Rightarrow> nat list \<Rightarrow> nat list \<Rightarrow> nat list \<Rightarrow> bool"
where
  "displaces pool xs a b cover A Os B \<longleftrightarrow>
     xs = A @ Os @ B \<and> (\<forall>i \<in> set A. sid_end pool i < a) \<and> (\<forall>i \<in> set B. b < sid_start pool i)
     \<and> (\<forall>i \<in> set Os. a \<le> sid_end pool i \<and> sid_end pool i \<le> b)
     \<and> (\<forall>s. a \<le> s \<longrightarrow> s \<le> b \<longrightarrow> represented pool cover Os s)"

text \<open>The decision says which of the cases it is; case A is the exact match.\<close>

definition exact_match :: "FlushedSegmentPool \<Rightarrow> nat list \<Rightarrow> SegmentId \<Rightarrow> SegmentId \<Rightarrow> bool" where
  "exact_match pool xs a b \<longleftrightarrow> (\<exists>i \<in> set xs. sid_start pool i = a \<and> sid_end pool i = b)"

definition decides :: "FlushedSegmentPool \<Rightarrow> bool \<Rightarrow> u32 \<Rightarrow> nat list \<Rightarrow> adopt_case \<Rightarrow> bool" where
  "decides pool exact ver Os c \<longleftrightarrow>
     (case c of
        CaseA snaps \<Rightarrow> exact \<and> snaps = map (snap_of pool) Os \<and> Os \<noteq> []
          \<and> (\<forall>i \<in> set Os. version (flushed_segments pool i) < ver)
      | CaseD \<Rightarrow> \<not> exact \<and> Os = []
      | CaseE snaps \<Rightarrow> \<not> exact \<and> snaps = map (snap_of pool) Os \<and> Os \<noteq> []
      | CaseStale \<Rightarrow> False)"

lemma trailing_coveredD:
  assumes "trailing_covered cover lo b = Some True" "lo \<le> s" "s \<le> b"
  shows "s \<in> set cover"
proof -
  have "\<forall>s \<in> set [unat lo..<Suc (unat b)]. of_nat s \<in> set cover"
    using assms(1) by (simp add: trailing_covered_def del: upt_Suc split: if_splits)
  moreover have "unat s \<in> set [unat lo..<Suc (unat b)]"
    using assms(2,3) by (simp add: word_le_nat_alt del: upt_Suc)
  ultimately have "of_nat (unat s) \<in> set cover" by blast
  then show ?thesis by simp
qed

lemma pool_disjoint_append:
  "pool_disjoint pool (A @ B) \<longleftrightarrow> pool_disjoint pool A \<and> pool_disjoint pool B
     \<and> (\<forall>i \<in> set A. \<forall>j \<in> set B. sid_end pool i < sid_start pool j)"
  by (auto simp: pool_disjoint_def sorted_wrt_append)

lemma pool_disjoint_Cons:
  "pool_disjoint pool (i # B) \<longleftrightarrow> sid_start pool i \<le> sid_end pool i \<and> pool_disjoint pool B
     \<and> (\<forall>j \<in> set B. sid_end pool i < sid_start pool j)"
  by (auto simp: pool_disjoint_def)

lemma exact_match_displaces:
  assumes "pool_disjoint pool xs" "i \<in> set xs" "sid_start pool i = a" "sid_end pool i = b"
  shows "\<exists>A B. displaces pool xs a b cover A [i] B"
proof -
  from assms(2) obtain A B where xs: "xs = A @ i # B" by (meson split_list)
  with assms have "displaces pool xs a b cover A [i] B"
    by (auto simp: displaces_def represented_def pool_disjoint_append pool_disjoint_Cons)
  then show ?thesis by blast
qed

lemma tile_displaces:
  assumes links: "pool_links pool xs" and dis: "pool_disjoint pool xs"
    and walk: "tile_walk pool a b cover (head_idx pool) a [] = Some (True, lo, snaps)"
    and trail: "trailing_covered cover lo b = Some True"
  shows "\<exists>A Os B. displaces pool xs a b cover A Os B \<and> snaps = map (snap_of pool) Os"
proof -
  have head: "head_idx pool = first_opt xs None" using links by (simp add: pool_links_def)
  have "tile_list pool a b cover xs a [] = (True, lo, snaps)"
    using tile_walk_list [of pool "[]" xs a b cover a "[]"] links walk by (simp add: head)
  moreover obtain A R where AR: "xs = A @ R" "\<forall>i \<in> set A. sid_end pool i < a"
    "\<forall>i \<in> set R. \<not> sid_end pool i < a" "tile_list pool a b cover xs a [] = tile_list pool a b cover R a []"
    using tile_list_skip [OF dis, of a b cover a "[]"] by blast
  ultimately obtain Os B where OB: "R = Os @ B" "snaps = map (snap_of pool) Os"
      "\<forall>i \<in> set Os. sid_start pool i \<le> b \<and> sid_end pool i \<le> b"
      "B = [] \<or> sid_start pool (hd B) > b"
      "\<forall>s. a \<le> s \<longrightarrow> s < lo \<longrightarrow> represented pool cover Os s"
    using tile_list_in_range [OF AR(3), of b cover a "[]" lo snaps] by auto
  have after: "b < sid_start pool j" if j: "j \<in> set B" for j
  proof (cases B)
    case (Cons k B')
    from dis have d: "pool_disjoint pool (k # B')" by (simp add: AR(1) OB(1) Cons pool_disjoint_append)
    from OB(4) have k: "b < sid_start pool k" by (simp add: Cons)
    from j show ?thesis
    proof (cases "j = k")
      case False
      with j d have "sid_start pool k \<le> sid_end pool k" "sid_end pool k < sid_start pool j"
        by (auto simp: Cons pool_disjoint_Cons)
      with k show ?thesis by (meson order.strict_trans2 order.strict_trans)
    qed (simp add: k)
  qed (use j in simp)
  have "represented pool cover Os s" if "a \<le> s" "s \<le> b" for s
  proof (cases "s < lo")
    case False
    then show ?thesis using trailing_coveredD [OF trail _ that(2)] by (simp add: represented_def)
  qed (use OB(5) that(1) in blast)
  with AR OB after have "displaces pool xs a b cover A Os B" by (auto simp: displaces_def not_less)
  with OB(2) show ?thesis by blast
qed

lemma decide_case_spec:
  assumes inv: "pool_inv pool xs" and dis: "pool_disjoint pool xs" and b: "b < UINT32_MAX"
  shows "\<exists>c. decide_case pool a b ver cover = Some c
    \<and> (c = CaseStale \<or> (\<exists>A Os B. displaces pool xs a b cover A Os B \<and> decides pool (exact_match pool xs a b) ver Os c))"
proof -
  from inv have links: "pool_links pool xs" and live: "\<forall>i \<in> set xs. in_used (flushed_segments pool i)"
    by (auto simp: pool_inv_def pool_live_def)
  note find = find_segment_by_sids_pool [OF links, of a b]
  show ?thesis
  proof (cases "find_segment_by_sids pool a b")
    case (Some r)
    show ?thesis
    proof (cases r)
      case (Some i)
      with \<open>find_segment_by_sids pool a b = Some r\<close> find
      have i: "i \<in> set xs" "sid_start pool i = a" "sid_end pool i = b" by (auto simp: find_Some_iff)
      from exact_match_displaces [OF dis i] obtain A B where "displaces pool xs a b cover A [i] B" by blast
      moreover have "decides pool (exact_match pool xs a b) ver [i] (CaseA [snap_of pool i])"
        if "version (flushed_segments pool i) < ver"
        using that i by (auto simp: decides_def exact_match_def)
      moreover have "decide_case pool a b ver cover =
          Some (if version (flushed_segments pool i) < ver then CaseA [snap_of pool i] else CaseStale)"
        using \<open>find_segment_by_sids pool a b = Some r\<close> Some live i(1) by (simp add: decide_case_def)
      ultimately show ?thesis by (cases "version (flushed_segments pool i) < ver") auto
    next
      case None
      obtain w where w: "find_strictly_containing pool a b = Some w"
        by (simp add: find_strictly_containing_def walk_find_pool [OF links])
      obtain ok lo snaps where t: "tile_walk pool a b cover (head_idx pool) a [] = Some (ok, lo, snaps)"
        using tile_walk_list [of pool "[]" xs a b cover a "[]"] links
        by (cases "tile_list pool a b cover xs a []") (simp add: pool_links_def)
      have "b \<noteq> UINT32_MAX" using b by auto
      then have "trailing_covered cover lo b = Some (\<forall>s \<in> set [unat lo..<Suc (unat b)]. of_nat s \<in> set cover)"
        by (simp add: trailing_covered_def del: upt_Suc)
      then obtain tr where tr: "trailing_covered cover lo b = Some tr" by blast
      from \<open>find_segment_by_sids pool a b = Some r\<close> find None live have "\<not> exact_match pool xs a b"
        by (auto simp: exact_match_def find_None_iff)
      note eqs = this decide_case_def \<open>find_segment_by_sids pool a b = Some r\<close> None w t tr
      show ?thesis
      proof (cases "w = None \<and> ok \<and> tr")
        case True
        with tile_displaces [OF links dis, of a b cover lo snaps] t tr
        obtain A Os B where "displaces pool xs a b cover A Os B" "snaps = map (snap_of pool) Os" by auto
        with True show ?thesis by (cases "snaps = []") (auto simp: eqs decides_def)
      next
        case False
        then show ?thesis by (cases w; cases ok) (auto simp: eqs)
      qed
    qed
  qed (use find in simp)
qed

section \<open>Installing the segment\<close>

lemma pool_disjoint_cong:
  assumes "\<And>i. i \<in> set xs \<Longrightarrow> sid_start p i = sid_start q i \<and> sid_end p i = sid_end q i"
  shows "pool_disjoint p xs = pool_disjoint q xs"
proof -
  have "sorted_wrt (\<lambda>i j. sid_end p i < sid_start p j) xs = sorted_wrt (\<lambda>i j. sid_end q i < sid_start q j) xs"
    using assms by (induction xs) auto
  with assms show ?thesis by (auto simp: pool_disjoint_def)
qed

lemma replace_between:
  fixes pool :: FlushedSegmentPool and idx :: nat and cap :: u32
  assumes inv: "pool_inv pool (A @ Os @ B)" and dis: "pool_disjoint pool (A @ Os @ B)" and ne: "Os \<noteq> []"
    and new: "loaded_slot pool (A @ Os @ B) idx" and range: "sid_start pool idx \<le> sid_end pool idx"
    and before: "\<forall>i \<in> set A. sid_end pool i < sid_start pool idx"
    and after: "\<forall>i \<in> set B. sid_end pool idx < sid_start pool i"
  defines "p \<equiv> replace_flushed_segments_n cap Os idx pool"
  shows "pool_inv p (A @ idx # B)" "pool_disjoint p (A @ idx # B)"
    and "\<forall>i. i \<notin> set Os \<longrightarrow> payload (flushed_segments p i) = payload (flushed_segments pool i)"
proof -
  from inv new have links: "pool_links pool (A @ Os @ B)" and fresh: "idx \<notin> set (A @ Os @ B)"
    by (auto simp: pool_inv_def loaded_slot_def)
  then have dist: "distinct Os" and disj: "\<And>i. i \<in> set (A @ idx # B) \<Longrightarrow> i \<notin> set Os"
    by (auto simp: pool_links_def)
  note frame = replace_frame [OF dist ne, of _ cap idx pool, folded p_def]
  have same: "sid_start p i = sid_start pool i \<and> sid_end p i = sid_end pool i" if "i \<in> set (A @ idx # B)" for i
    using frame(2,3) [OF disj [OF that]] by simp
  have "pool_disjoint pool (A @ idx # B)"
    using dis range before after by (auto simp: pool_disjoint_append pool_disjoint_Cons)
  then show disjoint: "pool_disjoint p (A @ idx # B)"
    using pool_disjoint_cong [of "A @ idx # B" p pool] same by blast
  have "sorted_wrt (\<lambda>i j. sid_start p i \<le> sid_start p j) (A @ idx # B)"
  proof (rule sorted_wrt_mono_rel)
    show "sorted_wrt (\<lambda>i j. sid_end p i < sid_start p j) (A @ idx # B)"
      using disjoint unfolding pool_disjoint_def by (rule conjunct1)
    fix i j assume i: "i \<in> set (A @ idx # B)" and lt: "sid_end p i < sid_start p j"
    from i disjoint have "sid_start p i \<le> sid_end p i" unfolding pool_disjoint_def by blast
    with lt show "sid_start p i \<le> sid_start p j" by (meson less_imp_le order.strict_trans1)
  qed
  then have "pool_sorted p (A @ idx # B)" unfolding pool_sorted_def sorted_map .
  moreover have "pool_live p (A @ idx # B)"
    using inv new disj by (auto simp: pool_inv_def pool_live_def loaded_slot_def frame)
  ultimately show "pool_inv p (A @ idx # B)"
    using replace_links [OF links ne fresh, of cap] by (simp add: pool_inv_def p_def)
  show "\<forall>i. i \<notin> set Os \<longrightarrow> payload (flushed_segments p i) = payload (flushed_segments pool i)"
    using dist by (simp add: p_def replace_payload)
qed

lemma register_between:
  assumes inv: "pool_inv pool (A @ B)" and dis: "pool_disjoint pool (A @ B)"
    and new: "loaded_slot pool (A @ B) idx" and range: "sid_start pool idx \<le> sid_end pool idx"
    and before: "\<forall>i \<in> set A. sid_end pool i < sid_start pool idx"
    and after: "\<forall>i \<in> set B. sid_end pool idx < sid_start pool i"
  shows "\<exists>p. register_flushed_segment cap idx pool = Some p \<and> pool_inv p (A @ idx # B)
    \<and> pool_disjoint p (A @ idx # B) \<and> (\<forall>i. payload (flushed_segments p i) = payload (flushed_segments pool i))"
proof -
  let ?v = "sid_start pool idx"
  have A: "\<not> sid_start pool i > ?v" if "i \<in> set A" for i
  proof -
    have "sid_start pool i \<le> sid_end pool i" using dis that by (simp add: pool_disjoint_def)
    also have "\<dots> < ?v" using before that by blast
    finally show ?thesis by simp
  qed
  have B: "sid_start pool i > ?v" if "i \<in> set B" for i
    using after that range by (meson order.strict_trans1)
  have "takeWhile (\<lambda>i. sid_start pool i > ?v) (rev B @ rev A) = rev B"
    "dropWhile (\<lambda>i. sid_start pool i > ?v) (rev B @ rev A) = rev A"
    using A B by (cases A rule: rev_cases; auto simp: takeWhile_append dropWhile_append)+
  then have pos: "insert_by_start pool ?v idx (A @ B) = A @ idx # B"
    by (simp add: insert_by_start_def)
  obtain p where p: "register_flushed_segment cap idx pool = Some p" "pool_inv p (A @ idx # B)"
    and pay: "\<And>i. payload (flushed_segments p i) = payload (flushed_segments pool i)"
    using register_flushed_segment_inv [OF inv new, of cap] by (auto simp: pos)
  have "pool_disjoint pool (A @ idx # B)"
    using dis range before after by (auto simp: pool_disjoint_append pool_disjoint_Cons)
  then have "pool_disjoint p (A @ idx # B)"
    using pool_disjoint_cong [of "A @ idx # B" p pool] payload_eqD [OF pay] by blast
  with p pay show ?thesis by blast
qed

section \<open>What is carried over\<close>

text \<open>The rows of the new segment that a union marks, in order.\<close>

definition union_rows :: "FlushedSegment \<Rightarrow> FlushedSegment \<Rightarrow> nat list" where
  "union_rows new_seg old_seg =
     (case (bitmap_ptr old_seg, map_ptr old_seg, bitmap_ptr new_seg, map_ptr new_seg, offsets old_seg, offsets new_seg) of
        (Some old_bm, Some old_map, Some new_bm, Some new_map, Some _, Some _) \<Rightarrow>
          concat (map (\<lambda>r. case offsets_find (offsets_list old_seg) (off_sid r) of
                      None \<Rightarrow> []
                    | Some old_r \<Rightarrow> carried old_map old_bm new_map (row_positions old_r) (row_positions r))
                 (offsets_list new_seg))
      | _ \<Rightarrow> [])"

definition group_rows :: "DpvVacuumGroup list \<Rightarrow> FlushedSegment \<Rightarrow> nat list" where
  "group_rows groups new_seg =
     (case (bitmap_ptr new_seg, map_ptr new_seg, offsets new_seg) of
        (Some new_bm, Some new_map, Some _) \<Rightarrow>
          concat (map (\<lambda>gp. if vg_tids gp = [] then []
                       else (case offsets_find (offsets_list new_seg) (vg_sid gp) of
                               None \<Rightarrow> []
                             | Some r \<Rightarrow> matches new_map (row_positions r) (vg_tids gp))) groups)
      | _ \<Rightarrow> [])"

definition mark_rows :: "nat list \<Rightarrow> FlushedSegment \<Rightarrow> FlushedSegment" where
  "mark_rows ms s =
     (case bitmap_ptr s of
        None \<Rightarrow> s
      | Some bm \<Rightarrow>
          s\<lparr>bitmap_ptr := Some (fst (foldl SET_AND_COUNT (bm, 0) ms)),
            delete_count := delete_count s + snd (foldl SET_AND_COUNT (bm, 0) ms)\<rparr>)"

lemma add_applied_eq: "add_applied s acc = s\<lparr>bitmap_ptr := Some (fst acc), delete_count := delete_count s + snd acc\<rparr>"
proof (cases acc)
  case (Pair bm applied)
  have "applied > 0 \<or> applied = 0" using word_gt_0 by auto
  then show ?thesis by (auto simp: add_applied_def Pair)
qed

lemma foldl_case_concat:
  assumes "\<And>acc x. F acc x = foldl g acc (rows x)"
  shows "foldl F acc xs = foldl g acc (concat (map rows xs))"
  by (induction xs arbitrary: acc) (simp_all add: assms foldl_append)

lemma mark_rows_Nil: "mark_rows [] s = s"
  by (cases "bitmap_ptr s") (simp_all add: mark_rows_def)

lemma union_segment_mark_rows: "union_segment_bitmap_via_offset_merge s old = mark_rows (union_rows s old) s"
proof (cases "bitmap_ptr old = None \<or> map_ptr old = None \<or> bitmap_ptr s = None \<or> map_ptr s = None
    \<or> offsets old = None \<or> offsets s = None")
  case True
  then show ?thesis
    by (auto simp: union_segment_bitmap_via_offset_merge_def union_rows_def mark_rows_Nil split: option.splits)
next
  case False
  then obtain ob om nb nm oo on where eq: "bitmap_ptr old = Some ob" "map_ptr old = Some om"
    "bitmap_ptr s = Some nb" "map_ptr s = Some nm" "offsets old = Some oo" "offsets s = Some on" by auto
  have "(case offsets_find (offsets_list old) (off_sid r) of None \<Rightarrow> acc
      | Some old_r \<Rightarrow> union_walk om ob nm (row_positions old_r) (row_positions r) acc)
    = foldl SET_AND_COUNT acc (case offsets_find (offsets_list old) (off_sid r) of None \<Rightarrow> []
      | Some old_r \<Rightarrow> carried om ob nm (row_positions old_r) (row_positions r))" for acc r
    by (simp add: walk_folds split: option.split)
  note fold = foldl_case_concat [of _ SET_AND_COUNT, OF this]
  show ?thesis
    by (simp add: union_segment_bitmap_via_offset_merge_def union_rows_def mark_rows_def eq add_applied_eq fold)
qed

lemma union_deletion_mark_rows: "union_deletion_entries_into_new_seg groups s = mark_rows (group_rows groups s) s"
proof (cases "bitmap_ptr s = None \<or> map_ptr s = None \<or> offsets s = None")
  case True
  then show ?thesis
    by (auto simp: union_deletion_entries_into_new_seg_def group_rows_def mark_rows_Nil split: option.splits)
next
  case False
  then obtain nb nm on where eq: "bitmap_ptr s = Some nb" "map_ptr s = Some nm" "offsets s = Some on" by auto
  have "(if vg_tids gp = [] then acc else (case offsets_find (offsets_list s) (vg_sid gp) of None \<Rightarrow> acc
      | Some r \<Rightarrow> mark_matches nm (row_positions r) (vg_tids gp) acc))
    = foldl SET_AND_COUNT acc (if vg_tids gp = [] then [] else (case offsets_find (offsets_list s) (vg_sid gp) of
        None \<Rightarrow> [] | Some r \<Rightarrow> matches nm (row_positions r) (vg_tids gp)))" for acc gp
    by (simp add: walk_folds split: option.split)
  note fold = foldl_case_concat [of _ SET_AND_COUNT, OF this]
  show ?thesis
    by (simp add: union_deletion_entries_into_new_seg_def group_rows_def mark_rows_def eq add_applied_eq fold
        mark_rows_Nil [unfolded mark_rows_def])
qed

lemma mark_rows_sel [simp]:
  "map_ptr (mark_rows ms s) = map_ptr s" "offsets (mark_rows ms s) = offsets s"
  "offsets_count (mark_rows ms s) = offsets_count s" "in_used (mark_rows ms s) = in_used s"
  "segment_id_start (mark_rows ms s) = segment_id_start s" "segment_id_end (mark_rows ms s) = segment_id_end s"
  "version (mark_rows ms s) = version s" "vec_count (mark_rows ms s) = vec_count s"
  "bitmap_ptr (mark_rows ms s) = None \<longleftrightarrow> bitmap_ptr s = None"
  by (simp_all add: mark_rows_def split: option.split)

lemma offsets_list_mark_rows [simp]: "offsets_list (mark_rows ms s) = offsets_list s"
  by (simp add: offsets_list_def)

lemma mark_rows_append: "mark_rows ms (mark_rows ks s) = mark_rows (ks @ ms) s"
proof (cases "bitmap_ptr s")
  case (Some bm)
  have shift: "foldl SET_AND_COUNT (b, c + d) is = (fst (foldl SET_AND_COUNT (b, c) is), snd (foldl SET_AND_COUNT (b, c) is) + d)"
    for b c d "is"
  proof (induction "is" arbitrary: b c)
    case (Cons i js)
    show ?case using Cons.IH [of "SET_SLOT b i" "c + 1"] Cons.IH [of b c] by (simp add: ac_simps)
  qed simp
  obtain b c where bc: "foldl SET_AND_COUNT (bm, 0) ks = (b, c)" by fastforce
  have "foldl SET_AND_COUNT (b, c) ms = (fst (foldl SET_AND_COUNT (b, 0) ms), snd (foldl SET_AND_COUNT (b, 0) ms) + c)"
    using shift [of b 0 c ms] by simp
  then show ?thesis by (simp add: mark_rows_def Some bc foldl_append add.commute add.left_commute)
qed (simp add: mark_rows_def)

lemma rows_mark_rows:
  assumes "bitmap_ptr s \<noteq> None"
  shows "union_rows (mark_rows ms s) old = union_rows s old" "group_rows groups (mark_rows ms s) = group_rows groups s"
  using assms by (auto simp: union_rows_def group_rows_def cong: if_cong split: option.splits)

text \<open>The marks of all predecessors, applied one after the other, are the marks of their concatenation.\<close>

lemma union_all_mark_rows:
  assumes "idx \<notin> set Os"
  shows "union_all Os idx pool =
    upd_seg idx (mark_rows (concat (map (\<lambda>i. union_rows (flushed_segments pool idx) (flushed_segments pool i)) Os))) pool"
  using assms
proof (induction Os arbitrary: pool)
  case Nil
  have "upd_seg idx (mark_rows []) pool = pool" by (simp add: upd_seg_def mark_rows_Nil)
  then show ?case by simp
next
  case (Cons i js)
  let ?s = "flushed_segments pool idx" and ?o = "flushed_segments pool i"
  let ?p = "upd_seg idx (\<lambda>s. union_segment_bitmap_via_offset_merge s ?o) pool"
  have rows: "union_rows (mark_rows ms ?s) (flushed_segments pool k) = union_rows ?s (flushed_segments pool k)" for ms k
  proof (cases "bitmap_ptr ?s")
    case None
    then have "mark_rows ms ?s = ?s" by (simp add: mark_rows_def)
    then show ?thesis by simp
  qed (simp add: rows_mark_rows)
  have new: "flushed_segments ?p idx = mark_rows (union_rows ?s ?o) ?s"
    and old: "k \<in> set js \<Longrightarrow> flushed_segments ?p k = flushed_segments pool k" for k
    using Cons.prems by (auto simp: union_segment_mark_rows)
  have "union_all (i # js) idx pool = union_all js idx ?p" by simp
  also have "\<dots> = upd_seg idx (mark_rows (concat (map (\<lambda>k. union_rows (flushed_segments ?p idx) (flushed_segments ?p k)) js))) ?p"
    using Cons.prems by (intro Cons.IH) simp
  also have "map (\<lambda>k. union_rows (flushed_segments ?p idx) (flushed_segments ?p k)) js
      = map (\<lambda>k. union_rows ?s (flushed_segments pool k)) js"
    unfolding new using old by (intro map_cong) (simp_all add: rows)
  finally show ?case
    by (simp add: upd_seg_def union_segment_mark_rows mark_rows_append)
qed

text \<open>All rows a decision marks in the new segment.\<close>

definition case_rows ::
  "DpvVacuumGroup list \<Rightarrow> FlushedSegmentPool \<Rightarrow> FlushedSegment \<Rightarrow> nat list \<Rightarrow> adopt_case \<Rightarrow> nat list" where
  "case_rows groups pool new_seg Os c =
     concat (map (\<lambda>i. union_rows new_seg (flushed_segments pool i)) Os)
     @ (case c of CaseA snaps \<Rightarrow> [] | _ \<Rightarrow> group_rows groups new_seg)"

lemma map_snap_idx [simp]: "map ps_seg_idx (map (snap_of pool) Os) = Os"
  by (simp add: comp_def snap_of_def Let_def)

lemma execute_case_eq:
  assumes "decides pool exact ver Os c" "idx \<notin> set Os"
  shows "execute_case cap groups idx c pool =
    (let p = upd_seg idx (mark_rows (case_rows groups pool (flushed_segments pool idx) Os c)) pool
     in if Os = [] then register_flushed_segment cap idx p
        else Some (replace_flushed_segments_n cap Os idx p))"
proof -
  let ?s = "flushed_segments pool idx"
  have groups: "group_rows groups (mark_rows ms ?s) = group_rows groups ?s" for ms
  proof (cases "bitmap_ptr ?s")
    case None
    then have "mark_rows ms ?s = ?s" by (simp add: mark_rows_def)
    then show ?thesis by simp
  qed (simp add: rows_mark_rows)
  show ?thesis
    using assms
    by (cases c) (auto simp: decides_def execute_case_def case_rows_def union_all_mark_rows Let_def
        union_deletion_mark_rows mark_rows_append groups upd_seg_def simp del: map_map)
qed

lemma pool_disjoint_upd:
  "idx \<notin> set xs \<Longrightarrow> pool_disjoint (upd_seg idx f pool) xs = pool_disjoint pool xs"
  by (rule pool_disjoint_cong) auto

lemma loaded_slot_upd: "(\<And>s. in_used s \<Longrightarrow> in_used (f s)) \<Longrightarrow> loaded_slot pool xs idx \<Longrightarrow> loaded_slot (upd_seg idx f pool) xs idx"
  by (simp add: loaded_slot_def)

lemma execute_case_installs:
  assumes inv: "pool_inv pool xs" and dis: "pool_disjoint pool xs" and ab: "a \<le> b"
    and new: "loaded_slot pool xs idx" "sid_start pool idx = a" "sid_end pool idx = b"
    and d: "displaces pool xs a b cover A Os B" "decides pool (exact_match pool xs a b) ver Os c"
  shows "\<exists>p. execute_case cap groups idx c pool = Some p \<and> pool_inv p (A @ idx # B) \<and> pool_disjoint p (A @ idx # B)
    \<and> payload (flushed_segments p idx)
        = payload (mark_rows (case_rows groups pool (flushed_segments pool idx) Os c) (flushed_segments pool idx))
    \<and> (\<forall>k \<in> set A \<union> set B. payload (flushed_segments p k) = payload (flushed_segments pool k))"
proof -
  let ?q = "upd_seg idx (mark_rows (case_rows groups pool (flushed_segments pool idx) Os c)) pool"
  from d(1) have xs: "xs = A @ Os @ B" and before: "\<forall>i \<in> set A. sid_end pool i < a"
    and after: "\<forall>i \<in> set B. b < sid_start pool i" by (auto simp: displaces_def)
  from new(1) have fresh: "idx \<notin> set xs" by (simp add: loaded_slot_def)
  note exec = execute_case_eq [OF d(2), of idx cap groups]
  have q: "pool_inv ?q (A @ Os @ B)" "pool_disjoint ?q (A @ Os @ B)" "loaded_slot ?q (A @ Os @ B) idx"
    "sid_start ?q idx \<le> sid_end ?q idx"
    "\<forall>i \<in> set A. sid_end ?q i < sid_start ?q idx" "\<forall>i \<in> set B. sid_end ?q idx < sid_start ?q i"
    using fresh new before after ab pool_inv_upd_outside [OF inv fresh] dis
    by (auto simp: xs pool_disjoint_upd loaded_slot_upd)
  show ?thesis
  proof (cases "Os = []")
    case True
    with q obtain p where "register_flushed_segment cap idx ?q = Some p" "pool_inv p (A @ idx # B)"
      "pool_disjoint p (A @ idx # B)" "\<forall>i. payload (flushed_segments p i) = payload (flushed_segments ?q i)"
      using register_between [of ?q A B idx cap] by auto
    with True exec fresh show ?thesis by (auto simp: Let_def xs)
  next
    case False
    note r = replace_between [OF q(1,2) False q(3-6), of cap]
    have "idx \<notin> set Os" using fresh by (simp add: xs)
    moreover have "k \<noteq> idx \<and> k \<notin> set Os" if "k \<in> set A \<union> set B" for k
      using that fresh inv by (auto simp: xs pool_inv_def pool_links_def)
    ultimately show ?thesis using False exec r by (auto simp: Let_def)
  qed
qed

lemma adopt_round_quiet:
  assumes inv: "pool_inv pool xs" and dis: "pool_disjoint pool xs" and b: "b < UINT32_MAX"
  shows "adopt_rounds (\<lambda>n p. p) (Suc n) cap a b ver cover groups idx pool = Some (DPV_ADOPT_STALE_DISCARD, pool)
    \<or> (\<exists>c A Os B. displaces pool xs a b cover A Os B \<and> decides pool (exact_match pool xs a b) ver Os c
         \<and> adopt_rounds (\<lambda>n p. p) (Suc n) cap a b ver cover groups idx pool
             = map_option (\<lambda>p. (DPV_ADOPT_ADOPTED, p)) (execute_case cap groups idx c pool))"
proof -
  from decide_case_spec [OF inv dis b, of a ver cover] obtain c where c: "decide_case pool a b ver cover = Some c"
    "c = CaseStale \<or> (\<exists>A Os B. displaces pool xs a b cover A Os B \<and> decides pool (exact_match pool xs a b) ver Os c)" by blast
  show ?thesis
  proof (cases "c = CaseStale")
    case False
    with c(2) obtain A Os B where d: "displaces pool xs a b cover A Os B" "decides pool (exact_match pool xs a b) ver Os c" by blast
    have "\<forall>i \<in> set Os. in_used (flushed_segments pool i)"
      using inv d(1) by (auto simp: pool_inv_def pool_live_def displaces_def)
    moreover have "case_snaps c = map (snap_of pool) Os"
      using d(2) by (cases c) (simp_all add: decides_def case_snaps_def)
    ultimately have "snaps_valid pool (case_snaps c)"
      by (auto simp: snaps_valid_def snap_of_def Let_def)
    then have "adopt_rounds (\<lambda>n p. p) (Suc n) cap a b ver cover groups idx pool
        = map_option (\<lambda>p. (DPV_ADOPT_ADOPTED, p)) (execute_case cap groups idx c pool)"
      using c(1) False by (cases c) (simp_all add: Let_def)
    with d show ?thesis by blast
  qed (simp add: c(1))
qed

text \<open>The slot a fetched segment is loaded into.\<close>

definition load_fetched :: "segment_store \<Rightarrow> SegmentId \<Rightarrow> SegmentId \<Rightarrow> u32 \<Rightarrow> FlushedSegment \<Rightarrow> FlushedSegment" where
  "load_fetched st a b ver s = (load_and_set_segment st a b ver False s)\<lparr>version := ver\<rparr>"

lemma load_fetched_sel:
  assumes "read_files st a b ver = Some f" "ver \<noteq> UINT32_MAX"
  shows "segment_id_start (load_fetched st a b ver s) = md_start_sid f"
    "segment_id_end (load_fetched st a b ver s) = md_end_sid f" "version (load_fetched st a b ver s) = ver"
    "in_used (load_fetched st a b ver s)" "bitmap_ptr (load_fetched st a b ver s) = f_bitmap f"
    "map_ptr (load_fetched st a b ver s) = f_mapping f" "offsets (load_fetched st a b ver s) = f_offsets f"
    "offsets_count (load_fetched st a b ver s) = b - a + 1"
    "delete_count (load_fetched st a b ver s) = f_delete_count f"
  using assms by (simp_all add: load_fetched_def load_and_set_segment_def Let_def)

lemma displaces_cong:
  assumes "\<forall>i \<in> set xs. flushed_segments p i = flushed_segments q i"
  shows "displaces p xs a b cover A Os B = displaces q xs a b cover A Os B"
proof (cases "xs = A @ Os @ B")
  case True
  with assms have same: "\<And>i. i \<in> set A \<union> set Os \<union> set B \<Longrightarrow> flushed_segments p i = flushed_segments q i" by auto
  then have "represented p cover Os s = represented q cover Os s" for s
    unfolding represented_def by (intro disj_cong bex_cong) auto
  with same True show ?thesis by (auto simp: displaces_def)
qed (simp add: displaces_def)

lemma exact_match_cong:
  assumes "\<forall>i \<in> set xs. flushed_segments p i = flushed_segments q i"
  shows "exact_match p xs a b = exact_match q xs a b"
  using assms by (simp add: exact_match_def)

lemma decides_cong:
  assumes "\<forall>i \<in> set Os. flushed_segments p i = flushed_segments q i"
  shows "decides p exact ver Os c = decides q exact ver Os c"
proof -
  have m: "map (snap_of p) Os = map (snap_of q) Os" using assms by (simp add: snap_of_def)
  have "(\<forall>i \<in> set Os. version (flushed_segments p i) < ver) = (\<forall>i \<in> set Os. version (flushed_segments q i) < ver)"
    using assms by simp
  then show ?thesis by (cases c) (simp_all only: decides_def adopt_case.case m)
qed

lemma case_rows_cong:
  assumes "\<forall>i \<in> set Os. flushed_segments p i = flushed_segments q i"
  shows "case_rows groups p s Os c = case_rows groups q s Os c"
proof -
  have "map (\<lambda>i. union_rows s (flushed_segments p i)) Os = map (\<lambda>i. union_rows s (flushed_segments q i)) Os"
    using assms by simp
  then show ?thesis by (simp only: case_rows_def)
qed

text \<open>
  Adoption without interference, in one equation: either the pool is as before, or the fetched segment
  stands in the list in place of the displaced ones with the marked rows.
\<close>

lemma dpv_pool_adopt_cases:
  fixes pool :: FlushedSegmentPool and cap :: u32 and cover :: "SegmentId list" and groups :: "DpvVacuumGroup list"
  assumes inv: "pool_inv pool xs" and dis: "pool_disjoint pool xs" and ab: "a \<le> b" "b < UINT32_MAX"
    and f: "read_files st a b ver = Some f" "md_start_sid f = a" "md_end_sid f = b" "ver \<noteq> UINT32_MAX"
  obtains (stale) p where "dpv_pool_adopt (\<lambda>n p. p) True st cap a b ver cover groups pool = Some (DPV_ADOPT_STALE_DISCARD, p)"
      "pool_inv p xs" "\<forall>i \<in> set xs. flushed_segments p i = flushed_segments pool i"
  | (adopted) p idx c A Os B s0 where "dpv_pool_adopt (\<lambda>n p. p) True st cap a b ver cover groups pool = Some (DPV_ADOPT_ADOPTED, p)"
      "idx \<notin> set xs" "displaces pool xs a b cover A Os B" "decides pool (exact_match pool xs a b) ver Os c"
      "pool_inv p (A @ idx # B)" "pool_disjoint p (A @ idx # B)"
      "payload (flushed_segments p idx)
         = payload (mark_rows (case_rows groups pool (load_fetched st a b ver s0) Os c) (load_fetched st a b ver s0))"
      "\<forall>k \<in> set A \<union> set B. payload (flushed_segments p k) = payload (flushed_segments pool k)"
proof (cases "reserve_flushed_segment pool")
  case (Pair r p0)
  show thesis
  proof (cases r)
    case None
    then have "p0 = pool" using Pair by (auto simp: reserve_flushed_segment_def split: option.splits)
    with None Pair inv show thesis by (intro stale [of p0]) (simp_all add: dpv_pool_adopt_def)
  next
    case (Some idx)
    note r = reserve_inv [OF inv Pair [unfolded Some]] and d = reserve_SomeD [OF Pair [unfolded Some]]
    let ?q = "upd_seg idx (load_fetched st a b ver) p0"
    have new: "loaded_slot ?q xs idx" using r(2) f by (simp add: loaded_slot_def load_fetched_sel)
    have same: "\<forall>i \<in> set xs. flushed_segments ?q i = flushed_segments pool i" using r(3) d(4) by auto
    have q: "pool_inv ?q xs" "pool_disjoint ?q xs" "sid_start ?q idx = a" "sid_end ?q idx = b"
      using pool_inv_upd_outside [OF r(1) r(3)] f same dis pool_disjoint_cong [of xs ?q pool]
      by (simp_all add: load_fetched_sel del: upd_seg_sel) (simp_all add: load_fetched_sel f)
    have eq: "dpv_pool_adopt (\<lambda>n p. p) True st cap a b ver cover groups pool =
       (case adopt_rounds (\<lambda>n p. p) MAX_ADOPT_RETRIES cap a b ver cover groups idx ?q of
          None \<Rightarrow> None
        | Some (DPV_ADOPT_ADOPTED, p) \<Rightarrow> Some (DPV_ADOPT_ADOPTED, p)
        | Some (outcome, p) \<Rightarrow> Some (outcome, discard_reserved_segment idx p))"
      by (simp add: dpv_pool_adopt_def Pair Some load_fetched_def [abs_def] Let_def)
    have retries: "MAX_ADOPT_RETRIES = Suc 3" by (simp add: MAX_ADOPT_RETRIES_def)
    from adopt_round_quiet [OF q(1,2) ab(2), of 3 cap a ver cover groups idx]
    consider (1) "adopt_rounds (\<lambda>n p. p) MAX_ADOPT_RETRIES cap a b ver cover groups idx ?q
        = Some (DPV_ADOPT_STALE_DISCARD, ?q)"
      | (2) c A Os B where "displaces ?q xs a b cover A Os B" "decides ?q (exact_match ?q xs a b) ver Os c"
        "adopt_rounds (\<lambda>n p. p) MAX_ADOPT_RETRIES cap a b ver cover groups idx ?q
             = map_option (\<lambda>p. (DPV_ADOPT_ADOPTED, p)) (execute_case cap groups idx c ?q)"
      unfolding retries by blast
    then show thesis
    proof cases
      case 1
      with eq have "dpv_pool_adopt (\<lambda>n p. p) True st cap a b ver cover groups pool
          = Some (DPV_ADOPT_STALE_DISCARD, discard_reserved_segment idx ?q)" by simp
      moreover have "pool_inv (discard_reserved_segment idx ?q) xs"
        using pool_inv_upd_outside [OF q(1) r(3), of free_segment_slot]
        by (simp add: discard_reserved_segment_def rewind_insert_idx_def)
      ultimately show thesis
        using same r(3) by (intro stale [of "discard_reserved_segment idx ?q"])
          (auto simp: discard_reserved_segment_def)
    next
      case 2
      from execute_case_installs [OF q(1,2) ab(1) new q(3,4) 2(1,2), of cap groups]
      obtain p where p: "execute_case cap groups idx c ?q = Some p" "pool_inv p (A @ idx # B)"
        "pool_disjoint p (A @ idx # B)"
        "payload (flushed_segments p idx)
           = payload (mark_rows (case_rows groups ?q (flushed_segments ?q idx) Os c) (flushed_segments ?q idx))"
        "\<forall>k \<in> set A \<union> set B. payload (flushed_segments p k) = payload (flushed_segments ?q k)"
        by blast
      have Os: "\<forall>i \<in> set Os. flushed_segments ?q i = flushed_segments pool i"
        using 2(1) same by (auto simp: displaces_def)
      show thesis
      proof (rule adopted [of p idx A Os B c "flushed_segments p0 idx"])
        show "dpv_pool_adopt (\<lambda>n p. p) True st cap a b ver cover groups pool = Some (DPV_ADOPT_ADOPTED, p)"
          using eq 2(3) p(1) by simp
        show "displaces pool xs a b cover A Os B"
          using 2(1) displaces_cong [OF same] by simp
        show "decides pool (exact_match pool xs a b) ver Os c"
          using 2(2) decides_cong [OF Os] exact_match_cong [OF same] by simp
        show "payload (flushed_segments p idx) = payload (mark_rows
            (case_rows groups pool (load_fetched st a b ver (flushed_segments p0 idx)) Os c)
            (load_fetched st a b ver (flushed_segments p0 idx)))"
          using p(4) case_rows_cong [OF Os] by simp
        show "\<forall>k \<in> set A \<union> set B. payload (flushed_segments p k) = payload (flushed_segments pool k)"
        proof
          fix k assume k: "k \<in> set A \<union> set B"
          then have "k \<in> set xs" using 2(1) by (auto simp: displaces_def)
          with same have "flushed_segments ?q k = flushed_segments pool k" by blast
          with p(5) k show "payload (flushed_segments p k) = payload (flushed_segments pool k)" by metis
        qed
      qed (use p r(3) in simp_all)
    qed
  qed
qed

section \<open>Tombstones of the adopted segment\<close>

text \<open>
  What the walks rely on: for every segment id the new rows are a subsequence of the old ones, rows of
  one id have distinct tids, and the bitmap reaches all rows.
\<close>

definition rows_follow :: "SegmentOffsetRange list \<Rightarrow> i64 list \<Rightarrow> FlushedSegment \<Rightarrow> bool" where
  "rows_follow rs tids old_seg \<longleftrightarrow>
     (\<forall>old_map. map_ptr old_seg = Some old_map \<longrightarrow>
        (\<forall>r \<in> set rs. \<forall>old_r. offsets_find (offsets_list old_seg) (off_sid r) = Some old_r \<longrightarrow>
           subseq (map ((!) tids) (row_positions r)) (map ((!) old_map) (row_positions old_r))
           \<and> distinct (map ((!) old_map) (row_positions old_r))))"

definition groups_follow :: "SegmentOffsetRange list \<Rightarrow> i64 list \<Rightarrow> DpvVacuumGroup list \<Rightarrow> bool" where
  "groups_follow rs tids groups \<longleftrightarrow>
     (\<forall>gp \<in> set groups. \<forall>r. offsets_find rs (vg_sid gp) = Some r \<longrightarrow>
        subseq (vg_tids gp) (map ((!) tids) (row_positions r)) \<and> distinct (map ((!) tids) (row_positions r)))"

definition rows_in_bitmap :: "SegmentOffsetRange list \<Rightarrow> bitmap \<Rightarrow> bool" where
  "rows_in_bitmap rs bm \<longleftrightarrow> (\<forall>r \<in> set rs. \<forall>j \<in> set (row_positions r). in_bitmap bm j)"

text \<open>The two reasons for a row of the new segment to be deleted besides its own file.\<close>

definition old_copy_deleted :: "SegmentOffsetRange list \<Rightarrow> i64 list \<Rightarrow> FlushedSegment \<Rightarrow> nat \<Rightarrow> bool" where
  "old_copy_deleted rs tids old_seg j \<longleftrightarrow>
     (\<exists>old_bm old_map old_offs r old_r i. bitmap_ptr old_seg = Some old_bm \<and> map_ptr old_seg = Some old_map
        \<and> offsets old_seg = Some old_offs
        \<and> r \<in> set rs \<and> j \<in> set (row_positions r) \<and> offsets_find (offsets_list old_seg) (off_sid r) = Some old_r
        \<and> i \<in> set (row_positions old_r) \<and> old_map ! i = tids ! j \<and> IS_SLOT_SET old_bm i)"

definition group_deleted :: "SegmentOffsetRange list \<Rightarrow> i64 list \<Rightarrow> DpvVacuumGroup list \<Rightarrow> nat \<Rightarrow> bool" where
  "group_deleted rs tids groups j \<longleftrightarrow>
     (\<exists>gp \<in> set groups. \<exists>r. offsets_find rs (vg_sid gp) = Some r \<and> j \<in> set (row_positions r)
        \<and> tids ! j \<in> set (vg_tids gp))"

lemma set_union_rows:
  assumes new: "bitmap_ptr s = Some bm" "map_ptr s = Some tids" "offsets s = Some rs" "offsets_list s = rs"
    and follow: "rows_follow rs tids old_seg"
  shows "set (union_rows s old_seg) = {j. old_copy_deleted rs tids old_seg j}"
proof (cases "bitmap_ptr old_seg = None \<or> map_ptr old_seg = None \<or> offsets old_seg = None")
  case True
  then show ?thesis by (auto simp: union_rows_def old_copy_deleted_def new split: option.splits)
next
  case False
  then obtain ob om oo where old: "bitmap_ptr old_seg = Some ob" "map_ptr old_seg = Some om" "offsets old_seg = Some oo"
    by auto
  have "set (carried om ob tids (row_positions old_r) (row_positions r))
      = {j \<in> set (row_positions r). \<exists>i \<in> set (row_positions old_r). om ! i = tids ! j \<and> IS_SLOT_SET ob i}"
    if "r \<in> set rs" "offsets_find (offsets_list old_seg) (off_sid r) = Some old_r" for r old_r
    using follow that carried_filter [of tids "row_positions r" om "row_positions old_r" ob]
    by (auto simp: rows_follow_def old)
  then have "j \<in> set (case offsets_find (offsets_list old_seg) (off_sid r) of None \<Rightarrow> []
        | Some old_r \<Rightarrow> carried om ob tids (row_positions old_r) (row_positions r))
      \<longleftrightarrow> (\<exists>old_r i. j \<in> set (row_positions r) \<and> offsets_find (offsets_list old_seg) (off_sid r) = Some old_r
        \<and> i \<in> set (row_positions old_r) \<and> om ! i = tids ! j \<and> IS_SLOT_SET ob i)"
    if "r \<in> set rs" for r j
    using that by (cases "offsets_find (offsets_list old_seg) (off_sid r)") auto
  then show ?thesis
    by (simp add: union_rows_def old_copy_deleted_def new old set_eq_iff) blast
qed

lemma set_group_rows:
  assumes new: "bitmap_ptr s = Some bm" "map_ptr s = Some tids" "offsets s = Some rs" "offsets_list s = rs"
    and follow: "groups_follow rs tids groups"
  shows "set (group_rows groups s) = {j. group_deleted rs tids groups j}"
proof -
  have "set (matches tids (row_positions r) (vg_tids gp)) = {j \<in> set (row_positions r). tids ! j \<in> set (vg_tids gp)}"
    if "gp \<in> set groups" "offsets_find rs (vg_sid gp) = Some r" for gp r
    using follow that matches_filter [of "vg_tids gp" tids "row_positions r"] by (auto simp: groups_follow_def)
  then have one: "j \<in> set (if vg_tids gp = [] then [] else (case offsets_find rs (vg_sid gp) of None \<Rightarrow> []
        | Some r \<Rightarrow> matches tids (row_positions r) (vg_tids gp)))
      \<longleftrightarrow> (\<exists>r. offsets_find rs (vg_sid gp) = Some r \<and> j \<in> set (row_positions r) \<and> tids ! j \<in> set (vg_tids gp))"
    if "gp \<in> set groups" for gp j
    using that by (cases "offsets_find rs (vg_sid gp)") auto
  have in_concat: "j \<in> set (concat (map F groups)) \<longleftrightarrow> (\<exists>gp \<in> set groups. j \<in> set (F gp))"
    for F :: "DpvVacuumGroup \<Rightarrow> nat list" and j by simp
  show ?thesis
    by (rule set_eqI) (simp only: group_rows_def group_deleted_def new in_concat one mem_Collect_eq
        option.case prod.case cong: bex_cong)
qed

lemma mark_rows_bits:
  assumes "bitmap_ptr s = Some bm" "\<forall>j \<in> set ms. in_bitmap bm j"
  shows "\<exists>new_bm. bitmap_ptr (mark_rows ms s) = Some new_bm
    \<and> (\<forall>j. IS_SLOT_SET new_bm j \<longleftrightarrow> IS_SLOT_SET bm j \<or> j \<in> set ms)"
    and "delete_count (mark_rows ms s) = delete_count s + of_nat (card {j \<in> set ms. \<not> IS_SLOT_SET bm j})"
  using assms by (auto simp: mark_rows_def marking)

lemma offsets_find_in: "offsets_find rs sid = Some r \<Longrightarrow> r \<in> set rs"
  by (auto simp: offsets_find_def find_Some_iff)

lemma displaced_iff:
  assumes "pool_disjoint pool xs" "displaces pool xs a b cover A Os B"
  shows "i \<in> set Os \<longleftrightarrow> i \<in> set xs \<and> a \<le> sid_end pool i \<and> sid_end pool i \<le> b"
proof -
  have "b < sid_end pool j" if "j \<in> set B" for j
  proof -
    have "b < sid_start pool j" "sid_start pool j \<le> sid_end pool j"
      using assms that by (auto simp: displaces_def pool_disjoint_def)
    then show ?thesis by (rule order.strict_trans2)
  qed
  with assms(2) show ?thesis by (auto simp: displaces_def not_less [symmetric])
qed

lemma find_listed:
  assumes "pool_inv p (A @ idx # B)" "pool_disjoint p (A @ idx # B)" "sid_start p idx = a" "sid_end p idx = b"
  shows "find_segment_by_sids p a b = Some (Some idx)"
proof -
  from assms(1) have links: "pool_links p (A @ idx # B)" and live: "in_used (flushed_segments p idx)"
    by (simp_all add: pool_inv_def pool_live_def)
  have "sid_start p i \<noteq> a" if "i \<in> set A" for i
  proof -
    have "sid_start p i \<le> sid_end p i" "sid_end p i < a"
      using assms(2,3) that by (simp_all add: pool_disjoint_def sorted_wrt_append)
    then show ?thesis by auto
  qed
  then have "find (\<lambda>i. in_used (flushed_segments p i) \<and> sid_start p i = a \<and> sid_end p i = b) A = None"
    unfolding find_None_iff by blast
  then show ?thesis
    using live assms(3,4) by (simp add: find_segment_by_sids_pool [OF links] find_skip)
qed

section \<open>Properties\<close>

text \<open>C10: (invariant) Adoption that no other thread interrupts, of a segment whose files exist and carry the range
  \<open>[a, b]\<close>, always returns. Either it discards the segment and every listed segment is as before, or it adopts:
  then the pool stays a well-formed list of pairwise disjoint ranges in ascending order, and the new segment,
  with the fetched version, is found by its range and stands in place of exactly the segments whose end lies in
  the range (so a segment that starts before the range and ends in it is displaced as a whole); every id of the
  range was represented before, by a covering memtable or by a displaced segment; the other segments keep
  their contents.\<close>

theorem adoption_keeps_ranges_disjoint:
  assumes inv: "pool_inv pool xs" and dis: "pool_disjoint pool xs" and ab: "a \<le> b" "b < UINT32_MAX"
    and f: "read_files st a b ver = Some f" "md_start_sid f = a" "md_end_sid f = b" "ver \<noteq> UINT32_MAX"
  shows "\<exists>outcome p. dpv_pool_adopt (\<lambda>n p. p) True st cap a b ver cover groups pool = Some (outcome, p)
    \<and> (outcome = DPV_ADOPT_STALE_DISCARD \<and> pool_inv p xs
         \<and> (\<forall>i \<in> set xs. flushed_segments p i = flushed_segments pool i)
       \<or> outcome = DPV_ADOPT_ADOPTED
         \<and> (\<exists>idx A Os B. displaces pool xs a b cover A Os B \<and> pool_inv p (A @ idx # B)
              \<and> pool_disjoint p (A @ idx # B) \<and> find_segment_by_sids p a b = Some (Some idx)
              \<and> sid_start p idx = a \<and> sid_end p idx = b \<and> version (flushed_segments p idx) = ver
              \<and> (\<forall>i \<in> set A \<union> set B. payload (flushed_segments p i) = payload (flushed_segments pool i))))"
proof (rule dpv_pool_adopt_cases [OF assms, of cap cover groups])
  fix p idx c A Os B s0
  assume run: "dpv_pool_adopt (\<lambda>n p. p) True st cap a b ver cover groups pool = Some (DPV_ADOPT_ADOPTED, p)"
    and d: "displaces pool xs a b cover A Os B" and p: "pool_inv p (A @ idx # B)" "pool_disjoint p (A @ idx # B)"
    and pay: "payload (flushed_segments p idx)
      = payload (mark_rows (case_rows groups pool (load_fetched st a b ver s0) Os c) (load_fetched st a b ver s0))"
    and others: "\<forall>i \<in> set A \<union> set B. payload (flushed_segments p i) = payload (flushed_segments pool i)"
  note new = payload_eqD [OF pay, unfolded mark_rows_sel load_fetched_sel [OF f(1,4)] f(2,3)]
  have "find_segment_by_sids p a b = Some (Some idx)"
    by (rule find_listed [OF p]) (simp_all add: new)
  with run d p new others show ?thesis by blast
qed blast

text \<open>A fetched segment for the range \<open>[3, 5]\<close> of the example pool.\<close>

definition ex_fetched :: segment_files where
  "ex_fetched = \<lparr>md_start_sid = 3, md_end_sid = 5, md_valid_rows = 2, md_index_type = HNSW, f_index = Some 1,
     f_bitmap = Some [0], f_delete_count = 0, f_mapping = Some [7, 9],
     f_offsets = Some [\<lparr>off_sid = 3, start_offset = 0, end_offset = 1\<rparr>, \<lparr>off_sid = 4, start_offset = 1, end_offset = 2\<rparr>,
       \<lparr>off_sid = 5, start_offset = 2, end_offset = 2\<rparr>]\<rparr>"

definition ex_fetch_store :: segment_store where
  "ex_fetch_store = \<lparr>read_files = (\<lambda>a b v. Some ex_fetched), find_latest_segment_version = (\<lambda>a b. 0)\<rparr>"

lemma ex_pool_disjoint: "pool_disjoint ex_pool [0, 1]"
  by (simp add: pool_disjoint_def ex_pool_def ex_seg_def)

theorem adoption_keeps_ranges_disjoint_witness:
  "\<exists>outcome p. dpv_pool_adopt (\<lambda>n p. p) True ex_fetch_store 50000 3 5 2 [4] [] ex_pool = Some (outcome, p)
    \<and> (outcome = DPV_ADOPT_STALE_DISCARD \<and> pool_inv p [0, 1]
         \<and> (\<forall>i \<in> set [0, 1]. flushed_segments p i = flushed_segments ex_pool i)
       \<or> outcome = DPV_ADOPT_ADOPTED
         \<and> (\<exists>idx A Os B. displaces ex_pool [0, 1] 3 5 [4] A Os B \<and> pool_inv p (A @ idx # B)
              \<and> pool_disjoint p (A @ idx # B) \<and> find_segment_by_sids p 3 5 = Some (Some idx)
              \<and> sid_start p idx = 3 \<and> sid_end p idx = 5 \<and> version (flushed_segments p idx) = 2
              \<and> (\<forall>i \<in> set A \<union> set B. payload (flushed_segments p i) = payload (flushed_segments ex_pool i))))"
  by (rule adoption_keeps_ranges_disjoint [OF ex_pool_inv ex_pool_disjoint, of 3 5 ex_fetch_store 2 ex_fetched])
    (simp_all add: ex_fetch_store_def ex_fetched_def)

text \<open>C9: (safety) Adoption that no other thread interrupts loses no tombstone it is given. Let the rows of the new
  segment keep, per segment id, the order of the rows in each displaced segment, and let the covering
  memtables' deletion lists keep the row order too, as files of the same rows do. Then in the adopted segment
  exactly these rows are deleted: those deleted in its own file, those whose copy is deleted in a segment it
  displaces (one whose end lies in its range), and those deleted in a covering memtable, the last unless the
  pool had a segment of exactly the same range, in which case the lists are not looked at.\<close>

theorem adoption_carries_tombstones:
  assumes inv: "pool_inv pool xs" and dis: "pool_disjoint pool xs" and ab: "a \<le> b" "b < UINT32_MAX"
    and f: "read_files st a b ver = Some f" "md_start_sid f = a" "md_end_sid f = b" "ver \<noteq> UINT32_MAX"
    and data: "f_bitmap f = Some bm" "f_mapping f = Some tids" "f_offsets f = Some rs" "length rs = unat (b - a + 1)"
    and follow: "\<forall>i \<in> set xs. a \<le> sid_end pool i \<and> sid_end pool i \<le> b \<longrightarrow> rows_follow rs tids (flushed_segments pool i)"
      "groups_follow rs tids groups"
    and fits: "rows_in_bitmap rs bm"
    and run: "dpv_pool_adopt (\<lambda>n p. p) True st cap a b ver cover groups pool = Some (DPV_ADOPT_ADOPTED, p)"
  shows "\<exists>idx new_bm. find_segment_by_sids p a b = Some (Some idx) \<and> bitmap_ptr (flushed_segments p idx) = Some new_bm
    \<and> (\<forall>j. IS_SLOT_SET new_bm j \<longleftrightarrow> IS_SLOT_SET bm j
         \<or> (\<exists>i \<in> set xs. a \<le> sid_end pool i \<and> sid_end pool i \<le> b \<and> old_copy_deleted rs tids (flushed_segments pool i) j)
         \<or> (\<not> exact_match pool xs a b \<and> group_deleted rs tids groups j))"
proof (rule dpv_pool_adopt_cases [OF inv dis ab f, of cap cover groups])
  fix q assume "dpv_pool_adopt (\<lambda>n p. p) True st cap a b ver cover groups pool = Some (DPV_ADOPT_STALE_DISCARD, q)"
  with run show ?thesis by simp
next
  fix q idx c A Os B s0
  let ?s = "load_fetched st a b ver s0"
  assume run': "dpv_pool_adopt (\<lambda>n p. p) True st cap a b ver cover groups pool = Some (DPV_ADOPT_ADOPTED, q)"
    and d: "displaces pool xs a b cover A Os B" and c: "decides pool (exact_match pool xs a b) ver Os c"
    and q: "pool_inv q (A @ idx # B)" "pool_disjoint q (A @ idx # B)"
    and pay: "payload (flushed_segments q idx) = payload (mark_rows (case_rows groups pool ?s Os c) ?s)"
  from run run' have p: "p = q" by simp
  note sel = load_fetched_sel [OF f(1,4)]
  note new = payload_eqD [OF pay, unfolded mark_rows_sel sel f(2,3)]
  have s: "bitmap_ptr ?s = Some bm" "map_ptr ?s = Some tids" "offsets ?s = Some rs" "offsets_list ?s = rs"
    using data by (simp_all add: sel offsets_list_def)
  have found: "find_segment_by_sids q a b = Some (Some idx)"
    by (rule find_listed [OF q]) (simp_all add: new)
  have Os: "i \<in> set Os \<longleftrightarrow> i \<in> set xs \<and> a \<le> sid_end pool i \<and> sid_end pool i \<le> b" for i
    using d displaced_iff [OF dis d] by blast
  have rows: "set (case_rows groups pool ?s Os c) = {j. (\<exists>i \<in> set Os. old_copy_deleted rs tids (flushed_segments pool i) j)
      \<or> (\<not> exact_match pool xs a b \<and> group_deleted rs tids groups j)}"
    using c follow Os by (auto simp: case_rows_def decides_def set_union_rows [OF s] set_group_rows [OF s] split: adopt_case.splits)
  have "\<forall>j \<in> set (case_rows groups pool ?s Os c). in_bitmap bm j"
    unfolding rows using fits by (auto simp: rows_in_bitmap_def old_copy_deleted_def group_deleted_def
        dest: offsets_find_in)
  from mark_rows_bits(1) [OF s(1) this] new(8)
  obtain new_bm where "bitmap_ptr (flushed_segments q idx) = Some new_bm"
    "\<forall>j. IS_SLOT_SET new_bm j \<longleftrightarrow> IS_SLOT_SET bm j \<or> j \<in> set (case_rows groups pool ?s Os c)" by auto
  with found show ?thesis unfolding p rows by (auto simp: Os)
qed

text \<open>Row 0 of the first segment of the example pool is deleted, and row 0 of the memtable 4.\<close>

definition ex_adopt_pool :: FlushedSegmentPool where
  "ex_adopt_pool = upd_seg 0 (\<lambda>s. s\<lparr>bitmap_ptr := Some [1],
     offsets := Some [\<lparr>off_sid = 3, start_offset = 0, end_offset = 2\<rparr>]\<rparr>) ex_pool"

definition ex_groups :: "DpvVacuumGroup list" where
  "ex_groups = [\<lparr>vg_sid = 4, vg_tids = [9]\<rparr>]"

lemma ex_adopt_pool_inv: "pool_inv ex_adopt_pool [0, 1]" "pool_disjoint ex_adopt_pool [0, 1]"
  by (simp_all add: ex_adopt_pool_def pool_inv_def pool_links_def pool_live_def pool_sorted_def ex_pool_def ex_seg_def
      MAX_SEGMENTS_COUNT_def pool_disjoint_def)

lemma ex_decides:
  assumes "pool_inv q [0, 1]" "\<forall>i \<in> {0, 1}. flushed_segments q i = flushed_segments ex_adopt_pool i"
  shows "decide_case q 3 5 2 [4] = Some (CaseE [snap_of q 0, snap_of q 1])"
proof -
  from assms(1) have links: "pool_links q [0, 1]" by (simp add: pool_inv_def)
  have vals: "flushed_segments q 0 = flushed_segments ex_adopt_pool 0"
    "flushed_segments q (Suc 0) = flushed_segments ex_adopt_pool (Suc 0)" using assms(2) by auto
  note ex = vals ex_adopt_pool_def ex_pool_def ex_seg_def
  have "head_idx q = first_opt [0, 1] None" using links by (simp add: pool_links_def)
  moreover have "tile_list q 3 5 [4] [0, 1] 3 [] = (True, 6, [snap_of q 0, snap_of q 1])"
    by (simp add: ex gap_covered_def upt_rec MAX_SEGMENTS_COUNT_def)
  ultimately have "tile_walk q 3 5 [4] (head_idx q) 3 [] = Some (True, 6, [snap_of q 0, snap_of q 1])"
    using tile_walk_list [of q "[]" "[0, 1]" 3 5 "[4]" 3 "[]"] links by simp
  then show ?thesis
    by (simp add: decide_case_def find_segment_by_sids_pool [OF links] find_strictly_containing_def
        walk_find_pool [OF links] ex trailing_covered_def)
qed

lemma ex_adopts: "\<exists>p. dpv_pool_adopt (\<lambda>n p. p) True ex_fetch_store 50000 3 5 2 [4] ex_groups ex_adopt_pool
    = Some (DPV_ADOPT_ADOPTED, p)"
proof -
  let ?p = "upd_seg 4 (\<lambda>s. s\<lparr>in_used := True\<rparr>) (ex_adopt_pool\<lparr>insert_idx := 5\<rparr>)"
  let ?q = "upd_seg 4 (load_fetched ex_fetch_store 3 5 2) ?p"
  have r: "reserve_flushed_segment ex_adopt_pool = (Some 4, ?p)"
    by (simp add: reserve_flushed_segment_def ex_adopt_pool_def ex_pool_def ex_seg_def MAX_SEGMENTS_COUNT_def first_from.simps)
  have q: "pool_inv ?q [0, 1]"
    using ex_adopt_pool_inv(1) by (intro pool_inv_upd_outside) simp_all
  have dec: "decide_case ?q 3 5 2 [4] = Some (CaseE [snap_of ?q 0, snap_of ?q 1])"
    by (rule ex_decides [OF q]) simp
  have valid: "snaps_valid ?q (case_snaps (CaseE [snap_of ?q 0, snap_of ?q 1]))"
    by (simp add: snaps_valid_def case_snaps_def snap_of_def ex_adopt_pool_def ex_pool_def ex_seg_def)
  have "adopt_rounds (\<lambda>n p. p) (Suc 3) 50000 3 5 2 [4] ex_groups 4 ?q
      = map_option (\<lambda>p. (DPV_ADOPT_ADOPTED, p)) (execute_case 50000 ex_groups 4 (CaseE [snap_of ?q 0, snap_of ?q 1]) ?q)"
    by (subst adopt_rounds.simps(2)) (simp only: dec valid option.case adopt_case.case Let_def if_True)
  moreover have "MAX_ADOPT_RETRIES = Suc 3" by (simp add: MAX_ADOPT_RETRIES_def)
  moreover have "\<exists>p. execute_case 50000 ex_groups 4 (CaseE [snap_of ?q 0, snap_of ?q 1]) ?q = Some p"
    by (simp only: execute_case_def adopt_case.case option.inject ex_simps simp_thms)
  ultimately have "\<exists>p. adopt_rounds (\<lambda>n p. p) MAX_ADOPT_RETRIES 50000 3 5 2 [4] ex_groups 4 ?q = Some (DPV_ADOPT_ADOPTED, p)"
    by (metis option.simps(9))
  then show ?thesis
    by (auto simp: dpv_pool_adopt_def r load_fetched_def [abs_def] Let_def simp del: upd_seg_sel)
qed

theorem adoption_carries_tombstones_witness:
  "\<exists>p idx new_bm. dpv_pool_adopt (\<lambda>n p. p) True ex_fetch_store 50000 3 5 2 [4] ex_groups ex_adopt_pool
       = Some (DPV_ADOPT_ADOPTED, p)
     \<and> find_segment_by_sids p 3 5 = Some (Some idx) \<and> bitmap_ptr (flushed_segments p idx) = Some new_bm
     \<and> IS_SLOT_SET new_bm 0 \<and> IS_SLOT_SET new_bm 1"
proof -
  obtain p where p: "dpv_pool_adopt (\<lambda>n p. p) True ex_fetch_store 50000 3 5 2 [4] ex_groups ex_adopt_pool
    = Some (DPV_ADOPT_ADOPTED, p)" using ex_adopts by blast
  let ?rs = "[\<lparr>off_sid = 3, start_offset = 0, end_offset = 1\<rparr>, \<lparr>off_sid = 4, start_offset = 1, end_offset = 2\<rparr>,
    \<lparr>off_sid = 5, start_offset = 2, end_offset = 2\<rparr>]"
  have upt: "[0..<Suc 0] = [0]" "[Suc 0..<2] = [1]" "[0..<2] = [0, 1::nat]" by (simp_all add: upt_rec)
  note ex = ex_adopt_pool_def ex_pool_def ex_seg_def
  have "\<exists>idx new_bm. find_segment_by_sids p 3 5 = Some (Some idx) \<and> bitmap_ptr (flushed_segments p idx) = Some new_bm
    \<and> (\<forall>j. IS_SLOT_SET new_bm j \<longleftrightarrow> IS_SLOT_SET [0] j
         \<or> (\<exists>i \<in> set [0, 1]. 3 \<le> sid_end ex_adopt_pool i \<and> sid_end ex_adopt_pool i \<le> 5
               \<and> old_copy_deleted ?rs [7, 9] (flushed_segments ex_adopt_pool i) j)
         \<or> (\<not> exact_match ex_adopt_pool [0, 1] 3 5 \<and> group_deleted ?rs [7, 9] ex_groups j))"
  proof (rule adoption_carries_tombstones [OF ex_adopt_pool_inv, of 3 5 ex_fetch_store 2 ex_fetched, OF _ _ _ _ _ _ _ _ _ _ _ _ _ p])
    show "\<forall>i \<in> set [0, 1]. 3 \<le> sid_end ex_adopt_pool i \<and> sid_end ex_adopt_pool i \<le> 5 \<longrightarrow>
        rows_follow ?rs [7, 9] (flushed_segments ex_adopt_pool i)"
      by (auto simp: rows_follow_def ex offsets_find_def offsets_list_def row_positions_def upt)
    show "groups_follow ?rs [7, 9] ex_groups"
      by (auto simp: groups_follow_def ex_groups_def offsets_find_def row_positions_def upt)
    show "rows_in_bitmap ?rs [0]"
      by (auto simp: rows_in_bitmap_def row_positions_def in_bitmap_def)
  qed (simp_all add: ex_fetch_store_def ex_fetched_def)
  then obtain idx new_bm where new: "find_segment_by_sids p 3 5 = Some (Some idx)"
    "bitmap_ptr (flushed_segments p idx) = Some new_bm"
    "\<And>j. IS_SLOT_SET new_bm j \<longleftrightarrow> IS_SLOT_SET [0] j
         \<or> (\<exists>i \<in> set [0, 1]. 3 \<le> sid_end ex_adopt_pool i \<and> sid_end ex_adopt_pool i \<le> 5
               \<and> old_copy_deleted ?rs [7, 9] (flushed_segments ex_adopt_pool i) j)
         \<or> (\<not> exact_match ex_adopt_pool [0, 1] 3 5 \<and> group_deleted ?rs [7, 9] ex_groups j)" by blast
  have "old_copy_deleted ?rs [7, 9] (flushed_segments ex_adopt_pool 0) 0"
    unfolding old_copy_deleted_def
    by (intro exI [of _ "[1]"] exI [of _ "[7, 9]"] exI [of _ "[\<lparr>off_sid = 3, start_offset = 0, end_offset = 2\<rparr>]"]
        exI [of _ "\<lparr>off_sid = 3, start_offset = 0, end_offset = 1\<rparr>"]
        exI [of _ "\<lparr>off_sid = 3, start_offset = 0, end_offset = 2\<rparr>"] exI [of _ 0])
      (simp add: ex offsets_find_def offsets_list_def row_positions_def IS_SLOT_SET_bit)
  moreover have "sid_end ex_adopt_pool 0 = 3" by (simp add: ex)
  ultimately have "IS_SLOT_SET new_bm 0" unfolding new(3) by (intro disjI2 disjI1 bexI [of _ 0]) simp_all
  moreover have "group_deleted ?rs [7, 9] ex_groups 1"
    by (simp add: group_deleted_def ex_groups_def offsets_find_def row_positions_def)
  moreover have "\<not> exact_match ex_adopt_pool [0, 1] 3 5" by (simp add: exact_match_def ex)
  ultimately have "IS_SLOT_SET new_bm 0" "IS_SLOT_SET new_bm 1" unfolding new(3) by blast+
  with p new(1,2) show ?thesis by blast
qed

end
