(* ===== verification/IndexSlots.thy ===== *)
theory IndexSlots
  imports SharedState SegmentFiles
begin

text \<open>
  The life cycle of the index slots (\<^verbatim>\<open>lsmindex.c\<close>, \<^verbatim>\<open>index_recovery_worker.c\<close>): claiming a slot for an
  index, recovery by the background worker, in-place construction by CREATE INDEX, redo of CREATE INDEX
  and loading for the first reader. A section under the buffer lock is one function on the slots;
  waiting on \<^verbatim>\<open>state_cv\<close> is the argument \<open>await\<close>, the slots as they are when the wait ends.
\<close>

type_synonym slots = "LSMIndexBufferSlot list"

abbreviation relid_of :: "slots \<Rightarrow> nat \<Rightarrow> oid" where
  "relid_of ss i \<equiv> indexRelId (lsmIndex (ss ! i))"

abbreviation state_of :: "slots \<Rightarrow> nat \<Rightarrow> LSMSlotState" where
  "state_of ss i \<equiv> valid (ss ! i)"

datatype slot_error = NoFreeSlot | WorkerNotRunning | RecoveryFailed | InvalidDbOid | LoadFailed | FetchTimeout

section \<open>Initialisation\<close>

text \<open>
  The part of \<^verbatim>\<open>lsm_index_buffer_shmem_initialize\<close> that concerns the slots; \<open>ss0\<close> is the memory as it was.
\<close>

definition initialize_slot :: "LSMIndexBufferSlot \<Rightarrow> LSMIndexBufferSlot" where
  "initialize_slot s =
     s\<lparr>valid := LSM_SLOT_FREE, state_error := False, request_db_oid := 0, request_db_userid := 0,
       lsmIndex := (lsmIndex s)\<lparr>growing_memtable_idx := MT_IDX_INVALID, growing_memtable_id := 0,
                                flushed_not_released_count := 0, releasing_in_progress := False\<rparr>\<rparr>"

definition lsm_index_buffer_shmem_initialize :: "slots \<Rightarrow> slots" where
  "lsm_index_buffer_shmem_initialize ss0 = map (\<lambda>i. initialize_slot (ss0 ! i)) [0..<INDEX_BUF_SIZE]"

section \<open>Claiming\<close>

definition find_registered :: "slots \<Rightarrow> oid \<Rightarrow> nat option" where
  "find_registered ss relid =
     first_from (\<lambda>i. \<not> (state_of ss i = LSM_SLOT_FREE \<or> relid_of ss i \<noteq> relid)) 0 INDEX_BUF_SIZE"

definition first_free :: "slots \<Rightarrow> nat option" where
  "first_free ss = first_from (\<lambda>i. state_of ss i = LSM_SLOT_FREE) 0 INDEX_BUF_SIZE"

definition set_state :: "nat \<Rightarrow> LSMSlotState \<Rightarrow> slots \<Rightarrow> slots" where
  "set_state i v ss = ss[i := (ss ! i)\<lparr>valid := v\<rparr>]"

definition set_failed :: "nat \<Rightarrow> LSMSlotState \<Rightarrow> slots \<Rightarrow> slots" where
  "set_failed i v ss = ss[i := (ss ! i)\<lparr>state_error := True, valid := v\<rparr>]"

definition claim_for :: "oid \<Rightarrow> oid \<Rightarrow> oid \<Rightarrow> LSMIndexBufferSlot \<Rightarrow> LSMIndexBufferSlot" where
  "claim_for relid db user s =
     s\<lparr>valid := LSM_SLOT_RECOVERING, state_error := False, request_db_oid := db, request_db_userid := user,
       lsmIndex := (lsmIndex s)\<lparr>indexRelId := relid\<rparr>\<rparr>"

datatype claim_result = Found nat LSMSlotState | Claimed nat | NoSlot

text \<open>The section of \<^verbatim>\<open>claim_or_find_lsm_index_slot\<close> under the buffer lock.\<close>

definition claim_section :: "oid \<Rightarrow> oid \<Rightarrow> oid \<Rightarrow> slots \<Rightarrow> claim_result \<times> slots" where
  "claim_section relid db user ss =
     (case find_registered ss relid of
        Some i \<Rightarrow> (Found i (state_of ss i), ss)
      | None \<Rightarrow>
          (case first_free ss of
             None \<Rightarrow> (NoSlot, ss)
           | Some i \<Rightarrow> (Claimed i, ss[i := claim_for relid db user (ss ! i)])))"

definition recovered :: "slots \<Rightarrow> nat \<Rightarrow> bool" where
  "recovered ss i \<longleftrightarrow> is_writable (state_of ss i) \<and> \<not> state_error (ss ! i)"

definition wait_recovered ::
  "(nat \<Rightarrow> slots \<Rightarrow> slots) \<Rightarrow> nat \<Rightarrow> slots \<Rightarrow> (slot_error + nat) \<times> slots" where
  "wait_recovered await i ss =
     (let ss = await i ss in (if recovered ss i then Inr i else Inl RecoveryFailed, ss))"

definition claim_or_find_lsm_index_slot ::
  "(nat \<Rightarrow> slots \<Rightarrow> slots) \<Rightarrow> bool \<Rightarrow> oid \<Rightarrow> oid \<Rightarrow> oid \<Rightarrow> slots \<Rightarrow> (slot_error + nat) \<times> slots" where
  "claim_or_find_lsm_index_slot await worker_running relid db user ss =
     (case claim_section relid db user ss of
        (Found i v, ss) \<Rightarrow> if is_writable v then (Inr i, ss) else wait_recovered await i ss
      | (NoSlot, ss) \<Rightarrow> (Inl NoFreeSlot, ss)
      | (Claimed i, ss) \<Rightarrow>
          if worker_running then wait_recovered await i ss
          else (Inl WorkerNotRunning, set_state i LSM_SLOT_FREE ss))"

definition register_lsm_index ::
  "(nat \<Rightarrow> slots \<Rightarrow> slots) \<Rightarrow> bool \<Rightarrow> oid \<Rightarrow> oid \<Rightarrow> oid \<Rightarrow> slots \<Rightarrow> (slot_error + nat) \<times> slots" where
  "register_lsm_index await worker_running my_db my_user relid ss =
     claim_or_find_lsm_index_slot await worker_running relid my_db my_user ss"

definition register_lsm_index_for_redo ::
  "(nat \<Rightarrow> slots \<Rightarrow> slots) \<Rightarrow> bool \<Rightarrow> oid \<Rightarrow> oid \<Rightarrow> slots \<Rightarrow> (slot_error + nat) \<times> slots" where
  "register_lsm_index_for_redo await worker_running db relid ss =
     (if db = 0 then (Inl InvalidDbOid, ss)
      else claim_or_find_lsm_index_slot await worker_running relid db 0 ss)"

text \<open>Redo of CREATE INDEX claims a free slot straight to WRITABLE.\<close>

definition create_redo_slot :: "oid \<Rightarrow> oid \<Rightarrow> IndexType \<Rightarrow> nat \<Rightarrow> nat \<Rightarrow> LSMIndexBufferSlot \<Rightarrow> LSMIndexBufferSlot" where
  "create_redo_slot db relid ty dim elem_size s =
     s\<lparr>valid := LSM_SLOT_WRITABLE, state_error := False, request_db_oid := db, request_db_userid := 0,
       lsmIndex := (lsmIndex s)\<lparr>indexRelId := relid, lx_index_type := ty, lx_dim := dim, lx_elem_size := elem_size,
         next_segment_id := START_SEGMENT_ID + 1, memtable_idxs := replicate MEMTABLE_NUM (-1), memtable_count := 0,
         flushed_not_released_count := 0, releasing_in_progress := False\<rparr>\<rparr>"

definition claim_lsm_index_slot_for_create_redo ::
  "oid \<Rightarrow> oid \<Rightarrow> IndexType \<Rightarrow> nat \<Rightarrow> nat \<Rightarrow> slots \<Rightarrow> nat option \<times> slots" where
  "claim_lsm_index_slot_for_create_redo db relid ty dim elem_size ss =
     (case find_registered ss relid of
        Some i \<Rightarrow> (Some i, ss)
      | None \<Rightarrow>
          (case first_free ss of
             None \<Rightarrow> (None, ss)
           | Some i \<Rightarrow> (Some i, ss[i := create_redo_slot db relid ty dim elem_size (ss ! i)])))"

section \<open>Lookup\<close>

definition lookup_lsm_index_idx :: "(nat \<Rightarrow> slots \<Rightarrow> slots) \<Rightarrow> oid \<Rightarrow> slots \<Rightarrow> nat option \<times> slots" where
  "lookup_lsm_index_idx await relid ss =
     (case find_registered ss relid of
        None \<Rightarrow> (None, ss)
      | Some i \<Rightarrow>
          if is_writable (state_of ss i) then (Some i, ss)
          else (case wait_recovered await i ss of (Inr i, ss) \<Rightarrow> (Some i, ss) | (Inl _, ss) \<Rightarrow> (None, ss)))"

definition get_lsm_index_idx ::
  "(nat \<Rightarrow> slots \<Rightarrow> slots) \<Rightarrow> bool \<Rightarrow> oid \<Rightarrow> oid \<Rightarrow> oid \<Rightarrow> bool \<Rightarrow> oid \<Rightarrow> slots \<Rightarrow> (slot_error + nat) \<times> slots" where
  "get_lsm_index_idx await worker_running my_db my_user relid for_redo db ss =
     (case find_registered ss relid of
        Some i \<Rightarrow> if is_writable (state_of ss i) then (Inr i, ss) else wait_recovered await i ss
      | None \<Rightarrow>
          if for_redo then register_lsm_index_for_redo await worker_running db relid ss
          else register_lsm_index await worker_running my_db my_user relid ss)"

definition get_lsm_index ::
  "(nat \<Rightarrow> slots \<Rightarrow> slots) \<Rightarrow> bool \<Rightarrow> oid \<Rightarrow> oid \<Rightarrow> oid \<Rightarrow> slots \<Rightarrow> (slot_error + nat) \<times> slots" where
  "get_lsm_index await worker_running my_db my_user relid ss =
     (case find_registered ss relid of
        Some i \<Rightarrow> if is_writable (state_of ss i) then (Inr i, ss) else wait_recovered await i ss
      | None \<Rightarrow> register_lsm_index await worker_running my_db my_user relid ss)"

section \<open>Loading for the first reader\<close>

definition dpv_initial_segment_on_disk :: "directory \<Rightarrow> bool" where
  "dpv_initial_segment_on_disk d \<longleftrightarrow>
     (\<exists>f \<in> set (scan_segment_metadata_files d MAX_SEGMENTS_COUNT).
        fi_start_sid f \<le> START_SEGMENT_ID \<and> START_SEGMENT_ID \<le> fi_end_sid f)"

text \<open>The polling loop of the standby barrier; \<open>disk t\<close> is the directory after \<open>t\<close> milliseconds.\<close>

function fetch_barrier :: "nat \<Rightarrow> (nat \<Rightarrow> directory) \<Rightarrow> nat \<Rightarrow> bool" where
  "fetch_barrier timeout disk waited_ms =
     (if dpv_initial_segment_on_disk (disk waited_ms) then True
      else if waited_ms \<ge> timeout then False
      else fetch_barrier timeout disk (waited_ms + 100))"
  by pat_completeness auto
termination by (relation "measure (\<lambda>(timeout, disk, waited_ms). timeout - waited_ms)") auto

declare fetch_barrier.simps [simp del]

text \<open>
  \<open>race\<close> is what others do between the read of the state and the compare-and-swap, \<open>later\<close> the slots when a
  loser's wait ends; \<open>load_ok\<close> says whether \<^verbatim>\<open>index_load_blocking\<close> succeeds.
\<close>

definition ensure_index_loaded ::
  "(slots \<Rightarrow> slots) \<Rightarrow> (slots \<Rightarrow> slots) \<Rightarrow> bool \<Rightarrow> nat \<Rightarrow> (nat \<Rightarrow> directory) \<Rightarrow> bool \<Rightarrow> nat \<Rightarrow> slots
     \<Rightarrow> (slot_error + bool) \<times> slots" where
  "ensure_index_loaded race later standby timeout disk load_ok i ss =
     (let v = state_of ss i;
          lost = (\<lambda>ss. let ss = later ss in (Inr (state_of ss i = LSM_SLOT_QUERYABLE), ss))
      in if v = LSM_SLOT_QUERYABLE then (Inr True, ss)
         else if v = LSM_SLOT_WRITABLE then
           (let ss = race ss in
            if state_of ss i \<noteq> LSM_SLOT_WRITABLE then lost ss
            else
              let ss = ss[i := (ss ! i)\<lparr>valid := LSM_SLOT_LOADING_INDEX, state_error := False\<rparr>] in
              if standby \<and> \<not> fetch_barrier timeout disk 0 then (Inl FetchTimeout, set_failed i LSM_SLOT_WRITABLE ss)
              else if \<not> load_ok then (Inl LoadFailed, set_failed i LSM_SLOT_WRITABLE ss)
              else (Inr True, set_state i LSM_SLOT_QUERYABLE ss))
         else lost ss)"

definition get_lsm_index_for_read ::
  "(nat \<Rightarrow> slots \<Rightarrow> slots) \<Rightarrow> (slots \<Rightarrow> slots) \<Rightarrow> (slots \<Rightarrow> slots) \<Rightarrow> bool \<Rightarrow> bool \<Rightarrow> nat \<Rightarrow> (nat \<Rightarrow> directory) \<Rightarrow> bool
     \<Rightarrow> oid \<Rightarrow> oid \<Rightarrow> oid \<Rightarrow> slots \<Rightarrow> (slot_error + nat) \<times> slots" where
  "get_lsm_index_for_read await race later worker_running standby timeout disk load_ok my_db my_user relid ss =
     (case get_lsm_index_idx await worker_running my_db my_user relid False 0 ss of
        (Inl e, ss) \<Rightarrow> (Inl e, ss)
      | (Inr i, ss) \<Rightarrow>
          (case ensure_index_loaded race later standby timeout disk load_ok i ss of
             (Inl e, ss) \<Rightarrow> (Inl e, ss)
           | (Inr ok, ss) \<Rightarrow> (if ok then Inr i else Inl LoadFailed, ss)))"

section \<open>The recovery worker\<close>

text \<open>
  One slot of the scan of \<^verbatim>\<open>index_recovery_worker_main\<close>. \<open>conn\<close> is the database the worker is bound to;
  \<open>recover\<close> is \<^verbatim>\<open>recover_lsm_index_internal\<close> on the slot's index, \<open>None\<close> an error. The last component is
  \<^verbatim>\<open>found_work\<close>.
\<close>

definition worker_slot ::
  "(oid \<Rightarrow> LSMIndexData \<Rightarrow> LSMIndexData option) \<Rightarrow> nat \<Rightarrow> oid option \<times> slots \<times> bool \<Rightarrow> oid option \<times> slots \<times> bool"
where
  "worker_slot recover i st =
     (case st of (conn, ss, found_work) \<Rightarrow>
        if state_of ss i \<noteq> LSM_SLOT_RECOVERING then st
        else if conn \<noteq> None \<and> conn \<noteq> Some (request_db_oid (ss ! i))
        then (conn, set_failed i LSM_SLOT_FREE ss, True)
        else
          (Some (request_db_oid (ss ! i)),
           (case recover (relid_of ss i) (lsmIndex (ss ! i)) of
              None \<Rightarrow> set_failed i LSM_SLOT_FREE ss
            | Some lsm \<Rightarrow> ss[i := (ss ! i)\<lparr>lsmIndex := lsm, valid := LSM_SLOT_WRITABLE\<rparr>]),
           True))"

definition worker_pass ::
  "(oid \<Rightarrow> LSMIndexData \<Rightarrow> LSMIndexData option) \<Rightarrow> oid option \<Rightarrow> slots \<Rightarrow> oid option \<times> slots \<times> bool" where
  "worker_pass recover conn ss = foldl (\<lambda>st i. worker_slot recover i st) (conn, ss, False) [0..<INDEX_BUF_SIZE]"

text \<open>\<^verbatim>\<open>do ... while (found_work)\<close>\<close>

partial_function (option) worker_scan ::
  "(oid \<Rightarrow> LSMIndexData \<Rightarrow> LSMIndexData option) \<Rightarrow> oid option \<Rightarrow> slots \<Rightarrow> (oid option \<times> slots) option" where
  "worker_scan recover conn ss =
     (case worker_pass recover conn ss of (conn, ss, found_work) \<Rightarrow>
        if found_work then worker_scan recover conn ss else Some (conn, ss))"

section \<open>CREATE INDEX in place\<close>

text \<open>
  \<^verbatim>\<open>build_lsm_index\<close> touches its slot three times: it claims it under the lock, names it after the lock is
  released, and publishes it when segment and growing memtable exist.
\<close>

definition build_claim :: "slots \<Rightarrow> nat option \<times> slots" where
  "build_claim ss =
     (case first_free ss of None \<Rightarrow> (None, ss) | Some i \<Rightarrow> (Some i, set_state i LSM_SLOT_RECOVERING ss))"

definition build_fill ::
  "oid \<Rightarrow> IndexType \<Rightarrow> nat \<Rightarrow> nat \<Rightarrow> u32 \<Rightarrow> u32 \<Rightarrow> nat \<Rightarrow> slots \<Rightarrow> slots" where
  "build_fill relid ty dim elem_size m ef i ss =
     ss[i := (ss ! i)\<lparr>lsmIndex := (lsmIndex (ss ! i))\<lparr>indexRelId := relid, lx_index_type := ty, lx_dim := dim,
         lx_elem_size := elem_size, hnsw_m := (if ty = HNSW then m else 32),
         hnsw_ef_construction := (if ty = HNSW then ef else 200), next_segment_id := START_SEGMENT_ID + 1\<rparr>\<rparr>]"

definition build_publish :: "int \<Rightarrow> SegmentId \<Rightarrow> nat \<Rightarrow> slots \<Rightarrow> slots" where
  "build_publish mt_idx mt_id i ss =
     ss[i := (ss ! i)\<lparr>valid := LSM_SLOT_QUERYABLE, lsmIndex := (lsmIndex (ss ! i))
        \<lparr>memtable_idxs := replicate MEMTABLE_NUM (-1), memtable_count := 0, flushed_not_released_count := 0,
          releasing_in_progress := False, growing_memtable_idx := mt_idx, growing_memtable_id := mt_id\<rparr>\<rparr>]"

section \<open>Interleavings\<close>

text \<open>
  All processes together. A locked section is one step; \<open>builds\<close> remembers the running builds with their
  slot, their index and whether the slot has been named. The lock on the relation keeps others from claiming a
  slot for an index under construction. Two things can go wrong and are remembered as well: \<open>rebuilt\<close> are the
  indexes that \<^verbatim>\<open>build_lsm_index\<close> was run for (REINDEX, TRUNCATE) while a slot still carried their name, and
  \<open>disturbed\<close> says that the recovery worker has taken the slot of a running build for a request. The three are not
  in memory.
\<close>

record slot_system =
  sys_slots :: slots
  builds :: "(nat \<times> oid \<times> bool) set"
  rebuilt :: "oid set"
  disturbed :: bool

definition under_construction :: "slot_system \<Rightarrow> oid \<Rightarrow> bool" where
  "under_construction st relid \<longleftrightarrow> (\<exists>i named. (i, relid, named) \<in> builds st)"

text \<open>A slot is settled when it is not free and carries the name of its owner.\<close>

definition settled :: "slot_system \<Rightarrow> nat \<Rightarrow> bool" where
  "settled st i \<longleftrightarrow> i < INDEX_BUF_SIZE \<and> state_of (sys_slots st) i \<noteq> LSM_SLOT_FREE
     \<and> (\<forall>relid. (i, relid, False) \<notin> builds st)"

definition has_slot :: "slot_system \<Rightarrow> oid \<Rightarrow> bool" where
  "has_slot st relid \<longleftrightarrow> (\<exists>i. settled st i \<and> relid_of (sys_slots st) i = relid)"

inductive slot_step :: "slot_system \<Rightarrow> slot_system \<Rightarrow> bool" where
  claim: "\<not> under_construction st relid \<Longrightarrow>
    slot_step st (st\<lparr>sys_slots := snd (claim_section relid db user (sys_slots st))\<rparr>)"
| create_redo: "\<not> under_construction st relid \<Longrightarrow>
    slot_step st (st\<lparr>sys_slots := snd (claim_lsm_index_slot_for_create_redo db relid ty dim sz (sys_slots st))\<rparr>)"
| unclaim: "state_of (sys_slots st) i = LSM_SLOT_RECOVERING \<Longrightarrow> \<forall>relid named. (i, relid, named) \<notin> builds st \<Longrightarrow>
    slot_step st (st\<lparr>sys_slots := set_state i LSM_SLOT_FREE (sys_slots st)\<rparr>)"
| recovery: "\<forall>d. outcome = Some d \<longrightarrow> indexRelId d = relid_of (sys_slots st) i \<Longrightarrow>
    slot_step st (st\<lparr>sys_slots := fst (snd (worker_slot (\<lambda>r d. outcome) i (conn, sys_slots st, fw))),
                     disturbed := disturbed st \<or> (\<exists>relid named. (i, relid, named) \<in> builds st)\<rparr>)"
| build_claim: "\<not> under_construction st relid \<Longrightarrow> build_claim (sys_slots st) = (Some i, ss) \<Longrightarrow>
    slot_step st (st\<lparr>sys_slots := ss, builds := insert (i, relid, False) (builds st),
                     rebuilt := (if has_slot st relid then insert relid (rebuilt st) else rebuilt st)\<rparr>)"
| build_fill: "(i, relid, False) \<in> builds st \<Longrightarrow>
    slot_step st (st\<lparr>sys_slots := build_fill relid ty dim sz m ef i (sys_slots st),
                     builds := insert (i, relid, True) (builds st - {(i, relid, False)})\<rparr>)"
| build_publish: "(i, relid, True) \<in> builds st \<Longrightarrow>
    slot_step st (st\<lparr>sys_slots := build_publish mt_idx mt_id i (sys_slots st), builds := builds st - {(i, relid, True)}\<rparr>)"
| load_begin: "state_of (sys_slots st) i = LSM_SLOT_WRITABLE \<Longrightarrow> i < INDEX_BUF_SIZE \<Longrightarrow>
    slot_step st (st\<lparr>sys_slots := (sys_slots st)[i := (sys_slots st ! i)\<lparr>valid := LSM_SLOT_LOADING_INDEX, state_error := False\<rparr>]\<rparr>)"
| load_done: "state_of (sys_slots st) i = LSM_SLOT_LOADING_INDEX \<Longrightarrow>
    slot_step st (st\<lparr>sys_slots := set_state i LSM_SLOT_QUERYABLE (sys_slots st)\<rparr>)"
| load_failed: "state_of (sys_slots st) i = LSM_SLOT_LOADING_INDEX \<Longrightarrow>
    slot_step st (st\<lparr>sys_slots := set_failed i LSM_SLOT_WRITABLE (sys_slots st)\<rparr>)"

inductive_cases slot_stepE: "slot_step st st'"

definition initial_system :: "slot_system \<Rightarrow> bool" where
  "initial_system st \<longleftrightarrow> length (sys_slots st) = INDEX_BUF_SIZE \<and> builds st = {} \<and> rebuilt st = {} \<and> \<not> disturbed st
     \<and> (\<forall>i < INDEX_BUF_SIZE. state_of (sys_slots st) i = LSM_SLOT_FREE)"

abbreviation slot_reachable :: "slot_system \<Rightarrow> bool" where
  "slot_reachable st \<equiv> (\<exists>st0. initial_system st0 \<and> slot_step\<^sup>*\<^sup>* st0 st)"

definition unique_names :: "slot_system \<Rightarrow> bool" where
  "unique_names st \<longleftrightarrow>
     (\<forall>i j. settled st i \<longrightarrow> settled st j \<longrightarrow> relid_of (sys_slots st) i = relid_of (sys_slots st) j \<longrightarrow>
        relid_of (sys_slots st) i \<notin> rebuilt st \<longrightarrow> i = j)"

text \<open>A running build owns its slot, and a settled slot with its index's name is that slot.\<close>

definition builds_ok :: "slot_system \<Rightarrow> bool" where
  "builds_ok st \<longleftrightarrow>
     (\<forall>i relid named. (i, relid, named) \<in> builds st \<longrightarrow> i < INDEX_BUF_SIZE
        \<and> state_of (sys_slots st) i = LSM_SLOT_RECOVERING
        \<and> (named \<longrightarrow> relid_of (sys_slots st) i = relid)
        \<and> (\<forall>j. relid \<notin> rebuilt st \<longrightarrow> settled st j \<longrightarrow> relid_of (sys_slots st) j = relid \<longrightarrow> named \<and> j = i))"

definition builds_functional :: "slot_system \<Rightarrow> bool" where
  "builds_functional st \<longleftrightarrow>
     (\<forall>i j r r' n m. (i, r, n) \<in> builds st \<longrightarrow> (j, r', m) \<in> builds st \<longrightarrow> i = j \<or> r = r' \<longrightarrow> i = j \<and> r = r' \<and> n = m)"

definition slots_inv :: "slot_system \<Rightarrow> bool" where
  "slots_inv st \<longleftrightarrow> length (sys_slots st) = INDEX_BUF_SIZE \<and> unique_names st \<and> builds_ok st \<and> builds_functional st"

lemmas slots_inv_defs = slots_inv_def unique_names_def builds_ok_def builds_functional_def

lemma relid_update: "indexRelId (lsmIndex s) = relid_of ss i \<Longrightarrow> relid_of (ss[i := s]) j = relid_of ss j"
  by (cases "i < length ss"; cases "j = i") (simp_all add: list_update_beyond)

lemma state_update: "state_of (ss[i := s]) j = (if j = i \<and> i < length ss then valid s else state_of ss j)"
  by (cases "i < length ss"; cases "j = i") (simp_all add: list_update_beyond)

lemma find_registered_None:
  "find_registered ss relid = None \<Longrightarrow> i < INDEX_BUF_SIZE \<Longrightarrow> state_of ss i \<noteq> LSM_SLOT_FREE \<Longrightarrow> relid_of ss i \<noteq> relid"
  by (auto simp: find_registered_def first_from_None_iff)

lemma find_registered_Some:
  "find_registered ss relid = Some i \<Longrightarrow>
    i < INDEX_BUF_SIZE \<and> state_of ss i \<noteq> LSM_SLOT_FREE \<and> relid_of ss i = relid
    \<and> (\<forall>j < i. state_of ss j = LSM_SLOT_FREE \<or> relid_of ss j \<noteq> relid)"
  by (auto simp: find_registered_def dest: first_from_SomeD)

lemma first_free_Some: "first_free ss = Some i \<Longrightarrow> i < INDEX_BUF_SIZE \<and> state_of ss i = LSM_SLOT_FREE"
  by (auto simp: first_free_def dest: first_from_SomeD)

text \<open>Steps that only move slots between live states, or free them, and leave running builds alone.\<close>

lemma slots_inv_weaken:
  assumes inv: "slots_inv st" and len: "length ss = length (sys_slots st)"
    and live: "\<And>j. j < INDEX_BUF_SIZE \<Longrightarrow> state_of ss j \<noteq> LSM_SLOT_FREE \<Longrightarrow> state_of (sys_slots st) j \<noteq> LSM_SLOT_FREE"
    and name: "\<And>j. j < INDEX_BUF_SIZE \<Longrightarrow> relid_of ss j = relid_of (sys_slots st) j"
    and own: "\<And>j relid named. (j, relid, named) \<in> builds st \<Longrightarrow> state_of ss j = state_of (sys_slots st) j"
  shows "slots_inv (st\<lparr>sys_slots := ss\<rparr>)"
proof -
  let ?st = "st\<lparr>sys_slots := ss\<rparr>"
  have old: "settled st j \<and> relid_of ss j = relid_of (sys_slots st) j" if "settled ?st j" for j
    using that live name by (auto simp: settled_def)
  have "unique_names ?st"
    using inv old unfolding slots_inv_def unique_names_def by simp
  moreover have "state_of ss i = LSM_SLOT_RECOVERING" if "(i, relid, named) \<in> builds st" for i relid named
    using own [OF that] inv that by (auto simp: slots_inv_def builds_ok_def)
  then have "builds_ok ?st"
    using inv old name unfolding slots_inv_def builds_ok_def by simp metis
  ultimately show ?thesis using inv len by (simp add: slots_inv_def builds_functional_def)
qed

lemma slots_inv_disturbed: "slots_inv (st\<lparr>disturbed := b\<rparr>) = slots_inv st"
  by (simp add: slots_inv_defs settled_def)

text \<open>Naming a slot that was free, for an index that has none.\<close>

lemma slots_inv_claim:
  assumes inv: "slots_inv st" and i: "i < INDEX_BUF_SIZE" "state_of (sys_slots st) i = LSM_SLOT_FREE"
    and none: "find_registered (sys_slots st) relid = None" "\<not> under_construction st relid"
    and s: "indexRelId (lsmIndex s) = relid"
  shows "slots_inv (st\<lparr>sys_slots := (sys_slots st)[i := s]\<rparr>)"
proof -
  let ?st = "st\<lparr>sys_slots := (sys_slots st)[i := s]\<rparr>"
  have len: "length (sys_slots st) = INDEX_BUF_SIZE" using inv by (simp add: slots_inv_def)
  have old: "settled st j \<and> relid_of (sys_slots ?st) j = relid_of (sys_slots st) j \<and> relid_of (sys_slots st) j \<noteq> relid"
    if "settled ?st j" "j \<noteq> i" for j
    using that find_registered_None [OF none(1), of j] by (auto simp: settled_def)
  have new: "relid_of (sys_slots ?st) i = relid" using i len s by simp
  have other: "k \<noteq> i \<and> r \<noteq> relid" if "(k, r, named) \<in> builds st" for k r named
    using that inv i(2) none(2) by (force simp: slots_inv_def builds_ok_def under_construction_def)
  have "unique_names ?st"
    unfolding unique_names_def
  proof (intro allI impI)
    fix j k assume jk: "settled ?st j" "settled ?st k" "relid_of (sys_slots ?st) j = relid_of (sys_slots ?st) k"
      "relid_of (sys_slots ?st) j \<notin> rebuilt ?st"
    then show "j = k"
      using old [OF jk(1)] old [OF jk(2)] new inv
      by (cases "j = i"; cases "k = i") (auto simp: slots_inv_def unique_names_def)
  qed
  moreover have "builds_ok ?st"
    unfolding builds_ok_def
  proof (intro allI impI conjI)
    fix k r named assume k: "(k, r, named) \<in> builds ?st"
    then have b: "(k, r, named) \<in> builds st" by simp
    from b inv show "k < INDEX_BUF_SIZE" by (auto simp: slots_inv_def builds_ok_def)
    from b inv other [OF b] show "state_of (sys_slots ?st) k = LSM_SLOT_RECOVERING"
      and "named \<Longrightarrow> relid_of (sys_slots ?st) k = r" by (auto simp: slots_inv_def builds_ok_def)
    fix j assume j: "r \<notin> rebuilt ?st" "settled ?st j" "relid_of (sys_slots ?st) j = r"
    with new other [OF b] have "j \<noteq> i" by auto
    with old [OF j(2)] j(3) have "settled st j" "relid_of (sys_slots st) j = r" by auto
    with b inv j(1) have "named \<and> j = k" by (auto simp: slots_inv_def builds_ok_def)
    then show named "j = k" by auto
  qed
  ultimately show ?thesis using inv by (simp add: slots_inv_def builds_functional_def)
qed

lemma slots_inv_initial: "initial_system st \<Longrightarrow> slots_inv st"
  by (auto simp: initial_system_def slots_inv_defs settled_def)

lemma builds_functional_mono:
  assumes "builds_functional st" "builds st' \<subseteq> builds st"
  shows "builds_functional st'"
  unfolding builds_functional_def
proof (intro allI impI)
  fix i j r r' n m assume "(i, r, n) \<in> builds st'" "(j, r', m) \<in> builds st'" and eq: "i = j \<or> r = r'"
  then have "(i, r, n) \<in> builds st" "(j, r', m) \<in> builds st" using assms(2) by blast+
  with assms(1) eq show "i = j \<and> r = r' \<and> n = m" unfolding builds_functional_def by metis
qed

lemma slots_inv_build_claim:
  assumes inv: "slots_inv st" and new: "\<not> under_construction st relid" and i: "build_claim (sys_slots st) = (Some i, ss)"
  shows "slots_inv (st\<lparr>sys_slots := ss, builds := insert (i, relid, False) (builds st),
           rebuilt := (if has_slot st relid then insert relid (rebuilt st) else rebuilt st)\<rparr>)"
proof -
  let ?st = "st\<lparr>sys_slots := ss, builds := insert (i, relid, False) (builds st),
    rebuilt := (if has_slot st relid then insert relid (rebuilt st) else rebuilt st)\<rparr>"
  from i have f: "i < INDEX_BUF_SIZE" "state_of (sys_slots st) i = LSM_SLOT_FREE"
    and ss: "ss = set_state i LSM_SLOT_RECOVERING (sys_slots st)"
    by (auto simp: build_claim_def split: option.splits dest: first_free_Some)
  have len: "length (sys_slots st) = INDEX_BUF_SIZE" using inv by (simp add: slots_inv_def)
  have name: "relid_of ss j = relid_of (sys_slots st) j" for j
    using f len by (cases "j = i") (simp_all add: ss set_state_def)
  have state: "state_of ss j = (if j = i then LSM_SLOT_RECOVERING else state_of (sys_slots st) j)" for j
    using f len by (simp add: ss set_state_def)
  have old: "settled st j \<and> j \<noteq> i" if "settled ?st j" for j
    using that by (auto simp: settled_def state split: if_splits)
  have none: "relid_of (sys_slots st) j \<noteq> relid" if "settled st j" "relid \<notin> rebuilt ?st" for j
    using that by (auto simp: has_slot_def split: if_splits)
  have sub: "rebuilt st \<subseteq> rebuilt ?st" by auto
  have other: "k \<noteq> i \<and> r \<noteq> relid" if "(k, r, n) \<in> builds st" for k r n
    using that inv f(2) new by (force simp: slots_inv_def builds_ok_def under_construction_def)
  have "unique_names ?st"
    using inv old sub unfolding slots_inv_def unique_names_def by (simp add: name)
  moreover have "builds_ok ?st"
    unfolding builds_ok_def
  proof (intro allI impI)
    fix k r n assume "(k, r, n) \<in> builds ?st"
    then consider "k = i" "r = relid" "\<not> n" | "(k, r, n) \<in> builds st" by auto
    then show "k < INDEX_BUF_SIZE \<and> state_of (sys_slots ?st) k = LSM_SLOT_RECOVERING
        \<and> (n \<longrightarrow> relid_of (sys_slots ?st) k = r)
        \<and> (\<forall>j. r \<notin> rebuilt ?st \<longrightarrow> settled ?st j \<longrightarrow> relid_of (sys_slots ?st) j = r \<longrightarrow> n \<and> j = k)"
    proof cases
      case 1
      then show ?thesis using f(1) old none by (simp add: name state)
    next
      case 2
      with inv have k: "k < INDEX_BUF_SIZE" "state_of (sys_slots st) k = LSM_SLOT_RECOVERING"
          "n \<Longrightarrow> relid_of (sys_slots st) k = r"
        and tgt: "\<And>j. r \<notin> rebuilt st \<Longrightarrow> settled st j \<Longrightarrow> relid_of (sys_slots st) j = r \<Longrightarrow> n \<and> j = k"
        by (auto simp: slots_inv_def builds_ok_def)
      have "n \<and> j = k" if "r \<notin> rebuilt ?st" "settled ?st j" "relid_of (sys_slots ?st) j = r" for j
        using that(1) sub old [OF that(2)] that(3) by (intro tgt) (auto simp: name)
      then show ?thesis using k other [OF 2] by (simp add: name state)
    qed
  qed
  moreover have "builds_functional ?st"
    using inv other by (auto simp: slots_inv_def builds_functional_def)
  ultimately show ?thesis using len by (simp add: slots_inv_def ss set_state_def)
qed

lemma slots_inv_build_fill:
  assumes inv: "slots_inv st" and b: "(i, relid, False) \<in> builds st"
  shows "slots_inv (st\<lparr>sys_slots := build_fill relid ty dim sz m ef i (sys_slots st),
           builds := insert (i, relid, True) (builds st - {(i, relid, False)})\<rparr>)"
proof -
  let ?ss = "build_fill relid ty dim sz m ef i (sys_slots st)"
  let ?st = "st\<lparr>sys_slots := ?ss, builds := insert (i, relid, True) (builds st - {(i, relid, False)})\<rparr>"
  have len: "length (sys_slots st) = INDEX_BUF_SIZE" and i: "i < INDEX_BUF_SIZE"
    using inv b by (auto simp: slots_inv_def builds_ok_def)
  have name: "relid_of ?ss j = (if j = i then relid else relid_of (sys_slots st) j)" for j
    using i len by (simp add: build_fill_def)
  have state: "state_of ?ss j = state_of (sys_slots st) j" for j
    using i len by (cases "j = i") (simp_all add: build_fill_def)
  have other: "k \<noteq> i \<and> r \<noteq> relid" if "(k, r, n) \<in> builds st" "(k, r, n) \<noteq> (i, relid, False)" for k r n
    using that inv b unfolding slots_inv_def builds_functional_def by metis
  have old: "j = i \<or> settled st j \<and> (relid \<notin> rebuilt st \<longrightarrow> relid_of (sys_slots st) j \<noteq> relid)" if "settled ?st j" for j
  proof (cases "j = i")
    case False
    then have "settled st j" using that by (auto simp: settled_def state)
    then show ?thesis using inv b by (auto simp: slots_inv_def builds_ok_def)
  qed simp
  have "unique_names ?st"
    unfolding unique_names_def
  proof (intro allI impI)
    fix j k assume jk: "settled ?st j" "settled ?st k" "relid_of (sys_slots ?st) j = relid_of (sys_slots ?st) k"
      "relid_of (sys_slots ?st) j \<notin> rebuilt ?st"
    have eq: "(if j = i then relid else relid_of (sys_slots st) j) = (if k = i then relid else relid_of (sys_slots st) k)"
      "(if j = i then relid else relid_of (sys_slots st) j) \<notin> rebuilt st"
      using jk(3,4) by (simp_all add: name)
    have uniq: "settled st j \<Longrightarrow> settled st k \<Longrightarrow> relid_of (sys_slots st) j = relid_of (sys_slots st) k \<Longrightarrow>
        relid_of (sys_slots st) j \<notin> rebuilt st \<Longrightarrow> j = k"
      using inv by (simp add: slots_inv_def unique_names_def)
    from old [OF jk(1)] old [OF jk(2)] show "j = k"
      using eq uniq by (cases "j = i"; cases "k = i") simp_all
  qed
  moreover have "builds_ok ?st"
    unfolding builds_ok_def
  proof (intro allI impI)
    fix k r n assume "(k, r, n) \<in> builds ?st"
    then consider "k = i" "r = relid" "n" | "(k, r, n) \<in> builds st" "(k, r, n) \<noteq> (i, relid, False)" by auto
    then show "k < INDEX_BUF_SIZE \<and> state_of (sys_slots ?st) k = LSM_SLOT_RECOVERING
        \<and> (n \<longrightarrow> relid_of (sys_slots ?st) k = r)
        \<and> (\<forall>j. r \<notin> rebuilt ?st \<longrightarrow> settled ?st j \<longrightarrow> relid_of (sys_slots ?st) j = r \<longrightarrow> n \<and> j = k)"
    proof cases
      case 1
      then show ?thesis
        using inv b i old by (auto simp: slots_inv_def builds_ok_def name state)
    next
      case 2
      with other have k: "k \<noteq> i" "r \<noteq> relid" by auto
      have "n \<and> j = k" if "settled ?st j" "relid_of ?ss j = r" "r \<notin> rebuilt st" for j
        using old [OF that(1)] that(2,3) k 2(1) inv by (auto simp: slots_inv_def builds_ok_def name split: if_splits)
      then show ?thesis using 2(1) inv k by (auto simp: slots_inv_def builds_ok_def name state)
    qed
  qed
  moreover have "builds_functional ?st"
    unfolding builds_functional_def
  proof (intro allI impI)
    fix k j r r' n m assume k: "(k, r, n) \<in> builds ?st" and j: "(j, r', m) \<in> builds ?st" and eq: "k = j \<or> r = r'"
    have "k = i \<and> r = relid \<and> n \<or> (k, r, n) \<in> builds st \<and> k \<noteq> i \<and> r \<noteq> relid" using k other by auto
    moreover have "j = i \<and> r' = relid \<and> m \<or> (j, r', m) \<in> builds st \<and> j \<noteq> i \<and> r' \<noteq> relid" using j other by auto
    ultimately show "k = j \<and> r = r' \<and> n = m"
      using eq inv unfolding slots_inv_def builds_functional_def by metis
  qed
  ultimately show ?thesis using len by (simp add: slots_inv_def build_fill_def)
qed

lemma slots_inv_build_publish:
  assumes inv: "slots_inv st" and b: "(i, relid, True) \<in> builds st"
  shows "slots_inv (st\<lparr>sys_slots := build_publish mt_idx mt_id i (sys_slots st), builds := builds st - {(i, relid, True)}\<rparr>)"
proof -
  let ?ss = "build_publish mt_idx mt_id i (sys_slots st)"
  let ?st = "st\<lparr>sys_slots := ?ss, builds := builds st - {(i, relid, True)}\<rparr>"
  have len: "length (sys_slots st) = INDEX_BUF_SIZE" and i: "i < INDEX_BUF_SIZE"
    and live: "state_of (sys_slots st) i = LSM_SLOT_RECOVERING"
    using inv b by (auto simp: slots_inv_def builds_ok_def)
  have name: "relid_of ?ss j = relid_of (sys_slots st) j" for j
    using i len by (cases "j = i") (simp_all add: build_publish_def)
  have state: "state_of ?ss j = (if j = i then LSM_SLOT_QUERYABLE else state_of (sys_slots st) j)" for j
    using i len by (simp add: build_publish_def)
  have other: "k \<noteq> i" if "(k, r, n) \<in> builds st" "(k, r, n) \<noteq> (i, relid, True)" for k r n
    using that inv b unfolding slots_inv_def builds_functional_def by metis
  have old: "settled st j" if "settled ?st j" for j
    using that live by (auto simp: settled_def state split: if_splits)
  have "unique_names ?st" using inv old by (auto simp: slots_inv_def unique_names_def name)
  moreover have "builds_ok ?st"
    unfolding builds_ok_def
  proof (intro allI impI)
    fix k r n assume "(k, r, n) \<in> builds ?st"
    then have k: "(k, r, n) \<in> builds st" "k \<noteq> i" using other by auto
    have "builds_ok st" using inv by (simp add: slots_inv_def)
    note ok = this [unfolded builds_ok_def, rule_format, OF k(1)]
    have "n \<and> j = k" if j: "settled ?st j" "relid_of (sys_slots ?st) j = r" "r \<notin> rebuilt st" for j
    proof -
      have "relid_of (sys_slots st) j = r" using j(2) name [of j] by simp
      with old [OF j(1)] ok j(3) show ?thesis by blast
    qed
    moreover have "k < INDEX_BUF_SIZE" "n \<longrightarrow> relid_of (sys_slots st) k = r"
      "state_of (sys_slots st) k = LSM_SLOT_RECOVERING" using ok by blast+
    ultimately show "k < INDEX_BUF_SIZE \<and> state_of (sys_slots ?st) k = LSM_SLOT_RECOVERING
        \<and> (n \<longrightarrow> relid_of (sys_slots ?st) k = r)
        \<and> (\<forall>j. r \<notin> rebuilt ?st \<longrightarrow> settled ?st j \<longrightarrow> relid_of (sys_slots ?st) j = r \<longrightarrow> n \<and> j = k)"
      using k(2) name [of k] state [of k] by simp
  qed
  moreover have "builds_functional ?st"
    by (rule builds_functional_mono [of st]) (use inv in \<open>auto simp: slots_inv_def\<close>)
  moreover have "length ?ss = INDEX_BUF_SIZE" using len by (simp add: build_publish_def)
  ultimately show ?thesis by (simp add: slots_inv_def)
qed

lemma slots_inv_step:
  assumes inv: "slots_inv st" and step: "slot_step st st'" and calm: "\<not> disturbed st'"
  shows "slots_inv st'"
proof -
  have len: "length (sys_slots st) = INDEX_BUF_SIZE" using inv by (simp add: slots_inv_def)
  show ?thesis
    using step
  proof (cases rule: slot_step.cases)
    case (claim relid db user)
    show ?thesis
    proof (cases "find_registered (sys_slots st) relid")
      case None
      show ?thesis
      proof (cases "first_free (sys_slots st)")
        case (Some i)
        then show ?thesis using None claim inv first_free_Some [OF Some]
          by (auto simp: claim_section_def claim_for_def intro!: slots_inv_claim)
      qed (use None claim inv in \<open>simp add: claim_section_def\<close>)
    qed (use claim inv in \<open>simp add: claim_section_def\<close>)
  next
    case (create_redo relid db ty dim sz)
    show ?thesis
    proof (cases "find_registered (sys_slots st) relid")
      case None
      show ?thesis
      proof (cases "first_free (sys_slots st)")
        case (Some i)
        then show ?thesis using None create_redo inv first_free_Some [OF Some]
          by (auto simp: claim_lsm_index_slot_for_create_redo_def create_redo_slot_def intro!: slots_inv_claim)
      qed (use None create_redo inv in \<open>simp add: claim_lsm_index_slot_for_create_redo_def\<close>)
    qed (use create_redo inv in \<open>simp add: claim_lsm_index_slot_for_create_redo_def\<close>)
  next
    case (unclaim i)
    then show ?thesis using inv len
      by (auto intro!: slots_inv_weaken simp: set_state_def relid_update state_update split: if_splits)
  next
    case (recovery outcome i conn fw)
    have free: "(i, relid, named) \<notin> builds st" for relid named using calm recovery(1) by auto
    have "slots_inv (st\<lparr>sys_slots := fst (snd (worker_slot (\<lambda>r d. outcome) i (conn, sys_slots st, fw)))\<rparr>)"
      using recovery(2) free inv len
      by (auto intro!: slots_inv_weaken simp: worker_slot_def set_failed_def relid_update state_update split: if_splits option.splits)
    then show ?thesis
      using slots_inv_disturbed [where st = "st\<lparr>sys_slots := fst (snd (worker_slot (\<lambda>r d. outcome) i (conn, sys_slots st, fw)))\<rparr>"]
      unfolding recovery(1) by simp
  next
    case (load_begin i)
    have free: "(i, relid, named) \<notin> builds st" for relid named
      using inv load_begin(2) by (auto simp: slots_inv_def builds_ok_def)
    from load_begin free show ?thesis using inv len
      by (auto intro!: slots_inv_weaken simp: relid_update state_update split: if_splits)
  next
    case (load_done i)
    have free: "(i, relid, named) \<notin> builds st" for relid named
      using inv load_done(2) by (auto simp: slots_inv_def builds_ok_def)
    from load_done free show ?thesis using inv len
      by (auto intro!: slots_inv_weaken simp: set_state_def relid_update state_update split: if_splits)
  next
    case (load_failed i)
    have free: "(i, relid, named) \<notin> builds st" for relid named
      using inv load_failed(2) by (auto simp: slots_inv_def builds_ok_def)
    from load_failed free show ?thesis using inv len
      by (auto intro!: slots_inv_weaken simp: set_failed_def relid_update state_update split: if_splits)
  next
    case (build_claim relid i ss)
    show ?thesis unfolding build_claim(1) by (rule slots_inv_build_claim [OF inv build_claim(2,3)])
  qed (use inv slots_inv_build_fill slots_inv_build_publish in blast)+
qed

lemma slot_step_disturbed: "slot_step st st' \<Longrightarrow> \<not> disturbed st' \<Longrightarrow> \<not> disturbed st"
  by (induction rule: slot_step.induct) auto

lemma slots_inv_steps: "slot_step\<^sup>*\<^sup>* st0 st \<Longrightarrow> slots_inv st0 \<Longrightarrow> \<not> disturbed st \<Longrightarrow> slots_inv st"
  by (induction rule: rtranclp_induct) (auto intro: slots_inv_step dest: slot_step_disturbed)

lemma slots_inv_reachable: "slot_reachable st \<Longrightarrow> \<not> disturbed st \<Longrightarrow> slots_inv st"
  using slots_inv_steps slots_inv_initial by blast

section \<open>The scan of the recovery worker\<close>

lemma worker_slot_effect:
  assumes "worker_slot recover i (conn, ss, fw) = (conn', ss', fw')"
  shows "length ss' = length ss" "j \<noteq> i \<Longrightarrow> ss' ! j = ss ! j"
    and "state_of ss i \<noteq> LSM_SLOT_RECOVERING \<Longrightarrow> ss' = ss \<and> fw' = fw"
    and "state_of ss i = LSM_SLOT_RECOVERING \<Longrightarrow> fw'"
    and "state_of ss i = LSM_SLOT_RECOVERING \<Longrightarrow> i < length ss \<Longrightarrow>
      state_of ss' i = LSM_SLOT_WRITABLE \<or> state_of ss' i = LSM_SLOT_FREE \<and> state_error (ss' ! i)"
  using assms by (auto simp: worker_slot_def set_failed_def split: if_splits option.splits)

definition request_settled :: "LSMIndexBufferSlot \<Rightarrow> LSMIndexBufferSlot \<Rightarrow> bool" where
  "request_settled s s' \<longleftrightarrow>
     (if valid s = LSM_SLOT_RECOVERING
      then valid s' = LSM_SLOT_WRITABLE \<or> valid s' = LSM_SLOT_FREE \<and> state_error s'
      else s' = s)"

lemma worker_fold:
  assumes "distinct is" "foldl (\<lambda>st i. worker_slot recover i st) (conn, ss, fw) is = (conn', ss', fw')"
    and "\<forall>i \<in> set is. i < length ss"
  shows "length ss' = length ss \<and> (\<forall>i. i \<notin> set is \<longrightarrow> ss' ! i = ss ! i)
    \<and> (\<forall>i \<in> set is. request_settled (ss ! i) (ss' ! i))
    \<and> (fw' \<longleftrightarrow> fw \<or> (\<exists>i \<in> set is. state_of ss i = LSM_SLOT_RECOVERING))"
  using assms
proof (induction "is" arbitrary: conn ss fw)
  case (Cons k ks)
  obtain c1 s1 f1 where one: "worker_slot recover k (conn, ss, fw) = (c1, s1, f1)" by (metis prod_cases3)
  note eff = worker_slot_effect [OF one]
  have rest: "foldl (\<lambda>st i. worker_slot recover i st) (c1, s1, f1) ks = (conn', ss', fw')"
    using Cons.prems(2) one by simp
  have "\<forall>i \<in> set ks. i < length s1" using Cons.prems(3) eff(1) by simp
  note IH = Cons.IH [OF _ rest this]
  have k: "k \<notin> set ks" and ks: "distinct ks" using Cons.prems(1) by auto
  have same: "s1 ! i = ss ! i" if "i \<in> set ks" for i using eff(2) [of i] k that by auto
  have "request_settled (ss ! k) (ss' ! k)"
    using IH [OF ks] k eff(3,5) Cons.prems(3) by (auto simp: request_settled_def)
  moreover have "f1 \<longleftrightarrow> fw \<or> state_of ss k = LSM_SLOT_RECOVERING" using eff(3,4) by blast
  ultimately show ?case using IH [OF ks] eff(1,2) same by auto
qed simp

lemma worker_pass_effect:
  assumes "length ss = INDEX_BUF_SIZE" "worker_pass recover conn ss = (conn', ss', fw')"
  shows "length ss' = INDEX_BUF_SIZE" "i < INDEX_BUF_SIZE \<Longrightarrow> request_settled (ss ! i) (ss' ! i)"
    and "fw' \<longleftrightarrow> (\<exists>i < INDEX_BUF_SIZE. state_of ss i = LSM_SLOT_RECOVERING)"
  using worker_fold [of "[0..<INDEX_BUF_SIZE]" recover conn ss False conn' ss' fw'] assms
  by (auto simp: worker_pass_def)

text \<open>Two passes at most: the second one finds nothing to do.\<close>

lemma worker_scan_effect:
  assumes len: "length ss = INDEX_BUF_SIZE"
  obtains conn' ss' where "worker_scan recover conn ss = Some (conn', ss')"
    and "\<forall>i < INDEX_BUF_SIZE. request_settled (ss ! i) (ss' ! i)"
proof -
  obtain c1 s1 f1 where p1: "worker_pass recover conn ss = (c1, s1, f1)" by (metis prod_cases3)
  note e1 = worker_pass_effect [OF len p1]
  show thesis
  proof (cases f1)
    case False
    then have "worker_scan recover conn ss = Some (c1, s1)" by (simp add: worker_scan.simps [of recover conn ss] p1)
    with e1(2) show thesis by (blast intro: that)
  next
    case True
    obtain c2 s2 f2 where p2: "worker_pass recover c1 s1 = (c2, s2, f2)" by (metis prod_cases3)
    note e2 = worker_pass_effect [OF e1(1) p2]
    have idle: "state_of s1 i \<noteq> LSM_SLOT_RECOVERING" if "i < INDEX_BUF_SIZE" for i
      using e1(2) [OF that] by (auto simp: request_settled_def split: if_splits)
    then have "\<not> f2" using e2(3) by blast
    with True have "worker_scan recover conn ss = Some (c2, s2)"
      by (simp add: worker_scan.simps [of recover conn ss] worker_scan.simps [of recover c1 s1] p1 p2)
    moreover have "s2 ! i = s1 ! i" if "i < INDEX_BUF_SIZE" for i
      using e2(2) [OF that] idle [OF that] by (simp add: request_settled_def)
    ultimately show thesis using e1(2) by (auto intro: that)
  qed
qed

text \<open>A reader that is told yes finds the slot QUERYABLE; a failed load gives the slot back with the error set.\<close>

lemma ensure_index_loaded_outcome:
  assumes "ensure_index_loaded race later standby timeout disk load_ok i ss = (r, ss')"
    and "\<And>ss. length (race ss) = length ss" "i < length ss"
  shows "r = Inr True \<Longrightarrow> state_of ss' i = LSM_SLOT_QUERYABLE"
    and "r = Inl e \<Longrightarrow> state_of ss' i = LSM_SLOT_WRITABLE \<and> state_error (ss' ! i)"
  using assms by (auto simp: ensure_index_loaded_def Let_def set_state_def set_failed_def split: if_splits)

section \<open>Properties\<close>

text \<open>C32: (invariant) In every reachable state of the slot buffer, under any interleaving of claims, redo of CREATE
  INDEX, recoveries, builds, rebuilds and loads, and as long as the recovery worker has not taken the slot of a
  running build, an index that was not rebuilt in place while it had a slot has at most one live slot that
  carries its owner's name: the match of a lookup is the only one. The lemmas
  \<open>worker_takes_slot_under_construction\<close> and \<open>rebuilt_index_keeps_old_slot\<close> below show that both conditions
  can fail.\<close>

theorem one_slot_per_index:
  assumes "initial_system st0" and "slot_step\<^sup>*\<^sup>* st0 st" and "\<not> disturbed st"
    and "find_registered (sys_slots st) relid = Some i" and "settled st i" and "relid \<notin> rebuilt st"
  shows "relid_of (sys_slots st) i = relid
    \<and> (\<forall>j. settled st j \<longrightarrow> relid_of (sys_slots st) j = relid \<longrightarrow> j = i)"
proof -
  have "slots_inv st" using assms(1-3) by (blast intro: slots_inv_reachable)
  then show ?thesis
    using find_registered_Some [OF assms(4)] assms(5,6) by (auto simp: slots_inv_def unique_names_def)
qed

text \<open>Free slots only, and the buffer after an index 7 has been claimed.\<close>

definition ex_lsm :: LSMIndexData where
  "ex_lsm = \<lparr>indexRelId = 0, lx_index_type = HNSW, lx_dim = 2, lx_elem_size = 4, hnsw_m = 0, hnsw_ef_construction = 0,
     next_segment_id = 0, growing_memtable_idx = -1, growing_memtable_id = 0, memtable_idxs = [-1, -1, -1, -1],
     memtable_count = 0, flushed_not_released = [0, 0, 0, 0], flushed_not_released_count = 0, releasing_in_progress = False\<rparr>"

definition free_slots :: slots where
  "free_slots = replicate INDEX_BUF_SIZE
     \<lparr>valid = LSM_SLOT_FREE, state_error = False, request_db_oid = 0, request_db_userid = 0, lsmIndex = ex_lsm\<rparr>"

definition claimed_slots :: slots where
  "claimed_slots = free_slots[0 := claim_for 7 1 10 (free_slots ! 0)]"

lemma free_slots_first: "find_registered free_slots relid = None" "first_free free_slots = Some 0"
proof -
  have free: "i < INDEX_BUF_SIZE \<Longrightarrow> state_of free_slots i = LSM_SLOT_FREE" for i by (simp add: free_slots_def)
  show "find_registered free_slots relid = None"
    using free by (auto simp: find_registered_def first_from_None_iff)
  show "first_free free_slots = Some 0"
    using free by (auto simp: first_free_def INDEX_BUF_SIZE_def intro: first_from_eq_SomeI)
qed

lemma claim_free_slots: "claim_section 7 1 10 free_slots = (Claimed 0, claimed_slots)"
  by (simp add: claim_section_def free_slots_first claimed_slots_def)

lemma claimed_slots_sel: "relid_of claimed_slots 0 = 7" "state_of claimed_slots 0 = LSM_SLOT_RECOVERING"
  "length claimed_slots = INDEX_BUF_SIZE"
  by (simp_all add: claimed_slots_def claim_for_def free_slots_def INDEX_BUF_SIZE_def)

theorem one_slot_per_index_witness:
  "relid_of claimed_slots 0 = 7
    \<and> {j. settled \<lparr>sys_slots = claimed_slots, builds = {}, rebuilt = {}, disturbed = False\<rparr> j \<and> relid_of claimed_slots j = 7} = {0}"
proof -
  let ?empty = "\<lparr>sys_slots = free_slots, builds = {}, rebuilt = {}, disturbed = False\<rparr>" and ?st = "\<lparr>sys_slots = claimed_slots, builds = {}, rebuilt = {}, disturbed = False\<rparr>"
  have init: "initial_system ?empty" by (simp add: initial_system_def free_slots_def)
  have "slot_step ?empty (?empty\<lparr>sys_slots := snd (claim_section 7 1 10 (sys_slots ?empty))\<rparr>)"
    by (rule slot_step.claim) (simp add: under_construction_def)
  then have "slot_step ?empty ?st" by (simp add: claim_free_slots)
  then have run: "slot_step\<^sup>*\<^sup>* ?empty ?st" by blast
  have "find_registered claimed_slots 7 = Some 0"
    using claimed_slots_sel by (auto simp: find_registered_def INDEX_BUF_SIZE_def intro: first_from_eq_SomeI)
  moreover have "settled ?st 0" using claimed_slots_sel by (simp add: settled_def INDEX_BUF_SIZE_def)
  ultimately show ?thesis using one_slot_per_index [OF init run _, of 7 0] by auto
qed

text \<open>C33: The scan of the recovery worker returns whatever recovery does, and afterwards no request is
  pending: every slot that was RECOVERING is WRITABLE, or FREE with its error flag set, and no other
  slot has changed.\<close>

theorem recovery_scan_settles_requests:
  assumes len: "length ss = INDEX_BUF_SIZE"
  shows "\<exists>conn' ss'. worker_scan recover conn ss = Some (conn', ss')
    \<and> (\<forall>i < INDEX_BUF_SIZE. request_settled (ss ! i) (ss' ! i))"
  using worker_scan_effect [OF len] by blast

theorem recovery_scan_settles_requests_witness:
  "\<exists>conn' ss'. worker_scan (\<lambda>relid d. None) None claimed_slots = Some (conn', ss')
    \<and> (\<forall>i < INDEX_BUF_SIZE. request_settled (claimed_slots ! i) (ss' ! i))"
  by (rule recovery_scan_settles_requests) (rule claimed_slots_sel)

section \<open>Where slots go wrong\<close>

text \<open>
  The worker does not tell a slot under construction from a request: whatever wakes it, the scan ends the
  RECOVERING state of a slot that \<^verbatim>\<open>build_lsm_index\<close> is still filling.
\<close>

lemma worker_takes_slot_under_construction:
  assumes "slots_inv st" "(i, relid, named) \<in> builds st" "worker_scan recover conn (sys_slots st) = Some (conn', ss')"
  shows "state_of ss' i \<noteq> LSM_SLOT_RECOVERING"
proof -
  have len: "length (sys_slots st) = INDEX_BUF_SIZE" and i: "i < INDEX_BUF_SIZE"
    and rec: "state_of (sys_slots st) i = LSM_SLOT_RECOVERING"
    using assms(1,2) by (auto simp: slots_inv_def builds_ok_def)
  have "request_settled (sys_slots st ! i) (ss' ! i)"
    using worker_scan_effect [OF len, of recover conn] assms(3) i by auto
  with rec show ?thesis by (auto simp: request_settled_def)
qed

text \<open>
  A slot that was given back without an error keeps the name of its former claimant. When a build takes
  it, a lookup of that former index before the build has named the slot waits for it and returns the slot
  of the new index.
\<close>

lemma stale_name_resolves_to_other_index:
  assumes len: "length ss = INDEX_BUF_SIZE" and free: "first_free ss = Some i"
    and stale: "relid_of ss i = r" "\<not> state_error (ss ! i)" "find_registered ss r = None"
    and await: "await = (\<lambda>k ss. build_publish mt_idx mt_id i (build_fill relid ty dim sz m ef i ss))"
  shows "\<exists>ss'. get_lsm_index_idx await w db u r False 0 (snd (build_claim ss)) = (Inr i, ss') \<and> relid_of ss' i = relid"
proof -
  let ?ss = "set_state i LSM_SLOT_RECOVERING ss"
  from first_free_Some [OF free] have i: "i < INDEX_BUF_SIZE" "state_of ss i = LSM_SLOT_FREE" by auto
  have "find_registered ?ss r = Some i"
    using find_registered_None [OF stale(3)] i stale(1) len
    by (auto simp: find_registered_def set_state_def state_update relid_update intro!: first_from_eq_SomeI)
  with i len stale(2) free show ?thesis
    by (auto simp: build_claim_def get_lsm_index_idx_def set_state_def is_writable_def wait_recovered_def await
        build_publish_def build_fill_def recovered_def Let_def)
qed

text \<open>
  \<^verbatim>\<open>build_lsm_index\<close> does not look for a slot of the same index, as REINDEX leaves one. The new slot is live,
  but lookups keep finding the old one when it comes first.
\<close>

lemma rebuilt_index_keeps_old_slot:
  assumes len: "length ss = INDEX_BUF_SIZE" and old: "find_registered ss relid = Some j"
    and free: "build_claim ss = (Some i, ss1)" and before: "j < i"
  shows "find_registered (build_publish mt_idx mt_id i (build_fill relid ty dim sz m ef i ss1)) relid = Some j
    \<and> relid_of (build_publish mt_idx mt_id i (build_fill relid ty dim sz m ef i ss1)) i = relid"
proof -
  from free have ss1: "ss1 = set_state i LSM_SLOT_RECOVERING ss" and i: "i < INDEX_BUF_SIZE"
    by (auto simp: build_claim_def split: option.splits dest: first_free_Some)
  let ?ss = "build_publish mt_idx mt_id i (build_fill relid ty dim sz m ef i ss1)"
  have same: "k \<noteq> i \<Longrightarrow> ?ss ! k = ss ! k" for k
    by (simp add: build_publish_def build_fill_def ss1 set_state_def)
  note f = find_registered_Some [OF old]
  have "find_registered ?ss relid = Some j"
    unfolding find_registered_def using f before by (intro first_from_eq_SomeI) (auto simp: same)
  then show ?thesis using i len by (simp add: build_publish_def build_fill_def ss1 set_state_def)
qed

text \<open>Redo of CREATE INDEX leaves the construction options as they were, zero in fresh shared memory.\<close>

lemma create_redo_leaves_hnsw_options:
  assumes "length ss = INDEX_BUF_SIZE" "find_registered ss relid = None"
    "claim_lsm_index_slot_for_create_redo db relid ty dim sz ss = (Some i, ss')"
  shows "hnsw_m (lsmIndex (ss' ! i)) = hnsw_m (lsmIndex (ss ! i))"
    "hnsw_ef_construction (lsmIndex (ss' ! i)) = hnsw_ef_construction (lsmIndex (ss ! i))"
  using assms by (auto simp: claim_lsm_index_slot_for_create_redo_def create_redo_slot_def
      split: option.splits dest: first_free_Some)

text \<open>The polling of the standby barrier ends; it succeeds when the segment is there at one of its polls.\<close>

lemma fetch_barrier_polls:
  "fetch_barrier timeout disk t \<longleftrightarrow>
     (\<exists>k. dpv_initial_segment_on_disk (disk (t + 100 * k)) \<and> (k = 0 \<or> t + 100 * (k - 1) < timeout))"
proof (induction timeout disk t rule: fetch_barrier.induct)
  case (1 timeout disk t)
  show ?case
  proof (cases "dpv_initial_segment_on_disk (disk t)")
    case True
    then show ?thesis by (subst fetch_barrier.simps) (auto intro: exI [of _ 0])
  next
    case False
    show ?thesis
    proof (cases "timeout \<le> t")
      case True
      have "\<not> (\<exists>k. dpv_initial_segment_on_disk (disk (t + 100 * k)) \<and> (k = 0 \<or> t + 100 * (k - 1) < timeout))"
        using False True by (auto simp: gr0_conv_Suc intro: gr0I)
      with False True show ?thesis by (subst fetch_barrier.simps) simp
    next
      case late: False
      have "fetch_barrier timeout disk t \<longleftrightarrow> fetch_barrier timeout disk (t + 100)"
        using False late by (subst fetch_barrier.simps) simp
      also have "\<dots> \<longleftrightarrow> (\<exists>k. dpv_initial_segment_on_disk (disk (t + 100 + 100 * k)) \<and> (k = 0 \<or> t + 100 + 100 * (k - 1) < timeout))"
        using 1 False late by blast
      also have "\<dots> \<longleftrightarrow> (\<exists>k. dpv_initial_segment_on_disk (disk (t + 100 * Suc k)) \<and> (t + 100 * k < timeout))"
      proof -
        have "(k = 0 \<or> t + 100 + 100 * (k - 1) < timeout) = (t + 100 * k < timeout)" for k using late by (cases k) auto
        moreover have "t + 100 + 100 * k = t + 100 * Suc k" for k by simp
        ultimately show ?thesis by (simp only:)
      qed
      also have "\<dots> \<longleftrightarrow> (\<exists>k. dpv_initial_segment_on_disk (disk (t + 100 * k)) \<and> (k = 0 \<or> t + 100 * (k - 1) < timeout))"
        using False by (metis add.right_neutral diff_Suc_1 mult_0_right not0_implies_Suc old.nat.distinct(2))
      finally show ?thesis .
    qed
  qed
qed

end
