(* ===== verification/TopK.thy ===== *)
theory TopK
  imports Prelude "HOL-Library.Multiset"
begin

text \<open>
  Merging of sorted candidate lists in \<^verbatim>\<open>lsmindex.c\<close> (\<^verbatim>\<open>merge_top_k\<close>, \<^verbatim>\<open>merge_top_k_dedup\<close>) and the
  specification they are compared with: the first \<open>k\<close> of the stably sorted concatenation. Distances are
  any linear order; \<^verbatim>\<open>float\<close> is one as long as no distance is NaN.
\<close>

record 'd DistancePair =
  pdist :: 'd
  pid :: i64

section \<open>The loops\<close>

text \<open>One list per C array; the cursors are the lists that are left.\<close>

fun merge_top_k :: "('d::linorder) DistancePair list \<Rightarrow> 'd DistancePair list \<Rightarrow> nat \<Rightarrow> 'd DistancePair list" where
  "merge_top_k ps qs 0 = []"
| "merge_top_k [] [] (Suc k) = []"
| "merge_top_k (p # ps) [] (Suc k) = p # merge_top_k ps [] k"
| "merge_top_k [] (q # qs) (Suc k) = q # merge_top_k [] qs k"
| "merge_top_k (p # ps) (q # qs) (Suc k) =
     (if pdist p \<le> pdist q then p # merge_top_k ps (q # qs) k else q # merge_top_k (p # ps) qs k)"

text \<open>The candidate the loop of \<^verbatim>\<open>merge_top_k_dedup\<close> takes next, and what is left.\<close>

fun next_candidate ::
  "('d::linorder) DistancePair list \<Rightarrow> 'd DistancePair list
     \<Rightarrow> ('d DistancePair \<times> 'd DistancePair list \<times> 'd DistancePair list) option" where
  "next_candidate [] [] = None"
| "next_candidate (p # ps) [] = Some (p, ps, [])"
| "next_candidate [] (q # qs) = Some (q, [], qs)"
| "next_candidate (p # ps) (q # qs) = (if pdist p \<le> pdist q then Some (p, ps, q # qs) else Some (q, p # ps, qs))"

lemma next_candidate_shrinks:
  "next_candidate ps qs = Some (c, ps', qs') \<Longrightarrow> length ps' + length qs' < length ps + length qs"
  by (cases "(ps, qs)" rule: next_candidate.cases) (auto split: if_splits)

function merge_dedup ::
  "('d::linorder) DistancePair list \<Rightarrow> 'd DistancePair list \<Rightarrow> nat \<Rightarrow> 'd DistancePair list \<Rightarrow> 'd DistancePair list"
where
  "merge_dedup ps qs k out =
     (if length out < k then
        (case next_candidate ps qs of
           None \<Rightarrow> out
         | Some (c, ps', qs') \<Rightarrow>
             if pid c \<in> pid ` set out then merge_dedup ps' qs' k out else merge_dedup ps' qs' k (out @ [c]))
      else out)"
  by pat_completeness auto
termination
  by (relation "measure (\<lambda>(ps, qs, k, out). length ps + length qs)") (auto dest: next_candidate_shrinks)

declare merge_dedup.simps [simp del]

definition merge_top_k_dedup ::
  "('d::linorder) DistancePair list \<Rightarrow> 'd DistancePair list \<Rightarrow> nat \<Rightarrow> 'd DistancePair list" where
  "merge_top_k_dedup ps qs k = merge_dedup ps qs k []"

section \<open>The specification\<close>

abbreviation sorted_pairs :: "('d::linorder) DistancePair list \<Rightarrow> bool" where
  "sorted_pairs ps \<equiv> sorted (map pdist ps)"

text \<open>The stable merge: a tie goes to the first list.\<close>

fun merge_all :: "('d::linorder) DistancePair list \<Rightarrow> 'd DistancePair list \<Rightarrow> 'd DistancePair list" where
  "merge_all ps [] = ps"
| "merge_all [] qs = qs"
| "merge_all (p # ps) (q # qs) = (if pdist p \<le> pdist q then p # merge_all ps (q # qs) else q # merge_all (p # ps) qs)"


lemma mset_merge_all [simp]: "mset (merge_all ps qs) = mset ps + mset qs"
  by (induction ps qs rule: merge_all.induct) auto

lemma set_merge_all [simp]: "set (merge_all ps qs) = set ps \<union> set qs"
  by (induction ps qs rule: merge_all.induct) auto

lemma merge_all_Nil [simp]: "merge_all [] qs = qs"
  by (cases qs) simp_all

lemma merge_top_k_take: "merge_top_k ps qs k = take k (merge_all ps qs)"
  by (induction ps qs k rule: merge_top_k.induct) auto

lemma merge_all_sorted:
  assumes "sorted_pairs ps" "sorted_pairs qs"
  shows "merge_all ps qs = sort_key pdist (ps @ qs)"
proof -
  have sorted: "sorted_pairs (merge_all ps qs)"
    using assms by (induction ps qs rule: merge_all.induct) (auto intro: order.trans less_imp_le)
  have stable: "filter (\<lambda>x. d = pdist x) (merge_all ps qs) = filter (\<lambda>x. d = pdist x) (ps @ qs)" for d
    using assms
  proof (induction ps qs rule: merge_all.induct)
    case (3 p ps q qs)
    show ?case
    proof (cases "pdist p \<le> pdist q")
      case False
      have "filter (\<lambda>x. pdist q = pdist x) (p # ps) = []"
        using 3(3) False by (auto simp: filter_empty_conv not_le)
      with 3 False show ?thesis by (auto simp: filter_empty_conv)
    qed (use 3 in auto)
  qed auto
  show ?thesis
    by (rule properties_for_sort_key [symmetric]) (use sorted stable in simp_all)
qed

text \<open>The first occurrence of every id.\<close>

fun first_by_id :: "i64 set \<Rightarrow> 'd DistancePair list \<Rightarrow> 'd DistancePair list" where
  "first_by_id seen [] = []"
| "first_by_id seen (c # cs) =
     (if pid c \<in> seen then first_by_id seen cs else c # first_by_id (insert (pid c) seen) cs)"

lemma next_candidate_merge_all:
  "next_candidate ps qs = (case merge_all ps qs of [] \<Rightarrow> None | c # cs \<Rightarrow>
     (case next_candidate ps qs of Some (c', ps', qs') \<Rightarrow> Some (c, ps', qs') | None \<Rightarrow> None))"
  "next_candidate ps qs = Some (c, ps', qs') \<Longrightarrow> merge_all ps qs = c # merge_all ps' qs'"
  "next_candidate ps qs = None \<Longrightarrow> merge_all ps qs = []"
  by (cases "(ps, qs)" rule: next_candidate.cases; auto split: if_splits)+

lemma merge_dedup_take:
  "length out \<le> k \<Longrightarrow> merge_dedup ps qs k out = take k (out @ first_by_id (pid ` set out) (merge_all ps qs))"
proof (induction ps qs k out rule: merge_dedup.induct)
  case (1 ps qs k out)
  show ?case
  proof (cases "length out < k")
    case False
    then show ?thesis using 1(3) by (simp add: merge_dedup.simps [of ps qs k out])
  next
    case room: True
    show ?thesis
    proof (cases "next_candidate ps qs")
      case None
      then show ?thesis using 1(3) by (simp add: merge_dedup.simps [of ps qs k out] next_candidate_merge_all(3))
    next
      case (Some t)
      then obtain c ps' qs' where t: "next_candidate ps qs = Some (c, ps', qs')" by (cases t) auto
      note m = next_candidate_merge_all(2) [OF t]
      show ?thesis
      proof (cases "pid c \<in> pid ` set out")
        case True
        have "merge_dedup ps qs k out = merge_dedup ps' qs' k out"
          using room True t by (simp add: merge_dedup.simps [of ps qs k out])
        also have "\<dots> = take k (out @ first_by_id (pid ` set out) (merge_all ps' qs'))"
          using 1(1) [OF room t refl refl True] 1(3) by simp
        finally show ?thesis using True by (simp add: m)
      next
        case False
        have "merge_dedup ps qs k out = merge_dedup ps' qs' k (out @ [c])"
          using room False t by (simp add: merge_dedup.simps [of ps qs k out])
        also have "\<dots> = take k ((out @ [c]) @ first_by_id (pid ` set (out @ [c])) (merge_all ps' qs'))"
          using 1(2) [OF room t refl refl False] room by simp
        finally show ?thesis using False by (simp add: m)
      qed
    qed
  qed
qed

lemma merge_top_k_dedup_take: "merge_top_k_dedup ps qs k = take k (first_by_id {} (merge_all ps qs))"
  using merge_dedup_take [of "[]" k ps qs] by (simp add: merge_top_k_dedup_def)

lemma set_first_by_id: "set (first_by_id seen cs) \<subseteq> set cs"
  by (induction cs arbitrary: seen) auto

lemma first_by_id_distinct:
  "distinct (map pid (first_by_id seen cs)) \<and> pid ` set (first_by_id seen cs) = pid ` set cs - seen"
  by (induction cs arbitrary: seen) auto

lemma first_by_id_sorted: "sorted_pairs cs \<Longrightarrow> sorted_pairs (first_by_id seen cs)"
  using set_first_by_id by (induction cs arbitrary: seen) fastforce+

lemma first_by_id_best:
  "sorted_pairs cs \<Longrightarrow> c \<in> set cs \<Longrightarrow> pid c \<notin> seen \<Longrightarrow> \<exists>b \<in> set (first_by_id seen cs). pid b = pid c \<and> pdist b \<le> pdist c"
proof (induction cs arbitrary: seen)
  case (Cons b bs)
  show ?case
  proof (cases "pid b = pid c")
    case True
    with Cons.prems have "pdist b \<le> pdist c" by auto
    with True Cons.prems(3) show ?thesis by auto
  next
    case False
    with Cons.prems have "sorted_pairs bs" "c \<in> set bs" "pid c \<notin> insert (pid b) seen" by auto
    from Cons.IH [OF this(1,2)] this(3) Cons.prems(3) show ?thesis by auto
  qed
qed simp

lemma first_by_id_take_best:
  assumes "sorted_pairs cs" "c \<in> set cs"
  shows "(\<exists>b \<in> set (take k (first_by_id {} cs)). pid b = pid c \<and> pdist b \<le> pdist c)
    \<or> (\<forall>b \<in> set (take k (first_by_id {} cs)). pdist b \<le> pdist c)"
proof -
  let ?F = "first_by_id {} cs"
  obtain b where b: "b \<in> set ?F" "pid b = pid c" "pdist b \<le> pdist c"
    using first_by_id_best [OF assms, of "{}"] by auto
  have "sorted_pairs (take k ?F @ drop k ?F)"
    using first_by_id_sorted [OF assms(1), of "{}"] by simp
  then have "\<forall>a \<in> set (take k ?F). \<forall>d \<in> set (drop k ?F). pdist a \<le> pdist d"
    unfolding map_append sorted_append by simp
  moreover have "b \<in> set (take k ?F) \<or> b \<in> set (drop k ?F)"
    using b(1) append_take_drop_id [of k ?F] by (metis Un_iff set_append)
  ultimately show ?thesis using b by (meson order.trans)
qed

section \<open>The best k of a candidate set\<close>

definition top_k_of :: "nat \<Rightarrow> ('d::linorder) DistancePair list \<Rightarrow> 'd DistancePair list \<Rightarrow> bool" where
  "top_k_of k cand res \<longleftrightarrow> mset res \<subseteq># mset cand \<and> map pdist res = take k (sort (map pdist cand))"

lemma mset_take_subseteq: "mset (take k xs) \<subseteq># mset xs"
  by (metis append_take_drop_id mset_append mset_subset_eq_add_left)

lemma top_k_of_sorted: "top_k_of k cand res \<Longrightarrow> sorted_pairs res"
  by (simp add: top_k_of_def sorted_wrt_take)

lemma top_k_of_length: "top_k_of k cand res \<Longrightarrow> length res = min k (length cand)"
  unfolding top_k_of_def by (metis length_map length_sort length_take min.commute)

lemma sort_map_cong: "mset xs = mset ys \<Longrightarrow> sort (map f xs) = sort (map f ys)"
  by (intro properties_for_sort) simp_all

lemma top_k_of_take:
  assumes "mset xs = mset cand" "sorted_pairs xs"
  shows "top_k_of k cand (take k xs)"
proof -
  have "map pdist xs = sort (map pdist cand)"
    using assms by (intro properties_for_sort [symmetric]) (simp_all only: mset_map)
  with mset_take_subseteq [of k xs] assms(1) show ?thesis by (simp add: top_k_of_def flip: take_map)
qed

text \<open>The first \<open>k\<close> of a merge are determined by the first \<open>k\<close> of each side.\<close>

fun merge_keys :: "'d::linorder list \<Rightarrow> 'd list \<Rightarrow> 'd list" where
  "merge_keys xs [] = xs"
| "merge_keys [] ys = ys"
| "merge_keys (x # xs) (y # ys) = (if x \<le> y then x # merge_keys xs (y # ys) else y # merge_keys (x # xs) ys)"

lemma merge_keys_Nil [simp]: "merge_keys [] ys = ys"
  by (cases ys) simp_all

lemma mset_merge_keys: "mset (merge_keys xs ys) = mset xs + mset ys"
  by (induction xs ys rule: merge_keys.induct) auto

lemma set_merge_keys: "set (merge_keys xs ys) = set xs \<union> set ys"
  by (induction xs ys rule: merge_keys.induct) auto

lemma sorted_merge_keys: "sorted xs \<Longrightarrow> sorted ys \<Longrightarrow> sorted (merge_keys xs ys)"
  by (induction xs ys rule: merge_keys.induct) (auto simp: set_merge_keys intro: order.trans less_imp_le)

lemma merge_keys_sort: "merge_keys (sort xs) (sort ys) = sort (xs @ ys)"
  by (rule properties_for_sort [symmetric]) (simp_all add: mset_merge_keys sorted_merge_keys)

lemma map_merge_all: "map pdist (merge_all ps qs) = merge_keys (map pdist ps) (map pdist qs)"
  by (induction ps qs rule: merge_all.induct) auto

lemma take_merge_keys: "take k (merge_keys (take m xs) (take n ys)) = take k (merge_keys xs ys)" if "k \<le> m" "k \<le> n"
  using that
proof (induction xs ys arbitrary: k m n rule: merge_keys.induct)
  case (1 xs)
  then show ?case by (simp add: min_def)
next
  case (2 y ys)
  then show ?case by (simp add: min_def)
next
  case (3 x xs y ys)
  show ?case
  proof (cases k)
    case (Suc k')
    then obtain m' n' where mn: "m = Suc m'" "n = Suc n'" using 3(3,4) by (metis Suc_le_D)
    show ?thesis
    proof (cases "x \<le> y")
      case True
      have "take k' (merge_keys (take m' xs) (take n (y # ys))) = take k' (merge_keys xs (y # ys))"
        using 3(1) [OF True, of k' m' n] 3(3,4) Suc mn by simp
      with True show ?thesis by (simp add: Suc mn)
    next
      case False
      have "take k' (merge_keys (take m (x # xs)) (take n' ys)) = take k' (merge_keys (x # xs) ys)"
        using 3(2) [OF False, of k' m n'] 3(3,4) Suc mn by simp
      with False show ?thesis by (simp add: Suc mn)
    qed
  qed simp
qed

lemma top_k_of_merge:
  assumes "top_k_of k A as" "top_k_of k B bs"
  shows "top_k_of k (A @ B) (merge_top_k as bs k)"
proof -
  have "mset (merge_top_k as bs k) \<subseteq># mset as + mset bs"
    unfolding merge_top_k_take using mset_take_subseteq [of k "merge_all as bs"] by simp
  also have "\<dots> \<subseteq># mset (A @ B)"
    using assms by (simp add: top_k_of_def subset_mset.add_mono)
  finally have "mset (merge_top_k as bs k) \<subseteq># mset (A @ B)" .
  moreover have "map pdist (merge_top_k as bs k) = take k (sort (map pdist (A @ B)))"
    using assms by (simp add: merge_top_k_take top_k_of_def take_merge_keys merge_keys_sort
        map_merge_all flip: take_map)
  ultimately show ?thesis by (simp add: top_k_of_def)
qed

lemma top_k_of_Nil [simp]: "top_k_of k [] []"
  by (simp add: top_k_of_def)

end
