(* ===== verification/Search.thy ===== *)
theory Search
  imports SharedState TopK
begin

text \<open>
  The search path of \<^verbatim>\<open>lsmindex.c\<close>: one memtable (\<^verbatim>\<open>search_memtable_common\<close>), the snapshot of the
  registered memtables with its reference counts, and \<^verbatim>\<open>search_lsm_index\<close>. The query is fixed; what the
  C code calls outside the repository are arguments: \<open>cd\<close> is the distance of a row's bytes to the query
  (\<^verbatim>\<open>ComputeDistance\<close>), \<open>kw\<close> the brute-force search of Knowhere, \<open>qs\<close> the \<^verbatim>\<open>qsort\<close> of the C library.
\<close>

section \<open>One memtable\<close>

definition row_pair :: "(u8 list \<Rightarrow> 'd) \<Rightarrow> MemTable \<Rightarrow> nat \<Rightarrow> 'd DistancePair" where
  "row_pair cd mt i = \<lparr>pdist = cd (row_at mt i), pid = mt_tids mt ! i\<rparr>"

definition individual_pairs :: "(u8 list \<Rightarrow> 'd) \<Rightarrow> MemTable \<Rightarrow> nat \<Rightarrow> nat \<Rightarrow> 'd DistancePair list" where
  "individual_pairs cd mt lo hi =
     map (row_pair cd mt) (filter (\<lambda>i. mt_ready mt ! i \<and> \<not> IS_SLOT_SET (mt_bitmap mt) i) [lo..<hi])"

text \<open>
  \<^verbatim>\<open>BruteForceSearch\<close> hands the row store to Knowhere as \<open>count\<close> rows of \<open>dim\<close> floats without gaps and copies
  \<^verbatim>\<open>Min(k, count)\<close> results, each a distance and a row number; a result without a value gives no row.
\<close>

definition base_dataset :: "MemTable \<Rightarrow> nat \<Rightarrow> u8 list list" where
  "base_dataset mt n = map (\<lambda>i. take (mt_dim mt * 4) (drop (i * (mt_dim mt * 4)) (vector_blob mt))) [0..<n]"

type_synonym 'd knowhere = "u8 list list \<Rightarrow> bitmap \<Rightarrow> nat \<Rightarrow> ('d \<times> int) list option"

definition BruteForceSearch :: "'d knowhere \<Rightarrow> MemTable \<Rightarrow> nat \<Rightarrow> nat \<Rightarrow> ('d \<times> int) list" where
  "BruteForceSearch kw mt n k =
     (case kw (base_dataset mt n) (mt_bitmap mt) k of None \<Rightarrow> [] | Some res \<Rightarrow> take (min k n) res)"

text \<open>The conversion of row numbers to tids; a number outside \<^verbatim>\<open>mt->tids\<close> is an invalid read, \<open>None\<close>.\<close>

definition vid_pair :: "MemTable \<Rightarrow> 'd \<times> int \<Rightarrow> 'd DistancePair option" where
  "vid_pair mt r =
     (case r of (d, v) \<Rightarrow>
        if 0 \<le> v \<and> nat v < length (mt_tids mt) then Some \<lparr>pdist = d, pid = mt_tids mt ! nat v\<rparr> else None)"

definition brute_force_pairs :: "'d knowhere \<Rightarrow> MemTable \<Rightarrow> nat \<Rightarrow> nat \<Rightarrow> 'd DistancePair list option" where
  "brute_force_pairs kw mt n k = those (map (vid_pair mt) (BruteForceSearch kw mt n k))"

definition search_memtable_common ::
  "(u8 list \<Rightarrow> 'd::linorder) \<Rightarrow> 'd knowhere \<Rightarrow> ('d DistancePair list \<Rightarrow> 'd DistancePair list)
     \<Rightarrow> MemTable \<Rightarrow> nat \<Rightarrow> bool \<Rightarrow> 'd DistancePair list option" where
  "search_memtable_common cd kw qs mt k check_ready =
     (let valid_num = valid_rows mt in
      if valid_num = 0 then Some []
      else if check_ready then
        (let max_ready = max_ready_id mt in
         if max_ready = NO_SLOT then Some (take k (qs (individual_pairs cd mt 0 valid_num)))
         else
           let ready_limit = min (max_ready + 1) valid_num;
               remaining = (if ready_limit < valid_num then qs (individual_pairs cd mt ready_limit valid_num) else [])
           in map_option (\<lambda>brute. merge_top_k remaining brute k)
                (if ready_limit > 0 then brute_force_pairs kw mt ready_limit k else Some []))
      else brute_force_pairs kw mt valid_num k)"

definition search_growing_memtable ::
  "(u8 list \<Rightarrow> 'd::linorder) \<Rightarrow> 'd knowhere \<Rightarrow> ('d DistancePair list \<Rightarrow> 'd DistancePair list)
     \<Rightarrow> MemTable \<Rightarrow> nat \<Rightarrow> 'd DistancePair list option" where
  "search_growing_memtable cd kw qs mt k = search_memtable_common cd kw qs mt k True"

definition search_sealed_memtable ::
  "(u8 list \<Rightarrow> 'd::linorder) \<Rightarrow> 'd knowhere \<Rightarrow> ('d DistancePair list \<Rightarrow> 'd DistancePair list)
     \<Rightarrow> MemTable \<Rightarrow> nat \<Rightarrow> 'd DistancePair list option" where
  "search_sealed_memtable cd kw qs mt k = search_memtable_common cd kw qs mt k False"

section \<open>The snapshot\<close>

record LSMSnapshot =
  gidx :: int
  gmt_id :: SegmentId
  sidxs :: "int list"
  smt_ids :: "SegmentId list"

definition shift_ref :: "int \<Rightarrow> MemtableBufferSlot list \<Rightarrow> int \<Rightarrow> MemtableBufferSlot list" where
  "shift_ref d buf i = buf[nat i := (buf ! nat i)\<lparr>mb_ref_count := mb_ref_count (buf ! nat i) + d\<rparr>]"

definition shift_refs :: "int \<Rightarrow> int list \<Rightarrow> MemtableBufferSlot list \<Rightarrow> MemtableBufferSlot list" where
  "shift_refs d is buf = foldl (shift_ref d) buf is"

text \<open>One look of the snapshot loop; \<open>None\<close> sleeps and looks again.\<close>

definition take_snapshot ::
  "LSMIndexData \<Rightarrow> MemtableBufferSlot list \<Rightarrow> (LSMSnapshot \<times> MemtableBufferSlot list) option" where
  "take_snapshot lsm buf =
     (let g = growing_memtable_idx lsm in
      if g \<ge> 0 \<and> g < int MEMTABLE_BUF_SIZE then
        let ss = take (memtable_count lsm) (memtable_idxs lsm) in
        Some (\<lparr>gidx = g, gmt_id = memtable_id (MT_FROM_SLOTIDX buf g), sidxs = ss,
               smt_ids = map (\<lambda>i. memtable_id (MT_FROM_SLOTIDX buf i)) ss\<rparr>,
              shift_refs 1 ss (shift_ref 1 buf g))
      else None)"

section \<open>The search\<close>

definition merge_sealed ::
  "(u8 list \<Rightarrow> 'd::linorder) \<Rightarrow> 'd knowhere \<Rightarrow> ('d DistancePair list \<Rightarrow> 'd DistancePair list) \<Rightarrow> nat
     \<Rightarrow> MemTable \<Rightarrow> 'd DistancePair list \<Rightarrow> 'd DistancePair list option" where
  "merge_sealed cd kw qs k mt pairs =
     map_option (\<lambda>smt_pairs. merge_top_k pairs smt_pairs k) (search_sealed_memtable cd kw qs mt k)"

definition search_memtables ::
  "(u8 list \<Rightarrow> 'd::linorder) \<Rightarrow> 'd knowhere \<Rightarrow> ('d DistancePair list \<Rightarrow> 'd DistancePair list) \<Rightarrow> nat
     \<Rightarrow> MemTable \<Rightarrow> MemTable list \<Rightarrow> 'd DistancePair list option" where
  "search_memtables cd kw qs k growing sealed =
     (case search_growing_memtable cd kw qs growing k of
        None \<Rightarrow> None | Some pairs \<Rightarrow> iterate_opt (merge_sealed cd kw qs k) sealed pairs)"

text \<open>
  \<^verbatim>\<open>search_lsm_index\<close> after the snapshot has succeeded. \<open>seg\<close> is the worker's result; \<open>fail\<close> says where an
  error is raised, if anywhere: stage 0 is the request and the growing memtable, stage \<open>1 + i\<close> the sealed
  memtable number \<open>i\<close>, the last stage the wait for the worker. The first component \<open>None\<close> is that error (or
  the invalid read of a sub-search), the second the buffer after the handler has run.
\<close>

definition search_lsm_index ::
  "(u8 list \<Rightarrow> 'd::linorder) \<Rightarrow> 'd knowhere \<Rightarrow> ('d DistancePair list \<Rightarrow> 'd DistancePair list) \<Rightarrow> nat
     \<Rightarrow> 'd DistancePair list \<Rightarrow> nat option \<Rightarrow> LSMSnapshot \<Rightarrow> MemtableBufferSlot list
     \<Rightarrow> 'd DistancePair list option \<times> MemtableBufferSlot list" where
  "search_lsm_index cd kw qs k seg fail snap buf =
     (case fail of
        Some 0 \<Rightarrow> (None, shift_refs (-1) (sidxs snap) (shift_ref (-1) buf (gidx snap)))
      | Some (Suc sealed_released) \<Rightarrow>
          (None,
           shift_refs (-1) (drop sealed_released (sidxs snap))
             (shift_refs (-1) (take sealed_released (sidxs snap)) (shift_ref (-1) buf (gidx snap))))
      | None \<Rightarrow>
          (map_option (\<lambda>pairs. merge_top_k_dedup pairs seg k)
             (search_memtables cd kw qs k (MT_FROM_SLOTIDX buf (gidx snap)) (map (MT_FROM_SLOTIDX buf) (sidxs snap))),
           shift_refs (-1) (sidxs snap) (shift_ref (-1) buf (gidx snap))))"

section \<open>What the external calls promise\<close>

text \<open>\<^verbatim>\<open>qsort\<close> sorts; the order of ties is not specified.\<close>

definition sorts :: "(('d::linorder) DistancePair list \<Rightarrow> 'd DistancePair list) \<Rightarrow> bool" where
  "sorts qs \<longleftrightarrow> (\<forall>xs. mset (qs xs) = mset xs \<and> sorted_pairs (qs xs))"

text \<open>
  Knowhere's brute force returns the best unmasked rows in ascending distance, and fills the result up
  with the row number \<open>-1\<close> when there are fewer than \<open>k\<close>.
\<close>

definition unmasked :: "bitmap \<Rightarrow> nat \<Rightarrow> nat list" where
  "unmasked bm n = filter (\<lambda>i. \<not> IS_SLOT_SET bm i) [0..<n]"

definition knowhere_exact :: "(u8 list \<Rightarrow> 'd::linorder) \<Rightarrow> 'd knowhere \<Rightarrow> bool" where
  "knowhere_exact cd kw \<longleftrightarrow>
     (\<forall>rows bm k. \<exists>res pad. kw rows bm k = Some (res @ pad) \<and> (\<forall>p \<in> set pad. snd p = -1) \<and> length (res @ pad) = k
        \<and> mset res \<subseteq># mset (map (\<lambda>i. (cd (rows ! i), int i)) (unmasked bm (length rows)))
        \<and> map fst res = take k (sort (map (\<lambda>i. cd (rows ! i)) (unmasked bm (length rows)))))"

section \<open>One memtable, exactly\<close>

text \<open>The rows a search of the memtable is meant to see.\<close>

definition visible_pairs :: "(u8 list \<Rightarrow> 'd) \<Rightarrow> MemTable \<Rightarrow> 'd DistancePair list" where
  "visible_pairs cd mt = individual_pairs cd mt 0 (valid_rows mt)"

text \<open>
  When the search is exact: floats without padding between rows, and enough unmasked rows for the number
  of results that \<^verbatim>\<open>BruteForceSearch\<close> copies.
\<close>

definition brute_force_ok :: "MemTable \<Rightarrow> nat \<Rightarrow> nat \<Rightarrow> bool" where
  "brute_force_ok mt n k \<longleftrightarrow>
     mt_elem_size mt = 4 \<and> even (mt_dim mt) \<and> n \<le> length (mt_tids mt)
     \<and> min k n \<le> length (unmasked (mt_bitmap mt) n)"

lemma base_dataset_row:
  assumes "mt_elem_size mt = 4" "even (mt_dim mt)" "i < n"
  shows "base_dataset mt n ! i = row_at mt i"
proof -
  from assms(2) obtain m where m: "mt_dim mt = 2 * m" by blast
  have "(m * 8 + 7) div 8 * 8 = m * 8" by simp
  then have "MAXALIGN (mt_dim mt * 4) = mt_dim mt * 4"
    by (simp add: MAXALIGN_def m mult.commute)
  with assms(1,3) show ?thesis
    by (simp add: base_dataset_def row_at_def VEC_PTR_AT_def VEC_BYTES_PER_ROW_def)
qed

lemma those_map_Some: "(\<forall>x \<in> set xs. f x = Some (g x)) \<Longrightarrow> those (map f xs) = Some (map g xs)"
  by (induction xs) auto

lemma those_None: "None \<in> set xs \<Longrightarrow> those xs = None"
  by (induction xs) (auto split: option.split)

lemma brute_force_pairs_exact:
  assumes kw: "knowhere_exact cd kw" and ok: "brute_force_ok mt n k"
  shows "\<exists>r. brute_force_pairs kw mt n k = Some r
    \<and> top_k_of k (map (row_pair cd mt) (unmasked (mt_bitmap mt) n)) r"
proof -
  let ?us = "unmasked (mt_bitmap mt) n" and ?rows = "base_dataset mt n"
  let ?g = "\<lambda>(d, v). \<lparr>pdist = d, pid = mt_tids mt ! nat v\<rparr>"
  have len: "length ?rows = n" by (simp add: base_dataset_def)
  have us: "set ?us \<subseteq> {..<n}" and short: "length ?us \<le> n"
    using length_filter_le [of "\<lambda>i. \<not> IS_SLOT_SET (mt_bitmap mt) i" "[0..<n]"] by (auto simp: unmasked_def)
  have rows: "map (\<lambda>i. (cd (?rows ! i), int i)) ?us = map (\<lambda>i. (cd (row_at mt i), int i)) ?us"
    "map (\<lambda>i. cd (?rows ! i)) ?us = map (\<lambda>i. cd (row_at mt i)) ?us"
    using us ok by (auto simp: base_dataset_row brute_force_ok_def)
  obtain res pad where kws: "kw ?rows (mt_bitmap mt) k = Some (res @ pad)" "length (res @ pad) = k"
    "mset res \<subseteq># mset (map (\<lambda>i. (cd (row_at mt i), int i)) ?us)"
    "map fst res = take k (sort (map (\<lambda>i. cd (row_at mt i)) ?us))"
    using kw [unfolded knowhere_exact_def, rule_format, of ?rows "mt_bitmap mt" k]
    unfolding len rows by blast
  have "length res = min k (length ?us)"
    using arg_cong [OF kws(4), of length] by (simp add: min.commute)
  also have "\<dots> = min k n" using ok short by (auto simp: brute_force_ok_def)
  finally have bf: "BruteForceSearch kw mt n k = res" by (simp add: BruteForceSearch_def kws(1))
  have in_us: "\<exists>i \<in> set ?us. p = (cd (row_at mt i), int i)" if "p \<in> set res" for p
    using mset_subset_eqD [OF kws(3), of p] that by auto
  have "\<forall>p \<in> set res. vid_pair mt p = Some (?g p)"
    using in_us us ok by (fastforce simp: vid_pair_def brute_force_ok_def)
  then have r: "brute_force_pairs kw mt n k = Some (map ?g res)"
    unfolding brute_force_pairs_def bf by (rule those_map_Some)
  have "mset (map ?g res) \<subseteq># mset (map ?g (map (\<lambda>i. (cd (row_at mt i), int i)) ?us))"
    unfolding mset_map by (rule image_mset_subseteq_mono) (use kws(3) in simp)
  also have "map ?g (map (\<lambda>i. (cd (row_at mt i), int i)) ?us) = map (row_pair cd mt) ?us"
    by (simp add: row_pair_def)
  finally have "mset (map ?g res) \<subseteq># mset (map (row_pair cd mt) ?us)" .
  moreover have "map pdist (map ?g res) = map fst res" by (auto split: prod.split)
  moreover have "pdist \<circ> row_pair cd mt = (\<lambda>i. cd (row_at mt i))"
    by (simp add: row_pair_def comp_def)
  then have "map pdist (map (row_pair cd mt) ?us) = map (\<lambda>i. cd (row_at mt i)) ?us"
    unfolding map_map by (rule arg_cong)
  ultimately have "top_k_of k (map (row_pair cd mt) ?us) (map ?g res)"
    unfolding top_k_of_def by (simp only: kws(4) simp_thms)
  with r show ?thesis by blast
qed

text \<open>
  With fewer unmasked rows than results that are copied, the padding is read as a row number: \<^verbatim>\<open>mt->tids[-1]\<close>.
\<close>

lemma brute_force_pads_read_outside_tids:
  assumes kw: "knowhere_exact cd kw" and few: "length (unmasked (mt_bitmap mt) n) < min k n"
  shows "brute_force_pairs kw mt n k = None"
proof -
  let ?us = "unmasked (mt_bitmap mt) n" and ?rows = "base_dataset mt n"
  have len: "length ?rows = n" by (simp add: base_dataset_def)
  obtain res pad where kws: "kw ?rows (mt_bitmap mt) k = Some (res @ pad)" "\<forall>p \<in> set pad. snd p = -1"
    "length (res @ pad) = k" "map fst res = take k (sort (map (\<lambda>i. cd (?rows ! i)) ?us))"
    using kw [unfolded knowhere_exact_def, rule_format, of ?rows "mt_bitmap mt" k] unfolding len by blast
  have res: "length res < min k n" using arg_cong [OF kws(4), of length] few by simp
  then have pad: "pad \<noteq> []" using kws(3) by auto
  have "pad ! 0 \<in> set (BruteForceSearch kw mt n k)"
    using res pad kws(3) by (cases pad; cases "min k n - length res") (auto simp: BruteForceSearch_def kws(1))
  moreover have "vid_pair mt (pad ! 0) = None"
    using kws(2) pad by (cases pad) (auto simp: vid_pair_def split: prod.split)
  ultimately have "None \<in> set (map (vid_pair mt) (BruteForceSearch kw mt n k))"
    by (metis image_eqI list.set_map)
  then show ?thesis unfolding brute_force_pairs_def by (rule those_None)
qed

text \<open>
  The memtable is searchable by the growing path: \<^verbatim>\<open>max_ready_id\<close> bounds a prefix of ready rows, and the
  brute-force part of it is exact.
\<close>

definition growing_searchable :: "MemTable \<Rightarrow> nat \<Rightarrow> bool" where
  "growing_searchable mt k \<longleftrightarrow>
     max_ready_id mt = NO_SLOT
     \<or> (\<forall>i \<le> max_ready_id mt. i < mt_capacity mt \<longrightarrow> mt_ready mt ! i)
       \<and> brute_force_ok mt (min (max_ready_id mt + 1) (valid_rows mt)) k"

definition sealed_searchable :: "MemTable \<Rightarrow> nat \<Rightarrow> bool" where
  "sealed_searchable mt k \<longleftrightarrow> (\<forall>i < valid_rows mt. mt_ready mt ! i) \<and> brute_force_ok mt (valid_rows mt) k"

lemma visible_all_ready:
  assumes "\<forall>i < n. mt_ready mt ! i"
  shows "individual_pairs cd mt 0 n = map (row_pair cd mt) (unmasked (mt_bitmap mt) n)"
  using assms by (auto simp: individual_pairs_def unmasked_def intro!: arg_cong [of _ _ "map _"] filter_cong)

lemma individual_pairs_append:
  "lo \<le> m \<Longrightarrow> m \<le> hi \<Longrightarrow> individual_pairs cd mt lo hi = individual_pairs cd mt lo m @ individual_pairs cd mt m hi"
  using upt_add_eq_append [of lo m "hi - m"] by (simp add: individual_pairs_def)

lemma sorts_top_k: "sorts qs \<Longrightarrow> top_k_of k xs (take k (qs xs))"
  by (intro top_k_of_take) (simp_all add: sorts_def)

lemma sorts_top_k_all: "sorts qs \<Longrightarrow> length xs \<le> k \<Longrightarrow> top_k_of k xs (qs xs)"
  using sorts_top_k [of qs k xs] mset_eq_length [of "qs xs" xs] by (simp add: sorts_def)


lemma top_k_of_merge_sorted:
  assumes "sorts qs" "top_k_of k B bs"
  shows "top_k_of k (A @ B) (merge_top_k (qs A) bs k)"
proof -
  have sA: "map pdist (qs A) = sort (map pdist A)"
    using assms(1) by (intro properties_for_sort [symmetric]) (simp_all only: mset_map sorts_def)
  have "mset (merge_top_k (qs A) bs k) \<subseteq># mset (qs A) + mset bs"
    unfolding merge_top_k_take using mset_take_subseteq [of k "merge_all (qs A) bs"] by simp
  also have "\<dots> \<subseteq># mset (A @ B)"
    using assms by (simp add: top_k_of_def sorts_def subset_mset.add_mono)
  finally have sub: "mset (merge_top_k (qs A) bs k) \<subseteq># mset (A @ B)" .
  have "map pdist (merge_top_k (qs A) bs k) = take k (merge_keys (sort (map pdist A)) (take k (sort (map pdist B))))"
    using assms(2) by (simp add: merge_top_k_take top_k_of_def map_merge_all sA flip: take_map)
  also have "\<dots> = take k (sort (map pdist (A @ B)))"
    using take_merge_keys [of k "length A + k" k "sort (map pdist A)" "sort (map pdist B)"]
    by (simp add: merge_keys_sort)
  finally show ?thesis using sub by (simp add: top_k_of_def)
qed

lemma search_sealed_memtable_exact:
  assumes "sealed_searchable mt k" "knowhere_exact cd kw"
  shows "\<exists>r. search_sealed_memtable cd kw qs mt k = Some r \<and> top_k_of k (visible_pairs cd mt) r"
proof (cases "valid_rows mt = 0")
  case True
  then show ?thesis
    by (simp add: search_sealed_memtable_def search_memtable_common_def visible_pairs_def individual_pairs_def)
next
  case False
  then show ?thesis
    using brute_force_pairs_exact [OF assms(2), of mt "valid_rows mt" k] assms(1)
      visible_all_ready [of "valid_rows mt" mt cd]
    by (simp add: search_sealed_memtable_def search_memtable_common_def sealed_searchable_def visible_pairs_def)
qed

lemma top_k_of_cong: "mset A = mset B \<Longrightarrow> top_k_of k A r = top_k_of k B r"
  by (simp add: top_k_of_def sort_map_cong [of A B])

lemma search_growing_memtable_exact:
  assumes ok: "growing_searchable mt k" and kw: "knowhere_exact cd kw" and qs: "sorts qs"
  shows "\<exists>r. search_growing_memtable cd kw qs mt k = Some r \<and> top_k_of k (visible_pairs cd mt) r"
proof -
  consider "valid_rows mt = 0" | "valid_rows mt \<noteq> 0" "max_ready_id mt = NO_SLOT"
    | "valid_rows mt \<noteq> 0" "max_ready_id mt \<noteq> NO_SLOT" by blast
  then show ?thesis
  proof cases
    case 1
    then show ?thesis
      by (simp add: search_growing_memtable_def search_memtable_common_def visible_pairs_def individual_pairs_def)
  next
    case 2
    then show ?thesis
      using sorts_top_k [OF qs, of k "visible_pairs cd mt"]
      by (simp add: search_growing_memtable_def search_memtable_common_def visible_pairs_def)
  next
    case 3
    let ?n = "valid_rows mt"
    define m where "m = min (max_ready_id mt + 1) ?n"
    have m: "0 < m" "m \<le> ?n" using 3 by (auto simp: m_def)
    have m': "min (Suc (max_ready_id mt)) ?n = m" by (simp add: m_def)
    have "\<forall>i < m. mt_ready mt ! i"
      using ok 3 by (auto simp: growing_searchable_def m_def valid_rows_def)
    note pre = visible_all_ready [OF this, of cd]
    have "brute_force_ok mt m k" using ok 3(2) by (simp add: growing_searchable_def m_def)
    from brute_force_pairs_exact [OF kw this, folded pre]
    obtain b where b: "brute_force_pairs kw mt m k = Some b" "top_k_of k (individual_pairs cd mt 0 m) b" by blast
    let ?rest = "individual_pairs cd mt m ?n"
    have "(if m < ?n then qs ?rest else []) = qs ?rest"
    proof (cases "m < ?n")
      case False
      then have "?rest = []" by (simp add: individual_pairs_def)
      then show ?thesis using qs [unfolded sorts_def, rule_format, of "[]"] False by simp
    qed simp
    then have "search_growing_memtable cd kw qs mt k = Some (merge_top_k (qs ?rest) b k)"
      using 3 b(1) m by (simp add: search_growing_memtable_def search_memtable_common_def Let_def m')
    moreover have "top_k_of k (visible_pairs cd mt) (merge_top_k (qs ?rest) b k)"
    proof -
      have "mset (visible_pairs cd mt) = mset (?rest @ individual_pairs cd mt 0 m)"
        using individual_pairs_append [of 0 m ?n cd mt] m by (simp add: visible_pairs_def)
      from top_k_of_cong [OF this] top_k_of_merge_sorted [OF qs b(2), of ?rest] show ?thesis by simp
    qed
    ultimately show ?thesis by blast
  qed
qed

section \<open>All memtables and the flushed segments\<close>

definition searchable :: "MemTable \<Rightarrow> MemTable list \<Rightarrow> nat \<Rightarrow> bool" where
  "searchable growing sealed k \<longleftrightarrow> growing_searchable growing k \<and> (\<forall>mt \<in> set sealed. sealed_searchable mt k)"

lemma merge_sealed_all:
  assumes "\<forall>mt \<in> set mts. sealed_searchable mt k" "knowhere_exact cd kw" "top_k_of k A pairs"
  shows "\<exists>r. iterate_opt (merge_sealed cd kw qs k) mts pairs = Some r
    \<and> top_k_of k (A @ concat (map (visible_pairs cd) mts)) r"
  using assms(1,3)
proof (induction mts arbitrary: A pairs)
  case (Cons mt mts)
  from Cons.prems(1) have ok: "sealed_searchable mt k" by simp
  obtain b where b: "search_sealed_memtable cd kw qs mt k = Some b" "top_k_of k (visible_pairs cd mt) b"
    using search_sealed_memtable_exact [OF ok assms(2)] by blast
  from Cons.IH [OF _ top_k_of_merge [OF Cons.prems(2) b(2)]] Cons.prems(1) b(1)
  show ?case by (simp add: merge_sealed_def)
qed simp

lemma search_memtables_exact:
  assumes "searchable growing sealed k" "knowhere_exact cd kw" "sorts qs"
  shows "\<exists>m. search_memtables cd kw qs k growing sealed = Some m
    \<and> top_k_of k (concat (map (visible_pairs cd) (growing # sealed))) m"
proof -
  obtain b where b: "search_growing_memtable cd kw qs growing k = Some b" "top_k_of k (visible_pairs cd growing) b"
    using search_growing_memtable_exact [OF _ assms(2,3)] assms(1) unfolding searchable_def by blast
  have "\<forall>mt \<in> set sealed. sealed_searchable mt k" using assms(1) by (simp add: searchable_def)
  from merge_sealed_all [OF this assms(2) b(2), of qs] b(1) show ?thesis by (simp add: search_memtables_def)
qed

text \<open>
  The references: the snapshot counts a reader in at every registered memtable, the end of the search or
  its error handler counts it out again.
\<close>

lemma shift_ref_at:
  "shift_ref d buf i ! j = (if j = nat i \<and> j < length buf
     then (buf ! j)\<lparr>mb_ref_count := mb_ref_count (buf ! j) + d\<rparr> else buf ! j)"
  by (cases "nat i < length buf") (auto simp: shift_ref_def nth_list_update list_update_beyond)

lemma length_shift_ref [simp]: "length (shift_ref d buf i) = length buf"
  by (simp add: shift_ref_def)

lemma shift_ref_swap: "shift_ref d (shift_ref e buf i) j = shift_ref e (shift_ref d buf j) i"
  by (rule nth_equalityI) (auto simp: shift_ref_at add.commute add.left_commute)

lemma shift_refs_swap: "shift_refs d is (shift_ref e buf j) = shift_ref e (shift_refs d is buf) j"
  unfolding shift_refs_def by (induction "is" arbitrary: buf) (simp_all add: shift_ref_swap [of d e])

lemma shift_ref_inverse: "shift_ref (- d) (shift_ref d buf i) i = buf"
  by (cases "nat i < length buf") (auto simp: shift_ref_def intro: nth_equalityI)

lemma shift_refs_inverse: "shift_refs (- d) is (shift_refs d is buf) = buf"
proof (induction "is" arbitrary: buf)
  case (Cons i "is")
  have "shift_refs (- d) (i # is) (shift_refs d (i # is) buf)
      = shift_refs (- d) is (shift_ref (- d) (shift_ref d (shift_refs d is buf) i) i)"
    using shift_refs_swap [of d "is" d buf i] by (simp add: shift_refs_def)
  then show ?case by (simp add: shift_ref_inverse Cons.IH)
qed (simp add: shift_refs_def)

lemma shift_refs_split: "shift_refs d (drop n is) (shift_refs d (take n is) buf) = shift_refs d is buf"
  by (simp add: shift_refs_def flip: foldl_append)

lemma length_shift_refs [simp]: "length (shift_refs d is buf) = length buf"
  unfolding shift_refs_def by (induction "is" arbitrary: buf) (simp_all add: shift_ref_def)

lemma shift_ref_mt: "j < length buf \<Longrightarrow> mb_mt (shift_ref d buf i ! j) = mb_mt (buf ! j)"
  by (simp add: shift_ref_at)

lemma shift_refs_mt: "j < length buf \<Longrightarrow> mb_mt (shift_refs d is buf ! j) = mb_mt (buf ! j)"
proof (induction "is" arbitrary: buf)
  case (Cons i "is")
  from Cons.IH [of "shift_ref d buf i"] Cons.prems show ?case
    by (simp add: shift_refs_def shift_ref_mt)
qed (simp add: shift_refs_def)

lemma shift_refs_count:
  "j < length buf \<Longrightarrow> mb_ref_count (shift_refs d is buf ! j) = mb_ref_count (buf ! j) + d * int (length (filter (\<lambda>i. nat i = j) is))"
proof (induction "is" arbitrary: buf)
  case (Cons i "is")
  have "j < length (shift_ref d buf i)" using Cons.prems by simp
  from Cons.IH [OF this] Cons.prems show ?case
    by (auto simp: shift_refs_def shift_ref_at algebra_simps)
qed (simp add: shift_refs_def)

section \<open>Properties of the search\<close>

text \<open>The snapshot's memtables, as the search reads them.\<close>

definition snapshot_memtables :: "LSMSnapshot \<Rightarrow> MemtableBufferSlot list \<Rightarrow> MemTable list" where
  "snapshot_memtables snap buf = MT_FROM_SLOTIDX buf (gidx snap) # map (MT_FROM_SLOTIDX buf) (sidxs snap)"

lemma take_snapshot_Some:
  assumes "take_snapshot lsm buf = Some (snap, buf')"
  shows "buf' = shift_refs 1 (sidxs snap) (shift_ref 1 buf (gidx snap))"
    and "gidx snap = growing_memtable_idx lsm" "sidxs snap = take (memtable_count lsm) (memtable_idxs lsm)"
    and "0 \<le> gidx snap" "nat (gidx snap) < MEMTABLE_BUF_SIZE"
  using assms by (auto simp: take_snapshot_def Let_def split: if_splits)

text \<open>While the search runs, no registered memtable has a reference count that lets it be recycled.\<close>

lemma snapshot_pins_memtables:
  assumes "take_snapshot lsm buf = Some (snap, buf')" "i \<in> set (gidx snap # sidxs snap)"
    and "nat i < length buf" "0 \<le> mb_ref_count (buf ! nat i)"
  shows "mb_ref_count (buf' ! nat i) > 0" "MT_FROM_SLOTIDX buf' i = MT_FROM_SLOTIDX buf i"
proof -
  note b = take_snapshot_Some(1) [OF assms(1)]
  have len: "nat i < length (shift_ref 1 buf (gidx snap))" using assms(3) by simp
  let ?in = "nat i = nat (gidx snap)"
  define n where "n = length (filter (\<lambda>j. nat j = nat i) (sidxs snap))"
  have "mb_ref_count (buf' ! nat i) = mb_ref_count (buf ! nat i) + (if ?in then 1 else 0) + int n"
    unfolding b n_def using shift_refs_count [OF len, of 1] assms(3) by (simp add: shift_ref_at)
  moreover have "?in \<or> 0 < n"
    unfolding n_def using assms(2) by (auto simp: filter_empty_conv)
  ultimately show "mb_ref_count (buf' ! nat i) > 0" using assms(4) by (cases ?in) simp_all
  show "MT_FROM_SLOTIDX buf' i = MT_FROM_SLOTIDX buf i"
    unfolding b MT_FROM_SLOTIDX_def using assms(3) by (simp add: shift_refs_mt shift_ref_mt)
qed

text \<open>(safety) Whatever a search does after its snapshot (finish, or fail in the request, in any of the
  memtables or while waiting for the worker), every reference it took is given back exactly once and the
  memtable buffer is as it was before.
\<close>

theorem search_releases_every_reference:
  assumes "take_snapshot lsm buf = Some (snap, buf')"
  shows "snd (search_lsm_index cd kw qs k seg fail snap buf') = buf"
proof -
  have "snd (search_lsm_index cd kw qs k seg fail snap buf')
      = shift_refs (- 1) (sidxs snap) (shift_ref (- 1) buf' (gidx snap))"
    by (simp add: search_lsm_index_def shift_refs_split split: option.split nat.split)
  also have "\<dots> = shift_ref (- 1) (shift_refs (- 1) (sidxs snap) buf') (gidx snap)"
    by (rule shift_refs_swap)
  also have "\<dots> = buf"
    using shift_refs_inverse [of 1 "sidxs snap"] shift_ref_inverse [of 1]
    unfolding take_snapshot_Some(1) [OF assms] by simp
  finally show ?thesis .
qed

lemma search_reference:
  assumes "take_snapshot lsm buf = Some (snap, buf')" "set (gidx snap # sidxs snap) \<subseteq> {i. nat i < length buf}"
    and "searchable (MT_FROM_SLOTIDX buf (gidx snap)) (map (MT_FROM_SLOTIDX buf) (sidxs snap)) k"
    and "knowhere_exact cd kw" "sorts qs" "sorted_pairs seg"
  obtains m where "top_k_of k (concat (map (visible_pairs cd) (snapshot_memtables snap buf))) m"
    "fst (search_lsm_index cd kw qs k seg None snap buf') = Some (take k (first_by_id {} (sort_key pdist (m @ seg))))"
proof -
  have same: "MT_FROM_SLOTIDX buf' i = MT_FROM_SLOTIDX buf i" if "i \<in> set (gidx snap # sidxs snap)" for i
    using assms(2) that unfolding take_snapshot_Some(1) [OF assms(1)] MT_FROM_SLOTIDX_def
    by (auto simp: shift_refs_mt shift_ref_mt)
  then have mts: "MT_FROM_SLOTIDX buf' (gidx snap) = MT_FROM_SLOTIDX buf (gidx snap)"
    "map (MT_FROM_SLOTIDX buf') (sidxs snap) = map (MT_FROM_SLOTIDX buf) (sidxs snap)" by simp_all
  obtain m where m: "search_memtables cd kw qs k (MT_FROM_SLOTIDX buf' (gidx snap))
      (map (MT_FROM_SLOTIDX buf') (sidxs snap)) = Some m"
    "top_k_of k (concat (map (visible_pairs cd) (snapshot_memtables snap buf))) m"
    using search_memtables_exact [OF assms(3-5)] unfolding mts snapshot_memtables_def by blast
  have "fst (search_lsm_index cd kw qs k seg None snap buf') = Some (take k (first_by_id {} (sort_key pdist (m @ seg))))"
    by (simp add: search_lsm_index_def m(1) merge_top_k_dedup_take
        merge_all_sorted [OF top_k_of_sorted [OF m(2)] assms(6)])
  with m(2) show thesis by (rule that)
qed

text \<open>C34: (equivalence) When the memtables are searchable and the worker's result is sorted, the search returns
  exactly the reference: the first \<open>k\<close> distinct tids of the stable sort of the segment result appended to
  the best \<open>k\<close> of all visible memtable rows. The answer is sorted, names no tid twice, and loses no candidate
  to a worse one.
\<close>

theorem search_equals_reference:
  assumes "take_snapshot lsm buf = Some (snap, buf')" "set (gidx snap # sidxs snap) \<subseteq> {i. nat i < length buf}"
    and "searchable (MT_FROM_SLOTIDX buf (gidx snap)) (map (MT_FROM_SLOTIDX buf) (sidxs snap)) k"
    and "knowhere_exact cd kw" "sorts qs" "sorted_pairs seg"
  shows "\<exists>m res. fst (search_lsm_index cd kw qs k seg None snap buf') = Some res
    \<and> top_k_of k (concat (map (visible_pairs cd) (snapshot_memtables snap buf))) m
    \<and> res = take k (first_by_id {} (sort_key pdist (m @ seg)))
    \<and> sorted_pairs res \<and> distinct (map pid res)
    \<and> (\<forall>c. c \<in> set (m @ seg) \<longrightarrow> (\<exists>b. b \<in> set res \<and> pid b = pid c \<and> pdist b \<le> pdist c)
           \<or> (\<forall>b. b \<in> set res \<longrightarrow> pdist b \<le> pdist c))"
proof -
  obtain m where m: "top_k_of k (concat (map (visible_pairs cd) (snapshot_memtables snap buf))) m"
    "fst (search_lsm_index cd kw qs k seg None snap buf') = Some (take k (first_by_id {} (sort_key pdist (m @ seg))))"
    by (rule search_reference [OF assms])
  let ?all = "sort_key pdist (m @ seg)"
  let ?res = "take k (first_by_id {} ?all)"
  have sorted: "sorted_pairs ?res" "distinct (map pid ?res)"
    using first_by_id_sorted [of ?all "{}"] first_by_id_distinct [of "{}" ?all]
    by (simp_all add: sorted_wrt_take flip: take_map)
  have best: "\<forall>c. c \<in> set (m @ seg) \<longrightarrow> (\<exists>b. b \<in> set ?res \<and> pid b = pid c \<and> pdist b \<le> pdist c)
      \<or> (\<forall>b. b \<in> set ?res \<longrightarrow> pdist b \<le> pdist c)"
    using first_by_id_take_best [of ?all _ k] unfolding Bex_def Ball_def by simp
  show ?thesis by (intro exI conjI) (rule m refl sorted best)+
qed

text \<open>A brute-force search that meets the contract, for the witnesses.\<close>

definition exact_knowhere :: "(u8 list \<Rightarrow> 'd::linorder) \<Rightarrow> 'd knowhere" where
  "exact_knowhere cd rows bm k =
     (let res = take k (sort_key fst (map (\<lambda>i. (cd (rows ! i), int i)) (unmasked bm (length rows))))
      in Some (res @ replicate (k - length res) (cd [], -1)))"

lemma map_fst_sort_key: "map fst (take k (sort_key fst xs)) = take k (sort (map fst xs))"
proof -
  have "map fst (sort_key fst xs) = sort (map fst xs)"
    by (rule properties_for_sort [symmetric]) simp_all
  then show ?thesis by (simp flip: take_map)
qed

lemma exact_knowhere: "knowhere_exact cd (exact_knowhere cd)"
  unfolding knowhere_exact_def
proof (intro allI)
  fix rows bm k
  let ?xs = "map (\<lambda>i. (cd (rows ! i), int i)) (unmasked bm (length rows))"
  let ?res = "take k (sort_key fst ?xs)" and ?pad = "replicate (k - length (take k (sort_key fst ?xs))) (cd [], - 1 :: int)"
  have "exact_knowhere cd rows bm k = Some (?res @ ?pad)" by (simp add: exact_knowhere_def Let_def)
  moreover have "\<forall>p \<in> set ?pad. snd p = -1" "length (?res @ ?pad) = k" by auto
  moreover have "mset ?res \<subseteq># mset ?xs"
    using mset_take_subseteq [of k "sort_key fst ?xs"] by simp
  moreover have "map fst ?res = take k (sort (map (\<lambda>i. cd (rows ! i)) (unmasked bm (length rows))))"
    using map_fst_sort_key [of k ?xs] by (simp add: comp_def)
  ultimately show "\<exists>res pad. exact_knowhere cd rows bm k = Some (res @ pad) \<and> (\<forall>p \<in> set pad. snd p = -1)
      \<and> length (res @ pad) = k \<and> mset res \<subseteq># mset ?xs
      \<and> map fst res = take k (sort (map (\<lambda>i. cd (rows ! i)) (unmasked bm (length rows))))" by blast
qed

lemma sort_key_sorts: "sorts (sort_key pdist)"
  by (simp add: sorts_def)

text \<open>A growing memtable with one published row, a sealed one, and their snapshot.\<close>

definition search_row :: MemTable where
  "search_row = (example_memtable 2)\<lparr>current_size := 1, ready_cnt := 1, max_ready_id := 0,
     mt_tids := (replicate MEMTABLE_MAX_CAPACITY 0)[0 := 65538],
     mt_ready := (replicate MEMTABLE_MAX_CAPACITY False)[0 := True], vector_blob := replicate 16 7\<rparr>"

definition search_buffer :: "MemtableBufferSlot list" where
  "search_buffer = [\<lparr>mb_ref_count = 1, mb_mt = search_row\<rparr>, \<lparr>mb_ref_count = 1, mb_mt = shared sealed_example\<rparr>]"

definition search_index :: LSMIndexData where
  "search_index = \<lparr>indexRelId = 16400, lx_index_type = HNSW, lx_dim = 2, lx_elem_size = 4, hnsw_m = 16,
     hnsw_ef_construction = 64, next_segment_id = 5, growing_memtable_idx = 0, growing_memtable_id = 4,
     memtable_idxs = [1, -1, -1, -1], memtable_count = 1, flushed_not_released = [],
     flushed_not_released_count = 0, releasing_in_progress = False\<rparr>"

definition search_snapshot :: LSMSnapshot where
  "search_snapshot = \<lparr>gidx = 0, gmt_id = 5, sidxs = [1], smt_ids = [5]\<rparr>"

lemma search_snapshot: "take_snapshot search_index search_buffer =
    Some (search_snapshot, shift_refs 1 [1] (shift_ref 1 search_buffer 0))"
proof -
  have "memtable_id (MT_FROM_SLOTIDX search_buffer 0) = 5" "memtable_id (MT_FROM_SLOTIDX search_buffer 1) = 5"
    by (simp_all add: MT_FROM_SLOTIDX_def search_buffer_def search_row_def example_memtable_def sealed_example_def)
  then show ?thesis
    by (simp add: take_snapshot_def search_index_def search_snapshot_def MEMTABLE_BUF_SIZE_def Let_def)
qed

lemma search_example_ok:
  "set (gidx search_snapshot # sidxs search_snapshot) \<subseteq> {i. nat i < length search_buffer}"
  "searchable (MT_FROM_SLOTIDX search_buffer (gidx search_snapshot))
     (map (MT_FROM_SLOTIDX search_buffer) (sidxs search_snapshot)) 3"
  by (simp_all add: search_snapshot_def search_buffer_def searchable_def growing_searchable_def sealed_searchable_def
      MT_FROM_SLOTIDX_def search_row_def example_memtable_def sealed_example_def brute_force_ok_def valid_rows_def
      unmasked_def IS_SLOT_SET_def MEMTABLE_BITMAP_SIZE_def MEMTABLE_MAX_CAPACITY_def)

theorem search_releases_every_reference_witness:
  "snd (search_lsm_index (\<lambda>r. sum_list (map uint r)) (exact_knowhere (\<lambda>r. sum_list (map uint r))) (sort_key pdist) 3
      [] (Some 1) search_snapshot (shift_refs 1 [1] (shift_ref 1 search_buffer 0))) = search_buffer"
  by (rule search_releases_every_reference) (rule search_snapshot)

theorem search_equals_reference_witness:
  "\<exists>m res. fst (search_lsm_index (\<lambda>r. sum_list (map uint r)) (exact_knowhere (\<lambda>r. sum_list (map uint r)))
        (sort_key pdist) 3 [\<lparr>pdist = 40, pid = 65539\<rparr>] None search_snapshot
        (shift_refs 1 [1] (shift_ref 1 search_buffer 0))) = Some res
    \<and> top_k_of 3 (concat (map (visible_pairs (\<lambda>r. sum_list (map uint r)))
        (snapshot_memtables search_snapshot search_buffer))) m
    \<and> res = take 3 (first_by_id {} (sort_key pdist (m @ [\<lparr>pdist = 40, pid = 65539\<rparr>])))"
  using search_equals_reference [OF search_snapshot search_example_ok exact_knowhere sort_key_sorts,
      of "[\<lparr>pdist = 40, pid = 65539\<rparr>]" "\<lambda>r. sum_list (map uint r)"]
  by simp blast

end
