(* ===== verification/StatusPage.thy ===== *)
theory StatusPage
  imports ItemPointers "HOL-Library.Multiset"
begin

text \<open>
  The status pages of an index (\<^verbatim>\<open>statuspage.c\<close>): the durable list of registered memtables and of the
  heap tuples in them, from which recovery rebuilds shared memory. The pages of the relation fork are a
  list; a block number is a position in it. The result \<open>None\<close> of an operation is an \<^verbatim>\<open>elog(ERROR)\<close> of the
  code or of the buffer manager (a block past the end of the fork), or a walk along \<^verbatim>\<open>nextblkno\<close> that does
  not end. One \<^verbatim>\<open>GenericXLogFinish\<close> is atomic, so every operation is a function on the fork; the two steps
  of \<^verbatim>\<open>AddToStatusMemtable\<close> that run under different locks are also given separately.
\<close>

section \<open>Pages\<close>

definition InvalidBlockNumber :: nat where "InvalidBlockNumber = 0xFFFFFFFF"
definition BlockNumberIsValid :: "nat \<Rightarrow> bool" where "BlockNumberIsValid b \<longleftrightarrow> b \<noteq> InvalidBlockNumber"

definition STATUS_METAPAGE_BLKNO :: nat where "STATUS_METAPAGE_BLKNO = 1"
definition STATUS_MEMTABLE_ARRAY_BLKNO :: nat where "STATUS_MEMTABLE_ARRAY_BLKNO = 2"

record StatusPageMetaData =
  freePageHead :: nat
  freePageTail :: nat
  max_memtable_sid :: SegmentId

record StatusMemtableData =
  memtablePageHead :: nat
  memtableInsertPage :: nat
  st_sid :: SegmentId

record StatusPage =
  page_meta :: StatusPageMetaData
  memtable_items :: "StatusMemtableData list"
  tuple_items :: "ItemPointerData list"
  nextblkno :: nat

type_synonym fork = "StatusPage list"

text \<open>\<^verbatim>\<open>PageInit\<close> clears the page; an item costs its aligned size and a line pointer of 4 bytes.\<close>

definition StatusInitPage :: StatusPage where
  "StatusInitPage = \<lparr>page_meta = \<lparr>freePageHead = 0, freePageTail = 0, max_memtable_sid = 0\<rparr>,
     memtable_items = [], tuple_items = [], nextblkno = InvalidBlockNumber\<rparr>"

definition memtable_item_size :: nat where "memtable_item_size = 16"
definition tuple_item_size :: nat where "tuple_item_size = 8"

definition PageGetFreeSpace :: "StatusPage \<Rightarrow> nat" where
  "PageGetFreeSpace p =
     8192 - 24 - 8 - (memtable_item_size + 4) * length (memtable_items p)
       - (tuple_item_size + 4) * length (tuple_items p) - 4"

definition StatusNewBuffer :: "fork \<Rightarrow> (nat \<times> fork) option" where
  "StatusNewBuffer r =
     (if length r < InvalidBlockNumber then Some (length r, r @ [StatusInitPage]) else None)"

definition upd_page :: "nat \<Rightarrow> (StatusPage \<Rightarrow> StatusPage) \<Rightarrow> fork \<Rightarrow> fork option" where
  "upd_page b f r = (if b < length r then Some (r[b := f (r ! b)]) else None)"

section \<open>Walks along a chain of pages\<close>

partial_function (option) chain_find :: "(StatusPage \<Rightarrow> bool) \<Rightarrow> fork \<Rightarrow> nat \<Rightarrow> nat option option" where
  "chain_find P r b =
     (if BlockNumberIsValid b then
        (if b < length r then (if P (r ! b) then Some (Some b) else chain_find P r (nextblkno (r ! b))) else None)
      else Some None)"

partial_function (option) chain_collect :: "(StatusPage \<Rightarrow> 'a list) \<Rightarrow> fork \<Rightarrow> nat \<Rightarrow> 'a list option" where
  "chain_collect f r b =
     (if BlockNumberIsValid b then
        (if b < length r then
           Option.bind (chain_collect f r (nextblkno (r ! b))) (\<lambda>xs. Some (f (r ! b) @ xs))
         else None)
      else Some [])"

partial_function (option) chain_tail :: "fork \<Rightarrow> nat \<Rightarrow> nat option" where
  "chain_tail r b =
     (if b < length r then
        (if BlockNumberIsValid (nextblkno (r ! b)) then chain_tail r (nextblkno (r ! b)) else Some b)
      else None)"

text \<open>The insert loops: the first page with room for an item, or the last page of the chain.\<close>

partial_function (option) find_room :: "nat \<Rightarrow> fork \<Rightarrow> nat \<Rightarrow> (nat \<times> bool) option" where
  "find_room need r b =
     (if b < length r then
        (if PageGetFreeSpace (r ! b) > need then Some (b, True)
         else if BlockNumberIsValid (nextblkno (r ! b)) then find_room need r (nextblkno (r ! b))
         else Some (b, False))
      else None)"

section \<open>Operations\<close>

definition CreateStatusMetaPage :: "fork \<Rightarrow> fork option" where
  "CreateStatusMetaPage r =
     (case StatusNewBuffer r of
        None \<Rightarrow> None
      | Some (b, r) \<Rightarrow>
          upd_page b (\<lambda>p. p\<lparr>page_meta := \<lparr>freePageHead = InvalidBlockNumber, freePageTail = InvalidBlockNumber,
            max_memtable_sid = 0\<rparr>\<rparr>) r)"

definition InitializeStatusMemtableArray :: "fork \<Rightarrow> fork option" where
  "InitializeStatusMemtableArray r = map_option snd (StatusNewBuffer r)"

definition upd_meta :: "(StatusPageMetaData \<Rightarrow> StatusPageMetaData) \<Rightarrow> fork \<Rightarrow> fork option" where
  "upd_meta f = upd_page STATUS_METAPAGE_BLKNO (\<lambda>p. p\<lparr>page_meta := f (page_meta p)\<rparr>)"

definition GetFreePage :: "fork \<Rightarrow> (nat option \<times> fork) option" where
  "GetFreePage r =
     (if STATUS_METAPAGE_BLKNO < length r then
        (let head = freePageHead (page_meta (r ! STATUS_METAPAGE_BLKNO)) in
         if \<not> BlockNumberIsValid head then Some (None, r)
         else if head < length r then
           (let next = nextblkno (r ! head) in
            case upd_meta (\<lambda>m. m\<lparr>freePageHead := next,
                freePageTail := (if BlockNumberIsValid next then freePageTail m else InvalidBlockNumber)\<rparr>) r of
              None \<Rightarrow> None
            | Some r \<Rightarrow> map_option (\<lambda>r. (Some head, r)) (upd_page head (\<lambda>p. StatusInitPage) r))
         else None)
      else None)"

text \<open>A free page, or a new one when there is none.\<close>

definition take_page :: "fork \<Rightarrow> (nat \<times> fork) option" where
  "take_page r =
     (case GetFreePage r of
        None \<Rightarrow> None | Some (Some b, r) \<Rightarrow> Some (b, r) | Some (None, r) \<Rightarrow> StatusNewBuffer r)"

definition UpdateMaxMemtableSid :: "SegmentId \<Rightarrow> fork \<Rightarrow> fork option" where
  "UpdateMaxMemtableSid sid = upd_meta (\<lambda>m. m\<lparr>max_memtable_sid := sid\<rparr>)"

definition PageAddMemtable :: "nat \<Rightarrow> StatusMemtableData \<Rightarrow> fork \<Rightarrow> fork option" where
  "PageAddMemtable b m r =
     (if b < length r \<and> memtable_item_size \<le> PageGetFreeSpace (r ! b)
      then upd_page b (\<lambda>p. p\<lparr>memtable_items := memtable_items p @ [m]\<rparr>) r else None)"

definition PageAddTuple :: "nat \<Rightarrow> ItemPointerData \<Rightarrow> fork \<Rightarrow> fork option" where
  "PageAddTuple b tid r =
     (if b < length r \<and> tuple_item_size \<le> PageGetFreeSpace (r ! b)
      then upd_page b (\<lambda>p. p\<lparr>tuple_items := tuple_items p @ [tid]\<rparr>) r else None)"

text \<open>The page a memtable entry goes to, linked behind the array when every array page is full.\<close>

definition array_page_with_room :: "fork \<Rightarrow> (nat \<times> fork) option" where
  "array_page_with_room r =
     (case find_room memtable_item_size r STATUS_MEMTABLE_ARRAY_BLKNO of
        None \<Rightarrow> None
      | Some (b, True) \<Rightarrow> Some (b, r)
      | Some (b, False) \<Rightarrow>
          (case StatusNewBuffer r of
             None \<Rightarrow> None
           | Some (nb, r) \<Rightarrow> map_option (\<lambda>r. (nb, r)) (upd_page b (\<lambda>p. p\<lparr>nextblkno := nb\<rparr>) r)))"

definition RegisterStatusMemtable :: "SegmentId \<Rightarrow> fork \<Rightarrow> fork option" where
  "RegisterStatusMemtable sid r =
     (case UpdateMaxMemtableSid sid r of
        None \<Rightarrow> None
      | Some r \<Rightarrow>
          (case array_page_with_room r of
             None \<Rightarrow> None
           | Some (b, r) \<Rightarrow>
               (case take_page r of
                  None \<Rightarrow> None
                | Some (nb, r) \<Rightarrow>
                    PageAddMemtable b \<lparr>memtablePageHead = nb, memtableInsertPage = nb, st_sid = sid\<rparr> r)))"

text \<open>The first entry with a segment id: its page, its offset (counted from 0) and the entry.\<close>

definition has_sid :: "SegmentId \<Rightarrow> StatusPage \<Rightarrow> bool" where
  "has_sid sid p \<longleftrightarrow> (\<exists>m \<in> set (memtable_items p). st_sid m = sid)"

definition sid_offset :: "SegmentId \<Rightarrow> StatusPage \<Rightarrow> nat" where
  "sid_offset sid p = length (takeWhile (\<lambda>m. st_sid m \<noteq> sid) (memtable_items p))"

record MemtableInfo =
  info_blkno :: nat
  info_offno :: nat

definition find_status_memtable :: "SegmentId \<Rightarrow> fork \<Rightarrow> (MemtableInfo \<times> StatusMemtableData) option option" where
  "find_status_memtable sid r =
     (case chain_find (has_sid sid) r STATUS_MEMTABLE_ARRAY_BLKNO of
        None \<Rightarrow> None
      | Some None \<Rightarrow> Some None
      | Some (Some b) \<Rightarrow>
          (let off = sid_offset sid (r ! b)
           in Some (Some (\<lparr>info_blkno = b, info_offno = off\<rparr>, memtable_items (r ! b) ! off))))"

definition FindMemtableInsertPage :: "SegmentId \<Rightarrow> fork \<Rightarrow> (nat \<times> MemtableInfo) option option" where
  "FindMemtableInsertPage sid r =
     map_option (map_option (\<lambda>(info, m). (memtableInsertPage m, info))) (find_status_memtable sid r)"

text \<open>\<^verbatim>\<open>StatusUpdateInsertPage\<close> trusts the offset found earlier; one that is gone is an invalid read.\<close>

definition StatusUpdateInsertPage :: "MemtableInfo \<Rightarrow> nat \<Rightarrow> fork \<Rightarrow> fork option" where
  "StatusUpdateInsertPage info insertPage r =
     (if info_blkno info < length r \<and> info_offno info < length (memtable_items (r ! info_blkno info)) then
        (let m = memtable_items (r ! info_blkno info) ! info_offno info in
         if BlockNumberIsValid insertPage \<and> insertPage \<noteq> memtableInsertPage m then
           upd_page (info_blkno info)
             (\<lambda>p. p\<lparr>memtable_items := (memtable_items p)[info_offno info := m\<lparr>memtableInsertPage := insertPage\<rparr>]\<rparr>) r
         else Some r)
      else None)"

text \<open>The insert loop of \<^verbatim>\<open>AddToStatusMemtable\<close>, from the remembered insert page; it returns the page used.\<close>

definition add_tuple_from :: "nat \<Rightarrow> ItemPointerData \<Rightarrow> fork \<Rightarrow> (nat \<times> fork) option" where
  "add_tuple_from insertPage tid r =
     (case find_room tuple_item_size r insertPage of
        None \<Rightarrow> None
      | Some (b, True) \<Rightarrow> map_option (\<lambda>r. (b, r)) (PageAddTuple b tid r)
      | Some (b, False) \<Rightarrow>
          (case take_page r of
             None \<Rightarrow> None
           | Some (nb, r) \<Rightarrow>
               (case upd_page b (\<lambda>p. p\<lparr>nextblkno := nb\<rparr>) r of
                  None \<Rightarrow> None
                | Some r \<Rightarrow> map_option (\<lambda>r. (nb, r)) (PageAddTuple nb tid r))))"

definition AddToStatusMemtable :: "SegmentId \<Rightarrow> ItemPointerData \<Rightarrow> fork \<Rightarrow> fork option" where
  "AddToStatusMemtable sid tid r =
     (case FindMemtableInsertPage sid r of
        Some (Some (originalInsertPage, info)) \<Rightarrow>
          (case add_tuple_from originalInsertPage tid r of
             None \<Rightarrow> None
           | Some (insertPage, r) \<Rightarrow>
               if insertPage \<noteq> originalInsertPage then StatusUpdateInsertPage info insertPage r else Some r)
      | _ \<Rightarrow> None)"

text \<open>
  \<^verbatim>\<open>ReleaseStatusMemtable\<close> walks from the insert page of every entry it passes to the end of its chain,
  then appends the chain of the matching entry to the free list.
\<close>

fun release_scan ::
  "fork \<Rightarrow> SegmentId \<Rightarrow> nat \<Rightarrow> StatusMemtableData list \<Rightarrow> (nat \<times> StatusMemtableData \<times> nat) option option" where
  "release_scan r sid off [] = Some None"
| "release_scan r sid off (m # ms) =
     (case (if BlockNumberIsValid (memtableInsertPage m) then chain_tail r (memtableInsertPage m)
            else Some (memtableInsertPage m)) of
        None \<Rightarrow> None
      | Some tail \<Rightarrow>
          if st_sid m = sid then Some (Some (off, m, tail)) else release_scan r sid (Suc off) ms)"

partial_function (option) release_find ::
  "fork \<Rightarrow> SegmentId \<Rightarrow> nat \<Rightarrow> (nat \<times> nat \<times> StatusMemtableData \<times> nat) option option" where
  "release_find r sid b =
     (if BlockNumberIsValid b then
        (if b < length r then
           (case release_scan r sid 0 (memtable_items (r ! b)) of
              None \<Rightarrow> None
            | Some (Some (off, m, tail)) \<Rightarrow> Some (Some (b, off, m, tail))
            | Some None \<Rightarrow> release_find r sid (nextblkno (r ! b)))
         else None)
      else Some None)"

definition delete_nth :: "nat \<Rightarrow> 'a list \<Rightarrow> 'a list" where
  "delete_nth i xs = take i xs @ drop (Suc i) xs"

definition append_to_free_list :: "nat \<Rightarrow> nat \<Rightarrow> fork \<Rightarrow> fork option" where
  "append_to_free_list head tail r =
     (if STATUS_METAPAGE_BLKNO < length r then
        (let meta = page_meta (r ! STATUS_METAPAGE_BLKNO) in
         if \<not> BlockNumberIsValid (freePageHead meta) then
           upd_meta (\<lambda>m. m\<lparr>freePageHead := head, freePageTail := tail\<rparr>) r
         else
           (case upd_page (freePageTail meta) (\<lambda>p. p\<lparr>nextblkno := head\<rparr>) r of
              None \<Rightarrow> None | Some r \<Rightarrow> upd_meta (\<lambda>m. m\<lparr>freePageTail := tail\<rparr>) r))
      else None)"

definition ReleaseStatusMemtable :: "SegmentId \<Rightarrow> fork \<Rightarrow> fork option" where
  "ReleaseStatusMemtable sid r =
     (case release_find r sid STATUS_MEMTABLE_ARRAY_BLKNO of
        None \<Rightarrow> None
      | Some None \<Rightarrow> Some r
      | Some (Some (b, off, m, tail)) \<Rightarrow>
          (case append_to_free_list (memtablePageHead m) tail r of
             None \<Rightarrow> None
           | Some r \<Rightarrow> upd_page b (\<lambda>p. p\<lparr>memtable_items := delete_nth off (memtable_items p)\<rparr>) r))"

definition RemoveFromStatusMemtable :: "SegmentId \<Rightarrow> ItemPointerData \<Rightarrow> fork \<Rightarrow> (bool \<times> fork) option" where
  "RemoveFromStatusMemtable sid tid r =
     (case find_status_memtable sid r of
        None \<Rightarrow> None
      | Some None \<Rightarrow> Some (False, r)
      | Some (Some (info, m)) \<Rightarrow>
          if \<not> BlockNumberIsValid (memtablePageHead m) then Some (False, r)
          else
            (case chain_find (\<lambda>p. tid \<in> set (tuple_items p)) r (memtablePageHead m) of
               None \<Rightarrow> None
             | Some None \<Rightarrow> Some (False, r)
             | Some (Some b) \<Rightarrow>
                 map_option (\<lambda>r. (True, r)) (upd_page b (\<lambda>p. p\<lparr>tuple_items := remove1 tid (tuple_items p)\<rparr>) r)))"

definition GetStatusGrowingSid :: "fork \<Rightarrow> SegmentId option" where
  "GetStatusGrowingSid r =
     (if STATUS_METAPAGE_BLKNO < length r then Some (max_memtable_sid (page_meta (r ! STATUS_METAPAGE_BLKNO))) else None)"

text \<open>The two passes count and collect the same entries.\<close>

definition GetStatusMemtableSids :: "fork \<Rightarrow> SegmentId list option" where
  "GetStatusMemtableSids r = chain_collect (\<lambda>p. map st_sid (memtable_items p)) r STATUS_MEMTABLE_ARRAY_BLKNO"

text \<open>The result array has \<^verbatim>\<open>MEMTABLE_MAX_CAPACITY\<close> places (the argument \<open>cap\<close>); more tuples overrun it.\<close>

definition GetStatusMemtableTids :: "nat \<Rightarrow> SegmentId \<Rightarrow> fork \<Rightarrow> ItemPointerData list option" where
  "GetStatusMemtableTids cap sid r =
     (case find_status_memtable sid r of
        None \<Rightarrow> None
      | Some None \<Rightarrow> Some []
      | Some (Some (info, m)) \<Rightarrow>
          if \<not> BlockNumberIsValid (memtablePageHead m) then Some []
          else
            (case chain_collect tuple_items r (memtablePageHead m) of
               None \<Rightarrow> None | Some tids \<Rightarrow> if length tids \<le> cap then Some tids else None))"

section \<open>Chains\<close>

text \<open>\<open>path r b bs c\<close>: the links lead from block \<open>b\<close> through the blocks \<open>bs\<close> to \<open>c\<close>.\<close>

fun path :: "fork \<Rightarrow> nat \<Rightarrow> nat list \<Rightarrow> nat \<Rightarrow> bool" where
  "path r b [] c \<longleftrightarrow> b = c"
| "path r b (x # xs) c \<longleftrightarrow> b = x \<and> BlockNumberIsValid x \<and> x < length r \<and> path r (nextblkno (r ! x)) xs c"

abbreviation chain :: "fork \<Rightarrow> nat \<Rightarrow> nat list \<Rightarrow> bool" where
  "chain r b bs \<equiv> path r b bs InvalidBlockNumber"

lemma InvalidBlockNumber_not_valid [simp]: "\<not> BlockNumberIsValid InvalidBlockNumber"
  by (simp add: BlockNumberIsValid_def)

lemma path_append: "path r b (xs @ ys) c \<longleftrightarrow> (\<exists>d. path r b xs d \<and> path r d ys c)"
  by (induction xs arbitrary: b) auto

lemma path_blocks: "path r b bs c \<Longrightarrow> x \<in> set bs \<Longrightarrow> x < length r \<and> BlockNumberIsValid x"
  by (induction bs arbitrary: b) auto

lemma path_head: "path r b bs c \<Longrightarrow> bs \<noteq> [] \<Longrightarrow> b = hd bs"
  by (cases bs) auto

lemma path_cong:
  assumes "\<And>x. x \<in> set bs \<Longrightarrow> x < length r' \<and> nextblkno (r' ! x) = nextblkno (r ! x)"
  shows "path r b bs c \<Longrightarrow> path r' b bs c"
  using assms by (induction bs arbitrary: b) auto

lemma chain_suffix:
  assumes "path r b bs c" "x \<in> set bs"
  obtains ys zs where "bs = ys @ x # zs" "path r x (x # zs) c"
proof -
  obtain ys zs where bs: "bs = ys @ x # zs" using split_list [OF assms(2)] by blast
  with assms(1) have "path r x (x # zs) c" by (auto simp: path_append)
  with bs that show ?thesis by blast
qed

lemma chain_last: "chain r b bs \<Longrightarrow> bs \<noteq> [] \<Longrightarrow> \<not> BlockNumberIsValid (nextblkno (r ! last bs))"
proof (induction bs arbitrary: b)
  case (Cons x xs)
  then show ?case by (cases xs) auto
qed simp

text \<open>A new page behind the last one of a chain.\<close>

lemma chain_snoc:
  assumes "chain r b bs" "bs \<noteq> []" "distinct bs" "nb \<notin> set bs" "nb < length r'" "BlockNumberIsValid nb"
    and "\<And>x. x \<in> set bs \<Longrightarrow> x < length r'" "nextblkno (r' ! last bs) = nb"
    and "\<And>x. x \<in> set bs \<Longrightarrow> x \<noteq> last bs \<Longrightarrow> nextblkno (r' ! x) = nextblkno (r ! x)"
    and "nextblkno (r' ! nb) = InvalidBlockNumber"
  shows "chain r' b (bs @ [nb])"
  using assms(1-4,7-9)
proof (induction bs arbitrary: b)
  case (Cons x xs)
  show ?case
  proof (cases "xs = []")
    case True
    with Cons.prems assms(5,6,10) show ?thesis by auto
  next
    case False
    with Cons.prems have "x \<noteq> last xs" by auto
    with Cons.prems False have "nextblkno (r' ! x) = nextblkno (r ! x)" by auto
    moreover have "chain r' (nextblkno (r ! x)) (xs @ [nb])"
      using Cons.IH [of "nextblkno (r ! x)"] Cons.prems False by auto
    ultimately show ?thesis using Cons.prems by auto
  qed
qed simp

text \<open>Two chains joined, as the release of a memtable joins its pages to the free list.\<close>

lemma chain_join:
  assumes "chain r b bs" "bs \<noteq> []" "distinct bs" "chain r' c cs"
    and "\<And>x. x \<in> set bs \<Longrightarrow> x < length r'" "nextblkno (r' ! last bs) = c"
    and "\<And>x. x \<in> set bs \<Longrightarrow> x \<noteq> last bs \<Longrightarrow> nextblkno (r' ! x) = nextblkno (r ! x)"
  shows "chain r' b (bs @ cs)"
  using assms(1-3,5-7)
proof (induction bs arbitrary: b)
  case (Cons x xs)
  show ?case
  proof (cases "xs = []")
    case True
    with Cons.prems assms(4) show ?thesis by auto
  next
    case False
    with Cons.prems have "x \<noteq> last xs" by auto
    with Cons.prems False have "nextblkno (r' ! x) = nextblkno (r ! x)" by auto
    moreover have "chain r' (nextblkno (r ! x)) (xs @ cs)"
      using Cons.IH [of "nextblkno (r ! x)"] Cons.prems False by auto
    ultimately show ?thesis using Cons.prems by auto
  qed
qed simp

lemma chain_find_eq: "chain r b bs \<Longrightarrow> chain_find P r b = Some (find (\<lambda>x. P (r ! x)) bs)"
  by (induction bs arbitrary: b) (auto simp: chain_find.simps [of P r])

lemma chain_collect_eq: "chain r b bs \<Longrightarrow> chain_collect f r b = Some (concat (map (\<lambda>x. f (r ! x)) bs))"
  by (induction bs arbitrary: b) (auto simp: chain_collect.simps [of f r])

lemma chain_tail_eq: "chain r b bs \<Longrightarrow> bs \<noteq> [] \<Longrightarrow> chain_tail r b = Some (last bs)"
proof (induction bs arbitrary: b)
  case (Cons x xs)
  then show ?case by (cases xs) (auto simp: chain_tail.simps [of r x])
qed simp

lemma find_room_eq:
  "chain r b bs \<Longrightarrow> bs \<noteq> [] \<Longrightarrow> find_room k r b =
     Some (case find (\<lambda>x. PageGetFreeSpace (r ! x) > k) bs of Some x \<Rightarrow> (x, True) | None \<Rightarrow> (last bs, False))"
proof (induction bs arbitrary: b)
  case (Cons x xs)
  show ?case
  proof (cases "PageGetFreeSpace (r ! x) > k \<or> xs = []")
    case True
    with Cons.prems show ?thesis by (auto simp: find_room.simps [of k r x])
  next
    case False
    with Cons.prems have "chain r (nextblkno (r ! x)) xs" "BlockNumberIsValid (nextblkno (r ! x))"
      by (auto simp: neq_Nil_conv)
    with Cons.IH [of "nextblkno (r ! x)"] Cons.prems False show ?thesis
      by (simp add: find_room.simps [of k r x] last_ConsR split: option.split)
  qed
qed simp

section \<open>What the pages represent\<close>

text \<open>
  \<open>arr\<close> are the pages of the memtable array, \<open>es\<close> its entries each with the pages of its chain, \<open>fr\<close> the
  free list, and \<open>loose\<close> pages that an operation has taken and not yet linked. Every block of the fork
  behind the index and status meta pages is in exactly one of them.
\<close>

type_synonym entry = "StatusMemtableData \<times> nat list"

abbreviation meta_of :: "fork \<Rightarrow> StatusPageMetaData" where
  "meta_of r \<equiv> page_meta (r ! STATUS_METAPAGE_BLKNO)"

definition entry_ok :: "fork \<Rightarrow> entry \<Rightarrow> bool" where
  "entry_ok r e \<longleftrightarrow> chain r (memtablePageHead (fst e)) (snd e) \<and> memtableInsertPage (fst e) \<in> set (snd e)"

definition array_items :: "fork \<Rightarrow> nat list \<Rightarrow> StatusMemtableData list" where
  "array_items r arr = concat (map (\<lambda>b. memtable_items (r ! b)) arr)"

definition free_list_ok :: "fork \<Rightarrow> nat list \<Rightarrow> bool" where
  "free_list_ok r fr \<longleftrightarrow>
     chain r (freePageHead (meta_of r)) fr \<and> (fr \<noteq> [] \<longrightarrow> freePageTail (meta_of r) = last fr)"

definition status_rep :: "fork \<Rightarrow> nat list \<Rightarrow> entry list \<Rightarrow> nat list \<Rightarrow> nat list \<Rightarrow> bool" where
  "status_rep r arr es fr loose \<longleftrightarrow>
     3 \<le> length r \<and> length r \<le> InvalidBlockNumber
     \<and> chain r STATUS_MEMTABLE_ARRAY_BLKNO arr \<and> free_list_ok r fr
     \<and> (\<forall>e \<in> set es. entry_ok r e)
     \<and> mset (map fst es) = mset (array_items r arr) \<and> distinct (map (\<lambda>e. st_sid (fst e)) es)
     \<and> mset (arr @ concat (map snd es) @ fr @ loose) = mset [2..<length r]"

definition status_inv :: "fork \<Rightarrow> bool" where
  "status_inv r \<longleftrightarrow> (\<exists>arr es fr. status_rep r arr es fr [])"

text \<open>The abstract state: for each registered segment id the multiset of its tuples.\<close>

type_synonym status_view = "SegmentId \<rightharpoonup> ItemPointerData multiset"

definition entry_tuples :: "fork \<Rightarrow> entry \<Rightarrow> ItemPointerData multiset" where
  "entry_tuples r e = mset (concat (map (\<lambda>b. tuple_items (r ! b)) (snd e)))"

definition entry_view :: "fork \<Rightarrow> entry list \<Rightarrow> status_view" where
  "entry_view r es = map_of (map (\<lambda>e. (st_sid (fst e), entry_tuples r e)) es)"

text \<open>The view that the pages give to a reader, without naming the chains.\<close>

definition status_map :: "fork \<Rightarrow> status_view" where
  "status_map r sid =
     (case find_status_memtable sid r of
        Some (Some (info, m)) \<Rightarrow> map_option mset (chain_collect tuple_items r (memtablePageHead m))
      | _ \<Rightarrow> None)"

subsection \<open>Consequences\<close>

lemma status_repD:
  assumes "status_rep r arr es fr loose"
  shows "3 \<le> length r" "length r \<le> InvalidBlockNumber" "chain r STATUS_MEMTABLE_ARRAY_BLKNO arr"
    and "free_list_ok r fr" "\<And>e. e \<in> set es \<Longrightarrow> entry_ok r e"
    and "mset (map fst es) = mset (array_items r arr)" "distinct (map (\<lambda>e. st_sid (fst e)) es)"
    and "mset (arr @ concat (map snd es) @ fr @ loose) = mset [2..<length r]"
  using assms by (auto simp: status_rep_def)

lemma status_rep_distinct:
  assumes "status_rep r arr es fr loose"
  shows "distinct (arr @ concat (map snd es) @ fr @ loose)"
    and "set (arr @ concat (map snd es) @ fr @ loose) = {2..<length r}"
proof -
  note m = status_repD(8) [OF assms]
  show "distinct (arr @ concat (map snd es) @ fr @ loose)"
    using mset_eq_imp_distinct_iff [OF m] by simp
  show "set (arr @ concat (map snd es) @ fr @ loose) = {2..<length r}"
    using mset_eq_setD [OF m] by simp
qed

lemma status_rep_array: "status_rep r arr es fr loose \<Longrightarrow> arr \<noteq> []"
  using status_repD(3) [of r arr es fr loose] by (cases arr) (auto simp: STATUS_MEMTABLE_ARRAY_BLKNO_def InvalidBlockNumber_def)

lemma entry_pages: "entry_ok r e \<Longrightarrow> snd e \<noteq> []"
  by (auto simp: entry_ok_def)

text \<open>The representation only looks at the links, the array's entries and the meta page.\<close>

lemma status_rep_cong:
  assumes rep: "status_rep r arr es fr loose" and len: "length r' = length r"
    and links: "\<And>x. 2 \<le> x \<Longrightarrow> x < length r \<Longrightarrow> nextblkno (r' ! x) = nextblkno (r ! x)"
    and items: "\<And>x. x \<in> set arr \<Longrightarrow> memtable_items (r' ! x) = memtable_items (r ! x)"
    and meta: "freePageHead (meta_of r') = freePageHead (meta_of r)"
      "freePageTail (meta_of r') = freePageTail (meta_of r)"
  shows "status_rep r' arr es fr loose"
proof -
  note sets = status_rep_distinct(2) [OF rep]
  have cong: "path r b bs c \<Longrightarrow> path r' b bs c" if "set bs \<subseteq> {2..<length r}" for b bs c
    by (rule path_cong) (use that links len in auto)
  have "set arr \<subseteq> {2..<length r}" "set fr \<subseteq> {2..<length r}" using sets by auto
  moreover have "set (snd e) \<subseteq> {2..<length r}" if "e \<in> set es" for e using sets that by auto
  moreover have "array_items r' arr = array_items r arr"
    using items by (auto simp: array_items_def intro!: arg_cong [of _ _ concat])
  ultimately show ?thesis
    using rep cong by (auto simp: status_rep_def len free_list_ok_def meta entry_ok_def)
qed

subsection \<open>Lookups\<close>

lemma takeWhile_stops: "\<exists>x \<in> set xs. \<not> P x \<Longrightarrow> length (takeWhile P xs) < length xs"
  by (induction xs) auto

lemma sid_offset_props:
  assumes "has_sid sid p"
  shows "sid_offset sid p < length (memtable_items p)" "st_sid (memtable_items p ! sid_offset sid p) = sid"
proof -
  let ?P = "\<lambda>m. st_sid m \<noteq> sid"
  have "\<exists>m \<in> set (memtable_items p). \<not> ?P m" using assms by (auto simp: has_sid_def)
  then show lt: "sid_offset sid p < length (memtable_items p)"
    unfolding sid_offset_def by (rule takeWhile_stops)
  show "st_sid (memtable_items p ! sid_offset sid p) = sid"
    using nth_length_takeWhile [of ?P "memtable_items p"] lt by (simp add: sid_offset_def)
qed

lemma rep_items_iff:
  assumes "status_rep r arr es fr loose"
  shows "(\<exists>b \<in> set arr. has_sid sid (r ! b)) \<longleftrightarrow> sid \<in> (\<lambda>e. st_sid (fst e)) ` set es"
    and "b \<in> set arr \<Longrightarrow> m \<in> set (memtable_items (r ! b)) \<Longrightarrow> \<exists>bs. (m, bs) \<in> set es"
proof -
  have items: "fst ` set es = (\<Union>b \<in> set arr. set (memtable_items (r ! b)))"
    using mset_eq_setD [OF status_repD(6) [OF assms]] by (simp add: array_items_def)
  show "(\<exists>b \<in> set arr. has_sid sid (r ! b)) \<longleftrightarrow> sid \<in> (\<lambda>e. st_sid (fst e)) ` set es"
  proof -
    have "(\<lambda>e. st_sid (fst e)) ` set es = st_sid ` (\<Union>b \<in> set arr. set (memtable_items (r ! b)))"
      unfolding items [symmetric] by (simp add: image_image)
    then show ?thesis by (auto simp: has_sid_def)
  qed
  show "\<exists>bs. (m, bs) \<in> set es" if "b \<in> set arr" "m \<in> set (memtable_items (r ! b))"
  proof -
    have "m \<in> fst ` set es" unfolding items using that by blast
    then show ?thesis by force
  qed
qed

lemma find_status_memtable_absent:
  assumes "status_rep r arr es fr loose" "sid \<notin> (\<lambda>e. st_sid (fst e)) ` set es"
  shows "find_status_memtable sid r = Some None"
proof -
  have "find (\<lambda>x. has_sid sid (r ! x)) arr = None"
    using rep_items_iff(1) [OF assms(1), of sid] assms(2) by (auto simp: find_None_iff)
  then show ?thesis
    by (simp add: find_status_memtable_def chain_find_eq [OF status_repD(3) [OF assms(1)]])
qed

lemma find_status_memtable_present:
  assumes "status_rep r arr es fr loose" "sid \<in> (\<lambda>e. st_sid (fst e)) ` set es"
  obtains b m bs where
    "find_status_memtable sid r = Some (Some (\<lparr>info_blkno = b, info_offno = sid_offset sid (r ! b)\<rparr>, m))"
    "find (\<lambda>x. has_sid sid (r ! x)) arr = Some b" "b \<in> set arr" "has_sid sid (r ! b)"
    "m = memtable_items (r ! b) ! sid_offset sid (r ! b)" "st_sid m = sid" "(m, bs) \<in> set es"
proof -
  obtain b where b: "find (\<lambda>x. has_sid sid (r ! x)) arr = Some b"
    using rep_items_iff(1) [OF assms(1), of sid] assms(2)
    by (cases "find (\<lambda>x. has_sid sid (r ! x)) arr") (auto simp: find_None_iff)
  then have bin: "b \<in> set arr" "has_sid sid (r ! b)" by (auto simp: find_Some_iff)
  let ?m = "memtable_items (r ! b) ! sid_offset sid (r ! b)"
  have "?m \<in> set (memtable_items (r ! b))" "st_sid ?m = sid"
    using sid_offset_props [OF bin(2)] by simp_all
  moreover obtain bs where "(?m, bs) \<in> set es"
    using rep_items_iff(2) [OF assms(1) bin(1) calculation(1)] by blast
  moreover have "find_status_memtable sid r =
      Some (Some (\<lparr>info_blkno = b, info_offno = sid_offset sid (r ! b)\<rparr>, ?m))"
    by (simp add: find_status_memtable_def chain_find_eq [OF status_repD(3) [OF assms(1)]] b Let_def)
  ultimately show ?thesis using that b bin by blast
qed

lemma status_map_view:
  assumes "status_rep r arr es fr loose"
  shows "status_map r = entry_view r es"
proof
  fix sid
  show "status_map r sid = entry_view r es sid"
  proof (cases "sid \<in> (\<lambda>e. st_sid (fst e)) ` set es")
    case False
    then have "entry_view r es sid = None" by (simp add: entry_view_def map_of_eq_None_iff image_image)
    then show ?thesis
      using find_status_memtable_absent [OF assms False] by (simp add: status_map_def)
  next
    case True
    then obtain b m bs where m: "find_status_memtable sid r =
        Some (Some (\<lparr>info_blkno = b, info_offno = sid_offset sid (r ! b)\<rparr>, m))"
      "st_sid m = sid" "(m, bs) \<in> set es"
      using find_status_memtable_present [OF assms] by metis
    have "chain r (memtablePageHead m) bs"
      using status_repD(5) [OF assms m(3)] by (simp add: entry_ok_def)
    then have "status_map r sid = Some (entry_tuples r (m, bs))"
      by (simp add: status_map_def m(1) chain_collect_eq entry_tuples_def)
    moreover have "entry_view r es sid = Some (entry_tuples r (m, bs))"
      unfolding entry_view_def
    proof (rule map_of_is_SomeI)
      show "distinct (map fst (map (\<lambda>e. (st_sid (fst e), entry_tuples r e)) es))"
        using status_repD(7) [OF assms] by (simp add: comp_def)
      show "(sid, entry_tuples r (m, bs)) \<in> set (map (\<lambda>e. (st_sid (fst e), entry_tuples r e)) es)"
        using m(2,3) by force
    qed
    ultimately show ?thesis by simp
  qed
qed

section \<open>Taking pages\<close>

lemma upd_page_Some: "b < length r \<Longrightarrow> upd_page b f r = Some (r[b := f (r ! b)])"
  by (simp add: upd_page_def)

lemma upd_meta_Some:
  "1 < length r \<Longrightarrow> upd_meta f r = Some (r[1 := (r ! 1)\<lparr>page_meta := f (meta_of r)\<rparr>])"
  by (simp add: upd_meta_def upd_page_Some STATUS_METAPAGE_BLKNO_def)

lemma entry_view_cong:
  assumes "\<And>e x. e \<in> set es \<Longrightarrow> x \<in> set (snd e) \<Longrightarrow> tuple_items (r' ! x) = tuple_items (r ! x)"
  shows "entry_view r' es = entry_view r es"
proof -
  have "entry_tuples r' e = entry_tuples r e" if "e \<in> set es" for e
    using assms [OF that] by (auto simp: entry_tuples_def intro!: arg_cong [of _ _ mset] arg_cong [of _ _ concat])
  then show ?thesis by (auto simp: entry_view_def intro!: arg_cong [of _ _ map_of])
qed

lemma rep_block:
  assumes "status_rep r arr es fr loose" "x \<in> set (arr @ concat (map snd es) @ fr @ loose)"
  shows "2 \<le> x" "x < length r" "BlockNumberIsValid x"
proof -
  show "2 \<le> x" "x < length r" using status_rep_distinct(2) [OF assms(1)] assms(2) by auto
  then show "BlockNumberIsValid x"
    using status_repD(2) [OF assms(1)] by (simp add: BlockNumberIsValid_def)
qed

lemma rep_linked:
  assumes "status_rep r arr es fr loose" "x \<in> set (arr @ concat (map snd es))"
  shows "2 \<le> x" "x < length r" "BlockNumberIsValid x"
proof -
  have "x \<in> set (arr @ concat (map snd es) @ fr @ loose)" using assms(2) by (simp only: set_append Un_iff) blast
  from rep_block [OF assms(1) this] show "2 \<le> x" "x < length r" "BlockNumberIsValid x" .
qed

lemma entry_page: "e \<in> set es \<Longrightarrow> x \<in> set (snd e) \<Longrightarrow> x \<in> set (arr @ concat (map snd es))"
  by simp blast

text \<open>
  A change that leaves the linked pages alone: the pages of the array and of the entries keep their
  contents, the free list may change.
\<close>

lemma status_rep_frame:
  assumes rep: "status_rep r arr es fr loose" and len: "length r \<le> length r'" "length r' \<le> InvalidBlockNumber"
    and same: "\<And>x. x \<in> set (arr @ concat (map snd es)) \<Longrightarrow> r' ! x = r ! x"
    and free: "free_list_ok r' fr'"
    and pages: "mset (fr' @ loose') = mset (fr @ loose) + mset [length r..<length r']"
  shows "status_rep r' arr es fr' loose'" "entry_view r' es = entry_view r es"
proof -
  note D = status_repD [OF rep]
  have sub: "x < length r'" if "x \<in> set (arr @ concat (map snd es))" for x
    using rep_linked(2) [OF rep that] len by simp
  have cong: "path r b bs c \<Longrightarrow> path r' b bs c" if "set bs \<subseteq> set (arr @ concat (map snd es))" for b bs c
    by (rule path_cong) (use that sub same in \<open>simp only: subsetD\<close>)
  have "array_items r' arr = array_items r arr"
    using same by (auto simp: array_items_def intro!: arg_cong [of _ _ concat])
  moreover have "entry_ok r' e" if "e \<in> set es" for e
    using D(5) [OF that] cong [of "snd e"] that by (auto simp: entry_ok_def)
  moreover have "mset (arr @ concat (map snd es) @ fr' @ loose') = mset [2..<length r']"
  proof -
    have "[2..<length r'] = [2..<length r] @ [length r..<length r']"
      using D(1) len upt_add_eq_append [of 2 "length r" "length r' - length r"] by simp
    then have "mset [2..<length r'] = mset [2..<length r] + mset [length r..<length r']" by simp
    with D(8) pages show ?thesis by (simp add: ac_simps)
  qed
  ultimately show "status_rep r' arr es fr' loose'"
    using D cong [of arr] len free by (simp add: status_rep_def)
  show "entry_view r' es = entry_view r es"
    by (rule entry_view_cong) (simp only: same entry_page)
qed

lemma new_buffer_rep:
  assumes rep: "status_rep r arr es fr loose" and room: "length r < InvalidBlockNumber"
  shows "status_rep (r @ [StatusInitPage]) arr es fr (length r # loose)"
    "entry_view (r @ [StatusInitPage]) es = entry_view r es"
proof -
  note D = status_repD [OF rep]
  have same: "(r @ [StatusInitPage]) ! x = r ! x" if "x \<in> set (arr @ concat (map snd es))" for x
    using rep_linked(2) [OF rep that] by (simp add: nth_append)
  have "chain (r @ [StatusInitPage]) (freePageHead (meta_of r)) fr"
    by (rule path_cong [of _ _ r]) (use D(4) path_blocks [of r _ fr] in \<open>auto simp: free_list_ok_def nth_append\<close>)
  then have free: "free_list_ok (r @ [StatusInitPage]) fr"
    using D(1,4) by (simp add: free_list_ok_def nth_append STATUS_METAPAGE_BLKNO_def)
  show "status_rep (r @ [StatusInitPage]) arr es fr (length r # loose)"
    "entry_view (r @ [StatusInitPage]) es = entry_view r es"
    by (rule status_rep_frame [OF rep, where fr' = fr and loose' = "length r # loose"]; use room same free in simp)+
qed

lemma take_page_rep:
  assumes rep: "status_rep r arr es fr loose" and room: "length r < InvalidBlockNumber"
  obtains nb r1 fr1 where "take_page r = Some (nb, r1)" "status_rep r1 arr es fr1 (nb # loose)"
    "r1 ! nb = StatusInitPage" "entry_view r1 es = entry_view r es"
    "\<And>x. x \<in> set (arr @ concat (map snd es)) \<Longrightarrow> r1 ! x = r ! x"
    "length r1 \<le> Suc (length r)"
proof -
  note D = status_repD [OF rep] and dist = status_rep_distinct [OF rep]
  have one: "Suc 0 < length r" using D(1) by simp
  show ?thesis
  proof (cases fr)
    case Nil
    with D(4) have "\<not> BlockNumberIsValid (freePageHead (meta_of r))"
      by (simp add: free_list_ok_def BlockNumberIsValid_def)
    then have run: "take_page r = Some (length r, r @ [StatusInitPage])"
      using one room by (simp add: take_page_def GetFreePage_def StatusNewBuffer_def STATUS_METAPAGE_BLKNO_def)
    have "status_rep (r @ [StatusInitPage]) arr es [] (length r # loose)"
      "entry_view (r @ [StatusInitPage]) es = entry_view r es"
      using new_buffer_rep [OF rep room] Nil by simp_all
    moreover have "(r @ [StatusInitPage]) ! x = r ! x" if "x \<in> set (arr @ concat (map snd es))" for x
      using rep_linked(2) [OF rep that] by (simp add: nth_append)
    ultimately show ?thesis using that run by simp
  next
    case (Cons h fr')
    then have head: "freePageHead (meta_of r) = h" "BlockNumberIsValid h" "h < length r"
      and rest: "chain r (nextblkno (r ! h)) fr'" using D(4) by (auto simp: free_list_ok_def)
    have h: "2 \<le> h" "h \<notin> set arr" "h \<notin> set (concat (map snd es))" "h \<notin> set fr'"
      using rep_block(1) [OF rep, of h] dist(1) Cons by auto
    define next_block where "next_block = nextblkno (r ! h)"
    define meta1 where "meta1 = (meta_of r)\<lparr>freePageHead := next_block,
      freePageTail := (if BlockNumberIsValid next_block then freePageTail (meta_of r) else InvalidBlockNumber)\<rparr>"
    let ?r1 = "r[1 := (r ! 1)\<lparr>page_meta := meta1\<rparr>, h := StatusInitPage]"
    have run: "take_page r = Some (h, ?r1)"
      using one head h(1) by (simp add: take_page_def GetFreePage_def Let_def upd_meta_Some upd_page_Some
          meta1_def next_block_def STATUS_METAPAGE_BLKNO_def)
    have same: "?r1 ! x = r ! x" if "x \<in> set (arr @ concat (map snd es) @ fr')" for x
    proof -
      have "x \<in> set (arr @ concat (map snd es) @ fr @ loose)" using that Cons by auto
      note b = rep_block(1,2) [OF rep this]
      have "x \<noteq> h" using that h(2-4) by (simp only: set_append Un_iff) blast
      with b h(1) show ?thesis by (simp add: nth_list_update)
    qed
    have "chain ?r1 next_block fr'"
      by (rule path_cong [of _ _ r])
        (use rest same rep_block(2) [OF rep] Cons in \<open>auto simp: next_block_def\<close>)
    moreover have "freePageTail meta1 = last fr'" if "fr' \<noteq> []"
      using that D(4) Cons rest by (auto simp: meta1_def next_block_def free_list_ok_def neq_Nil_conv)
    ultimately have free: "free_list_ok ?r1 fr'"
      using one h(1) by (simp add: free_list_ok_def STATUS_METAPAGE_BLKNO_def meta1_def)
    have same1: "?r1 ! x = r ! x" if "x \<in> set (arr @ concat (map snd es))" for x
      by (rule same) (use that in \<open>simp only: set_append Un_iff, blast\<close>)
    have "status_rep ?r1 arr es fr' (h # loose)" "entry_view ?r1 es = entry_view r es"
      by (rule status_rep_frame [OF rep, where fr' = fr' and loose' = "h # loose"];
          use D(2) same1 free Cons in simp)+
    with run same1 that head(3) show ?thesis by simp
  qed
qed

section \<open>Linking pages and entries\<close>

lemma split_concat: "x \<in> set (concat (map f xs)) \<longleftrightarrow> (\<exists>a \<in> set xs. x \<in> set (f a))"
  by simp

lemma link_array:
  assumes rep: "status_rep r arr es fr (nb # loose)" and blank: "r ! nb = StatusInitPage"
  defines "r' \<equiv> r[last arr := (r ! last arr)\<lparr>nextblkno := nb\<rparr>]"
  shows "status_rep r' (arr @ [nb]) es fr loose" "entry_view r' es = entry_view r es"
proof -
  note D = status_repD [OF rep] and dist = status_rep_distinct(1) [OF rep]
  have arr: "arr \<noteq> []" by (rule status_rep_array [OF rep])
  then have l: "last arr \<in> set arr" by simp
  note lb = rep_linked [OF rep, of "last arr"]
  have nb: "2 \<le> nb" "nb < length r" "BlockNumberIsValid nb" using rep_block [OF rep, of nb] by simp_all
  have disj: "nb \<noteq> last arr" "nb \<notin> set arr" "\<And>x. x \<in> set fr \<Longrightarrow> x \<noteq> last arr"
    "\<And>e x. e \<in> set es \<Longrightarrow> x \<in> set (snd e) \<Longrightarrow> x \<noteq> last arr"
    using dist l by auto
  have sel: "nextblkno (r' ! x) = (if x = last arr then nb else nextblkno (r ! x))"
    "memtable_items (r' ! x) = memtable_items (r ! x)" "tuple_items (r' ! x) = tuple_items (r ! x)"
    "page_meta (r' ! x) = page_meta (r ! x)" "length r' = length r" for x
    using lb l by (auto simp: r'_def nth_list_update)
  have cong: "path r b bs c \<Longrightarrow> path r' b bs c" if "last arr \<notin> set bs" for b bs c
    using that by (intro path_cong [of bs r' r]) (auto simp: sel dest: path_blocks)
  have "chain r' STATUS_MEMTABLE_ARRAY_BLKNO (arr @ [nb])"
    by (rule chain_snoc [OF D(3) arr])
      (use dist disj nb sel path_blocks [OF D(3)] blank in \<open>auto simp: StatusInitPage_def\<close>)
  moreover have "free_list_ok r' fr"
    using D(4) cong [of fr] disj(3) by (auto simp: free_list_ok_def sel)
  moreover have "entry_ok r' e" if "e \<in> set es" for e
    using D(5) [OF that] cong [of "snd e"] disj(4) [OF that] by (auto simp: entry_ok_def)
  moreover have "array_items r' (arr @ [nb]) = array_items r arr"
    by (simp add: array_items_def sel blank StatusInitPage_def)
  ultimately show "status_rep r' (arr @ [nb]) es fr loose"
    using D by (simp add: status_rep_def sel(5))
  show "entry_view r' es = entry_view r es"
    by (rule entry_view_cong) (simp add: sel)
qed

lemma link_entry:
  assumes rep: "status_rep r arr (es1 @ (m, bs) # es2) fr (nb # loose)" and blank: "r ! nb = StatusInitPage"
  defines "r' \<equiv> r[last bs := (r ! last bs)\<lparr>nextblkno := nb\<rparr>]"
  shows "status_rep r' arr (es1 @ (m, bs @ [nb]) # es2) fr loose"
    "entry_view r' (es1 @ (m, bs @ [nb]) # es2) = entry_view r (es1 @ (m, bs) # es2)"
proof -
  let ?es = "es1 @ (m, bs) # es2" and ?es' = "es1 @ (m, bs @ [nb]) # es2"
  note D = status_repD [OF rep] and dist = status_rep_distinct(1) [OF rep]
  have eok: "entry_ok r (m, bs)" using D(5) [of "(m, bs)"] by simp
  have bs: "bs \<noteq> []" using entry_pages [OF eok] by simp
  then have l: "last bs \<in> set bs" by simp
  then have "last bs \<in> set (arr @ concat (map snd ?es))" by simp
  note lb = rep_linked [OF rep this]
  have nb: "2 \<le> nb" "nb < length r" "BlockNumberIsValid nb" using rep_block [OF rep, of nb] by simp_all
  have disj: "nb \<noteq> last bs" "nb \<notin> set bs" "distinct bs" "last bs \<notin> set fr" "last bs \<notin> set arr"
    "last bs \<notin> set (concat (map snd (es1 @ es2)))"
    using dist l by auto
  have sel: "nextblkno (r' ! x) = (if x = last bs then nb else nextblkno (r ! x))"
    "memtable_items (r' ! x) = memtable_items (r ! x)" "tuple_items (r' ! x) = tuple_items (r ! x)"
    "page_meta (r' ! x) = page_meta (r ! x)" "length r' = length r" for x
    using lb l by (auto simp: r'_def nth_list_update)
  have cong: "path r b xs c \<Longrightarrow> path r' b xs c" if "last bs \<notin> set xs" for b xs c
    using that by (intro path_cong [of xs r' r]) (auto simp: sel dest: path_blocks)
  have own: "entry_ok r' (m, bs @ [nb])"
  proof -
    have "chain r (memtablePageHead m) bs" using eok by (simp add: entry_ok_def)
    then have "chain r' (memtablePageHead m) (bs @ [nb])"
      by (rule chain_snoc [OF _ bs])
        (use disj nb sel path_blocks [of r _ bs] eok blank in \<open>auto simp: StatusInitPage_def entry_ok_def\<close>)
    then show ?thesis using eok by (simp add: entry_ok_def)
  qed
  have others: "entry_ok r' e" if "e \<in> set (es1 @ es2)" for e
  proof -
    have "entry_ok r e" using D(5) [of e] that by auto
    moreover have "last bs \<notin> set (snd e)" using disj(6) that unfolding split_concat by blast
    ultimately show ?thesis using cong [of "snd e"] by (auto simp: entry_ok_def)
  qed
  have "\<forall>e \<in> set ?es'. entry_ok r' e" using own others by auto
  moreover have "chain r' STATUS_MEMTABLE_ARRAY_BLKNO arr" by (rule cong [OF disj(5) D(3)])
  moreover have "free_list_ok r' fr"
    using D(4) cong [OF disj(4)] by (auto simp: free_list_ok_def sel)
  moreover have "array_items r' arr = array_items r arr"
    by (simp add: array_items_def sel)
  ultimately show "status_rep r' arr ?es' fr loose"
    using D by (simp add: status_rep_def sel(5))
  have "entry_tuples r' (m, bs @ [nb]) = entry_tuples r (m, bs)"
    by (simp add: entry_tuples_def sel blank StatusInitPage_def)
  moreover have "entry_tuples r' e = entry_tuples r e" for e
    by (simp add: entry_tuples_def sel)
  ultimately show "entry_view r' ?es' = entry_view r ?es"
    by (simp add: entry_view_def)
qed

lemma map_of_mid:
  "k \<notin> fst ` set (xs @ ys) \<Longrightarrow> map_of (xs @ (k, v) # ys) = (map_of (xs @ ys))(k \<mapsto> v)"
  by (induction xs) (auto simp: fun_upd_twist)

lemma entry_view_mid:
  assumes "st_sid m \<notin> (\<lambda>e. st_sid (fst e)) ` set (es1 @ es2)"
  shows "entry_view r (es1 @ (m, bs) # es2) = (entry_view r (es1 @ es2))(st_sid m \<mapsto> entry_tuples r (m, bs))"
  unfolding entry_view_def using map_of_mid [of "st_sid m" "map (\<lambda>e. (st_sid (fst e), entry_tuples r e)) es1"] assms
  by (simp add: image_Un image_image)

lemma mset_concat_upd:
  assumes "distinct xs" "b \<in> set xs" "\<And>x. x \<in> set xs \<Longrightarrow> x \<noteq> b \<Longrightarrow> g x = f x" "mset (g b) + A = mset (f b) + B"
  shows "mset (concat (map g xs)) + A = mset (concat (map f xs)) + B"
proof -
  obtain ys zs where xs: "xs = ys @ b # zs" using split_list [OF assms(2)] by blast
  with assms(1,3) have same: "map g ys = map f ys" "map g zs = map f zs" by auto
  have "mset (concat (map h xs)) + C = mset (concat (map h ys)) + mset (concat (map h zs)) + (mset (h b) + C)"
    for h :: "'a \<Rightarrow> 'b list" and C by (simp add: xs ac_simps)
  from this [of g A] this [of f B] show ?thesis unfolding same assms(4) by simp
qed

lemma new_entry:
  assumes rep: "status_rep r arr es fr (nb # loose)" and blank: "r ! nb = StatusInitPage" and b: "b \<in> set arr"
    and m: "memtablePageHead m = nb" "memtableInsertPage m = nb" "st_sid m \<notin> (\<lambda>e. st_sid (fst e)) ` set es"
  defines "r' \<equiv> r[b := (r ! b)\<lparr>memtable_items := memtable_items (r ! b) @ [m]\<rparr>]"
  shows "status_rep r' arr (es @ [(m, [nb])]) fr loose"
    "entry_view r' (es @ [(m, [nb])]) = (entry_view r es)(st_sid m \<mapsto> {#})"
proof -
  note D = status_repD [OF rep] and dist = status_rep_distinct(1) [OF rep]
  have lb: "2 \<le> b" "b < length r" using rep_linked [OF rep, of b] b by simp_all
  have nb: "2 \<le> nb" "nb < length r" "BlockNumberIsValid nb" using rep_block [OF rep, of nb] by simp_all
  have "nb \<noteq> b" using dist b by auto
  have sel: "nextblkno (r' ! x) = nextblkno (r ! x)" "tuple_items (r' ! x) = tuple_items (r ! x)"
    "memtable_items (r' ! x) = memtable_items (r ! x) @ (if x = b then [m] else [])"
    "page_meta (r' ! x) = page_meta (r ! x)" "length r' = length r" for x
    using lb by (auto simp: r'_def nth_list_update)
  have cong: "path r c xs d \<Longrightarrow> path r' c xs d" for c xs d
    by (rule path_cong [of xs r' r]) (auto simp: sel dest: path_blocks)
  have "entry_ok r' (m, [nb])"
    using m nb by (simp add: entry_ok_def sel blank StatusInitPage_def)
  then have "\<forall>e \<in> set (es @ [(m, [nb])]). entry_ok r' e"
    using D(5) cong by (auto simp: entry_ok_def)
  moreover have "mset (array_items r' arr) + {#} = mset (array_items r arr) + {#m#}"
    unfolding array_items_def by (rule mset_concat_upd [OF _ b]) (use dist sel in auto)
  moreover have "free_list_ok r' fr" using D(4) cong by (auto simp: free_list_ok_def sel)
  ultimately show "status_rep r' arr (es @ [(m, [nb])]) fr loose"
    using D(1,2,6,7,8) cong [OF D(3)] m(3) by (simp add: status_rep_def sel(5) comp_def image_image)
  have "entry_tuples r' (m, [nb]) = {#}"
    by (simp add: entry_tuples_def sel blank StatusInitPage_def)
  moreover have "entry_tuples r' e = entry_tuples r e" for e
    by (simp add: entry_tuples_def sel)
  ultimately show "entry_view r' (es @ [(m, [nb])]) = (entry_view r es)(st_sid m \<mapsto> {#})"
    using entry_view_mid [of m es "[]" r' "[nb]"] m(3) by (simp add: entry_view_def)
qed

section \<open>The operations keep the representation\<close>

lemma find_room_rep:
  assumes "chain r b bs" "bs \<noteq> []"
  obtains x where "find_room k r b = Some (x, True)" "x \<in> set bs" "PageGetFreeSpace (r ! x) > k"
  | "find_room k r b = Some (last bs, False)"
proof (cases "find (\<lambda>x. PageGetFreeSpace (r ! x) > k) bs")
  case None
  then show ?thesis using that(2) find_room_eq [OF assms] by simp
next
  case (Some x)
  then have "x \<in> set bs" "PageGetFreeSpace (r ! x) > k" by (auto simp: find_Some_iff)
  then show ?thesis using that(1) find_room_eq [OF assms] Some by simp
qed

lemma update_max_rep:
  assumes rep: "status_rep r arr es fr loose"
  obtains r' where "UpdateMaxMemtableSid sid r = Some r'" "status_rep r' arr es fr loose"
    "entry_view r' es = entry_view r es" "length r' = length r" "GetStatusGrowingSid r' = Some sid"
proof -
  have one: "Suc 0 < length r" using status_repD(1) [OF rep] by simp
  let ?r' = "r[1 := (r ! 1)\<lparr>page_meta := (meta_of r)\<lparr>max_memtable_sid := sid\<rparr>\<rparr>]"
  have run: "UpdateMaxMemtableSid sid r = Some ?r'"
    using one by (simp add: UpdateMaxMemtableSid_def upd_meta_Some)
  have sel: "nextblkno (?r' ! x) = nextblkno (r ! x)" "tuple_items (?r' ! x) = tuple_items (r ! x)"
    "memtable_items (?r' ! x) = memtable_items (r ! x)" for x
    using one by (auto simp: nth_list_update)
  have "status_rep ?r' arr es fr loose"
    by (rule status_rep_cong [OF rep]) (use one sel in \<open>auto simp: STATUS_METAPAGE_BLKNO_def\<close>)
  moreover have "entry_view ?r' es = entry_view r es" by (rule entry_view_cong) (rule sel(2))
  ultimately show ?thesis using that [OF run] one by (simp add: GetStatusGrowingSid_def STATUS_METAPAGE_BLKNO_def)
qed

lemma array_page_rep:
  assumes rep: "status_rep r arr es fr []" and room: "length r < InvalidBlockNumber"
  obtains b r1 arr1 where "array_page_with_room r = Some (b, r1)" "status_rep r1 arr1 es fr []"
    "b \<in> set arr1" "PageGetFreeSpace (r1 ! b) > memtable_item_size" "entry_view r1 es = entry_view r es"
    "length r1 \<le> Suc (length r)"
proof -
  note D = status_repD [OF rep] and arr = status_rep_array [OF rep]
  show ?thesis
  proof (cases rule: find_room_rep [OF D(3) arr, of memtable_item_size])
    case (1 x)
    then show ?thesis using that [of x r arr] rep by (simp add: array_page_with_room_def)
  next
    case 2
    let ?r1 = "r @ [StatusInitPage]" and ?nb = "length r"
    note n = new_buffer_rep [OF rep room]
    have l: "last arr < length r" using rep_linked(2) [OF rep, of "last arr"] arr by simp
    let ?r2 = "?r1[last arr := (?r1 ! last arr)\<lparr>nextblkno := ?nb\<rparr>]"
    have "?r1 ! ?nb = StatusInitPage" by simp
    note lk = link_array [OF n(1) this]
    have "array_page_with_room r = Some (?nb, ?r2)"
      using 2 room l by (simp add: array_page_with_room_def StatusNewBuffer_def upd_page_Some)
    moreover have "?r2 ! ?nb = StatusInitPage" using l by simp
    then have "PageGetFreeSpace (?r2 ! ?nb) > memtable_item_size"
      by (simp add: PageGetFreeSpace_def StatusInitPage_def memtable_item_size_def)
    ultimately show ?thesis using that [of ?nb ?r2 "arr @ [?nb]"] lk n(2) by simp
  qed
qed

lemma RegisterStatusMemtable_rep:
  assumes rep: "status_rep r arr es fr []" and room: "length r + 1 < InvalidBlockNumber"
    and fresh: "sid \<notin> (\<lambda>e. st_sid (fst e)) ` set es"
  shows "\<exists>r' arr' es' fr'. RegisterStatusMemtable sid r = Some r' \<and> status_rep r' arr' es' fr' []
    \<and> entry_view r' es' = (entry_view r es)(sid \<mapsto> {#}) \<and> length r' \<le> length r + 2"
proof -
  obtain r1 where r1: "UpdateMaxMemtableSid sid r = Some r1" "status_rep r1 arr es fr []"
    "entry_view r1 es = entry_view r es" "length r1 = length r" by (rule update_max_rep [OF rep])
  have "length r1 < InvalidBlockNumber" using room r1(4) by simp
  from array_page_rep [OF r1(2) this] obtain b r2 arr2 where r2: "array_page_with_room r1 = Some (b, r2)"
    "status_rep r2 arr2 es fr []" "b \<in> set arr2" "PageGetFreeSpace (r2 ! b) > memtable_item_size"
    "entry_view r2 es = entry_view r1 es" "length r2 \<le> Suc (length r1)" by metis
  have "length r2 < InvalidBlockNumber" using room r1(4) r2(6) by simp
  from take_page_rep [OF r2(2) this] obtain nb r3 fr3 where r3: "take_page r2 = Some (nb, r3)"
    "status_rep r3 arr2 es fr3 [nb]" "r3 ! nb = StatusInitPage" "entry_view r3 es = entry_view r2 es"
    "\<And>x. x \<in> set (arr2 @ concat (map snd es)) \<Longrightarrow> r3 ! x = r2 ! x" "length r3 \<le> Suc (length r2)" by metis
  define m where "m = \<lparr>memtablePageHead = nb, memtableInsertPage = nb, st_sid = sid\<rparr>"
  let ?r4 = "r3[b := (r3 ! b)\<lparr>memtable_items := memtable_items (r3 ! b) @ [m]\<rparr>]"
  have b: "b < length r3" "r3 ! b = r2 ! b" using rep_linked(2) [OF r3(2), of b] r3(5) r2(3) by simp_all
  have "PageAddMemtable b m r3 = Some ?r4"
    using b r2(4) by (simp add: PageAddMemtable_def upd_page_Some)
  then have run: "RegisterStatusMemtable sid r = Some ?r4"
    by (simp add: RegisterStatusMemtable_def r1(1) r2(1) r3(1) m_def)
  have "st_sid m \<notin> (\<lambda>e. st_sid (fst e)) ` set es" using fresh by (simp add: m_def)
  note new = new_entry [OF r3(2,3) r2(3) _ _ this]
  show ?thesis
  proof (intro exI conjI)
    show "RegisterStatusMemtable sid r = Some ?r4" by (rule run)
    show "status_rep ?r4 arr2 (es @ [(m, [nb])]) fr3 []" by (rule new) (simp_all add: m_def)
    show "entry_view ?r4 (es @ [(m, [nb])]) = (entry_view r es)(sid \<mapsto> {#})"
      using new(2) by (simp add: m_def r1(3) r2(5) r3(4))
    show "length ?r4 \<le> length r + 2" using r1(4) r2(6) r3(6) by simp
  qed
qed

lemma rep_entry_fresh:
  assumes "status_rep r arr (es1 @ (m, bs) # es2) fr loose"
  shows "st_sid m \<notin> (\<lambda>e. st_sid (fst e)) ` set (es1 @ es2)"
  using status_repD(7) [OF assms] by auto

lemma rep_entry_pages:
  assumes "status_rep r arr (es1 @ (m, bs) # es2) fr loose"
  shows "distinct bs" "set bs \<inter> set arr = {}" "x \<in> set bs \<Longrightarrow> x \<notin> set (concat (map snd (es1 @ es2)))"
    "x \<in> set bs \<Longrightarrow> 2 \<le> x \<and> x < length r"
proof -
  show "distinct bs" "set bs \<inter> set arr = {}" "x \<in> set bs \<Longrightarrow> x \<notin> set (concat (map snd (es1 @ es2)))"
    using status_rep_distinct(1) [OF assms] by auto
  show "2 \<le> x \<and> x < length r" if "x \<in> set bs"
    using rep_linked(1,2) [OF assms entry_page [of "(m, bs)"]] that by simp
qed

text \<open>The tuples of one page of one memtable change.\<close>

lemma change_tuples:
  assumes rep: "status_rep r arr (es1 @ (m, bs) # es2) fr loose" and x: "x \<in> set bs"
    and ts: "mset ts + A = mset (tuple_items (r ! x)) + B"
  defines "r' \<equiv> r[x := (r ! x)\<lparr>tuple_items := ts\<rparr>]"
  shows "status_rep r' arr (es1 @ (m, bs) # es2) fr loose"
    "entry_view r' (es1 @ (m, bs) # es2)
      = (entry_view r (es1 @ (m, bs) # es2))(st_sid m \<mapsto> entry_tuples r' (m, bs))"
    "entry_tuples r' (m, bs) + A = entry_tuples r (m, bs) + B"
    "memtable_items (r' ! b) = memtable_items (r ! b)"
proof -
  note pages = rep_entry_pages [OF rep]
  have lx: "2 \<le> x" "x < length r" using pages(4) [OF x] by simp_all
  have sel: "nextblkno (r' ! y) = nextblkno (r ! y)" "memtable_items (r' ! y) = memtable_items (r ! y)"
    "page_meta (r' ! y) = page_meta (r ! y)"
    "tuple_items (r' ! y) = (if y = x then ts else tuple_items (r ! y))" for y
    using lx by (auto simp: r'_def nth_list_update)
  show "status_rep r' arr (es1 @ (m, bs) # es2) fr loose"
    by (rule status_rep_cong [OF rep]) (simp_all add: sel, simp add: r'_def)
  have "entry_view r' (es1 @ es2) = entry_view r (es1 @ es2)"
  proof (rule entry_view_cong)
    fix e y assume "e \<in> set (es1 @ es2)" "y \<in> set (snd e)"
    then have "y \<in> set (concat (map snd (es1 @ es2)))" unfolding split_concat by blast
    with pages(3) [OF x] show "tuple_items (r' ! y) = tuple_items (r ! y)" by (auto simp: sel)
  qed
  then show "entry_view r' (es1 @ (m, bs) # es2)
      = (entry_view r (es1 @ (m, bs) # es2))(st_sid m \<mapsto> entry_tuples r' (m, bs))"
    by (simp add: entry_view_mid [OF rep_entry_fresh [OF rep]])
  show "entry_tuples r' (m, bs) + A = entry_tuples r (m, bs) + B"
    unfolding entry_tuples_def snd_conv by (rule mset_concat_upd [OF pages(1) x]) (simp_all add: sel ts)
  show "memtable_items (r' ! b) = memtable_items (r ! b)" by (rule sel)
qed

lemma add_tuple_rep:
  assumes rep: "status_rep r arr (es1 @ (m, bs) # es2) fr loose" and x: "x \<in> set bs"
    and room: "PageGetFreeSpace (r ! x) > tuple_item_size"
  obtains r' where "PageAddTuple x tid r = Some r'" "status_rep r' arr (es1 @ (m, bs) # es2) fr loose"
    "entry_view r' (es1 @ (m, bs) # es2)
      = (entry_view r (es1 @ (m, bs) # es2))(st_sid m \<mapsto> add_mset tid (entry_tuples r (m, bs)))"
    "\<And>b. memtable_items (r' ! b) = memtable_items (r ! b)" "length r' = length r"
proof -
  let ?ts = "tuple_items (r ! x) @ [tid]"
  have lx: "x < length r" using rep_entry_pages(4) [OF rep x] by simp
  have "mset ?ts + {#} = mset (tuple_items (r ! x)) + {#tid#}" by simp
  note ct = change_tuples [OF rep x this]
  have "PageAddTuple x tid r = Some (r[x := (r ! x)\<lparr>tuple_items := ?ts\<rparr>])"
    using lx room by (simp add: PageAddTuple_def upd_page_Some)
  then show ?thesis using that ct by simp
qed

lemma update_insert_rep:
  assumes rep: "status_rep r arr (es1 @ (m, bs) # es2) fr loose" and b: "b \<in> set arr"
    and off: "off < length (memtable_items (r ! b))" "memtable_items (r ! b) ! off = m" and ip: "ip \<in> set bs"
  obtains r' m' where "StatusUpdateInsertPage \<lparr>info_blkno = b, info_offno = off\<rparr> ip r = Some r'"
    "status_rep r' arr (es1 @ (m', bs) # es2) fr loose" "length r' = length r"
    "entry_view r' (es1 @ (m', bs) # es2) = entry_view r (es1 @ (m, bs) # es2)"
proof (cases "ip = memtableInsertPage m")
  case True
  have "StatusUpdateInsertPage \<lparr>info_blkno = b, info_offno = off\<rparr> ip r = Some r"
    using True off rep_linked(2) [OF rep, of b] b by (simp add: StatusUpdateInsertPage_def Let_def)
  then show ?thesis using that rep by blast
next
  case False
  note D = status_repD [OF rep]
  let ?m' = "m\<lparr>memtableInsertPage := ip\<rparr>"
  let ?items = "(memtable_items (r ! b))[off := ?m']"
  let ?r' = "r[b := (r ! b)\<lparr>memtable_items := ?items\<rparr>]"
  have lb: "2 \<le> b" "b < length r" using rep_linked [OF rep, of b] b by simp_all
  have "BlockNumberIsValid ip"
    using rep_entry_pages(4) [OF rep ip] D(2) by (simp add: BlockNumberIsValid_def)
  then have run: "StatusUpdateInsertPage \<lparr>info_blkno = b, info_offno = off\<rparr> ip r = Some ?r'"
    using off lb False by (simp add: StatusUpdateInsertPage_def Let_def upd_page_Some)
  have sel: "nextblkno (?r' ! y) = nextblkno (r ! y)" "tuple_items (?r' ! y) = tuple_items (r ! y)"
    "page_meta (?r' ! y) = page_meta (r ! y)"
    "memtable_items (?r' ! y) = (if y = b then ?items else memtable_items (r ! y))" for y
    using lb by (auto simp: nth_list_update)
  have cong: "path r c xs d \<Longrightarrow> path ?r' c xs d" for c xs d
    by (rule path_cong [of xs ?r' r]) (auto simp: sel dest: path_blocks)
  have eok: "entry_ok r (m, bs)" using D(5) [of "(m, bs)"] by simp
  have "entry_ok ?r' (?m', bs)" using eok cong ip by (simp add: entry_ok_def)
  then have "\<forall>e \<in> set (es1 @ (?m', bs) # es2). entry_ok ?r' e"
    using D(5) cong by (auto simp: entry_ok_def)
  moreover have items: "mset ?items + {#m#} = mset (memtable_items (r ! b)) + {#?m'#}"
    using off nth_mem [OF off(1)] by (simp add: mset_update)
  have "mset (array_items ?r' arr) + {#m#} = mset (array_items r arr) + {#?m'#}"
    unfolding array_items_def
    by (rule mset_concat_upd [OF _ b]) (use status_rep_distinct(1) [OF rep] sel items in auto)
  then have "mset (array_items ?r' arr) = mset (map fst (es1 @ (?m', bs) # es2))"
    by (simp add: D(6) [symmetric])
  moreover have "free_list_ok ?r' fr" using D(4) cong by (auto simp: free_list_ok_def sel)
  ultimately have "status_rep ?r' arr (es1 @ (?m', bs) # es2) fr loose"
    using D(1,2,7,8) cong [OF D(3)] by (simp add: status_rep_def)
  moreover have "entry_tuples ?r' e = entry_tuples r e" "entry_tuples r (?m', bs) = entry_tuples r (m, bs)" for e
    by (simp_all add: entry_tuples_def sel)
  then have "entry_view ?r' (es1 @ (?m', bs) # es2) = entry_view r (es1 @ (m, bs) # es2)"
    by (simp add: entry_view_def)
  ultimately show ?thesis using that run by simp
qed

lemma find_insert_page:
  assumes rep: "status_rep r arr es fr loose" and sid: "sid \<in> (\<lambda>e. st_sid (fst e)) ` set es"
  obtains b off m bs es1 es2 where
    "FindMemtableInsertPage sid r = Some (Some (memtableInsertPage m, \<lparr>info_blkno = b, info_offno = off\<rparr>))"
    "es = es1 @ (m, bs) # es2" "st_sid m = sid" "b \<in> set arr" "off < length (memtable_items (r ! b))"
    "memtable_items (r ! b) ! off = m"
proof -
  obtain b m bs where f: "find_status_memtable sid r
      = Some (Some (\<lparr>info_blkno = b, info_offno = sid_offset sid (r ! b)\<rparr>, m))"
    "b \<in> set arr" "has_sid sid (r ! b)" "m = memtable_items (r ! b) ! sid_offset sid (r ! b)" "st_sid m = sid"
    "(m, bs) \<in> set es"
    by (rule find_status_memtable_present [OF rep sid])
  from split_list [OF f(6)] obtain es1 es2 where "es = es1 @ (m, bs) # es2" by blast
  moreover have "FindMemtableInsertPage sid r =
      Some (Some (memtableInsertPage m, \<lparr>info_blkno = b, info_offno = sid_offset sid (r ! b)\<rparr>))"
    by (simp only: FindMemtableInsertPage_def f(1) option.map prod.case)
  ultimately show ?thesis using that f(5,2) sid_offset_props(1) [OF f(3)] f(4) [symmetric] by blast
qed

lemma add_tuple_from_rep:
  assumes rep: "status_rep r arr (es1 @ (m, bs) # es2) fr []" and room: "length r < InvalidBlockNumber"
  obtains ip r' bs' fr' where "add_tuple_from (memtableInsertPage m) tid r = Some (ip, r')"
    "status_rep r' arr (es1 @ (m, bs') # es2) fr' []" "ip \<in> set bs'"
    "entry_view r' (es1 @ (m, bs') # es2)
      = (entry_view r (es1 @ (m, bs) # es2))(st_sid m \<mapsto> add_mset tid (entry_tuples r (m, bs)))"
    "\<And>b. b \<in> set arr \<Longrightarrow> memtable_items (r' ! b) = memtable_items (r ! b)" "length r' \<le> Suc (length r)"
proof -
  have eok: "entry_ok r (m, bs)" using status_repD(5) [OF rep, of "(m, bs)"] by simp
  then obtain ys zs where zs: "bs = ys @ memtableInsertPage m # zs"
    "chain r (memtableInsertPage m) (memtableInsertPage m # zs)"
    using chain_suffix [of r "memtablePageHead m" bs InvalidBlockNumber "memtableInsertPage m"]
    by (auto simp: entry_ok_def)
  show ?thesis
  proof (cases rule: find_room_rep [OF zs(2) list.distinct(2), of tuple_item_size])
    case (1 x)
    then have x: "x \<in> set bs" using zs(1) by auto
    from add_tuple_rep [OF rep x 1(3), of tid] obtain r' where r': "PageAddTuple x tid r = Some r'"
      "status_rep r' arr (es1 @ (m, bs) # es2) fr []"
      "entry_view r' (es1 @ (m, bs) # es2)
        = (entry_view r (es1 @ (m, bs) # es2))(st_sid m \<mapsto> add_mset tid (entry_tuples r (m, bs)))"
      "\<And>b. memtable_items (r' ! b) = memtable_items (r ! b)" "length r' = length r" by metis
    have "add_tuple_from (memtableInsertPage m) tid r = Some (x, r')"
      by (simp add: add_tuple_from_def 1(1) r'(1))
    from that [OF this r'(2) x r'(3)] r'(4,5) show ?thesis by simp
  next
    case 2
    have last: "last (memtableInsertPage m # zs) = last bs" using zs(1) by simp
    from take_page_rep [OF rep room] obtain nb r1 fr1 where r1: "take_page r = Some (nb, r1)"
      "status_rep r1 arr (es1 @ (m, bs) # es2) fr1 [nb]" "r1 ! nb = StatusInitPage"
      "entry_view r1 (es1 @ (m, bs) # es2) = entry_view r (es1 @ (m, bs) # es2)"
      "\<And>x. x \<in> set (arr @ concat (map snd (es1 @ (m, bs) # es2))) \<Longrightarrow> r1 ! x = r ! x"
      "length r1 \<le> Suc (length r)" by metis
    let ?r2 = "r1[last bs := (r1 ! last bs)\<lparr>nextblkno := nb\<rparr>]"
    note lk = link_entry [OF r1(2,3)]
    have bs: "bs \<noteq> []" using entry_pages [OF eok] by simp
    have ll: "last bs < length r1" using rep_entry_pages(4) [OF r1(2), of "last bs"] bs by simp
    have nb: "nb < length r1" "nb \<noteq> last bs" using rep_block(2) [OF r1(2), of nb] status_rep_distinct(1) [OF r1(2)] bs by auto
    have "?r2 ! nb = StatusInitPage" using nb r1(3) by simp
    then have free: "PageGetFreeSpace (?r2 ! nb) > tuple_item_size"
      by (simp add: PageGetFreeSpace_def StatusInitPage_def memtable_item_size_def tuple_item_size_def)
    have nbin: "nb \<in> set (bs @ [nb])" by simp
    from add_tuple_rep [OF lk(1) nbin free, of tid] obtain r' where r': "PageAddTuple nb tid ?r2 = Some r'"
      "status_rep r' arr (es1 @ (m, bs @ [nb]) # es2) fr1 []"
      "entry_view r' (es1 @ (m, bs @ [nb]) # es2) = (entry_view ?r2 (es1 @ (m, bs @ [nb]) # es2))
        (st_sid m \<mapsto> add_mset tid (entry_tuples ?r2 (m, bs @ [nb])))"
      "\<And>b. memtable_items (r' ! b) = memtable_items (?r2 ! b)" "length r' = length ?r2" by metis
    have run: "add_tuple_from (memtableInsertPage m) tid r = Some (nb, r')"
      unfolding add_tuple_from_def 2 last by (simp add: r1(1) upd_page_Some ll r'(1))
    have "entry_tuples ?r2 (m, bs @ [nb]) = entry_tuples r (m, bs)"
    proof -
      have "entry_view ?r2 (es1 @ (m, bs @ [nb]) # es2) (st_sid m) = Some (entry_tuples ?r2 (m, bs @ [nb]))"
        "entry_view r (es1 @ (m, bs) # es2) (st_sid m) = Some (entry_tuples r (m, bs))"
        using entry_view_mid [OF rep_entry_fresh [OF rep]] by simp_all
      then show ?thesis using lk(2) r1(4) by simp
    qed
    then have view: "entry_view r' (es1 @ (m, bs @ [nb]) # es2)
        = (entry_view r (es1 @ (m, bs) # es2))(st_sid m \<mapsto> add_mset tid (entry_tuples r (m, bs)))"
      using r'(3) lk(2) r1(4) by simp
    have "memtable_items (r' ! b) = memtable_items (r ! b)" if "b \<in> set arr" for b
    proof -
      have "b \<noteq> last bs" using rep_entry_pages(2) [OF rep] that bs by (meson disjoint_iff last_in_set)
      with r'(4) [of b] r1(5) [of b] that show ?thesis by simp
    qed
    from that [OF run r'(2) nbin view this] r'(5) r1(6) show ?thesis by simp
  qed
qed

lemma AddToStatusMemtable_rep:
  assumes rep: "status_rep r arr es fr []" and room: "length r < InvalidBlockNumber"
    and sid: "entry_view r es sid = Some ts"
  shows "\<exists>r' es' fr'. AddToStatusMemtable sid tid r = Some r' \<and> status_rep r' arr es' fr' []
    \<and> entry_view r' es' = (entry_view r es)(sid \<mapsto> add_mset tid ts) \<and> length r' \<le> Suc (length r)"
proof -
  have "sid \<in> (\<lambda>e. st_sid (fst e)) ` set es"
    using sid map_of_eq_None_iff [of "map (\<lambda>e. (st_sid (fst e), entry_tuples r e)) es" sid]
    by (auto simp: entry_view_def image_image)
  then obtain b off m bs es1 es2 where f:
    "FindMemtableInsertPage sid r = Some (Some (memtableInsertPage m, \<lparr>info_blkno = b, info_offno = off\<rparr>))"
    "es = es1 @ (m, bs) # es2" "st_sid m = sid" "b \<in> set arr" "off < length (memtable_items (r ! b))"
    "memtable_items (r ! b) ! off = m" using find_insert_page [OF rep] by metis
  note rep' = rep [unfolded f(2)]
  have ts: "ts = entry_tuples r (m, bs)"
    using sid f(2,3) entry_view_mid [OF rep_entry_fresh [OF rep']] by simp
  from add_tuple_from_rep [OF rep' room] obtain ip r1 bs1 fr1 where r1:
    "add_tuple_from (memtableInsertPage m) tid r = Some (ip, r1)"
    "status_rep r1 arr (es1 @ (m, bs1) # es2) fr1 []" "ip \<in> set bs1"
    "entry_view r1 (es1 @ (m, bs1) # es2)
      = (entry_view r (es1 @ (m, bs) # es2))(st_sid m \<mapsto> add_mset tid (entry_tuples r (m, bs)))"
    "\<And>b. b \<in> set arr \<Longrightarrow> memtable_items (r1 ! b) = memtable_items (r ! b)" "length r1 \<le> Suc (length r)"
    by metis
  have off: "off < length (memtable_items (r1 ! b))" "memtable_items (r1 ! b) ! off = m"
    using f(5,6) r1(5) [OF f(4)] by simp_all
  from update_insert_rep [OF r1(2) f(4) off r1(3)] obtain r2 m2 where r2:
    "StatusUpdateInsertPage \<lparr>info_blkno = b, info_offno = off\<rparr> ip r1 = Some r2"
    "status_rep r2 arr (es1 @ (m2, bs1) # es2) fr1 []" "length r2 = length r1"
    "entry_view r2 (es1 @ (m2, bs1) # es2) = entry_view r1 (es1 @ (m, bs1) # es2)" by metis
  show ?thesis
  proof (cases "ip = memtableInsertPage m")
    case True
    have "AddToStatusMemtable sid tid r = Some r1"
      by (simp add: AddToStatusMemtable_def f(1) r1(1) True)
    with r1(2,4,6) f(2,3) ts show ?thesis by metis
  next
    case False
    have "AddToStatusMemtable sid tid r = Some r2"
      by (simp add: AddToStatusMemtable_def f(1) r1(1) False r2(1))
    with r2(2,3,4) r1(4,6) f(2,3) ts show ?thesis by metis
  qed
qed

subsection \<open>Release\<close>

lemma mset_delete_nth: "i < length xs \<Longrightarrow> mset (delete_nth i xs) + {#xs ! i#} = mset xs"
  unfolding delete_nth_def by (subst (4) id_take_nth_drop [of i xs]) simp_all

definition entry_tail :: "fork \<Rightarrow> StatusMemtableData \<Rightarrow> nat" where
  "entry_tail r m = the (chain_tail r (memtableInsertPage m))"

lemma entry_tail:
  assumes "entry_ok r (m, bs)"
  shows "BlockNumberIsValid (memtableInsertPage m)" "chain_tail r (memtableInsertPage m) = Some (last bs)"
    "entry_tail r m = last bs"
proof -
  have c: "chain r (memtablePageHead m) bs" "memtableInsertPage m \<in> set bs" using assms by (simp_all add: entry_ok_def)
  obtain ys zs where zs: "bs = ys @ memtableInsertPage m # zs"
    "chain r (memtableInsertPage m) (memtableInsertPage m # zs)"
    by (rule chain_suffix [OF c])
  show "BlockNumberIsValid (memtableInsertPage m)" using path_blocks [OF c] by simp
  show t: "chain_tail r (memtableInsertPage m) = Some (last bs)"
    using chain_tail_eq [OF zs(2)] zs(1) by simp
  show "entry_tail r m = last bs" by (simp add: entry_tail_def t)
qed

lemma release_scan_eq:
  assumes "\<forall>m \<in> set ms. \<exists>bs. entry_ok r (m, bs)"
  shows "release_scan r sid off ms = Some
    (let k = length (takeWhile (\<lambda>m. st_sid m \<noteq> sid) ms)
     in if \<exists>m \<in> set ms. st_sid m = sid then Some (off + k, ms ! k, entry_tail r (ms ! k)) else None)"
  using assms
proof (induction ms arbitrary: off)
  case (Cons m ms)
  then obtain bs where "entry_ok r (m, bs)" by auto
  note t = entry_tail [OF this]
  from Cons show ?case by (simp add: t Let_def)
qed simp

lemma release_find_eq:
  assumes "chain r b arr" "\<forall>x \<in> set arr. \<forall>m \<in> set (memtable_items (r ! x)). \<exists>bs. entry_ok r (m, bs)"
  shows "release_find r sid b = Some (map_option
    (\<lambda>x. let m = memtable_items (r ! x) ! sid_offset sid (r ! x) in (x, sid_offset sid (r ! x), m, entry_tail r m))
    (find (\<lambda>x. has_sid sid (r ! x)) arr))"
  using assms
proof (induction arr arbitrary: b)
  case Nil
  then show ?case by (simp add: release_find.simps [of r sid])
next
  case (Cons x xs)
  from Cons.prems have b: "b = x" "BlockNumberIsValid x" "x < length r" "chain r (nextblkno (r ! x)) xs" by auto
  have "release_scan r sid 0 (memtable_items (r ! x)) = Some
      (if has_sid sid (r ! x) then Some (sid_offset sid (r ! x), memtable_items (r ! x) ! sid_offset sid (r ! x),
         entry_tail r (memtable_items (r ! x) ! sid_offset sid (r ! x))) else None)"
    using release_scan_eq [of "memtable_items (r ! x)" r sid 0] Cons.prems(2)
    by (simp add: has_sid_def sid_offset_def Let_def)
  then show ?case
    using Cons.IH [OF b(4)] Cons.prems(2) b by (simp add: release_find.simps [of r sid x] Let_def)
qed

text \<open>The chain of an entry moves to the end of the free list and its entry is deleted.\<close>

lemma move_to_free_list:
  assumes rep: "status_rep r arr (es1 @ (m, bs) # es2) fr []" and b: "b \<in> set arr"
    and off: "off < length (memtable_items (r ! b))" "memtable_items (r ! b) ! off = m"
  obtains r1 r' where "append_to_free_list (memtablePageHead m) (last bs) r = Some r1"
    "upd_page b (\<lambda>p. p\<lparr>memtable_items := delete_nth off (memtable_items p)\<rparr>) r1 = Some r'"
    "status_rep r' arr (es1 @ es2) (fr @ bs) []" "entry_view r' (es1 @ es2) = entry_view r (es1 @ es2)"
    "length r' = length r"
proof -
  note D = status_repD [OF rep] and dist = status_rep_distinct(1) [OF rep]
  have one: "Suc 0 < length r" using D(1) by simp
  have lb: "2 \<le> b" "b < length r" using rep_linked [OF rep, of b] b by simp_all
  have eok: "entry_ok r (m, bs)" using D(5) [of "(m, bs)"] by simp
  note bs = entry_pages [OF eok, simplified]
  have hd: "memtablePageHead m = hd bs" using eok bs path_head by (auto simp: entry_ok_def)
  define meta1 where "meta1 = (if fr = [] then (meta_of r)\<lparr>freePageHead := memtablePageHead m, freePageTail := last bs\<rparr>
    else (meta_of r)\<lparr>freePageTail := last bs\<rparr>)"
  define r1 where "r1 = (if fr = [] then r else r[last fr := (r ! last fr)\<lparr>nextblkno := memtablePageHead m\<rparr>])
    [1 := (r ! 1)\<lparr>page_meta := meta1\<rparr>]"
  define r' where "r' = r1[b := (r1 ! b)\<lparr>memtable_items := delete_nth off (memtable_items (r1 ! b))\<rparr>]"
  have lf: "2 \<le> last fr" "last fr < length r" "last fr \<noteq> b" if "fr \<noteq> []"
    using that rep_block(1,2) [OF rep, of "last fr"] dist b by auto
  have fh: "BlockNumberIsValid (freePageHead (meta_of r)) \<longleftrightarrow> fr \<noteq> []" "fr \<noteq> [] \<Longrightarrow> freePageTail (meta_of r) = last fr"
    using D(4) by (cases fr; auto simp: free_list_ok_def BlockNumberIsValid_def)+
  have run1: "append_to_free_list (memtablePageHead m) (last bs) r = Some r1"
    using one lf by (auto simp: append_to_free_list_def Let_def fh [unfolded STATUS_METAPAGE_BLKNO_def One_nat_def] upd_meta_Some upd_page_Some r1_def meta1_def
        STATUS_METAPAGE_BLKNO_def)
  have run2: "upd_page b (\<lambda>p. p\<lparr>memtable_items := delete_nth off (memtable_items p)\<rparr>) r1 = Some r'"
    using lb by (simp add: upd_page_Some r'_def r1_def)
  have sel: "nextblkno (r' ! x) = (if fr \<noteq> [] \<and> x = last fr then memtablePageHead m else nextblkno (r ! x))"
    "memtable_items (r' ! x) = (if x = b then delete_nth off (memtable_items (r ! b)) else memtable_items (r ! x))"
    "tuple_items (r' ! x) = tuple_items (r ! x)" "length r' = length r" "meta_of r' = meta1" for x
    using one lb lf by (auto simp: r'_def r1_def nth_list_update STATUS_METAPAGE_BLKNO_def)
  have cong: "path r c xs d \<Longrightarrow> path r' c xs d" if "fr \<noteq> [] \<Longrightarrow> last fr \<notin> set xs" for c xs d
    using that by (intro path_cong [of xs r' r]) (auto simp: sel dest: path_blocks)
  have lf_out: "last fr \<notin> set arr" "last fr \<notin> set bs" "last fr \<notin> set (concat (map snd (es1 @ es2)))" if "fr \<noteq> []"
    using that dist by auto
  have own: "chain r' (memtablePageHead m) bs"
    using eok cong [of bs] lf_out(2) by (simp add: entry_ok_def)
  have "free_list_ok r' (fr @ bs)"
  proof (cases "fr = []")
    case True
    then show ?thesis using own bs by (simp add: free_list_ok_def sel(5) meta1_def)
  next
    case False
    have "chain r' (freePageHead (meta_of r)) (fr @ bs)"
      using D(4) dist own sel(1,4) False path_blocks [of r _ fr]
      by (intro chain_join [OF _ False]) (auto simp: free_list_ok_def)
    then show ?thesis using False bs by (simp add: free_list_ok_def sel(5) meta1_def)
  qed
  moreover have "entry_ok r' e" if e: "e \<in> set (es1 @ es2)" for e
  proof -
    have "entry_ok r e" using D(5) [of e] e by auto
    moreover have "fr \<noteq> [] \<Longrightarrow> last fr \<notin> set (snd e)" using lf_out(3) e unfolding split_concat by blast
    ultimately show ?thesis using cong [of "snd e"] by (auto simp: entry_ok_def)
  qed
  moreover have items: "mset (delete_nth off (memtable_items (r ! b))) + {#m#} = mset (memtable_items (r ! b)) + {#}"
    using mset_delete_nth [OF off(1)] off(2) by simp
  have "mset (array_items r' arr) + {#m#} = mset (array_items r arr) + {#}"
    unfolding array_items_def by (rule mset_concat_upd [OF _ b]) (use dist sel items in auto)
  then have "mset (array_items r' arr) = mset (map fst (es1 @ es2))"
    by (simp add: D(6) [symmetric])
  moreover have "chain r' STATUS_MEMTABLE_ARRAY_BLKNO arr" by (rule cong [OF lf_out(1) D(3)])
  ultimately have "status_rep r' arr (es1 @ es2) (fr @ bs) []"
    using D(1,2,7,8) by (simp add: status_rep_def sel(4) ac_simps)
  moreover have "entry_view r' (es1 @ es2) = entry_view r (es1 @ es2)"
    by (rule entry_view_cong) (rule sel)
  ultimately show ?thesis using that run1 run2 sel(4) by blast
qed

lemma ReleaseStatusMemtable_rep:
  assumes rep: "status_rep r arr es fr []"
  shows "\<exists>r' es' fr'. ReleaseStatusMemtable sid r = Some r' \<and> status_rep r' arr es' fr' []
    \<and> entry_view r' es' = (entry_view r es)(sid := None) \<and> length r' = length r"
proof -
  note D = status_repD [OF rep]
  have items: "\<forall>x \<in> set arr. \<forall>m \<in> set (memtable_items (r ! x)). \<exists>bs. entry_ok r (m, bs)"
    using rep_items_iff(2) [OF rep] D(5) by blast
  note find = release_find_eq [OF D(3) items, of sid]
  show ?thesis
  proof (cases "sid \<in> (\<lambda>e. st_sid (fst e)) ` set es")
    case False
    then have "find (\<lambda>x. has_sid sid (r ! x)) arr = None"
      using rep_items_iff(1) [OF rep, of sid] by (auto simp: find_None_iff)
    then have "ReleaseStatusMemtable sid r = Some r" by (simp add: ReleaseStatusMemtable_def find)
    moreover have "entry_view r es sid = None"
      using False by (simp add: entry_view_def map_of_eq_None_iff image_image)
    ultimately show ?thesis using rep by (metis fun_upd_triv)
  next
    case True
    obtain b m bs where f: "find (\<lambda>x. has_sid sid (r ! x)) arr = Some b" "b \<in> set arr" "has_sid sid (r ! b)"
      "m = memtable_items (r ! b) ! sid_offset sid (r ! b)" "st_sid m = sid" "(m, bs) \<in> set es"
      by (rule find_status_memtable_present [OF rep True])
    from split_list [OF f(6)] obtain es1 es2 where es: "es = es1 @ (m, bs) # es2" by blast
    note rep' = rep [unfolded es]
    have "entry_ok r (m, bs)" using D(5) [OF f(6)] .
    note tail = entry_tail(3) [OF this]
    from move_to_free_list [OF rep' f(2) sid_offset_props(1) [OF f(3)] f(4) [symmetric]]
    obtain r1 r' where r': "append_to_free_list (memtablePageHead m) (last bs) r = Some r1"
      "upd_page b (\<lambda>p. p\<lparr>memtable_items := delete_nth (sid_offset sid (r ! b)) (memtable_items p)\<rparr>) r1 = Some r'"
      "status_rep r' arr (es1 @ es2) (fr @ bs) []" "entry_view r' (es1 @ es2) = entry_view r (es1 @ es2)"
      "length r' = length r" by blast
    have "ReleaseStatusMemtable sid r = Some r'"
      by (simp add: ReleaseStatusMemtable_def find f(1) Let_def flip: f(4)) (simp add: tail r'(1,2))
    moreover have "(entry_view r es)(sid := None) = entry_view r (es1 @ es2)"
    proof -
      have "entry_view r (es1 @ es2) (st_sid m) = None"
        using rep_entry_fresh [OF rep'] by (simp add: entry_view_def map_of_eq_None_iff image_image image_Un flip: map_append)
      then show ?thesis
        unfolding es entry_view_mid [OF rep_entry_fresh [OF rep']] f(5) by (simp add: fun_upd_idem)
    qed
    ultimately show ?thesis using r'(3-5) by metis
  qed
qed

subsection \<open>Removal and reading\<close>

lemma entry_view_Some:
  assumes rep: "status_rep r arr es fr []" and sid: "entry_view r es sid = Some ts"
  obtains b m bs es1 es2 where
    "find_status_memtable sid r = Some (Some (\<lparr>info_blkno = b, info_offno = sid_offset sid (r ! b)\<rparr>, m))"
    "es = es1 @ (m, bs) # es2" "st_sid m = sid" "ts = entry_tuples r (m, bs)"
    "chain r (memtablePageHead m) bs" "BlockNumberIsValid (memtablePageHead m)"
proof -
  have "sid \<in> (\<lambda>e. st_sid (fst e)) ` set es"
    using sid map_of_eq_None_iff [of "map (\<lambda>e. (st_sid (fst e), entry_tuples r e)) es" sid]
    by (auto simp: entry_view_def image_image)
  then obtain b m bs where f: "find_status_memtable sid r
      = Some (Some (\<lparr>info_blkno = b, info_offno = sid_offset sid (r ! b)\<rparr>, m))" "st_sid m = sid" "(m, bs) \<in> set es"
    by (rule find_status_memtable_present [OF rep])
  from split_list [OF f(3)] obtain es1 es2 where es: "es = es1 @ (m, bs) # es2" by blast
  have eok: "entry_ok r (m, bs)" using status_repD(5) [OF rep f(3)] .
  then have c: "chain r (memtablePageHead m) bs" "BlockNumberIsValid (memtablePageHead m)"
    using entry_pages [OF eok] by (cases bs; auto simp: entry_ok_def)+
  have "ts = entry_tuples r (m, bs)"
    using sid entry_view_mid [OF rep_entry_fresh [OF rep [unfolded es]]] f(2) by (simp add: es)
  with that f(1,2) es c show ?thesis by blast
qed

lemma entry_view_None:
  assumes rep: "status_rep r arr es fr []" and "entry_view r es sid = None"
  shows "find_status_memtable sid r = Some None"
  using find_status_memtable_absent [OF rep, of sid] assms(2)
  by (simp add: entry_view_def map_of_eq_None_iff image_image)

lemma RemoveFromStatusMemtable_rep:
  assumes rep: "status_rep r arr es fr []" and sid: "entry_view r es sid = Some ts"
  shows "\<exists>r'. RemoveFromStatusMemtable sid tid r = Some (tid \<in># ts, r') \<and> status_rep r' arr es fr []
    \<and> entry_view r' es = (entry_view r es)(sid \<mapsto> ts - {#tid#}) \<and> length r' = length r"
proof -
  obtain b m bs es1 es2 where f: "find_status_memtable sid r
      = Some (Some (\<lparr>info_blkno = b, info_offno = sid_offset sid (r ! b)\<rparr>, m))"
    "es = es1 @ (m, bs) # es2" "st_sid m = sid" "ts = entry_tuples r (m, bs)"
    "chain r (memtablePageHead m) bs" "BlockNumberIsValid (memtablePageHead m)"
    by (rule entry_view_Some [OF rep sid])
  note find = chain_find_eq [OF f(5), of "\<lambda>p. tid \<in> set (tuple_items p)"]
  show ?thesis
  proof (cases "find (\<lambda>x. tid \<in> set (tuple_items (r ! x))) bs")
    case None
    then have "tid \<notin># ts" by (auto simp: f(4) entry_tuples_def find_None_iff)
    moreover have "RemoveFromStatusMemtable sid tid r = Some (False, r)"
      by (simp add: RemoveFromStatusMemtable_def f(1,6) find None)
    ultimately show ?thesis using rep sid by (simp add: diff_single_trivial fun_upd_idem)
  next
    case (Some x)
    then have x: "x \<in> set bs" "tid \<in> set (tuple_items (r ! x))" by (auto simp: find_Some_iff)
    then have "tid \<in># ts" by (auto simp: f(4) entry_tuples_def)
    let ?ts = "remove1 tid (tuple_items (r ! x))"
    note rep' = rep [unfolded f(2)]
    have "mset ?ts + {#tid#} = mset (tuple_items (r ! x)) + {#}" using x(2) by simp
    note ct = change_tuples [OF rep' x(1) this]
    have "x < length r" using rep_entry_pages(4) [OF rep' x(1)] by simp
    then have "RemoveFromStatusMemtable sid tid r = Some (True, r[x := (r ! x)\<lparr>tuple_items := ?ts\<rparr>])"
      by (simp add: RemoveFromStatusMemtable_def f(1,6) find Some upd_page_Some)
    moreover have "entry_tuples (r[x := (r ! x)\<lparr>tuple_items := ?ts\<rparr>]) (m, bs) = ts - {#tid#}"
      using arg_cong [OF ct(3), of "\<lambda>M. M - {#tid#}"] by (simp add: f(4))
    ultimately show ?thesis using ct(1,2) f(2,3) \<open>tid \<in># ts\<close> by simp
  qed
qed

lemma GetStatusMemtableSids_rep:
  assumes rep: "status_rep r arr es fr []"
  shows "\<exists>sids. GetStatusMemtableSids r = Some sids \<and> distinct sids \<and> set sids = dom (entry_view r es)"
proof -
  let ?sids = "map st_sid (array_items r arr)"
  have run: "GetStatusMemtableSids r = Some ?sids"
    by (simp add: GetStatusMemtableSids_def chain_collect_eq [OF status_repD(3) [OF rep]] array_items_def map_concat comp_def)
  have m: "mset ?sids = mset (map (\<lambda>e. st_sid (fst e)) es)"
    using arg_cong [OF status_repD(6) [OF rep], of "image_mset st_sid"] by (simp add: image_mset.compositionality comp_def)
  have "distinct ?sids" using mset_eq_imp_distinct_iff [OF m] status_repD(7) [OF rep] by simp
  moreover have "set ?sids = dom (entry_view r es)"
    using mset_eq_setD [OF m] by (simp add: entry_view_def dom_map_of_conv_image_fst image_image)
  ultimately show ?thesis using run by blast
qed

lemma GetStatusMemtableTids_rep:
  assumes rep: "status_rep r arr es fr []"
  shows "entry_view r es sid = None \<Longrightarrow> GetStatusMemtableTids cap sid r = Some []"
    and "entry_view r es sid = Some ts \<Longrightarrow> size ts \<le> cap \<Longrightarrow>
      \<exists>tids. GetStatusMemtableTids cap sid r = Some tids \<and> mset tids = ts"
proof -
  show "GetStatusMemtableTids cap sid r = Some []" if "entry_view r es sid = None"
    by (simp add: GetStatusMemtableTids_def entry_view_None [OF rep that])
  show "\<exists>tids. GetStatusMemtableTids cap sid r = Some tids \<and> mset tids = ts"
    if sid: "entry_view r es sid = Some ts" "size ts \<le> cap"
  proof -
    obtain b m bs es1 es2 where f: "find_status_memtable sid r
        = Some (Some (\<lparr>info_blkno = b, info_offno = sid_offset sid (r ! b)\<rparr>, m))"
      "es = es1 @ (m, bs) # es2" "st_sid m = sid" "ts = entry_tuples r (m, bs)"
      "chain r (memtablePageHead m) bs" "BlockNumberIsValid (memtablePageHead m)"
      by (rule entry_view_Some [OF rep sid(1)])
    let ?tids = "concat (map (\<lambda>x. tuple_items (r ! x)) bs)"
    have ts: "mset ?tids = ts" by (simp add: f(4) entry_tuples_def)
    then have "length ?tids \<le> cap" using sid(2) by (metis size_mset)
    then have "GetStatusMemtableTids cap sid r = Some ?tids"
      by (simp add: GetStatusMemtableTids_def f(1,6) chain_collect_eq [OF f(5)])
    with ts show ?thesis by blast
  qed
qed

text \<open>The pages of a new index: the index meta page is block 0.\<close>

lemma new_index_rep:
  assumes "CreateStatusMetaPage [p] = Some r1" "InitializeStatusMemtableArray r1 = Some r"
  shows "status_rep r [2] [] [] []"
proof -
  have "r1 = [p, StatusInitPage\<lparr>page_meta := \<lparr>freePageHead = InvalidBlockNumber,
      freePageTail = InvalidBlockNumber, max_memtable_sid = 0\<rparr>\<rparr>]"
    using assms(1) by (simp add: CreateStatusMetaPage_def StatusNewBuffer_def upd_page_def InvalidBlockNumber_def)
  with assms(2) have r: "r = [p, StatusInitPage\<lparr>page_meta := \<lparr>freePageHead = InvalidBlockNumber,
      freePageTail = InvalidBlockNumber, max_memtable_sid = 0\<rparr>\<rparr>, StatusInitPage]"
    by (simp add: InitializeStatusMemtableArray_def StatusNewBuffer_def InvalidBlockNumber_def)
  have "[2..<3] = [2::nat]" by (simp add: upt_conv_Cons)
  then show ?thesis
    by (simp add: r status_rep_def StatusInitPage_def free_list_ok_def array_items_def InvalidBlockNumber_def
        STATUS_MEMTABLE_ARRAY_BLKNO_def STATUS_METAPAGE_BLKNO_def BlockNumberIsValid_def)
qed

section \<open>The log of memtable contents\<close>

text \<open>
  The interface through which the index uses the pages: named operations on a durable state and the
  abstract map they maintain. \<open>used\<close> counts what an operation may consume, \<open>lim\<close> is what there is.
\<close>

datatype status_op =
    OpRegister SegmentId
  | OpRelease SegmentId
  | OpAdd SegmentId ItemPointerData
  | OpRemove SegmentId ItemPointerData

fun spec_op :: "status_op \<Rightarrow> status_view \<Rightarrow> status_view option" where
  "spec_op (OpRegister sid) v = (if v sid = None then Some (v(sid \<mapsto> {#})) else None)"
| "spec_op (OpRelease sid) v = Some (v(sid := None))"
| "spec_op (OpAdd sid tid) v = map_option (\<lambda>ts. v(sid \<mapsto> add_mset tid ts)) (v sid)"
| "spec_op (OpRemove sid tid) v = Some (v(sid := map_option (\<lambda>ts. ts - {#tid#}) (v sid)))"

fun exec_op :: "status_op \<Rightarrow> fork \<Rightarrow> fork option" where
  "exec_op (OpRegister sid) r = RegisterStatusMemtable sid r"
| "exec_op (OpRelease sid) r = ReleaseStatusMemtable sid r"
| "exec_op (OpAdd sid tid) r = AddToStatusMemtable sid tid r"
| "exec_op (OpRemove sid tid) r = map_option snd (RemoveFromStatusMemtable sid tid r)"

locale memtable_log =
  fixes inv :: "'s \<Rightarrow> bool"
    and view :: "'s \<Rightarrow> status_view"
    and used :: "'s \<Rightarrow> nat"
    and lim :: nat
    and exec :: "status_op \<Rightarrow> 's \<Rightarrow> 's option"
  assumes exec_refines: "inv s \<Longrightarrow> spec_op op (view s) = Some v \<Longrightarrow> used s + 2 \<le> lim \<Longrightarrow>
      \<exists>s'. exec op s = Some s' \<and> inv s' \<and> view s' = v \<and> used s' \<le> used s + 2"
begin

lemma run_refines:
  assumes "inv s" "iterate_opt spec_op ops (view s) = Some v" "used s + 2 * length ops \<le> lim"
  shows "\<exists>s'. iterate_opt exec ops s = Some s' \<and> inv s' \<and> view s' = v"
  using assms
proof (induction ops arbitrary: s)
  case Nil
  then show ?case by simp
next
  case (Cons op ops)
  then obtain v1 where v1: "spec_op op (view s) = Some v1" "iterate_opt spec_op ops v1 = Some v"
    by (auto split: option.splits)
  have "used s + 2 \<le> lim" using Cons.prems(3) by simp
  from exec_refines [OF Cons.prems(1) v1(1) this] obtain s1 where s1: "exec op s = Some s1" "inv s1" "view s1 = v1"
    "used s1 \<le> used s + 2" by blast
  have "used s1 + 2 * length ops \<le> lim" using s1(4) Cons.prems(3) by simp
  from Cons.IH [OF s1(2) v1(2) [folded s1(3)] this] s1(1) show ?case by simp
qed

end

interpretation status_log: memtable_log status_inv status_map length InvalidBlockNumber exec_op
proof unfold_locales
  fix r op v
  assume "status_inv r" and spec: "spec_op op (status_map r) = Some v" and room: "length r + 2 \<le> InvalidBlockNumber"
  then obtain arr es fr where rep: "status_rep r arr es fr []" by (auto simp: status_inv_def)
  note view = status_map_view [OF rep]
  have "\<exists>r' arr' es' fr'. exec_op op r = Some r' \<and> status_rep r' arr' es' fr' []
      \<and> entry_view r' es' = v \<and> length r' \<le> length r + 2"
  proof (cases op)
    case (OpRegister sid)
    then have s: "sid \<notin> (\<lambda>e. st_sid (fst e)) ` set es" "v = (entry_view r es)(sid \<mapsto> {#})"
      using spec by (auto simp: view entry_view_def map_of_eq_None_iff image_image split: if_splits)
    have "length r + 1 < InvalidBlockNumber" using room by simp
    from RegisterStatusMemtable_rep [OF rep this s(1)] show ?thesis by (simp add: OpRegister s(2))
  next
    case (OpRelease sid)
    from ReleaseStatusMemtable_rep [OF rep, of sid] obtain r' es' fr' where
      "ReleaseStatusMemtable sid r = Some r'" "status_rep r' arr es' fr' []"
      "entry_view r' es' = (entry_view r es)(sid := None)" "length r' = length r" by blast
    moreover have "v = (entry_view r es)(sid := None)" using spec OpRelease by (simp add: view)
    ultimately show ?thesis using OpRelease by (metis exec_op.simps(2) le_add1)
  next
    case (OpAdd sid tid)
    then obtain ts where ts: "entry_view r es sid = Some ts" "v = (entry_view r es)(sid \<mapsto> add_mset tid ts)"
      using spec by (auto simp: view)
    have "length r < InvalidBlockNumber" using room by simp
    from AddToStatusMemtable_rep [OF rep this ts(1), of tid] obtain r' es' fr' where
      "AddToStatusMemtable sid tid r = Some r'" "status_rep r' arr es' fr' []"
      "entry_view r' es' = v" "length r' \<le> Suc (length r)" unfolding ts(2) by blast
    then show ?thesis by (metis OpAdd exec_op.simps(3) add_2_eq_Suc' le_SucI)
  next
    case (OpRemove sid tid)
    show ?thesis
    proof (cases "entry_view r es sid")
      case None
      then have "exec_op op r = Some r" "v = entry_view r es"
        using spec OpRemove entry_view_None [OF rep None]
        by (auto simp: RemoveFromStatusMemtable_def view fun_upd_idem)
      with rep show ?thesis by auto
    next
      case (Some ts)
      from RemoveFromStatusMemtable_rep [OF rep Some, of tid] obtain r' where
        "RemoveFromStatusMemtable sid tid r = Some (tid \<in># ts, r')" "status_rep r' arr es fr []"
        "entry_view r' es = (entry_view r es)(sid \<mapsto> ts - {#tid#})" "length r' = length r" by blast
      moreover have "v = (entry_view r es)(sid \<mapsto> ts - {#tid#})" using spec OpRemove Some by (simp add: view)
      ultimately show ?thesis using OpRemove by (metis exec_op.simps(4) le_add1 option.map(2) snd_conv)
    qed
  qed
  then show "\<exists>r'. exec_op op r = Some r' \<and> status_inv r' \<and> status_map r' = v \<and> length r' \<le> length r + 2"
    using status_map_view by (fastforce simp: status_inv_def)
qed

section \<open>Properties\<close>

text \<open>C5: (refinement) From the pages of a well-formed fork, any sequence of registrations, insertions,
  removals and releases that the abstract map allows runs to its end, and afterwards every block is in
  exactly one chain again and the pages represent the abstract result: recovery reads each registered
  segment id once and for each of them exactly the tuples that were added and neither removed nor released.\<close>

theorem status_pages_refine_map:
  assumes "status_inv r" "iterate_opt spec_op ops (status_map r) = Some v"
    and "length r + 2 * length ops \<le> InvalidBlockNumber"
  shows "\<exists>r' sids. iterate_opt exec_op ops r = Some r' \<and> status_inv r'
    \<and> GetStatusMemtableSids r' = Some sids \<and> distinct sids \<and> set sids = dom v
    \<and> (\<forall>sid. case v sid of
          None \<Rightarrow> GetStatusMemtableTids cap sid r' = Some []
        | Some ts \<Rightarrow> size ts > cap \<or> (\<exists>tids. GetStatusMemtableTids cap sid r' = Some tids \<and> mset tids = ts))"
proof -
  obtain r' where r': "iterate_opt exec_op ops r = Some r'" "status_inv r'" "status_map r' = v"
    using status_log.run_refines [OF assms] by blast
  then obtain arr es fr where rep: "status_rep r' arr es fr []" by (auto simp: status_inv_def)
  have v: "entry_view r' es = v" using status_map_view [OF rep] r'(3) by simp
  from GetStatusMemtableSids_rep [OF rep] obtain sids where
    "GetStatusMemtableSids r' = Some sids" "distinct sids" "set sids = dom v" unfolding v by blast
  moreover have "case v sid of
      None \<Rightarrow> GetStatusMemtableTids cap sid r' = Some []
    | Some ts \<Rightarrow> size ts > cap \<or> (\<exists>tids. GetStatusMemtableTids cap sid r' = Some tids \<and> mset tids = ts)" for sid
  proof (cases "v sid")
    case None
    then show ?thesis using GetStatusMemtableTids_rep(1) [OF rep, of sid cap] v by simp
  next
    case (Some ts)
    then show ?thesis using GetStatusMemtableTids_rep(2) [OF rep, of sid ts cap] v
      by (cases "size ts \<le> cap") auto
  qed
  ultimately show ?thesis using r'(1,2) by blast
qed

definition new_index_fork :: fork where
  "new_index_fork = [StatusInitPage, StatusInitPage\<lparr>page_meta := \<lparr>freePageHead = InvalidBlockNumber,
     freePageTail = InvalidBlockNumber, max_memtable_sid = 0\<rparr>\<rparr>, StatusInitPage]"

lemma new_index_fork:
  "Option.bind (CreateStatusMetaPage [StatusInitPage]) InitializeStatusMemtableArray = Some new_index_fork"
  by (simp add: CreateStatusMetaPage_def InitializeStatusMemtableArray_def StatusNewBuffer_def upd_page_def
      InvalidBlockNumber_def new_index_fork_def)

lemma new_index_fork_inv: "status_inv new_index_fork" "status_map new_index_fork = Map.empty"
proof -
  obtain r1 where "CreateStatusMetaPage [StatusInitPage] = Some r1" "InitializeStatusMemtableArray r1 = Some new_index_fork"
    using new_index_fork by (cases "CreateStatusMetaPage [StatusInitPage]") auto
  note rep = new_index_rep [OF this]
  then show "status_inv new_index_fork" by (auto simp: status_inv_def)
  show "status_map new_index_fork = Map.empty"
    using status_map_view [OF rep] by (simp add: entry_view_def)
qed

definition tid_a :: ItemPointerData where "tid_a = \<lparr>ip_blkid = 1, ip_posid = 1\<rparr>"
definition tid_b :: ItemPointerData where "tid_b = \<lparr>ip_blkid = 1, ip_posid = 2\<rparr>"

theorem status_pages_refine_map_witness:
  "\<exists>r' sids tids. iterate_opt exec_op [OpRegister 4, OpAdd 4 tid_a, OpAdd 4 tid_b, OpRemove 4 tid_a] new_index_fork = Some r'
    \<and> status_inv r' \<and> GetStatusMemtableSids r' = Some sids \<and> set sids = {4}
    \<and> GetStatusMemtableTids 2 4 r' = Some tids \<and> mset tids = {#tid_b#}"
proof -
  let ?ops = "[OpRegister 4, OpAdd 4 tid_a, OpAdd 4 tid_b, OpRemove 4 tid_a]"
  have "iterate_opt spec_op ?ops (status_map new_index_fork) = Some [4 \<mapsto> {#tid_b#}]"
    by (simp add: new_index_fork_inv tid_a_def tid_b_def)
  moreover have "length new_index_fork + 2 * length ?ops \<le> InvalidBlockNumber"
    by (simp add: new_index_fork_def InvalidBlockNumber_def)
  ultimately obtain r' sids where r: "iterate_opt exec_op ?ops new_index_fork = Some r'" "status_inv r'"
    "GetStatusMemtableSids r' = Some sids" "set sids = dom [4 \<mapsto> {#tid_b#}]"
    "\<forall>sid. case [4 \<mapsto> {#tid_b#}] sid of
          None \<Rightarrow> GetStatusMemtableTids 2 sid r' = Some []
        | Some ts \<Rightarrow> size ts > 2 \<or> (\<exists>tids. GetStatusMemtableTids 2 sid r' = Some tids \<and> mset tids = ts)"
    using status_pages_refine_map [OF new_index_fork_inv(1), of ?ops _ 2] by blast
  from r(5) [rule_format, of 4] have "\<exists>tids. GetStatusMemtableTids 2 4 r' = Some tids \<and> mset tids = {#tid_b#}" by simp
  then show ?thesis using r(1-4) by auto
qed

text \<open>
  The offset that \<^verbatim>\<open>FindMemtableInsertPage\<close> remembers is used after its lock is gone. When another
  backend releases an earlier entry of the same array page in between, the update moves the insert page of
  the entry behind it into the chain of the wrong memtable.
\<close>

definition shifted_entries :: fork where
  "shifted_entries =
     (let e = \<lambda>b sid. \<lparr>memtablePageHead = b, memtableInsertPage = b, st_sid = sid\<rparr>
      in new_index_fork [2 := StatusInitPage\<lparr>memtable_items := [e 3 4, e 4 5, e 5 6]\<rparr>]
        @ [StatusInitPage, StatusInitPage\<lparr>nextblkno := 6\<rparr>, StatusInitPage, StatusInitPage])"

lemma stale_offset_moves_wrong_entry:
  assumes "FindMemtableInsertPage 5 shifted_entries = Some (Some (4, info))"
    and "ReleaseStatusMemtable 4 shifted_entries = Some r1" and "StatusUpdateInsertPage info 6 r1 = Some r2"
  shows "map (\<lambda>m. (st_sid m, memtableInsertPage m)) (memtable_items (r2 ! 2)) = [(5, 4), (6, 6)]"
proof -
  have find: "chain_find (has_sid 5) shifted_entries 2 = Some (Some 2)"
    by (subst chain_find.simps) (simp add: shifted_entries_def new_index_fork_def BlockNumberIsValid_def
        InvalidBlockNumber_def has_sid_def StatusInitPage_def Let_def)
  have info: "info = \<lparr>info_blkno = 2, info_offno = 1\<rparr>"
    using assms(1) by (simp add: FindMemtableInsertPage_def find_status_memtable_def find STATUS_MEMTABLE_ARRAY_BLKNO_def
        Let_def) (simp add: shifted_entries_def new_index_fork_def StatusInitPage_def sid_offset_def Let_def)
  have tail: "chain_tail shifted_entries 3 = Some 3"
    by (subst chain_tail.simps) (simp add: shifted_entries_def new_index_fork_def BlockNumberIsValid_def
        InvalidBlockNumber_def StatusInitPage_def Let_def)
  have rel: "release_find shifted_entries 4 2 = Some (Some (2, 0,
      \<lparr>memtablePageHead = 3, memtableInsertPage = 3, st_sid = 4\<rparr>, 3))"
    by (subst release_find.simps) (simp add: shifted_entries_def new_index_fork_def BlockNumberIsValid_def
        InvalidBlockNumber_def StatusInitPage_def Let_def tail [unfolded shifted_entries_def new_index_fork_def
          StatusInitPage_def InvalidBlockNumber_def Let_def, simplified])
  show ?thesis
    using assms(2,3) unfolding info
    by (simp add: ReleaseStatusMemtable_def STATUS_MEMTABLE_ARRAY_BLKNO_def rel append_to_free_list_def
        STATUS_METAPAGE_BLKNO_def upd_meta_def upd_page_def StatusUpdateInsertPage_def Let_def split: if_splits)
      (auto simp: shifted_entries_def new_index_fork_def StatusInitPage_def Let_def delete_nth_def
        BlockNumberIsValid_def InvalidBlockNumber_def split: if_splits)
qed

end
