(* ===== verification/MemtableRegistry.thy ===== *)
theory MemtableRegistry
  imports Search StatusPage
begin

text \<open>
  The life cycle of an index's memtables (\<^verbatim>\<open>lsmindex.c\<close>, \<^verbatim>\<open>lsmbackground.c\<close>): registration in the shared
  buffer, insertion, rotation of the growing memtable, flushing by the background worker, and the release
  of status pages. First the sections of code that run under one lock, as functions; then all backends and
  workers together as a step relation. The status pages are represented by the map they refine
  (theory \<open>StatusPage\<close>), a segment on disk by its tids.
\<close>

section \<open>Locked sections\<close>

definition alloc_segment_id :: "LSMIndexData \<Rightarrow> SegmentId \<times> LSMIndexData" where
  "alloc_segment_id lsm = (next_segment_id lsm, lsm\<lparr>next_segment_id := next_segment_id lsm + 1\<rparr>)"

text \<open>
  \<^verbatim>\<open>register_and_set_memtable\<close>: \<open>Some (-1, ...)\<close> when no slot is free. \<open>given\<close> is the id that recovery
  passes; without it an id is allocated and the memtable is registered in the status pages.
\<close>

definition register_and_set_memtable ::
  "nat \<Rightarrow> SegmentId option \<Rightarrow> LSMIndexData \<Rightarrow> MemtableBufferSlot list \<Rightarrow> status_view
     \<Rightarrow> (int \<times> LSMIndexData \<times> MemtableBufferSlot list \<times> status_view) option" where
  "register_and_set_memtable limit given lsm buf status =
     (case first_from (\<lambda>i. mb_ref_count (buf ! i) = 0) 0 MEMTABLE_BUF_SIZE of
        None \<Rightarrow> Some (-1, lsm, buf, status)
      | Some i \<Rightarrow>
          (let (sid, lsm) = (case given of Some sid \<Rightarrow> (sid, lsm) | None \<Rightarrow> alloc_segment_id lsm) in
           case reset_memtable limit (indexRelId lsm) sid (lx_dim lsm) (lx_elem_size lsm) (mb_mt (buf ! i)) of
             None \<Rightarrow> None
           | Some mt \<Rightarrow>
               (let buf = buf[i := \<lparr>mb_ref_count = 1, mb_mt = mt\<rparr>] in
                case given of
                  Some _ \<Rightarrow> Some (int i, lsm, buf, status)
                | None \<Rightarrow> map_option (\<lambda>status. (int i, lsm, buf, status)) (spec_op (OpRegister sid) status))))"

text \<open>One look of \<^verbatim>\<open>enqueue_sealed_memtable\<close>; \<open>None\<close> sleeps and looks again.\<close>

definition enqueue_sealed_memtable :: "int \<Rightarrow> LSMIndexData \<Rightarrow> LSMIndexData option" where
  "enqueue_sealed_memtable i lsm =
     (if memtable_count lsm < MEMTABLE_NUM
      then Some (lsm\<lparr>memtable_idxs := (memtable_idxs lsm)[memtable_count lsm := i], memtable_count := memtable_count lsm + 1\<rparr>)
      else None)"

text \<open>The first locked section of \<^verbatim>\<open>rotate_growing_memtable\<close>.\<close>

datatype rotate_look = RotWait | RotError | RotNotSealed | RotStart int LSMIndexData

definition rotate_begin :: "bool \<Rightarrow> LSMIndexData \<Rightarrow> MemtableBufferSlot list \<Rightarrow> rotate_look" where
  "rotate_begin need_enqueue lsm buf =
     (let cur_idx = growing_memtable_idx lsm in
      if cur_idx = MT_IDX_ROTATING then RotWait
      else if cur_idx \<ge> int MEMTABLE_BUF_SIZE then RotError
      else if need_enqueue then
        (if cur_idx < 0 then RotError
         else let cur = MT_FROM_SLOTIDX buf cur_idx in
           if \<not> mt_sealed cur then RotNotSealed
           else RotStart cur_idx (lsm\<lparr>growing_memtable_id := memtable_id cur, growing_memtable_idx := MT_IDX_ROTATING\<rparr>))
      else RotStart cur_idx (lsm\<lparr>growing_memtable_idx := MT_IDX_ROTATING\<rparr>))"

definition rotate_install :: "int \<Rightarrow> MemtableBufferSlot list \<Rightarrow> LSMIndexData \<Rightarrow> LSMIndexData" where
  "rotate_install new_idx buf lsm =
     lsm\<lparr>growing_memtable_idx := new_idx, growing_memtable_id := memtable_id (MT_FROM_SLOTIDX buf new_idx)\<rparr>"

text \<open>One pass of the insert loop under the shared lock: what to do next, and the buffer after it.\<close>

datatype insert_look = InsWait | InsError | InsRotate bool | InsReserved int nat

definition insert_reserve :: "LSMIndexData \<Rightarrow> MemtableBufferSlot list \<Rightarrow> insert_look \<times> MemtableBufferSlot list" where
  "insert_reserve lsm buf =
     (let gidx = growing_memtable_idx lsm in
      if gidx = MT_IDX_ROTATING then (InsWait, buf)
      else if gidx = MT_IDX_INVALID then (InsRotate False, buf)
      else if gidx \<ge> int MEMTABLE_BUF_SIZE \<or> gidx < 0 then (InsError, buf)
      else
        (case reserve_slot (MT_FROM_SLOTIDX buf gidx) of
           (mt, i) \<Rightarrow> (if i \<noteq> NO_SLOT then InsReserved gidx i else InsRotate True, upd_mt gidx (\<lambda>_. mt) buf)))"

definition write_row :: "nat \<Rightarrow> i64 \<Rightarrow> u8 list \<Rightarrow> MemTable \<Rightarrow> MemTable option" where
  "write_row i tid vec mt =
     map_option (\<lambda>blob. mt\<lparr>mt_tids := (mt_tids mt)[i := tid], vector_blob := blob\<rparr>)
       (memcpy_at (vector_blob mt) (VEC_PTR_AT mt i) vec)"

text \<open>Release of the status pages of flushed memtables, under \<^verbatim>\<open>flushed_release_lock\<close>.\<close>

definition release_flushed :: "LSMIndexData \<Rightarrow> status_view \<Rightarrow> LSMIndexData \<times> status_view" where
  "release_flushed lsm status =
     (lsm\<lparr>flushed_not_released_count := 0\<rparr>,
      foldl (\<lambda>st sid. st(sid := None)) status
        (take (min (flushed_not_released_count lsm) MEMTABLE_NUM) (flushed_not_released lsm)))"

subsection \<open>The background worker\<close>

text \<open>One scan of \<^verbatim>\<open>claim_immutable_for_flush\<close>: the first memtable whose claim is free.\<close>

definition claim_immutable_for_flush ::
  "LSMIndexData \<Rightarrow> MemtableBufferSlot list \<Rightarrow> (int \<times> MemtableBufferSlot list) option" where
  "claim_immutable_for_flush lsm buf =
     (case find (\<lambda>i. \<not> flush_claimed (MT_FROM_SLOTIDX buf i)) (take (memtable_count lsm) (memtable_idxs lsm)) of
        None \<Rightarrow> None
      | Some i \<Rightarrow> Some (i, upd_mt i (\<lambda>mt. mt\<lparr>flush_claimed := True\<rparr>) buf))"

definition flushed_tids :: "MemTable \<Rightarrow> i64 list" where
  "flushed_tids mt = take (valid_rows mt) (mt_tids mt)"

definition track_flushed :: "SegmentId \<Rightarrow> LSMIndexData \<Rightarrow> LSMIndexData" where
  "track_flushed sid lsm =
     (let n = flushed_not_released_count lsm in
      if n < MEMTABLE_NUM
      then lsm\<lparr>flushed_not_released := (flushed_not_released lsm)[n := sid], flushed_not_released_count := n + 1\<rparr>
      else lsm)"

text \<open>\<^verbatim>\<open>handoff_unlink\<close>: the entries behind the removed one move up; the array keeps its length.\<close>

definition remove_at :: "nat \<Rightarrow> nat \<Rightarrow> int list \<Rightarrow> int list" where
  "remove_at pos n xs = take pos xs @ drop (Suc pos) (take n xs) @ drop (n - 1) xs"

definition handoff_unlink :: "int \<Rightarrow> LSMIndexData \<Rightarrow> LSMIndexData option" where
  "handoff_unlink mt_idx lsm =
     (case first_from (\<lambda>p. memtable_idxs lsm ! p = mt_idx) 0 (memtable_count lsm) of
        None \<Rightarrow> None
      | Some pos \<Rightarrow>
          Some (lsm\<lparr>memtable_idxs := remove_at pos (memtable_count lsm) (memtable_idxs lsm),
                  memtable_count := memtable_count lsm - 1\<rparr>))"

definition release_memtable_slot :: "int \<Rightarrow> MemtableBufferSlot list \<Rightarrow> MemtableBufferSlot list" where
  "release_memtable_slot i buf = shift_ref (-1) buf i"

section \<open>Backends and workers together\<close>

text \<open>What a process is in the middle of, with its local variables.\<close>

datatype proc =
    PIdle
  | PReserved int nat i64 "u8 list"     \<comment> \<open>an inserter that holds a slot of a memtable\<close>
  | PLogged int nat i64                 \<comment> \<open>row written and added to the status page\<close>
  | PRotate bool                        \<comment> \<open>about to call \<^verbatim>\<open>rotate_growing_memtable(need_enqueue)\<close>\<close>
  | PAllocate bool int                  \<comment> \<open>\<^verbatim>\<open>MT_IDX_ROTATING\<close> is set; the former growing index\<close>
  | PEnqueue int int                    \<comment> \<open>former and new growing index\<close>
  | PInstall int
  | PClaimed int                        \<comment> \<open>the flush worker, by stage\<close>
  | PFlushed int SegmentId
  | PLoaded int SegmentId
  | PTracked int
  | PUnlinked int
  | PSearch "int list"                  \<comment> \<open>references a search still holds\<close>

text \<open>
  \<open>base\<close>, \<open>foreign\<close> and \<open>hist\<close> are not in the code: the slots whose first reference this index holds, the
  references other indexes hold on a slot, and the rows whose insertion has returned.
\<close>

record Registry =
  reg_buf :: "MemtableBufferSlot list"
  reg_lsm :: LSMIndexData
  reg_status :: status_view
  reg_disk :: "SegmentId \<rightharpoonup> i64 list"
  reg_pool :: "SegmentId set"
  reg_procs :: "proc multiset"
  base :: "int set"
  foreign :: "int \<Rightarrow> nat"
  hist :: "(SegmentId \<times> i64) set"

abbreviation mt_of :: "Registry \<Rightarrow> int \<Rightarrow> MemTable" where
  "mt_of s i \<equiv> MT_FROM_SLOTIDX (reg_buf s) i"

inductive reg_step :: "nat \<Rightarrow> Registry \<Rightarrow> Registry \<Rightarrow> bool" for limit where
  reserve: "reg_procs s = add_mset PIdle M \<Longrightarrow> insert_reserve (reg_lsm s) (reg_buf s) = (InsReserved i slot, buf) \<Longrightarrow>
    reg_step limit s (s\<lparr>reg_buf := buf, reg_procs := add_mset (PReserved i slot tid vec) M\<rparr>)"
| insert_rotate: "reg_procs s = add_mset PIdle M \<Longrightarrow> insert_reserve (reg_lsm s) (reg_buf s) = (InsRotate need, buf) \<Longrightarrow>
    reg_step limit s (s\<lparr>reg_buf := buf, reg_procs := add_mset (PRotate need) M\<rparr>)"
| log: "reg_procs s = add_mset (PReserved i slot tid vec) M \<Longrightarrow> write_row slot tid vec (mt_of s i) = Some mt \<Longrightarrow>
    spec_op (OpAdd (memtable_id (mt_of s i)) (Int64ToItemPointer tid)) (reg_status s) = Some status \<Longrightarrow>
    reg_step limit s (s\<lparr>reg_buf := upd_mt i (\<lambda>_. mt) (reg_buf s), reg_status := status,
      reg_procs := add_mset (PLogged i slot tid) M\<rparr>)"
| publish: "reg_procs s = add_mset (PLogged i slot tid) M \<Longrightarrow>
    reg_step limit s (s\<lparr>reg_buf := upd_mt i (\<lambda>mt. publish_slot_release mt slot) (reg_buf s),
      reg_procs := add_mset PIdle M, hist := insert (memtable_id (mt_of s i), tid) (hist s)\<rparr>)"
| rotate_skip: "reg_procs s = add_mset (PRotate need) M \<Longrightarrow> rotate_begin need (reg_lsm s) (reg_buf s) \<noteq> RotError \<Longrightarrow>
    reg_step limit s (s\<lparr>reg_procs := add_mset PIdle M\<rparr>)"
| rotate: "reg_procs s = add_mset (PRotate need) M \<Longrightarrow> rotate_begin need (reg_lsm s) (reg_buf s) = RotStart cur lsm \<Longrightarrow>
    reg_step limit s (s\<lparr>reg_lsm := lsm, reg_procs := add_mset (PAllocate need cur) M\<rparr>)"
| allocate: "reg_procs s = add_mset (PAllocate need cur) M \<Longrightarrow>
    register_and_set_memtable limit None (reg_lsm s) (reg_buf s) (reg_status s) = Some (new, lsm, buf, status) \<Longrightarrow>
    0 \<le> new \<Longrightarrow> next_segment_id (reg_lsm s) < UINT32_MAX \<Longrightarrow>
    reg_step limit s (s\<lparr>reg_lsm := lsm, reg_buf := buf, reg_status := status, base := insert new (base s),
      reg_procs := add_mset (if need then PEnqueue cur new else PInstall new) M\<rparr>)"
| enqueue: "reg_procs s = add_mset (PEnqueue cur new) M \<Longrightarrow> enqueue_sealed_memtable cur (reg_lsm s) = Some lsm \<Longrightarrow>
    reg_step limit s (s\<lparr>reg_lsm := lsm, reg_procs := add_mset (PInstall new) M\<rparr>)"
| install: "reg_procs s = add_mset (PInstall new) M \<Longrightarrow>
    reg_step limit s (s\<lparr>reg_lsm := rotate_install new (reg_buf s) (reg_lsm s), reg_procs := add_mset PIdle M\<rparr>)"
| claim: "reg_procs s = add_mset PIdle M \<Longrightarrow> claim_immutable_for_flush (reg_lsm s) (reg_buf s) = Some (i, buf) \<Longrightarrow>
    reg_step limit s (s\<lparr>reg_buf := buf, reg_procs := add_mset (PClaimed i) M\<rparr>)"
| flush_error: "reg_procs s = add_mset (PClaimed i) M \<Longrightarrow> reg_step limit s (s\<lparr>reg_procs := M\<rparr>)"
| flush: "reg_procs s = add_mset (PClaimed i) M \<Longrightarrow> wait_for_publish_poll (mt_of s i) = Inr True \<Longrightarrow>
    reg_step limit s (s\<lparr>reg_disk := (reg_disk s)(memtable_id (mt_of s i) \<mapsto> flushed_tids (mt_of s i)),
      reg_procs := add_mset (PFlushed i (memtable_id (mt_of s i))) M\<rparr>)"
| load: "reg_procs s = add_mset (PFlushed i sid) M \<Longrightarrow>
    reg_step limit s (s\<lparr>reg_pool := insert sid (reg_pool s), reg_procs := add_mset (PLoaded i sid) M\<rparr>)"
| load_failed: "reg_procs s = add_mset (PFlushed i sid) M \<Longrightarrow>
    reg_step limit s (s\<lparr>reg_procs := add_mset (PLoaded i sid) M\<rparr>)"
| track: "reg_procs s = add_mset (PLoaded i sid) M \<Longrightarrow>
    reg_step limit s (s\<lparr>reg_lsm := track_flushed sid (reg_lsm s), reg_procs := add_mset (PTracked i) M\<rparr>)"
| unlink: "reg_procs s = add_mset (PTracked i) M \<Longrightarrow> handoff_unlink i (reg_lsm s) = Some lsm \<Longrightarrow>
    reg_step limit s (s\<lparr>reg_lsm := lsm, reg_procs := add_mset (PUnlinked i) M\<rparr>)"
| release: "reg_procs s = add_mset (PUnlinked i) M \<Longrightarrow>
    reg_step limit s (s\<lparr>reg_buf := release_memtable_slot i (reg_buf s), base := base s - {i},
      reg_procs := add_mset PIdle M\<rparr>)"
| release_status: "release_flushed (reg_lsm s) (reg_status s) = (lsm, status) \<Longrightarrow>
    reg_step limit s (s\<lparr>reg_lsm := lsm, reg_status := status\<rparr>)"
| search: "reg_procs s = add_mset PIdle M \<Longrightarrow> take_snapshot (reg_lsm s) (reg_buf s) = Some (snap, buf) \<Longrightarrow>
    reg_step limit s (s\<lparr>reg_buf := buf, reg_procs := add_mset (PSearch (gidx snap # sidxs snap)) M\<rparr>)"
| search_release: "reg_procs s = add_mset (PSearch (i # is)) M \<Longrightarrow>
    reg_step limit s (s\<lparr>reg_buf := shift_ref (-1) (reg_buf s) i, reg_procs := add_mset (PSearch is) M\<rparr>)"
| search_end: "reg_procs s = add_mset (PSearch []) M \<Longrightarrow> reg_step limit s (s\<lparr>reg_procs := add_mset PIdle M\<rparr>)"
| foreign_claim: "0 \<le> i \<Longrightarrow> nat i < length (reg_buf s) \<Longrightarrow> mb_ref_count (reg_buf s ! nat i) = 0 \<Longrightarrow>
    length (mt_tids mt) = MEMTABLE_MAX_CAPACITY \<Longrightarrow> length (mt_ready mt) = MEMTABLE_MAX_CAPACITY \<Longrightarrow>
    reg_step limit s (s\<lparr>reg_buf := (reg_buf s)[nat i := \<lparr>mb_ref_count = 1, mb_mt = mt\<rparr>], foreign := (foreign s)(i := 1)\<rparr>)"
| foreign_release: "0 < foreign s i \<Longrightarrow>
    reg_step limit s (s\<lparr>reg_buf := shift_ref (-1) (reg_buf s) i, foreign := (foreign s)(i := foreign s i - 1)\<rparr>)"

section \<open>Who refers to a slot\<close>

definition sum_over :: "(proc \<Rightarrow> 'a \<Rightarrow> nat) \<Rightarrow> proc multiset \<Rightarrow> 'a \<Rightarrow> nat" where
  "sum_over f M x = sum_mset (image_mset (\<lambda>p. f p x) M)"

lemma sum_over_add [simp]: "sum_over f (add_mset p M) x = f p x + sum_over f M x"
  by (simp add: sum_over_def)

fun proc_pins :: "proc \<Rightarrow> int \<Rightarrow> nat" where
  "proc_pins (PSearch is) i = count_list is i"
| "proc_pins _ i = 0"

fun proc_owns :: "proc \<Rightarrow> int \<Rightarrow> nat" where
  "proc_owns (PAllocate need cur) i = of_bool (need \<and> i = cur)"
| "proc_owns (PEnqueue cur new) i = of_bool (i = cur) + of_bool (i = new)"
| "proc_owns (PInstall new) i = of_bool (i = new)"
| "proc_owns (PUnlinked j) i = of_bool (i = j)"
| "proc_owns _ i = 0"

fun proc_claims :: "proc \<Rightarrow> int \<Rightarrow> nat" where
  "proc_claims (PClaimed j) i = of_bool (i = j)"
| "proc_claims (PFlushed j sid) i = of_bool (i = j)"
| "proc_claims (PLoaded j sid) i = of_bool (i = j)"
| "proc_claims (PTracked j) i = of_bool (i = j)"
| "proc_claims _ i = 0"

fun proc_rotates :: "proc \<Rightarrow> unit \<Rightarrow> nat" where
  "proc_rotates (PAllocate need cur) u = 1"
| "proc_rotates (PEnqueue cur new) u = 1"
| "proc_rotates (PInstall new) u = 1"
| "proc_rotates _ u = 0"

definition queue :: "LSMIndexData \<Rightarrow> int list" where
  "queue lsm = take (memtable_count lsm) (memtable_idxs lsm)"

definition slot_owners :: "Registry \<Rightarrow> int \<Rightarrow> nat" where
  "slot_owners s i = of_bool (growing_memtable_idx (reg_lsm s) = i \<and> 0 \<le> i) + count_list (queue (reg_lsm s)) i
     + sum_over proc_owns (reg_procs s) i"

text \<open>
  Every reference count is accounted for, a slot this index holds has at most one owner, a flush worker
  only works on claimed memtables of the queue, and at most one rotation is in progress.
\<close>

definition in_buf :: "int \<Rightarrow> bool" where "in_buf i \<longleftrightarrow> 0 \<le> i \<and> nat i < MEMTABLE_BUF_SIZE"

definition refs_exact :: "Registry \<Rightarrow> bool" where
  "refs_exact s \<longleftrightarrow>
     length (reg_buf s) = MEMTABLE_BUF_SIZE
     \<and> (\<forall>i. i \<in> base s \<or> 0 < foreign s i \<or> 0 < sum_over proc_pins (reg_procs s) i \<longrightarrow> in_buf i)
     \<and> (\<forall>i. i \<in> base s \<longrightarrow> foreign s i = 0)
     \<and> (\<forall>i. in_buf i \<longrightarrow> mb_ref_count (reg_buf s ! nat i)
          = of_bool (i \<in> base s) + int (sum_over proc_pins (reg_procs s) i) + int (foreign s i))"

definition owners_unique :: "Registry \<Rightarrow> bool" where
  "owners_unique s \<longleftrightarrow>
     length (memtable_idxs (reg_lsm s)) = MEMTABLE_NUM \<and> memtable_count (reg_lsm s) \<le> MEMTABLE_NUM
     \<and> (\<forall>i. slot_owners s i \<le> of_bool (i \<in> base s))
     \<and> (\<forall>i. sum_over proc_claims (reg_procs s) i \<le> count_list (queue (reg_lsm s)) i)
     \<and> (\<forall>i. 0 < sum_over proc_claims (reg_procs s) i \<longrightarrow> flush_claimed (mt_of s i))
     \<and> sum_over proc_rotates (reg_procs s) () = of_bool (growing_memtable_idx (reg_lsm s) = MT_IDX_ROTATING)"

lemma MT_FROM_SLOTIDX_upd:
  "length buf = MEMTABLE_BUF_SIZE \<Longrightarrow> in_buf i \<Longrightarrow> in_buf j \<Longrightarrow>
     MT_FROM_SLOTIDX (upd_mt i f buf) j = (if j = i then f (MT_FROM_SLOTIDX buf i) else MT_FROM_SLOTIDX buf j)"
  by (auto simp: MT_FROM_SLOTIDX_def upd_mt_def in_buf_def nth_list_update)

lemma length_upd_mt [simp]: "length (upd_mt i f buf) = length buf"
  by (simp add: upd_mt_def)

lemma ref_count_upd_mt [simp]: "mb_ref_count (upd_mt i f buf ! j) = mb_ref_count (buf ! j)"
  by (cases "nat i < length buf") (auto simp: upd_mt_def nth_list_update list_update_beyond)

text \<open>A slot with an owner is held by the index.\<close>

lemma owned_in_base:
  assumes "owners_unique s" "0 < slot_owners s i"
  shows "i \<in> base s" "slot_owners s i = 1"
proof -
  have "slot_owners s i \<le> of_bool (i \<in> base s)" using assms(1) by (simp add: owners_unique_def)
  then show "i \<in> base s" "slot_owners s i = 1" using assms(2) by (cases "i \<in> base s"; simp)+
qed

lemma growing_owned: "owners_unique s \<Longrightarrow> growing_memtable_idx (reg_lsm s) = i \<Longrightarrow> 0 \<le> i \<Longrightarrow> i \<in> base s"
  by (rule owned_in_base(1)) (auto simp: slot_owners_def)

lemma queue_owned: "owners_unique s \<Longrightarrow> i \<in> set (queue (reg_lsm s)) \<Longrightarrow> i \<in> base s"
  by (rule owned_in_base(1)) (auto simp: slot_owners_def count_list_0_iff)

lemma proc_owned: "owners_unique s \<Longrightarrow> reg_procs s = add_mset p M \<Longrightarrow> 0 < proc_owns p i \<Longrightarrow> i \<in> base s"
  by (rule owned_in_base(1)) (auto simp: slot_owners_def)

lemma claimed_queued: "owners_unique s \<Longrightarrow> reg_procs s = add_mset p M \<Longrightarrow> 0 < proc_claims p i \<Longrightarrow> i \<in> set (queue (reg_lsm s))"
  unfolding owners_unique_def
  by (metis add_gr_0 count_notin leD sum_over_add zero_less_iff_neq_zero)

text \<open>Changing a memtable in place, and moving one process, keep the references.\<close>

lemma refs_exact_upd:
  assumes "refs_exact s" "sum_over proc_pins M' = sum_over proc_pins (reg_procs s)"
  shows "refs_exact (s\<lparr>reg_buf := upd_mt i f (reg_buf s), reg_procs := M'\<rparr>)"
  using assms by (simp add: refs_exact_def)

lemma refs_exact_cong:
  assumes "refs_exact s" "reg_buf s' = reg_buf s" "sum_over proc_pins (reg_procs s') = sum_over proc_pins (reg_procs s)"
    "base s' = base s" "foreign s' = foreign s"
  shows "refs_exact s'"
  using assms by (simp add: refs_exact_def)

lemma sum_over_swap: "f p = f q \<Longrightarrow> sum_over f (add_mset p M) = sum_over f (add_mset q M)"
  by (simp add: fun_eq_iff)

lemma register_SomeD:
  assumes "register_and_set_memtable limit None lsm buf status = Some (new, lsm', buf', status')" "0 \<le> new"
  obtains mt where "in_buf new" "mb_ref_count (buf ! nat new) = 0"
    "reset_memtable limit (indexRelId lsm) (next_segment_id lsm) (lx_dim lsm) (lx_elem_size lsm)
       (MT_FROM_SLOTIDX buf new) = Some mt"
    "lsm' = lsm\<lparr>next_segment_id := next_segment_id lsm + 1\<rparr>"
    "buf' = buf[nat new := \<lparr>mb_ref_count = 1, mb_mt = mt\<rparr>]"
    "status (next_segment_id lsm) = None" "status' = status(next_segment_id lsm \<mapsto> {#})"
proof (cases "first_from (\<lambda>i. mb_ref_count (buf ! i) = 0) 0 MEMTABLE_BUF_SIZE")
  case None
  then show ?thesis using assms by (simp add: register_and_set_memtable_def)
next
  case (Some i)
  with first_from_SomeD [OF Some] assms that show ?thesis
    by (auto simp: register_and_set_memtable_def alloc_segment_id_def in_buf_def MT_FROM_SLOTIDX_def
        split: option.splits if_splits)
qed

lemma shift_ref_count:
  "refs_exact s \<Longrightarrow> in_buf j \<Longrightarrow> in_buf i \<Longrightarrow>
     mb_ref_count (shift_ref d (reg_buf s) i ! nat j) = mb_ref_count (reg_buf s ! nat j) + (if j = i then d else 0)"
  by (auto simp: refs_exact_def in_buf_def shift_ref_at)

lemma count_list_nat:
  "in_buf j \<Longrightarrow> \<forall>i \<in> set is. in_buf i \<Longrightarrow> length (filter (\<lambda>i. nat i = nat j) is) = count_list is j"
  by (induction "is") (auto simp: in_buf_def)

lemma refs_exact_step:
  assumes step: "reg_step limit s s'" and inv: "refs_exact s" "owners_unique s"
  shows "refs_exact s'"
  using step
proof (cases rule: reg_step.cases)
  case (reserve M i slot buf tid vec)
  then show ?thesis using inv(1)
    by (auto simp: refs_exact_def insert_reserve_def Let_def split: if_splits prod.splits)
next
  case (insert_rotate M need buf)
  then show ?thesis using inv(1)
    by (auto simp: refs_exact_def insert_reserve_def Let_def split: if_splits prod.splits)
next
  case (allocate need cur M new lsm buf status)
  from allocate(3,4) obtain mt where new: "in_buf new" "mb_ref_count (reg_buf s ! nat new) = 0"
    "buf = (reg_buf s)[nat new := \<lparr>mb_ref_count = 1, mb_mt = mt\<rparr>]" by (rule register_SomeD)
  with inv(1) have none: "new \<notin> base s" "sum_over proc_pins (reg_procs s) new = 0" "foreign s new = 0"
    by (auto simp: refs_exact_def of_bool_def split: if_splits)
  show ?thesis using inv(1) new none
    by (auto simp: allocate(1,2) refs_exact_def in_buf_def nth_list_update)
next
  case (release i M)
  have i: "i \<in> base s" using proc_owned [OF inv(2) release(2), of i] by simp
  then have "in_buf i" using inv(1) by (auto simp: refs_exact_def)
  then show ?thesis using inv(1) i shift_ref_count [OF inv(1)] release(2)
    by (auto simp: release(1) refs_exact_def release_memtable_slot_def)
next
  case (search M snap buf)
  note b = take_snapshot_Some [OF search(3)]
  have held: "\<forall>i \<in> set (gidx snap # sidxs snap). i \<in> base s"
    using growing_owned [OF inv(2)] queue_owned [OF inv(2)] b(2-4) by (auto simp: queue_def)
  then have in_range: "\<forall>i \<in> set (gidx snap # sidxs snap). in_buf i" using inv(1) by (auto simp: refs_exact_def)
  have "mb_ref_count (buf ! nat j) = mb_ref_count (reg_buf s ! nat j) + int (count_list (gidx snap # sidxs snap) j)"
    if j: "in_buf j" for j
  proof -
    have len: "nat j < length (shift_ref 1 (reg_buf s) (gidx snap))"
      using j inv(1) by (simp add: refs_exact_def in_buf_def)
    show ?thesis
      unfolding b(1) using shift_refs_count [OF len, of 1 "sidxs snap"] shift_ref_count [OF inv(1) j] in_range
        count_list_nat [OF j, of "sidxs snap"] by simp
  qed
  moreover have "length buf = length (reg_buf s)" by (simp add: b(1))
  moreover have "in_buf i" if "0 < count_list (gidx snap # sidxs snap) i" for i
    using that in_range by (metis count_notin less_numeral_extra(3))
  ultimately show ?thesis using inv(1) search(2)
    by (auto simp: search(1) refs_exact_def simp del: count_list.simps)
next
  case (search_release i "is" M)
  have "in_buf i" using inv(1) search_release(2) by (auto simp: refs_exact_def)
  then show ?thesis using inv(1) shift_ref_count [OF inv(1)] search_release(2)
    by (auto simp: search_release(1) refs_exact_def)
next
  case (foreign_claim i mt)
  have "in_buf i" using inv(1) foreign_claim(2,3) by (simp add: refs_exact_def in_buf_def)
  with inv(1) foreign_claim(4) have none: "i \<notin> base s" "sum_over proc_pins (reg_procs s) i = 0" "foreign s i = 0"
    by (auto simp: refs_exact_def of_bool_def split: if_splits)
  show ?thesis using inv(1) \<open>in_buf i\<close> none
    by (auto simp: foreign_claim(1) refs_exact_def in_buf_def nth_list_update)
next
  case (foreign_release i)
  have "in_buf i" using inv(1) foreign_release(2) by (auto simp: refs_exact_def)
  then show ?thesis using inv(1) shift_ref_count [OF inv(1)] foreign_release(2)
    by (auto simp: foreign_release(1) refs_exact_def)
next
  case (claim M i buf)
  then show ?thesis using inv(1)
    by (auto simp: refs_exact_def claim_immutable_for_flush_def split: option.splits)
qed (use inv(1) in \<open>simp add: refs_exact_def\<close>)+

lemma owners_unique_cong:
  assumes "owners_unique s" "memtable_idxs (reg_lsm s') = memtable_idxs (reg_lsm s)"
    "memtable_count (reg_lsm s') = memtable_count (reg_lsm s)"
    "growing_memtable_idx (reg_lsm s') = growing_memtable_idx (reg_lsm s)" "base s' = base s"
    "\<And>i. sum_over proc_owns (reg_procs s') i = sum_over proc_owns (reg_procs s) i"
    "\<And>i. sum_over proc_claims (reg_procs s') i = sum_over proc_claims (reg_procs s) i"
    "sum_over proc_rotates (reg_procs s') () = sum_over proc_rotates (reg_procs s) ()"
    "\<And>i. 0 < sum_over proc_claims (reg_procs s) i \<Longrightarrow> flush_claimed (mt_of s i) \<Longrightarrow> flush_claimed (mt_of s' i)"
  shows "owners_unique s'"
  using assms by (simp add: owners_unique_def slot_owners_def queue_def)

lemma flush_claimed_reserve: "flush_claimed (fst (reserve_slot mt)) = flush_claimed mt"
  by (simp add: reserve_slot_def Let_def)

lemma flush_claimed_publish [simp]: "flush_claimed (publish_slot_release mt slot) = flush_claimed mt"
  by (simp add: publish_slot_release_def update_max_ready_id_def Let_def)

lemma insert_reserve_cases:
  assumes "insert_reserve lsm buf = (look, buf')"
  obtains "buf' = buf" "\<And>i slot. look \<noteq> InsReserved i slot" "look \<noteq> InsRotate True"
  | g mt slot where "g = growing_memtable_idx lsm" "0 \<le> g" "nat g < MEMTABLE_BUF_SIZE"
    "reserve_slot (MT_FROM_SLOTIDX buf g) = (mt, slot)" "buf' = upd_mt g (\<lambda>_. mt) buf"
    "look = (if slot \<noteq> NO_SLOT then InsReserved g slot else InsRotate True)"
proof (cases "0 \<le> growing_memtable_idx lsm \<and> growing_memtable_idx lsm < int MEMTABLE_BUF_SIZE")
  case True
  then show ?thesis using assms that(2)
    by (auto simp: insert_reserve_def Let_def MT_IDX_INVALID_def MT_IDX_ROTATING_def split: if_splits prod.splits)
next
  case False
  then show ?thesis using assms that(1)
    by (auto simp: insert_reserve_def Let_def MT_IDX_INVALID_def MT_IDX_ROTATING_def split: if_splits)
qed

lemma mt_shift_ref [simp]: "MT_FROM_SLOTIDX (shift_ref d buf i) j = MT_FROM_SLOTIDX buf j"
  by (cases "nat i < length buf") (auto simp: MT_FROM_SLOTIDX_def shift_ref_def nth_list_update list_update_beyond)

lemma mt_shift_refs [simp]: "MT_FROM_SLOTIDX (shift_refs d is buf) j = MT_FROM_SLOTIDX buf j"
  unfolding shift_refs_def by (induction "is" arbitrary: buf) simp_all

lemma MT_FROM_SLOTIDX_upd_nat:
  "MT_FROM_SLOTIDX (upd_mt i f buf) j =
     (if nat j = nat i \<and> nat i < length buf then f (MT_FROM_SLOTIDX buf i) else MT_FROM_SLOTIDX buf j)"
  by (cases "nat i < length buf") (auto simp: MT_FROM_SLOTIDX_def upd_mt_def nth_list_update list_update_beyond)

lemma upd_mt_field:
  "field (f (MT_FROM_SLOTIDX buf i)) = field (MT_FROM_SLOTIDX buf i) \<Longrightarrow>
     field (MT_FROM_SLOTIDX (upd_mt i f buf) j) = field (MT_FROM_SLOTIDX buf j)"
  by (simp add: MT_FROM_SLOTIDX_upd_nat) (simp add: MT_FROM_SLOTIDX_def)

lemma insert_reserve_field:
  assumes look: "insert_reserve lsm buf = (look, buf')" and field: "\<And>mt. field (fst (reserve_slot mt)) = field mt"
  shows "field (MT_FROM_SLOTIDX buf' j) = field (MT_FROM_SLOTIDX buf j)"
  using look
proof (rule insert_reserve_cases)
  fix g mt slot
  assume r: "reserve_slot (MT_FROM_SLOTIDX buf g) = (mt, slot)" "buf' = upd_mt g (\<lambda>_. mt) buf"
  have "field mt = field (MT_FROM_SLOTIDX buf g)" using field [of "MT_FROM_SLOTIDX buf g"] r(1) by simp
  then show ?thesis unfolding r(2) by (rule upd_mt_field)
qed simp

lemmas insert_reserve_claimed = insert_reserve_field [of _ _ _ _ flush_claimed, OF _ flush_claimed_reserve]

lemma insert_reserve_id:
  "insert_reserve lsm buf = (look, buf') \<Longrightarrow> memtable_id (MT_FROM_SLOTIDX buf' j) = memtable_id (MT_FROM_SLOTIDX buf j)"
  by (rule insert_reserve_field) (simp_all add: reserve_slot_def Let_def)

lemma claimed_in_buf:
  assumes "refs_exact s" "owners_unique s" "0 < sum_over proc_claims (reg_procs s) i"
  shows "i \<in> base s" "in_buf i"
proof -
  have "i \<in> set (queue (reg_lsm s))"
    using assms(2,3) unfolding owners_unique_def by (metis count_notin not_le)
  then show "i \<in> base s" using queue_owned [OF assms(2)] by blast
  then show "in_buf i" using assms(1) by (simp add: refs_exact_def)
qed

lemma set_remove_at:
  "pos < n \<Longrightarrow> n \<le> length xs \<Longrightarrow> take (n - 1) (remove_at pos n xs) = take pos xs @ drop (Suc pos) (take n xs)"
  by (simp add: remove_at_def)

lemma handoff_unlink_Some:
  assumes "handoff_unlink i lsm = Some lsm'" "memtable_count lsm \<le> length (memtable_idxs lsm)"
  shows "count_list (queue lsm) j = count_list (queue lsm') j + of_bool (j = i)"
    "length (memtable_idxs lsm') = length (memtable_idxs lsm)" "memtable_count lsm' \<le> memtable_count lsm"
    "growing_memtable_idx lsm' = growing_memtable_idx lsm"
proof -
  obtain pos where pos: "first_from (\<lambda>p. memtable_idxs lsm ! p = i) 0 (memtable_count lsm) = Some pos"
    "lsm' = lsm\<lparr>memtable_idxs := remove_at pos (memtable_count lsm) (memtable_idxs lsm),
       memtable_count := memtable_count lsm - 1\<rparr>"
    using assms(1) by (auto simp: handoff_unlink_def split: option.splits)
  note p = first_from_SomeD [OF pos(1)]
  let ?n = "memtable_count lsm" and ?xs = "memtable_idxs lsm"
  have "queue lsm = take pos ?xs @ i # drop (Suc pos) (take ?n ?xs)"
    using p assms(2) id_take_nth_drop [of pos "take ?n ?xs"] by (simp add: queue_def min_def)
  moreover have "queue lsm' = take pos ?xs @ drop (Suc pos) (take ?n ?xs)"
    using p assms(2) set_remove_at [of pos ?n ?xs] by (simp add: queue_def pos(2))
  ultimately show "count_list (queue lsm) j = count_list (queue lsm') j + of_bool (j = i)" by auto
  show "length (memtable_idxs lsm') = length (memtable_idxs lsm)"
    using p assms(2) by (simp add: pos(2) remove_at_def)
  show "memtable_count lsm' \<le> memtable_count lsm" "growing_memtable_idx lsm' = growing_memtable_idx lsm"
    by (simp_all add: pos(2))
qed

lemma find_SomeD: "find P xs = Some x \<Longrightarrow> x \<in> set xs \<and> P x"
  by (induction xs) (auto split: if_splits)

lemma claim_immutable_SomeD:
  assumes "claim_immutable_for_flush lsm buf = Some (i, buf')"
  shows "i \<in> set (queue lsm)" "\<not> flush_claimed (MT_FROM_SLOTIDX buf i)"
    "buf' = upd_mt i (\<lambda>mt. mt\<lparr>flush_claimed := True\<rparr>) buf"
  using assms by (auto simp: claim_immutable_for_flush_def queue_def dest: find_SomeD split: option.splits)

lemma sum_over_procs:
  "reg_procs s = add_mset p M \<Longrightarrow> f q x = f p x \<Longrightarrow> sum_over f (add_mset q M) x = sum_over f (reg_procs s) x"
  by simp

lemma owners_unique_step:
  assumes step: "reg_step limit s s'" and inv: "refs_exact s" "owners_unique s"
  shows "owners_unique s'"
  using step
proof (cases rule: reg_step.cases)
  case (reserve M i slot buf tid vec)
  then show ?thesis
    by (intro owners_unique_cong [OF inv(2)]) (auto simp: insert_reserve_claimed [OF reserve(3)])
next
  case (insert_rotate M need buf)
  then show ?thesis
    by (intro owners_unique_cong [OF inv(2)]) (auto simp: insert_reserve_claimed [OF insert_rotate(3)])
next
  case (log i slot tid vec M mt status)
  have "flush_claimed mt = flush_claimed (mt_of s i)" using log(3) by (auto simp: write_row_def)
  then show ?thesis
    by (intro owners_unique_cong [OF inv(2)]) (auto simp: log(1,2) upd_mt_field)
next
  case (publish i slot tid M)
  then show ?thesis
    by (intro owners_unique_cong [OF inv(2)]) (auto simp: upd_mt_field)
next
  case (claim M i buf)
  note i = claim_immutable_SomeD [OF claim(3)]
  have "in_buf i" using queue_owned [OF inv(2) i(1)] inv(1) by (auto simp: refs_exact_def)
  have "sum_over proc_claims (reg_procs s) i = 0" using inv(2) i(2) by (auto simp: owners_unique_def)
  then have free: "sum_over proc_claims M i = 0" using claim(2) by simp
  have lt: "nat i < length (reg_buf s)" using inv(1) \<open>in_buf i\<close> by (simp add: refs_exact_def in_buf_def)
  have fc: "flush_claimed (MT_FROM_SLOTIDX buf j)" if "j = i \<or> flush_claimed (mt_of s j)" for j
    using that lt by (auto simp: i(3) MT_FROM_SLOTIDX_upd_nat)
  have "0 < count_list (queue (reg_lsm s)) i" using i(1) by (metis count_list_0_iff neq0_conv)
  then show ?thesis using inv(2) free fc
    by (auto simp: claim(1,2) owners_unique_def slot_owners_def Suc_le_eq)
next
  case (rotate need M cur lsm)
  then have cur: "cur = growing_memtable_idx (reg_lsm s)" "cur \<noteq> MT_IDX_ROTATING" "need \<Longrightarrow> 0 \<le> cur"
    and lsm: "queue lsm = queue (reg_lsm s)" "growing_memtable_idx lsm = MT_IDX_ROTATING"
      "memtable_count lsm = memtable_count (reg_lsm s)" "memtable_idxs lsm = memtable_idxs (reg_lsm s)"
    by (auto simp: rotate_begin_def Let_def queue_def split: if_splits)
  have "slot_owners s' i \<le> slot_owners s i" for i
    using cur lsm(2) by (auto simp: rotate(1,2) slot_owners_def lsm(1) MT_IDX_ROTATING_def)
  then have "\<forall>i. slot_owners s' i \<le> of_bool (i \<in> base s)"
    using inv(2) unfolding owners_unique_def by (meson order.trans)
  then show ?thesis using inv(2) cur(1,2) lsm rotate(2) by (simp add: rotate(1) owners_unique_def)
next
  case (allocate need cur M new lsm buf status)
  from allocate(3,4) obtain mt where new: "in_buf new" "mb_ref_count (reg_buf s ! nat new) = 0"
    "lsm = (reg_lsm s)\<lparr>next_segment_id := next_segment_id (reg_lsm s) + 1\<rparr>"
    "buf = (reg_buf s)[nat new := \<lparr>mb_ref_count = 1, mb_mt = mt\<rparr>]" by (rule register_SomeD)
  have none: "new \<notin> base s" using inv(1) new(1,2) by (auto simp: refs_exact_def of_bool_def split: if_splits)
  have zero: "slot_owners s new = 0" using owned_in_base(1) [OF inv(2), of new] none by blast
  have one: "slot_owners s' i \<le> slot_owners s i + of_bool (i = new)" for i
    by (auto simp: allocate(1,2) slot_owners_def new(3) queue_def)
  have le: "slot_owners s i \<le> of_bool (i \<in> base s)" for i using inv(2) by (simp add: owners_unique_def)
  have "slot_owners s' i \<le> of_bool (i \<in> insert new (base s))" for i
    using zero one [of i] le [of i] by (cases "i = new"; cases "i \<in> base s") simp_all
  moreover have "0 < sum_over proc_claims (reg_procs s) i \<Longrightarrow> MT_FROM_SLOTIDX buf i = mt_of s i" for i
    using claimed_in_buf [OF inv, of i] none new(1) unfolding new(4) MT_FROM_SLOTIDX_def in_buf_def
    by (metis eq_nat_nat_iff nth_list_update_neq)
  ultimately show ?thesis using inv(2) allocate(2) by (auto simp: allocate(1) owners_unique_def new(3) queue_def)
next
  case (enqueue cur new M lsm)
  then have lsm: "memtable_count (reg_lsm s) < MEMTABLE_NUM" "growing_memtable_idx lsm = growing_memtable_idx (reg_lsm s)"
    "memtable_count lsm = memtable_count (reg_lsm s) + 1"
    "memtable_idxs lsm = (memtable_idxs (reg_lsm s))[memtable_count (reg_lsm s) := cur]"
    by (auto simp: enqueue_sealed_memtable_def split: if_splits)
  have "queue lsm = queue (reg_lsm s) @ [cur]"
    using lsm inv(2) by (simp add: queue_def owners_unique_def take_Suc_conv_app_nth)
  then have cnt: "count_list (queue lsm) i = count_list (queue (reg_lsm s)) i + of_bool (i = cur)" for i by simp
  have own: "slot_owners s' i = slot_owners s i" for i
    by (simp add: enqueue(1,2) slot_owners_def cnt lsm(2))
  have "sum_over proc_claims M i \<le> count_list (queue lsm) i" for i
    using inv(2) enqueue(2) by (auto simp: cnt owners_unique_def intro: le_SucI)
  then show ?thesis using inv(2) own enqueue(2) lsm
    by (auto simp: enqueue(1) owners_unique_def)
next
  case (install new M)
  have rot: "growing_memtable_idx (reg_lsm s) = MT_IDX_ROTATING" "sum_over proc_rotates M () = 0"
    using inv(2) install(2) by (auto simp: owners_unique_def of_bool_def split: if_splits)
  have "new \<in> base s" using proc_owned [OF inv(2) install(2), of new] by simp
  then have "0 \<le> new" using inv(1) by (auto simp: refs_exact_def in_buf_def)
  then have "slot_owners s' i = slot_owners s i" for i
    using rot(1) by (simp add: install(1,2) slot_owners_def rotate_install_def queue_def MT_IDX_ROTATING_def)
  then show ?thesis using inv(2) install(2) rot \<open>0 \<le> new\<close>
    by (auto simp: install(1) owners_unique_def rotate_install_def queue_def MT_IDX_ROTATING_def)
next
  case (unlink i M lsm)
  have "memtable_count (reg_lsm s) \<le> length (memtable_idxs (reg_lsm s))" using inv(2) by (simp add: owners_unique_def)
  note h = handoff_unlink_Some [OF unlink(3) this]
  have "slot_owners s' j = slot_owners s j" for j
    by (simp add: unlink(1,2) slot_owners_def h(1,4))
  moreover have "sum_over proc_claims M j \<le> count_list (queue lsm) j" for j
    using inv(2) unlink(2) h(1) [of j] by (auto simp: owners_unique_def dest: spec [of _ j] split: if_splits)
  ultimately show ?thesis using inv(2) unlink(2) h(2-4)
    by (auto simp: unlink(1) owners_unique_def intro: order.trans)
next
  case (release i M)
  have own: "slot_owners s' j + of_bool (j = i) = slot_owners s j" for j
    by (simp add: release(1,2) slot_owners_def)
  have le: "slot_owners s j \<le> of_bool (j \<in> base s)" for j using inv(2) by (simp add: owners_unique_def)
  have own': "slot_owners s' j \<le> of_bool (j \<in> base s - {i})" for j
    using own [of j] le [of j] by (cases "j = i"; cases "j \<in> base s") simp_all
  have fc: "flush_claimed (mt_of s' j) = flush_claimed (mt_of s j)" for j
    by (simp add: release(1) release_memtable_slot_def)
  have same: "reg_lsm s' = reg_lsm s" "base s' = base s - {i}"
    "sum_over proc_claims (reg_procs s') j = sum_over proc_claims (reg_procs s) j"
    "sum_over proc_rotates (reg_procs s') () = sum_over proc_rotates (reg_procs s) ()" for j
    by (simp_all add: release(1,2))
  show ?thesis using inv(2) own' unfolding owners_unique_def fc same by blast
next
  case (flush_error i M)
  have less: "sum_over proc_claims (reg_procs s') j \<le> sum_over proc_claims (reg_procs s) j" for j
    by (simp add: flush_error(1,2))
  have same: "slot_owners s' = slot_owners s" "reg_lsm s' = reg_lsm s" "base s' = base s" "mt_of s' = mt_of s"
    "sum_over proc_rotates (reg_procs s') () = sum_over proc_rotates (reg_procs s) ()"
    by (simp_all add: flush_error(1,2) slot_owners_def fun_eq_iff)
  have "sum_over proc_claims (reg_procs s') j \<le> count_list (queue (reg_lsm s)) j" for j
    using inv(2) less [of j] unfolding owners_unique_def by (meson order.trans)
  moreover have "flush_claimed (mt_of s j)" if "0 < sum_over proc_claims (reg_procs s') j" for j
    using inv(2) less [of j] that unfolding owners_unique_def by (meson order.strict_trans2)
  ultimately show ?thesis using inv(2) unfolding owners_unique_def same by blast
next
  case (track i sid M)
  then show ?thesis by (intro owners_unique_cong [OF inv(2)]) (auto simp: track_flushed_def Let_def)
next
  case (release_status lsm status)
  then show ?thesis by (intro owners_unique_cong [OF inv(2)]) (auto simp: release_flushed_def)
next
  case (search M snap buf)
  then show ?thesis by (intro owners_unique_cong [OF inv(2)]) (auto simp: take_snapshot_Some(1) [OF search(3)])
next
  case (foreign_claim i mt)
  have "i \<notin> base s" "in_buf i"
    using inv(1) foreign_claim(2-4) by (auto simp: refs_exact_def in_buf_def of_bool_def split: if_splits)
  then have "0 < sum_over proc_claims (reg_procs s) j \<Longrightarrow> mt_of s' j = mt_of s j" for j
    using claimed_in_buf [OF inv, of j] unfolding foreign_claim(1) MT_FROM_SLOTIDX_def in_buf_def
    by simp (metis eq_nat_nat_iff nth_list_update_neq)
  then show ?thesis by (intro owners_unique_cong [OF inv(2)]) (auto simp: foreign_claim(1))
qed (use inv in \<open>auto intro!: owners_unique_cong [OF inv(2)]\<close>)

section \<open>Rows\<close>

fun proc_pend :: "proc \<Rightarrow> int \<Rightarrow> nat" where
  "proc_pend (PReserved j slot tid vec) i = of_bool (i = j)"
| "proc_pend (PLogged j slot tid) i = of_bool (i = j)"
| "proc_pend _ i = 0"

fun proc_holds :: "proc \<Rightarrow> int \<times> nat \<Rightarrow> nat" where
  "proc_holds (PReserved j slot tid vec) x = of_bool (x = (j, slot))"
| "proc_holds (PLogged j slot tid) x = of_bool (x = (j, slot))"
| "proc_holds _ x = 0"

abbreviation id_of :: "Registry \<Rightarrow> int \<Rightarrow> SegmentId" where
  "id_of s i \<equiv> memtable_id (mt_of s i)"

definition logged :: "status_view \<Rightarrow> SegmentId \<Rightarrow> i64 \<Rightarrow> bool" where
  "logged st sid tid \<longleftrightarrow> (\<exists>ts. st sid = Some ts \<and> Int64ToItemPointer tid \<in># ts)"

text \<open>The counters of a memtable with \<open>n\<close> rows reserved and not yet published.\<close>

definition mt_ok :: "nat \<Rightarrow> MemTable \<Rightarrow> bool" where
  "mt_ok n mt \<longleftrightarrow>
     mt_capacity mt \<le> MEMTABLE_MAX_CAPACITY \<and> current_size mt \<le> Suc (mt_capacity mt)
     \<and> (\<not> mt_sealed mt \<longrightarrow> current_size mt \<le> mt_capacity mt)
     \<and> ready_cnt mt + n = valid_rows mt
     \<and> (\<forall>j. current_size mt \<le> j \<longrightarrow> j < mt_capacity mt \<longrightarrow> \<not> mt_ready mt ! j)"

definition mt_sized :: "MemTable \<Rightarrow> bool" where
  "mt_sized mt \<longleftrightarrow> length (mt_tids mt) = MEMTABLE_MAX_CAPACITY \<and> length (mt_ready mt) = MEMTABLE_MAX_CAPACITY"

definition row_present :: "MemTable \<Rightarrow> i64 \<Rightarrow> bool" where
  "row_present mt tid \<longleftrightarrow> (\<exists>slot < valid_rows mt. mt_ready mt ! slot \<and> mt_tids mt ! slot = tid)"

definition slot_pending :: "MemTable \<Rightarrow> nat \<Rightarrow> bool" where
  "slot_pending mt slot \<longleftrightarrow> slot < valid_rows mt \<and> \<not> mt_ready mt ! slot"

fun proc_ok :: "Registry \<Rightarrow> proc \<Rightarrow> bool" where
  "proc_ok s (PReserved i slot tid vec) \<longleftrightarrow> i \<in> base s \<and> slot_pending (mt_of s i) slot"
| "proc_ok s (PLogged i slot tid) \<longleftrightarrow>
     i \<in> base s \<and> slot_pending (mt_of s i) slot \<and> mt_tids (mt_of s i) ! slot = tid \<and> logged (reg_status s) (id_of s i) tid"
| "proc_ok s (PFlushed i sid) \<longleftrightarrow> id_of s i = sid \<and> sid \<in> dom (reg_disk s)"
| "proc_ok s (PLoaded i sid) \<longleftrightarrow> id_of s i = sid \<and> sid \<in> dom (reg_disk s)"
| "proc_ok s (PTracked i) \<longleftrightarrow> id_of s i \<in> dom (reg_disk s)"
| "proc_ok s (PUnlinked i) \<longleftrightarrow> id_of s i \<in> dom (reg_disk s)"
| "proc_ok s _ \<longleftrightarrow> True"

definition ids_ok :: "Registry \<Rightarrow> bool" where
  "ids_ok s \<longleftrightarrow>
     (\<forall>i \<in> base s. id_of s i < next_segment_id (reg_lsm s)) \<and> inj_on (id_of s) (base s)
     \<and> (\<forall>sid. sid \<in> dom (reg_status s) \<or> sid \<in> dom (reg_disk s) \<or> sid \<in> fst ` hist s \<longrightarrow> sid < next_segment_id (reg_lsm s))"

definition tables_ok :: "Registry \<Rightarrow> bool" where
  "tables_ok s \<longleftrightarrow>
     (\<forall>i \<in> base s. mt_ok (sum_over proc_pend (reg_procs s) i) (mt_of s i)) \<and> (\<forall>i. in_buf i \<longrightarrow> mt_sized (mt_of s i))
     \<and> (\<forall>p \<in># reg_procs s. proc_ok s p) \<and> (\<forall>x. sum_over proc_holds (reg_procs s) x \<le> 1)"

definition row_on_disk :: "Registry \<Rightarrow> SegmentId \<Rightarrow> i64 \<Rightarrow> bool" where
  "row_on_disk s sid tid \<longleftrightarrow> (\<exists>rows. reg_disk s sid = Some rows \<and> tid \<in> set rows)"

definition flushed_list :: "LSMIndexData \<Rightarrow> SegmentId list" where
  "flushed_list lsm = take (min (flushed_not_released_count lsm) MEMTABLE_NUM) (flushed_not_released lsm)"

text \<open>
  A published row is in its memtable as long as the memtable is held; it is on disk once the memtable has
  been flushed, and until then in the status pages. A flushed memtable gets no further rows, and only
  flushed memtables are on the list of status pages to release.
\<close>

definition rows_safe :: "Registry \<Rightarrow> bool" where
  "rows_safe s \<longleftrightarrow>
     (\<forall>i \<in> base s. \<forall>tid. (id_of s i, tid) \<in> hist s \<longrightarrow> row_present (mt_of s i) tid)
     \<and> (\<forall>sid tid. (sid, tid) \<in> hist s \<longrightarrow> (if sid \<in> dom (reg_disk s) then row_on_disk s sid tid else logged (reg_status s) sid tid))
     \<and> (\<forall>i \<in> base s. id_of s i \<in> dom (reg_disk s) \<longrightarrow> mt_sealed (mt_of s i) \<and> sum_over proc_pend (reg_procs s) i = 0)
     \<and> (\<forall>sid \<in> set (flushed_list (reg_lsm s)). sid \<in> dom (reg_disk s))
     \<and> length (flushed_not_released (reg_lsm s)) = MEMTABLE_NUM"

text \<open>Which fields these predicates read.\<close>

definition mt_view :: "MemTable \<Rightarrow> SegmentId \<times> nat \<times> nat \<times> nat \<times> bool \<times> i64 list \<times> bool list" where
  "mt_view mt = (memtable_id mt, mt_capacity mt, current_size mt, ready_cnt mt, mt_sealed mt, mt_tids mt, mt_ready mt)"

lemma mt_view_cong:
  assumes "mt_view mt' = mt_view mt"
  shows "memtable_id mt' = memtable_id mt" "mt_ok n mt' = mt_ok n mt" "mt_sized mt' = mt_sized mt"
    "row_present mt' tid = row_present mt tid" "slot_pending mt' slot = slot_pending mt slot"
    "mt_tids mt' = mt_tids mt" "mt_sealed mt' = mt_sealed mt"
  using assms by (simp_all add: mt_view_def mt_ok_def mt_sized_def row_present_def slot_pending_def valid_rows_def)

lemma proc_ok_cong:
  assumes "\<And>i. mt_view (mt_of s' i) = mt_view (mt_of s i)" "base s' = base s" "reg_status s' = reg_status s"
    "reg_disk s' = reg_disk s"
  shows "proc_ok s' p = proc_ok s p"
  using assms(2-4) by (cases p) (simp_all add: mt_view_cong [OF assms(1)])

lemma rows_cong:
  assumes "ids_ok s" "tables_ok s" "rows_safe s"
    and mts: "\<And>i. mt_view (mt_of s' i) = mt_view (mt_of s i)"
    and same: "base s' = base s" "reg_status s' = reg_status s" "reg_disk s' = reg_disk s" "hist s' = hist s"
    and lsm: "next_segment_id (reg_lsm s') = next_segment_id (reg_lsm s)"
      "flushed_not_released (reg_lsm s') = flushed_not_released (reg_lsm s)"
      "flushed_not_released_count (reg_lsm s') = flushed_not_released_count (reg_lsm s)"
    and procs: "sum_over proc_pend (reg_procs s') = sum_over proc_pend (reg_procs s)"
      "sum_over proc_holds (reg_procs s') = sum_over proc_holds (reg_procs s)"
      "\<And>p. p \<in># reg_procs s' \<Longrightarrow> p \<in># reg_procs s \<or> proc_ok s p"
  shows "ids_ok s'" "tables_ok s'" "rows_safe s'"
proof -
  note cong = mt_view_cong [OF mts]
  show "ids_ok s'" using assms(1) by (simp add: ids_ok_def same lsm cong)
  have "proc_ok s' p" if "p \<in># reg_procs s'" for p
    using procs(3) [OF that] assms(2) proc_ok_cong [OF mts same(1-3)] by (auto simp: tables_ok_def)
  then show "tables_ok s'" using assms(2) by (simp add: tables_ok_def same procs(1,2) cong)
  have "row_on_disk s' = row_on_disk s" by (simp add: row_on_disk_def fun_eq_iff same)
  then show "rows_safe s'" using assms(3)
    by (simp add: rows_safe_def same lsm procs(1) cong flushed_list_def)
qed

lemma mt_ok_valid_rows: "mt_ok n mt \<Longrightarrow> valid_rows mt \<le> MEMTABLE_MAX_CAPACITY"
  by (auto simp: mt_ok_def valid_rows_def intro: min.coboundedI2)

lemma row_present_mono:
  "row_present mt tid \<Longrightarrow> valid_rows mt \<le> valid_rows mt' \<Longrightarrow> mt_tids mt' = mt_tids mt \<Longrightarrow> mt_ready mt' = mt_ready mt \<Longrightarrow>
     row_present mt' tid"
  unfolding row_present_def by (metis order.strict_trans2)

lemma small_counts: "n \<le> MEMTABLE_MAX_CAPACITY \<Longrightarrow> u32_inc n = Suc n" "n \<le> MEMTABLE_MAX_CAPACITY \<Longrightarrow> n \<noteq> NO_SLOT"
  by (simp_all add: u32_inc_def U32_def MEMTABLE_MAX_CAPACITY_def NO_SLOT_def)

text \<open>What the operations of one memtable do to these predicates.\<close>

lemma reserve_slot_effect:
  assumes "reserve_slot mt = (mt', slot)" "mt_ok n mt"
  shows "memtable_id mt' = memtable_id mt" "mt_tids mt' = mt_tids mt" "mt_ready mt' = mt_ready mt"
    "row_present mt tid \<Longrightarrow> row_present mt' tid" "slot_pending mt k \<Longrightarrow> slot_pending mt' k"
    "mt_sealed mt \<Longrightarrow> mt_sealed mt'"
    "slot = NO_SLOT \<Longrightarrow> mt_ok n mt'"
    "slot \<noteq> NO_SLOT \<Longrightarrow> \<not> mt_sealed mt \<and> mt_ok (Suc n) mt' \<and> slot_pending mt' slot \<and> \<not> slot_pending mt slot"
proof -
  have cap: "mt_capacity mt \<le> MEMTABLE_MAX_CAPACITY" "\<not> mt_sealed mt \<Longrightarrow> current_size mt \<le> mt_capacity mt"
    using assms(2) by (simp_all add: mt_ok_def)
  consider "mt_sealed mt" "mt' = mt" "slot = NO_SLOT"
    | "\<not> mt_sealed mt" "current_size mt = mt_capacity mt" "slot = NO_SLOT"
      "mt' = mt\<lparr>current_size := Suc (current_size mt), mt_sealed := True\<rparr>"
    | "\<not> mt_sealed mt" "current_size mt < mt_capacity mt" "slot = current_size mt"
      "mt' = mt\<lparr>current_size := Suc (current_size mt)\<rparr>"
    using assms(1) cap small_counts(1) [of "current_size mt"]
    by (cases "mt_sealed mt"; cases "current_size mt < mt_capacity mt") (auto simp: reserve_slot_def Let_def)
  note cases = this
  show "memtable_id mt' = memtable_id mt" "mt_tids mt' = mt_tids mt" "mt_ready mt' = mt_ready mt" "mt_sealed mt \<Longrightarrow> mt_sealed mt'"
    using cases by (cases; simp)+
  show "row_present mt tid \<Longrightarrow> row_present mt' tid"
    using cases by cases (auto elim!: row_present_mono simp: valid_rows_def)
  show "slot_pending mt k \<Longrightarrow> slot_pending mt' k"
    using cases by cases (auto simp: slot_pending_def valid_rows_def)
  show "slot = NO_SLOT \<Longrightarrow> mt_ok n mt'"
    using cases assms(2) cap small_counts(2) [of "current_size mt"] by cases (auto simp: mt_ok_def valid_rows_def)
  show "slot \<noteq> NO_SLOT \<Longrightarrow> \<not> mt_sealed mt \<and> mt_ok (Suc n) mt' \<and> slot_pending mt' slot \<and> \<not> slot_pending mt slot"
    using cases assms(2) by cases (auto simp: mt_ok_def valid_rows_def slot_pending_def)
qed

lemma update_max_ready_id_sel:
  "memtable_id (update_max_ready_id t i) = memtable_id t" "mt_tids (update_max_ready_id t i) = mt_tids t"
  "mt_ready (update_max_ready_id t i) = mt_ready t" "mt_sealed (update_max_ready_id t i) = mt_sealed t"
  "current_size (update_max_ready_id t i) = current_size t" "mt_capacity (update_max_ready_id t i) = mt_capacity t"
  "ready_cnt (update_max_ready_id t i) = ready_cnt t"
  by (simp_all add: update_max_ready_id_def Let_def)

lemma publish_effect:
  fixes mt slot
  defines "mt' \<equiv> publish_slot_release mt slot"
  shows "memtable_id mt' = memtable_id mt" "mt_tids mt' = mt_tids mt" "mt_ready mt' = (mt_ready mt)[slot := True]"
    "mt_sealed mt' = mt_sealed mt" "valid_rows mt' = valid_rows mt" "current_size mt' = current_size mt"
    "mt_capacity mt' = mt_capacity mt" "ready_cnt mt' = u32_inc (ready_cnt mt)"
  by (simp_all add: mt'_def publish_slot_release_def update_max_ready_id_sel valid_rows_def)

lemma publish_rows:
  assumes ok: "mt_ok (Suc n) mt" "mt_sized mt" and slot: "slot_pending mt slot"
  defines "mt' \<equiv> publish_slot_release mt slot"
  shows "mt_ok n mt'" "row_present mt tid \<Longrightarrow> row_present mt' tid" "row_present mt' (mt_tids mt ! slot)"
    "k \<noteq> slot \<Longrightarrow> slot_pending mt' k = slot_pending mt k"
proof -
  note e = publish_effect [of mt slot, folded mt'_def]
  have lt: "slot < length (mt_ready mt)" "slot < valid_rows mt"
    using slot mt_ok_valid_rows [OF ok(1)] ok(2) by (auto simp: slot_pending_def mt_sized_def)
  have "ready_cnt mt \<le> MEMTABLE_MAX_CAPACITY" using ok(1) mt_ok_valid_rows [OF ok(1)] by (simp add: mt_ok_def)
  then have "ready_cnt mt' = Suc (ready_cnt mt)" using e(8) small_counts(1) by simp
  then show "mt_ok n mt'" using ok(1) lt(2) by (auto simp: mt_ok_def e(1-7) valid_rows_def nth_list_update)
  show "row_present mt tid \<Longrightarrow> row_present mt' tid" "row_present mt' (mt_tids mt ! slot)"
    using lt by (auto simp: row_present_def e(1-7) nth_list_update)
  show "k \<noteq> slot \<Longrightarrow> slot_pending mt' k = slot_pending mt k" by (simp add: slot_pending_def e(1-7))
qed

lemma write_row_effect:
  assumes "write_row slot tid vec mt = Some mt'"
  shows "mt_view mt' = (memtable_id mt, mt_capacity mt, current_size mt, ready_cnt mt, mt_sealed mt,
    (mt_tids mt)[slot := tid], mt_ready mt)"
  using assms by (auto simp: write_row_def mt_view_def)

definition reg_inv :: "Registry \<Rightarrow> bool" where
  "reg_inv s \<longleftrightarrow> refs_exact s \<and> owners_unique s \<and> ids_ok s \<and> tables_ok s \<and> rows_safe s"

lemma base_in_buf: "refs_exact s \<Longrightarrow> i \<in> base s \<Longrightarrow> in_buf i"
  by (simp add: refs_exact_def)

text \<open>One step changes one held memtable and keeps its published rows.\<close>

lemma in_place:
  assumes inv: "refs_exact s" "ids_ok s" "tables_ok s" "rows_safe s" and i: "i \<in> base s"
    and others: "\<And>j. in_buf j \<Longrightarrow> j \<noteq> i \<Longrightarrow> mt_of s' j = mt_of s j"
    and mt: "id_of s' i = id_of s i" "mt_sized (mt_of s' i)" "mt_sealed (mt_of s i) \<Longrightarrow> mt_sealed (mt_of s' i)"
      "\<And>tid. row_present (mt_of s i) tid \<Longrightarrow> row_present (mt_of s' i) tid"
    and same: "base s' = base s" "reg_disk s' = reg_disk s" "reg_lsm s' = reg_lsm s"
    and status: "dom (reg_status s') = dom (reg_status s)"
      "\<And>sid tid. logged (reg_status s) sid tid \<Longrightarrow> logged (reg_status s') sid tid"
    and pend: "mt_ok (sum_over proc_pend (reg_procs s') i) (mt_of s' i)"
      "\<And>j. j \<noteq> i \<Longrightarrow> sum_over proc_pend (reg_procs s') j = sum_over proc_pend (reg_procs s) j"
      "id_of s i \<in> dom (reg_disk s) \<Longrightarrow> sum_over proc_pend (reg_procs s') i = 0"
    and procs: "\<And>p. p \<in># reg_procs s' \<Longrightarrow> proc_ok s' p" "\<And>x. sum_over proc_holds (reg_procs s') x \<le> 1"
    and hist: "\<And>sid tid. (sid, tid) \<in> hist s' \<Longrightarrow> (sid, tid) \<in> hist s
      \<or> sid = id_of s i \<and> row_present (mt_of s' i) tid \<and> logged (reg_status s') sid tid \<and> sid \<notin> dom (reg_disk s)"
  shows "ids_ok s' \<and> tables_ok s' \<and> rows_safe s'"
proof -
  have mtj: "mt_of s' j = mt_of s j" if "j \<in> base s" "j \<noteq> i" for j
    using others [of j] base_in_buf [OF inv(1)] that by blast
  have od: "row_on_disk s' = row_on_disk s" by (simp add: row_on_disk_def fun_eq_iff same)
  have idj: "id_of s' j = id_of s j" if "j \<in> base s" for j using mtj [OF that] mt(1) by (cases "j = i") simp_all
  have hist_dom: "fst ` hist s' \<subseteq> fst ` hist s \<union> {id_of s i}" using hist by force
  have "ids_ok s'"
    unfolding ids_ok_def same status(1)
  proof (intro conjI)
    show "\<forall>j \<in> base s. id_of s' j < next_segment_id (reg_lsm s)" using inv(2) idj by (simp add: ids_ok_def)
    show "inj_on (id_of s') (base s)" using inv(2) idj by (simp add: ids_ok_def inj_on_def)
    show "\<forall>sid. sid \<in> dom (reg_status s) \<or> sid \<in> dom (reg_disk s) \<or> sid \<in> fst ` hist s' \<longrightarrow>
        sid < next_segment_id (reg_lsm s)"
    proof (intro allI impI)
      fix sid assume sid: "sid \<in> dom (reg_status s) \<or> sid \<in> dom (reg_disk s) \<or> sid \<in> fst ` hist s'"
      show "sid < next_segment_id (reg_lsm s)"
      proof (cases "sid = id_of s i")
        case False
        with sid hist_dom have "sid \<in> dom (reg_status s) \<or> sid \<in> dom (reg_disk s) \<or> sid \<in> fst ` hist s" by blast
        with inv(2) show ?thesis unfolding ids_ok_def by blast
      qed (use inv(2) i in \<open>simp add: ids_ok_def\<close>)
    qed
  qed
  moreover have "tables_ok s'"
    unfolding tables_ok_def same
  proof (intro conjI ballI allI impI)
    show "mt_ok (sum_over proc_pend (reg_procs s') j) (mt_of s' j)" if "j \<in> base s" for j
      using inv(3) pend(1,2) mtj that by (cases "j = i") (simp_all add: tables_ok_def)
    show "mt_sized (mt_of s' j)" if "in_buf j" for j
      using inv(3) others [OF that] mt(2) that by (cases "j = i") (simp_all add: tables_ok_def)
  qed (use procs in auto)
  moreover have "rows_safe s'"
    unfolding rows_safe_def same od
  proof (intro conjI ballI allI impI)
    fix j tid assume j: "j \<in> base s" "(id_of s' j, tid) \<in> hist s'"
    show "row_present (mt_of s' j) tid"
    proof (cases "(id_of s j, tid) \<in> hist s")
      case True
      then have "row_present (mt_of s j) tid" using inv(4) j(1) by (simp add: rows_safe_def)
      then show ?thesis using mt(4) mtj [OF j(1)] by (cases "j = i") simp_all
    next
      case False
      with hist [OF j(2)] idj [OF j(1)] have new: "id_of s j = id_of s i" "row_present (mt_of s' i) tid" by auto
      then have "j = i" using inv(2) j(1) i by (auto simp: ids_ok_def inj_on_def)
      with new(2) show ?thesis by simp
    qed
  next
    fix sid tid assume "(sid, tid) \<in> hist s'"
    from hist [OF this] show "if sid \<in> dom (reg_disk s) then row_on_disk s sid tid else logged (reg_status s') sid tid"
    proof
      assume "(sid, tid) \<in> hist s"
      with inv(4) have "if sid \<in> dom (reg_disk s) then row_on_disk s sid tid else logged (reg_status s) sid tid"
        by (simp add: rows_safe_def)
      then show ?thesis using status(2) by (simp split: if_splits)
    qed auto
  next
    fix j assume j: "j \<in> base s" "id_of s' j \<in> dom (reg_disk s)"
    then have old: "id_of s j \<in> dom (reg_disk s)" using idj by simp
    then have "mt_sealed (mt_of s j)" "sum_over proc_pend (reg_procs s) j = 0"
      using inv(4) j(1) unfolding rows_safe_def by blast+
    then show "mt_sealed (mt_of s' j)" "sum_over proc_pend (reg_procs s') j = 0"
      using mt(3) mtj [OF j(1)] pend(2) [of j] pend(3) old by (cases "j = i"; simp)+
  qed (use inv(4) in \<open>auto simp: rows_safe_def\<close>)
  ultimately show ?thesis by blast
qed

lemma holds_pending:
  assumes "0 < sum_over proc_holds M (i, slot)"
  shows "\<exists>p \<in># M. 0 < proc_holds p (i, slot)"
proof (rule ccontr)
  assume "\<not> (\<exists>p \<in># M. 0 < proc_holds p (i, slot))"
  then have "sum_over proc_holds M (i, slot) = 0" by (simp add: sum_over_def)
  with assms show False by simp
qed

lemma proc_ok_holds: "proc_ok s p \<Longrightarrow> 0 < proc_holds p (i, slot) \<Longrightarrow> i \<in> base s \<and> slot_pending (mt_of s i) slot"
  by (cases p) (auto split: if_splits)

lemma pend_pos: "p \<in># M \<Longrightarrow> 0 < proc_pend p i \<Longrightarrow> 0 < sum_over proc_pend M i"
  by (auto dest: multi_member_split)

text \<open>The steps that change one memtable.\<close>

lemma reserve_keeps_rows:
  assumes inv: "reg_inv s" and procs: "reg_procs s = add_mset p M" "\<And>x. proc_pend p x = 0" "\<And>x. proc_holds p x = 0"
    and look: "insert_reserve (reg_lsm s) (reg_buf s) = (look, buf)"
    and q: "q = (case look of InsReserved i slot \<Rightarrow> PReserved i slot tid vec | _ \<Rightarrow> PRotate need)"
  shows "ids_ok (s\<lparr>reg_buf := buf, reg_procs := add_mset q M\<rparr>)"
    "tables_ok (s\<lparr>reg_buf := buf, reg_procs := add_mset q M\<rparr>)"
    "rows_safe (s\<lparr>reg_buf := buf, reg_procs := add_mset q M\<rparr>)"
proof -
  have refs: "refs_exact s" "owners_unique s" "ids_ok s" "tables_ok s" "rows_safe s" using inv by (simp_all add: reg_inv_def)
  let ?s' = "s\<lparr>reg_buf := buf, reg_procs := add_mset q M\<rparr>"
  have "ids_ok ?s' \<and> tables_ok ?s' \<and> rows_safe ?s'"
    using look
  proof (rule insert_reserve_cases)
    assume "buf = reg_buf s" "\<And>i slot. look \<noteq> InsReserved i slot" "look \<noteq> InsRotate True"
    then have "q = PRotate need" "buf = reg_buf s" using q by (auto split: insert_look.splits)
    then show ?thesis
      by (intro conjI rows_cong [OF refs(3-5)]) (use procs in \<open>auto simp: fun_eq_iff\<close>)
  next
    fix g mt slot
    assume g: "g = growing_memtable_idx (reg_lsm s)" "0 \<le> g" "reserve_slot (mt_of s g) = (mt, slot)"
      "buf = upd_mt g (\<lambda>_. mt) (reg_buf s)" "look = (if slot \<noteq> NO_SLOT then InsReserved g slot else InsRotate True)"
    have i: "g \<in> base s" using growing_owned [OF refs(2) g(1) [symmetric] g(2)] .
    have ib: "in_buf g" by (rule base_in_buf [OF refs(1) i])
    have len: "length (reg_buf s) = MEMTABLE_BUF_SIZE" using refs(1) by (simp add: refs_exact_def)
    have mts: "mt_of ?s' j = (if j = g then mt else mt_of s j)" if "in_buf j" for j
      using MT_FROM_SLOTIDX_upd [OF len ib that] by (simp add: g(4))
    have ok: "mt_ok (sum_over proc_pend (reg_procs s) g) (mt_of s g)" "mt_sized (mt_of s g)"
      using refs(4) i ib by (simp_all add: tables_ok_def)
    note e = reserve_slot_effect [OF g(3) ok(1)]
    have q': "q = (if slot \<noteq> NO_SLOT then PReserved g slot tid vec else PRotate need)" using q g(5) by simp
    have disk: "id_of s g \<in> dom (reg_disk s) \<Longrightarrow> mt_sealed (mt_of s g) \<and> sum_over proc_pend (reg_procs s) g = 0"
      using refs(5) i by (simp add: rows_safe_def)
    have okp: "proc_ok ?s' p'" if "p' \<in># M" for p'
    proof -
      have "proc_ok s p'" using refs(4) that procs(1) by (simp add: tables_ok_def)
      moreover have "mt_tids (mt_of ?s' j) = mt_tids (mt_of s j)" "id_of ?s' j = id_of s j" for j
        using e(1,2) upd_mt_field [of _ "\<lambda>_. mt" "reg_buf s" g] by (simp_all add: g(4))
      moreover have "slot_pending (mt_of s j) k \<Longrightarrow> slot_pending (mt_of ?s' j) k" if "j \<in> base s" for j k
        using mts [OF base_in_buf [OF refs(1) that]] e(5) by (cases "j = g") simp_all
      ultimately show ?thesis by (cases p') auto
    qed
    have okq: "proc_ok ?s' q" using i mts [OF ib] e(8) by (simp add: q')
    have holds: "sum_over proc_holds (add_mset q M) x \<le> 1" for x
    proof -
      have old: "sum_over proc_holds M x \<le> 1" for x
        using refs(4) procs(1,3) unfolding tables_ok_def by (metis add_0 sum_over_add)
      show ?thesis
      proof (cases "slot \<noteq> NO_SLOT \<and> x = (g, slot)")
        case True
        have "sum_over proc_holds M (g, slot) = 0"
        proof (rule ccontr)
          assume "sum_over proc_holds M (g, slot) \<noteq> 0"
          then obtain p' where p': "p' \<in># M" "0 < proc_holds p' (g, slot)" using holds_pending by blast
          have "proc_ok s p'" using refs(4) p'(1) procs(1) by (simp add: tables_ok_def)
          from proc_ok_holds [OF this p'(2)] e(8) True show False by simp
        qed
        then show ?thesis using True by (simp add: q')
      qed (use old in \<open>auto simp: q'\<close>)
    qed
    have pend: "sum_over proc_pend (add_mset q M) j = sum_over proc_pend (reg_procs s) j + of_bool (slot \<noteq> NO_SLOT \<and> j = g)" for j
      by (simp add: q' procs(1,2))
    show ?thesis
      by (rule in_place [OF refs(1,3-5) i])
        (use mts [OF ib] mts e ok okp okq holds disk in \<open>auto simp: pend mt_sized_def simp del: sum_over_add\<close>)
  qed
  then show "ids_ok ?s'" "tables_ok ?s'" "rows_safe ?s'" by blast+
qed

lemma proc_ok_slot:
  assumes "sum_over proc_holds (add_mset p M) (i, slot) \<le> 1" "0 < proc_holds p (i, slot)" "p' \<in># M"
  shows "proc_holds p' (i, slot) = 0"
proof -
  have "sum_over proc_holds M (i, slot) = 0" using assms(1,2) by simp
  then show ?thesis using assms(3) by (auto dest: multi_member_split)
qed

lemma log_keeps_rows:
  assumes inv: "reg_inv s" and procs: "reg_procs s = add_mset (PReserved i slot tid vec) M"
    and row: "write_row slot tid vec (mt_of s i) = Some mt"
    and op: "spec_op (OpAdd (id_of s i) (Int64ToItemPointer tid)) (reg_status s) = Some status"
  defines "s' \<equiv> s\<lparr>reg_buf := upd_mt i (\<lambda>_. mt) (reg_buf s), reg_status := status, reg_procs := add_mset (PLogged i slot tid) M\<rparr>"
  shows "ids_ok s'" "tables_ok s'" "rows_safe s'"
proof -
  have refs: "refs_exact s" "owners_unique s" "ids_ok s" "tables_ok s" "rows_safe s" using inv by (simp_all add: reg_inv_def)
  have "proc_ok s (PReserved i slot tid vec)" using refs(4) procs by (simp add: tables_ok_def)
  then have i: "i \<in> base s" and pending: "slot_pending (mt_of s i) slot" by simp_all
  have ib: "in_buf i" by (rule base_in_buf [OF refs(1) i])
  have len: "length (reg_buf s) = MEMTABLE_BUF_SIZE" using refs(1) by (simp add: refs_exact_def)
  have mts: "mt_of s' j = (if j = i then mt else mt_of s j)" if "in_buf j" for j
    using MT_FROM_SLOTIDX_upd [OF len ib that] by (simp add: s'_def)
  note w = write_row_effect [OF row, unfolded mt_view_def prod.inject]
  have same: "valid_rows mt = valid_rows (mt_of s i)" by (simp add: valid_rows_def w)
  have sized: "mt_sized (mt_of s i)" "mt_ok (sum_over proc_pend (reg_procs s) i) (mt_of s i)"
    using refs(4) i ib by (simp_all add: tables_ok_def)
  have slot: "slot < length (mt_tids (mt_of s i))"
    using pending mt_ok_valid_rows [OF sized(2)] sized(1) by (auto simp: slot_pending_def mt_sized_def)
  obtain ts where ts: "reg_status s (id_of s i) = Some ts"
    "status = (reg_status s)(id_of s i \<mapsto> add_mset (Int64ToItemPointer tid) ts)" using op by auto
  have lg: "logged (reg_status s) sid t \<Longrightarrow> logged status sid t" for sid t
    by (auto simp: logged_def ts)
  have idj: "id_of s' j = id_of s j" for j
    using w(1) upd_mt_field [of memtable_id "\<lambda>_. mt" "reg_buf s" i] by (simp add: s'_def)
  have okp: "proc_ok s' p" if p: "p \<in># M" for p
  proof -
    have "proc_ok s p" using refs(4) p procs by (simp add: tables_ok_def)
    moreover have "slot_pending (mt_of s j) k \<Longrightarrow> slot_pending (mt_of s' j) k" if "j \<in> base s" for j k
      using mts [OF base_in_buf [OF refs(1) that]] by (simp add: slot_pending_def same w split: if_splits)
    moreover have "mt_tids (mt_of s' j) ! k = mt_tids (mt_of s j) ! k" if "0 < proc_holds p (j, k)" "j \<in> base s" for j k
    proof -
      have "sum_over proc_holds (add_mset (PReserved i slot tid vec) M) (i, slot) \<le> 1"
        using refs(4) unfolding tables_ok_def procs by blast
      from proc_ok_slot [OF this _ p] have "(j, k) \<noteq> (i, slot)" using that(1) by auto
      then show ?thesis using mts [OF base_in_buf [OF refs(1) that(2)]] by (auto simp: w)
    qed
    moreover have "base s' = base s" "reg_disk s' = reg_disk s" "reg_status s' = status" by (simp_all add: s'_def)
    ultimately show ?thesis using lg by (cases p) (auto simp: idj)
  qed
  have okq: "proc_ok s' (PLogged i slot tid)"
  proof -
    have "slot_pending (mt_of s' i) slot" "mt_tids (mt_of s' i) ! slot = tid"
      using pending slot by (simp_all add: mts [OF ib] slot_pending_def same w)
    moreover have "logged (reg_status s') (id_of s' i) tid" unfolding idj by (simp add: s'_def logged_def ts)
    ultimately show ?thesis using i by (simp add: s'_def)
  qed
  have s': "base s' = base s" "reg_disk s' = reg_disk s" "reg_lsm s' = reg_lsm s" "reg_status s' = status" "hist s' = hist s"
    by (simp_all add: s'_def)
  have rows: "row_present (mt_of s i) t \<Longrightarrow> row_present mt t" for t
    using pending by (auto simp: row_present_def same w slot_pending_def nth_list_update)
      (metis nth_list_update_neq)
  have pend: "sum_over proc_pend (reg_procs s') = sum_over proc_pend (reg_procs s)"
    "sum_over proc_holds (reg_procs s') = sum_over proc_holds (reg_procs s)" by (simp_all add: s'_def procs fun_eq_iff)
  have "ids_ok s' \<and> tables_ok s' \<and> rows_safe s'"
  proof (rule in_place [OF refs(1,3-5) i])
    show "mt_ok (sum_over proc_pend (reg_procs s') i) (mt_of s' i)"
      using sized(2) by (simp add: pend mts [OF ib] mt_ok_def same w)
    show "id_of s i \<in> dom (reg_disk s) \<Longrightarrow> sum_over proc_pend (reg_procs s') i = 0"
      using refs(5) i unfolding pend rows_safe_def by blast
    show "sum_over proc_holds (reg_procs s') x \<le> 1" for x using refs(4) unfolding pend tables_ok_def by blast
    show "proc_ok s' p" if "p \<in># reg_procs s'" for p using that okp okq by (auto simp: s'_def)
    show "dom (reg_status s') = dom (reg_status s)" using ts by (auto simp: s')
  qed (use mts idj rows sized(1) lg pend in \<open>simp_all add: s' mts [OF ib] w mt_sized_def\<close>)
  then show "ids_ok s'" "tables_ok s'" "rows_safe s'" by blast+
qed

lemma publish_keeps_rows:
  assumes inv: "reg_inv s" and procs: "reg_procs s = add_mset (PLogged i slot tid) M"
  defines "s' \<equiv> s\<lparr>reg_buf := upd_mt i (\<lambda>mt. publish_slot_release mt slot) (reg_buf s),
      reg_procs := add_mset PIdle M, hist := insert (id_of s i, tid) (hist s)\<rparr>"
  shows "ids_ok s'" "tables_ok s'" "rows_safe s'"
proof -
  have refs: "refs_exact s" "owners_unique s" "ids_ok s" "tables_ok s" "rows_safe s" using inv by (simp_all add: reg_inv_def)
  have "proc_ok s (PLogged i slot tid)" using refs(4) procs by (simp add: tables_ok_def)
  then have i: "i \<in> base s" and pending: "slot_pending (mt_of s i) slot" "mt_tids (mt_of s i) ! slot = tid"
    "logged (reg_status s) (id_of s i) tid" by simp_all
  have ib: "in_buf i" by (rule base_in_buf [OF refs(1) i])
  have len: "length (reg_buf s) = MEMTABLE_BUF_SIZE" using refs(1) by (simp add: refs_exact_def)
  let ?mt = "publish_slot_release (mt_of s i) slot"
  have mts: "mt_of s' j = (if j = i then ?mt else mt_of s j)" if "in_buf j" for j
    using MT_FROM_SLOTIDX_upd [OF len ib that] by (simp add: s'_def)
  note w = publish_effect [of "mt_of s i" slot]
  have "mt_ok (sum_over proc_pend (reg_procs s) i) (mt_of s i)" using refs(4) i unfolding tables_ok_def by blast
  moreover have "sum_over proc_pend (reg_procs s) i = Suc (sum_over proc_pend M i)" by (simp add: procs)
  ultimately have ok: "mt_sized (mt_of s i)" "mt_ok (Suc (sum_over proc_pend M i)) (mt_of s i)"
    using refs(4) ib by (simp_all add: tables_ok_def)
  note e = publish_rows [OF ok(2,1) pending(1)]
  have idj: "id_of s' j = id_of s j" for j
    using w(1) upd_mt_field [of memtable_id "\<lambda>mt. publish_slot_release mt slot" "reg_buf s" i] by (simp add: s'_def)
  have "0 < sum_over proc_pend (reg_procs s) i" by (simp add: procs)
  then have fresh: "id_of s i \<notin> dom (reg_disk s)" using refs(5) i by (auto simp: rows_safe_def)
  have okp: "proc_ok s' p" if p: "p \<in># M" for p
  proof -
    have "proc_ok s p" using refs(4) p procs by (simp add: tables_ok_def)
    moreover have "slot_pending (mt_of s' j) k" if "slot_pending (mt_of s j) k" "0 < proc_holds p (j, k)" "j \<in> base s" for j k
    proof -
      have "sum_over proc_holds (add_mset (PLogged i slot tid) M) (i, slot) \<le> 1"
        using refs(4) unfolding tables_ok_def procs by blast
      from proc_ok_slot [OF this _ p] have "(j, k) \<noteq> (i, slot)" using that(2) by auto
      then show ?thesis using that(1) mts [OF base_in_buf [OF refs(1) that(3)]] e(4) by (cases "j = i") auto
    qed
    moreover have "mt_tids (mt_of s' j) = mt_tids (mt_of s j)" for j
      using w(2) upd_mt_field [of mt_tids "\<lambda>mt. publish_slot_release mt slot" "reg_buf s" i] by (simp add: s'_def)
    moreover have "base s' = base s" "reg_disk s' = reg_disk s" "reg_status s' = reg_status s" by (simp_all add: s'_def)
    ultimately show ?thesis by (cases p) (auto simp: idj)
  qed
  have s': "base s' = base s" "reg_disk s' = reg_disk s" "reg_lsm s' = reg_lsm s" "reg_status s' = reg_status s"
    "hist s' = insert (id_of s i, tid) (hist s)" "reg_procs s' = add_mset PIdle M"
    by (simp_all add: s'_def)
  have holds: "sum_over proc_holds M x \<le> 1" for x
    using refs(4) unfolding procs tables_ok_def by (metis add_leE sum_over_add)
  have "ids_ok s' \<and> tables_ok s' \<and> rows_safe s'"
  proof (rule in_place [OF refs(1,3-5) i])
    show "proc_ok s' p" if "p \<in># reg_procs s'" for p using that okp by (auto simp: s'_def)
    show "mt_ok (sum_over proc_pend (reg_procs s') i) (mt_of s' i)" using e(1) by (simp add: mts [OF ib] s')
    show "j \<noteq> i \<Longrightarrow> sum_over proc_pend (reg_procs s') j = sum_over proc_pend (reg_procs s) j" for j by (simp add: s' procs)
    show "sum_over proc_holds (reg_procs s') x \<le> 1" for x using holds by (simp add: s')
    show "(sid, t) \<in> hist s \<or> sid = id_of s i \<and> row_present (mt_of s' i) t \<and> logged (reg_status s') sid t
        \<and> sid \<notin> dom (reg_disk s)" if "(sid, t) \<in> hist s'" for sid t
      using that e(3) pending(2,3) fresh by (auto simp: s' mts [OF ib])
  qed (use mts idj e(2) ok(1) fresh in \<open>simp_all add: s' mts [OF ib] w mt_sized_def\<close>)
  then show "ids_ok s'" "tables_ok s'" "rows_safe s'" by blast+
qed

text \<open>The slots a process works on are held by the index.\<close>

definition touches :: "proc \<Rightarrow> int \<Rightarrow> bool" where
  "touches p i \<longleftrightarrow> 0 < proc_pend p i \<or> 0 < proc_claims p i \<or> 0 < proc_owns p i"

lemma touches_base:
  assumes inv: "reg_inv s" and p: "p \<in># reg_procs s" "touches p i"
  shows "i \<in> base s"
proof -
  have own: "owners_unique s" and ok: "proc_ok s p" using inv p(1) by (simp_all add: reg_inv_def tables_ok_def)
  obtain M where M: "reg_procs s = add_mset p M" using p(1) by (metis insert_DiffM)
  consider "0 < proc_pend p i" | "0 < proc_claims p i" | "0 < proc_owns p i" using p(2) by (auto simp: touches_def)
  then show ?thesis
  proof cases
    case 1 then show ?thesis using ok by (cases p) (auto split: if_splits)
  next
    case 2 then show ?thesis using claimed_queued [OF own M] queue_owned [OF own] by blast
  next
    case 3 then show ?thesis using proc_owned [OF own M] by blast
  qed
qed

lemma logged_fresh: "reg_inv s \<Longrightarrow> PLogged i slot tid \<in># reg_procs s \<Longrightarrow> id_of s i \<notin> dom (reg_disk s)"
proof
  assume s: "reg_inv s" "PLogged i slot tid \<in># reg_procs s" "id_of s i \<in> dom (reg_disk s)"
  have "i \<in> base s" using touches_base [OF s(1,2), of i] by (simp add: touches_def)
  then have "sum_over proc_pend (reg_procs s) i = 0" using s(1,3) unfolding reg_inv_def rows_safe_def by blast
  moreover have "0 < sum_over proc_pend (reg_procs s) i" by (rule pend_pos [OF s(2)]) simp
  ultimately show False by simp
qed

lemma proc_ok_mono:
  assumes "proc_ok s p"
    "\<And>i. touches p i \<Longrightarrow> (i \<in> base s \<longrightarrow> i \<in> base s') \<and> mt_view (mt_of s' i) = mt_view (mt_of s i)"
    "dom (reg_disk s) \<subseteq> dom (reg_disk s')"
    "\<And>i slot tid. p = PLogged i slot tid \<Longrightarrow> logged (reg_status s) (id_of s i) tid \<Longrightarrow> logged (reg_status s') (id_of s i) tid"
  shows "proc_ok s' p"
proof -
  have t: "(i \<in> base s \<longrightarrow> i \<in> base s') \<and> slot_pending (mt_of s' i) slot = slot_pending (mt_of s i) slot
      \<and> mt_tids (mt_of s' i) = mt_tids (mt_of s i) \<and> id_of s' i = id_of s i" if "touches p i" for i slot
  proof -
    have v: "mt_view (mt_of s' i) = mt_view (mt_of s i)" using assms(2) [OF that] by blast
    show ?thesis using assms(2) [OF that] mt_view_cong(1,5,6) [OF v] by simp
  qed
  show ?thesis
  proof (cases p)
    case (PReserved i slot tid vec)
    then show ?thesis using assms(1) t [of i slot] by (simp add: touches_def)
  next
    case (PLogged i slot tid)
    then show ?thesis using assms(1) assms(4) [OF PLogged] t [of i slot] by (simp add: touches_def)
  next
    case (PFlushed i sid)
    then show ?thesis using assms(1,3) t [of i] by (auto simp: touches_def)
  next
    case (PLoaded i sid)
    then show ?thesis using assms(1,3) t [of i] by (auto simp: touches_def)
  next
    case (PTracked i)
    then show ?thesis using assms(1,3) t [of i] by (auto simp: touches_def)
  next
    case (PUnlinked i)
    then show ?thesis using assms(1,3) t [of i] by (auto simp: touches_def)
  qed simp_all
qed

text \<open>A step that changes no held memtable.\<close>

lemma rows_keep:
  assumes inv: "reg_inv s" and held: "base s' \<subseteq> base s"
    and mts: "\<And>i. i \<in> base s \<Longrightarrow> mt_view (mt_of s' i) = mt_view (mt_of s i)"
      "\<And>i. in_buf i \<Longrightarrow> mt_sized (mt_of s i) \<Longrightarrow> mt_sized (mt_of s' i)"
    and same: "reg_disk s' = reg_disk s" "hist s' = hist s"
    and status: "dom (reg_status s') \<subseteq> dom (reg_status s)"
      "\<And>sid tid. sid \<notin> dom (reg_disk s) \<Longrightarrow> logged (reg_status s) sid tid \<Longrightarrow> logged (reg_status s') sid tid"
    and lsm: "next_segment_id (reg_lsm s') = next_segment_id (reg_lsm s)"
      "set (flushed_list (reg_lsm s')) \<subseteq> dom (reg_disk s)"
      "length (flushed_not_released (reg_lsm s')) = length (flushed_not_released (reg_lsm s))"
    and procs: "sum_over proc_pend (reg_procs s') = sum_over proc_pend (reg_procs s)"
      "sum_over proc_holds (reg_procs s') = sum_over proc_holds (reg_procs s)"
      "\<And>p. p \<in># reg_procs s' \<Longrightarrow> p \<in># reg_procs s \<and> (\<forall>i. touches p i \<longrightarrow> i \<in> base s') \<or> proc_ok s' p"
  shows "ids_ok s'" "tables_ok s'" "rows_safe s'"
proof -
  have refs: "refs_exact s" "owners_unique s" "ids_ok s" "tables_ok s" "rows_safe s" using inv by (simp_all add: reg_inv_def)
  note cong = mt_view_cong [OF mts(1)]
  have b: "i \<in> base s" if "i \<in> base s'" for i using held that by blast
  show "ids_ok s'"
    unfolding ids_ok_def same lsm
  proof (intro conjI)
    show "\<forall>i \<in> base s'. id_of s' i < next_segment_id (reg_lsm s)" using refs(3) cong(1) b by (simp add: ids_ok_def)
    show "inj_on (id_of s') (base s')" using refs(3) cong(1) b by (simp add: ids_ok_def inj_on_def)
    show "\<forall>sid. sid \<in> dom (reg_status s') \<or> sid \<in> dom (reg_disk s) \<or> sid \<in> fst ` hist s \<longrightarrow>
        sid < next_segment_id (reg_lsm s)"
    proof (intro allI impI)
      fix sid assume "sid \<in> dom (reg_status s') \<or> sid \<in> dom (reg_disk s) \<or> sid \<in> fst ` hist s"
      then have "sid \<in> dom (reg_status s) \<or> sid \<in> dom (reg_disk s) \<or> sid \<in> fst ` hist s"
        using status(1) by auto
      with refs(3) show "sid < next_segment_id (reg_lsm s)" unfolding ids_ok_def by blast
    qed
  qed
  have "proc_ok s' p" if p: "p \<in># reg_procs s'" for p
    using procs(3) [OF p]
  proof
    assume old: "p \<in># reg_procs s \<and> (\<forall>i. touches p i \<longrightarrow> i \<in> base s')"
    then have "proc_ok s p" using refs(4) by (simp add: tables_ok_def)
    then show ?thesis
    proof (rule proc_ok_mono)
      show "dom (reg_disk s) \<subseteq> dom (reg_disk s')" by (simp add: same)
      show "logged (reg_status s') (id_of s i) tid" if "p = PLogged i slot tid" "logged (reg_status s) (id_of s i) tid" for i slot tid
        using status(2) that logged_fresh [OF inv] old by blast
    qed (use old b mts(1) in blast)
  qed
  moreover have "mt_ok (sum_over proc_pend (reg_procs s) i) (mt_of s' i)" if "i \<in> base s'" for i
    using refs(4) b [OF that] cong(2) unfolding tables_ok_def by blast
  moreover have "mt_sized (mt_of s' i)" if "in_buf i" for i
    using refs(4) mts(2) that unfolding tables_ok_def by blast
  moreover have "sum_over proc_holds (reg_procs s) x \<le> 1" for x using refs(4) unfolding tables_ok_def by blast
  ultimately show "tables_ok s'" unfolding tables_ok_def procs(1,2) by blast
  have od: "row_on_disk s' = row_on_disk s" by (simp add: row_on_disk_def fun_eq_iff same)
  show "rows_safe s'"
    unfolding rows_safe_def same od procs(1)
  proof (intro conjI ballI allI impI)
    fix i tid assume "i \<in> base s'" "(id_of s' i, tid) \<in> hist s"
    then show "row_present (mt_of s' i) tid" using b cong(1,4) refs(5) by (simp add: rows_safe_def)
  next
    fix sid tid assume "(sid, tid) \<in> hist s"
    then have "if sid \<in> dom (reg_disk s) then row_on_disk s sid tid else logged (reg_status s) sid tid"
      using refs(5) by (simp add: rows_safe_def)
    then show "if sid \<in> dom (reg_disk s) then row_on_disk s sid tid else logged (reg_status s') sid tid"
      using status(2) [of sid tid] by (simp split: if_splits)
  next
    fix i assume i: "i \<in> base s'" "id_of s' i \<in> dom (reg_disk s)"
    then have "id_of s i \<in> dom (reg_disk s)" using cong(1) b by simp
    then have "mt_sealed (mt_of s i)" "sum_over proc_pend (reg_procs s) i = 0"
      using b [OF i(1)] refs(5) unfolding rows_safe_def by blast+
    then show "mt_sealed (mt_of s' i)" "sum_over proc_pend (reg_procs s) i = 0"
      using cong(7) b [OF i(1)] by simp_all
  qed (use refs(5) lsm in \<open>auto simp: rows_safe_def\<close>)
qed

lemma allocate_keeps_rows:
  assumes inv: "reg_inv s" and limit: "limit \<le> MEMTABLE_MAX_CAPACITY"
    and procs: "reg_procs s = add_mset (PAllocate need cur) M"
    and reg: "register_and_set_memtable limit None (reg_lsm s) (reg_buf s) (reg_status s) = Some (new, lsm, buf, status)"
    "0 \<le> new" and room: "next_segment_id (reg_lsm s) < UINT32_MAX"
  defines "s' \<equiv> s\<lparr>reg_lsm := lsm, reg_buf := buf, reg_status := status, base := insert new (base s),
      reg_procs := add_mset (if need then PEnqueue cur new else PInstall new) M\<rparr>"
  shows "ids_ok s'" "tables_ok s'" "rows_safe s'"
proof -
  have refs: "refs_exact s" "owners_unique s" "ids_ok s" "tables_ok s" "rows_safe s" using inv by (simp_all add: reg_inv_def)
  let ?sid = "next_segment_id (reg_lsm s)"
  from reg obtain mt where new: "in_buf new" "mb_ref_count (reg_buf s ! nat new) = 0"
    "reset_memtable limit (indexRelId (reg_lsm s)) ?sid (lx_dim (reg_lsm s)) (lx_elem_size (reg_lsm s)) (mt_of s new) = Some mt"
    "lsm = (reg_lsm s)\<lparr>next_segment_id := ?sid + 1\<rparr>"
    "buf = (reg_buf s)[nat new := \<lparr>mb_ref_count = 1, mb_mt = mt\<rparr>]"
    "reg_status s ?sid = None" "status = (reg_status s)(?sid \<mapsto> {#})" by (rule register_SomeD)
  have none: "new \<notin> base s" using refs(1) new(1,2) by (auto simp: refs_exact_def of_bool_def split: if_splits)
  have len: "length (reg_buf s) = MEMTABLE_BUF_SIZE" using refs(1) by (simp add: refs_exact_def)
  have mts: "mt_of s' j = (if j = new then mt else mt_of s j)" if "in_buf j" for j
    using that new(1) len by (auto simp: s'_def new(5) MT_FROM_SLOTIDX_def in_buf_def nth_list_update)
  have mtj: "mt_of s' j = mt_of s j" if "j \<in> base s" for j
    using mts [OF base_in_buf [OF refs(1) that]] that none by auto
  obtain cap where "memtable_capacity limit (lx_dim (reg_lsm s)) (lx_elem_size (reg_lsm s)) = Some cap"
    using new(3) by (auto simp: reset_memtable_def split: option.splits)
  then have cap: "cap \<le> limit" "mt_capacity mt = cap" "memtable_id mt = ?sid" "current_size mt = 0" "ready_cnt mt = 0"
    "\<not> mt_sealed mt" "mt_tids mt = mt_tids (mt_of s new)" "mt_ready mt = replicate cap False @ drop cap (mt_ready (mt_of s new))"
    using new(3) memtable_capacity_le by (auto simp: reset_memtable_def)
  have sized: "mt_sized (mt_of s new)" using refs(4) new(1) by (simp add: tables_ok_def)
  have pend0: "sum_over proc_pend (reg_procs s) new = 0"
  proof (rule ccontr)
    assume "sum_over proc_pend (reg_procs s) new \<noteq> 0"
    then obtain p where "p \<in># reg_procs s" "proc_pend p new \<noteq> 0" by (auto simp: sum_over_def)
    then have "new \<in> base s" using touches_base [OF inv, of p new] by (simp add: touches_def)
    with none show False by simp
  qed
  have pend: "sum_over proc_pend (reg_procs s') j = sum_over proc_pend (reg_procs s) j"
    "sum_over proc_holds (reg_procs s') x = sum_over proc_holds (reg_procs s) x" for j x
    by (simp_all add: s'_def procs)
  have lt: "x < ?sid \<Longrightarrow> x < ?sid + 1" "?sid < ?sid + 1" for x
    using room by (auto simp: word_less_nat_alt unat_word_ariths)
  have s': "base s' = insert new (base s)" "reg_disk s' = reg_disk s" "hist s' = hist s"
    "next_segment_id (reg_lsm s') = ?sid + 1" "reg_status s' = (reg_status s)(?sid \<mapsto> {#})"
    "flushed_list (reg_lsm s') = flushed_list (reg_lsm s)" "flushed_not_released (reg_lsm s') = flushed_not_released (reg_lsm s)"
    by (simp_all add: s'_def new(4,7) flushed_list_def)
  have old: "id_of s j < ?sid" if "j \<in> base s" for j using refs(3) that by (simp add: ids_ok_def)
  have used: "sid < ?sid" if "sid \<in> dom (reg_status s) \<or> sid \<in> dom (reg_disk s) \<or> sid \<in> fst ` hist s" for sid
    using refs(3) that unfolding ids_ok_def by blast
  have idn: "id_of s' new = ?sid" "mt_of s' new = mt" using mts [OF new(1)] cap(3) by simp_all
  show "ids_ok s'"
    unfolding ids_ok_def s'
  proof (intro conjI ballI allI impI)
    show "id_of s' j < ?sid + 1" if "j \<in> insert new (base s)" for j
      using that idn old mtj lt by (cases "j = new") simp_all
    have "inj_on (id_of s') (base s)" using refs(3) mtj by (simp add: ids_ok_def inj_on_def)
    moreover have "id_of s' new \<noteq> id_of s' j" if "j \<in> base s" for j
      using old [OF that] idn(1) mtj [OF that] by simp
    ultimately show "inj_on (id_of s') (insert new (base s))" by (auto simp: inj_on_insert)
    show "sid < ?sid + 1" if "sid \<in> dom ((reg_status s)(?sid \<mapsto> {#})) \<or> sid \<in> dom (reg_disk s) \<or> sid \<in> fst ` hist s" for sid
      using that used [of sid] lt by (cases "sid = ?sid") auto
  qed
  have lg: "logged (reg_status s) sid tid \<Longrightarrow> logged (reg_status s') sid tid" for sid tid
    using new(6) by (auto simp: logged_def s')
  show "tables_ok s'"
    unfolding tables_ok_def s' pend
  proof (intro conjI ballI allI impI)
    show "mt_ok (sum_over proc_pend (reg_procs s) j) (mt_of s' j)" if "j \<in> insert new (base s)" for j
    proof (cases "j = new")
      case True
      have "mt_ok 0 mt" using cap limit by (simp add: mt_ok_def valid_rows_def nth_append)
      then show ?thesis using True pend0 idn(2) by simp
    qed (use that refs(4) mtj in \<open>simp add: tables_ok_def\<close>)
    show "mt_sized (mt_of s' j)" if "in_buf j" for j
      using mts [OF that] refs(4) that sized cap limit by (auto simp: tables_ok_def mt_sized_def)
    show "sum_over proc_holds (reg_procs s) x \<le> 1" for x using refs(4) unfolding tables_ok_def by blast
    fix p assume "p \<in># reg_procs s'"
    then consider "p \<in># M" | "p = (if need then PEnqueue cur new else PInstall new)" by (auto simp: s'_def)
    then show "proc_ok s' p"
    proof cases
      case 1
      then have p: "p \<in># reg_procs s" by (simp add: procs)
      then have "proc_ok s p" using refs(4) by (simp add: tables_ok_def)
      then show ?thesis
        by (rule proc_ok_mono) (use touches_base [OF inv p] mtj lg in \<open>auto simp: s' logged_def\<close>)
    qed simp
  qed
  have od: "row_on_disk s' = row_on_disk s" by (simp add: row_on_disk_def fun_eq_iff s')
  have notin: "?sid \<notin> dom (reg_disk s)" "(?sid, tid) \<notin> hist s" for tid
    using used [of ?sid] by force+
  show "rows_safe s'"
    unfolding rows_safe_def s'(1-3,6,7) od pend
  proof (intro conjI ballI allI impI)
    fix j tid assume "j \<in> insert new (base s)" "(id_of s' j, tid) \<in> hist s"
    then show "row_present (mt_of s' j) tid"
      using notin(2) idn mtj refs(5) by (cases "j = new") (simp_all add: rows_safe_def)
  next
    fix sid tid assume "(sid, tid) \<in> hist s"
    then have "if sid \<in> dom (reg_disk s) then row_on_disk s sid tid else logged (reg_status s) sid tid"
      using refs(5) by (simp add: rows_safe_def)
    then show "if sid \<in> dom (reg_disk s) then row_on_disk s sid tid else logged (reg_status s') sid tid"
      using lg by (simp split: if_splits)
  next
    fix j assume j: "j \<in> insert new (base s)" "id_of s' j \<in> dom (reg_disk s)"
    then have "j \<noteq> new" using notin(1) idn(1) by auto
    with j have "j \<in> base s" "id_of s j \<in> dom (reg_disk s)" using mtj by auto
    then have "mt_sealed (mt_of s j)" "sum_over proc_pend (reg_procs s) j = 0"
      using refs(5) unfolding rows_safe_def by blast+
    then show "mt_sealed (mt_of s' j)" "sum_over proc_pend (reg_procs s) j = 0"
      using mtj [OF \<open>j \<in> base s\<close>] by simp_all
  qed (use refs(5) in \<open>auto simp: rows_safe_def\<close>)
qed

lemma flushed_has_rows:
  assumes "mt_ok n mt" "mt_sized mt" "row_present mt tid"
  shows "tid \<in> set (flushed_tids mt)"
proof -
  obtain slot where slot: "slot < valid_rows mt" "mt_tids mt ! slot = tid" using assms(3) by (auto simp: row_present_def)
  moreover have "slot < length (mt_tids mt)" using slot(1) mt_ok_valid_rows [OF assms(1)] assms(2) by (simp add: mt_sized_def)
  ultimately show ?thesis by (auto simp: flushed_tids_def in_set_conv_nth)
qed

lemma flush_keeps_rows:
  assumes inv: "reg_inv s" and procs: "reg_procs s = add_mset (PClaimed i) M"
    and poll: "wait_for_publish_poll (mt_of s i) = Inr True"
  defines "s' \<equiv> s\<lparr>reg_disk := (reg_disk s)(id_of s i \<mapsto> flushed_tids (mt_of s i)),
      reg_procs := add_mset (PFlushed i (id_of s i)) M\<rparr>"
  shows "ids_ok s'" "tables_ok s'" "rows_safe s'"
proof -
  have refs: "refs_exact s" "owners_unique s" "ids_ok s" "tables_ok s" "rows_safe s" using inv by (simp_all add: reg_inv_def)
  have i: "i \<in> base s" using touches_base [OF inv, of "PClaimed i" i] by (simp add: procs touches_def)
  have mt: "mt_ok (sum_over proc_pend (reg_procs s) i) (mt_of s i)" "mt_sized (mt_of s i)"
    using refs(4) i base_in_buf [OF refs(1) i] unfolding tables_ok_def by blast+
  have full: "mt_sealed (mt_of s i)" "ready_cnt (mt_of s i) = valid_rows (mt_of s i)"
    using poll by (auto simp: wait_for_publish_poll_def split: if_splits)
  then have pend0: "sum_over proc_pend (reg_procs s) i = 0" using mt(1) by (simp add: mt_ok_def)
  have s': "mt_of s' = mt_of s" "base s' = base s" "hist s' = hist s" "reg_status s' = reg_status s" "reg_lsm s' = reg_lsm s"
    "reg_disk s' = (reg_disk s)(id_of s i \<mapsto> flushed_tids (mt_of s i))"
    "reg_procs s' = add_mset (PFlushed i (id_of s i)) M"
    "sum_over proc_pend (reg_procs s') = sum_over proc_pend (reg_procs s)"
    "sum_over proc_holds (reg_procs s') = sum_over proc_holds (reg_procs s)"
    by (simp_all add: s'_def procs fun_eq_iff)
  have dom: "sid \<in> dom (reg_disk s') \<longleftrightarrow> sid = id_of s i \<or> sid \<in> dom (reg_disk s)" for sid by (auto simp: s'_def)
  show "ids_ok s'"
    unfolding ids_ok_def dom s'(1-5)
  proof (intro conjI allI impI)
    fix sid assume "sid \<in> dom (reg_status s) \<or> (sid = id_of s i \<or> sid \<in> dom (reg_disk s)) \<or> sid \<in> fst ` hist s"
    then show "sid < next_segment_id (reg_lsm s)" using refs(3) i unfolding ids_ok_def by blast
  qed (use refs(3) in \<open>simp_all add: ids_ok_def\<close>)
  show "tables_ok s'"
    unfolding tables_ok_def s'(1-3,8,9)
  proof (intro conjI)
    show "\<forall>p \<in># reg_procs s'. proc_ok s' p"
    proof
      fix p assume "p \<in># reg_procs s'"
      then consider "p \<in># M" | "p = PFlushed i (id_of s i)" by (auto simp: s'(7))
      then show "proc_ok s' p"
      proof cases
        case 1
        then have "p \<in># reg_procs s" by (simp add: procs)
        then have "proc_ok s p" using refs(4) by (simp add: tables_ok_def)
        then show ?thesis by (rule proc_ok_mono) (auto simp: s')
      qed (simp add: s' del: s'(7))
    qed
  qed (use refs(4) in \<open>auto simp: tables_ok_def\<close>)
  have on: "row_on_disk s' (id_of s i) tid" if "(id_of s i, tid) \<in> hist s" for tid
  proof -
    have "row_present (mt_of s i) tid" using refs(5) i that by (simp add: rows_safe_def)
    then show ?thesis using flushed_has_rows [OF mt] by (simp add: row_on_disk_def s'(6))
  qed
  show "rows_safe s'"
    unfolding rows_safe_def dom s'(1-5,8)
  proof (intro conjI ballI allI impI)
    fix sid tid assume h: "(sid, tid) \<in> hist s"
    then have old: "if sid \<in> dom (reg_disk s) then row_on_disk s sid tid else logged (reg_status s) sid tid"
      using refs(5) by (simp add: rows_safe_def)
    show "if sid = id_of s i \<or> sid \<in> dom (reg_disk s) then row_on_disk s' sid tid else logged (reg_status s) sid tid"
      using old on h by (cases "sid = id_of s i"; cases "sid \<in> dom (reg_disk s)") (simp_all add: row_on_disk_def s'(6))
  next
    fix j assume j: "j \<in> base s" "id_of s j = id_of s i \<or> id_of s j \<in> dom (reg_disk s)"
    have "j = i \<or> id_of s j \<in> dom (reg_disk s)" using j refs(3) i by (auto simp: ids_ok_def inj_on_def)
    then have "mt_sealed (mt_of s j) \<and> sum_over proc_pend (reg_procs s) j = 0"
      using full(1) pend0 refs(5) j(1) unfolding rows_safe_def by blast
    then show "mt_sealed (mt_of s j)" "sum_over proc_pend (reg_procs s) j = 0" by simp_all
  qed (use refs(5) in \<open>auto simp: rows_safe_def\<close>)
qed

text \<open>Nothing else refers to a memtable its flush worker is about to release.\<close>

lemma unlinked_alone:
  assumes inv: "reg_inv s" and procs: "reg_procs s = add_mset (PUnlinked i) M" and p: "p \<in># M"
  shows "\<not> touches p i"
proof
  assume t: "touches p i"
  have own: "owners_unique s" using inv by (simp add: reg_inv_def)
  have i: "i \<in> base s" using touches_base [OF inv, of "PUnlinked i" i] by (simp add: procs touches_def)
  have one: "slot_owners s i = 1" by (rule owned_in_base [OF own]) (simp add: slot_owners_def procs)
  obtain M' where M': "M = add_mset p M'" using p by (metis insert_DiffM)
  have "proc_ok s (PUnlinked i)" using inv procs by (simp add: reg_inv_def tables_ok_def)
  then have pend: "sum_over proc_pend (reg_procs s) i = 0"
    using inv i unfolding reg_inv_def rows_safe_def by simp
  consider "0 < proc_pend p i" | "0 < proc_claims p i" | "0 < proc_owns p i" using t by (auto simp: touches_def)
  then show False
  proof cases
    case 1 then show False using pend by (simp add: procs M')
  next
    case 2
    have "0 < sum_over proc_claims (reg_procs s) i" using 2 by (simp add: procs M')
    then have "0 < count_list (queue (reg_lsm s)) i" using own unfolding owners_unique_def by (meson order.strict_trans2)
    then show False using one by (simp add: slot_owners_def procs)
  next
    case 3 then show False using one by (simp add: slot_owners_def procs M')
  qed
qed

lemma release_flushed_domain:
  "sid \<notin> set (flushed_list lsm) \<Longrightarrow> snd (release_flushed lsm st) sid = st sid"
  "dom (snd (release_flushed lsm st)) \<subseteq> dom st"
proof -
  have "foldl (\<lambda>st sid. st(sid := None)) st xs sid = (if sid \<in> set xs then None else st sid)" for xs sid and st :: status_view
    by (induction xs arbitrary: st) auto
  then show "sid \<notin> set (flushed_list lsm) \<Longrightarrow> snd (release_flushed lsm st) sid = st sid"
    "dom (snd (release_flushed lsm st)) \<subseteq> dom st"
    by (auto simp: release_flushed_def flushed_list_def split: if_splits)
qed

lemma track_flushed_list:
  assumes "length (flushed_not_released lsm) = MEMTABLE_NUM"
  shows "set (flushed_list (track_flushed sid lsm)) \<subseteq> insert sid (set (flushed_list lsm))"
    "length (flushed_not_released (track_flushed sid lsm)) = MEMTABLE_NUM"
    "next_segment_id (track_flushed sid lsm) = next_segment_id lsm"
  using assms by (auto simp: track_flushed_def flushed_list_def Let_def take_Suc_conv_app_nth)

text \<open>Every step keeps the invariant.\<close>

lemma in_buf_lt: "refs_exact s \<Longrightarrow> in_buf i \<Longrightarrow> nat i < length (reg_buf s)"
  by (simp add: refs_exact_def in_buf_def)

lemma foreign_claim_keeps_rows:
  assumes inv: "reg_inv s" and i: "0 \<le> i" "nat i < length (reg_buf s)" "mb_ref_count (reg_buf s ! nat i) = 0" and mt: "mt_sized mt"
  defines "s' \<equiv> s\<lparr>reg_buf := (reg_buf s)[nat i := \<lparr>mb_ref_count = 1, mb_mt = mt\<rparr>], foreign := (foreign s)(i := 1)\<rparr>"
  shows "ids_ok s' \<and> tables_ok s' \<and> rows_safe s'"
proof -
  have refs: "refs_exact s" "rows_safe s" using inv by (simp_all add: reg_inv_def)
  have "in_buf i" using refs(1) i(1,2) by (simp add: refs_exact_def in_buf_def)
  then have none: "i \<notin> base s" using refs(1) i(3) by (auto simp: refs_exact_def of_bool_def split: if_splits)
  have mts: "mt_of s' j = (if j = i then mt else mt_of s j)" if "in_buf j" for j
    using that i(1,2) by (auto simp: s'_def MT_FROM_SLOTIDX_def in_buf_def nth_list_update)
  have held: "mt_of s' j = mt_of s j" if "j \<in> base s" for j
    using mts [OF base_in_buf [OF refs(1) that]] that none by auto
  have fl: "set (flushed_list (reg_lsm s')) \<subseteq> dom (reg_disk s)" using refs(2) by (auto simp: s'_def rows_safe_def)
  show ?thesis
    by (intro conjI rows_keep [OF inv]; (rule fl)?)
      (use touches_base [OF inv] held mts mt in \<open>auto simp: s'_def\<close>)
qed

lemma plain_keeps_rows:
  assumes inv: "reg_inv s" and held: "base s' \<subseteq> base s"
    and mts: "\<And>i. mt_view (mt_of s' i) = mt_view (mt_of s i)"
    and same: "reg_disk s' = reg_disk s" "hist s' = hist s" "reg_status s' = reg_status s"
    and lsm: "next_segment_id (reg_lsm s') = next_segment_id (reg_lsm s)"
      "set (flushed_list (reg_lsm s')) \<subseteq> dom (reg_disk s)"
      "length (flushed_not_released (reg_lsm s')) = length (flushed_not_released (reg_lsm s))"
    and procs: "sum_over proc_pend (reg_procs s') = sum_over proc_pend (reg_procs s)"
      "sum_over proc_holds (reg_procs s') = sum_over proc_holds (reg_procs s)"
      "\<And>p. p \<in># reg_procs s' \<Longrightarrow> p \<in># reg_procs s \<and> (\<forall>i. touches p i \<longrightarrow> i \<in> base s') \<or> proc_ok s' p"
  shows "ids_ok s' \<and> tables_ok s' \<and> rows_safe s'"
proof -
  have sized: "mt_sized (mt_of s' i) = mt_sized (mt_of s i)" for i by (rule mt_view_cong(3) [OF mts])
  show ?thesis
    by (intro conjI rows_keep [OF inv held]; (rule lsm procs mts; assumption?)?) (simp_all add: same sized)
qed

text \<open>One process goes on from \<open>p\<close> to \<open>q\<close>; neither holds a row.\<close>

lemma moved_keeps_rows:
  assumes inv: "reg_inv s" and procs: "reg_procs s = add_mset p M" "reg_procs s' = M' + M" "\<And>q. q \<in># M' \<Longrightarrow> proc_ok s' q"
      "\<And>x. proc_pend p x = 0" "\<And>x. proc_holds p x = 0" "\<And>q x. q \<in># M' \<Longrightarrow> proc_pend q x = 0"
      "\<And>q x. q \<in># M' \<Longrightarrow> proc_holds q x = 0"
    and mts: "\<And>i. mt_view (mt_of s' i) = mt_view (mt_of s i)"
    and same: "base s' = base s" "reg_disk s' = reg_disk s" "hist s' = hist s" "reg_status s' = reg_status s"
    and lsm: "next_segment_id (reg_lsm s') = next_segment_id (reg_lsm s)"
      "flushed_not_released (reg_lsm s') = flushed_not_released (reg_lsm s)"
      "flushed_not_released_count (reg_lsm s') = flushed_not_released_count (reg_lsm s)"
  shows "ids_ok s' \<and> tables_ok s' \<and> rows_safe s'"
proof -
  have fl: "flushed_list (reg_lsm s') = flushed_list (reg_lsm s)" using lsm by (simp add: flushed_list_def)
  have "set (flushed_list (reg_lsm s')) \<subseteq> dom (reg_disk s)"
    unfolding fl using inv by (auto simp: reg_inv_def rows_safe_def)
  moreover have "sum_over proc_pend M' x = 0" for x using procs(6) by (auto simp: sum_over_def)
  moreover have "sum_over proc_holds M' x = 0" for x using procs(7) by (auto simp: sum_over_def)
  moreover have "i \<in> base s" if "q \<in># M" "touches q i" for q i using touches_base [OF inv _ that(2)] that(1) procs(1) by simp
  ultimately show ?thesis
    by (intro plain_keeps_rows [OF inv _ mts same(2-4) lsm(1)])
      (use procs in \<open>auto simp: same(1) lsm(2) fun_eq_iff sum_over_def\<close>)
qed

lemma mt_view_upd:
  "mt_view (f (MT_FROM_SLOTIDX buf i)) = mt_view (MT_FROM_SLOTIDX buf i) \<Longrightarrow>
     mt_view (MT_FROM_SLOTIDX (upd_mt i f buf) j) = mt_view (MT_FROM_SLOTIDX buf j)"
  by (rule upd_mt_field)

lemma rows_step:
  assumes step: "reg_step limit s s'" and inv: "reg_inv s" and limit: "limit \<le> MEMTABLE_MAX_CAPACITY"
  shows "ids_ok s' \<and> tables_ok s' \<and> rows_safe s'"
proof -
  have refs: "refs_exact s" "owners_unique s" "ids_ok s" "tables_ok s" "rows_safe s" using inv by (simp_all add: reg_inv_def)
  have head: "proc_ok s p" if "reg_procs s = add_mset p M" for p M using refs(4) that by (simp add: tables_ok_def)
  from step show ?thesis
  proof (cases rule: reg_step.cases)
    case (reserve M i slot buf tid vec)
    show ?thesis
      using reserve_keeps_rows [OF inv reserve(2) _ _ reserve(3) refl, where tid = tid and vec = vec] by (simp add: reserve(1))
  next
    case (insert_rotate M need buf)
    show ?thesis
      using reserve_keeps_rows [OF inv insert_rotate(2) _ _ insert_rotate(3) refl, where need = need] by (simp add: insert_rotate(1))
  next
    case (log i slot tid vec M mt status)
    show ?thesis unfolding log(1) by (intro conjI log_keeps_rows [OF inv log(2,3,4)])
  next
    case (publish i slot tid M)
    show ?thesis unfolding publish(1) by (intro conjI publish_keeps_rows [OF inv publish(2)])
  next
    case (allocate need cur M new lsm buf status)
    show ?thesis unfolding allocate(1) by (intro conjI allocate_keeps_rows [OF inv limit allocate(2,3,4,5)])
  next
    case (flush i M)
    show ?thesis unfolding flush(1) by (intro conjI flush_keeps_rows [OF inv flush(2,3)])
  next
    case (foreign_claim i mt)
    show ?thesis unfolding foreign_claim(1)
      by (rule foreign_claim_keeps_rows [OF inv foreign_claim(2,3,4)]) (simp add: foreign_claim(5,6) mt_sized_def)
  next
    case (rotate need M cur lsm)
    have "next_segment_id lsm = next_segment_id (reg_lsm s)" "flushed_not_released lsm = flushed_not_released (reg_lsm s)"
      "flushed_not_released_count lsm = flushed_not_released_count (reg_lsm s)"
      using rotate(3) by (auto simp: rotate_begin_def Let_def split: if_splits)
    then show ?thesis
      by (intro moved_keeps_rows [OF inv rotate(2), of s' "{#PAllocate need cur#}"]) (auto simp: rotate(1))
  next
    case (enqueue cur new M lsm)
    have "next_segment_id lsm = next_segment_id (reg_lsm s)" "flushed_not_released lsm = flushed_not_released (reg_lsm s)"
      "flushed_not_released_count lsm = flushed_not_released_count (reg_lsm s)"
      using enqueue(3) by (auto simp: enqueue_sealed_memtable_def split: if_splits)
    then show ?thesis
      by (intro moved_keeps_rows [OF inv enqueue(2), of s' "{#PInstall new#}"]) (auto simp: enqueue(1))
  next
    case (claim M i buf)
    have "mt_view (MT_FROM_SLOTIDX buf j) = mt_view (mt_of s j)" for j
      unfolding claim_immutable_SomeD(3) [OF claim(3)] by (rule mt_view_upd) (simp add: mt_view_def)
    then show ?thesis
      by (intro moved_keeps_rows [OF inv claim(2), of s' "{#PClaimed i#}"]) (auto simp: claim(1))
  next
    case (unlink i M lsm)
    have "next_segment_id lsm = next_segment_id (reg_lsm s)" "flushed_not_released lsm = flushed_not_released (reg_lsm s)"
      "flushed_not_released_count lsm = flushed_not_released_count (reg_lsm s)"
      using unlink(3) by (auto simp: handoff_unlink_def split: option.splits)
    then show ?thesis
      by (intro moved_keeps_rows [OF inv unlink(2), of s' "{#PUnlinked i#}"])
        (use head [OF unlink(2)] in \<open>auto simp: unlink(1)\<close>)
  next
    case (track i sid M)
    have ok: "id_of s i = sid" "sid \<in> dom (reg_disk s)" using head [OF track(2)] by simp_all
    have len: "length (flushed_not_released (reg_lsm s)) = MEMTABLE_NUM" "set (flushed_list (reg_lsm s)) \<subseteq> dom (reg_disk s)"
      using refs(5) by (auto simp: rows_safe_def)
    note t = track_flushed_list [OF len(1), of sid]
    have "i \<in> base s" if "p \<in># M" "touches p i" for p i using touches_base [OF inv _ that(2)] that(1) track(2) by simp
    then show ?thesis
      by (intro plain_keeps_rows [OF inv]) (use t ok len in \<open>auto simp: track(1,2) fun_eq_iff\<close>)
  next
    case (release_status lsm status)
    have r: "lsm = (reg_lsm s)\<lparr>flushed_not_released_count := 0\<rparr>" "status = snd (release_flushed (reg_lsm s) (reg_status s))"
      using release_status(2) by (auto simp: release_flushed_def)
    have fl: "set (flushed_list (reg_lsm s)) \<subseteq> dom (reg_disk s)" using refs(5) by (auto simp: rows_safe_def)
    have st: "status sid = reg_status s sid" if "sid \<notin> dom (reg_disk s)" for sid
      unfolding r(2) by (rule release_flushed_domain(1)) (use fl that in blast)
    show ?thesis
      by (intro conjI rows_keep [OF inv])
        (use release_flushed_domain(2) touches_base [OF inv] st in
          \<open>auto simp: release_status(1) r flushed_list_def logged_def\<close>)
  next
    case (release i M)
    have alone: "\<not> touches p i" if "p \<in># M" for p by (rule unlinked_alone [OF inv release(2) that])
    have held: "j \<in> base s" if "p \<in># M" "touches p j" for p j using touches_base [OF inv _ that(2)] that(1) release(2) by simp
    have fl: "set (flushed_list (reg_lsm s)) \<subseteq> dom (reg_disk s)" using refs(5) by (auto simp: rows_safe_def)
    show ?thesis
      by (intro plain_keeps_rows [OF inv])
        (use alone held fl in \<open>auto simp: release(1,2) fun_eq_iff release_memtable_slot_def\<close>)
  next
    case (search M snap buf)
    show ?thesis
      by (intro moved_keeps_rows [OF inv search(2), of s' "{#PSearch (gidx snap # sidxs snap)#}"])
        (auto simp: search(1) take_snapshot_Some(1) [OF search(3)])
  next
    case (rotate_skip need M)
    show ?thesis
      by (intro moved_keeps_rows [OF inv rotate_skip(2), of s' "{#PIdle#}"]) (auto simp: rotate_skip(1))
  next
    case (install new M)
    show ?thesis
      by (intro moved_keeps_rows [OF inv install(2), of s' "{#PIdle#}"]) (auto simp: install(1) rotate_install_def)
  next
    case (flush_error i M)
    show ?thesis
      by (intro moved_keeps_rows [OF inv flush_error(2), of s' "{#}"]) (auto simp: flush_error(1))
  next
    case (load i sid M)
    show ?thesis
      by (intro moved_keeps_rows [OF inv load(2), of s' "{#PLoaded i sid#}"])
        (use head [OF load(2)] in \<open>auto simp: load(1)\<close>)
  next
    case (load_failed i sid M)
    show ?thesis
      by (intro moved_keeps_rows [OF inv load_failed(2), of s' "{#PLoaded i sid#}"])
        (use head [OF load_failed(2)] in \<open>auto simp: load_failed(1)\<close>)
  next
    case (search_release i "is" M)
    show ?thesis
      by (intro moved_keeps_rows [OF inv search_release(2), of s' "{#PSearch is#}"]) (auto simp: search_release(1))
  next
    case (search_end M)
    show ?thesis
      by (intro moved_keeps_rows [OF inv search_end(2), of s' "{#PIdle#}"]) (auto simp: search_end(1))
  next
    case (foreign_release i)
    have fl: "set (flushed_list (reg_lsm s)) \<subseteq> dom (reg_disk s)" using refs(5) by (auto simp: rows_safe_def)
    show ?thesis
      by (intro plain_keeps_rows [OF inv]) (use fl touches_base [OF inv] in \<open>auto simp: foreign_release(1)\<close>)
  qed
qed

lemma reg_inv_step: "reg_step limit s s' \<Longrightarrow> reg_inv s \<Longrightarrow> limit \<le> MEMTABLE_MAX_CAPACITY \<Longrightarrow> reg_inv s'"
  using refs_exact_step owners_unique_step rows_step unfolding reg_inv_def by blast

lemma reg_inv_reachable:
  "(reg_step limit)\<^sup>*\<^sup>* s s' \<Longrightarrow> reg_inv s \<Longrightarrow> limit \<le> MEMTABLE_MAX_CAPACITY \<Longrightarrow> reg_inv s'"
  by (induction rule: rtranclp_induct) (auto intro: reg_inv_step)

section \<open>A new index\<close>

text \<open>
  The end of \<^verbatim>\<open>build_lsm_index\<close>: the first growing memtable. \<open>None\<close> when \<^verbatim>\<open>allocate_new_growing_memtable\<close>
  has to wait for a free slot or the row size is zero.
\<close>

definition build_lsm_memtables ::
  "nat \<Rightarrow> LSMIndexData \<Rightarrow> MemtableBufferSlot list \<Rightarrow> status_view
     \<Rightarrow> (LSMIndexData \<times> MemtableBufferSlot list \<times> status_view) option" where
  "build_lsm_memtables limit lsm buf status =
     (let lsm = lsm\<lparr>memtable_idxs := replicate MEMTABLE_NUM (-1), memtable_count := 0, flushed_not_released_count := 0,
                    releasing_in_progress := False\<rparr> in
      case register_and_set_memtable limit None lsm buf status of
        None \<Rightarrow> None
      | Some (mt_idx, lsm, buf, status) \<Rightarrow>
          (if mt_idx \<ge> 0 then Some (rotate_install mt_idx buf lsm, buf, status) else None))"

text \<open>
  An index built in a shared buffer \<open>buf\<close> that other indexes already use, with \<open>tids\<close> in its first segment
  and \<open>n\<close> idle processes.
\<close>

definition new_registry :: "nat \<Rightarrow> LSMIndexData \<Rightarrow> MemtableBufferSlot list \<Rightarrow> i64 list \<Rightarrow> nat \<Rightarrow> Registry option" where
  "new_registry limit lsm buf rows n =
     map_option (\<lambda>(lsm', buf', status).
         \<lparr>reg_buf = buf', reg_lsm = lsm', reg_status = status, reg_disk = [START_SEGMENT_ID \<mapsto> rows],
          reg_pool = {START_SEGMENT_ID}, reg_procs = replicate_mset n PIdle, base = {growing_memtable_idx lsm'},
          foreign = (\<lambda>i. if in_buf i then nat (mb_ref_count (buf ! nat i)) else 0), hist = {}\<rparr>)
       (build_lsm_memtables limit lsm buf Map.empty)"

definition buffer_ok :: "MemtableBufferSlot list \<Rightarrow> bool" where
  "buffer_ok buf \<longleftrightarrow> length buf = MEMTABLE_BUF_SIZE \<and> list_all (\<lambda>b. 0 \<le> mb_ref_count b \<and> mt_sized (mb_mt b)) buf"

definition index_fresh :: "LSMIndexData \<Rightarrow> bool" where
  "index_fresh lsm \<longleftrightarrow> next_segment_id lsm = START_SEGMENT_ID + 1 \<and> length (flushed_not_released lsm) = MEMTABLE_NUM"

lemma sum_over_idle:
  "(\<And>x. f PIdle x = 0) \<Longrightarrow> sum_over f (replicate_mset n PIdle) x = 0"
  by (auto simp: sum_over_def)

lemma reset_memtable_fresh:
  assumes "reset_memtable limit rel sid d es mt = Some mt'" "mt_sized mt" "limit \<le> MEMTABLE_MAX_CAPACITY"
  shows "memtable_id mt' = sid" "mt_ok 0 mt'" "mt_sized mt'"
proof -
  obtain cap where "memtable_capacity limit d es = Some cap" using assms(1) by (auto simp: reset_memtable_def split: option.splits)
  then show "memtable_id mt' = sid" "mt_ok 0 mt'" "mt_sized mt'"
    using assms memtable_capacity_le by (fastforce simp: reset_memtable_def mt_ok_def mt_sized_def valid_rows_def nth_append)+
qed

lemma new_registry_SomeD:
  assumes "new_registry limit lsm buf rows n = Some s" "buffer_ok buf" "index_fresh lsm" "limit \<le> MEMTABLE_MAX_CAPACITY"
  obtains new mt where "in_buf new" "mb_ref_count (buf ! nat new) = 0"
    "memtable_id mt = START_SEGMENT_ID + 1" "mt_ok 0 mt" "mt_sized mt"
    "reg_buf s = buf[nat new := \<lparr>mb_ref_count = 1, mb_mt = mt\<rparr>]" "growing_memtable_idx (reg_lsm s) = new"
    "next_segment_id (reg_lsm s) = START_SEGMENT_ID + 1 + 1" "memtable_idxs (reg_lsm s) = replicate MEMTABLE_NUM (-1)"
    "memtable_count (reg_lsm s) = 0" "flushed_not_released_count (reg_lsm s) = 0"
    "length (flushed_not_released (reg_lsm s)) = MEMTABLE_NUM" "reg_status s = [START_SEGMENT_ID + 1 \<mapsto> {#}]"
    "reg_disk s = [START_SEGMENT_ID \<mapsto> rows]" "reg_pool s = {START_SEGMENT_ID}" "reg_procs s = replicate_mset n PIdle"
    "base s = {new}" "foreign s = (\<lambda>i. if in_buf i then nat (mb_ref_count (buf ! nat i)) else 0)" "hist s = {}"
proof -
  let ?lsm = "lsm\<lparr>memtable_idxs := replicate MEMTABLE_NUM (-1), memtable_count := 0, flushed_not_released_count := 0,
                    releasing_in_progress := False\<rparr>"
  obtain new lsm' buf' status where r: "register_and_set_memtable limit None ?lsm buf Map.empty = Some (new, lsm', buf', status)" "0 \<le> new"
    and s: "s = \<lparr>reg_buf = buf', reg_lsm = rotate_install new buf' lsm', reg_status = status, reg_disk = [START_SEGMENT_ID \<mapsto> rows],
          reg_pool = {START_SEGMENT_ID}, reg_procs = replicate_mset n PIdle, base = {growing_memtable_idx (rotate_install new buf' lsm')},
          foreign = (\<lambda>i. if in_buf i then nat (mb_ref_count (buf ! nat i)) else 0), hist = {}\<rparr>"
    using assms(1) by (auto simp: new_registry_def build_lsm_memtables_def Let_def split: option.splits if_splits)
  from r obtain mt where mt: "in_buf new" "mb_ref_count (buf ! nat new) = 0"
    "reset_memtable limit (indexRelId ?lsm) (next_segment_id ?lsm) (lx_dim ?lsm) (lx_elem_size ?lsm) (MT_FROM_SLOTIDX buf new) = Some mt"
    "lsm' = ?lsm\<lparr>next_segment_id := next_segment_id ?lsm + 1\<rparr>" "buf' = buf[nat new := \<lparr>mb_ref_count = 1, mb_mt = mt\<rparr>]"
    "status = Map.empty(next_segment_id ?lsm \<mapsto> {#})" by (rule register_SomeD)
  have "mt_sized (MT_FROM_SLOTIDX buf new)"
    using assms(2) mt(1) by (auto simp: buffer_ok_def MT_FROM_SLOTIDX_def in_buf_def list_all_length)
  note f = reset_memtable_fresh [OF mt(3) this assms(4)]
  show ?thesis
    by (rule that [OF mt(1,2) _ f(2,3)])
      (use assms(3) f(1) in \<open>simp_all add: s mt(4,5,6) rotate_install_def index_fresh_def\<close>)
qed

lemma reg_inv_new:
  assumes "new_registry limit lsm buf rows n = Some s" "buffer_ok buf" "index_fresh lsm" "limit \<le> MEMTABLE_MAX_CAPACITY"
  shows "reg_inv s"
proof -
  obtain new mt where new: "in_buf new" "mb_ref_count (buf ! nat new) = 0"
    and mt: "memtable_id mt = START_SEGMENT_ID + 1" "mt_ok 0 mt" "mt_sized mt"
    and buf: "reg_buf s = buf[nat new := \<lparr>mb_ref_count = 1, mb_mt = mt\<rparr>]"
    and lsm: "growing_memtable_idx (reg_lsm s) = new"
      "next_segment_id (reg_lsm s) = START_SEGMENT_ID + 1 + 1" "memtable_idxs (reg_lsm s) = replicate MEMTABLE_NUM (-1)"
      "memtable_count (reg_lsm s) = 0" "flushed_not_released_count (reg_lsm s) = 0"
      "length (flushed_not_released (reg_lsm s)) = MEMTABLE_NUM"
    and rest: "reg_status s = [START_SEGMENT_ID + 1 \<mapsto> {#}]"
      "reg_disk s = [START_SEGMENT_ID \<mapsto> rows]" "reg_pool s = {START_SEGMENT_ID}" "reg_procs s = replicate_mset n PIdle"
      "base s = {new}" "foreign s = (\<lambda>i. if in_buf i then nat (mb_ref_count (buf ! nat i)) else 0)" "hist s = {}"
    by (rule new_registry_SomeD [OF assms])
  have zero: "sum_over f (reg_procs s) x = 0" if "f PIdle x = 0" for f and x :: 'b
    using that by (auto simp: rest(4) sum_over_def)
  have b: "length buf = MEMTABLE_BUF_SIZE" "\<And>i. in_buf i \<Longrightarrow> 0 \<le> mb_ref_count (buf ! nat i) \<and> mt_sized (mb_mt (buf ! nat i))"
    using assms(2) by (auto simp: buffer_ok_def list_all_length in_buf_def)
  have "refs_exact s"
    using new b unfolding refs_exact_def
    by (auto simp: buf rest(5,6) zero in_buf_def nth_list_update)
  moreover have "owners_unique s"
    using new by (auto simp: owners_unique_def lsm rest(5) zero slot_owners_def queue_def in_buf_def MT_IDX_ROTATING_def)
  moreover have mtn: "mt_of s new = mt" using new(1) b(1) by (simp add: buf MT_FROM_SLOTIDX_def in_buf_def)
  have "ids_ok s"
    by (auto simp: ids_ok_def rest lsm mtn mt(1) START_SEGMENT_ID_def)
  moreover have "tables_ok s"
    using new b mt(2,3) mtn
    by (auto simp: tables_ok_def rest(5) zero buf MT_FROM_SLOTIDX_def in_buf_def nth_list_update)
      (auto simp: rest(4) split: if_splits)
  moreover have "rows_safe s"
    using mt(1) by (auto simp: rows_safe_def rest zero lsm mtn flushed_list_def START_SEGMENT_ID_def)
  ultimately show ?thesis by (simp add: reg_inv_def)
qed

section \<open>What a search sees\<close>

text \<open>
  The flush worker ignores the reply of the index worker to its load request. Here a run in which every
  load succeeds.
\<close>

definition loaded_step :: "nat \<Rightarrow> Registry \<Rightarrow> Registry \<Rightarrow> bool" where
  "loaded_step limit s s' \<longleftrightarrow>
     reg_step limit s s' \<and> (\<forall>i sid. PLoaded i sid \<in># reg_procs s' \<longrightarrow> sid \<in> reg_pool s')"

fun proc_visible :: "Registry \<Rightarrow> proc \<Rightarrow> bool" where
  "proc_visible s (PLoaded i sid) \<longleftrightarrow> sid \<in> reg_pool s"
| "proc_visible s (PTracked i) \<longleftrightarrow> id_of s i \<in> reg_pool s"
| "proc_visible s (PUnlinked i) \<longleftrightarrow> id_of s i \<in> reg_pool s"
| "proc_visible s (PRotate need) \<longleftrightarrow> need"
| "proc_visible s (PAllocate need cur) \<longleftrightarrow> need"
| "proc_visible s _ \<longleftrightarrow> True"

definition all_visible :: "Registry \<Rightarrow> bool" where
  "all_visible s \<longleftrightarrow>
     (\<forall>i \<in> base s. 0 < slot_owners s i) \<and> (\<forall>p \<in># reg_procs s. proc_visible s p)
     \<and> growing_memtable_idx (reg_lsm s) \<noteq> MT_IDX_INVALID
     \<and> (\<forall>(sid, tid) \<in> hist s. (\<exists>i \<in> base s. id_of s i = sid) \<or> sid \<in> reg_pool s \<and> row_on_disk s sid tid)"

text \<open>Ids stay with a slot while the index holds it; segments stay on disk and in the pool.\<close>

lemma held_id_step:
  assumes step: "reg_step limit s s'" and inv: "reg_inv s" and i: "i \<in> base s"
  shows "id_of s' i = id_of s i"
proof -
  have refs: "refs_exact s" "owners_unique s" using inv by (simp_all add: reg_inv_def)
  have ib: "in_buf i" by (rule base_in_buf [OF refs(1) i])
  from step show ?thesis
  proof (cases rule: reg_step.cases)
    case (reserve M i slot buf tid vec)
    then show ?thesis using insert_reserve_id [OF reserve(3)] by simp
  next
    case (insert_rotate M need buf)
    then show ?thesis using insert_reserve_id [OF insert_rotate(3)] by simp
  next
    case (log j slot tid vec M mt status)
    then show ?thesis by (auto simp: write_row_def upd_mt_field)
  next
    case (publish j slot tid M)
    then show ?thesis using publish_effect(1) by (simp add: upd_mt_field)
  next
    case (claim M j buf)
    then show ?thesis unfolding claim(1) claim_immutable_SomeD(3) [OF claim(3)] by (simp add: upd_mt_field)
  next
    case (allocate need cur M new lsm buf status)
    from allocate(3,4) obtain mt where new: "in_buf new" "mb_ref_count (reg_buf s ! nat new) = 0"
      "buf = (reg_buf s)[nat new := \<lparr>mb_ref_count = 1, mb_mt = mt\<rparr>]" by (rule register_SomeD)
    have "new \<notin> base s" using refs(1) new(1,2) by (auto simp: refs_exact_def of_bool_def split: if_splits)
    then have "nat new \<noteq> nat i" using i ib new(1) by (metis eq_nat_nat_iff in_buf_def)
    then show ?thesis by (simp add: allocate(1) new(3) MT_FROM_SLOTIDX_def)
  next
    case (foreign_claim j mt)
    have "in_buf j" using refs(1) foreign_claim(2,3) by (simp add: refs_exact_def in_buf_def)
    then have "j \<notin> base s" using refs(1) foreign_claim(4) by (auto simp: refs_exact_def of_bool_def split: if_splits)
    then have "nat j \<noteq> nat i" using i ib foreign_claim(2) by (metis eq_nat_nat_iff in_buf_def)
    then show ?thesis by (simp add: foreign_claim(1) MT_FROM_SLOTIDX_def)
  next
    case (search M snap buf)
    show ?thesis by (simp add: search(1) take_snapshot_Some(1) [OF search(3)])
  qed (simp_all add: release_memtable_slot_def)
qed

lemma visible_keep:
  assumes step: "reg_step limit s s'" and inv: "reg_inv s" and vis: "all_visible s"
    and same: "base s' = base s" "\<And>i. slot_owners s' i = slot_owners s i"
    and more: "reg_pool s \<subseteq> reg_pool s'" "\<And>sid tid. (\<And>i. i \<in> base s \<Longrightarrow> id_of s i \<noteq> sid) \<Longrightarrow> row_on_disk s sid tid \<Longrightarrow> row_on_disk s' sid tid"
    and growing: "growing_memtable_idx (reg_lsm s') \<noteq> MT_IDX_INVALID"
    and procs: "\<And>p. p \<in># reg_procs s' \<Longrightarrow> p \<in># reg_procs s \<or> proc_visible s' p"
    and hist: "\<And>sid tid. (sid, tid) \<in> hist s' \<Longrightarrow> (sid, tid) \<in> hist s \<or> sid \<in> id_of s ` base s"
  shows "all_visible s'"
proof -
  have ids: "id_of s' i = id_of s i" if "i \<in> base s" for i by (rule held_id_step [OF step inv that])
  have "proc_visible s' p" if p: "p \<in># reg_procs s'" for p
    using procs [OF p]
  proof
    assume old: "p \<in># reg_procs s"
    have "proc_visible s p" using vis old by (simp add: all_visible_def)
    moreover have "id_of s' i = id_of s i" if "touches p i" for i using ids touches_base [OF inv old that] by blast
    ultimately show ?thesis using more(1) by (cases p) (auto simp: touches_def)
  qed
  moreover have "(\<exists>i \<in> base s. id_of s i = sid) \<or> sid \<in> reg_pool s' \<and> row_on_disk s' sid tid" if h: "(sid, tid) \<in> hist s'" for sid tid
    using hist [OF h]
  proof
    assume "(sid, tid) \<in> hist s"
    then have "(\<exists>i \<in> base s. id_of s i = sid) \<or> sid \<in> reg_pool s \<and> row_on_disk s sid tid" using vis by (auto simp: all_visible_def)
    then show ?thesis using more by blast
  qed auto
  ultimately show ?thesis
    using vis growing ids by (auto simp: all_visible_def same)
qed

lemma all_visible_step:
  assumes step: "loaded_step limit s s'" and inv: "reg_inv s" and vis: "all_visible s"
  shows "all_visible s'"
proof -
  have st: "reg_step limit s s'" and loaded: "\<And>i sid. PLoaded i sid \<in># reg_procs s' \<Longrightarrow> sid \<in> reg_pool s'"
    using step by (auto simp: loaded_step_def)
  have gr: "growing_memtable_idx (reg_lsm s) \<noteq> MT_IDX_INVALID" using vis by (simp add: all_visible_def)
  have refs: "refs_exact s" "owners_unique s" "tables_ok s" "rows_safe s" using inv by (simp_all add: reg_inv_def)
  have head: "proc_visible s p" "proc_ok s p" if "reg_procs s = add_mset p M" for p M
    using vis refs(3) that by (simp_all add: all_visible_def tables_ok_def)
  note keep = visible_keep [OF st inv vis]
  from st show ?thesis
  proof (cases rule: reg_step.cases)
    case (insert_rotate M need buf)
    have "need" using insert_rotate(3) gr by (auto simp: insert_reserve_def Let_def split: if_splits prod.splits)
    then show ?thesis
      using gr by (intro keep) (auto simp: insert_rotate(1,2) slot_owners_def row_on_disk_def)
  next
    case (publish i slot tid M)
    have "i \<in> base s" using head(2) [OF publish(2)] by simp
    then show ?thesis using gr by (intro keep) (auto simp: publish(1,2) slot_owners_def row_on_disk_def)
  next
    case (rotate need M cur lsm)
    have need: "need" using head(1) [OF rotate(2)] by simp
    have lsm: "growing_memtable_idx lsm = MT_IDX_ROTATING" "queue lsm = queue (reg_lsm s)"
      "cur = growing_memtable_idx (reg_lsm s)" "0 \<le> cur"
      using rotate(3) need by (auto simp: rotate_begin_def Let_def queue_def split: if_splits)
    show ?thesis
      by (intro keep) (use need lsm(4) in
        \<open>auto simp: rotate(1,2) slot_owners_def row_on_disk_def lsm(1,2) lsm(3) [symmetric] MT_IDX_ROTATING_def MT_IDX_INVALID_def\<close>)
  next
    case (allocate need cur M new lsm buf status)
    have need: "need" using head(1) [OF allocate(2)] by simp
    from allocate(3,4) obtain mt where new: "in_buf new" "mb_ref_count (reg_buf s ! nat new) = 0"
      "lsm = (reg_lsm s)\<lparr>next_segment_id := next_segment_id (reg_lsm s) + 1\<rparr>" by (rule register_SomeD)
    have own: "slot_owners s' j = slot_owners s j + of_bool (j = new)" for j
      by (simp add: allocate(1,2) slot_owners_def new(3) queue_def need)
    have ids: "id_of s' j = id_of s j" if "j \<in> base s" for j by (rule held_id_step [OF st inv that])
    have base: "base s' = insert new (base s)" "hist s' = hist s" "reg_pool s' = reg_pool s" "row_on_disk s' = row_on_disk s"
      "growing_memtable_idx (reg_lsm s') = growing_memtable_idx (reg_lsm s)"
      by (simp_all add: allocate(1) new(3) row_on_disk_def fun_eq_iff)
    have "proc_visible s' p" if p: "p \<in># reg_procs s'" for p
    proof (cases "p \<in># M")
      case True
      then have old: "p \<in># reg_procs s" by (simp add: allocate(2))
      have "proc_visible s p" using vis old by (simp add: all_visible_def)
      moreover have "id_of s' i = id_of s i" if "touches p i" for i using ids touches_base [OF inv old that] by blast
      ultimately show ?thesis by (cases p) (auto simp: touches_def base(3))
    qed (use p need in \<open>auto simp: allocate(1)\<close>)
    then show ?thesis using vis own ids unfolding all_visible_def base by fastforce
  next
    case (enqueue cur new M lsm)
    have lsm: "growing_memtable_idx lsm = growing_memtable_idx (reg_lsm s)" "queue lsm = queue (reg_lsm s) @ [cur]"
      using enqueue(3) refs(2)
      by (auto simp: enqueue_sealed_memtable_def queue_def owners_unique_def take_Suc_conv_app_nth split: if_splits)
    show ?thesis
      using gr by (intro keep) (auto simp: enqueue(1,2) slot_owners_def row_on_disk_def lsm)
  next
    case (install new M)
    have "new \<in> base s" using proc_owned [OF refs(2) install(2), of new] by simp
    then have "0 \<le> new" using refs(1) by (auto simp: refs_exact_def in_buf_def)
    moreover have "growing_memtable_idx (reg_lsm s) = MT_IDX_ROTATING"
      using refs(2) install(2) by (auto simp: owners_unique_def of_bool_def split: if_splits)
    ultimately show ?thesis
      by (intro keep) (auto simp: install(1,2) slot_owners_def row_on_disk_def rotate_install_def queue_def
          MT_IDX_ROTATING_def MT_IDX_INVALID_def)
  next
    case (flush i M)
    have i: "i \<in> base s" using touches_base [OF inv, of "PClaimed i" i] by (simp add: flush(2) touches_def)
    show ?thesis using gr i by (intro keep) (auto simp: flush(1,2) slot_owners_def row_on_disk_def)
  next
    case (load i sid M)
    show ?thesis using gr by (intro keep) (auto simp: load(1,2) slot_owners_def row_on_disk_def)
  next
    case (load_failed i sid M)
    have "sid \<in> reg_pool s" using loaded [of i sid] by (simp add: load_failed(1))
    then show ?thesis using gr by (intro keep) (auto simp: load_failed(1,2) slot_owners_def row_on_disk_def)
  next
    case (track i sid M)
    have "id_of s i \<in> reg_pool s" using head [OF track(2)] by simp
    then show ?thesis using gr
      by (intro keep) (auto simp: track(1,2) slot_owners_def row_on_disk_def track_flushed_def queue_def Let_def)
  next
    case (unlink i M lsm)
    have "memtable_count (reg_lsm s) \<le> length (memtable_idxs (reg_lsm s))" using refs(2) by (simp add: owners_unique_def)
    note h = handoff_unlink_Some [OF unlink(3) this]
    have "id_of s i \<in> reg_pool s" using head(1) [OF unlink(2)] by simp
    then show ?thesis using gr h by (intro keep) (auto simp: unlink(1,2) slot_owners_def row_on_disk_def)
  next
    case (release i M)
    have own: "slot_owners s' j + of_bool (j = i) = slot_owners s j" for j by (simp add: release(1,2) slot_owners_def)
    have ids: "id_of s' j = id_of s j" for j by (simp add: release(1) release_memtable_slot_def)
    have rest: "base s' = base s - {i}" "hist s' = hist s" "reg_pool s' = reg_pool s" "row_on_disk s' = row_on_disk s"
      "growing_memtable_idx (reg_lsm s') = growing_memtable_idx (reg_lsm s)"
      by (simp_all add: release(1) row_on_disk_def fun_eq_iff)
    have pool: "id_of s i \<in> reg_pool s" "id_of s i \<in> dom (reg_disk s)" using head [OF release(2)] by simp_all
    have "(\<exists>j \<in> base s - {i}. id_of s j = sid) \<or> sid \<in> reg_pool s \<and> row_on_disk s sid tid" if h: "(sid, tid) \<in> hist s" for sid tid
    proof (cases "sid = id_of s i")
      case True
      have "if sid \<in> dom (reg_disk s) then row_on_disk s sid tid else logged (reg_status s) sid tid"
        using refs(4) h by (simp add: rows_safe_def)
      then show ?thesis using True pool by simp
    next
      case False
      then show ?thesis using vis h by (auto simp: all_visible_def)
    qed
    moreover have "proc_visible s' p" if "p \<in># reg_procs s'" for p
      using vis that by (cases p) (auto simp: all_visible_def release(1,2) release_memtable_slot_def)
    moreover have "0 < slot_owners s' j" if "j \<in> base s - {i}" for j
      using vis own [of j] that by (simp add: all_visible_def)
    ultimately show ?thesis using gr unfolding all_visible_def rest ids by (simp add: case_prod_beta)
  next
    case (release_status lsm status)
    have "lsm = (reg_lsm s)\<lparr>flushed_not_released_count := 0\<rparr>" using release_status(2) by (simp add: release_flushed_def)
    then show ?thesis using gr by (intro keep) (auto simp: release_status(1) slot_owners_def row_on_disk_def queue_def)
  next
    case (search M snap buf)
    show ?thesis using gr by (intro keep) (auto simp: search(1,2) slot_owners_def row_on_disk_def)
  qed (intro keep; use gr in \<open>auto simp: slot_owners_def row_on_disk_def\<close>)+
qed

lemma all_visible_new:
  assumes "new_registry limit lsm buf rows n = Some s" "buffer_ok buf" "index_fresh lsm" "limit \<le> MEMTABLE_MAX_CAPACITY"
  shows "all_visible s"
  by (rule new_registry_SomeD [OF assms])
    (auto simp: all_visible_def slot_owners_def in_buf_def MT_IDX_INVALID_def split: if_splits)

lemma loaded_runs:
  assumes "(loaded_step limit)\<^sup>*\<^sup>* s s'" "reg_inv s" "all_visible s" "limit \<le> MEMTABLE_MAX_CAPACITY"
  shows "reg_inv s' \<and> all_visible s'"
  using assms
proof (induction rule: rtranclp_induct)
  case (step y z)
  then show ?case using reg_inv_step [of limit y z] all_visible_step [of limit y z] by (simp add: loaded_step_def)
qed simp

text \<open>A held memtable that no search can see belongs to a rotation or has been flushed and unlinked.\<close>

lemma owner_cases:
  assumes own: "0 < slot_owners s i" and none: "sum_over proc_rotates (reg_procs s) () = 0"
  shows "growing_memtable_idx (reg_lsm s) = i \<or> i \<in> set (queue (reg_lsm s)) \<or> PUnlinked i \<in># reg_procs s"
proof (rule ccontr)
  assume no: "\<not> ?thesis"
  have "proc_owns p i = 0" if p: "p \<in># reg_procs s" for p
  proof -
    have "proc_rotates p () = 0" using none p by (auto simp: sum_over_def)
    then show ?thesis using no p by (cases p) auto
  qed
  then have "sum_over proc_owns (reg_procs s) i = 0" by (auto simp: sum_over_def)
  moreover have "count_list (queue (reg_lsm s)) i = 0" using no by (simp add: count_list_0_iff)
  ultimately show False using own no by (simp add: slot_owners_def)
qed

section \<open>Properties\<close>

text \<open>C2: (invariant) In every state that the backends, the flush worker, the release of status pages and the
  other indexes of the shared buffer can reach from a newly built index, a row whose insertion has returned
  is in the status pages or, once its memtable has been flushed, on disk: no interleaving of logging,
  publishing, flushing and releasing loses it. A memtable slot this index uses has one owner and a positive
  reference count, so nobody can recycle it.\<close>

theorem published_rows_are_durable:
  assumes "new_registry limit lsm buf rows n = Some s0" "buffer_ok buf" "index_fresh lsm" "limit \<le> MEMTABLE_MAX_CAPACITY"
    and "(reg_step limit)\<^sup>*\<^sup>* s0 s"
  shows "((sid, tid) \<in> hist s \<longrightarrow>
      (if sid \<in> dom (reg_disk s) then row_on_disk s sid tid else logged (reg_status s) sid tid))
    \<and> (0 < slot_owners s i \<longrightarrow> slot_owners s i = 1 \<and> 0 < mb_ref_count (reg_buf s ! nat i))"
proof -
  have inv: "reg_inv s" by (rule reg_inv_reachable [OF assms(5) reg_inv_new [OF assms(1-4)] assms(4)])
  then have refs: "refs_exact s" "owners_unique s" "rows_safe s" by (simp_all add: reg_inv_def)
  have "(if sid \<in> dom (reg_disk s) then row_on_disk s sid tid else logged (reg_status s) sid tid)" if "(sid, tid) \<in> hist s"
    using refs(3) that by (simp add: rows_safe_def)
  moreover have "slot_owners s i = 1 \<and> 0 < mb_ref_count (reg_buf s ! nat i)" if "0 < slot_owners s i"
    using owned_in_base [OF refs(2) that] base_in_buf [OF refs(1)] refs(1) by (auto simp: refs_exact_def)
  ultimately show ?thesis by blast
qed

text \<open>C4: (safety) When every load of a flushed segment succeeds, a search that takes its snapshot at any moment
  finds every row whose insertion has returned: in one of the memtables of the snapshot, or in a segment
  that is on disk and in the pool. Rotation, the hand-off of a flushed memtable and the reuse of its slot
  never open a gap.\<close>

theorem snapshot_sees_published_rows:
  assumes "new_registry limit lsm buf rows n = Some s0" "buffer_ok buf" "index_fresh lsm" "limit \<le> MEMTABLE_MAX_CAPACITY"
    and run: "(loaded_step limit)\<^sup>*\<^sup>* s0 s" and snap: "take_snapshot (reg_lsm s) (reg_buf s) = Some (snap, buf')"
    and row: "(sid, tid) \<in> hist s"
  shows "(\<exists>i \<in> set (gidx snap # sidxs snap). memtable_id (MT_FROM_SLOTIDX buf' i) = sid \<and> row_present (MT_FROM_SLOTIDX buf' i) tid)
    \<or> sid \<in> reg_pool s \<and> row_on_disk s sid tid"
proof -
  have "reg_inv s \<and> all_visible s"
    by (rule loaded_runs [OF run reg_inv_new [OF assms(1-4)] all_visible_new [OF assms(1-4)] assms(4)])
  then have inv: "refs_exact s" "owners_unique s" "tables_ok s" "rows_safe s" "all_visible s" by (simp_all add: reg_inv_def)
  note sn = take_snapshot_Some [OF snap]
  have none: "sum_over proc_rotates (reg_procs s) () = 0"
    using inv(2) sn(2,4) by (auto simp: owners_unique_def MT_IDX_ROTATING_def)
  show ?thesis
  proof (cases "\<exists>i \<in> base s. id_of s i = sid")
    case True
    then obtain i where i: "i \<in> base s" "id_of s i = sid" by blast
    have "0 < slot_owners s i" using inv(5) i(1) by (simp add: all_visible_def)
    from owner_cases [OF this none] have "i \<in> set (gidx snap # sidxs snap) \<or> PUnlinked i \<in># reg_procs s"
      by (auto simp: sn(2,3) queue_def)
    then show ?thesis
    proof
      assume "i \<in> set (gidx snap # sidxs snap)"
      moreover have "row_present (mt_of s i) tid" using inv(4) i row by (auto simp: rows_safe_def)
      ultimately show ?thesis using i(2) by (auto simp: sn(1))
    next
      assume p: "PUnlinked i \<in># reg_procs s"
      have "proc_visible s (PUnlinked i)" "proc_ok s (PUnlinked i)" using inv(3,5) p unfolding tables_ok_def all_visible_def by blast+
      then show ?thesis using inv(4) row i(2) by (auto simp: rows_safe_def split: if_splits)
    qed
  qed (use inv(5) row in \<open>auto simp: all_visible_def\<close>)
qed

section \<open>An example run\<close>

definition blank_memtable :: MemTable where
  "blank_memtable = \<lparr>mt_rel = 0, memtable_id = 0, mt_capacity = 0, current_size = 0, ready_cnt = 0, mt_sealed = False,
     flush_claimed = False, max_ready_id = NO_SLOT, mt_dim = 0, mt_elem_size = 0,
     mt_tids = replicate MEMTABLE_MAX_CAPACITY 0, mt_bitmap = [], mt_ready = replicate MEMTABLE_MAX_CAPACITY False,
     vector_blob = replicate 16 0\<rparr>"

definition example_index :: LSMIndexData where
  "example_index = \<lparr>indexRelId = 9, lx_index_type = HNSW, lx_dim = 1, lx_elem_size = 4, hnsw_m = 16, hnsw_ef_construction = 64,
     next_segment_id = START_SEGMENT_ID + 1, growing_memtable_idx = MT_IDX_INVALID, growing_memtable_id = 0,
     memtable_idxs = [], memtable_count = 0, flushed_not_released = replicate MEMTABLE_NUM 0,
     flushed_not_released_count = 0, releasing_in_progress = False\<rparr>"

definition example_buffer :: "MemtableBufferSlot list" where
  "example_buffer = \<lparr>mb_ref_count = 3, mb_mt = blank_memtable\<rparr>
     # replicate 7 \<lparr>mb_ref_count = 0, mb_mt = blank_memtable\<rparr>"

lemma example_ok: "buffer_ok example_buffer" "index_fresh example_index" "2 \<le> MEMTABLE_MAX_CAPACITY"
  by (simp_all add: buffer_ok_def list_all_iff example_buffer_def blank_memtable_def mt_sized_def index_fresh_def example_index_def
      MEMTABLE_BUF_SIZE_def MEMTABLE_MAX_CAPACITY_def)

definition first_memtable :: MemTable where
  "first_memtable = blank_memtable\<lparr>mt_rel := 9, memtable_id := 4, mt_capacity := 2, mt_dim := 1, mt_elem_size := 4,
     mt_bitmap := replicate MEMTABLE_BITMAP_SIZE 0\<rparr>"

definition example_registry :: Registry where
  "example_registry = \<lparr>reg_buf = example_buffer[1 := \<lparr>mb_ref_count = 1, mb_mt = first_memtable\<rparr>],
     reg_lsm = example_index\<lparr>memtable_idxs := replicate MEMTABLE_NUM (-1), next_segment_id := 5,
       growing_memtable_idx := 1, growing_memtable_id := 4\<rparr>,
     reg_status = [4 \<mapsto> {#}], reg_disk = [START_SEGMENT_ID \<mapsto> [7]], reg_pool = {START_SEGMENT_ID},
     reg_procs = {#PIdle#}, base = {1}, foreign = (\<lambda>i. if in_buf i then nat (mb_ref_count (example_buffer ! nat i)) else 0), hist = {}\<rparr>"

lemma example_new: "new_registry 2 example_index example_buffer [7] 1 = Some example_registry"
proof -
  have cap: "memtable_capacity 2 (Suc 0) 4 = Some 2"
    by (simp add: memtable_capacity_def MEMTABLE_VECTOR_ARRAY_SIZE_BYTES_def U32_def)
  have ready: "replicate 2 False @ replicate (MEMTABLE_MAX_CAPACITY - 2) False = replicate MEMTABLE_MAX_CAPACITY False"
    by (simp add: MEMTABLE_MAX_CAPACITY_def flip: replicate_add)
  have buf: "length example_buffer = 8" "mb_ref_count (example_buffer ! 0) = 3"
    "example_buffer ! Suc 0 = \<lparr>mb_ref_count = 0, mb_mt = blank_memtable\<rparr>" by (simp_all add: example_buffer_def)
  show ?thesis
    by (simp add: new_registry_def build_lsm_memtables_def register_and_set_memtable_def alloc_segment_id_def rotate_install_def
        example_registry_def example_index_def first_from.simps MEMTABLE_BUF_SIZE_def buf reset_memtable_def cap
        first_memtable_def blank_memtable_def ready MT_FROM_SLOTIDX_def START_SEGMENT_ID_def)
qed

lemma example_run:
  obtains s where "(loaded_step 2)\<^sup>*\<^sup>* example_registry s" "hist s = {(4, 5)}" "reg_disk s = [START_SEGMENT_ID \<mapsto> [7]]"
    "reg_pool s = {START_SEGMENT_ID}" "growing_memtable_idx (reg_lsm s) = 1" "reg_status s = [4 \<mapsto> {#Int64ToItemPointer 5#}]"
proof -
  let ?mt1 = "first_memtable\<lparr>current_size := 1\<rparr>"
  let ?s1 = "example_registry\<lparr>reg_buf := upd_mt 1 (\<lambda>_. ?mt1) (reg_buf example_registry),
    reg_procs := {#PReserved 1 0 5 [1, 2, 3, 4]#}\<rparr>"
  have buf: "length example_buffer = 8" by (simp add: example_buffer_def)
  have mt: "mt_of example_registry 1 = first_memtable" by (simp add: example_registry_def MT_FROM_SLOTIDX_def buf)
  have r: "reserve_slot first_memtable = (?mt1, 0)"
    by (simp add: reserve_slot_def first_memtable_def blank_memtable_def u32_inc_def U32_def)
  have "insert_reserve (reg_lsm example_registry) (reg_buf example_registry) =
      (InsReserved 1 0, upd_mt 1 (\<lambda>_. ?mt1) (reg_buf example_registry))"
    using mt r by (simp add: insert_reserve_def example_registry_def MT_IDX_ROTATING_def MT_IDX_INVALID_def
      MEMTABLE_BUF_SIZE_def NO_SLOT_def U32_def)
  then have 1: "reg_step 2 example_registry ?s1"
    using reg_step.reserve [of example_registry "{#}" 1 0 _ 2 5 "[1, 2, 3, 4]"] by (simp add: example_registry_def)
  have mt1: "mt_of ?s1 1 = ?mt1" by (simp add: example_registry_def MT_FROM_SLOTIDX_def upd_mt_def buf)
  obtain mt2 where w: "write_row 0 5 [1, 2, 3, 4] ?mt1 = Some mt2" "memtable_id mt2 = 4"
    by (auto simp: write_row_def memcpy_at_def first_memtable_def blank_memtable_def VEC_PTR_AT_def)
  let ?s2 = "?s1\<lparr>reg_buf := upd_mt 1 (\<lambda>_. mt2) (reg_buf ?s1), reg_status := [4 \<mapsto> {#Int64ToItemPointer 5#}],
    reg_procs := {#PLogged 1 0 5#}\<rparr>"
  have 2: "reg_step 2 ?s1 ?s2"
    by (rule reg_step.log [where vec = "[1, 2, 3, 4]" and tid = 5])
      (use w mt1 in \<open>simp_all add: first_memtable_def example_registry_def\<close>)
  have mt2: "mt_of ?s2 1 = mt2" by (simp add: example_registry_def MT_FROM_SLOTIDX_def upd_mt_def buf)
  let ?s3 = "?s2\<lparr>reg_buf := upd_mt 1 (\<lambda>mt. publish_slot_release mt 0) (reg_buf ?s2), reg_procs := {#PIdle#}, hist := {(4, 5)}\<rparr>"
  have 3: "reg_step 2 ?s2 ?s3"
    using reg_step.publish [of ?s2 1 0 5 "{#}" 2] w(2) mt2 by (simp add: example_registry_def)
  have "loaded_step 2 example_registry ?s1" "loaded_step 2 ?s1 ?s2" "loaded_step 2 ?s2 ?s3"
    unfolding loaded_step_def using 1 2 3 by simp_all
  then have "(loaded_step 2)\<^sup>*\<^sup>* example_registry ?s3" by (meson converse_rtranclp_into_rtranclp rtranclp.rtrancl_refl)
  then show ?thesis by (rule that) (simp_all add: example_registry_def)
qed

lemma loaded_run_run: "(loaded_step limit)\<^sup>*\<^sup>* s s' \<Longrightarrow> (reg_step limit)\<^sup>*\<^sup>* s s'"
  by (erule rtranclp_mono [THEN predicate2D, rotated]) (auto simp: loaded_step_def)

theorem published_rows_are_durable_witness:
  "\<exists>s. (reg_step 2)\<^sup>*\<^sup>* example_registry s \<and> (4, 5) \<in> hist s \<and> logged (reg_status s) 4 5"
proof -
  obtain s where s: "(loaded_step 2)\<^sup>*\<^sup>* example_registry s" "hist s = {(4, 5)}" "reg_disk s = [START_SEGMENT_ID \<mapsto> [7]]"
    by (rule example_run)
  show ?thesis
    using published_rows_are_durable [OF example_new example_ok loaded_run_run [OF s(1)], of 4 5] loaded_run_run [OF s(1)] s(2,3)
    by (auto simp: START_SEGMENT_ID_def)
qed

theorem snapshot_sees_published_rows_witness:
  "\<exists>s snap buf. (loaded_step 2)\<^sup>*\<^sup>* example_registry s \<and> take_snapshot (reg_lsm s) (reg_buf s) = Some (snap, buf)
     \<and> (\<exists>i \<in> set (gidx snap # sidxs snap). memtable_id (MT_FROM_SLOTIDX buf i) = 4 \<and> row_present (MT_FROM_SLOTIDX buf i) 5)"
proof -
  obtain s where s: "(loaded_step 2)\<^sup>*\<^sup>* example_registry s" "hist s = {(4, 5)}" "reg_pool s = {START_SEGMENT_ID}"
    "growing_memtable_idx (reg_lsm s) = 1" by (rule example_run)
  then obtain snap buf where snap: "take_snapshot (reg_lsm s) (reg_buf s) = Some (snap, buf)"
    by (auto simp: take_snapshot_def MEMTABLE_BUF_SIZE_def Let_def)
  have "4 \<notin> reg_pool s" by (simp add: s(3) START_SEGMENT_ID_def)
  then show ?thesis
    using snapshot_sees_published_rows [OF example_new example_ok s(1) snap, of 4 5] s(1,2) snap by blast
qed

text \<open>
  The worker's reply to a load request is discarded: after a failed load the flush goes on to the hand-off
  with a segment that is not in the pool.
\<close>

lemma failed_load_reaches_handoff:
  "reg_procs s = add_mset (PFlushed i sid) M \<Longrightarrow> sid \<notin> reg_pool s \<Longrightarrow>
     \<exists>s'. reg_step limit s s' \<and> PLoaded i sid \<in># reg_procs s' \<and> sid \<notin> reg_pool s'"
  using reg_step.load_failed [of s i sid M limit] by fastforce

text \<open>
  A backend that saw no growing memtable and comes late: \<^verbatim>\<open>rotate_growing_memtable(false)\<close> does not look
  again, so the growing memtable another backend installed meanwhile is replaced without being enqueued.
\<close>

lemma late_rotation_drops_growing_memtable:
  assumes "growing_memtable_idx lsm = i" "0 \<le> i" "i < int MEMTABLE_BUF_SIZE" "i \<notin> set (queue lsm)" "new \<noteq> i"
  shows "\<exists>lsm'. rotate_begin False lsm buf = RotStart i lsm' \<and> i \<notin> set (queue (rotate_install new buf' lsm'))
    \<and> growing_memtable_idx (rotate_install new buf' lsm') \<noteq> i"
  using assms by (simp add: rotate_begin_def rotate_install_def queue_def MT_IDX_ROTATING_def)

end
