(* ===== verification/Recovery.thy ===== *)
theory Recovery
  imports MemtableRegistry VacuumRedo
begin

text \<open>
  Crash recovery of an index (\<^verbatim>\<open>recover_lsm_index_internal\<close> in \<^verbatim>\<open>lsmindex.c\<close>): shared memory is lost, the
  segment files and the status pages are left. Steps 1 and 2 tombstone the rows on disk that the status
  pages do not confirm, step 3 builds the memtables again from the heap. The heap is a parameter: \<open>fetch\<close>
  is \<^verbatim>\<open>table_tuple_fetch_row_version\<close> with \<^verbatim>\<open>SnapshotAny\<close>, \<open>None\<close> for no tuple and \<open>Some None\<close> for a null attribute.
\<close>

type_synonym heap = "ItemPointerData \<Rightarrow> u8 list option option"

section \<open>Tombstones\<close>

definition compare_sids_desc :: "SegmentId \<Rightarrow> int" where
  "compare_sids_desc sid = - uint sid"

definition load_delete_count :: "u8 list \<times> u32 option \<Rightarrow> bitmap \<times> u32" where
  "load_delete_count loaded = (fst loaded, case snd loaded of None \<Rightarrow> 0 | Some c \<Rightarrow> c)"

text \<open>Step 1 on one file: rows of ids the status pages never saw.\<close>

definition mark_unlogged ::
  "SegmentId \<Rightarrow> nat \<Rightarrow> SegmentOffsetRange list \<Rightarrow> bitmap \<times> u32 \<Rightarrow> bitmap \<times> u32" where
  "mark_unlogged max_sid rows offs acc =
     foldl (\<lambda>acc r. if off_sid r \<le> max_sid then acc
                    else foldl (\<lambda>acc i. if i < rows then SET_AND_COUNT acc i else acc) acc [start_offset r..<end_offset r])
       acc offs"

definition vacuum_unlogged :: "SegmentId \<Rightarrow> SegmentFileInfo \<Rightarrow> directory \<Rightarrow> directory option" where
  "vacuum_unlogged max_sid f d =
     (case read_lsm_segment_metadata d (fi_start_sid f) (fi_end_sid f) (fi_version f) of
        None \<Rightarrow> Some d
      | Some (a, b, rows, _) \<Rightarrow>
          (if b > max_sid then
             (case load_offset_file d a b UINT32_MAX of
                None \<Rightarrow> None
              | Some ob \<Rightarrow>
                  let offs = decode_offsets (unat (b - a + 1)) ob;
                      (bm, dc) = mark_unlogged max_sid (unat rows) offs (load_delete_count (load_bitmap_file d a b UINT32_MAX))
                  in Some (write_next_bitmap d a b (find_latest_segment_version d a b) (take (GET_BITMAP_SIZE (unat rows)) bm) dc))
           else Some d))"

fun recovery_step1 :: "SegmentId \<Rightarrow> SegmentFileInfo list \<Rightarrow> directory \<Rightarrow> directory option" where
  "recovery_step1 max_sid [] d = Some d"
| "recovery_step1 max_sid (f # fs) d =
     (if fi_end_sid f > max_sid
      then (case vacuum_unlogged max_sid f d of None \<Rightarrow> None | Some d \<Rightarrow> recovery_step1 max_sid fs d)
      else Some d)"

text \<open>
  Step 2: rows of registered ids whose tid is not in the status pages. The binary search in the sorted
  array of tids is membership.
\<close>

definition mark_missing ::
  "(SegmentId \<Rightarrow> ItemPointerData list option) \<Rightarrow> SegmentId list \<Rightarrow> i64 list \<Rightarrow> SegmentOffsetRange list
     \<Rightarrow> bitmap \<times> u32 \<Rightarrow> (bitmap \<times> u32) option" where
  "mark_missing tids_of sids mapping offs acc =
     foldl (\<lambda>acc r.
         case acc of None \<Rightarrow> None | Some acc \<Rightarrow>
           if off_sid r \<notin> set sids \<or> start_offset r = end_offset r then Some acc
           else
             (case tids_of (off_sid r) of
                None \<Rightarrow> None
              | Some tids \<Rightarrow>
                  let status_tids = map ItemPointerToInt64 tids
                  in Some (foldl (\<lambda>acc i. if mapping ! i \<in> set status_tids then acc else SET_AND_COUNT acc i)
                             acc [start_offset r..<end_offset r])))
       (Some acc) offs"

definition vacuum_missing ::
  "(SegmentId \<Rightarrow> ItemPointerData list option) \<Rightarrow> SegmentId list \<Rightarrow> SegmentFileInfo \<Rightarrow> directory \<Rightarrow> directory option" where
  "vacuum_missing tids_of sids f d =
     (case read_lsm_segment_metadata d (fi_start_sid f) (fi_end_sid f) (fi_version f) of
        None \<Rightarrow> Some d
      | Some (a, b, rows, _) \<Rightarrow>
          (case load_offset_file d a b UINT32_MAX of
             None \<Rightarrow> None
           | Some ob \<Rightarrow>
               let mapping = decode_mapping (load_mapping_file d a b UINT32_MAX);
                   offs = decode_offsets (unat (b - a + 1)) ob;
                   (bm, dc) = load_delete_count (load_bitmap_file d a b UINT32_MAX)
               in (case mark_missing tids_of sids mapping offs (bm, dc) of
                     None \<Rightarrow> None
                   | Some (bm', dc') \<Rightarrow>
                       if bm' = bm then Some d
                       else Some (write_next_bitmap d a b (find_latest_segment_version d a b)
                                    (take (GET_BITMAP_SIZE (unat rows)) bm') dc'))))"

text \<open>The walk over the files and the ids, both descending.\<close>

fun recovery_step2 ::
  "(SegmentId \<Rightarrow> ItemPointerData list option) \<Rightarrow> SegmentFileInfo list \<Rightarrow> SegmentId list \<Rightarrow> directory \<Rightarrow> directory option" where
  "recovery_step2 tids_of (f # fs) (s # ss) d =
     (if s > fi_end_sid f then recovery_step2 tids_of (f # fs) ss d
      else if fi_start_sid f \<le> s \<and> fi_end_sid f \<ge> s then
        (case vacuum_missing tids_of (s # ss) f d of
           None \<Rightarrow> None | Some d \<Rightarrow> recovery_step2 tids_of fs (s # ss) d)
      else recovery_step2 tids_of fs (s # ss) d)"
| "recovery_step2 tids_of fs ss d = Some d"

section \<open>Memtables\<close>

text \<open>
  One row of step 3. The tid array has \<^verbatim>\<open>MEMTABLE_MAX_CAPACITY\<close> places; the capacity of the memtable is
  not looked at.
\<close>

definition recover_row :: "heap \<Rightarrow> ItemPointerData \<Rightarrow> MemTable \<Rightarrow> MemTable option" where
  "recover_row fetch tid mt =
     (case fetch tid of
        None \<Rightarrow> Some mt
      | Some None \<Rightarrow> None
      | Some (Some vec) \<Rightarrow>
          let i = current_size mt; mt = mt\<lparr>current_size := u32_inc i\<rparr> in
          if i < MEMTABLE_MAX_CAPACITY
          then map_option (\<lambda>mt. publish_slot_release mt i) (write_row i (ItemPointerToInt64 tid) vec mt)
          else None)"

fun recover_rows :: "heap \<Rightarrow> ItemPointerData list \<Rightarrow> MemTable \<Rightarrow> MemTable option" where
  "recover_rows fetch [] mt = Some mt"
| "recover_rows fetch (tid # tids) mt =
     (case recover_row fetch tid mt of None \<Rightarrow> None | Some mt \<Rightarrow> recover_rows fetch tids mt)"

text \<open>
  One id of step 3. \<open>None\<close>: no free slot (\<^verbatim>\<open>allocate_new_growing_memtable\<close> waits), a full queue or a null
  vector (\<^verbatim>\<open>elog(ERROR)\<close>), or a write outside an array.
\<close>

type_synonym recovering = "LSMIndexData \<times> MemtableBufferSlot list \<times> bool"

definition recover_memtable ::
  "nat \<Rightarrow> heap \<Rightarrow> (SegmentId \<Rightarrow> ItemPointerData list option) \<Rightarrow> SegmentId \<Rightarrow> SegmentId \<Rightarrow> recovering \<Rightarrow> recovering option" where
  "recover_memtable limit fetch tids_of status_growing_sid sid st =
     (case st of (lsm, buf, growing_memtable_allocated) \<Rightarrow>
        case tids_of sid of None \<Rightarrow> None | Some tids \<Rightarrow>
        case register_and_set_memtable limit (Some sid) lsm buf Map.empty of
          None \<Rightarrow> None
        | Some (mt_idx, lsm, buf, _) \<Rightarrow>
            if mt_idx < 0 then None
            else
              (case recover_rows fetch tids (MT_FROM_SLOTIDX buf mt_idx) of
                 None \<Rightarrow> None
               | Some mt \<Rightarrow>
                   if sid = status_growing_sid
                   then Some (lsm\<lparr>growing_memtable_idx := mt_idx, growing_memtable_id := memtable_id mt,
                                next_segment_id := memtable_id mt + 1\<rparr>, upd_mt mt_idx (\<lambda>_. mt) buf, True)
                   else
                     (case enqueue_sealed_memtable mt_idx lsm of
                        None \<Rightarrow> None
                      | Some lsm \<Rightarrow> Some (lsm, upd_mt mt_idx (\<lambda>_. mt\<lparr>mt_sealed := True\<rparr>) buf, growing_memtable_allocated))))"

fun recovery_step3 ::
  "nat \<Rightarrow> heap \<Rightarrow> (SegmentId \<Rightarrow> ItemPointerData list option) \<Rightarrow> SegmentId \<Rightarrow> SegmentId \<Rightarrow> SegmentId list \<Rightarrow> recovering
     \<Rightarrow> recovering option" where
  "recovery_step3 limit fetch tids_of status_growing_sid last_sid [] st = Some st"
| "recovery_step3 limit fetch tids_of status_growing_sid last_sid (sid # sids) st =
     (if sid \<le> last_sid then recovery_step3 limit fetch tids_of status_growing_sid last_sid sids st
      else
        (case recover_memtable limit fetch tids_of status_growing_sid sid st of
           None \<Rightarrow> None | Some st \<Rightarrow> recovery_step3 limit fetch tids_of status_growing_sid last_sid sids st))"

section \<open>The whole recovery\<close>

definition index_type_of :: "u32 \<Rightarrow> IndexType option" where
  "index_type_of w =
     (if w = 0 then Some FLAT else if w = 1 then Some IVFFLAT else if w = 2 then Some HNSW
      else if w = 3 then Some DISKANN else None)"

text \<open>The header of the slot, filled from the metadata file.\<close>

definition recover_header :: "oid \<Rightarrow> IndexMetadata \<Rightarrow> LSMIndexData \<Rightarrow> LSMIndexData option" where
  "recover_header relid im lsm =
     map_option (\<lambda>ty. lsm\<lparr>indexRelId := relid, lx_index_type := ty, lx_dim := unat (im_dim im),
         lx_elem_size := unat (im_elem_size im), hnsw_m := im_hnsw_m im, hnsw_ef_construction := im_hnsw_ef_construction im\<rparr>)
       (index_type_of (im_index_type im))"

text \<open>
  The arrays between steps 2 and 3: the registered ids that are on disk wait for the release of their
  status pages. \<open>None\<close> when they do not fit into the array.
\<close>

definition recover_queues :: "SegmentId \<Rightarrow> SegmentId list \<Rightarrow> LSMIndexData \<Rightarrow> LSMIndexData option" where
  "recover_queues last_sid sids lsm =
     (let flushed = takeWhile (\<lambda>sid. sid \<le> last_sid) (rev sids) in
      if length flushed \<le> MEMTABLE_NUM
      then Some (lsm\<lparr>memtable_idxs := replicate MEMTABLE_NUM (-1), memtable_count := 0, releasing_in_progress := False,
                   flushed_not_released := flushed @ drop (length flushed) (flushed_not_released lsm),
                   flushed_not_released_count := length flushed\<rparr>)
      else None)"

text \<open>\<open>None\<close> also for an empty list of registered ids or of files, whose first or last entry the code reads.\<close>

definition recover_lsm_index_internal ::
  "nat \<Rightarrow> heap \<Rightarrow> oid \<Rightarrow> fork \<Rightarrow> directory \<Rightarrow> LSMIndexData \<Rightarrow> MemtableBufferSlot list
     \<Rightarrow> (directory \<times> LSMIndexData \<times> MemtableBufferSlot list) option" where
  "recover_lsm_index_internal limit fetch relid pages d lsm buf =
     (case (GetStatusGrowingSid pages, GetStatusMemtableSids pages, read_lsm_index_metadata d) of
        (Some status_growing_sid, Some registered, Some im) \<Rightarrow>
          let sids = sort_key compare_sids_desc registered;
              tids_of = (\<lambda>sid. GetStatusMemtableTids MEMTABLE_MAX_CAPACITY sid pages);
              files = scan_segment_metadata_files d MAX_SEGMENTS_COUNT
          in if sids = [] \<or> files = [] then None
          else
            let max_memtable_sid = (if hd sids = status_growing_sid then status_growing_sid else status_growing_sid - 1);
                last_sid = fi_end_sid (last files)
            in (case recover_header relid im lsm of None \<Rightarrow> None | Some lsm \<Rightarrow>
                case recovery_step1 max_memtable_sid (rev files) d of None \<Rightarrow> None | Some d \<Rightarrow>
                case (if last_sid \<ge> last sids then recovery_step2 tids_of (rev files) sids d else Some d) of
                  None \<Rightarrow> None | Some d \<Rightarrow>
                case recover_queues last_sid sids lsm of None \<Rightarrow> None | Some lsm \<Rightarrow>
                case recovery_step3 limit fetch tids_of status_growing_sid last_sid (rev sids) (lsm, buf, False) of
                  None \<Rightarrow> None | Some (lsm, buf, growing_memtable_allocated) \<Rightarrow>
                Some (d, if growing_memtable_allocated then lsm else lsm\<lparr>next_segment_id := hd sids + 1\<rparr>, buf))
      | _ \<Rightarrow> None)"

section \<open>Rows of a recovered memtable\<close>

definition heap_rows :: "heap \<Rightarrow> ItemPointerData list \<Rightarrow> (i64 \<times> u8 list) list" where
  "heap_rows fetch tids =
     List.map_filter (\<lambda>tid. case fetch tid of Some (Some vec) \<Rightarrow> Some (ItemPointerToInt64 tid, vec) | _ \<Rightarrow> None) tids"

definition memtable_rows :: "MemTable \<Rightarrow> (i64 \<times> u8 list) list" where
  "memtable_rows mt = map (\<lambda>k. (mt_tids mt ! k, row_at mt k)) [0..<current_size mt]"

text \<open>Exactly the rows \<open>rows\<close>, all of them published.\<close>

definition holds_rows :: "MemTable \<Rightarrow> (i64 \<times> u8 list) list \<Rightarrow> bool" where
  "holds_rows mt rows \<longleftrightarrow>
     memtable_rows mt = rows \<and> current_size mt = length rows \<and> ready_cnt mt = length rows
     \<and> (\<forall>k < length rows. mt_ready mt ! k) \<and> (\<forall>k. length rows \<le> k \<longrightarrow> k < mt_capacity mt \<longrightarrow> \<not> mt_ready mt ! k)"

text \<open>The vector array has room for every row up to the capacity.\<close>

definition rows_fit :: "MemTable \<Rightarrow> bool" where
  "rows_fit mt \<longleftrightarrow>
     mt_sized mt \<and> mt_capacity mt \<le> MEMTABLE_MAX_CAPACITY \<and> length (vector_blob mt) = MEMTABLE_VECTOR_ARRAY_SIZE_BYTES
     \<and> (\<forall>i < mt_capacity mt. VEC_PTR_AT mt i + VEC_BYTES_PER_ROW mt \<le> length (vector_blob mt))"

text \<open>What filling a memtable does not touch.\<close>

definition mt_frame :: "MemTable \<Rightarrow> oid \<times> SegmentId \<times> nat \<times> bool \<times> bool \<times> nat \<times> nat \<times> bitmap" where
  "mt_frame mt = (mt_rel mt, memtable_id mt, mt_capacity mt, mt_sealed mt, flush_claimed mt, mt_dim mt, mt_elem_size mt, mt_bitmap mt)"

lemma publish_frame [simp]:
  "mt_frame (publish_slot_release mt i) = mt_frame mt" "vector_blob (publish_slot_release mt i) = vector_blob mt"
  "row_at (publish_slot_release mt i) j = row_at mt j"
  "mt_dim (publish_slot_release mt i) = mt_dim mt" "mt_elem_size (publish_slot_release mt i) = mt_elem_size mt"
  by (simp_all add: publish_slot_release_def update_max_ready_id_def Let_def mt_frame_def row_at_def
      VEC_PTR_AT_def VEC_BYTES_PER_ROW_def)

lemma memtable_rows_snoc:
  assumes "current_size mt' = Suc (current_size mt)"
    and "\<And>k. k < current_size mt \<Longrightarrow> mt_tids mt' ! k = mt_tids mt ! k \<and> row_at mt' k = row_at mt k"
  shows "memtable_rows mt' = memtable_rows mt @ [(mt_tids mt' ! current_size mt, row_at mt' (current_size mt))]"
  using assms by (simp add: memtable_rows_def)

lemma recover_one_row:
  assumes h: "holds_rows mt rows" "rows_fit mt" and room: "length rows < mt_capacity mt"
    and v: "fetch tid = Some (Some vec)" "length vec = VEC_BYTES_PER_ROW mt"
  obtains mt' where "recover_row fetch tid mt = Some mt'" "holds_rows mt' (rows @ [(ItemPointerToInt64 tid, vec)])"
    "rows_fit mt'" "mt_frame mt' = mt_frame mt"
proof -
  let ?i = "length rows" and ?t = "ItemPointerToInt64 tid" and ?m = "mt\<lparr>current_size := Suc (length rows)\<rparr>"
  have size: "current_size mt = ?i" "ready_cnt mt = ?i" using h(1) by (simp_all add: holds_rows_def)
  have le: "?i < MEMTABLE_MAX_CAPACITY" using room h(2) by (simp add: rows_fit_def)
  have len: "?i < length (mt_tids mt)" "?i < length (mt_ready mt)" using le h(2) by (simp_all add: rows_fit_def mt_sized_def)
  have "VEC_PTR_AT mt ?i + VEC_BYTES_PER_ROW mt \<le> length (vector_blob mt)" using h(2) room unfolding rows_fit_def by blast
  then have "VEC_PTR_AT ?m ?i + length vec \<le> length (vector_blob ?m)" by (simp add: v(2) VEC_PTR_AT_def VEC_BYTES_PER_ROW_def)
  then obtain blob where blob: "memcpy_at (vector_blob ?m) (VEC_PTR_AT ?m ?i) vec = Some blob"
    by (auto simp: memcpy_at_def)
  let ?w = "?m\<lparr>mt_tids := (mt_tids mt)[?i := ?t], vector_blob := blob\<rparr>"
  let ?p = "publish_slot_release ?w ?i"
  have "recover_row fetch tid mt = Some ?p"
    using blob le by (simp add: recover_row_def v(1) size small_counts(1) write_row_def Let_def)
  moreover have row: "row_at ?w k = (if k = ?i then vec else row_at mt k)" for k
  proof -
    have "row_at ?w k = row_at (?m\<lparr>vector_blob := blob\<rparr>) k"
      by (simp add: row_at_def VEC_PTR_AT_def VEC_BYTES_PER_ROW_def)
    also have "\<dots> = (if k = ?i then vec else row_at ?m k)"
      by (rule row_at_memcpy [OF blob]) (simp add: v(2) VEC_BYTES_PER_ROW_def)
    finally show ?thesis by (simp add: row_at_def VEC_PTR_AT_def VEC_BYTES_PER_ROW_def)
  qed
  note e = publish_effect [of ?w ?i]
  have frame: "mt_frame ?p = mt_frame mt" by (simp add: mt_frame_def [of ?w]) (simp add: mt_frame_def)
  have "rows_fit ?p"
    using h(2) memcpy_at_length [OF blob]
    by (auto simp: rows_fit_def mt_sized_def e VEC_PTR_AT_def VEC_BYTES_PER_ROW_def)
  moreover have "holds_rows ?p (rows @ [(?t, vec)])"
  proof -
    have "memtable_rows ?p = memtable_rows mt @ [(mt_tids ?p ! current_size mt, row_at ?p (current_size mt))]"
      by (rule memtable_rows_snoc) (simp_all add: e row size)
    then have "memtable_rows ?p = rows @ [(?t, vec)]"
      using h(1) len(1) by (simp add: e row size holds_rows_def)
    moreover have "mt_ready ?p ! k" if "k < Suc ?i" for k
      using that h(1) len(2) by (auto simp: e holds_rows_def nth_list_update)
    moreover have "\<not> mt_ready ?p ! k" if "Suc ?i \<le> k" "k < mt_capacity mt" for k
      using that h(1) by (simp add: e holds_rows_def)
    ultimately show ?thesis using small_counts(1) [of ?i] le size by (simp add: holds_rows_def e)
  qed
  ultimately show thesis using frame that by blast
qed

lemma recover_rows_exact:
  assumes "holds_rows mt rows" "rows_fit mt" "length rows + length (heap_rows fetch tids) \<le> mt_capacity mt"
    and "\<forall>tid \<in> set tids. fetch tid \<noteq> Some None"
    and "\<forall>tid vec. tid \<in> set tids \<longrightarrow> fetch tid = Some (Some vec) \<longrightarrow> length vec = VEC_BYTES_PER_ROW mt"
  shows "\<exists>mt'. recover_rows fetch tids mt = Some mt' \<and> holds_rows mt' (rows @ heap_rows fetch tids) \<and> rows_fit mt'
    \<and> mt_frame mt' = mt_frame mt"
  using assms
proof (induction tids arbitrary: mt rows)
  case Nil
  then show ?case by (simp add: heap_rows_def map_filter_simps)
next
  case (Cons tid tids)
  show ?case
  proof (cases "fetch tid")
    case None
    have "\<exists>mt'. recover_rows fetch tids mt = Some mt' \<and> holds_rows mt' (rows @ heap_rows fetch tids) \<and> rows_fit mt'
        \<and> mt_frame mt' = mt_frame mt"
      by (rule Cons.IH) (use Cons.prems None in \<open>auto simp: heap_rows_def map_filter_simps\<close>)
    then show ?thesis using None by (simp add: recover_row_def heap_rows_def map_filter_simps)
  next
    case (Some ov)
    then obtain vec where v: "fetch tid = Some (Some vec)" using Cons.prems(4) by (cases ov) auto
    have hr: "heap_rows fetch (tid # tids) = (ItemPointerToInt64 tid, vec) # heap_rows fetch tids"
      by (simp add: heap_rows_def map_filter_simps v)
    have lt: "length rows < mt_capacity mt" "length vec = VEC_BYTES_PER_ROW mt" using Cons.prems(3,5) v by (auto simp: hr)
    obtain mt1 where
      mt1: "recover_row fetch tid mt = Some mt1" "holds_rows mt1 (rows @ [(ItemPointerToInt64 tid, vec)])"
        "rows_fit mt1" "mt_frame mt1 = mt_frame mt"
      by (rule recover_one_row [where fetch = fetch and tid = tid, OF Cons.prems(1,2) lt(1) v lt(2)])
    have fr: "mt_capacity mt1 = mt_capacity mt" "VEC_BYTES_PER_ROW mt1 = VEC_BYTES_PER_ROW mt"
      using mt1(4) by (simp_all add: mt_frame_def VEC_BYTES_PER_ROW_def)
    have "\<exists>mt'. recover_rows fetch tids mt1 = Some mt'
        \<and> holds_rows mt' ((rows @ [(ItemPointerToInt64 tid, vec)]) @ heap_rows fetch tids) \<and> rows_fit mt' \<and> mt_frame mt' = mt_frame mt1"
      by (rule Cons.IH [OF mt1(2,3)]) (use Cons.prems(3-5) in \<open>auto simp: hr fr\<close>)
    then show ?thesis using mt1(1,4) by (simp add: hr)
  qed
qed

section \<open>The memtables of a recovered index\<close>

definition free_slots :: "MemtableBufferSlot list \<Rightarrow> nat set" where
  "free_slots buf = {i. i < MEMTABLE_BUF_SIZE \<and> mb_ref_count (buf ! i) = 0}"

lemma finite_free_slots [simp]: "finite (free_slots buf)"
  by (simp add: free_slots_def)

text \<open>The arrays of every slot have their static sizes; \<open>w\<close> is the size of a vector, \<open>cap\<close> the capacity for it.\<close>

definition arrays_ok :: "MemtableBufferSlot list \<Rightarrow> bool" where
  "arrays_ok buf \<longleftrightarrow> length buf = MEMTABLE_BUF_SIZE
     \<and> (\<forall>b \<in> set buf. mt_sized (mb_mt b) \<and> length (vector_blob (mb_mt b)) = MEMTABLE_VECTOR_ARRAY_SIZE_BYTES)"

definition capacity_fits :: "nat \<Rightarrow> nat \<Rightarrow> bool" where
  "capacity_fits w cap \<longleftrightarrow>
     cap \<le> MEMTABLE_MAX_CAPACITY \<and> (\<forall>i < cap. i * MAXALIGN w + w \<le> MEMTABLE_VECTOR_ARRAY_SIZE_BYTES)"

text \<open>What step 3 needs of a registered id: its tids fit into a memtable and their vectors are not null.\<close>

definition recoverable ::
  "heap \<Rightarrow> (SegmentId \<Rightarrow> ItemPointerData list option) \<Rightarrow> nat \<Rightarrow> nat \<Rightarrow> SegmentId \<Rightarrow> bool" where
  "recoverable fetch tids_of w cap sid \<longleftrightarrow>
     (case tids_of sid of
        None \<Rightarrow> False
      | Some tids \<Rightarrow>
          (\<forall>tid \<in> set tids. case fetch tid of None \<Rightarrow> True | Some None \<Rightarrow> False | Some (Some vec) \<Rightarrow> length vec = w)
          \<and> length (heap_rows fetch tids) \<le> cap)"

definition no_null_vector :: "heap \<Rightarrow> ItemPointerData list \<Rightarrow> bool" where
  "no_null_vector fetch tids \<longleftrightarrow> (\<forall>tid \<in> set tids. fetch tid \<noteq> Some None)"

definition rows_loadable ::
  "heap \<Rightarrow> (SegmentId \<Rightarrow> ItemPointerData list option) \<Rightarrow> nat \<Rightarrow> nat \<Rightarrow> SegmentId \<Rightarrow> bool" where
  "rows_loadable fetch tids_of w cap sid \<longleftrightarrow>
     (case tids_of sid of
        None \<Rightarrow> False
      | Some tids \<Rightarrow>
          (\<forall>tid \<in> set tids. case fetch tid of Some (Some vec) \<Rightarrow> length vec = w | _ \<Rightarrow> True)
          \<and> length (heap_rows fetch tids) \<le> cap)"

lemma recoverable_split:
  assumes "tids_of sid \<noteq> None"
  shows "recoverable fetch tids_of w cap sid \<longleftrightarrow> rows_loadable fetch tids_of w cap sid \<and> no_null_vector fetch (the (tids_of sid))"
  using assms by (force simp: recoverable_def rows_loadable_def no_null_vector_def split: option.splits)

text \<open>A slot that holds the memtable of one id, with the rows that are still in the heap.\<close>

definition recovered ::
  "heap \<Rightarrow> (SegmentId \<Rightarrow> ItemPointerData list option) \<Rightarrow> SegmentId \<Rightarrow> MemtableBufferSlot list \<Rightarrow> SegmentId \<Rightarrow> nat \<Rightarrow> bool" where
  "recovered fetch tids_of status_growing_sid buf sid i \<longleftrightarrow>
     i < MEMTABLE_BUF_SIZE \<and> mb_ref_count (buf ! i) = 1
     \<and> memtable_id (mb_mt (buf ! i)) = sid \<and> mt_sealed (mb_mt (buf ! i)) = (sid \<noteq> status_growing_sid)
     \<and> \<not> flush_claimed (mb_mt (buf ! i)) \<and> rows_fit (mb_mt (buf ! i)) \<and> current_size (mb_mt (buf ! i)) \<le> mt_capacity (mb_mt (buf ! i))
     \<and> holds_rows (mb_mt (buf ! i)) (heap_rows fetch (the (tids_of sid)))"

lemma recovered_cong: "recovered fetch tids_of g buf sid i \<Longrightarrow> buf' ! i = buf ! i \<Longrightarrow> recovered fetch tids_of g buf' sid i"
  by (simp add: recovered_def)

lemma reset_holds_nothing:
  assumes "memtable_capacity limit d es = Some cap" "capacity_fits (d * es) cap"
    and "mt_sized mt" "length (vector_blob mt) = MEMTABLE_VECTOR_ARRAY_SIZE_BYTES"
  shows "\<exists>mt'. reset_memtable limit rel sid d es mt = Some mt' \<and> holds_rows mt' [] \<and> rows_fit mt' \<and> memtable_id mt' = sid
    \<and> mt_capacity mt' = cap \<and> VEC_BYTES_PER_ROW mt' = d * es \<and> \<not> mt_sealed mt' \<and> \<not> flush_claimed mt'"
  using assms
  by (auto simp: reset_memtable_def holds_rows_def memtable_rows_def rows_fit_def mt_sized_def capacity_fits_def
      VEC_PTR_AT_def VEC_BYTES_PER_ROW_def nth_append)

lemma register_given:
  assumes "arrays_ok buf" "free_slots buf \<noteq> {}" "memtable_capacity limit (lx_dim lsm) (lx_elem_size lsm) = Some cap"
    "capacity_fits (lx_dim lsm * lx_elem_size lsm) cap"
  obtains i mt where "i \<in> free_slots buf"
    "register_and_set_memtable limit (Some sid) lsm buf status = Some (int i, lsm, buf[i := \<lparr>mb_ref_count = 1, mb_mt = mt\<rparr>], status)"
    "holds_rows mt []" "rows_fit mt" "memtable_id mt = sid" "mt_capacity mt = cap"
    "VEC_BYTES_PER_ROW mt = lx_dim lsm * lx_elem_size lsm" "\<not> mt_sealed mt" "\<not> flush_claimed mt"
proof (cases "first_from (\<lambda>i. mb_ref_count (buf ! i) = 0) 0 MEMTABLE_BUF_SIZE")
  case None
  then show ?thesis using assms(2) by (auto simp: first_from_None_iff free_slots_def)
next
  case (Some i)
  note i = first_from_SomeD [OF Some]
  have "mt_sized (mb_mt (buf ! i)) \<and> length (vector_blob (mb_mt (buf ! i))) = MEMTABLE_VECTOR_ARRAY_SIZE_BYTES"
    using assms(1) i by (auto simp: arrays_ok_def)
  then obtain mt where mt: "reset_memtable limit (indexRelId lsm) sid (lx_dim lsm) (lx_elem_size lsm) (mb_mt (buf ! i)) = Some mt"
    "holds_rows mt []" "rows_fit mt" "memtable_id mt = sid" "mt_capacity mt = cap"
    "VEC_BYTES_PER_ROW mt = lx_dim lsm * lx_elem_size lsm" "\<not> mt_sealed mt" "\<not> flush_claimed mt"
    using reset_holds_nothing [OF assms(3,4)] by blast
  show ?thesis
    by (rule that [OF _ _ mt(2-8)]) (use i mt(1) in \<open>auto simp: free_slots_def register_and_set_memtable_def Some\<close>)
qed

lemma holds_rows_frame:
  "holds_rows (mt\<lparr>mt_sealed := b\<rparr>) rows = holds_rows mt rows" "rows_fit (mt\<lparr>mt_sealed := b\<rparr>) = rows_fit mt"
  by (simp_all add: holds_rows_def memtable_rows_def rows_fit_def mt_sized_def row_at_def VEC_PTR_AT_def VEC_BYTES_PER_ROW_def)

lemma recover_memtable_exact:
  assumes buf: "arrays_ok buf" "free_slots buf \<noteq> {}"
    and cap: "memtable_capacity limit (lx_dim lsm) (lx_elem_size lsm) = Some cap" "capacity_fits (lx_dim lsm * lx_elem_size lsm) cap"
    and sid: "recoverable fetch tids_of (lx_dim lsm * lx_elem_size lsm) cap sid"
    and room: "sid \<noteq> g \<Longrightarrow> memtable_count lsm < MEMTABLE_NUM"
  obtains i slot where "i \<in> free_slots buf"
    "recover_memtable limit fetch tids_of g sid (lsm, buf, done) =
      Some (if sid = g then lsm\<lparr>growing_memtable_idx := int i, growing_memtable_id := g, next_segment_id := g + 1\<rparr>
            else lsm\<lparr>memtable_idxs := (memtable_idxs lsm)[memtable_count lsm := int i], memtable_count := memtable_count lsm + 1\<rparr>,
            buf[i := slot], done \<or> sid = g)"
    "recovered fetch tids_of g (buf[i := slot]) sid i" "arrays_ok (buf[i := slot])"
proof -
  obtain tids where tids: "tids_of sid = Some tids" "length (heap_rows fetch tids) \<le> cap"
    and vecs: "\<forall>tid \<in> set tids. case fetch tid of None \<Rightarrow> True | Some None \<Rightarrow> False
      | Some (Some vec) \<Rightarrow> length vec = lx_dim lsm * lx_elem_size lsm"
    using sid by (auto simp: recoverable_def split: option.splits)
  obtain i mt where i: "i \<in> free_slots buf"
    "register_and_set_memtable limit (Some sid) lsm buf Map.empty = Some (int i, lsm, buf[i := \<lparr>mb_ref_count = 1, mb_mt = mt\<rparr>], Map.empty)"
    and mt: "holds_rows mt []" "rows_fit mt" "memtable_id mt = sid" "mt_capacity mt = cap"
    "VEC_BYTES_PER_ROW mt = lx_dim lsm * lx_elem_size lsm" "\<not> mt_sealed mt" "\<not> flush_claimed mt"
    by (rule register_given [OF buf cap, of sid Map.empty])
  have len: "i < length buf" "length buf = MEMTABLE_BUF_SIZE" using buf(1) i(1) by (simp_all add: arrays_ok_def free_slots_def)
  have "\<exists>mt'. recover_rows fetch tids mt = Some mt' \<and> holds_rows mt' ([] @ heap_rows fetch tids) \<and> rows_fit mt' \<and> mt_frame mt' = mt_frame mt"
    by (rule recover_rows_exact [OF mt(1,2)])
      (use vecs tids(2) in \<open>force simp: mt(4,5) split: option.splits\<close>)+
  then obtain mt' where r: "recover_rows fetch tids mt = Some mt'" "holds_rows mt' (heap_rows fetch tids)" "rows_fit mt'"
    "mt_frame mt' = mt_frame mt" by auto
  have fr: "memtable_id mt' = sid" "\<not> mt_sealed mt'" "\<not> flush_claimed mt'" "mt_capacity mt' = cap"
    using r(4) mt(3,4,6,7) by (simp_all add: mt_frame_def)
  let ?mt = "if sid = g then mt' else mt'\<lparr>mt_sealed := True\<rparr>"
  let ?slot = "\<lparr>mb_ref_count = 1, mb_mt = ?mt\<rparr>"
  have upd: "upd_mt (int i) (\<lambda>_. m) (buf[i := \<lparr>mb_ref_count = 1, mb_mt = mt\<rparr>]) = buf[i := \<lparr>mb_ref_count = 1, mb_mt = m\<rparr>]" for m
    using len(1) by (simp add: upd_mt_def)
  have mt_at: "MT_FROM_SLOTIDX (buf[i := \<lparr>mb_ref_count = 1, mb_mt = mt\<rparr>]) (int i) = mt" using len(1) by (simp add: MT_FROM_SLOTIDX_def)
  have enq: "enqueue_sealed_memtable (int i) lsm =
      Some (lsm\<lparr>memtable_idxs := (memtable_idxs lsm)[memtable_count lsm := int i], memtable_count := memtable_count lsm + 1\<rparr>)" if "sid \<noteq> g"
    using room [OF that] by (simp add: enqueue_sealed_memtable_def)
  have run: "recover_memtable limit fetch tids_of g sid (lsm, buf, done) =
      Some (if sid = g then lsm\<lparr>growing_memtable_idx := int i, growing_memtable_id := g, next_segment_id := g + 1\<rparr>
            else lsm\<lparr>memtable_idxs := (memtable_idxs lsm)[memtable_count lsm := int i], memtable_count := memtable_count lsm + 1\<rparr>,
            buf[i := ?slot], done \<or> sid = g)"
    by (simp add: recover_memtable_def tids(1) i(2) mt_at r(1) upd fr(1) enq)
  have rec: "recovered fetch tids_of g (buf[i := ?slot]) sid i"
  proof -
    have "current_size mt' = length (heap_rows fetch tids)" using r(2) by (simp add: holds_rows_def)
    then show ?thesis using len r(2,3) fr tids by (simp add: recovered_def holds_rows_frame)
  qed
  have "rows_fit ?mt" using r(3) by (simp add: holds_rows_frame)
  then have "arrays_ok (buf[i := ?slot])"
    using buf(1) by (auto simp: arrays_ok_def rows_fit_def dest!: set_update_subset_insert [THEN subsetD])
  with run rec show thesis by (rule that [OF i(1)])
qed

text \<open>All of step 3: \<open>slots\<close> are the slots of the ids that are not on disk, in their order.\<close>

definition unflushed :: "SegmentId \<Rightarrow> SegmentId list \<Rightarrow> SegmentId list" where
  "unflushed last_sid sids = filter (\<lambda>sid. \<not> sid \<le> last_sid) sids"

lemma recovery_step3_exact:
  assumes "arrays_ok buf" "length (unflushed last_sid sids) \<le> card (free_slots buf)" "distinct sids"
    and "memtable_capacity limit (lx_dim lsm) (lx_elem_size lsm) = Some cap" "capacity_fits (lx_dim lsm * lx_elem_size lsm) cap"
    and "\<forall>sid \<in> set (unflushed last_sid sids). recoverable fetch tids_of (lx_dim lsm * lx_elem_size lsm) cap sid"
    and "length (memtable_idxs lsm) = MEMTABLE_NUM"
    and "memtable_count lsm + length (filter (\<lambda>sid. sid \<noteq> g) (unflushed last_sid sids)) \<le> MEMTABLE_NUM"
  shows "\<exists>lsm' buf' slots.
      recovery_step3 limit fetch tids_of g last_sid sids (lsm, buf, done) =
        Some (lsm', buf', done \<or> g \<in> set (unflushed last_sid sids))
    \<and> list_all2 (recovered fetch tids_of g buf') (unflushed last_sid sids) slots \<and> distinct slots \<and> set slots \<subseteq> free_slots buf
    \<and> length buf' = MEMTABLE_BUF_SIZE \<and> (\<forall>j. j \<notin> set slots \<longrightarrow> buf' ! j = buf ! j)
    \<and> queue lsm' = queue lsm @ [int i. (sid, i) \<leftarrow> zip (unflushed last_sid sids) slots, sid \<noteq> g]
    \<and> (if g \<in> set (unflushed last_sid sids)
       then (\<exists>i. (g, i) \<in> set (zip (unflushed last_sid sids) slots) \<and> growing_memtable_idx lsm' = int i)
            \<and> growing_memtable_id lsm' = g \<and> next_segment_id lsm' = g + 1
       else growing_memtable_idx lsm' = growing_memtable_idx lsm \<and> growing_memtable_id lsm' = growing_memtable_id lsm \<and> next_segment_id lsm' = next_segment_id lsm)
    \<and> (flushed_not_released lsm', flushed_not_released_count lsm', indexRelId lsm', lx_index_type lsm')
      = (flushed_not_released lsm, flushed_not_released_count lsm, indexRelId lsm, lx_index_type lsm)"
  using assms
proof (induction sids arbitrary: lsm buf "done")
  case Nil
  then show ?case by (auto simp: unflushed_def arrays_ok_def)
next
  case (Cons sid sids)
  show ?case
  proof (cases "sid \<le> last_sid")
    case True
    then have u: "unflushed last_sid (sid # sids) = unflushed last_sid sids" by (simp add: unflushed_def)
    have "recovery_step3 limit fetch tids_of g last_sid (sid # sids) (lsm, buf, done) =
        recovery_step3 limit fetch tids_of g last_sid sids (lsm, buf, done)" using True by simp
    then show ?thesis using Cons.IH [of buf lsm "done"] Cons.prems unfolding u by simp
  next
    case False
    let ?L = "unflushed last_sid sids"
    have u: "unflushed last_sid (sid # sids) = sid # ?L" using False by (simp add: unflushed_def)
    have new: "sid \<notin> set ?L" using Cons.prems(3) by (simp add: unflushed_def)
    have free: "free_slots buf \<noteq> {}" using Cons.prems(2) by (auto simp: u)
    have rec: "recoverable fetch tids_of (lx_dim lsm * lx_elem_size lsm) cap sid" using Cons.prems(6) by (simp add: u)
    have room: "memtable_count lsm < MEMTABLE_NUM" if "sid \<noteq> g" using Cons.prems(8) that by (simp add: u)
    obtain i slot where i: "i \<in> free_slots buf" and run: "recover_memtable limit fetch tids_of g sid (lsm, buf, done) =
      Some (if sid = g then lsm\<lparr>growing_memtable_idx := int i, growing_memtable_id := g, next_segment_id := g + 1\<rparr>
            else lsm\<lparr>memtable_idxs := (memtable_idxs lsm)[memtable_count lsm := int i], memtable_count := memtable_count lsm + 1\<rparr>,
            buf[i := slot], done \<or> sid = g)"
      and r: "recovered fetch tids_of g (buf[i := slot]) sid i" and arr: "arrays_ok (buf[i := slot])"
      by (rule recover_memtable_exact [OF Cons.prems(1) free Cons.prems(4,5) rec room])
    define lsm1 where "lsm1 = (if sid = g then lsm\<lparr>growing_memtable_idx := int i, growing_memtable_id := g, next_segment_id := g + 1\<rparr>
            else lsm\<lparr>memtable_idxs := (memtable_idxs lsm)[memtable_count lsm := int i], memtable_count := memtable_count lsm + 1\<rparr>)"
    have len: "i < length buf" using i Cons.prems(1) by (simp add: free_slots_def arrays_ok_def)
    have taken: "free_slots (buf[i := slot]) = free_slots buf - {i}"
      using r len by (auto simp: free_slots_def recovered_def nth_list_update)
    have hd: "lx_dim lsm1 = lx_dim lsm" "lx_elem_size lsm1 = lx_elem_size lsm" "length (memtable_idxs lsm1) = length (memtable_idxs lsm)"
      "memtable_count lsm1 = memtable_count lsm + (if sid = g then 0 else 1)" by (simp_all add: lsm1_def)
    have "\<exists>lsm' buf' slots.
        recovery_step3 limit fetch tids_of g last_sid sids (lsm1, buf[i := slot], done \<or> sid = g) =
          Some (lsm', buf', (done \<or> sid = g) \<or> g \<in> set ?L)
      \<and> list_all2 (recovered fetch tids_of g buf') ?L slots \<and> distinct slots \<and> set slots \<subseteq> free_slots (buf[i := slot])
      \<and> length buf' = MEMTABLE_BUF_SIZE \<and> (\<forall>j. j \<notin> set slots \<longrightarrow> buf' ! j = buf[i := slot] ! j)
      \<and> queue lsm' = queue lsm1 @ [int i. (sid, i) \<leftarrow> zip ?L slots, sid \<noteq> g]
      \<and> (if g \<in> set ?L
         then (\<exists>i. (g, i) \<in> set (zip ?L slots) \<and> growing_memtable_idx lsm' = int i)
              \<and> growing_memtable_id lsm' = g \<and> next_segment_id lsm' = g + 1
         else growing_memtable_idx lsm' = growing_memtable_idx lsm1 \<and> growing_memtable_id lsm' = growing_memtable_id lsm1 \<and> next_segment_id lsm' = next_segment_id lsm1)
      \<and> (flushed_not_released lsm', flushed_not_released_count lsm', indexRelId lsm', lx_index_type lsm')
        = (flushed_not_released lsm1, flushed_not_released_count lsm1, indexRelId lsm1, lx_index_type lsm1)"
      by (rule Cons.IH) (use Cons.prems(2-8) arr i taken hd in \<open>auto simp: u\<close>)
    then obtain lsm' buf' slots where ih:
      "recovery_step3 limit fetch tids_of g last_sid sids (lsm1, buf[i := slot], done \<or> sid = g) =
          Some (lsm', buf', (done \<or> sid = g) \<or> g \<in> set ?L)"
      "list_all2 (recovered fetch tids_of g buf') ?L slots" "distinct slots" "set slots \<subseteq> free_slots (buf[i := slot])"
      "length buf' = MEMTABLE_BUF_SIZE" "\<forall>j. j \<notin> set slots \<longrightarrow> buf' ! j = buf[i := slot] ! j"
      "queue lsm' = queue lsm1 @ [int i. (sid, i) \<leftarrow> zip ?L slots, sid \<noteq> g]"
      "if g \<in> set ?L
         then (\<exists>i. (g, i) \<in> set (zip ?L slots) \<and> growing_memtable_idx lsm' = int i)
              \<and> growing_memtable_id lsm' = g \<and> next_segment_id lsm' = g + 1
         else growing_memtable_idx lsm' = growing_memtable_idx lsm1 \<and> growing_memtable_id lsm' = growing_memtable_id lsm1 \<and> next_segment_id lsm' = next_segment_id lsm1"
      "(flushed_not_released lsm', flushed_not_released_count lsm', indexRelId lsm', lx_index_type lsm')
        = (flushed_not_released lsm1, flushed_not_released_count lsm1, indexRelId lsm1, lx_index_type lsm1)" by blast
    have i_new: "i \<notin> set slots" using ih(4) by (auto simp: taken)
    have q: "queue lsm1 = (if sid = g then queue lsm else queue lsm @ [int i])"
      using Cons.prems(7) room by (auto simp: lsm1_def queue_def take_Suc_conv_app_nth)
    show ?thesis
    proof (intro exI [of _ lsm'] exI [of _ buf'] exI [of _ "i # slots"] conjI)
      show "recovery_step3 limit fetch tids_of g last_sid (sid # sids) (lsm, buf, done) =
          Some (lsm', buf', done \<or> g \<in> set (unflushed last_sid (sid # sids)))"
        using False run ih(1) unfolding lsm1_def [symmetric] by (auto simp: u)
      show "list_all2 (recovered fetch tids_of g buf') (unflushed last_sid (sid # sids)) (i # slots)"
        using ih(2,6) i_new r by (auto simp: u intro: recovered_cong)
      show "\<forall>j. j \<notin> set (i # slots) \<longrightarrow> buf' ! j = buf ! j" using ih(6) by auto
      show "queue lsm' = queue lsm @ [int i. (sid, i) \<leftarrow> zip (unflushed last_sid (sid # sids)) (i # slots), sid \<noteq> g]"
        by (simp add: u ih(7) q)
      show "if g \<in> set (unflushed last_sid (sid # sids))
         then (\<exists>k. (g, k) \<in> set (zip (unflushed last_sid (sid # sids)) (i # slots)) \<and> growing_memtable_idx lsm' = int k)
              \<and> growing_memtable_id lsm' = g \<and> next_segment_id lsm' = g + 1
         else growing_memtable_idx lsm' = growing_memtable_idx lsm \<and> growing_memtable_id lsm' = growing_memtable_id lsm \<and> next_segment_id lsm' = next_segment_id lsm"
      proof (cases "sid = g")
        case True
        then show ?thesis using ih(8) new unfolding u by (simp add: lsm1_def)
      next
        case False
        then show ?thesis using ih(8) unfolding u by (auto simp: lsm1_def)
      qed
    qed (use ih(3-5,9) i_new i taken in \<open>auto simp: lsm1_def\<close>)
  qed
qed

text \<open>Where step 3 returns, it found a free slot for every id, a place in the queue for every sealed one and no null vector.\<close>

lemma null_vector_stops: "recover_rows fetch tids mt = Some mt' \<Longrightarrow> no_null_vector fetch tids"
  by (induction tids arbitrary: mt)
    (auto simp: no_null_vector_def recover_row_def split: option.splits)

lemma recover_memtable_Some:
  assumes "recover_memtable limit fetch tids_of g sid (lsm, buf, al) = Some (lsm', buf', al')" "length buf = MEMTABLE_BUF_SIZE"
  obtains i where "i \<in> free_slots buf" "free_slots buf' = free_slots buf - {i}" "length buf' = MEMTABLE_BUF_SIZE"
    "sid \<noteq> g \<Longrightarrow> memtable_count lsm < MEMTABLE_NUM"
    "memtable_count lsm' = memtable_count lsm + (if sid = g then 0 else 1)"
    "no_null_vector fetch (the (tids_of sid))"
proof -
  obtain tids where tids: "tids_of sid = Some tids" using assms(1) by (auto simp: recover_memtable_def split: option.splits)
  obtain mi lsm1 buf1 st where r: "register_and_set_memtable limit (Some sid) lsm buf Map.empty = Some (mi, lsm1, buf1, st)" "\<not> mi < 0"
    using assms(1) tids by (auto simp: recover_memtable_def split: option.splits if_splits)
  obtain i mt where i: "i < MEMTABLE_BUF_SIZE" "mb_ref_count (buf ! i) = 0" "mi = int i" "lsm1 = lsm" "buf1 = buf[i := \<lparr>mb_ref_count = 1, mb_mt = mt\<rparr>]"
    using r by (auto simp: register_and_set_memtable_def dest: first_from_SomeD split: option.splits)
  obtain mt' where mt': "recover_rows fetch tids (MT_FROM_SLOTIDX buf1 mi) = Some mt'"
    using assms(1) tids r by (auto simp: recover_memtable_def split: option.splits if_splits)
  have res: "(\<exists>m. buf' = upd_mt mi m buf1) \<and> (sid \<noteq> g \<longrightarrow> memtable_count lsm < MEMTABLE_NUM)
      \<and> memtable_count lsm' = memtable_count lsm + (if sid = g then 0 else 1)"
    using assms(1) tids r mt' i(4)
    by (auto simp: recover_memtable_def enqueue_sealed_memtable_def split: option.splits if_splits)
  then obtain m where m: "buf' = upd_mt (int i) m buf1" by (auto simp: i(3))
  show thesis
  proof (rule that)
    show "i \<in> free_slots buf" using i by (simp add: free_slots_def)
    show "free_slots buf' = free_slots buf - {i}" "length buf' = MEMTABLE_BUF_SIZE"
      using i assms(2) by (auto simp: m free_slots_def upd_mt_def nth_list_update)
    show "sid \<noteq> g \<Longrightarrow> memtable_count lsm < MEMTABLE_NUM"
      "memtable_count lsm' = memtable_count lsm + (if sid = g then 0 else 1)" using res by blast+
    show "no_null_vector fetch (the (tids_of sid))" using null_vector_stops [OF mt'] tids by simp
  qed
qed

lemma recovery_step3_needs:
  assumes "recovery_step3 limit fetch tids_of g last_sid sids (lsm, buf, al) = Some r" "length buf = MEMTABLE_BUF_SIZE"
    and "memtable_count lsm \<le> MEMTABLE_NUM"
  shows "length (unflushed last_sid sids) \<le> card (free_slots buf)
    \<and> memtable_count lsm + length (filter (\<lambda>sid. sid \<noteq> g) (unflushed last_sid sids)) \<le> MEMTABLE_NUM
    \<and> (\<forall>sid \<in> set (unflushed last_sid sids). no_null_vector fetch (the (tids_of sid)))"
  using assms
proof (induction sids arbitrary: lsm buf al)
  case Nil
  then show ?case by (simp add: unflushed_def)
next
  case (Cons sid sids)
  show ?case
  proof (cases "sid \<le> last_sid")
    case True
    then show ?thesis using Cons.IH [of lsm buf al] Cons.prems by (simp add: unflushed_def)
  next
    case False
    then obtain lsm1 buf1 al1 where one: "recover_memtable limit fetch tids_of g sid (lsm, buf, al) = Some (lsm1, buf1, al1)"
      and rest: "recovery_step3 limit fetch tids_of g last_sid sids (lsm1, buf1, al1) = Some r"
      using Cons.prems(1) by (auto split: option.splits)
    obtain i where i: "i \<in> free_slots buf" "free_slots buf1 = free_slots buf - {i}" "length buf1 = MEMTABLE_BUF_SIZE"
      "sid \<noteq> g \<Longrightarrow> memtable_count lsm < MEMTABLE_NUM"
      "memtable_count lsm1 = memtable_count lsm + (if sid = g then 0 else 1)" "no_null_vector fetch (the (tids_of sid))"
      by (rule recover_memtable_Some [OF one Cons.prems(2)]) blast
    have "memtable_count lsm1 \<le> MEMTABLE_NUM" using i(4,5) Cons.prems(3) by (cases "sid = g") auto
    from Cons.IH [OF rest i(3) this]
    have ih: "length (unflushed last_sid sids) \<le> card (free_slots buf1)"
      "memtable_count lsm1 + length (filter (\<lambda>sid. sid \<noteq> g) (unflushed last_sid sids)) \<le> MEMTABLE_NUM"
      "\<forall>sid \<in> set (unflushed last_sid sids). no_null_vector fetch (the (tids_of sid))" by blast+
    have "card (free_slots buf) = Suc (card (free_slots buf1))"
      unfolding i(2) using i(1) by (intro card.remove) simp_all
    moreover have "unflushed last_sid (sid # sids) = sid # unflushed last_sid sids" using False by (simp add: unflushed_def)
    ultimately show ?thesis using ih i(5,6) by (auto split: if_splits)
  qed
qed

section \<open>Bitmaps of different segments\<close>

lemma dec_split:
  assumes "dec m @ c # r = dec n @ c' # r'" "\<not> is_digit c" "\<not> is_digit c'"
  shows "m = n \<and> c # r = c' # r'"
proof -
  have "takeWhile is_digit (dec k @ x # xs) = dec k" if "\<not> is_digit x" for k x xs
    using that dec_digits by (subst takeWhile_append2) auto
  then have "dec m = dec n" using assms by metis
  then show ?thesis using assms(1) dec_inj by auto
qed

lemma bitmap_file_inj:
  assumes "file_name ''bitmap'' a b v @ c # r = file_name ''bitmap'' a' b' v' @ c' # r'" "\<not> is_digit c" "\<not> is_digit c'"
  shows "(a, b, v) = (a', b', v')"
proof -
  have "dec (unat a) @ CHR ''_'' # dec (unat b) @ ''_v'' @ dec (unat v) @ c # r =
      dec (unat a') @ CHR ''_'' # dec (unat b') @ ''_v'' @ dec (unat v') @ c' # r'"
    using assms(1) by (simp add: file_name_def)
  from dec_split [OF this not_digits(1) not_digits(1)] have a: "unat a = unat a'"
    and "dec (unat b) @ CHR ''_'' # ''v'' @ dec (unat v) @ c # r = dec (unat b') @ CHR ''_'' # ''v'' @ dec (unat v') @ c' # r'"
    by simp_all
  from dec_split [OF this(2) not_digits(1) not_digits(1)] have b: "unat b = unat b'"
    and "dec (unat v) @ c # r = dec (unat v') @ c' # r'"
    by simp_all
  from dec_split [OF this(2) assms(2,3)] have "unat v = unat v'" by simp
  with a b show ?thesis by (simp add: word_unat_eq_iff)
qed

lemma bitmap_step_names:
  assumes "st \<in> set (write_bitmap_file_with_subversion a b v s bs dc)" "n \<in> step_names st"
  shows "\<exists>c r. n = file_name ''bitmap'' a b v @ c # r \<and> \<not> is_digit c"
proof -
  have *: "\<exists>c r. bitmap_name a b v s @ CHR ''.'' # q = file_name ''bitmap'' a b v @ c # r \<and> \<not> is_digit c" for q
  proof (cases "s = UINT32_MAX")
    case True
    then show ?thesis by (intro exI [of _ "CHR ''.''"] exI [of _ q]) (simp add: bitmap_name_def not_digits)
  next
    case False
    then show ?thesis
      by (intro exI [of _ "CHR ''_''"] exI [of _ "''s'' @ dec (unat s) @ CHR ''.'' # q"]) (simp add: bitmap_name_def not_digits)
  qed
  obtain i where "n = tmp_chunk_name (bitmap_name a b v s) i \<or> n = chunk_name (bitmap_name a b v s) i"
    using write_next_steps_names [OF assms] by blast
  then show ?thesis using * [of "''tmp.'' @ dec i"] * [of "dec i"] by (auto simp: tmp_chunk_name_def chunk_name_def)
qed

lemma map_of_other_segment:
  assumes "(a', b', v') \<noteq> (a, b, v)" "\<not> is_digit c"
  shows "map_of (write_next_bitmap d a b v bs dc) (file_name ''bitmap'' a' b' v' @ c # r) = map_of d (file_name ''bitmap'' a' b' v' @ c # r)"
  unfolding write_next_bitmap_def
proof (intro map_of_steps ballI notI)
  fix st assume "st \<in> set (write_bitmap_file_with_subversion a b v (next_subversion d a b v) bs dc)"
    "file_name ''bitmap'' a' b' v' @ c # r \<in> step_names st"
  then show False using bitmap_step_names bitmap_file_inj assms by metis
qed

lemma starts_with_iff: "starts_with pre s \<longleftrightarrow> (\<exists>r. s = pre @ r)"
  unfolding starts_with_def by (metis append_eq_conv_conj append_take_drop_id)

lemma other_segment_names:
  assumes "(a', b', v') \<noteq> (a, b, v)"
  shows "names_with (sub_prefix a' b' v') (write_next_bitmap d a b v bs dc) = names_with (sub_prefix a' b' v') d"
  unfolding write_next_bitmap_def
proof (intro names_with_steps ballI notI)
  fix st n assume st: "st \<in> set (write_bitmap_file_with_subversion a b v (next_subversion d a b v) bs dc)" "n \<in> step_names st"
    "starts_with (sub_prefix a' b' v') n"
  then obtain r where "n = file_name ''bitmap'' a' b' v' @ CHR ''_'' # ''s'' @ r" by (auto simp: starts_with_iff sub_prefix_def)
  with bitmap_step_names [OF st(1,2)] bitmap_file_inj assms not_digits(1) show False by metis
qed

lemma other_segment_bitmap:
  assumes "(a', b', v') \<noteq> (a, b, v)" "v' \<noteq> UINT32_MAX"
  shows "load_bitmap_file (write_next_bitmap d a b v bs dc) a' b' v' = load_bitmap_file d a' b' v'"
    "subversions (write_next_bitmap d a b v bs dc) a' b' v' = subversions d a' b' v'"
proof -
  note names = other_segment_names [OF assms(1), of d bs dc]
  show "subversions (write_next_bitmap d a b v bs dc) a' b' v' = subversions d a' b' v'"
    by (simp add: subversions_def names)
  have sub: "find_latest_bitmap_subversion (write_next_bitmap d a b v bs dc) a' b' v' = find_latest_bitmap_subversion d a' b' v'"
    using names by (simp add: subversion_over_names sub_prefix_def)
  have "map_of (write_next_bitmap d a b v bs dc) (chunk_name (bitmap_name a' b' v' s) j) =
      map_of d (chunk_name (bitmap_name a' b' v' s) j)" for s j
    using map_of_other_segment [OF assms(1)] not_digits by (simp add: bitmap_name_def chunk_name_def)
  then have "read_segment_file (write_next_bitmap d a b v bs dc) (bitmap_name a' b' v' s) True =
      read_segment_file d (bitmap_name a' b' v' s) True" for s
    by (rule read_segment_file_cong)
  then show "load_bitmap_file (write_next_bitmap d a b v bs dc) a' b' v' = load_bitmap_file d a' b' v'"
    by (simp add: load_bitmap_file_def resolve_version_def assms(2) sub)
qed

section \<open>Segments on disk during recovery\<close>

definition file_range :: "SegmentFileInfo \<Rightarrow> SegmentId \<times> SegmentId \<times> u32" where
  "file_range f = (fi_start_sid f, fi_end_sid f, fi_version f)"

text \<open>
  A segment file as the scan reports it: its contents, consistent metadata, offsets that tile ids of its
  range within its rows, and room for \<open>n\<close> more bitmap subversions.
\<close>

definition segment_ok :: "nat \<Rightarrow> directory \<Rightarrow> SegmentFileInfo \<Rightarrow> disk_segment \<Rightarrow> bool" where
  "segment_ok n d f g \<longleftrightarrow>
     (case file_range f of (a, b, v) \<Rightarrow>
        on_disk d a b v g \<and> (\<exists>rows ty. read_lsm_segment_metadata d a b v = Some (a, b, rows, ty))
      \<and> find_latest_segment_version d a b = v \<and> v \<noteq> UINT32_MAX
      \<and> (\<forall>s \<in> subversions d a b v. unat s + n < unat (UINT32_MAX - 1))
      \<and> (\<forall>r \<in> set (ds_offsets g). a \<le> off_sid r \<and> off_sid r \<le> b \<and> end_offset r \<le> ds_rows g))"

text \<open>The rows \<open>S\<close> are tombstoned in addition and counted, nothing else changes.\<close>

definition tombstoned :: "nat set \<Rightarrow> disk_segment \<Rightarrow> disk_segment \<Rightarrow> bool" where
  "tombstoned S g g' \<longleftrightarrow>
     ds_rows g' = ds_rows g \<and> ds_mapping g' = ds_mapping g \<and> ds_offsets g' = ds_offsets g
     \<and> length (ds_bitmap g') = length (ds_bitmap g)
     \<and> (\<forall>m. IS_SLOT_SET (ds_bitmap g') m \<longleftrightarrow> m \<in> S \<or> IS_SLOT_SET (ds_bitmap g) m)
     \<and> ds_delete_count g' = ds_delete_count g + of_nat (card {m \<in> S. \<not> IS_SLOT_SET (ds_bitmap g) m})"

definition unlogged_rows :: "SegmentId \<Rightarrow> disk_segment \<Rightarrow> nat set" where
  "unlogged_rows max_sid g =
     {m. \<exists>r \<in> set (ds_offsets g). max_sid < off_sid r \<and> start_offset r \<le> m \<and> m < end_offset r}"

definition missing_rows :: "(SegmentId \<Rightarrow> ItemPointerData list option) \<Rightarrow> SegmentId list \<Rightarrow> disk_segment \<Rightarrow> nat set" where
  "missing_rows tids_of sids g =
     {m. \<exists>r \<in> set (ds_offsets g). off_sid r \<in> set sids \<and> start_offset r \<le> m \<and> m < end_offset r
        \<and> ds_mapping g ! m \<notin> ItemPointerToInt64 ` set (the (tids_of (off_sid r)))}"

lemma tombstoned_none: "tombstoned {} g g"
  by (simp add: tombstoned_def)

lemma tombstoned_rows:
  "tombstoned S g g' \<Longrightarrow> unlogged_rows max_sid g' = unlogged_rows max_sid g"
  "tombstoned S g g' \<Longrightarrow> missing_rows tids_of sids g' = missing_rows tids_of sids g"
  by (simp_all add: tombstoned_def unlogged_rows_def missing_rows_def)

lemma tombstoned_fold:
  assumes "set is = S" "\<forall>m \<in> S. m < ds_rows g" "length (ds_bitmap g) = GET_BITMAP_SIZE (ds_rows g)"
  shows "tombstoned S g (g\<lparr>ds_bitmap := fst (foldl SET_AND_COUNT (ds_bitmap g, ds_delete_count g) is),
    ds_delete_count := snd (foldl SET_AND_COUNT (ds_bitmap g, ds_delete_count g) is)\<rparr>)"
proof -
  have "\<forall>m \<in> set is. in_bitmap (ds_bitmap g) m" using assms GET_BITMAP_SIZE_covers by blast
  then show ?thesis using marking [of "is" "ds_bitmap g" "ds_delete_count g"] assms(1) by (simp add: tombstoned_def)
qed

text \<open>Writing the next bitmap of one segment.\<close>

lemma rewrite_bitmap:
  assumes f: "segment_ok (Suc n) d f g" "n < unat (UINT32_MAX - 1)" and same: "ds_rows g' = ds_rows g"
    "ds_mapping g' = ds_mapping g" "ds_offsets g' = ds_offsets g" "length (ds_bitmap g') = length (ds_bitmap g)"
  defines "d' \<equiv> write_next_bitmap d (fi_start_sid f) (fi_end_sid f) (fi_version f) (ds_bitmap g') (ds_delete_count g')"
  shows "segment_ok n d' f g'" "file_range f' \<noteq> file_range f \<Longrightarrow> segment_ok k d f' h \<Longrightarrow> segment_ok k d' f' h"
    "scan_segment_metadata_files d' m = scan_segment_metadata_files d m"
proof -
  obtain a b v where r: "file_range f = (a, b, v)" "fi_start_sid f = a" "fi_end_sid f = b" "fi_version f = v"
    by (simp add: file_range_def)
  have v: "v \<noteq> UINT32_MAX" and subs: "\<forall>s \<in> subversions d a b v. unat s + Suc n < unat (UINT32_MAX - 1)"
    using f(1) by (simp_all add: segment_ok_def r(1))
  have ok: "subversions_ok d a b v"
    unfolding subversions_ok_def
  proof
    fix x assume "x \<in> set (names_with (sub_prefix a b v) d)"
    then have "sub_value a b v x \<in> subversions d a b v" by (simp add: subversions_def)
    then show "sub_value a b v x < UINT32_MAX - 1" using subs by (force simp: word_less_nat_alt)
  qed
  have d': "d' = write_next_bitmap d a b v (ds_bitmap g') (ds_delete_count g')" by (simp add: d'_def r)
  show "scan_segment_metadata_files d' m = scan_segment_metadata_files d m" unfolding d' by (rule next_bitmap_keeps(4) [OF v])
  have "unat s + n < unat (UINT32_MAX - 1)" if s: "s \<in> subversions d' a b v" for s
  proof (cases "s = next_subversion d a b v")
    case True
    then show ?thesis using next_subversion_bound [OF subs f(2)] by simp
  next
    case False
    then have "s \<in> subversions d a b v" using s subversions_after(2) [OF ok] unfolding d' by blast
    then show ?thesis using subs by force
  qed
  moreover have "on_disk d' a b v g'"
    using f(1) unfolding on_disk_def segment_ok_def r(1) prod.case d' next_bitmap_keeps [OF v] load_next_bitmap [OF ok v]
    by (auto simp: same split: option.splits prod.splits)
  ultimately show "segment_ok n d' f g'"
    using f(1) by (simp add: segment_ok_def r(1) d' next_bitmap_keeps(3,5) [OF v] same)
  show "segment_ok k d' f' h" if "file_range f' \<noteq> file_range f" "segment_ok k d f' h"
  proof -
    obtain a' b' v' where r': "file_range f' = (a', b', v')" by (cases "file_range f'")
    have v': "v' \<noteq> UINT32_MAX" using that(2) by (simp add: segment_ok_def r')
    have ne: "(a', b', v') \<noteq> (a, b, v)" using that(1) r r' by simp
    show ?thesis
      using that(2) by (simp add: segment_ok_def r' on_disk_def d' next_bitmap_keeps(1-3,5) [OF v'] other_segment_bitmap [OF ne v'])
  qed
qed

section \<open>Steps 1 and 2\<close>

lemma foldl_if_filter: "foldl (\<lambda>acc i. if P i then h acc i else acc) acc xs = foldl h acc (filter P xs)"
  by (induction xs arbitrary: acc) auto

lemma foldl_concat: "foldl (foldl h) acc xss = foldl h acc (concat xss)"
  by (induction xss arbitrary: acc) auto

lemma mark_unlogged_fold:
  "mark_unlogged max_sid rows offs acc = foldl SET_AND_COUNT acc
     (concat [filter (\<lambda>i. i < rows) [start_offset r..<end_offset r]. r \<leftarrow> offs, \<not> off_sid r \<le> max_sid])"
  unfolding mark_unlogged_def by (induction offs arbitrary: acc) (simp_all add: foldl_if_filter)

lemma mark_missing_fold:
  assumes "\<forall>r \<in> set offs. off_sid r \<in> set sids \<longrightarrow> tids_of (off_sid r) \<noteq> None"
  shows "mark_missing tids_of sids mapping offs acc = Some (foldl SET_AND_COUNT acc
     (concat [filter (\<lambda>i. mapping ! i \<notin> ItemPointerToInt64 ` set (the (tids_of (off_sid r)))) [start_offset r..<end_offset r].
        r \<leftarrow> offs, off_sid r \<in> set sids]))"
  using assms
proof (induction offs arbitrary: acc)
  case (Cons r offs)
  have sw: "(if mapping ! i \<in> S then acc else SET_AND_COUNT acc i) = (if mapping ! i \<notin> S then SET_AND_COUNT acc i else acc)" for i S acc
    by simp
  have hd: "mark_missing tids_of sids mapping (r # offs) acc = mark_missing tids_of sids mapping offs
      (foldl SET_AND_COUNT acc (if off_sid r \<in> set sids then filter (\<lambda>i. mapping ! i \<notin> ItemPointerToInt64 ` set (the (tids_of (off_sid r))))
         [start_offset r..<end_offset r] else []))"
    using Cons.prems by (auto simp: mark_missing_def Let_def sw foldl_if_filter)
  show ?case unfolding hd using Cons by simp
qed (simp add: mark_missing_def)

lemma segment_loads:
  assumes "segment_ok n d f g" "file_range f = (a, b, v)"
  obtains ob rows ty where "read_lsm_segment_metadata d a b v = Some (a, b, rows, ty)" "unat rows = ds_rows g"
    "load_offset_file d a b UINT32_MAX = Some ob" "decode_offsets (unat (b - a + 1)) ob = ds_offsets g"
    "decode_mapping (load_mapping_file d a b UINT32_MAX) = ds_mapping g"
    "load_bitmap_file d a b UINT32_MAX = (ds_bitmap g, Some (ds_delete_count g))"
    "length (ds_bitmap g) = GET_BITMAP_SIZE (ds_rows g)" "find_latest_segment_version d a b = v"
    "\<forall>r \<in> set (ds_offsets g). a \<le> off_sid r \<and> off_sid r \<le> b \<and> end_offset r \<le> ds_rows g"
proof -
  have v: "v \<noteq> UINT32_MAX" "find_latest_segment_version d a b = v" using assms by (simp_all add: segment_ok_def)
  then have res: "resolve_version d a b UINT32_MAX = resolve_version d a b v" by (simp add: resolve_version_def)
  show thesis
    using assms that v(2) unfolding segment_ok_def on_disk_def load_offset_file_def load_mapping_file_def load_bitmap_file_def res
    by (auto split: if_splits)
qed

lemma vacuum_unlogged_effect:
  assumes ok: "segment_ok n d f g" and over: "fi_end_sid f > max_sid"
  shows "\<exists>g'. tombstoned (unlogged_rows max_sid g) g g' \<and> vacuum_unlogged max_sid f d =
    Some (write_next_bitmap d (fi_start_sid f) (fi_end_sid f) (fi_version f) (ds_bitmap g') (ds_delete_count g'))"
proof -
  obtain a b v where r: "file_range f = (a, b, v)" "fi_start_sid f = a" "fi_end_sid f = b" "fi_version f = v"
    by (simp add: file_range_def)
  obtain ob rows ty where l: "read_lsm_segment_metadata d a b v = Some (a, b, rows, ty)" "unat rows = ds_rows g"
    "load_offset_file d a b UINT32_MAX = Some ob" "decode_offsets (unat (b - a + 1)) ob = ds_offsets g"
    "decode_mapping (load_mapping_file d a b UINT32_MAX) = ds_mapping g"
    "load_bitmap_file d a b UINT32_MAX = (ds_bitmap g, Some (ds_delete_count g))"
    "length (ds_bitmap g) = GET_BITMAP_SIZE (ds_rows g)" "find_latest_segment_version d a b = v"
    "\<forall>r \<in> set (ds_offsets g). a \<le> off_sid r \<and> off_sid r \<le> b \<and> end_offset r \<le> ds_rows g"
    by (rule segment_loads [OF ok r(1)])
  let ?is = "concat [filter (\<lambda>i. i < ds_rows g) [start_offset r..<end_offset r]. r \<leftarrow> ds_offsets g, \<not> off_sid r \<le> max_sid]"
  let ?m = "foldl SET_AND_COUNT (ds_bitmap g, ds_delete_count g) ?is"
  let ?g = "g\<lparr>ds_bitmap := fst ?m, ds_delete_count := snd ?m\<rparr>"
  have rows: "m < ds_rows g" if "m \<in> unlogged_rows max_sid g" for m
    using that l(9) by (auto simp: unlogged_rows_def intro: less_le_trans)
  have "set ?is = unlogged_rows max_sid g"
    using l(9) by (auto simp: unlogged_rows_def not_le intro: less_le_trans)
  then have t: "tombstoned (unlogged_rows max_sid g) g ?g" using rows l(7) by (intro tombstoned_fold) auto
  have mk: "mark_unlogged max_sid (ds_rows g) (ds_offsets g) (ds_bitmap g, ds_delete_count g) = ?m" by (rule mark_unlogged_fold)
  have len: "take (GET_BITMAP_SIZE (ds_rows g)) (fst ?m) = fst ?m" using l(7) by simp
  have "vacuum_unlogged max_sid f d = Some (write_next_bitmap d a b v (ds_bitmap ?g) (ds_delete_count ?g))"
    using over by (simp only: vacuum_unlogged_def r l(1-4,6,8) option.case prod.case load_delete_count_def fst_conv snd_conv mk
      Let_def if_True case_prod_beta len disk_segment.select_convs disk_segment.update_convs) (simp add: len)
  with t show ?thesis unfolding r by blast
qed

lemma tombstoned_unchanged:
  assumes t: "tombstoned S g g'" "ds_bitmap g' = ds_bitmap g"
  shows "tombstoned S g g"
proof -
  have none: "{m \<in> S. \<not> IS_SLOT_SET (ds_bitmap g) m} = {}" using t by (auto simp: tombstoned_def)
  then have "\<forall>m. IS_SLOT_SET (ds_bitmap g) m \<longleftrightarrow> m \<in> S \<or> IS_SLOT_SET (ds_bitmap g) m" by blast
  moreover have "card {m \<in> S. \<not> IS_SLOT_SET (ds_bitmap g) m} = 0" by (simp only: none card.empty)
  ultimately show ?thesis unfolding tombstoned_def by simp
qed

lemma vacuum_missing_effect:
  assumes ok: "segment_ok n d f g" and tids: "\<forall>r \<in> set (ds_offsets g). off_sid r \<in> set sids \<longrightarrow> tids_of (off_sid r) \<noteq> None"
  shows "\<exists>g' d'. tombstoned (missing_rows tids_of sids g) g g' \<and> vacuum_missing tids_of sids f d = Some d'
    \<and> (d' = d \<and> g' = g \<or> d' = write_next_bitmap d (fi_start_sid f) (fi_end_sid f) (fi_version f) (ds_bitmap g') (ds_delete_count g'))"
proof -
  obtain a b v where r: "file_range f = (a, b, v)" "fi_start_sid f = a" "fi_end_sid f = b" "fi_version f = v"
    by (simp add: file_range_def)
  obtain ob rows ty where l: "read_lsm_segment_metadata d a b v = Some (a, b, rows, ty)" "unat rows = ds_rows g"
    "load_offset_file d a b UINT32_MAX = Some ob" "decode_offsets (unat (b - a + 1)) ob = ds_offsets g"
    "decode_mapping (load_mapping_file d a b UINT32_MAX) = ds_mapping g"
    "load_bitmap_file d a b UINT32_MAX = (ds_bitmap g, Some (ds_delete_count g))"
    "length (ds_bitmap g) = GET_BITMAP_SIZE (ds_rows g)" "find_latest_segment_version d a b = v"
    "\<forall>r \<in> set (ds_offsets g). a \<le> off_sid r \<and> off_sid r \<le> b \<and> end_offset r \<le> ds_rows g"
    by (rule segment_loads [OF ok r(1)])
  let ?S = "missing_rows tids_of sids g"
  let ?is = "concat [filter (\<lambda>i. ds_mapping g ! i \<notin> ItemPointerToInt64 ` set (the (tids_of (off_sid r)))) [start_offset r..<end_offset r].
        r \<leftarrow> ds_offsets g, off_sid r \<in> set sids]"
  let ?m = "foldl SET_AND_COUNT (ds_bitmap g, ds_delete_count g) ?is"
  let ?g = "g\<lparr>ds_bitmap := fst ?m, ds_delete_count := snd ?m\<rparr>"
  have rows: "\<forall>m \<in> ?S. m < ds_rows g" using l(9) by (auto simp: missing_rows_def intro: less_le_trans)
  have S: "set ?is = ?S" by (auto simp: missing_rows_def)
  then have t: "tombstoned ?S g ?g" using rows l(7) by (intro tombstoned_fold) auto
  have mk: "mark_missing tids_of sids (ds_mapping g) (ds_offsets g) (ds_bitmap g, ds_delete_count g) = Some ?m"
    by (rule mark_missing_fold [OF tids])
  have len: "take (GET_BITMAP_SIZE (ds_rows g)) (fst ?m) = fst ?m" using l(7) by simp
  have run: "vacuum_missing tids_of sids f d = (if fst ?m = ds_bitmap g then Some d
      else Some (write_next_bitmap d a b v (fst ?m) (snd ?m)))"
    by (simp only: vacuum_missing_def r l(1-6,8) option.case prod.case load_delete_count_def fst_conv snd_conv mk Let_def
      case_prod_beta len)
  show ?thesis
  proof (cases "fst ?m = ds_bitmap g")
    case True
    have "tombstoned ?S g g" by (rule tombstoned_unchanged [OF t]) (simp add: True)
    then show ?thesis using run True by auto
  next
    case False
    then show ?thesis using run t unfolding r by (intro exI [of _ ?g]) auto
  qed
qed

lemma segment_range_le: "segment_ok n d f g \<Longrightarrow> fi_start_sid f \<le> fi_end_sid f"
  by (auto simp: segment_ok_def on_disk_def file_range_def load_offset_file_def split: if_splits)

lemma segment_ok_less: "segment_ok (Suc n) d f g \<Longrightarrow> segment_ok n d f g"
  unfolding segment_ok_def by (auto split: prod.splits)

definition descending_files :: "SegmentFileInfo list \<Rightarrow> bool" where
  "descending_files fs \<longleftrightarrow> sorted_wrt (\<lambda>f f'. fi_end_sid f' < fi_start_sid f) fs"

lemma no_unlogged_rows:
  assumes "segment_ok n d f g" "fi_end_sid f \<le> max_sid"
  shows "unlogged_rows max_sid g = {}"
  using assms by (fastforce simp: unlogged_rows_def segment_ok_def file_range_def)

lemma recovery_step1_exact:
  assumes "descending_files fs" "\<forall>f \<in> set fs. segment_ok (Suc n) d f (seg f)" "n < unat (UINT32_MAX - 1)"
  shows "\<exists>d'. recovery_step1 max_sid fs d = Some d'
    \<and> (\<forall>f \<in> set fs. \<exists>g'. tombstoned (unlogged_rows max_sid (seg f)) (seg f) g' \<and> segment_ok n d' f g')
    \<and> (\<forall>f k h. file_range f \<notin> file_range ` set fs \<longrightarrow> segment_ok k d f h \<longrightarrow> segment_ok k d' f h)"
  using assms
proof (induction fs arbitrary: d)
  case (Cons f fs)
  have ok: "segment_ok (Suc n) d f (seg f)" using Cons.prems(2) by simp
  have rest_end: "fi_end_sid f' < fi_start_sid f" if "f' \<in> set fs" for f' using Cons.prems(1) that by (simp add: descending_files_def)
  show ?case
  proof (cases "fi_end_sid f > max_sid")
    case True
    obtain g' where g': "tombstoned (unlogged_rows max_sid (seg f)) (seg f) g'"
      "vacuum_unlogged max_sid f d = Some (write_next_bitmap d (fi_start_sid f) (fi_end_sid f) (fi_version f) (ds_bitmap g') (ds_delete_count g'))"
      using vacuum_unlogged_effect [OF ok True] by blast
    let ?d = "write_next_bitmap d (fi_start_sid f) (fi_end_sid f) (fi_version f) (ds_bitmap g') (ds_delete_count g')"
    have same: "ds_rows g' = ds_rows (seg f)" "ds_mapping g' = ds_mapping (seg f)" "ds_offsets g' = ds_offsets (seg f)"
      "length (ds_bitmap g') = length (ds_bitmap (seg f))" using g'(1) by (simp_all add: tombstoned_def)
    note rw = rewrite_bitmap [OF ok Cons.prems(3) same]
    have other: "file_range f' \<noteq> file_range f" if "f' \<in> set fs" for f'
      using rest_end [OF that] segment_range_le [OF ok] by (auto simp: file_range_def)
    have "\<exists>d'. recovery_step1 max_sid fs ?d = Some d'
      \<and> (\<forall>f \<in> set fs. \<exists>g'. tombstoned (unlogged_rows max_sid (seg f)) (seg f) g' \<and> segment_ok n d' f g')
      \<and> (\<forall>f k h. file_range f \<notin> file_range ` set fs \<longrightarrow> segment_ok k ?d f h \<longrightarrow> segment_ok k d' f h)"
      by (rule Cons.IH) (use Cons.prems other rw(2) in \<open>auto simp: descending_files_def\<close>)
    then obtain d' where d': "recovery_step1 max_sid fs ?d = Some d'"
      "\<forall>f \<in> set fs. \<exists>g'. tombstoned (unlogged_rows max_sid (seg f)) (seg f) g' \<and> segment_ok n d' f g'"
      "\<forall>f k h. file_range f \<notin> file_range ` set fs \<longrightarrow> segment_ok k ?d f h \<longrightarrow> segment_ok k d' f h" by blast
    have "file_range f \<notin> file_range ` set fs" using other by (metis imageE)
    then have "segment_ok n d' f g'" using d'(3) rw(1) by blast
    then show ?thesis using d' g' True rw(2) by auto
  next
    case False
    then have "recovery_step1 max_sid (f # fs) d = Some d" by simp
    moreover have "\<exists>g'. tombstoned (unlogged_rows max_sid (seg f')) (seg f') g' \<and> segment_ok n d f' g'" if "f' \<in> set (f # fs)" for f'
    proof -
      have ok': "segment_ok (Suc n) d f' (seg f')" using Cons.prems(2) that by blast
      have "fi_end_sid f' \<le> max_sid"
        using False that rest_end [of f'] segment_range_le [OF ok] by (auto simp: not_less)
      then show ?thesis using no_unlogged_rows [OF ok'] tombstoned_none segment_ok_less [OF ok'] by metis
    qed
    ultimately show ?thesis by blast
  qed
qed simp

lemma recovery_step2_exact:
  assumes "descending_files fs" "sorted_wrt (>) sids" "\<forall>f \<in> set fs. segment_ok (Suc n) d f (seg f)" "n < unat (UINT32_MAX - 1)"
    and "\<forall>sid \<in> set sids. tids_of sid \<noteq> None"
  shows "\<exists>d'. recovery_step2 tids_of fs sids d = Some d'
    \<and> (\<forall>f \<in> set fs. \<exists>g'. tombstoned (missing_rows tids_of sids (seg f)) (seg f) g' \<and> segment_ok n d' f g')
    \<and> (\<forall>f k h. file_range f \<notin> file_range ` set fs \<longrightarrow> segment_ok k d f h \<longrightarrow> segment_ok k d' f h)"
  using assms
proof (induction tids_of fs sids d rule: recovery_step2.induct [case_names step no_files no_sids])
  case (step tids_of f fs s ss d)
  have ok: "segment_ok (Suc n) d f (seg f)" using step.prems(3) by simp
  have rest_end: "fi_end_sid f' < fi_start_sid f" if "f' \<in> set fs" for f' using step.prems(1) that by (simp add: descending_files_def)
  have other: "file_range f' \<noteq> file_range f" if "f' \<in> set fs" for f'
    using rest_end [OF that] segment_range_le [OF ok] by (auto simp: file_range_def)
  have ids: "fi_start_sid f' \<le> off_sid r" "off_sid r \<le> fi_end_sid f'" if "f' \<in> set (f # fs)" "r \<in> set (ds_offsets (seg f'))" for f' r
    using step.prems(3) that by (auto simp: segment_ok_def file_range_def)
  show ?case
  proof (cases "s > fi_end_sid f")
    case True
    have "\<exists>d'. recovery_step2 tids_of (f # fs) ss d = Some d'
      \<and> (\<forall>f \<in> set (f # fs). \<exists>g'. tombstoned (missing_rows tids_of ss (seg f)) (seg f) g' \<and> segment_ok n d' f g')
      \<and> (\<forall>f' k h. file_range f' \<notin> file_range ` set (f # fs) \<longrightarrow> segment_ok k d f' h \<longrightarrow> segment_ok k d' f' h)"
      by (rule step.IH(1) [OF True]) (use step.prems in auto)
    moreover have "missing_rows tids_of (s # ss) (seg f') = missing_rows tids_of ss (seg f')" if "f' \<in> set (f # fs)" for f'
    proof -
      have "off_sid r \<noteq> s" if "r \<in> set (ds_offsets (seg f'))" for r
        using ids(2) [OF \<open>f' \<in> set (f # fs)\<close> that] True \<open>f' \<in> set (f # fs)\<close> rest_end [of f'] segment_range_le [OF ok] by auto
      then show ?thesis by (auto simp: missing_rows_def)
    qed
    ultimately show ?thesis using True by simp
  next
    case below: False
    then have le: "s \<le> fi_end_sid f" by simp
    show ?thesis
    proof (cases "fi_start_sid f \<le> s")
      case True
      obtain g' d1 where g': "tombstoned (missing_rows tids_of (s # ss) (seg f)) (seg f) g'"
        "vacuum_missing tids_of (s # ss) f d = Some d1"
        "d1 = d \<and> g' = seg f \<or> d1 = write_next_bitmap d (fi_start_sid f) (fi_end_sid f) (fi_version f) (ds_bitmap g') (ds_delete_count g')"
        using vacuum_missing_effect [OF ok, of "s # ss" tids_of] step.prems(5) by blast
      have same: "ds_rows g' = ds_rows (seg f)" "ds_mapping g' = ds_mapping (seg f)" "ds_offsets g' = ds_offsets (seg f)"
        "length (ds_bitmap g') = length (ds_bitmap (seg f))" using g'(1) by (simp_all add: tombstoned_def)
      note rw = rewrite_bitmap [OF ok step.prems(4) same]
      have here: "segment_ok n d1 f g'" using g'(3) rw(1) segment_ok_less [OF ok] by blast
      have kept: "segment_ok k d1 f' h" if "file_range f' \<noteq> file_range f" "segment_ok k d f' h" for f' k h
        using g'(3) rw(2) that by blast
      have "\<exists>d'. recovery_step2 tids_of fs (s # ss) d1 = Some d'
        \<and> (\<forall>f \<in> set fs. \<exists>g'. tombstoned (missing_rows tids_of (s # ss) (seg f)) (seg f) g' \<and> segment_ok n d' f g')
        \<and> (\<forall>f k h. file_range f \<notin> file_range ` set fs \<longrightarrow> segment_ok k d1 f h \<longrightarrow> segment_ok k d' f h)"
        by (rule step.IH(2) [OF below _ g'(2)]) (use step.prems below True other kept in \<open>auto simp: descending_files_def\<close>)
      then obtain d' where d': "recovery_step2 tids_of fs (s # ss) d1 = Some d'"
        "\<forall>f \<in> set fs. \<exists>g'. tombstoned (missing_rows tids_of (s # ss) (seg f)) (seg f) g' \<and> segment_ok n d' f g'"
        "\<forall>f k h. file_range f \<notin> file_range ` set fs \<longrightarrow> segment_ok k d1 f h \<longrightarrow> segment_ok k d' f h" by blast
      have "file_range f \<notin> file_range ` set fs" using other by (metis imageE)
      then have "segment_ok n d' f g'" using d'(3) here by blast
      moreover have "recovery_step2 tids_of (f # fs) (s # ss) d = Some d'" using below True g'(2) d'(1) by (simp add: le)
      ultimately show ?thesis using d'(2,3) g'(1) kept by auto
    next
      case False
      have "\<exists>d'. recovery_step2 tids_of fs (s # ss) d = Some d'
        \<and> (\<forall>f \<in> set fs. \<exists>g'. tombstoned (missing_rows tids_of (s # ss) (seg f)) (seg f) g' \<and> segment_ok n d' f g')
        \<and> (\<forall>f k h. file_range f \<notin> file_range ` set fs \<longrightarrow> segment_ok k d f h \<longrightarrow> segment_ok k d' f h)"
        by (rule step.IH(3) [OF below]) (use step.prems False in \<open>auto simp: descending_files_def\<close>)
      then obtain d' where d': "recovery_step2 tids_of fs (s # ss) d = Some d'"
        "\<forall>f \<in> set fs. \<exists>g'. tombstoned (missing_rows tids_of (s # ss) (seg f)) (seg f) g' \<and> segment_ok n d' f g'"
        "\<forall>f k h. file_range f \<notin> file_range ` set fs \<longrightarrow> segment_ok k d f h \<longrightarrow> segment_ok k d' f h" by blast
      have "missing_rows tids_of (s # ss) (seg f) = {}"
      proof -
        have "off_sid r \<notin> set (s # ss)" if "r \<in> set (ds_offsets (seg f))" for r
          using ids(1) [of f r] that False step.prems(2) by force
        then show ?thesis by (auto simp: missing_rows_def)
      qed
      moreover have "file_range f \<notin> file_range ` set fs" using other by (metis imageE)
      then have "segment_ok n d' f (seg f)" using d'(3) segment_ok_less [OF ok] by blast
      moreover have "recovery_step2 tids_of (f # fs) (s # ss) d = Some d'" using below False d'(1) by simp
      moreover have "tombstoned {} (seg f) (seg f)" by (rule tombstoned_none)
      ultimately show ?thesis using d'(2,3) by (simp del: recovery_step2.simps) blast
    qed
  qed
next
  case (no_files tids_of ss d)
  then show ?case by simp
next
  case (no_sids tids_of fs d)
  then have "missing_rows tids_of [] (seg f) = {}" for f by (simp add: missing_rows_def)
  moreover have "segment_ok n d f (seg f)" "tombstoned {} (seg f) (seg f)" if "f \<in> set fs" for f
    using no_sids.prems(3) that segment_ok_less tombstoned_none by blast+
  ultimately show ?case by (simp del: ex_simps) blast
qed

section \<open>The whole recovery\<close>

text \<open>
  What a crash leaves, with the ids \<open>registered\<close> in the status pages, the growing id \<open>g\<close>, the segment files
  \<open>files\<close> with contents \<open>seg\<close>, and enough room in shared memory for what is not on disk.
\<close>

abbreviation status_tids :: "fork \<Rightarrow> SegmentId \<Rightarrow> ItemPointerData list option" where
  "status_tids pages sid \<equiv> GetStatusMemtableTids MEMTABLE_MAX_CAPACITY sid pages"

definition after_crash ::
  "nat \<Rightarrow> heap \<Rightarrow> fork \<Rightarrow> directory \<Rightarrow> MemtableBufferSlot list \<Rightarrow> SegmentId \<Rightarrow> SegmentId list
     \<Rightarrow> SegmentFileInfo list \<Rightarrow> (SegmentFileInfo \<Rightarrow> disk_segment) \<Rightarrow> bool" where
  "after_crash limit fetch pages d buf g registered files seg \<longleftrightarrow>
     GetStatusGrowingSid pages = Some g \<and> GetStatusMemtableSids pages = Some registered
     \<and> registered \<noteq> [] \<and> distinct registered \<and> (\<forall>sid \<in> set registered. status_tids pages sid \<noteq> None)
     \<and> files = scan_segment_metadata_files d MAX_SEGMENTS_COUNT \<and> files \<noteq> []
     \<and> sorted_wrt (\<lambda>f f'. fi_end_sid f < fi_start_sid f') files \<and> (\<forall>f \<in> set files. segment_ok 2 d f (seg f))
     \<and> arrays_ok buf
     \<and> (case read_lsm_index_metadata d of None \<Rightarrow> False | Some im \<Rightarrow>
          let w = unat (im_dim im) * unat (im_elem_size im); U = unflushed (fi_end_sid (last files)) (sort registered) in
          index_type_of (im_index_type im) \<noteq> None
        \<and> (case memtable_capacity limit (unat (im_dim im)) (unat (im_elem_size im)) of None \<Rightarrow> False
           | Some cap \<Rightarrow> capacity_fits w cap \<and> (\<forall>sid \<in> set U. recoverable fetch (status_tids pages) w cap sid))
        \<and> length U \<le> card (free_slots buf) \<and> length (filter (\<lambda>sid. sid \<noteq> g) U) \<le> MEMTABLE_NUM
        \<and> length registered - length U \<le> MEMTABLE_NUM)"

text \<open>
  The same without any bound on the resources: what is left are facts about the pages and the files, and that the
  capacity setting was not lowered. \<open>recovery_room\<close> collects what recovery needs beside them for the ids \<open>U\<close> that
  are not on disk: a free slot for each, places in the two arrays of four, and no null vector.
\<close>

definition crash_state ::
  "nat \<Rightarrow> heap \<Rightarrow> fork \<Rightarrow> directory \<Rightarrow> MemtableBufferSlot list \<Rightarrow> SegmentId \<Rightarrow> SegmentId list
     \<Rightarrow> SegmentFileInfo list \<Rightarrow> (SegmentFileInfo \<Rightarrow> disk_segment) \<Rightarrow> bool" where
  "crash_state limit fetch pages d buf g registered files seg \<longleftrightarrow>
     GetStatusGrowingSid pages = Some g \<and> GetStatusMemtableSids pages = Some registered
     \<and> registered \<noteq> [] \<and> distinct registered \<and> (\<forall>sid \<in> set registered. status_tids pages sid \<noteq> None)
     \<and> files = scan_segment_metadata_files d MAX_SEGMENTS_COUNT \<and> files \<noteq> []
     \<and> sorted_wrt (\<lambda>f f'. fi_end_sid f < fi_start_sid f') files \<and> (\<forall>f \<in> set files. segment_ok 2 d f (seg f))
     \<and> arrays_ok buf
     \<and> (case read_lsm_index_metadata d of None \<Rightarrow> False | Some im \<Rightarrow>
          let w = unat (im_dim im) * unat (im_elem_size im); U = unflushed (fi_end_sid (last files)) (sort registered) in
          index_type_of (im_index_type im) \<noteq> None
        \<and> (case memtable_capacity limit (unat (im_dim im)) (unat (im_elem_size im)) of None \<Rightarrow> False
           | Some cap \<Rightarrow> capacity_fits w cap \<and> (\<forall>sid \<in> set U. rows_loadable fetch (status_tids pages) w cap sid)))"

definition recovery_room ::
  "heap \<Rightarrow> fork \<Rightarrow> MemtableBufferSlot list \<Rightarrow> SegmentId \<Rightarrow> SegmentId list \<Rightarrow> SegmentId list \<Rightarrow> bool" where
  "recovery_room fetch pages buf g registered U \<longleftrightarrow>
     length U \<le> card (free_slots buf) \<and> length (filter (\<lambda>sid. sid \<noteq> g) U) \<le> MEMTABLE_NUM
     \<and> length registered - length U \<le> MEMTABLE_NUM
     \<and> (\<forall>sid \<in> set U. no_null_vector fetch (the (status_tids pages sid)))"

lemma after_crash_iff:
  "after_crash limit fetch pages d buf g registered files seg \<longleftrightarrow>
     crash_state limit fetch pages d buf g registered files seg
     \<and> recovery_room fetch pages buf g registered (unflushed (fi_end_sid (last files)) (sort registered))"
proof -
  have "set (unflushed (fi_end_sid (last files)) (sort registered)) \<subseteq> set registered" by (auto simp: unflushed_def)
  then have split: "(\<forall>sid \<in> set (unflushed (fi_end_sid (last files)) (sort registered)). recoverable fetch (status_tids pages) w cap sid) \<longleftrightarrow>
      (\<forall>sid \<in> set (unflushed (fi_end_sid (last files)) (sort registered)). rows_loadable fetch (status_tids pages) w cap sid)
      \<and> (\<forall>sid \<in> set (unflushed (fi_end_sid (last files)) (sort registered)). no_null_vector fetch (the (status_tids pages sid)))"
    if "\<forall>sid \<in> set registered. status_tids pages sid \<noteq> None" for w cap
    unfolding ball_conj_distrib [symmetric] using that by (intro ball_cong refl recoverable_split) blast
  show ?thesis
  proof (cases "\<forall>sid \<in> set registered. status_tids pages sid \<noteq> None")
    case True
    show ?thesis
      unfolding after_crash_def crash_state_def recovery_room_def Let_def split [OF True]
      by (cases "read_lsm_index_metadata d"; simp; cases "memtable_capacity limit (unat (im_dim (the (read_lsm_index_metadata d))))
          (unat (im_elem_size (the (read_lsm_index_metadata d))))"; simp) blast
  qed (simp only: after_crash_def crash_state_def simp_thms)
qed

lemma sort_desc:
  fixes xs :: "SegmentId list"
  assumes "distinct xs"
  shows "rev (sort_key compare_sids_desc xs) = sort xs" "sorted_wrt (>) (sort_key compare_sids_desc xs)"
proof -
  let ?ys = "sort_key compare_sids_desc xs"
  have "sorted (map compare_sids_desc ?ys)" by simp
  then have "sorted_wrt (\<ge>) ?ys"
    by (auto simp: sorted_map compare_sids_desc_def word_le_def elim!: sorted_wrt_mono_rel [rotated])
  then have le: "sorted (rev ?ys)" by (simp add: sorted_wrt_rev)
  then show rev: "rev ?ys = sort xs"
    using assms by (intro sorted_distinct_set_unique) auto
  have "sorted_wrt (<) (sort xs)" using assms by (simp add: strict_sorted_iff)
  then show "sorted_wrt (>) ?ys" unfolding rev [symmetric] by (simp add: sorted_wrt_rev)
qed

lemma unflushed_split:
  assumes "sorted xs"
  shows "takeWhile (\<lambda>sid. sid \<le> l) xs = filter (\<lambda>sid. sid \<le> l) xs"
    "length (filter (\<lambda>sid. sid \<le> l) xs) + length (unflushed l xs) = length xs"
proof -
  show "takeWhile (\<lambda>sid. sid \<le> l) xs = filter (\<lambda>sid. sid \<le> l) xs"
    using assms
  proof (induction xs)
    case (Cons x xs)
    then have "filter (\<lambda>sid. sid \<le> l) xs = []" if "\<not> x \<le> l"
      using that by (auto simp: filter_empty_conv intro: order_trans)
    then show ?case using Cons by simp
  qed simp
  show "length (filter (\<lambda>sid. sid \<le> l) xs) + length (unflushed l xs) = length xs"
    unfolding unflushed_def by (rule sum_length_filter_compl)
qed

lemma tombstoned_trans:
  assumes "tombstoned S g g1" "tombstoned T g1 g2" "finite S" "finite T"
  shows "tombstoned (S \<union> T) g g2"
proof -
  have eq: "{m \<in> S \<union> T. \<not> IS_SLOT_SET (ds_bitmap g) m} =
      {m \<in> S. \<not> IS_SLOT_SET (ds_bitmap g) m} \<union> {m \<in> T. \<not> IS_SLOT_SET (ds_bitmap g1) m}"
    using assms(1) by (auto simp: tombstoned_def)
  have "card {m \<in> S \<union> T. \<not> IS_SLOT_SET (ds_bitmap g) m} =
      card {m \<in> S. \<not> IS_SLOT_SET (ds_bitmap g) m} + card {m \<in> T. \<not> IS_SLOT_SET (ds_bitmap g1) m}"
    unfolding eq by (rule card_Un_disjoint) (use assms in \<open>auto simp: tombstoned_def\<close>)
  then show ?thesis using assms(1,2) by (auto simp: tombstoned_def)
qed

lemma finite_rows: "finite (unlogged_rows max_sid g)" "finite (missing_rows tids_of sids g)"
proof -
  let ?A = "\<Union>r \<in> set (ds_offsets g). {start_offset r..<end_offset r}"
  have "unlogged_rows max_sid g \<subseteq> ?A" "missing_rows tids_of sids g \<subseteq> ?A"
    by (auto simp: unlogged_rows_def missing_rows_def)
  then show "finite (unlogged_rows max_sid g)" "finite (missing_rows tids_of sids g)"
    by (meson finite_UN_I finite_atLeastLessThan finite_set finite_subset)+
qed

lemma hd_desc:
  fixes xs :: "SegmentId list"
  assumes "distinct xs" "xs \<noteq> []"
  shows "hd (sort_key compare_sids_desc xs) = Max (set xs)" "last (sort_key compare_sids_desc xs) \<in> set xs"
    "x \<in> set xs \<Longrightarrow> last (sort_key compare_sids_desc xs) \<le> x"
proof -
  let ?ys = "sort_key compare_sids_desc xs"
  have "length ?ys = length xs" by simp
  then have ys: "?ys \<noteq> []" "set ?ys = set xs" using assms(2) by (metis length_0_conv) simp
  have le: "sorted (rev ?ys)" using sort_desc(1) [OF assms(1)] by simp
  obtain y zs where c: "?ys = y # zs" using ys(1) by (cases ?ys) auto
  have "\<forall>z \<in> set zs. z \<le> y" using le by (simp add: c sorted_append)
  then show "hd ?ys = Max (set xs)" using c ys(2) by (intro Max_eqI [symmetric]) auto
  show "last ?ys \<in> set xs" using ys by (metis last_in_set)
  obtain l us where r: "rev ?ys = l # us" using ys(1) by (cases "rev ?ys") auto
  have "set ?ys = insert l (set us)" using r by (metis list.simps(15) set_rev)
  moreover have "\<forall>z \<in> set us. l \<le> z" using le unfolding r by simp
  moreover have "last ?ys = l" using r by (metis hd_rev list.sel(1))
  ultimately show "x \<in> set xs \<Longrightarrow> last ?ys \<le> x" using ys(2) by auto
qed

lemma recovery_exact:
  assumes crash: "after_crash limit fetch pages d buf g registered files seg"
  defines "U \<equiv> unflushed (fi_end_sid (last files)) (sort registered)"
    and "max_sid \<equiv> (if Max (set registered) = g then g else g - 1)"
  shows "\<exists>d' lsm' buf' slots.
      recover_lsm_index_internal limit fetch relid pages d lsm buf = Some (d', lsm', buf')
    \<and> (\<forall>f \<in> set files. \<exists>h. tombstoned (unlogged_rows max_sid (seg f) \<union> missing_rows (status_tids pages) registered (seg f)) (seg f) h
        \<and> segment_ok 0 d' f h)
    \<and> list_all2 (recovered fetch (status_tids pages) g buf') U slots \<and> distinct slots \<and> set slots \<subseteq> free_slots buf
    \<and> length buf' = MEMTABLE_BUF_SIZE \<and> (\<forall>j. j \<notin> set slots \<longrightarrow> buf' ! j = buf ! j)
    \<and> queue lsm' = [int i. (sid, i) \<leftarrow> zip U slots, sid \<noteq> g]
    \<and> (if g \<in> set U
       then (\<exists>i. (g, i) \<in> set (zip U slots) \<and> growing_memtable_idx lsm' = int i) \<and> growing_memtable_id lsm' = g \<and> next_segment_id lsm' = g + 1
       else growing_memtable_idx lsm' = growing_memtable_idx lsm \<and> next_segment_id lsm' = Max (set registered) + 1)
    \<and> flushed_list lsm' = filter (\<lambda>sid. sid \<le> fi_end_sid (last files)) (sort registered)"
proof -
  let ?sids = "sort_key compare_sids_desc registered" and ?last = "fi_end_sid (last files)" and ?tids = "status_tids pages"
  have pages: "GetStatusGrowingSid pages = Some g" "GetStatusMemtableSids pages = Some registered"
    and reg: "registered \<noteq> []" "distinct registered" "\<forall>sid \<in> set registered. ?tids sid \<noteq> None"
    and files: "files = scan_segment_metadata_files d MAX_SEGMENTS_COUNT" "files \<noteq> []"
      "sorted_wrt (\<lambda>f f'. fi_end_sid f < fi_start_sid f') files" "\<forall>f \<in> set files. segment_ok 2 d f (seg f)"
    and arr: "arrays_ok buf" using crash unfolding after_crash_def by blast+
  obtain im where im: "read_lsm_index_metadata d = Some im" using crash by (auto simp: after_crash_def split: option.splits)
  obtain ty where ty: "index_type_of (im_index_type im) = Some ty" using crash im by (auto simp: after_crash_def Let_def)
  obtain cap where cap: "memtable_capacity limit (unat (im_dim im)) (unat (im_elem_size im)) = Some cap"
    "capacity_fits (unat (im_dim im) * unat (im_elem_size im)) cap"
    "\<forall>sid \<in> set U. recoverable fetch ?tids (unat (im_dim im) * unat (im_elem_size im)) cap sid"
    using crash im by (auto simp: after_crash_def Let_def U_def split: option.splits)
  have room: "length U \<le> card (free_slots buf)" "length (filter (\<lambda>sid. sid \<noteq> g) U) \<le> MEMTABLE_NUM"
    "length registered - length U \<le> MEMTABLE_NUM"
    using crash im by (auto simp: after_crash_def Let_def U_def)
  note desc = sort_desc [OF reg(2)] and hd = hd_desc [OF reg(2,1)]
  have df: "descending_files (rev files)" using files(3) by (simp add: descending_files_def sorted_wrt_rev)
  have small: "1 < unat (UINT32_MAX - 1)" "0 < unat (UINT32_MAX - 1)" by simp_all
  obtain d1 where d1: "recovery_step1 max_sid (rev files) d = Some d1"
    "\<forall>f \<in> set files. \<exists>h. tombstoned (unlogged_rows max_sid (seg f)) (seg f) h \<and> segment_ok 1 d1 f h"
    using recovery_step1_exact [OF df, of 1 d seg max_sid] files(4) small by (auto simp: numeral_2_eq_2)
  then obtain seg1 where seg1: "tombstoned (unlogged_rows max_sid (seg f)) (seg f) (seg1 f)" "segment_ok 1 d1 f (seg1 f)"
    if "f \<in> set files" for f by metis
  let ?M = "\<lambda>f. missing_rows ?tids registered (seg f)"
  have rows1: "missing_rows ?tids ?sids (seg1 f) = ?M f" if "f \<in> set files" for f
    using tombstoned_rows(2) [OF seg1(1) [OF that]] by (simp add: missing_rows_def)
  have "\<exists>d2. (if ?last \<ge> last ?sids then recovery_step2 ?tids (rev files) ?sids d1 else Some d1) = Some d2
      \<and> (\<forall>f \<in> set files. \<exists>h. tombstoned (?M f) (seg1 f) h \<and> segment_ok 0 d2 f h)"
  proof (cases "?last \<ge> last ?sids")
    case True
    then show ?thesis
      using recovery_step2_exact [OF df desc(2), of 0 d1 seg1 ?tids] seg1(2) reg(3) small rows1 by auto
  next
    case False
    have none: "?M f = {}" if f: "f \<in> set files" for f
    proof -
      have "fi_end_sid f \<le> ?last"
      proof (cases "f = last files")
        case False
        then have "f \<in> set (butlast files)" using f by (metis UnE append_butlast_last_id empty_iff empty_set files(2) insertE list.simps(15) set_append)
        then have "fi_end_sid f < fi_start_sid (last files)"
          using files(2,3) by (metis append_butlast_last_id list.set_intros(1) sorted_wrt_append)
        moreover have "fi_start_sid (last files) \<le> ?last" using files(2,4) segment_range_le by (meson last_in_set)
        ultimately show ?thesis by simp
      qed simp
      moreover have "off_sid r \<le> fi_end_sid f" if "r \<in> set (ds_offsets (seg f))" for r
        using files(4) f that by (auto simp: segment_ok_def file_range_def)
      ultimately have "off_sid r \<notin> set registered" if "r \<in> set (ds_offsets (seg f))" for r
        using that False hd(3) [of "off_sid r"] by (meson order_trans)
      then show ?thesis by (auto simp: missing_rows_def)
    qed
    then have "\<exists>h. tombstoned (?M f) (seg1 f) h \<and> segment_ok 0 d1 f h" if "f \<in> set files" for f
      using seg1(2) [OF that] segment_ok_less [of 0] tombstoned_none that by (metis One_nat_def)
    then show ?thesis using False by simp
  qed
  then obtain d2 where d2: "(if ?last \<ge> last ?sids then recovery_step2 ?tids (rev files) ?sids d1 else Some d1) = Some d2"
    "\<forall>f \<in> set files. \<exists>h. tombstoned (?M f) (seg1 f) h \<and> segment_ok 0 d2 f h" by blast
  have tomb: "\<forall>f \<in> set files. \<exists>h. tombstoned (unlogged_rows max_sid (seg f) \<union> ?M f) (seg f) h \<and> segment_ok 0 d2 f h"
    using d2(2) seg1(1) tombstoned_trans finite_rows by meson
  let ?lsm = "lsm\<lparr>indexRelId := relid, lx_index_type := ty, lx_dim := unat (im_dim im),
         lx_elem_size := unat (im_elem_size im), hnsw_m := im_hnsw_m im, hnsw_ef_construction := im_hnsw_ef_construction im\<rparr>"
  have header: "recover_header relid im lsm = Some ?lsm" by (simp add: recover_header_def ty)
  let ?flushed = "filter (\<lambda>sid. sid \<le> ?last) (sort registered)"
  have len: "length ?flushed + length U = length registered"
    using unflushed_split(2) [of "sort registered" ?last] by (simp add: U_def)
  let ?q = "?lsm\<lparr>memtable_idxs := replicate MEMTABLE_NUM (-1), memtable_count := 0, releasing_in_progress := False,
                   flushed_not_released := ?flushed @ drop (length ?flushed) (flushed_not_released lsm),
                   flushed_not_released_count := length ?flushed\<rparr>"
  have fits: "length ?flushed \<le> MEMTABLE_NUM" using len room(3) by simp
  have queues: "recover_queues ?last ?sids ?lsm = Some ?q"
    using fits unflushed_split(1) [of "sort registered" ?last] by (simp add: recover_queues_def desc(1) Let_def)
  have dims: "lx_dim ?q = unat (im_dim im)" "lx_elem_size ?q = unat (im_elem_size im)" "memtable_count ?q = 0"
    "length (memtable_idxs ?q) = MEMTABLE_NUM" "queue ?q = []" by (simp_all add: queue_def)
  obtain lsm' buf' slots where st: "recovery_step3 limit fetch ?tids g ?last (sort registered) (?q, buf, False) =
        Some (lsm', buf', False \<or> g \<in> set U)"
    "list_all2 (recovered fetch ?tids g buf') U slots" "distinct slots" "set slots \<subseteq> free_slots buf"
    "length buf' = MEMTABLE_BUF_SIZE" "\<forall>j. j \<notin> set slots \<longrightarrow> buf' ! j = buf ! j"
    "queue lsm' = queue ?q @ [int i. (sid, i) \<leftarrow> zip U slots, sid \<noteq> g]"
    "if g \<in> set U
       then (\<exists>i. (g, i) \<in> set (zip U slots) \<and> growing_memtable_idx lsm' = int i)
            \<and> growing_memtable_id lsm' = g \<and> next_segment_id lsm' = g + 1
       else growing_memtable_idx lsm' = growing_memtable_idx ?q \<and> growing_memtable_id lsm' = growing_memtable_id ?q
         \<and> next_segment_id lsm' = next_segment_id ?q"
    "(flushed_not_released lsm', flushed_not_released_count lsm', indexRelId lsm', lx_index_type lsm')
      = (flushed_not_released ?q, flushed_not_released_count ?q, indexRelId ?q, lx_index_type ?q)"
    using recovery_step3_exact [OF arr, of ?last "sort registered" limit ?q cap fetch ?tids g False]
      room cap reg(2) unfolding U_def [symmetric] dims by auto
  let ?final = "if g \<in> set U then lsm' else lsm'\<lparr>next_segment_id := Max (set registered) + 1\<rparr>"
  have run: "recover_lsm_index_internal limit fetch relid pages d lsm buf = Some (d2, ?final, buf')"
  proof -
    have ne: "?sids \<noteq> []" using desc(1) reg(1) by (metis length_0_conv length_sort rev.simps(1))
    show ?thesis
      unfolding recover_lsm_index_internal_def pages im prod.case option.case Let_def files(1) [symmetric] hd(1) max_sid_def [symmetric]
      by (simp only: ne files(2) simp_thms if_False header queues desc(1) d1(1) d2(1) st(1) option.case prod.case)
  qed
  have "flushed_list lsm' = ?flushed" using st(9) fits by (simp add: flushed_list_def)
  then have "flushed_list ?final = ?flushed" "queue ?final = queue lsm'" by (simp_all add: flushed_list_def queue_def)
  moreover have "queue lsm' = [int i. (sid, i) \<leftarrow> zip U slots, sid \<noteq> g]" using st(7) by (simp add: dims(5))
  ultimately show ?thesis
    by (intro exI [of _ d2] exI [of _ ?final] exI [of _ buf'] exI [of _ slots]) (use run tomb st(2-6,8) in auto)
qed

lemma option_none_unless: "(\<And>r. x \<noteq> Some r) \<Longrightarrow> x = None"
  by (cases x) auto

text \<open>Recovery returns only where it had the room.\<close>

lemma recovery_needs_room:
  assumes crash: "crash_state limit fetch pages d buf g registered files seg"
    and run: "recover_lsm_index_internal limit fetch relid pages d lsm buf = Some r"
  shows "recovery_room fetch pages buf g registered (unflushed (fi_end_sid (last files)) (sort registered))"
proof -
  let ?last = "fi_end_sid (last files)" and ?sids = "sort_key compare_sids_desc registered"
  let ?U = "unflushed ?last (sort registered)"
  have pages: "GetStatusGrowingSid pages = Some g" "GetStatusMemtableSids pages = Some registered" "distinct registered"
    "scan_segment_metadata_files d MAX_SEGMENTS_COUNT = files" and arr: "length buf = MEMTABLE_BUF_SIZE"
    using crash by (auto simp: crash_state_def arrays_ok_def)
  note desc = sort_desc(1) [OF pages(3)]
  obtain lsm1 lsm2 r3 where q: "recover_queues ?last ?sids lsm1 = Some lsm2"
    and st: "recovery_step3 limit fetch (status_tids pages) g ?last (sort registered) (lsm2, buf, False) = Some r3"
    using run by (auto simp: recover_lsm_index_internal_def pages desc Let_def split: option.splits if_splits)
  have "length (filter (\<lambda>sid. sid \<le> ?last) (sort registered)) \<le> MEMTABLE_NUM" and count: "memtable_count lsm2 = 0"
    using q unflushed_split(1) [of "sort registered" ?last]
    by (auto simp: recover_queues_def desc Let_def split: if_splits)
  moreover have "length (filter (\<lambda>sid. sid \<le> ?last) (sort registered)) + length ?U = length registered"
    using unflushed_split(2) [of "sort registered" ?last] by simp
  ultimately show ?thesis
    using recovery_step3_needs [OF st arr] by (simp add: recovery_room_def count)
qed

section \<open>What recovery cannot repair\<close>

text \<open>
  An id below the highest id on disk counts as flushed, whether it is on disk or not: when a flush failed
  and a later memtable was flushed, recovery builds no memtable for the earlier one and puts its id on the
  list of status pages to release.
\<close>

lemma skipped_flush_is_not_recovered:
  assumes "sid \<in> set registered" "sid \<le> last_sid"
  shows "sid \<notin> set (unflushed last_sid (sort registered))" "sid \<in> set (filter (\<lambda>sid. sid \<le> last_sid) (sort registered))"
  using assms by (simp_all add: unflushed_def)

text \<open>
  The capacity is a server setting and may be lower after the restart. Recovery fills a memtable beyond it,
  and the flush worker then stops with an error.
\<close>

lemma lowered_capacity_stops_flush:
  assumes "mt_sealed mt" "ready_cnt mt = current_size mt" "mt_capacity mt < current_size mt"
  shows "wait_for_publish_poll mt = Inl ReadyExceedsSize"
  using assms by (simp add: wait_for_publish_poll_def valid_rows_def)

lemma recover_row_ignores_capacity:
  assumes "fetch tid = Some (Some vec)" "current_size mt < MEMTABLE_MAX_CAPACITY" "ready_cnt mt = current_size mt"
    "VEC_PTR_AT mt (current_size mt) + length vec \<le> length (vector_blob mt)"
  shows "\<exists>mt'. recover_row fetch tid mt = Some mt' \<and> current_size mt' = Suc (current_size mt) \<and> ready_cnt mt' = current_size mt'"
proof -
  let ?m = "mt\<lparr>current_size := Suc (current_size mt)\<rparr>"
  obtain blob where "memcpy_at (vector_blob ?m) (VEC_PTR_AT ?m (current_size mt)) vec = Some blob"
    using assms(4) by (auto simp: memcpy_at_def VEC_PTR_AT_def VEC_BYTES_PER_ROW_def)
  then show ?thesis
    using assms small_counts(1) [of "current_size mt"]
    by (simp add: recover_row_def write_row_def Let_def publish_effect)
qed

section \<open>Properties\<close>

text \<open>C6: (functional) After a crash, with the capacity setting no lower than before, recovery returns exactly when
  there is a free slot for every registered segment id above the last one on disk, at most four of those are
  sealed, at most four ids on disk still have status pages, and no heap row that is named has a null vector.
  Then every id above the last one on disk has a memtable of its own in a slot that was free, with exactly the
  rows of the status pages whose tuples are still in the heap, in their order, all published. The growing id
  becomes the growing memtable, the others are sealed and queued for flushing in ascending order, the next id
  is new, the ids that are on disk wait for the release of their status pages, and the slots of other indexes
  are not touched. Otherwise recovery does not return (an error, a wait for a slot that nobody frees, or a
  write outside an array).\<close>

theorem recovery_rebuilds_memtables:
  assumes "crash_state limit fetch pages d buf g registered files seg"
    and "U = unflushed (fi_end_sid (last files)) (sort registered)"
  shows "if recovery_room fetch pages buf g registered U
    then \<exists>d' lsm' buf' slots.
        recover_lsm_index_internal limit fetch relid pages d lsm buf = Some (d', lsm', buf')
      \<and> list_all2 (recovered fetch (status_tids pages) g buf') U slots \<and> distinct slots \<and> set slots \<subseteq> free_slots buf
      \<and> (\<forall>j. j \<notin> set slots \<longrightarrow> buf' ! j = buf ! j)
      \<and> queue lsm' = [int i. (sid, i) \<leftarrow> zip U slots, sid \<noteq> g]
      \<and> (if g \<in> set U
         then (\<exists>i. (g, i) \<in> set (zip U slots) \<and> growing_memtable_idx lsm' = int i) \<and> growing_memtable_id lsm' = g \<and> next_segment_id lsm' = g + 1
         else growing_memtable_idx lsm' = growing_memtable_idx lsm \<and> next_segment_id lsm' = Max (set registered) + 1)
      \<and> flushed_list lsm' = filter (\<lambda>sid. sid \<le> fi_end_sid (last files)) (sort registered)
    else recover_lsm_index_internal limit fetch relid pages d lsm buf = None"
proof (cases "recovery_room fetch pages buf g registered U")
  case True
  then have "after_crash limit fetch pages d buf g registered files seg" using assms by (simp add: after_crash_iff)
  from recovery_exact [OF this, of relid lsm] True show ?thesis unfolding assms(2) [symmetric] by (simp only: if_True) blast
next
  case False
  then have "recover_lsm_index_internal limit fetch relid pages d lsm buf \<noteq> Some r" for r
    using recovery_needs_room [OF assms(1)] assms(2) by blast
  then show ?thesis using False by (simp add: option_none_unless)
qed

text \<open>C7: (safety) Recovery tombstones on disk exactly the rows that the status pages do not confirm, beside those
  that were tombstoned before: the rows of ids the status pages never saw, and of every registered id the
  rows whose tid is not in its status pages. Delete counts follow, and every segment file is still
  well-formed and otherwise the same.\<close>

theorem recovery_tombstones_unconfirmed_rows:
  assumes "after_crash limit fetch pages d buf g registered files seg" "f \<in> set files"
  shows "\<exists>d' lsm' buf' h.
      recover_lsm_index_internal limit fetch relid pages d lsm buf = Some (d', lsm', buf')
    \<and> tombstoned (unlogged_rows (if Max (set registered) = g then g else g - 1) (seg f)
        \<union> missing_rows (status_tids pages) registered (seg f)) (seg f) h
    \<and> segment_ok 0 d' f h"
  using recovery_exact [OF assms(1), of relid lsm] assms(2) by blast

lemma status_tids_map:
  assumes "GetStatusMemtableTids cap sid r = Some tids" "status_map r sid = Some ts"
  shows "mset tids = ts"
  using assms
  by (auto simp: GetStatusMemtableTids_def status_map_def chain_collect.simps [of _ _ "memtablePageHead m" for m]
      split: option.splits if_splits)

text \<open>Whatever the status pages show to a reader is registered.\<close>

lemma chain_find_collect:
  assumes "chain_find P r b = Some (Some c)" "chain_collect f r b = Some xs"
  shows "P (r ! c) \<and> set (f (r ! c)) \<subseteq> set xs"
proof -
  let ?Q = "\<lambda>x found. case x of ((P, r), b) \<Rightarrow> \<forall>c xs. found = Some c \<longrightarrow> chain_collect f r b = Some xs
      \<longrightarrow> P (r ! c) \<and> set (f (r ! c)) \<subseteq> set xs"
  have "?Q ((P, r), b) (Some c)"
  proof (rule chain_find.raw_induct [where Pa = ?Q, OF _ assms(1)])
    fix go P r b y
    assume IH: "\<And>r b ba y. go r b ba = Some y \<Longrightarrow> ?Q ((r, b), ba) y"
      and step: "(if BlockNumberIsValid b
        then if b < length r then if P (r ! b) then Some (Some b) else go P r (nextblkno (r ! b)) else None
        else Some None) = Some y"
    show "?Q ((P, r), b) y"
    proof (simp only: prod.case, intro allI impI)
      fix c xs assume y: "y = Some c" and xs: "chain_collect f r b = Some xs"
      from step y have b: "BlockNumberIsValid b" "b < length r" by (auto split: if_splits)
      with xs obtain ys where ys: "chain_collect f r (nextblkno (r ! b)) = Some ys" "xs = f (r ! b) @ ys"
        by (auto simp: chain_collect.simps [of f r b] split: bind_splits)
      show "P (r ! c) \<and> set (f (r ! c)) \<subseteq> set xs"
      proof (cases "P (r ! b)")
        case True
        with step y b have "c = b" by simp
        with True ys(2) show ?thesis by simp
      next
        case False
        with step b have "go P r (nextblkno (r ! b)) = Some y" by simp
        with IH [OF this] ys y show ?thesis by auto
      qed
    qed
  qed
  with assms(2) show ?thesis by simp
qed

lemma status_map_registered:
  assumes "status_map pages sid = Some ts" "GetStatusMemtableSids pages = Some registered"
  shows "sid \<in> set registered"
proof -
  obtain b where "chain_find (has_sid sid) pages STATUS_MEMTABLE_ARRAY_BLKNO = Some (Some b)"
    using assms(1) by (auto simp: status_map_def find_status_memtable_def Let_def split: option.splits)
  from chain_find_collect [OF this assms(2) [unfolded GetStatusMemtableSids_def]]
  have "has_sid sid (pages ! b)" "st_sid ` set (memtable_items (pages ! b)) \<subseteq> set registered" by auto
  then show ?thesis by (auto simp: has_sid_def)
qed

text \<open>C1: (safety) A crash in any state the running system can reach loses no row whose insertion returned, while its
  tuple is in the heap and neither its memtable nor a later one is on disk: when the status pages are what the
  run left, recovery puts the row, with its vector from the heap, into a memtable that is queued for flushing
  or is the growing one, provided it has the room it needs, as C6 says; where it has not, it fails and does not
  start without the row. The capacity setting must not have been lowered.\<close>

theorem crash_keeps_unflushed_rows:
  assumes start: "new_registry limit lsm0 buf0 rows n = Some s0" "buffer_ok buf0" "index_fresh lsm0" "limit \<le> MEMTABLE_MAX_CAPACITY"
    and run: "(reg_step limit)\<^sup>*\<^sup>* s0 s"
    and crash: "crash_state limit' fetch pages d buf g registered files seg" "status_map pages = reg_status s"
      "U = unflushed (fi_end_sid (last files)) (sort registered)"
    and row: "(sid, tid) \<in> hist s" "sid \<notin> dom (reg_disk s)" "fi_end_sid (last files) < sid"
      "fetch (Int64ToItemPointer tid) = Some (Some vec)" "unat tid < 2 ^ 48"
  shows "if recovery_room fetch pages buf g registered U
    then \<exists>d' lsm' buf' i. recover_lsm_index_internal limit' fetch relid pages d lsm buf = Some (d', lsm', buf')
      \<and> i \<in> insert (growing_memtable_idx lsm') (set (queue lsm'))
      \<and> memtable_id (MT_FROM_SLOTIDX buf' i) = sid \<and> (tid, vec) \<in> set (memtable_rows (MT_FROM_SLOTIDX buf' i))
    else recover_lsm_index_internal limit' fetch relid pages d lsm buf = None"
proof (cases "recovery_room fetch pages buf g registered U")
  case False
  then have "recover_lsm_index_internal limit' fetch relid pages d lsm buf \<noteq> Some r" for r
    using recovery_needs_room [OF crash(1)] crash(3) by blast
  then show ?thesis using False by (simp add: option_none_unless)
next
  case room: True
  then have after: "after_crash limit' fetch pages d buf g registered files seg" using crash(1,3) by (simp add: after_crash_iff)
  let ?U = "unflushed (fi_end_sid (last files)) (sort registered)" and ?tids = "status_tids pages"
  have "reg_inv s" by (rule reg_inv_reachable [OF run reg_inv_new [OF start] start(4)])
  then have "logged (reg_status s) sid tid" using row(1,2) by (auto simp: reg_inv_def rows_safe_def split: if_splits)
  then obtain ts where ts: "status_map pages sid = Some ts" "Int64ToItemPointer tid \<in># ts" by (auto simp: logged_def crash(2))
  have reg: "sid \<in> set registered" using status_map_registered [OF ts(1)] crash(1) by (simp add: crash_state_def)
  have "?tids sid \<noteq> None" using after reg unfolding after_crash_def by blast
  then obtain tids where tids: "?tids sid = Some tids" by blast
  have "Int64ToItemPointer tid \<in> set tids" using status_tids_map [OF tids ts(1)] ts(2) by (metis set_mset_mset)
  moreover have "ItemPointerToInt64 (Int64ToItemPointer tid) = tid"
    using row(5) take_bit_48_id_iff by (simp add: reencode_take_bit)
  ultimately have heap: "(tid, vec) \<in> set (heap_rows fetch tids)"
    using row(4) by (force simp: heap_rows_def List.map_filter_def)
  obtain d' lsm' buf' slots where r: "recover_lsm_index_internal limit' fetch relid pages d lsm buf = Some (d', lsm', buf')"
    "list_all2 (recovered fetch ?tids g buf') ?U slots" "queue lsm' = [int i. (sid, i) \<leftarrow> zip ?U slots, sid \<noteq> g]"
    "if g \<in> set ?U
       then (\<exists>i. (g, i) \<in> set (zip ?U slots) \<and> growing_memtable_idx lsm' = int i) \<and> growing_memtable_id lsm' = g \<and> next_segment_id lsm' = g + 1
       else growing_memtable_idx lsm' = growing_memtable_idx lsm \<and> next_segment_id lsm' = Max (set registered) + 1"
    using recovery_exact [OF after, of relid lsm] by blast
  have "sid \<in> set ?U" using row(3) reg by (auto simp: unflushed_def)
  then obtain k where k: "k < length ?U" "?U ! k = sid" by (auto simp: in_set_conv_nth)
  have rec: "recovered fetch ?tids g buf' sid (slots ! k)" using r(2) k by (auto simp: list_all2_conv_all_nth)
  then have "memtable_id (MT_FROM_SLOTIDX buf' (int (slots ! k))) = sid"
    "(tid, vec) \<in> set (memtable_rows (MT_FROM_SLOTIDX buf' (int (slots ! k))))"
    using heap tids by (simp_all add: recovered_def holds_rows_def MT_FROM_SLOTIDX_def)
  moreover have "int (slots ! k) \<in> insert (growing_memtable_idx lsm') (set (queue lsm'))"
  proof -
    have len: "length slots = length ?U" using r(2) by (simp add: list_all2_lengthD)
    then have pair: "(sid, slots ! k) \<in> set (zip ?U slots)" using k by (metis in_set_zip fst_conv snd_conv)
    show ?thesis
    proof (cases "sid = g")
      case True
      then obtain j where j: "(g, j) \<in> set (zip ?U slots)" "growing_memtable_idx lsm' = int j"
        using r(4) \<open>sid \<in> set ?U\<close> by auto
      have "distinct ?U" using after by (simp add: after_crash_def unflushed_def)
      then have "j = slots ! k" using j(1) pair True len by (auto simp: in_set_zip nth_eq_iff_index_eq)
      then show ?thesis using j(2) by simp
    next
      case False
      then show ?thesis using pair by (auto simp: r(3) intro!: bexI [of _ "(sid, slots ! k)"])
    qed
  qed
  ultimately show ?thesis using r(1) room by (simp only: if_True) blast
qed

section \<open>An example crash\<close>

text \<open>The state of \<open>example_run\<close> after a crash: row 5 of memtable 4 is in the status pages, segment 3 is on disk.\<close>

definition crash_pages :: fork where
  "crash_pages = [StatusInitPage,
     StatusInitPage\<lparr>page_meta := \<lparr>freePageHead = InvalidBlockNumber, freePageTail = InvalidBlockNumber, max_memtable_sid = 4\<rparr>\<rparr>,
     StatusInitPage\<lparr>memtable_items := [\<lparr>memtablePageHead = 3, memtableInsertPage = 3, st_sid = 4\<rparr>]\<rparr>,
     StatusInitPage\<lparr>tuple_items := [Int64ToItemPointer 5]\<rparr>]"

definition crash_directory :: directory where
  "crash_directory =
     [(''metadata'', [2, 0, 0, 0, 1, 0, 0, 0, 4, 0, 0, 0, 16, 0, 0, 0, 64, 0, 0, 0]),
      (''metadata_3_3_v1'', [3, 0, 0, 0, 3, 0, 0, 0, 1, 0, 0, 0, 2, 0, 0, 0]),
      (''bitmap_3_3_v1.0'', [0, 0, 0, 0, 0]),
      (''mapping_3_3_v1.0'', i64_bytes 7),
      (''offset_3_3_v1.0'', offset_bytes 3 0 1)]"

definition crash_segment :: disk_segment where
  "crash_segment = \<lparr>ds_rows = 1, ds_mapping = [7], ds_offsets = [\<lparr>off_sid = 3, start_offset = 0, end_offset = 1\<rparr>],
     ds_bitmap = [0], ds_delete_count = 0\<rparr>"

definition crash_file :: SegmentFileInfo where
  "crash_file = \<lparr>fi_start_sid = 3, fi_end_sid = 3, fi_version = 1\<rparr>"

definition crash_buffer :: "MemtableBufferSlot list" where
  "crash_buffer = replicate 8 \<lparr>mb_ref_count = 0,
     mb_mt = blank_memtable\<lparr>vector_blob := replicate MEMTABLE_VECTOR_ARRAY_SIZE_BYTES 0\<rparr>\<rparr>"

definition crash_heap :: heap where
  "crash_heap tid = (if tid = Int64ToItemPointer 5 then Some (Some [1, 2, 3, 4]) else None)"

lemma crash_scan: "scan_segment_metadata_files crash_directory MAX_SEGMENTS_COUNT = [crash_file]"
  unfolding crash_file_def by code_simp

lemma crash_files:
  "read_lsm_segment_metadata crash_directory 3 3 1 = Some (3, 3, 1, 2)"
  "load_bitmap_file crash_directory 3 3 1 = ([0], Some 0)"
  "load_mapping_file crash_directory 3 3 1 = i64_bytes 7"
  "load_offset_file crash_directory 3 3 1 = Some (offset_bytes 3 0 1)"
  "find_latest_segment_version crash_directory 3 3 = 1" "subversions crash_directory 3 3 1 = {}"
  "read_lsm_index_metadata crash_directory = Some \<lparr>im_index_type = 2, im_dim = 1, im_elem_size = 4, im_hnsw_m = 16,
     im_hnsw_ef_construction = 64\<rparr>"
  by code_simp+

lemma crash_decode:
  "decode_mapping (i64_bytes 7) = [7]" "decode_offsets 1 (offset_bytes 3 0 1) = ds_offsets crash_segment"
proof -
  have bytes: "offset_bytes 3 0 1 = [3, 0, 0, 0, 0, 0, 0, 0, 0, 0, 0, 0, 0, 0, 0, 0, 1, 0, 0, 0, 0, 0, 0, 0]"
    "i64_bytes 7 = [7, 0, 0, 0, 0, 0, 0, 0]"
    by code_simp+
  show "decode_mapping (i64_bytes 7) = [7]" "decode_offsets 1 (offset_bytes 3 0 1) = ds_offsets crash_segment"
    unfolding bytes decode_offsets_def decode_mapping_def crash_segment_def by (simp_all add: upt_rec bytes_nat_def Let_def)
qed

lemma crash_segment_ok: "segment_ok 2 crash_directory crash_file crash_segment"
  using crash_decode
  by (simp add: segment_ok_def file_range_def crash_file_def on_disk_def crash_files crash_segment_def GET_BITMAP_SIZE_def)

lemma crash_status:
  "GetStatusGrowingSid crash_pages = Some 4" "GetStatusMemtableSids crash_pages = Some [4]"
  "GetStatusMemtableTids MEMTABLE_MAX_CAPACITY 4 crash_pages = Some [Int64ToItemPointer 5]"
  "status_map crash_pages = [4 \<mapsto> {#Int64ToItemPointer 5#}]"
proof -
  note defs = crash_pages_def StatusInitPage_def BlockNumberIsValid_def InvalidBlockNumber_def
  have len: "length crash_pages = 4" "nextblkno (crash_pages ! 2) = InvalidBlockNumber" "nextblkno (crash_pages ! 3) = InvalidBlockNumber"
    "memtable_items (crash_pages ! 2) = [\<lparr>memtablePageHead = 3, memtableInsertPage = 3, st_sid = 4\<rparr>]"
    "tuple_items (crash_pages ! 3) = [Int64ToItemPointer 5]"
    by (simp_all add: defs)
  have nil: "chain_collect f crash_pages InvalidBlockNumber = Some []" for f :: "StatusPage \<Rightarrow> 'a list"
    by (subst chain_collect.simps) (simp add: BlockNumberIsValid_def)
  have tuples: "chain_collect tuple_items crash_pages 3 = Some [Int64ToItemPointer 5]"
    by (subst chain_collect.simps) (simp add: len nil BlockNumberIsValid_def InvalidBlockNumber_def [symmetric], simp add: InvalidBlockNumber_def)
  show "GetStatusGrowingSid crash_pages = Some 4"
    by (simp add: GetStatusGrowingSid_def STATUS_METAPAGE_BLKNO_def crash_pages_def)
  show "GetStatusMemtableSids crash_pages = Some [4]"
    unfolding GetStatusMemtableSids_def STATUS_MEMTABLE_ARRAY_BLKNO_def
    by (subst chain_collect.simps) (simp add: len nil, simp add: BlockNumberIsValid_def InvalidBlockNumber_def)
  have find: "find_status_memtable sid crash_pages = Some (if sid = 4
      then Some (\<lparr>info_blkno = 2, info_offno = 0\<rparr>, \<lparr>memtablePageHead = 3, memtableInsertPage = 3, st_sid = 4\<rparr>) else None)" for sid
  proof -
    have none: "chain_find P crash_pages InvalidBlockNumber = Some None" for P
      by (subst chain_find.simps) (simp add: BlockNumberIsValid_def)
    have "chain_find (has_sid sid) crash_pages 2 = Some (if sid = 4 then Some 2 else None)"
      by (subst chain_find.simps) (simp add: len none has_sid_def, simp add: BlockNumberIsValid_def InvalidBlockNumber_def)
    then show ?thesis by (simp add: find_status_memtable_def STATUS_MEMTABLE_ARRAY_BLKNO_def len sid_offset_def)
  qed
  show "GetStatusMemtableTids MEMTABLE_MAX_CAPACITY 4 crash_pages = Some [Int64ToItemPointer 5]"
    by (simp add: GetStatusMemtableTids_def find tuples BlockNumberIsValid_def InvalidBlockNumber_def MEMTABLE_MAX_CAPACITY_def)
  show "status_map crash_pages = [4 \<mapsto> {#Int64ToItemPointer 5#}]"
    by (rule ext) (simp add: status_map_def find tuples)
qed

lemma example_crash:
  "after_crash 2 crash_heap crash_pages crash_directory crash_buffer 4 [4] [crash_file] (\<lambda>f. crash_segment)"
proof -
  have cap: "memtable_capacity 2 (Suc 0) 4 = Some 2"
    by (simp add: memtable_capacity_def MEMTABLE_VECTOR_ARRAY_SIZE_BYTES_def U32_def)
  have "free_slots crash_buffer = {0..<8}" by (auto simp: free_slots_def crash_buffer_def MEMTABLE_BUF_SIZE_def)
  then have free: "card (free_slots crash_buffer) = 8" by simp
  have arr: "arrays_ok crash_buffer"
    by (simp add: arrays_ok_def crash_buffer_def MEMTABLE_BUF_SIZE_def blank_memtable_def mt_sized_def)
  have fits: "capacity_fits 4 2" by (auto simp: capacity_fits_def MEMTABLE_MAX_CAPACITY_def MAXALIGN_def MEMTABLE_VECTOR_ARRAY_SIZE_BYTES_def)
  have rec: "recoverable crash_heap (status_tids crash_pages) 4 2 4"
    by (simp add: recoverable_def crash_status crash_heap_def heap_rows_def map_filter_simps)
  show ?thesis
    unfolding after_crash_def
    using arr crash_segment_ok rec fits free crash_scan
    by (simp add: crash_status crash_files cap unflushed_def crash_file_def MEMTABLE_NUM_def index_type_of_def)
qed

theorem recovery_rebuilds_memtables_witness:
  "\<exists>d' lsm' buf' i. recover_lsm_index_internal 2 crash_heap 9 crash_pages crash_directory example_index crash_buffer = Some (d', lsm', buf')
     \<and> recovered crash_heap (status_tids crash_pages) 4 buf' 4 i \<and> growing_memtable_idx lsm' = int i \<and> next_segment_id lsm' = 5"
proof -
  have "[4] = unflushed (fi_end_sid (last [crash_file])) (sort [4])" by (simp add: unflushed_def crash_file_def)
  moreover have "crash_state 2 crash_heap crash_pages crash_directory crash_buffer 4 [4] [crash_file] (\<lambda>f. crash_segment)"
    "recovery_room crash_heap crash_pages crash_buffer 4 [4] (unflushed (fi_end_sid (last [crash_file])) (sort [4]))"
    using example_crash unfolding after_crash_iff by blast+
  ultimately show ?thesis
    using recovery_rebuilds_memtables [of 2 crash_heap crash_pages crash_directory crash_buffer 4 "[4]" "[crash_file]" "\<lambda>f. crash_segment"
      "[4]" 9 example_index]
    by (auto simp: list_all2_Cons1)
qed

text \<open>A segment of id 5, which the status pages do not know, with one row.\<close>

definition stray_directory :: directory where
  "stray_directory = crash_directory @
     [(''metadata_5_5_v0'', [5, 0, 0, 0, 5, 0, 0, 0, 1, 0, 0, 0, 2, 0, 0, 0]),
      (''bitmap_5_5_v0.0'', [0, 0, 0, 0, 0]),
      (''mapping_5_5_v0.0'', i64_bytes 7),
      (''offset_5_5_v0.0'', offset_bytes 5 0 1)]"

definition stray_file :: SegmentFileInfo where
  "stray_file = \<lparr>fi_start_sid = 5, fi_end_sid = 5, fi_version = 0\<rparr>"

definition stray_segment :: disk_segment where
  "stray_segment = crash_segment\<lparr>ds_offsets := [\<lparr>off_sid = 5, start_offset = 0, end_offset = 1\<rparr>]\<rparr>"

lemma stray_files:
  "scan_segment_metadata_files stray_directory MAX_SEGMENTS_COUNT = [crash_file, stray_file]"
  "read_lsm_segment_metadata stray_directory 3 3 1 = Some (3, 3, 1, 2)"
  "load_bitmap_file stray_directory 3 3 1 = ([0], Some 0)"
  "load_mapping_file stray_directory 3 3 1 = i64_bytes 7"
  "load_offset_file stray_directory 3 3 1 = Some (offset_bytes 3 0 1)"
  "find_latest_segment_version stray_directory 3 3 = 1" "subversions stray_directory 3 3 1 = {}"
  "read_lsm_segment_metadata stray_directory 5 5 0 = Some (5, 5, 1, 2)"
  "load_bitmap_file stray_directory 5 5 0 = ([0], Some 0)"
  "load_mapping_file stray_directory 5 5 0 = i64_bytes 7"
  "load_offset_file stray_directory 5 5 0 = Some (offset_bytes 5 0 1)"
  "find_latest_segment_version stray_directory 5 5 = 0" "subversions stray_directory 5 5 0 = {}"
  "read_lsm_index_metadata stray_directory = Some \<lparr>im_index_type = 2, im_dim = 1, im_elem_size = 4, im_hnsw_m = 16,
     im_hnsw_ef_construction = 64\<rparr>"
  unfolding crash_file_def stray_file_def by code_simp+

lemma stray_decode: "decode_offsets 1 (offset_bytes 5 0 1) = ds_offsets stray_segment"
proof -
  have bytes: "offset_bytes 5 0 1 = [5, 0, 0, 0, 0, 0, 0, 0, 0, 0, 0, 0, 0, 0, 0, 0, 1, 0, 0, 0, 0, 0, 0, 0]" by code_simp
  show ?thesis unfolding bytes decode_offsets_def stray_segment_def by (simp add: upt_rec bytes_nat_def Let_def)
qed

definition stray_contents :: "SegmentFileInfo \<Rightarrow> disk_segment" where
  "stray_contents f = (if f = stray_file then stray_segment else crash_segment)"

lemma stray_crash:
  "after_crash 2 crash_heap crash_pages stray_directory crash_buffer 4 [4] [crash_file, stray_file] stray_contents"
proof -
  have "segment_ok 2 stray_directory crash_file crash_segment"
    using crash_decode
    by (simp add: segment_ok_def file_range_def crash_file_def on_disk_def stray_files crash_segment_def GET_BITMAP_SIZE_def)
  moreover have "segment_ok 2 stray_directory stray_file stray_segment"
    using crash_decode stray_decode
    by (simp add: segment_ok_def file_range_def stray_file_def on_disk_def stray_files stray_segment_def crash_segment_def
        GET_BITMAP_SIZE_def)
  ultimately have "\<forall>f \<in> set [crash_file, stray_file]. segment_ok 2 stray_directory f (stray_contents f)"
    by (simp add: stray_contents_def crash_file_def stray_file_def)
  moreover have "arrays_ok crash_buffer" using example_crash by (simp add: after_crash_def)
  moreover have "capacity_fits 4 2" by (auto simp: capacity_fits_def MEMTABLE_MAX_CAPACITY_def MAXALIGN_def MEMTABLE_VECTOR_ARRAY_SIZE_BYTES_def)
  moreover have "memtable_capacity 2 (Suc 0) 4 = Some 2"
    by (simp add: memtable_capacity_def MEMTABLE_VECTOR_ARRAY_SIZE_BYTES_def U32_def)
  ultimately show ?thesis
    unfolding after_crash_def using stray_files(1)
    by (simp add: crash_status stray_files(14) unflushed_def MEMTABLE_NUM_def index_type_of_def) (simp add: crash_file_def stray_file_def)
qed

theorem recovery_tombstones_unconfirmed_rows_witness:
  "\<exists>d' lsm' buf' h. recover_lsm_index_internal 2 crash_heap 9 crash_pages stray_directory example_index crash_buffer = Some (d', lsm', buf')
     \<and> tombstoned {0} stray_segment h \<and> segment_ok 0 d' stray_file h"
proof -
  have "unlogged_rows 4 stray_segment \<union> missing_rows (status_tids crash_pages) [4] stray_segment = {0}"
    by (auto simp: unlogged_rows_def missing_rows_def stray_segment_def)
  then show ?thesis
    using recovery_tombstones_unconfirmed_rows [OF stray_crash, of stray_file 9 example_index] by (simp add: stray_contents_def)
qed

theorem crash_keeps_unflushed_rows_witness:
  "\<exists>d' lsm' buf' i. recover_lsm_index_internal 2 crash_heap 9 crash_pages crash_directory example_index crash_buffer = Some (d', lsm', buf')
    \<and> memtable_id (MT_FROM_SLOTIDX buf' i) = 4 \<and> (5, [1, 2, 3, 4]) \<in> set (memtable_rows (MT_FROM_SLOTIDX buf' i))"
proof -
  obtain s where s: "(loaded_step 2)\<^sup>*\<^sup>* example_registry s" "hist s = {(4, 5)}" "reg_disk s = [START_SEGMENT_ID \<mapsto> [7]]"
    "reg_status s = [4 \<mapsto> {#Int64ToItemPointer 5#}]" by (rule example_run)
  have pages: "status_map crash_pages = reg_status s" by (simp add: crash_status s(4))
  have state: "crash_state 2 crash_heap crash_pages crash_directory crash_buffer 4 [4] [crash_file] (\<lambda>f. crash_segment)"
    and room: "recovery_room crash_heap crash_pages crash_buffer 4 [4] (unflushed (fi_end_sid (last [crash_file])) (sort [4]))"
    using example_crash unfolding after_crash_iff by blast+
  have fresh: "(4, 5) \<in> hist s" "4 \<notin> dom (reg_disk s)" "fi_end_sid (last [crash_file]) < 4" "crash_heap (Int64ToItemPointer 5) = Some (Some [1, 2, 3, 4])"
    "unat (5 :: i64) < 2 ^ 48"
    by (simp_all add: s(2,3) START_SEGMENT_ID_def crash_heap_def crash_file_def)
  from crash_keeps_unflushed_rows [where sid = 4 and tid = 5 and relid = 9 and lsm = example_index,
      OF example_new example_ok loaded_run_run [OF s(1)] state pages refl fresh] room
  show ?thesis by auto
qed

end
