(* ===== verification/TaskRing.thy ===== *)
theory TaskRing
  imports Search Adoption "HOL-Library.Monad_Syntax"
begin

text \<open>
  Requests of backends to the vector index worker (\<^verbatim>\<open>ringbuffer.c\<close>, \<^verbatim>\<open>tasksend.c\<close>, the main loop and the task queue
  of \<^verbatim>\<open>vector_index_worker.c\<close>): the layout of the shared-memory pools, the ring of task slots, the bytes that carry
  the deletions of an adoption, and the protocol between backends, worker and maintenance threads.
\<close>

section \<open>Layout of the shared memory\<close>

text \<open>
  The sizes of the four structures depend on the compiler; they are a parameter. \<^verbatim>\<open>add_size\<close> and \<^verbatim>\<open>mul_size\<close>
  raise an error on overflow of 64 bits, \<open>None\<close>.
\<close>

record struct_sizes =
  sz_ring :: nat
  sz_task_slot :: nat
  sz_search_task :: nat
  sz_search_result :: nat

definition MAX_DIM :: nat where "MAX_DIM = 1024"
definition MAX_TOPK :: nat where "MAX_TOPK = 1000"

definition fits_size :: "nat \<Rightarrow> nat option" where
  "fits_size n = (if n < 2 ^ 64 then Some n else None)"

definition add_size :: "nat \<Rightarrow> nat \<Rightarrow> nat option" where
  "add_size a b = fits_size (a + b)"

definition mul_size :: "nat \<Rightarrow> nat \<Rightarrow> nat option" where
  "mul_size a b = fits_size (a * b)"

definition search_task_stride :: "struct_sizes \<Rightarrow> nat option" where
  "search_task_stride z = do { v \<leftarrow> mul_size 4 MAX_DIM; add_size (MAXALIGN (sz_search_task z)) v }"

definition search_result_stride :: "struct_sizes \<Rightarrow> nat option" where
  "search_result_stride z =
     do { ids \<leftarrow> mul_size MAX_TOPK 8; s \<leftarrow> add_size (MAXALIGN (sz_search_result z)) ids;
          ds \<leftarrow> mul_size MAX_TOPK 4; add_size s ds }"

definition calculate_vector_search_task_pool_size :: "struct_sizes \<Rightarrow> nat \<Rightarrow> nat option" where
  "calculate_vector_search_task_pool_size z max_backends =
     do { stride \<leftarrow> search_task_stride z; mul_size stride max_backends }"

definition calculate_vector_search_result_pool_size :: "struct_sizes \<Rightarrow> nat \<Rightarrow> nat \<Rightarrow> nat option" where
  "calculate_vector_search_result_pool_size z max_backends aux_procs =
     do { stride \<leftarrow> search_result_stride z; mul_size stride (max_backends + aux_procs) }"

definition calculate_ring_buffer_shmem_size :: "struct_sizes \<Rightarrow> nat \<Rightarrow> nat \<Rightarrow> nat option" where
  "calculate_ring_buffer_shmem_size z max_backends aux_procs =
     do { s0 \<leftarrow> add_size 0 (MAXALIGN (sz_ring z));
          slots \<leftarrow> mul_size (MAXALIGN (sz_task_slot z)) max_backends;
          s1 \<leftarrow> add_size s0 slots;
          tasks \<leftarrow> calculate_vector_search_task_pool_size z max_backends;
          s2 \<leftarrow> add_size s1 tasks;
          results \<leftarrow> calculate_vector_search_result_pool_size z max_backends aux_procs;
          add_size s2 results }"

text \<open>
  Addresses, relative to the start of their pool. \<^verbatim>\<open>vs_task_at\<close> steps by \<^verbatim>\<open>sizeof(TaskSlot)\<close> where the size
  calculation steps by its aligned size.
\<close>

definition vs_task_at :: "struct_sizes \<Rightarrow> nat \<Rightarrow> nat" where
  "vs_task_at z idx = MAXALIGN (sz_ring z) + idx * sz_task_slot z"

definition vs_search_task_at :: "nat \<Rightarrow> nat \<Rightarrow> nat" where
  "vs_search_task_at stride idx = idx * stride"

definition vs_search_task_vector_at :: "struct_sizes \<Rightarrow> nat \<Rightarrow> nat" where
  "vs_search_task_vector_at z task = task + MAXALIGN (sz_search_task z)"

definition vs_search_result_at :: "nat \<Rightarrow> nat \<Rightarrow> nat" where
  "vs_search_result_at stride pgprocno = pgprocno * stride"

definition vs_search_result_id_at :: "struct_sizes \<Rightarrow> nat \<Rightarrow> nat" where
  "vs_search_result_id_at z result = result + MAXALIGN (sz_search_result z)"

definition vs_search_result_dist_at :: "struct_sizes \<Rightarrow> nat \<Rightarrow> nat \<Rightarrow> nat" where
  "vs_search_result_dist_at z result_count result = result + MAXALIGN (sz_search_result z) + result_count * 8"

lemma MAXALIGN_bounds: "n \<le> MAXALIGN n" "8 dvd MAXALIGN n"
  by (auto simp: MAXALIGN_def)

lemma fits_size_Some [simp]: "fits_size n = Some m \<longleftrightarrow> m = n \<and> n < 2 ^ 64"
  by (auto simp: fits_size_def)

lemma bind_SomeE: "Option.bind x f = Some y \<longleftrightarrow> (\<exists>z. x = Some z \<and> f z = Some y)"
  by (cases x) simp_all

lemma strided_slots:
  assumes "i < n" "j < n" "i \<noteq> j" "sz \<le> (stride :: nat)" "base + n * stride \<le> space"
  shows "base + i * stride + sz \<le> space"
    and "{base + i * stride ..< base + i * stride + sz} \<inter> {base + j * stride ..< base + j * stride + sz} = {}"
proof -
  have "Suc i * stride \<le> n * stride" using assms(1) by (intro mult_right_mono) simp_all
  then show "base + i * stride + sz \<le> space" using assms(4,5) by simp
  have apart: "a * stride + sz \<le> b * stride" if "a < b" for a b
  proof -
    have "Suc a * stride \<le> b * stride" using that by (intro mult_right_mono) simp_all
    then show ?thesis using assms(4) by simp
  qed
  show "{base + i * stride ..< base + i * stride + sz} \<inter> {base + j * stride ..< base + j * stride + sz} = {}"
    using apart [of i j] apart [of j i] assms(3) by (cases i j rule: linorder_cases) auto
qed

lemma strides:
  assumes "calculate_ring_buffer_shmem_size z mb aux = Some space"
  shows "search_task_stride z = Some (MAXALIGN (sz_search_task z) + 4 * MAX_DIM)"
    and "search_result_stride z = Some (MAXALIGN (sz_search_result z) + MAX_TOPK * 8 + MAX_TOPK * 4)"
    and "calculate_vector_search_task_pool_size z mb = Some ((MAXALIGN (sz_search_task z) + 4 * MAX_DIM) * mb)"
    and "calculate_vector_search_result_pool_size z mb aux
      = Some ((MAXALIGN (sz_search_result z) + MAX_TOPK * 8 + MAX_TOPK * 4) * (mb + aux))"
    and "MAXALIGN (sz_ring z) + MAXALIGN (sz_task_slot z) * mb \<le> space"
  using assms
  by (auto simp: calculate_ring_buffer_shmem_size_def calculate_vector_search_task_pool_size_def
      calculate_vector_search_result_pool_size_def search_task_stride_def search_result_stride_def
      add_size_def mul_size_def bind_SomeE)

lemma pool_slots_layout:
  assumes size: "calculate_ring_buffer_shmem_size z max_backends aux = Some space"
    and strd: "search_task_stride z = Some ts" "search_result_stride z = Some rs"
    and pools: "calculate_vector_search_task_pool_size z max_backends = Some tasks"
      "calculate_vector_search_result_pool_size z max_backends aux = Some results"
    and i: "i < max_backends" "j < max_backends" "i \<noteq> j" and p: "p < max_backends + aux" "q < max_backends + aux" "p \<noteq> q"
    and n: "dim \<le> MAX_DIM" "rows \<le> MAX_TOPK"
  shows "vs_task_at z i + sz_task_slot z \<le> space"
    and "{vs_task_at z i ..< vs_task_at z i + sz_task_slot z} \<inter> {vs_task_at z j ..< vs_task_at z j + sz_task_slot z} = {}"
    and "vs_search_task_vector_at z (vs_search_task_at ts i) + 4 * dim \<le> vs_search_task_at ts i + ts"
    and "vs_search_task_at ts i + ts \<le> tasks"
    and "{vs_search_task_at ts i ..< vs_search_task_at ts i + ts} \<inter> {vs_search_task_at ts j ..< vs_search_task_at ts j + ts} = {}"
    and "vs_search_result_id_at z (vs_search_result_at rs p) + 8 * rows = vs_search_result_dist_at z rows (vs_search_result_at rs p)"
    and "vs_search_result_dist_at z rows (vs_search_result_at rs p) + 4 * rows \<le> vs_search_result_at rs p + rs"
    and "vs_search_result_at rs p + rs \<le> results"
    and "{vs_search_result_at rs p ..< vs_search_result_at rs p + rs} \<inter> {vs_search_result_at rs q ..< vs_search_result_at rs q + rs} = {}"
    and "8 dvd vs_search_result_id_at z (vs_search_result_at rs p)"
proof -
  note st = strides [OF size]
  have ts: "ts = MAXALIGN (sz_search_task z) + 4 * MAX_DIM" using st(1) strd(1) by simp
  have rs: "rs = MAXALIGN (sz_search_result z) + MAX_TOPK * 8 + MAX_TOPK * 4" using st(2) strd(2) by simp
  have tasks: "tasks = ts * max_backends" and results: "results = rs * (max_backends + aux)"
    using st(3,4) pools by (simp_all add: ts rs)
  let ?a = "MAXALIGN (sz_ring z)" and ?w = "sz_task_slot z"
  have "max_backends * ?w \<le> MAXALIGN ?w * max_backends" by (simp add: MAXALIGN_bounds mult.commute)
  then have "?a + max_backends * ?w \<le> space" using st(5) by linarith
  note w = strided_slots [OF i order_refl this]
  show "vs_task_at z i + ?w \<le> space"
    "{vs_task_at z i ..< vs_task_at z i + ?w} \<inter> {vs_task_at z j ..< vs_task_at z j + ?w} = {}"
    using w by (simp_all add: vs_task_at_def)
  show "vs_search_task_vector_at z (vs_search_task_at ts i) + 4 * dim \<le> vs_search_task_at ts i + ts"
    using n(1) by (simp add: vs_search_task_vector_at_def ts)
  have "0 + max_backends * ts \<le> tasks" by (simp add: tasks)
  note t = strided_slots [OF i order_refl this]
  show "vs_search_task_at ts i + ts \<le> tasks"
    "{vs_search_task_at ts i ..< vs_search_task_at ts i + ts} \<inter> {vs_search_task_at ts j ..< vs_search_task_at ts j + ts} = {}"
    using t by (simp_all add: vs_search_task_at_def)
  show "vs_search_result_id_at z (vs_search_result_at rs p) + 8 * rows = vs_search_result_dist_at z rows (vs_search_result_at rs p)"
    by (simp add: vs_search_result_id_at_def vs_search_result_dist_at_def)
  show "vs_search_result_dist_at z rows (vs_search_result_at rs p) + 4 * rows \<le> vs_search_result_at rs p + rs"
    using n(2) by (simp add: vs_search_result_dist_at_def rs)
  have "0 + (max_backends + aux) * rs \<le> results" by (simp add: results)
  note r = strided_slots [OF p order_refl this]
  show "vs_search_result_at rs p + rs \<le> results"
    "{vs_search_result_at rs p ..< vs_search_result_at rs p + rs} \<inter> {vs_search_result_at rs q ..< vs_search_result_at rs q + rs} = {}"
    using r by (simp_all add: vs_search_result_at_def)
  have "8 dvd rs" unfolding rs MAX_TOPK_def by (intro dvd_add MAXALIGN_bounds) simp_all
  then show "8 dvd vs_search_result_id_at z (vs_search_result_at rs p)"
    by (simp add: vs_search_result_id_at_def vs_search_result_at_def MAXALIGN_bounds)
qed

text \<open>C35: (bounds) When the size calculation returns, every slot that the address functions reach lies in its
  pool, slots of different indices do not overlap, query vectors of up to \<open>MAX_DIM\<close> numbers and results of up
  to \<open>MAX_TOPK\<close> rows stay inside their slot, ids before distances, and ids are aligned to 8 bytes.
\<close>

theorem pool_slots_disjoint:
  assumes size: "calculate_ring_buffer_shmem_size z max_backends aux = Some space"
    and strd: "search_task_stride z = Some ts" "search_result_stride z = Some rs"
    and pools: "calculate_vector_search_task_pool_size z max_backends = Some tasks"
      "calculate_vector_search_result_pool_size z max_backends aux = Some results"
    and i: "i < max_backends" "j < max_backends" "i \<noteq> j" and p: "p < max_backends + aux" "q < max_backends + aux" "p \<noteq> q"
    and n: "dim \<le> MAX_DIM" "rows \<le> MAX_TOPK"
  shows "vs_task_at z i + sz_task_slot z \<le> space
    \<and> {vs_task_at z i ..< vs_task_at z i + sz_task_slot z} \<inter> {vs_task_at z j ..< vs_task_at z j + sz_task_slot z} = {}
    \<and> vs_search_task_vector_at z (vs_search_task_at ts i) + 4 * dim \<le> vs_search_task_at ts i + ts
    \<and> vs_search_task_at ts i + ts \<le> tasks
    \<and> {vs_search_task_at ts i ..< vs_search_task_at ts i + ts} \<inter> {vs_search_task_at ts j ..< vs_search_task_at ts j + ts} = {}
    \<and> vs_search_result_id_at z (vs_search_result_at rs p) + 8 * rows = vs_search_result_dist_at z rows (vs_search_result_at rs p)
    \<and> vs_search_result_dist_at z rows (vs_search_result_at rs p) + 4 * rows \<le> vs_search_result_at rs p + rs
    \<and> vs_search_result_at rs p + rs \<le> results
    \<and> {vs_search_result_at rs p ..< vs_search_result_at rs p + rs} \<inter> {vs_search_result_at rs q ..< vs_search_result_at rs q + rs} = {}
    \<and> 8 dvd vs_search_result_id_at z (vs_search_result_at rs p)"
  by (intro conjI; rule pool_slots_layout [OF assms])

definition example_sizes :: struct_sizes where
  "example_sizes = \<lparr>sz_ring = 64, sz_task_slot = 24, sz_search_task = 88, sz_search_result = 32\<rparr>"

lemma example_sizes_fit:
  "calculate_ring_buffer_shmem_size example_sizes 100 5 = Some 1684224"
  "search_task_stride example_sizes = Some 4184" "search_result_stride example_sizes = Some 12032"
  "calculate_vector_search_task_pool_size example_sizes 100 = Some 418400"
  "calculate_vector_search_result_pool_size example_sizes 100 5 = Some 1263360"
  by (simp_all add: calculate_ring_buffer_shmem_size_def calculate_vector_search_task_pool_size_def
      calculate_vector_search_result_pool_size_def search_task_stride_def search_result_stride_def
      add_size_def mul_size_def fits_size_def MAXALIGN_def MAX_DIM_def MAX_TOPK_def example_sizes_def)

theorem pool_slots_disjoint_witness:
  "vs_task_at example_sizes 99 + 24 \<le> 1684224 \<and> vs_search_result_dist_at example_sizes 1000 (vs_search_result_at 12032 104) + 4 * 1000 \<le> 1263360"
  using pool_slots_disjoint [OF example_sizes_fit, of 99 98 104 103 1024 1000]
  by (simp add: MAX_DIM_def MAX_TOPK_def example_sizes_def)


section \<open>The ring of task slots\<close>

datatype VectorTaskType =
  VectorSearchTaskType | IndexBuildTaskType | IndexLoadTaskType | SegmentUpdateTaskType | InternalSegmentUpgradeTaskType

record TaskSlot =
  task_type :: VectorTaskType
  dsm_size :: nat
  dsm_handle :: nat

record 'f VectorSearchTaskData =
  vs_pgprocno :: nat
  vs_index_relid :: oid
  vs_vector :: "'f list"
  vs_topk :: nat
  vs_efs_nprobe :: nat
  vs_snapshot :: LSMSnapshot

text \<open>
  The ring with its slots and the search tasks that belong to them. \<open>empty_task\<close> stands for the zeroed memory of a
  search task.
\<close>

record 'f RingBufferShmem =
  ring_size :: nat
  ring_head :: nat
  ring_tail :: nat
  ring_count :: nat
  worker_pgprocno :: int
  task_slots :: "nat \<Rightarrow> TaskSlot"
  search_tasks :: "nat \<Rightarrow> 'f VectorSearchTaskData"

definition zero_slot :: TaskSlot where
  "zero_slot = \<lparr>task_type = VectorSearchTaskType, dsm_size = 0, dsm_handle = 0\<rparr>"

definition ring_buffer_init :: "nat \<Rightarrow> 'f VectorSearchTaskData \<Rightarrow> 'f RingBufferShmem" where
  "ring_buffer_init max_backends empty_task =
     \<lparr>ring_size = max_backends, ring_head = 0, ring_tail = 0, ring_count = 0, worker_pgprocno = -1,
      task_slots = (\<lambda>_. zero_slot), search_tasks = (\<lambda>_. empty_task)\<rparr>"

definition get_ring_buffer_slot :: "'f RingBufferShmem \<Rightarrow> nat \<times> 'f RingBufferShmem" where
  "get_ring_buffer_slot rb =
     (ring_tail rb, rb\<lparr>ring_tail := (ring_tail rb + 1) mod ring_size rb, ring_count := ring_count rb + 1\<rparr>)"

text \<open>
  The locked sections of a sender and of the worker. A search task goes to the entry of the search pool with the
  same index as its slot.
\<close>

definition put_task :: "TaskSlot \<Rightarrow> 'f VectorSearchTaskData option \<Rightarrow> 'f RingBufferShmem \<Rightarrow> 'f RingBufferShmem option" where
  "put_task ts st rb =
     (if ring_count rb = ring_size rb then None
      else
        let (slot, rb) = get_ring_buffer_slot rb;
            rb = rb\<lparr>task_slots := (task_slots rb)(slot := ts)\<rparr>
        in Some (case st of None \<Rightarrow> rb | Some t \<Rightarrow> rb\<lparr>search_tasks := (search_tasks rb)(slot := t)\<rparr>))"

definition peek_task :: "'f RingBufferShmem \<Rightarrow> (TaskSlot \<times> 'f VectorSearchTaskData) option" where
  "peek_task rb =
     (if ring_count rb = 0 then None else Some (task_slots rb (ring_head rb), search_tasks rb (ring_head rb)))"

definition advance_head :: "'f RingBufferShmem \<Rightarrow> 'f RingBufferShmem" where
  "advance_head rb = rb\<lparr>ring_head := (ring_head rb + 1) mod ring_size rb, ring_count := ring_count rb - 1\<rparr>"

text \<open>
  A queue of bounded capacity: the interface that both the ring and the linked list of maintenance tasks offer.
  \<open>q_items\<close> is the content, oldest first.
\<close>

locale bounded_queue =
  fixes q_inv :: "'s \<Rightarrow> bool"
    and q_items :: "'s \<Rightarrow> 'a list"
    and q_room :: "'s \<Rightarrow> bool"
    and q_put :: "'a \<Rightarrow> 's \<Rightarrow> 's"
    and q_take :: "'s \<Rightarrow> 's"
  assumes put_inv: "q_inv s \<Longrightarrow> q_room s \<Longrightarrow> q_inv (q_put x s)"
    and put_items: "q_inv s \<Longrightarrow> q_room s \<Longrightarrow> q_items (q_put x s) = q_items s @ [x]"
    and take_inv: "q_inv s \<Longrightarrow> q_items s \<noteq> [] \<Longrightarrow> q_inv (q_take s)"
    and take_items: "q_inv s \<Longrightarrow> q_items s \<noteq> [] \<Longrightarrow> q_items (q_take s) = tl (q_items s)"
begin

text \<open>A run of operations: \<open>Some x\<close> offers \<open>x\<close>, which a full queue refuses; \<open>None\<close> takes the oldest item.\<close>

fun q_run :: "'a option list \<Rightarrow> 's \<Rightarrow> 'a list \<Rightarrow> 'a list \<Rightarrow> 's \<times> 'a list \<times> 'a list" where
  "q_run [] s accepted taken = (s, accepted, taken)"
| "q_run (Some x # ops) s accepted taken =
     (if q_room s then q_run ops (q_put x s) (accepted @ [x]) taken else q_run ops s accepted taken)"
| "q_run (None # ops) s accepted taken =
     (case q_items s of [] \<Rightarrow> q_run ops s accepted taken | x # _ \<Rightarrow> q_run ops (q_take s) accepted (taken @ [x]))"

lemma q_run_fifo:
  assumes "q_inv s" "accepted = taken @ q_items s" "q_run ops s accepted taken = (s', accepted', taken')"
  shows "q_inv s' \<and> accepted' = taken' @ q_items s'"
  using assms
proof (induction ops arbitrary: s accepted taken)
  case (Cons op ops)
  show ?case
  proof (cases op)
    case None
    then show ?thesis
      using Cons.prems Cons.IH [of s accepted taken] Cons.IH [of "q_take s" accepted "taken @ [hd (q_items s)]"]
        take_inv [of s] take_items [of s]
      by (cases "q_items s") simp_all
  next
    case (Some x)
    then show ?thesis
      using Cons.prems Cons.IH [of s accepted taken] Cons.IH [of "q_put x s" "accepted @ [x]" taken]
        put_inv [of s x] put_items [of s x]
      by (cases "q_room s") simp_all
  qed
qed simp

end

definition ring_inv :: "'f RingBufferShmem \<Rightarrow> bool" where
  "ring_inv rb \<longleftrightarrow> ring_head rb < ring_size rb \<and> ring_count rb \<le> ring_size rb
     \<and> ring_tail rb = (ring_head rb + ring_count rb) mod ring_size rb"

definition ring_items :: "'f RingBufferShmem \<Rightarrow> (TaskSlot \<times> 'f VectorSearchTaskData) list" where
  "ring_items rb =
     map (\<lambda>i. (task_slots rb ((ring_head rb + i) mod ring_size rb), search_tasks rb ((ring_head rb + i) mod ring_size rb)))
       [0..<ring_count rb]"

lemma ring_slots_distinct:
  assumes "i < n" "j < n" "(h + i) mod n = (h + j) mod (n :: nat)"
  shows "i = j"
proof -
  have "(int h + int i) mod int n = (int h + int j) mod int n"
    using arg_cong [OF assms(3), of int] by (simp add: zmod_int)
  then have "int n dvd (int h + int i) - (int h + int j)" by (rule mod_eq_dvd_iff [THEN iffD1])
  then have "int n dvd int i - int j" by simp
  moreover have "\<bar>int i - int j\<bar> < int n" using assms(1,2) by linarith
  ultimately have "int i - int j = 0" using dvd_imp_le_int [of "int i - int j" "int n"] by linarith
  then show ?thesis by simp
qed

lemma put_task_items:
  assumes "ring_inv rb" "put_task ts st rb = Some rb'"
  shows "ring_inv rb' \<and> ring_size rb' = ring_size rb \<and> ring_count rb' = ring_count rb + 1
    \<and> ring_items rb' = ring_items rb @ [(ts, case st of None \<Rightarrow> search_tasks rb (ring_tail rb) | Some t \<Rightarrow> t)]"
proof -
  let ?n = "ring_size rb" and ?h = "ring_head rb" and ?c = "ring_count rb"
  have room: "?c < ?n" using assms by (auto simp: put_task_def ring_inv_def split: if_splits)
  have tail: "ring_tail rb = (?h + ?c) mod ?n" using assms(1) by (simp add: ring_inv_def)
  define rb0 where "rb0 = rb\<lparr>ring_tail := (ring_tail rb + 1) mod ?n, ring_count := ?c + 1,
    task_slots := (task_slots rb)(ring_tail rb := ts)\<rparr>"
  have rb': "rb' = (case st of None \<Rightarrow> rb0 | Some t \<Rightarrow> rb0\<lparr>search_tasks := (search_tasks rb)(ring_tail rb := t)\<rparr>)"
    using assms(2) room by (auto simp: put_task_def get_ring_buffer_slot_def rb0_def split: option.splits)
  have other: "(?h + i) mod ?n \<noteq> ring_tail rb" if "i < ?c" for i
    using ring_slots_distinct [of i ?n ?c ?h] that room unfolding tail by auto
  have "ring_items rb' = map (\<lambda>i. (task_slots rb' ((?h + i) mod ?n), search_tasks rb' ((?h + i) mod ?n))) [0..<?c + 1]"
    by (cases st) (simp_all add: ring_items_def rb' rb0_def)
  also have "\<dots> = map (\<lambda>i. (task_slots rb' ((?h + i) mod ?n), search_tasks rb' ((?h + i) mod ?n))) [0..<?c]
      @ [(task_slots rb' (ring_tail rb), search_tasks rb' (ring_tail rb))]"
    by (simp add: tail)
  also have "map (\<lambda>i. (task_slots rb' ((?h + i) mod ?n), search_tasks rb' ((?h + i) mod ?n))) [0..<?c] = ring_items rb"
    unfolding ring_items_def by (rule map_cong) (use other in \<open>cases st; simp add: rb' rb0_def\<close>)+
  finally have items: "ring_items rb' = ring_items rb @ [(ts, case st of None \<Rightarrow> search_tasks rb (ring_tail rb) | Some t \<Rightarrow> t)]"
    by (cases st) (simp_all add: rb' rb0_def)
  have "(ring_tail rb + 1) mod ?n = (?h + (?c + 1)) mod ?n" unfolding tail by (simp add: mod_simps add.assoc)
  then have "ring_inv rb'" using assms(1) room by (cases st) (simp_all add: ring_inv_def rb' rb0_def)
  with items show ?thesis by (cases st) (simp_all add: rb' rb0_def)
qed

lemma advance_head_items:
  assumes "ring_inv rb" "ring_items rb \<noteq> []"
  shows "ring_inv (advance_head rb)" "ring_items (advance_head rb) = tl (ring_items rb)"
proof -
  let ?n = "ring_size rb" and ?h = "ring_head rb"
  obtain c where c: "ring_count rb = Suc c" using assms(2) by (cases "ring_count rb") (simp_all add: ring_items_def)
  have "((?h + 1) mod ?n + c) mod ?n = (?h + Suc c) mod ?n" by (simp add: mod_simps)
  then show "ring_inv (advance_head rb)" using assms(1) c by (simp add: ring_inv_def advance_head_def)
  let ?f = "\<lambda>i. (task_slots rb ((?h + i) mod ?n), search_tasks rb ((?h + i) mod ?n))"
  have shift: "(Suc ?h mod ?n + i) mod ?n = (?h + Suc i) mod ?n" for i by (simp add: mod_simps)
  have "[0..<Suc c] = 0 # map Suc [0..<c]" by (simp add: map_Suc_upt upt_conv_Cons del: upt_Suc)
  then have "tl (ring_items rb) = map (\<lambda>i. ?f (Suc i)) [0..<c]"
    unfolding ring_items_def c by (simp only: list.map list.sel map_map comp_def)
  moreover have "ring_items (advance_head rb) = map (\<lambda>i. ?f (Suc i)) [0..<c]"
    by (simp add: ring_items_def advance_head_def c shift [simplified])
  ultimately show "ring_items (advance_head rb) = tl (ring_items rb)" by simp
qed

lemma peek_task_items: "ring_inv rb \<Longrightarrow> peek_task rb = (case ring_items rb of [] \<Rightarrow> None | x # _ \<Rightarrow> Some x)"
  by (cases "ring_count rb") (simp_all add: peek_task_def ring_items_def ring_inv_def upt_conv_Cons del: upt_Suc)

lemma ring_buffer_init_ok: "max_backends > 0 \<Longrightarrow> ring_inv (ring_buffer_init max_backends t)" "ring_items (ring_buffer_init n t) = []"
  by (simp_all add: ring_inv_def ring_items_def ring_buffer_init_def)

interpretation task_ring: bounded_queue ring_inv ring_items "\<lambda>rb. ring_count rb \<noteq> ring_size rb"
  "\<lambda>(ts, st) rb. case put_task ts (Some st) rb of None \<Rightarrow> rb | Some rb' \<Rightarrow> rb'" advance_head
proof
  fix rb :: "'a RingBufferShmem" and x :: "TaskSlot \<times> 'a VectorSearchTaskData"
  assume inv: "ring_inv rb"
  {
    assume room: "ring_count rb \<noteq> ring_size rb"
    obtain ts st where x: "x = (ts, st)" by (cases x)
    obtain rb' where "put_task ts (Some st) rb = Some rb'"
      using room by (simp add: put_task_def get_ring_buffer_slot_def)
    then show "ring_inv ((\<lambda>(ts, st) rb. case put_task ts (Some st) rb of None \<Rightarrow> rb | Some rb' \<Rightarrow> rb') x rb)"
      "ring_items ((\<lambda>(ts, st) rb. case put_task ts (Some st) rb of None \<Rightarrow> rb | Some rb' \<Rightarrow> rb') x rb) = ring_items rb @ [x]"
      using put_task_items [OF inv] by (simp_all add: x)
  }
  assume "ring_items rb \<noteq> []"
  then show "ring_inv (advance_head rb)" "ring_items (advance_head rb) = tl (ring_items rb)"
    using advance_head_items [OF inv] by simp_all
qed


section \<open>The deletion groups of an adoption\<close>

text \<open>
  The trailer of an adoption's DSM segment: the number of groups, and for each group its segment id, the number
  of tids and the tids. \<^verbatim>\<open>memcpy\<close> of an integer is its bytes in little-endian order.
\<close>

primrec le_bytes :: "nat \<Rightarrow> 'a::len word \<Rightarrow> u8 list" where
  "le_bytes 0 w = []"
| "le_bytes (Suc n) w = ucast w # le_bytes n (drop_bit 8 w)"

primrec of_le_bytes :: "u8 list \<Rightarrow> 'a::len word" where
  "of_le_bytes [] = 0"
| "of_le_bytes (b # bs) = ucast b OR push_bit 8 (of_le_bytes bs)"

definition pack_group :: "DpvVacuumGroup \<Rightarrow> u8 list" where
  "pack_group g =
     le_bytes 4 (vg_sid g) @ le_bytes 4 (of_nat (length (vg_tids g)) :: u32) @ concat (map (le_bytes 8) (vg_tids g))"

definition pack_groups :: "DpvVacuumGroup list \<Rightarrow> u8 list" where
  "pack_groups groups = le_bytes 4 (of_nat (length groups) :: u32) @ concat (map pack_group groups)"

datatype trailer_error = TrailerTooShort | TruncatedHeader | TruncatedTids

text \<open>
  The parser of \<^verbatim>\<open>submit_maintenance_task\<close>: a first pass checks the lengths and counts the tids, a second one
  fills the groups. A read beyond the bytes is \<open>None\<close>; only the second pass could do that.
\<close>

fun scan_groups :: "nat \<Rightarrow> u8 list \<Rightarrow> nat \<Rightarrow> trailer_error + nat" where
  "scan_groups 0 scan total_tids = Inr total_tids"
| "scan_groups (Suc g) scan total_tids =
     (if length scan < 8 then Inl TruncatedHeader
      else
        let n = unat (of_le_bytes (take 4 (drop 4 scan)) :: u32); scan = drop 8 scan in
        if length scan < 8 * n then Inl TruncatedTids
        else scan_groups g (drop (8 * n) scan) (total_tids + n))"

definition read_tids :: "nat \<Rightarrow> u8 list \<Rightarrow> i64 list" where
  "read_tids n scan = map (\<lambda>i. of_le_bytes (take 8 (drop (8 * i) scan))) [0..<n]"

fun fill_groups :: "nat \<Rightarrow> u8 list \<Rightarrow> DpvVacuumGroup list option" where
  "fill_groups 0 scan = Some []"
| "fill_groups (Suc g) scan =
     (if length scan < 8 then None
      else
        let n = unat (of_le_bytes (take 4 (drop 4 scan)) :: u32); rest = drop 8 scan in
        if length rest < 8 * n then None
        else map_option (\<lambda>gs. \<lparr>vg_sid = of_le_bytes (take 4 scan), vg_tids = read_tids n rest\<rparr> # gs)
               (fill_groups g (drop (8 * n) rest)))"

definition parse_groups :: "u8 list \<Rightarrow> (trailer_error + DpvVacuumGroup list) option" where
  "parse_groups trailer =
     (if length trailer < 4 then Some (Inl TrailerTooShort)
      else
        let ng = unat (of_le_bytes (take 4 trailer) :: u32); src = drop 4 trailer in
        case scan_groups ng src 0 of
          Inl e \<Rightarrow> Some (Inl e)
        | Inr _ \<Rightarrow> map_option Inr (fill_groups ng src))"

lemma unat_of_nat32: "n < 2 ^ 32 \<Longrightarrow> unat (of_nat n :: u32) = n"
  by (simp add: unat_of_nat)

lemma length_le_bytes [simp]: "length (le_bytes n w) = n"
  by (induction n arbitrary: w) simp_all

lemma of_le_bytes_take: "of_le_bytes (le_bytes n w) = take_bit (8 * n) w"
proof (induction n arbitrary: w)
  case (Suc n)
  show ?case
    by (rule bit_word_eqI) (auto simp: Suc bit_simps)
qed simp

lemma of_le_bytes_inverse [simp]: "LENGTH('a) \<le> 8 * n \<Longrightarrow> of_le_bytes (le_bytes n (w :: 'a::len word)) = w"
  unfolding of_le_bytes_take by (rule take_bit_word_eq_self)

lemma take_drop_le_bytes [simp]: "take n (le_bytes n w @ bs) = le_bytes n w" "drop n (le_bytes n w @ bs) = bs"
  by simp_all

lemma length_pack_group: "length (pack_group g) = 8 + 8 * length (vg_tids g)"
proof -
  have "length (concat (map (le_bytes 8) ts)) = 8 * length ts" for ts :: "i64 list"
    by (induction ts) simp_all
  then show ?thesis by (simp add: pack_group_def)
qed

lemma read_tids_packed: "read_tids (length tids) (concat (map (le_bytes 8) tids) @ rest) = tids"
proof -
  have "take 8 (drop (8 * i) (concat (map (le_bytes 8) tids) @ rest)) = le_bytes 8 (tids ! i)" if "i < length tids" for i
    using that
  proof (induction i arbitrary: tids)
    case 0
    then show ?case by (cases tids) simp_all
  next
    case (Suc i)
    obtain t ts where tids: "tids = t # ts" using Suc.prems by (cases tids) auto
    have "drop (8 * Suc i) (le_bytes 8 t @ concat (map (le_bytes 8) ts) @ rest)
        = drop (8 * i) (drop 8 (le_bytes 8 t @ concat (map (le_bytes 8) ts) @ rest))"
      unfolding drop_drop by (simp add: add.commute)
    then show ?case using Suc.IH [of ts] Suc.prems tids by simp
  qed
  then show ?thesis unfolding read_tids_def by (intro nth_equalityI) simp_all
qed

definition groups_fit :: "DpvVacuumGroup list \<Rightarrow> bool" where
  "groups_fit groups \<longleftrightarrow> length groups < 2 ^ 32 \<and> (\<forall>g \<in> set groups. length (vg_tids g) < 2 ^ 32)"

lemma packed_header:
  assumes "length (vg_tids g) < 2 ^ 32"
  shows "take 4 (pack_group g @ rest) = le_bytes 4 (vg_sid g)"
    and "unat (of_le_bytes (take 4 (drop 4 (pack_group g @ rest))) :: u32) = length (vg_tids g)"
    and "drop 8 (pack_group g @ rest) = concat (map (le_bytes 8) (vg_tids g)) @ rest"
    and "length (pack_group g @ rest) = 8 + 8 * length (vg_tids g) + length rest"
proof -
  let ?n = "le_bytes 4 (of_nat (length (vg_tids g)) :: u32)" and ?t = "concat (map (le_bytes 8) (vg_tids g)) @ rest"
  have eq: "pack_group g @ rest = le_bytes 4 (vg_sid g) @ ?n @ ?t" by (simp add: pack_group_def)
  show "take 4 (pack_group g @ rest) = le_bytes 4 (vg_sid g)" unfolding eq by (rule take_drop_le_bytes)
  have d: "drop 4 (pack_group g @ rest) = ?n @ ?t" unfolding eq by (rule take_drop_le_bytes)
  have "take 4 (drop 4 (pack_group g @ rest)) = ?n" unfolding d by (rule take_drop_le_bytes)
  then show "unat (of_le_bytes (take 4 (drop 4 (pack_group g @ rest))) :: u32) = length (vg_tids g)"
    using assms by (simp add: unat_of_nat32)
  have "drop 8 (pack_group g @ rest) = drop 4 (drop 4 (pack_group g @ rest))"
    by (simp add: drop_drop del: drop_append)
  also have "\<dots> = ?t" unfolding d by (rule take_drop_le_bytes)
  finally show "drop 8 (pack_group g @ rest) = ?t" .
  show "length (pack_group g @ rest) = 8 + 8 * length (vg_tids g) + length rest" by (simp add: length_pack_group)
qed

lemma length_packed_tids [simp]: "length (concat (map (le_bytes 8) (tids :: i64 list))) = 8 * length tids"
  by (induction tids) simp_all

lemma scan_fill_packed:
  assumes "\<forall>g \<in> set groups. length (vg_tids g) < 2 ^ 32"
  shows "\<exists>n'. scan_groups (length groups) (concat (map pack_group groups)) n = Inr n'"
    and "fill_groups (length groups) (concat (map pack_group groups)) = Some groups"
  using assms
proof (induction groups arbitrary: n)
  case (Cons g gs)
  note h = packed_header [of g "concat (map pack_group gs)"]
  { case 1
    then show ?case using Cons.IH(1) [of "n + length (vg_tids g)"] h by (simp add: Let_def)
  next
    case 2
    have "drop (8 * length (vg_tids g)) (concat (map (le_bytes 8) (vg_tids g)) @ concat (map pack_group gs)) = concat (map pack_group gs)"
      by simp
    then show ?case
      using 2 Cons.IH(2) h read_tids_packed [of "vg_tids g" "concat (map pack_group gs)"] by (simp add: Let_def) }
qed simp_all

lemma scan_then_fill: "scan_groups g scan n = Inr n' \<Longrightarrow> fill_groups g scan \<noteq> None"
  by (induction g scan n rule: scan_groups.induct) (auto simp: Let_def split: if_splits)

lemma scan_prefix:
  assumes "\<forall>g \<in> set groups. length (vg_tids g) < 2 ^ 32" "m < length (concat (map pack_group groups))"
  shows "\<exists>e. scan_groups (length groups) (take m (concat (map pack_group groups))) n = Inl e"
  using assms
proof (induction groups arbitrary: m n)
  case (Cons g gs)
  let ?rest = "concat (map pack_group gs)" and ?k = "length (vg_tids g)"
  note h = packed_header [of g ?rest]
  consider "m < 8" | "8 \<le> m" "m < 8 + 8 * ?k" | "8 + 8 * ?k \<le> m" by linarith
  then show ?case
  proof cases
    case 1
    then have "length (take m (concat (map pack_group (g # gs)))) < 8" by simp
    then show ?thesis by (simp only: list.size(4) add_Suc_right add_0_right scan_groups.simps if_True) simp
  next
    case 2
    have "take 4 (drop 4 (take m (pack_group g @ ?rest))) = take 4 (drop 4 (pack_group g @ ?rest))"
      using 2 by (simp only: drop_take take_take) (simp add: min_def)
    then have "unat (of_le_bytes (take 4 (drop 4 (take m (pack_group g @ ?rest)))) :: u32) = ?k" using h(2) Cons.prems by simp
    moreover have "m - 8 < 8 * ?k" using 2 by linarith
    ultimately show ?thesis using 2 h(4) Cons.prems by (simp add: Let_def del: take_append drop_append length_append)
  next
    case 3
    have "take 4 (drop 4 (take m (pack_group g @ ?rest))) = take 4 (drop 4 (pack_group g @ ?rest))"
      using 3 by (simp only: drop_take take_take) (simp add: min_def)
    then have n: "unat (of_le_bytes (take 4 (drop 4 (take m (pack_group g @ ?rest)))) :: u32) = ?k" using h(2) Cons.prems by simp
    have "drop (8 * ?k) (drop 8 (take m (pack_group g @ ?rest))) = take (m - (8 + 8 * ?k)) ?rest"
      using length_pack_group [of g] by (simp only: drop_drop drop_take drop_append) (simp add: add.commute)
    moreover have "m - (8 + 8 * ?k) < length ?rest" using Cons.prems(2) 3 by (simp add: length_pack_group)
    then obtain e where "scan_groups (length gs) (take (m - (8 + 8 * ?k)) ?rest) (n + ?k) = Inl e"
      using Cons.IH [of "m - (8 + 8 * ?k)" "n + ?k"] Cons.prems(1) by auto
    ultimately show ?thesis
      using 3 n h(4) Cons.prems by (simp add: Let_def del: take_append drop_append length_append drop_drop)
  qed
qed simp

text \<open>C36: (roundtrip) The groups of deleted tids that the fetcher packs behind an adoption task are parsed back
  unchanged by the worker.
\<close>

theorem deletion_groups_roundtrip:
  assumes "groups_fit groups"
  shows "parse_groups (pack_groups groups) = Some (Inr groups)"
proof -
  have fit: "\<forall>g \<in> set groups. length (vg_tids g) < 2 ^ 32" and n: "length groups < 2 ^ 32"
    using assms by (simp_all add: groups_fit_def)
  obtain k where "scan_groups (length groups) (concat (map pack_group groups)) 0 = Inr k" using scan_fill_packed(1) [OF fit] by blast
  then show ?thesis
    using n scan_fill_packed(2) [OF fit] by (simp add: parse_groups_def pack_groups_def Let_def unat_of_nat32)
qed

definition example_groups :: "DpvVacuumGroup list" where
  "example_groups = [\<lparr>vg_sid = 7, vg_tids = [65537, -1]\<rparr>, \<lparr>vg_sid = 9, vg_tids = []\<rparr>]"

theorem deletion_groups_roundtrip_witness:
  "parse_groups (pack_groups example_groups) = Some (Inr example_groups) \<and> length (pack_groups example_groups) = 36"
  using deletion_groups_roundtrip [of example_groups]
  by (simp add: groups_fit_def example_groups_def) (simp add: pack_groups_def length_pack_group)

text \<open>C37: (error) The parser never reads beyond the bytes it was given, whatever they are, and a trailer that was
  cut off anywhere is refused with an error.
\<close>

theorem truncated_groups_refused:
  assumes "groups_fit groups" "m < length (pack_groups groups)"
  shows "parse_groups trailer \<noteq> None \<and> (\<exists>e. parse_groups (take m (pack_groups groups)) = Some (Inl e))"
proof (rule conjI)
  show "parse_groups trailer \<noteq> None"
    by (auto simp: parse_groups_def Let_def dest: scan_then_fill split: sum.split)
  show "\<exists>e. parse_groups (take m (pack_groups groups)) = Some (Inl e)"
  proof (cases "m < 4")
    case False
    let ?rest = "concat (map pack_group groups)"
    have n: "unat (of_nat (length groups) :: u32) = length groups" using assms(1) by (simp add: groups_fit_def unat_of_nat32)
    have t: "take m (pack_groups groups) = le_bytes 4 (of_nat (length groups) :: u32) @ take (m - 4) ?rest"
      using False by (simp add: pack_groups_def)
    have "m - 4 < length ?rest" using assms(2) False by (simp add: pack_groups_def)
    then obtain e where "scan_groups (length groups) (take (m - 4) ?rest) 0 = Inl e"
      using scan_prefix [of groups "m - 4" 0] assms(1) unfolding groups_fit_def by blast
    then show ?thesis unfolding t parse_groups_def by (simp add: n)
  next
    case True
    then have "length (take m (pack_groups groups)) < 4" by simp
    then show ?thesis by (simp only: parse_groups_def if_True) simp
  qed
qed

theorem truncated_groups_refused_witness:
  "parse_groups [1, 2, 3] \<noteq> None \<and> (\<exists>e. parse_groups (take 30 (pack_groups example_groups)) = Some (Inl e))"
  using truncated_groups_refused [of example_groups 30 "[1, 2, 3]"]
  by (simp add: groups_fit_def example_groups_def pack_groups_def length_pack_group)

end
