(* ===== verification/FileTransfer.thy ===== *)
theory FileTransfer
  imports TaskRing SegmentFiles
begin

text \<open>
  Copying of segment files from the primary to a standby: the file server (\<^verbatim>\<open>replication_server.c\<close>) as a function
  from the bytes of a request to the bytes of its response, and the pulling side (\<^verbatim>\<open>segment_fetcher.c\<close>) as the
  sequence of changes of the local directory. What the connection does is a parameter.
\<close>

section \<open>Wire format\<close>

text \<open>Integers travel in network byte order.\<close>

definition be_bytes :: "nat \<Rightarrow> 'a::len word \<Rightarrow> u8 list" where
  "be_bytes n w = rev (le_bytes n w)"

definition of_be_bytes :: "u8 list \<Rightarrow> 'a::len word" where
  "of_be_bytes bs = of_le_bytes (rev bs)"

datatype DpvFileKind =
  DPV_FILE_INDEX | DPV_FILE_MAPPING | DPV_FILE_OFFSET | DPV_FILE_BITMAP | DPV_FILE_METADATA | DPV_FILE_INDEX_METADATA

primrec kind_code :: "DpvFileKind \<Rightarrow> u8" where
  "kind_code DPV_FILE_INDEX = 1"
| "kind_code DPV_FILE_MAPPING = 2"
| "kind_code DPV_FILE_OFFSET = 3"
| "kind_code DPV_FILE_BITMAP = 4"
| "kind_code DPV_FILE_METADATA = 5"
| "kind_code DPV_FILE_INDEX_METADATA = 6"

definition DPV_REQ_GET_FILE :: u32 where "DPV_REQ_GET_FILE = 1"

definition DPV_RESULT_OK :: u8 where "DPV_RESULT_OK = 0"
definition DPV_RESULT_AUTH_FAIL :: u8 where "DPV_RESULT_AUTH_FAIL = 1"
definition DPV_RESULT_NOT_FOUND :: u8 where "DPV_RESULT_NOT_FOUND = 2"
definition DPV_RESULT_IO_ERROR :: u8 where "DPV_RESULT_IO_ERROR = 3"

text \<open>\<^verbatim>\<open>read_n\<close> on what the other side sends before it closes.\<close>

definition read_n :: "nat \<Rightarrow> u8 list \<Rightarrow> (u8 list \<times> u8 list) option" where
  "read_n n bs = (if n \<le> length bs then Some (take n bs, drop n bs) else None)"

text \<open>A C string ends at its first zero byte.\<close>

definition c_string :: "u8 list \<Rightarrow> u8 list" where
  "c_string bs = takeWhile (\<lambda>b. b \<noteq> 0) bs"

section \<open>The file server\<close>

text \<open>Only the first chunk of a chunked file is served; an unknown kind gives the empty path.\<close>

definition build_file_path :: "SegmentId \<Rightarrow> SegmentId \<Rightarrow> u32 \<Rightarrow> u8 \<Rightarrow> string option" where
  "build_file_path a b v kind =
     (if kind = kind_code DPV_FILE_INDEX then Some (file_name ''index'' a b v)
      else if kind = kind_code DPV_FILE_MAPPING then Some (chunk_name (file_name ''mapping'' a b v) 0)
      else if kind = kind_code DPV_FILE_OFFSET then Some (chunk_name (file_name ''offset'' a b v) 0)
      else if kind = kind_code DPV_FILE_BITMAP then Some (chunk_name (file_name ''bitmap'' a b v) 0)
      else if kind = kind_code DPV_FILE_METADATA then Some (file_name ''metadata'' a b v)
      else if kind = kind_code DPV_FILE_INDEX_METADATA then Some ''metadata''
      else None)"

text \<open>The settings and the files of the primary; whether \<^verbatim>\<open>fstat\<close> and \<^verbatim>\<open>malloc\<close> succeed.\<close>

record server_env =
  se_secret :: "u8 list option"
  se_dirs :: "oid \<Rightarrow> directory"
  se_stat :: bool
  se_malloc :: bool

definition serve_file :: "server_env \<Rightarrow> oid \<Rightarrow> string option \<Rightarrow> u8 list" where
  "serve_file env idx path =
     (case path of
        None \<Rightarrow> [DPV_RESULT_NOT_FOUND]
      | Some name \<Rightarrow>
          (case map_of (se_dirs env idx) name of
             None \<Rightarrow> [DPV_RESULT_NOT_FOUND]
           | Some content \<Rightarrow>
               if \<not> se_stat env then [DPV_RESULT_IO_ERROR]
               else DPV_RESULT_OK # be_bytes 8 (of_nat (length content) :: u64) @ (if se_malloc env then content else [])))"

text \<open>The part of a request behind the secret: kind of request, index, range, version and kind of file.\<close>

definition serve_request :: "server_env \<Rightarrow> u8 list \<Rightarrow> u8 list" where
  "serve_request env bs =
     (case read_n 21 bs of
        None \<Rightarrow> []
      | Some (f, _) \<Rightarrow>
          if (of_be_bytes (take 4 f) :: u32) \<noteq> DPV_REQ_GET_FILE then []
          else serve_file env (of_be_bytes (take 4 (drop 4 f)))
                 (build_file_path (of_be_bytes (take 4 (drop 8 f))) (of_be_bytes (take 4 (drop 12 f)))
                    (of_be_bytes (take 4 (drop 16 f))) (f ! 20)))"

definition handle_one_connection :: "server_env \<Rightarrow> u8 list \<Rightarrow> u8 list" where
  "handle_one_connection env req =
     (case read_n 4 req of
        None \<Rightarrow> []
      | Some (proto_ver, bs) \<Rightarrow>
          if (of_be_bytes proto_ver :: u32) \<noteq> 1 then []
          else (case read_n 4 bs of
             None \<Rightarrow> []
           | Some (secret_len, bs) \<Rightarrow>
               if unat (of_be_bytes secret_len :: u32) \<ge> 256 then []
               else (case read_n (unat (of_be_bytes secret_len :: u32)) bs of
                  None \<Rightarrow> []
                | Some (secret, bs) \<Rightarrow>
                    if se_secret env \<noteq> Some (c_string secret) then [DPV_RESULT_AUTH_FAIL]
                    else serve_request env bs)))"

section \<open>Pulling one file\<close>

definition request_bytes ::
  "u8 list \<Rightarrow> oid \<Rightarrow> SegmentId \<Rightarrow> SegmentId \<Rightarrow> u32 \<Rightarrow> DpvFileKind \<Rightarrow> u8 list" where
  "request_bytes secret idx a b v kind =
     be_bytes 4 (1 :: u32) @ be_bytes 4 (of_nat (length secret) :: u32) @ secret @ be_bytes 4 DPV_REQ_GET_FILE
     @ be_bytes 4 idx @ be_bytes 4 a @ be_bytes 4 b @ be_bytes 4 v @ [kind_code kind]"

text \<open>
  The changes of the directory. \<open>Store\<close> is the contents of a file after a \<^verbatim>\<open>write\<close>.
\<close>

datatype file_change = Store string "u8 list" | Move string string | Unlink string

primrec change_dir :: "directory \<Rightarrow> file_change \<Rightarrow> directory" where
  "change_dir d (Store name bs) = AList.update name bs d"
| "change_dir d (Move old new) =
     (case map_of d old of None \<Rightarrow> d | Some bs \<Rightarrow> AList.update new bs (AList.delete old d))"
| "change_dir d (Unlink name) = AList.delete name d"

text \<open>
  What happens during one pull. \<open>carried\<close> is what arrives of the response before the connection ends, and
  \<open>cut r\<close> how many bytes the \<^verbatim>\<open>read\<close> with \<open>r\<close> bytes left offers.
\<close>

record pull_env =
  connected :: bool
  request_sent :: bool
  carried :: "u8 list \<Rightarrow> u8 list"
  cut :: "nat \<Rightarrow> nat"
  opened :: bool
  allocated :: bool
  write_ok :: "nat \<Rightarrow> bool"
  fsync_ok :: bool
  close_ok :: bool
  rename_ok :: bool

definition PULL_BUF_SIZE :: nat where "PULL_BUF_SIZE = 1048576"

text \<open>The loop that copies \<open>remaining\<close> bytes to the temporary file, which holds \<open>acc\<close>.\<close>

function recv_data :: "pull_env \<Rightarrow> string \<Rightarrow> nat \<Rightarrow> u8 list \<Rightarrow> u8 list \<Rightarrow> file_change list \<times> bool" where
  "recv_data env tmp remaining stream acc =
     (if remaining = 0 then ([], True)
      else if stream = [] then ([Unlink tmp], False)
      else if \<not> write_ok env remaining then ([Unlink tmp], False)
      else
        let k = min (max 1 (cut env remaining)) (min (min remaining PULL_BUF_SIZE) (length stream));
            acc = acc @ take k stream
        in (case recv_data env tmp (remaining - k) (drop k stream) acc of (steps, ok) \<Rightarrow> (Store tmp acc # steps, ok)))"
  by pat_completeness auto
termination
  by (relation "measure (\<lambda>(env, tmp, remaining, stream, acc). remaining)") (auto simp: PULL_BUF_SIZE_def)

declare recv_data.simps [simp del]

definition pull_one_file ::
  "pull_env \<Rightarrow> (u8 list \<Rightarrow> u8 list) \<Rightarrow> u8 list \<Rightarrow> oid \<Rightarrow> SegmentId \<Rightarrow> SegmentId \<Rightarrow> u32 \<Rightarrow> DpvFileKind \<Rightarrow> string
     \<Rightarrow> file_change list \<times> bool" where
  "pull_one_file env server secret idx a b v kind out_path =
     (let tmp = out_path @ ''.tmp'' in
      if \<not> connected env \<or> \<not> request_sent env then ([], False)
      else
        (case read_n 1 (carried env (server (request_bytes secret idx a b v kind))) of
           None \<Rightarrow> ([], False)
         | Some (result, bs) \<Rightarrow>
             if hd result \<noteq> DPV_RESULT_OK then ([], False)
             else
               (case read_n 8 bs of
                  None \<Rightarrow> ([], False)
                | Some (sz, stream) \<Rightarrow>
                    if \<not> opened env then ([], False)
                    else if \<not> allocated env then ([Store tmp [], Unlink tmp], False)
                    else
                      (case recv_data env tmp (unat (of_be_bytes sz :: u64)) stream [] of (steps, ok) \<Rightarrow>
                         if \<not> ok then (Store tmp [] # steps, False)
                         else if \<not> fsync_ok env \<or> \<not> close_ok env \<or> \<not> rename_ok env
                         then (Store tmp [] # steps @ [Unlink tmp], False)
                         else (Store tmp [] # steps @ [Move tmp out_path], True)))))"

section \<open>Pulling a segment\<close>

definition build_dest_path :: "SegmentId \<Rightarrow> SegmentId \<Rightarrow> u32 \<Rightarrow> DpvFileKind \<Rightarrow> string" where
  "build_dest_path a b v kind =
     (case kind of
        DPV_FILE_INDEX \<Rightarrow> file_name ''index'' a b v
      | DPV_FILE_MAPPING \<Rightarrow> chunk_name (file_name ''mapping'' a b v) 0
      | DPV_FILE_OFFSET \<Rightarrow> chunk_name (file_name ''offset'' a b v) 0
      | DPV_FILE_BITMAP \<Rightarrow> chunk_name (file_name ''bitmap'' a b v) 0
      | DPV_FILE_METADATA \<Rightarrow> file_name ''metadata'' a b v
      | DPV_FILE_INDEX_METADATA \<Rightarrow> ''metadata'')"

definition pull_kinds :: "DpvFileKind list" where
  "pull_kinds = [DPV_FILE_INDEX, DPV_FILE_MAPPING, DPV_FILE_OFFSET, DPV_FILE_BITMAP, DPV_FILE_METADATA]"

primrec pull_files ::
  "(DpvFileKind \<Rightarrow> pull_env) \<Rightarrow> (u8 list \<Rightarrow> u8 list) \<Rightarrow> u8 list \<Rightarrow> oid \<Rightarrow> SegmentId \<Rightarrow> SegmentId \<Rightarrow> u32 \<Rightarrow> DpvFileKind list
     \<Rightarrow> file_change list \<times> bool" where
  "pull_files env server secret idx a b v [] = ([], True)"
| "pull_files env server secret idx a b v (k # ks) =
     (case pull_one_file (env k) server secret idx a b v k (build_dest_path a b v k) of (steps, ok) \<Rightarrow>
        if \<not> ok then (steps, False)
        else (case pull_files env server secret idx a b v ks of (later, ok) \<Rightarrow> (steps @ later, ok)))"

text \<open>
  \<^verbatim>\<open>pull_all_files\<close>; \<open>d\<close> is the local directory of the index, which exists unless \<open>mkdir_ok\<close> is false.
\<close>

definition pull_all_files ::
  "bool \<Rightarrow> (DpvFileKind \<Rightarrow> pull_env) \<Rightarrow> (u8 list \<Rightarrow> u8 list) \<Rightarrow> u8 list \<Rightarrow> oid \<Rightarrow> SegmentId \<Rightarrow> SegmentId \<Rightarrow> u32
     \<Rightarrow> directory \<Rightarrow> file_change list \<times> bool" where
  "pull_all_files mkdir_ok env server secret idx a b v d =
     (if \<not> mkdir_ok then ([], False)
      else
        (case pull_one_file (env DPV_FILE_INDEX_METADATA) server secret idx a b v DPV_FILE_INDEX_METADATA ''metadata'' of
           (first, ok) \<Rightarrow>
             if \<not> ok then (first, False)
             else if map_of (foldl change_dir d first) (file_name ''metadata'' a b v) \<noteq> None then (first, True)
             else (case pull_files env server secret idx a b v pull_kinds of (steps, ok) \<Rightarrow> (first @ steps, ok))))"

section \<open>Requests and responses\<close>

lemma length_be_bytes [simp]: "length (be_bytes n w) = n"
  by (simp add: be_bytes_def)

lemma of_be_bytes_inverse [simp]: "LENGTH('a) \<le> 8 * n \<Longrightarrow> of_be_bytes (be_bytes n w) = (w :: 'a::len word)"
  by (simp add: be_bytes_def of_be_bytes_def)

lemma read_n_append [simp]: "length bs = n \<Longrightarrow> read_n n (bs @ rest) = Some (bs, rest)"
  by (auto simp: read_n_def)

lemma c_string_id [simp]: "0 \<notin> set bs \<Longrightarrow> c_string bs = bs"
  by (induction bs) (auto simp: c_string_def)

lemma build_file_path_kind: "build_file_path a b v (kind_code k) = Some (build_dest_path a b v k)"
  by (cases k) (simp_all add: build_file_path_def build_dest_path_def)

lemma serve_request_fields:
  "serve_request env (be_bytes 4 DPV_REQ_GET_FILE @ be_bytes 4 idx @ be_bytes 4 a @ be_bytes 4 b @ be_bytes 4 v @ [kind_code k])
     = serve_file env idx (Some (build_dest_path a b v k))"
proof -
  let ?f = "be_bytes 4 DPV_REQ_GET_FILE @ be_bytes 4 idx @ be_bytes 4 a @ be_bytes 4 b @ be_bytes 4 v @ [kind_code k]"
  have "read_n 21 ?f = Some (?f, [])" by (simp add: read_n_def)
  moreover have "take 4 ?f = be_bytes 4 DPV_REQ_GET_FILE" "take 4 (drop 4 ?f) = be_bytes 4 idx" "take 4 (drop 8 ?f) = be_bytes 4 a"
    "take 4 (drop 12 ?f) = be_bytes 4 b" "take 4 (drop 16 ?f) = be_bytes 4 v" "?f ! 20 = kind_code k"
    by (simp_all add: nth_append)
  ultimately show ?thesis
    by (simp only: serve_request_def option.case prod.case) (simp add: build_file_path_kind)
qed

text \<open>What the server answers to a request of the fetcher, whose secret has no zero byte.\<close>

lemma handle_request:
  assumes "0 \<notin> set secret" "length secret < 2 ^ 32"
  shows "handle_one_connection env (request_bytes secret idx a b v k) =
     (if length secret \<ge> 256 then [] else if se_secret env \<noteq> Some secret then [DPV_RESULT_AUTH_FAIL]
      else serve_file env idx (Some (build_dest_path a b v k)))"
proof -
  have "unat (of_nat (length secret) :: u32) = length secret" using assms(2) by (simp add: unat_of_nat32)
  then show ?thesis
    using assms(1) serve_request_fields [of env idx a b v k] by (simp add: handle_one_connection_def request_bytes_def)
qed

section \<open>The temporary file\<close>

lemma map_of_change_dir:
  "map_of (change_dir d (Store n bs)) = (map_of d)(n \<mapsto> bs)"
  "map_of (change_dir d (Unlink n)) = (map_of d)(n := None)"
  "map_of (change_dir d (Move old new)) =
     (case map_of d old of None \<Rightarrow> map_of d | Some bs \<Rightarrow> (map_of d)(old := None, new \<mapsto> bs))"
  by (auto simp: AList.update_conv' AList.delete_conv' split: option.splits)

definition only_on :: "string \<Rightarrow> file_change \<Rightarrow> bool" where
  "only_on tmp s \<longleftrightarrow> (\<exists>bs. s = Store tmp bs) \<or> s = Unlink tmp"

lemma only_on_simps [simp]: "only_on tmp (Store tmp bs)" "only_on tmp (Unlink tmp)"
  by (simp_all add: only_on_def)

lemma only_on_frame: "\<forall>s \<in> set steps. only_on tmp s \<Longrightarrow> name \<noteq> tmp \<Longrightarrow> map_of (foldl change_dir d steps) name = map_of d name"
  by (induction steps arbitrary: d) (auto simp: only_on_def map_of_change_dir simp del: change_dir.simps)

text \<open>The four branches of the loop.\<close>

abbreviation received :: "pull_env \<Rightarrow> nat \<Rightarrow> u8 list \<Rightarrow> nat" where
  "received env remaining stream \<equiv> min (max 1 (cut env remaining)) (min (min remaining PULL_BUF_SIZE) (length stream))"

lemma recv_data_ends:
  "recv_data env tmp 0 stream acc = ([], True)"
  "0 < remaining \<Longrightarrow> stream = [] \<or> \<not> write_ok env remaining \<Longrightarrow> recv_data env tmp remaining stream acc = ([Unlink tmp], False)"
  by (auto simp: recv_data.simps [of env tmp 0 stream acc] recv_data.simps [of env tmp remaining stream acc])

lemma recv_data_goes_on:
  assumes "0 < remaining" "stream \<noteq> []" "write_ok env remaining"
  shows "recv_data env tmp remaining stream acc =
     (case recv_data env tmp (remaining - received env remaining stream) (drop (received env remaining stream) stream)
             (acc @ take (received env remaining stream) stream) of
        (steps, ok) \<Rightarrow> (Store tmp (acc @ take (received env remaining stream) stream) # steps, ok))"
  using assms by (subst recv_data.simps) (simp only: Let_def not_gr_zero [symmetric] not_not if_False simp_thms)

lemma recv_data_cases:
  assumes "recv_data env tmp remaining stream acc = (steps, ok)"
  obtains (finished) "remaining = 0" "steps = []" "ok"
  | (broken) "0 < remaining" "stream = [] \<or> \<not> write_ok env remaining" "steps = [Unlink tmp]" "\<not> ok"
  | (goes_on) later where "0 < remaining" "stream \<noteq> []" "write_ok env remaining"
      "steps = Store tmp (acc @ take (received env remaining stream) stream) # later"
      "recv_data env tmp (remaining - received env remaining stream) (drop (received env remaining stream) stream)
         (acc @ take (received env remaining stream) stream) = (later, ok)"
proof (cases "remaining = 0")
  case True
  then show ?thesis using assms finished recv_data_ends(1) by simp
next
  case False
  show ?thesis
  proof (cases "stream = [] \<or> \<not> write_ok env remaining")
    case True
    then show ?thesis using assms broken recv_data_ends(2) False by simp
  next
    case no: False
    then show ?thesis
      using assms goes_on False by (auto simp: recv_data_goes_on split: prod.splits)
  qed
qed

lemma received_bounds:
  assumes "0 < remaining" "stream \<noteq> []"
  shows "0 < received env remaining stream" "received env remaining stream \<le> remaining" "received env remaining stream \<le> length stream"
  using assms by (auto simp: PULL_BUF_SIZE_def)

lemma recv_data_only: "recv_data env tmp remaining stream acc = (steps, ok) \<Longrightarrow> \<forall>s \<in> set steps. only_on tmp s"
proof (induction remaining arbitrary: stream acc steps rule: less_induct)
  case (less remaining)
  from less.prems show ?case
  proof (cases rule: recv_data_cases)
    case (goes_on later)
    then have "remaining - received env remaining stream < remaining" using received_bounds(1) by simp
    from less.IH [OF this goes_on(5)] show ?thesis by (simp add: goes_on(4))
  qed simp_all
qed

lemma recv_data_ok:
  "recv_data env tmp remaining stream acc = (steps, True) \<Longrightarrow> map_of d tmp = Some acc \<Longrightarrow>
     remaining \<le> length stream \<and> map_of (foldl change_dir d steps) tmp = Some (acc @ take remaining stream)"
proof (induction remaining arbitrary: stream acc steps d rule: less_induct)
  case (less remaining)
  from less.prems(1) show ?case
  proof (cases rule: recv_data_cases)
    case (goes_on later)
    define k where "k = received env remaining stream"
    have k: "0 < k" "k \<le> remaining" "k \<le> length stream" using received_bounds goes_on(1,2) by (auto simp: k_def)
    note step = goes_on(4,5) [folded k_def]
    have "remaining - k \<le> length (drop k stream)
        \<and> map_of (foldl change_dir (change_dir d (Store tmp (acc @ take k stream))) later) tmp
          = Some ((acc @ take k stream) @ take (remaining - k) (drop k stream))"
      by (rule less.IH [OF _ step(2)]) (use k goes_on(1) in \<open>simp_all add: map_of_change_dir del: change_dir.simps\<close>)
    moreover have "take remaining stream = take k stream @ take (remaining - k) (drop k stream)"
      by (metis k(2) le_add_diff_inverse take_add)
    ultimately show ?thesis using k by (auto simp: step(1) simp del: change_dir.simps)
  qed (use less.prems(2) in simp_all)
qed

lemma recv_data_complete:
  "\<forall>r. write_ok env r \<Longrightarrow> remaining \<le> length stream \<Longrightarrow> snd (recv_data env tmp remaining stream acc)"
proof (induction remaining arbitrary: stream acc rule: less_induct)
  case (less remaining)
  obtain steps ok where r: "recv_data env tmp remaining stream acc = (steps, ok)" by fastforce
  then show ?case
  proof (cases rule: recv_data_cases)
    case (goes_on later)
    define k where "k = received env remaining stream"
    have k: "0 < k" "k \<le> length stream" using received_bounds goes_on(1,2) by (auto simp: k_def)
    have "snd (recv_data env tmp (remaining - k) (drop k stream) (acc @ take k stream))"
      by (rule less.IH [OF _ less.prems(1)]) (use k goes_on(1) less.prems(2) in simp_all)
    then show ?thesis by (simp add: r goes_on(5) [folded k_def])
  qed (use less.prems r in auto)
qed

section \<open>One pull\<close>

text \<open>
  A pull changes the temporary file only, and at its end, when it succeeds, moves it to its place.
\<close>

lemma pull_one_shape:
  assumes "pull_one_file env server secret idx a b v k out_path = (steps, ok)"
  obtains init where "\<forall>s \<in> set init. only_on (out_path @ ''.tmp'') s"
    "steps = (if ok then init @ [Move (out_path @ ''.tmp'') out_path] else init)"
proof -
  have "\<exists>init. (\<forall>s \<in> set init. only_on (out_path @ ''.tmp'') s)
      \<and> steps = (if ok then init @ [Move (out_path @ ''.tmp'') out_path] else init)"
    using assms recv_data_only [of env "out_path @ ''.tmp''"]
    by (auto simp: pull_one_file_def Let_def split: if_splits option.splits prod.splits)
  then show ?thesis using that by blast
qed

text \<open>TCP delivers a prefix of what was sent.\<close>

definition tcp :: "pull_env \<Rightarrow> bool" where
  "tcp env \<longleftrightarrow> (\<forall>bs. \<exists>n. carried env bs = take n bs)"

lemma serve_file_ok:
  assumes "read_n 1 (take n (serve_file env idx (Some name))) = Some (result, bs)" "hd result = DPV_RESULT_OK"
    and "read_n 8 bs = Some (sz, stream)"
  obtains content where "map_of (se_dirs env idx) name = Some content" "sz = be_bytes 8 (of_nat (length content) :: u64)"
    "\<exists>m. stream = take m content"
proof -
  have r: "result = take 1 (take n (serve_file env idx (Some name)))" "bs = drop 1 (take n (serve_file env idx (Some name)))"
    "1 \<le> n" using assms(1) by (auto simp: read_n_def split: if_splits)
  then have hd: "hd (serve_file env idx (Some name)) = DPV_RESULT_OK"
    using assms(1,2) by (cases "serve_file env idx (Some name)"; cases n) (auto simp: read_n_def)
  then obtain content where c: "map_of (se_dirs env idx) name = Some content" "se_stat env"
    by (auto simp: serve_file_def DPV_RESULT_OK_def DPV_RESULT_NOT_FOUND_def DPV_RESULT_IO_ERROR_def split: option.splits if_splits)
  define data where "data = (if se_malloc env then content else [])"
  have bs: "bs = take (n - 1) (be_bytes 8 (of_nat (length content) :: u64) @ data)"
    using r(2,3) c by (cases n) (simp_all add: serve_file_def data_def)
  then have "8 \<le> n - 1" using assms(3) by (auto simp: read_n_def split: if_splits)
  then have "sz = be_bytes 8 (of_nat (length content) :: u64)" "stream = take (n - 9) data"
    using assms(3) bs by (auto simp: read_n_def split: if_splits)
  moreover have "\<exists>m. take (n - 9) data = take m content" by (cases "se_malloc env") (auto simp: data_def intro: exI [of _ 0])
  ultimately show ?thesis using c(1) that by blast
qed

text \<open>
  A pull that reports success has stored exactly the bytes of the primary's file, whatever the connection did.
\<close>

lemma pull_one_ok:
  assumes "pull_one_file env (handle_one_connection srv) secret idx a b v k (build_dest_path a b v k) = (steps, True)"
    and "tcp env" "0 \<notin> set secret" "length secret < 2 ^ 32"
    and small: "\<forall>name content. map_of (se_dirs srv idx) name = Some content \<longrightarrow> length content < 2 ^ 64"
  shows "\<exists>content. map_of (se_dirs srv idx) (build_dest_path a b v k) = Some content
    \<and> map_of (foldl change_dir d steps) (build_dest_path a b v k) = Some content"
proof -
  let ?out = "build_dest_path a b v k" and ?resp = "handle_one_connection srv (request_bytes secret idx a b v k)"
  let ?tmp = "build_dest_path a b v k @ ''.tmp''"
  obtain result bs sz stream data where got: "read_n 1 (carried env ?resp) = Some (result, bs)" "hd result = DPV_RESULT_OK"
      "read_n 8 bs = Some (sz, stream)" "recv_data env ?tmp (unat (of_be_bytes sz :: u64)) stream [] = (data, True)"
      "steps = Store ?tmp [] # data @ [Move ?tmp ?out]"
    using assms(1) by (auto simp: pull_one_file_def Let_def split: if_splits option.splits prod.splits)
  obtain n where n: "carried env ?resp = take n ?resp" using assms(2) unfolding tcp_def by blast
  have resp: "?resp = serve_file srv idx (Some ?out)"
    using got(1,2) n handle_request [OF assms(3,4), of srv idx a b v k]
    by (cases n) (auto simp: read_n_def DPV_RESULT_OK_def DPV_RESULT_AUTH_FAIL_def split: if_splits)
  obtain content m where c: "map_of (se_dirs srv idx) ?out = Some content" "sz = be_bytes 8 (of_nat (length content) :: u64)"
      "stream = take m content"
    using serve_file_ok [OF got(1) [unfolded n, unfolded resp] got(2,3)] by blast
  have "length content < 2 ^ 64" using small c(1) by blast
  then have len: "unat (of_be_bytes sz :: u64) = length content" by (simp add: c(2) unat_of_nat take_bit_nat_eq_self_iff)
  have "map_of (foldl change_dir (change_dir d (Store ?tmp [])) data) ?tmp = Some (take (length content) stream) \<and> length content \<le> length stream"
    using recv_data_ok [OF got(4), of "change_dir d (Store ?tmp [])"] by (simp add: map_of_change_dir len del: change_dir.simps)
  then have "map_of (foldl change_dir (change_dir d (Store ?tmp [])) data) ?tmp = Some content" by (simp add: c(3))
  then show ?thesis using c(1) by (simp add: got(5) map_of_change_dir del: change_dir.simps)
qed

lemma pull_one_succeeds:
  assumes "0 \<notin> set secret" "length secret < 256" "se_secret srv = Some secret" "se_stat srv" "se_malloc srv"
    and "map_of (se_dirs srv idx) (build_dest_path a b v k) = Some content" "length content < 2 ^ 64"
    and env: "connected env" "request_sent env" "\<forall>bs. carried env bs = bs" "opened env" "allocated env" "\<forall>r. write_ok env r"
      "fsync_ok env" "close_ok env" "rename_ok env"
  shows "snd (pull_one_file env (handle_one_connection srv) secret idx a b v k (build_dest_path a b v k))"
proof -
  have "handle_one_connection srv (request_bytes secret idx a b v k)
      = DPV_RESULT_OK # be_bytes 8 (of_nat (length content) :: u64) @ content"
    using assms(1-6) by (simp add: handle_request serve_file_def)
  moreover have "unat (of_be_bytes (be_bytes 8 (of_nat (length content) :: u64)) :: u64) = length content"
    using assms(7) by (simp add: unat_of_nat take_bit_nat_eq_self_iff)
  moreover obtain data where "recv_data env (build_dest_path a b v k @ ''.tmp'') (length content) content [] = (data, True)"
    using recv_data_complete [OF env(6) order_refl] by (metis prod.collapse)
  ultimately show ?thesis
    using env by (simp add: pull_one_file_def Let_def read_n_def)
qed

section \<open>Pulling a segment, with crashes\<close>

lemma dest_inj: "build_dest_path a b v j = build_dest_path a b v k \<longleftrightarrow> j = k"
  by (cases j; cases k) (simp_all add: build_dest_path_def file_name_def chunk_name_def)

lemma dest_not_tmp: "build_dest_path a b v j \<noteq> build_dest_path a b v k @ ''.tmp''"
proof (cases "j = k")
  case False
  then show ?thesis by (cases j; cases k) (simp_all add: build_dest_path_def file_name_def chunk_name_def)
qed simp

text \<open>
  The effect of a pull that is cut off after \<open>n\<close> changes: no other final name changes, and the name of the file
  changes only with the last change, to the contents on the primary.
\<close>

lemma pull_one_cut:
  fixes d :: directory and n :: nat
  assumes pull: "pull_one_file env (handle_one_connection srv) secret idx a b v k (build_dest_path a b v k) = (steps, ok)"
    and "tcp env" "0 \<notin> set secret" "length secret < 2 ^ 32"
    and "\<forall>name content. map_of (se_dirs srv idx) name = Some content \<longrightarrow> length content < 2 ^ 64"
  defines "d' \<equiv> foldl change_dir d (take n steps)"
  shows "j \<noteq> k \<Longrightarrow> map_of d' (build_dest_path a b v j) = map_of d (build_dest_path a b v j)"
    and "n < length steps \<or> \<not> ok \<Longrightarrow> map_of d' (build_dest_path a b v k) = map_of d (build_dest_path a b v k)"
    and "length steps \<le> n \<Longrightarrow> ok \<Longrightarrow>
           \<exists>bs. map_of d' (build_dest_path a b v k) = Some bs \<and> map_of (se_dirs srv idx) (build_dest_path a b v k) = Some bs"
proof -
  let ?out = "build_dest_path a b v"
  obtain init where init: "\<forall>s \<in> set init. only_on (?out k @ ''.tmp'') s"
      "steps = (if ok then init @ [Move (?out k @ ''.tmp'') (?out k)] else init)"
    using pull_one_shape [OF pull] by blast
  have some: "\<forall>s \<in> set (take m init). only_on (?out k @ ''.tmp'') s" for m using init(1) by (meson in_set_takeD)
  have quiet: "map_of (foldl change_dir d (take m init)) (?out j) = map_of d (?out j)" for m j
    by (rule only_on_frame [OF some]) (rule dest_not_tmp)
  have early: "take n steps = take n init" if "n < length steps \<or> \<not> ok" using that init(2) by auto
  show "map_of d' (?out k) = map_of d (?out k)" if "n < length steps \<or> \<not> ok"
    unfolding d'_def early [OF that] by (rule quiet)
  have all: "take n steps = init @ [Move (?out k @ ''.tmp'') (?out k)]" if "length steps \<le> n" "ok" using that init(2) by simp
  show "map_of d' (?out j) = map_of d (?out j)" if "j \<noteq> k"
  proof (cases "n < length steps \<or> \<not> ok")
    case True
    show ?thesis unfolding d'_def early [OF True] by (rule quiet)
  next
    case False
    have "?out j \<noteq> ?out k" "?out j \<noteq> ?out k @ ''.tmp''" using that by (simp_all add: dest_inj dest_not_tmp)
    moreover have t: "take n steps = init @ [Move (?out k @ ''.tmp'') (?out k)]" by (rule all) (use False in auto)
    ultimately show ?thesis
      unfolding d'_def t using quiet [of "length init" j]
      by (simp add: map_of_change_dir split: option.split del: change_dir.simps)
  qed
  show "\<exists>bs. map_of d' (?out k) = Some bs \<and> map_of (se_dirs srv idx) (?out k) = Some bs" if "length steps \<le> n" ok
    using pull_one_ok [OF pull [unfolded eqTrueI [OF that(2)]] assms(2-5), of d] that(1) by (auto simp: d'_def)
qed

text \<open>Which files of the segment are there with the contents of the primary.\<close>

definition in_place :: "directory \<Rightarrow> SegmentId \<Rightarrow> SegmentId \<Rightarrow> u32 \<Rightarrow> directory \<Rightarrow> DpvFileKind \<Rightarrow> bool" where
  "in_place primary a b v d k \<longleftrightarrow>
     (\<exists>bs. map_of d (build_dest_path a b v k) = Some bs \<and> map_of primary (build_dest_path a b v k) = Some bs)"

definition complete_or_absent :: "directory \<Rightarrow> SegmentId \<Rightarrow> SegmentId \<Rightarrow> u32 \<Rightarrow> directory \<Rightarrow> bool" where
  "complete_or_absent primary a b v d \<longleftrightarrow>
     (map_of d (file_name ''metadata'' a b v) \<noteq> None \<longrightarrow> (\<forall>k \<in> set pull_kinds. in_place primary a b v d k))"

lemma metadata_dest: "file_name ''metadata'' a b v = build_dest_path a b v DPV_FILE_METADATA"
  by (simp add: build_dest_path_def)

lemma pull_files_cut:
  assumes "pull_files env (handle_one_connection srv) secret idx a b v ks = (steps, ok)"
    and "\<forall>k. tcp (env k)" "0 \<notin> set secret" "length secret < 2 ^ 32"
    and "\<forall>name content. map_of (se_dirs srv idx) name = Some content \<longrightarrow> length content < 2 ^ 64"
    and "distinct (done_ks @ ks)" "DPV_FILE_METADATA \<notin> set (butlast ks)" "map_of d (file_name ''metadata'' a b v) = None"
    and "\<forall>k \<in> set done_ks. in_place (se_dirs srv idx) a b v d k"
  shows "(map_of (foldl change_dir d (take n steps)) (file_name ''metadata'' a b v) \<noteq> None \<or> ok \<and> length steps \<le> n) \<longrightarrow>
     (\<forall>k \<in> set (done_ks @ ks). in_place (se_dirs srv idx) a b v (foldl change_dir d (take n steps)) k)"
  using assms(1,6-9)
proof (induction ks arbitrary: done_ks d steps n ok)
  case Nil
  then show ?case by simp
next
  case (Cons k ks)
  let ?at = "\<lambda>d j. map_of d (build_dest_path a b v j)"
  obtain first ok1 where first: "pull_one_file (env k) (handle_one_connection srv) secret idx a b v k (build_dest_path a b v k) = (first, ok1)"
    by fastforce
  note one = pull_one_cut [OF first assms(2) [rule_format] assms(3-5)]
  define d1 where "d1 = foldl change_dir d first"
  have keep: "in_place (se_dirs srv idx) a b v (foldl change_dir d (take m first)) j" if "j \<in> set done_ks" for j m
  proof -
    have "j \<noteq> k" using that Cons.prems(2) by auto
    then show ?thesis using one(1) [where j = j and d = d and n = m] Cons.prems(5) that unfolding in_place_def by metis
  qed
  show ?case
  proof (cases "ok1 \<and> length first < n \<or> ok1 \<and> length first \<le> n \<and> ks \<noteq> []")
    case False
    have none: "\<not> (ok \<and> length steps \<le> n)" if "\<not> (ok1 \<and> length first \<le> n)"
      using that Cons.prems(1) first by (auto split: prod.splits if_splits)
    have cut: "take n steps = take n first" if "\<not> (ok1 \<and> length first \<le> n)"
      using that Cons.prems(1) first by (auto split: prod.splits if_splits)
    show ?thesis
    proof (cases "ok1 \<and> length first \<le> n")
      case True
      then have "ks = []" "steps = first" "ok" using False Cons.prems(1) first by auto
      then show ?thesis using one(3) [where d = d and n = n] keep [of _ n] True by (auto simp: in_place_def)
    next
      case no: False
      have "?at (foldl change_dir d (take n first)) DPV_FILE_METADATA = None"
        using one(1) [where j = DPV_FILE_METADATA and d = d and n = n] one(2) [where d = d and n = n] no Cons.prems(4) by (cases "k = DPV_FILE_METADATA") (auto simp: metadata_dest)
      then show ?thesis using none [OF no] by (auto simp: cut [OF no] metadata_dest)
    qed
  next
    case True
    then obtain rest ok2 where rest: "pull_files env (handle_one_connection srv) secret idx a b v ks = (rest, ok2)" "steps = first @ rest" "ok = ok2"
      using Cons.prems(1) first by (auto split: prod.splits)
    have d1: "d1 = foldl change_dir d (take (length first) first)" by (simp add: d1_def)
    have here: "in_place (se_dirs srv idx) a b v d1 k" using one(3) [where d = d and n = "length first"] True by (auto simp: d1 in_place_def)
    show ?thesis
    proof (cases "ks = []")
      case True
      then show ?thesis using rest here keep [of _ "length first"] \<open>ok1 \<and> _ \<or> _\<close> by (auto simp: d1_def)
    next
      case False
      then have "k \<noteq> DPV_FILE_METADATA" using Cons.prems(3) by (auto split: if_splits)
      then have "map_of d1 (file_name ''metadata'' a b v) = None"
        using one(1) [where j = DPV_FILE_METADATA and d = d and n = "length first"] Cons.prems(4) by (simp add: d1_def metadata_dest)
      moreover have "\<forall>j \<in> set (done_ks @ [k]). in_place (se_dirs srv idx) a b v d1 j" using here keep [of _ "length first"] by (auto simp: d1_def)
      moreover have "DPV_FILE_METADATA \<notin> set (butlast ks)" using Cons.prems(3) False by simp
      ultimately have "(map_of (foldl change_dir d1 (take (n - length first) rest)) (file_name ''metadata'' a b v) \<noteq> None
            \<or> ok2 \<and> length rest \<le> n - length first) \<longrightarrow>
          (\<forall>j \<in> set ((done_ks @ [k]) @ ks). in_place (se_dirs srv idx) a b v (foldl change_dir d1 (take (n - length first) rest)) j)"
        using Cons.IH [OF rest(1), of "done_ks @ [k]" d1 "n - length first"] Cons.prems(2) by simp
      moreover have "foldl change_dir d (take n steps) = foldl change_dir d1 (take (n - length first) rest)"
        using True by (auto simp: rest(2) d1_def)
      moreover have "length steps \<le> n \<longrightarrow> length rest \<le> n - length first" using True by (auto simp: rest(2))
      ultimately show ?thesis by (simp add: rest(3))
    qed
  qed
qed

lemma pull_all_cut:
  assumes pull: "pull_all_files mk env (handle_one_connection srv) secret idx a b v d = (steps, ok)"
    and env: "\<forall>k. tcp (env k)" "0 \<notin> set secret" "length secret < 2 ^ 32"
      "\<forall>name content. map_of (se_dirs srv idx) name = Some content \<longrightarrow> length content < 2 ^ 64"
    and "complete_or_absent (se_dirs srv idx) a b v d"
  shows "complete_or_absent (se_dirs srv idx) a b v (foldl change_dir d (take n steps))"
    and "ok \<Longrightarrow> \<forall>k \<in> set pull_kinds. in_place (se_dirs srv idx) a b v (foldl change_dir d steps) k"
proof -
  let ?prim = "se_dirs srv idx" and ?md = "file_name ''metadata'' a b v"
  obtain first ok1 where first: "pull_one_file (env DPV_FILE_INDEX_METADATA) (handle_one_connection srv) secret idx a b v
      DPV_FILE_INDEX_METADATA (build_dest_path a b v DPV_FILE_INDEX_METADATA) = (first, ok1)" by fastforce
  then have first': "pull_one_file (env DPV_FILE_INDEX_METADATA) (handle_one_connection srv) secret idx a b v
      DPV_FILE_INDEX_METADATA ''metadata'' = (first, ok1)" by (simp add: build_dest_path_def)
  note one = pull_one_cut [OF first env(1) [rule_format] env(2-4)]
  have same: "map_of (foldl change_dir d (take m first)) (build_dest_path a b v k) = map_of d (build_dest_path a b v k)"
    if "k \<in> set pull_kinds" for k m
    by (rule one(1)) (use that in \<open>auto simp: pull_kinds_def\<close>)
  have keep: "in_place ?prim a b v (foldl change_dir d (take m first)) k = in_place ?prim a b v d k"
    if "k \<in> set pull_kinds" for k m
    by (simp add: in_place_def same [OF that])
  have keep_md: "map_of (foldl change_dir d (take m first)) ?md = map_of d ?md" for m
    using same [of DPV_FILE_METADATA m] by (simp add: metadata_dest pull_kinds_def)
  have keep_ca: "complete_or_absent ?prim a b v (foldl change_dir d (take m first))" for m
    using assms(6) keep keep_md by (simp add: complete_or_absent_def)
  have "complete_or_absent ?prim a b v (foldl change_dir d (take n steps))
      \<and> (ok \<longrightarrow> (\<forall>k \<in> set pull_kinds. in_place ?prim a b v (foldl change_dir d steps) k))"
  proof (cases "mk \<and> ok1 \<and> map_of d ?md = None")
    case False
    then have cases: "(steps, ok) = ([], False) \<or> steps = first \<and> (ok \<longrightarrow> map_of d ?md \<noteq> None)"
      using pull keep_md [of "length first"] by (auto simp: pull_all_files_def first' split: if_splits)
    then have "complete_or_absent ?prim a b v (foldl change_dir d (take n steps))" using keep_ca assms(6) by auto
    moreover have "\<forall>k \<in> set pull_kinds. in_place ?prim a b v (foldl change_dir d steps) k" if ok
      using cases that keep [of _ "length first"] assms(6) by (auto simp: complete_or_absent_def)
    ultimately show ?thesis by blast
  next
    case True
    obtain rest ok2 where rest: "pull_files env (handle_one_connection srv) secret idx a b v pull_kinds = (rest, ok2)" by fastforce
    have eq: "steps = first @ rest" "ok = ok2"
      using pull True rest keep_md [of "length first"] by (auto simp: pull_all_files_def first')
    define d1 where "d1 = foldl change_dir d first"
    have none: "map_of d1 ?md = None" using True keep_md [of "length first"] by (simp add: d1_def)
    have kinds: "distinct ([] @ pull_kinds)" "DPV_FILE_METADATA \<notin> set (butlast pull_kinds)" by (simp_all add: pull_kinds_def)
    have all: "map_of (foldl change_dir d1 (take m rest)) ?md \<noteq> None \<or> ok2 \<and> length rest \<le> m \<longrightarrow>
        (\<forall>k \<in> set pull_kinds. in_place ?prim a b v (foldl change_dir d1 (take m rest)) k)" for m
      using pull_files_cut [OF rest env kinds none, of m] by simp
    have "complete_or_absent ?prim a b v (foldl change_dir d (take n steps))"
    proof (cases "n \<le> length first")
      case True
      then show ?thesis using keep_ca by (simp add: eq(1))
    next
      case False
      then have "foldl change_dir d (take n steps) = foldl change_dir d1 (take (n - length first) rest)" by (simp add: eq(1) d1_def)
      then show ?thesis using all [of "n - length first"] by (simp add: complete_or_absent_def)
    qed
    moreover have "\<forall>k \<in> set pull_kinds. in_place ?prim a b v (foldl change_dir d steps) k" if ok
      using all [of "length rest"] that by (simp add: eq d1_def)
    ultimately show ?thesis by blast
  qed
  then show "complete_or_absent ?prim a b v (foldl change_dir d (take n steps))"
    "ok \<Longrightarrow> \<forall>k \<in> set pull_kinds. in_place ?prim a b v (foldl change_dir d steps) k" by blast+
qed

text \<open>Attempts, each of which may fail or be cut off by a crash.\<close>

definition cut_pull ::
  "server_env \<Rightarrow> u8 list \<Rightarrow> oid \<Rightarrow> SegmentId \<Rightarrow> SegmentId \<Rightarrow> u32 \<Rightarrow> directory
     \<Rightarrow> bool \<times> (DpvFileKind \<Rightarrow> pull_env) \<times> nat \<Rightarrow> directory" where
  "cut_pull srv secret idx a b v d attempt =
     (case attempt of (mkdir_ok, env, n) \<Rightarrow>
        foldl change_dir d (take n (fst (pull_all_files mkdir_ok env (handle_one_connection srv) secret idx a b v d))))"

text \<open>What a pull needs to succeed, on the side of the primary and on the standby.\<close>

definition serves :: "server_env \<Rightarrow> u8 list \<Rightarrow> oid \<Rightarrow> SegmentId \<Rightarrow> SegmentId \<Rightarrow> u32 \<Rightarrow> bool" where
  "serves srv secret idx a b v \<longleftrightarrow> length secret < 256 \<and> se_secret srv = Some secret \<and> se_stat srv \<and> se_malloc srv
     \<and> (\<forall>k. map_of (se_dirs srv idx) (build_dest_path a b v k) \<noteq> None)"

definition smooth :: "pull_env \<Rightarrow> bool" where
  "smooth env \<longleftrightarrow> connected env \<and> request_sent env \<and> (\<forall>bs. carried env bs = bs) \<and> opened env \<and> allocated env
     \<and> (\<forall>r. write_ok env r) \<and> fsync_ok env \<and> close_ok env \<and> rename_ok env"

definition transfer_ok :: "server_env \<Rightarrow> u8 list \<Rightarrow> oid \<Rightarrow> bool" where
  "transfer_ok srv secret idx \<longleftrightarrow> 0 \<notin> set secret \<and> length secret < 2 ^ 32
     \<and> (\<forall>name content. map_of (se_dirs srv idx) name = Some content \<longrightarrow> length content < 2 ^ 64)"

lemma smooth_tcp: "smooth env \<Longrightarrow> tcp env"
  unfolding smooth_def tcp_def by (metis order_refl take_all)

lemma smooth_pull:
  assumes "transfer_ok srv secret idx" "serves srv secret idx a b v" "smooth env"
  shows "snd (pull_one_file env (handle_one_connection srv) secret idx a b v k (build_dest_path a b v k))"
proof -
  obtain content where "map_of (se_dirs srv idx) (build_dest_path a b v k) = Some content" using assms(2) by (auto simp: serves_def)
  then show ?thesis
    using assms by (intro pull_one_succeeds) (auto simp: transfer_ok_def serves_def smooth_def)
qed

lemma smooth_pull_all:
  assumes "transfer_ok srv secret idx" "serves srv secret idx a b v" "\<forall>k. smooth (env k)"
  shows "snd (pull_all_files True env (handle_one_connection srv) secret idx a b v d)"
proof -
  have one: "\<exists>s. pull_one_file (env k) (handle_one_connection srv) secret idx a b v k (build_dest_path a b v k) = (s, True)" for k
    using smooth_pull [OF assms(1,2) assms(3) [rule_format], of k k] by (metis prod.collapse)
  have files: "snd (pull_files env (handle_one_connection srv) secret idx a b v ks)" for ks
  proof (induction ks)
    case (Cons k ks)
    then show ?case using one [of k] by (auto split: prod.split)
  qed simp
  have "snd (pull_one_file (env DPV_FILE_INDEX_METADATA) (handle_one_connection srv) secret idx a b v DPV_FILE_INDEX_METADATA ''metadata'')"
    using one [of DPV_FILE_INDEX_METADATA] by (auto simp: build_dest_path_def)
  then show ?thesis using files [of pull_kinds] by (auto simp: pull_all_files_def split: prod.split)
qed

lemma cut_pulls_keep:
  assumes "transfer_ok srv secret idx" "complete_or_absent (se_dirs srv idx) a b v d"
    and "\<forall>(mkdir_ok, env, n) \<in> set attempts. \<forall>k. tcp (env k)"
  shows "complete_or_absent (se_dirs srv idx) a b v (foldl (cut_pull srv secret idx a b v) d attempts)"
  using assms(2,3)
proof (induction attempts arbitrary: d)
  case (Cons att attempts)
  obtain mk env n where att: "att = (mk, env, n)" by (cases att)
  obtain steps ok where "pull_all_files mk env (handle_one_connection srv) secret idx a b v d = (steps, ok)" by fastforce
  then have "complete_or_absent (se_dirs srv idx) a b v (cut_pull srv secret idx a b v d att)"
    using pull_all_cut(1) [of mk env srv secret idx a b v d steps ok] Cons.prems assms(1)
    by (simp add: att cut_pull_def transfer_ok_def)
  then show ?case using Cons.IH Cons.prems(2) by simp
qed simp

text \<open>C17: (safety) However often a pull of a segment fails or is cut off by a crash, at any change of the directory,
  the metadata file is there only if all five files are, with the bytes of the primary; and an undisturbed
  attempt then succeeds and leaves all five in place.
\<close>

theorem pull_is_atomic:
  assumes "transfer_ok srv secret idx" "complete_or_absent (se_dirs srv idx) a b v d"
    and "\<forall>(mkdir_ok, env, n) \<in> set attempts. \<forall>k. tcp (env k)"
    and "d' = foldl (cut_pull srv secret idx a b v) d attempts"
  shows "complete_or_absent (se_dirs srv idx) a b v d'
     \<and> (serves srv secret idx a b v \<and> (\<forall>k. smooth (good k)) \<longrightarrow>
         (\<exists>steps. pull_all_files True good (handle_one_connection srv) secret idx a b v d' = (steps, True)
            \<and> (\<forall>k \<in> set pull_kinds. in_place (se_dirs srv idx) a b v (foldl change_dir d' steps) k)))"
proof -
  have ca: "complete_or_absent (se_dirs srv idx) a b v d'" unfolding assms(4) by (rule cut_pulls_keep [OF assms(1-3)])
  have "\<exists>steps. pull_all_files True good (handle_one_connection srv) secret idx a b v d' = (steps, True)
      \<and> (\<forall>k \<in> set pull_kinds. in_place (se_dirs srv idx) a b v (foldl change_dir d' steps) k)"
    if sv: "serves srv secret idx a b v" and gd: "\<forall>k. smooth (good k)"
  proof -
    obtain steps where steps: "pull_all_files True good (handle_one_connection srv) secret idx a b v d' = (steps, True)"
      using smooth_pull_all [OF assms(1) sv gd, of d'] by (metis prod.collapse)
    have "\<forall>k. tcp (good k)" using gd smooth_tcp by blast
    then show ?thesis using pull_all_cut(2) [OF steps _ _ _ _ ca] assms(1) steps by (auto simp: transfer_ok_def)
  qed
  then show ?thesis using ca by blast
qed

definition example_srv :: server_env where
  "example_srv = \<lparr>se_secret = Some [115, 49],
     se_dirs = (\<lambda>_. map (\<lambda>k. (build_dest_path 3 3 1 k, [kind_code k, 7]))
       [DPV_FILE_INDEX, DPV_FILE_MAPPING, DPV_FILE_OFFSET, DPV_FILE_BITMAP, DPV_FILE_METADATA, DPV_FILE_INDEX_METADATA]),
     se_stat = True, se_malloc = True\<rparr>"

definition smooth_env :: pull_env where
  "smooth_env = \<lparr>connected = True, request_sent = True, carried = (\<lambda>bs. bs), cut = (\<lambda>_. 1), opened = True, allocated = True,
     write_ok = (\<lambda>_. True), fsync_ok = True, close_ok = True, rename_ok = True\<rparr>"

lemma example_transfer:
  "transfer_ok example_srv [115, 49] 16" "serves example_srv [115, 49] 16 3 3 1" "smooth smooth_env"
proof -
  show "transfer_ok example_srv [115, 49] 16"
    by (auto simp: transfer_ok_def example_srv_def split: if_splits)
  have "map_of (se_dirs example_srv 16) (build_dest_path 3 3 1 k) \<noteq> None" for k
    by (cases k) (simp_all add: example_srv_def dest_inj)
  then show "serves example_srv [115, 49] 16 3 3 1" by (simp add: serves_def) (simp add: example_srv_def)
  show "smooth smooth_env" by (simp add: smooth_def smooth_env_def)
qed

definition example_attempts :: "(bool \<times> (DpvFileKind \<Rightarrow> pull_env) \<times> nat) list" where
  "example_attempts = [(True, \<lambda>_. smooth_env\<lparr>carried := take 10\<rparr>, 2), (True, \<lambda>_. smooth_env, 9)]"

theorem pull_is_atomic_witness:
  "\<exists>steps. pull_all_files True (\<lambda>_. smooth_env) (handle_one_connection example_srv) [115, 49] 16 3 3 1
      (foldl (cut_pull example_srv [115, 49] 16 3 3 1) [] example_attempts) = (steps, True)"
proof -
  have "tcp smooth_env" by (rule smooth_tcp [OF example_transfer(3)])
  then have "\<forall>(mkdir_ok, env, n) \<in> set example_attempts. \<forall>k. tcp (env k)"
    by (auto simp: example_attempts_def tcp_def smooth_env_def)
  moreover have "complete_or_absent (se_dirs example_srv 16) 3 3 1 []" by (simp add: complete_or_absent_def)
  ultimately show ?thesis
    using pull_is_atomic [OF example_transfer(1) _ _ refl, of 3 3 1 "[]" example_attempts "\<lambda>_. smooth_env"] example_transfer(2,3) by blast
qed

section \<open>Reading the copy\<close>

text \<open>
  A segment whose files fit into one chunk each, and whose bitmap was not rewritten, is read alike on both sides.
\<close>

lemma read_one_chunk:
  assumes "map_of d (chunk_name p 0) = Some bs" "map_of d (chunk_name p 1) = None"
  shows "read_chunks (length d) d p 0 = [bs]"
proof -
  have "d \<noteq> []" using assms(1) by auto
  then obtain n where "length d = Suc n" by (cases d) auto
  then show ?thesis using assms by (cases n) simp_all
qed

lemma pulled_reads_alike:
  assumes "\<forall>k \<in> set pull_kinds. in_place primary a b v d k" "v \<noteq> UINT32_MAX"
    and one: "\<forall>ty \<in> {''mapping'', ''offset'', ''bitmap''}. map_of d (chunk_name (file_name ty a b v) 1) = None
        \<and> map_of primary (chunk_name (file_name ty a b v) 1) = None"
    and sub: "find_latest_bitmap_subversion d a b v = UINT32_MAX" "find_latest_bitmap_subversion primary a b v = UINT32_MAX"
  shows "read_lsm_segment_metadata d a b v = read_lsm_segment_metadata primary a b v"
    and "load_mapping_file d a b v = load_mapping_file primary a b v"
    and "load_offset_file d a b v = load_offset_file primary a b v"
    and "load_bitmap_file d a b v = load_bitmap_file primary a b v"
proof -
  have alike: "read_segment_file d (file_name ty a b v) c = read_segment_file primary (file_name ty a b v) c"
    if "ty \<in> {''mapping'', ''offset'', ''bitmap''}" "chunk_name (file_name ty a b v) 0 = build_dest_path a b v k" "k \<in> set pull_kinds" for ty c k
    using assms(1) one that read_one_chunk [of _ "file_name ty a b v"] by (auto simp: in_place_def read_segment_file_def)
  show "read_lsm_segment_metadata d a b v = read_lsm_segment_metadata primary a b v"
    using assms(1,2) by (auto simp: read_lsm_segment_metadata_def resolve_version_def in_place_def metadata_dest pull_kinds_def)
  show "load_mapping_file d a b v = load_mapping_file primary a b v"
    using assms(2) alike [of "''mapping''" DPV_FILE_MAPPING] by (simp add: load_mapping_file_def resolve_version_def build_dest_path_def pull_kinds_def)
  show "load_offset_file d a b v = load_offset_file primary a b v"
    using assms(2) alike [of "''offset''" DPV_FILE_OFFSET] by (simp add: load_offset_file_def resolve_version_def build_dest_path_def pull_kinds_def)
  show "load_bitmap_file d a b v = load_bitmap_file primary a b v"
    using assms(2) sub alike [of "''bitmap''" DPV_FILE_BITMAP]
    by (simp add: load_bitmap_file_def resolve_version_def bitmap_name_def build_dest_path_def pull_kinds_def)
qed

text \<open>
  Only the first chunk of a file travels. And the temporary name of the metadata, unlike the one of a flush, is one
  that the scan of the directory takes for metadata: a pull that was cut off before its last change leaves a
  segment that the scan reports and that cannot be read.
\<close>

lemma interrupted_pull_is_scanned:
  "parse_metadata_name (build_dest_path a b v DPV_FILE_METADATA @ ''.tmp'') = Some (a, b, v)"
proof -
  have "atoi (dec (unat v) @ ''.tmp'') = v"
    using atoi_dec [of "''.tmp''" "unat v"] not_digits(2) by simp
  then show ?thesis using parse_metadata_prefix [of a b "dec (unat v) @ ''.tmp''"]
    by (simp add: build_dest_path_def metadata_name_prefix)
qed

section \<open>Who is served\<close>

lemma served_paths: "build_file_path a b v kind = Some name \<Longrightarrow> \<exists>k. name = build_dest_path a b v k"
proof -
  assume p: "build_file_path a b v kind = Some name"
  have "\<exists>k. kind = kind_code k"
    by (rule ccontr) (use p in \<open>auto simp: build_file_path_def simp del: kind_code.simps split: if_splits\<close>)
  then show ?thesis using p build_file_path_kind by (metis option.inject)
qed

lemma served_file:
  assumes "serve_file env idx path = r"
  shows "r = [DPV_RESULT_NOT_FOUND] \<or> r = [DPV_RESULT_IO_ERROR]
   \<or> (\<exists>name content m. path = Some name \<and> map_of (se_dirs env idx) name = Some content
         \<and> r = DPV_RESULT_OK # be_bytes 8 (of_nat (length content) :: u64) @ take m content)"
proof -
  consider "r = [DPV_RESULT_NOT_FOUND]" | "r = [DPV_RESULT_IO_ERROR]"
    | name content where "path = Some name" "map_of (se_dirs env idx) name = Some content"
        "r = DPV_RESULT_OK # be_bytes 8 (of_nat (length content) :: u64) @ (if se_malloc env then content else [])"
    using assms by (auto simp: serve_file_def split: option.splits if_splits)
  then show ?thesis
  proof cases
    case 3
    have "\<exists>m. (if se_malloc env then content else []) = take m content" by (metis order_refl take_0 take_all)
    then show ?thesis using 3 by auto
  qed simp_all
qed

text \<open>C39: (safety) Whatever bytes a client sends, the server reveals something only if the request carries the configured
  secret, and then no more than one file of one segment of one index, or the metadata of one index.
\<close>

theorem server_reveals_only_segment_files:
  assumes "handle_one_connection env req = r" "r \<noteq> []" "r \<noteq> [DPV_RESULT_AUTH_FAIL]"
  shows "(\<exists>n < 256. se_secret env = Some (c_string (take n (drop 8 req))))
    \<and> (r = [DPV_RESULT_NOT_FOUND] \<or> r = [DPV_RESULT_IO_ERROR]
       \<or> (\<exists>idx a b v k content m. map_of (se_dirs env idx) (build_dest_path a b v k) = Some content
            \<and> r = DPV_RESULT_OK # be_bytes 8 (of_nat (length content) :: u64) @ take m content))"
proof -
  define n where "n = unat (of_be_bytes (take 4 (drop 4 req)) :: u32)"
  have n: "n < 256" "se_secret env = Some (c_string (take n (drop 8 req)))" "serve_request env (drop (n + 8) req) = r"
    using assms by (auto simp: handle_one_connection_def read_n_def n_def split: if_splits)
  obtain idx a b v kind where "serve_file env idx (build_file_path a b v kind) = r"
    using n(3) assms(2) by (auto simp: serve_request_def split: option.splits if_splits)
  from served_file [OF this] show ?thesis using n(1,2) served_paths by blast
qed

theorem server_reveals_only_segment_files_witness:
  "\<exists>n < 256. se_secret example_srv = Some (c_string (take n (drop 8 (request_bytes [115, 49] 16 3 3 1 DPV_FILE_BITMAP))))"
proof -
  have "handle_one_connection example_srv (request_bytes [115, 49] 16 3 3 1 DPV_FILE_BITMAP)
      = serve_file example_srv 16 (Some (build_dest_path 3 3 1 DPV_FILE_BITMAP))"
    using handle_request [of "[115, 49]" example_srv] example_transfer(1,2) by (simp add: transfer_ok_def serves_def)
  moreover have "serve_file example_srv 16 (Some (build_dest_path 3 3 1 DPV_FILE_BITMAP)) \<notin> {[], [DPV_RESULT_AUTH_FAIL]}"
    by (auto simp: serve_file_def DPV_RESULT_AUTH_FAIL_def DPV_RESULT_OK_def DPV_RESULT_NOT_FOUND_def DPV_RESULT_IO_ERROR_def split: option.split)
  ultimately show ?thesis
    using server_reveals_only_segment_files [of example_srv "request_bytes [115, 49] 16 3 3 1 DPV_FILE_BITMAP"] by auto
qed

end
