(* ===== verification/FetchQueue.thy ===== *)
theory FetchQueue
  imports FileTransfer
begin

text \<open>
  The persistent queue of segments that a standby has to fetch (\<^verbatim>\<open>pending_fetch_queue.c\<close>), and the fetcher workers
  (\<^verbatim>\<open>segment_fetcher.c\<close>) on it: redo enqueues, workers claim, fetch and mark, and may crash at any time. The queue
  is a directory with one file per entry, in \<^verbatim>\<open>readdir\<close> order.
\<close>

section \<open>Entries and their names\<close>

datatype DpvFetchStatus = DPV_FETCH_PENDING | DPV_FETCH_FETCHING | DPV_FETCH_DONE | DPV_FETCH_FAILED

datatype DpvFetchKind = DPV_FETCH_KIND_CREATED | DPV_FETCH_KIND_REPLACED

record DpvFetchEntryHeader =
  fq_relid :: oid
  fq_start_sid :: SegmentId
  fq_end_sid :: SegmentId
  fq_version :: u32
  fq_kind :: DpvFetchKind
  fq_source_lsn :: u64
  fq_status :: DpvFetchStatus

record DpvFetchKey =
  key_relid :: oid
  key_start :: SegmentId
  key_end :: SegmentId
  key_version :: u32
  key_kind :: DpvFetchKind

definition header_key :: "DpvFetchEntryHeader \<Rightarrow> DpvFetchKey" where
  "header_key h = \<lparr>key_relid = fq_relid h, key_start = fq_start_sid h, key_end = fq_end_sid h, key_version = fq_version h, key_kind = fq_kind h\<rparr>"

text \<open>\<^verbatim>\<open>%x\<close>, and padding with zeros on the left.\<close>

definition hex_digit :: "nat \<Rightarrow> char" where
  "hex_digit n = char_of (if n < 10 then 48 + n else 87 + n)"

function hex :: "nat \<Rightarrow> string" where
  "hex n = (if n < 16 then [hex_digit n] else hex (n div 16) @ [hex_digit (n mod 16)])"
  by pat_completeness auto
termination by (relation "measure id") auto

declare hex.simps [simp del]

definition pad :: "nat \<Rightarrow> string \<Rightarrow> string" where
  "pad n s = replicate (n - length s) CHR ''0'' @ s"

definition key_to_filename :: "DpvFetchKey \<Rightarrow> string" where
  "key_to_filename k =
     pad 8 (hex (unat (key_relid k))) @ ''_'' @ pad 10 (dec (unat (key_start k))) @ ''_'' @ pad 10 (dec (unat (key_end k))) @ ''_''
     @ pad 10 (dec (unat (key_version k))) @ ''_'' @ (case key_kind k of DPV_FETCH_KIND_CREATED \<Rightarrow> ''1'' | DPV_FETCH_KIND_REPLACED \<Rightarrow> ''2'') @ ''.entry''"

definition ends_with :: "string \<Rightarrow> string \<Rightarrow> bool" where
  "ends_with suf s \<longleftrightarrow> length suf \<le> length s \<and> drop (length s - length suf) s = suf"

section \<open>Operations on the queue\<close>

text \<open>A file is an entry, or too short to hold a header.\<close>

datatype queue_file = Partial | Entry DpvFetchEntryHeader "u8 list"

type_synonym fetch_queue = "(string \<times> queue_file) list"

definition temp_name :: "string \<Rightarrow> string" where
  "temp_name fname = ''.'' @ fname @ ''.tmp''"

record enqueue_io =
  eq_open :: bool
  eq_header :: bool
  eq_trailer :: bool
  eq_fsync :: bool
  eq_rename :: bool

text \<open>The result is \<open>None\<close> for \<^verbatim>\<open>elog(ERROR)\<close>, otherwise whether the entry is new.\<close>

definition dpv_queue_enqueue ::
  "enqueue_io \<Rightarrow> DpvFetchEntryHeader \<Rightarrow> u8 list \<Rightarrow> fetch_queue \<Rightarrow> bool option \<times> fetch_queue" where
  "dpv_queue_enqueue io hdr trailer q =
     (let fname = key_to_filename (header_key hdr); tmp = temp_name fname in
      if map_of q fname \<noteq> None then (Some False, q)
      else if \<not> eq_open io then (None, q)
      else if \<not> eq_header io \<or> trailer \<noteq> [] \<and> \<not> eq_trailer io \<or> \<not> eq_fsync io \<or> \<not> eq_rename io then (None, AList.delete tmp q)
      else (Some True, AList.update fname (Entry hdr trailer) (AList.delete tmp q)))"

record DpvFetchEntry =
  en_hdr :: DpvFetchEntryHeader
  en_filename :: string
  en_trailer :: "u8 list"

text \<open>Which system calls of a scan succeed for a file, and whether another worker holds its lock.\<close>

record pop_io =
  pq_open :: "string \<Rightarrow> bool"
  pq_locked :: "string \<Rightarrow> bool"
  pq_read :: "string \<Rightarrow> bool"
  pq_claim :: "string \<Rightarrow> bool"
  pq_trailer :: "string \<Rightarrow> bool"

fun dpv_queue_pop_pending :: "pop_io \<Rightarrow> fetch_queue \<Rightarrow> DpvFetchEntry option \<times> fetch_queue" where
  "dpv_queue_pop_pending io [] = (None, [])"
| "dpv_queue_pop_pending io ((name, f) # q) =
     (if take 1 name = ''.'' \<or> \<not> ends_with ''.entry'' name \<or> \<not> pq_open io name \<or> pq_locked io name \<or> \<not> pq_read io name
      then apsnd (Cons (name, f)) (dpv_queue_pop_pending io q)
      else
        (case f of
           Partial \<Rightarrow> apsnd (Cons (name, f)) (dpv_queue_pop_pending io q)
         | Entry hdr trailer \<Rightarrow>
             if fq_status hdr \<noteq> DPV_FETCH_PENDING \<or> \<not> pq_claim io name
             then apsnd (Cons (name, f)) (dpv_queue_pop_pending io q)
             else
               let hdr = hdr\<lparr>fq_status := DPV_FETCH_FETCHING\<rparr> in
               if trailer \<noteq> [] \<and> \<not> pq_trailer io name
               then apsnd (Cons (name, Entry hdr trailer)) (dpv_queue_pop_pending io q)
               else (Some \<lparr>en_hdr = hdr, en_filename = take 63 name, en_trailer = trailer\<rparr>, (name, Entry hdr trailer) # q)))"

definition dpv_queue_mark :: "bool \<Rightarrow> string \<Rightarrow> DpvFetchStatus \<Rightarrow> fetch_queue \<Rightarrow> fetch_queue" where
  "dpv_queue_mark io_ok name new_status q =
     (if \<not> io_ok then q
      else if new_status = DPV_FETCH_DONE then AList.delete name q
      else (case map_of q name of
              Some (Entry hdr trailer) \<Rightarrow> AList.update name (Entry (hdr\<lparr>fq_status := new_status\<rparr>) trailer) q
            | _ \<Rightarrow> q))"

definition demote :: "string \<times> queue_file \<Rightarrow> string \<times> queue_file" where
  "demote nf =
     (case nf of
        (name, Entry hdr trailer) \<Rightarrow>
          if ends_with ''.entry'' name \<and> fq_status hdr = DPV_FETCH_FETCHING
          then (name, Entry (hdr\<lparr>fq_status := DPV_FETCH_PENDING\<rparr>) trailer) else nf
      | _ \<Rightarrow> nf)"

definition dpv_queue_recover_on_startup :: "fetch_queue \<Rightarrow> fetch_queue" where
  "dpv_queue_recover_on_startup q = map demote (filter (\<lambda>(name, f). \<not> ends_with ''.tmp'' name) q)"

section \<open>The workers\<close>

text \<open>
  \<open>fs_requested\<close> and \<open>fs_fetched\<close> are not in the code: the names that redo has asked for, and those whose files
  were pulled.
\<close>

record fetch_system =
  fs_queue :: fetch_queue
  fs_busy :: "nat \<Rightarrow> DpvFetchEntry option"
  fs_requested :: "string set"
  fs_fetched :: "string set"

text \<open>
  With \<open>calm\<close>, worker 0 starts only while no worker is busy.
\<close>

inductive fetch_step :: "nat \<Rightarrow> bool \<Rightarrow> fetch_system \<Rightarrow> fetch_system \<Rightarrow> bool" for workers calm where
  enqueue: "fq_status hdr = DPV_FETCH_PENDING \<Longrightarrow> dpv_queue_enqueue io hdr trailer (fs_queue s) = (r, q) \<Longrightarrow>
    fetch_step workers calm s (s\<lparr>fs_queue := q,
      fs_requested := (if r = None then fs_requested s else insert (key_to_filename (header_key hdr)) (fs_requested s))\<rparr>)"
| enqueue_crash: "fetch_step workers calm s (s\<lparr>fs_queue := AList.update (temp_name (key_to_filename k)) f (fs_queue s)\<rparr>)"
| pop: "w < workers \<Longrightarrow> fs_busy s w = None \<Longrightarrow> dpv_queue_pop_pending io (fs_queue s) = (e, q) \<Longrightarrow>
    fetch_step workers calm s (s\<lparr>fs_queue := q, fs_busy := (fs_busy s)(w := e)\<rparr>)"
| fetched: "fs_busy s w = Some e \<Longrightarrow>
    fetch_step workers calm s (s\<lparr>fs_queue := dpv_queue_mark ok (en_filename e) DPV_FETCH_DONE (fs_queue s),
      fs_busy := (fs_busy s)(w := None), fs_fetched := insert (en_filename e) (fs_fetched s)\<rparr>)"
| failed: "fs_busy s w = Some e \<Longrightarrow>
    fetch_step workers calm s (s\<lparr>fs_queue := dpv_queue_mark ok (en_filename e) DPV_FETCH_FAILED (fs_queue s),
      fs_busy := (fs_busy s)(w := None)\<rparr>)"
| crash: "fetch_step workers calm s (s\<lparr>fs_busy := (fs_busy s)(w := None)\<rparr>)"
| start_0: "fs_busy s 0 = None \<Longrightarrow> calm \<longrightarrow> fs_busy s = (\<lambda>_. None) \<Longrightarrow>
    fetch_step workers calm s (s\<lparr>fs_queue := dpv_queue_recover_on_startup (fs_queue s)\<rparr>)"

definition empty_system :: fetch_system where
  "empty_system = \<lparr>fs_queue = [], fs_busy = (\<lambda>_. None), fs_requested = {}, fs_fetched = {}\<rparr>"

section \<open>Names\<close>

definition is_hex :: "char \<Rightarrow> bool" where
  "is_hex c \<longleftrightarrow> is_digit c \<or> 97 \<le> (of_char c :: nat) \<and> (of_char c :: nat) < 103"

definition hex_value :: "char \<Rightarrow> nat" where
  "hex_value c = (if is_digit c then of_char c - 48 else of_char c - 87)"

lemma hex_digit_facts: "n < 16 \<Longrightarrow> is_hex (hex_digit n) \<and> hex_value (hex_digit n) = n"
  by (auto simp: hex_digit_def is_hex_def hex_value_def is_digit_def)

lemma hex_chars: "c \<in> set (hex n) \<Longrightarrow> is_hex c"
proof (induction n rule: hex.induct)
  case (1 n)
  then show ?case using hex_digit_facts [of n] hex_digit_facts [of "n mod 16"] by (auto simp: hex.simps [of n] split: if_splits)
qed

lemma hex_folds: "foldl (\<lambda>n c. 16 * n + hex_value c) 0 (hex n) = n"
proof (induction n rule: hex.induct)
  case (1 n)
  then show ?case using hex_digit_facts [of n] hex_digit_facts [of "n mod 16"] by (simp add: hex.simps [of n])
qed

lemma pad_value: "f 0 CHR ''0'' = 0 \<Longrightarrow> foldl f (0 :: nat) (pad n s) = foldl f 0 s"
proof -
  assume z: "f 0 CHR ''0'' = 0"
  have "foldl f 0 (replicate k CHR ''0'') = 0" for k by (induction k) (simp_all add: z)
  then show ?thesis by (simp add: pad_def)
qed

lemma pad_hex_value: "foldl (\<lambda>n c. 16 * n + hex_value c) 0 (pad k (hex n)) = n"
  by (subst pad_value) (simp add: hex_value_def is_digit_def, rule hex_folds)

lemma pad_dec_value: "foldl (\<lambda>n c. 10 * n + digit_value c) 0 (pad k (dec n)) = n"
  by (subst pad_value) (simp add: digit_value_def, rule dec_value)

lemma pad_hex_inj: "pad k (hex m) = pad k (hex n) \<longleftrightarrow> m = n"
  using pad_hex_value by metis

lemma pad_dec_inj: "pad k (dec m) = pad k (dec n) \<longleftrightarrow> m = n"
  using pad_dec_value by metis

lemma not_hex: "\<not> is_hex CHR ''_''" "\<not> is_hex CHR ''.''"
  by (simp_all add: is_hex_def is_digit_def)

lemma pad_chars: "CHR ''_'' \<notin> set (pad k (hex n))" "CHR ''_'' \<notin> set (pad k (dec n))"
  using hex_chars not_hex dec_digits not_digits by (auto simp: pad_def)

lemma field_eq:
  fixes c :: char
  assumes "c \<notin> set xs" "c \<notin> set xs'"
  shows "xs @ c # ys = xs' @ c # ys' \<longleftrightarrow> xs = xs' \<and> ys = ys'"
proof
  assume "xs @ c # ys = xs' @ c # ys'"
  then have "split_char c (xs @ c # ys) = split_char c (xs' @ c # ys')" by (rule arg_cong)
  then show "xs = xs' \<and> ys = ys'" by (simp only: split_char_app [OF assms(1)] split_char_app [OF assms(2)] option.inject prod.inject)
qed simp

lemma unat_inj: "unat a = unat b \<longleftrightarrow> a = (b :: u32)"
  by (auto dest: unsigned_word_eqI)

lemma key_to_filename_inj: "key_to_filename k = key_to_filename k' \<longleftrightarrow> k = k'"
proof
  assume "key_to_filename k = key_to_filename k'"
  then have "key_relid k = key_relid k'" "key_start k = key_start k'" "key_end k = key_end k'" "key_version k = key_version k'"
    "(case key_kind k of DPV_FETCH_KIND_CREATED \<Rightarrow> ''1'' | DPV_FETCH_KIND_REPLACED \<Rightarrow> ''2'')
       = (case key_kind k' of DPV_FETCH_KIND_CREATED \<Rightarrow> ''1'' | DPV_FETCH_KIND_REPLACED \<Rightarrow> ''2'')"
    by (simp_all add: key_to_filename_def field_eq pad_chars pad_hex_inj pad_dec_inj unat_inj)
  moreover from this(5) have "key_kind k = key_kind k'" by (simp split: DpvFetchKind.splits)
  ultimately show "k = k'" by simp
qed simp

lemma hex_length: "n < 16 ^ Suc k \<Longrightarrow> length (hex n) \<le> Suc k"
proof (induction k arbitrary: n)
  case 0
  then show ?case by (simp add: hex.simps [of n])
next
  case (Suc k)
  have "n div 16 < 16 ^ Suc k" using Suc.prems by (simp add: div_less_iff_less_mult mult.commute)
  then show ?case using Suc.IH by (simp add: hex.simps [of n])
qed

lemma dec_length: "n < 10 ^ Suc k \<Longrightarrow> length (dec n) \<le> Suc k"
proof (induction k arbitrary: n)
  case 0
  then show ?case by (simp add: dec.simps [of n])
next
  case (Suc k)
  have "n div 10 < 10 ^ Suc k" using Suc.prems by (simp add: div_less_iff_less_mult mult.commute)
  then show ?case using Suc.IH by (simp add: dec.simps [of n])
qed

text \<open>The name fits into the 64 bytes of \<^verbatim>\<open>DpvFetchEntry\<close>.\<close>

lemma length_key_to_filename: "length (key_to_filename k) = 49"
proof -
  have "unat w < 16 ^ Suc 7" "unat w < 10 ^ Suc 9" for w :: u32 using unsigned_less [of w, where ?'a = nat] by simp_all
  then have "length (pad 8 (hex (unat w))) = 8" "length (pad 10 (dec (unat w))) = 10" for w :: u32
    using hex_length [of "unat w" 7] dec_length [of "unat w" 9] by (simp_all add: pad_def)
  then show ?thesis by (simp add: key_to_filename_def split: DpvFetchKind.split)
qed

lemma ends_with_append [simp]: "ends_with suf (xs @ suf)"
  by (simp add: ends_with_def)

lemma filename_entry: "ends_with ''.entry'' (key_to_filename k)"
  unfolding key_to_filename_def append_assoc [symmetric] by (rule ends_with_append)

lemma filename_not_hidden: "take 1 (key_to_filename k) \<noteq> ''.''"
proof -
  have "pad 8 (hex n) \<noteq> []" for n by (simp add: pad_def hex.simps [of n])
  then obtain c cs where c: "pad 8 (hex (unat (key_relid k))) = c # cs" by (meson neq_Nil_conv)
  have "CHR ''.'' \<notin> set (pad 8 (hex n))" for n using hex_chars not_hex by (auto simp: pad_def)
  then have "c \<noteq> CHR ''.''" using c by (metis list.set_intros(1))
  then show ?thesis by (simp add: key_to_filename_def c)
qed

lemma temp_hidden: "temp_name n \<noteq> key_to_filename k"
  using filename_not_hidden [of k] by (metis append_Cons append_Nil take0 take_Suc_Cons temp_name_def One_nat_def)

lemma filename_not_tmp: "\<not> ends_with ''.tmp'' (key_to_filename k)"
proof -
  have "key_to_filename k \<noteq> xs @ ''.tmp''" for xs
  proof
    assume "key_to_filename k = xs @ ''.tmp''"
    then have "last (key_to_filename k) = CHR ''p''" by simp
    moreover have "last (key_to_filename k) = CHR ''y''" by (simp add: key_to_filename_def)
    ultimately show False by simp
  qed
  then show ?thesis by (metis append_take_drop_id ends_with_def)
qed

lemma take_filename [simp]: "take 63 (key_to_filename k) = key_to_filename k"
  by (simp add: length_key_to_filename)

section \<open>What the operations do to an entry\<close>

definition entry_at :: "fetch_queue \<Rightarrow> string \<Rightarrow> DpvFetchStatus option" where
  "entry_at q name = (case map_of q name of Some (Entry hdr trailer) \<Rightarrow> Some (fq_status hdr) | _ \<Rightarrow> None)"

abbreviation is_name :: "string \<Rightarrow> bool" where
  "is_name name \<equiv> name \<in> range key_to_filename"

definition queue_ok :: "fetch_queue \<Rightarrow> bool" where
  "queue_ok q \<longleftrightarrow> distinct (map fst q)
     \<and> (\<forall>name f. map_of q name = Some f \<and> ends_with ''.entry'' name \<and> take 1 name \<noteq> ''.'' \<longrightarrow> is_name name \<and> f \<noteq> Partial)"

lemma queue_okD: "queue_ok q \<Longrightarrow> map_of q (key_to_filename k) \<noteq> None \<Longrightarrow> entry_at q (key_to_filename k) \<noteq> None"
  using filename_entry [of k] filename_not_hidden [of k]
  by (auto simp: queue_ok_def entry_at_def split: queue_file.splits option.splits) blast

lemma queue_ok_delete: "queue_ok q \<Longrightarrow> queue_ok (AList.delete name q)"
  by (auto simp: queue_ok_def distinct_delete delete_conv' split: if_splits)

lemma queue_ok_update:
  "queue_ok q \<Longrightarrow> is_name name \<and> f \<noteq> Partial \<or> take 1 name = ''.'' \<Longrightarrow> queue_ok (AList.update name f q)"
  by (auto simp: queue_ok_def distinct_update update_conv')

lemma entry_at_delete: "entry_at (AList.delete name q) n = (if n = name then None else entry_at q n)"
  by (simp add: entry_at_def delete_conv')

lemma entry_at_update:
  "entry_at (AList.update name f q) n =
     (if n = name then (case f of Entry hdr trailer \<Rightarrow> Some (fq_status hdr) | Partial \<Rightarrow> None) else entry_at q n)"
  by (simp add: entry_at_def update_conv' split: queue_file.split)

lemma entry_at_temp:
  assumes "is_name n"
  shows "entry_at (AList.update (temp_name m) f q) n = entry_at q n"
proof -
  obtain j where "n = key_to_filename j" using assms by blast
  then show ?thesis using temp_hidden [of m j] by (simp add: entry_at_update)
qed

lemma temp_ok: "take 1 (temp_name n) = ''.''"
  by (simp add: temp_name_def)

lemma enqueue_effect:
  assumes "dpv_queue_enqueue io hdr trailer q = (r, q')" "queue_ok q"
  defines "me \<equiv> key_to_filename (header_key hdr)"
  shows "queue_ok q'"
    and "entry_at q' (key_to_filename k) = (if r = Some True \<and> key_to_filename k = me then Some (fq_status hdr) else entry_at q (key_to_filename k))"
    and "r = Some True \<Longrightarrow> entry_at q me = None" and "r = Some False \<Longrightarrow> entry_at q me \<noteq> None"
proof -
  have cases: "r = Some False \<and> q' = q \<and> map_of q me \<noteq> None \<or> r = None \<and> (q' = q \<or> q' = AList.delete (temp_name me) q)
      \<or> r = Some True \<and> map_of q me = None \<and> q' = AList.update me (Entry hdr trailer) (AList.delete (temp_name me) q)"
    using assms(1) by (auto simp: dpv_queue_enqueue_def Let_def me_def split: if_splits)
  have ok: "queue_ok (AList.update me (Entry hdr trailer) (AList.delete (temp_name me) q))"
    by (rule queue_ok_update [OF queue_ok_delete [OF assms(2)]]) (simp add: me_def)
  show "queue_ok q'" using cases ok assms(2) queue_ok_delete by auto
  show "entry_at q' (key_to_filename k) = (if r = Some True \<and> key_to_filename k = me then Some (fq_status hdr) else entry_at q (key_to_filename k))"
    using cases temp_hidden [of me k] by (auto simp: entry_at_update entry_at_delete)
  show "r = Some True \<Longrightarrow> entry_at q me = None" using cases by (auto simp: entry_at_def)
  show "r = Some False \<Longrightarrow> entry_at q me \<noteq> None" using cases queue_okD [OF assms(2)] by (auto simp: me_def)
qed

lemma mark_effect:
  assumes "queue_ok q" "is_name name"
  shows "queue_ok (dpv_queue_mark ok name st q)"
    and "entry_at (dpv_queue_mark ok name st q) n =
           (if ok \<and> n = name then (if st = DPV_FETCH_DONE \<or> entry_at q name = None then None else Some st) else entry_at q n)"
proof -
  consider (none) "map_of q name = None" | (entry) hdr trailer where "map_of q name = Some (Entry hdr trailer)"
  proof -
    obtain k where k: "name = key_to_filename k" using assms(2) by blast
    show thesis
      using none entry queue_okD [OF assms(1), of k] unfolding k
      by (cases "map_of q (key_to_filename k)") (auto simp: entry_at_def split: queue_file.splits)
  qed
  note cases = this
  show "queue_ok (dpv_queue_mark ok name st q)"
    using cases by cases (use assms in \<open>auto simp: dpv_queue_mark_def intro: queue_ok_delete queue_ok_update\<close>)
  show "entry_at (dpv_queue_mark ok name st q) n =
      (if ok \<and> n = name then (if st = DPV_FETCH_DONE \<or> entry_at q name = None then None else Some st) else entry_at q n)"
    using cases by cases (auto simp: dpv_queue_mark_def entry_at_update entry_at_delete, auto simp: entry_at_def)
qed

text \<open>A scan claims pending entries only, and the one it returns is claimed.\<close>

definition claimed :: "queue_file \<Rightarrow> queue_file option" where
  "claimed f = (case f of
      Entry hdr trailer \<Rightarrow> if fq_status hdr = DPV_FETCH_PENDING then Some (Entry (hdr\<lparr>fq_status := DPV_FETCH_FETCHING\<rparr>) trailer) else None
    | Partial \<Rightarrow> None)"

lemma pop_list:
  "dpv_queue_pop_pending io q = (r, q') \<Longrightarrow>
     list_all2 (\<lambda>(n, f) (n', f'). n' = n \<and> (f' = f \<or> claimed f = Some f')) q q'
   \<and> (\<forall>e. r = Some e \<longrightarrow> (\<exists>i < length q. case q ! i of (n, f) \<Rightarrow> en_filename e = take 63 n \<and> ends_with ''.entry'' n \<and> take 1 n \<noteq> ''.''
        \<and> claimed f = Some (snd (q' ! i))))"
proof (induction q arbitrary: r q')
  case (Cons nf q)
  obtain name f where nf: "nf = (name, f)" by (cases nf)
  obtain r1 q1 where rest: "dpv_queue_pop_pending io q = (r1, q1)" by fastforce
  consider (skip) "r = r1" "q' = (name, f) # q1" | (lost) f' where "claimed f = Some f'" "r = r1" "q' = (name, f') # q1"
    | (got) hdr trailer where "f = Entry hdr trailer" "fq_status hdr = DPV_FETCH_PENDING" "ends_with ''.entry'' name" "take 1 name \<noteq> ''.''"
        "r = Some \<lparr>en_hdr = hdr\<lparr>fq_status := DPV_FETCH_FETCHING\<rparr>, en_filename = take 63 name, en_trailer = trailer\<rparr>"
        "q' = (name, Entry (hdr\<lparr>fq_status := DPV_FETCH_FETCHING\<rparr>) trailer) # q"
    using Cons.prems rest by (auto simp: nf claimed_def Let_def split: if_splits queue_file.splits)
  then show ?case
  proof cases
    case skip
    then show ?thesis using Cons.IH [OF rest] by (force simp: nf)
  next
    case lost
    then show ?thesis using Cons.IH [OF rest] by (force simp: nf)
  next
    case got
    then show ?thesis by (auto simp: nf claimed_def intro!: exI [of _ 0] list_all2_refl)
  qed
qed simp

lemma map_of_pointwise:
  "list_all2 (\<lambda>(n, f) (n', f'). n' = n \<and> R f f') q q' \<Longrightarrow>
     map fst q' = map fst q \<and> rel_option R (map_of q name) (map_of q' name)"
  by (induction rule: list_all2_induct) auto

lemma pop_effect:
  assumes "dpv_queue_pop_pending io q = (r, q')" "queue_ok q"
  shows "queue_ok q'"
    and "entry_at q' n = entry_at q n \<or> entry_at q n = Some DPV_FETCH_PENDING \<and> entry_at q' n = Some DPV_FETCH_FETCHING"
    and "r = Some e \<Longrightarrow> is_name (en_filename e) \<and> entry_at q (en_filename e) = Some DPV_FETCH_PENDING
           \<and> entry_at q' (en_filename e) = Some DPV_FETCH_FETCHING"
proof -
  note list = pop_list [OF assms(1)]
  note point = map_of_pointwise [OF list [THEN conjunct1]]
  have claimed_cases: "(\<exists>hdr trailer. f = Entry hdr trailer \<and> fq_status hdr = DPV_FETCH_PENDING
      \<and> f' = Entry (hdr\<lparr>fq_status := DPV_FETCH_FETCHING\<rparr>) trailer)" if "claimed f = Some f'" for f f'
    using that by (auto simp: claimed_def split: queue_file.splits if_splits)
  show ok: "queue_ok q'"
    unfolding queue_ok_def
  proof (intro conjI allI impI; (elim conjE)?)
    show "distinct (map fst q')" using assms(2) point by (simp add: queue_ok_def)
    fix name f' assume at: "map_of q' name = Some f'" "ends_with ''.entry'' name" "take 1 name \<noteq> ''.''"
    then obtain f where "map_of q name = Some f" "f' = f \<or> claimed f = Some f'" using point [of name] by (auto simp: option_rel_Some2)
    then show "is_name name" "f' \<noteq> Partial" using assms(2) at claimed_cases unfolding queue_ok_def by blast+
  qed
  show "entry_at q' n = entry_at q n \<or> entry_at q n = Some DPV_FETCH_PENDING \<and> entry_at q' n = Some DPV_FETCH_FETCHING"
    using point [of n] by (cases "map_of q n"; cases "map_of q' n") (auto simp: entry_at_def dest: claimed_cases)
  show "is_name (en_filename e) \<and> entry_at q (en_filename e) = Some DPV_FETCH_PENDING
      \<and> entry_at q' (en_filename e) = Some DPV_FETCH_FETCHING" if got: "r = Some e"
  proof -
    from list [THEN conjunct2, rule_format, OF got]
    obtain i where at_i: "i < length q" "case q ! i of (n, f) \<Rightarrow> en_filename e = take 63 n \<and> ends_with ''.entry'' n \<and> take 1 n \<noteq> ''.''
        \<and> claimed f = Some (snd (q' ! i))"
      by (elim exE conjE) (rule that)
    obtain n f where nf: "q ! i = (n, f)" by fastforce
    have i: "i < length q" "q ! i = (n, f)" "en_filename e = take 63 n" "ends_with ''.entry'' n" "take 1 n \<noteq> ''.''"
        "claimed f = Some (snd (q' ! i))"
      using at_i by (simp_all add: nf)
    have at: "map_of q n = Some f" using i(1,2) assms(2) by (metis map_of_eq_Some_iff nth_mem queue_ok_def)
    have "is_name n" using assms(2) at i(4,5) unfolding queue_ok_def by blast
    then have name: "en_filename e = n" using i(3) by (auto simp: length_key_to_filename)
    have "i < length q'" "fst (q' ! i) = n" using i(1,2) list_all2_lengthD [OF list [THEN conjunct1]] list_all2_nthD [OF list [THEN conjunct1] i(1)] by (auto split: prod.splits)
    then have "map_of q' n = Some (snd (q' ! i))" using ok by (metis map_of_eq_Some_iff nth_mem prod.collapse queue_ok_def)
    then show ?thesis using \<open>is_name n\<close> name at claimed_cases [OF i(6)] by (auto simp: entry_at_def)
  qed
qed

lemma map_of_recovered:
  "map_of (dpv_queue_recover_on_startup q) n = (if ends_with ''.tmp'' n then None else map_option (\<lambda>f. snd (demote (n, f))) (map_of q n))"
proof -
  have fst: "fst (demote nf) = fst nf" for nf by (simp add: demote_def split: prod.split queue_file.split)
  show ?thesis
    by (induction q) (auto simp: dpv_queue_recover_on_startup_def fst split: prod.splits)
qed

lemma recover_effect:
  assumes "queue_ok q"
  shows "queue_ok (dpv_queue_recover_on_startup q)"
    and "entry_at (dpv_queue_recover_on_startup q) (key_to_filename k) =
      (if entry_at q (key_to_filename k) = Some DPV_FETCH_FETCHING then Some DPV_FETCH_PENDING else entry_at q (key_to_filename k))"
proof -
  have fst: "fst (demote nf) = fst nf" for nf by (simp add: demote_def split: prod.split queue_file.split)
  then have "map fst (dpv_queue_recover_on_startup q) = map fst (filter (\<lambda>(name, f). \<not> ends_with ''.tmp'' name) q)"
    by (simp add: dpv_queue_recover_on_startup_def)
  then have "distinct (map fst (dpv_queue_recover_on_startup q))" using assms by (simp add: queue_ok_def distinct_map_filter)
  moreover have "snd (demote (n, f)) = Partial \<longleftrightarrow> f = Partial" for n f by (simp add: demote_def split: queue_file.split)
  ultimately show "queue_ok (dpv_queue_recover_on_startup q)"
    using assms unfolding queue_ok_def map_of_recovered by (auto split: if_splits)
  show "entry_at (dpv_queue_recover_on_startup q) (key_to_filename k) =
      (if entry_at q (key_to_filename k) = Some DPV_FETCH_FETCHING then Some DPV_FETCH_PENDING else entry_at q (key_to_filename k))"
    using filename_entry [of k] filename_not_tmp [of k]
    by (auto simp: entry_at_def map_of_recovered demote_def split: option.split queue_file.split)
qed

section \<open>No request is lost\<close>

definition names_kept :: "fetch_queue \<Rightarrow> string set \<Rightarrow> string set \<Rightarrow> bool" where
  "names_kept q requested fetched_names \<longleftrightarrow> queue_ok q \<and> (\<forall>k. entry_at q (key_to_filename k) \<noteq> Some DPV_FETCH_DONE)
     \<and> (\<forall>name \<in> requested. is_name name \<and> (name \<in> fetched_names \<or> entry_at q name \<noteq> None))"

definition requests_kept :: "fetch_system \<Rightarrow> bool" where
  "requests_kept s \<longleftrightarrow> names_kept (fs_queue s) (fs_requested s) (fs_fetched s) \<and> (\<forall>w e. fs_busy s w = Some e \<longrightarrow> is_name (en_filename e))"

definition claims_exclusive :: "fetch_system \<Rightarrow> bool" where
  "claims_exclusive s \<longleftrightarrow>
     (\<forall>w e. fs_busy s w = Some e \<longrightarrow> entry_at (fs_queue s) (en_filename e) = Some DPV_FETCH_FETCHING)
   \<and> (\<forall>w w' e e'. fs_busy s w = Some e \<and> fs_busy s w' = Some e' \<and> en_filename e = en_filename e' \<longrightarrow> w = w')"

text \<open>A change of the queue that removes no name but those of \<open>gone\<close>.\<close>

lemma names_kept_mono:
  assumes "names_kept q R F" "queue_ok q'" "\<And>k. entry_at q' (key_to_filename k) \<noteq> Some DPV_FETCH_DONE"
    and "\<And>k. key_to_filename k \<in> R' \<Longrightarrow> key_to_filename k \<in> F' \<or> entry_at q' (key_to_filename k) \<noteq> None" "R' \<subseteq> insert (key_to_filename added) R"
  shows "names_kept q' R' F'"
proof -
  have "is_name name" if "name \<in> R'" for name using assms(1,5) that unfolding names_kept_def by blast
  then show ?thesis using assms(2-4) unfolding names_kept_def by blast
qed

lemma requests_kept_step:
  assumes "fetch_step workers calm s s'" "requests_kept s"
  shows "requests_kept s'"
  using assms(1)
proof cases
  case (enqueue hdr io trailer r q)
  have kept: "names_kept (fs_queue s) (fs_requested s) (fs_fetched s)" using assms(2) by (simp add: requests_kept_def)
  then have ok: "queue_ok (fs_queue s)" by (simp add: names_kept_def)
  note eff = enqueue_effect [OF enqueue(3) ok]
  have "names_kept q (if r = None then fs_requested s else insert (key_to_filename (header_key hdr)) (fs_requested s)) (fs_fetched s)"
  proof (rule names_kept_mono [OF kept eff(1), where added = "header_key hdr"])
    fix k
    show "entry_at q (key_to_filename k) \<noteq> Some DPV_FETCH_DONE"
      using eff(2) [of k] enqueue(2) kept by (auto simp: names_kept_def)
    show "key_to_filename k \<in> fs_fetched s \<or> entry_at q (key_to_filename k) \<noteq> None"
      if "key_to_filename k \<in> (if r = None then fs_requested s else insert (key_to_filename (header_key hdr)) (fs_requested s))"
      using that eff(2) [of k] eff(4) kept by (cases r) (auto simp: names_kept_def split: if_splits)
  qed auto
  then show ?thesis using assms(2) by (simp add: enqueue(1) requests_kept_def)
next
  case (enqueue_crash k f)
  then show ?thesis
    using assms(2) queue_ok_update [of "fs_queue s" "temp_name (key_to_filename k)" f] temp_ok
    unfolding requests_kept_def names_kept_def by (simp add: entry_at_temp)
next
  case (pop w io e q)
  have ok: "queue_ok (fs_queue s)" using assms(2) by (simp add: requests_kept_def names_kept_def)
  note eff = pop_effect [OF pop(4) ok]
  have "names_kept q (fs_requested s) (fs_fetched s)"
    using assms(2) eff(1,2) unfolding requests_kept_def names_kept_def by (metis DpvFetchStatus.distinct(7) option.inject option.distinct(1))
  then show ?thesis using assms(2) eff(3) by (simp add: pop(1) requests_kept_def)
next
  case (fetched w e ok)
  have "queue_ok (fs_queue s)" "is_name (en_filename e)" using assms(2) fetched(2) by (auto simp: requests_kept_def names_kept_def)
  note eff = mark_effect [OF this, of ok DPV_FETCH_DONE]
  then show ?thesis using assms(2) by (auto simp: fetched(1) requests_kept_def names_kept_def)
next
  case (failed w e ok)
  have "queue_ok (fs_queue s)" "is_name (en_filename e)" using assms(2) failed(2) by (auto simp: requests_kept_def names_kept_def)
  note eff = mark_effect [OF this, of ok DPV_FETCH_FAILED]
  then show ?thesis using assms(2) by (auto simp: failed(1) requests_kept_def names_kept_def)
next
  case (crash w)
  then show ?thesis using assms(2) by (auto simp: requests_kept_def)
next
  case start_0
  have "queue_ok (fs_queue s)" using assms(2) by (auto simp: requests_kept_def names_kept_def)
  note eff = recover_effect [OF this]
  have kept: "names_kept (fs_queue s) (fs_requested s) (fs_fetched s)" using assms(2) by (simp add: requests_kept_def)
  have "names_kept (dpv_queue_recover_on_startup (fs_queue s)) (fs_requested s) (fs_fetched s)"
    by (rule names_kept_mono [OF kept eff(1)]) (use kept in \<open>auto simp: eff(2) names_kept_def\<close>)
  then show ?thesis using assms(2) by (simp add: start_0(1) requests_kept_def)
qed

lemma claims_exclusive_step:
  assumes "fetch_step workers True s s'" "requests_kept s" "claims_exclusive s"
  shows "claims_exclusive s'"
  using assms(1)
proof cases
  case (enqueue hdr io trailer r q)
  have ok: "queue_ok (fs_queue s)" using assms(2) by (simp add: requests_kept_def names_kept_def)
  note eff = enqueue_effect [OF enqueue(3) ok]
  have "entry_at q n = Some DPV_FETCH_FETCHING" if "is_name n" "entry_at (fs_queue s) n = Some DPV_FETCH_FETCHING" for n
    using that eff(2,3) by auto
  then show ?thesis using assms(2,3) by (simp add: enqueue(1) claims_exclusive_def requests_kept_def)
next
  case (enqueue_crash k f)
  then show ?thesis using assms(2,3) by (simp add: claims_exclusive_def requests_kept_def entry_at_temp)
next
  case (pop w io r q)
  have ok: "queue_ok (fs_queue s)" using assms(2) by (simp add: requests_kept_def names_kept_def)
  note eff = pop_effect [OF pop(4) ok]
  show ?thesis
    unfolding claims_exclusive_def
  proof (intro conjI allI impI; (elim conjE)?)
    show "entry_at (fs_queue s') (en_filename e) = Some DPV_FETCH_FETCHING" if "fs_busy s' v = Some e" for v e
      using that assms(3) eff(2) [of "en_filename e"] eff(3) [of e] by (auto simp: pop(1) claims_exclusive_def split: if_splits)
    have differ: "en_filename e \<noteq> en_filename e'" if "fs_busy s v = Some e" "r = Some e'" for v e e'
    proof -
      have "entry_at (fs_queue s) (en_filename e) = Some DPV_FETCH_FETCHING" using assms(3) that(1) by (simp add: claims_exclusive_def)
      then show ?thesis using eff(3) [OF that(2)] by auto
    qed
    fix v v' e e' assume two: "fs_busy s' v = Some e" "fs_busy s' v' = Some e'" "en_filename e = en_filename e'"
    have busy: "fs_busy s' u = (if u = w then r else fs_busy s u)" for u by (simp add: pop(1))
    show "v = v'"
    proof (cases "v = w \<or> v' = w")
      case True
      then show ?thesis using two differ unfolding busy by (metis (no_types))
    next
      case False
      then show ?thesis using two assms(3) unfolding busy claims_exclusive_def by auto
    qed
  qed
next
  case (fetched w e ok)
  have "queue_ok (fs_queue s)" "is_name (en_filename e)" using assms(2) fetched(2) by (auto simp: requests_kept_def names_kept_def)
  note eff = mark_effect [OF this, of ok DPV_FETCH_DONE]
  then show ?thesis using assms(3) fetched(2) by (auto simp: fetched(1) claims_exclusive_def)
next
  case (failed w e ok)
  have "queue_ok (fs_queue s)" "is_name (en_filename e)" using assms(2) failed(2) by (auto simp: requests_kept_def names_kept_def)
  note eff = mark_effect [OF this, of ok DPV_FETCH_FAILED]
  then show ?thesis using assms(3) failed(2) by (auto simp: failed(1) claims_exclusive_def)
next
  case (crash w)
  then show ?thesis using assms(3) by (auto simp: claims_exclusive_def)
next
  case start_0
  then show ?thesis by (simp add: claims_exclusive_def)
qed

lemma kept_reachable:
  assumes "(fetch_step workers calm)\<^sup>*\<^sup>* empty_system s"
  shows "requests_kept s" "calm \<Longrightarrow> claims_exclusive s"
proof -
  have "requests_kept s \<and> (calm \<longrightarrow> claims_exclusive s)"
    using assms
  proof (induction rule: rtranclp_induct)
    case base
    show ?case by (simp add: empty_system_def requests_kept_def names_kept_def queue_ok_def entry_at_def claims_exclusive_def)
  next
    case (step s s')
    have "requests_kept s'" using requests_kept_step [OF step.hyps(2)] step.IH by blast
    moreover have "claims_exclusive s'" if "calm" using claims_exclusive_step [of workers s s'] step that by simp
    ultimately show ?case by blast
  qed
  then show "requests_kept s" "calm \<Longrightarrow> claims_exclusive s" by blast+
qed

text \<open>C18: (invariant) Whatever workers and the server do and wherever they crash, a segment that redo has asked for was fetched
  or still has its entry in the queue; and no entry is in the hands of two workers, as long as worker 0 starts
  only while none is busy.
\<close>

theorem fetch_requests_survive:
  assumes "(fetch_step workers calm)\<^sup>*\<^sup>* empty_system s"
  shows "(\<forall>name \<in> fs_requested s. name \<in> fs_fetched s \<or> entry_at (fs_queue s) name \<noteq> None)
    \<and> (calm \<longrightarrow> (\<forall>w w' e e'. fs_busy s w = Some e \<and> fs_busy s w' = Some e' \<and> en_filename e = en_filename e' \<longrightarrow> w = w'))"
  using kept_reachable [OF assms] unfolding requests_kept_def names_kept_def claims_exclusive_def by blast

definition first_key :: DpvFetchKey where
  "first_key = \<lparr>key_relid = 16, key_start = 3, key_end = 3, key_version = 1, key_kind = DPV_FETCH_KIND_CREATED\<rparr>"

definition first_header :: DpvFetchEntryHeader where
  "first_header = \<lparr>fq_relid = 16, fq_start_sid = 3, fq_end_sid = 3, fq_version = 1, fq_kind = DPV_FETCH_KIND_CREATED,
     fq_source_lsn = 24, fq_status = DPV_FETCH_PENDING\<rparr>"

definition all_good :: pop_io where
  "all_good = \<lparr>pq_open = (\<lambda>_. True), pq_locked = (\<lambda>_. False), pq_read = (\<lambda>_. True), pq_claim = (\<lambda>_. True), pq_trailer = (\<lambda>_. True)\<rparr>"

definition first_entry :: DpvFetchEntry where
  "first_entry = \<lparr>en_hdr = first_header\<lparr>fq_status := DPV_FETCH_FETCHING\<rparr>, en_filename = key_to_filename first_key, en_trailer = []\<rparr>"

lemma first_pending: "fq_status first_header = DPV_FETCH_PENDING"
  by (simp add: first_header_def)

lemma first_pop:
  "dpv_queue_pop_pending all_good [(key_to_filename first_key, Entry first_header [])]
     = (Some first_entry, [(key_to_filename first_key, Entry (first_header\<lparr>fq_status := DPV_FETCH_FETCHING\<rparr>) [])])"
  using filename_entry [of first_key] filename_not_hidden [of first_key]
  by (simp add: all_good_def first_entry_def length_key_to_filename first_pending Let_def)

definition claimed_system :: fetch_system where
  "claimed_system = \<lparr>fs_queue = [(key_to_filename first_key, Entry (first_header\<lparr>fq_status := DPV_FETCH_FETCHING\<rparr>) [])],
     fs_busy = (\<lambda>_. None)(1 := Some first_entry), fs_requested = {key_to_filename first_key}, fs_fetched = {}\<rparr>"

lemma claimed_reachable: "(fetch_step 2 calm)\<^sup>*\<^sup>* empty_system claimed_system"
proof -
  let ?io = "\<lparr>eq_open = True, eq_header = True, eq_trailer = True, eq_fsync = True, eq_rename = True\<rparr>"
  let ?q = "[(key_to_filename first_key, Entry first_header [])]"
  let ?s = "empty_system\<lparr>fs_queue := ?q, fs_requested := {key_to_filename first_key}\<rparr>"
  have key: "header_key first_header = first_key" by (simp add: header_key_def first_header_def first_key_def)
  have "dpv_queue_enqueue ?io first_header [] (fs_queue empty_system) = (Some True, ?q)"
    by (simp add: dpv_queue_enqueue_def empty_system_def key)
  from fetch_step.enqueue [OF first_pending this, of 2 calm] have "fetch_step 2 calm empty_system ?s"
    by (simp add: key empty_system_def)
  moreover have "fetch_step 2 calm ?s claimed_system"
    using fetch_step.pop [of 1 2 ?s all_good "Some first_entry" _ calm] first_pop by (simp add: empty_system_def claimed_system_def)
  ultimately show ?thesis by auto
qed

theorem fetch_requests_survive_witness:
  "key_to_filename first_key \<in> fs_requested claimed_system \<and> key_to_filename first_key \<notin> fs_fetched claimed_system
     \<and> entry_at (fs_queue claimed_system) (key_to_filename first_key) \<noteq> None"
  using fetch_requests_survive [OF claimed_reachable [of True]] by (simp add: claimed_system_def)

text \<open>
  The assumption on worker 0 is needed: when it starts while worker 1 is fetching, it takes the entry of worker 1 for
  an orphan, and both work on the same files. A failed entry stays in the queue for ever and keeps redo from asking
  again.
\<close>

lemma worker_0_takes_over:
  "\<exists>s. (fetch_step 2 False)\<^sup>*\<^sup>* empty_system s \<and> fs_busy s 0 = Some first_entry \<and> fs_busy s 1 = Some first_entry"
proof -
  let ?q = "[(key_to_filename first_key, Entry first_header [])]"
  have demoted: "dpv_queue_recover_on_startup (fs_queue claimed_system) = ?q"
    using filename_entry [of first_key] filename_not_tmp [of first_key]
    by (simp add: dpv_queue_recover_on_startup_def claimed_system_def demote_def first_pending [symmetric])
  have "fetch_step 2 False claimed_system (claimed_system\<lparr>fs_queue := ?q\<rparr>)"
    using fetch_step.start_0 [of claimed_system False 2] by (simp add: demoted) (simp add: claimed_system_def)
  moreover have "fetch_step 2 False (claimed_system\<lparr>fs_queue := ?q\<rparr>)
      (claimed_system\<lparr>fs_busy := (fs_busy claimed_system)(0 := Some first_entry)\<rparr>)"
    using fetch_step.pop [of 0 2 "claimed_system\<lparr>fs_queue := ?q\<rparr>" all_good "Some first_entry" _ False] first_pop
    by (simp add: claimed_system_def)
  ultimately have "(fetch_step 2 False)\<^sup>*\<^sup>* empty_system (claimed_system\<lparr>fs_busy := (fs_busy claimed_system)(0 := Some first_entry)\<rparr>)"
    using claimed_reachable [of False] by (meson rtranclp.rtrancl_into_rtrancl)
  then show ?thesis by (intro exI conjI) (assumption, simp_all add: claimed_system_def)
qed

lemma failed_entry_blocks:
  assumes "queue_ok q" "entry_at q (key_to_filename (header_key hdr)) = Some DPV_FETCH_FAILED"
  shows "dpv_queue_enqueue io hdr trailer q = (Some False, q)"
    and "entry_at (dpv_queue_recover_on_startup q) (key_to_filename (header_key hdr)) = Some DPV_FETCH_FAILED"
    and "dpv_queue_pop_pending pio q = (r, q') \<Longrightarrow> entry_at q' (key_to_filename (header_key hdr)) = Some DPV_FETCH_FAILED"
proof -
  have "map_of q (key_to_filename (header_key hdr)) \<noteq> None" using assms(2) by (auto simp: entry_at_def split: option.splits)
  then show "dpv_queue_enqueue io hdr trailer q = (Some False, q)" by (simp add: dpv_queue_enqueue_def)
  show "entry_at (dpv_queue_recover_on_startup q) (key_to_filename (header_key hdr)) = Some DPV_FETCH_FAILED"
    using recover_effect(2) [OF assms(1)] assms(2) by simp
  show "entry_at q' (key_to_filename (header_key hdr)) = Some DPV_FETCH_FAILED" if p: "dpv_queue_pop_pending pio q = (r, q')"
    using pop_effect(2) [OF p assms(1), of "key_to_filename (header_key hdr)"] assms(2) by auto
qed

section \<open>Every entry is fetched in the end\<close>

definition advances :: "nat \<Rightarrow> bool \<Rightarrow> fetch_system \<Rightarrow> fetch_system \<Rightarrow> bool" where
  "advances workers calm s s' \<longleftrightarrow> (fetch_step workers calm)\<^sup>*\<^sup>* s s' \<and> requests_kept s' \<and> fs_requested s' = fs_requested s
     \<and> fs_fetched s \<subseteq> fs_fetched s'
     \<and> (\<forall>k. entry_at (fs_queue s') (key_to_filename k) = Some DPV_FETCH_FAILED \<longrightarrow> entry_at (fs_queue s) (key_to_filename k) = Some DPV_FETCH_FAILED)"

lemma advances_trans: "advances workers calm s t \<Longrightarrow> advances workers calm t u \<Longrightarrow> advances workers calm s u"
  unfolding advances_def by (auto intro: rtranclp_trans)

lemma advance_fetched:
  assumes "requests_kept s" "fs_busy s w = Some e"
  defines "s' \<equiv> s\<lparr>fs_queue := dpv_queue_mark True (en_filename e) DPV_FETCH_DONE (fs_queue s),
      fs_busy := (fs_busy s)(w := None), fs_fetched := insert (en_filename e) (fs_fetched s)\<rparr>"
  shows "advances workers calm s s'"
    and "entry_at (fs_queue s') n = (if n = en_filename e then None else entry_at (fs_queue s) n)"
proof -
  have step: "fetch_step workers calm s s'" unfolding s'_def by (rule fetch_step.fetched [OF assms(2)])
  have "queue_ok (fs_queue s)" "is_name (en_filename e)" using assms(1,2) by (auto simp: requests_kept_def names_kept_def)
  note eff = mark_effect(2) [OF this, of True DPV_FETCH_DONE]
  show "entry_at (fs_queue s') n = (if n = en_filename e then None else entry_at (fs_queue s) n)" by (simp add: s'_def eff)
  then show "advances workers calm s s'"
    using step requests_kept_step [OF step assms(1)] eff by (auto simp: advances_def s'_def split: if_splits)
qed

lemma workers_finish:
  assumes "finite {w. fs_busy s w \<noteq> None}" "requests_kept s"
  shows "\<exists>s'. advances workers calm s s' \<and> fs_busy s' = (\<lambda>_. None)"
  using assms
proof (induction "card {w. fs_busy s w \<noteq> None}" arbitrary: s)
  case 0
  then have "fs_busy s = (\<lambda>_. None)" by (auto simp: fun_eq_iff)
  then show ?case using "0.prems"(2) by (auto simp: advances_def)
next
  case (Suc n)
  then obtain w e where w: "fs_busy s w = Some e" by (metis (mono_tags, lifting) card.empty empty_Collect_eq nat.distinct(1) not_None_eq)
  define s1 where "s1 = s\<lparr>fs_queue := dpv_queue_mark True (en_filename e) DPV_FETCH_DONE (fs_queue s),
      fs_busy := (fs_busy s)(w := None), fs_fetched := insert (en_filename e) (fs_fetched s)\<rparr>"
  have adv: "advances workers calm s s1" unfolding s1_def by (rule advance_fetched(1) [OF Suc.prems(2) w])
  have set: "{v. fs_busy s1 v \<noteq> None} = {v. fs_busy s v \<noteq> None} - {w}" by (auto simp: s1_def)
  have "n = card {v. fs_busy s1 v \<noteq> None}"
    unfolding set using Suc.hyps(2) Suc.prems(1) w by (simp add: card_Diff_singleton del: not_None_eq)
  moreover have "finite {v. fs_busy s1 v \<noteq> None}" unfolding set using Suc.prems(1) by simp
  ultimately obtain s2 where "advances workers calm s1 s2" "fs_busy s2 = (\<lambda>_. None)"
    using Suc.hyps(1) [of s1] adv unfolding advances_def by blast
  then show ?case using advances_trans [OF adv] by blast
qed

lemma pop_finds:
  assumes "entry_at q (key_to_filename k) = Some DPV_FETCH_PENDING"
  shows "fst (dpv_queue_pop_pending all_good q) \<noteq> None"
proof -
  obtain hdr trailer where "map_of q (key_to_filename k) = Some (Entry hdr trailer)" "fq_status hdr = DPV_FETCH_PENDING"
    using assms by (auto simp: entry_at_def split: option.splits queue_file.splits)
  then have "(key_to_filename k, Entry hdr trailer) \<in> set q" by (simp add: map_of_SomeD)
  then show ?thesis
    using \<open>fq_status hdr = DPV_FETCH_PENDING\<close> filename_entry [of k] filename_not_hidden [of k]
    by (induction q) (auto simp: all_good_def Let_def split: queue_file.splits)
qed

lemma pop_changes_one:
  "dpv_queue_pop_pending all_good q = (r, q') \<Longrightarrow> map_of q' n \<noteq> map_of q n \<Longrightarrow> \<exists>e. r = Some e \<and> en_filename e = take 63 n"
proof (induction q arbitrary: r q')
  case (Cons nf q)
  obtain name f where nf: "nf = (name, f)" by (cases nf)
  obtain r1 q1 where rest: "dpv_queue_pop_pending all_good q = (r1, q1)" by fastforce
  consider (skip) "r = r1" "q' = (name, f) # q1"
    | (got) e f' where "r = Some e" "en_filename e = take 63 name" "q' = (name, f') # q"
    using Cons.prems(1) rest by (auto simp: nf all_good_def Let_def split: if_splits queue_file.splits)
  then show ?case
  proof cases
    case skip
    then show ?thesis using Cons.IH [OF rest] Cons.prems(2) by (auto simp: nf split: if_splits)
  next
    case got
    then show ?thesis using Cons.prems(2) by (auto simp: nf split: if_splits)
  qed
qed simp

lemma queue_drains:
  assumes "requests_kept s" "fs_busy s = (\<lambda>_. None)" "0 < workers"
    and "\<forall>k. entry_at (fs_queue s) (key_to_filename k) \<noteq> Some DPV_FETCH_FETCHING"
  shows "\<exists>s'. advances workers calm s s' \<and> (\<forall>k. entry_at (fs_queue s') (key_to_filename k) \<in> {None, Some DPV_FETCH_FAILED})"
  using assms(1,2,4)
proof (induction "card {k. entry_at (fs_queue s) (key_to_filename k) = Some DPV_FETCH_PENDING}" arbitrary: s rule: less_induct)
  case less
  let ?pend = "\<lambda>s. {k. entry_at (fs_queue s) (key_to_filename k) = Some DPV_FETCH_PENDING}"
  have fin: "finite (?pend s)"
  proof -
    have "key_to_filename ` ?pend s \<subseteq> fst ` set (fs_queue s)"
      by (auto simp: entry_at_def split: option.splits) (metis fst_conv image_eqI map_of_SomeD)
    then have "finite (key_to_filename ` ?pend s)" by (rule finite_subset) simp
    then show ?thesis by (rule finite_imageD) (simp add: inj_on_def key_to_filename_inj)
  qed
  show ?case
  proof (cases "?pend s = {}")
    case True
    have "entry_at (fs_queue s) (key_to_filename k) \<in> {None, Some DPV_FETCH_FAILED}" for k
    proof -
      have "entry_at (fs_queue s) (key_to_filename k) \<noteq> Some DPV_FETCH_PENDING" using True by blast
      moreover have "entry_at (fs_queue s) (key_to_filename k) \<noteq> Some DPV_FETCH_DONE"
        using less.prems(1) by (simp add: requests_kept_def names_kept_def)
      ultimately show ?thesis
        using less.prems(3) by (cases "entry_at (fs_queue s) (key_to_filename k)"; cases "the (entry_at (fs_queue s) (key_to_filename k))") auto
    qed
    then show ?thesis using less.prems(1) by (intro exI [of _ s]) (simp add: advances_def)
  next
    case False
    then obtain k1 where k1: "entry_at (fs_queue s) (key_to_filename k1) = Some DPV_FETCH_PENDING" by blast
    obtain e q where pop: "dpv_queue_pop_pending all_good (fs_queue s) = (Some e, q)"
      using pop_finds [OF k1] by (cases "dpv_queue_pop_pending all_good (fs_queue s)") auto
    have ok: "queue_ok (fs_queue s)" using less.prems(1) by (simp add: requests_kept_def names_kept_def)
    note eff = pop_effect [OF pop ok] 
    define s1 where "s1 = s\<lparr>fs_queue := q, fs_busy := (fs_busy s)(0 := Some e)\<rparr>"
    have step: "fetch_step workers calm s s1"
      unfolding s1_def by (rule fetch_step.pop [OF assms(3) _ pop]) (simp add: less.prems(2))
    have "entry_at (fs_queue s) (key_to_filename k) = Some DPV_FETCH_FAILED" if "entry_at q (key_to_filename k) = Some DPV_FETCH_FAILED" for k
      using that eff(2) [of "key_to_filename k"] by auto
    then have adv1: "advances workers calm s s1"
      using step requests_kept_step [OF step less.prems(1)] by (simp add: advances_def r_into_rtranclp) (simp add: s1_def)
    have busy: "fs_busy s1 0 = Some e" by (simp add: s1_def)
    define s2 where "s2 = s1\<lparr>fs_queue := dpv_queue_mark True (en_filename e) DPV_FETCH_DONE (fs_queue s1),
      fs_busy := (fs_busy s1)(0 := None), fs_fetched := insert (en_filename e) (fs_fetched s1)\<rparr>"
    have kept1: "requests_kept s1" using adv1 by (simp add: advances_def)
    note done_step = advance_fetched [OF kept1 busy, folded s2_def]
    have adv: "advances workers calm s s2" by (rule advances_trans [OF adv1 done_step(1)])
    have at2: "entry_at (fs_queue s2) n = (if n = en_filename e then None else entry_at q n)" for n
      by (simp add: done_step(2)) (simp add: s1_def)
    have other: "entry_at q (key_to_filename k) = entry_at (fs_queue s) (key_to_filename k)" if "key_to_filename k \<noteq> en_filename e" for k
    proof -
      have "map_of q (key_to_filename k) = map_of (fs_queue s) (key_to_filename k)"
      proof (rule ccontr)
        assume "map_of q (key_to_filename k) \<noteq> map_of (fs_queue s) (key_to_filename k)"
        from pop_changes_one [OF pop this] obtain e' where e': "Some e = Some e'" "en_filename e' = take 63 (key_to_filename k)" by blast
        from e'(1) have "e' = e" by (simp only: option.inject)
        then have "en_filename e = key_to_filename k" using e'(2) by (simp only: take_filename)
        then show False using that by (rule notE [rotated, OF sym])
      qed
      then show ?thesis by (simp add: entry_at_def)
    qed
    have pend2: "?pend s2 = ?pend s - {k. key_to_filename k = en_filename e}" using other by (auto simp: at2)
    obtain k0 where k0: "key_to_filename k0 = en_filename e" "k0 \<in> ?pend s" using eff(3) by auto
    have "?pend s2 \<subset> ?pend s" unfolding pend2 using k0 by blast
    then have "card (?pend s2) < card (?pend s)" by (rule psubset_card_mono [OF fin])
    moreover have "fs_busy s2 = (\<lambda>_. None)" by (simp add: s2_def s1_def less.prems(2) fun_upd_idem)
    moreover have "\<forall>k. entry_at (fs_queue s2) (key_to_filename k) \<noteq> Some DPV_FETCH_FETCHING"
      using less.prems(3) other by (auto simp: at2)
    moreover have "requests_kept s2" using adv by (simp add: advances_def)
    ultimately show ?thesis using less.hyps [of s2] advances_trans [OF adv] by blast
  qed
qed

lemma busy_workers: "(fetch_step workers calm)\<^sup>*\<^sup>* empty_system s \<Longrightarrow> fs_busy s w \<noteq> None \<Longrightarrow> w < workers"
proof (induction rule: rtranclp_induct)
  case (step s s')
  from step.hyps(2) show ?case by cases (use step in \<open>auto split: if_splits\<close>)
qed (simp add: empty_system_def)

text \<open>C40: (liveness) From every reachable state, once the busy workers have finished and worker 0 has started anew, the queue can
  be drained: every segment that redo has asked for is fetched, but for those marked as failed before.
\<close>

theorem queued_segments_are_fetched:
  assumes "(fetch_step workers calm)\<^sup>*\<^sup>* empty_system s" "0 < workers"
  shows "\<exists>s'. (fetch_step workers calm)\<^sup>*\<^sup>* s s' \<and> (\<forall>name \<in> fs_requested s.
     name \<in> fs_fetched s' \<or> entry_at (fs_queue s) name = Some DPV_FETCH_FAILED)"
proof -
  have "finite {w. fs_busy s w \<noteq> None}" using busy_workers [OF assms(1)] by (auto intro: finite_subset [of _ "{..<workers}"])
  then obtain s1 where s1: "advances workers calm s s1" "fs_busy s1 = (\<lambda>_. None)"
    using workers_finish kept_reachable(1) [OF assms(1)] by blast
  define s2 where "s2 = s1\<lparr>fs_queue := dpv_queue_recover_on_startup (fs_queue s1)\<rparr>"
  have kept: "requests_kept s1" "queue_ok (fs_queue s1)" using s1(1) by (simp_all add: advances_def requests_kept_def names_kept_def)
  have step: "fetch_step workers calm s1 s2" unfolding s2_def by (rule fetch_step.start_0) (simp_all add: s1(2))
  note demoted = recover_effect(2) [OF kept(2)]
  have adv2: "advances workers calm s1 s2"
    using step requests_kept_step [OF step kept(1)] by (auto simp: advances_def s2_def demoted split: if_splits)
  have "\<forall>k. entry_at (fs_queue s2) (key_to_filename k) \<noteq> Some DPV_FETCH_FETCHING" by (simp add: s2_def demoted)
  moreover have "requests_kept s2" "fs_busy s2 = (\<lambda>_. None)" using adv2 s1(2) by (simp_all add: advances_def s2_def)
  ultimately obtain s3 where s3: "advances workers calm s2 s3" "\<forall>k. entry_at (fs_queue s3) (key_to_filename k) \<in> {None, Some DPV_FETCH_FAILED}"
    using queue_drains assms(2) by blast
  have adv: "advances workers calm s s3" using s1(1) adv2 s3(1) advances_trans by blast
  have "name \<in> fs_fetched s3 \<or> entry_at (fs_queue s) name = Some DPV_FETCH_FAILED" if "name \<in> fs_requested s" for name
  proof -
    have "name \<in> fs_requested s3" using adv that by (simp add: advances_def)
    then have "is_name name" "name \<in> fs_fetched s3 \<or> entry_at (fs_queue s3) name \<noteq> None"
      using adv by (auto simp: advances_def requests_kept_def names_kept_def)
    moreover from this(1) obtain k where k: "name = key_to_filename k" by blast
    moreover have "entry_at (fs_queue s3) (key_to_filename k) \<in> {None, Some DPV_FETCH_FAILED}" using s3(2) by blast
    moreover have "entry_at (fs_queue s3) (key_to_filename k) = Some DPV_FETCH_FAILED \<Longrightarrow> entry_at (fs_queue s) (key_to_filename k) = Some DPV_FETCH_FAILED"
      using adv by (simp add: advances_def)
    ultimately show ?thesis by auto
  qed
  then show ?thesis using adv by (auto simp: advances_def)
qed

theorem queued_segments_are_fetched_witness:
  "\<exists>s'. (fetch_step 2 True)\<^sup>*\<^sup>* claimed_system s' \<and> key_to_filename first_key \<in> fs_fetched s'"
  using queued_segments_are_fetched [OF claimed_reachable [of True]] by (auto simp: claimed_system_def entry_at_def first_header_def)

end
