(* ===== verification/RequestProtocol.thy ===== *)
theory RequestProtocol
  imports TaskRing
begin

text \<open>
  The life of a request: a backend or the startup process writes it to the ring and waits
  (\<^verbatim>\<open>tasksend.c\<close>); the worker takes it from the ring (\<^verbatim>\<open>vector_index_worker_main\<close>, \<^verbatim>\<open>handle_task\<close>) and either starts a
  search or passes a maintenance task to a queue (\<^verbatim>\<open>submit_maintenance_task\<close>); a thread of the maintenance pool
  handles it and reports (\<^verbatim>\<open>maintenance_worker_thread\<close>). What a handler does to a pool is modelled in
  \<open>MaintenanceTasks\<close>; here it only has an outcome.
\<close>

section \<open>Tasks\<close>

record IndexBuildTaskData =
  ib_pgprocno :: nat
  ib_index_relid :: oid
  ib_lsm_idx :: int

record IndexLoadTaskData =
  ld_pgprocno :: nat
  ld_index_relid :: oid
  ld_lsm_idx :: int

record SegmentUpdateTaskData =
  su_pgprocno :: nat
  su_index_relid :: oid
  su_lsm_idx :: int
  su_operation_type :: int
  su_start_sid :: SegmentId
  su_end_sid :: SegmentId
  su_expected_version :: u32
  su_memtable_cover_count :: u8
  su_memtable_cover :: "SegmentId list"
  su_deletion_tids_count :: u32

record InternalUpgradeTaskData =
  up_index_relid :: oid
  up_lsm_idx :: int
  up_segment_idx :: nat
  up_start_sid :: SegmentId
  up_end_sid :: SegmentId
  up_version :: u32
  up_index_type :: IndexType

definition SEGMENT_UPDATE_REGULAR :: int where "SEGMENT_UPDATE_REGULAR = 0"
definition SEGMENT_UPDATE_VACUUM :: int where "SEGMENT_UPDATE_VACUUM = 4"
definition SEGMENT_UPDATE_ADOPT :: int where "SEGMENT_UPDATE_ADOPT = 5"

text \<open>
  The content of a DSM segment, and the tasks of the worker's queue. \<open>mt_origin\<close> is the DSM segment that a task
  was copied from; it is not in the task.
\<close>

datatype dsm_content =
  BuildDsm IndexBuildTaskData | LoadDsm IndexLoadTaskData | UpdateDsm SegmentUpdateTaskData "u8 list"

datatype task_data =
  BuildTask IndexBuildTaskData | LoadTask IndexLoadTaskData | UpdateTask SegmentUpdateTaskData
| UpgradeTask InternalUpgradeTaskData

record MaintenanceTask =
  mt_data :: task_data
  mt_groups :: "DpvVacuumGroup list"
  mt_origin :: "nat option"

fun task_client :: "task_data \<Rightarrow> nat option" where
  "task_client (BuildTask b) = Some (ib_pgprocno b)"
| "task_client (LoadTask l) = Some (ld_pgprocno l)"
| "task_client (UpdateTask u) = Some (su_pgprocno u)"
| "task_client (UpgradeTask u) = None"

definition index_build_dsm :: "nat \<Rightarrow> oid \<Rightarrow> int \<Rightarrow> dsm_content" where
  "index_build_dsm me index_relid lsm_index_idx =
     BuildDsm \<lparr>ib_pgprocno = me, ib_index_relid = index_relid, ib_lsm_idx = lsm_index_idx\<rparr>"

definition index_load_dsm :: "nat \<Rightarrow> oid \<Rightarrow> int \<Rightarrow> dsm_content" where
  "index_load_dsm me index_relid lsm_index_idx =
     LoadDsm \<lparr>ld_pgprocno = me, ld_index_relid = index_relid, ld_lsm_idx = lsm_index_idx\<rparr>"

text \<open>\<^verbatim>\<open>segment_update_blocking\<close> up to the submission. A null pointer or a count of zero is the empty list.\<close>

definition segment_update_dsm ::
  "nat \<Rightarrow> int \<Rightarrow> oid \<Rightarrow> int \<Rightarrow> SegmentId \<Rightarrow> SegmentId \<Rightarrow> u32 \<Rightarrow> SegmentId list \<Rightarrow> DpvVacuumGroup list \<Rightarrow> dsm_content" where
  "segment_update_dsm me lsm_index_idx index_relid operation_type start_sid end_sid expected_version memtable_cover groups =
     (let trailer = pack_groups groups; cover = take (MEMTABLE_NUM + 1) memtable_cover in
      UpdateDsm
        \<lparr>su_pgprocno = me, su_index_relid = index_relid, su_lsm_idx = lsm_index_idx, su_operation_type = operation_type,
         su_start_sid = start_sid, su_end_sid = end_sid, su_expected_version = expected_version,
         su_memtable_cover_count = of_nat (length cover), su_memtable_cover = cover,
         su_deletion_tids_count = of_nat (length trailer)\<rparr>
        trailer)"

fun dsm_client :: "dsm_content \<Rightarrow> nat" where
  "dsm_client (BuildDsm b) = ib_pgprocno b"
| "dsm_client (LoadDsm l) = ld_pgprocno l"
| "dsm_client (UpdateDsm u _) = su_pgprocno u"

fun dsm_task_type :: "dsm_content \<Rightarrow> VectorTaskType" where
  "dsm_task_type (BuildDsm _) = IndexBuildTaskType"
| "dsm_task_type (LoadDsm _) = IndexLoadTaskType"
| "dsm_task_type (UpdateDsm _ _) = SegmentUpdateTaskType"

section \<open>The senders\<close>

text \<open>A process' slot of the result pool; \<open>vr_pairs\<close> is the row count with the ids and distances.\<close>

record 'd VectorSearchResultData =
  vr_status :: int
  vr_pairs :: "'d DistancePair list"
  vr_maint_status :: int
  vr_maint_done :: bool

record ('f, 'd) TaskShmem =
  sm_ring :: "'f RingBufferShmem"
  sm_results :: "nat \<Rightarrow> 'd VectorSearchResultData"
  sm_dsm :: "nat \<Rightarrow> dsm_content option"

abbreviation upd_result ::
  "nat \<Rightarrow> ('d VectorSearchResultData \<Rightarrow> 'd VectorSearchResultData) \<Rightarrow> ('f, 'd) TaskShmem \<Rightarrow> ('f, 'd) TaskShmem" where
  "upd_result p f sm \<equiv> sm\<lparr>sm_results := (sm_results sm)(p := f (sm_results sm p))\<rparr>"

datatype send_error = RingFull | VectorOverrun

text \<open>The length of the query vector is not checked; more than \<open>MAX_DIM\<close> numbers overrun the slot.\<close>

definition vector_search_send ::
  "'f VectorSearchTaskData \<Rightarrow> ('f, 'd) TaskShmem \<Rightarrow> send_error + ('f, 'd) TaskShmem" where
  "vector_search_send t sm =
     (case put_task zero_slot (Some t) (sm_ring sm) of
        None \<Rightarrow> Inl RingFull
      | Some rb \<Rightarrow>
          if length (vs_vector t) > MAX_DIM then Inl VectorOverrun
          else Inr (upd_result (vs_pgprocno t) (\<lambda>r. r\<lparr>vr_status := 0\<rparr>) (sm\<lparr>sm_ring := rb\<rparr>)))"

definition vector_search_get_result :: "nat \<Rightarrow> ('f, 'd) TaskShmem \<Rightarrow> 'd DistancePair list option" where
  "vector_search_get_result me sm =
     (if vr_status (sm_results sm me) = 1 then Some (vr_pairs (sm_results sm me)) else None)"

text \<open>
  \<^verbatim>\<open>submit_and_wait_maintenance\<close> for the DSM segment \<open>h\<close> with content \<open>c\<close>, up to its waiting loop; only updates
  clear the status.
\<close>

definition submit_request :: "nat \<Rightarrow> nat \<Rightarrow> nat \<Rightarrow> dsm_content \<Rightarrow> ('f, 'd) TaskShmem \<Rightarrow> send_error + ('f, 'd) TaskShmem" where
  "submit_request me sz h c sm =
     (let sm = sm\<lparr>sm_dsm := (sm_dsm sm)(h \<mapsto> c)\<rparr>;
          sm = (case c of UpdateDsm _ _ \<Rightarrow> upd_result me (\<lambda>r. r\<lparr>vr_maint_status := 0\<rparr>) sm | _ \<Rightarrow> sm);
          sm = upd_result me (\<lambda>r. r\<lparr>vr_maint_done := False\<rparr>) sm
      in case put_task \<lparr>task_type = dsm_task_type c, dsm_size = sz, dsm_handle = h\<rparr> None (sm_ring sm) of
           None \<Rightarrow> Inl RingFull
         | Some rb \<Rightarrow> Inr (sm\<lparr>sm_ring := rb\<rparr>))"

text \<open>A round of its waiting loop: the status is returned and the DSM segment detached once the flag is set.\<close>

definition finish_request :: "nat \<Rightarrow> nat \<Rightarrow> ('f, 'd) TaskShmem \<Rightarrow> (int \<times> ('f, 'd) TaskShmem) option" where
  "finish_request me h sm =
     (if vr_maint_done (sm_results sm me)
      then Some (vr_maint_status (sm_results sm me), sm\<lparr>sm_dsm := (sm_dsm sm)(h := None)\<rparr>)
      else None)"

section \<open>The worker\<close>

definition MAINTENANCE_TASK_QUEUE_SIZE :: nat where "MAINTENANCE_TASK_QUEUE_SIZE = 1152"

text \<open>
  The copy of a DSM segment into a task. \<open>None\<close> is a task type that does not fit the content, or a read beyond
  the trailer.
\<close>

definition copy_task :: "nat \<Rightarrow> VectorTaskType \<Rightarrow> dsm_content \<Rightarrow> (trailer_error + MaintenanceTask) option" where
  "copy_task h ty c =
     (case (ty, c) of
        (IndexBuildTaskType, BuildDsm b) \<Rightarrow> Some (Inr \<lparr>mt_data = BuildTask b, mt_groups = [], mt_origin = Some h\<rparr>)
      | (IndexLoadTaskType, LoadDsm l) \<Rightarrow> Some (Inr \<lparr>mt_data = LoadTask l, mt_groups = [], mt_origin = Some h\<rparr>)
      | (SegmentUpdateTaskType, UpdateDsm u trailer) \<Rightarrow>
          if su_operation_type u = SEGMENT_UPDATE_ADOPT \<and> su_deletion_tids_count u > 0
          then map_option (map_sum id (\<lambda>gs. \<lparr>mt_data = UpdateTask u, mt_groups = gs, mt_origin = Some h\<rparr>))
                 (parse_groups (take (unat (su_deletion_tids_count u)) trailer))
          else Some (Inr \<lparr>mt_data = UpdateTask u, mt_groups = [], mt_origin = Some h\<rparr>)
      | _ \<Rightarrow> None)"

datatype submit_outcome = TaskQueued "MaintenanceTask list" | TaskDropped | TaskError

definition submit_maintenance_task ::
  "TaskSlot \<Rightarrow> (nat \<Rightarrow> dsm_content option) \<Rightarrow> MaintenanceTask list \<Rightarrow> submit_outcome" where
  "submit_maintenance_task ts dsm queue =
     (if length queue \<ge> MAINTENANCE_TASK_QUEUE_SIZE then TaskDropped
      else
        (case dsm (dsm_handle ts) of
           None \<Rightarrow> TaskError
         | Some c \<Rightarrow>
             (case copy_task (dsm_handle ts) (task_type ts) c of
                Some (Inr t) \<Rightarrow> TaskQueued (queue @ [t])
              | _ \<Rightarrow> TaskError)))"

definition submit_internal_task :: "InternalUpgradeTaskData \<Rightarrow> MaintenanceTask list \<Rightarrow> MaintenanceTask list" where
  "submit_internal_task upg queue =
     (if length queue \<ge> MAINTENANCE_TASK_QUEUE_SIZE then queue
      else queue @ [\<lparr>mt_data = UpgradeTask upg, mt_groups = [], mt_origin = None\<rparr>])"

text \<open>
  The end of a task in \<^verbatim>\<open>maintenance_worker_thread\<close>: the handler's status, when it writes one, and then the flag. A
  task of the worker itself has no client.
\<close>

definition report_status :: "task_data \<Rightarrow> int option \<Rightarrow> ('f, 'd) TaskShmem \<Rightarrow> ('f, 'd) TaskShmem" where
  "report_status d outcome sm =
     (case (task_client d, outcome) of
        (Some p, Some r) \<Rightarrow> upd_result p (\<lambda>v. v\<lparr>vr_maint_status := r\<rparr>) sm
      | _ \<Rightarrow> sm)"

definition report_done :: "task_data \<Rightarrow> ('f, 'd) TaskShmem \<Rightarrow> ('f, 'd) TaskShmem" where
  "report_done d sm =
     (case task_client d of Some p \<Rightarrow> upd_result p (\<lambda>v. v\<lparr>vr_maint_done := True\<rparr>) sm | None \<Rightarrow> sm)"

definition publish_search :: "'f VectorSearchTaskData \<Rightarrow> 'd DistancePair list \<Rightarrow> ('f, 'd) TaskShmem \<Rightarrow> ('f, 'd) TaskShmem" where
  "publish_search t pairs sm =
     upd_result (vs_pgprocno t) (\<lambda>v. v\<lparr>vr_pairs := pairs, vr_status := 1\<rparr>) sm"

section \<open>All processes together\<close>

datatype task_phase = Handling | Handled "int option"

datatype 'f client_state = Idle | WaitMaint nat | WaitSearch "'f VectorSearchTaskData"

text \<open>
  \<open>ts_clients\<close> is where each process stands. \<open>ts_dropped\<close> are the DSM segments whose task met a full queue,
  \<open>ts_log\<close> the outcomes of the tasks, latest first, \<open>ts_answers\<close> the results of searches and \<open>ts_abandoned\<close> the
  processes that gave up a search before they read its result; these four are not in memory.
\<close>

record ('f, 'd) TaskSystem =
  ts_shm :: "('f, 'd) TaskShmem"
  ts_queue :: "MaintenanceTask list"
  ts_running :: "(MaintenanceTask \<times> task_phase) list"
  ts_searches :: "'f VectorSearchTaskData list"
  ts_clients :: "nat \<Rightarrow> 'f client_state"
  ts_dropped :: "nat set"
  ts_log :: "(nat \<times> int option) list"
  ts_answers :: "('f VectorSearchTaskData \<times> 'd DistancePair list) set"
  ts_abandoned :: "nat set"

definition trailer_fits :: "DpvVacuumGroup list \<Rightarrow> bool" where
  "trailer_fits groups \<longleftrightarrow> groups_fit groups \<and> length (pack_groups groups) < 2 ^ 32"

inductive maint_request :: "nat \<Rightarrow> dsm_content \<Rightarrow> bool" for p where
  build_request: "maint_request p (index_build_dsm p relid idx)"
| load_request: "maint_request p (index_load_dsm p relid idx)"
| update_request: "trailer_fits groups \<Longrightarrow> maint_request p (segment_update_dsm p idx relid op a b ver cover groups)"

definition log_outcome :: "nat option \<Rightarrow> int option \<Rightarrow> (nat \<times> int option) list \<Rightarrow> (nat \<times> int option) list" where
  "log_outcome origin outcome xs = (case origin of None \<Rightarrow> xs | Some h \<Rightarrow> (h, outcome) # xs)"

text \<open>
  \<open>n\<close> processes and \<open>threads\<close> maintenance threads. Neither waiting loop checks for interrupts, but between sending a
  search and waiting for it a backend searches the memtables, and an error there (\<^verbatim>\<open>PG_CATCH\<close> in \<^verbatim>\<open>search_lsm_index\<close>) takes
  it out of the search while the task is on its way: \<open>abandon_search\<close>.
\<close>

inductive task_step :: "nat \<Rightarrow> nat \<Rightarrow> ('f, 'd) TaskSystem \<Rightarrow> ('f, 'd) TaskSystem \<Rightarrow> bool" for n threads where
  send_search:
    "p < n \<Longrightarrow> ts_clients s p = Idle \<Longrightarrow> vs_pgprocno t = p \<Longrightarrow> vector_search_send t (ts_shm s) = Inr sm \<Longrightarrow>
     task_step n threads s (s\<lparr>ts_shm := sm, ts_clients := (ts_clients s)(p := WaitSearch t)\<rparr>)"
| send_task:
    "p < n \<Longrightarrow> ts_clients s p = Idle \<Longrightarrow> maint_request p c \<Longrightarrow> sm_dsm (ts_shm s) h = None \<Longrightarrow>
     submit_request p sz h c (ts_shm s) = Inr sm \<Longrightarrow>
     task_step n threads s (s\<lparr>ts_shm := sm, ts_clients := (ts_clients s)(p := WaitMaint h)\<rparr>)"
| start_search:
    "peek_task (sm_ring (ts_shm s)) = Some (ts, t) \<Longrightarrow> task_type ts = VectorSearchTaskType \<Longrightarrow>
     task_step n threads s
       (s\<lparr>ts_shm := (ts_shm s)\<lparr>sm_ring := advance_head (sm_ring (ts_shm s))\<rparr>, ts_searches := t # ts_searches s\<rparr>)"
| queue_task:
    "peek_task (sm_ring (ts_shm s)) = Some (ts, t) \<Longrightarrow> task_type ts \<noteq> VectorSearchTaskType \<Longrightarrow>
     submit_maintenance_task ts (sm_dsm (ts_shm s)) (ts_queue s) = TaskQueued q \<Longrightarrow>
     task_step n threads s
       (s\<lparr>ts_shm := (ts_shm s)\<lparr>sm_ring := advance_head (sm_ring (ts_shm s))\<rparr>, ts_queue := q\<rparr>)"
| drop_task:
    "peek_task (sm_ring (ts_shm s)) = Some (ts, t) \<Longrightarrow> task_type ts \<noteq> VectorSearchTaskType \<Longrightarrow>
     submit_maintenance_task ts (sm_dsm (ts_shm s)) (ts_queue s) = TaskDropped \<Longrightarrow>
     task_step n threads s
       (s\<lparr>ts_shm := (ts_shm s)\<lparr>sm_ring := advance_head (sm_ring (ts_shm s))\<rparr>,
          ts_dropped := insert (dsm_handle ts) (ts_dropped s)\<rparr>)"
| internal_task:
    "task_step n threads s (s\<lparr>ts_queue := submit_internal_task upg (ts_queue s)\<rparr>)"
| take_task:
    "ts_queue s = t # q \<Longrightarrow> length (ts_running s) < threads \<Longrightarrow>
     task_step n threads s (s\<lparr>ts_queue := q, ts_running := (t, Handling) # ts_running s\<rparr>)"
| handle_task:
    "ts_running s = before @ (t, Handling) # after \<Longrightarrow>
     task_step n threads s
       (s\<lparr>ts_shm := report_status (mt_data t) outcome (ts_shm s), ts_running := before @ (t, Handled outcome) # after\<rparr>)"
| finish_task:
    "ts_running s = before @ (t, Handled outcome) # after \<Longrightarrow>
     task_step n threads s
       (s\<lparr>ts_shm := report_done (mt_data t) (ts_shm s), ts_running := before @ after,
          ts_log := log_outcome (mt_origin t) outcome (ts_log s)\<rparr>)"
| finish_search:
    "ts_searches s = before @ t # after \<Longrightarrow>
     task_step n threads s
       (s\<lparr>ts_shm := publish_search t pairs (ts_shm s), ts_searches := before @ after,
          ts_answers := insert (t, pairs) (ts_answers s)\<rparr>)"
| return_status:
    "p < n \<Longrightarrow> ts_clients s p = WaitMaint h \<Longrightarrow> finish_request p h (ts_shm s) = Some (r, sm) \<Longrightarrow>
     task_step n threads s (s\<lparr>ts_shm := sm, ts_clients := (ts_clients s)(p := Idle)\<rparr>)"
| return_result:
    "p < n \<Longrightarrow> ts_clients s p = WaitSearch t \<Longrightarrow> vector_search_get_result p (ts_shm s) = Some pairs \<Longrightarrow>
     task_step n threads s (s\<lparr>ts_clients := (ts_clients s)(p := Idle)\<rparr>)"
| abandon_search:
    "p < n \<Longrightarrow> ts_clients s p = WaitSearch t \<Longrightarrow>
     task_step n threads s (s\<lparr>ts_clients := (ts_clients s)(p := Idle), ts_abandoned := insert p (ts_abandoned s)\<rparr>)"

definition started_system :: "nat \<Rightarrow> 'f VectorSearchTaskData \<Rightarrow> 'd VectorSearchResultData \<Rightarrow> ('f, 'd) TaskSystem" where
  "started_system max_backends t0 r0 =
     \<lparr>ts_shm = \<lparr>sm_ring = ring_buffer_init max_backends t0,
               sm_results = (\<lambda>_. r0\<lparr>vr_status := 0, vr_pairs := [], vr_maint_status := 0, vr_maint_done := False\<rparr>),
               sm_dsm = (\<lambda>_. None)\<rparr>,
      ts_queue = [], ts_running = [], ts_searches = [], ts_clients = (\<lambda>_. Idle), ts_dropped = {}, ts_log = [],
      ts_answers = {}, ts_abandoned = {}\<rparr>"


section \<open>Accounting of requests\<close>

datatype 'f request = MaintReq nat | SearchReq "'f VectorSearchTaskData"

definition item_request :: "TaskSlot \<times> 'f VectorSearchTaskData \<Rightarrow> 'f request" where
  "item_request x = (if task_type (fst x) = VectorSearchTaskType then SearchReq (snd x) else MaintReq (dsm_handle (fst x)))"

definition task_requests :: "MaintenanceTask list \<Rightarrow> 'f request multiset" where
  "task_requests ts = (\<Sum>t \<leftarrow> ts. case mt_origin t of None \<Rightarrow> {#} | Some h \<Rightarrow> {#MaintReq h#})"

text \<open>The requests on their way, wherever they are, and those that the processes wait for.\<close>

definition all_requests :: "('f, 'd) TaskSystem \<Rightarrow> 'f request multiset" where
  "all_requests s = mset (map item_request (ring_items (sm_ring (ts_shm s)))) + task_requests (ts_queue s)
     + task_requests (map fst (ts_running s)) + mset (map SearchReq (ts_searches s))"

definition pending_request :: "('f, 'd) TaskSystem \<Rightarrow> nat \<Rightarrow> 'f request multiset" where
  "pending_request s p =
     (case ts_clients s p of
        Idle \<Rightarrow> {#}
      | WaitMaint h \<Rightarrow> if vr_maint_done (sm_results (ts_shm s) p) \<or> h \<in> ts_dropped s then {#} else {#MaintReq h#}
      | WaitSearch t \<Rightarrow> if vr_status (sm_results (ts_shm s) p) = 1 then {#} else {#SearchReq t#})"

text \<open>Besides, there may be searches on their way of processes that gave up.\<close>

definition orphaned :: "('f, 'd) TaskSystem \<Rightarrow> 'f request multiset \<Rightarrow> bool" where
  "orphaned s M \<longleftrightarrow> (\<forall>x \<in># M. \<exists>t. x = SearchReq t \<and> vs_pgprocno t \<in> ts_abandoned s)"

definition requests_ok :: "nat \<Rightarrow> ('f, 'd) TaskSystem \<Rightarrow> bool" where
  "requests_ok n s \<longleftrightarrow> ring_inv (sm_ring (ts_shm s))
     \<and> (\<exists>M. orphaned s M \<and> all_requests s = (\<Sum>p<n. pending_request s p) + M)
     \<and> (\<forall>p. ts_clients s p \<noteq> Idle \<longrightarrow> p < n)"

definition task_copied :: "('f, 'd) TaskShmem \<Rightarrow> MaintenanceTask \<Rightarrow> bool" where
  "task_copied sm t \<longleftrightarrow>
     (case mt_origin t of
        None \<Rightarrow> task_client (mt_data t) = None
      | Some h \<Rightarrow> \<exists>c. sm_dsm sm h = Some c \<and> copy_task h (dsm_task_type c) c = Some (Inr t))"

definition slot_linked :: "('f, 'd) TaskShmem \<Rightarrow> TaskSlot \<Rightarrow> bool" where
  "slot_linked sm ts \<longleftrightarrow> task_type ts = VectorSearchTaskType
     \<or> (\<exists>c. sm_dsm sm (dsm_handle ts) = Some c \<and> task_type ts = dsm_task_type c)"

definition links_ok :: "('f, 'd) TaskSystem \<Rightarrow> bool" where
  "links_ok s \<longleftrightarrow>
     (\<forall>p h. ts_clients s p = WaitMaint h \<longrightarrow> (\<exists>c. sm_dsm (ts_shm s) h = Some c \<and> maint_request p c))
     \<and> (\<forall>p t. ts_clients s p = WaitSearch t \<longrightarrow> vs_pgprocno t = p)
     \<and> (\<forall>x \<in> set (ring_items (sm_ring (ts_shm s))). slot_linked (ts_shm s) (fst x))
     \<and> (\<forall>t \<in> set (ts_queue s) \<union> fst ` set (ts_running s). task_copied (ts_shm s) t)"

definition phases_of :: "('f, 'd) TaskSystem \<Rightarrow> nat \<Rightarrow> task_phase list" where
  "phases_of s h = map snd (filter (\<lambda>x. mt_origin (fst x) = Some h) (ts_running s))"

definition outcome_status :: "int option \<Rightarrow> int" where
  "outcome_status outcome = (case outcome of None \<Rightarrow> 0 | Some r \<Rightarrow> r)"

definition phases_status :: "task_phase list \<Rightarrow> int" where
  "phases_status phs = (case phs of [Handled outcome] \<Rightarrow> outcome_status outcome | _ \<Rightarrow> 0)"

fun is_update :: "dsm_content option \<Rightarrow> bool" where
  "is_update (Some (UpdateDsm _ _)) = True"
| "is_update _ = False"

text \<open>What the result slot of a waiting process holds.\<close>

definition replies_ok :: "('f, 'd) TaskSystem \<Rightarrow> bool" where
  "replies_ok s \<longleftrightarrow>
     (\<forall>p h. ts_clients s p = WaitMaint h \<longrightarrow> \<not> vr_maint_done (sm_results (ts_shm s) p) \<longrightarrow>
        is_update (sm_dsm (ts_shm s) h) \<longrightarrow> vr_maint_status (sm_results (ts_shm s) p) = phases_status (phases_of s h))
     \<and> (\<forall>p h. ts_clients s p = WaitMaint h \<longrightarrow> vr_maint_done (sm_results (ts_shm s) p) \<longrightarrow>
          (\<exists>outcome. map_of (ts_log s) h = Some outcome \<and> (is_update (sm_dsm (ts_shm s) h) \<longrightarrow>
             vr_maint_status (sm_results (ts_shm s) p) = outcome_status outcome)))
     \<and> (\<forall>p t. ts_clients s p = WaitSearch t \<longrightarrow> p \<notin> ts_abandoned s \<longrightarrow> vr_status (sm_results (ts_shm s) p) = 1 \<longrightarrow>
          (t, vr_pairs (sm_results (ts_shm s) p)) \<in> ts_answers s)
     \<and> (\<forall>h \<in> ts_dropped s. \<exists>p. ts_clients s p = WaitMaint h \<and> \<not> vr_maint_done (sm_results (ts_shm s) p))"

definition task_inv :: "nat \<Rightarrow> ('f, 'd) TaskSystem \<Rightarrow> bool" where
  "task_inv n s \<longleftrightarrow> requests_ok n s \<and> links_ok s \<and> replies_ok s"

lemma task_requests_simps [simp]:
  "task_requests [] = {#}"
  "task_requests (t # ts) = (case mt_origin t of None \<Rightarrow> {#} | Some h \<Rightarrow> {#MaintReq h#}) + task_requests ts"
  "task_requests (ts @ us) = task_requests ts + task_requests us"
  by (simp_all add: task_requests_def)

lemma dsm_client_request: "maint_request p c \<Longrightarrow> dsm_client c = p"
  by (erule maint_request.cases) (simp_all add: index_build_dsm_def index_load_dsm_def segment_update_dsm_def Let_def)

lemma maint_request_copies:
  assumes "maint_request p c"
  obtains t where "copy_task h (dsm_task_type c) c = Some (Inr t)" "mt_origin t = Some h" "task_client (mt_data t) = Some p"
  using assms
proof cases
  case (update_request groups idx relid op a b ver cover)
  let ?tr = "pack_groups groups"
  have "unat (of_nat (length ?tr) :: u32) = length ?tr"
    using update_request(2) by (simp add: trailer_fits_def unat_of_nat32)
  moreover have "parse_groups ?tr = Some (Inr groups)"
  proof -
    have fit: "\<forall>g \<in> set groups. length (vg_tids g) < 2 ^ 32" and n: "length groups < 2 ^ 32"
      using update_request(2) by (simp_all add: trailer_fits_def groups_fit_def)
    obtain k where "scan_groups (length groups) (concat (map pack_group groups)) 0 = Inr k" using scan_fill_packed(1) [OF fit] by blast
    then show ?thesis
      using n scan_fill_packed(2) [OF fit] by (simp add: parse_groups_def pack_groups_def Let_def unat_of_nat32)
  qed
  moreover obtain u where u: "c = UpdateDsm u ?tr" "su_pgprocno u = p" "su_operation_type u = op"
      "su_deletion_tids_count u = of_nat (length ?tr)"
    by (simp add: update_request(1) segment_update_dsm_def Let_def)
  ultimately show ?thesis
  proof (cases "op = SEGMENT_UPDATE_ADOPT \<and> su_deletion_tids_count u > 0")
    case True
    show ?thesis
      by (rule that [of "\<lparr>mt_data = UpdateTask u, mt_groups = groups, mt_origin = Some h\<rparr>"])
        (use True u \<open>parse_groups ?tr = Some (Inr groups)\<close> \<open>unat (of_nat (length ?tr) :: u32) = length ?tr\<close>
          in \<open>simp_all add: copy_task_def\<close>)
  next
    case False
    show ?thesis
      by (rule that [of "\<lparr>mt_data = UpdateTask u, mt_groups = [], mt_origin = Some h\<rparr>"])
        (use False u in \<open>auto simp: copy_task_def\<close>)
  qed
qed (auto simp: copy_task_def index_build_dsm_def index_load_dsm_def intro: that)

lemma copy_task_origin: "copy_task h ty c = Some (Inr t) \<Longrightarrow> mt_origin t = Some h"
  by (auto simp: copy_task_def split: VectorTaskType.splits dsm_content.splits if_splits option.splits)
    (auto simp: map_sum_def split: sum.splits)

lemma sum_pending_upd:
  assumes "p < n" "\<And>q. q \<noteq> p \<Longrightarrow> pending_request s' q = pending_request s q"
  shows "(\<Sum>q<n. pending_request s' q) + pending_request s p = (\<Sum>q<n. pending_request s q) + pending_request s' p"
proof -
  have split: "(\<Sum>q<n. pending_request x q) = pending_request x p + (\<Sum>q\<in>{..<n} - {p}. pending_request x q)" for x
    using assms(1) by (intro sum.remove) simp_all
  have "(\<Sum>q\<in>{..<n} - {p}. pending_request s' q) = (\<Sum>q\<in>{..<n} - {p}. pending_request s q)"
    by (rule sum.cong) (simp_all add: assms(2))
  then show ?thesis unfolding split [of s] split [of s'] by (simp add: ac_simps)
qed

lemma pending_requestD:
  "x \<in># pending_request s p \<Longrightarrow>
     (\<exists>h. ts_clients s p = WaitMaint h \<and> x = MaintReq h \<and> \<not> vr_maint_done (sm_results (ts_shm s) p) \<and> h \<notin> ts_dropped s)
     \<or> (\<exists>t. ts_clients s p = WaitSearch t \<and> x = SearchReq t \<and> vr_status (sm_results (ts_shm s) p) \<noteq> 1)"
  by (cases "ts_clients s p") (auto simp: pending_request_def split: if_splits)

lemma request_owner:
  assumes "requests_ok n s"
  shows "MaintReq h \<in># all_requests s \<Longrightarrow> \<exists>p<n. ts_clients s p = WaitMaint h
      \<and> \<not> vr_maint_done (sm_results (ts_shm s) p) \<and> h \<notin> ts_dropped s"
    and "SearchReq t \<in># all_requests s \<Longrightarrow> vs_pgprocno t \<notin> ts_abandoned s \<Longrightarrow>
      \<exists>p<n. ts_clients s p = WaitSearch t \<and> vr_status (sm_results (ts_shm s) p) \<noteq> 1"
proof -
  obtain M where M: "orphaned s M" and all: "all_requests s = (\<Sum>p<n. pending_request s p) + M"
    using assms by (auto simp: requests_ok_def)
  have mem: "\<exists>p<n. x \<in># pending_request s p"
    if "x \<in># all_requests s" "\<And>t. x = SearchReq t \<Longrightarrow> vs_pgprocno t \<notin> ts_abandoned s" for x
    using that M unfolding all by (auto simp: set_mset_sum orphaned_def)
  show "MaintReq h \<in># all_requests s \<Longrightarrow> \<exists>p<n. ts_clients s p = WaitMaint h
      \<and> \<not> vr_maint_done (sm_results (ts_shm s) p) \<and> h \<notin> ts_dropped s"
    using mem [of "MaintReq h"] by (blast dest: pending_requestD)
  show "SearchReq t \<in># all_requests s \<Longrightarrow> vs_pgprocno t \<notin> ts_abandoned s \<Longrightarrow>
      \<exists>p<n. ts_clients s p = WaitSearch t \<and> vr_status (sm_results (ts_shm s) p) \<noteq> 1"
    using mem [of "SearchReq t"] by (blast dest: pending_requestD)
qed

lemma waiting_unique:
  assumes "links_ok s" "ts_clients s p = WaitMaint h" "ts_clients s q = WaitMaint h"
  shows "p = q"
  using assms dsm_client_request unfolding links_ok_def by (metis option.inject)

lemma request_once:
  assumes "requests_ok n s" "links_ok s"
  shows "count (all_requests s) (MaintReq h) \<le> 1"
proof (cases "\<exists>p. ts_clients s p = WaitMaint h")
  case True
  then obtain p where p: "ts_clients s p = WaitMaint h" by blast
  have le: "count (pending_request s q) (MaintReq h) \<le> (if q = p then 1 else 0)" for q
    using waiting_unique [OF assms(2) p, of q] by (auto simp: pending_request_def split: client_state.splits)
  obtain M where M: "orphaned s M" "all_requests s = (\<Sum>q<n. pending_request s q) + M"
    using assms(1) by (auto simp: requests_ok_def)
  have "MaintReq h \<notin># M" using M(1) by (auto simp: orphaned_def)
  then have "count (all_requests s) (MaintReq h) = (\<Sum>q<n. count (pending_request s q) (MaintReq h))"
    using M(2) by (simp add: count_sum not_in_iff)
  also have "\<dots> \<le> (\<Sum>q<n. if q = p then 1 else 0)" by (rule sum_mono) (rule le)
  also have "\<dots> \<le> 1" by simp
  finally show ?thesis .
next
  case False
  then show ?thesis using request_owner(1) [OF assms(1), of h] by (metis not_in_iff zero_le)
qed

lemma count_running: "count (task_requests (map fst (ts_running s))) (MaintReq h) = length (phases_of s h)"
proof -
  have "count (task_requests (map fst xs)) (MaintReq h) = length (filter (\<lambda>x. mt_origin (fst x) = Some h) xs)"
    for xs :: "(MaintenanceTask \<times> task_phase) list"
    by (induction xs) (auto split: option.splits)
  then show ?thesis by (simp add: phases_of_def)
qed


section \<open>The invariant is kept\<close>

lemma vector_search_sendD:
  assumes "vector_search_send t sm = Inr sm'"
  obtains rb where "put_task zero_slot (Some t) (sm_ring sm) = Some rb"
    "sm' = upd_result (vs_pgprocno t) (\<lambda>r. r\<lparr>vr_status := 0\<rparr>) (sm\<lparr>sm_ring := rb\<rparr>)" "length (vs_vector t) \<le> MAX_DIM"
  using assms that by (auto simp: vector_search_send_def split: option.splits if_splits)

lemma submit_requestD:
  assumes "submit_request p sz h c sm = Inr sm'"
  shows "put_task \<lparr>task_type = dsm_task_type c, dsm_size = sz, dsm_handle = h\<rparr> None (sm_ring sm) = Some (sm_ring sm')"
    "sm_dsm sm' = (sm_dsm sm)(h \<mapsto> c)" "q \<noteq> p \<Longrightarrow> sm_results sm' q = sm_results sm q"
    "\<not> vr_maint_done (sm_results sm' p)" "is_update (Some c) \<Longrightarrow> vr_maint_status (sm_results sm' p) = 0"
    "vr_status (sm_results sm' p) = vr_status (sm_results sm p)" "vr_pairs (sm_results sm' p) = vr_pairs (sm_results sm p)"
  using assms by (cases c; auto simp: submit_request_def Let_def split: option.splits)+

lemma finish_requestD:
  "finish_request p h sm = Some (r, sm') \<longleftrightarrow> vr_maint_done (sm_results sm p) \<and> r = vr_maint_status (sm_results sm p)
     \<and> sm' = sm\<lparr>sm_dsm := (sm_dsm sm)(h := None)\<rparr>"
  by (auto simp: finish_request_def)

lemma report_sel [simp]:
  "sm_ring (report_status d out sm) = sm_ring sm" "sm_dsm (report_status d out sm) = sm_dsm sm"
  "sm_ring (report_done d sm) = sm_ring sm" "sm_dsm (report_done d sm) = sm_dsm sm"
  "sm_ring (publish_search t pairs sm) = sm_ring sm" "sm_dsm (publish_search t pairs sm) = sm_dsm sm"
  "vr_maint_done (sm_results (report_status d out sm) p) = vr_maint_done (sm_results sm p)"
  "vr_status (sm_results (report_status d out sm) p) = vr_status (sm_results sm p)"
  "vr_pairs (sm_results (report_status d out sm) p) = vr_pairs (sm_results sm p)"
  "vr_status (sm_results (report_done d sm) p) = vr_status (sm_results sm p)"
  "vr_pairs (sm_results (report_done d sm) p) = vr_pairs (sm_results sm p)"
  "vr_maint_status (sm_results (report_done d sm) p) = vr_maint_status (sm_results sm p)"
  "vr_maint_done (sm_results (publish_search t pairs sm) p) = vr_maint_done (sm_results sm p)"
  "vr_maint_status (sm_results (publish_search t pairs sm) p) = vr_maint_status (sm_results sm p)"
  by (auto simp: report_status_def report_done_def publish_search_def split: option.splits)

lemma report_results:
  "vr_maint_done (sm_results (report_done d sm) p) \<longleftrightarrow> task_client d = Some p \<or> vr_maint_done (sm_results sm p)"
  "vr_maint_status (sm_results (report_status d out sm) p)
     = (if task_client d = Some p \<and> out \<noteq> None then the out else vr_maint_status (sm_results sm p))"
  "vr_status (sm_results (publish_search t pairs sm) p) = (if vs_pgprocno t = p then 1 else vr_status (sm_results sm p))"
  "vr_pairs (sm_results (publish_search t pairs sm) p) = (if vs_pgprocno t = p then pairs else vr_pairs (sm_results sm p))"
  by (auto simp: report_status_def report_done_def publish_search_def split: option.splits)

lemma linked_mono:
  assumes "\<And>h c. sm_dsm sm h = Some c \<Longrightarrow> sm_dsm sm' h = Some c"
  shows "slot_linked sm ts \<Longrightarrow> slot_linked sm' ts" "task_copied sm t \<Longrightarrow> task_copied sm' t"
  using assms by (auto simp: slot_linked_def task_copied_def split: option.splits)

lemma linked_cong:
  assumes "sm_dsm sm' = sm_dsm sm"
  shows "slot_linked sm' = slot_linked sm" "task_copied sm' = task_copied sm"
  by (rule ext, simp only: slot_linked_def task_copied_def assms)+

text \<open>The head of the ring and what follows it.\<close>

lemma peek_taskD:
  assumes "ring_inv rb" "peek_task rb = Some x"
  obtains xs where "ring_items rb = x # xs" "ring_inv (advance_head rb)" "ring_items (advance_head rb) = xs"
  using assms peek_task_items [OF assms(1)] advance_head_items [OF assms(1)] that by (cases "ring_items rb") auto

lemma submit_outcomeD:
  "submit_maintenance_task ts dsm q = TaskQueued q' \<Longrightarrow>
     \<exists>c t. dsm (dsm_handle ts) = Some c \<and> copy_task (dsm_handle ts) (task_type ts) c = Some (Inr t) \<and> q' = q @ [t]"
  by (auto simp: submit_maintenance_task_def split: if_splits option.splits sum.splits)

lemma links_okD:
  assumes "links_ok s"
  shows "ts_clients s p = WaitMaint h \<Longrightarrow> \<exists>c. sm_dsm (ts_shm s) h = Some c \<and> maint_request p c"
    "ts_clients s p = WaitSearch t \<Longrightarrow> vs_pgprocno t = p"
    "x \<in> set (ring_items (sm_ring (ts_shm s))) \<Longrightarrow> slot_linked (ts_shm s) (fst x)"
    "u \<in> set (ts_queue s) \<union> fst ` set (ts_running s) \<Longrightarrow> task_copied (ts_shm s) u"
  using assms unfolding links_ok_def by blast+

lemma links_okI:
  assumes "\<And>p h. ts_clients s p = WaitMaint h \<Longrightarrow> \<exists>c. sm_dsm (ts_shm s) h = Some c \<and> maint_request p c"
    "\<And>p t. ts_clients s p = WaitSearch t \<Longrightarrow> vs_pgprocno t = p"
    "\<And>x. x \<in> set (ring_items (sm_ring (ts_shm s))) \<Longrightarrow> slot_linked (ts_shm s) (fst x)"
    "\<And>t. t \<in> set (ts_queue s) \<union> fst ` set (ts_running s) \<Longrightarrow> task_copied (ts_shm s) t"
  shows "links_ok s"
  using assms unfolding links_ok_def by blast

lemma task_owner:
  assumes "requests_ok n s" "links_ok s" "mt_origin t = Some h" "t \<in> set (ts_queue s) \<union> fst ` set (ts_running s)"
    "MaintReq h \<in># all_requests s"
  obtains p c where "p < n" "ts_clients s p = WaitMaint h" "\<not> vr_maint_done (sm_results (ts_shm s) p)" "h \<notin> ts_dropped s"
    "sm_dsm (ts_shm s) h = Some c" "task_client (mt_data t) = Some p"
proof -
  obtain p where p: "p < n" "ts_clients s p = WaitMaint h" "\<not> vr_maint_done (sm_results (ts_shm s) p)" "h \<notin> ts_dropped s"
    using request_owner(1) [OF assms(1,5)] by blast
  have "task_copied (ts_shm s) t" using assms(2,4) by (simp only: links_ok_def)
  then obtain c where c: "sm_dsm (ts_shm s) h = Some c" "copy_task h (dsm_task_type c) c = Some (Inr t)"
    using assms(3) by (auto simp: task_copied_def)
  have "maint_request p c" using links_okD(1) [OF assms(2) p(2)] c(1) by auto
  then obtain t' where "copy_task h (dsm_task_type c) c = Some (Inr t')" "task_client (mt_data t') = Some p"
    by (rule maint_request_copies)
  with c have "task_client (mt_data t) = Some p" by simp
  with p c(1) show ?thesis by (rule that)
qed

lemma task_in_requests: "t \<in> set xs \<Longrightarrow> mt_origin t = Some h \<Longrightarrow> MaintReq h \<in># task_requests xs"
  by (induction xs) (auto split: option.splits)

lemma running_request:
  assumes "t \<in> set (ts_queue s) \<union> fst ` set (ts_running s)" "mt_origin t = Some h"
  shows "MaintReq h \<in># all_requests s"
  using assms(1) task_in_requests [OF _ assms(2), of "ts_queue s"] task_in_requests [OF _ assms(2), of "map fst (ts_running s)"]
  unfolding all_requests_def set_mset_union set_map by blast

lemma task_copied_internal: "task_copied sm t \<Longrightarrow> mt_origin t = None \<Longrightarrow> task_client (mt_data t) = None"
  by (simp add: task_copied_def)

lemma links_frame:
  assumes "links_ok s" "ts_clients s' = ts_clients s" "sm_dsm (ts_shm s') = sm_dsm (ts_shm s)"
    and "set (ring_items (sm_ring (ts_shm s'))) \<subseteq> set (ring_items (sm_ring (ts_shm s)))"
    and "\<And>t. t \<in> set (ts_queue s') \<union> fst ` set (ts_running s') \<Longrightarrow>
           t \<in> set (ts_queue s) \<union> fst ` set (ts_running s) \<or> task_copied (ts_shm s) t"
  shows "links_ok s'"
proof (rule links_okI)
  note same = linked_cong [OF assms(3)]
  show "\<exists>c. sm_dsm (ts_shm s') h = Some c \<and> maint_request p c" if "ts_clients s' p = WaitMaint h" for p h
    using links_okD(1) [OF assms(1)] that by (simp add: assms(2,3))
  show "vs_pgprocno t = p" if "ts_clients s' p = WaitSearch t" for p t
    using links_okD(2) [OF assms(1)] that by (simp add: assms(2))
  show "slot_linked (ts_shm s') (fst x)" if "x \<in> set (ring_items (sm_ring (ts_shm s')))" for x
    using links_okD(3) [OF assms(1)] that assms(4) unfolding same by blast
  show "task_copied (ts_shm s') t" if "t \<in> set (ts_queue s') \<union> fst ` set (ts_running s')" for t
    using links_okD(4) [OF assms(1)] assms(5) [OF that] unfolding same by blast
qed

lemma links_step:
  assumes "task_step n threads s s'" "requests_ok n s" "links_ok s"
  shows "links_ok s'"
  using assms(1)
proof cases
  case (send_search p t sm)
  obtain rb where rb: "put_task zero_slot (Some t) (sm_ring (ts_shm s)) = Some rb"
    "sm = upd_result (vs_pgprocno t) (\<lambda>r. r\<lparr>vr_status := 0\<rparr>) ((ts_shm s)\<lparr>sm_ring := rb\<rparr>)"
    by (rule vector_search_sendD [OF send_search(5)])
  have "ring_items rb = ring_items (sm_ring (ts_shm s)) @ [(zero_slot, t)]"
    using put_task_items [OF _ rb(1)] assms(2) by (simp add: requests_ok_def)
  moreover have "slot_linked sm zero_slot" by (simp add: slot_linked_def zero_slot_def)
  moreover have "slot_linked sm = slot_linked (ts_shm s)" "task_copied sm = task_copied (ts_shm s)"
    by (rule linked_cong, simp add: rb(2))+
  ultimately show ?thesis using assms(3) send_search(1,3,4) rb(2) by (auto simp: links_ok_def)
next
  case (send_task p c h sz sm)
  note rb = submit_requestD(1) [OF send_task(6)] refl [of "sm_ring sm"] submit_requestD(2) [OF send_task(6)]
  let ?slot = "\<lparr>task_type = dsm_task_type c, dsm_size = sz, dsm_handle = h\<rparr>"
  have mono: "sm_dsm (ts_shm s) h' = Some c' \<Longrightarrow> sm_dsm sm h' = Some c'" for h' c' using send_task(5) rb(3) by auto
  note keep = linked_mono [of "ts_shm s" sm, OF mono]
  have new: "slot_linked sm ?slot" by (simp add: slot_linked_def rb(3))
  show ?thesis
  proof (rule links_okI)
    show "\<exists>c. sm_dsm (ts_shm s') h' = Some c \<and> maint_request q c" if "ts_clients s' q = WaitMaint h'" for q h'
      using that links_okD(1) [OF assms(3), of q h'] send_task(4,5)
      by (cases "q = p") (auto simp: send_task(1) rb(3) split: if_splits)
    show "vs_pgprocno t = q" if "ts_clients s' q = WaitSearch t" for q t
      using that links_okD(2) [OF assms(3), of q t] by (cases "q = p") (simp_all add: send_task(1))
    show "slot_linked (ts_shm s') (fst x)" if "x \<in> set (ring_items (sm_ring (ts_shm s')))" for x
    proof (cases "x \<in> set (ring_items (sm_ring (ts_shm s)))")
      case True
      then show ?thesis using keep(1) links_okD(3) [OF assms(3)] by (simp add: send_task(1))
    next
      case False
      then have "fst x = ?slot"
        using that put_task_items [OF _ rb(1)] assms(2) by (auto simp: send_task(1) requests_ok_def)
      then show ?thesis using new by (simp add: send_task(1))
    qed
    show "task_copied (ts_shm s') t" if "t \<in> set (ts_queue s') \<union> fst ` set (ts_running s')" for t
    proof -
      have "task_copied (ts_shm s) t" by (rule links_okD(4) [OF assms(3)]) (use that in \<open>simp add: send_task(1)\<close>)
      then show ?thesis unfolding send_task(1) by (simp add: keep(2))
    qed
  qed
next
  case (start_search ts t)
  obtain xs where "ring_items (sm_ring (ts_shm s)) = (ts, t) # xs" "ring_items (advance_head (sm_ring (ts_shm s))) = xs"
    using peek_taskD [OF _ start_search(2)] assms(2) unfolding requests_ok_def by metis
  then show ?thesis by (intro links_frame [OF assms(3)]) (auto simp: start_search(1))
next
  case (queue_task ts t q)
  obtain xs where xs: "ring_items (sm_ring (ts_shm s)) = (ts, t) # xs" "ring_items (advance_head (sm_ring (ts_shm s))) = xs"
    using peek_taskD [OF _ queue_task(2)] assms(2) unfolding requests_ok_def by metis
  obtain c u where u: "sm_dsm (ts_shm s) (dsm_handle ts) = Some c" "copy_task (dsm_handle ts) (task_type ts) c = Some (Inr u)"
    "q = ts_queue s @ [u]" using submit_outcomeD [OF queue_task(4)] by blast
  have "slot_linked (ts_shm s) ts" using links_okD(3) [OF assms(3), of "(ts, t)"] xs(1) by simp
  then have "task_copied (ts_shm s) u"
    using u queue_task(3) copy_task_origin [OF u(2)] by (auto simp: slot_linked_def task_copied_def)
  then show ?thesis by (intro links_frame [OF assms(3)]) (use xs u(3) in \<open>auto simp: queue_task(1)\<close>)
next
  case (drop_task ts t)
  obtain xs where "ring_items (sm_ring (ts_shm s)) = (ts, t) # xs" "ring_items (advance_head (sm_ring (ts_shm s))) = xs"
    using peek_taskD [OF _ drop_task(2)] assms(2) unfolding requests_ok_def by metis
  then show ?thesis by (intro links_frame [OF assms(3)]) (auto simp: drop_task(1))
next
  case (internal_task upg)
  show ?thesis
    by (rule links_frame [OF assms(3)])
      (auto simp: internal_task submit_internal_task_def task_copied_def split: if_splits)
next
  case (take_task t q)
  show ?thesis by (rule links_frame [OF assms(3)]) (auto simp: take_task)
next
  case (handle_task before t after outcome)
  show ?thesis by (rule links_frame [OF assms(3)]) (auto simp: handle_task)
next
  case (finish_task before t outcome after)
  show ?thesis by (rule links_frame [OF assms(3)]) (auto simp: finish_task)
next
  case (finish_search before t after pairs)
  show ?thesis by (rule links_frame [OF assms(3)]) (auto simp: finish_search)
next
  case (return_status p h r sm)
  have sm: "sm = (ts_shm s)\<lparr>sm_dsm := (sm_dsm (ts_shm s))(h := None)\<rparr>" "vr_maint_done (sm_results (ts_shm s) p)"
    using return_status(4) by (simp_all add: finish_requestD)
  have gone: "MaintReq h \<notin># all_requests s"
    using request_owner(1) [OF assms(2)] waiting_unique [OF assms(3) return_status(3)] sm(2) by blast
  have "slot_linked sm (fst x)" if "x \<in> set (ring_items (sm_ring (ts_shm s)))" for x
  proof -
    have "item_request x \<in># all_requests s" using that by (simp add: all_requests_def)
    then have "task_type (fst x) = VectorSearchTaskType \<or> dsm_handle (fst x) \<noteq> h" using gone by (auto simp: item_request_def)
    then show ?thesis using assms(3) that by (auto simp: links_ok_def slot_linked_def sm(1))
  qed
  moreover have "task_copied sm t" if "t \<in> set (ts_queue s) \<union> fst ` set (ts_running s)" for t
  proof -
    have "mt_origin t \<noteq> Some h" using gone running_request [OF that] by blast
    moreover have "task_copied (ts_shm s) t" using assms(3) that by (simp only: links_ok_def)
    ultimately show ?thesis by (auto simp: task_copied_def sm(1) split: option.splits)
  qed
  moreover have "\<exists>c. sm_dsm sm h' = Some c \<and> maint_request q c" if "ts_clients s q = WaitMaint h'" "q \<noteq> p" for q h'
    using assms(3) that waiting_unique [OF assms(3) return_status(3), of q] by (auto simp: links_ok_def sm(1))
  ultimately show ?thesis
    using links_okD(2) [OF assms(3)] unfolding links_ok_def return_status(1) by (auto simp: sm(1))
next
  case (return_result p t pairs)
  show ?thesis
    by (rule links_okI) (use links_okD [OF assms(3)] in \<open>simp_all add: return_result(1) split: if_splits\<close>)
next
  case (abandon_search p t)
  show ?thesis
    by (rule links_okI) (use links_okD [OF assms(3)] in \<open>simp_all add: abandon_search(1) split: if_splits\<close>)
qed


lemma pending_eqI:
  assumes "ts_clients s' p = ts_clients s p" "ts_dropped s' = ts_dropped s"
    "vr_maint_done (sm_results (ts_shm s') p) = vr_maint_done (sm_results (ts_shm s) p)"
    "vr_status (sm_results (ts_shm s') p) = vr_status (sm_results (ts_shm s) p)"
  shows "pending_request s' p = pending_request s p"
  by (simp only: pending_request_def assms)

lemma requests_one:
  assumes "requests_ok n s" "p < n" "ring_inv (sm_ring (ts_shm s'))" "\<And>q. q \<noteq> p \<Longrightarrow> pending_request s' q = pending_request s q"
    and "all_requests s' + pending_request s p = all_requests s + pending_request s' p"
    and "\<And>q. q \<noteq> p \<Longrightarrow> ts_clients s' q \<noteq> Idle \<Longrightarrow> ts_clients s q \<noteq> Idle" and "ts_abandoned s' = ts_abandoned s"
  shows "requests_ok n s'"
proof -
  obtain M where M: "orphaned s M" "all_requests s = (\<Sum>q<n. pending_request s q) + M"
    using assms(1) by (auto simp: requests_ok_def)
  have "all_requests s' + pending_request s p = (\<Sum>q<n. pending_request s' q) + M + pending_request s p"
    using sum_pending_upd [OF assms(2), of s' s] assms(4,5) M(2) by (simp add: ac_simps)
  then have "all_requests s' = (\<Sum>q<n. pending_request s' q) + M" by simp
  moreover have "orphaned s' M" using M(1) assms(7) by (simp add: orphaned_def)
  moreover have "q < n" if "ts_clients s' q \<noteq> Idle" for q
    using assms(1,2) assms(6) [OF _ that] by (cases "q = p") (auto simp: requests_ok_def)
  ultimately show ?thesis using assms(3) by (auto simp: requests_ok_def)
qed

text \<open>A process that gives up, and the end of a search that nobody waits for.\<close>

lemma requests_abandon:
  assumes "requests_ok n s" "links_ok s" "p < n" "ts_clients s p = WaitSearch t"
  shows "requests_ok n (s\<lparr>ts_clients := (ts_clients s)(p := Idle), ts_abandoned := insert p (ts_abandoned s)\<rparr>)"
    (is "requests_ok n ?s")
proof -
  obtain M where M: "orphaned s M" "all_requests s = (\<Sum>q<n. pending_request s q) + M"
    using assms(1) by (auto simp: requests_ok_def)
  have other: "pending_request ?s q = pending_request s q" if "q \<noteq> p" for q
    by (rule pending_eqI) (use that in simp_all)
  have gone: "pending_request ?s p = {#}" by (simp add: pending_request_def)
  have "(\<Sum>q<n. pending_request ?s q) + pending_request s p = (\<Sum>q<n. pending_request s q)"
    using sum_pending_upd [OF assms(3), of ?s s] other gone by simp
  then have "all_requests ?s = (\<Sum>q<n. pending_request ?s q) + (pending_request s p + M)"
    using M(2) by (simp add: all_requests_def ac_simps)
  moreover have "orphaned ?s (pending_request s p + M)"
    using M(1) assms(4) links_okD(2) [OF assms(2,4)] by (auto simp: orphaned_def pending_request_def split: if_splits)
  ultimately show ?thesis using assms(1) by (auto simp: requests_ok_def)
qed

lemma requests_finish_search:
  assumes "requests_ok n s" "links_ok s" and searches: "ts_searches s = before @ t # after"
  shows "requests_ok n (s\<lparr>ts_shm := publish_search t pairs (ts_shm s), ts_searches := before @ after,
      ts_answers := insert (t, pairs) (ts_answers s)\<rparr>)" (is "requests_ok n ?s")
proof -
  let ?p = "vs_pgprocno t"
  obtain M where M: "orphaned s M" "all_requests s = (\<Sum>q<n. pending_request s q) + M"
    using assms(1) by (auto simp: requests_ok_def)
  have all: "all_requests s = add_mset (SearchReq t) (all_requests ?s)" by (simp add: all_requests_def searches)
  have other: "pending_request ?s q = pending_request s q" if "q \<noteq> ?p" for q
    by (rule pending_eqI) (use that in \<open>simp_all add: report_results\<close>)
  have frame: "ring_inv (sm_ring (ts_shm ?s))" "\<forall>q. ts_clients ?s q \<noteq> Idle \<longrightarrow> q < n" "orphaned ?s = orphaned s"
    using assms(1) by (auto simp: requests_ok_def orphaned_def fun_eq_iff)
  have "\<exists>N. orphaned s N \<and> all_requests ?s = (\<Sum>q<n. pending_request ?s q) + N"
  proof (cases "\<exists>u. ts_clients s ?p = WaitSearch u")
    case False
    then have "pending_request ?s ?p = pending_request s ?p"
      by (cases "ts_clients s ?p") (simp_all add: pending_request_def)
    then have same: "pending_request ?s = pending_request s" using other by (intro ext) metis
    have "SearchReq t \<notin># pending_request s q" for q
      using False links_okD(2) [OF assms(2), of q t] by (auto dest!: pending_requestD)
    then have "SearchReq t \<notin># (\<Sum>q<n. pending_request s q)" by (auto simp: set_mset_sum)
    moreover have "SearchReq t \<in># (\<Sum>q<n. pending_request s q) + M" unfolding M(2) [symmetric] all by simp
    ultimately have "SearchReq t \<in># M" by simp
    then have "M = add_mset (SearchReq t) (M - {#SearchReq t#})" by simp
    then have "all_requests ?s = (\<Sum>q<n. pending_request ?s q) + (M - {#SearchReq t#})"
      using all M(2) unfolding same by (metis add_mset_add_mset_same_iff union_mset_add_mset_right)
    moreover have "orphaned s (M - {#SearchReq t#})" using M(1) by (auto simp: orphaned_def dest: in_diffD)
    ultimately show ?thesis by blast
  next
    case True
    then obtain u where u: "ts_clients s ?p = WaitSearch u" by blast
    then have p: "?p < n" using assms(1) by (auto simp: requests_ok_def)
    have gone: "pending_request ?s ?p = {#}" by (simp add: pending_request_def u report_results)
    have sum: "(\<Sum>q<n. pending_request ?s q) + pending_request s ?p = (\<Sum>q<n. pending_request s q)"
      using sum_pending_upd [OF p, of ?s s] other gone by simp
    have N: "all_requests s = (\<Sum>q<n. pending_request ?s q) + (pending_request s ?p + M)"
      using M(2) sum by (simp add: ac_simps)
    have "SearchReq t \<notin># pending_request ?s q" for q
    proof (cases "q = ?p")
      case False
      then show ?thesis using other [OF False] links_okD(2) [OF assms(2), of q t] by (auto dest!: pending_requestD)
    qed (simp add: gone)
    then have "SearchReq t \<notin># (\<Sum>q<n. pending_request ?s q)" by (auto simp: set_mset_sum)
    moreover have "SearchReq t \<in># (\<Sum>q<n. pending_request ?s q) + (pending_request s ?p + M)"
      unfolding N [symmetric] all by simp
    ultimately have "SearchReq t \<in># pending_request s ?p + M" unfolding union_iff by blast
    then obtain N where split: "pending_request s ?p + M = add_mset (SearchReq t) N" by (metis insert_DiffM)
    have "orphaned s N"
    proof (cases "?p \<in> ts_abandoned s")
      case True
      then have "orphaned s (pending_request s ?p + M)"
        using M(1) u links_okD(2) [OF assms(2) u] by (auto simp: orphaned_def pending_request_def split: if_splits)
      then show ?thesis unfolding split by (simp add: orphaned_def)
    next
      case False
      then have "SearchReq t \<notin># M" using M(1) by (auto simp: orphaned_def)
      then have "SearchReq t \<in># pending_request s ?p" using \<open>SearchReq t \<in># pending_request s ?p + M\<close> by simp
      then have "pending_request s ?p = {#SearchReq t#}" using u by (auto simp: pending_request_def split: if_splits)
      then have "N = M" using split by simp
      then show ?thesis using M(1) by simp
    qed
    moreover have "all_requests ?s = (\<Sum>q<n. pending_request ?s q) + N" using all N unfolding split by simp
    ultimately show ?thesis by blast
  qed
  with frame show ?thesis unfolding requests_ok_def by simp
qed

lemma requests_same:
  assumes "requests_ok n s" "ring_inv (sm_ring (ts_shm s'))" "all_requests s' = all_requests s"
    "ts_clients s' = ts_clients s" "ts_dropped s' = ts_dropped s" "ts_abandoned s' = ts_abandoned s"
    "\<And>p. vr_maint_done (sm_results (ts_shm s') p) = vr_maint_done (sm_results (ts_shm s) p)"
    "\<And>p. vr_status (sm_results (ts_shm s') p) = vr_status (sm_results (ts_shm s) p)"
  shows "requests_ok n s'"
proof -
  have "pending_request s' = pending_request s"
    by (rule ext) (simp only: pending_request_def assms(4,5,7,8))
  moreover have "orphaned s' = orphaned s" by (rule ext) (simp only: orphaned_def assms(6))
  ultimately show ?thesis using assms(1-4) by (simp add: requests_ok_def)
qed

lemma requests_step:
  assumes "task_step n threads s s'" "requests_ok n s" "links_ok s" "replies_ok s"
  shows "requests_ok n s'"
proof -
  have ring: "ring_inv (sm_ring (ts_shm s))" using assms(2) by (simp add: requests_ok_def)
  note one = requests_one [OF assms(2)]
  show ?thesis
    using assms(1)
  proof cases
    case (send_search p t sm)
    obtain rb where rb: "put_task zero_slot (Some t) (sm_ring (ts_shm s)) = Some rb"
      "sm = upd_result (vs_pgprocno t) (\<lambda>r. r\<lparr>vr_status := 0\<rparr>) ((ts_shm s)\<lparr>sm_ring := rb\<rparr>)"
      by (rule vector_search_sendD [OF send_search(5)])
    note items = put_task_items [OF ring rb(1)]
    show ?thesis
    proof (rule one [OF send_search(2)])
      show "ring_inv (sm_ring (ts_shm s'))" using items by (simp add: send_search(1) rb(2))
      show "pending_request s' q = pending_request s q" if "q \<noteq> p" for q
        by (rule pending_eqI) (use that send_search(4) in \<open>simp_all add: send_search(1) rb(2)\<close>)
      show "all_requests s' + pending_request s p = all_requests s + pending_request s' p"
        using items send_search(3,4)
        by (simp add: all_requests_def pending_request_def send_search(1) rb(2) item_request_def zero_slot_def)
    qed (simp_all add: send_search(1))
  next
    case (send_task p c h sz sm)
    note rb = submit_requestD(1,3,4) [OF send_task(6)]
    note items = put_task_items [OF ring rb(1)]
    have ty: "dsm_task_type c \<noteq> VectorSearchTaskType" by (cases c) simp_all
    have "h \<notin> ts_dropped s"
      using assms(4) links_okD(1) [OF assms(3), of _ h] send_task(5) by (fastforce simp: replies_ok_def)
    show ?thesis
    proof (rule one [OF send_task(2)])
      show "ring_inv (sm_ring (ts_shm s'))" using items by (simp add: send_task(1))
      show "pending_request s' q = pending_request s q" if "q \<noteq> p" for q
        by (rule pending_eqI) (use that in \<open>simp_all add: send_task(1) rb(2)\<close>)
      show "all_requests s' + pending_request s p = all_requests s + pending_request s' p"
        using items send_task(3) rb(3) ty \<open>h \<notin> ts_dropped s\<close>
        by (simp add: all_requests_def pending_request_def send_task(1) item_request_def)
    qed (simp_all add: send_task(1))
  next
    case (start_search ts t)
    obtain xs where xs: "ring_items (sm_ring (ts_shm s)) = (ts, t) # xs" "ring_inv (advance_head (sm_ring (ts_shm s)))"
      "ring_items (advance_head (sm_ring (ts_shm s))) = xs" by (rule peek_taskD [OF ring start_search(2)])
    show ?thesis
      by (rule requests_same [OF assms(2)])
        (use xs start_search(3) in \<open>simp_all add: start_search(1) all_requests_def item_request_def\<close>)
  next
    case (queue_task ts t q)
    obtain xs where xs: "ring_items (sm_ring (ts_shm s)) = (ts, t) # xs" "ring_inv (advance_head (sm_ring (ts_shm s)))"
      "ring_items (advance_head (sm_ring (ts_shm s))) = xs" by (rule peek_taskD [OF ring queue_task(2)])
    obtain u where "q = ts_queue s @ [u]" "mt_origin u = Some (dsm_handle ts)"
      using submit_outcomeD [OF queue_task(4)] copy_task_origin by blast
    then show ?thesis
      by (intro requests_same [OF assms(2)])
        (use xs queue_task(3) in \<open>simp_all add: queue_task(1) all_requests_def item_request_def\<close>)
  next
    case (drop_task ts t)
    let ?h = "dsm_handle ts"
    obtain xs where xs: "ring_items (sm_ring (ts_shm s)) = (ts, t) # xs" "ring_inv (advance_head (sm_ring (ts_shm s)))"
      "ring_items (advance_head (sm_ring (ts_shm s))) = xs" by (rule peek_taskD [OF ring drop_task(2)])
    have "MaintReq ?h \<in># all_requests s" using xs(1) drop_task(3) by (simp add: all_requests_def item_request_def)
    then obtain p where p: "p < n" "ts_clients s p = WaitMaint ?h" "\<not> vr_maint_done (sm_results (ts_shm s) p)" "?h \<notin> ts_dropped s"
      using request_owner(1) [OF assms(2)] by blast
    show ?thesis
    proof (rule one [OF p(1)])
      show "pending_request s' q = pending_request s q" if "q \<noteq> p" for q
        using that waiting_unique [OF assms(3) p(2), of q]
        by (auto simp: pending_request_def drop_task(1) split: client_state.splits)
      show "all_requests s' + pending_request s p = all_requests s + pending_request s' p"
        using xs drop_task(3) p by (simp add: all_requests_def pending_request_def drop_task(1) item_request_def)
    qed (use xs(2) in \<open>simp_all add: drop_task(1)\<close>)
  next
    case (internal_task upg)
    show ?thesis
      by (rule requests_same [OF assms(2)]) (simp_all add: internal_task ring all_requests_def submit_internal_task_def)
  next
    case (take_task t q)
    show ?thesis by (rule requests_same [OF assms(2)]) (simp_all add: take_task ring all_requests_def)
  next
    case (handle_task before t after outcome)
    show ?thesis by (rule requests_same [OF assms(2)]) (simp_all add: handle_task ring all_requests_def)
  next
    case (finish_task before t outcome after)
    have t: "t \<in> set (ts_queue s) \<union> fst ` set (ts_running s)" by (simp add: finish_task(2))
    show ?thesis
    proof (cases "mt_origin t")
      case None
      then have "task_client (mt_data t) = None" using links_okD(4) [OF assms(3) t] by (simp add: task_copied_def)
      then show ?thesis
        using None by (intro requests_same [OF assms(2)]) (simp_all add: finish_task ring all_requests_def report_results)
    next
      case (Some h)
      obtain p c where p: "p < n" "ts_clients s p = WaitMaint h" "\<not> vr_maint_done (sm_results (ts_shm s) p)" "h \<notin> ts_dropped s"
        "sm_dsm (ts_shm s) h = Some c" "task_client (mt_data t) = Some p"
        by (rule task_owner [OF assms(2,3) Some t running_request [OF t Some]])
      show ?thesis
      proof (rule one [OF p(1)])
        show "pending_request s' q = pending_request s q" if "q \<noteq> p" for q
          by (rule pending_eqI) (use that p(6) in \<open>simp_all add: finish_task(1) report_results\<close>)
        show "all_requests s' + pending_request s p = all_requests s + pending_request s' p"
          using p by (simp add: all_requests_def pending_request_def finish_task report_results Some)
      qed (simp_all add: finish_task(1) ring)
    qed
  next
    case (finish_search before t after pairs)
    show ?thesis unfolding finish_search(1) by (rule requests_finish_search [OF assms(2,3) finish_search(2)])
  next
    case (return_status p h r sm)
    have sm: "sm = (ts_shm s)\<lparr>sm_dsm := (sm_dsm (ts_shm s))(h := None)\<rparr>" "vr_maint_done (sm_results (ts_shm s) p)"
      using return_status(4) by (simp_all add: finish_requestD)
    show ?thesis
      by (rule one [OF return_status(2)])
        (use sm return_status(3) ring in \<open>simp_all add: return_status(1) pending_request_def all_requests_def split: client_state.split\<close>)
  next
    case (return_result p t pairs)
    have "vr_status (sm_results (ts_shm s) p) = 1"
      using return_result(4) by (simp add: vector_search_get_result_def split: if_splits)
    then show ?thesis
      by (intro one [OF return_result(2)])
        (use return_result(3) ring in \<open>simp_all add: return_result(1) pending_request_def all_requests_def split: client_state.split\<close>)
  next
    case (abandon_search p t)
    show ?thesis unfolding abandon_search(1) by (rule requests_abandon [OF assms(2,3) abandon_search(2,3)])
  qed
qed


lemma replies_okD:
  assumes "replies_ok s"
  shows "ts_clients s p = WaitMaint h \<Longrightarrow> \<not> vr_maint_done (sm_results (ts_shm s) p) \<Longrightarrow>
      is_update (sm_dsm (ts_shm s) h) \<Longrightarrow> vr_maint_status (sm_results (ts_shm s) p) = phases_status (phases_of s h)"
    and "ts_clients s p = WaitMaint h \<Longrightarrow> vr_maint_done (sm_results (ts_shm s) p) \<Longrightarrow>
      \<exists>outcome. map_of (ts_log s) h = Some outcome \<and> (is_update (sm_dsm (ts_shm s) h) \<longrightarrow>
        vr_maint_status (sm_results (ts_shm s) p) = outcome_status outcome)"
    and "ts_clients s p = WaitSearch t \<Longrightarrow> p \<notin> ts_abandoned s \<Longrightarrow> vr_status (sm_results (ts_shm s) p) = 1 \<Longrightarrow>
      (t, vr_pairs (sm_results (ts_shm s) p)) \<in> ts_answers s"
    and "h \<in> ts_dropped s \<Longrightarrow> \<exists>p. ts_clients s p = WaitMaint h \<and> \<not> vr_maint_done (sm_results (ts_shm s) p)"
  using assms unfolding replies_ok_def by blast+

lemma replies_okI:
  assumes "\<And>p h. ts_clients s p = WaitMaint h \<Longrightarrow> \<not> vr_maint_done (sm_results (ts_shm s) p) \<Longrightarrow>
      is_update (sm_dsm (ts_shm s) h) \<Longrightarrow> vr_maint_status (sm_results (ts_shm s) p) = phases_status (phases_of s h)"
    and "\<And>p h. ts_clients s p = WaitMaint h \<Longrightarrow> vr_maint_done (sm_results (ts_shm s) p) \<Longrightarrow>
      \<exists>outcome. map_of (ts_log s) h = Some outcome \<and> (is_update (sm_dsm (ts_shm s) h) \<longrightarrow>
        vr_maint_status (sm_results (ts_shm s) p) = outcome_status outcome)"
    and "\<And>p t. ts_clients s p = WaitSearch t \<Longrightarrow> p \<notin> ts_abandoned s \<Longrightarrow> vr_status (sm_results (ts_shm s) p) = 1 \<Longrightarrow>
      (t, vr_pairs (sm_results (ts_shm s) p)) \<in> ts_answers s"
    and "\<And>h. h \<in> ts_dropped s \<Longrightarrow> \<exists>p. ts_clients s p = WaitMaint h \<and> \<not> vr_maint_done (sm_results (ts_shm s) p)"
  shows "replies_ok s"
  using assms unfolding replies_ok_def by blast

lemma replies_same:
  assumes "replies_ok s" "ts_clients s' = ts_clients s" "sm_results (ts_shm s') = sm_results (ts_shm s)"
    "sm_dsm (ts_shm s') = sm_dsm (ts_shm s)" "ts_running s' = ts_running s" "ts_log s' = ts_log s" "ts_answers s' = ts_answers s"
    "ts_dropped s' = ts_dropped s" "ts_abandoned s' = ts_abandoned s"
  shows "replies_ok s'"
proof -
  have "phases_of s' = phases_of s" by (rule ext) (simp only: phases_of_def assms(5))
  then show ?thesis using assms(1) unfolding replies_ok_def assms(2-9) by simp
qed

lemma phases_of_running:
  "ts_running s = before @ (t, ph) # after \<Longrightarrow> mt_origin t = Some h \<Longrightarrow> length (phases_of s h) \<le> 1 \<Longrightarrow>
     filter (\<lambda>x. mt_origin (fst x) = Some h) before = [] \<and> filter (\<lambda>x. mt_origin (fst x) = Some h) after = []"
  by (simp add: phases_of_def)

lemma phases_once:
  fixes s :: "('f, 'd) TaskSystem"
  assumes "requests_ok n s" "links_ok s"
  shows "length (phases_of s h) \<le> 1"
    and "t \<in> set (ts_queue s) \<Longrightarrow> mt_origin t = Some h \<Longrightarrow> phases_of s h = []"
proof -
  have all: "count (task_requests (ts_queue s)) (MaintReq h :: 'f request) + length (phases_of s h) \<le> 1"
    using request_once [OF assms, of h] unfolding all_requests_def count_union count_running by linarith
  then show "length (phases_of s h) \<le> 1" by simp
  show "phases_of s h = []" if "t \<in> set (ts_queue s)" "mt_origin t = Some h"
  proof -
    have "count (task_requests (ts_queue s)) (MaintReq h :: 'f request) > 0" using task_in_requests [OF that] by simp
    then have "length (phases_of s h) = 0" using all by linarith
    then show ?thesis by simp
  qed
qed

lemma replies_handle:
  assumes "requests_ok n s" "links_ok s" "replies_ok s" and run: "ts_running s = before @ (t, Handling) # after"
  shows "replies_ok (s\<lparr>ts_shm := report_status (mt_data t) outcome (ts_shm s), ts_running := before @ (t, Handled outcome) # after\<rparr>)"
    (is "replies_ok ?s")
proof (cases "mt_origin t")
  case None
  have "task_client (mt_data t) = None"
    using links_okD(4) [OF assms(2), of t] None run by (simp add: task_copied_def)
  then have "report_status (mt_data t) outcome (ts_shm s) = ts_shm s" by (simp add: report_status_def)
  moreover have "phases_of ?s h = phases_of s h" for h using None run by (simp add: phases_of_def)
  ultimately show ?thesis using assms(3) by (simp add: replies_ok_def)
next
  case (Some h)
  have t: "t \<in> set (ts_queue s) \<union> fst ` set (ts_running s)" by (simp add: run)
  obtain p c where p: "p < n" "ts_clients s p = WaitMaint h" "\<not> vr_maint_done (sm_results (ts_shm s) p)" "h \<notin> ts_dropped s"
    "sm_dsm (ts_shm s) h = Some c" "task_client (mt_data t) = Some p"
    by (rule task_owner [OF assms(1,2) Some t running_request [OF t Some]])
  have none: "filter (\<lambda>x. mt_origin (fst x) = Some h) before = []" "filter (\<lambda>x. mt_origin (fst x) = Some h) after = []"
    using phases_of_running [OF run Some phases_once(1) [OF assms(1,2)]] by simp_all
  have ph: "phases_of ?s h' = (if h' = h then [Handled outcome] else phases_of s h')" for h'
    using Some none run by (simp add: phases_of_def)
  have old: "phases_of s h = [Handling]" using Some none run by (simp add: phases_of_def)
  show ?thesis
  proof (rule replies_okI)
    show "vr_maint_status (sm_results (ts_shm ?s) q) = phases_status (phases_of ?s h')"
      if "ts_clients ?s q = WaitMaint h'" "\<not> vr_maint_done (sm_results (ts_shm ?s) q)" "is_update (sm_dsm (ts_shm ?s) h')" for q h'
    proof (cases "h' = h")
      case True
      then have "q = p" using waiting_unique [OF assms(2) p(2), of q] that(1) by simp
      moreover have "vr_maint_status (sm_results (ts_shm s) p) = 0"
        using replies_okD(1) [OF assms(3) p(2,3)] that(3) True by (simp add: old phases_status_def)
      moreover have "phases_of ?s h' = [Handled outcome]" using ph [of h'] True by simp
      ultimately show ?thesis
        using p(6) by (simp only: phases_status_def list.case task_phase.case)
          (simp add: report_results outcome_status_def split: option.split)
    next
      case False
      then have "q \<noteq> p" using p(2) that(1) by auto
      then show ?thesis
        using False replies_okD(1) [OF assms(3), of q h'] that p(6) by (simp add: ph report_results)
    qed
    show "\<exists>out. map_of (ts_log ?s) h' = Some out \<and> (is_update (sm_dsm (ts_shm ?s) h') \<longrightarrow>
        vr_maint_status (sm_results (ts_shm ?s) q) = outcome_status out)"
      if "ts_clients ?s q = WaitMaint h'" "vr_maint_done (sm_results (ts_shm ?s) q)" for q h'
    proof -
      have "q \<noteq> p" using p(3) that(2) by auto
      then show ?thesis using replies_okD(2) [OF assms(3), of q h'] that p(6) by (simp add: report_results)
    qed
    show "(u, vr_pairs (sm_results (ts_shm ?s) q)) \<in> ts_answers ?s"
      if "ts_clients ?s q = WaitSearch u" "q \<notin> ts_abandoned ?s" "vr_status (sm_results (ts_shm ?s) q) = 1" for q u
      using replies_okD(3) [OF assms(3), of q u] that by simp
    show "\<exists>q. ts_clients ?s q = WaitMaint h' \<and> \<not> vr_maint_done (sm_results (ts_shm ?s) q)" if "h' \<in> ts_dropped ?s" for h'
      using replies_okD(4) [OF assms(3), of h'] that by simp
  qed
qed

lemma replies_finish:
  assumes "requests_ok n s" "links_ok s" "replies_ok s" and run: "ts_running s = before @ (t, Handled outcome) # after"
  shows "replies_ok (s\<lparr>ts_shm := report_done (mt_data t) (ts_shm s), ts_running := before @ after,
      ts_log := log_outcome (mt_origin t) outcome (ts_log s)\<rparr>)" (is "replies_ok ?s")
proof (cases "mt_origin t")
  case None
  have "task_client (mt_data t) = None"
    using links_okD(4) [OF assms(2), of t] None run by (simp add: task_copied_def)
  then have "report_done (mt_data t) (ts_shm s) = ts_shm s" by (simp add: report_done_def)
  moreover have "phases_of ?s h = phases_of s h" for h using None run by (simp add: phases_of_def)
  ultimately show ?thesis using assms(3) None by (simp add: replies_ok_def log_outcome_def)
next
  case (Some h)
  have t: "t \<in> set (ts_queue s) \<union> fst ` set (ts_running s)" by (simp add: run)
  obtain p c where p: "p < n" "ts_clients s p = WaitMaint h" "\<not> vr_maint_done (sm_results (ts_shm s) p)" "h \<notin> ts_dropped s"
    "sm_dsm (ts_shm s) h = Some c" "task_client (mt_data t) = Some p"
    by (rule task_owner [OF assms(1,2) Some t running_request [OF t Some]])
  have none: "filter (\<lambda>x. mt_origin (fst x) = Some h) before = []" "filter (\<lambda>x. mt_origin (fst x) = Some h) after = []"
    using phases_of_running [OF run Some phases_once(1) [OF assms(1,2)]] by simp_all
  have old: "phases_of s h = [Handled outcome]" using Some none run by (simp add: phases_of_def)
  have ph: "phases_of ?s h' = phases_of s h'" if "h' \<noteq> h" for h' using that Some run by (simp add: phases_of_def)
  have log: "map_of (ts_log ?s) h' = (if h' = h then Some outcome else map_of (ts_log s) h')" for h'
    by (simp add: log_outcome_def Some)
  show ?thesis
  proof (rule replies_okI)
    show "vr_maint_status (sm_results (ts_shm ?s) q) = phases_status (phases_of ?s h')"
      if "ts_clients ?s q = WaitMaint h'" "\<not> vr_maint_done (sm_results (ts_shm ?s) q)" "is_update (sm_dsm (ts_shm ?s) h')" for q h'
    proof -
      have "q \<noteq> p" "\<not> vr_maint_done (sm_results (ts_shm s) q)" using that(2) p(6) by (auto simp: report_results)
      moreover from \<open>q \<noteq> p\<close> have "h' \<noteq> h" using waiting_unique [OF assms(2) p(2), of q] that(1) by auto
      ultimately show ?thesis using replies_okD(1) [OF assms(3), of q h'] that by (simp add: ph)
    qed
    show "\<exists>out. map_of (ts_log ?s) h' = Some out \<and> (is_update (sm_dsm (ts_shm ?s) h') \<longrightarrow>
        vr_maint_status (sm_results (ts_shm ?s) q) = outcome_status out)"
      if "ts_clients ?s q = WaitMaint h'" "vr_maint_done (sm_results (ts_shm ?s) q)" for q h'
    proof (cases "h' = h")
      case True
      then have "q = p" using waiting_unique [OF assms(2) p(2), of q] that(1) by simp
      then show ?thesis
        using True replies_okD(1) [OF assms(3) p(2,3)] old unfolding log by (auto simp: phases_status_def)
    next
      case False
      then have "q \<noteq> p" using p(2) that(1) by auto
      then show ?thesis
        using False replies_okD(2) [OF assms(3), of q h'] that p(6) unfolding log by (simp add: report_results)
    qed
    show "(u, vr_pairs (sm_results (ts_shm ?s) q)) \<in> ts_answers ?s"
      if "ts_clients ?s q = WaitSearch u" "q \<notin> ts_abandoned ?s" "vr_status (sm_results (ts_shm ?s) q) = 1" for q u
      using replies_okD(3) [OF assms(3), of q u] that by simp
    show "\<exists>q. ts_clients ?s q = WaitMaint h' \<and> \<not> vr_maint_done (sm_results (ts_shm ?s) q)" if d: "h' \<in> ts_dropped ?s" for h'
    proof -
      obtain q where q: "ts_clients s q = WaitMaint h'" "\<not> vr_maint_done (sm_results (ts_shm s) q)"
        using replies_okD(4) [OF assms(3), of h'] d by auto
      moreover have "q \<noteq> p" using q(1) p(2,4) d by auto
      ultimately show ?thesis using p(6) by (intro exI [of _ q]) (simp add: report_results)
    qed
  qed
qed


lemma running_copied:
  assumes "links_ok s" "sm_dsm (ts_shm s) h = None"
  shows "phases_of s h = []"
proof -
  have "mt_origin (fst x) \<noteq> Some h" if "x \<in> set (ts_running s)" for x
    using links_okD(4) [OF assms(1), of "fst x"] that assms(2) by (auto simp: task_copied_def)
  then show ?thesis by (simp add: phases_of_def filter_empty_conv)
qed

lemma replies_step:
  assumes "task_step n threads s s'" "requests_ok n s" "links_ok s" "replies_ok s"
  shows "replies_ok s'"
  using assms(1)
proof cases
  case (send_search p t sm)
  obtain rb where sm: "sm = upd_result (vs_pgprocno t) (\<lambda>r. r\<lparr>vr_status := 0\<rparr>) ((ts_shm s)\<lparr>sm_ring := rb\<rparr>)"
    by (rule vector_search_sendD [OF send_search(5)])
  have ph: "phases_of s' = phases_of s" by (rule ext) (simp add: phases_of_def send_search(1))
  show ?thesis
  proof (rule replies_okI)
    show "\<exists>q. ts_clients s' q = WaitMaint h' \<and> \<not> vr_maint_done (sm_results (ts_shm s') q)" if d: "h' \<in> ts_dropped s'" for h'
    proof -
      obtain q where q: "ts_clients s q = WaitMaint h'" "\<not> vr_maint_done (sm_results (ts_shm s) q)"
        using replies_okD(4) [OF assms(4), of h'] d by (auto simp: send_search(1))
      moreover have "q \<noteq> p" using q(1) send_search(3) by auto
      ultimately show ?thesis using send_search(4) by (intro exI [of _ q]) (simp add: send_search(1) sm)
    qed
  qed (use replies_okD(1-3) [OF assms(4)] send_search(4) in \<open>simp_all add: ph, simp_all add: send_search(1) sm split: if_splits\<close>)
next
  case (send_task p c h sz sm)
  note sm = submit_requestD [OF send_task(6)]
  have ph: "phases_of s' = phases_of s" by (rule ext) (simp add: phases_of_def send_task(1))
  have other: "h' \<noteq> h" if "ts_clients s q = WaitMaint h'" for q h'
    using links_okD(1) [OF assms(3) that] send_task(5) by auto
  have none: "phases_of s h = []" by (rule running_copied [OF assms(3) send_task(5)])
  show ?thesis
  proof (rule replies_okI)
    show "vr_maint_status (sm_results (ts_shm s') q) = phases_status (phases_of s' h')"
      if "ts_clients s' q = WaitMaint h'" "\<not> vr_maint_done (sm_results (ts_shm s') q)" "is_update (sm_dsm (ts_shm s') h')" for q h'
    proof (cases "q = p")
      case True
      then have "h' = h" "is_update (Some c)" using that by (auto simp: send_task(1) sm(2))
      then show ?thesis using True sm(5) none unfolding ph by (simp add: send_task(1) phases_status_def)
    next
      case False
      then show ?thesis
        using replies_okD(1) [OF assms(4), of q h'] that other [of q h'] unfolding ph
        by (simp add: send_task(1) sm(2,3))
    qed
    show "\<exists>out. map_of (ts_log s') h' = Some out \<and> (is_update (sm_dsm (ts_shm s') h') \<longrightarrow>
        vr_maint_status (sm_results (ts_shm s') q) = outcome_status out)"
      if "ts_clients s' q = WaitMaint h'" "vr_maint_done (sm_results (ts_shm s') q)" for q h'
      using replies_okD(2) [OF assms(4), of q h'] that other [of q h'] sm(4)
      by (cases "q = p") (simp_all add: send_task(1) sm(2,3))
    show "(u, vr_pairs (sm_results (ts_shm s') q)) \<in> ts_answers s'"
      if "ts_clients s' q = WaitSearch u" "q \<notin> ts_abandoned s'" "vr_status (sm_results (ts_shm s') q) = 1" for q u
      using replies_okD(3) [OF assms(4), of q u] that by (cases "q = p") (simp_all add: send_task(1) sm(3))
    show "\<exists>q. ts_clients s' q = WaitMaint h' \<and> \<not> vr_maint_done (sm_results (ts_shm s') q)" if d: "h' \<in> ts_dropped s'" for h'
    proof -
      obtain q where q: "ts_clients s q = WaitMaint h'" "\<not> vr_maint_done (sm_results (ts_shm s) q)"
        using replies_okD(4) [OF assms(4), of h'] d by (auto simp: send_task(1))
      moreover have "q \<noteq> p" using q(1) send_task(3) by auto
      ultimately show ?thesis by (intro exI [of _ q]) (simp add: send_task(1) sm(3))
    qed
  qed
next
  case (start_search ts t)
  show ?thesis by (rule replies_same [OF assms(4)]) (simp_all add: start_search(1))
next
  case (queue_task ts t q)
  show ?thesis by (rule replies_same [OF assms(4)]) (simp_all add: queue_task(1))
next
  case (drop_task ts t)
  obtain xs where xs: "ring_items (sm_ring (ts_shm s)) = (ts, t) # xs"
    using peek_taskD [OF _ drop_task(2)] assms(2) unfolding requests_ok_def by metis
  have "MaintReq (dsm_handle ts) \<in># all_requests s" using xs drop_task(3) by (simp add: all_requests_def item_request_def)
  then obtain p where p: "ts_clients s p = WaitMaint (dsm_handle ts)" "\<not> vr_maint_done (sm_results (ts_shm s) p)"
    using request_owner(1) [OF assms(2)] by blast
  have ph: "phases_of s' = phases_of s" by (rule ext) (simp add: phases_of_def drop_task(1))
  show ?thesis
  proof (rule replies_okI)
    show "\<exists>q. ts_clients s' q = WaitMaint h' \<and> \<not> vr_maint_done (sm_results (ts_shm s') q)" if "h' \<in> ts_dropped s'" for h'
      using that p replies_okD(4) [OF assms(4), of h'] by (cases "h' = dsm_handle ts") (auto simp: drop_task(1))
  qed (use replies_okD(1-3) [OF assms(4)] in \<open>simp_all add: ph, simp_all add: drop_task(1)\<close>)
next
  case (internal_task upg)
  show ?thesis by (rule replies_same [OF assms(4)]) (simp_all add: internal_task)
next
  case (take_task t q)
  have st: "phases_status (phases_of s' h) = phases_status (phases_of s h)" for h
  proof (cases "mt_origin t = Some h")
    case True
    then have "phases_of s h = []" by (intro phases_once(2) [OF assms(2,3), of t]) (simp_all add: take_task(2))
    moreover have "phases_of s' h = Handling # phases_of s h" using True by (simp add: phases_of_def take_task(1))
    ultimately show ?thesis by (simp add: phases_status_def)
  next
    case False
    then have "phases_of s' h = phases_of s h" by (simp add: phases_of_def take_task(1))
    then show ?thesis by simp
  qed
  show ?thesis
    by (rule replies_okI) (use replies_okD [OF assms(4)] in \<open>simp_all add: st, simp_all add: take_task(1)\<close>)
next
  case (handle_task before t after outcome)
  show ?thesis unfolding handle_task(1) by (rule replies_handle [OF assms(2-4) handle_task(2)])
next
  case (finish_task before t outcome after)
  show ?thesis unfolding finish_task(1) by (rule replies_finish [OF assms(2-4) finish_task(2)])
next
  case (finish_search before t after pairs)
  have mem: "SearchReq t \<in># all_requests s" by (simp add: all_requests_def finish_search(2))
  have ph: "phases_of s' = phases_of s" by (rule ext) (simp add: phases_of_def finish_search(1))
  show ?thesis
  proof (rule replies_okI)
    show "(u, vr_pairs (sm_results (ts_shm s') q)) \<in> ts_answers s'"
      if "ts_clients s' q = WaitSearch u" "q \<notin> ts_abandoned s'" "vr_status (sm_results (ts_shm s') q) = 1" for q u
    proof (cases "q = vs_pgprocno t")
      case True
      then have "\<exists>p<n. ts_clients s p = WaitSearch t \<and> vr_status (sm_results (ts_shm s) p) \<noteq> 1"
        using that(2) by (intro request_owner(2) [OF assms(2) mem]) (simp add: finish_search(1))
      then obtain p where p: "ts_clients s p = WaitSearch t" by blast
      then have "p = q" using links_okD(2) [OF assms(3) p] True by simp
      then show ?thesis using p that True by (simp add: finish_search(1) report_results)
    next
      case False
      then show ?thesis using that replies_okD(3) [OF assms(4), of q u] by (simp add: finish_search(1) report_results)
    qed
  qed (use replies_okD(1,2,4) [OF assms(4)] in \<open>simp_all add: ph, simp_all add: finish_search(1)\<close>)
next
  case (return_status p h r sm)
  have sm: "sm = (ts_shm s)\<lparr>sm_dsm := (sm_dsm (ts_shm s))(h := None)\<rparr>" "vr_maint_done (sm_results (ts_shm s) p)"
    using return_status(4) by (simp_all add: finish_requestD)
  have ph: "phases_of s' = phases_of s" by (rule ext) (simp add: phases_of_def return_status(1))
  have other: "h' \<noteq> h" if "ts_clients s q = WaitMaint h'" "q \<noteq> p" for q h'
    using waiting_unique [OF assms(3) return_status(3), of q] that by auto
  show ?thesis
  proof (rule replies_okI)
    show "\<exists>q. ts_clients s' q = WaitMaint h' \<and> \<not> vr_maint_done (sm_results (ts_shm s') q)" if d: "h' \<in> ts_dropped s'" for h'
    proof -
      obtain q where q: "ts_clients s q = WaitMaint h'" "\<not> vr_maint_done (sm_results (ts_shm s) q)"
        using replies_okD(4) [OF assms(4), of h'] d by (auto simp: return_status(1))
      moreover have "q \<noteq> p" using q(2) sm(2) by auto
      ultimately show ?thesis by (intro exI [of _ q]) (simp add: return_status(1) sm(1))
    qed
    show "vr_maint_status (sm_results (ts_shm s') q) = phases_status (phases_of s' h')"
      if "ts_clients s' q = WaitMaint h'" "\<not> vr_maint_done (sm_results (ts_shm s') q)" "is_update (sm_dsm (ts_shm s') h')" for q h'
      using replies_okD(1) [OF assms(4), of q h'] that other [of q h'] unfolding ph
      by (simp add: return_status(1) sm(1) split: if_splits)
    show "\<exists>out. map_of (ts_log s') h' = Some out \<and> (is_update (sm_dsm (ts_shm s') h') \<longrightarrow>
        vr_maint_status (sm_results (ts_shm s') q) = outcome_status out)"
      if "ts_clients s' q = WaitMaint h'" "vr_maint_done (sm_results (ts_shm s') q)" for q h'
      using replies_okD(2) [OF assms(4), of q h'] that other [of q h']
      by (simp add: return_status(1) sm(1) split: if_splits)
    show "(u, vr_pairs (sm_results (ts_shm s') q)) \<in> ts_answers s'"
      if "ts_clients s' q = WaitSearch u" "q \<notin> ts_abandoned s'" "vr_status (sm_results (ts_shm s') q) = 1" for q u
      using replies_okD(3) [OF assms(4), of q u] that by (simp add: return_status(1) sm(1) split: if_splits)
  qed
next
  case (return_result p t pairs)
  have ph: "phases_of s' = phases_of s" by (rule ext) (simp add: phases_of_def return_result(1))
  show ?thesis
  proof (rule replies_okI)
    show "\<exists>q. ts_clients s' q = WaitMaint h' \<and> \<not> vr_maint_done (sm_results (ts_shm s') q)" if d: "h' \<in> ts_dropped s'" for h'
    proof -
      obtain q where q: "ts_clients s q = WaitMaint h'" "\<not> vr_maint_done (sm_results (ts_shm s) q)"
        using replies_okD(4) [OF assms(4), of h'] d by (auto simp: return_result(1))
      moreover have "q \<noteq> p" using q(1) return_result(3) by auto
      ultimately show ?thesis by (intro exI [of _ q]) (simp add: return_result(1))
    qed
  qed (use replies_okD(1-3) [OF assms(4)] in \<open>simp_all add: ph, simp_all add: return_result(1) split: if_splits\<close>)
next
  case (abandon_search p t)
  have ph: "phases_of s' = phases_of s" by (rule ext) (simp add: phases_of_def abandon_search(1))
  show ?thesis
  proof (rule replies_okI)
    show "\<exists>q. ts_clients s' q = WaitMaint h' \<and> \<not> vr_maint_done (sm_results (ts_shm s') q)" if d: "h' \<in> ts_dropped s'" for h'
    proof -
      obtain q where q: "ts_clients s q = WaitMaint h'" "\<not> vr_maint_done (sm_results (ts_shm s) q)"
        using replies_okD(4) [OF assms(4), of h'] d by (auto simp: abandon_search(1))
      moreover have "q \<noteq> p" using q(1) abandon_search(3) by auto
      ultimately show ?thesis by (intro exI [of _ q]) (simp add: abandon_search(1))
    qed
  qed (use replies_okD(1-3) [OF assms(4)] in \<open>simp_all add: ph, simp_all add: abandon_search(1) split: if_splits\<close>)
qed

lemma task_inv_step: "task_step n threads s s' \<Longrightarrow> task_inv n s \<Longrightarrow> task_inv n s'"
  using requests_step links_step replies_step unfolding task_inv_def by blast

lemma task_inv_start: "max_backends > 0 \<Longrightarrow> task_inv n (started_system max_backends t0 r0)"
  by (simp add: task_inv_def requests_ok_def links_ok_def replies_ok_def started_system_def all_requests_def
      pending_request_def ring_buffer_init_ok orphaned_def)

lemma task_inv_reachable:
  assumes "max_backends > 0" "(task_step n threads)\<^sup>*\<^sup>* (started_system max_backends t0 r0) s"
  shows "task_inv n s" "ring_size (sm_ring (ts_shm s)) = max_backends"
proof -
  have ring: "ring_size (sm_ring (ts_shm s')) = ring_size (sm_ring (ts_shm s))"
    if "task_step n threads s s'" "requests_ok n s" for s s' :: "('a, 'b) TaskSystem"
    using that(1)
  proof cases
    case (send_search p t sm)
    then show ?thesis
      using put_task_items vector_search_sendD [OF send_search(5)] that(2) by (fastforce simp: requests_ok_def)
  next
    case (send_task p c h sz sm)
    then show ?thesis
      using put_task_items [OF _ submit_requestD(1) [OF send_task(6)]] that(2) by (simp add: requests_ok_def)
  qed (simp_all add: advance_head_def finish_requestD)
  have "task_inv n s \<and> ring_size (sm_ring (ts_shm s)) = max_backends"
    using assms(2)
  proof (induction rule: rtranclp_induct)
    case base
    show ?case using task_inv_start [OF assms(1)] by (simp add: started_system_def ring_buffer_init_def)
  next
    case (step s s')
    then show ?case using task_inv_step [OF step(2)] ring [OF step(2)] by (simp add: task_inv_def)
  qed
  then show "task_inv n s" "ring_size (sm_ring (ts_shm s)) = max_backends" by simp_all
qed


section \<open>Progress\<close>

lemma size_pending: "size (pending_request s p) \<le> 1"
  by (cases "ts_clients s p") (simp_all add: pending_request_def)

lemma size_requests:
  assumes "requests_ok n s" "p < n" "ts_clients s p = Idle" "ts_abandoned s = {}"
  shows "size (all_requests s) < n"
proof -
  have "all_requests s = (\<Sum>q<n. pending_request s q)"
    using assms(1,4) by (auto simp: requests_ok_def orphaned_def)
  then have "size (all_requests s) = (\<Sum>q<n. size (pending_request s q))"
    using sum_comp_morphism [of size "pending_request s" "{..<n}"] by (simp add: comp_def)
  also have "\<dots> = (\<Sum>q\<in>{..<n} - {p}. size (pending_request s q))"
    using assms(2,3) sum.remove [of "{..<n}" p "\<lambda>q. size (pending_request s q)"] by (simp add: pending_request_def)
  also have "\<dots> \<le> (\<Sum>q\<in>{..<n} - {p}. 1)" by (rule sum_mono) (rule size_pending)
  also have "\<dots> < n" using assms(2) by simp
  finally show ?thesis .
qed

fun phase_work :: "task_phase \<Rightarrow> nat" where
  "phase_work Handling = 2"
| "phase_work (Handled _) = 1"

definition work_left :: "('f, 'd) TaskSystem \<Rightarrow> nat" where
  "work_left s = 4 * length (ring_items (sm_ring (ts_shm s))) + 3 * length (ts_queue s)
     + sum_list (map (phase_work \<circ> snd) (ts_running s)) + length (ts_searches s)"

lemma worker_progress:
  assumes "task_inv n s" "threads > 0" "work_left s > 0"
  shows "\<exists>s'. task_step n threads s s' \<and> work_left s' < work_left s \<and> ts_clients s' = ts_clients s \<and> ts_dropped s' = ts_dropped s
    \<and> ts_abandoned s' = ts_abandoned s \<and> sm_dsm (ts_shm s') = sm_dsm (ts_shm s)"
proof -
  have inv: "requests_ok n s" "links_ok s" and ring: "ring_inv (sm_ring (ts_shm s))"
    using assms(1) by (simp_all add: task_inv_def requests_ok_def)
  consider (running) x xs where "ts_running s = x # xs" | (searches) t ts where "ts_searches s = t # ts"
    | (queue) t q where "ts_queue s = t # q" "ts_running s = []"
    | (ring) x xs where "ring_items (sm_ring (ts_shm s)) = x # xs" "ts_queue s = []"
    using assms(3) by (cases "ts_running s"; cases "ts_searches s"; cases "ts_queue s"; cases "ring_items (sm_ring (ts_shm s))")
      (simp_all add: work_left_def)
  then show ?thesis
  proof cases
    case running
    obtain t ph where x: "x = (t, ph)" by (cases x)
    show ?thesis
    proof (cases ph)
      case Handling
      have "task_step n threads s (s\<lparr>ts_shm := report_status (mt_data t) None (ts_shm s), ts_running := [] @ (t, Handled None) # xs\<rparr>)"
        by (rule task_step.handle_task) (simp add: running x Handling)
      then show ?thesis by (intro exI conjI, assumption) (simp_all add: work_left_def running x Handling)
    next
      case (Handled outcome)
      have "task_step n threads s (s\<lparr>ts_shm := report_done (mt_data t) (ts_shm s), ts_running := [] @ xs,
          ts_log := log_outcome (mt_origin t) outcome (ts_log s)\<rparr>)"
        by (rule task_step.finish_task) (simp add: running x Handled)
      then show ?thesis by (intro exI conjI, assumption) (simp_all add: work_left_def running x Handled)
    qed
  next
    case searches
    have "task_step n threads s (s\<lparr>ts_shm := publish_search t [] (ts_shm s), ts_searches := [] @ ts,
        ts_answers := insert (t, []) (ts_answers s)\<rparr>)"
      by (rule task_step.finish_search) (simp add: searches)
    then show ?thesis by (intro exI conjI, assumption) (simp_all add: work_left_def searches)
  next
    case queue
    have "task_step n threads s (s\<lparr>ts_queue := q, ts_running := (t, Handling) # ts_running s\<rparr>)"
      by (rule task_step.take_task) (simp_all add: queue assms(2))
    then show ?thesis by (intro exI conjI, assumption) (simp_all add: work_left_def queue)
  next
    case ring
    obtain ts t where x: "x = (ts, t)" by (cases x)
    have peek: "peek_task (sm_ring (ts_shm s)) = Some (ts, t)" using peek_task_items [OF \<open>ring_inv (sm_ring (ts_shm s))\<close>] ring x by simp
    have adv: "ring_items (advance_head (sm_ring (ts_shm s))) = xs"
      using advance_head_items [OF \<open>ring_inv (sm_ring (ts_shm s))\<close>] ring by simp
    show ?thesis
    proof (cases "task_type ts = VectorSearchTaskType")
      case True
      show ?thesis
        by (rule exI, rule conjI, rule task_step.start_search [OF peek True]) (simp add: work_left_def ring adv)
    next
      case False
      have "slot_linked (ts_shm s) ts" using links_okD(3) [OF inv(2), of x] ring x by simp
      then obtain c where c: "sm_dsm (ts_shm s) (dsm_handle ts) = Some c" "task_type ts = dsm_task_type c"
        using False by (auto simp: slot_linked_def)
      have "MaintReq (dsm_handle ts) \<in># all_requests s" using ring x False by (simp add: all_requests_def item_request_def)
      then obtain p where "ts_clients s p = WaitMaint (dsm_handle ts)" using request_owner(1) [OF inv(1)] by blast
      then have "maint_request p c" using links_okD(1) [OF inv(2)] c(1) by fastforce
      then obtain u where "copy_task (dsm_handle ts) (dsm_task_type c) c = Some (Inr u)" by (rule maint_request_copies)
      then have "submit_maintenance_task ts (sm_dsm (ts_shm s)) (ts_queue s) = TaskQueued [u]"
        using c ring(2) by (simp add: submit_maintenance_task_def MAINTENANCE_TASK_QUEUE_SIZE_def)
      note step = task_step.queue_task [OF peek False this]
      show ?thesis by (rule exI, rule conjI, rule step) (simp add: work_left_def ring adv)
    qed
  qed
qed

lemma worker_finishes:
  assumes "task_inv n s" "threads > 0"
  shows "\<exists>s'. (task_step n threads)\<^sup>*\<^sup>* s s' \<and> task_inv n s' \<and> all_requests s' = {#} \<and> ts_clients s' = ts_clients s \<and> ts_dropped s' = ts_dropped s
    \<and> ts_abandoned s' = ts_abandoned s \<and> sm_dsm (ts_shm s') = sm_dsm (ts_shm s)"
  using assms(1)
proof (induction "work_left s" arbitrary: s rule: less_induct)
  case less
  show ?case
  proof (cases "work_left s = 0")
    case True
    have pw: "(phase_work ph = 0) = False" for ph by (cases ph) simp_all
    have "ts_running s = []"
      using True by (cases "ts_running s") (simp_all add: work_left_def pw)
    then have "all_requests s = {#}" using True by (simp add: work_left_def all_requests_def)
    then show ?thesis using less.prems by blast
  next
    case False
    then obtain s1 where s1: "task_step n threads s s1" "work_left s1 < work_left s" "ts_clients s1 = ts_clients s"
      "ts_dropped s1 = ts_dropped s" "ts_abandoned s1 = ts_abandoned s" "sm_dsm (ts_shm s1) = sm_dsm (ts_shm s)"
      using worker_progress [OF less.prems assms(2)] by auto
    obtain s' where s': "(task_step n threads)\<^sup>*\<^sup>* s1 s'" "task_inv n s'" "all_requests s' = {#}" "ts_clients s' = ts_clients s1"
      "ts_dropped s' = ts_dropped s1" "ts_abandoned s' = ts_abandoned s1" "sm_dsm (ts_shm s') = sm_dsm (ts_shm s1)"
      using less.hyps [OF s1(2) task_inv_step [OF s1(1) less.prems]] by blast
    moreover have "(task_step n threads)\<^sup>*\<^sup>* s s'" using s1(1) s'(1) by simp
    ultimately show ?thesis using s1(3-6) by auto
  qed
qed

lemma no_request_pending:
  assumes "requests_ok n s" "all_requests s = {#}"
  shows "pending_request s p = {#}"
proof (cases "ts_clients s p = Idle")
  case False
  then have "p < n" using assms(1) by (simp add: requests_ok_def)
  have "(\<Sum>q<n. pending_request s q) = {#}" using assms by (auto simp: requests_ok_def)
  then show ?thesis using sum.remove [of "{..<n}" p "pending_request s"] \<open>p < n\<close> by simp
qed (simp add: pending_request_def)


lemma worker_answers:
  assumes "task_inv n s" "threads > 0"
  obtains s' where "(task_step n threads)\<^sup>*\<^sup>* s s'" "ts_clients s' = ts_clients s" "sm_dsm (ts_shm s') = sm_dsm (ts_shm s)"
    "ts_abandoned s' = ts_abandoned s"
    "\<And>p h. ts_clients s p = WaitMaint h \<Longrightarrow> h \<notin> ts_dropped s \<Longrightarrow> finish_request p h (ts_shm s') \<noteq> None"
    "\<And>p t. ts_clients s p = WaitSearch t \<Longrightarrow> vector_search_get_result p (ts_shm s') \<noteq> None"
proof -
  obtain s' where s': "(task_step n threads)\<^sup>*\<^sup>* s s'" "task_inv n s'" "all_requests s' = {#}" "ts_clients s' = ts_clients s"
    "ts_dropped s' = ts_dropped s" "ts_abandoned s' = ts_abandoned s" "sm_dsm (ts_shm s') = sm_dsm (ts_shm s)"
    using worker_finishes [OF assms] by blast
  have none: "pending_request s' p = {#}" for p using s'(2,3) unfolding task_inv_def by (blast intro: no_request_pending)
  show ?thesis
  proof (rule that [OF s'(1,4,7,6)])
    show "finish_request p h (ts_shm s') \<noteq> None" if "ts_clients s p = WaitMaint h" "h \<notin> ts_dropped s" for p h
      using none [of p] that by (auto simp: pending_request_def s'(4,5) finish_request_def split: if_splits)
    show "vector_search_get_result p (ts_shm s') \<noteq> None" if "ts_clients s p = WaitSearch t" for p t
      using none [of p] that by (auto simp: pending_request_def s'(4) vector_search_get_result_def split: if_splits)
  qed
qed

section \<open>Properties of the protocol\<close>

text \<open>
  A run of two processes: process 0 asks for the refresh of a segment and process 1 searches; the refresh is
  answered with 1 and the search with no rows.
\<close>

definition query_of_1 :: "nat VectorSearchTaskData" where
  "query_of_1 = \<lparr>vs_pgprocno = 1, vs_index_relid = 16, vs_vector = [5], vs_topk = 3, vs_efs_nprobe = 0,
     vs_snapshot = \<lparr>gidx = 0, gmt_id = 4, sidxs = [], smt_ids = []\<rparr>\<rparr>"

definition refresh_of_0 :: dsm_content where
  "refresh_of_0 = segment_update_dsm 0 0 16 SEGMENT_UPDATE_VACUUM 3 3 1 [] []"

definition refresh_task :: MaintenanceTask where
  "refresh_task = (case refresh_of_0 of
     UpdateDsm u _ \<Rightarrow> \<lparr>mt_data = UpdateTask u, mt_groups = [], mt_origin = Some 40\<rparr>
   | _ \<Rightarrow> undefined)"

definition example_start :: "(nat, int) TaskSystem" where
  "example_start = started_system 2 query_of_1 \<lparr>vr_status = 0, vr_pairs = [], vr_maint_status = 0, vr_maint_done = False\<rparr>"

lemma refresh_of_0_request: "maint_request 0 refresh_of_0"
  unfolding refresh_of_0_def by (rule update_request) (simp add: trailer_fits_def groups_fit_def pack_groups_def)


lemma example_requests:
  obtains s where "(task_step 2 1)\<^sup>*\<^sup>* example_start s" "ts_clients s 0 = WaitMaint 40" "ts_clients s 1 = WaitSearch query_of_1"
    "ts_dropped s = {}" "sm_dsm (ts_shm s) 40 = Some refresh_of_0" "ts_abandoned s = {}"
proof -
  define sm1 where "sm1 = (case submit_request 0 100 40 refresh_of_0 (ts_shm example_start) of Inr sm \<Rightarrow> sm | Inl _ \<Rightarrow> ts_shm example_start)"
  define s1 where "s1 = example_start\<lparr>ts_shm := sm1, ts_clients := (ts_clients example_start)(0 := WaitMaint 40)\<rparr>"
  define sm2 where "sm2 = (case vector_search_send query_of_1 sm1 of Inr sm \<Rightarrow> sm | Inl _ \<Rightarrow> sm1)"
  define s2 where "s2 = s1\<lparr>ts_shm := sm2, ts_clients := (ts_clients s1)(1 := WaitSearch query_of_1)\<rparr>"
  note ev = example_start_def started_system_def refresh_of_0_def segment_update_dsm_def submit_request_def put_task_def
    get_ring_buffer_slot_def ring_buffer_init_def zero_slot_def vector_search_send_def query_of_1_def MAX_DIM_def Let_def
  have sub: "submit_request 0 100 40 refresh_of_0 (ts_shm example_start) = Inr sm1" by (simp add: sm1_def ev)
  have snd: "vector_search_send query_of_1 sm1 = Inr sm2" by (simp add: sm2_def sm1_def ev)
  have t1: "task_step 2 1 example_start s1" unfolding s1_def
    by (rule task_step.send_task [OF _ _ refresh_of_0_request _ sub]) (simp_all add: example_start_def started_system_def)
  have t2: "task_step 2 1 s1 s2" unfolding s2_def
    by (rule task_step.send_search [where t = query_of_1])
      (simp_all add: s1_def snd, simp_all add: query_of_1_def example_start_def started_system_def)
  have "sm_dsm sm2 = (sm_dsm (ts_shm example_start))(40 \<mapsto> refresh_of_0)"
    using submit_requestD(2) [OF sub] vector_search_sendD [OF snd] by fastforce
  then show ?thesis
    by (intro that [of s2])
      (use t1 t2 in \<open>simp_all add: s2_def s1_def example_start_def started_system_def\<close>)
qed

lemma example_inv: "(task_step 2 1)\<^sup>*\<^sup>* example_start s \<Longrightarrow> task_inv 2 s"
  unfolding example_start_def by (rule task_inv_reachable(1)) simp_all

text \<open>
  A dropped task: the client waits for ever, whatever the others do.
\<close>

lemma dropped_task_waits:
  assumes "task_inv n s" "h \<in> ts_dropped s" "(task_step n threads)\<^sup>*\<^sup>* s s'"
  shows "h \<in> ts_dropped s' \<and> (\<exists>p. ts_clients s' p = WaitMaint h \<and> finish_request p h (ts_shm s') = None)"
proof -
  have "task_inv n s' \<and> h \<in> ts_dropped s'"
    using assms(3,1,2)
  proof (induction rule: rtranclp_induct)
    case (step y z)
    moreover have "ts_dropped y \<subseteq> ts_dropped z" using step(2) by cases auto
    ultimately show ?case using task_inv_step [OF step(2)] by blast
  qed simp
  then show ?thesis using replies_okD(4) [of s' h] by (auto simp: task_inv_def finish_request_def)
qed

text \<open>
  A backend that gives up between sending a search and reading the result (an error while it searches the
  memtables) and sends the next one: when the first search ends, its rows are read as the second one's.
\<close>

lemma abandoned_search_answers_next:
  assumes "vector_search_send t1 sm = Inr sm1" "vector_search_send t2 sm1 = Inr sm2" "vs_pgprocno t1 = p" "vs_pgprocno t2 = p"
  shows "vector_search_get_result p (publish_search t1 pairs sm2) = Some pairs"
  by (simp add: vector_search_get_result_def report_results assms(3))

text \<open>C14: (safety) In every state that backends, worker and maintenance threads can reach, also when backends are
  thrown out of a search by an error, the status that a waiting process reads for its segment update is what the
  handler of its own task reported, 0 if it reported nothing. The rows that a process reads for its search were
  published for its own query, unless this very process has given up a search before
  (\<open>abandoned_search_answers_next\<close> shows that it may then read the rows of that one).
\<close>

theorem requests_get_own_reply:
  assumes "max_backends > 0" "(task_step n threads)\<^sup>*\<^sup>* (started_system max_backends t0 r0) s"
  shows "(\<forall>h u trailer r sm. ts_clients s p = WaitMaint h \<and> sm_dsm (ts_shm s) h = Some (UpdateDsm u trailer) \<and> finish_request p h (ts_shm s) = Some (r, sm)
        \<longrightarrow> (\<exists>outcome. map_of (ts_log s) h = Some outcome \<and> r = (case outcome of None \<Rightarrow> 0 | Some r \<Rightarrow> r)))
    \<and> (\<forall>t pairs. ts_clients s p = WaitSearch t \<and> p \<notin> ts_abandoned s \<and> vector_search_get_result p (ts_shm s) = Some pairs
        \<longrightarrow> (t, pairs) \<in> ts_answers s)"
proof (intro conjI allI impI; elim conjE)
  have ok: "replies_ok s" using task_inv_reachable(1) [OF assms] by (simp add: task_inv_def)
  show "\<exists>outcome. map_of (ts_log s) h = Some outcome \<and> r = (case outcome of None \<Rightarrow> 0 | Some r \<Rightarrow> r)"
    if "ts_clients s p = WaitMaint h" "sm_dsm (ts_shm s) h = Some (UpdateDsm u trailer)" "finish_request p h (ts_shm s) = Some (r, sm)" for h u trailer r sm
    using that replies_okD(2) [OF ok, of p h] by (auto simp: finish_requestD outcome_status_def)
  show "(t, pairs) \<in> ts_answers s" if "ts_clients s p = WaitSearch t" "p \<notin> ts_abandoned s" "vector_search_get_result p (ts_shm s) = Some pairs" for t pairs
    using that replies_okD(3) [OF ok, of p t] by (auto simp: vector_search_get_result_def split: if_splits)
qed

theorem requests_get_own_reply_witness:
  "\<exists>s outcome r sm pairs. (task_step 2 1)\<^sup>*\<^sup>* example_start s \<and> finish_request 0 40 (ts_shm s) = Some (r, sm)
     \<and> map_of (ts_log s) 40 = Some outcome \<and> (query_of_1, pairs) \<in> ts_answers s"
proof -
  obtain s where s: "(task_step 2 1)\<^sup>*\<^sup>* example_start s" "ts_clients s 0 = WaitMaint 40" "ts_clients s 1 = WaitSearch query_of_1"
    "ts_dropped s = {}" "sm_dsm (ts_shm s) 40 = Some refresh_of_0" "ts_abandoned s = {}" by (rule example_requests)
  obtain s' where s': "(task_step 2 1)\<^sup>*\<^sup>* s s'" "ts_clients s' = ts_clients s" "sm_dsm (ts_shm s') = sm_dsm (ts_shm s)"
    "ts_abandoned s' = ts_abandoned s" "finish_request 0 40 (ts_shm s') \<noteq> None" "vector_search_get_result 1 (ts_shm s') \<noteq> None"
    using worker_answers [OF example_inv [OF s(1)]] s(2-4) by (metis empty_iff zero_less_one)
  then obtain r sm pairs where got: "finish_request 0 40 (ts_shm s') = Some (r, sm)" "vector_search_get_result 1 (ts_shm s') = Some pairs"
    by auto
  have run: "(task_step 2 1)\<^sup>*\<^sup>* example_start s'" using s(1) s'(1) by simp
  obtain u tr where u: "refresh_of_0 = UpdateDsm u tr" by (simp add: refresh_of_0_def segment_update_dsm_def Let_def)
  note reply = requests_get_own_reply [OF _ run [unfolded example_start_def], of 0]
    requests_get_own_reply [OF _ run [unfolded example_start_def], of 1]
  have "\<exists>outcome. map_of (ts_log s') 40 = Some outcome" "(query_of_1, pairs) \<in> ts_answers s'"
    using reply got s(2,3,5,6) s'(2-4) u by auto
  then show ?thesis using run got(1) by blast
qed

text \<open>(bounds) As long as there are at most as many processes as ring slots and none has given up a search, the ring
  has room for every process that is not waiting: the error of a full ring is not raised.
\<close>

theorem ring_never_full:
  assumes "max_backends > 0" "(task_step n threads)\<^sup>*\<^sup>* (started_system max_backends t0 r0) s"
    and "n \<le> max_backends" "p < n" "ts_clients s p = Idle" "ts_abandoned s = {}"
  shows "ring_count (sm_ring (ts_shm s)) < max_backends"
    and "submit_request p sz h c (ts_shm s) \<noteq> Inl RingFull" "vector_search_send t (ts_shm s) \<noteq> Inl RingFull"
proof -
  have ok: "requests_ok n s" and size: "ring_size (sm_ring (ts_shm s)) = max_backends"
    using task_inv_reachable [OF assms(1,2)] by (simp_all add: task_inv_def)
  have "ring_count (sm_ring (ts_shm s)) = length (ring_items (sm_ring (ts_shm s)))" by (simp add: ring_items_def)
  also have "\<dots> \<le> size (all_requests s)" by (simp add: all_requests_def)
  also have "\<dots> < n" by (rule size_requests [OF ok assms(4-6)])
  finally show room: "ring_count (sm_ring (ts_shm s)) < max_backends" using assms(3) by simp
  show "vector_search_send t (ts_shm s) \<noteq> Inl RingFull"
    using room size by (auto simp: vector_search_send_def put_task_def Let_def split: prod.splits)
  show "submit_request p sz h c (ts_shm s) \<noteq> Inl RingFull"
    using room size by (cases c) (auto simp: submit_request_def put_task_def Let_def split: prod.splits)
qed

theorem ring_never_full_witness:
  "submit_request 0 100 40 refresh_of_0 (ts_shm example_start) \<noteq> Inl RingFull"
proof -
  have "(task_step 2 1)\<^sup>*\<^sup>* example_start example_start" "ts_clients example_start 0 = Idle"
    by (simp_all add: example_start_def started_system_def)
  from ring_never_full(2) [OF _ this(1) [unfolded example_start_def] order_refl _ this(2) [unfolded example_start_def]]
  show ?thesis by (simp add: example_start_def started_system_def)
qed

text \<open>C15: (liveness) From every reachable state, the worker and its threads can go on so that every waiting process
  gets its answer, unless its task was dropped at a full queue: no combination of requests blocks.
\<close>

theorem requests_are_answered:
  assumes "max_backends > 0" "(task_step n threads)\<^sup>*\<^sup>* (started_system max_backends t0 r0) s" "threads > 0"
  shows "\<exists>s'. (task_step n threads)\<^sup>*\<^sup>* s s' \<and> ts_clients s' = ts_clients s
    \<and> (\<forall>p h. ts_clients s p = WaitMaint h \<longrightarrow> h \<in> ts_dropped s \<or> finish_request p h (ts_shm s') \<noteq> None)
    \<and> (\<forall>p t. ts_clients s p = WaitSearch t \<longrightarrow> vector_search_get_result p (ts_shm s') \<noteq> None)"
  using worker_answers [OF task_inv_reachable(1) [OF assms(1,2)] assms(3)] by metis

theorem requests_are_answered_witness:
  "\<exists>s s'. (task_step 2 1)\<^sup>*\<^sup>* example_start s \<and> (task_step 2 1)\<^sup>*\<^sup>* s s' \<and> ts_clients s 0 = WaitMaint 40
     \<and> finish_request 0 40 (ts_shm s') \<noteq> None \<and> vector_search_get_result 1 (ts_shm s') \<noteq> None"
proof -
  obtain s where s: "(task_step 2 1)\<^sup>*\<^sup>* example_start s" "ts_clients s 0 = WaitMaint 40" "ts_clients s 1 = WaitSearch query_of_1"
    "ts_dropped s = {}" by (rule example_requests)
  obtain s' where "(task_step 2 1)\<^sup>*\<^sup>* s s'" "finish_request 0 40 (ts_shm s') \<noteq> None" "vector_search_get_result 1 (ts_shm s') \<noteq> None"
    using requests_are_answered [OF _ s(1) [unfolded example_start_def]] s(2-4) by auto
  with s show ?thesis by blast
qed

end
