(* ===== verification/WorkerSearch.thy ===== *)
theory WorkerSearch
  imports Search
begin

text \<open>
  The segment side of a search (\<^verbatim>\<open>vector_search\<close> of \<^verbatim>\<open>vector_index_worker.c\<close> and the concurrent search of
  \<^verbatim>\<open>vectorindeximpl.cpp\<close>): the worker pins the segments of the pool, leaves out those that the backend's
  memtable snapshot covers, searches the others in a thread pool, and the thread that finishes last merges
  the results. The query is fixed; the index library is an argument.
\<close>

section \<open>Choosing the segments\<close>

text \<open>
  The walk that builds the traversal list, under the read lock; an index of \<^verbatim>\<open>(uint32_t)-1\<close> before the tail
  is an access outside the array, \<open>None\<close>.
\<close>

abbreviation pin_segment :: "nat \<Rightarrow> FlushedSegmentPool \<Rightarrow> FlushedSegmentPool" where
  "pin_segment i \<equiv> upd_seg i (\<lambda>s. s\<lparr>ref_count := ref_count s + 1\<rparr>)"

partial_function (option) collect_segments ::
  "nat option \<Rightarrow> nat option \<Rightarrow> nat list \<Rightarrow> FlushedSegmentPool \<Rightarrow> (nat list \<times> FlushedSegmentPool) option" where
  "collect_segments tail_snapshot idx segment_indices pool =
     (case idx of
        None \<Rightarrow> None
      | Some i \<Rightarrow>
          let used = in_used (flushed_segments pool i);
              segment_indices = (if used then segment_indices @ [i] else segment_indices);
              pool = (if used then pin_segment i pool else pool)
          in if tail_snapshot = Some i then Some (segment_indices, pool)
             else collect_segments tail_snapshot (next_idx (flushed_segments pool i)) segment_indices pool)"

definition snapshot_segments :: "FlushedSegmentPool \<Rightarrow> (nat list \<times> FlushedSegmentPool) option" where
  "snapshot_segments pool =
     (if head_idx pool = None then Some ([], pool)
      else collect_segments (tail_idx pool) (head_idx pool) [] pool)"

definition sid_covered :: "LSMSnapshot \<Rightarrow> SegmentId \<Rightarrow> bool" where
  "sid_covered snap sid \<longleftrightarrow> sid = gmt_id snap \<or> sid \<in> set (smt_ids snap)"

text \<open>
  The loop over the ids of a segment, with its flags \<^verbatim>\<open>fully_covered\<close> and \<^verbatim>\<open>any_covered\<close>. The counter has 32 bits:
  for a range that ends with \<open>UINT32_MAX\<close> the loop does not end.
\<close>

partial_function (option) cover_scan ::
  "LSMSnapshot \<Rightarrow> SegmentId \<Rightarrow> SegmentId \<Rightarrow> bool \<times> bool \<Rightarrow> (bool \<times> bool) option" where
  "cover_scan snap last_sid sid flags =
     (if sid \<le> last_sid
      then cover_scan snap last_sid (sid + 1)
             (fst flags \<and> sid_covered snap sid, snd flags \<or> sid_covered snap sid)
      else Some flags)"

record SegmentSearchInfo =
  ss_index_type :: IndexType
  ss_index_ptr :: "nat option"
  ss_bitmap :: "bitmap option"
  ss_vec_count :: u32
  ss_map :: "i64 list option"
  ss_segment_idx :: nat

definition search_info :: "FlushedSegmentPool \<Rightarrow> nat \<Rightarrow> SegmentSearchInfo" where
  "search_info pool i =
     (let s = flushed_segments pool i in
      \<lparr>ss_index_type = index_type s, ss_index_ptr = index_ptr s, ss_bitmap = bitmap_ptr s,
       ss_vec_count = ucast (vec_count s), ss_map = map_ptr s, ss_segment_idx = i\<rparr>)"

text \<open>
  The filter loop. A covered segment is unpinned at once; \<open>got\<close> says for which slots the try-lock of
  \<^verbatim>\<open>cleanup_flushed_segment\<close> would succeed.
\<close>

fun choose_segments ::
  "(nat \<Rightarrow> bool) \<Rightarrow> LSMSnapshot \<Rightarrow> nat list \<Rightarrow> FlushedSegmentPool
     \<Rightarrow> (SegmentSearchInfo list \<times> FlushedSegmentPool) option" where
  "choose_segments got snap [] pool = Some ([], pool)"
| "choose_segments got snap (i # is) pool =
     (case cover_scan snap (sid_end pool i) (sid_start pool i) (True, False) of
        None \<Rightarrow> None
      | Some (fully_covered, any_covered) \<Rightarrow>
          if fully_covered
          then choose_segments got snap is (decrement_flushed_segment_ref_count (got i) i pool)
          else map_option (\<lambda>(infos, p). (search_info pool i # infos, p)) (choose_segments got snap is pool))"

section \<open>Searching one segment\<close>

text \<open>
  The index library: the number of rows of an index, and its search with the index type, a bitmap, a row
  count, \<open>k\<close> and the effort parameter. A failed search is \<open>None\<close>, a successful one has \<open>k\<close> entries.
\<close>

record 'd index_library =
  il_count :: "nat \<Rightarrow> int"
  il_search :: "IndexType \<Rightarrow> nat \<Rightarrow> bitmap \<Rightarrow> nat \<Rightarrow> nat \<Rightarrow> nat \<Rightarrow> ('d \<times> int) list option"

definition search_effort :: "IndexType \<Rightarrow> nat \<Rightarrow> nat \<Rightarrow> nat" where
  "search_effort ty efs_nprobe k = (case ty of HNSW \<Rightarrow> max efs_nprobe k | _ \<Rightarrow> efs_nprobe)"

definition VectorIndexSearch ::
  "'d index_library \<Rightarrow> IndexType \<Rightarrow> nat \<Rightarrow> bitmap \<Rightarrow> nat \<Rightarrow> nat \<Rightarrow> nat \<Rightarrow> ('d \<times> int) list option" where
  "VectorIndexSearch lib ty h bm n k efs_nprobe =
     (if il_count lib h \<le> 0 then None
      else map_option (take k) (il_search lib ty h bm n k (search_effort ty efs_nprobe k)))"

text \<open>
  \<^verbatim>\<open>search_segment_task\<close> up to the conversion of row numbers to tids. \<open>None\<close> is a null buffer or a row number
  outside the mapping; a search without a result, and a failed one, gives no pairs.
\<close>

definition map_pair :: "i64 list \<Rightarrow> 'd \<times> int \<Rightarrow> 'd DistancePair option" where
  "map_pair tids r =
     (case r of (d, pos) \<Rightarrow>
        if 0 \<le> pos \<and> nat pos < length tids then Some \<lparr>pdist = d, pid = tids ! nat pos\<rparr> else None)"

definition segment_pairs ::
  "'d index_library \<Rightarrow> nat \<Rightarrow> nat \<Rightarrow> SegmentSearchInfo \<Rightarrow> 'd DistancePair list option" where
  "segment_pairs lib k efs_nprobe info =
     (case (ss_index_ptr info, ss_bitmap info, ss_map info) of
        (Some h, Some bm, Some tids) \<Rightarrow>
          (case VectorIndexSearch lib (ss_index_type info) h bm (unat (ss_vec_count info)) k efs_nprobe of
             None \<Rightarrow> Some []
           | Some res \<Rightarrow> those (map (map_pair tids) res))
      | _ \<Rightarrow> None)"

section \<open>Merging\<close>

text \<open>\<^verbatim>\<open>merge_all_segment_results\<close>: the first result that is not empty is copied, the others are merged into it.\<close>

fun merge_results ::
  "nat \<Rightarrow> ('d::linorder) DistancePair list option \<Rightarrow> 'd DistancePair list list \<Rightarrow> 'd DistancePair list" where
  "merge_results k None [] = []"
| "merge_results k (Some merged) [] = merged"
| "merge_results k acc (r # rs) =
     (if r = [] then merge_results k acc rs
      else merge_results k (Some (case acc of None \<Rightarrow> r | Some merged \<Rightarrow> merge_top_k merged r k)) rs)"

definition merge_all_segment_results :: "nat \<Rightarrow> ('d::linorder) DistancePair list list \<Rightarrow> 'd DistancePair list" where
  "merge_all_segment_results k rs = merge_results k None rs"

section \<open>The concurrent search\<close>

text \<open>
  The context of one search: a task per segment, each at its next action. A task searches and stores its
  pairs, unpins its segment, and counts down; the one that reaches zero merges and publishes.
\<close>

datatype task_pc = TSearch | TUnpin | TCount | TDone

record 'd SearchRun =
  sr_segments :: "SegmentSearchInfo list"
  sr_pc :: "task_pc list"
  sr_results :: "'d DistancePair list list"
  sr_remaining :: int
  sr_published :: "'d DistancePair list list"

text \<open>\<open>sr_published\<close> records every write of a result and of \<^verbatim>\<open>status = 1\<close> to the backend's result slot.\<close>

definition ConcurrentVectorSearchOnSegments :: "SegmentSearchInfo list \<Rightarrow> 'd SearchRun" where
  "ConcurrentVectorSearchOnSegments infos =
     \<lparr>sr_segments = infos, sr_pc = replicate (length infos) TSearch, sr_results = replicate (length infos) [],
      sr_remaining = int (length infos), sr_published = []\<rparr>"

definition set_pc :: "nat \<Rightarrow> task_pc \<Rightarrow> 'd SearchRun \<Rightarrow> 'd SearchRun" where
  "set_pc i pc r = r\<lparr>sr_pc := (sr_pc r)[i := pc]\<rparr>"

definition store_pairs :: "'d index_library \<Rightarrow> nat \<Rightarrow> nat \<Rightarrow> nat \<Rightarrow> 'd SearchRun \<Rightarrow> 'd SearchRun option" where
  "store_pairs lib k efs_nprobe i r =
     map_option (\<lambda>pairs. set_pc i TUnpin (r\<lparr>sr_results := (sr_results r)[i := pairs]\<rparr>))
       (segment_pairs lib k efs_nprobe (sr_segments r ! i))"

definition count_down :: "nat \<Rightarrow> nat \<Rightarrow> ('d::linorder) SearchRun \<Rightarrow> 'd SearchRun" where
  "count_down k i r =
     (let remaining = sr_remaining r - 1; r = set_pc i TDone (r\<lparr>sr_remaining := remaining\<rparr>) in
      if remaining = 0
      then r\<lparr>sr_published := sr_published r @ [merge_all_segment_results k (sr_results r)]\<rparr>
      else r)"

text \<open>
  The search among the other users of the pool. \<open>ps_listed\<close> is the list of registered slots, \<open>ps_others\<close> the
  references of other threads, \<open>ps_reserved\<close> the slots that are being filled and \<open>ps_stray\<close> the slots that a late
  upgrade replaced; these four are not in memory. An upgrade comes late when its segment was replaced
  before it got the lock: it checks that the slot is in use, with the same ids, and loaded by \<^verbatim>\<open>mmap\<close>, but not that
  it is still in the list. After that the links need not spell \<open>ps_listed\<close>, which may then be anything.
\<close>

record 'd PoolSystem =
  ps_pool :: FlushedSegmentPool
  ps_listed :: "nat list"
  ps_others :: "nat list"
  ps_reserved :: "nat list"
  ps_stray :: "nat list"
  ps_run :: "'d SearchRun"

inductive search_step :: "'d index_library \<Rightarrow> nat \<Rightarrow> nat \<Rightarrow> ('d::linorder) PoolSystem \<Rightarrow> 'd PoolSystem \<Rightarrow> bool"
  for lib k efs_nprobe where
  task_search:
    "i < length (sr_pc (ps_run s)) \<Longrightarrow> sr_pc (ps_run s) ! i = TSearch \<Longrightarrow>
     store_pairs lib k efs_nprobe i (ps_run s) = Some r \<Longrightarrow>
     search_step lib k efs_nprobe s (s\<lparr>ps_run := r\<rparr>)"
| task_unpin:
    "i < length (sr_pc (ps_run s)) \<Longrightarrow> sr_pc (ps_run s) ! i = TUnpin \<Longrightarrow>
     search_step lib k efs_nprobe s
       (s\<lparr>ps_pool := decrement_flushed_segment_ref_count got (ss_segment_idx (sr_segments (ps_run s) ! i)) (ps_pool s),
          ps_run := set_pc i TCount (ps_run s)\<rparr>)"
| task_count:
    "i < length (sr_pc (ps_run s)) \<Longrightarrow> sr_pc (ps_run s) ! i = TCount \<Longrightarrow>
     search_step lib k efs_nprobe s (s\<lparr>ps_run := count_down k i (ps_run s)\<rparr>)"
| other_pin:
    "i \<in> set (ps_listed s) \<Longrightarrow>
     search_step lib k efs_nprobe s (s\<lparr>ps_pool := pin_segment i (ps_pool s), ps_others := i # ps_others s\<rparr>)"
| other_unpin:
    "i \<in> set (ps_others s) \<Longrightarrow>
     search_step lib k efs_nprobe s
       (s\<lparr>ps_pool := decrement_flushed_segment_ref_count got i (ps_pool s), ps_others := remove1 i (ps_others s)\<rparr>)"
| other_reserve:
    "reserve_flushed_segment (ps_pool s) = (Some i, p) \<Longrightarrow>
     search_step lib k efs_nprobe s (s\<lparr>ps_pool := p, ps_reserved := i # ps_reserved s\<rparr>)"
| other_load:
    "i \<in> set (ps_reserved s) \<Longrightarrow>
     search_step lib k efs_nprobe s (s\<lparr>ps_pool := upd_seg i (load_and_set_segment st a b v m) (ps_pool s)\<rparr>)"
| other_mark:
    "i \<in> set (ps_listed s) \<Longrightarrow> bitmap_ptr (flushed_segments (ps_pool s) i) \<noteq> None \<Longrightarrow>
     search_step lib k efs_nprobe s
       (s\<lparr>ps_pool := upd_seg i (\<lambda>s. s\<lparr>bitmap_ptr := Some bm, delete_count := d, is_compacting := c\<rparr>) (ps_pool s)\<rparr>)"
| other_discard:
    "i \<in> set (ps_reserved s) \<Longrightarrow>
     search_step lib k efs_nprobe s
       (s\<lparr>ps_pool := discard_reserved_segment i (ps_pool s), ps_reserved := removeAll i (ps_reserved s)\<rparr>)"
| other_register:
    "i \<in> set (ps_reserved s) \<Longrightarrow> register_flushed_segment cap i (ps_pool s) = Some p \<Longrightarrow>
     search_step lib k efs_nprobe s
       (s\<lparr>ps_pool := p, ps_reserved := removeAll i (ps_reserved s),
          ps_listed := insert_by_start (ps_pool s) (sid_start (ps_pool s) i) i (ps_listed s)\<rparr>)"
| other_replace:
    "i \<in> set (ps_reserved s) \<Longrightarrow> ps_listed s = before @ olds @ after \<Longrightarrow> olds \<noteq> [] \<Longrightarrow>
     sid_start (ps_pool s) i = sid_start (ps_pool s) (hd olds) \<Longrightarrow>
     search_step lib k efs_nprobe s
       (s\<lparr>ps_pool := replace_flushed_segments_n cap olds i (ps_pool s), ps_reserved := removeAll i (ps_reserved s),
          ps_listed := before @ i # after\<rparr>)"
| other_late_upgrade:
    "i \<in> set (ps_reserved s) \<Longrightarrow> old \<notin> set (ps_listed s) \<Longrightarrow> in_used (flushed_segments (ps_pool s) old) \<Longrightarrow>
     load_state (flushed_segments (ps_pool s) old) = SEG_MMAP_LOADED \<Longrightarrow>
     search_step lib k efs_nprobe s
       (s\<lparr>ps_pool := replace_flushed_segments_n cap [old] i (ps_pool s), ps_reserved := removeAll i (ps_reserved s),
          ps_listed := listed, ps_stray := old # ps_stray s\<rparr>)"

definition submit_search :: "SegmentSearchInfo list \<Rightarrow> 'd SearchRun" where
  "submit_search infos =
     (let r = ConcurrentVectorSearchOnSegments infos in if infos \<noteq> [] then r else r\<lparr>sr_published := [[]]\<rparr>)"

text \<open>
  The start of a search: \<^verbatim>\<open>vector_search\<close> up to the submission of the tasks. Between the unlock and the filter
  loop other threads may change the pool; here the loop follows at once. With no segment left, the empty
  result is published immediately.
\<close>

definition vector_search ::
  "(nat \<Rightarrow> bool) \<Rightarrow> LSMSnapshot \<Rightarrow> FlushedSegmentPool \<Rightarrow> (FlushedSegmentPool \<times> 'd SearchRun) option" where
  "vector_search got snap pool =
     (case snapshot_segments pool of
        None \<Rightarrow> None
      | Some (segment_indices, pool) \<Rightarrow>
          (case choose_segments got snap segment_indices pool of
             None \<Rightarrow> None
           | Some (infos, pool) \<Rightarrow> Some (pool, submit_search infos)))"


section \<open>The snapshot of the pool\<close>

lemma fold_pins [simp]:
  "head_idx (fold pin_segment is pool) = head_idx pool" "tail_idx (fold pin_segment is pool) = tail_idx pool"
  by (induction "is" arbitrary: pool) simp_all

lemma fold_pins_at:
  "flushed_segments (fold pin_segment is pool) i
     = (flushed_segments pool i)\<lparr>ref_count := ref_count (flushed_segments pool i) + int (count_list is i)\<rparr>"
  by (induction "is" arbitrary: pool) simp_all

lemma collect_segments_dll:
  assumes "dll (flushed_segments pool) p xs None" "xs \<noteq> []" "\<forall>i \<in> set xs. in_used (flushed_segments pool i)"
    and "distinct xs"
  shows "collect_segments (last_opt xs None) (first_opt xs None) acc pool = Some (acc @ xs, fold pin_segment xs pool)"
  using assms
proof (induction xs arbitrary: p acc pool)
  case (Cons i xs)
  show ?case
  proof (cases "xs = []")
    case True
    then show ?thesis using Cons.prems(3) by (simp add: collect_segments.simps [of _ "Some i"])
  next
    case False
    have next_eq: "next_idx (flushed_segments pool i) = first_opt xs None" using Cons.prems(1) by simp
    have last: "last_opt (i # xs) None = last_opt xs None" using False by (simp add: last_opt_def)
    have "last xs \<noteq> i" using False Cons.prems(4) by (metis distinct.simps(2) last_in_set)
    then have not_tail: "last_opt xs None \<noteq> Some i" using False by (simp add: last_opt_def)
    have d: "dll (flushed_segments (pin_segment i pool)) (Some i) xs None"
      using Cons.prems(1) dll_cong [of xs "flushed_segments (pin_segment i pool)" "flushed_segments pool"] by auto
    have "collect_segments (last_opt (i # xs) None) (first_opt (i # xs) None) acc pool
        = collect_segments (last_opt xs None) (first_opt xs None) (acc @ [i]) (pin_segment i pool)"
      using Cons.prems(3) not_tail last next_eq by (simp add: collect_segments.simps [of _ "Some i"])
    also have "\<dots> = Some ((acc @ [i]) @ xs, fold pin_segment xs (pin_segment i pool))"
      by (rule Cons.IH [OF d False]) (use Cons.prems(3,4) in auto)
    finally show ?thesis by simp
  qed
qed simp

lemma snapshot_segments_pool:
  assumes "pool_inv pool xs"
  shows "snapshot_segments pool = Some (xs, fold pin_segment xs pool)"
proof (cases "xs = []")
  case True
  then show ?thesis using assms by (simp add: snapshot_segments_def pool_inv_def pool_links_def)
next
  case False
  then have "collect_segments (tail_idx pool) (head_idx pool) [] pool = Some (xs, fold pin_segment xs pool)"
    using collect_segments_dll [of pool None xs "[]"] assms by (auto simp: pool_inv_def pool_links_def pool_live_def)
  moreover have "head_idx pool \<noteq> None" using assms False by (cases xs) (auto simp: pool_inv_def pool_links_def)
  ultimately show ?thesis unfolding snapshot_segments_def by (simp only: if_False append_Nil)
qed

section \<open>Coverage\<close>

lemma unat_inc: "unat (sid + 1) = Suc (unat sid)" if "(sid :: u32) < UINT32_MAX"
  using that by (simp add: word_less_nat_alt unat_word_ariths)

lemma cover_scan_returns:
  assumes "last_sid < UINT32_MAX"
  shows "cover_scan snap last_sid sid flags =
    Some (fst flags \<and> (\<forall>x \<in> {sid..last_sid}. sid_covered snap x), snd flags \<or> (\<exists>x \<in> {sid..last_sid}. sid_covered snap x))"
proof (induction "unat last_sid + 1 - unat sid" arbitrary: sid flags rule: less_induct)
  case less
  show ?case
  proof (cases "sid \<le> last_sid")
    case True
    then have lt: "sid < UINT32_MAX" using assms by simp
    then have suc: "unat (sid + 1) = Suc (unat sid)" by (rule unat_inc)
    have split: "{sid..last_sid} = insert sid {sid + 1..last_sid}"
    proof (intro set_eqI iffI)
      fix x assume "x \<in> {sid..last_sid}"
      then show "x \<in> insert sid {sid + 1..last_sid}"
        using suc by (cases "unat x = unat sid") (auto simp: word_le_nat_alt word_unat_eq_iff)
    qed (use True suc in \<open>auto simp: word_le_nat_alt\<close>)
    have "cover_scan snap last_sid sid flags = cover_scan snap last_sid (sid + 1)
        (fst flags \<and> sid_covered snap sid, snd flags \<or> sid_covered snap sid)"
      using True by (simp add: cover_scan.simps [of snap last_sid sid])
    also have "\<dots> = Some (fst flags \<and> (\<forall>x \<in> {sid..last_sid}. sid_covered snap x),
        snd flags \<or> (\<exists>x \<in> {sid..last_sid}. sid_covered snap x))"
      by (subst less) (use True suc split in \<open>auto simp: word_le_nat_alt\<close>)
    finally show ?thesis .
  next
    case False
    then show ?thesis by (simp add: cover_scan.simps [of snap last_sid sid])
  qed
qed

text \<open>All ids of the segment in slot \<open>i\<close> are in the snapshot.\<close>

definition fully_covered :: "LSMSnapshot \<Rightarrow> FlushedSegmentPool \<Rightarrow> nat \<Rightarrow> bool" where
  "fully_covered snap pool i \<longleftrightarrow> (\<forall>sid \<in> {sid_start pool i..sid_end pool i}. sid_covered snap sid)"

definition ids_end :: "FlushedSegmentPool \<Rightarrow> nat list \<Rightarrow> bool" where
  "ids_end pool xs \<longleftrightarrow> (\<forall>i \<in> set xs. sid_end pool i < UINT32_MAX)"


lemma fully_covered_cong:
  "sid_start p i = sid_start q i \<Longrightarrow> sid_end p i = sid_end q i \<Longrightarrow> fully_covered snap p i = fully_covered snap q i"
  by (simp add: fully_covered_def)

text \<open>Unpinning the covered segments of \<open>is\<close>, in the order of the loop.\<close>

definition unpin_covered :: "(nat \<Rightarrow> bool) \<Rightarrow> nat list \<Rightarrow> FlushedSegmentPool \<Rightarrow> FlushedSegmentPool" where
  "unpin_covered got is pool = fold (\<lambda>i. decrement_flushed_segment_ref_count (got i) i) is pool"

lemma decrement_pinned:
  "ref_count (flushed_segments p i) > 1 \<Longrightarrow>
     flushed_segments (decrement_flushed_segment_ref_count g i p) =
       (flushed_segments p)(i := (flushed_segments p i)\<lparr>ref_count := ref_count (flushed_segments p i) - 1\<rparr>)"
  by (auto simp: decrement_sel dec_seg_def)

lemma choose_segments_filter:
  assumes "ids_end pool is" "distinct is" "\<forall>i \<in> set is. ref_count (flushed_segments pool i) > 1"
  shows "\<exists>p. choose_segments got snap is pool =
      Some (map (search_info pool) (filter (\<lambda>i. \<not> fully_covered snap pool i) is), p)
    \<and> flushed_segments p = (\<lambda>i. if i \<in> set is \<and> fully_covered snap pool i
         then (flushed_segments pool i)\<lparr>ref_count := ref_count (flushed_segments pool i) - 1\<rparr> else flushed_segments pool i)
    \<and> head_idx p = head_idx pool \<and> tail_idx p = tail_idx pool"
  using assms
proof (induction "is" arbitrary: pool)
  case (Cons i "is")
  have scan: "cover_scan snap (sid_end pool i) (sid_start pool i) (True, False)
      = Some (fully_covered snap pool i, \<exists>x \<in> {sid_start pool i..sid_end pool i}. sid_covered snap x)"
    using cover_scan_returns [of "sid_end pool i" snap "sid_start pool i" "(True, False)"] Cons.prems(1)
    by (simp add: ids_end_def fully_covered_def)
  have "i \<notin> set is" using Cons.prems(2) by simp
  show ?case
  proof (cases "fully_covered snap pool i")
    case True
    let ?q = "decrement_flushed_segment_ref_count (got i) i pool"
    have q: "flushed_segments ?q = (flushed_segments pool)(i := (flushed_segments pool i)\<lparr>ref_count := ref_count (flushed_segments pool i) - 1\<rparr>)"
      using Cons.prems(3) by (simp add: decrement_pinned)
    have same: "fully_covered snap ?q j = fully_covered snap pool j" for j
      by (rule fully_covered_cong) (simp_all add: q)
    have info: "map (search_info ?q) (filter P is) = map (search_info pool) (filter P is)" for P
      using \<open>i \<notin> set is\<close> by (auto simp: search_info_def q)
    have prems: "ids_end ?q is" "distinct is" "\<forall>j \<in> set is. ref_count (flushed_segments ?q j) > 1"
      using Cons.prems \<open>i \<notin> set is\<close> by (auto simp: q ids_end_def)
    obtain p where p: "choose_segments got snap is ?q =
          Some (map (search_info pool) (filter (\<lambda>i. \<not> fully_covered snap pool i) is), p)"
        "flushed_segments p = (\<lambda>j. if j \<in> set is \<and> fully_covered snap pool j
           then (flushed_segments ?q j)\<lparr>ref_count := ref_count (flushed_segments ?q j) - 1\<rparr> else flushed_segments ?q j)"
        "head_idx p = head_idx ?q" "tail_idx p = tail_idx ?q"
      using Cons.IH [OF prems] unfolding same info by blast
    have "choose_segments got snap (i # is) pool = choose_segments got snap is ?q"
      using True scan by simp
    moreover have "flushed_segments p = (\<lambda>j. if j \<in> set (i # is) \<and> fully_covered snap pool j
         then (flushed_segments pool j)\<lparr>ref_count := ref_count (flushed_segments pool j) - 1\<rparr> else flushed_segments pool j)"
      unfolding p(2) q using True \<open>i \<notin> set is\<close> by (intro ext) auto
    ultimately show ?thesis using p True by (auto simp: decrement_sel)
  next
    case False
    obtain p where p: "choose_segments got snap is pool =
          Some (map (search_info pool) (filter (\<lambda>i. \<not> fully_covered snap pool i) is), p)"
        "flushed_segments p = (\<lambda>j. if j \<in> set is \<and> fully_covered snap pool j
           then (flushed_segments pool j)\<lparr>ref_count := ref_count (flushed_segments pool j) - 1\<rparr> else flushed_segments pool j)"
        "head_idx p = head_idx pool" "tail_idx p = tail_idx pool"
      using Cons.IH [of pool] Cons.prems by (auto simp: ids_end_def)
    have "choose_segments got snap (i # is) pool =
        Some (map (search_info pool) (filter (\<lambda>i. \<not> fully_covered snap pool i) (i # is)), p)"
      using False scan p(1) by simp
    moreover have "flushed_segments p = (\<lambda>j. if j \<in> set (i # is) \<and> fully_covered snap pool j
         then (flushed_segments pool j)\<lparr>ref_count := ref_count (flushed_segments pool j) - 1\<rparr> else flushed_segments pool j)"
      unfolding p(2) using False by (intro ext) auto
    ultimately show ?thesis using p by auto
  qed
qed simp

lemma count_list_distinct: "distinct xs \<Longrightarrow> count_list xs x = (if x \<in> set xs then 1 else 0)"
  by (induction xs) auto

text \<open>The slots that a search of the pool has to look into.\<close>

definition uncovered :: "LSMSnapshot \<Rightarrow> FlushedSegmentPool \<Rightarrow> nat list \<Rightarrow> nat list" where
  "uncovered snap pool xs = filter (\<lambda>i. \<not> fully_covered snap pool i) xs"

lemma vector_search_start:
  assumes inv: "pool_inv pool xs" and ids: "ids_end pool xs"
  obtains p where "vector_search got snap pool = Some (p, submit_search (map (search_info pool) (uncovered snap pool xs)))"
    "flushed_segments p = (\<lambda>i. if i \<in> set (uncovered snap pool xs)
       then (flushed_segments pool i)\<lparr>ref_count := ref_count (flushed_segments pool i) + 1\<rparr> else flushed_segments pool i)"
    "pool_inv p xs"
proof -
  let ?q = "fold pin_segment xs pool" and ?u = "uncovered snap pool xs"
  have dist: "distinct xs" using inv by (simp add: pool_inv_def pool_links_def)
  have q: "flushed_segments ?q = (\<lambda>i. if i \<in> set xs
      then (flushed_segments pool i)\<lparr>ref_count := ref_count (flushed_segments pool i) + 1\<rparr> else flushed_segments pool i)"
    by (intro ext) (simp add: fold_pins_at count_list_distinct [OF dist])
  have same: "fully_covered snap ?q i = fully_covered snap pool i" "search_info ?q i = search_info pool i" for i
    by (simp_all add: fully_covered_def search_info_def Let_def q)
  have "\<forall>i \<in> set xs. ref_count (flushed_segments ?q i) > 1" "ids_end ?q xs"
    using inv ids by (auto simp: q pool_inv_def pool_live_def ids_end_def)
  from choose_segments_filter [OF this(2) dist this(1), of got snap]
  obtain p where p: "choose_segments got snap xs ?q = Some (map (search_info pool) ?u, p)"
    "flushed_segments p = (\<lambda>i. if i \<in> set xs \<and> fully_covered snap pool i
         then (flushed_segments ?q i)\<lparr>ref_count := ref_count (flushed_segments ?q i) - 1\<rparr> else flushed_segments ?q i)"
    "head_idx p = head_idx pool" "tail_idx p = tail_idx pool"
    by (auto simp: same uncovered_def)
  have at: "flushed_segments p = (\<lambda>i. if i \<in> set ?u
       then (flushed_segments pool i)\<lparr>ref_count := ref_count (flushed_segments pool i) + 1\<rparr> else flushed_segments pool i)"
    unfolding p(2) q by (intro ext) (auto simp: uncovered_def)
  have "dll (flushed_segments p) None xs None"
    using inv dll_cong [of xs "flushed_segments p" "flushed_segments pool" None None]
    by (auto simp: at pool_inv_def pool_links_def)
  moreover have "map (sid_start p) xs = map (sid_start pool) xs" by (simp add: at)
  then have "pool_sorted p xs" using inv by (simp only: pool_inv_def pool_sorted_def)
  moreover have "pool_live p xs" using inv by (auto simp: pool_inv_def pool_live_def at)
  ultimately have "pool_inv p xs"
    using inv p(3,4) by (simp add: pool_inv_def pool_links_def)
  moreover have "vector_search got snap pool = Some (p, submit_search (map (search_info pool) ?u))"
    by (simp add: vector_search_def snapshot_segments_pool [OF inv] p(1))
  ultimately show thesis using that at by blast
qed


section \<open>Counting references\<close>

text \<open>A task holds its segment until it has unpinned it.\<close>

definition task_holds :: "'d SearchRun \<Rightarrow> nat \<Rightarrow> nat \<Rightarrow> bool" where
  "task_holds r j i \<longleftrightarrow>
     j < length (sr_pc r) \<and> sr_pc r ! j \<in> {TSearch, TUnpin} \<and> ss_segment_idx (sr_segments r ! j) = i"

definition held :: "'d SearchRun \<Rightarrow> nat \<Rightarrow> bool" where
  "held r i \<longleftrightarrow> (\<exists>j. task_holds r j i)"

definition users :: "('d::linorder) PoolSystem \<Rightarrow> nat \<Rightarrow> int" where
  "users s i = of_bool (i \<in> set (ps_listed s)) + int (count_list (ps_others s) i) + of_bool (held (ps_run s) i)"

definition refs_ok :: "('d::linorder) PoolSystem \<Rightarrow> bool" where
  "refs_ok s \<longleftrightarrow> (\<forall>i. users s i > 0 \<longrightarrow>
     in_used (flushed_segments (ps_pool s) i) \<and> ref_count (flushed_segments (ps_pool s) i) = users s i)"

definition reserved_ok :: "('d::linorder) PoolSystem \<Rightarrow> bool" where
  "reserved_ok s \<longleftrightarrow> (\<forall>i \<in> set (ps_reserved s). users s i = 0 \<and> loaded_slot (ps_pool s) (ps_listed s) i)"

text \<open>Of a captured segment only the content of its bitmap may change.\<close>

definition same_buffers :: "SegmentSearchInfo \<Rightarrow> SegmentSearchInfo \<Rightarrow> bool" where
  "same_buffers a b \<longleftrightarrow>
     a\<lparr>ss_bitmap := None\<rparr> = b\<lparr>ss_bitmap := None\<rparr> \<and> (ss_bitmap a = None \<longleftrightarrow> ss_bitmap b = None)"

definition buffers_ok :: "('d::linorder) PoolSystem \<Rightarrow> bool" where
  "buffers_ok s \<longleftrightarrow> (\<forall>j i. task_holds (ps_run s) j i \<longrightarrow> same_buffers (search_info (ps_pool s) i) (sr_segments (ps_run s) ! j))"

definition tasks_distinct :: "'d SearchRun \<Rightarrow> bool" where
  "tasks_distinct r \<longleftrightarrow> length (sr_pc r) = length (sr_segments r) \<and> distinct (map ss_segment_idx (sr_segments r))"

definition pool_sys_inv :: "('d::linorder) PoolSystem \<Rightarrow> bool" where
  "pool_sys_inv s \<longleftrightarrow> pool_inv (ps_pool s) (ps_listed s) \<and> tasks_distinct (ps_run s)
     \<and> refs_ok s \<and> reserved_ok s \<and> buffers_ok s"

lemma search_info_payload:
  "payload (flushed_segments p i) = payload (flushed_segments q i) \<Longrightarrow> search_info p i = search_info q i"
  using payload_eqD [of "flushed_segments p i" "flushed_segments q i"] by (simp add: search_info_def Let_def)

lemma same_buffers_trans: "same_buffers a b \<Longrightarrow> same_buffers b c \<Longrightarrow> same_buffers a c"
  by (simp add: same_buffers_def)

lemma users_nonneg: "users s i \<ge> 0"
  by (simp add: users_def)

text \<open>
  A step on the pool keeps the system sound when every slot still in use keeps its buffers and has the
  right count.
\<close>

lemma pool_sys_invI:
  assumes inv: "pool_sys_inv s" and pool: "pool_inv p listed"
    and s': "s' = s\<lparr>ps_pool := p, ps_listed := listed, ps_others := others, ps_reserved := res, ps_run := r\<rparr>"
    and run: "sr_segments r = sr_segments (ps_run s)" "length (sr_pc r) = length (sr_pc (ps_run s))"
      "\<And>j i. task_holds r j i \<Longrightarrow> task_holds (ps_run s) j i"
    and refs: "\<And>i. users s' i > 0 \<Longrightarrow> in_used (flushed_segments p i) \<and> ref_count (flushed_segments p i) = users s' i"
    and reserved: "\<And>i. i \<in> set res \<Longrightarrow> users s' i = 0 \<and> loaded_slot p listed i"
    and same: "\<And>i. held r i \<Longrightarrow> same_buffers (search_info p i) (search_info (ps_pool s) i)"
  shows "pool_sys_inv s'"
proof -
  have "buffers_ok s'"
    unfolding buffers_ok_def
  proof (intro allI impI)
    fix j i assume "task_holds (ps_run s') j i"
    then have r: "task_holds r j i" by (simp add: s')
    note h = run(3) [OF r]
    have "same_buffers (search_info p i) (search_info (ps_pool s) i)" using same r by (auto simp: held_def)
    moreover have "same_buffers (search_info (ps_pool s) i) (sr_segments (ps_run s) ! j)"
      using inv h by (simp add: pool_sys_inv_def buffers_ok_def)
    ultimately show "same_buffers (search_info (ps_pool s') i) (sr_segments (ps_run s') ! j)"
      using same_buffers_trans by (simp add: s' run(1))
  qed
  moreover have "refs_ok s'" "reserved_ok s'" using refs reserved by (simp_all add: refs_ok_def reserved_ok_def s')
  moreover have "pool_inv (ps_pool s') (ps_listed s')" "tasks_distinct (ps_run s')"
    using inv pool by (simp_all add: pool_sys_inv_def s' tasks_distinct_def run)
  ultimately show ?thesis by (simp add: pool_sys_inv_def)
qed

lemma same_buffers_refl [simp]: "same_buffers a a"
  by (simp add: same_buffers_def)

lemma count_list_remove1: "i \<in> set xs \<Longrightarrow> count_list (remove1 i xs) j = count_list xs j - of_bool (j = i)"
  by (induction xs) auto

lemma count_list_pos: "0 < count_list xs i \<longleftrightarrow> i \<in> set xs"
  by (simp add: count_list_0_iff flip: neq0_conv)


lemma pool_inv_cong:
  assumes "pool_inv q xs" "head_idx p = head_idx q" "tail_idx p = tail_idx q"
    and same: "\<And>i. i \<in> set xs \<Longrightarrow> prev_idx (flushed_segments p i) = prev_idx (flushed_segments q i)
      \<and> next_idx (flushed_segments p i) = next_idx (flushed_segments q i)
      \<and> in_used (flushed_segments p i) \<and> sid_start p i = sid_start q i \<and> ref_count (flushed_segments p i) \<ge> 1"
  shows "pool_inv p xs"
proof -
  have "dll (flushed_segments p) None xs None = dll (flushed_segments q) None xs None"
    using same by (intro dll_cong) blast
  moreover have "map (sid_start p) xs = map (sid_start q) xs" using same by simp
  then have "pool_sorted p xs" using assms(1) by (simp only: pool_inv_def pool_sorted_def)
  moreover have "pool_live p xs" using assms(1) same by (simp add: pool_inv_def pool_live_def)
  ultimately show ?thesis using assms(1-3) by (simp add: pool_inv_def pool_links_def)
qed

lemma users_listed: "i \<in> set (ps_listed s) \<Longrightarrow> users s i \<ge> 1"
  by (simp add: users_def)

text \<open>A reference is given back: by another thread, or by a task.\<close>

lemma unpin_keeps_inv:
  assumes inv: "pool_sys_inv s" and i: "users s i > 0"
    and s': "s' = s\<lparr>ps_pool := decrement_flushed_segment_ref_count got i (ps_pool s), ps_others := others, ps_run := r\<rparr>"
    and run: "sr_segments r = sr_segments (ps_run s)" "length (sr_pc r) = length (sr_pc (ps_run s))"
      "\<And>j i. task_holds r j i \<Longrightarrow> task_holds (ps_run s) j i"
    and users: "\<And>j. users s' j = users s j - of_bool (j = i)"
  shows "pool_sys_inv s'"
proof (rule pool_sys_invI [OF inv _ _ run, where p = "decrement_flushed_segment_ref_count got i (ps_pool s)"
      and listed = "ps_listed s" and others = others and res = "ps_reserved s"])
  let ?p = "decrement_flushed_segment_ref_count got i (ps_pool s)"
  have refs: "in_used (flushed_segments (ps_pool s) j) \<and> ref_count (flushed_segments (ps_pool s) j) = users s j"
    if "users s j > 0" for j
    using inv that by (simp add: pool_sys_inv_def refs_ok_def)
  have kept: "flushed_segments ?p j = (flushed_segments (ps_pool s) j)\<lparr>ref_count := users s' j\<rparr>" if "users s' j > 0" for j
    using that refs [of j] refs [OF i] users [of j] by (auto simp: decrement_sel dec_seg_def split: if_splits)
  show ref': "in_used (flushed_segments ?p j) \<and> ref_count (flushed_segments ?p j) = users s' j" if "users s' j > 0" for j
    using that refs [of j] users [of j] kept [OF that] by (cases "j = i") auto
  have listed: "users s' j > 0" if "j \<in> set (ps_listed s)" for j
    using users_listed [of j s'] that by (simp add: s')
  show "pool_inv ?p (ps_listed s)"
  proof (rule pool_inv_cong [of "ps_pool s"])
    fix j assume j: "j \<in> set (ps_listed s)"
    show "prev_idx (flushed_segments ?p j) = prev_idx (flushed_segments (ps_pool s) j)
      \<and> next_idx (flushed_segments ?p j) = next_idx (flushed_segments (ps_pool s) j)
      \<and> in_used (flushed_segments ?p j) \<and> sid_start ?p j = sid_start (ps_pool s) j \<and> ref_count (flushed_segments ?p j) \<ge> 1"
      using kept [OF listed [OF j]] ref' [OF listed [OF j]] listed [OF j] by simp
  qed (use inv in \<open>simp_all add: pool_sys_inv_def decrement_sel\<close>)
  show "users s' j = 0 \<and> loaded_slot ?p (ps_listed s) j" if "j \<in> set (ps_reserved s)" for j
  proof -
    have "users s j = 0" "loaded_slot (ps_pool s) (ps_listed s) j"
      using inv that by (simp_all add: pool_sys_inv_def reserved_ok_def)
    then show ?thesis using i users [of j] by (auto simp: loaded_slot_def decrement_sel)
  qed
  show "same_buffers (search_info ?p j) (search_info (ps_pool s) j)" if "held r j" for j
  proof -
    have "users s' j > 0" using that by (simp add: users_def s')
    from kept [OF this] show ?thesis
      by (metis payload_upd(3) same_buffers_refl search_info_payload)
  qed
qed (simp add: s')


lemma decrement_loaded [simp]: "head_idx (discard_reserved_segment i p) = head_idx p" "tail_idx (discard_reserved_segment i p) = tail_idx p"
  "flushed_segments (discard_reserved_segment i p) = (flushed_segments p)(i := free_segment_slot (flushed_segments p i))"
  by (simp_all add: discard_reserved_segment_def)

text \<open>A change of slots that nobody uses.\<close>

lemma unused_slot_keeps_inv:
  assumes inv: "pool_sys_inv s"
    and heads: "head_idx p = head_idx (ps_pool s)" "tail_idx p = tail_idx (ps_pool s)"
    and same: "\<And>i. users s i > 0 \<Longrightarrow> flushed_segments p i = flushed_segments (ps_pool s) i"
    and res: "\<And>i. i \<in> set res \<Longrightarrow> users s i = 0 \<and> loaded_slot p (ps_listed s) i"
  shows "pool_sys_inv (s\<lparr>ps_pool := p, ps_reserved := res\<rparr>)"
proof (rule pool_sys_invI [OF inv, where p = p and listed = "ps_listed s" and others = "ps_others s"
      and res = res and r = "ps_run s"])
  let ?s = "s\<lparr>ps_pool := p, ps_reserved := res\<rparr>"
  have users: "users ?s i = users s i" for i by (simp add: users_def)
  have refs: "in_used (flushed_segments (ps_pool s) j) \<and> ref_count (flushed_segments (ps_pool s) j) = users s j"
    if "users s j > 0" for j
    using inv that by (simp add: pool_sys_inv_def refs_ok_def)
  show "in_used (flushed_segments p i) \<and> ref_count (flushed_segments p i) = users ?s i" if "users ?s i > 0" for i
    using refs [of i] same [of i] that by (simp add: users)
  show "pool_inv p (ps_listed s)"
  proof (rule pool_inv_cong [OF _ heads])
    fix i assume "i \<in> set (ps_listed s)"
    then have u: "users s i \<ge> 1" by (rule users_listed)
    then have "flushed_segments p i = flushed_segments (ps_pool s) i" by (intro same) simp
    then show "prev_idx (flushed_segments p i) = prev_idx (flushed_segments (ps_pool s) i)
      \<and> next_idx (flushed_segments p i) = next_idx (flushed_segments (ps_pool s) i)
      \<and> in_used (flushed_segments p i) \<and> sid_start p i = sid_start (ps_pool s) i \<and> ref_count (flushed_segments p i) \<ge> 1"
      using refs [of i] u by simp
  qed (use inv in \<open>simp add: pool_sys_inv_def\<close>)
  show "users ?s i = 0 \<and> loaded_slot p (ps_listed s) i" if "i \<in> set res" for i
    using res [OF that] by (simp add: users)
  show "same_buffers (search_info p i) (search_info (ps_pool s) i)" if "held (ps_run s) i" for i
  proof -
    have "users s i > 0" using that by (simp add: users_def)
    from same [OF this] show ?thesis by (simp add: search_info_def)
  qed
qed simp_all

lemma pin_keeps_inv:
  assumes inv: "pool_sys_inv s" and i: "i \<in> set (ps_listed s)"
  shows "pool_sys_inv (s\<lparr>ps_pool := pin_segment i (ps_pool s), ps_others := i # ps_others s\<rparr>)"
proof (rule pool_sys_invI [OF inv, where p = "pin_segment i (ps_pool s)" and listed = "ps_listed s"
      and others = "i # ps_others s" and res = "ps_reserved s" and r = "ps_run s"])
  let ?s = "s\<lparr>ps_pool := pin_segment i (ps_pool s), ps_others := i # ps_others s\<rparr>"
  have users: "users ?s j = users s j + of_bool (j = i)" for j by (simp add: users_def)
  have refs: "in_used (flushed_segments (ps_pool s) j) \<and> ref_count (flushed_segments (ps_pool s) j) = users s j"
    if "users s j > 0" for j
    using inv that by (simp add: pool_sys_inv_def refs_ok_def)
  show "in_used (flushed_segments (pin_segment i (ps_pool s)) j)
      \<and> ref_count (flushed_segments (pin_segment i (ps_pool s)) j) = users ?s j" if "users ?s j > 0" for j
    using refs [of j] users_listed [OF i] that by (auto simp: users)
  show "pool_inv (pin_segment i (ps_pool s)) (ps_listed s)"
    by (rule pool_inv_cong [of "ps_pool s"]) (use inv in \<open>auto simp: pool_sys_inv_def pool_inv_def pool_live_def\<close>)
  show "users ?s j = 0 \<and> loaded_slot (pin_segment i (ps_pool s)) (ps_listed s) j" if "j \<in> set (ps_reserved s)" for j
    using inv that i by (auto simp: pool_sys_inv_def reserved_ok_def loaded_slot_def users)
  show "same_buffers (search_info (pin_segment i (ps_pool s)) j) (search_info (ps_pool s) j)" for j
    by (simp add: search_info_def Let_def)
qed simp_all

lemma mark_keeps_inv:
  assumes inv: "pool_sys_inv s" and bm: "bitmap_ptr (flushed_segments (ps_pool s) i) \<noteq> None"
    and i: "i \<in> set (ps_listed s)"
  shows "pool_sys_inv (s\<lparr>ps_pool := upd_seg i (\<lambda>s. s\<lparr>bitmap_ptr := Some b, delete_count := d, is_compacting := c\<rparr>) (ps_pool s)\<rparr>)"
    (is "pool_sys_inv ?s")
proof (rule pool_sys_invI [OF inv, where p = "ps_pool ?s" and listed = "ps_listed s"
      and others = "ps_others s" and res = "ps_reserved s" and r = "ps_run s"])
  have users: "users ?s j = users s j" for j by (simp add: users_def)
  have refs: "in_used (flushed_segments (ps_pool s) j) \<and> ref_count (flushed_segments (ps_pool s) j) = users s j"
    if "users s j > 0" for j
    using inv that by (simp add: pool_sys_inv_def refs_ok_def)
  show "in_used (flushed_segments (ps_pool ?s) j) \<and> ref_count (flushed_segments (ps_pool ?s) j) = users ?s j"
    if "users ?s j > 0" for j
    using refs [of j] that by (cases "j = i") (simp_all add: users)
  show "pool_inv (ps_pool ?s) (ps_listed s)"
    by (rule pool_inv_cong [of "ps_pool s"]) (use inv in \<open>auto simp: pool_sys_inv_def pool_inv_def pool_live_def\<close>)
  show "users ?s j = 0 \<and> loaded_slot (ps_pool ?s) (ps_listed s) j" if "j \<in> set (ps_reserved s)" for j
    using inv that i by (auto simp: pool_sys_inv_def reserved_ok_def loaded_slot_def users)
  show "same_buffers (search_info (ps_pool ?s) j) (search_info (ps_pool s) j)" for j
    using bm by (simp add: search_info_def Let_def same_buffers_def)
qed simp_all

lemma register_refs:
  assumes "pool_inv pool xs" "idx \<notin> set xs" "register_flushed_segment cap idx pool = Some p"
  shows "loaded_slot pool xs idx \<Longrightarrow> pool_inv p (insert_by_start pool (sid_start pool idx) idx xs)"
    and "payload (flushed_segments p i) = payload (flushed_segments pool i)"
    and "ref_count (flushed_segments p i) = (if i = idx then 1 else ref_count (flushed_segments pool i))"
proof -
  have links: "pool_links pool xs" using assms(1) by (simp add: pool_inv_def)
  obtain q where q: "register_flushed_segment cap idx pool
       = Some (seg_stats cap idx 1 (q\<lparr>flushed_segment_count := flushed_segment_count q + 1\<rparr>))"
    "\<And>i. ref_count (flushed_segments q i) = (if i = idx then 1 else ref_count (flushed_segments pool i))"
    "\<And>i. payload (flushed_segments q i) = payload (flushed_segments pool i)"
    by (rule register_flushed_segment_linked [OF links assms(2), where cap = cap]) blast
  then show "payload (flushed_segments p i) = payload (flushed_segments pool i)"
    "ref_count (flushed_segments p i) = (if i = idx then 1 else ref_count (flushed_segments pool i))"
    using assms(3) by auto
  show "pool_inv p (insert_by_start pool (sid_start pool idx) idx xs)" if "loaded_slot pool xs idx"
    using register_flushed_segment_inv [OF assms(1) that, of cap] assms(3) by simp
qed

lemma replace_retired:
  assumes dist: "distinct Os" "Os \<noteq> []" and i: "i \<in> set Os" "i \<noteq> idx" and r: "ref_count (flushed_segments pool i) > 1"
  shows "payload (flushed_segments (replace_flushed_segments_n cap Os idx pool) i) = payload (flushed_segments pool i)"
    and "ref_count (flushed_segments (replace_flushed_segments_n cap Os idx pool) i) = ref_count (flushed_segments pool i) - 1"
  using i r dist by (simp_all add: replace_flushed_segments_n_def Let_def relink_span_payload relink_span_frame
      retire_refs_segments [OF dist(1)] dec_seg_def)


lemma register_keeps_inv:
  assumes inv: "pool_sys_inv s" and i: "i \<in> set (ps_reserved s)"
    and reg: "register_flushed_segment cap i (ps_pool s) = Some p"
  shows "pool_sys_inv (s\<lparr>ps_pool := p, ps_reserved := removeAll i (ps_reserved s),
    ps_listed := insert_by_start (ps_pool s) (sid_start (ps_pool s) i) i (ps_listed s)\<rparr>)" (is "pool_sys_inv ?s")
proof (rule pool_sys_invI [OF inv, where p = p and listed = "ps_listed ?s" and others = "ps_others s"
      and res = "ps_reserved ?s" and r = "ps_run s"])
  have new: "users s i = 0" "loaded_slot (ps_pool s) (ps_listed s) i" "i \<notin> set (ps_listed s)"
    using inv i by (simp_all add: pool_sys_inv_def reserved_ok_def loaded_slot_def)
  have pinv: "pool_inv (ps_pool s) (ps_listed s)" using inv by (simp add: pool_sys_inv_def)
  note r = register_refs [OF pinv new(3) reg]
  have users: "users ?s j = (if j = i then 1 else users s j)" for j
    using new(1,3) by (auto simp: users_def)
  have refs: "in_used (flushed_segments (ps_pool s) j) \<and> ref_count (flushed_segments (ps_pool s) j) = users s j"
    if "users s j > 0" for j
    using inv that by (simp add: pool_sys_inv_def refs_ok_def)
  show "in_used (flushed_segments p j) \<and> ref_count (flushed_segments p j) = users ?s j" if "users ?s j > 0" for j
  proof (cases "j = i")
    case True
    then show ?thesis using new(2) payload_eqD(1) [OF r(2) [of i]] r(3) [of i] by (simp add: users loaded_slot_def)
  next
    case False
    then show ?thesis using refs [of j] that payload_eqD(1) [OF r(2) [of j]] r(3) [of j] unfolding users by simp
  qed
  show "pool_inv p (ps_listed ?s)" using r(1) [OF new(2)] by simp
  show "users ?s j = 0 \<and> loaded_slot p (ps_listed ?s) j" if "j \<in> set (ps_reserved ?s)" for j
    using inv that payload_eqD(1) [OF r(2) [of j]]
    by (auto simp: pool_sys_inv_def reserved_ok_def loaded_slot_def users)
  show "same_buffers (search_info p j) (search_info (ps_pool s) j)" for j
    using search_info_payload [OF r(2)] by simp
qed simp_all

lemma replace_keeps_inv:
  assumes inv: "pool_sys_inv s" and i: "i \<in> set (ps_reserved s)"
    and split: "ps_listed s = before @ olds @ after" "olds \<noteq> []"
    and start: "sid_start (ps_pool s) i = sid_start (ps_pool s) (hd olds)"
  shows "pool_sys_inv (s\<lparr>ps_pool := replace_flushed_segments_n cap olds i (ps_pool s),
    ps_reserved := removeAll i (ps_reserved s), ps_listed := before @ i # after\<rparr>)" (is "pool_sys_inv ?s")
proof (rule pool_sys_invI [OF inv, where p = "ps_pool ?s" and listed = "ps_listed ?s" and others = "ps_others s"
      and res = "ps_reserved ?s" and r = "ps_run s"])
  let ?p = "replace_flushed_segments_n cap olds i (ps_pool s)"
  have new: "users s i = 0" "loaded_slot (ps_pool s) (ps_listed s) i" "i \<notin> set (ps_listed s)"
    using inv i by (simp_all add: pool_sys_inv_def reserved_ok_def loaded_slot_def)
  have pinv: "pool_inv (ps_pool s) (before @ olds @ after)" using inv split(1) by (simp add: pool_sys_inv_def)
  then have dist: "distinct (before @ olds @ after)" by (simp add: pool_inv_def pool_links_def)
  then have dist_olds: "distinct olds" by simp
  have users: "users ?s j = (if j = i then 1 else users s j - of_bool (j \<in> set olds))" for j
    using new(1,3) dist split(1) by (auto simp: users_def)
  have refs: "in_used (flushed_segments (ps_pool s) j) \<and> ref_count (flushed_segments (ps_pool s) j) = users s j"
    if "users s j > 0" for j
    using inv that by (simp add: pool_sys_inv_def refs_ok_def)
  have kept: "payload (flushed_segments ?p j) = payload (flushed_segments (ps_pool s) j)
      \<and> ref_count (flushed_segments ?p j) = users ?s j" if j: "users ?s j > 0" "j \<noteq> i" for j
  proof (cases "j \<in> set olds")
    case True
    then have "users s j > 1" using j by (simp add: users)
    then show ?thesis
      using replace_retired [OF dist_olds split(2) True j(2), of "ps_pool s" cap] refs [of j] j True by (simp add: users)
  next
    case False
    then show ?thesis
      using replace_payload [OF dist_olds False] replace_frame(6) [OF dist_olds split(2) False, of cap i "ps_pool s"]
        refs [of j] j by (simp add: users)
  qed
  have i_new: "i \<notin> set olds" using new(3) split(1) by simp
  have new_seg: "in_used (flushed_segments ?p i) \<and> ref_count (flushed_segments ?p i) = 1"
    using new(2) replace_frame(1,6) [OF dist_olds split(2) i_new, of cap i "ps_pool s"] by (simp add: loaded_slot_def)
  show "in_used (flushed_segments (ps_pool ?s) j) \<and> ref_count (flushed_segments (ps_pool ?s) j) = users ?s j"
    if "users ?s j > 0" for j
  proof (cases "j = i")
    case False
    have "users s j > 0" using that False by (cases "j \<in> set olds") (simp_all add: users)
    then show ?thesis using kept [OF that False] refs [of j] payload_eqD(1) [of "flushed_segments ?p j"] by simp
  qed (use new_seg in \<open>simp add: users\<close>)
  show "pool_inv (ps_pool ?s) (ps_listed ?s)"
    using replace_flushed_segments_inv [OF pinv split(2) _ start, of cap] new(2) split(1) by simp
  show "users ?s j = 0 \<and> loaded_slot (ps_pool ?s) (ps_listed ?s) j" if "j \<in> set (ps_reserved ?s)" for j
  proof -
    have j: "users s j = 0" "loaded_slot (ps_pool s) (ps_listed s) j" "j \<noteq> i"
      using inv that by (auto simp: pool_sys_inv_def reserved_ok_def)
    then have "j \<notin> set olds" using split(1) by (auto simp: loaded_slot_def)
    then show ?thesis using j split(1) replace_frame(1) [OF dist_olds split(2)] by (auto simp: users loaded_slot_def)
  qed
  show "same_buffers (search_info (ps_pool ?s) j) (search_info (ps_pool s) j)" if "held (ps_run s) j" for j
  proof -
    have "held (ps_run ?s) j" using that by simp
    then have "users ?s j > 0" "users s j > 0" using that by (simp_all add: users_def)
    then have "users ?s j > 0" "j \<noteq> i" using new(1) by auto
    then have "search_info (ps_pool ?s) j = search_info (ps_pool s) j"
      using kept by (intro search_info_payload) simp
    then show ?thesis by simp
  qed
qed simp_all

section \<open>The tasks\<close>

lemma task_holds_set_pc:
  "task_holds (set_pc j pc r) k i \<longleftrightarrow>
     (if k = j then j < length (sr_pc r) \<and> pc \<in> {TSearch, TUnpin} \<and> ss_segment_idx (sr_segments r ! j) = i
      else task_holds r k i)"
  by (auto simp: task_holds_def set_pc_def nth_list_update)

lemma task_holds_unique:
  "tasks_distinct r \<Longrightarrow> task_holds r j i \<Longrightarrow> task_holds r k i \<Longrightarrow> j = k"
  by (auto simp: task_holds_def tasks_distinct_def distinct_conv_nth)

text \<open>What a run of a search has done so far.\<close>

definition run_ok :: "'d index_library \<Rightarrow> nat \<Rightarrow> nat \<Rightarrow> ('d::linorder) SearchRun \<Rightarrow> bool" where
  "run_ok lib k efs_nprobe r \<longleftrightarrow>
     length (sr_pc r) = length (sr_segments r) \<and> length (sr_results r) = length (sr_segments r)
     \<and> sr_remaining r = int (length (filter (\<lambda>pc. pc \<noteq> TDone) (sr_pc r)))
     \<and> (\<forall>j < length (sr_pc r). sr_pc r ! j \<noteq> TSearch \<longrightarrow>
          segment_pairs lib k efs_nprobe (sr_segments r ! j) = Some (sr_results r ! j))
     \<and> sr_published r = (if \<forall>pc \<in> set (sr_pc r). pc = TDone then [merge_all_segment_results k (sr_results r)] else [])"


lemma length_filter_update:
  "i < length xs \<Longrightarrow> int (length (filter P (xs[i := y]))) = int (length (filter P xs)) - of_bool (P (xs ! i)) + of_bool (P y)"
proof (induction xs arbitrary: i)
  case (Cons x xs)
  then show ?case by (cases i) auto
qed simp

lemma all_done_filter: "(\<forall>pc \<in> set pcs. pc = TDone) \<longleftrightarrow> length (filter (\<lambda>pc. pc \<noteq> TDone) pcs) = 0"
  by (auto simp: filter_empty_conv)

lemma submit_search_ok: "run_ok lib k efs_nprobe (submit_search infos)"
  by (cases "infos = []") (auto simp: run_ok_def submit_search_def ConcurrentVectorSearchOnSegments_def Let_def
      merge_all_segment_results_def filter_replicate)

lemma set_pc_run_ok:
  assumes ok: "run_ok lib k efs_nprobe r" and i: "i < length (sr_pc r)" "sr_pc r ! i \<noteq> TDone" "pc \<noteq> TDone"
    and pairs: "segment_pairs lib k efs_nprobe (sr_segments r ! i) = Some pairs"
    and results: "res = (sr_results r)[i := pairs]"
  shows "run_ok lib k efs_nprobe (set_pc i pc (r\<lparr>sr_results := res\<rparr>))"
proof -
  have len: "length (sr_pc r) = length (sr_segments r)" "length (sr_results r) = length (sr_segments r)"
    using ok by (simp_all add: run_ok_def)
  have "int (length (filter (\<lambda>pc. pc \<noteq> TDone) ((sr_pc r)[i := pc]))) = sr_remaining r"
    using length_filter_update [OF i(1), of "\<lambda>pc. pc \<noteq> TDone" pc] i(2,3) ok by (simp add: run_ok_def)
  moreover have "\<not> (\<forall>pc \<in> set (sr_pc r). pc = TDone)" using i(1,2) nth_mem by metis
  moreover have "\<not> (\<forall>pc \<in> set ((sr_pc r)[i := pc]). pc = TDone)"
    using i(1,3) by (metis length_list_update nth_list_update_eq nth_mem)
  ultimately show ?thesis
    using ok i(1) pairs unfolding run_ok_def set_pc_def results
    by (auto simp: nth_list_update len)
qed

lemma count_down_run_ok:
  assumes ok: "run_ok lib k efs_nprobe r" and i: "i < length (sr_pc r)" "sr_pc r ! i = TCount"
  shows "run_ok lib k efs_nprobe (count_down k i r)"
proof -
  let ?pcs = "(sr_pc r)[i := TDone]"
  have len: "length (sr_pc r) = length (sr_segments r)" "length (sr_results r) = length (sr_segments r)"
    using ok by (simp_all add: run_ok_def)
  have rem: "int (length (filter (\<lambda>pc. pc \<noteq> TDone) ?pcs)) = sr_remaining r - 1"
    using length_filter_update [OF i(1), of "\<lambda>pc. pc \<noteq> TDone" TDone] i(2) ok by (simp add: run_ok_def)
  then have fin: "(\<forall>pc \<in> set ?pcs. pc = TDone) \<longleftrightarrow> sr_remaining r - 1 = 0"
    unfolding all_done_filter by linarith
  have "\<exists>pc \<in> set (sr_pc r). pc \<noteq> TDone" using i by (metis nth_mem task_pc.distinct(11))
  then have "sr_published r = []" using ok by (auto simp: run_ok_def)
  moreover have "segment_pairs lib k efs_nprobe (sr_segments r ! i) = Some (sr_results r ! i)"
    using ok i by (simp add: run_ok_def)
  then have "segment_pairs lib k efs_nprobe (sr_segments r ! j) = Some (sr_results r ! j)"
    if "j < length (sr_segments r)" "?pcs ! j \<noteq> TSearch" for j
    using ok that len by (cases "j = i") (simp_all add: run_ok_def)
  ultimately show ?thesis
    using rem len unfolding run_ok_def count_down_def set_pc_def Let_def fin
    by (cases "sr_remaining r - 1 = 0") (simp_all add: fin)
qed

lemma run_change_keeps_inv:
  assumes "pool_sys_inv s" "sr_segments r = sr_segments (ps_run s)" "length (sr_pc r) = length (sr_pc (ps_run s))"
    and same: "\<And>j i. task_holds r j i = task_holds (ps_run s) j i"
  shows "pool_sys_inv (s\<lparr>ps_run := r\<rparr>)"
proof -
  have "users (s\<lparr>ps_run := r\<rparr>) i = users s i" for i by (simp add: users_def held_def same)
  then show ?thesis
    using assms by (simp add: pool_sys_inv_def refs_ok_def reserved_ok_def buffers_ok_def tasks_distinct_def)
qed

lemma unpin_task_users:
  assumes d: "tasks_distinct r" and i: "i < length (sr_pc r)" "sr_pc r ! i = TUnpin"
  shows "held (set_pc i TCount r) j \<longleftrightarrow> held r j \<and> j \<noteq> ss_segment_idx (sr_segments r ! i)"
    and "held r (ss_segment_idx (sr_segments r ! i))"
proof -
  have h: "task_holds r i (ss_segment_idx (sr_segments r ! i))" using i by (simp add: task_holds_def)
  then show "held r (ss_segment_idx (sr_segments r ! i))" by (auto simp: held_def)
  show "held (set_pc i TCount r) j \<longleftrightarrow> held r j \<and> j \<noteq> ss_segment_idx (sr_segments r ! i)"
  proof
    assume "held (set_pc i TCount r) j"
    then obtain k where k: "k \<noteq> i" "task_holds r k j" by (auto simp: held_def task_holds_set_pc split: if_splits)
    then show "held r j \<and> j \<noteq> ss_segment_idx (sr_segments r ! i)"
      using task_holds_unique [OF d h] by (auto simp: held_def)
  next
    assume j: "held r j \<and> j \<noteq> ss_segment_idx (sr_segments r ! i)"
    then obtain k where k: "task_holds r k j" by (auto simp: held_def)
    then have "k \<noteq> i" using j by (auto simp: task_holds_def)
    then have "task_holds (set_pc i TCount r) k j" using k by (simp add: task_holds_set_pc)
    then show "held (set_pc i TCount r) j" by (auto simp: held_def)
  qed
qed

definition search_inv :: "'d index_library \<Rightarrow> nat \<Rightarrow> nat \<Rightarrow> ('d::linorder) PoolSystem \<Rightarrow> bool" where
  "search_inv lib k efs_nprobe s \<longleftrightarrow> pool_sys_inv s \<and> run_ok lib k efs_nprobe (ps_run s)"

lemma search_step_stray: "search_step lib k efs_nprobe s s' \<Longrightarrow> ps_stray s' = [] \<Longrightarrow> ps_stray s = []"
  by (induction rule: search_step.induct) simp_all

lemma search_step_keeps_run:
  assumes "search_step lib k efs_nprobe s s'" "run_ok lib k efs_nprobe (ps_run s)"
  shows "run_ok lib k efs_nprobe (ps_run s')"
  using assms
proof (induction rule: search_step.induct)
  case (task_search i s r)
  then obtain pairs where p: "segment_pairs lib k efs_nprobe (sr_segments (ps_run s) ! i) = Some pairs"
    "r = set_pc i TUnpin ((ps_run s)\<lparr>sr_results := (sr_results (ps_run s))[i := pairs]\<rparr>)"
    by (auto simp: store_pairs_def)
  have "run_ok lib k efs_nprobe r"
    unfolding p(2) by (rule set_pc_run_ok [OF _ _ _ _ p(1) refl]) (use task_search in simp_all)
  then show ?case by simp
next
  case (task_unpin i s got)
  have "segment_pairs lib k efs_nprobe (sr_segments (ps_run s) ! i) = Some (sr_results (ps_run s) ! i)"
    using task_unpin by (simp add: run_ok_def)
  from set_pc_run_ok [OF task_unpin.prems task_unpin.hyps(1) _ _ this refl, of TCount]
  show ?case using task_unpin.hyps(2) by (simp add: list_update_id)
next
  case (task_count i s)
  then show ?case using count_down_run_ok [of lib k efs_nprobe "ps_run s" i] by simp
qed simp_all

lemma search_step_keeps_inv:
  assumes "search_step lib k efs_nprobe s s'" "search_inv lib k efs_nprobe s" "ps_stray s' = []"
  shows "search_inv lib k efs_nprobe s'"
  using assms
proof (induction rule: search_step.induct)
  case (task_search i s r)
  then obtain pairs where p: "segment_pairs lib k efs_nprobe (sr_segments (ps_run s) ! i) = Some pairs"
    "r = set_pc i TUnpin ((ps_run s)\<lparr>sr_results := (sr_results (ps_run s))[i := pairs]\<rparr>)"
    by (auto simp: store_pairs_def)
  have "task_holds r j x = task_holds (ps_run s) j x" for j x
    using task_search.hyps by (auto simp: p(2) task_holds_def set_pc_def nth_list_update)
  then have "pool_sys_inv (s\<lparr>ps_run := r\<rparr>)"
    using task_search.prems by (intro run_change_keeps_inv) (simp_all add: search_inv_def p(2) set_pc_def)
  then show ?case
    using search_step_keeps_run [OF search_step.task_search [OF task_search.hyps]] task_search.prems by (simp add: search_inv_def)
next
  case (task_unpin i s got)
  let ?i = "ss_segment_idx (sr_segments (ps_run s) ! i)" and ?r = "set_pc i TCount (ps_run s)"
  have inv: "pool_sys_inv s" "run_ok lib k efs_nprobe (ps_run s)" using task_unpin.prems by (simp_all add: search_inv_def)
  then have d: "tasks_distinct (ps_run s)" by (simp add: pool_sys_inv_def)
  note u = unpin_task_users [OF d task_unpin.hyps]
  have "pool_sys_inv (s\<lparr>ps_pool := decrement_flushed_segment_ref_count got ?i (ps_pool s), ps_run := ?r\<rparr>)"
  proof (rule unpin_keeps_inv [OF inv(1), where others = "ps_others s" and r = ?r and got = got and i = ?i])
    show "users s ?i > 0" using u(2) by (simp add: users_def)
    show "task_holds ?r j x \<Longrightarrow> task_holds (ps_run s) j x" for j x
      by (auto simp: task_holds_set_pc split: if_splits)
    show "users (s\<lparr>ps_pool := decrement_flushed_segment_ref_count got ?i (ps_pool s), ps_run := ?r\<rparr>) j
        = users s j - of_bool (j = ?i)" for j
      using u(1) [of j] u(2) by (simp add: users_def)
  qed (simp_all add: set_pc_def)
  then show ?case
    using search_step_keeps_run [OF search_step.task_unpin [OF task_unpin.hyps, of lib k efs_nprobe got]] inv(2)
    by (simp add: search_inv_def)
next
  case (task_count i s)
  have "task_holds (count_down k i (ps_run s)) j x = task_holds (ps_run s) j x" for j x
    using task_count.hyps by (auto simp: count_down_def Let_def task_holds_def set_pc_def nth_list_update)
  then have "pool_sys_inv (s\<lparr>ps_run := count_down k i (ps_run s)\<rparr>)"
    using task_count.prems
    by (intro run_change_keeps_inv) (simp_all add: search_inv_def count_down_def Let_def set_pc_def)
  then show ?case
    using search_step_keeps_run [OF search_step.task_count [OF task_count.hyps]] task_count.prems by (simp add: search_inv_def)
next
  case (other_pin i s)
  then show ?case using pin_keeps_inv [of s i] by (simp add: search_inv_def)
next
  case (other_unpin i s got)
  have inv: "pool_sys_inv s" using other_unpin.prems by (simp add: search_inv_def)
  have "pool_sys_inv (s\<lparr>ps_pool := decrement_flushed_segment_ref_count got i (ps_pool s), ps_others := remove1 i (ps_others s)\<rparr>)"
  proof (rule unpin_keeps_inv [OF inv, where others = "remove1 i (ps_others s)" and r = "ps_run s" and got = got and i = i])
    show "users s i > 0" using other_unpin.hyps count_list_pos [of "ps_others s" i] by (simp add: users_def)
    show "users (s\<lparr>ps_pool := decrement_flushed_segment_ref_count got i (ps_pool s), ps_others := remove1 i (ps_others s)\<rparr>) j
        = users s j - of_bool (j = i)" for j
      using other_unpin.hyps count_list_pos [of "ps_others s" i] by (auto simp: users_def count_list_remove1)
  qed simp_all
  then show ?case using other_unpin.prems by (simp add: search_inv_def)
next
  case (other_reserve s i p)
  have inv: "pool_sys_inv s" using other_reserve.prems by (simp add: search_inv_def)
  note r = reserve_SomeD [OF other_reserve.hyps]
  have free: "users s i = 0" using inv r(3) users_nonneg [of s i] by (force simp: pool_sys_inv_def refs_ok_def)
  have pinv: "pool_inv (ps_pool s) (ps_listed s)" using inv by (simp add: pool_sys_inv_def)
  have "pool_sys_inv (s\<lparr>ps_pool := p, ps_reserved := i # ps_reserved s\<rparr>)"
    by (rule unused_slot_keeps_inv [OF inv])
      (use free inv reserve_inv(2) [OF pinv other_reserve.hyps] in
        \<open>auto simp: r(4) pool_sys_inv_def reserved_ok_def loaded_slot_def\<close>)
  then show ?case using other_reserve.prems by (simp add: search_inv_def)
next
  case (other_load i s st a b v m)
  have inv: "pool_sys_inv s" using other_load.prems by (simp add: search_inv_def)
  have "users s i = 0" "loaded_slot (ps_pool s) (ps_listed s) i"
    using inv other_load.hyps by (simp_all add: pool_sys_inv_def reserved_ok_def)
  then have "pool_sys_inv (s\<lparr>ps_pool := upd_seg i (load_and_set_segment st a b v m) (ps_pool s), ps_reserved := ps_reserved s\<rparr>)"
    by (intro unused_slot_keeps_inv [OF inv]) (use inv in \<open>auto simp: pool_sys_inv_def reserved_ok_def loaded_slot_def\<close>)
  then show ?case using other_load.prems by (simp add: search_inv_def)
next
  case (other_mark i s bm d c)
  then show ?case using mark_keeps_inv [of s i bm d c] by (simp add: search_inv_def)
next
  case (other_discard i s)
  have inv: "pool_sys_inv s" using other_discard.prems by (simp add: search_inv_def)
  have "users s i = 0" using inv other_discard.hyps by (simp add: pool_sys_inv_def reserved_ok_def)
  then have "pool_sys_inv (s\<lparr>ps_pool := discard_reserved_segment i (ps_pool s), ps_reserved := removeAll i (ps_reserved s)\<rparr>)"
    by (intro unused_slot_keeps_inv [OF inv]) (use inv in \<open>auto simp: pool_sys_inv_def reserved_ok_def loaded_slot_def\<close>)
  then show ?case using other_discard.prems by (simp add: search_inv_def)
next
  case (other_register i s cap p)
  then show ?case using register_keeps_inv [of s i cap p] by (simp add: search_inv_def)
next
  case (other_replace i s before olds after cap)
  then show ?case using replace_keeps_inv [of s i before olds after cap] by (simp add: search_inv_def)
next
  case (other_late_upgrade i s old cap listed)
  then show ?case by simp
qed


section \<open>The published result\<close>

lemma top_k_of_self: "sorted_pairs r \<Longrightarrow> length r \<le> k \<Longrightarrow> top_k_of k r r"
  by (simp add: top_k_of_def sorted_sort_id)

lemma merge_results_top_k:
  assumes "\<forall>r \<in> set rs. sorted_pairs r \<and> length r \<le> k"
  shows "top_k_of k A m \<Longrightarrow> top_k_of k (A @ concat rs) (merge_results k (Some m) rs)"
    and "top_k_of k (concat rs) (merge_results k None rs)"
proof -
  have step: "top_k_of k (A @ concat rs) (merge_results k (Some m) rs)"
    if "top_k_of k A m" "\<forall>r \<in> set rs. sorted_pairs r \<and> length r \<le> k" for A m rs
    using that
  proof (induction rs arbitrary: A m)
    case (Cons r rs)
    show ?case
    proof (cases "r = []")
      case False
      have "top_k_of k (A @ r) (merge_top_k m r k)"
        using Cons.prems by (intro top_k_of_merge top_k_of_self) simp_all
      from Cons.IH [OF this] show ?thesis using Cons.prems(2) False by simp
    qed (use Cons in simp)
  qed simp
  show "top_k_of k A m \<Longrightarrow> top_k_of k (A @ concat rs) (merge_results k (Some m) rs)"
    using step assms by blast
  show "top_k_of k (concat rs) (merge_results k None rs)"
    using assms
  proof (induction rs)
    case (Cons r rs)
    then show ?case
      using step [of r r rs] top_k_of_self [of r k] by (cases "r = []") simp_all
  qed simp
qed

lemma those_length: "those xs = Some ys \<Longrightarrow> length ys = length xs"
  by (induction xs arbitrary: ys) (auto split: option.splits)

lemma segment_pairs_length: "segment_pairs lib k efs_nprobe info = Some ps \<Longrightarrow> length ps \<le> k"
  by (auto simp: segment_pairs_def VectorIndexSearch_def split: option.splits if_splits dest!: those_length)

definition found_pairs :: "'d index_library \<Rightarrow> nat \<Rightarrow> nat \<Rightarrow> SegmentSearchInfo list \<Rightarrow> 'd DistancePair list list" where
  "found_pairs lib k efs_nprobe infos = map (\<lambda>info. the (segment_pairs lib k efs_nprobe info)) infos"

lemma run_ok_published:
  assumes ok: "run_ok lib k efs_nprobe r" and fin: "\<forall>pc \<in> set (sr_pc r). pc = TDone"
    and sorted: "\<forall>ps \<in> set (found_pairs lib k efs_nprobe (sr_segments r)). sorted_pairs ps"
  shows "\<exists>res. sr_published r = [res] \<and> top_k_of k (concat (found_pairs lib k efs_nprobe (sr_segments r))) res"
proof -
  have "segment_pairs lib k efs_nprobe (sr_segments r ! j) = Some (sr_results r ! j)" if "j < length (sr_segments r)" for j
  proof -
    have "sr_pc r ! j = TDone" using fin that ok by (metis nth_mem run_ok_def)
    then show ?thesis using ok that by (simp add: run_ok_def)
  qed
  moreover have "length (sr_results r) = length (sr_segments r)" using ok by (simp add: run_ok_def)
  ultimately have results: "sr_results r = found_pairs lib k efs_nprobe (sr_segments r)"
    "\<forall>j < length (sr_results r). length (sr_results r ! j) \<le> k"
    by (auto simp: found_pairs_def intro!: nth_equalityI dest: segment_pairs_length)
  then have fits: "\<forall>ps \<in> set (sr_results r). sorted_pairs ps \<and> length ps \<le> k"
    using sorted by (metis in_set_conv_nth)
  have "sr_published r = [merge_all_segment_results k (sr_results r)]" using ok fin by (simp add: run_ok_def)
  then show ?thesis
    using merge_results_top_k(2) [OF fits] results(1) by (simp add: merge_all_segment_results_def)
qed

lemma search_steps_keep_inv:
  "(search_step lib k efs_nprobe)\<^sup>*\<^sup>* s s' \<Longrightarrow> ps_stray s' = [] \<Longrightarrow> search_inv lib k efs_nprobe s \<Longrightarrow> search_inv lib k efs_nprobe s'"
  by (induction rule: rtranclp_induct) (auto dest: search_step_keeps_inv search_step_stray)

lemma search_steps_keep_run:
  "(search_step lib k efs_nprobe)\<^sup>*\<^sup>* s s' \<Longrightarrow> run_ok lib k efs_nprobe (ps_run s) \<Longrightarrow> run_ok lib k efs_nprobe (ps_run s')"
  by (induction rule: rtranclp_induct) (auto dest: search_step_keeps_run)

lemma search_step_segments:
  "search_step lib k efs_nprobe s s' \<Longrightarrow> sr_segments (ps_run s') = sr_segments (ps_run s)"
  by (induction rule: search_step.induct) (auto simp: store_pairs_def set_pc_def count_down_def Let_def)

lemma search_steps_segments:
  "(search_step lib k efs_nprobe)\<^sup>*\<^sup>* s s' \<Longrightarrow> sr_segments (ps_run s') = sr_segments (ps_run s)"
  by (induction rule: rtranclp_induct) (simp_all add: search_step_segments)

text \<open>A pool in use by other threads, and no search.\<close>

definition idle_system :: "FlushedSegmentPool \<Rightarrow> nat list \<Rightarrow> nat list \<Rightarrow> nat list \<Rightarrow> 'd PoolSystem" where
  "idle_system pool xs others res =
     \<lparr>ps_pool = pool, ps_listed = xs, ps_others = others, ps_reserved = res, ps_stray = [], ps_run = submit_search []\<rparr>"

text \<open>\<open>idle_ok\<close>: every reference of the idle pool is accounted for.\<close>

definition idle_ok :: "FlushedSegmentPool \<Rightarrow> nat list \<Rightarrow> nat list \<Rightarrow> nat list \<Rightarrow> bool" where
  "idle_ok pool xs others res \<longleftrightarrow>
     pool_inv pool xs \<and> ids_end pool xs
     \<and> (\<forall>i. i \<in> set xs \<union> set others \<longrightarrow> in_used (flushed_segments pool i)
          \<and> ref_count (flushed_segments pool i) = of_bool (i \<in> set xs) + int (count_list others i))
     \<and> (\<forall>i \<in> set res. i \<notin> set others \<and> loaded_slot pool xs i)"

lemma submit_search_sel [simp]:
  "sr_segments (submit_search infos) = infos" "sr_pc (submit_search infos) = replicate (length infos) TSearch"
  by (simp_all add: submit_search_def ConcurrentVectorSearchOnSegments_def Let_def)

lemma search_starts:
  assumes ok: "idle_ok pool xs others res" and start: "vector_search got snap pool = Some (p, r)"
  shows "search_inv lib k efs_nprobe
      \<lparr>ps_pool = p, ps_listed = xs, ps_others = others, ps_reserved = res, ps_stray = [], ps_run = (r :: ('d::linorder) SearchRun)\<rparr>"
    and "sr_segments r = map (search_info pool) (uncovered snap pool xs)"
proof -
  let ?u = "uncovered snap pool xs"
  let ?s = "\<lparr>ps_pool = p, ps_listed = xs, ps_others = others, ps_reserved = res, ps_stray = [], ps_run = r\<rparr>"
  have inv: "pool_inv pool xs" and ids: "ids_end pool xs" using ok by (simp_all add: idle_ok_def)
  obtain p' where p': "vector_search got snap pool = Some (p', submit_search (map (search_info pool) ?u) :: 'd SearchRun)"
    "flushed_segments p' = (\<lambda>i. if i \<in> set ?u
       then (flushed_segments pool i)\<lparr>ref_count := ref_count (flushed_segments pool i) + 1\<rparr> else flushed_segments pool i)"
    "pool_inv p' xs"
    by (rule vector_search_start [OF inv ids])
  then have p: "p = p'" and r: "r = submit_search (map (search_info pool) ?u)" using start by simp_all
  show segs: "sr_segments r = map (search_info pool) ?u" by (simp add: r)
  have idx: "ss_segment_idx (search_info q i) = i" for q i by (simp add: search_info_def Let_def)
  have dist: "distinct ?u" using inv by (simp add: uncovered_def pool_inv_def pool_links_def)
  have held: "held r i \<longleftrightarrow> i \<in> set ?u" for i
    by (auto simp: held_def task_holds_def r idx in_set_conv_nth)
  have users: "users ?s i = of_bool (i \<in> set xs) + int (count_list others i) + of_bool (i \<in> set ?u)" for i
    by (simp add: users_def held)
  have sub: "set ?u \<subseteq> set xs" by (auto simp: uncovered_def)
  have "refs_ok ?s"
    unfolding refs_ok_def
  proof (intro allI impI)
    fix i assume "users ?s i > 0"
    then have "i \<in> set xs \<union> set others"
      using users [of i] sub count_list_pos [of others i] by (cases "i \<in> set xs"; cases "i \<in> set ?u") auto
    then show "in_used (flushed_segments (ps_pool ?s) i) \<and> ref_count (flushed_segments (ps_pool ?s) i) = users ?s i"
      using ok p'(2) by (cases "i \<in> set ?u"; cases "i \<in> set xs") (auto simp: users [unfolded p] p idle_ok_def)
  qed
  moreover have "users ?s i = 0 \<and> loaded_slot p xs i" if "i \<in> set res" for i
    using ok sub that unfolding users
    by (auto simp: idle_ok_def loaded_slot_def count_list_0_iff p p'(2))
  then have "reserved_ok ?s" by (simp add: reserved_ok_def)
  moreover have "buffers_ok ?s"
  proof -
    have "same_buffers (search_info p i) (sr_segments r ! j)" if "task_holds r j i" for i j
    proof -
      have "sr_segments r ! j = search_info pool i" using that by (auto simp: task_holds_def r idx)
      moreover have "search_info p i = search_info pool i"
        unfolding p by (rule search_info_payload) (simp add: p'(2))
      ultimately show ?thesis by simp
    qed
    then show ?thesis by (simp add: buffers_ok_def)
  qed
  moreover have "tasks_distinct r"
    using dist by (simp add: tasks_distinct_def r comp_def idx)
  ultimately show "search_inv lib k efs_nprobe ?s"
    using p'(3) submit_search_ok by (simp add: search_inv_def pool_sys_inv_def p r)
qed


section \<open>Properties of the worker's search\<close>

text \<open>C11: (termination) On a well-formed pool whose ids end below the largest 32-bit id, the start of a search
  returns: it pins and captures exactly the segments with an id that the memtable snapshot does not
  contain, and leaves the list of segments as it was. Every id of the pool is thus searched by the worker or
  covered by the backend.
\<close>

theorem search_covers_every_segment:
  assumes "pool_inv pool xs" "ids_end pool xs"
  shows "\<exists>p infos. vector_search got snap pool = Some (p, submit_search infos :: 'd SearchRun) \<and> pool_inv p xs
    \<and> infos = map (search_info pool) (uncovered snap pool xs)
    \<and> (\<forall>i sid. i \<in> set xs \<longrightarrow> sid_start pool i \<le> sid \<longrightarrow> sid \<le> sid_end pool i \<longrightarrow>
         search_info pool i \<in> set infos \<or> sid = gmt_id snap \<or> sid \<in> set (smt_ids snap))
    \<and> (\<forall>i. ref_count (flushed_segments p i) = ref_count (flushed_segments pool i) + of_bool (i \<in> set (uncovered snap pool xs)))"
proof -
  obtain p where p: "vector_search got snap pool = Some (p, submit_search (map (search_info pool) (uncovered snap pool xs)) :: 'd SearchRun)"
    "flushed_segments p = (\<lambda>i. if i \<in> set (uncovered snap pool xs)
       then (flushed_segments pool i)\<lparr>ref_count := ref_count (flushed_segments pool i) + 1\<rparr> else flushed_segments pool i)"
    "pool_inv p xs"
    by (rule vector_search_start [OF assms])
  have cov: "search_info pool i \<in> set (map (search_info pool) (uncovered snap pool xs)) \<or> sid = gmt_id snap \<or> sid \<in> set (smt_ids snap)"
    if "i \<in> set xs" "sid_start pool i \<le> sid" "sid \<le> sid_end pool i" for i sid
    using that by (cases "fully_covered snap pool i") (auto simp: uncovered_def fully_covered_def sid_covered_def)
  have "ref_count (flushed_segments p i) = ref_count (flushed_segments pool i) + of_bool (i \<in> set (uncovered snap pool xs))" for i
    by (simp add: p(2))
  note refs = this
  show ?thesis by (intro exI conjI allI impI) (rule p(1,3) refl cov refs | assumption)+
qed

text \<open>C12: (safety) While a search runs among threads that pin, load, mark, register, replace and retire segments,
  and as long as no upgrade has come late, every segment that a task has not unpinned yet is in use and has the
  index, the mapping and the row count that were captured, and its bitmap is not freed. When all tasks are
  through, every reference of the search has been given back. Lemma \<open>late_upgrade_frees_searched_segment\<close> below
  shows that a late upgrade does free a segment under a running task.
\<close>

theorem searched_segments_stay_valid:
  assumes "idle_ok pool xs others res" "vector_search got snap pool = Some (p, r)"
    and "(search_step lib k efs_nprobe)\<^sup>*\<^sup>* ((idle_system p xs others res)\<lparr>ps_run := r\<rparr>) s" "ps_stray s = []"
  shows "(\<forall>j i. task_holds (ps_run s) j i \<longrightarrow> in_used (flushed_segments (ps_pool s) i)
           \<and> same_buffers (search_info (ps_pool s) i) (sr_segments (ps_run s) ! j))
    \<and> ((\<forall>pc \<in> set (sr_pc (ps_run s)). pc = TDone) \<longrightarrow> (\<forall>i \<in> set (ps_listed s).
         ref_count (flushed_segments (ps_pool s) i) = 1 + int (count_list (ps_others s) i)))"
proof -
  have "search_inv lib k efs_nprobe s"
    by (rule search_steps_keep_inv [OF assms(3,4)]) (simp add: idle_system_def search_starts(1) [OF assms(1,2)])
  then have inv: "refs_ok s" "buffers_ok s" by (simp_all add: search_inv_def pool_sys_inv_def)
  have "in_used (flushed_segments (ps_pool s) i)" if "task_holds (ps_run s) j i" for j i
  proof -
    have "users s i > 0" using that by (auto simp: users_def held_def)
    then show ?thesis using inv(1) by (simp add: refs_ok_def)
  qed
  moreover have "ref_count (flushed_segments (ps_pool s) i) = 1 + int (count_list (ps_others s) i)"
    if "\<forall>pc \<in> set (sr_pc (ps_run s)). pc = TDone" "i \<in> set (ps_listed s)" for i
  proof -
    have "\<not> held (ps_run s) i" using that(1) nth_mem by (fastforce simp: held_def task_holds_def)
    then have "users s i = 1 + int (count_list (ps_others s) i)" using that(2) by (simp add: users_def)
    then show ?thesis using inv(1) by (simp add: refs_ok_def)
  qed
  ultimately show ?thesis using inv(2) by (auto simp: buffers_ok_def)
qed

lemma published_best:
  assumes "idle_ok pool xs others res" "vector_search got snap pool = Some (p, r)"
    and "(search_step lib k efs_nprobe)\<^sup>*\<^sup>* ((idle_system p xs others res)\<lparr>ps_run := r\<rparr>) s"
    and "\<forall>ps \<in> set (found_pairs lib k efs_nprobe (map (search_info pool) (uncovered snap pool xs))). sorted_pairs ps"
  shows "\<forall>pc \<in> set (sr_pc (ps_run s)). pc = TDone \<Longrightarrow> \<exists>best. sr_published (ps_run s) = [best]
      \<and> top_k_of k (concat (found_pairs lib k efs_nprobe (map (search_info pool) (uncovered snap pool xs)))) best"
    and "\<not> (\<forall>pc \<in> set (sr_pc (ps_run s)). pc = TDone) \<Longrightarrow> sr_published (ps_run s) = []"
proof -
  have ok: "run_ok lib k efs_nprobe (ps_run s)"
    by (rule search_steps_keep_run [OF assms(3)])
      (use search_starts(1) [OF assms(1,2)] in \<open>simp add: idle_system_def search_inv_def\<close>)
  have segs: "sr_segments (ps_run s) = map (search_info pool) (uncovered snap pool xs)"
    using search_steps_segments [OF assms(3)] search_starts(2) [OF assms(1,2)] by (simp add: idle_system_def)
  show "\<forall>pc \<in> set (sr_pc (ps_run s)). pc = TDone \<Longrightarrow> \<exists>best. sr_published (ps_run s) = [best]
      \<and> top_k_of k (concat (found_pairs lib k efs_nprobe (map (search_info pool) (uncovered snap pool xs)))) best"
    using run_ok_published [OF ok] assms(4) unfolding segs by blast
  show "\<not> (\<forall>pc \<in> set (sr_pc (ps_run s)). pc = TDone) \<Longrightarrow> sr_published (ps_run s) = []"
    using ok by (auto simp: run_ok_def)
qed

text \<open>C13: (functional) However the tasks of a search are interleaved with each other and with other threads, the
  result slot of the backend is written once, when the last task counts down and not before, and then
  holds the best \<open>k\<close> of all rows that the index searches of the uncovered segments found.
\<close>

theorem search_publishes_best_once:
  assumes "idle_ok pool xs others res" "vector_search got snap pool = Some (p, r)"
    and "(search_step lib k efs_nprobe)\<^sup>*\<^sup>* ((idle_system p xs others res)\<lparr>ps_run := r\<rparr>) s"
    and "\<forall>ps \<in> set (found_pairs lib k efs_nprobe (map (search_info pool) (uncovered snap pool xs))). sorted_pairs ps"
  shows "if \<forall>pc \<in> set (sr_pc (ps_run s)). pc = TDone
    then \<exists>best. sr_published (ps_run s) = [best]
      \<and> top_k_of k (concat (found_pairs lib k efs_nprobe (map (search_info pool) (uncovered snap pool xs)))) best
    else sr_published (ps_run s) = []"
  using published_best [OF assms] by (cases "\<forall>pc \<in> set (sr_pc (ps_run s)). pc = TDone") simp_all

section \<open>A whole search\<close>

lemma top_k_of_left_out:
  assumes top: "top_k_of k cand m" and c: "c \<in> set cand" "c \<notin> set m"
  shows "length m = k" "\<forall>b \<in> set m. pdist b \<le> pdist c"
proof -
  let ?s = "sort (map pdist cand)"
  have m: "mset m \<subseteq># mset cand" "map pdist m = take k ?s" using top by (simp_all add: top_k_of_def)
  obtain rest where rest: "mset cand = mset m + rest" using m(1) by (metis subset_mset.le_iff_add)
  then have "c \<in># rest" using c by (metis set_mset_mset Un_iff set_mset_union)
  have "mset (take k ?s) + mset (drop k ?s) = mset (map pdist cand)"
    by (metis append_take_drop_id mset_append mset_sort)
  also have "\<dots> = mset (take k ?s) + image_mset pdist rest"
    unfolding mset_map rest by (simp flip: m(2))
  finally have "mset (drop k ?s) = image_mset pdist rest" by simp
  then have in_drop: "pdist c \<in> set (drop k ?s)"
    using \<open>c \<in># rest\<close> by (metis imageI set_image_mset set_mset_mset)
  then show "length m = k"
    using arg_cong [OF m(2), of length] by (cases "length cand \<le> k") auto
  have "sorted (take k ?s @ drop k ?s)" by simp
  then have "\<forall>x \<in> set (take k ?s). x \<le> pdist c" using in_drop unfolding sorted_append by blast
  then show "\<forall>b \<in> set m. pdist b \<le> pdist c" by (simp flip: m(2))
qed

lemma enough_near_rows:
  assumes sorted: "sorted_pairs D" and m: "distinct (map pid m)" "length m = k"
    and near: "\<forall>x \<in> set m. \<exists>b \<in> set D. pid b = pid x \<and> pdist b \<le> v"
  shows "\<forall>b \<in> set (take k D). pdist b \<le> v"
proof -
  let ?W = "takeWhile (\<lambda>b. pdist b \<le> v) D"
  have "filter (\<lambda>b. pdist b \<le> v) D = ?W"
    using sorted
  proof (induction D)
    case (Cons a D)
    show ?case
    proof (cases "pdist a \<le> v")
      case False
      then have "filter (\<lambda>b. pdist b \<le> v) D = []"
        using Cons.prems by (auto simp: filter_empty_conv dest: order_trans)
      with False show ?thesis by simp
    qed (use Cons in simp)
  qed simp
  then have W: "set ?W = {b \<in> set D. pdist b \<le> v}" by (metis set_filter)
  have "pid ` set m \<subseteq> pid ` set ?W" unfolding W using near by force
  then have "card (pid ` set m) \<le> card (pid ` set ?W)" by (intro card_mono) simp_all
  moreover have "card (pid ` set m) = k" using m distinct_card [OF m(1)] by simp
  moreover have "card (pid ` set ?W) \<le> length ?W" by (meson card_image_le card_length finite_set le_trans)
  ultimately have "k \<le> length ?W" by simp
  then have "take k D = take k ?W" by (metis takeWhile_eq_take take_take min.absorb1)
  then show ?thesis using set_take_subset [of k ?W] W by auto
qed

lemma distinct_submset:
  assumes "mset xs \<subseteq># mset ys" "distinct ys"
  shows "distinct xs"
proof -
  obtain zs where "mset ys = mset xs + mset zs" using assms(1) by (metis ex_mset subset_mset.le_iff_add)
  then have "mset ys = mset (xs @ zs)" by simp
  then have "distinct (xs @ zs)" using assms(2) by (metis mset_eq_imp_distinct_iff)
  then show ?thesis by simp
qed

lemma dedup_keeps_near:
  assumes top: "top_k_of k cand m" "distinct (map pid cand)" and c: "c \<in> set cand" and sub: "set m \<subseteq> set L"
  shows "let res = take k (first_by_id {} (sort_key pdist L)) in
    (\<exists>b \<in> set res. pid b = pid c \<and> pdist b \<le> pdist c) \<or> (\<forall>b \<in> set res. pdist b \<le> pdist c)"
proof (cases "c \<in> set m")
  case True
  then have "c \<in> set (sort_key pdist L)" using sub by auto
  then show ?thesis using first_by_id_take_best [of "sort_key pdist L" c k] by (simp add: Let_def)
next
  case False
  let ?D = "first_by_id {} (sort_key pdist L)"
  note l = top_k_of_left_out [OF top(1) c False]
  have "mset (map pid m) \<subseteq># mset (map pid cand)"
    using top(1) by (simp add: top_k_of_def image_mset_subseteq_mono)
  then have "distinct (map pid m)" using top(2) by (rule distinct_submset)
  moreover have "\<exists>b \<in> set ?D. pid b = pid x \<and> pdist b \<le> pdist c" if "x \<in> set m" for x
  proof -
    have "x \<in> set (sort_key pdist L)" using that sub by auto
    then obtain b where "b \<in> set ?D" "pid b = pid x" "pdist b \<le> pdist x"
      using first_by_id_best [of "sort_key pdist L" x "{}"] by auto
    then show ?thesis using l(2) that by (meson order_trans)
  qed
  ultimately have "\<forall>b \<in> set (take k ?D). pdist b \<le> pdist c"
    using l(1) by (intro enough_near_rows [of ?D m]) (simp_all add: first_by_id_sorted)
  then show ?thesis by (simp add: Let_def)
qed

lemma top_k_ids:
  assumes top: "top_k_of k cand m" and d: "distinct (map pid cand)"
  shows "set m \<subseteq> set cand" "set m = set cand \<or> card (pid ` set m) = k"
proof -
  have sub: "mset m \<subseteq># mset cand" "map pdist m = take k (sort (map pdist cand))" using top by (simp_all add: top_k_of_def)
  show "set m \<subseteq> set cand" using set_mset_mono [OF sub(1)] by simp
  have len: "length m = min k (length cand)" using arg_cong [OF sub(2), of length] by (simp add: min.commute)
  show "set m = set cand \<or> card (pid ` set m) = k"
  proof (cases "length cand \<le> k")
    case True
    then have "mset m = mset cand" using sub(1) len by (metis min.absorb2 mset_subset_size size_mset subset_mset.le_neq_trans nat_less_le)
    then show ?thesis by (metis set_mset_mset)
  next
    case False
    have "mset (map pid m) \<subseteq># mset (map pid cand)" using sub(1) by (simp add: image_mset_subseteq_mono)
    then have "distinct (map pid m)" using d by (rule distinct_submset)
    then show ?thesis using distinct_card [of "map pid m"] len False by simp
  qed
qed

text \<open>
  The best \<open>k\<close> of the candidates with one entry per tid: as many as there are, in order, all of them
  candidates, and no candidate is left out for a worse one.
\<close>

definition best_rows :: "nat \<Rightarrow> ('d::linorder) DistancePair list \<Rightarrow> 'd DistancePair list \<Rightarrow> bool" where
  "best_rows k cand answer \<longleftrightarrow>
     sorted_pairs answer \<and> distinct (map pid answer) \<and> set answer \<subseteq> set cand
     \<and> length answer = min k (card (pid ` set cand))
     \<and> (\<forall>c \<in> set cand. (\<exists>b \<in> set answer. pid b = pid c \<and> pdist b \<le> pdist c) \<or> (\<forall>b \<in> set answer. pdist b \<le> pdist c))"

lemma dedup_best_rows:
  assumes m: "top_k_of k A m" "distinct (map pid A)" and n: "top_k_of k B n" "distinct (map pid B)"
  shows "best_rows k (A @ B) (take k (first_by_id {} (sort_key pdist (m @ n))))"
proof -
  let ?all = "sort_key pdist (m @ n)"
  let ?D = "first_by_id {} ?all"
  have D: "distinct (map pid ?D)" "pid ` set ?D = pid ` (set m \<union> set n)"
    using first_by_id_distinct [of "{}" ?all] by auto
  note mk = top_k_ids [OF m] and nk = top_k_ids [OF n]
  have "length ?D = card (pid ` (set m \<union> set n))" using distinct_card [OF D(1)] D(2) by simp
  moreover have "min k (card (pid ` (set m \<union> set n))) = min k (card (pid ` set (A @ B)))"
  proof (cases "set m = set A \<and> set n = set B")
    case False
    then have "k \<le> card (pid ` (set m \<union> set n))"
      using mk(2) nk(2) by (metis List.finite_set card_mono finite_Un finite_imageI image_mono sup_ge1 sup_ge2)
    moreover have "card (pid ` (set m \<union> set n)) \<le> card (pid ` set (A @ B))"
      using mk(1) nk(1) by (intro card_mono) auto
    ultimately show ?thesis by simp
  qed simp
  ultimately have "length (take k ?D) = min k (card (pid ` set (A @ B)))" by simp
  moreover have "sorted_pairs (take k ?D)" "distinct (map pid (take k ?D))"
    using first_by_id_sorted [of ?all "{}"] D(1) by (simp_all add: sorted_wrt_take flip: take_map)
  moreover have "set (take k ?D) \<subseteq> set (A @ B)"
    using set_take_subset [of k ?D] set_first_by_id [of "{}" ?all] mk(1) nk(1) by auto
  moreover have "(\<exists>b \<in> set (take k ?D). pid b = pid c \<and> pdist b \<le> pdist c) \<or> (\<forall>b \<in> set (take k ?D). pdist b \<le> pdist c)"
    if "c \<in> set (A @ B)" for c
    using dedup_keeps_near [OF m, of c "m @ n"] dedup_keeps_near [OF n, of c "m @ n"] that by (auto simp: Let_def)
  ultimately show ?thesis by (simp add: best_rows_def)
qed

text \<open>C3: (functional) The whole search: the backend's memtable snapshot, the worker's search of the pool in any
  interleaving of tasks and other threads, and the final merge. When memtables are searchable, the index searches
  give sorted rows and neither side has a tid twice, the answer is the best \<open>k\<close> of all visible memtable rows
  and all rows found in the segments: sorted, one entry per tid, \<open>k\<close> of them or one for every tid there is,
  and none left out for a worse one.
\<close>

theorem search_loses_no_row:
  assumes "take_snapshot lsm buf = Some (snap, buf')" "set (gidx snap # sidxs snap) \<subseteq> {i. nat i < length buf}"
    and "searchable (MT_FROM_SLOTIDX buf (gidx snap)) (map (MT_FROM_SLOTIDX buf) (sidxs snap)) k"
    and "knowhere_exact cd kw" "sorts qs"
    and worker: "idle_ok pool xs others res" "vector_search got snap pool = Some (p, r)"
      "(search_step lib k efs_nprobe)\<^sup>*\<^sup>* ((idle_system p xs others res)\<lparr>ps_run := r\<rparr>) s"
      "\<forall>pc \<in> set (sr_pc (ps_run s)). pc = TDone"
    and found: "found = found_pairs lib k efs_nprobe (map (search_info pool) (uncovered snap pool xs))"
      "\<forall>ps \<in> set found. sorted_pairs ps" "distinct (map pid (concat found))"
    and rows: "rows = concat (map (visible_pairs cd) (snapshot_memtables snap buf))" "distinct (map pid rows)"
  shows "\<exists>seg answer. sr_published (ps_run s) = [seg]
    \<and> fst (search_lsm_index cd kw qs k seg None snap buf') = Some answer
    \<and> best_rows k (rows @ concat found) answer"
proof -
  obtain seg where seg: "sr_published (ps_run s) = [seg]" "top_k_of k (concat found) seg"
    using published_best(1) [OF worker(1-3) found(2) [unfolded found(1)] worker(4)] found(1) by auto
  obtain m answer where m: "fst (search_lsm_index cd kw qs k seg None snap buf') = Some answer" "top_k_of k rows m"
    "answer = take k (first_by_id {} (sort_key pdist (m @ seg)))"
    using search_reference [OF assms(1-5) top_k_of_sorted [OF seg(2)]] rows(1) by metis
  have "best_rows k (rows @ concat found) answer"
    unfolding m(3) by (rule dedup_best_rows [OF m(2) rows(2) seg(2) found(3)])
  then show ?thesis using seg(1) m(1) by blast
qed


text \<open>
  The index library fills its answer up with the row number \<open>-1\<close> when a segment has fewer than \<open>k\<close> live rows; the
  conversion reads the mapping at that place.
\<close>

lemma those_None_mem: "None \<in> set xs \<Longrightarrow> those xs = None"
  by (induction xs) (auto split: option.split)

lemma short_segment_reads_before_mapping:
  assumes "ss_index_ptr info = Some h" "ss_bitmap info = Some bm" "ss_map info = Some tids" "il_count lib h > 0"
    and "il_search lib (ss_index_type info) h bm (unat (ss_vec_count info)) k (search_effort (ss_index_type info) efs_nprobe k)
      = Some (rows @ replicate (k - length rows) (d, -1))"
    and "length rows < k"
  shows "segment_pairs lib k efs_nprobe info = None"
proof -
  have "(d, -1) \<in> set (take k (rows @ replicate (k - length rows) (d, -1)))" using assms(6) by simp
  then have "map_pair tids (d, -1) \<in> set (map (map_pair tids) (take k (rows @ replicate (k - length rows) (d, -1))))"
    unfolding set_map by (rule imageI)
  then have "None \<in> set (map (map_pair tids) (take k (rows @ replicate (k - length rows) (d, -1))))"
    by (simp add: map_pair_def)
  then have pairs: "those (map (map_pair tids) (take k (rows @ replicate (k - length rows) (d, -1)))) = None"
    by (rule those_None_mem)
  have "VectorIndexSearch lib (ss_index_type info) h bm (unat (ss_vec_count info)) k efs_nprobe
      = Some (take k (rows @ replicate (k - length rows) (d, -1)))"
    using assms(4,5) by (simp only: VectorIndexSearch_def not_le[symmetric] if_False option.map)
  then show ?thesis
    using pairs assms(1-3) by (simp only: segment_pairs_def option.case prod.case)
qed

section \<open>Examples\<close>

text \<open>
  Two segments, the first of which the memtable snapshot covers; an index library with one row in the other
  one. One interleaving runs its task to the end while another thread pins the first segment.
\<close>

definition search_pool_segment :: "SegmentId \<Rightarrow> nat option \<Rightarrow> nat option \<Rightarrow> FlushedSegment" where
  "search_pool_segment sid prv nxt =
     (ex_seg sid sid prv nxt 1)\<lparr>vec_count := 1, index_ptr := Some 7, bitmap_ptr := Some [0], map_ptr := Some [131075]\<rparr>"

definition search_pool :: FlushedSegmentPool where
  "search_pool = ex_pool\<lparr>flushed_segments :=
     (flushed_segments ex_pool)(0 := search_pool_segment 5 None (Some 1), 1 := search_pool_segment 9 (Some 0) None)\<rparr>"

definition one_row_library :: "int index_library" where
  "one_row_library = \<lparr>il_count = (\<lambda>_. 1), il_search = (\<lambda>_ _ _ _ _ _. Some [(4, 0)])\<rparr>"

definition row_of_9 :: "int DistancePair" where
  "row_of_9 = \<lparr>pdist = 4, pid = 131075\<rparr>"

lemma search_pool_ok: "idle_ok search_pool [0, 1] [] [2]" "pool_inv search_pool [0, 1]" "ids_end search_pool [0, 1]"
  "uncovered search_snapshot search_pool [0, 1] = [1]"
proof -
  show inv: "pool_inv search_pool [0, 1]"
    by (simp add: pool_inv_def pool_links_def pool_live_def pool_sorted_def search_pool_def search_pool_segment_def
        ex_pool_def ex_seg_def MAX_SEGMENTS_COUNT_def)
  show ids: "ids_end search_pool [0, 1]"
    by (simp add: ids_end_def search_pool_def search_pool_segment_def ex_seg_def)
  show "idle_ok search_pool [0, 1] [] [2]"
    using inv ids by (auto simp: idle_ok_def loaded_slot_def search_pool_def search_pool_segment_def ex_pool_def ex_seg_def
        MAX_SEGMENTS_COUNT_def)
  have "{5..5 :: SegmentId} = {5}" "{9..9 :: SegmentId} = {9}" by auto
  then show "uncovered search_snapshot search_pool [0, 1] = [1]"
    by (simp add: uncovered_def fully_covered_def sid_covered_def search_snapshot_def search_pool_def
        search_pool_segment_def ex_seg_def)
qed

lemma example_found: "segment_pairs one_row_library 3 40 (search_info search_pool 1) = Some [row_of_9]"
  by (simp add: segment_pairs_def VectorIndexSearch_def one_row_library_def search_info_def search_pool_def
      search_pool_segment_def ex_seg_def map_pair_def row_of_9_def)

definition searched :: "FlushedSegmentPool \<Rightarrow> nat list \<Rightarrow> task_pc \<Rightarrow> int \<Rightarrow> int DistancePair list list \<Rightarrow> int PoolSystem" where
  "searched pool others pc remaining written =
     \<lparr>ps_pool = pool, ps_listed = [0, 1], ps_others = others, ps_reserved = [2], ps_stray = [],
      ps_run = \<lparr>sr_segments = [search_info search_pool 1], sr_pc = [pc], sr_results = [[row_of_9]],
        sr_remaining = remaining, sr_published = written\<rparr>\<rparr>"

abbreviation search_begun :: "FlushedSegmentPool \<Rightarrow> int PoolSystem" where
  "search_begun p \<equiv> (idle_system p [0, 1] [] [2])\<lparr>ps_run := submit_search [search_info search_pool 1]\<rparr>"

lemma search_example_steps:
  "(search_step one_row_library 3 40)\<^sup>*\<^sup>* (search_begun p) (searched (pin_segment 0 p) [0] TUnpin 1 [])"
  "(search_step one_row_library 3 40)\<^sup>*\<^sup>* (searched (pin_segment 0 p) [0] TUnpin 1 [])
     (searched (decrement_flushed_segment_ref_count True 1 (pin_segment 0 p)) [0] TDone 0 [[row_of_9]])"
proof -
  let ?step = "search_step one_row_library 3 40"
  have "?step (search_begun p) (searched p [] TUnpin 1 [])"
    using task_search [of 0 "search_begun p" one_row_library 3 40 "ps_run (searched p [] TUnpin 1 [])"]
    by (simp add: searched_def idle_system_def store_pairs_def example_found [unfolded One_nat_def] set_pc_def submit_search_def
        ConcurrentVectorSearchOnSegments_def Let_def)
  moreover have "?step (searched p [] TUnpin 1 []) (searched (pin_segment 0 p) [0] TUnpin 1 [])"
    using other_pin [of 0 "searched p [] TUnpin 1 []" one_row_library 3 40] by (simp add: searched_def)
  ultimately show "?step\<^sup>*\<^sup>* (search_begun p) (searched (pin_segment 0 p) [0] TUnpin 1 [])"
    by (meson converse_rtranclp_into_rtranclp r_into_rtranclp)
  let ?q = "pin_segment 0 p" and ?r = "decrement_flushed_segment_ref_count True 1 (pin_segment 0 p)"
  have idx: "ss_segment_idx (search_info search_pool 1) = 1" by (simp add: search_info_def Let_def)
  have "?step (searched ?q [0] TUnpin 1 []) (searched ?r [0] TCount 1 [])"
    using task_unpin [of 0 "searched ?q [0] TUnpin 1 []" one_row_library 3 40 True] idx
    by (simp add: searched_def set_pc_def)
  moreover have "?step (searched ?r [0] TCount 1 []) (searched ?r [0] TDone 0 [[row_of_9]])"
    using task_count [of 0 "searched ?r [0] TCount 1 []" one_row_library 3 40]
    by (simp add: searched_def count_down_def set_pc_def merge_all_segment_results_def)
  ultimately show "?step\<^sup>*\<^sup>* (searched ?q [0] TUnpin 1 []) (searched ?r [0] TDone 0 [[row_of_9]])"
    by (meson converse_rtranclp_into_rtranclp r_into_rtranclp)
qed

lemma search_example_start:
  obtains p where "vector_search got search_snapshot search_pool =
    Some (p, submit_search [search_info search_pool 1] :: int SearchRun)"
proof -
  obtain p where "vector_search got search_snapshot search_pool =
      Some (p, submit_search (map (search_info search_pool) (uncovered search_snapshot search_pool [0, 1])) :: int SearchRun)"
    by (rule vector_search_start [OF search_pool_ok(2,3)])
  then show thesis using that unfolding search_pool_ok(4) by simp
qed

lemma example_found_all:
  "found_pairs one_row_library 3 40 (map (search_info search_pool) (uncovered search_snapshot search_pool [0, 1])) = [[row_of_9]]"
  unfolding search_pool_ok(4) by (simp add: found_pairs_def example_found [unfolded One_nat_def])

text \<open>
  The condition of C12 is needed. Segment 9 was loaded by \<^verbatim>\<open>mmap\<close> and a search holds it; an adoption replaces it by
  slot 2, and then the upgrade that was queued for it links its copy, slot 3, in its place and gives up the
  reference of the search: the slot is freed while the task still searches it.
\<close>

definition stray_pool :: FlushedSegmentPool where
  "stray_pool = search_pool\<lparr>flushed_segments := (flushed_segments search_pool)
     (1 := (search_pool_segment 9 (Some 0) None)\<lparr>load_state := SEG_MMAP_LOADED\<rparr>,
      2 := ex_seg 9 9 None None 0, 3 := ex_seg 9 9 None None 0)\<rparr>"

lemma replace_last_reference:
  "ref_count (flushed_segments p i) = 1 \<Longrightarrow> i \<noteq> j \<Longrightarrow> \<not> in_used (flushed_segments (replace_flushed_segments_n cap [i] j p) i)"
  by (simp add: replace_flushed_segments_n_def Let_def relink_span_frame decrement_sel dec_seg_def free_segment_slot_def)

lemma late_upgrade_frees_searched_segment:
  "\<exists>p r s. idle_ok stray_pool [0, 1] [] [2, 3] \<and> vector_search got search_snapshot stray_pool = Some (p, r :: int SearchRun)
    \<and> (search_step lib k efs_nprobe)\<^sup>*\<^sup>* ((idle_system p [0, 1] [] [2, 3])\<lparr>ps_run := r\<rparr>) s
    \<and> task_holds (ps_run s) 0 1 \<and> \<not> in_used (flushed_segments (ps_pool s) 1)"
proof -
  note ev = stray_pool_def search_pool_def search_pool_segment_def ex_pool_def ex_seg_def
  have inv: "pool_inv stray_pool [0, 1]"
    by (simp add: pool_inv_def pool_links_def pool_live_def pool_sorted_def ev MAX_SEGMENTS_COUNT_def)
  have ids: "ids_end stray_pool [0, 1]" by (simp add: ids_end_def ev)
  have ok: "idle_ok stray_pool [0, 1] [] [2, 3]"
    using inv ids by (auto simp: idle_ok_def loaded_slot_def ev MAX_SEGMENTS_COUNT_def)
  have "{5..5 :: SegmentId} = {5}" "{9..9 :: SegmentId} = {9}" by auto
  then have unc: "uncovered search_snapshot stray_pool [0, 1] = [1]"
    by (simp add: uncovered_def fully_covered_def sid_covered_def search_snapshot_def ev)
  obtain p where p: "vector_search got search_snapshot stray_pool =
      Some (p, submit_search (map (search_info stray_pool) (uncovered search_snapshot stray_pool [0, 1])) :: int SearchRun)"
    "flushed_segments p = (\<lambda>i. if i \<in> set (uncovered search_snapshot stray_pool [0, 1])
       then (flushed_segments stray_pool i)\<lparr>ref_count := ref_count (flushed_segments stray_pool i) + 1\<rparr> else flushed_segments stray_pool i)"
    by (rule vector_search_start [OF inv ids])
  define r :: "int SearchRun" where "r = submit_search [search_info stray_pool 1]"
  have start: "vector_search got search_snapshot stray_pool = Some (p, r)" using p(1) unfolding unc r_def by simp
  let ?s0 = "(idle_system p [0, 1] [] [2, 3])\<lparr>ps_run := r\<rparr>"
  let ?q = "replace_flushed_segments_n 0 [1] 2 p"
  let ?s1 = "?s0\<lparr>ps_pool := ?q, ps_reserved := removeAll 2 (ps_reserved ?s0), ps_listed := [0] @ 2 # []\<rparr>"
  let ?s2 = "?s1\<lparr>ps_pool := replace_flushed_segments_n 0 [1] 3 ?q, ps_reserved := removeAll 3 (ps_reserved ?s1),
     ps_listed := [], ps_stray := 1 # ps_stray ?s1\<rparr>"
  have one: "flushed_segments p 1 = (flushed_segments stray_pool 1)\<lparr>ref_count := 2\<rparr>" "flushed_segments p 2 = ex_seg 9 9 None None 0"
    unfolding p(2) unc by (simp_all add: ev)
  note one = one [unfolded One_nat_def]
  have q: "payload (flushed_segments ?q 1) = payload (flushed_segments p 1)" "ref_count (flushed_segments ?q 1) = 1"
    using replace_retired [of "[1]" 1 2 p 0] by (simp_all add: one)
  have "search_step lib k efs_nprobe ?s0 ?s1"
    using search_step.other_replace [of 2 ?s0 "[0]" "[1]" "[]" lib k efs_nprobe 0]
    by (simp add: idle_system_def one, simp add: ev)
  moreover have "search_step lib k efs_nprobe ?s1 ?s2"
    using search_step.other_late_upgrade [of 3 ?s1 1 lib k efs_nprobe "[]" 0] payload_eqD(1,9) [OF q(1)]
    by (simp add: idle_system_def one, simp add: ev)
  ultimately have "(search_step lib k efs_nprobe)\<^sup>*\<^sup>* ?s0 ?s2" by (meson converse_rtranclp_into_rtranclp r_into_rtranclp)
  moreover have "task_holds (ps_run ?s2) 0 1"
    by (simp add: task_holds_def r_def search_info_def Let_def)
  moreover have "\<not> in_used (flushed_segments (ps_pool ?s2) 1)"
    using replace_last_reference [OF q(2), of 3 0] by simp
  ultimately show ?thesis using ok start by blast
qed

theorem search_covers_every_segment_witness:
  "\<exists>p infos. vector_search (\<lambda>_. True) search_snapshot search_pool = Some (p, submit_search infos :: int SearchRun)
    \<and> infos = map (search_info search_pool) [1]"
  using search_covers_every_segment [OF search_pool_ok(2,3), of "\<lambda>_. True" search_snapshot]
  unfolding search_pool_ok(4) by blast

theorem searched_segments_stay_valid_witness:
  "\<exists>p s. (search_step one_row_library 3 40)\<^sup>*\<^sup>* (search_begun p) s \<and> task_holds (ps_run s) 0 1
    \<and> in_used (flushed_segments (ps_pool s) 1) \<and> same_buffers (search_info (ps_pool s) 1) (sr_segments (ps_run s) ! 0)"
proof -
  obtain p where p: "vector_search (\<lambda>_. True) search_snapshot search_pool =
      Some (p, submit_search [search_info search_pool 1] :: int SearchRun)" by (rule search_example_start)
  let ?s = "searched (pin_segment 0 p) [0] TUnpin 1 []"
  have fresh: "ps_stray ?s = []" by (simp add: searched_def)
  have "task_holds (ps_run ?s) 0 1" by (simp add: task_holds_def searched_def search_info_def Let_def)
  then show ?thesis
    using searched_segments_stay_valid [OF search_pool_ok(1) p search_example_steps(1) fresh] search_example_steps(1) by blast
qed

theorem search_publishes_best_once_witness:
  "\<exists>s best. (\<exists>p. (search_step one_row_library 3 40)\<^sup>*\<^sup>* (search_begun p) s)
    \<and> sr_published (ps_run s) = [best] \<and> top_k_of 3 [row_of_9] best"
proof -
  obtain p where p: "vector_search (\<lambda>_. True) search_snapshot search_pool =
      Some (p, submit_search [search_info search_pool 1] :: int SearchRun)" by (rule search_example_start)
  let ?s = "searched (decrement_flushed_segment_ref_count True 1 (pin_segment 0 p)) [0] TDone 0 [[row_of_9]]"
  have steps: "(search_step one_row_library 3 40)\<^sup>*\<^sup>* (search_begun p) ?s"
    using search_example_steps [of p] by (rule rtranclp_trans)
  have "if \<forall>pc \<in> set (sr_pc (ps_run ?s)). pc = TDone
    then \<exists>best. sr_published (ps_run ?s) = [best] \<and> top_k_of 3 (concat [[row_of_9]]) best
    else sr_published (ps_run ?s) = []"
    using search_publishes_best_once [OF search_pool_ok(1) p steps] unfolding example_found_all by simp
  then have "\<exists>best. sr_published (ps_run ?s) = [best] \<and> top_k_of 3 [row_of_9] best"
    by (simp add: searched_def)
  with steps show ?thesis by blast
qed

theorem search_loses_no_row_witness:
  "\<exists>seg answer. (\<exists>p s. (search_step one_row_library 3 40)\<^sup>*\<^sup>* (search_begun p) s \<and> sr_published (ps_run s) = [seg])
    \<and> fst (search_lsm_index (\<lambda>r. sum_list (map uint r)) (exact_knowhere (\<lambda>r. sum_list (map uint r))) (sort_key pdist) 3
        seg None search_snapshot (shift_refs 1 [1] (shift_ref 1 search_buffer 0))) = Some answer"
proof -
  let ?cd = "\<lambda>r :: u8 list. sum_list (map uint r)"
  obtain p where p: "vector_search (\<lambda>_. True) search_snapshot search_pool =
      Some (p, submit_search [search_info search_pool 1] :: int SearchRun)" by (rule search_example_start)
  let ?s = "searched (decrement_flushed_segment_ref_count True 1 (pin_segment 0 p)) [0] TDone 0 [[row_of_9]]"
  have steps: "(search_step one_row_library 3 40)\<^sup>*\<^sup>* (search_begun p) ?s"
    using search_example_steps [of p] by (rule rtranclp_trans)
  have fin: "\<forall>pc \<in> set (sr_pc (ps_run ?s)). pc = TDone" by (simp add: searched_def)
  have rows: "distinct (map pid (concat (map (visible_pairs ?cd) (snapshot_memtables search_snapshot search_buffer))))"
    by (simp add: snapshot_memtables_def search_snapshot_def search_buffer_def MT_FROM_SLOTIDX_def visible_pairs_def
        individual_pairs_def search_row_def example_memtable_def sealed_example_def row_pair_def valid_rows_def
        IS_SLOT_SET_def MEMTABLE_BITMAP_SIZE_def MEMTABLE_MAX_CAPACITY_def)
  show ?thesis
    using search_loses_no_row [OF search_snapshot search_example_ok exact_knowhere sort_key_sorts search_pool_ok(1) p steps fin
        example_found_all [symmetric] _ _ refl rows] steps by auto
qed

end
