(* ===== verification/MaintenanceTasks.thy ===== *)
theory MaintenanceTasks
  imports RequestProtocol VacuumRedo WorkerSearch
begin

text \<open>
  The handlers of \<^verbatim>\<open>maintenance_worker_thread\<close> (\<^verbatim>\<open>vector_index_worker.c\<close>): what each task of the queue does to the
  segment pool of its index and which status it reports. Loading by \<^verbatim>\<open>mmap\<close> with a later upgrade of every segment
  is compared with loading into memory.
\<close>

section \<open>Waiting for the index\<close>

text \<open>
  \<^verbatim>\<open>wait_for_slot_queryable\<close>; \<open>obs i\<close> is the state that the \<open>i\<close>-th poll reads.
\<close>

definition MAX_ATTEMPTS :: nat where "MAX_ATTEMPTS = 300000"

primrec poll_queryable :: "nat \<Rightarrow> (nat \<Rightarrow> LSMSlotState) \<Rightarrow> nat \<Rightarrow> bool" where
  "poll_queryable 0 obs i = False"
| "poll_queryable (Suc left) obs i =
     (if obs i = LSM_SLOT_QUERYABLE then True
      else if obs i \<noteq> LSM_SLOT_LOADING_INDEX then False
      else poll_queryable left obs (Suc i))"

definition wait_for_slot_queryable :: "int \<Rightarrow> (nat \<Rightarrow> LSMSlotState) \<Rightarrow> bool" where
  "wait_for_slot_queryable lsm_idx obs \<longleftrightarrow>
     0 \<le> lsm_idx \<and> lsm_idx < int INDEX_BUF_SIZE \<and> poll_queryable MAX_ATTEMPTS obs 0"

section \<open>The handlers\<close>

text \<open>
  The files of an index and what the handlers get from the system. \<open>we_load_index\<close> is \<^verbatim>\<open>load_index_file\<close> into memory;
  \<open>we_malloc\<close> says whether the two allocations of an upgrade succeed.
\<close>

record worker_env =
  we_store :: segment_store
  we_files :: "SegmentFileInfo list"
  we_dir :: directory
  we_capacity :: u32
  we_mmap :: bool
  we_load_index :: "SegmentId \<Rightarrow> SegmentId \<Rightarrow> u32 \<Rightarrow> IndexType \<Rightarrow> nat option"
  we_malloc :: bool
  we_got_lock :: bool

definition handle_index_build :: "worker_env \<Rightarrow> FlushedSegmentPool \<Rightarrow> FlushedSegmentPool option" where
  "handle_index_build env pool =
     (case reserve_flushed_segment (initialize_segment_pool pool) of
        (None, p) \<Rightarrow> Some p
      | (Some i, p) \<Rightarrow>
          register_flushed_segment (we_capacity env) i
            (upd_seg i (load_and_set_segment (we_store env) START_SEGMENT_ID START_SEGMENT_ID UINT32_MAX False) p))"

text \<open>
  \<^verbatim>\<open>SEGMENT_UPDATE_REGULAR\<close>. Between its three locked sections other threads may change the pool (\<open>other1\<close>, \<open>other2\<close>).
  A failed reservation is not noticed and the slot before the array is written, \<open>None\<close>.
\<close>

definition segment_update_regular ::
  "(FlushedSegmentPool \<Rightarrow> FlushedSegmentPool) \<Rightarrow> (FlushedSegmentPool \<Rightarrow> FlushedSegmentPool) \<Rightarrow> worker_env
     \<Rightarrow> SegmentId \<Rightarrow> SegmentId \<Rightarrow> FlushedSegmentPool \<Rightarrow> (int option \<times> FlushedSegmentPool) option" where
  "segment_update_regular other1 other2 env start_sid end_sid pool =
     (case find_segment_by_sids pool start_sid end_sid of
        None \<Rightarrow> None
      | Some (Some _) \<Rightarrow> Some (Some 0, pool)
      | Some None \<Rightarrow>
          (case reserve_flushed_segment (other1 pool) of
             (None, p) \<Rightarrow> None
           | (Some i, p) \<Rightarrow>
               map_option (\<lambda>p. (None, p))
                 (register_flushed_segment (we_capacity env) i
                    (other2 (upd_seg i (load_and_set_segment (we_store env) start_sid end_sid UINT32_MAX False) p)))))"

definition adopt_status :: "DpvAdoptionOutcome \<Rightarrow> int" where
  "adopt_status outcome =
     (case outcome of DPV_ADOPT_INDEX_UNLOADED \<Rightarrow> 2 | DPV_ADOPT_STALE_DISCARD \<Rightarrow> 1 | DPV_ADOPT_ADOPTED \<Rightarrow> 0)"

text \<open>
  The second phase of a cold start: one upgrade task for each segment that is loaded by \<^verbatim>\<open>mmap\<close>, from head to the
  end of the list.
\<close>

definition upgrade_task :: "oid \<Rightarrow> int \<Rightarrow> FlushedSegmentPool \<Rightarrow> nat \<Rightarrow> InternalUpgradeTaskData" where
  "upgrade_task relid lsm_idx pool i =
     (let s = flushed_segments pool i in
      \<lparr>up_index_relid = relid, up_lsm_idx = lsm_idx, up_segment_idx = i, up_start_sid = segment_id_start s,
       up_end_sid = segment_id_end s, up_version = UINT32_MAX, up_index_type = index_type s\<rparr>)"

partial_function (option) submit_upgrades ::
  "oid \<Rightarrow> int \<Rightarrow> FlushedSegmentPool \<Rightarrow> nat option \<Rightarrow> MaintenanceTask list \<Rightarrow> MaintenanceTask list option" where
  "submit_upgrades relid lsm_idx pool cur queue =
     (case cur of
        None \<Rightarrow> Some queue
      | Some i \<Rightarrow>
          submit_upgrades relid lsm_idx pool (next_idx (flushed_segments pool i))
            (if load_state (flushed_segments pool i) = SEG_MMAP_LOADED
             then submit_internal_task (upgrade_task relid lsm_idx pool i) queue else queue))"

definition handle_index_load ::
  "worker_env \<Rightarrow> oid \<Rightarrow> int \<Rightarrow> FlushedSegmentPool \<Rightarrow> MaintenanceTask list
     \<Rightarrow> (FlushedSegmentPool \<times> MaintenanceTask list) option" where
  "handle_index_load env relid lsm_idx pool queue =
     (if we_mmap env
      then
        (case load_all_segments_from_disk_mmap (we_capacity env) (we_store env) (we_files env) (initialize_segment_pool pool) of
           None \<Rightarrow> None
         | Some p \<Rightarrow> map_option (\<lambda>q. (p, q)) (submit_upgrades relid lsm_idx p (head_idx p) queue))
      else
        map_option (\<lambda>p. (p, queue))
          (load_all_segments_from_disk (we_capacity env) (we_store env) (we_files env) (initialize_segment_pool pool)))"

text \<open>
  The upgrade of one segment: a new slot gets the index in memory and copies of bitmap and mapping, and replaces
  the old slot. The offset table is not copied. Copying from a null pointer is \<open>None\<close>.
\<close>

definition upgraded_segment :: "nat \<Rightarrow> FlushedSegment \<Rightarrow> bitmap \<Rightarrow> i64 list \<Rightarrow> FlushedSegment \<Rightarrow> FlushedSegment" where
  "upgraded_segment new_index s bm tids ns =
     ns\<lparr>segment_id_start := segment_id_start s, segment_id_end := segment_id_end s, vec_count := vec_count s,
        index_type := index_type s, delete_count := delete_count s, version := version s, is_compacting := False,
        index_ptr := Some new_index, bitmap_ptr := Some (take (GET_BITMAP_SIZE (unat (vec_count s))) bm),
        map_ptr := Some (take (unat (vec_count s)) tids), load_state := SEG_FULLY_LOADED\<rparr>"

definition internal_segment_upgrade ::
  "worker_env \<Rightarrow> InternalUpgradeTaskData \<Rightarrow> FlushedSegmentPool \<Rightarrow> FlushedSegmentPool option" where
  "internal_segment_upgrade env upg pool =
     (case we_load_index env (up_start_sid upg) (up_end_sid upg) (up_version upg) (up_index_type upg) of
        None \<Rightarrow> Some pool
      | Some new_index \<Rightarrow>
          let s = flushed_segments pool (up_segment_idx upg) in
          if in_used s \<and> segment_id_start s = up_start_sid upg \<and> segment_id_end s = up_end_sid upg
             \<and> load_state s = SEG_MMAP_LOADED
          then
            (case reserve_flushed_segment pool of
               (None, p) \<Rightarrow> Some p
             | (Some new_slot, p) \<Rightarrow>
                 if we_malloc env
                 then
                   (case (bitmap_ptr s, map_ptr s) of
                      (Some bm, Some tids) \<Rightarrow>
                        Some (replace_flushed_segments_n (we_capacity env) [up_segment_idx upg] new_slot
                                (upd_seg new_slot (upgraded_segment new_index s bm tids) p))
                    | _ \<Rightarrow> None)
                 else Some (upd_seg new_slot (\<lambda>ns. ns\<lparr>in_used := False\<rparr>) p))
          else Some pool)"

text \<open>
  The dispatch on the task, with the pools of all indexes; \<open>obs\<close> is what the polls of the slot state read. The
  result has the reported status, if the handler writes one.
\<close>

definition handle_segment_update ::
  "worker_env \<Rightarrow> (nat \<Rightarrow> LSMSlotState) \<Rightarrow> SegmentUpdateTaskData \<Rightarrow> DpvVacuumGroup list \<Rightarrow> FlushedSegmentPool
     \<Rightarrow> (int option \<times> FlushedSegmentPool) option" where
  "handle_segment_update env obs u groups pool =
     (if su_operation_type u = SEGMENT_UPDATE_REGULAR
      then
        if \<not> wait_for_slot_queryable (su_lsm_idx u) obs then Some (Some 0, pool)
        else segment_update_regular id id env (su_start_sid u) (su_end_sid u) pool
      else if su_operation_type u = SEGMENT_UPDATE_VACUUM
      then
        if \<not> wait_for_slot_queryable (su_lsm_idx u) obs then Some (Some 0, pool)
        else map_option (\<lambda>(r, p). (Some r, p))
               (segment_update_vacuum (we_got_lock env) (su_start_sid u) (su_end_sid u) (su_expected_version u) (we_dir env) pool)
      else if su_operation_type u = SEGMENT_UPDATE_ADOPT
      then
        if \<not> wait_for_slot_queryable (su_lsm_idx u) obs then Some (Some 2, pool)
        else map_option (\<lambda>(outcome, p). (Some (adopt_status outcome), p))
               (dpv_pool_adopt (\<lambda>n p. p) True (we_store env) (we_capacity env) (su_start_sid u) (su_end_sid u)
                  (su_expected_version u) (take (unat (su_memtable_cover_count u)) (su_memtable_cover u)) groups pool)
      else Some (None, pool))"

definition maintenance_task ::
  "worker_env \<Rightarrow> (nat \<Rightarrow> LSMSlotState) \<Rightarrow> MaintenanceTask \<Rightarrow> (int \<Rightarrow> FlushedSegmentPool) \<Rightarrow> MaintenanceTask list
     \<Rightarrow> (int option \<times> (int \<Rightarrow> FlushedSegmentPool) \<times> MaintenanceTask list) option" where
  "maintenance_task env obs t pools queue =
     (case mt_data t of
        BuildTask b \<Rightarrow>
          map_option (\<lambda>p. (None, pools(ib_lsm_idx b := p), queue)) (handle_index_build env (pools (ib_lsm_idx b)))
      | UpdateTask u \<Rightarrow>
          map_option (\<lambda>(r, p). (r, pools(su_lsm_idx u := p), queue))
            (handle_segment_update env obs u (mt_groups t) (pools (su_lsm_idx u)))
      | LoadTask l \<Rightarrow>
          map_option (\<lambda>(p, q). (None, pools(ld_lsm_idx l := p), q))
            (handle_index_load env (ld_index_relid l) (ld_lsm_idx l) (pools (ld_lsm_idx l)) queue)
      | UpgradeTask upg \<Rightarrow>
          map_option (\<lambda>p. (None, pools(up_lsm_idx upg := p), queue))
            (internal_segment_upgrade env upg (pools (up_lsm_idx upg))))"

section \<open>One upgrade\<close>

text \<open>What a search or a merge sees of a segment, apart from where its index lives.\<close>

definition seg_view ::
  "FlushedSegment \<Rightarrow> SegmentId \<times> SegmentId \<times> u64 \<times> IndexType \<times> bitmap option \<times> i64 list option \<times> u32 \<times> u32" where
  "seg_view s = (segment_id_start s, segment_id_end s, vec_count s, index_type s, bitmap_ptr s, map_ptr s, delete_count s, version s)"

abbreviation pool_view where
  "pool_view pool xs \<equiv> map (\<lambda>i. seg_view (flushed_segments pool i)) xs"

definition buffers_full :: "FlushedSegment \<Rightarrow> bool" where
  "buffers_full s \<longleftrightarrow> (\<exists>bm tids. bitmap_ptr s = Some bm \<and> map_ptr s = Some tids
     \<and> length bm = GET_BITMAP_SIZE (unat (vec_count s)) \<and> length tids = unat (vec_count s))"

lemma payload_view: "payload s = payload t \<Longrightarrow> seg_view s = seg_view t"
  using payload_eqD [of s t] by (simp add: seg_view_def)

lemma seg_view_upd [simp]:
  "seg_view (s\<lparr>in_used := u\<rparr>) = seg_view s" "seg_view (s\<lparr>load_state := l\<rparr>) = seg_view s"
  by (simp_all add: seg_view_def)

lemma upgraded_view:
  assumes "bitmap_ptr s = Some bm" "map_ptr s = Some tids" "buffers_full s"
  shows "seg_view (upgraded_segment h s bm tids ns) = seg_view s"
  using assms by (simp add: seg_view_def upgraded_segment_def buffers_full_def)


lemma payload_offsets: "payload s = payload t \<Longrightarrow> offsets s = offsets t"
  by (cases s; cases t; simp add: payload_def)

lemma upgrade_step:
  assumes inv: "pool_inv pool (A @ i # B)"
    and seg: "bitmap_ptr (flushed_segments pool i) \<noteq> None \<and> map_ptr (flushed_segments pool i) \<noteq> None"
      "load_state (flushed_segments pool i) = SEG_MMAP_LOADED"
    and upg: "up_segment_idx upg = i" "up_start_sid upg = sid_start pool i" "up_end_sid upg = sid_end pool i"
    and load: "we_load_index env (up_start_sid upg) (up_end_sid upg) (up_version upg) (up_index_type upg) = Some h" "we_malloc env"
    and room: "reserve_flushed_segment pool = (Some j, p0)"
  obtains p where "internal_segment_upgrade env upg pool = Some p" "pool_inv p (A @ j # B)"
    "buffers_full (flushed_segments pool i) \<Longrightarrow> seg_view (flushed_segments p j) = seg_view (flushed_segments pool i)"
    "load_state (flushed_segments p j) = SEG_FULLY_LOADED" "index_ptr (flushed_segments p j) = Some h"
    "\<And>k. k \<noteq> i \<Longrightarrow> k \<noteq> j \<Longrightarrow> payload (flushed_segments p k) = payload (flushed_segments pool k)
       \<and> ref_count (flushed_segments p k) = ref_count (flushed_segments pool k)"
    "in_used (flushed_segments p i) \<longleftrightarrow> ref_count (flushed_segments pool i) > 1"
    "ref_count (flushed_segments pool i) > 1 \<Longrightarrow> payload (flushed_segments p i) = payload (flushed_segments pool i)"
    "insert_idx p = Suc j" "ref_count (flushed_segments p j) = 1" "j \<notin> set (A @ i # B)" "j < MAX_SEGMENTS_COUNT"
    "offsets (flushed_segments p j) = offsets (flushed_segments pool j)" "\<And>k. i < k \<Longrightarrow> j < k \<Longrightarrow> offsets (flushed_segments p k) = offsets (flushed_segments pool k)"
proof -
  let ?s = "flushed_segments pool i"
  obtain bm tids where bm: "bitmap_ptr ?s = Some bm" "map_ptr ?s = Some tids" using seg(1) by blast
  let ?f = "upgraded_segment h ?s bm tids"
  let ?q = "upd_seg j ?f p0" and ?p = "replace_flushed_segments_n (we_capacity env) [i] j (upd_seg j ?f p0)"
  note res = reserve_inv [OF inv room] and resd = reserve_SomeD [OF room]
  have used: "in_used ?s" "ref_count ?s \<ge> 1" using inv by (auto simp: pool_inv_def pool_live_def)
  have run: "internal_segment_upgrade env upg pool = Some ?p"
    unfolding internal_segment_upgrade_def load(1) by (simp add: load(2) upg used(1) seg(2) room bm)
  have ne: "i \<noteq> j" using res(3) by auto
  have q: "pool_inv ?q (A @ [i] @ B)" using pool_inv_upd_outside [OF res(1,3)] by simp
  have slot: "loaded_slot ?q (A @ [i] @ B) j"
    using res(2) by (simp add: loaded_slot_def upgraded_segment_def)
  have "pool_inv ?p (A @ j # B)"
    by (rule replace_flushed_segments_inv [OF q _ slot]) (use ne in \<open>simp_all add: upgraded_segment_def resd(4)\<close>)
  moreover have pay: "k \<noteq> i \<Longrightarrow> payload (flushed_segments ?p k) = payload (flushed_segments ?q k)" for k
    by (rule replace_payload) simp_all
  then have j: "payload (flushed_segments ?p j) = payload (?f (flushed_segments p0 j))" using ne by simp
  note pj = payload_eqD [OF j]
  have "seg_view (flushed_segments ?p j) = seg_view ?s" if "buffers_full ?s"
    using payload_view [OF j] upgraded_view [OF bm that] by simp
  moreover have "load_state (flushed_segments ?p j) = SEG_FULLY_LOADED" "index_ptr (flushed_segments ?p j) = Some h"
    by (simp_all add: pj upgraded_segment_def)
  moreover have "offsets (flushed_segments ?p j) = offsets (flushed_segments pool j)"
    using payload_offsets [OF j] by (simp add: upgraded_segment_def resd(4))
  moreover have ref: "ref_count (flushed_segments ?p k) = (if k = j then 1 else ref_count (flushed_segments ?q k))" if "k \<noteq> i" for k
    by (rule replace_frame(6)) (use that in simp_all)
  then have "payload (flushed_segments ?p k) = payload (flushed_segments pool k)
      \<and> ref_count (flushed_segments ?p k) = ref_count (flushed_segments pool k)" if "k \<noteq> i" "k \<noteq> j" for k
    using pay [OF that(1)] that by (simp add: resd(4))
  moreover have old: "payload (flushed_segments ?p i) = payload (dec_seg ?s)"
    by (simp add: replace_flushed_segments_n_def Let_def relink_span_payload decrement_sel resd(4) ne)
  have "in_used (flushed_segments ?p i) \<longleftrightarrow> ref_count ?s > 1"
    using payload_eqD(1) [OF old] used by (auto simp: dec_seg_def free_segment_slot_def)
  moreover have "payload (flushed_segments ?p i) = payload ?s" if "ref_count ?s > 1"
    using old that by (simp add: dec_seg_def)
  moreover have "insert_idx ?p = Suc j"
    by (simp add: replace_flushed_segments_n_def Let_def relink_span_frame resd(4) decrement_sel(8))
  moreover have "ref_count (flushed_segments ?p j) = 1" using ref [of j] ne by simp
  moreover have "offsets (flushed_segments ?p k) = offsets (flushed_segments pool k)" if "i < k" "j < k" for k
    using payload_offsets [OF pay [of k]] that by (simp add: resd(4))
  ultimately show ?thesis using that [OF run] res(3) resd(2) by blast
qed


section \<open>Loading in two ways\<close>

text \<open>Two pools that agree but for the load states.\<close>

definition twin_pools :: "FlushedSegmentPool \<Rightarrow> FlushedSegmentPool \<Rightarrow> bool" where
  "twin_pools p q \<longleftrightarrow> insert_idx p = insert_idx q
     \<and> (\<forall>j. (payload (flushed_segments p j))\<lparr>load_state := SEG_NOT_LOADED\<rparr> = (payload (flushed_segments q j))\<lparr>load_state := SEG_NOT_LOADED\<rparr>)"

lemma twin_fields:
  assumes "(payload s)\<lparr>load_state := SEG_NOT_LOADED\<rparr> = (payload t)\<lparr>load_state := SEG_NOT_LOADED\<rparr>"
  shows "seg_view s = seg_view t" "in_used s = in_used t" "segment_id_start s = segment_id_start t" "offsets s = offsets t"
  using assms by (cases s; cases t; simp add: payload_def seg_view_def)+

lemma insert_by_start_cong:
  assumes "\<And>i. i \<in> set xs \<Longrightarrow> sid_start p i = sid_start q i"
  shows "insert_by_start p v idx xs = insert_by_start q v idx xs"
proof -
  have "dropWhile (\<lambda>i. sid_start p i > v) (rev xs) = dropWhile (\<lambda>i. sid_start q i > v) (rev xs)"
    "takeWhile (\<lambda>i. sid_start p i > v) (rev xs) = takeWhile (\<lambda>i. sid_start q i > v) (rev xs)"
    using assms by (auto intro!: dropWhile_cong takeWhile_cong)
  then show ?thesis by (simp add: insert_by_start_def)
qed

lemma length_insert_by_start: "length (insert_by_start pool v idx xs) = Suc (length xs)"
  by (rule insert_by_start_split [of xs pool v idx]) simp

text \<open>Files that can be read, with bitmap and mapping for all their rows.\<close>

definition store_full :: "segment_store \<Rightarrow> SegmentFileInfo list \<Rightarrow> bool" where
  "store_full st files \<longleftrightarrow> store_has st files
     \<and> (\<forall>f \<in> set files. \<forall>sf. read_files st (fi_start_sid f) (fi_end_sid f) (fi_version f) = Some sf \<longrightarrow>
          (\<exists>bm tids. f_bitmap sf = Some bm \<and> f_mapping sf = Some tids
             \<and> length bm = GET_BITMAP_SIZE (unat (md_valid_rows sf)) \<and> length tids = unat (md_valid_rows sf)))"

definition loaded_as :: "SegmentLoadState \<Rightarrow> FlushedSegmentPool \<Rightarrow> nat list \<Rightarrow> bool" where
  "loaded_as l pool xs \<longleftrightarrow> (\<forall>i \<in> set xs. load_state (flushed_segments pool i) = l \<and> buffers_full (flushed_segments pool i))"

lemma unat_u64: "unat (ucast (r :: u32) :: u64) = unat r"
proof -
  have "unat r < 2 ^ 32" using unsigned_less [of r] by simp
  then show ?thesis by (simp add: unsigned_ucast_eq take_bit_nat_eq_self)
qed

lemma loaded_segment:
  assumes "store_full st (f # fs)"
  shows "load_state (load_and_set_segment st (fi_start_sid f) (fi_end_sid f) (fi_version f) m s) = (if m then SEG_MMAP_LOADED else SEG_FULLY_LOADED)"
    and "buffers_full (load_and_set_segment st (fi_start_sid f) (fi_end_sid f) (fi_version f) m s)"
    and "(payload (load_and_set_segment st (fi_start_sid f) (fi_end_sid f) (fi_version f) m s))\<lparr>load_state := l\<rparr>
      = (payload (load_and_set_segment st (fi_start_sid f) (fi_end_sid f) (fi_version f) m' s))\<lparr>load_state := l\<rparr>"
proof -
  obtain sf where sf: "read_files st (fi_start_sid f) (fi_end_sid f) (fi_version f) = Some sf" "fi_version f \<noteq> UINT32_MAX"
    using assms by (auto simp: store_full_def store_has_def split: option.splits)
  obtain bm tids where bm: "f_bitmap sf = Some bm" "f_mapping sf = Some tids"
    "length bm = GET_BITMAP_SIZE (unat (md_valid_rows sf))" "length tids = unat (md_valid_rows sf)"
    using assms sf(1) by (auto simp: store_full_def)
  have n: "unat (ucast (md_valid_rows sf) :: u64) = unat (md_valid_rows sf)" by (rule unat_u64)
  show "load_state (load_and_set_segment st (fi_start_sid f) (fi_end_sid f) (fi_version f) m s) = (if m then SEG_MMAP_LOADED else SEG_FULLY_LOADED)"
    "buffers_full (load_and_set_segment st (fi_start_sid f) (fi_end_sid f) (fi_version f) m s)"
    "(payload (load_and_set_segment st (fi_start_sid f) (fi_end_sid f) (fi_version f) m s))\<lparr>load_state := l\<rparr>
      = (payload (load_and_set_segment st (fi_start_sid f) (fi_end_sid f) (fi_version f) m' s))\<lparr>load_state := l\<rparr>"
    using sf bm n by (simp_all add: load_and_set_segment_def Let_def buffers_full_def payload_def)
qed

lemma load_erased:
  assumes "(payload s)\<lparr>load_state := SEG_NOT_LOADED\<rparr> = (payload t)\<lparr>load_state := SEG_NOT_LOADED\<rparr>"
  shows "(payload (load_and_set_segment st x y v m (s\<lparr>in_used := True\<rparr>)))\<lparr>load_state := SEG_NOT_LOADED\<rparr>
    = (payload (load_and_set_segment st x y v m (t\<lparr>in_used := True\<rparr>)))\<lparr>load_state := SEG_NOT_LOADED\<rparr>"
proof (cases "read_files st x y (if v = UINT32_MAX then segment_store.find_latest_segment_version st x y else v)")
  case None
  then have "load_and_set_segment st x y v m u = u" for u by (simp add: load_and_set_segment_def Let_def)
  then show ?thesis using assms by (cases s; cases t) (simp add: payload_def)
next
  case (Some f)
  then show ?thesis unfolding load_and_set_segment_def Let_def by (cases s; cases t) (simp add: payload_def)
qed

text \<open>Slots that were not used since the pool was set up have no offset table.\<close>

definition blank_from :: "FlushedSegmentPool \<Rightarrow> bool" where
  "blank_from pool \<longleftrightarrow> (\<forall>k. insert_idx pool \<le> k \<longrightarrow> k < MAX_SEGMENTS_COUNT \<longrightarrow> offsets (flushed_segments pool k) = None)"

lemma load_twins:
  assumes "pool_inv p xs" "pool_inv q xs" "twin_pools p q" "fresh_from_insert_idx p" "store_full st files"
    and "insert_idx p + length files \<le> MAX_SEGMENTS_COUNT" "loaded_as SEG_MMAP_LOADED p xs" "loaded_as SEG_FULLY_LOADED q xs"
    and "blank_from p"
  shows "\<exists>p' q' ys. load_segments cap st True files p = Some p' \<and> load_segments cap st False files q = Some q'
    \<and> pool_inv p' ys \<and> pool_inv q' ys \<and> twin_pools p' q' \<and> fresh_from_insert_idx p'
    \<and> insert_idx p' = insert_idx p + length files \<and> length ys = length xs + length files
    \<and> loaded_as SEG_MMAP_LOADED p' ys \<and> loaded_as SEG_FULLY_LOADED q' ys \<and> blank_from p'"
  using assms unfolding load_segments_def
proof (induction files arbitrary: p q xs)
  case Nil
  then show ?case by auto
next
  case (Cons f fs)
  let ?i = "insert_idx p"
  have i: "insert_idx q = ?i" "?i < MAX_SEGMENTS_COUNT" using Cons.prems(3,6) by (simp_all add: twin_pools_def)
  have tw: "(payload (flushed_segments p j))\<lparr>load_state := SEG_NOT_LOADED\<rparr> = (payload (flushed_segments q j))\<lparr>load_state := SEG_NOT_LOADED\<rparr>" for j
    using Cons.prems(3) by (simp add: twin_pools_def)
  have "fresh_from_insert_idx q"
    using Cons.prems(4) twin_fields(2) [OF tw] by (simp add: fresh_from_insert_idx_def i(1))
  let ?gp = "load_and_set_segment st (fi_start_sid f) (fi_end_sid f) (fi_version f) True"
  let ?gq = "load_and_set_segment st (fi_start_sid f) (fi_end_sid f) (fi_version f) False"
  let ?p = "upd_seg ?i (\<lambda>s. s\<lparr>in_used := True\<rparr>) (p\<lparr>insert_idx := Suc ?i\<rparr>)"
  let ?q = "upd_seg ?i (\<lambda>s. s\<lparr>in_used := True\<rparr>) (q\<lparr>insert_idx := Suc ?i\<rparr>)"
  let ?v = "sid_start (upd_seg ?i ?gp ?p) ?i"
  let ?ys = "insert_by_start (upd_seg ?i ?gp ?p) ?v ?i xs"
  obtain p1 where p1: "load_one_segment cap st True f p = Some p1" "pool_inv p1 ?ys" "insert_idx p1 = Suc ?i"
    "\<And>j. payload (flushed_segments p1 j) = payload (flushed_segments (upd_seg ?i ?gp ?p) j)"
    using load_one_segment_step [OF Cons.prems(1) reserve_fresh [OF Cons.prems(4) i(2)], of cap st True f] by blast
  obtain q1 where q1: "load_one_segment cap st False f q = Some q1"
    "pool_inv q1 (insert_by_start (upd_seg ?i ?gq ?q) (sid_start (upd_seg ?i ?gq ?q) ?i) ?i xs)" "insert_idx q1 = Suc ?i"
    "\<And>j. payload (flushed_segments q1 j) = payload (flushed_segments (upd_seg ?i ?gq ?q) j)"
    using load_one_segment_step [OF Cons.prems(2) reserve_fresh [OF \<open>fresh_from_insert_idx q\<close>], of cap st False f] i by auto
  have step: "(payload (flushed_segments (upd_seg ?i ?gp ?p) j))\<lparr>load_state := SEG_NOT_LOADED\<rparr>
      = (payload (flushed_segments (upd_seg ?i ?gq ?q) j))\<lparr>load_state := SEG_NOT_LOADED\<rparr>" for j
  proof (cases "j = ?i")
    case True
    have "(payload (?gp (flushed_segments ?p ?i)))\<lparr>load_state := SEG_NOT_LOADED\<rparr>
        = (payload (?gq (flushed_segments ?p ?i)))\<lparr>load_state := SEG_NOT_LOADED\<rparr>"
      by (rule loaded_segment(3) [OF Cons.prems(5)])
    also have "\<dots> = (payload (?gq (flushed_segments ?q ?i)))\<lparr>load_state := SEG_NOT_LOADED\<rparr>"
      using load_erased [OF tw [of ?i]] by simp
    finally show ?thesis using True by simp
  next
    case False
    then show ?thesis using tw [of j] by simp
  qed
  then have twin1: "twin_pools p1 q1" unfolding twin_pools_def p1(3,4) q1(3,4) by blast
  have same: "insert_by_start (upd_seg ?i ?gq ?q) (sid_start (upd_seg ?i ?gq ?q) ?i) ?i xs = ?ys"
    unfolding twin_fields(3) [OF step, symmetric] by (rule insert_by_start_cong) (rule twin_fields(3) [OF step, symmetric])
  have fresh1: "fresh_from_insert_idx p1"
    using Cons.prems(4) by (auto simp: fresh_from_insert_idx_def p1(3) payload_eqD(1) [OF p1(4)])
  have new: "?i \<notin> set xs"
    using Cons.prems(1,4) i(2) by (auto simp: pool_inv_def pool_live_def fresh_from_insert_idx_def)
  have states: "loaded_as SEG_MMAP_LOADED p1 ?ys" "loaded_as SEG_FULLY_LOADED q1 ?ys"
  proof -
    have full: "buffers_full s = buffers_full t" if "payload s = payload t" for s t
      using payload_eqD [OF that] by (simp add: buffers_full_def)
    have pj: "load_state (flushed_segments p1 j) = SEG_MMAP_LOADED \<and> buffers_full (flushed_segments p1 j)" if "j \<in> set ?ys" for j
      using that Cons.prems(7) loaded_segment(1,2) [OF Cons.prems(5), of True] full [OF p1(4) [of j]] payload_eqD(9) [OF p1(4) [of j]]
      by (cases "j = ?i") (simp_all add: loaded_as_def)
    have qj: "load_state (flushed_segments q1 j) = SEG_FULLY_LOADED \<and> buffers_full (flushed_segments q1 j)" if "j \<in> set ?ys" for j
      using that Cons.prems(8) loaded_segment(1,2) [OF Cons.prems(5), of False] full [OF q1(4) [of j]] payload_eqD(9) [OF q1(4) [of j]]
      by (cases "j = ?i") (simp_all add: loaded_as_def)
    show "loaded_as SEG_MMAP_LOADED p1 ?ys" "loaded_as SEG_FULLY_LOADED q1 ?ys" using pj qj by (simp_all add: loaded_as_def)
  qed
  have blank: "blank_from p1"
    using Cons.prems(9) by (auto simp: blank_from_def p1(3) payload_offsets [OF p1(4)])
  have "store_full st fs" using Cons.prems(5) by (simp add: store_full_def store_has_def)
  moreover have "length ?ys = Suc (length xs)" by (rule length_insert_by_start)
  ultimately show ?case
    using Cons.IH [OF p1(2) q1(2) [unfolded same] twin1 fresh1 _ _ states blank] Cons.prems(6) p1(1,3) q1(1) by auto
qed


section \<open>The upgrades of a cold start\<close>

lemma submit_upgrades_list:
  assumes "dll (flushed_segments pool) pr xs None" "\<forall>i \<in> set xs. load_state (flushed_segments pool i) = SEG_MMAP_LOADED"
    and "length queue + length xs \<le> MAINTENANCE_TASK_QUEUE_SIZE"
  shows "submit_upgrades relid idx pool (first_opt xs None) queue
    = Some (queue @ map (\<lambda>i. \<lparr>mt_data = UpgradeTask (upgrade_task relid idx pool i), mt_groups = [], mt_origin = None\<rparr>) xs)"
  using assms
proof (induction xs arbitrary: pr queue)
  case Nil
  then show ?case by (simp add: submit_upgrades.simps)
next
  case (Cons i xs)
  let ?t = "\<lparr>mt_data = UpgradeTask (upgrade_task relid idx pool i), mt_groups = [], mt_origin = None\<rparr>"
  have "submit_upgrades relid idx pool (first_opt xs None) (queue @ [?t])
    = Some ((queue @ [?t]) @ map (\<lambda>i. \<lparr>mt_data = UpgradeTask (upgrade_task relid idx pool i), mt_groups = [], mt_origin = None\<rparr>) xs)"
    using Cons.prems by (intro Cons.IH [of "Some i"]) simp_all
  then show ?case
    using Cons.prems by (simp add: submit_upgrades.simps [of relid idx pool "Some i"] submit_internal_task_def)
qed

definition run_queue ::
  "worker_env \<Rightarrow> (nat \<Rightarrow> LSMSlotState) \<Rightarrow> MaintenanceTask list \<Rightarrow> (int \<Rightarrow> FlushedSegmentPool) \<Rightarrow> (int \<Rightarrow> FlushedSegmentPool) option" where
  "run_queue env obs tasks pools =
     iterate_opt (\<lambda>t pools. map_option (fst \<circ> snd) (maintenance_task env obs t pools [])) tasks pools"

lemma upgrades_run:
  assumes "pool_inv (pools idx) (D @ rest)" "loaded_as SEG_MMAP_LOADED (pools idx) rest" "fresh_from_insert_idx (pools idx)"
    and "insert_idx (pools idx) + length rest \<le> MAX_SEGMENTS_COUNT" "we_malloc env" "\<forall>a b v ty. we_load_index env a b v ty \<noteq> None"
    and "\<forall>i \<in> set rest. up_segment_idx (f i) = i \<and> up_lsm_idx (f i) = idx \<and> up_start_sid (f i) = sid_start (pools idx) i
      \<and> up_end_sid (f i) = sid_end (pools idx) i"
    and "blank_from (pools idx)"
  shows "\<exists>pools' ys. run_queue env obs (map (\<lambda>i. \<lparr>mt_data = UpgradeTask (f i), mt_groups = [], mt_origin = None\<rparr>) rest) pools = Some pools'
    \<and> pool_inv (pools' idx) (D @ ys) \<and> pool_view (pools' idx) (D @ ys) = pool_view (pools idx) (D @ rest)
    \<and> (\<forall>i \<in> set ys. load_state (flushed_segments (pools' idx) i) = SEG_FULLY_LOADED)
    \<and> (\<forall>i \<in> set D. load_state (flushed_segments (pools' idx) i) = load_state (flushed_segments (pools idx) i))
    \<and> (\<forall>i \<in> set ys. offsets (flushed_segments (pools' idx) i) = None)
    \<and> (\<forall>i \<in> set D. offsets (flushed_segments (pools' idx) i) = offsets (flushed_segments (pools idx) i))
    \<and> (\<forall>k. k \<noteq> idx \<longrightarrow> pools' k = pools k)"
  using assms
proof (induction rest arbitrary: pools D)
  case Nil
  then show ?case by (intro exI [of _ pools] exI [of _ "[]"]) (simp add: run_queue_def)
next
  case (Cons i rest)
  let ?pool = "pools idx"
  have room: "insert_idx ?pool < MAX_SEGMENTS_COUNT" using Cons.prems(4) by simp
  let ?j = "insert_idx ?pool"
  obtain p0 where res: "reserve_flushed_segment ?pool = (Some ?j, p0)"
    using reserve_fresh [OF Cons.prems(3) room] by simp
  obtain h where h: "we_load_index env (up_start_sid (f i)) (up_end_sid (f i)) (up_version (f i)) (up_index_type (f i)) = Some h"
    using Cons.prems(6) by fastforce
  have i: "buffers_full (flushed_segments ?pool i)" "load_state (flushed_segments ?pool i) = SEG_MMAP_LOADED"
    "up_segment_idx (f i) = i" "up_start_sid (f i) = sid_start ?pool i" "up_end_sid (f i) = sid_end ?pool i" "up_lsm_idx (f i) = idx"
    using Cons.prems(2,7) by (simp_all add: loaded_as_def)
  have has: "bitmap_ptr (flushed_segments ?pool i) \<noteq> None \<and> map_ptr (flushed_segments ?pool i) \<noteq> None"
    using i(1) by (auto simp: buffers_full_def)
  obtain p where p: "internal_segment_upgrade env (f i) ?pool = Some p" "pool_inv p (D @ ?j # rest)"
    "seg_view (flushed_segments p ?j) = seg_view (flushed_segments ?pool i)" "load_state (flushed_segments p ?j) = SEG_FULLY_LOADED"
    "\<And>k. k \<noteq> i \<Longrightarrow> k \<noteq> ?j \<Longrightarrow> payload (flushed_segments p k) = payload (flushed_segments ?pool k)"
    "insert_idx p = Suc ?j" "?j \<notin> set (D @ i # rest)"
    "offsets (flushed_segments p ?j) = offsets (flushed_segments ?pool ?j)"
    "\<And>k. i < k \<Longrightarrow> ?j < k \<Longrightarrow> offsets (flushed_segments p k) = offsets (flushed_segments ?pool k)"
    using upgrade_step [OF Cons.prems(1) has i(2-5) h Cons.prems(5) res] i(1) by metis
  let ?pools = "pools(idx := p)"
  have other: "payload (flushed_segments p k) = payload (flushed_segments ?pool k)" if "k \<in> set D \<union> set rest" for k
    using that p(5) [of k] p(7) Cons.prems(1) by (auto simp: pool_inv_def pool_links_def)
  have full: "buffers_full s = buffers_full t" if "payload s = payload t" for s t
    using payload_eqD [OF that] by (simp add: buffers_full_def)
  have "loaded_as SEG_MMAP_LOADED p rest"
    using Cons.prems(2) full [OF other] payload_eqD(9) [OF other] by (simp add: loaded_as_def)
  moreover have "fresh_from_insert_idx p"
    unfolding fresh_from_insert_idx_def p(6)
  proof (intro allI impI)
    fix k assume k: "Suc ?j \<le> k" "k < MAX_SEGMENTS_COUNT"
    then have "\<not> in_used (flushed_segments ?pool k)" using Cons.prems(3) by (simp add: fresh_from_insert_idx_def)
    moreover have "k \<noteq> i" using calculation Cons.prems(1) by (auto simp: pool_inv_def pool_live_def)
    ultimately show "\<not> in_used (flushed_segments p k)" using payload_eqD(1) [OF p(5) [of k]] k(1) by simp
  qed
  moreover have "\<forall>k \<in> set rest. up_segment_idx (f k) = k \<and> up_lsm_idx (f k) = idx \<and> up_start_sid (f k) = sid_start p k
      \<and> up_end_sid (f k) = sid_end p k"
    using Cons.prems(7) payload_eqD(2,3) [OF other] by simp
  moreover have "i < ?j"
    using Cons.prems(1,3) by (auto simp: pool_inv_def pool_live_def fresh_from_insert_idx_def not_less [symmetric])
  then have "blank_from p" using Cons.prems(8) p(9) by (auto simp: blank_from_def p(6))
  moreover have none: "offsets (flushed_segments p ?j) = None" using Cons.prems(8) room by (simp add: p(8) blank_from_def)
  ultimately obtain pools' ys where run: "run_queue env obs (map (\<lambda>i. \<lparr>mt_data = UpgradeTask (f i), mt_groups = [], mt_origin = None\<rparr>) rest) ?pools = Some pools'"
    "pool_inv (pools' idx) ((D @ [?j]) @ ys)" "pool_view (pools' idx) ((D @ [?j]) @ ys) = pool_view p ((D @ [?j]) @ rest)"
    "\<forall>i \<in> set ys. load_state (flushed_segments (pools' idx) i) = SEG_FULLY_LOADED"
    "\<forall>i \<in> set (D @ [?j]). load_state (flushed_segments (pools' idx) i) = load_state (flushed_segments p i)"
    "\<forall>k. k \<noteq> idx \<longrightarrow> pools' k = ?pools k"
    "\<forall>i \<in> set ys. offsets (flushed_segments (pools' idx) i) = None"
    "\<forall>i \<in> set (D @ [?j]). offsets (flushed_segments (pools' idx) i) = offsets (flushed_segments p i)"
    using Cons.IH [of ?pools "D @ [?j]"] p(2,6) Cons.prems(4-6) by fastforce
  have "maintenance_task env obs \<lparr>mt_data = UpgradeTask (f i), mt_groups = [], mt_origin = None\<rparr> pools [] = Some (None, ?pools, [])"
    by (simp add: maintenance_task_def i(6) p(1))
  then have "run_queue env obs (map (\<lambda>i. \<lparr>mt_data = UpgradeTask (f i), mt_groups = [], mt_origin = None\<rparr>) (i # rest)) pools = Some pools'"
    using run(1) by (simp add: run_queue_def)
  moreover have "pool_view p ((D @ [?j]) @ rest) = pool_view ?pool (D @ i # rest)"
    using payload_view [OF other] p(3) by simp
  moreover have "load_state (flushed_segments (pools' idx) k) = load_state (flushed_segments ?pool k)" if "k \<in> set D" for k
    using run(5) payload_eqD(9) [OF other [of k]] that by simp
  moreover have "load_state (flushed_segments (pools' idx) k) = SEG_FULLY_LOADED" if "k \<in> set (?j # ys)" for k
    using run(4,5) p(4) that by auto
  moreover have "offsets (flushed_segments (pools' idx) k) = offsets (flushed_segments ?pool k)" if "k \<in> set D" for k
    using run(8) payload_offsets [OF other [of k]] that by simp
  moreover have "offsets (flushed_segments (pools' idx) k) = None" if "k \<in> set (?j # ys)" for k
    using run(7,8) none that by auto
  ultimately show ?case using run(2,3,6) by (intro exI [of _ pools'] exI [of _ "?j # ys"]) simp
qed

lemma initialized_pools: "pool_inv (initialize_segment_pool p) []" "twin_pools (initialize_segment_pool p) (initialize_segment_pool p)"
  "fresh_from_insert_idx (initialize_segment_pool p)" "insert_idx (initialize_segment_pool p) = 0"
  "blank_from (initialize_segment_pool p)"
  by (simp_all add: pool_inv_initialize twin_pools_def fresh_from_insert_idx_def blank_from_def) (simp_all add: initialize_segment_pool_def)

section \<open>Properties of the maintenance tasks\<close>

text \<open>C16: (equivalence) A cold start by \<^verbatim>\<open>mmap\<close> of at most 512 segments with complete files, when every load and
  allocation succeeds and nothing else touches the pool. After its first phase the pool lists the same segments
  as loading everything into memory, with the same ranges, versions, row counts, index types, tombstones, delete
  counts, mappings and offset tables. When the upgrade tasks it queued have run, every segment is in memory and
  all of these are as before but the offset tables: the upgraded segments have none, since the upgrade does not
  copy them. (Beyond 512 segments the array has no room for the second copies, whose slots are not reused.)
\<close>

theorem cold_start_equals_full_load:
  assumes "store_full (we_store env) (we_files env)" "2 * length (we_files env) \<le> MAX_SEGMENTS_COUNT"
    and "we_malloc env" "\<forall>a b v ty. we_load_index env a b v ty \<noteq> None"
    and t: "mt_data t = LoadTask l" "ld_lsm_idx l = idx"
  shows "\<exists>first queue second full xs ys.
      maintenance_task (env\<lparr>we_mmap := True\<rparr>) obs t pools [] = Some (None, first, queue)
    \<and> run_queue (env\<lparr>we_mmap := True\<rparr>) obs queue first = Some second
    \<and> maintenance_task (env\<lparr>we_mmap := False\<rparr>) obs t pools [] = Some (None, full, [])
    \<and> pool_inv (first idx) xs \<and> pool_inv (full idx) xs \<and> pool_inv (second idx) ys \<and> length xs = length (we_files env)
    \<and> pool_view (first idx) xs = pool_view (full idx) xs \<and> pool_view (second idx) ys = pool_view (full idx) xs
    \<and> (\<forall>i \<in> set ys. load_state (flushed_segments (second idx) i) = SEG_FULLY_LOADED)
    \<and> (\<forall>i \<in> set xs. offsets (flushed_segments (first idx) i) = offsets (flushed_segments (full idx) i))
    \<and> (\<forall>i \<in> set ys. offsets (flushed_segments (second idx) i) = None)"
proof -
  let ?m = "env\<lparr>we_mmap := True\<rparr>" and ?files = "we_files env" and ?p0 = "initialize_segment_pool (pools idx)"
  obtain p q xs where loads: "load_segments (we_capacity env) (we_store env) True ?files ?p0 = Some p"
      "load_segments (we_capacity env) (we_store env) False ?files ?p0 = Some q"
    and pq: "pool_inv p xs" "pool_inv q xs" "twin_pools p q" "fresh_from_insert_idx p" "insert_idx p = length ?files"
      "length xs = length ?files" "loaded_as SEG_MMAP_LOADED p xs" "blank_from p"
    using load_twins [of ?p0 "[]" ?p0 "we_store env" ?files "we_capacity env"] initialized_pools [of "pools idx"] assms(1,2)
    by (auto simp: loaded_as_def)
  have "dll (flushed_segments p) None xs None" "head_idx p = first_opt xs None"
    using pq(1) by (simp_all add: pool_inv_def pool_links_def)
  then have sub: "submit_upgrades (ld_index_relid l) idx p (head_idx p) []
      = Some (map (\<lambda>i. \<lparr>mt_data = UpgradeTask (upgrade_task (ld_index_relid l) idx p i), mt_groups = [], mt_origin = None\<rparr>) xs)"
    (is "_ = Some ?queue")
    using submit_upgrades_list [of p None xs "[]" "ld_index_relid l" idx] pq(6,7) assms(2)
    by (simp add: loaded_as_def MAINTENANCE_TASK_QUEUE_SIZE_def MAX_SEGMENTS_COUNT_def)
  let ?first = "pools(idx := p)"
  have first: "maintenance_task ?m obs t pools [] = Some (None, ?first, ?queue)"
    using loads(1) sub by (simp add: maintenance_task_def t handle_index_load_def load_all_segments_from_disk_mmap_def)
  have full: "maintenance_task (env\<lparr>we_mmap := False\<rparr>) obs t pools [] = Some (None, pools(idx := q), [])"
    using loads(2) by (simp add: maintenance_task_def t handle_index_load_def load_all_segments_from_disk_def)
  have pre: "pool_inv (?first idx) ([] @ xs)" "loaded_as SEG_MMAP_LOADED (?first idx) xs" "fresh_from_insert_idx (?first idx)"
    "insert_idx (?first idx) + length xs \<le> MAX_SEGMENTS_COUNT" "we_malloc ?m" "\<forall>a b v ty. we_load_index ?m a b v ty \<noteq> None"
    using pq assms(2-4) by simp_all
  have "\<forall>i \<in> set xs. up_segment_idx (upgrade_task (ld_index_relid l) idx p i) = i \<and> up_lsm_idx (upgrade_task (ld_index_relid l) idx p i) = idx
      \<and> up_start_sid (upgrade_task (ld_index_relid l) idx p i) = sid_start (?first idx) i
      \<and> up_end_sid (upgrade_task (ld_index_relid l) idx p i) = sid_end (?first idx) i"
    by (simp add: upgrade_task_def Let_def)
  note tasks = this
  have blank: "blank_from (?first idx)" using pq(8) by simp
  from upgrades_run [where pools = ?first and idx = idx and D = "[]" and rest = xs and env = ?m and f = "upgrade_task (ld_index_relid l) idx p" and obs = obs, OF pre tasks blank] obtain second ys where second: "run_queue ?m obs ?queue ?first = Some second"
    "pool_inv (second idx) ([] @ ys)" "pool_view (second idx) ([] @ ys) = pool_view (?first idx) ([] @ xs)"
    "\<forall>i \<in> set ys. load_state (flushed_segments (second idx) i) = SEG_FULLY_LOADED"
    "\<forall>i \<in> set ys. offsets (flushed_segments (second idx) i) = None"
    by (elim exE conjE) (rule that)
  have "seg_view (flushed_segments p i) = seg_view (flushed_segments q i)" for i
    by (rule twin_fields(1)) (use pq(3) in \<open>simp only: twin_pools_def\<close>)
  then have view: "pool_view (?first idx) xs = pool_view ((pools(idx := q)) idx) xs" by simp
  have "offsets (flushed_segments p i) = offsets (flushed_segments q i)" for i
    by (rule twin_fields(4)) (use pq(3) in \<open>simp only: twin_pools_def\<close>)
  then have tables: "\<forall>i \<in> set xs. offsets (flushed_segments (?first idx) i) = offsets (flushed_segments ((pools(idx := q)) idx) i)"
    by simp
  have inv: "pool_inv (?first idx) xs" "pool_inv ((pools(idx := q)) idx) xs" using pq(1,2) by simp_all
  have last: "pool_view (second idx) ys = pool_view ((pools(idx := q)) idx) xs"
    using second(3) unfolding append_Nil view .
  show ?thesis
    by (intro exI conjI) (rule first second(1) full inv second(2) [unfolded append_Nil] pq(6) view last second(4) tables second(5))+
qed

definition cold_env :: worker_env where
  "cold_env = \<lparr>we_store = ex_store, we_files = [\<lparr>fi_start_sid = 3, fi_end_sid = 4, fi_version = 1\<rparr>, \<lparr>fi_start_sid = 5, fi_end_sid = 5, fi_version = 2\<rparr>],
     we_dir = [], we_capacity = 50000, we_mmap = True, we_load_index = (\<lambda>_ _ _ _. Some 8), we_malloc = True, we_got_lock = False\<rparr>"

definition load_task :: MaintenanceTask where
  "load_task = \<lparr>mt_data = LoadTask \<lparr>ld_pgprocno = 1, ld_index_relid = 16, ld_lsm_idx = 0\<rparr>, mt_groups = [], mt_origin = Some 3\<rparr>"

theorem cold_start_equals_full_load_witness:
  "\<exists>first queue second ys. maintenance_task (cold_env\<lparr>we_mmap := True\<rparr>) (\<lambda>_. LSM_SLOT_QUERYABLE) load_task (\<lambda>_. ex_pool) [] = Some (None, first, queue)
     \<and> run_queue (cold_env\<lparr>we_mmap := True\<rparr>) (\<lambda>_. LSM_SLOT_QUERYABLE) queue first = Some second
     \<and> pool_inv (second 0) ys \<and> length ys = 2"
proof -
  have "store_full (we_store cold_env) (we_files cold_env)"
    by (auto simp: store_full_def store_has_def cold_env_def ex_store_def GET_BITMAP_SIZE_def)
  note run = cold_start_equals_full_load [OF this, of load_task _ 0 "\<lambda>_. LSM_SLOT_QUERYABLE" "\<lambda>_. ex_pool"]
  have "2 * length (we_files cold_env) \<le> MAX_SEGMENTS_COUNT" "we_malloc cold_env" "\<forall>a b v ty. we_load_index cold_env a b v ty \<noteq> None"
    "length (we_files cold_env) = 2" "mt_data load_task = LoadTask \<lparr>ld_pgprocno = 1, ld_index_relid = 16, ld_lsm_idx = 0\<rparr>"
    by (simp_all add: cold_env_def load_task_def MAX_SEGMENTS_COUNT_def)
  note facts = this
  have task_idx: "ld_lsm_idx \<lparr>ld_pgprocno = 1, ld_index_relid = 16, ld_lsm_idx = 0\<rparr> = 0" by simp
  from run [OF facts(1,2,3,5) task_idx] show ?thesis
  proof (elim exE conjE)
    fix first queue second full xs ys
    assume got: "maintenance_task (cold_env\<lparr>we_mmap := True\<rparr>) (\<lambda>_. LSM_SLOT_QUERYABLE) load_task (\<lambda>_. ex_pool) [] = Some (None, first, queue)"
      "run_queue (cold_env\<lparr>we_mmap := True\<rparr>) (\<lambda>_. LSM_SLOT_QUERYABLE) queue first = Some second" "pool_inv (second 0) ys"
      "length xs = length (we_files cold_env)" "pool_view (second 0) ys = pool_view (full 0) xs"
      "\<forall>i \<in> set ys. offsets (flushed_segments (second 0) i) = None"
    have "length ys = 2" using map_eq_imp_length_eq [OF got(5)] got(4) facts(4) by simp
    then show ?thesis using got(1-3) by blast
  qed
qed


section \<open>Well-formed pools\<close>

text \<open>
  The list of the pool is consistent and a segment loaded by \<^verbatim>\<open>mmap\<close> has its buffers; what a task must bring so
  that its handler keeps that.
\<close>

definition pool_wf :: "FlushedSegmentPool \<Rightarrow> bool" where
  "pool_wf pool \<longleftrightarrow> (\<exists>xs. pool_inv pool xs \<and> (\<forall>i \<in> set xs. load_state (flushed_segments pool i) = SEG_MMAP_LOADED \<longrightarrow>
     bitmap_ptr (flushed_segments pool i) \<noteq> None \<and> map_ptr (flushed_segments pool i) \<noteq> None))"

definition update_ready :: "worker_env \<Rightarrow> SegmentUpdateTaskData \<Rightarrow> FlushedSegmentPool \<Rightarrow> bool" where
  "update_ready env u pool \<longleftrightarrow>
     (su_operation_type u = SEGMENT_UPDATE_REGULAR \<longrightarrow>
        find_segment_by_sids pool (su_start_sid u) (su_end_sid u) = Some None \<longrightarrow> fst (reserve_flushed_segment pool) \<noteq> None \<and>
          read_files (we_store env) (su_start_sid u) (su_end_sid u)
            (segment_store.find_latest_segment_version (we_store env) (su_start_sid u) (su_end_sid u)) \<noteq> None)
   \<and> (su_operation_type u = SEGMENT_UPDATE_ADOPT \<longrightarrow>
        (\<forall>xs. pool_inv pool xs \<longrightarrow> pool_disjoint pool xs) \<and> su_start_sid u \<le> su_end_sid u \<and> su_end_sid u < UINT32_MAX
        \<and> su_expected_version u \<noteq> UINT32_MAX
        \<and> (\<exists>f. read_files (we_store env) (su_start_sid u) (su_end_sid u) (su_expected_version u) = Some f
             \<and> md_start_sid f = su_start_sid u \<and> md_end_sid f = su_end_sid u))"

definition upgrade_current :: "InternalUpgradeTaskData \<Rightarrow> FlushedSegmentPool \<Rightarrow> bool" where
  "upgrade_current upg pool \<longleftrightarrow>
     (let s = flushed_segments pool (up_segment_idx upg) in
      in_used s \<and> load_state s = SEG_MMAP_LOADED \<and> segment_id_start s = up_start_sid upg \<and> segment_id_end s = up_end_sid upg \<longrightarrow>
        (\<forall>xs. pool_inv pool xs \<longrightarrow> up_segment_idx upg \<in> set xs))"

lemma pool_wfI:
  "pool_inv pool xs \<Longrightarrow> (\<And>i. i \<in> set xs \<Longrightarrow> load_state (flushed_segments pool i) = SEG_MMAP_LOADED \<Longrightarrow>
     bitmap_ptr (flushed_segments pool i) \<noteq> None \<and> map_ptr (flushed_segments pool i) \<noteq> None) \<Longrightarrow> pool_wf pool"
  by (auto simp: pool_wf_def)

lemma register_wf:
  assumes inv: "pool_inv pool xs" and others: "\<And>j. j \<in> set xs \<Longrightarrow> load_state (flushed_segments pool j) = SEG_MMAP_LOADED \<Longrightarrow>
      bitmap_ptr (flushed_segments pool j) \<noteq> None \<and> map_ptr (flushed_segments pool j) \<noteq> None"
    and res: "reserve_flushed_segment pool = (Some i, p0)"
    and new: "load_state (f (flushed_segments p0 i)) \<noteq> SEG_MMAP_LOADED" "in_used (f (flushed_segments p0 i))"
  shows "\<exists>p. register_flushed_segment cap i (upd_seg i f p0) = Some p \<and> pool_wf p"
proof -
  note r = reserve_inv [OF inv res]
  have inv': "pool_inv (upd_seg i f p0) xs" by (rule pool_inv_upd_outside [OF r(1,3)])
  have slot: "loaded_slot (upd_seg i f p0) xs i" using r(2) new(2) by (simp add: loaded_slot_def)
  obtain p where p: "register_flushed_segment cap i (upd_seg i f p0) = Some p"
    "pool_inv p (insert_by_start (upd_seg i f p0) (sid_start (upd_seg i f p0) i) i xs)"
    "\<And>j. payload (flushed_segments p j) = payload (flushed_segments (upd_seg i f p0) j)"
    using register_flushed_segment_inv [OF inv' slot, of cap] by blast
  note pj = payload_eqD(5,8,9) [OF p(3)]
  have "pool_wf p"
    by (rule pool_wfI [OF p(2)]) (use others new(1) reserve_SomeD(4) [OF res] in \<open>auto simp: pj split: if_splits\<close>)
  with p(1) show ?thesis by blast
qed

lemma upd_listed_inv:
  assumes "pool_inv pool xs" "\<And>s. prev_idx (f s) = prev_idx s \<and> next_idx (f s) = next_idx s \<and> in_used (f s) = in_used s
      \<and> segment_id_start (f s) = segment_id_start s" "\<And>s. ref_count s \<ge> 1 \<Longrightarrow> ref_count (f s) \<ge> 1"
  shows "pool_inv (upd_seg i f pool) xs"
proof (rule pool_inv_cong [OF assms(1)])
  fix j assume "j \<in> set xs"
  then show "prev_idx (flushed_segments (upd_seg i f pool) j) = prev_idx (flushed_segments pool j)
      \<and> next_idx (flushed_segments (upd_seg i f pool) j) = next_idx (flushed_segments pool j)
      \<and> in_used (flushed_segments (upd_seg i f pool) j)
      \<and> sid_start (upd_seg i f pool) j = sid_start pool j \<and> ref_count (flushed_segments (upd_seg i f pool) j) \<ge> 1"
    using assms by (auto simp: pool_inv_def pool_live_def)
qed simp_all


lemma build_wf: "\<exists>p. handle_index_build env pool = Some p \<and> pool_wf p"
proof -
  let ?p0 = "initialize_segment_pool pool"
  let ?f = "load_and_set_segment (we_store env) START_SEGMENT_ID START_SEGMENT_ID UINT32_MAX False"
  note init = initialized_pools [of pool]
  have room: "insert_idx ?p0 < MAX_SEGMENTS_COUNT" by (simp add: init(4) MAX_SEGMENTS_COUNT_def)
  obtain p1 where res: "reserve_flushed_segment ?p0 = (Some 0, p1)" "p1 = upd_seg 0 (\<lambda>s. s\<lparr>in_used := True\<rparr>) (?p0\<lparr>insert_idx := 1\<rparr>)"
    using reserve_fresh [OF init(3) room] init(4) by simp
  have "load_state (flushed_segments p1 0) = SEG_NOT_LOADED" by (simp add: res(2) initialize_segment_pool_def MAX_SEGMENTS_COUNT_def)
  then have "load_state (?f (flushed_segments p1 0)) \<noteq> SEG_MMAP_LOADED"
    by (simp add: load_and_set_segment_def Let_def split: option.split)
  moreover have "in_used (?f (flushed_segments p1 0))" by (simp add: res(2))
  ultimately show ?thesis
    using register_wf [OF init(1) _ res(1), of ?f "we_capacity env"] by (simp add: handle_index_build_def res(1))
qed

lemma regular_wf:
  assumes "pool_wf pool"
    and "find_segment_by_sids pool a b = Some None \<longrightarrow> fst (reserve_flushed_segment pool) \<noteq> None \<and>
      read_files (we_store env) a b (segment_store.find_latest_segment_version (we_store env) a b) \<noteq> None"
  shows "\<exists>r p. segment_update_regular id id env a b pool = Some (r, p) \<and> pool_wf p"
proof -
  obtain xs where xs: "pool_inv pool xs" "\<And>i. i \<in> set xs \<Longrightarrow> load_state (flushed_segments pool i) = SEG_MMAP_LOADED \<Longrightarrow>
      bitmap_ptr (flushed_segments pool i) \<noteq> None \<and> map_ptr (flushed_segments pool i) \<noteq> None"
    using assms(1) unfolding pool_wf_def by blast
  obtain found where found: "find_segment_by_sids pool a b = Some found"
    using xs(1) find_segment_by_sids_pool [of pool xs a b] by (auto simp: pool_inv_def)
  show ?thesis
  proof (cases found)
    case (Some k)
    then show ?thesis using assms(1) found by (simp add: segment_update_regular_def)
  next
    case None
    then have ready: "fst (reserve_flushed_segment pool) \<noteq> None"
      "read_files (we_store env) a b (segment_store.find_latest_segment_version (we_store env) a b) \<noteq> None"
      using assms(2) found by simp_all
    obtain i p0 where res: "reserve_flushed_segment pool = (Some i, p0)"
      using ready(1) by (cases "reserve_flushed_segment pool") auto
    let ?f = "load_and_set_segment (we_store env) a b UINT32_MAX False"
    have "load_state (?f s) \<noteq> SEG_MMAP_LOADED" for s
      using ready(2) by (auto simp: load_and_set_segment_def Let_def split: option.split)
    moreover have "in_used (?f (flushed_segments p0 i))" using reserve_SomeD(4) [OF res] by simp
    ultimately obtain p where p: "register_flushed_segment (we_capacity env) i (upd_seg i ?f p0) = Some p" "pool_wf p"
      using register_wf [OF xs res, of ?f "we_capacity env"] by blast
    then show ?thesis using res found None by (simp add: segment_update_regular_def)
  qed
qed

lemma adopt_wf:
  assumes "pool_wf pool" "\<forall>xs. pool_inv pool xs \<longrightarrow> pool_disjoint pool xs" "a \<le> b" "b < UINT32_MAX"
    and "read_files st a b ver = Some f" "md_start_sid f = a" "md_end_sid f = b" "ver \<noteq> UINT32_MAX"
  shows "\<exists>outcome p. dpv_pool_adopt (\<lambda>n p. p) True st cap a b ver cover groups pool = Some (outcome, p) \<and> pool_wf p"
proof -
  obtain xs where xs: "pool_inv pool xs" "\<And>i. i \<in> set xs \<Longrightarrow> load_state (flushed_segments pool i) = SEG_MMAP_LOADED \<Longrightarrow>
      bitmap_ptr (flushed_segments pool i) \<noteq> None \<and> map_ptr (flushed_segments pool i) \<noteq> None"
    using assms(1) unfolding pool_wf_def by blast
  have dis: "pool_disjoint pool xs" using assms(2) xs(1) by blast
  show ?thesis
  proof (rule dpv_pool_adopt_cases [OF xs(1) dis assms(3-8), of cap cover groups])
    fix p assume p: "dpv_pool_adopt (\<lambda>n p. p) True st cap a b ver cover groups pool = Some (DPV_ADOPT_STALE_DISCARD, p)"
      "pool_inv p xs" "\<forall>i \<in> set xs. flushed_segments p i = flushed_segments pool i"
    have "pool_wf p" by (rule pool_wfI [OF p(2)]) (use xs(2) p(3) in auto)
    with p(1) show ?thesis by blast
  next
    fix p idx c A Os B s0
    assume p: "dpv_pool_adopt (\<lambda>n p. p) True st cap a b ver cover groups pool = Some (DPV_ADOPT_ADOPTED, p)"
      "pool_inv p (A @ idx # B)" and d: "displaces pool xs a b cover A Os B"
      and new: "payload (flushed_segments p idx)
        = payload (mark_rows (case_rows groups pool (load_fetched st a b ver s0) Os c) (load_fetched st a b ver s0))"
      and others: "\<forall>k \<in> set A \<union> set B. payload (flushed_segments p k) = payload (flushed_segments pool k)"
    have "load_state (mark_rows ms s) = load_state s" for ms s by (simp add: mark_rows_def split: option.split)
    then have "load_state (flushed_segments p idx) = SEG_FULLY_LOADED"
      using payload_eqD(9) [OF new] assms(5,8) by (simp add: load_fetched_def load_and_set_segment_def Let_def)
    moreover have "bitmap_ptr (flushed_segments p i) \<noteq> None \<and> map_ptr (flushed_segments p i) \<noteq> None"
      if "i \<in> set A \<union> set B" "load_state (flushed_segments p i) = SEG_MMAP_LOADED" for i
    proof -
      have "payload (flushed_segments p i) = payload (flushed_segments pool i)" "i \<in> set xs"
        using others d that(1) by (auto simp: displaces_def)
      then show ?thesis using xs(2) [of i] that(2) payload_eqD(5,8,9) by metis
    qed
    ultimately have "pool_wf p" by (intro pool_wfI [OF p(2)]) auto
    with p(1) show ?thesis by blast
  qed
qed

lemma vacuum_wf:
  assumes "pool_wf pool"
  shows "\<exists>r p. segment_update_vacuum got a b v d pool = Some (r, p) \<and> pool_wf p"
proof -
  obtain xs where xs: "pool_inv pool xs" "\<And>i. i \<in> set xs \<Longrightarrow> load_state (flushed_segments pool i) = SEG_MMAP_LOADED \<Longrightarrow>
      bitmap_ptr (flushed_segments pool i) \<noteq> None \<and> map_ptr (flushed_segments pool i) \<noteq> None"
    using assms unfolding pool_wf_def by blast
  note find = find_segment_by_sids_pool
  show ?thesis
  proof (cases "find (\<lambda>i. in_used (flushed_segments pool i) \<and> sid_start pool i = a \<and> sid_end pool i = b) xs")
    case None
    then show ?thesis using xs(1) find [of pool xs a b] assms by (simp add: segment_update_vacuum_def pool_inv_def)
  next
    case (Some i)
    then have i: "i \<in> set xs" by (auto simp: find_Some_iff)
    let ?q = "upd_seg i (\<lambda>s. s\<lparr>ref_count := ref_count s + 1\<rparr>) pool"
    let ?r = "upd_seg i (refresh_bitmap (load_bitmap_file d a b UINT32_MAX)) ?q"
    have f: "find_segment_by_sids pool a b = Some (Some i)" using xs(1) find [of pool xs a b] Some by (simp add: pool_inv_def)
    have q: "pool_inv ?q xs" by (rule upd_listed_inv [OF xs(1)]) simp_all
    then have r: "pool_inv ?r xs" by (rule upd_listed_inv) (simp_all add: refresh_bitmap_def)
    have "ref_count (flushed_segments pool i) \<ge> 1" using xs(1) i by (auto simp: pool_inv_def pool_live_def)
    then have dec: "flushed_segments (decrement_flushed_segment_ref_count got i ?q) = flushed_segments pool"
      "flushed_segments (decrement_flushed_segment_ref_count got i ?r)
         = (flushed_segments pool)(i := refresh_bitmap (load_bitmap_file d a b UINT32_MAX) (flushed_segments pool i))"
      by (auto simp: decrement_sel dec_seg_def refresh_bitmap_def split: option.split)
    have "pool_wf (decrement_flushed_segment_ref_count got i ?q)"
      by (rule pool_wfI, rule pool_inv_cong [OF xs(1)]) (use xs in \<open>auto simp: decrement_sel(2,3) dec pool_inv_def pool_live_def\<close>)
    moreover have "pool_wf (decrement_flushed_segment_ref_count got i ?r)"
      by (rule pool_wfI, rule pool_inv_cong [OF xs(1)])
        (use xs in \<open>auto simp: decrement_sel(2,3) dec refresh_bitmap_def pool_inv_def pool_live_def split: if_splits\<close>)
    moreover obtain live where "find_segment_by_sids ?q a b = Some live" using q find [of ?q xs a b] by (auto simp: pool_inv_def)
    ultimately show ?thesis by (auto simp: segment_update_vacuum_def f Let_def)
  qed
qed


lemma submit_upgrades_total: "dll (flushed_segments pool) pr xs None \<Longrightarrow> \<exists>q. submit_upgrades relid idx pool (first_opt xs None) queue = Some q"
proof (induction xs arbitrary: pr queue)
  case Nil
  then show ?case by (simp add: submit_upgrades.simps)
next
  case (Cons i xs)
  then show ?case using Cons.IH [of "Some i"] by (simp add: submit_upgrades.simps [of relid idx pool "Some i"])
qed

lemma load_wf:
  assumes "store_full (we_store env) (we_files env)" "length (we_files env) \<le> MAX_SEGMENTS_COUNT"
  shows "\<exists>p q. handle_index_load env relid idx pool queue = Some (p, q) \<and> pool_wf p"
proof -
  obtain p q xs where pq: "load_segments (we_capacity env) (we_store env) True (we_files env) (initialize_segment_pool pool) = Some p"
      "load_segments (we_capacity env) (we_store env) False (we_files env) (initialize_segment_pool pool) = Some q"
      "pool_inv p xs" "pool_inv q xs" "loaded_as SEG_MMAP_LOADED p xs" "loaded_as SEG_FULLY_LOADED q xs"
    using load_twins [of "initialize_segment_pool pool" "[]" "initialize_segment_pool pool" "we_store env" "we_files env" "we_capacity env"]
      initialized_pools [of pool] assms by (auto simp: loaded_as_def)
  have "pool_wf p"
  proof (rule pool_wfI [OF pq(3)])
    fix i assume "i \<in> set xs"
    then have "buffers_full (flushed_segments p i)" using pq(5) by (simp add: loaded_as_def)
    then show "bitmap_ptr (flushed_segments p i) \<noteq> None \<and> map_ptr (flushed_segments p i) \<noteq> None" by (auto simp: buffers_full_def)
  qed
  moreover have "pool_wf q"
    by (rule pool_wfI [OF pq(4)]) (use pq(6) in \<open>auto simp: loaded_as_def\<close>)
  moreover obtain qs where "submit_upgrades relid idx p (head_idx p) queue = Some qs"
    using submit_upgrades_total [of p None xs relid idx queue] pq(3) unfolding pool_inv_def pool_links_def by metis
  ultimately show ?thesis
    using pq(1,2) by (simp add: handle_index_load_def load_all_segments_from_disk_def load_all_segments_from_disk_mmap_def)
qed

lemma upgrade_wf:
  assumes "pool_wf pool" "upgrade_current upg pool"
  shows "\<exists>p. internal_segment_upgrade env upg pool = Some p \<and> pool_wf p"
proof -
  obtain xs where xs: "pool_inv pool xs" "\<And>i. i \<in> set xs \<Longrightarrow> load_state (flushed_segments pool i) = SEG_MMAP_LOADED \<Longrightarrow>
      bitmap_ptr (flushed_segments pool i) \<noteq> None \<and> map_ptr (flushed_segments pool i) \<noteq> None"
    using assms(1) unfolding pool_wf_def by blast
  let ?i = "up_segment_idx upg"
  let ?s = "flushed_segments pool ?i"
  consider (skip) "internal_segment_upgrade env upg pool = Some pool"
    | (full) p where "internal_segment_upgrade env upg pool = Some p" "reserve_flushed_segment pool = (None, p)"
    | (go) h j p where "we_load_index env (up_start_sid upg) (up_end_sid upg) (up_version upg) (up_index_type upg) = Some h"
        "in_used ?s" "segment_id_start ?s = up_start_sid upg" "segment_id_end ?s = up_end_sid upg" "load_state ?s = SEG_MMAP_LOADED"
        "reserve_flushed_segment pool = (Some j, p)"
  proof (cases "we_load_index env (up_start_sid upg) (up_end_sid upg) (up_version upg) (up_index_type upg)")
    case None
    then show ?thesis using skip by (simp add: internal_segment_upgrade_def)
  next
    case (Some h)
    show ?thesis
    proof (cases "in_used ?s \<and> segment_id_start ?s = up_start_sid upg \<and> segment_id_end ?s = up_end_sid upg \<and> load_state ?s = SEG_MMAP_LOADED")
      case False
      then show ?thesis by (intro skip) (simp only: internal_segment_upgrade_def Some option.case Let_def if_False)
    next
      case True
      obtain r p where res: "reserve_flushed_segment pool = (r, p)" by (cases "reserve_flushed_segment pool")
      then show ?thesis using True Some full [of p] go [of h _ p] by (cases r) (simp_all add: internal_segment_upgrade_def Let_def)
    qed
  qed
  then show ?thesis
  proof cases
    case skip
    then show ?thesis using assms(1) by blast
  next
    case full
    then have "p = pool" by (auto simp: reserve_flushed_segment_def split: option.splits)
    then show ?thesis using full assms(1) by simp
  next
    case go
    have i: "?i \<in> set xs" using assms(2) go xs(1) by (simp add: upgrade_current_def Let_def)
    then obtain A B where split: "xs = A @ ?i # B" by (meson split_list)
    show ?thesis
    proof (cases "we_malloc env")
      case False
      note res = reserve_inv [OF xs(1) go(6)]
      have "internal_segment_upgrade env upg pool = Some (upd_seg j (\<lambda>ns. ns\<lparr>in_used := False\<rparr>) p)"
        using go False by (simp add: internal_segment_upgrade_def Let_def)
      moreover have "pool_wf (upd_seg j (\<lambda>ns. ns\<lparr>in_used := False\<rparr>) p)"
        by (rule pool_wfI, rule pool_inv_upd_outside [OF res(1,3)])
          (use xs(2) res(3) reserve_SomeD(4) [OF go(6)] in \<open>auto split: if_splits\<close>)
      ultimately show ?thesis by blast
    next
      case True
      have has: "bitmap_ptr ?s \<noteq> None \<and> map_ptr ?s \<noteq> None" using xs(2) [OF i go(5)] .
      obtain p' where p': "internal_segment_upgrade env upg pool = Some p'" "pool_inv p' (A @ j # B)"
        "load_state (flushed_segments p' j) = SEG_FULLY_LOADED"
        "\<And>k. k \<noteq> ?i \<Longrightarrow> k \<noteq> j \<Longrightarrow> payload (flushed_segments p' k) = payload (flushed_segments pool k)"
        using upgrade_step [OF xs(1) [unfolded split] has go(5) refl go(3,4) [symmetric] go(1) True go(6)] by metis
      have "bitmap_ptr (flushed_segments p' k) \<noteq> None \<and> map_ptr (flushed_segments p' k) \<noteq> None"
        if "k \<in> set (A @ j # B)" "load_state (flushed_segments p' k) = SEG_MMAP_LOADED" for k
      proof -
        have "k \<noteq> j" using that(2) p'(3) by auto
        moreover have "k \<noteq> ?i"
          using that(1) \<open>k \<noteq> j\<close> xs(1) unfolding split by (auto simp: pool_inv_def pool_links_def)
        ultimately have same: "payload (flushed_segments p' k) = payload (flushed_segments pool k)" by (rule p'(4) [rotated])
        have "k \<in> set xs" using that(1) \<open>k \<noteq> j\<close> split by auto
        then show ?thesis using xs(2) [of k] that(2) payload_eqD(5,8,9) [OF same] by simp
      qed
      then have "pool_wf p'" by (rule pool_wfI [OF p'(2)])
      with p'(1) show ?thesis by blast
    qed
  qed
qed

text \<open>C38: (type) The handler of every kind of maintenance task, run without interruption, returns and leaves every segment
  pool well formed (a consistent, ordered list whose \<^verbatim>\<open>mmap\<close>-loaded segments have their buffers), when it finds
  what it relies on: for a build nothing; for a load complete files, at most 1024; for a regular update that is
  not in the pool yet a free slot and the files; for a tombstone update nothing; for an adoption a pool of disjoint
  ranges and files that carry the task's range; for an upgrade that its segment is still in the list or no longer
  matches the task (\<open>late_upgrade_unlinks_adopted\<close> shows what happens otherwise).\<close>

theorem maintenance_keeps_pools_wf:
  assumes "\<forall>k. pool_wf (pools k)"
    and "case mt_data t of
        BuildTask b \<Rightarrow> True
      | LoadTask l \<Rightarrow> store_full (we_store env) (we_files env) \<and> length (we_files env) \<le> MAX_SEGMENTS_COUNT
      | UpdateTask u \<Rightarrow> update_ready env u (pools (su_lsm_idx u))
      | UpgradeTask upg \<Rightarrow> upgrade_current upg (pools (up_lsm_idx upg))"
  shows "\<exists>r pools' queue'. maintenance_task env obs t pools queue = Some (r, pools', queue') \<and> (\<forall>k. pool_wf (pools' k))"
proof (cases "mt_data t")
  case (BuildTask b)
  obtain p where "handle_index_build env (pools (ib_lsm_idx b)) = Some p" "pool_wf p" using build_wf by blast
  then show ?thesis using assms(1) by (simp add: maintenance_task_def BuildTask)
next
  case (LoadTask l)
  obtain p q where "handle_index_load env (ld_index_relid l) (ld_lsm_idx l) (pools (ld_lsm_idx l)) queue = Some (p, q)" "pool_wf p"
    using load_wf assms(2) LoadTask by (metis task_data.simps(18))
  then show ?thesis using assms(1) by (simp add: maintenance_task_def LoadTask)
next
  case (UpdateTask u)
  let ?pool = "pools (su_lsm_idx u)"
  have ready: "update_ready env u ?pool" and wf: "pool_wf ?pool" using assms UpdateTask by simp_all
  have "\<exists>r p. handle_segment_update env obs u (mt_groups t) ?pool = Some (r, p) \<and> pool_wf p"
  proof (cases "su_operation_type u = SEGMENT_UPDATE_REGULAR")
    case True
    then show ?thesis
      using regular_wf [where env = env and a = "su_start_sid u" and b = "su_end_sid u", OF wf] ready wf
      by (auto simp: handle_segment_update_def update_ready_def)
  next
    case not_regular: False
    show ?thesis
    proof (cases "su_operation_type u = SEGMENT_UPDATE_ADOPT")
      case True
      then obtain f where f: "read_files (we_store env) (su_start_sid u) (su_end_sid u) (su_expected_version u) = Some f"
        "md_start_sid f = su_start_sid u" "md_end_sid f = su_end_sid u" and ad: "\<forall>xs. pool_inv ?pool xs \<longrightarrow> pool_disjoint ?pool xs"
        "su_start_sid u \<le> su_end_sid u" "su_end_sid u < UINT32_MAX" "su_expected_version u \<noteq> UINT32_MAX"
        using ready unfolding update_ready_def by blast
      obtain outcome p where "dpv_pool_adopt (\<lambda>n p. p) True (we_store env) (we_capacity env) (su_start_sid u) (su_end_sid u)
          (su_expected_version u) (take (unat (su_memtable_cover_count u)) (su_memtable_cover u)) (mt_groups t) ?pool
          = Some (outcome, p)" "pool_wf p"
        using adopt_wf [OF wf ad(1-3) f ad(4)] by blast
      then show ?thesis using wf not_regular True by (auto simp: handle_segment_update_def SEGMENT_UPDATE_REGULAR_def SEGMENT_UPDATE_VACUUM_def SEGMENT_UPDATE_ADOPT_def)
    next
      case False
      then show ?thesis
        using vacuum_wf [OF wf, of "we_got_lock env" "su_start_sid u" "su_end_sid u" "su_expected_version u" "we_dir env"] not_regular wf
        by (auto simp: handle_segment_update_def)
    qed
  qed
  then show ?thesis using assms(1) by (auto simp: maintenance_task_def UpdateTask)
next
  case (UpgradeTask upg)
  obtain p where "internal_segment_upgrade env upg (pools (up_lsm_idx upg)) = Some p" "pool_wf p"
    using upgrade_wf assms UpgradeTask by (metis task_data.simps(20))
  then show ?thesis using assms(1) by (simp add: maintenance_task_def UpgradeTask)
qed


definition mmap_pool :: FlushedSegmentPool where
  "mmap_pool = ex_pool\<lparr>flushed_segments := (flushed_segments ex_pool)
     (1 := (ex_seg 5 5 (Some 0) None 2)\<lparr>load_state := SEG_MMAP_LOADED\<rparr>)\<rparr>"

lemma mmap_pool_ok: "pool_inv mmap_pool [0, 1]" "pool_wf mmap_pool"
proof -
  show inv: "pool_inv mmap_pool [0, 1]"
    by (simp add: pool_inv_def pool_links_def pool_live_def pool_sorted_def mmap_pool_def ex_pool_def ex_seg_def MAX_SEGMENTS_COUNT_def)
  show "pool_wf mmap_pool"
    by (rule pool_wfI [OF inv]) (auto simp: mmap_pool_def ex_pool_def ex_seg_def)
qed

definition build_of_1 :: MaintenanceTask where
  "build_of_1 = \<lparr>mt_data = BuildTask \<lparr>ib_pgprocno = 1, ib_index_relid = 16, ib_lsm_idx = 2\<rparr>, mt_groups = [], mt_origin = Some 3\<rparr>"

theorem maintenance_keeps_pools_wf_witness:
  "\<exists>r pools' queue'. maintenance_task cold_env (\<lambda>_. LSM_SLOT_QUERYABLE) build_of_1 (\<lambda>_. mmap_pool) [] = Some (r, pools', queue') \<and> (\<forall>k. pool_wf (pools' k))"
  by (rule maintenance_keeps_pools_wf) (simp_all add: mmap_pool_ok build_of_1_def)

text \<open>
  The condition on upgrades is needed. A segment that was loaded by \<^verbatim>\<open>mmap\<close> is replaced, by an adoption, while a
  search holds a reference: its slot stays in use with the same ids, so that a late upgrade still finds it
  and links its copy in. The adopted segment is then in no list that a search walks.
\<close>

definition after_adoption :: FlushedSegmentPool where
  "after_adoption = replace_flushed_segments_n 50000 [1] 2 (upd_seg 2 (\<lambda>s. s\<lparr>segment_id_start := 5, segment_id_end := 5, version := 2\<rparr>) mmap_pool)"

lemma late_upgrade_unlinks_adopted:
  assumes "internal_segment_upgrade cold_env (upgrade_task 16 0 mmap_pool 1) after_adoption = Some p"
  shows "pool_inv after_adoption [0, 2]" "find_segment_by_sids after_adoption 5 5 = Some (Some 2)"
    and "next_idx (flushed_segments p 0) = Some 4" "next_idx (flushed_segments p 4) = None"
    "find_segment_by_sids p 5 5 = Some (Some 4)" "version (flushed_segments p 4) = 1" "version (flushed_segments p 2) = 2"
proof -
  let ?q = "upd_seg 2 (\<lambda>s. s\<lparr>segment_id_start := 5, segment_id_end := 5, version := 2\<rparr>) mmap_pool"
  have "pool_inv ?q [0, 1]" by (rule pool_inv_upd_outside [OF mmap_pool_ok(1)]) simp
  moreover have "loaded_slot ?q [0, 1] 2" by (simp add: loaded_slot_def mmap_pool_def ex_pool_def ex_seg_def MAX_SEGMENTS_COUNT_def)
  ultimately show inv: "pool_inv after_adoption [0, 2]"
    unfolding after_adoption_def
    using replace_flushed_segments_inv [of ?q "[0]" "[1]" "[]" 2 50000]
    by (simp add: mmap_pool_def ex_seg_def)
  note ev = after_adoption_def mmap_pool_def ex_pool_def ex_seg_def replace_flushed_segments_n_def relink_span_def
    decrement_flushed_segment_ref_count_def Let_def
  have slots: "flushed_segments after_adoption 1 = (ex_seg 5 5 (Some 0) None 1)\<lparr>load_state := SEG_MMAP_LOADED\<rparr>"
    "insert_idx after_adoption = 4" "\<not> in_used (flushed_segments after_adoption 4)"
    by (simp_all add: ev)
  show "find_segment_by_sids after_adoption 5 5 = Some (Some 2)"
    using find_segment_by_sids_pool [of after_adoption "[0, 2]" 5 5] inv by (simp add: pool_inv_def) (simp add: ev)
  have res: "reserve_flushed_segment after_adoption = (Some 4, upd_seg 4 (\<lambda>s. s\<lparr>in_used := True\<rparr>) (after_adoption\<lparr>insert_idx := 5\<rparr>))"
    using slots by (simp add: reserve_flushed_segment_def first_from.simps MAX_SEGMENTS_COUNT_def)
  have task: "upgrade_task 16 0 mmap_pool 1 = \<lparr>up_index_relid = 16, up_lsm_idx = 0, up_segment_idx = 1, up_start_sid = 5,
      up_end_sid = 5, up_version = UINT32_MAX, up_index_type = index_type (flushed_segments mmap_pool 1)\<rparr>"
    by (simp add: upgrade_task_def mmap_pool_def ex_seg_def)
  have env: "we_load_index cold_env a b c d = Some 8" "we_malloc cold_env" "we_capacity cold_env = 50000" for a b c d
    by (simp_all add: cold_env_def)
  have old: "in_used (flushed_segments after_adoption 1)" "segment_id_start (flushed_segments after_adoption 1) = 5"
    "segment_id_end (flushed_segments after_adoption 1) = 5" "load_state (flushed_segments after_adoption 1) = SEG_MMAP_LOADED"
    "bitmap_ptr (flushed_segments after_adoption 1) = Some [0]" "map_ptr (flushed_segments after_adoption 1) = Some [7, 9]"
    unfolding slots(1) by (simp_all add: ex_seg_def)
  have p: "p = replace_flushed_segments_n 50000 [1] 4
      (upd_seg 4 (upgraded_segment 8 (flushed_segments after_adoption 1) [0] [7, 9]) (upd_seg 4 (\<lambda>s. s\<lparr>in_used := True\<rparr>) (after_adoption\<lparr>insert_idx := 5\<rparr>)))"
    using assms unfolding internal_segment_upgrade_def task InternalUpgradeTaskData.simps env Let_def old res
      prod.case option.case simp_thms by (simp only: old env if_True option.inject)
  have links: "head_idx after_adoption = Some 0" "tail_idx after_adoption = Some 2" "next_idx (flushed_segments after_adoption 1) = None"
    "prev_idx (flushed_segments after_adoption 1) = Some 0" "version (flushed_segments after_adoption 1) = 1"
    "version (flushed_segments after_adoption 2) = 2" "segment_id_start (flushed_segments after_adoption 0) = 3"
    "segment_id_end (flushed_segments after_adoption 0) = 3" "ref_count (flushed_segments after_adoption 1) = 1"
    by (simp_all add: ev)
  note eval = p replace_flushed_segments_n_def relink_span_def decrement_flushed_segment_ref_count_def cleanup_flushed_segment_def Let_def
    upgraded_segment_def old links
    old [unfolded One_nat_def] links [unfolded One_nat_def]
  show next0: "next_idx (flushed_segments p 0) = Some 4" by (simp add: eval)
  show "next_idx (flushed_segments p 4) = None" by (simp add: eval)
  show "version (flushed_segments p 4) = 1" by (simp add: eval)
  show "version (flushed_segments p 2) = 2" by (simp add: eval)
  have ids: "segment_id_start (flushed_segments p 4) = 5" "segment_id_end (flushed_segments p 4) = 5"
    "segment_id_start (flushed_segments p 0) = 3" "head_idx p = Some 0"
    "tail_idx p = Some 2" "in_used (flushed_segments p 4)"
    by (simp_all add: eval)
  show "find_segment_by_sids p 5 5 = Some (Some 4)"
    by (simp add: find_segment_by_sids_def walk_find.simps ids next0)
qed

end
