(* ===== verification/Spec2Isabelle.thy ===== *)
theory Spec2Isabelle
  imports ItemPointers SegmentPool Memtable SegmentRebuild MergeScheduler SegmentFiles TombstoneWalks
    SharedState BitmapVersions VacuumRedo Adoption IndexSlots TopK Search StatusPage MemtableRegistry
    Recovery FetchQueue FileTransfer MaintenanceTasks RequestProtocol TaskRing WorkerSearch
begin

text \<open>
  PostgreSQL-V: vector indexes of PostgreSQL kept as a log-structured merge index. This library models the
  index manager under \<^verbatim>\<open>src/postgresqlv/src\<close> as functions and step relations and states what makes it correct.
  All file names below are relative to that directory.

  \<^bold>\<open>The program.\<close> A row that is inserted into an indexed heap goes to the growing memtable of the index, in
  shared memory, and its tid to the status pages of the index relation (\<^verbatim>\<open>insert_lsm_index\<close>). A full memtable
  is sealed and queued (\<^verbatim>\<open>rotate_growing_memtable\<close>); a background worker writes it as a segment to the vector
  storage directory and hands it to the vector index worker (\<^verbatim>\<open>lsmbackground.c\<close>). That worker keeps the
  flushed segments of an index in a pool, rebuilds and merges them, and answers the segment part of a search
  (\<^verbatim>\<open>vector_index_worker.c\<close>, \<^verbatim>\<open>lsm_segment.c\<close>). A search takes a snapshot of the memtables, searches them in the
  backend and merges the result of the worker (\<^verbatim>\<open>search_lsm_index\<close>). VACUUM sets bits in tombstone bitmaps.
  After a crash, \<^verbatim>\<open>recover_lsm_index_internal\<close> builds shared memory again from status pages, segment files and
  heap. A standby replays WAL records into memtables and bitmaps and adopts segments it has fetched.

  \<^bold>\<open>The theories\<close>, in the order of their dependence:

  \<^item> \<open>Prelude\<close>: machine types, scanning loops, byte bitmaps. The locale \<open>tombstone_bitmap\<close> is the interface of
    the bitmap macros that all users of bitmaps rest on, \<open>total_loop\<close> that of loops which return on states of
    an invariant; both are interpreted on the code's definitions.
  \<^item> \<open>ItemPointers\<close> (\<^verbatim>\<open>utils.c\<close>): tids and their 64-bit encoding; it is injective and keeps the heap order.
  \<^item> \<open>SegmentPool\<close> (\<^verbatim>\<open>lsm_segment.c\<close>): the pool of flushed segments as an array threaded by links.
    \<open>pool_inv pool xs\<close> says that the links of the pool spell the list of slots \<open>xs\<close>, sorted by segment id, live
    and distinct; every operation keeps it, lookups agree with searching \<open>xs\<close>, and the loops return.
  \<^item> \<open>Memtable\<close> (\<^verbatim>\<open>lsmindex.h\<close>, \<^verbatim>\<open>lsmindex.c\<close>): a memtable and the lock-free insertion protocol as a step relation
    of any number of inserters; published rows are complete, slots are exclusive, every interleaving has the
    effect of an uninterrupted run.
  \<^item> \<open>SegmentRebuild\<close>, \<open>MergeScheduler\<close> (\<^verbatim>\<open>vector_index_worker.c\<close>): compaction and merging of rows, and the choice
    and the claim of merge tasks.
  \<^item> \<open>SegmentFiles\<close>, \<open>BitmapVersions\<close> (\<^verbatim>\<open>lsmindex_io.c\<close>): file names, versions, chunked files, the directory scan,
    the order of writes of a flush. A directory is an association list; a crash is a prefix of the writes.
  \<^item> \<open>TombstoneWalks\<close>, \<open>VacuumRedo\<close>, \<open>Adoption\<close> (\<^verbatim>\<open>segment_vacuum_redo.c\<close>, \<^verbatim>\<open>segment_adoption.c\<close>): the walks that
    carry deletions from one copy of a row set to another, replay of VACUUM, adoption of fetched segments.
  \<^item> \<open>SharedState\<close>, \<open>IndexSlots\<close> (\<^verbatim>\<open>lsmindex.h\<close>, \<^verbatim>\<open>lsmindex.c\<close>, \<^verbatim>\<open>index_recovery_worker.c\<close>): the shared structures and
    the life cycle of the index slots; an index has one live slot, unless it is rebuilt in place or the
    recovery worker takes the slot of a running build, which the state remembers (\<open>rebuilt\<close>, \<open>disturbed\<close>).
  \<^item> \<open>TopK\<close>, \<open>Search\<close> (\<^verbatim>\<open>lsmindex.c\<close>): merging of sorted candidates and the search of a backend, compared with
    sorting all candidates; reference counts are released on every path.
  \<^item> \<open>StatusPage\<close> (\<^verbatim>\<open>statuspage.c\<close>): the status pages. The locale \<open>memtable_log\<close> is the contract of a durable log
    of memtables; the pages are shown to refine a map from segment ids to tids.
  \<^item> \<open>MemtableRegistry\<close> (\<^verbatim>\<open>lsmindex.c\<close>, \<^verbatim>\<open>lsmbackground.c\<close>): registration, insertion, rotation, flush, hand-off and
    release by all processes together, on the map that the status pages refine. A row whose insertion
    returned is always in the status pages or on disk, and in every snapshot.
  \<^item> \<open>Recovery\<close> (\<^verbatim>\<open>lsmindex.c\<close>): crash recovery, which returns exactly when it has the room it needs
    (\<open>recovery_room\<close>) and then, with \<open>MemtableRegistry\<close>, has lost no returned row whose memtable was not skipped
    by a later flush.
  \<^item> \<open>WorkerSearch\<close> (\<^verbatim>\<open>vector_index_worker.c\<close>, \<^verbatim>\<open>vectorindeximpl.cpp\<close>): the segment side of a search. The worker pins and
    filters the segments, one task per segment runs in a thread pool among other users of the pool, the last
    one publishes; with \<open>Search\<close>, the answer of a whole search is the best of all live rows.
  \<^item> \<open>TaskRing\<close>, \<open>RequestProtocol\<close> (\<^verbatim>\<open>ringbuffer.c\<close>, \<^verbatim>\<open>tasksend.c\<close>, \<^verbatim>\<open>vector_index_worker.c\<close>): the requests of backends to
    the worker. The locale \<open>bounded_queue\<close> is the contract of the ring, interpreted on its slots; the senders, the
    worker and its threads are one step relation in which a request gets its own answer, unless its process has
    given up an earlier search.
  \<^item> \<open>MaintenanceTasks\<close> (\<^verbatim>\<open>maintenance_worker_thread\<close> in \<^verbatim>\<open>vector_index_worker.c\<close>): what each queued task does to the segment
    pools and which status it reports; loading by \<^verbatim>\<open>mmap\<close> with later upgrades is equivalent to loading into memory
    but for the offset tables, which the upgrades lose.
  \<^item> \<open>FileTransfer\<close> (\<^verbatim>\<open>replication_server.c\<close>, \<^verbatim>\<open>segment_fetcher.c\<close>): copying segment files to a standby. The server is a
    function on bytes, a pull is a sequence of changes of the directory that may be cut off anywhere.
  \<^item> \<open>FetchQueue\<close> (\<^verbatim>\<open>pending_fetch_queue.c\<close>, \<^verbatim>\<open>segment_fetcher.c\<close>): the persistent queue of segments to fetch, with redo,
    workers and crashes as a step relation; no request is lost, and the queue can always be drained.

  \<^bold>\<open>How code becomes definitions.\<close> A section of code under one lock is one function on the state that the lock
  protects; between two sections other processes may change it, which is an explicit argument or a step of
  another process. \<^verbatim>\<open>elog(ERROR)\<close>, an access outside an array and a loop that does not end are the value
  \<open>None\<close>, and theorems say when the result is \<open>Some\<close>. 32-bit counters are words, or naturals with the
  wrap-around written out. \<^verbatim>\<open>Assert\<close> is not compiled into a production build and is not a guard. Loops that
  follow links or wait are partial functions, and the lemmas show that they return.

  \<^bold>\<open>Ghost fields.\<close> Where the code allows a step after which a property fails, the step is in the relation and the
  state remembers it, so that the property says what it depends on: \<open>ts_abandoned\<close> are the backends that gave up
  a search by an error before they read its answer (\<open>RequestProtocol\<close>), \<open>ps_stray\<close> the retired segments that a
  late upgrade freed under a search (\<open>WorkerSearch\<close>), \<open>rebuilt\<close> and \<open>disturbed\<close> as said for \<open>IndexSlots\<close>.

  \<^bold>\<open>Bounds.\<close> Array sizes and limits are the macros of the code (\<open>MEMTABLE_NUM\<close>, \<open>MEMTABLE_BUF_SIZE\<close>,
  \<open>MEMTABLE_MAX_CAPACITY\<close>, \<open>MAX_SEGMENTS_COUNT\<close>, \<open>INDEX_BUF_SIZE\<close>, \<open>MAX_VACUUM_REDO_RETRIES\<close>,
  \<open>MAX_ADOPT_RETRIES\<close>). The number of pages is the fuel of walks along pages; the invariant of the status pages
  says that a walk visits a page at most once, so that it is enough.

  \<^bold>\<open>Parameters.\<close> Knowhere (search and building of vector indexes), the heap access of PostgreSQL, \<^verbatim>\<open>qsort\<close> of the
  C library and what other processes do between two locked sections. Their documented behaviour is a named
  hypothesis (\<open>knowhere_exact\<close>, \<open>sorts\<close>), instantiated in the witnesses.

  \<^bold>\<open>Not modelled.\<close> Of the index manager: the bulk deletion of VACUUM on the primary (\<^verbatim>\<open>bulk_delete_lsm_index\<close> and its
  helpers in \<^verbatim>\<open>lsmindex.c\<close>), whose tombstones enter the model only as the WAL records that \<open>VacuumRedo\<close> replays; the
  WAL resource manager and its records (\<^verbatim>\<open>replication_rmgr.c\<close>), which decode a record and call the handlers;
  the memtables of a standby (\<^verbatim>\<open>standby_memtable.c\<close>), so that the properties of the memtable life cycle
  speak of a primary; and in
  \<^verbatim>\<open>segment_fetcher.c\<close> the part that builds an adoption request from a fetched segment (\<open>FetchQueue\<close> and
  \<open>FileTransfer\<close> model the queue and the transfer, \<open>Adoption\<close> the adoption itself). The data types and access methods taken over from pgvector (\<^verbatim>\<open>vector.c\<close>, \<^verbatim>\<open>halfvec.c\<close>,
  \<^verbatim>\<open>sparsevec.c\<close>, \<^verbatim>\<open>bitvec.c\<close>, \<^verbatim>\<open>bitutils.c\<close>, \<^verbatim>\<open>halfutils.c\<close>, \<^verbatim>\<open>hnsw*.c\<close>, \<^verbatim>\<open>ivf*.c\<close>): they are floating-point arithmetic and the
  interface to the PostgreSQL executor, and the index manager uses of them only the bytes of a vector. The
  calls of Knowhere in \<^verbatim>\<open>vectorindeximpl.cpp\<close>, and sockets, latches, signals and settings: they are the
  environment of the model. Memory ordering below the granularity of a locked section or an atomic action is
  not modelled.
\<close>

end
